(* ===== verification/PC_Prelude.thy ===== *)
theory PC_Prelude
  imports Main "HOL-Library.Word" "HOL-Library.Multiset" "HOL-Library.Char_ord"
    "HOL-Library.List_Lexorder" "HOL-Library.Product_Lexorder" "HOL-Library.Option_ord"
begin

text \<open>
  The shared vocabulary of the development: the ways a C++ routine of the repository can fail to
  return (\<open>pc_error\<close>), the sequencing of fallible steps (\<open>andThen\<close>), the vector and map
  operations of the standard library the sources use, with their undefined cases written out, and
  the generic lemmas on lists and multisets that several components share.
\<close>

section \<open>Failures and sequencing\<close>

text \<open>
  \<open>Exit\<close> is a call of \<^verbatim>\<open>exit\<close> after a fatal message, \<open>Throw\<close> a C++ exception, \<open>Undefined\<close> is undefined behaviour of the
  language (erasing the end iterator, indexing a vector out of range, dereferencing a null pointer),
  \<open>Blocks\<close> is a wait on a condition variable whose predicate is false and \<open>Diverges\<close> is a loop that
  never ends.
\<close>

datatype pc_error =
    Exit string
  | Throw string
  | Undefined string
  | Blocks string
  | Diverges string

type_synonym 'a result = "pc_error + 'a"

text \<open>
  The exception \<^verbatim>\<open>NotEnoughSpace\<close> of the object model is caught and acted upon; the operations that can raise it return which way
  they left, together with the state they left behind.
\<close>

datatype flow = Returns | NotEnoughSpace

fun andThen :: "('e + 'a) \<Rightarrow> ('a \<Rightarrow> 'e + 'b) \<Rightarrow> 'e + 'b" where
  "andThen (Inl e) f = Inl e"
| "andThen (Inr x) f = f x"

definition orFail :: "bool \<Rightarrow> 'e \<Rightarrow> 'e + unit" where
  "orFail b e = (if b then Inr () else Inl e)"

named_theorems res_simps \<open>rewriting of sequenced results\<close>

lemma andThen_Inr_iff [res_simps]:
  "andThen m f = Inr y \<longleftrightarrow> (\<exists>x. m = Inr x \<and> f x = Inr y)"
  by (cases m) auto

lemma andThen_Inl_iff [res_simps]:
  "andThen m f = Inl e \<longleftrightarrow> m = Inl e \<or> (\<exists>x. m = Inr x \<and> f x = Inl e)"
  by (cases m) auto

lemma orFail_Inr_iff [res_simps]: "orFail b e = Inr u \<longleftrightarrow> b"
  by (auto simp: orFail_def)

lemma orFail_Inl_iff [res_simps]: "orFail b e = Inl e' \<longleftrightarrow> \<not> b \<and> e' = e"
  by (auto simp: orFail_def)

lemma orFail_True [simp]: "orFail True e = Inr ()"
  by (simp add: orFail_def)

lemma orFail_False [simp]: "orFail False e = Inl e"
  by (simp add: orFail_def)

lemma andThen_cong [fundef_cong]:
  "m = m' \<Longrightarrow> (\<And>x. m' = Inr x \<Longrightarrow> f x = f' x) \<Longrightarrow> andThen m f = andThen m' f'"
  by (cases m') auto

section \<open>Vectors\<close>

text \<open>
  \<^verbatim>\<open>std::vector\<close> is a list whose last element is \<^verbatim>\<open>back()\<close>. Reading \<^verbatim>\<open>back()\<close> of an empty
  vector, indexing out of range and erasing the result of a failed \<^verbatim>\<open>std::find\<close> are undefined.
\<close>

definition vec_back :: "'a list \<Rightarrow> 'a result" where
  "vec_back xs = (if xs = [] then Inl (Undefined ''back of an empty vector'') else Inr (last xs))"

definition vec_at :: "'a list \<Rightarrow> nat \<Rightarrow> 'a result" where
  "vec_at xs i =
     (if i < length xs then Inr (xs ! i) else Inl (Undefined ''vector index out of range''))"

definition vec_find_erase :: "'a \<Rightarrow> 'a list \<Rightarrow> 'a list result" where
  "vec_find_erase x xs =
     (if x \<in> set xs then Inr (remove1 x xs) else Inl (Undefined ''erase of the end iterator''))"

fun vec_erase_all :: "'a list \<Rightarrow> 'a list \<Rightarrow> 'a list result" where
  "vec_erase_all [] xs = Inr xs"
| "vec_erase_all (k # ks) xs = andThen (vec_find_erase k xs) (vec_erase_all ks)"

lemma vec_back_Inr_iff [res_simps]: "vec_back xs = Inr x \<longleftrightarrow> xs \<noteq> [] \<and> x = last xs"
  by (auto simp: vec_back_def)

lemma vec_at_Inr_iff [res_simps]: "vec_at xs i = Inr x \<longleftrightarrow> i < length xs \<and> x = xs ! i"
  by (auto simp: vec_at_def)

lemma vec_find_erase_Inr_iff [res_simps]:
  "vec_find_erase x xs = Inr ys \<longleftrightarrow> x \<in> set xs \<and> ys = remove1 x xs"
  by (auto simp: vec_find_erase_def)

text \<open>Erasing each element of a list of distinct members leaves exactly the others.\<close>

lemma vec_erase_all_ok:
  assumes "distinct ks" and "set ks \<subseteq> set xs" and "distinct xs"
  shows "vec_erase_all ks xs = Inr (filter (\<lambda>x. x \<notin> set ks) xs)"
  using assms
proof (induction ks arbitrary: xs)
  case Nil
  then show ?case by simp
next
  case (Cons k ks)
  have "vec_erase_all ks (remove1 k xs) = Inr (filter (\<lambda>x. x \<notin> set ks) (remove1 k xs))"
    using Cons.prems by (intro Cons.IH) auto
  moreover have "filter (\<lambda>x. x \<notin> set ks) (remove1 k xs) = filter (\<lambda>x. x \<notin> set (k # ks)) xs"
    using Cons.prems(3) by (simp add: distinct_remove1_removeAll removeAll_filter_not_eq)
       (metis (no_types, lifting))
  ultimately show ?case
    using Cons.prems(2) by (simp add: vec_find_erase_def)
qed

lemma last_in_set_butlast_snoc: "xs \<noteq> [] \<Longrightarrow> set xs = insert (last xs) (set (butlast xs))"
  by (metis append_butlast_last_id list.simps(15) rotate1.simps(2) set_rotate1)

lemma distinct_butlast_last:
  "xs \<noteq> [] \<Longrightarrow> distinct xs \<longleftrightarrow> distinct (butlast xs) \<and> last xs \<notin> set (butlast xs)"
  by (metis append_butlast_last_id distinct.simps(2) distinct1_rotate rotate1.simps(2))

lemma length_filter_flip:
  assumes "distinct xs" and "r \<in> set xs" and "\<not> P r" and "P' r" and "\<And>q. q \<noteq> r \<Longrightarrow> P' q = P q"
  shows "length (filter P' xs) = Suc (length (filter P xs))"
  using assms(1,2)
proof (induction xs)
  case (Cons x xs)
  show ?case
  proof (cases "x = r")
    case True
    then have "filter P' xs = filter P xs"
      using Cons.prems(1) assms(5) by (intro filter_cong) (auto, metis+)
    then show ?thesis using True assms(3,4) by simp
  next
    case False
    then show ?thesis using Cons assms(5) by auto
  qed
qed simp

lemma distinct_only:
  assumes "distinct xs" and "r \<in> set xs" and "\<And>q. q \<in> set xs \<Longrightarrow> q = r"
  shows "xs = [r]"
proof -
  have "set xs = {r}" using assms(2,3) by blast
  then have "length xs = 1" using distinct_card [OF assms(1)] by simp
  then show ?thesis using assms(2) by (auto simp: length_Suc_conv)
qed

lemma unat_less_2_32: "unat (w :: 32 word) < 4294967296"
proof -
  have "unat w < 2 ^ LENGTH(32)" by (rule unsigned_less)
  then show ?thesis by simp
qed

section \<open>Ordered maps\<close>

text \<open>
  \<^verbatim>\<open>std::map\<close> with a comparator that is a strict linear order: an association list kept strictly
  sorted by key, so that iteration visits the keys in the comparator's order.
\<close>

fun map_put :: "'k::linorder \<Rightarrow> 'v \<Rightarrow> ('k \<times> 'v) list \<Rightarrow> ('k \<times> 'v) list" where
  "map_put k v [] = [(k, v)]"
| "map_put k v ((a, b) # xs) =
     (if k < a then (k, v) # (a, b) # xs
      else if k = a then (k, v) # xs
      else (a, b) # map_put k v xs)"

definition map_erase :: "'k \<Rightarrow> ('k \<times> 'v) list \<Rightarrow> ('k \<times> 'v) list" where
  "map_erase k xs = filter (\<lambda>kv. fst kv \<noteq> k) xs"

definition map_ok :: "('k::linorder \<times> 'v) list \<Rightarrow> bool" where
  "map_ok xs \<longleftrightarrow> sorted_wrt (<) (map fst xs)"

text \<open>The contract of an ordered map, over its lookup function.\<close>

locale ordered_map =
  fixes put :: "'k \<Rightarrow> 'v \<Rightarrow> 'm \<Rightarrow> 'm"
    and erase :: "'k \<Rightarrow> 'm \<Rightarrow> 'm"
    and find :: "'m \<Rightarrow> 'k \<Rightarrow> 'v option"
    and ok :: "'m \<Rightarrow> bool"
  assumes find_put: "ok m \<Longrightarrow> find (put k v m) = (find m)(k \<mapsto> v)"
    and find_erase: "ok m \<Longrightarrow> find (erase k m) = (find m)(k := None)"
    and ok_put: "ok m \<Longrightarrow> ok (put k v m)"
    and ok_erase: "ok m \<Longrightarrow> ok (erase k m)"
begin

lemma erase_put_same: "ok m \<Longrightarrow> find m k = None \<Longrightarrow> find (erase k (put k v m)) = find m"
  by (auto simp: find_put find_erase ok_put)

lemma put_put: "ok m \<Longrightarrow> find (put k w (put k v m)) = find (put k w m)"
  by (simp add: find_put ok_put)

lemma put_commute:
  "ok m \<Longrightarrow> k \<noteq> l \<Longrightarrow> find (put k v (put l w m)) = find (put l w (put k v m))"
  by (simp add: find_put ok_put fun_upd_twist)

end

lemma set_map_fst_map_put: "fst ` set (map_put k v xs) = insert k (fst ` set xs)"
  by (induction k v xs rule: map_put.induct) auto

lemma map_ok_put: "map_ok xs \<Longrightarrow> map_ok (map_put k v xs)"
proof (induction k v xs rule: map_put.induct)
  case (2 k v a b xs)
  then show ?case
    using set_map_fst_map_put [of k v xs]
    by (auto simp: map_ok_def sorted_wrt_append not_less)
qed (simp add: map_ok_def)

lemma map_of_map_put: "map_ok xs \<Longrightarrow> map_of (map_put k v xs) = (map_of xs)(k \<mapsto> v)"
  by (induction k v xs rule: map_put.induct) (auto simp: map_ok_def fun_eq_iff)

lemma map_of_map_erase: "map_of (map_erase k xs) = (map_of xs)(k := None)"
  by (induction xs) (auto simp: map_erase_def fun_eq_iff)

lemma map_ok_filter: "map_ok xs \<Longrightarrow> map_ok (filter P xs)"
  by (induction xs) (auto simp: map_ok_def)

lemma map_ok_erase: "map_ok xs \<Longrightarrow> map_ok (map_erase k xs)"
  by (simp add: map_erase_def map_ok_filter)

lemma set_map_put_subset: "set (map_put k v xs) \<subseteq> insert (k, v) (set xs)"
  by (induction k v xs rule: map_put.induct) auto

interpretation std_map: ordered_map map_put map_erase map_of map_ok
  by unfold_locales (simp_all add: map_of_map_put map_of_map_erase map_ok_put map_ok_erase)

lemma map_ok_distinct: "map_ok xs \<Longrightarrow> distinct (map fst xs)"
  unfolding map_ok_def by (simp add: strict_sorted_iff)

lemma map_ok_Nil [simp]: "map_ok []"
  by (simp add: map_ok_def)

text \<open>How many entries hold a value, after a store and after an erasure.\<close>

definition entries_of :: "('k \<times> 'v) list \<Rightarrow> 'v \<Rightarrow> nat" where
  "entries_of m v = length (filter (\<lambda>e. snd e = v) m)"

lemma entries_of_put:
  assumes "map_ok m"
  shows "entries_of (map_put k v m) x + (if map_of m k = Some x then 1 else 0) =
    entries_of m x + (if x = v then 1 else 0)"
  using assms
proof (induction k v m rule: map_put.induct)
  case (2 k v a b m)
  have "map_of m k = None" if "k < a"
    using 2(2) that by (auto simp: map_ok_def map_of_eq_None_iff dest!: bspec [where x = k])
  then show ?case using 2 by (auto simp: entries_of_def map_ok_def)
qed (simp add: entries_of_def)

lemma entries_of_erase:
  assumes "map_ok m"
  shows "entries_of (map_erase k m) x + (if map_of m k = Some x then 1 else 0) = entries_of m x"
  using assms
proof (induction m)
  case (Cons e m)
  obtain a v where e: "e = (a, v)" by (cases e)
  have "map_of m k = None" if "k = a"
    using Cons.prems that by (auto simp: e map_ok_def map_of_eq_None_iff dest!: bspec [where x = k])
  then show ?case using Cons by (auto simp: e entries_of_def map_erase_def map_ok_def)
qed (simp add: entries_of_def map_erase_def)

lemma entries_of_pos: "(k, v) \<in> set m \<Longrightarrow> 0 < entries_of m v"
  by (force simp: entries_of_def filter_empty_conv)

text \<open>A sorted map is determined by its entries.\<close>

lemma map_ok_values: "distinct (map fst xs) \<Longrightarrow> map (\<lambda>k. (k, the (map_of xs k))) (map fst xs) = xs"
  by (induction xs) (auto simp: image_iff intro!: map_idI)

lemma map_ok_ext:
  assumes "map_ok xs" and "map_ok ys" and "map_of xs = map_of ys"
  shows "xs = ys"
proof -
  have "set (map fst xs) = set (map fst ys)"
    using dom_map_of_conv_image_fst [of xs] dom_map_of_conv_image_fst [of ys] assms(3) by simp
  moreover have "sorted (map fst xs)" "sorted (map fst ys)" "distinct (map fst xs)" "distinct (map fst ys)"
    using assms(1,2) by (auto simp: map_ok_def strict_sorted_iff)
  ultimately have "map fst xs = map fst ys" by (metis sorted_distinct_set_unique)
  then show ?thesis
    using map_ok_values [OF map_ok_distinct [OF assms(1)]] map_ok_values [OF map_ok_distinct [OF assms(2)]] assms(3)
    by metis
qed

lemma map_of_fold_put:
  assumes "map_ok m" and "distinct (map fst zs)"
  shows "map_ok (fold (\<lambda>(k, v). map_put k (f v)) zs m) \<and>
    map_of (fold (\<lambda>(k, v). map_put k (f v)) zs m) k =
      (case map_of zs k of None \<Rightarrow> map_of m k | Some v \<Rightarrow> Some (f v))"
  using assms
proof (induction zs arbitrary: m)
  case (Cons z zs)
  obtain a v where z: "z = (a, v)" by (cases z)
  have none: "map_of zs a = None" using Cons.prems(2) z by (auto simp: map_of_eq_None_iff)
  show ?case
    using Cons.IH [OF map_ok_put [OF Cons.prems(1)]] Cons.prems none
    by (auto simp: z map_of_map_put split: option.splits)
qed simp

lemma fold_put_set:
  assumes "map_ok xs" and "distinct (map fst zs)" and "set zs = set xs"
  shows "fold (\<lambda>(k, v). map_put k v) zs [] = xs"
proof -
  note mf = map_of_fold_put [OF map_ok_Nil assms(2), where f = "\<lambda>v. v"]
  have "map_of zs = map_of xs"
    using map_of_inject_set [OF assms(2) map_ok_distinct [OF assms(1)]] assms(3) by simp
  then have "map_of (fold (\<lambda>(k, v). map_put k v) zs []) = map_of xs"
    using mf by (auto simp: fun_eq_iff split: option.splits)
  then show ?thesis using mf assms(1) by (intro map_ok_ext) auto
qed

end
