(* ===== verification/PDBPage.thy ===== *)
theory PDBPage
  imports PC_Prelude
begin

text \<open>
  The vocabulary of the buffer manager: sets and their order (\<^verbatim>\<open>PDBSet.h\<close>, \<^verbatim>\<open>PDBSetCompare.h\<close>,
  \<^verbatim>\<open>PDBPageCompare.h\<close>), the page object (\<^verbatim>\<open>PDBPage.h\<close>, \<^verbatim>\<open>PDBPage.cc\<close>) and the byte transfers
  between RAM and files. A set pointer is an option, \<open>None\<close> being the null pointer of an anonymous
  page; a page key is the pair of set pointer and page number.
\<close>

section \<open>Sets and keys\<close>

datatype pdb_set = PDBSet (setName: string) (dbName: string)

text \<open>The constructor of the class takes the database name first.\<close>

definition make_PDBSet :: "string \<Rightarrow> string \<Rightarrow> pdb_set" where
  "make_PDBSet dbNameIn setNameIn = PDBSet setNameIn dbNameIn"

instantiation pdb_set :: linorder
begin

definition less_eq_pdb_set :: "pdb_set \<Rightarrow> pdb_set \<Rightarrow> bool" where
  "less_eq_pdb_set x y \<longleftrightarrow> (setName x, dbName x) \<le> (setName y, dbName y)"

definition less_pdb_set :: "pdb_set \<Rightarrow> pdb_set \<Rightarrow> bool" where
  "less_pdb_set x y \<longleftrightarrow> (setName x, dbName x) < (setName y, dbName y)"

instance
proof
  fix x y z :: pdb_set
  show "x < y \<longleftrightarrow> x \<le> y \<and> \<not> y \<le> x"
    unfolding less_eq_pdb_set_def less_pdb_set_def by (rule less_le_not_le)
  show "x \<le> x" unfolding less_eq_pdb_set_def by simp
  show "x \<le> y \<Longrightarrow> y \<le> z \<Longrightarrow> x \<le> z" unfolding less_eq_pdb_set_def by (rule order_trans)
  show "x \<le> y \<Longrightarrow> y \<le> x \<Longrightarrow> x = y"
    unfolding less_eq_pdb_set_def by (cases x; cases y) (auto dest: order_antisym)
  show "x \<le> y \<or> y \<le> x" unfolding less_eq_pdb_set_def by (rule linear)
qed

end

type_synonym page_key = "pdb_set option \<times> nat"

definition PDBSetCompare :: "pdb_set option \<Rightarrow> pdb_set option \<Rightarrow> bool" where
  "PDBSetCompare lhs rhs =
     (if lhs = None \<and> rhs \<noteq> None then True
      else if rhs = None then False
      else if setName (the lhs) \<noteq> setName (the rhs) then setName (the lhs) < setName (the rhs)
      else dbName (the lhs) < dbName (the rhs))"

definition PDBPageCompare :: "page_key \<Rightarrow> page_key \<Rightarrow> bool" where
  "PDBPageCompare lhs rhs =
     (if PDBSetCompare (fst lhs) (fst rhs) then True
      else if PDBSetCompare (fst rhs) (fst lhs) then False
      else snd lhs < snd rhs)"

lemma PDBSetCompare_less: "PDBSetCompare l r \<longleftrightarrow> l < r"
  by (cases l; cases r)
     (auto simp: PDBSetCompare_def less_pdb_set_def less_prod_def' order.order_iff_strict
       split: pdb_set.splits)

lemma PDBPageCompare_less: "PDBPageCompare l r \<longleftrightarrow> l < r"
  by (cases l; cases r) (auto simp: PDBPageCompare_def PDBSetCompare_less less_prod_def')

text \<open>
  C40: the comparators that order \<^verbatim>\<open>allPages\<close>, \<^verbatim>\<open>pageLocations\<close> and \<^verbatim>\<open>sentPages\<close> are strict linear
  orders, null sets included, which is what \<^verbatim>\<open>std::map\<close> requires: two keys are equivalent under
  the comparator exactly when they are equal, and no key compares below itself.
\<close>

theorem PDBPageCompare_strict_linear:
  "\<not> PDBPageCompare k k \<and>
   (PDBPageCompare k l \<and> PDBPageCompare l m \<longrightarrow> PDBPageCompare k m) \<and>
   (\<not> PDBPageCompare k l \<and> \<not> PDBPageCompare l k \<longleftrightarrow> k = l)"
  by (auto simp: PDBPageCompare_less)

theorem PDBPageCompare_strict_linear_witness:
  "PDBPageCompare (None, 3) (Some (PDBSet ''b'' ''a''), 1) \<and>
   PDBPageCompare (Some (PDBSet ''b'' ''a''), 1) (Some (PDBSet ''b'' ''a''), 2) \<and>
   PDBPageCompare (None, 3) (Some (PDBSet ''b'' ''a''), 2)"
  using PDBPageCompare_strict_linear
    [of "(None, 3)" "(Some (PDBSet ''b'' ''a''), 1)" "(Some (PDBSet ''b'' ''a''), 2)"]
  by (simp add: PDBPageCompare_less less_prod_def')

section \<open>Pages\<close>

datatype page_status =
    PDB_PAGE_LOADING
  | PDB_PAGE_LOADED
  | PDB_PAGE_UNLOADING
  | PDB_PAGE_FREEZING
  | PDB_PAGE_NOT_LOADED

text \<open>\<^verbatim>\<open>PDBPageInfo\<close>: the position in the file (\<open>-1\<close>: none yet) and the log of the page size.\<close>

record page_info =
  startPos :: int
  numBytes :: nat

text \<open>\<^verbatim>\<open>bytes\<close> is the address of the page in the shared memory, \<open>None\<close> the null pointer.\<close>

record pdb_page =
  bytes :: "nat option"
  status :: page_status
  pinned :: bool
  dirty :: bool
  refCount :: nat
  pageNum :: nat
  isAnon :: bool
  sizeFrozen :: bool
  location :: page_info
  whichSet :: "pdb_set option"

text \<open>The state of a page object right after its constructor.\<close>

definition PDBPage_new :: pdb_page where
  "PDBPage_new =
     \<lparr>bytes = None, status = PDB_PAGE_NOT_LOADED, pinned = False, dirty = False, refCount = 0,
      pageNum = 0, isAnon = True, sizeFrozen = False,
      location = \<lparr>startPos = 0, numBytes = 0\<rparr>, whichSet = None\<rparr>"

definition incRefCount :: "pdb_page \<Rightarrow> pdb_page" where
  "incRefCount p = p\<lparr>refCount := refCount p + 1\<rparr>"

definition setDirty :: "pdb_page \<Rightarrow> pdb_page" where
  "setDirty p = p\<lparr>dirty := True\<rparr>"

definition page_key :: "pdb_page \<Rightarrow> page_key" where
  "page_key p = (whichSet p, pageNum p)"

lemma page_key_upd [simp]:
  "page_key (p\<lparr>bytes := b\<rparr>) = page_key p" "page_key (p\<lparr>status := t\<rparr>) = page_key p"
  "page_key (p\<lparr>pinned := x\<rparr>) = page_key p" "page_key (p\<lparr>dirty := x\<rparr>) = page_key p"
  "page_key (p\<lparr>refCount := n\<rparr>) = page_key p" "page_key (p\<lparr>sizeFrozen := x\<rparr>) = page_key p"
  "page_key (p\<lparr>location := l\<rparr>) = page_key p"
  by (simp_all add: page_key_def)

definition is_busy :: "page_status \<Rightarrow> bool" where
  "is_busy st \<longleftrightarrow> st = PDB_PAGE_LOADING \<or> st = PDB_PAGE_UNLOADING"

section \<open>Moving bytes between RAM and a file\<close>

type_synonym byte = "8 word"

text \<open>
  \<open>pwrite\<close> extends the file with zeros up to its start; \<open>pread\<close> beyond the end of the file transfers
  fewer bytes and leaves the rest of the buffer as it was. Both fail on a negative position.
\<close>

definition pwrite :: "byte list \<Rightarrow> (nat \<Rightarrow> byte) \<Rightarrow> nat \<Rightarrow> nat \<Rightarrow> nat \<Rightarrow> byte list" where
  "pwrite f ram a n pos =
     map (\<lambda>i. if pos \<le> i \<and> i < pos + n then ram (a + (i - pos)) else if i < length f then f ! i else 0)
         [0..<max (length f) (pos + n)]"

definition pread :: "byte list \<Rightarrow> (nat \<Rightarrow> byte) \<Rightarrow> nat \<Rightarrow> nat \<Rightarrow> nat \<Rightarrow> nat \<Rightarrow> byte" where
  "pread f ram a n pos =
     (\<lambda>x. if a \<le> x \<and> x < a + n \<and> pos + (x - a) < length f then f ! (pos + (x - a)) else ram x)"

text \<open>What a region of a file or of RAM holds.\<close>

definition file_region :: "byte list \<Rightarrow> nat \<Rightarrow> nat \<Rightarrow> byte list option" where
  "file_region f pos n = (if pos + n \<le> length f then Some (take n (drop pos f)) else None)"

definition ram_region :: "(nat \<Rightarrow> byte) \<Rightarrow> nat \<Rightarrow> nat \<Rightarrow> byte list" where
  "ram_region ram a n = map ram [a..<a + n]"

lemma length_pwrite: "length (pwrite f ram a n pos) = max (length f) (pos + n)"
  by (simp add: pwrite_def)

lemma file_region_pwrite: "file_region (pwrite f ram a n pos) pos n = Some (ram_region ram a n)"
  unfolding file_region_def ram_region_def
  by (auto simp: length_pwrite pwrite_def intro!: nth_equalityI)

lemma file_region_pwrite_other:
  assumes "pos' + n' \<le> pos \<or> pos + n \<le> pos'" and "file_region f pos' n' = Some xs"
  shows "file_region (pwrite f ram a n pos) pos' n' = Some xs"
  using assms unfolding file_region_def
  by (auto simp: length_pwrite pwrite_def split: if_splits intro!: nth_equalityI)

lemma ram_region_pread:
  assumes "file_region f pos n = Some xs"
  shows "ram_region (pread f ram a n pos) a n = xs"
proof -
  have len: "pos + n \<le> length f" and xs: "xs = take n (drop pos f)"
    using assms by (auto simp: file_region_def split: if_splits)
  show ?thesis
    unfolding xs ram_region_def by (rule nth_equalityI) (use len in \<open>auto simp: pread_def\<close>)
qed

lemma ram_region_pread_other:
  "b + m \<le> a \<or> a + n \<le> b \<Longrightarrow> ram_region (pread f ram a n pos) b m = ram_region ram b m"
  by (auto simp: ram_region_def pread_def)

end
