(* ===== verification/BufferManager.thy ===== *)
theory BufferManager
  imports PDBPage
begin

text \<open>
  The per-node buffer manager, \<^verbatim>\<open>bufferManager/source/PDBBufferManagerImpl.cc\<close>: its state and every
  operation, as state transformers over one record. Each public call runs under the manager's mutex;
  the model is the behaviour of calls that do not overlap. A wait on a condition variable whose
  predicate is false is \<open>Blocks\<close>; \<^verbatim>\<open>exit\<close> is \<open>Exit\<close>. A map of the code that is only read through
  \<^verbatim>\<open>operator[]\<close> (\<^verbatim>\<open>numPinned\<close>, \<^verbatim>\<open>constituentPages\<close>, \<^verbatim>\<open>unusedMiniPages\<close>) is a total function with
  the default value. A file descriptor is identified with the file it is open on.
\<close>

section \<open>State\<close>

record bm =
  minPage :: nat
  memory :: nat
  pageSize :: nat
  numPages :: nat
  initialized :: bool
  pages :: "nat \<Rightarrow> pdb_page"
  nextPage :: nat
  allPages :: "(page_key \<times> nat) list"
  pageLocations :: "(page_key \<times> page_info) list"
  endOfFiles :: "(pdb_set option \<times> nat) list"
  lastUsed :: "(nat \<times> nat) list"
  numPinned :: "nat \<Rightarrow> int"
  fds :: "(pdb_set option \<times> string) list"
  emptyFullPages :: "nat list"
  constituentPages :: "nat \<Rightarrow> nat list"
  emptyMiniPages :: "nat list list"
  unusedMiniPages :: "nat \<Rightarrow> nat list \<times> nat"
  availablePositions :: "nat list list"
  lastTimeTick :: nat
  lastTempPos :: nat
  logOfPageSize :: int
  isCreatingSpace :: "bool list"
  freeAnonPageNumbers :: "nat list"
  lastFreeAnonPageNumber :: nat
  tempFile :: string
  metaDataFile :: string
  storageLoc :: string
  tempData :: "byte list"
  files :: "string \<Rightarrow> byte list"
  ram :: "nat \<Rightarrow> byte"
  ioOk :: bool

definition upd_page :: "nat \<Rightarrow> (pdb_page \<Rightarrow> pdb_page) \<Rightarrow> bm \<Rightarrow> bm" where
  "upd_page r f s = s\<lparr>pages := (pages s)(r := f (pages s r))\<rparr>"

definition set_location :: "page_info \<Rightarrow> pdb_page \<Rightarrow> pdb_page" where
  "set_location i p = p\<lparr>location := i\<rparr>"

section \<open>Addresses and sizes\<close>

text \<open>The full page that holds an address.\<close>

definition parent_of :: "bm \<Rightarrow> nat \<Rightarrow> nat" where
  "parent_of s a = memory s + ((a - memory s) div pageSize s) * pageSize s"

text \<open>
  \<^verbatim>\<open>MIN_PAGE_SIZE << k\<close>: the macro is an \<^verbatim>\<open>unsigned\<close> literal, so the shift is done in 32 bits, also
  where the result is stored in a \<^verbatim>\<open>size_t\<close>.
\<close>

definition miniBytes :: "bm \<Rightarrow> nat \<Rightarrow> nat" where
  "miniBytes s k = (minPage s * 2 ^ k) mod 2 ^ 32"

text \<open>The size a handle reports.\<close>

definition getSize :: "nat \<Rightarrow> bm \<Rightarrow> nat" where
  "getSize r s = miniBytes s (numBytes (location (pages s r)))"

text \<open>\<open>getLogPageSize\<close>: a 64-bit counter is shifted until it covers the request; once it has been shifted
  to zero the loop does not end.\<close>

fun log_loop :: "nat \<Rightarrow> nat \<Rightarrow> nat \<Rightarrow> nat \<Rightarrow> nat result" where
  "log_loop 0 cur nb acc = Inl (Diverges ''getLogPageSize'')"
| "log_loop (Suc fuel) cur nb acc =
     (if cur < nb then log_loop fuel (cur * 2 mod 2 ^ 64) nb (acc + 1) else Inr acc)"

definition getLogPageSize :: "bm \<Rightarrow> nat \<Rightarrow> nat result" where
  "getLogPageSize s nb = log_loop 65 (minPage s) nb 0"

text \<open>The offsets visited by \<^verbatim>\<open>for (offset = start; offset < pageSize; offset += inc)\<close>.\<close>

function offsets_from :: "nat \<Rightarrow> nat \<Rightarrow> nat \<Rightarrow> nat list" where
  "offsets_from inc psz off = (if inc = 0 \<or> psz \<le> off then [] else off # offsets_from inc psz (off + inc))"
  by pat_completeness auto
termination by (relation "measure (\<lambda>(inc, psz, off). psz - off)") auto

declare offsets_from.simps [simp del]

definition split_offsets :: "nat \<Rightarrow> nat \<Rightarrow> nat \<Rightarrow> nat list result" where
  "split_offsets inc psz start =
     (if inc = 0 \<and> start < psz then Inl (Diverges ''splitting a page'')
      else Inr (offsets_from inc psz start))"

section \<open>The LRU queue\<close>

text \<open>
  \<^verbatim>\<open>lastUsed\<close> is a set ordered by the tick alone: an insertion with a tick already present does
  nothing, an erasure removes the entry with that tick whatever its page.
\<close>

fun lru_insert :: "nat \<times> nat \<Rightarrow> (nat \<times> nat) list \<Rightarrow> (nat \<times> nat) list" where
  "lru_insert x [] = [x]"
| "lru_insert x (y # ys) =
     (if snd x < snd y then x # y # ys else if snd x = snd y then y # ys else y # lru_insert x ys)"

definition lru_erase :: "nat \<Rightarrow> (nat \<times> nat) list \<Rightarrow> (nat \<times> nat) list" where
  "lru_erase t xs = filter (\<lambda>x. snd x \<noteq> t) xs"

text \<open>The tick to erase is passed as \<^verbatim>\<open>unsigned\<close>, 32 bits.\<close>

definition tick32 :: "int \<Rightarrow> nat" where
  "tick32 t = nat t mod 2 ^ 32"

section \<open>Pinning\<close>

definition pinFrame :: "nat \<Rightarrow> bm \<Rightarrow> bm" where
  "pinFrame f s =
     (if numPinned s f < 0
      then s\<lparr>lastUsed := lru_erase (tick32 (- numPinned s f)) (lastUsed s),
             numPinned := (numPinned s)(f := 1)\<rparr>
      else s\<lparr>numPinned := (numPinned s)(f := numPinned s f + 1)\<rparr>)"

definition pinParent :: "nat \<Rightarrow> bm \<Rightarrow> bm result" where
  "pinParent r s =
     (case bytes (pages s r) of
        None \<Rightarrow> Inl (Undefined ''parent of a null page'')
      | Some a \<Rightarrow> Inr (pinFrame (parent_of s a) s))"

definition registerMiniPage :: "nat \<Rightarrow> bm \<Rightarrow> bm result" where
  "registerMiniPage r s =
     (case bytes (pages s r) of
        None \<Rightarrow> Inl (Undefined ''parent of a null page'')
      | Some a \<Rightarrow>
          (let f = parent_of s a
           in pinParent r (s\<lparr>constituentPages :=
                (constituentPages s)(f := constituentPages s f @ [r])\<rparr>)))"

text \<open>A full page with no pinned mini-page goes into the LRU queue under the current tick.\<close>

definition to_lru :: "nat \<Rightarrow> bm \<Rightarrow> bm" where
  "to_lru f s =
     s\<lparr>numPinned := (numPinned s)(f := - int (lastTimeTick s)),
       lastUsed := lru_insert (f, lastTimeTick s) (lastUsed s),
       lastTimeTick := lastTimeTick s + 1\<rparr>"

section \<open>Disk transfers\<close>

definition write_temp :: "nat option \<Rightarrow> nat \<Rightarrow> int \<Rightarrow> bm \<Rightarrow> bm result" where
  "write_temp a n pos s =
     (case a of
        None \<Rightarrow> Inl (Exit ''writing anonymous page to disk'')
      | Some a \<Rightarrow>
          if ioOk s \<and> 0 \<le> pos then Inr (s\<lparr>tempData := pwrite (tempData s) (ram s) a n (nat pos)\<rparr>)
          else Inl (Exit ''writing anonymous page to disk''))"

definition fd_of :: "pdb_set option \<Rightarrow> bm \<Rightarrow> string result" where
  "fd_of st s =
     (case map_of (fds s) st of None \<Rightarrow> Inl (Undefined ''descriptor 0'') | Some p \<Rightarrow> Inr p)"

definition write_file :: "string \<Rightarrow> nat option \<Rightarrow> nat \<Rightarrow> int \<Rightarrow> bm \<Rightarrow> bm result" where
  "write_file path a n pos s =
     (case a of
        None \<Rightarrow> Inl (Exit ''writing page to disk'')
      | Some a \<Rightarrow>
          if ioOk s \<and> 0 \<le> pos
          then Inr (s\<lparr>files := (files s)(path := pwrite (files s path) (ram s) a n (nat pos))\<rparr>)
          else Inl (Exit ''writing page to disk''))"

definition read_into :: "byte list \<Rightarrow> nat option \<Rightarrow> nat \<Rightarrow> int \<Rightarrow> bm \<Rightarrow> bm result" where
  "read_into f a n pos s =
     (case a of
        None \<Rightarrow> Inl (Exit ''reading page from disk'')
      | Some a \<Rightarrow>
          if ioOk s \<and> 0 \<le> pos then Inr (s\<lparr>ram := pread f (ram s) a n (nat pos)\<rparr>)
          else Inl (Exit ''reading page from disk''))"

section \<open>Eviction and splitting\<close>

text \<open>One iteration of the loop over the constituent pages of the evicted full page.\<close>

definition temp_position :: "nat \<Rightarrow> bm \<Rightarrow> (nat \<times> bm) result" where
  "temp_position k s =
     andThen (vec_at (availablePositions s) k) (\<lambda>av.
       if av = [] then Inr (lastTempPos s, s\<lparr>lastTempPos := lastTempPos s + miniBytes s k\<rparr>)
       else Inr (last av, s\<lparr>availablePositions := (availablePositions s)[k := butlast av]\<rparr>))"

definition evict_page :: "nat \<Rightarrow> bm \<Rightarrow> bm result" where
  "evict_page r s =
     (let p = pages s r
      in andThen
        (if isAnon p \<and> dirty p then
           andThen (temp_position (numBytes (location p)) s) (\<lambda>(pos, s1).
             write_temp (bytes p) (miniBytes s (numBytes (location p))) (int pos)
               (upd_page r (set_location ((location p)\<lparr>startPos := int pos\<rparr>)) s1))
         else
           andThen
             (if dirty p then
                andThen (fd_of (whichSet p) s) (\<lambda>path.
                  write_file path (bytes p) (miniBytes s (numBytes (location p)))
                    (startPos (location p)) s)
              else Inr s)
             (\<lambda>s1. Inr (if refCount p = 0
                        then s1\<lparr>allPages := map_erase (page_key p) (allPages s1)\<rparr> else s1)))
        (\<lambda>s2. Inr (upd_page r (\<lambda>p. p\<lparr>dirty := False, bytes := None\<rparr>) s2)))"

fun evict_pages :: "nat list \<Rightarrow> bm \<Rightarrow> bm result" where
  "evict_pages [] s = Inr s"
| "evict_pages (r # rs) s = andThen (evict_page r s) (evict_pages rs)"

definition set_status :: "page_status \<Rightarrow> nat list \<Rightarrow> bm \<Rightarrow> bm" where
  "set_status st rs s =
     s\<lparr>pages := (\<lambda>r. if r \<in> set rs then (pages s r)\<lparr>status := st\<rparr> else pages s r)\<rparr>"

text \<open>Forget the unused mini-pages of a full page, in both structures that list them.\<close>

definition drop_unused :: "nat \<Rightarrow> bm \<Rightarrow> bm result" where
  "drop_unused f s =
     (let (un, k) = unusedMiniPages s f
      in andThen (vec_at (emptyMiniPages s) k) (\<lambda>em.
         andThen (vec_erase_all un em) (\<lambda>em'.
           Inr (s\<lparr>emptyMiniPages := (emptyMiniPages s)[k := em'],
                  unusedMiniPages := (unusedMiniPages s)(f := ([], k))\<rparr>))))"

text \<open>The branch of \<open>createAdditionalMiniPages\<close> that evicts the least recently used full page.\<close>

definition evict_lru :: "bm \<Rightarrow> bm result" where
  "evict_lru s =
     (case lastUsed s of
        [] \<Rightarrow> Inl (Exit ''run out of RAM in the storage manager'')
      | (f, t) # rest \<Rightarrow>
          (let rs = constituentPages s f
           in andThen (drop_unused f (set_status PDB_PAGE_UNLOADING rs (s\<lparr>lastUsed := rest\<rparr>))) (\<lambda>s1.
              andThen (evict_pages rs s1) (\<lambda>s2.
                Inr ((set_status PDB_PAGE_NOT_LOADED rs s2)
                  \<lparr>constituentPages := (constituentPages s2)(f := []),
                   emptyFullPages := emptyFullPages s2 @ [f],
                   numPinned := (numPinned s2)(f := 0)\<rparr>)))))"

text \<open>The rest of \<open>createAdditionalMiniPages\<close>: break the last empty full page into mini-pages.\<close>

definition split_full_page :: "nat \<Rightarrow> bm \<Rightarrow> bm result" where
  "split_full_page k s =
     andThen (vec_back (emptyFullPages s)) (\<lambda>f.
     andThen (split_offsets (miniBytes s k) (pageSize s) 0) (\<lambda>offs.
     andThen (vec_at (emptyMiniPages s) k) (\<lambda>em.
       Inr (s\<lparr>emptyMiniPages := (emptyMiniPages s)[k := em @ map (\<lambda>off. f + off) offs],
              unusedMiniPages := (unusedMiniPages s)
                (f := (fst (unusedMiniPages s f) @ map (\<lambda>off. f + off) offs, k)),
              numPinned := (numPinned s)(f := 0),
              emptyFullPages := butlast (emptyFullPages s)\<rparr>))))"

definition createAdditionalMiniPages :: "nat \<Rightarrow> bm \<Rightarrow> bm result" where
  "createAdditionalMiniPages k s =
     andThen (vec_at (isCreatingSpace s) k) (\<lambda>busy.
     if busy then Inl (Blocks ''spaceCV'')
     else andThen (vec_at (emptyMiniPages s) k) (\<lambda>em.
     if em \<noteq> [] then Inr s
     else andThen (if emptyFullPages s = []
                   then evict_lru (s\<lparr>isCreatingSpace := (isCreatingSpace s)[k := True]\<rparr>)
                   else Inr (s\<lparr>isCreatingSpace := (isCreatingSpace s)[k := True]\<rparr>)) (\<lambda>s1.
          andThen (split_full_page k s1) (\<lambda>s2.
            Inr (s2\<lparr>isCreatingSpace := (isCreatingSpace s2)[k := False]\<rparr>)))))"

definition getEmptyMemory :: "nat \<Rightarrow> bm \<Rightarrow> (nat \<times> bm) result" where
  "getEmptyMemory k s =
     andThen (vec_at (emptyMiniPages s) k) (\<lambda>em0.
     andThen (if em0 = [] then createAdditionalMiniPages k s else Inr s) (\<lambda>s1.
     andThen (vec_at (emptyMiniPages s1) k) (\<lambda>em.
     andThen (vec_back em) (\<lambda>space.
       (let f = parent_of s1 space; (un, c) = unusedMiniPages s1 f
        in andThen (vec_find_erase space un) (\<lambda>un'.
             Inr (space, s1\<lparr>emptyMiniPages := (emptyMiniPages s1)[k := butlast em],
                            unusedMiniPages := (unusedMiniPages s1)(f := (un', c))\<rparr>)))))))"

section \<open>Page operations\<close>

text \<open>
  The private \<open>repin\<close>: nothing for a pinned page, pin the parent of a buffered one, otherwise find
  memory, register the page on it and read its bytes back from the temporary file or the file of its
  set.
\<close>

definition repin_locked :: "nat \<Rightarrow> bm \<Rightarrow> bm result" where
  "repin_locked r s =
     (let p = pages s r; info = location p
      in if pinned p then Inr s
         else if bytes p \<noteq> None then pinParent r (upd_page r (\<lambda>p. p\<lparr>pinned := True\<rparr>) s)
         else
           andThen (getEmptyMemory (numBytes info) (upd_page r (\<lambda>p. p\<lparr>status := PDB_PAGE_LOADING\<rparr>) s))
             (\<lambda>(space, s1).
           andThen (registerMiniPage r (upd_page r (\<lambda>p. p\<lparr>bytes := Some space\<rparr>) s1)) (\<lambda>s2.
           andThen
             (if isAnon p
              then read_into (tempData s2) (Some space) (miniBytes s2 (numBytes info)) (startPos info)
                     (upd_page r (\<lambda>p. p\<lparr>pinned := True\<rparr>) s2)
              else andThen (fd_of (whichSet p) s2) (\<lambda>path.
                     read_into (files s2 path) (Some space) (miniBytes s2 (numBytes info)) (startPos info)
                       (upd_page r (\<lambda>p. p\<lparr>pinned := True\<rparr>) s2))) (\<lambda>s3.
             Inr (upd_page r (\<lambda>p. p\<lparr>status := PDB_PAGE_LOADED\<rparr>) s3)))))"

definition repin :: "nat \<Rightarrow> bm \<Rightarrow> bm result" where
  "repin r s = (if is_busy (status (pages s r)) then Inl (Blocks ''pagesCV'') else repin_locked r s)"

text \<open>A set page gets its place in the file of its set the first time it is unpinned.\<close>

definition assign_location :: "nat \<Rightarrow> bm \<Rightarrow> bm" where
  "assign_location r s =
     (let p = pages s r; st = whichSet p;
          eof = (case map_of (endOfFiles s) st of None \<Rightarrow> 0 | Some e \<Rightarrow> e);
          loc = (location p)\<lparr>startPos := int eof\<rparr>
      in (upd_page r (set_location loc) s)
           \<lparr>pageLocations := map_put (page_key p) loc (pageLocations s),
            endOfFiles := map_put st (eof + miniBytes s (numBytes loc)) (endOfFiles s)\<rparr>)"

definition unpin_frame :: "nat \<Rightarrow> bm \<Rightarrow> bm" where
  "unpin_frame f s =
     (let s1 = (if numPinned s f > 0 then s\<lparr>numPinned := (numPinned s)(f := numPinned s f - 1)\<rparr> else s)
      in if numPinned s1 f = 0 then to_lru f s1 else s1)"

definition unpin :: "nat \<Rightarrow> bm \<Rightarrow> bm result" where
  "unpin r s =
     (if \<not> pinned (pages s r) then Inr s
      else case bytes (pages s r) of
        None \<Rightarrow> Inl (Undefined ''parent of a null page'')
      | Some a \<Rightarrow>
          (let s1 = unpin_frame (parent_of s a)
                      (upd_page r (\<lambda>p. p\<lparr>pinned := False, sizeFrozen := True\<rparr>) s);
               p = pages s1 r
           in Inr (if \<not> isAnon p \<and> map_of (pageLocations s1) (page_key p) = None
                   then assign_location r s1 else s1)))"

definition freezeSize :: "nat \<Rightarrow> nat \<Rightarrow> bm \<Rightarrow> bm result" where
  "freezeSize r nb s =
     (let p = pages s r
      in if \<not> pinned p then Inl (Exit ''You cannot freeze an unpinned page'')
         else if sizeFrozen p then Inl (Exit ''You cannot freeze the size of a page twice'')
         else andThen (getLogPageSize s nb) (\<lambda>k.
           if k > numBytes (location p) then Inl (Exit ''You cannot freeze to a greater size'')
           else case bytes p of
             None \<Rightarrow> Inl (Undefined ''freezing a null page'')
           | Some a \<Rightarrow>
               andThen (split_offsets (miniBytes s k) (pageSize s) (miniBytes s k)) (\<lambda>offs.
               andThen (vec_at (emptyMiniPages s) k) (\<lambda>em.
                 Inr ((upd_page r (\<lambda>p. p\<lparr>sizeFrozen := True,
                                          location := (location p)\<lparr>numBytes := k\<rparr>\<rparr>) s)
                   \<lparr>emptyMiniPages := (emptyMiniPages s)[k := em @ map (\<lambda>off. a + off) offs],
                    unusedMiniPages := (unusedMiniPages s)
                      (a := (fst (unusedMiniPages s a) @ map (\<lambda>off. a + off) offs, k))\<rparr>)))))"

section \<open>Requests for pages\<close>

text \<open>
  The number of an anonymous page: the last returned one, or the next of a 32-bit signed counter. The
  test against the largest 64-bit value can never hold for that counter; overflowing it is undefined.
\<close>

definition take_anon_number :: "bm \<Rightarrow> (nat \<times> bm) result" where
  "take_anon_number s =
     (if freeAnonPageNumbers s = []
      then (if lastFreeAnonPageNumber s + 1 \<ge> 2 ^ 31 then Inl (Undefined ''signed overflow'')
            else Inr (lastFreeAnonPageNumber s + 1,
                      s\<lparr>lastFreeAnonPageNumber := lastFreeAnonPageNumber s + 1\<rparr>))
      else Inr (last (freeAnonPageNumbers s),
                s\<lparr>freeAnonPageNumbers := butlast (freeAnonPageNumbers s)\<rparr>))"

definition new_page :: "pdb_page \<Rightarrow> bm \<Rightarrow> nat \<times> bm" where
  "new_page p s = (nextPage s, s\<lparr>pages := (pages s)(nextPage s := p), nextPage := nextPage s + 1\<rparr>)"

definition getPage_bytes :: "nat \<Rightarrow> bm \<Rightarrow> (nat \<times> bm) result" where
  "getPage_bytes maxBytes s =
     (if \<not> initialized s then Inl (Exit ''not initialized'')
      else andThen (getLogPageSize s maxBytes) (\<lambda>k.
           andThen (getEmptyMemory k s) (\<lambda>(space, s1).
           andThen (take_anon_number s1) (\<lambda>(num, s2).
             (let (r, s3) = new_page (PDBPage_new\<lparr>pinned := True, dirty := True, bytes := Some space,
                    isAnon := True, pageNum := num,
                    location := \<lparr>startPos = -1, numBytes = k\<rparr>, status := PDB_PAGE_LOADED\<rparr>) s2
              in andThen (registerMiniPage r s3) (\<lambda>s4. Inr (r, upd_page r incRefCount s4)))))))"

definition getPage_anon :: "bm \<Rightarrow> (nat \<times> bm) result" where
  "getPage_anon s = getPage_bytes (pageSize s) s"

definition set_path :: "bm \<Rightarrow> pdb_set \<Rightarrow> string" where
  "set_path s st = storageLoc s @ ''/'' @ setName st @ ''.'' @ dbName st"

definition checkIfOpen :: "pdb_set \<Rightarrow> bm \<Rightarrow> bm result" where
  "checkIfOpen st s =
     (if map_of (fds s) (Some st) = None
      then (if ioOk s
            then (let s1 = s\<lparr>fds := map_put (Some st) (set_path s st) (fds s)\<rparr>
                  in Inr (if map_of (endOfFiles s1) (Some st) = None
                          then s1\<lparr>endOfFiles := map_put (Some st) 0 (endOfFiles s1)\<rparr> else s1))
            else Inl (Exit ''Fail to open the file''))
      else Inr s)"

text \<open>A set page that has never been written: a fresh full-size page.\<close>

definition getPage_create :: "pdb_set \<Rightarrow> nat \<Rightarrow> bm \<Rightarrow> (nat \<times> bm) result" where
  "getPage_create st i s =
     (let (r, s1) = new_page (PDBPage_new\<lparr>pinned := True, dirty := True, whichSet := Some st,
            pageNum := i, isAnon := False,
            location := \<lparr>startPos = int i, numBytes = nat (logOfPageSize s)\<rparr>,
            status := PDB_PAGE_LOADING\<rparr>) s;
          s2 = s1\<lparr>allPages := map_put (Some st, i) r (allPages s1)\<rparr>
      in andThen (getEmptyMemory (nat (logOfPageSize s)) s2) (\<lambda>(space, s3).
         andThen (registerMiniPage r (upd_page r (\<lambda>p. p\<lparr>bytes := Some space\<rparr>) s3)) (\<lambda>s4.
           Inr (r, upd_page r (\<lambda>p. (incRefCount p)\<lparr>status := PDB_PAGE_LOADED\<rparr>) s4))))"

text \<open>A set page that has been written before and has no page object: read it back.\<close>

definition getPage_load :: "pdb_set \<Rightarrow> nat \<Rightarrow> page_info \<Rightarrow> bm \<Rightarrow> (nat \<times> bm) result" where
  "getPage_load st i info s =
     (let (r, s1) = new_page (PDBPage_new\<lparr>pinned := True, dirty := False, whichSet := Some st,
            pageNum := i, isAnon := False, location := info, status := PDB_PAGE_LOADING,
            refCount := 1\<rparr>) s;
          s2 = s1\<lparr>allPages := map_put (Some st, i) r (allPages s1)\<rparr>
      in andThen (getEmptyMemory (numBytes info) s2) (\<lambda>(space, s3).
         andThen (registerMiniPage r (upd_page r (\<lambda>p. p\<lparr>bytes := Some space\<rparr>) s3)) (\<lambda>s4.
         andThen (fd_of (Some st) s4) (\<lambda>path.
         andThen (read_into (files s4 path) (Some space) (miniBytes s4 (numBytes info)) (startPos info) s4)
           (\<lambda>s5. Inr (r, upd_page r (\<lambda>p. p\<lparr>status := PDB_PAGE_LOADED\<rparr>) s5))))))"

definition getPage_set :: "pdb_set option \<Rightarrow> nat \<Rightarrow> bm \<Rightarrow> (nat \<times> bm) result" where
  "getPage_set st' i s0 =
     (if \<not> initialized s0 then Inl (Exit ''not initialized'')
      else case st' of
        None \<Rightarrow> Inl (Exit ''null table'')
      | Some st \<Rightarrow>
          andThen (checkIfOpen st s0) (\<lambda>s.
          case map_of (allPages s) (Some st, i) of
            None \<Rightarrow>
              (case map_of (pageLocations s) (Some st, i) of
                 None \<Rightarrow> getPage_create st i s
               | Some info \<Rightarrow> getPage_load st i info s)
          | Some r \<Rightarrow>
              (let s1 = upd_page r incRefCount s
               in if is_busy (status (pages s1 r)) then Inl (Blocks ''pagesCV'')
                  else andThen (repin_locked r s1) (\<lambda>s2. Inr (r, s2)))))"

section \<open>Dropping references\<close>

definition isRemovalStillValid :: "nat \<Rightarrow> bm \<Rightarrow> bool" where
  "isRemovalStillValid r s =
     (let p = pages s r
      in if refCount p \<noteq> 0 then False
         else if is_busy (status p) then False
         else if isAnon p then True
         else map_of (allPages s) (page_key p) = Some r)"

text \<open>The memory half of \<open>freeAnonymousPage\<close>, for a page at address \<open>a\<close>.\<close>

definition free_memory :: "nat \<Rightarrow> nat \<Rightarrow> bm \<Rightarrow> bm result" where
  "free_memory r a s =
     (let f = parent_of s a
      in andThen (vec_find_erase r (constituentPages s f)) (\<lambda>mini.
         (let s1 = s\<lparr>constituentPages := (constituentPages s)(f := mini),
                     numPinned := (numPinned s)
                       (f := numPinned s f - (if pinned (pages s r) then 1 else 0))\<rparr>
          in if mini = [] then
               (let s2 = (if numPinned s1 f < 0
                          then s1\<lparr>lastUsed := lru_erase (tick32 (- numPinned s1 f)) (lastUsed s1)\<rparr>
                          else s1)
                in andThen (drop_unused f s2) (\<lambda>s3.
                     Inr (s3\<lparr>emptyFullPages := emptyFullPages s3 @ [f]\<rparr>)))
             else
               (let (un, k) = unusedMiniPages s1 f
                in andThen (vec_at (emptyMiniPages s1) k) (\<lambda>em.
                     Inr (s1\<lparr>unusedMiniPages := (unusedMiniPages s1)(f := (un @ [a], k)),
                             emptyMiniPages := (emptyMiniPages s1)[k := em @ [a]]\<rparr>))))))"

definition freeAnonymousPage :: "nat \<Rightarrow> bm \<Rightarrow> bm result" where
  "freeAnonymousPage r s =
     (if \<not> isRemovalStillValid r s then Inr s
      else
        (let p = pages s r; loc = location p
         in andThen
              (if startPos loc \<noteq> -1
               then andThen (vec_at (availablePositions s) (numBytes loc)) (\<lambda>av.
                      Inr (s\<lparr>availablePositions :=
                        (availablePositions s)[numBytes loc := av @ [nat (startPos loc)]]\<rparr>))
               else Inr s)
              (\<lambda>s1. let s2 = s1\<lparr>freeAnonPageNumbers := freeAnonPageNumbers s1 @ [pageNum p]\<rparr>
                    in case bytes p of None \<Rightarrow> Inr s2 | Some a \<Rightarrow> free_memory r a s2)))"

definition downToZeroReferences :: "nat \<Rightarrow> bm \<Rightarrow> bm result" where
  "downToZeroReferences r s =
     (if \<not> isRemovalStillValid r s then Inr s
      else if bytes (pages s r) = None
      then Inr (s\<lparr>allPages := map_erase (page_key (pages s r)) (allPages s)\<rparr>)
      else unpin r s)"

text \<open>Destroying a handle.\<close>

definition decRefCount :: "nat \<Rightarrow> bm \<Rightarrow> bm result" where
  "decRefCount r s =
     (let s1 = upd_page r (\<lambda>p. p\<lparr>refCount := refCount p - 1\<rparr>) s; p = pages s1 r
      in if refCount p = 0
         then (if isAnon p then freeAnonymousPage r s1 else downToZeroReferences r s1)
         else Inr s1)"

section \<open>Clearing a set\<close>

text \<open>One iteration of the loop over \<^verbatim>\<open>allPages\<close>, for a page of the set.\<close>

definition clear_page :: "nat \<Rightarrow> bm \<Rightarrow> bm result" where
  "clear_page r s =
     (case bytes (pages s r) of
        None \<Rightarrow> Inl (Undefined ''parent of a null page'')
      | Some a \<Rightarrow>
          (let f = parent_of s a
           in andThen (vec_find_erase r (constituentPages s f)) (\<lambda>sib.
              (let s1 = s\<lparr>constituentPages := (constituentPages s)(f := sib),
                          numPinned := (numPinned s)(f := numPinned s f - 1)\<rparr>
               in if numPinned s1 f = 0 then
                    (if sib = []
                     then andThen (drop_unused f s1) (\<lambda>s2.
                            Inr (s2\<lparr>emptyFullPages := emptyFullPages s2 @ [f]\<rparr>))
                     else
                       (let k = numBytes (location (pages s r))
                        in andThen (vec_at (emptyMiniPages s1) k) (\<lambda>em.
                             Inr (to_lru f (s1\<lparr>unusedMiniPages := (unusedMiniPages s1)
                                    (f := (fst (unusedMiniPages s1 f) @ [a], snd (unusedMiniPages s1 f))),
                                  emptyMiniPages := (emptyMiniPages s1)[k := em @ [a]]\<rparr>)))))
                  else Inr s1))))"

fun clear_loop :: "pdb_set \<Rightarrow> bool \<Rightarrow> (page_key \<times> nat) list \<Rightarrow> bm \<Rightarrow> bm result" where
  "clear_loop st found [] s = Inr s"
| "clear_loop st found ((k, r) # rest) s =
     (if fst k \<noteq> Some st
      then (if found then Inr s else clear_loop st found rest s)
      else andThen (clear_page r s) (\<lambda>s1.
             clear_loop st True rest (s1\<lparr>allPages := map_erase k (allPages s1)\<rparr>)))"

definition clearSet :: "pdb_set \<Rightarrow> bm \<Rightarrow> bm result" where
  "clearSet st s =
     andThen (clear_loop st False (allPages s) (s\<lparr>fds := map_erase (Some st) (fds s)\<rparr>)) (\<lambda>s1.
       Inr (s1\<lparr>pageLocations := filter (\<lambda>kv. fst (fst kv) \<noteq> Some st) (pageLocations s1),
               endOfFiles := map_erase (Some st) (endOfFiles s1)\<rparr>))"

section \<open>Initialisation\<close>

text \<open>
  The size classes: one per doubling of \<^verbatim>\<open>MIN_PAGE_SIZE\<close> up to the page size, the counter being 64
  bits wide. The pair is the number of classes and the final value of the counter.
\<close>

fun class_loop :: "nat \<Rightarrow> nat \<Rightarrow> nat \<Rightarrow> nat \<Rightarrow> (nat \<times> nat) result" where
  "class_loop 0 cur psz n = Inl (Diverges ''size classes'')"
| "class_loop (Suc fuel) cur psz n =
     (if cur \<le> psz then class_loop fuel (cur * 2 mod 2 ^ 64) psz (n + 1) else Inr (n, cur))"

text \<open>
  \<open>initialize\<close> for a new storage. \<open>minSz\<close> is the build's \<^verbatim>\<open>MIN_PAGE_SIZE\<close>; \<open>mapped\<close> is the address
  returned by \<^verbatim>\<open>mmap\<close> (\<open>None\<close>: it failed), \<open>opened\<close> whether the temporary file could be opened and
  \<open>disk\<close> what the files hold (none is truncated when it is opened).
\<close>

definition initialize ::
  "nat \<Rightarrow> nat option \<Rightarrow> bool \<Rightarrow> (string \<Rightarrow> byte list) \<Rightarrow> string \<Rightarrow> nat \<Rightarrow> nat \<Rightarrow> string \<Rightarrow> string \<Rightarrow>
     bm result" where
  "initialize minSz mapped opened disk tempFileIn pageSizeIn numPagesIn metaFile storageLocIn =
     (if \<not> opened then Inl (Exit ''Fail to open the temp file'')
      else andThen (class_loop 65 minSz pageSizeIn 0) (\<lambda>(n, cur).
        if cur \<noteq> pageSizeIn * 2 mod 2 ^ 64 then Inl (Exit ''the page size must be a power of two'')
        else case mapped of
          None \<Rightarrow> Inl (Exit ''Could not memory map'')
        | Some base \<Rightarrow>
            Inr \<lparr>minPage = minSz, memory = base, pageSize = pageSizeIn, numPages = numPagesIn,
                 initialized = True, pages = (\<lambda>_. PDBPage_new), nextPage = 0, allPages = [],
                 pageLocations = [], endOfFiles = [], lastUsed = [], numPinned = (\<lambda>_. 0), fds = [],
                 emptyFullPages = map (\<lambda>i. base + pageSizeIn * i) [0..<numPagesIn],
                 constituentPages = (\<lambda>_. []), emptyMiniPages = replicate n [],
                 unusedMiniPages = (\<lambda>_. ([], 0)), availablePositions = replicate n [],
                 lastTimeTick = 1, lastTempPos = 0, logOfPageSize = int n - 1,
                 isCreatingSpace = replicate n False, freeAnonPageNumbers = [],
                 lastFreeAnonPageNumber = 0, tempFile = tempFileIn, metaDataFile = metaFile,
                 storageLoc = storageLocIn, tempData = disk tempFileIn, files = disk, ram = (\<lambda>_. 0),
                 ioOk = True\<rparr>))"

definition getMaxPageSize :: "bm \<Rightarrow> nat result" where
  "getMaxPageSize s = (if initialized s then Inr (pageSize s) else Inl (Exit ''not initialized''))"

section \<open>Write-back at destruction\<close>

text \<open>The loop of the destructor: every dirty set page is written to its place, assigned if needed.\<close>

fun write_back :: "(page_key \<times> nat) list \<Rightarrow> bm \<Rightarrow> bm result" where
  "write_back [] s = Inr s"
| "write_back ((k, r) # rest) s =
     (if \<not> dirty (pages s r) then write_back rest s
      else
        (let p = pages s r;
             s1 = (if map_of (pageLocations s) (page_key p) = None then assign_location r s else s);
             p1 = pages s1 r
         in andThen (fd_of (whichSet p1) s1) (\<lambda>path.
            andThen (write_file path (bytes p1) (miniBytes s1 (numBytes (location p1)))
                       (startPos (location p1)) s1) (write_back rest))))"

section \<open>Evaluation\<close>

lemma class_loop_numeral:
  "class_loop (numeral v) cur psz n =
     (if cur \<le> psz then class_loop (pred_numeral v) (cur * 2 mod 2 ^ 64) psz (n + 1) else Inr (n, cur))"
  by (simp add: numeral_eq_Suc)

end
