(* ===== verification/BufferInv.thy ===== *)
theory BufferInv
  imports BufferManager
begin

text \<open>
  The invariant of the buffer manager and the proof that every operation keeps it. A frame is a full
  page of the shared memory; a frame is either in \<open>emptyFullPages\<close> or split into the slots of one size
  class, each slot being free (in \<open>unusedMiniPages\<close> and in \<open>emptyMiniPages\<close>) or the memory of one page
  (in \<open>constituentPages\<close>).
\<close>

section \<open>Frames and slots\<close>

definition Lg :: "bm \<Rightarrow> nat" where
  "Lg s = nat (logOfPageSize s)"

definition frames :: "bm \<Rightarrow> nat set" where
  "frames s = (\<lambda>i. memory s + pageSize s * i) ` {..<numPages s}"

definition slotBytes :: "bm \<Rightarrow> nat \<Rightarrow> nat" where
  "slotBytes s k = minPage s * 2 ^ k"

definition slots_of :: "bm \<Rightarrow> nat \<Rightarrow> nat \<Rightarrow> nat set" where
  "slots_of s f k = (\<lambda>j. f + j * slotBytes s k) ` {..<2 ^ (Lg s - k)}"

definition bm_cfg :: "bm \<Rightarrow> bool" where
  "bm_cfg s \<longleftrightarrow> 0 < minPage s \<and> 0 \<le> logOfPageSize s \<and> pageSize s = minPage s * 2 ^ Lg s \<and>
     pageSize s < 2 ^ 32 \<and> length (emptyMiniPages s) = Suc (Lg s) \<and>
     length (availablePositions s) = Suc (Lg s) \<and> length (isCreatingSpace s) = Suc (Lg s) \<and>
     initialized s"

lemma bm_cfg_pos: "bm_cfg s \<Longrightarrow> 0 < pageSize s"
  by (simp add: bm_cfg_def)

lemma slotBytes_le: "bm_cfg s \<Longrightarrow> k \<le> Lg s \<Longrightarrow> slotBytes s k \<le> pageSize s"
  by (simp add: bm_cfg_def slotBytes_def)

lemma slotBytes_pos: "bm_cfg s \<Longrightarrow> 0 < slotBytes s k"
  by (simp add: bm_cfg_def slotBytes_def)

text \<open>Below \<open>2 ^ 32\<close> bytes per page the 32-bit shift is exact.\<close>

lemma miniBytes_exact:
  assumes "bm_cfg s" and "k \<le> Lg s"
  shows "miniBytes s k = slotBytes s k"
proof -
  have "slotBytes s k < 2 ^ 32" using slotBytes_le [OF assms] assms(1) by (simp add: bm_cfg_def)
  then show ?thesis by (simp add: miniBytes_def slotBytes_def)
qed

lemma pageSize_slots:
  assumes "bm_cfg s" and "k \<le> Lg s"
  shows "pageSize s = 2 ^ (Lg s - k) * slotBytes s k"
proof -
  have "2 ^ Lg s = 2 ^ (Lg s - k) * (2 :: nat) ^ k"
    using assms(2) by (simp flip: power_add)
  then show ?thesis using assms(1) by (simp add: bm_cfg_def slotBytes_def)
qed

lemma slot_bounds:
  assumes "bm_cfg s" and "k \<le> Lg s" and "a \<in> slots_of s f k"
  shows "f \<le> a" and "a + slotBytes s k \<le> f + pageSize s"
proof -
  obtain j where j: "j < 2 ^ (Lg s - k)" "a = f + j * slotBytes s k"
    using assms(3) by (auto simp: slots_of_def)
  then show "f \<le> a" by simp
  have "Suc j * slotBytes s k \<le> 2 ^ (Lg s - k) * slotBytes s k"
    using j(1) by (intro mult_le_mono1) simp
  then show "a + slotBytes s k \<le> f + pageSize s"
    using j(2) pageSize_slots [OF assms(1,2)] by simp
qed

lemma parent_of_frame_addr:
  assumes "bm_cfg s" and "f \<in> frames s" and "f \<le> a" and "a < f + pageSize s"
  shows "parent_of s a = f"
proof -
  obtain i where i: "f = memory s + pageSize s * i" using assms(2) by (auto simp: frames_def)
  have "(a - memory s) div pageSize s = i"
    using assms(3,4) i by (intro div_nat_eqI) (auto simp: algebra_simps)
  then show ?thesis using i by (simp add: parent_of_def)
qed

lemma parent_of_slot:
  assumes "bm_cfg s" and "f \<in> frames s" and "k \<le> Lg s" and "a \<in> slots_of s f k"
  shows "parent_of s a = f"
proof -
  have "f \<le> a" "a + slotBytes s k \<le> f + pageSize s" using slot_bounds [OF assms(1,3,4)] by auto
  then show ?thesis
    using slotBytes_pos [OF assms(1), of k] by (intro parent_of_frame_addr [OF assms(1,2)]) auto
qed

lemma slots_apart:
  assumes "bm_cfg s" and "a \<in> slots_of s f k" and "b \<in> slots_of s f k" and "a \<noteq> b"
  shows "a + slotBytes s k \<le> b \<or> b + slotBytes s k \<le> a"
proof -
  obtain i j where ij: "a = f + i * slotBytes s k" "b = f + j * slotBytes s k"
    using assms(2,3) by (auto simp: slots_of_def)
  then consider "i < j" | "j < i" using assms(4) by (metis nat_neq_iff)
  then show ?thesis
  proof cases
    case 1
    then have "Suc i * slotBytes s k \<le> j * slotBytes s k" by (intro mult_le_mono1) simp
    then show ?thesis using ij by simp
  next
    case 2
    then have "Suc j * slotBytes s k \<le> i * slotBytes s k" by (intro mult_le_mono1) simp
    then show ?thesis using ij by simp
  qed
qed

lemma frames_apart:
  assumes "bm_cfg s" and "f \<in> frames s" and "g \<in> frames s" and "f \<noteq> g"
  shows "f + pageSize s \<le> g \<or> g + pageSize s \<le> f"
proof -
  obtain i j where ij: "f = memory s + pageSize s * i" "g = memory s + pageSize s * j"
    using assms(2,3) by (auto simp: frames_def)
  then consider "i < j" | "j < i" using assms(4) by (metis nat_neq_iff)
  then show ?thesis
  proof cases
    case 1
    then have "pageSize s * Suc i \<le> pageSize s * j" by (intro mult_le_mono2) simp
    then show ?thesis using ij by simp
  next
    case 2
    then have "pageSize s * Suc j \<le> pageSize s * i" by (intro mult_le_mono2) simp
    then show ?thesis using ij by simp
  qed
qed

text \<open>The splitting loop visits exactly the slots of the class.\<close>

lemma offsets_from_eq:
  assumes "0 < inc" and "off + m * inc = psz"
  shows "offsets_from inc psz off = map (\<lambda>j. off + j * inc) [0..<m]"
  using assms(2)
proof (induction m arbitrary: off)
  case 0
  then show ?case by (simp add: offsets_from.simps)
next
  case (Suc m)
  then have "offsets_from inc psz off = off # offsets_from inc psz (off + inc)"
    using assms(1) by (subst offsets_from.simps) simp
  also have "offsets_from inc psz (off + inc) = map (\<lambda>j. off + inc + j * inc) [0..<m]"
    using Suc.prems by (intro Suc.IH) simp
  finally show ?case
    by (simp add: map_upt_Suc algebra_simps del: upt_Suc)
qed

lemma split_offsets_all:
  assumes "bm_cfg s" and "k \<le> Lg s"
  shows "split_offsets (miniBytes s k) (pageSize s) 0 =
    Inr (map (\<lambda>j. j * slotBytes s k) [0..<2 ^ (Lg s - k)])"
  using offsets_from_eq [of "slotBytes s k" 0 "2 ^ (Lg s - k)" "pageSize s"]
    slotBytes_pos [OF assms(1)] pageSize_slots [OF assms]
  by (simp add: split_offsets_def miniBytes_exact [OF assms])

lemma split_offsets_tail:
  assumes "bm_cfg s" and "k \<le> Lg s"
  shows "split_offsets (miniBytes s k) (pageSize s) (miniBytes s k) =
    Inr (map (\<lambda>j. slotBytes s k + j * slotBytes s k) [0..<2 ^ (Lg s - k) - 1])"
proof -
  have "slotBytes s k + (2 ^ (Lg s - k) - 1) * slotBytes s k = pageSize s"
    using pageSize_slots [OF assms]
    by (metis Suc_diff_1 mult_Suc zero_less_numeral zero_less_power)
  then show ?thesis
    using offsets_from_eq [of "slotBytes s k" "slotBytes s k" "2 ^ (Lg s - k) - 1" "pageSize s"]
      slotBytes_pos [OF assms(1)]
    by (simp add: split_offsets_def miniBytes_exact [OF assms])
qed

section \<open>Request sizes\<close>

text \<open>\<open>getLogPageSize\<close> returns the least class whose pages hold the request.\<close>

lemma log_loop_least:
  assumes "0 < cur" and "nb \<le> cur * 2 ^ m" and "cur * 2 ^ m < 2 ^ 64" and "m < fuel"
  shows "\<exists>k \<le> m. log_loop fuel cur nb acc = Inr (acc + k) \<and> nb \<le> cur * 2 ^ k \<and>
           (0 < k \<longrightarrow> cur * 2 ^ (k - 1) < nb)"
  using assms
proof (induction m arbitrary: fuel cur acc)
  case 0
  then show ?case by (cases fuel) auto
next
  case (Suc m)
  obtain fuel' where fuel: "fuel = Suc fuel'" using Suc.prems(4) by (cases fuel) auto
  show ?case
  proof (cases "cur < nb")
    case False
    then show ?thesis using fuel by auto
  next
    case True
    have "cur * 2 \<le> cur * 2 ^ Suc m" by simp
    then have "cur * 2 < 2 ^ 64" using Suc.prems(3) by (rule le_less_trans)
    then have small: "cur * 2 mod 2 ^ 64 = cur * 2" by (rule mod_less)
    have "\<exists>k \<le> m. log_loop fuel' (cur * 2) nb (acc + 1) = Inr (acc + 1 + k) \<and>
        nb \<le> cur * 2 * 2 ^ k \<and> (0 < k \<longrightarrow> cur * 2 * 2 ^ (k - 1) < nb)"
      using Suc.prems fuel by (intro Suc.IH) (auto simp: mult.assoc)
    then obtain k where k: "k \<le> m" "log_loop fuel' (cur * 2) nb (acc + 1) = Inr (acc + 1 + k)"
        "nb \<le> cur * 2 * 2 ^ k" "0 < k \<longrightarrow> cur * 2 * 2 ^ (k - 1) < nb" by blast
    have "cur * 2 ^ (Suc k - 1) < nb"
      using k(4) True by (cases k) (auto simp: mult.assoc)
    then show ?thesis
      using k True fuel small by (intro exI [of _ "Suc k"]) (simp add: mult.assoc)
  qed
qed

lemma getLogPageSize_least:
  assumes "bm_cfg s" and "nb \<le> pageSize s"
  shows "\<exists>k \<le> Lg s. getLogPageSize s nb = Inr k \<and> nb \<le> slotBytes s k \<and>
           (0 < k \<longrightarrow> slotBytes s (k - 1) < nb)"
proof -
  have "pageSize s = minPage s * 2 ^ Lg s" "pageSize s < 2 ^ 32" "0 < minPage s"
    using assms(1) by (auto simp: bm_cfg_def)
  moreover have "Lg s < 65"
  proof -
    have "(2 :: nat) ^ Lg s < 2 ^ 32"
      using calculation by (metis le_less_trans mult.commute mult_le_mono2 nat_mult_1_right Suc_leI One_nat_def)
    then have "Lg s < 32" by (rule power_less_imp_less_exp [rotated]) simp
    then show ?thesis by simp
  qed
  ultimately show ?thesis
    using log_loop_least [of "minPage s" nb "Lg s" 65 0] assms(2)
    by (auto simp: getLogPageSize_def slotBytes_def)
qed

section \<open>The invariant\<close>

definition addr :: "bm \<Rightarrow> nat \<Rightarrow> nat" where
  "addr s r = the (bytes (pages s r))"

definition frame_ok :: "bm \<Rightarrow> nat \<Rightarrow> bool" where
  "frame_ok s f \<longleftrightarrow>
     snd (unusedMiniPages s f) \<le> Lg s \<and>
     distinct (fst (unusedMiniPages s f) @ map (addr s) (constituentPages s f)) \<and>
     set (fst (unusedMiniPages s f)) \<subseteq> slots_of s f (snd (unusedMiniPages s f)) \<and>
     addr s ` set (constituentPages s f) \<subseteq> slots_of s f (snd (unusedMiniPages s f)) \<and>
     (\<forall>r \<in> set (constituentPages s f). r < nextPage s \<and> bytes (pages s r) \<noteq> None \<and>
        numBytes (location (pages s r)) = snd (unusedMiniPages s f))"

definition mini_ok :: "bm \<Rightarrow> bool" where
  "mini_ok s \<longleftrightarrow> (\<forall>k \<le> Lg s. distinct (emptyMiniPages s ! k) \<and>
     (\<forall>a. a \<in> set (emptyMiniPages s ! k) \<longleftrightarrow>
        (\<exists>f \<in> frames s. snd (unusedMiniPages s f) = k \<and> a \<in> set (fst (unusedMiniPages s f)))))"

definition empty_ok :: "bm \<Rightarrow> bool" where
  "empty_ok s \<longleftrightarrow> distinct (emptyFullPages s) \<and> set (emptyFullPages s) \<subseteq> frames s \<and>
     (\<forall>f \<in> set (emptyFullPages s). constituentPages s f = [] \<and> fst (unusedMiniPages s f) = [])"

definition pin_count :: "bm \<Rightarrow> nat \<Rightarrow> nat" where
  "pin_count s f = length (filter (\<lambda>r. pinned (pages s r)) (constituentPages s f))"

definition pin_ok :: "bm \<Rightarrow> nat \<Rightarrow> bool" where
  "pin_ok s f \<longleftrightarrow> numPinned s f = int (pin_count s f) \<or>
     (numPinned s f < 0 \<and> pin_count s f = 0 \<and> (f, nat (- numPinned s f)) \<in> set (lastUsed s))"

definition lru_ok :: "bm \<Rightarrow> bool" where
  "lru_ok s \<longleftrightarrow> sorted_wrt (<) (map snd (lastUsed s)) \<and>
     (\<forall>f t. (f, t) \<in> set (lastUsed s) \<longrightarrow> f \<in> frames s \<and> f \<notin> set (emptyFullPages s) \<and>
        numPinned s f = - int t \<and> 0 < t \<and> t < lastTimeTick s) \<and> 0 < lastTimeTick s"

definition page_wf :: "bm \<Rightarrow> nat \<Rightarrow> bool" where
  "page_wf s r \<longleftrightarrow> numBytes (location (pages s r)) \<le> Lg s \<and>
     (isAnon (pages s r) \<longrightarrow> startPos (location (pages s r)) < 0 \<longrightarrow>
        dirty (pages s r) \<and> bytes (pages s r) \<noteq> None) \<and>
     (\<not> isAnon (pages s r) \<longrightarrow> 0 \<le> startPos (location (pages s r)) \<and> whichSet (pages s r) \<noteq> None \<and>
        map_of (fds s) (whichSet (pages s r)) \<noteq> None)"

text \<open>
  A page object is live while it has a handle or is listed in \<^verbatim>\<open>allPages\<close>. \<open>X\<close>: pages that are being
  created or loaded and are not registered on a frame yet.
\<close>

definition live :: "bm \<Rightarrow> nat \<Rightarrow> bool" where
  "live s r \<longleftrightarrow> 0 < refCount (pages s r) \<or> r \<in> snd ` set (allPages s)"

definition page_live :: "bm \<Rightarrow> nat \<Rightarrow> bool" where
  "page_live s r \<longleftrightarrow> page_wf s r \<and> \<not> is_busy (status (pages s r)) \<and>
     (live s r \<longrightarrow>
        (\<forall>a. bytes (pages s r) = Some a \<longrightarrow>
           parent_of s a \<in> frames s \<and> r \<in> set (constituentPages s (parent_of s a))) \<and>
        (pinned (pages s r) \<longrightarrow> bytes (pages s r) \<noteq> None))"

definition live_ok :: "nat set \<Rightarrow> bm \<Rightarrow> bool" where
  "live_ok X s \<longleftrightarrow>
     (\<forall>r < nextPage s. if r \<in> X then bytes (pages s r) = None else page_live s r)"

definition maps_ok :: "bm \<Rightarrow> bool" where
  "maps_ok s \<longleftrightarrow> map_ok (allPages s) \<and> map_ok (pageLocations s) \<and> map_ok (fds s) \<and>
     map_ok (endOfFiles s) \<and>
     (\<forall>k r. (k, r) \<in> set (allPages s) \<longrightarrow>
        r < nextPage s \<and> page_key (pages s r) = k \<and> \<not> isAnon (pages s r)) \<and>
     (\<forall>k i. (k, i) \<in> set (pageLocations s) \<longrightarrow> numBytes i \<le> Lg s \<and> 0 \<le> startPos i)"

definition bm_core :: "nat set \<Rightarrow> bm \<Rightarrow> bool" where
  "bm_core X s \<longleftrightarrow> bm_cfg s \<and> (\<forall>f \<in> frames s. frame_ok s f) \<and> mini_ok s \<and> empty_ok s \<and>
     (\<forall>f \<in> frames s. f \<notin> set (emptyFullPages s) \<longrightarrow> pin_ok s f) \<and> lru_ok s \<and> live_ok X s \<and> maps_ok s"

definition bm_inv :: "bm \<Rightarrow> bool" where
  "bm_inv s \<longleftrightarrow> bm_core {} s \<and> (\<forall>k \<le> Lg s. \<not> isCreatingSpace s ! k)"

named_theorems bm_defs \<open>the parts of the invariant\<close>

lemmas bm_core_parts = bm_core_def mini_ok_def empty_ok_def lru_ok_def live_ok_def maps_ok_def
declare bm_core_def [bm_defs] frame_ok_def [bm_defs] pin_ok_def [bm_defs]

lemma bm_coreD:
  assumes "bm_core X s"
  shows "bm_cfg s" and "f \<in> frames s \<Longrightarrow> frame_ok s f" and "mini_ok s" and "empty_ok s"
    and "f \<in> frames s \<Longrightarrow> f \<notin> set (emptyFullPages s) \<Longrightarrow> pin_ok s f" and "lru_ok s"
    and "live_ok X s" and "maps_ok s"
  using assms by (auto simp: bm_core_def)

text \<open>A page on one frame is on no other frame, and on it once.\<close>

lemma constituent_frame:
  assumes "bm_core X s" and "f \<in> frames s" and "r \<in> set (constituentPages s f)"
  shows "parent_of s (addr s r) = f" and "bytes (pages s r) = Some (addr s r)"
    and "r < nextPage s" and "numBytes (location (pages s r)) = snd (unusedMiniPages s f)"
    and "addr s r \<in> slots_of s f (snd (unusedMiniPages s f))" and "snd (unusedMiniPages s f) \<le> Lg s"
proof -
  have fo: "frame_ok s f" using assms bm_coreD(2) by blast
  show "bytes (pages s r) = Some (addr s r)" "r < nextPage s"
      "numBytes (location (pages s r)) = snd (unusedMiniPages s f)"
      "addr s r \<in> slots_of s f (snd (unusedMiniPages s f))" "snd (unusedMiniPages s f) \<le> Lg s"
    using fo assms(3) by (auto simp: frame_ok_def addr_def)
  then show "parent_of s (addr s r) = f"
    using parent_of_slot [OF bm_coreD(1) [OF assms(1)] assms(2)] by blast
qed

lemma constituent_unique:
  assumes "bm_core X s" and "f \<in> frames s" and "g \<in> frames s"
    and "r \<in> set (constituentPages s f)" and "r \<in> set (constituentPages s g)"
  shows "f = g"
  using constituent_frame(1) [OF assms(1,2,4)] constituent_frame(1) [OF assms(1,3,5)] by simp

lemma constituent_distinct:
  assumes "bm_core X s" and "f \<in> frames s"
  shows "distinct (constituentPages s f)"
  using bm_coreD(2) [OF assms] by (simp add: frame_ok_def distinct_map)

lemma constituent_live:
  assumes "bm_core X s" and "f \<in> frames s" and "r \<in> set (constituentPages s f)"
  shows "r \<notin> X" and "page_live s r" and "page_wf s r"
  using constituent_frame(2,3) [OF assms] bm_coreD(7) [OF assms(1)]
  by (force simp: live_ok_def page_live_def split: if_splits)+

section \<open>Eviction\<close>

text \<open>
  The fatal exits a call of the manager may take: no RAM is left, the disk fails, a page is frozen that is unpinned or frozen already or
  too small, a page of the null set is requested.
\<close>

definition fatal_exits :: "string list" where
  "fatal_exits = [''run out of RAM in the storage manager'', ''writing anonymous page to disk'', ''writing page to disk'',
     ''reading page from disk'', ''Fail to open the file'', ''You cannot freeze an unpinned page'',
     ''You cannot freeze the size of a page twice'', ''You cannot freeze to a greater size'', ''null table'']"

definition is_exit :: "pc_error \<Rightarrow> bool" where
  "is_exit e \<longleftrightarrow> (\<exists>m \<in> set fatal_exits. e = Exit m)"

lemma is_exit_Exit [simp]: "is_exit (Exit m) \<longleftrightarrow> m \<in> set fatal_exits"
  by (simp add: is_exit_def)

lemma fatal_exits [simp]:
  "''run out of RAM in the storage manager'' \<in> set fatal_exits" "''writing anonymous page to disk'' \<in> set fatal_exits"
  "''writing page to disk'' \<in> set fatal_exits" "''reading page from disk'' \<in> set fatal_exits" "''Fail to open the file'' \<in> set fatal_exits"
  "''You cannot freeze an unpinned page'' \<in> set fatal_exits" "''You cannot freeze the size of a page twice'' \<in> set fatal_exits"
  "''You cannot freeze to a greater size'' \<in> set fatal_exits" "''null table'' \<in> set fatal_exits"
  by (simp_all add: fatal_exits_def)

text \<open>What eviction does to a page object.\<close>

definition evicted :: "pdb_page \<Rightarrow> pdb_page \<Rightarrow> bool" where
  "evicted p q \<longleftrightarrow> (\<exists>pos. q = p\<lparr>dirty := False, bytes := None,
       location := (location p)\<lparr>startPos := pos\<rparr>\<rparr> \<and>
     (isAnon p \<and> dirty p \<longrightarrow> 0 \<le> pos) \<and> (\<not> (isAnon p \<and> dirty p) \<longrightarrow> pos = startPos (location p)))"

lemma evicted_anon:
  "isAnon p \<Longrightarrow> dirty p \<Longrightarrow> 0 \<le> pos \<Longrightarrow>
     evicted p (p\<lparr>location := (location p)\<lparr>startPos := pos\<rparr>, dirty := False, bytes := None\<rparr>)"
  unfolding evicted_def by (intro exI [of _ pos]) simp

lemma evicted_other: "\<not> (isAnon p \<and> dirty p) \<Longrightarrow> evicted p (p\<lparr>dirty := False, bytes := None\<rparr>)"
  unfolding evicted_def by (intro exI [of _ "startPos (location p)"]) auto

text \<open>The fields eviction may change, with the pages it changes: the rest of the state is framed.\<close>

definition evict_frame :: "nat list \<Rightarrow> bm \<Rightarrow> bm \<Rightarrow> bool" where
  "evict_frame rs s s' \<longleftrightarrow>
     s' = s\<lparr>pages := pages s', tempData := tempData s', files := files s', allPages := allPages s',
           lastTempPos := lastTempPos s', availablePositions := availablePositions s'\<rparr> \<and>
     (\<forall>r. r \<notin> set rs \<longrightarrow> pages s' r = pages s r) \<and>
     (\<forall>r \<in> set rs. evicted (pages s r) (pages s' r)) \<and>
     length (availablePositions s') = length (availablePositions s) \<and>
     (\<exists>P. allPages s' = filter P (allPages s))"

lemma evict_page_frame:
  assumes "evict_page r s = Inr s'"
  shows "evict_frame [r] s s'"
proof -
  have filt: "\<exists>P. map_erase k xs = filter P xs" "\<exists>P. xs = filter P xs" for k and xs :: "('c \<times> 'd) list"
    by (auto simp: map_erase_def intro: exI [of _ "\<lambda>_. True"])
  show ?thesis
  proof (cases "isAnon (pages s r) \<and> dirty (pages s r)")
    case True
    then show ?thesis
      using assms filt
      by (auto simp: evict_page_def evict_frame_def Let_def res_simps temp_position_def
          write_temp_def upd_page_def set_location_def intro!: evicted_anon
          split: if_splits option.splits)
  next
    case False
    then show ?thesis
      using assms filt
      by (auto simp: evict_page_def evict_frame_def Let_def res_simps write_file_def fd_of_def
          upd_page_def set_location_def intro!: evicted_other split: if_splits option.splits)
  qed
qed

lemma evict_frame_Cons:
  assumes "evict_frame [r] s s1" and "evict_frame rs s1 s'" and "r \<notin> set rs"
  shows "evict_frame (r # rs) s s'"
proof -
  obtain P T F A L V where s1: "s1 = s\<lparr>pages := P, tempData := T, files := F, allPages := A,
      lastTempPos := L, availablePositions := V\<rparr>"
    using assms(1) unfolding evict_frame_def by metis
  have "s' = s\<lparr>pages := pages s', tempData := tempData s', files := files s', allPages := allPages s',
           lastTempPos := lastTempPos s', availablePositions := availablePositions s'\<rparr>"
    using assms(2) unfolding evict_frame_def s1 by simp
  moreover have "\<exists>P. allPages s' = filter P (allPages s)"
    using assms(1,2) unfolding evict_frame_def by (metis filter_filter)
  moreover have "\<forall>q. q \<notin> set (r # rs) \<longrightarrow> pages s' q = pages s q"
    using assms(1,2) unfolding evict_frame_def by simp
  moreover have "\<forall>q \<in> set (r # rs). evicted (pages s q) (pages s' q)"
  proof
    fix q assume "q \<in> set (r # rs)"
    then consider "q = r" | "q \<noteq> r" "q \<in> set rs" by auto
    then show "evicted (pages s q) (pages s' q)"
    proof cases
      case 1
      then have "pages s' q = pages s1 q" using assms(2,3) by (simp add: evict_frame_def)
      then show ?thesis using assms(1) 1 by (simp add: evict_frame_def)
    next
      case 2
      then have "pages s1 q = pages s q" using assms(1) by (simp add: evict_frame_def)
      then show ?thesis using assms(2) 2 unfolding evict_frame_def by metis
    qed
  qed
  moreover have "length (availablePositions s') = length (availablePositions s)"
    using assms(1,2) unfolding evict_frame_def by metis
  ultimately show ?thesis unfolding evict_frame_def by blast
qed

lemma evict_pages_frame:
  "distinct rs \<Longrightarrow> evict_pages rs s = Inr s' \<Longrightarrow> evict_frame rs s s'"
proof (induction rs arbitrary: s)
  case Nil
  then show ?case by (auto simp: evict_frame_def intro: exI [of _ "\<lambda>_. True"])
next
  case (Cons r rs)
  then obtain s1 where "evict_page r s = Inr s1" "evict_pages rs s1 = Inr s'"
    by (auto simp: res_simps)
  then show ?case using Cons evict_page_frame evict_frame_Cons by fastforce
qed

lemma evict_frame_fields:
  assumes "evict_frame rs s s'"
  shows "minPage s' = minPage s" and "memory s' = memory s" and "pageSize s' = pageSize s"
    and "numPages s' = numPages s" and "initialized s' = initialized s" and "nextPage s' = nextPage s"
    and "pageLocations s' = pageLocations s" and "endOfFiles s' = endOfFiles s"
    and "lastUsed s' = lastUsed s" and "numPinned s' = numPinned s" and "fds s' = fds s"
    and "emptyFullPages s' = emptyFullPages s" and "constituentPages s' = constituentPages s"
    and "emptyMiniPages s' = emptyMiniPages s" and "unusedMiniPages s' = unusedMiniPages s"
    and "lastTimeTick s' = lastTimeTick s" and "logOfPageSize s' = logOfPageSize s"
    and "isCreatingSpace s' = isCreatingSpace s" and "ram s' = ram s" and "ioOk s' = ioOk s"
    and "freeAnonPageNumbers s' = freeAnonPageNumbers s"
    and "lastFreeAnonPageNumber s' = lastFreeAnonPageNumber s"
    and "storageLoc s' = storageLoc s"
    and "length (availablePositions s') = length (availablePositions s)"
proof -
  obtain P T F A L V where s1: "s' = s\<lparr>pages := P, tempData := T, files := F, allPages := A,
      lastTempPos := L, availablePositions := V\<rparr>" and "length V = length (availablePositions s)"
    using assms unfolding evict_frame_def by metis
  then show "minPage s' = minPage s" and "memory s' = memory s" and "pageSize s' = pageSize s"
    and "numPages s' = numPages s" and "initialized s' = initialized s" and "nextPage s' = nextPage s"
    and "pageLocations s' = pageLocations s" and "endOfFiles s' = endOfFiles s"
    and "lastUsed s' = lastUsed s" and "numPinned s' = numPinned s" and "fds s' = fds s"
    and "emptyFullPages s' = emptyFullPages s" and "constituentPages s' = constituentPages s"
    and "emptyMiniPages s' = emptyMiniPages s" and "unusedMiniPages s' = unusedMiniPages s"
    and "lastTimeTick s' = lastTimeTick s" and "logOfPageSize s' = logOfPageSize s"
    and "isCreatingSpace s' = isCreatingSpace s" and "ram s' = ram s" and "ioOk s' = ioOk s"
    and "freeAnonPageNumbers s' = freeAnonPageNumbers s"
    and "lastFreeAnonPageNumber s' = lastFreeAnonPageNumber s"
    and "storageLoc s' = storageLoc s"
    and "length (availablePositions s') = length (availablePositions s)"
    by simp_all
qed

lemma evict_page_no_ub:
  assumes "bm_cfg s" and "page_wf s r" and "bytes (pages s r) \<noteq> None" and "evict_page r s = Inl e"
  shows "is_exit e"
  using assms
  by (auto simp: evict_page_def Let_def res_simps temp_position_def write_temp_def write_file_def
      fd_of_def page_wf_def bm_cfg_def vec_at_def split: if_splits option.splits)

lemma page_wf_other:
  "page_wf s r \<Longrightarrow> pages s' r = pages s r \<Longrightarrow> fds s' = fds s \<Longrightarrow> logOfPageSize s' = logOfPageSize s \<Longrightarrow>
     page_wf s' r"
  by (simp add: page_wf_def Lg_def)

lemma bm_cfg_cong:
  "bm_cfg s \<Longrightarrow> minPage s' = minPage s \<Longrightarrow> logOfPageSize s' = logOfPageSize s \<Longrightarrow>
     pageSize s' = pageSize s \<Longrightarrow> length (emptyMiniPages s') = length (emptyMiniPages s) \<Longrightarrow>
     length (availablePositions s') = length (availablePositions s) \<Longrightarrow>
     length (isCreatingSpace s') = length (isCreatingSpace s) \<Longrightarrow> initialized s' = initialized s \<Longrightarrow>
     bm_cfg s'"
  by (simp add: bm_cfg_def Lg_def)

lemma evict_pages_no_ub:
  assumes "bm_cfg s" and "distinct rs" and "\<forall>r \<in> set rs. page_wf s r \<and> bytes (pages s r) \<noteq> None"
    and "evict_pages rs s = Inl e"
  shows "is_exit e"
  using assms
proof (induction rs arbitrary: s)
  case (Cons r rs)
  show ?case
  proof (cases "evict_page r s")
    case (Inl e')
    then show ?thesis using Cons.prems evict_page_no_ub by fastforce
  next
    case (Inr s1)
    then have ef: "evict_frame [r] s s1" by (rule evict_page_frame)
    note ff = evict_frame_fields [OF ef]
    have "bm_cfg s1" by (rule bm_cfg_cong [OF Cons.prems(1)]) (simp_all add: ff)
    moreover have "\<forall>r' \<in> set rs. page_wf s1 r' \<and> bytes (pages s1 r') \<noteq> None"
    proof
      fix r' assume r': "r' \<in> set rs"
      then have "r' \<noteq> r" using Cons.prems(2) by auto
      then have "pages s1 r' = pages s r'" using ef by (simp add: evict_frame_def)
      then show "page_wf s1 r' \<and> bytes (pages s1 r') \<noteq> None"
        using Cons.prems(3) r' ff page_wf_other [of s r' s1] by simp
    qed
    ultimately show ?thesis using Cons.IH [of s1] Cons.prems Inr by simp
  qed
qed simp

text \<open>Dropping the free slots of a frame from both structures.\<close>

definition drop_free :: "nat \<Rightarrow> bm \<Rightarrow> bm" where
  "drop_free f s = s\<lparr>
     emptyMiniPages := (emptyMiniPages s)[snd (unusedMiniPages s f) :=
       filter (\<lambda>a. a \<notin> set (fst (unusedMiniPages s f))) (emptyMiniPages s ! snd (unusedMiniPages s f))],
     unusedMiniPages := (unusedMiniPages s)(f := ([], snd (unusedMiniPages s f)))\<rparr>"

lemma drop_unused_ok:
  assumes core: "bm_core X s" and f: "f \<in> frames s"
    and same: "emptyMiniPages s' = emptyMiniPages s" "unusedMiniPages s' = unusedMiniPages s"
  shows "drop_unused f s' = Inr (drop_free f s')"
proof -
  let ?k = "snd (unusedMiniPages s f)"
  have fo: "frame_ok s f" and mo: "mini_ok s" and cfg: "bm_cfg s"
    using core f by (auto dest: bm_coreD)
  have k: "?k \<le> Lg s" using fo by (simp add: frame_ok_def)
  have "set (fst (unusedMiniPages s f)) \<subseteq> set (emptyMiniPages s ! ?k)"
    using mo k f by (auto simp: mini_ok_def)
  moreover have "distinct (fst (unusedMiniPages s f))" using fo by (simp add: frame_ok_def)
  moreover have "distinct (emptyMiniPages s ! ?k)" using mo k by (simp add: mini_ok_def)
  moreover have "?k < length (emptyMiniPages s)" using cfg k by (simp add: bm_cfg_def)
  ultimately show ?thesis
    by (simp add: drop_unused_def drop_free_def vec_at_def vec_erase_all_ok split_beta same)
qed

text \<open>Two states that agree on everything about a frame.\<close>

lemma frame_ok_cong:
  assumes "frame_ok s g" and "unusedMiniPages s' g = unusedMiniPages s g"
    and "constituentPages s' g = constituentPages s g" and "nextPage s \<le> nextPage s'"
    and "\<And>r. r \<in> set (constituentPages s g) \<Longrightarrow>
           bytes (pages s' r) = bytes (pages s r) \<and>
           numBytes (location (pages s' r)) = numBytes (location (pages s r))"
    and "minPage s' = minPage s" and "logOfPageSize s' = logOfPageSize s"
  shows "frame_ok s' g"
proof -
  have a: "map (addr s') (constituentPages s g) = map (addr s) (constituentPages s g)"
    using assms(5) by (simp add: addr_def)
  then have b: "addr s' ` set (constituentPages s g) = addr s ` set (constituentPages s g)"
    by (metis list.set_map)
  have "slots_of s' g k = slots_of s g k" for k
    using assms(6,7) by (simp add: slots_of_def slotBytes_def Lg_def)
  moreover have "Lg s' = Lg s" using assms(7) by (simp add: Lg_def)
  ultimately show ?thesis
    using assms(1-5) unfolding frame_ok_def assms(2,3) a b by force
qed

lemma pin_ok_cong:
  assumes "pin_ok s g" and "constituentPages s' g = constituentPages s g"
    and "numPinned s' g = numPinned s g"
    and "\<And>r. r \<in> set (constituentPages s g) \<Longrightarrow> pinned (pages s' r) = pinned (pages s r)"
    and "\<And>t. (g, t) \<in> set (lastUsed s) \<Longrightarrow> (g, t) \<in> set (lastUsed s')"
  shows "pin_ok s' g"
proof -
  have "pin_count s' g = pin_count s g"
    unfolding pin_count_def assms(2) using assms(4) by (metis (no_types, lifting) filter_cong)
  then show ?thesis using assms by (auto simp: pin_ok_def)
qed

lemma frames_cong:
  "memory s' = memory s \<Longrightarrow> pageSize s' = pageSize s \<Longrightarrow> numPages s' = numPages s \<Longrightarrow> frames s' = frames s"
  by (simp add: frames_def)

lemma unused_apart:
  assumes "bm_core X s" and "f \<in> frames s" and "g \<in> frames s"
    and "a \<in> set (fst (unusedMiniPages s f))" and "a \<in> set (fst (unusedMiniPages s g))"
  shows "f = g"
proof -
  have "parent_of s a = f" "parent_of s a = g"
    using assms bm_coreD(1,2) [OF assms(1)] parent_of_slot by (meson frame_ok_def subsetD)+
  then show ?thesis by simp
qed

lemma mini_ok_drop_free:
  assumes core: "bm_core X s" and f: "f \<in> frames s"
    and same: "emptyMiniPages s' = emptyMiniPages (drop_free f s)"
      "unusedMiniPages s' = unusedMiniPages (drop_free f s)" "frames s' = frames s" "Lg s' = Lg s"
  shows "mini_ok s'"
  unfolding mini_ok_def
proof (intro allI impI conjI)
  fix k assume "k \<le> Lg s'"
  then have k: "k \<le> Lg s" using same by simp
  have mo: "mini_ok s" and len: "length (emptyMiniPages s) = Suc (Lg s)" and fo: "frame_ok s f"
    using bm_coreD [OF core] f by (auto simp: bm_cfg_def)
  have kf: "snd (unusedMiniPages s f) \<le> Lg s" using fo by (simp add: frame_ok_def)
  have em: "emptyMiniPages s' ! k = (if k = snd (unusedMiniPages s f)
      then filter (\<lambda>a. a \<notin> set (fst (unusedMiniPages s f))) (emptyMiniPages s ! k) else emptyMiniPages s ! k)"
    using k kf len by (simp add: same drop_free_def nth_list_update)
  show "distinct (emptyMiniPages s' ! k)" using mo k unfolding em mini_ok_def by simp
  fix a
  have un: "unusedMiniPages s' g = (if g = f then ([], snd (unusedMiniPages s f)) else unusedMiniPages s g)" for g
    by (simp add: same drop_free_def)
  have old: "a \<in> set (emptyMiniPages s ! k) \<longleftrightarrow>
      (\<exists>g \<in> frames s. snd (unusedMiniPages s g) = k \<and> a \<in> set (fst (unusedMiniPages s g)))"
    using mo k by (simp add: mini_ok_def)
  show "a \<in> set (emptyMiniPages s' ! k) \<longleftrightarrow>
      (\<exists>g \<in> frames s'. snd (unusedMiniPages s' g) = k \<and> a \<in> set (fst (unusedMiniPages s' g)))"
  proof -
    have "(\<exists>g \<in> frames s'. snd (unusedMiniPages s' g) = k \<and> a \<in> set (fst (unusedMiniPages s' g))) \<longleftrightarrow>
        (\<exists>g \<in> frames s. g \<noteq> f \<and> snd (unusedMiniPages s g) = k \<and> a \<in> set (fst (unusedMiniPages s g)))"
      unfolding un same(3) by (auto split: if_splits)
    then show ?thesis using old unused_apart [OF core f] f unfolding em by auto
  qed
qed

text \<open>
  What every internal step (finding memory, evicting, splitting) leaves alone: the configuration, the
  RAM, the locations; a page object either keeps its value or was unpinned and has been evicted.
\<close>

definition page_kept :: "pdb_page \<Rightarrow> pdb_page \<Rightarrow> bool" where
  "page_kept p q \<longleftrightarrow> q = p \<or> (\<not> pinned p \<and> bytes p \<noteq> None \<and>
     (\<exists>p'. evicted p p' \<and> q = p'\<lparr>status := PDB_PAGE_NOT_LOADED\<rparr>))"

definition same_cfg :: "bm \<Rightarrow> bm \<Rightarrow> bool" where
  "same_cfg s s' \<longleftrightarrow> minPage s' = minPage s \<and> memory s' = memory s \<and> pageSize s' = pageSize s \<and>
     numPages s' = numPages s \<and> logOfPageSize s' = logOfPageSize s \<and> fds s' = fds s \<and>
     storageLoc s' = storageLoc s \<and> initialized s' = initialized s \<and> ioOk s' = ioOk s"

definition keeps :: "bm \<Rightarrow> bm \<Rightarrow> bool" where
  "keeps s s' \<longleftrightarrow> same_cfg s s' \<and> nextPage s' = nextPage s \<and> ram s' = ram s \<and>
     pageLocations s' = pageLocations s \<and> endOfFiles s' = endOfFiles s \<and>
     lastTimeTick s' = lastTimeTick s \<and> freeAnonPageNumbers s' = freeAnonPageNumbers s \<and>
     lastFreeAnonPageNumber s' = lastFreeAnonPageNumber s \<and>
     (\<forall>r. page_kept (pages s r) (pages s' r)) \<and> (\<exists>P. allPages s' = filter P (allPages s))"

lemma same_cfg_simps:
  assumes "same_cfg s s'"
  shows "frames s' = frames s" and "Lg s' = Lg s" and "slotBytes s' k = slotBytes s k"
    and "slots_of s' f k = slots_of s f k" and "parent_of s' a = parent_of s a"
    and "miniBytes s' k = miniBytes s k"
  using assms
  by (simp_all add: same_cfg_def frames_def Lg_def slotBytes_def slots_of_def parent_of_def miniBytes_def)

lemma evicted_status: "evicted (p\<lparr>status := st\<rparr>) q \<Longrightarrow> evicted p (q\<lparr>status := status p\<rparr>)"
  unfolding evicted_def by (elim exE, rule_tac x = pos in exI) simp

lemma evicted_simps:
  assumes "evicted p q"
  shows "bytes q = None" and "pinned q = pinned p" and "dirty q = False" and "refCount q = refCount p"
    and "pageNum q = pageNum p" and "isAnon q = isAnon p" and "whichSet q = whichSet p"
    and "numBytes (location q) = numBytes (location p)" and "status q = status p"
    and "isAnon p \<Longrightarrow> dirty p \<Longrightarrow> 0 \<le> startPos (location q)"
    and "\<not> isAnon p \<or> \<not> dirty p \<Longrightarrow> startPos (location q) = startPos (location p)"
    and "sizeFrozen q = sizeFrozen p"
  using assms by (auto simp: evicted_def)

lemma page_kept_simps:
  assumes "page_kept p q"
  shows "pinned q = pinned p" and "refCount q = refCount p" and "isAnon q = isAnon p"
    and "page_key q = page_key p" and "numBytes (location q) = numBytes (location p)"
    and "whichSet q = whichSet p" and "pinned p \<Longrightarrow> q = p" and "bytes p = None \<Longrightarrow> q = p"
  using assms by (auto simp: page_kept_def page_key_def dest: evicted_simps)

lemma page_wf_kept:
  assumes "page_wf s r" and "page_kept (pages s r) (pages s' r)" and "same_cfg s s'"
  shows "page_wf s' r"
  using assms unfolding page_kept_def page_wf_def
  by (auto simp: same_cfg_simps [OF assms(3)] evicted_simps) (auto simp: same_cfg_def evicted_def)

lemma maps_ok_kept:
  assumes "maps_ok s" and "keeps s s'"
  shows "maps_ok s'"
proof -
  have cfg: "same_cfg s s'" and kept: "\<And>r. page_kept (pages s r) (pages s' r)"
    using assms(2) by (auto simp: keeps_def)
  obtain P where P: "allPages s' = filter P (allPages s)" using assms(2) by (auto simp: keeps_def)
  show ?thesis
    using assms unfolding maps_ok_def keeps_def P same_cfg_simps [OF cfg]
    by (auto simp: map_ok_filter same_cfg_def page_kept_simps [OF kept])
qed

lemma keeps_live:
  assumes "keeps s s'" and "live s' r"
  shows "live s r"
proof -
  have "refCount (pages s' r) = refCount (pages s r)"
    by (rule page_kept_simps(2)) (use assms(1) in \<open>simp add: keeps_def\<close>)
  then show ?thesis using assms by (auto simp: live_def keeps_def)
qed

text \<open>The page evicted by \<open>createAdditionalMiniPages\<close> is a frame without pinned pages.\<close>

lemma evict_lru_ok:
  assumes core: "bm_core X s" and ev: "evict_lru s = Inr s'"
  shows "bm_core X s' \<and> keeps s s' \<and> emptyFullPages s' \<noteq> [] \<and>
    isCreatingSpace s' = isCreatingSpace s"
proof -
  obtain f t rest where lu: "lastUsed s = (f, t) # rest"
    using ev by (auto simp: evict_lru_def split: list.splits)
  note cfg = bm_coreD(1) [OF core] and lok = bm_coreD(6) [OF core]
  have ft: "f \<in> frames s" "f \<notin> set (emptyFullPages s)" "numPinned s f = - int t" "0 < t"
    using lok lu by (auto simp: lru_ok_def)
  let ?rs = "constituentPages s f"
  define s0 where "s0 = set_status PDB_PAGE_UNLOADING ?rs (s\<lparr>lastUsed := rest\<rparr>)"
  have "drop_unused f s0 = Inr (drop_free f s0)"
    using core ft(1) by (rule drop_unused_ok) (simp_all add: s0_def set_status_def)
  then obtain s2 where s2: "evict_pages ?rs (drop_free f s0) = Inr s2"
      and s': "s' = (set_status PDB_PAGE_NOT_LOADED ?rs s2)
                  \<lparr>constituentPages := (constituentPages s2)(f := []),
                   emptyFullPages := emptyFullPages s2 @ [f],
                   numPinned := (numPinned s2)(f := 0)\<rparr>"
    using ev lu by (auto simp: evict_lru_def res_simps s0_def Let_def)
  have dis: "distinct ?rs" using core ft(1) by (rule constituent_distinct)
  have ef: "evict_frame ?rs (drop_free f s0) s2" using dis s2 by (rule evict_pages_frame)
  note ff = evict_frame_fields [OF ef, unfolded drop_free_def s0_def set_status_def, simplified]
  have unp: "\<not> pinned (pages s r)" if "r \<in> set ?rs" for r
  proof -
    have "pin_count s f = 0"
      using bm_coreD(5) [OF core ft(1,2)] ft(3,4) by (auto simp: pin_ok_def)
    then show ?thesis using that by (auto simp: pin_count_def filter_empty_conv)
  qed
  have pg: "pages s' r = (if r \<in> set ?rs then (pages s2 r)\<lparr>status := PDB_PAGE_NOT_LOADED\<rparr> else pages s r)" for r
    using ef by (simp add: s' set_status_def evict_frame_def s0_def drop_free_def)
  have kept: "page_kept (pages s r) (pages s' r)" for r
  proof (cases "r \<in> set ?rs")
    case True
    have "evicted ((pages s r)\<lparr>status := PDB_PAGE_UNLOADING\<rparr>) (pages s2 r)"
      using ef True by (auto simp: evict_frame_def s0_def drop_free_def set_status_def)
    then have "evicted (pages s r) ((pages s2 r)\<lparr>status := status (pages s r)\<rparr>)"
      by (rule evicted_status)
    then have "\<exists>p'. evicted (pages s r) p' \<and>
        (pages s2 r)\<lparr>status := PDB_PAGE_NOT_LOADED\<rparr> = p'\<lparr>status := PDB_PAGE_NOT_LOADED\<rparr>"
      by (intro exI conjI) (assumption, simp)
    moreover have "bytes (pages s r) \<noteq> None" using constituent_frame(2) [OF core ft(1) True] by simp
    ultimately show ?thesis using unp [OF True] True by (simp add: page_kept_def pg)
  next
    case False
    then show ?thesis by (simp add: page_kept_def pg)
  qed
  have sc: "same_cfg s s'" using ff by (simp add: same_cfg_def s' set_status_def)
  have kp: "keeps s s'"
    using sc ff kept ef unfolding keeps_def
    by (simp add: s' set_status_def evict_frame_def s0_def drop_free_def)
  have fr: "frames s' = frames s" and lg: "Lg s' = Lg s" using same_cfg_simps [OF sc] by auto
  have un: "unusedMiniPages s' = unusedMiniPages (drop_free f s)"
      and em: "emptyMiniPages s' = emptyMiniPages (drop_free f s)"
    using ff by (simp_all add: s' set_status_def drop_free_def)
  have con: "constituentPages s' = (constituentPages s)(f := [])"
      and np: "numPinned s' = (numPinned s)(f := 0)" and lu': "lastUsed s' = rest"
      and ef': "emptyFullPages s' = emptyFullPages s @ [f]"
    using ff by (simp_all add: s' set_status_def)
  have other: "pages s' r = pages s r" if "g \<in> frames s" "g \<noteq> f" "r \<in> set (constituentPages s g)" for g r
    using constituent_unique [OF core that(1) ft(1) that(3)] that(2) by (auto simp: pg)
  have "bm_cfg s'"
    by (rule bm_cfg_cong [OF cfg]) (use ff in \<open>simp_all add: s' set_status_def\<close>)
  moreover have "frame_ok s' g" if g: "g \<in> frames s'" for g
  proof (cases "g = f")
    case True
    then show ?thesis
      using bm_coreD(2) [OF core ft(1)] by (simp add: frame_ok_def un con drop_free_def lg)
  next
    case False
    have "frame_ok s g" using bm_coreD(2) [OF core] g fr by simp
    then show ?thesis
      by (rule frame_ok_cong) (use False g fr other kp sc in
          \<open>auto simp: un con drop_free_def keeps_def same_cfg_def\<close>)
  qed
  moreover have "mini_ok s'"
    using mini_ok_drop_free [OF core ft(1) em un fr lg] .
  moreover have "empty_ok s'"
    using bm_coreD(4) [OF core] ft by (auto simp: empty_ok_def ef' con un drop_free_def fr)
  moreover have "pin_ok s' g" if g: "g \<in> frames s'" "g \<notin> set (emptyFullPages s')" for g
  proof -
    have gf: "g \<noteq> f" "g \<in> frames s" "g \<notin> set (emptyFullPages s)" using g fr ef' by auto
    then have "pin_ok s g" using bm_coreD(5) [OF core] by simp
    then show ?thesis
      by (rule pin_ok_cong) (use gf other lu in \<open>auto simp: con np lu'\<close>)
  qed
  moreover have "lru_ok s'"
  proof -
    have nf: "f \<noteq> g" if "(g, u) \<in> set rest" for g u
    proof
      assume "f = g"
      then have "numPinned s f = - int u" "t < u"
        using lok lu that by (auto simp: lru_ok_def)
      then show False using ft(3) by simp
    qed
    show ?thesis
      using lok lu kp nf unfolding lru_ok_def lu' fr ef' np keeps_def by auto
  qed
  moreover have "live_ok X s'"
    unfolding live_ok_def
  proof (intro allI impI)
    fix r assume "r < nextPage s'"
    then have old: "if r \<in> X then bytes (pages s r) = None else page_live s r"
      using kp bm_coreD(7) [OF core] by (auto simp: live_ok_def keeps_def)
    have lv: "live s' r \<Longrightarrow> live s r" using keeps_live [OF kp] .
    show "if r \<in> X then bytes (pages s' r) = None else page_live s' r"
    proof (cases "r \<in> set ?rs")
      case True
      then have "evicted ((pages s r)\<lparr>status := PDB_PAGE_UNLOADING\<rparr>) (pages s2 r)"
        using ef by (auto simp: evict_frame_def s0_def drop_free_def set_status_def)
      note ev' = evicted_simps [OF this]
      have "bytes (pages s' r) = None" "\<not> pinned (pages s' r)" "\<not> is_busy (status (pages s' r))"
        using True ev' unp [OF True] by (simp_all add: pg is_busy_def)
      moreover have "page_wf s' r"
        using page_wf_kept [OF constituent_live(3) [OF core ft(1) True] kept sc] .
      ultimately show ?thesis by (simp add: page_live_def)
    next
      case False
      then have eq: "pages s' r = pages s r" by (simp add: pg)
      have "page_live s' r" if "r \<notin> X"
      proof -
        have pl: "page_live s r" using old that by simp
        have "parent_of s a \<noteq> f" if "live s' r" "bytes (pages s r) = Some a" for a
          using pl lv [OF that(1)] that(2) False by (auto simp: page_live_def)
        moreover have "page_wf s' r" using page_wf_kept [OF _ kept sc] pl by (simp add: page_live_def)
        ultimately show ?thesis
          using pl lv by (auto simp: page_live_def eq same_cfg_simps(5) [OF sc] fr con)
      qed
      then show ?thesis using old eq by simp
    qed
  qed
  moreover have "maps_ok s'" using bm_coreD(8) [OF core] kp by (rule maps_ok_kept)
  ultimately show ?thesis using kp ef' ff by (simp add: bm_core_def s' set_status_def)
qed

section \<open>Operations on one frame and one page\<close>

text \<open>
  Every other step changes one frame \<open>f\<close> and one page object \<open>r\<close>. The invariant then follows from what
  happens on that frame and to that page.
\<close>

lemma mini_ok_local:
  assumes core: "bm_core X s" and f: "f \<in> frames s" and cfg: "frames s' = frames s" "Lg s' = Lg s"
    and oth: "\<And>g. g \<noteq> f \<Longrightarrow> unusedMiniPages s' g = unusedMiniPages s g"
    and mini: "\<And>k. k \<le> Lg s \<Longrightarrow> distinct (emptyMiniPages s' ! k) \<and>
      set (emptyMiniPages s' ! k) = (set (emptyMiniPages s ! k) - set (fst (unusedMiniPages s f))) \<union>
        (if snd (unusedMiniPages s' f) = k then set (fst (unusedMiniPages s' f)) else {})"
  shows "mini_ok s'"
  unfolding mini_ok_def cfg
proof (intro allI impI conjI)
  fix k a assume k: "k \<le> Lg s"
  show "distinct (emptyMiniPages s' ! k)" using mini [OF k] by simp
  have old: "a \<in> set (emptyMiniPages s ! k) \<longleftrightarrow>
      (\<exists>g \<in> frames s. snd (unusedMiniPages s g) = k \<and> a \<in> set (fst (unusedMiniPages s g)))"
    using bm_coreD(3) [OF core] k by (simp add: mini_ok_def)
  have "a \<in> set (emptyMiniPages s ! k) - set (fst (unusedMiniPages s f)) \<longleftrightarrow>
      (\<exists>g \<in> frames s. g \<noteq> f \<and> snd (unusedMiniPages s g) = k \<and> a \<in> set (fst (unusedMiniPages s g)))"
    using old unused_apart [OF core f] by (metis Diff_iff)
  also have "\<dots> \<longleftrightarrow>
      (\<exists>g \<in> frames s. g \<noteq> f \<and> snd (unusedMiniPages s' g) = k \<and> a \<in> set (fst (unusedMiniPages s' g)))"
    using oth by auto
  finally show "a \<in> set (emptyMiniPages s' ! k) \<longleftrightarrow>
      (\<exists>g \<in> frames s. snd (unusedMiniPages s' g) = k \<and> a \<in> set (fst (unusedMiniPages s' g)))"
    using mini [OF k] f by (auto split: if_splits)
qed

lemma live_ok_local:
  assumes core: "bm_core X s" and sc: "same_cfg s s'" and np: "nextPage s' = nextPage s"
    and pg: "\<And>q. q \<noteq> r \<Longrightarrow> pages s' q = pages s q"
    and con: "\<And>g. g \<noteq> f \<Longrightarrow> constituentPages s' g = constituentPages s g"
    and conf: "\<And>q. q \<noteq> r \<Longrightarrow> q \<in> set (constituentPages s f) \<Longrightarrow> q \<in> set (constituentPages s' f)"
    and lv: "\<And>q. q \<noteq> r \<Longrightarrow> live s' q \<Longrightarrow> live s q"
    and me: "r < nextPage s \<Longrightarrow> if r \<in> X' then bytes (pages s' r) = None else page_live s' r"
    and X: "X' - {r} = X - {r}"
  shows "live_ok X' s'"
  unfolding live_ok_def
proof (intro allI impI)
  fix q assume q: "q < nextPage s'"
  show "if q \<in> X' then bytes (pages s' q) = None else page_live s' q"
  proof (cases "q = r")
    case True
    then show ?thesis using me q np by simp
  next
    case False
    then have eq: "pages s' q = pages s q" and qX: "q \<in> X' \<longleftrightarrow> q \<in> X" using pg X by auto
    have old: "if q \<in> X then bytes (pages s q) = None else page_live s q"
      using bm_coreD(7) [OF core] q np by (simp add: live_ok_def)
    have "page_live s' q" if pl: "page_live s q"
    proof -
      have "page_wf s' q"
        by (rule page_wf_other [of s]) (use pl sc eq in \<open>simp_all add: page_live_def same_cfg_def\<close>)
      moreover have "q \<in> set (constituentPages s' g)" if "q \<in> set (constituentPages s g)" for g
        using con conf [OF False] that by (cases "g = f") auto
      ultimately show ?thesis
        using pl lv [OF False] eq same_cfg_simps [OF sc] by (simp add: page_live_def)
    qed
    then show ?thesis using old eq qX by (auto split: if_splits)
  qed
qed

lemma lru_ok_local:
  assumes core: "bm_core X s" and fr: "frames s' = frames s" and f: "f \<in> frames s"
    and oth: "\<And>g. g \<noteq> f \<Longrightarrow> numPinned s' g = numPinned s g"
    and emp: "set (emptyFullPages s') - {f} = set (emptyFullPages s) - {f}"
    and srt: "sorted_wrt (<) (map snd (lastUsed s'))"
    and ent: "\<And>g t. g \<noteq> f \<Longrightarrow> (g, t) \<in> set (lastUsed s') \<longleftrightarrow> (g, t) \<in> set (lastUsed s)"
    and me: "\<And>t. (f, t) \<in> set (lastUsed s') \<Longrightarrow>
      f \<notin> set (emptyFullPages s') \<and> numPinned s' f = - int t \<and> 0 < t \<and> t < lastTimeTick s'"
    and tick: "lastTimeTick s \<le> lastTimeTick s'"
  shows "lru_ok s'"
  unfolding lru_ok_def
proof (intro conjI allI impI)
  have lo: "lru_ok s" using core by (rule bm_coreD)
  show "0 < lastTimeTick s'" using lo tick by (simp add: lru_ok_def)
  fix g t assume gt: "(g, t) \<in> set (lastUsed s')"
  have "g \<in> frames s' \<and> g \<notin> set (emptyFullPages s') \<and> numPinned s' g = - int t \<and> 0 < t \<and>
      t < lastTimeTick s'"
  proof (cases "g = f")
    case True
    then show ?thesis using me gt f fr by simp
  next
    case False
    then have "g \<in> frames s \<and> g \<notin> set (emptyFullPages s) \<and> numPinned s g = - int t \<and> 0 < t \<and>
        t < lastTimeTick s" using lo ent gt by (simp add: lru_ok_def)
    then show ?thesis using False oth emp fr tick by auto
  qed
  then show "g \<in> frames s'" "g \<notin> set (emptyFullPages s')" "numPinned s' g = - int t" "0 < t"
      "t < lastTimeTick s'" by auto
qed (rule srt)

lemma core_local:
  assumes core: "bm_core X s" and f: "f \<in> frames s" and sc: "same_cfg s s'"
    and len: "length (emptyMiniPages s') = length (emptyMiniPages s)"
      "length (availablePositions s') = length (availablePositions s)"
      "length (isCreatingSpace s') = length (isCreatingSpace s)"
    and np: "nextPage s' = nextPage s"
    and pg: "\<And>q. q \<noteq> r \<Longrightarrow> pages s' q = pages s q"
    and con: "\<And>g. g \<noteq> f \<Longrightarrow> constituentPages s' g = constituentPages s g"
    and un: "\<And>g. g \<noteq> f \<Longrightarrow> unusedMiniPages s' g = unusedMiniPages s g"
    and pin: "\<And>g. g \<noteq> f \<Longrightarrow> numPinned s' g = numPinned s g"
    and rf: "\<And>g. g \<in> frames s \<Longrightarrow> g \<noteq> f \<Longrightarrow> r \<notin> set (constituentPages s g)"
    and fof: "frame_ok s' f"
    and mini: "\<And>k. k \<le> Lg s \<Longrightarrow> distinct (emptyMiniPages s' ! k) \<and>
      set (emptyMiniPages s' ! k) = (set (emptyMiniPages s ! k) - set (fst (unusedMiniPages s f))) \<union>
        (if snd (unusedMiniPages s' f) = k then set (fst (unusedMiniPages s' f)) else {})"
    and emp: "set (emptyFullPages s') - {f} = set (emptyFullPages s) - {f}" "distinct (emptyFullPages s')"
      "f \<in> set (emptyFullPages s') \<Longrightarrow> constituentPages s' f = [] \<and> fst (unusedMiniPages s' f) = []"
    and pinf: "f \<notin> set (emptyFullPages s') \<Longrightarrow> pin_ok s' f"
    and srt: "sorted_wrt (<) (map snd (lastUsed s'))"
    and ent: "\<And>g t. g \<noteq> f \<Longrightarrow> (g, t) \<in> set (lastUsed s') \<longleftrightarrow> (g, t) \<in> set (lastUsed s)"
    and luf: "\<And>t. (f, t) \<in> set (lastUsed s') \<Longrightarrow>
      f \<notin> set (emptyFullPages s') \<and> numPinned s' f = - int t \<and> 0 < t \<and> t < lastTimeTick s'"
    and tick: "lastTimeTick s \<le> lastTimeTick s'"
    and conf: "\<And>q. q \<noteq> r \<Longrightarrow> q \<in> set (constituentPages s f) \<Longrightarrow> q \<in> set (constituentPages s' f)"
    and lv: "\<And>q. q \<noteq> r \<Longrightarrow> live s' q \<Longrightarrow> live s q"
    and me: "r < nextPage s \<Longrightarrow> if r \<in> X' then bytes (pages s' r) = None else page_live s' r"
    and X: "X' - {r} = X - {r}"
    and maps: "maps_ok s'"
  shows "bm_core X' s'"
proof -
  note cs = same_cfg_simps [OF sc]
  have same: "minPage s' = minPage s" "logOfPageSize s' = logOfPageSize s" "pageSize s' = pageSize s"
      "initialized s' = initialized s"
    using sc by (auto simp: same_cfg_def)
  have "bm_cfg s'" by (rule bm_cfg_cong [OF bm_coreD(1) [OF core]]) (use same len in simp_all)
  moreover have "frame_ok s' g" if g: "g \<in> frames s'" for g
  proof (cases "g = f")
    case False
    have "frame_ok s g" using bm_coreD(2) [OF core] g cs by simp
    then show ?thesis
    proof (rule frame_ok_cong)
      fix q assume "q \<in> set (constituentPages s g)"
      then have "q \<noteq> r" using rf [of g] g False cs(1) by auto
      then show "bytes (pages s' q) = bytes (pages s q) \<and>
          numBytes (location (pages s' q)) = numBytes (location (pages s q))"
        using pg by simp
    qed (use False un con np same in simp_all)
  qed (simp add: fof)
  moreover have "mini_ok s'" using core f cs(1,2) un mini by (rule mini_ok_local)
  moreover have "empty_ok s'"
    unfolding empty_ok_def
  proof (intro conjI ballI)
    have eo: "empty_ok s" using core by (rule bm_coreD)
    show "set (emptyFullPages s') \<subseteq> frames s'" using eo emp(1) f cs(1) by (auto simp: empty_ok_def)
    fix g assume "g \<in> set (emptyFullPages s')"
    then show "constituentPages s' g = []" "fst (unusedMiniPages s' g) = []"
      using eo emp con un by (cases "g = f"; auto simp: empty_ok_def)+
  qed (rule emp(2))
  moreover have "pin_ok s' g" if g: "g \<in> frames s'" "g \<notin> set (emptyFullPages s')" for g
  proof (cases "g = f")
    case False
    then have gs: "g \<in> frames s" "g \<notin> set (emptyFullPages s)" using g emp(1) cs(1) by auto
    then have "pin_ok s g" using bm_coreD(5) [OF core] by simp
    then show ?thesis
    proof (rule pin_ok_cong)
      fix q assume "q \<in> set (constituentPages s g)"
      then have "q \<noteq> r" using rf [OF gs(1) False] by auto
      then show "pinned (pages s' q) = pinned (pages s q)" using pg by simp
    qed (use False con pin ent in auto)
  qed (use pinf g in simp)
  moreover have "lru_ok s'"
    using core cs(1) f pin emp(1) srt ent luf tick by (rule lru_ok_local)
  moreover have "live_ok X' s'"
    using core sc np pg con conf lv me X by (rule live_ok_local)
  ultimately show ?thesis using maps by (simp add: bm_core_def)
qed

end
