(* ===== verification/BufferOps.thy ===== *)
theory BufferOps
  imports BufferInv
begin

text \<open>
  Every operation of the buffer manager keeps the invariant, and ends in a state or in one of the
  fatal exits of the code: no undefined behaviour, no wait that nobody ends, no endless loop.
\<close>

section \<open>Fields the invariant does not read\<close>

lemma core_cong:
  assumes "bm_core X s"
    and "minPage s' = minPage s" "memory s' = memory s" "pageSize s' = pageSize s"
    "numPages s' = numPages s" "initialized s' = initialized s" "pages s' = pages s"
    "nextPage s' = nextPage s" "allPages s' = allPages s" "pageLocations s' = pageLocations s"
    "endOfFiles s' = endOfFiles s" "lastUsed s' = lastUsed s" "numPinned s' = numPinned s"
    "fds s' = fds s" "emptyFullPages s' = emptyFullPages s" "constituentPages s' = constituentPages s"
    "emptyMiniPages s' = emptyMiniPages s" "unusedMiniPages s' = unusedMiniPages s"
    "lastTimeTick s' = lastTimeTick s" "logOfPageSize s' = logOfPageSize s"
    "length (availablePositions s') = length (availablePositions s)"
    "length (isCreatingSpace s') = length (isCreatingSpace s)"
  shows "bm_core X s'"
proof -
  have lg: "Lg s' = Lg s" and fr: "frames s' = frames s" and par: "parent_of s' = parent_of s"
      and ad: "addr s' = addr s" and sl: "slots_of s' = slots_of s"
    using assms by (auto simp: Lg_def frames_def parent_of_def addr_def slots_of_def slotBytes_def fun_eq_iff)
  have "bm_cfg s'" by (rule bm_cfg_cong [OF bm_coreD(1) [OF assms(1)]]) (simp_all add: assms)
  moreover have "frame_ok s' = frame_ok s" "mini_ok s' = mini_ok s" "empty_ok s' = empty_ok s"
      "pin_ok s' = pin_ok s" "lru_ok s' = lru_ok s"
    by (auto simp: fun_eq_iff frame_ok_def mini_ok_def empty_ok_def pin_ok_def pin_count_def
        lru_ok_def lg fr ad sl assms(2-))
  moreover have "live_ok X s' = live_ok X s" "maps_ok s' = maps_ok s"
    by (simp_all add: live_ok_def page_live_def page_wf_def live_def maps_ok_def lg fr par assms(2-))
  ultimately show ?thesis using assms(1) by (simp add: bm_core_def fr assms(15))
qed

lemma page_kept_refl [simp]: "page_kept p p"
  by (simp add: page_kept_def)

lemma same_cfg_refl [simp]: "same_cfg s s"
  by (simp add: same_cfg_def)

lemma same_cfg_trans: "same_cfg s s1 \<Longrightarrow> same_cfg s1 s2 \<Longrightarrow> same_cfg s s2"
  by (simp add: same_cfg_def)

lemma keeps_refl [simp]: "keeps s s"
  by (auto simp: keeps_def intro: exI [of _ "\<lambda>_. True"])

lemma page_kept_trans:
  assumes "page_kept p q" and "page_kept q r"
  shows "page_kept p r"
proof (cases "q = p")
  case True
  then show ?thesis using assms(2) by simp
next
  case False
  then have "bytes q = None" using assms(1) by (auto simp: page_kept_def dest: evicted_simps)
  then have "r = q" using assms(2) by (rule page_kept_simps [rotated])
  then show ?thesis using assms(1) by simp
qed

lemma keeps_trans:
  assumes "keeps s s1" and "keeps s1 s2"
  shows "keeps s s2"
proof -
  have "\<exists>P. allPages s2 = filter P (allPages s)"
    using assms by (force simp: keeps_def)
  moreover have "page_kept (pages s r) (pages s2 r)" for r
    using assms page_kept_trans unfolding keeps_def by blast
  ultimately show ?thesis using assms by (simp add: keeps_def same_cfg_def)
qed

section \<open>Finding memory\<close>

lemma slots_list:
  assumes "bm_cfg s"
  shows "set (map (\<lambda>off. f + off) (map (\<lambda>j. j * slotBytes s k) [0..<2 ^ (Lg s - k)])) = slots_of s f k"
    and "distinct (map (\<lambda>off. f + off) (map (\<lambda>j. j * slotBytes s k) [0..<2 ^ (Lg s - k)]))"
proof -
  show "set (map (\<lambda>off. f + off) (map (\<lambda>j. j * slotBytes s k) [0..<2 ^ (Lg s - k)])) = slots_of s f k"
    by (auto simp: slots_of_def atLeast0LessThan)
  show "distinct (map (\<lambda>off. f + off) (map (\<lambda>j. j * slotBytes s k) [0..<2 ^ (Lg s - k)]))"
    using slotBytes_pos [OF assms, of k] by (simp add: distinct_map inj_on_def)
qed

lemma slots_not_mini:
  assumes core: "bm_core X s" and f: "f \<in> frames s" and un: "fst (unusedMiniPages s f) = []"
    and k: "k \<le> Lg s" "j \<le> Lg s"
  shows "slots_of s f k \<inter> set (emptyMiniPages s ! j) = {}"
proof -
  have "a \<notin> slots_of s f k" if "g \<in> frames s" "a \<in> set (fst (unusedMiniPages s g))" for g a
  proof
    assume a: "a \<in> slots_of s f k"
    have "frame_ok s g" using core that(1) by (rule bm_coreD)
    then have "parent_of s a = g"
      using parent_of_slot [OF bm_coreD(1) [OF core] that(1)] that(2) by (auto simp: frame_ok_def)
    moreover have "parent_of s a = f" using parent_of_slot [OF bm_coreD(1) [OF core] f k(1) a] .
    ultimately show False using that(2) un by simp
  qed
  then show ?thesis using bm_coreD(3) [OF core] k(2) by (auto simp: mini_ok_def)
qed

lemma split_full_page_ok:
  assumes core: "bm_core X s" and k: "k \<le> Lg s" and ne: "emptyFullPages s \<noteq> []"
  shows "\<exists>s'. split_full_page k s = Inr s' \<and> bm_core X s' \<and> keeps s s' \<and> emptyMiniPages s' ! k \<noteq> [] \<and>
    isCreatingSpace s' = isCreatingSpace s"
proof -
  let ?f = "last (emptyFullPages s)"
  let ?new = "map (\<lambda>off. ?f + off) (map (\<lambda>j. j * slotBytes s k) [0..<2 ^ (Lg s - k)])"
  note cfg = bm_coreD(1) [OF core] and eo = bm_coreD(4) [OF core] and sl = slots_list [OF cfg, of ?f k]
  have fe: "?f \<in> set (emptyFullPages s)" using ne by simp
  have f: "?f \<in> frames s" and fc: "constituentPages s ?f = []" and fu: "fst (unusedMiniPages s ?f) = []"
    using eo fe by (auto simp: empty_ok_def)
  have kl: "k < length (emptyMiniPages s)" using cfg k by (simp add: bm_cfg_def)
  have dis: "distinct (butlast (emptyFullPages s))" "?f \<notin> set (butlast (emptyFullPages s))"
      and setb: "set (emptyFullPages s) = insert ?f (set (butlast (emptyFullPages s)))"
    using eo distinct_butlast_last [OF ne] last_in_set_butlast_snoc [OF ne] by (auto simp: empty_ok_def)
  define s' where "s' = s\<lparr>emptyMiniPages := (emptyMiniPages s)[k := emptyMiniPages s ! k @ ?new],
      unusedMiniPages := (unusedMiniPages s)(?f := (fst (unusedMiniPages s ?f) @ ?new, k)),
      numPinned := (numPinned s)(?f := 0), emptyFullPages := butlast (emptyFullPages s)\<rparr>"
  have res: "split_full_page k s = Inr s'"
    using ne kl by (simp add: split_full_page_def vec_back_def vec_at_def split_offsets_all [OF cfg k] s'_def)
  have kp: "keeps s s'"
    by (auto simp: keeps_def same_cfg_def s'_def intro: exI [of _ "\<lambda>_. True"])
  then have sc: "same_cfg s s'" by (simp add: keeps_def)
  note cs = same_cfg_simps [OF sc]
  have nl: "(?f, t) \<notin> set (lastUsed s)" for t
    using bm_coreD(6) [OF core] fe by (auto simp: lru_ok_def)
  have "bm_core X s'"
  proof (rule core_local [OF core f sc, where r = "nextPage s"])
    show "frame_ok s' ?f"
      using k sl cs by (simp add: frame_ok_def s'_def fc fu del: set_map map_map)
    show "pin_ok s' ?f" by (simp add: pin_ok_def pin_count_def s'_def fc)
    show "sorted_wrt (<) (map snd (lastUsed s'))" using bm_coreD(6) [OF core] by (simp add: lru_ok_def s'_def)
    show "maps_ok s'" using bm_coreD(8) [OF core] kp by (rule maps_ok_kept)
  next
    fix j assume j: "j \<le> Lg s"
    have jd: "distinct (emptyMiniPages s ! j)" using bm_coreD(3) [OF core] j by (simp add: mini_ok_def)
    have jl: "j < length (emptyMiniPages s)" using cfg j by (simp add: bm_cfg_def)
    show "distinct (emptyMiniPages s' ! j) \<and>
      set (emptyMiniPages s' ! j) = (set (emptyMiniPages s ! j) - set (fst (unusedMiniPages s ?f))) \<union>
        (if snd (unusedMiniPages s' ?f) = j then set (fst (unusedMiniPages s' ?f)) else {})"
    proof (cases "j = k")
      case True
      have "set ?new \<inter> set (emptyMiniPages s ! k) = {}"
        unfolding sl(1) using core f fu k k by (rule slots_not_mini)
      then show ?thesis
        using True jd kl sl(2) fu by (simp add: s'_def Int_commute del: set_map map_map)
    next
      case False
      then show ?thesis using jd fu by (simp add: s'_def)
    qed
  next
    fix g assume g: "g \<in> frames s" "g \<noteq> ?f"
    show "nextPage s \<notin> set (constituentPages s g)" using constituent_frame(3) [OF core g(1)] by blast
  qed (use dis setb nl in \<open>auto simp: s'_def fc live_def\<close>)
  moreover have "emptyMiniPages s' ! k \<noteq> []" using kl by (simp add: s'_def)
  ultimately show ?thesis using res kp by (simp add: s'_def)
qed

lemma evict_lru_error:
  assumes core: "bm_core X s" and ev: "evict_lru s = Inl e"
  shows "is_exit e"
proof (cases "lastUsed s")
  case Nil
  then show ?thesis using ev by (auto simp: evict_lru_def)
next
  case (Cons ft rest)
  obtain f t where lu: "lastUsed s = (f, t) # rest" using Cons by (cases ft) auto
  have f: "f \<in> frames s" using bm_coreD(6) [OF core] lu by (auto simp: lru_ok_def)
  let ?rs = "constituentPages s f"
  define s0 where "s0 = set_status PDB_PAGE_UNLOADING ?rs (s\<lparr>lastUsed := rest\<rparr>)"
  have "drop_unused f s0 = Inr (drop_free f s0)"
    using core f by (rule drop_unused_ok) (simp_all add: s0_def set_status_def)
  then have "evict_pages ?rs (drop_free f s0) = Inl e"
    using ev lu by (auto simp: evict_lru_def Let_def res_simps s0_def)
  moreover have "bm_cfg (drop_free f s0)"
    by (rule bm_cfg_cong [OF bm_coreD(1) [OF core]]) (simp_all add: drop_free_def s0_def set_status_def)
  moreover have "page_wf (drop_free f s0) r \<and> bytes (pages (drop_free f s0) r) \<noteq> None"
    if "r \<in> set ?rs" for r
    using constituent_live(3) [OF core f that] constituent_frame(2) [OF core f that] that
    by (simp add: page_wf_def Lg_def drop_free_def s0_def set_status_def)
  ultimately show ?thesis using evict_pages_no_ub constituent_distinct [OF core f] by blast
qed

text \<open>Which page objects an eviction touches.\<close>

lemma evict_lru_pages:
  assumes core: "bm_core X s" and lu: "lastUsed s = (f, t) # rest" and ev: "evict_lru s = Inr s'"
  shows "r \<in> set (constituentPages s f) \<Longrightarrow> bytes (pages s' r) = None"
    and "r \<notin> set (constituentPages s f) \<Longrightarrow> pages s' r = pages s r"
proof -
  have f: "f \<in> frames s" using bm_coreD(6) [OF core] lu by (auto simp: lru_ok_def)
  let ?rs = "constituentPages s f"
  define s0 where "s0 = set_status PDB_PAGE_UNLOADING ?rs (s\<lparr>lastUsed := rest\<rparr>)"
  have "drop_unused f s0 = Inr (drop_free f s0)"
    using core f by (rule drop_unused_ok) (simp_all add: s0_def set_status_def)
  then obtain s2 where s2: "evict_pages ?rs (drop_free f s0) = Inr s2"
      and s': "pages s' = pages (set_status PDB_PAGE_NOT_LOADED ?rs s2)"
    using ev lu by (auto simp: evict_lru_def res_simps s0_def Let_def)
  have ef: "evict_frame ?rs (drop_free f s0) s2"
    using constituent_distinct [OF core f] s2 by (rule evict_pages_frame)
  show "r \<in> set ?rs \<Longrightarrow> bytes (pages s' r) = None"
    using ef by (auto simp: s' set_status_def evict_frame_def dest: evicted_simps)
  show "r \<notin> set ?rs \<Longrightarrow> pages s' r = pages s r"
    using ef by (simp add: s' set_status_def evict_frame_def s0_def drop_free_def)
qed

text \<open>The outcome of a step that may end in one of the fatal exits of the code.\<close>

definition holds_or_exit :: "('a \<Rightarrow> bool) \<Rightarrow> 'a result \<Rightarrow> bool" where
  "holds_or_exit P m \<longleftrightarrow> (case m of Inl e \<Rightarrow> is_exit e | Inr x \<Rightarrow> P x)"

named_theorems hoe \<open>composition of outcomes\<close>

lemma hoe_Inr [simp]: "holds_or_exit P (Inr x) \<longleftrightarrow> P x"
  by (simp add: holds_or_exit_def)

lemma hoe_Exit [simp]: "holds_or_exit P (Inl (Exit m)) \<longleftrightarrow> m \<in> set fatal_exits"
  by (simp add: holds_or_exit_def)

lemma hoe_andThen:
  "holds_or_exit Q m \<Longrightarrow> (\<And>x. Q x \<Longrightarrow> holds_or_exit P (f x)) \<Longrightarrow> holds_or_exit P (andThen m f)"
  by (cases m) (auto simp: holds_or_exit_def)

lemma hoe_mono: "holds_or_exit Q m \<Longrightarrow> (\<And>x. Q x \<Longrightarrow> P x) \<Longrightarrow> holds_or_exit P m"
  by (auto simp: holds_or_exit_def split: sum.splits)

lemma hoeD: "holds_or_exit P m \<Longrightarrow> m = Inr x \<Longrightarrow> P x"
  by simp

lemma evict_lru_hoe:
  assumes "bm_core X s"
  shows "holds_or_exit (\<lambda>s'. bm_core X s' \<and> keeps s s' \<and> emptyFullPages s' \<noteq> [] \<and>
    isCreatingSpace s' = isCreatingSpace s) (evict_lru s)"
  using evict_lru_ok [OF assms] evict_lru_error [OF assms]
  by (auto simp: holds_or_exit_def split: sum.splits)

lemma createAdditionalMiniPages_ok:
  assumes core: "bm_core X s" and k: "k \<le> Lg s" and idle: "\<not> isCreatingSpace s ! k"
  shows "holds_or_exit (\<lambda>s'. bm_core X s' \<and> keeps s s' \<and> emptyMiniPages s' ! k \<noteq> [] \<and>
    isCreatingSpace s' = isCreatingSpace s) (createAdditionalMiniPages k s)"
proof (cases "emptyMiniPages s ! k = []")
  case False
  then show ?thesis
    using core k idle bm_coreD(1) [OF core] by (simp add: createAdditionalMiniPages_def vec_at_def bm_cfg_def)
next
  case True
  have kl: "k < length (isCreatingSpace s)" "k < length (emptyMiniPages s)"
    using bm_coreD(1) [OF core] k by (auto simp: bm_cfg_def)
  let ?s = "s\<lparr>isCreatingSpace := (isCreatingSpace s)[k := True]\<rparr>"
  have core1: "bm_core X ?s" using core by (rule core_cong) simp_all
  have kp1: "keeps s ?s" by (auto simp: keeps_def same_cfg_def intro: exI [of _ "\<lambda>_. True"])
  have step: "holds_or_exit (\<lambda>s'. bm_core X s' \<and> keeps s s' \<and> emptyMiniPages s' ! k \<noteq> [] \<and>
      isCreatingSpace s' = isCreatingSpace s) (andThen (split_full_page k s1) (\<lambda>s2.
            Inr (s2\<lparr>isCreatingSpace := (isCreatingSpace s2)[k := False]\<rparr>)))"
    if c: "bm_core X s1" "keeps ?s s1" "emptyFullPages s1 \<noteq> []" "isCreatingSpace s1 = isCreatingSpace ?s" for s1
  proof -
    have "k \<le> Lg s1" using k c(2) by (simp add: keeps_def same_cfg_def Lg_def)
    then obtain s2 where s2: "split_full_page k s1 = Inr s2" "bm_core X s2" "keeps s1 s2"
        "emptyMiniPages s2 ! k \<noteq> []" "isCreatingSpace s2 = isCreatingSpace s1"
      using split_full_page_ok [OF c(1) _ c(3)] by blast
    have "bm_core X (s2\<lparr>isCreatingSpace := (isCreatingSpace s2)[k := False]\<rparr>)"
      using s2(2) by (rule core_cong) simp_all
    moreover have "keeps s (s2\<lparr>isCreatingSpace := (isCreatingSpace s2)[k := False]\<rparr>)"
      using keeps_trans [OF kp1 keeps_trans [OF c(2) s2(3)]] by (simp add: keeps_def same_cfg_def)
    moreover have "(isCreatingSpace s2)[k := False] = isCreatingSpace s"
      using s2(5) c(4) kl idle by (simp add: list_update_same_conv)
    ultimately show ?thesis using s2(1,4) by simp
  qed
  have "holds_or_exit (\<lambda>s1. bm_core X s1 \<and> keeps ?s s1 \<and> emptyFullPages s1 \<noteq> [] \<and>
      isCreatingSpace s1 = isCreatingSpace ?s)
      (if emptyFullPages s = [] then evict_lru ?s else Inr ?s)"
    using evict_lru_hoe [OF core1] core1 by simp
  then show ?thesis
    using True kl idle step by (auto simp: createAdditionalMiniPages_def vec_at_def intro: hoe_andThen)
qed

text \<open>The lists of free slots, seen from one frame.\<close>

lemma mini_ok_self:
  assumes core: "bm_core X s" and f: "f \<in> frames s" and j: "j \<le> Lg s"
  shows "distinct (emptyMiniPages s ! j) \<and>
    set (emptyMiniPages s ! j) = (set (emptyMiniPages s ! j) - set (fst (unusedMiniPages s f))) \<union>
      (if snd (unusedMiniPages s f) = j then set (fst (unusedMiniPages s f)) else {})"
proof -
  have mo: "mini_ok s" using core by (rule bm_coreD)
  have "snd (unusedMiniPages s f) = j"
    if "b \<in> set (emptyMiniPages s ! j)" "b \<in> set (fst (unusedMiniPages s f))" for b
    using mo j that unused_apart [OF core f] by (auto simp: mini_ok_def)
  moreover have "set (fst (unusedMiniPages s f)) \<subseteq> set (emptyMiniPages s ! j)"
    if "snd (unusedMiniPages s f) = j"
    using mo j f that by (auto simp: mini_ok_def)
  moreover have "distinct (emptyMiniPages s ! j)" using mo j by (simp add: mini_ok_def)
  ultimately show ?thesis by auto
qed

text \<open>A free slot: memory of the right size on a split frame that no page and no list owns.\<close>

definition free_slot :: "bm \<Rightarrow> nat \<Rightarrow> nat \<Rightarrow> bool" where
  "free_slot s k a \<longleftrightarrow> (let f = parent_of s a in f \<in> frames s \<and> f \<notin> set (emptyFullPages s) \<and>
     snd (unusedMiniPages s f) = k \<and> a \<in> slots_of s f k \<and> a \<notin> set (fst (unusedMiniPages s f)) \<and>
     a \<notin> addr s ` set (constituentPages s f))"

lemma take_slot_ok:
  assumes core: "bm_core X s" and k: "k \<le> Lg s" and ne: "emptyMiniPages s ! k \<noteq> []"
  defines "a \<equiv> last (emptyMiniPages s ! k)"
  defines "f \<equiv> parent_of s a"
  defines "s' \<equiv> s\<lparr>emptyMiniPages := (emptyMiniPages s)[k := butlast (emptyMiniPages s ! k)],
      unusedMiniPages := (unusedMiniPages s)(f := (remove1 a (fst (unusedMiniPages s f)), k))\<rparr>"
  shows "a \<in> set (fst (unusedMiniPages s f))" and "snd (unusedMiniPages s f) = k"
    and "bm_core X s'" and "keeps s s'" and "free_slot s' k a"
proof -
  note cfg = bm_coreD(1) [OF core] and mo = bm_coreD(3) [OF core]
  have "a \<in> set (emptyMiniPages s ! k)" using ne by (simp add: a_def)
  then obtain g where g: "g \<in> frames s" "snd (unusedMiniPages s g) = k" "a \<in> set (fst (unusedMiniPages s g))"
    using mo k by (auto simp: mini_ok_def)
  have fo: "frame_ok s g" using core g(1) by (rule bm_coreD)
  then have ag: "a \<in> slots_of s g k" using g by (auto simp: frame_ok_def)
  have gf: "g = f" using parent_of_slot [OF cfg g(1) k ag] by (simp add: f_def)
  show af: "a \<in> set (fst (unusedMiniPages s f))" and sf: "snd (unusedMiniPages s f) = k"
    using g gf by auto
  have dis: "distinct (fst (unusedMiniPages s f))" "a \<notin> addr s ` set (constituentPages s f)"
    using fo af gf by (auto simp: frame_ok_def)
  have f: "f \<in> frames s" using g gf by simp
  have kl: "k < length (emptyMiniPages s)" using cfg k by (simp add: bm_cfg_def)
  show kp: "keeps s s'"
    by (auto simp: keeps_def same_cfg_def s'_def intro: exI [of _ "\<lambda>_. True"])
  then have sc: "same_cfg s s'" by (simp add: keeps_def)
  note cs = same_cfg_simps [OF sc]
  have md: "distinct (emptyMiniPages s ! k)" using mo k by (simp add: mini_ok_def)
  then have bl: "distinct (butlast (emptyMiniPages s ! k))"
      "set (butlast (emptyMiniPages s ! k)) = set (emptyMiniPages s ! k) - {a}"
    using distinct_butlast_last [OF ne] last_in_set_butlast_snoc [OF ne] by (auto simp: a_def)
  have sub: "set (fst (unusedMiniPages s f)) \<subseteq> set (emptyMiniPages s ! k)"
    using mo k f sf by (auto simp: mini_ok_def)
  have fe: "f \<notin> set (emptyFullPages s)" using bm_coreD(4) [OF core] af by (auto simp: empty_ok_def)
  have "addr s' = addr s" by (simp add: fun_eq_iff addr_def s'_def)
  then show "free_slot s' k a"
    using f fe ag gf dis cs by (simp add: free_slot_def s'_def f_def [symmetric] set_remove1_eq)
  show "bm_core X s'"
  proof (rule core_local [OF core f sc, where r = "nextPage s"])
    show "frame_ok s' f"
      using fo gf sf k cs dis \<open>addr s' = addr s\<close>
      by (auto simp: frame_ok_def s'_def set_remove1_eq)
    show "f \<notin> set (emptyFullPages s') \<Longrightarrow> pin_ok s' f"
      using bm_coreD(5) [OF core f fe] by (simp add: pin_ok_def pin_count_def s'_def)
    show "sorted_wrt (<) (map snd (lastUsed s'))" using bm_coreD(6) [OF core] by (simp add: lru_ok_def s'_def)
    show "maps_ok s'" using bm_coreD(8) [OF core] kp by (rule maps_ok_kept)
    show "distinct (emptyFullPages s')" using bm_coreD(4) [OF core] by (simp add: empty_ok_def s'_def)
  next
    fix j assume j: "j \<le> Lg s"
    have jd: "distinct (emptyMiniPages s ! j)" using mo j by (simp add: mini_ok_def)
    have ap: "set (emptyMiniPages s ! j) \<inter> set (fst (unusedMiniPages s f)) = {}" if "j \<noteq> k"
    proof -
      have "snd (unusedMiniPages s f) = j"
        if "b \<in> set (emptyMiniPages s ! j)" "b \<in> set (fst (unusedMiniPages s f))" for b
        using mo j that unused_apart [OF core f] by (auto simp: mini_ok_def)
      then show ?thesis using sf that by auto
    qed
    show "distinct (emptyMiniPages s' ! j) \<and>
      set (emptyMiniPages s' ! j) = (set (emptyMiniPages s ! j) - set (fst (unusedMiniPages s f))) \<union>
        (if snd (unusedMiniPages s' f) = j then set (fst (unusedMiniPages s' f)) else {})"
    proof (cases "j = k")
      case True
      then show ?thesis using kl bl sub af dis(1) by (auto simp: s'_def set_remove1_eq)
    next
      case False
      then show ?thesis using jd ap by (auto simp: s'_def)
    qed
  next
    fix g assume g: "g \<in> frames s" "g \<noteq> f"
    show "nextPage s \<notin> set (constituentPages s g)" using constituent_frame(3) [OF core g(1)] by blast
  next
    fix t assume "(f, t) \<in> set (lastUsed s')"
    then show "f \<notin> set (emptyFullPages s') \<and> numPinned s' f = - int t \<and> 0 < t \<and> t < lastTimeTick s'"
      using bm_coreD(6) [OF core] fe by (auto simp: lru_ok_def s'_def)
  qed (use fe in \<open>simp_all add: s'_def live_def\<close>)
qed

lemma getEmptyMemory_ok:
  assumes core: "bm_core X s" and k: "k \<le> Lg s" and idle: "\<not> isCreatingSpace s ! k"
  shows "holds_or_exit (\<lambda>(a, s'). bm_core X s' \<and> keeps s s' \<and> free_slot s' k a \<and>
    isCreatingSpace s' = isCreatingSpace s) (getEmptyMemory k s)"
proof -
  have kl: "k < length (emptyMiniPages s)" using bm_coreD(1) [OF core] k by (simp add: bm_cfg_def)
  have "holds_or_exit (\<lambda>s'. bm_core X s' \<and> keeps s s' \<and> emptyMiniPages s' ! k \<noteq> [] \<and>
      isCreatingSpace s' = isCreatingSpace s)
      (if emptyMiniPages s ! k = [] then createAdditionalMiniPages k s else Inr s)"
    using createAdditionalMiniPages_ok [OF core k idle] core by simp
  moreover have "holds_or_exit (\<lambda>(a, s'). bm_core X s' \<and> keeps s s' \<and> free_slot s' k a \<and>
      isCreatingSpace s' = isCreatingSpace s)
      (andThen (vec_at (emptyMiniPages s1) k) (\<lambda>em.
       andThen (vec_back em) (\<lambda>space.
       (let f = parent_of s1 space; (un, c) = unusedMiniPages s1 f
        in andThen (vec_find_erase space un) (\<lambda>un'.
             Inr (space, s1\<lparr>emptyMiniPages := (emptyMiniPages s1)[k := butlast em],
                            unusedMiniPages := (unusedMiniPages s1)(f := (un', c))\<rparr>))))))"
    if c: "bm_core X s1 \<and> keeps s s1 \<and> emptyMiniPages s1 ! k \<noteq> [] \<and>
      isCreatingSpace s1 = isCreatingSpace s" for s1
  proof -
    have k1: "k \<le> Lg s1" using k c by (simp add: keeps_def same_cfg_def Lg_def)
    then have kl1: "k < length (emptyMiniPages s1)" using bm_coreD(1) c by (auto simp: bm_cfg_def)
    note ts = take_slot_ok [OF conjunct1 [OF c] k1, OF conjunct1 [OF conjunct2 [OF conjunct2 [OF c]]]]
    obtain un where un: "unusedMiniPages s1 (parent_of s1 (last (emptyMiniPages s1 ! k))) = (un, k)"
      using ts(2) by (cases "unusedMiniPages s1 (parent_of s1 (last (emptyMiniPages s1 ! k)))") auto
    show ?thesis
      using ts c kl1 keeps_trans [of s s1] by (simp add: vec_at_def vec_back_def vec_find_erase_def un)
  qed
  ultimately have "holds_or_exit (\<lambda>(a, s'). bm_core X s' \<and> keeps s s' \<and> free_slot s' k a \<and>
      isCreatingSpace s' = isCreatingSpace s)
      (andThen (if emptyMiniPages s ! k = [] then createAdditionalMiniPages k s else Inr s) (\<lambda>s1.
       andThen (vec_at (emptyMiniPages s1) k) (\<lambda>em.
       andThen (vec_back em) (\<lambda>space.
       (let f = parent_of s1 space; (un, c) = unusedMiniPages s1 f
        in andThen (vec_find_erase space un) (\<lambda>un'.
             Inr (space, s1\<lparr>emptyMiniPages := (emptyMiniPages s1)[k := butlast em],
                            unusedMiniPages := (unusedMiniPages s1)(f := (un', c))\<rparr>)))))))"
    by (rule hoe_andThen)
  moreover have "vec_at (emptyMiniPages s) k = Inr (emptyMiniPages s ! k)"
    using kl by (simp add: vec_at_def)
  ultimately show ?thesis unfolding getEmptyMemory_def by (simp only: andThen.simps)
qed

section \<open>Pinning\<close>

text \<open>
  The ticks stay below \<open>2 ^ 32\<close>, where the 32-bit key of an erasure is the tick itself.
\<close>

definition tick_room :: "bm \<Rightarrow> bool" where
  "tick_room s \<longleftrightarrow> lastTimeTick s \<le> 2 ^ 32"

lemma sorted_wrt_filter: "sorted_wrt (<) (map f xs) \<Longrightarrow> sorted_wrt (<) (map f (filter P xs))"
  for f :: "'a \<Rightarrow> 'b::linorder"
  by (induction xs) auto

lemma tick_unique:
  fixes xs :: "(nat \<times> nat) list"
  assumes "sorted_wrt (<) (map snd xs)" and "(g, t) \<in> set xs" and "(h, t) \<in> set xs"
  shows "g = h"
proof -
  have "distinct (map snd xs)" using assms(1) by (simp add: strict_sorted_iff)
  then have "inj_on snd (set xs)" by (simp add: distinct_map)
  from inj_onD [OF this _ assms(2,3)] show ?thesis by simp
qed

lemma pinFrame_facts:
  assumes core: "bm_core X s" and f: "f \<in> frames s" "f \<notin> set (emptyFullPages s)" and room: "tick_room s"
  shows "sorted_wrt (<) (map snd (lastUsed (pinFrame f s)))"
    and "(g, t) \<in> set (lastUsed (pinFrame f s)) \<longleftrightarrow> g \<noteq> f \<and> (g, t) \<in> set (lastUsed s)"
    and "numPinned (pinFrame f s) = (numPinned s)(f := int (pin_count s f) + 1)"
proof -
  have lo: "lru_ok s" and po: "pin_ok s f" using core f by (auto dest: bm_coreD)
  have ft: "numPinned s f = - int u \<and> 0 < u" if "(f, u) \<in> set (lastUsed s)" for u
    using lo that by (simp add: lru_ok_def)
  have "sorted_wrt (<) (map snd (lastUsed (pinFrame f s))) \<and>
     (\<forall>g t. (g, t) \<in> set (lastUsed (pinFrame f s)) \<longleftrightarrow> g \<noteq> f \<and> (g, t) \<in> set (lastUsed s)) \<and>
     numPinned (pinFrame f s) = (numPinned s)(f := int (pin_count s f) + 1)"
  proof (cases "numPinned s f < 0")
    case True
    let ?u = "nat (- numPinned s f)"
    have in': "(f, ?u) \<in> set (lastUsed s)" and pc: "pin_count s f = 0"
      using po True by (auto simp: pin_ok_def)
    have "?u < lastTimeTick s" using lo in' unfolding lru_ok_def by blast
    then have "?u < 2 ^ 32" using room by (simp add: tick_room_def)
    then have t32: "tick32 (- numPinned s f) = ?u" by (simp add: tick32_def)
    have srt: "sorted_wrt (<) (map snd (lastUsed s))" using lo by (simp add: lru_ok_def)
    have "(t \<noteq> ?u) \<longleftrightarrow> g \<noteq> f" if gt: "(g, t) \<in> set (lastUsed s)" for g t
    proof
      assume "t \<noteq> ?u" then show "g \<noteq> f" using ft [of t] gt by (intro notI) simp
    next
      assume "g \<noteq> f" then show "t \<noteq> ?u" using tick_unique [OF srt gt] in' by blast
    qed
    then have "\<forall>g t. (g, t) \<in> set (lru_erase ?u (lastUsed s)) \<longleftrightarrow> g \<noteq> f \<and> (g, t) \<in> set (lastUsed s)"
      unfolding lru_erase_def by auto
    moreover have "sorted_wrt (<) (map snd (lru_erase ?u (lastUsed s)))"
      unfolding lru_erase_def using srt by (rule sorted_wrt_filter)
    ultimately show ?thesis using True pc by (simp add: pinFrame_def t32)
  next
    case False
    then have "numPinned s f = int (pin_count s f)" using po by (auto simp: pin_ok_def)
    moreover have "g \<noteq> f" if "(g, t) \<in> set (lastUsed s)" for g t using ft [of t] that False by auto
    ultimately show ?thesis using False lo by (auto simp: pinFrame_def lru_ok_def)
  qed
  then show "sorted_wrt (<) (map snd (lastUsed (pinFrame f s)))"
    and "(g, t) \<in> set (lastUsed (pinFrame f s)) \<longleftrightarrow> g \<noteq> f \<and> (g, t) \<in> set (lastUsed s)"
    and "numPinned (pinFrame f s) = (numPinned s)(f := int (pin_count s f) + 1)" by blast+
qed

text \<open>Pinning a frame touches the LRU queue and the pin counter of the frame only.\<close>

lemma pinFrame_eq:
  assumes "lastUsed s1 = lastUsed s" and "numPinned s1 = numPinned s"
  shows "pinFrame f s1 = s1\<lparr>lastUsed := lastUsed (pinFrame f s), numPinned := numPinned (pinFrame f s)\<rparr>"
  using assms by (simp add: pinFrame_def)

lemma maps_ok_upd:
  assumes "maps_ok s" and "same_cfg s s'" and "nextPage s' = nextPage s"
    and "allPages s' = allPages s" "pageLocations s' = pageLocations s" "endOfFiles s' = endOfFiles s"
    and "\<And>q. page_key (pages s' q) = page_key (pages s q) \<and> isAnon (pages s' q) = isAnon (pages s q)"
  shows "maps_ok s'"
  using assms same_cfg_simps [OF assms(2)] unfolding maps_ok_def same_cfg_def by auto

section \<open>Giving a page its memory\<close>

definition attach :: "nat \<Rightarrow> pdb_page \<Rightarrow> nat \<Rightarrow> bm \<Rightarrow> bm" where
  "attach r p f s = pinFrame f (s\<lparr>pages := (pages s)(r := p),
     constituentPages := (constituentPages s)(f := constituentPages s f @ [r])\<rparr>)"

definition attachable :: "bm \<Rightarrow> nat \<Rightarrow> nat \<Rightarrow> pdb_page \<Rightarrow> bool" where
  "attachable s r a p \<longleftrightarrow> bytes p = Some a \<and> pinned p \<and> \<not> is_busy (status p) \<and>
     page_key p = page_key (pages s r) \<and> isAnon p = isAnon (pages s r) \<and>
     (isAnon p \<longrightarrow> startPos (location p) < 0 \<longrightarrow> dirty p) \<and>
     (\<not> isAnon p \<longrightarrow> 0 \<le> startPos (location p) \<and> whichSet p \<noteq> None \<and> map_of (fds s) (whichSet p) \<noteq> None)"

lemma attach_ok:
  assumes core: "bm_core X s" and r: "r \<in> X" "r < nextPage s" and fs: "free_slot s k a" and k: "k \<le> Lg s"
    and at: "attachable s r a p" and kp: "numBytes (location p) = k" and room: "tick_room s"
  shows "bm_core (X - {r}) (attach r p (parent_of s a) s)"
proof -
  define f where "f = parent_of s a"
  have f: "f \<in> frames s" "f \<notin> set (emptyFullPages s)" and un: "snd (unusedMiniPages s f) = k"
      and a: "a \<in> slots_of s f k" "a \<notin> set (fst (unusedMiniPages s f))"
      "a \<notin> addr s ` set (constituentPages s f)"
    using fs by (auto simp: free_slot_def f_def Let_def)
  note pf = pinFrame_facts [OF core f room]
  define s' where "s' = attach r p f s"
  have s': "s' = s\<lparr>pages := (pages s)(r := p),
      constituentPages := (constituentPages s)(f := constituentPages s f @ [r]),
      lastUsed := lastUsed (pinFrame f s), numPinned := (numPinned s)(f := int (pin_count s f) + 1)\<rparr>"
    unfolding s'_def attach_def by (subst pinFrame_eq [where s = s]) (simp_all add: pf(3))
  have sc: "same_cfg s s'" by (simp add: same_cfg_def s')
  note cs = same_cfg_simps [OF sc]
  have rc: "r \<notin> set (constituentPages s g)" if "g \<in> frames s" for g
    using constituent_live(1) [OF core that] r(1) by auto
  have fo: "frame_ok s f" and eo: "empty_ok s" and lo: "lru_ok s" and mo: "mini_ok s"
    using core f by (auto dest: bm_coreD)
  have ad: "map (addr s') (constituentPages s f) = map (addr s) (constituentPages s f)"
    using rc [OF f(1)] by (auto simp: addr_def s')
  have ads: "addr s' ` set (constituentPages s f) = addr s ` set (constituentPages s f)"
    using arg_cong [OF ad, of set] by simp
  have adr: "addr s' r = a" using at by (simp add: addr_def s' attachable_def)
  have par: "parent_of s' a = f" using cs(5) by (simp add: f_def)
  have flds: "constituentPages s' f = constituentPages s f @ [r]" "unusedMiniPages s' = unusedMiniPages s"
      "pages s' = (pages s)(r := p)" "nextPage s' = nextPage s"
      and same: "emptyMiniPages s' = emptyMiniPages s"
    by (simp_all add: s')
  have "bm_core (X - {r}) s'"
  proof (rule core_local [OF core f(1) sc, where r = r])
    show "frame_ok s' f"
      using fo a un at kp r(2) cs k rc [OF f(1)]
      unfolding frame_ok_def flds by (auto simp: ad ads adr attachable_def)
    show "pin_ok s' f"
    proof -
      have "filter (\<lambda>q. pinned (pages s' q)) (constituentPages s f) =
          filter (\<lambda>q. pinned (pages s q)) (constituentPages s f)"
        by (rule filter_cong) (use rc [OF f(1)] in \<open>auto simp: s'\<close>)
      then have "pin_count s' f = pin_count s f + 1"
        using at by (simp add: pin_count_def attachable_def s')
      then show ?thesis by (simp add: pin_ok_def s')
    qed
    show "sorted_wrt (<) (map snd (lastUsed s'))" using pf(1) by (simp add: s')
    show "maps_ok s'"
      by (rule maps_ok_upd [OF bm_coreD(8) [OF core] sc]) (use at in \<open>simp_all add: s' attachable_def\<close>)
    show "if r \<in> X - {r} then bytes (pages s' r) = None else page_live s' r"
      using at kp k f(1) cs par
      by (simp add: page_live_def page_wf_def attachable_def s' f_def [symmetric])
    show "distinct (emptyFullPages s')" using eo by (simp add: empty_ok_def s')
    show "f \<in> set (emptyFullPages s') \<Longrightarrow> constituentPages s' f = [] \<and> fst (unusedMiniPages s' f) = []"
      using f(2) by (simp add: s')
  next
    fix j assume j: "j \<le> Lg s"
    show "distinct (emptyMiniPages s' ! j) \<and>
      set (emptyMiniPages s' ! j) = (set (emptyMiniPages s ! j) - set (fst (unusedMiniPages s f))) \<union>
        (if snd (unusedMiniPages s' f) = j then set (fst (unusedMiniPages s' f)) else {})"
      unfolding flds same by (rule mini_ok_self [OF core f(1) j])
  qed (use pf rc in \<open>auto simp: s' live_def\<close>)
  then show ?thesis by (simp add: s'_def f_def)
qed

text \<open>Registering a page is attaching it.\<close>

lemma registerMiniPage_attach:
  "bytes (pages s r) = Some a \<Longrightarrow>
     registerMiniPage r s = Inr (attach r (pages s r) (parent_of s a) s)"
  by (simp add: registerMiniPage_def pinParent_def attach_def Let_def parent_of_def)

lemma upd_page_attach [simp]: "upd_page r g (attach r p f s) = attach r (g p) f s"
  by (simp add: upd_page_def attach_def pinFrame_def)

lemma attach_fields [simp]:
  "pages (attach r p f s) = (pages s)(r := p)" "nextPage (attach r p f s) = nextPage s"
  "isCreatingSpace (attach r p f s) = isCreatingSpace s" "lastTimeTick (attach r p f s) = lastTimeTick s"
  "ram (attach r p f s) = ram s" "files (attach r p f s) = files s" "tempData (attach r p f s) = tempData s"
  "fds (attach r p f s) = fds s" "ioOk (attach r p f s) = ioOk s"
  "pageLocations (attach r p f s) = pageLocations s" "endOfFiles (attach r p f s) = endOfFiles s"
  "allPages (attach r p f s) = allPages s" "miniBytes (attach r p f s) k = miniBytes s k"
  "freeAnonPageNumbers (attach r p f s) = freeAnonPageNumbers s"
  "lastFreeAnonPageNumber (attach r p f s) = lastFreeAnonPageNumber s"
  by (simp_all add: attach_def pinFrame_def miniBytes_def)

lemma attach_cfg [simp]: "same_cfg s (attach r p f s)"
  by (simp add: attach_def pinFrame_def same_cfg_def)

lemma attach_twice [simp]:
  "attach r p f (s\<lparr>pages := (pages s)(r := q)\<rparr>) = attach r p f s"
  by (simp add: attach_def pinFrame_def)

lemma free_slot_cong:
  assumes "free_slot s k a" and "same_cfg s s'" and "emptyFullPages s' = emptyFullPages s"
    and "unusedMiniPages s' = unusedMiniPages s" and "constituentPages s' = constituentPages s"
    and "\<And>q. q \<in> set (constituentPages s (parent_of s a)) \<Longrightarrow> bytes (pages s' q) = bytes (pages s q)"
  shows "free_slot s' k a"
proof -
  have "addr s' ` set (constituentPages s (parent_of s a)) = addr s ` set (constituentPages s (parent_of s a))"
    by (rule image_cong) (simp_all add: addr_def assms(6))
  then show ?thesis using assms same_cfg_simps [OF assms(2)] by (simp add: free_slot_def Let_def)
qed

section \<open>New page objects\<close>

lemma new_page_ok:
  assumes core: "bm_core X s" and "bytes p = None"
  shows "bm_core (insert (nextPage s) X) (snd (new_page p s))"
proof -
  define s' where "s' = snd (new_page p s)"
  have s': "s' = s\<lparr>pages := (pages s)(nextPage s := p), nextPage := nextPage s + 1\<rparr>"
    by (simp add: s'_def new_page_def)
  have sc: "same_cfg s s'" by (simp add: same_cfg_def s')
  note cs = same_cfg_simps [OF sc]
  have old: "pages s' q = pages s q" if "q < nextPage s" for q using that by (simp add: s')
  have con: "q < nextPage s" if "g \<in> frames s" "q \<in> set (constituentPages s g)" for g q
    using constituent_frame(3) [OF core that] .
  have "bm_cfg s'" by (rule bm_cfg_cong [OF bm_coreD(1) [OF core]]) (simp_all add: s')
  moreover have "frame_ok s' g" if "g \<in> frames s" for g
    using bm_coreD(2) [OF core that] by (rule frame_ok_cong) (use con [OF that] in \<open>auto simp: s'\<close>)
  moreover have "pin_ok s' g" if "g \<in> frames s" "g \<notin> set (emptyFullPages s)" for g
    using bm_coreD(5) [OF core that] by (rule pin_ok_cong) (use con [OF that(1)] in \<open>auto simp: s'\<close>)
  moreover have "mini_ok s'" "empty_ok s'" "lru_ok s'"
    using bm_coreD(3,4,6) [OF core] cs by (simp_all add: mini_ok_def empty_ok_def lru_ok_def s')
  moreover have "live_ok (insert (nextPage s) X) s'"
    unfolding live_ok_def
  proof (intro allI impI)
    fix q assume q: "q < nextPage s'"
    show "if q \<in> insert (nextPage s) X then bytes (pages s' q) = None else page_live s' q"
    proof (cases "q = nextPage s")
      case False
      then have q': "q < nextPage s" using q by (simp add: s')
      have "page_live s' q = page_live s q"
        unfolding page_live_def page_wf_def live_def cs old [OF q'] by (simp add: s')
      then show ?thesis
        using bm_coreD(7) [OF core] False old [OF q'] q' by (simp add: live_ok_def)
    qed (use assms(2) in \<open>simp add: s'\<close>)
  qed
  moreover have "maps_ok s'"
    using bm_coreD(8) [OF core] unfolding maps_ok_def cs by (fastforce simp: s')
  ultimately show ?thesis using cs(1) by (simp add: bm_core_def s'_def [symmetric]) (simp add: s')
qed

text \<open>Entering a page that is being created in \<^verbatim>\<open>allPages\<close>.\<close>

lemma enter_page_ok:
  assumes core: "bm_core X s" and r: "r \<in> X" "r < nextPage s" and na: "\<not> isAnon (pages s r)"
  shows "bm_core X (s\<lparr>allPages := map_put (page_key (pages s r)) r (allPages s)\<rparr>)" (is "bm_core X ?s")
proof -
  have sc: "same_cfg s ?s" by (simp add: same_cfg_def)
  have lv: "live s q" if "live ?s q" "q \<noteq> r" for q
    using that set_map_put_subset [of "page_key (pages s r)" r "allPages s"] by (force simp: live_def)
  have "live_ok X ?s"
    using core sc by (rule live_ok_local [where r = r and f = 0])
      (use lv bm_coreD(7) [OF core] r in \<open>simp_all add: live_ok_def\<close>)
  moreover have "maps_ok ?s"
    using bm_coreD(8) [OF core] r na set_map_put_subset [of "page_key (pages s r)" r "allPages s"]
      same_cfg_simps [OF sc] unfolding maps_ok_def by (auto simp: map_ok_put)
  moreover have "bm_cfg ?s" by (rule bm_cfg_cong [OF bm_coreD(1) [OF core]]) simp_all
  moreover have "frame_ok ?s g" if "g \<in> frames s" for g
    using bm_coreD(2) [OF core that] by (rule frame_ok_cong) simp_all
  moreover have "pin_ok ?s g" if "g \<in> frames s" "g \<notin> set (emptyFullPages s)" for g
    using bm_coreD(5) [OF core that] by (rule pin_ok_cong) simp_all
  moreover have "mini_ok ?s" "empty_ok ?s" "lru_ok ?s"
    using bm_coreD(3,4,6) [OF core] same_cfg_simps [OF sc]
    by (simp_all add: mini_ok_def empty_ok_def lru_ok_def)
  ultimately show ?thesis using same_cfg_simps(1) [OF sc] by (simp add: bm_core_def)
qed

section \<open>Requests for pages\<close>

text \<open>
  The outcome of a request: the invariant holds, the page has a handle, is pinned and lies on its
  frame, the RAM outside the page is as before, and every other page object keeps its value or was
  unpinned and has been evicted.
\<close>

definition in_page :: "bm \<Rightarrow> nat \<Rightarrow> nat \<Rightarrow> bool" where
  "in_page s r x \<longleftrightarrow> (\<exists>a. bytes (pages s r) = Some a \<and> a \<le> x \<and> x < a + getSize r s)"

definition request_ok :: "bm \<Rightarrow> nat \<times> bm \<Rightarrow> bool" where
  "request_ok s rs \<longleftrightarrow> (case rs of (r, s') \<Rightarrow>
     bm_inv s' \<and> same_cfg s s' \<and> lastTimeTick s' = lastTimeTick s \<and> r < nextPage s' \<and>
     nextPage s \<le> nextPage s' \<and> r \<le> nextPage s \<and> nextPage s' = max (nextPage s) (Suc r) \<and> pinned (pages s' r) \<and> 0 < refCount (pages s' r) \<and>
     (\<forall>x. ram s' x \<noteq> ram s x \<longrightarrow> in_page s' r x) \<and>
     (\<forall>q. q < nextPage s \<longrightarrow> q \<noteq> r \<longrightarrow> page_kept (pages s q) (pages s' q)))"

definition anon_room :: "bm \<Rightarrow> bool" where
  "anon_room s \<longleftrightarrow> lastFreeAnonPageNumber s + 1 < 2 ^ 31"

lemma take_anon_number_ok:
  assumes "bm_core X s" and "anon_room s"
  shows "\<exists>n F L. take_anon_number s = Inr (n, s\<lparr>freeAnonPageNumbers := F, lastFreeAnonPageNumber := L\<rparr>) \<and>
    bm_core X (s\<lparr>freeAnonPageNumbers := F, lastFreeAnonPageNumber := L\<rparr>)"
proof -
  have "bm_core X (s\<lparr>freeAnonPageNumbers := F, lastFreeAnonPageNumber := L\<rparr>)" for F L
    using assms(1) by (rule core_cong) simp_all
  moreover have "\<exists>n F L. take_anon_number s =
      Inr (n, s\<lparr>freeAnonPageNumbers := F, lastFreeAnonPageNumber := L\<rparr>)"
    using assms(2) by (cases s) (auto simp: take_anon_number_def anon_room_def)
  ultimately show ?thesis by blast
qed

text \<open>Attaching a page that has just been created, whatever its memory-less form was.\<close>

lemma attach_new_ok:
  assumes core: "bm_core X s" and fs: "free_slot s k a" and k: "k \<le> Lg s" and room: "tick_room s"
    and at: "attachable (snd (new_page q s)) (nextPage s) a p" and kp: "numBytes (location p) = k"
    and q: "bytes q = None" and X: "nextPage s \<notin> X"
  shows "bm_core X (attach (nextPage s) p (parent_of s a) (snd (new_page q s)))"
proof -
  let ?s = "snd (new_page q s)"
  have sc: "same_cfg s ?s" by (simp add: same_cfg_def new_page_def)
  note cs = same_cfg_simps [OF sc]
  have par: "parent_of s a \<in> frames s" using fs by (simp add: free_slot_def Let_def)
  have "free_slot ?s k a"
    using fs sc by (rule free_slot_cong)
      (use constituent_frame(3) [OF core par] in \<open>auto simp: new_page_def\<close>)
  then have "bm_core (insert (nextPage s) X - {nextPage s}) (attach (nextPage s) p (parent_of ?s a) ?s)"
    using new_page_ok [OF core q] k room kp at cs
    by (intro attach_ok) (simp_all add: new_page_def tick_room_def)
  then show ?thesis using X cs(5) by simp
qed

lemma keeps_room: "keeps s s' \<Longrightarrow> tick_room s' = tick_room s" "keeps s s' \<Longrightarrow> anon_room s' = anon_room s"
  by (simp_all add: keeps_def tick_room_def anon_room_def)

text \<open>A request for an anonymous page creates one, of the least size that holds the request.\<close>

definition anon_request_ok :: "nat \<Rightarrow> bm \<Rightarrow> nat \<times> bm \<Rightarrow> bool" where
  "anon_request_ok nb s rs \<longleftrightarrow> request_ok s rs \<and> (case rs of (r, s') \<Rightarrow>
     let p = pages s' r; k = numBytes (location p)
     in r = nextPage s \<and> ram s' = ram s \<and> isAnon p \<and> refCount p = 1 \<and> nb \<le> slotBytes s' k \<and>
        (0 < k \<longrightarrow> slotBytes s' (k - 1) < nb))"

lemma getPage_bytes_ok:
  assumes inv: "bm_inv s" and nb: "nb \<le> pageSize s" and room: "tick_room s" "anon_room s"
  shows "holds_or_exit (anon_request_ok nb s) (getPage_bytes nb s)"
proof -
  have core: "bm_core {} s" using inv by (simp add: bm_inv_def)
  note cfg = bm_coreD(1) [OF core]
  obtain k where k: "k \<le> Lg s" "getLogPageSize s nb = Inr k" "nb \<le> slotBytes s k"
      "0 < k \<longrightarrow> slotBytes s (k - 1) < nb"
    using getLogPageSize_least [OF cfg nb] by blast
  define P where "P num a = PDBPage_new\<lparr>pinned := True, dirty := True, bytes := Some a,
      isAnon := True, pageNum := num, location := \<lparr>startPos = -1, numBytes = k\<rparr>,
      status := PDB_PAGE_LOADED\<rparr>" for num a
  have step: "holds_or_exit (anon_request_ok nb s) (andThen (take_anon_number s1) (\<lambda>(num, s2).
        (let (r, s3) = new_page (P num a) s2
         in andThen (registerMiniPage r s3) (\<lambda>s4. Inr (r, upd_page r incRefCount s4)))))"
    if m: "bm_core {} s1" "keeps s s1" "free_slot s1 k a" "isCreatingSpace s1 = isCreatingSpace s" for a s1
  proof -
    have "anon_room s1" "tick_room s1" using keeps_room [OF m(2)] room by simp_all
    then obtain n F L where ta: "take_anon_number s1 =
          Inr (n, s1\<lparr>freeAnonPageNumbers := F, lastFreeAnonPageNumber := L\<rparr>)"
        and c2: "bm_core {} (s1\<lparr>freeAnonPageNumbers := F, lastFreeAnonPageNumber := L\<rparr>)"
      using take_anon_number_ok [OF m(1)] by blast
    define s2 where "s2 = s1\<lparr>freeAnonPageNumbers := F, lastFreeAnonPageNumber := L\<rparr>"
    have fs2: "free_slot s2 k a"
      using m(3) by (rule free_slot_cong) (simp_all add: s2_def same_cfg_def)
    define q where "q = (P n a)\<lparr>bytes := None\<rparr>"
    define p where "p = incRefCount (P n a)"
    let ?s = "snd (new_page q s2)"
    have r2: "nextPage s2 = nextPage s" using m(2) by (simp add: s2_def keeps_def)
    have sc: "same_cfg s s2" using m(2) by (simp add: s2_def keeps_def same_cfg_def)
    have c: "bm_core {} (attach (nextPage s2) p (parent_of s2 a) ?s)"
      using c2 fs2 k(1) same_cfg_simps [OF sc] \<open>tick_room s1\<close>
      by (intro attach_new_ok) (simp_all add: s2_def attachable_def p_def q_def P_def incRefCount_def
          is_busy_def new_page_def page_key_def PDBPage_new_def tick_room_def)
    have res: "andThen (registerMiniPage (nextPage s2) (snd (new_page (P n a) s2)))
        (\<lambda>s4. Inr (nextPage s2, upd_page (nextPage s2) incRefCount s4)) =
        Inr (nextPage s2, attach (nextPage s2) p (parent_of s2 a) ?s)"
    proof -
      have "snd (new_page (P n a) s2) = ?s\<lparr>pages := (pages ?s)(nextPage s2 := P n a)\<rparr>"
        by (simp add: new_page_def)
      moreover have "parent_of (snd (new_page (P n a) s2)) a = parent_of s2 a"
        by (simp add: parent_of_def new_page_def)
      moreover have "bytes (pages (snd (new_page (P n a) s2)) (nextPage s2)) = Some a"
        by (simp add: new_page_def P_def)
      ultimately show ?thesis
        by (simp add: registerMiniPage_attach p_def)
    qed
    have "same_cfg s (attach (nextPage s2) p (parent_of s2 a) ?s)"
      using sc by (rule same_cfg_trans, intro same_cfg_trans [OF _ attach_cfg])
         (simp add: same_cfg_def new_page_def)
    note sc' = this same_cfg_simps [OF this]
    have pk: "page_kept (pages s q) (pages s1 q)" for q using m(2) by (simp add: keeps_def)
    have "\<forall>k\<le>Lg s. \<not> isCreatingSpace s ! k" using inv by (simp add: bm_inv_def)
    then have "request_ok s (nextPage s2, attach (nextPage s2) p (parent_of s2 a) ?s)"
      using c sc' pk m(2,4) r2
      by (simp add: request_ok_def bm_inv_def p_def P_def incRefCount_def new_page_def s2_def keeps_def)
    then show ?thesis
      using ta res r2 m(2) sc'(4) k(3,4)
      by (simp add: s2_def [symmetric] new_page_def p_def P_def incRefCount_def PDBPage_new_def
          anon_request_ok_def) (simp add: s2_def keeps_def)
  qed
  have "\<not> isCreatingSpace s ! k" using inv k(1) by (simp add: bm_inv_def)
  from getEmptyMemory_ok [OF core k(1) this]
  have "holds_or_exit (anon_request_ok nb s) (andThen (getEmptyMemory k s) (\<lambda>(a, s1). andThen (take_anon_number s1) (\<lambda>(num, s2).
        (let (r, s3) = new_page (P num a) s2
         in andThen (registerMiniPage r s3) (\<lambda>s4. Inr (r, upd_page r incRefCount s4))))))"
    by (rule hoe_andThen) (use step in \<open>auto simp: split_beta\<close>)
  then show ?thesis using cfg k(2) by (simp add: getPage_bytes_def bm_cfg_def P_def)
qed

text \<open>An update of a page object that leaves its memory, its pin and its identity alone.\<close>

lemma page_upd_ok:
  assumes core: "bm_core X s" and sc: "same_cfg s s'" and pg: "pages s' = (pages s)(r := p)"
    and same: "bytes p = bytes (pages s r)" "pinned p = pinned (pages s r)"
      "numBytes (location p) = numBytes (location (pages s r))"
    and me: "r < nextPage s \<Longrightarrow> if r \<in> X' then bytes p = None else page_live s' r"
    and X: "X' - {r} = X - {r}"
    and eq: "nextPage s' = nextPage s" "lastUsed s' = lastUsed s" "numPinned s' = numPinned s"
      "emptyFullPages s' = emptyFullPages s" "constituentPages s' = constituentPages s"
      "emptyMiniPages s' = emptyMiniPages s" "unusedMiniPages s' = unusedMiniPages s"
      "lastTimeTick s' = lastTimeTick s" "availablePositions s' = availablePositions s"
      "isCreatingSpace s' = isCreatingSpace s"
    and lv: "\<And>q. q \<noteq> r \<Longrightarrow> live s' q \<Longrightarrow> live s q"
    and maps: "maps_ok s'"
  shows "bm_core X' s'"
proof -
  note cs = same_cfg_simps [OF sc]
  have pgs: "bytes (pages s' q) = bytes (pages s q) \<and> pinned (pages s' q) = pinned (pages s q) \<and>
      numBytes (location (pages s' q)) = numBytes (location (pages s q))" for q
    using same by (simp add: pg)
  have "bm_cfg s'"
    by (rule bm_cfg_cong [OF bm_coreD(1) [OF core]]) (use sc eq in \<open>simp_all add: same_cfg_def\<close>)
  moreover have "frame_ok s' g" if "g \<in> frames s" for g
    using bm_coreD(2) [OF core that]
    by (rule frame_ok_cong) (use pgs sc eq in \<open>simp_all add: same_cfg_def\<close>)
  moreover have "pin_ok s' g" if "g \<in> frames s" "g \<notin> set (emptyFullPages s)" for g
    using bm_coreD(5) [OF core that] by (rule pin_ok_cong) (use pgs eq in simp_all)
  moreover have "mini_ok s'" "empty_ok s'" "lru_ok s'"
    using bm_coreD(3,4,6) [OF core] cs eq by (simp_all add: mini_ok_def empty_ok_def lru_ok_def)
  moreover have "live_ok X' s'"
    by (rule live_ok_local [OF core sc, where r = r and f = 0]) (use eq pg lv me X in auto)
  ultimately show ?thesis using cs(1) eq maps by (simp add: bm_core_def)
qed

lemma mark_loading_ok:
  assumes core: "bm_core X s" and r: "bytes (pages s r) = None"
  shows "bm_core (insert r X) (upd_page r (\<lambda>p. p\<lparr>status := PDB_PAGE_LOADING\<rparr>) s)"
proof (rule page_upd_ok [OF core, where r = r and p = "(pages s r)\<lparr>status := PDB_PAGE_LOADING\<rparr>"])
  let ?s = "upd_page r (\<lambda>p. p\<lparr>status := PDB_PAGE_LOADING\<rparr>) s"
  show sc: "same_cfg s ?s" by (simp add: same_cfg_def upd_page_def)
  show "maps_ok ?s"
    by (rule maps_ok_upd [OF bm_coreD(8) [OF core] sc]) (simp_all add: upd_page_def page_key_def)
qed (use r in \<open>auto simp: upd_page_def live_def\<close>)

section \<open>Pages of sets\<close>

text \<open>Memory for a page that is being created or loaded, and the page on it.\<close>

lemma place_page_ok:
  assumes core: "bm_core {r} s" and r: "r < nextPage s" and k: "k \<le> Lg s" and room: "tick_room s"
    and idle: "\<forall>k \<le> Lg s. \<not> isCreatingSpace s ! k"
  shows "holds_or_exit (\<lambda>(a, s3). keeps s s3 \<and> pages s3 r = pages s r \<and>
     isCreatingSpace s3 = isCreatingSpace s \<and>
     (\<forall>p. attachable s r a p \<and> numBytes (location p) = k \<longrightarrow>
        bm_inv (attach r p (parent_of s3 a) s3))) (getEmptyMemory k s)"
proof -
  have "\<not> isCreatingSpace s ! k" using idle k by simp
  from getEmptyMemory_ok [OF core k this] show ?thesis
  proof (rule hoe_mono)
    fix as assume as: "case as of (a, s') \<Rightarrow> bm_core {r} s' \<and> keeps s s' \<and> free_slot s' k a \<and>
      isCreatingSpace s' = isCreatingSpace s"
    obtain a s3 where a3: "as = (a, s3)" by (cases as)
    have m: "bm_core {r} s3" "keeps s s3" "free_slot s3 k a" "isCreatingSpace s3 = isCreatingSpace s"
      using as a3 by auto
    have "bytes (pages s r) = None" using bm_coreD(7) [OF core] r by (auto simp: live_ok_def)
    then have pr: "pages s3 r = pages s r"
      using m(2) page_kept_simps(8) unfolding keeps_def by blast
    have sc: "same_cfg s s3" using m(2) by (simp add: keeps_def)
    note cs = same_cfg_simps [OF sc]
    have "bm_inv (attach r p (parent_of s3 a) s3)"
      if p: "attachable s r a p" "numBytes (location p) = k" for p
    proof -
      have "bm_core ({r} - {r}) (attach r p (parent_of s3 a) s3)"
        using m(1) by (rule attach_ok) (use m r k cs p pr room sc in
            \<open>simp_all add: keeps_def attachable_def tick_room_def same_cfg_def\<close>)
      moreover have "Lg (attach r p (parent_of s3 a) s3) = Lg s"
        using cs(2) same_cfg_simps(2) [OF attach_cfg] by simp
      ultimately show ?thesis using idle m(4) by (simp add: bm_inv_def)
    qed
    then show "case as of (a, s3) \<Rightarrow> keeps s s3 \<and> pages s3 r = pages s r \<and>
        isCreatingSpace s3 = isCreatingSpace s \<and>
        (\<forall>p. attachable s r a p \<and> numBytes (location p) = k \<longrightarrow> bm_inv (attach r p (parent_of s3 a) s3))"
      using m pr a3 by simp
  qed
qed

lemma bm_inv_ram [simp]: "bm_inv (s\<lparr>ram := R\<rparr>) \<longleftrightarrow> bm_inv s"
proof -
  have "bm_core {} s" if "bm_core {} (s\<lparr>ram := R\<rparr>)" using that by (rule core_cong) simp_all
  moreover have "bm_core {} (s\<lparr>ram := R\<rparr>)" if "bm_core {} s" using that by (rule core_cong) simp_all
  ultimately show ?thesis by (auto simp: bm_inv_def Lg_def)
qed

text \<open>The state in which a new set page waits for its memory.\<close>

definition entered :: "pdb_page \<Rightarrow> bm \<Rightarrow> bm" where
  "entered q s = (snd (new_page q s))\<lparr>allPages := map_put (page_key q) (nextPage s) (allPages s)\<rparr>"

lemma entered_fields [simp]:
  "pages (entered q s) = (pages s)(nextPage s := q)" "nextPage (entered q s) = nextPage s + 1"
  "same_cfg s (entered q s)" "lastTimeTick (entered q s) = lastTimeTick s"
  "isCreatingSpace (entered q s) = isCreatingSpace s" "fds (entered q s) = fds s" "ram (entered q s) = ram s"
  "pageLocations (entered q s) = pageLocations s" "endOfFiles (entered q s) = endOfFiles s"
  "files (entered q s) = files s" "tempData (entered q s) = tempData s"
  by (simp_all add: entered_def new_page_def same_cfg_def)

lemma entered_ok:
  assumes "bm_core {} s" and "bytes q = None" and "\<not> isAnon q"
  shows "bm_core {nextPage s} (entered q s)"
proof -
  have "bm_core {nextPage s} (snd (new_page q s))" using new_page_ok [OF assms(1,2)] by simp
  from enter_page_ok [OF this, of "nextPage s"] show ?thesis
    using assms(3) by (simp add: entered_def new_page_def)
qed

lemma register_placed:
  assumes "pages v r = q"
  shows "registerMiniPage r (upd_page r (\<lambda>p. p\<lparr>bytes := Some a\<rparr>) v) =
    Inr (attach r (q\<lparr>bytes := Some a\<rparr>) (parent_of v a) v)"
  by (subst registerMiniPage_attach [of _ _ a]) (simp_all add: upd_page_def assms parent_of_def)

lemma request_okI:
  assumes "bm_inv t" and "pages t = (pages v)(r := p)" and "same_cfg u t" and "keeps u v"
    and "lastTimeTick t = lastTimeTick u" and "nextPage t = nextPage u" and "same_cfg s u"
    and "lastTimeTick u = lastTimeTick s" and "r \<le> nextPage s" and "nextPage u = max (nextPage s) (Suc r)"
    and "\<And>q. q < nextPage s \<Longrightarrow> q \<noteq> r \<Longrightarrow> pages u q = pages s q"
    and "pinned p" and "0 < refCount p" and "ram t = ram v" and "ram u = ram s"
  shows "request_ok s (r, t)"
proof -
  have "page_kept (pages s q) (pages v q)" if "q < nextPage s" "q \<noteq> r" for q
    using assms(4) assms(11) [OF that] unfolding keeps_def by metis
  moreover have "ram t = ram s" using assms(4,14,15) by (simp add: keeps_def)
  ultimately show ?thesis using assms same_cfg_trans [OF assms(7,3)] by (simp add: request_ok_def)
qed

text \<open>What a request for a set page yields: the page with that key, with one reference more than before.\<close>

definition got_page :: "pdb_set \<Rightarrow> nat \<Rightarrow> bm \<Rightarrow> nat \<Rightarrow> bm \<Rightarrow> bool" where
  "got_page st i s r s' \<longleftrightarrow> page_key (pages s' r) = (Some st, i) \<and>
     refCount (pages s' r) = (if r < nextPage s then refCount (pages s r) + 1 else 1) \<and>
     (r < nextPage s \<longrightarrow> page_key (pages s r) = (Some st, i)) \<and> \<not> isAnon (pages s' r)"

lemma getPage_create_ok:
  assumes inv: "bm_inv s" and fd: "map_of (fds s) (Some st) \<noteq> None" and room: "tick_room s"
  shows "holds_or_exit (\<lambda>(r, s'). request_ok s (r, s') \<and> got_page st i s r s')
    (getPage_create st i s)"
proof -
  define q where "q = PDBPage_new\<lparr>pinned := True, dirty := True, whichSet := Some st,
      pageNum := i, isAnon := False, location := \<lparr>startPos = int i, numBytes = Lg s\<rparr>,
      status := PDB_PAGE_LOADING\<rparr>"
  let ?r = "nextPage s" and ?s2 = "entered q s"
  have core: "bm_core {} s" and idle: "\<forall>k \<le> Lg s. \<not> isCreatingSpace s ! k"
    using inv by (auto simp: bm_inv_def)
  have "bm_core {?r} ?s2" using core by (rule entered_ok) (simp_all add: q_def PDBPage_new_def)
  then have pl: "holds_or_exit (\<lambda>(a, s3). keeps ?s2 s3 \<and> pages s3 ?r = pages ?s2 ?r \<and>
     isCreatingSpace s3 = isCreatingSpace ?s2 \<and>
     (\<forall>p. attachable ?s2 ?r a p \<and> numBytes (location p) = Lg s \<longrightarrow>
        bm_inv (attach ?r p (parent_of s3 a) s3))) (getEmptyMemory (Lg s) ?s2)"
    using idle room same_cfg_simps(2) [OF entered_fields(3)]
    by (intro place_page_ok) (simp_all add: tick_room_def)
  have "holds_or_exit (\<lambda>(r, s'). request_ok s (r, s') \<and> got_page st i s r s')
      (andThen (registerMiniPage ?r (upd_page ?r (\<lambda>p. p\<lparr>bytes := Some a\<rparr>) s3)) (\<lambda>s4.
           Inr (?r, upd_page ?r (\<lambda>p. (incRefCount p)\<lparr>status := PDB_PAGE_LOADED\<rparr>) s4)))"
    if m: "keeps ?s2 s3" "pages s3 ?r = q"
      "\<And>p. attachable ?s2 ?r a p \<and> numBytes (location p) = Lg s \<Longrightarrow> bm_inv (attach ?r p (parent_of s3 a) s3)"
    for a s3
  proof -
    define p where "p = (incRefCount (q\<lparr>bytes := Some a\<rparr>))\<lparr>status := PDB_PAGE_LOADED\<rparr>"
    have "bm_inv (attach ?r p (parent_of s3 a) s3)"
      using fd by (intro m(3))
        (simp add: attachable_def p_def q_def incRefCount_def is_busy_def page_key_def)
    then have "request_ok s (?r, attach ?r p (parent_of s3 a) s3)"
      by (rule request_okI [where v = s3 and p = p and u = ?s2])
        (use m(1) same_cfg_trans [OF _ attach_cfg] in
          \<open>simp_all add: keeps_def p_def q_def incRefCount_def\<close>)
    then show ?thesis
      unfolding register_placed [OF m(2)]
      by (simp add: p_def q_def incRefCount_def page_key_def got_page_def PDBPage_new_def)
  qed
  then have "holds_or_exit (\<lambda>(r, s'). request_ok s (r, s') \<and> got_page st i s r s')
      (andThen (getEmptyMemory (Lg s) ?s2) (\<lambda>(a, s3).
       andThen (registerMiniPage ?r (upd_page ?r (\<lambda>p. p\<lparr>bytes := Some a\<rparr>) s3)) (\<lambda>s4.
           Inr (?r, upd_page ?r (\<lambda>p. (incRefCount p)\<lparr>status := PDB_PAGE_LOADED\<rparr>) s4))))"
    by (intro hoe_andThen [OF pl]) auto
  then show ?thesis
    unfolding getPage_create_def Lg_def [symmetric] q_def [symmetric]
    by (simp add: entered_def new_page_def page_key_def) (simp add: q_def)
qed

lemma upd_page_ram [simp]: "upd_page r g (s\<lparr>ram := R\<rparr>) = (upd_page r g s)\<lparr>ram := R\<rparr>"
  by (simp add: upd_page_def)

lemma read_into_cases:
  "read_into f (Some a) n pos s = Inl (Exit ''reading page from disk'') \<or>
   read_into f (Some a) n pos s = Inr (s\<lparr>ram := pread f (ram s) a n (nat pos)\<rparr>)"
  by (simp add: read_into_def)

text \<open>
  The common tail of the requests that bring a page back into RAM: register it on the memory found,
  read its bytes and set its flags.
\<close>

lemma read_attached:
  assumes ok: "request_ok s (r, attach r (g p) f v)" and same: "ram v = ram s"
    and a: "bytes (g p) = Some a" and n: "n = miniBytes v (numBytes (location (g p)))"
    and post: "\<And>s'. request_ok s (r, s') \<Longrightarrow> pages s' r = g p \<Longrightarrow> P (c s')"
  shows "holds_or_exit P (andThen (read_into F (Some a) n pos (attach r p f v))
    (\<lambda>s3. Inr (c (upd_page r g s3))))"
proof -
  let ?t = "(attach r (g p) f v)\<lparr>ram := pread F (ram v) a n (nat pos)\<rparr>"
  have "miniBytes ?t k = miniBytes (attach r (g p) f v) k" for k by (simp add: miniBytes_def)
  then have "getSize r ?t = n" by (simp add: getSize_def n)
  then have "in_page ?t r x" if "pread F (ram v) a n (nat pos) x \<noteq> ram v x" for x
    using that a by (auto simp: in_page_def pread_def split: if_splits)
  then have "request_ok s (r, ?t)" using ok same by (simp add: request_ok_def same_cfg_def)
  then show ?thesis using read_into_cases [of F a n pos "attach r p f v"] post by auto
qed

lemma getPage_load_ok:
  assumes inv: "bm_inv s" and fd: "map_of (fds s) (Some st) \<noteq> None" and room: "tick_room s"
    and info: "numBytes info \<le> Lg s" "0 \<le> startPos info"
  shows "holds_or_exit (\<lambda>(r, s'). request_ok s (r, s') \<and> got_page st i s r s')
    (getPage_load st i info s)"
proof -
  define q where "q = PDBPage_new\<lparr>pinned := True, dirty := False, whichSet := Some st,
      pageNum := i, isAnon := False, location := info, status := PDB_PAGE_LOADING, refCount := 1\<rparr>"
  let ?r = "nextPage s" and ?s2 = "entered q s" and ?k = "numBytes info"
  let ?g = "\<lambda>p. p\<lparr>status := PDB_PAGE_LOADED\<rparr>"
  obtain path where path: "map_of (fds s) (Some st) = Some path" using fd by auto
  have core: "bm_core {} s" and idle: "\<forall>k \<le> Lg s. \<not> isCreatingSpace s ! k"
    using inv by (auto simp: bm_inv_def)
  have "bm_core {?r} ?s2" using core by (rule entered_ok) (simp_all add: q_def PDBPage_new_def)
  then have pl: "holds_or_exit (\<lambda>(a, v). keeps ?s2 v \<and> pages v ?r = pages ?s2 ?r \<and>
     isCreatingSpace v = isCreatingSpace ?s2 \<and>
     (\<forall>p. attachable ?s2 ?r a p \<and> numBytes (location p) = ?k \<longrightarrow>
        bm_inv (attach ?r p (parent_of v a) v))) (getEmptyMemory ?k ?s2)"
    using idle room info(1) same_cfg_simps(2) [OF entered_fields(3)]
    by (intro place_page_ok) (simp_all add: tick_room_def)
  have "holds_or_exit (\<lambda>(r, s'). request_ok s (r, s') \<and> got_page st i s r s')
      (andThen (registerMiniPage ?r (upd_page ?r (\<lambda>p. p\<lparr>bytes := Some a\<rparr>) v)) (\<lambda>s4.
       andThen (fd_of (Some st) s4) (\<lambda>path.
       andThen (read_into (files s4 path) (Some a) (miniBytes s4 ?k) (startPos info) s4)
         (\<lambda>s5. Inr (?r, upd_page ?r ?g s5)))))"
    if m: "keeps ?s2 v" "pages v ?r = q"
      "\<And>p. attachable ?s2 ?r a p \<and> numBytes (location p) = ?k \<Longrightarrow> bm_inv (attach ?r p (parent_of v a) v)"
    for a v
  proof -
    let ?p = "?g (q\<lparr>bytes := Some a\<rparr>)"
    have "bm_inv (attach ?r ?p (parent_of v a) v)"
      using fd info(2) by (intro m(3)) (simp add: attachable_def q_def is_busy_def page_key_def)
    then have ok: "request_ok s (?r, attach ?r ?p (parent_of v a) v)"
      by (rule request_okI [where v = v and p = ?p and u = ?s2])
        (use m(1) same_cfg_trans [OF _ attach_cfg] in \<open>simp_all add: keeps_def q_def\<close>)
    have fdv: "fd_of (Some st) (attach ?r (q\<lparr>bytes := Some a\<rparr>) (parent_of v a) v) = Inr path"
      using m(1) path by (simp add: fd_of_def keeps_def same_cfg_def)
    show ?thesis
      unfolding register_placed [OF m(2)] andThen.simps fdv
      by (rule read_attached [where g = ?g and p = "q\<lparr>bytes := Some a\<rparr>" and s = s and c = "Pair ?r"], rule ok)
        (use m(1) in \<open>simp_all add: q_def page_key_def keeps_def got_page_def\<close>)
  qed
  then have "holds_or_exit (\<lambda>(r, s'). request_ok s (r, s') \<and> got_page st i s r s')
      (andThen (getEmptyMemory ?k ?s2) (\<lambda>(a, v).
       andThen (registerMiniPage ?r (upd_page ?r (\<lambda>p. p\<lparr>bytes := Some a\<rparr>) v)) (\<lambda>s4.
       andThen (fd_of (Some st) s4) (\<lambda>path.
       andThen (read_into (files s4 path) (Some a) (miniBytes s4 ?k) (startPos info) s4)
         (\<lambda>s5. Inr (?r, upd_page ?r ?g s5))))))"
    by (intro hoe_andThen [OF pl]) auto
  then show ?thesis
    unfolding getPage_load_def q_def [symmetric]
    by (simp add: entered_def new_page_def page_key_def) (simp add: q_def)
qed

section \<open>Pinning again\<close>

lemma live_resident:
  assumes core: "bm_core X s" and r: "r < nextPage s" "r \<notin> X" "live s r" and a: "bytes (pages s r) = Some a"
  defines "f \<equiv> parent_of s a"
  shows "f \<in> frames s" and "r \<in> set (constituentPages s f)" and "f \<notin> set (emptyFullPages s)"
    and "addr s r = a"
proof -
  have "page_live s r" using bm_coreD(7) [OF core] r by (auto simp: live_ok_def)
  then show f: "f \<in> frames s" "r \<in> set (constituentPages s f)"
    using r(3) a by (auto simp: page_live_def f_def)
  then show "f \<notin> set (emptyFullPages s)" using bm_coreD(4) [OF core] by (auto simp: empty_ok_def)
  show "addr s r = a" by (simp add: addr_def a)
qed

lemma pin_resident_ok:
  assumes core: "bm_core X s" and r: "r < nextPage s" "r \<notin> X" "live s r"
    and a: "bytes (pages s r) = Some a" and np: "\<not> pinned (pages s r)" and room: "tick_room s"
  shows "bm_core X (pinFrame (parent_of s a) (upd_page r (\<lambda>p. p\<lparr>pinned := True\<rparr>) s))"
proof -
  define f where "f = parent_of s a"
  note lr = live_resident [OF core r a, folded f_def]
  note pf = pinFrame_facts [OF core lr(1,3) room]
  define s' where "s' = pinFrame f (upd_page r (\<lambda>p. p\<lparr>pinned := True\<rparr>) s)"
  have s': "s' = s\<lparr>pages := (pages s)(r := (pages s r)\<lparr>pinned := True\<rparr>),
      lastUsed := lastUsed (pinFrame f s), numPinned := (numPinned s)(f := int (pin_count s f) + 1)\<rparr>"
    unfolding s'_def upd_page_def by (subst pinFrame_eq [where s = s]) (simp_all add: pf(3))
  have sc: "same_cfg s s'" by (simp add: same_cfg_def s')
  note cs = same_cfg_simps [OF sc]
  have same: "emptyMiniPages s' = emptyMiniPages s" "unusedMiniPages s' = unusedMiniPages s"
      "constituentPages s' = constituentPages s"
    by (simp_all add: s')
  have fo: "frame_ok s f" and eo: "empty_ok s" using core lr by (auto dest: bm_coreD)
  have pl: "page_live s r" using bm_coreD(7) [OF core] r by (auto simp: live_ok_def)
  have "bm_core X s'"
  proof (rule core_local [OF core lr(1) sc, where r = r])
    show "frame_ok s' f" using fo by (rule frame_ok_cong) (simp_all add: s')
    have "pin_count s' f = Suc (pin_count s f)"
      unfolding pin_count_def same
      by (rule length_filter_flip [OF constituent_distinct [OF core lr(1)] lr(2)]) (use np in \<open>simp_all add: s'\<close>)
    then show "pin_ok s' f" by (simp add: pin_ok_def s')
    show "sorted_wrt (<) (map snd (lastUsed s'))" using pf(1) by (simp add: s')
    show "maps_ok s'"
      by (rule maps_ok_upd [OF bm_coreD(8) [OF core] sc]) (simp_all add: s' page_key_def)
    show "if r \<in> X then bytes (pages s' r) = None else page_live s' r"
      using pl r a lr cs unfolding page_live_def page_wf_def same
      by (simp add: s' f_def live_def)
    show "distinct (emptyFullPages s')" using eo by (simp add: empty_ok_def s')
    show "f \<in> set (emptyFullPages s') \<Longrightarrow> constituentPages s' f = [] \<and> fst (unusedMiniPages s' f) = []"
      using lr(3) by (simp add: s')
  next
    fix j assume j: "j \<le> Lg s"
    show "distinct (emptyMiniPages s' ! j) \<and>
      set (emptyMiniPages s' ! j) = (set (emptyMiniPages s ! j) - set (fst (unusedMiniPages s f))) \<union>
        (if snd (unusedMiniPages s' f) = j then set (fst (unusedMiniPages s' f)) else {})"
      unfolding same by (rule mini_ok_self [OF core lr(1) j])
  next
    fix g assume "g \<in> frames s" "g \<noteq> f"
    then show "r \<notin> set (constituentPages s g)" using constituent_unique [OF core _ lr(1) _ lr(2)] by blast
  qed (use pf in \<open>auto simp: s' live_def\<close>)
  then show ?thesis by (simp add: s'_def f_def)
qed

text \<open>The outcome of pinning again: the same page, in RAM and pinned.\<close>

definition repinned :: "nat \<Rightarrow> bm \<Rightarrow> bm \<Rightarrow> bool" where
  "repinned r s s' \<longleftrightarrow> request_ok s (r, s') \<and> page_key (pages s' r) = page_key (pages s r) \<and>
     isAnon (pages s' r) = isAnon (pages s r) \<and> refCount (pages s' r) = refCount (pages s r)"

text \<open>A page that was evicted is read back.\<close>

lemma repin_cold_ok:
  assumes inv: "bm_inv s" and r: "r < nextPage s" and rc: "0 < refCount (pages s r)" and room: "tick_room s"
    and 3: "\<not> pinned (pages s r)" "bytes (pages s r) = None"
  shows "holds_or_exit (repinned r s) (repin_locked r s)"
proof -
  have core: "bm_core {} s" and idle: "\<forall>k \<le> Lg s. \<not> isCreatingSpace s ! k"
    using inv by (auto simp: bm_inv_def)
  have pl: "page_live s r" using bm_coreD(7) [OF core] r by (auto simp: live_ok_def)
  let ?u = "upd_page r (\<lambda>p. p\<lparr>status := PDB_PAGE_LOADING\<rparr>) s" and ?k = "numBytes (location (pages s r))"
  let ?g = "\<lambda>p. p\<lparr>status := PDB_PAGE_LOADED\<rparr>"
  define q where "q = (pages s r)\<lparr>status := PDB_PAGE_LOADING\<rparr>"
  have core': "bm_core {r} ?u" using mark_loading_ok [OF core 3(2)] by simp
  have wf: "page_wf s r" using pl by (simp add: page_live_def)
  have sc: "same_cfg s ?u" by (simp add: same_cfg_def upd_page_def)
  have pl': "holds_or_exit (\<lambda>(a, v). keeps ?u v \<and> pages v r = pages ?u r \<and>
    isCreatingSpace v = isCreatingSpace ?u \<and>
    (\<forall>p. attachable ?u r a p \<and> numBytes (location p) = ?k \<longrightarrow>
      bm_inv (attach r p (parent_of v a) v))) (getEmptyMemory ?k ?u)"
    using core' by (rule place_page_ok)
      (use r wf idle room in \<open>simp_all add: upd_page_def page_wf_def Lg_def tick_room_def\<close>)
  let ?P = "repinned r s"
  let ?h = "\<lambda>p. p\<lparr>pinned := True\<rparr>"
  let ?info = "location (pages s r)"
  have "holds_or_exit ?P
    (andThen (registerMiniPage r (upd_page r (\<lambda>p. p\<lparr>bytes := Some a\<rparr>) v)) (\<lambda>s2.
     andThen
       (if isAnon (pages s r)
        then read_into (tempData s2) (Some a) (miniBytes s2 ?k) (startPos ?info) (upd_page r ?h s2)
        else andThen (fd_of (whichSet (pages s r)) s2) (\<lambda>path.
           read_into (files s2 path) (Some a) (miniBytes s2 ?k) (startPos ?info) (upd_page r ?h s2)))
       (\<lambda>s3. Inr (upd_page r ?g s3))))"
    if m: "keeps ?u v" "pages v r = q"
      "\<And>p. attachable ?u r a p \<and> numBytes (location p) = ?k \<Longrightarrow> bm_inv (attach r p (parent_of v a) v)"
    for a v
  proof -
    define p where "p = ?h (q\<lparr>bytes := Some a\<rparr>)"
    have wfs: "isAnon q \<longrightarrow> \<not> startPos (location q) < 0" "\<not> isAnon q \<longrightarrow> 0 \<le> startPos (location q) \<and>
        whichSet q \<noteq> None \<and> map_of (fds s) (whichSet q) \<noteq> None"
      using wf 3 by (auto simp: page_wf_def q_def)
    have "bm_inv (attach r (?g p) (parent_of v a) v)"
      using wfs by (intro m(3)) (simp add: attachable_def p_def q_def is_busy_def page_key_def upd_page_def)
    then have ok: "request_ok s (r, attach r (?g p) (parent_of v a) v)"
      by (rule request_okI [where v = v and p = "?g p" and u = ?u])
        (use m(1) sc r rc same_cfg_trans [OF _ attach_cfg] in
          \<open>simp_all add: keeps_def p_def q_def upd_page_def\<close>)
    have fdv: "\<not> isAnon q \<Longrightarrow> \<exists>path. fd_of (whichSet (pages s r)) (attach r (q\<lparr>bytes := Some a\<rparr>) (parent_of v a) v) = Inr path"
      using wfs m(1) sc by (auto simp: fd_of_def keeps_def same_cfg_def q_def)
    have rd: "holds_or_exit ?P (andThen (read_into F (Some a) (miniBytes v ?k) pos (attach r p (parent_of v a) v))
        (\<lambda>s3. Inr (upd_page r ?g s3)))" for F pos
      by (rule read_attached [where g = ?g and p = p and s = s and c = "\<lambda>s. s"], rule ok)
        (use m(1) in \<open>simp_all add: p_def q_def page_key_def keeps_def upd_page_def repinned_def\<close>)
    show ?thesis
      unfolding register_placed [OF m(2)] andThen.simps upd_page_attach p_def [symmetric]
      using rd fdv by (cases "isAnon (pages s r)") (auto simp: q_def)
  qed
  then have "holds_or_exit ?P (andThen (getEmptyMemory ?k ?u) (\<lambda>(a, v).
    (andThen (registerMiniPage r (upd_page r (\<lambda>p. p\<lparr>bytes := Some a\<rparr>) v)) (\<lambda>s2.
     andThen
       (if isAnon (pages s r)
        then read_into (tempData s2) (Some a) (miniBytes s2 ?k) (startPos ?info) (upd_page r ?h s2)
        else andThen (fd_of (whichSet (pages s r)) s2) (\<lambda>path.
           read_into (files s2 path) (Some a) (miniBytes s2 ?k) (startPos ?info) (upd_page r ?h s2)))
       (\<lambda>s3. Inr (upd_page r ?g s3))))))"
    by (intro hoe_andThen [OF pl']) (auto simp: upd_page_def q_def)
  then show ?thesis using 3 by (simp add: repin_locked_def Let_def)
qed

lemma repin_locked_ok:
  assumes inv: "bm_inv s" and r: "r < nextPage s" and rc: "0 < refCount (pages s r)" and room: "tick_room s"
  shows "holds_or_exit (repinned r s) (repin_locked r s)"
proof -
  have core: "bm_core {} s" and idle: "\<forall>k \<le> Lg s. \<not> isCreatingSpace s ! k"
    using inv by (auto simp: bm_inv_def)
  have lv: "live s r" using rc by (simp add: live_def)
  consider "pinned (pages s r)" | a where "\<not> pinned (pages s r)" "bytes (pages s r) = Some a"
    | "\<not> pinned (pages s r)" "bytes (pages s r) = None" by (cases "bytes (pages s r)") auto
  then show ?thesis
  proof cases
    case 1
    then show ?thesis using inv r rc by (simp add: repin_locked_def Let_def request_ok_def repinned_def)
  next
    case 2
    let ?s = "pinFrame (parent_of s a) (upd_page r (\<lambda>p. p\<lparr>pinned := True\<rparr>) s)"
    have "bm_core {} ?s" using core r lv 2 room by (intro pin_resident_ok) simp_all
    moreover have "isCreatingSpace ?s = isCreatingSpace s" "Lg ?s = Lg s" "same_cfg s ?s"
        "lastTimeTick ?s = lastTimeTick s" "nextPage ?s = nextPage s" "ram ?s = ram s"
        "pages ?s = (pages s)(r := (pages s r)\<lparr>pinned := True\<rparr>)"
      by (simp_all add: pinFrame_def upd_page_def Lg_def same_cfg_def)
    ultimately have "repinned r s ?s"
      using idle r rc by (simp add: repinned_def request_ok_def bm_inv_def page_key_def)
    moreover have "repin_locked r s = Inr ?s"
      using 2 by (simp add: repin_locked_def pinParent_def upd_page_def parent_of_def)
    ultimately show ?thesis by simp
  next
    case 3
    then show ?thesis by (intro repin_cold_ok assms)
  qed
qed

lemma repin_ok:
  assumes inv: "bm_inv s" and r: "r < nextPage s" and rc: "0 < refCount (pages s r)" and room: "tick_room s"
  shows "holds_or_exit (repinned r s) (repin r s)"
proof -
  have "page_live s r" using inv r by (auto simp: bm_inv_def bm_core_def live_ok_def)
  then have "\<not> is_busy (status (pages s r))" by (simp add: page_live_def)
  then show ?thesis using repin_locked_ok [OF assms] by (simp add: repin_def)
qed

section \<open>Unpinning\<close>

lemma lru_insert_last: "\<forall>x \<in> set xs. snd x < t \<Longrightarrow> lru_insert (f, t) xs = xs @ [(f, t)]"
  by (induction xs) auto

lemma sorted_wrt_snoc_tick:
  "sorted_wrt (<) (map snd xs) \<Longrightarrow> \<forall>x \<in> set xs. snd x < t \<Longrightarrow> sorted_wrt (<) (map snd (xs @ [(f, t)]))"
  for xs :: "('a \<times> nat) list"
  by (auto simp: sorted_wrt_append)

lemma pinned_frame:
  assumes core: "bm_core X s" and f: "f \<in> frames s" "f \<notin> set (emptyFullPages s)"
    and r: "r \<in> set (constituentPages s f)" "pinned (pages s r)"
  shows "numPinned s f = int (pin_count s f)" and "0 < pin_count s f" and "(f, t) \<notin> set (lastUsed s)"
proof -
  show pc: "0 < pin_count s f" using r by (auto simp: pin_count_def filter_empty_conv)
  then show np: "numPinned s f = int (pin_count s f)"
    using bm_coreD(5) [OF core f] by (auto simp: pin_ok_def)
  show "(f, t) \<notin> set (lastUsed s)"
    using bm_coreD(6) [OF core] pc np by (auto simp: lru_ok_def)
qed

lemma unpin_frame_ok:
  assumes core: "bm_core X s" and r: "r < nextPage s" "r \<notin> X" "live s r"
    and a: "bytes (pages s r) = Some a" and pin: "pinned (pages s r)"
  defines "s' \<equiv> unpin_frame (parent_of s a) (upd_page r (\<lambda>p. p\<lparr>pinned := False, sizeFrozen := True\<rparr>) s)"
  shows "bm_core X s'" and "pages s' = (pages s)(r := (pages s r)\<lparr>pinned := False, sizeFrozen := True\<rparr>)"
    and "same_cfg s s'" and "nextPage s' = nextPage s" and "isCreatingSpace s' = isCreatingSpace s"
    and "lastTimeTick s' \<le> lastTimeTick s + 1" and "allPages s' = allPages s" and "ram s' = ram s"
    and "pageLocations s' = pageLocations s" and "endOfFiles s' = endOfFiles s"
proof -
  define f where "f = parent_of s a"
  let ?p = "(pages s r)\<lparr>pinned := False, sizeFrozen := True\<rparr>"
  note lr = live_resident [OF core r a, folded f_def]
  note pn = pinned_frame [OF core lr(1,3,2) pin]
  have lo: "lru_ok s" and fo: "frame_ok s f" and eo: "empty_ok s" using core lr by (auto dest: bm_coreD)
  have ticks: "\<forall>x \<in> set (lastUsed s). snd x < lastTimeTick s" using lo by (auto simp: lru_ok_def)
  have pl: "page_live s r" using bm_coreD(7) [OF core] r by (auto simp: live_ok_def)
  define z where "z = (pin_count s f = 1)"
  have s': "s' = s\<lparr>pages := (pages s)(r := ?p),
      numPinned := (numPinned s)(f := if z then - int (lastTimeTick s) else int (pin_count s f) - 1),
      lastUsed := (if z then lastUsed s @ [(f, lastTimeTick s)] else lastUsed s),
      lastTimeTick := (if z then lastTimeTick s + 1 else lastTimeTick s)\<rparr>"
    using pn(1,2) unfolding s'_def f_def [symmetric] z_def
    by (simp add: unpin_frame_def upd_page_def to_lru_def lru_insert_last [OF ticks])
  show sc: "same_cfg s s'" by (simp add: same_cfg_def s')
  note cs = same_cfg_simps [OF sc]
  have same: "emptyMiniPages s' = emptyMiniPages s" "unusedMiniPages s' = unusedMiniPages s"
      "constituentPages s' = constituentPages s" "emptyFullPages s' = emptyFullPages s"
    by (simp_all add: s')
  show "bm_core X s'"
  proof (rule core_local [OF core lr(1) sc, where r = r])
    show "frame_ok s' f" using fo by (rule frame_ok_cong) (simp_all add: s')
    have pc: "pin_count s f = Suc (pin_count s' f)"
      unfolding pin_count_def same
      by (rule length_filter_flip [OF constituent_distinct [OF core lr(1)] lr(2)]) (use pin in \<open>simp_all add: s'\<close>)
    have np: "numPinned s' f = (if z then - int (lastTimeTick s) else int (pin_count s f) - 1)"
        and lu: "lastUsed s' = (if z then lastUsed s @ [(f, lastTimeTick s)] else lastUsed s)"
      by (simp_all add: s')
    have "0 < lastTimeTick s" using lo by (simp add: lru_ok_def)
    then show "pin_ok s' f" unfolding pin_ok_def np lu using pc by (auto simp: z_def)
    show "sorted_wrt (<) (map snd (lastUsed s'))"
      using lo sorted_wrt_snoc_tick [OF _ ticks, of f] by (simp add: s' lru_ok_def)
    show "maps_ok s'"
      by (rule maps_ok_upd [OF bm_coreD(8) [OF core] sc]) (simp_all add: s' page_key_def)
    show "if r \<in> X then bytes (pages s' r) = None else page_live s' r"
      using pl r a lr cs unfolding page_live_def page_wf_def same by (simp add: s' f_def live_def)
    show "distinct (emptyFullPages s')" using eo by (simp add: empty_ok_def s')
    show "f \<in> set (emptyFullPages s') \<Longrightarrow> constituentPages s' f = [] \<and> fst (unusedMiniPages s' f) = []"
      using lr(3) by (simp add: s')
  next
    fix t assume "(f, t) \<in> set (lastUsed s')"
    then have "z \<and> t = lastTimeTick s" using pn(3) by (simp add: s' split: if_splits)
    then show "f \<notin> set (emptyFullPages s') \<and> numPinned s' f = - int t \<and> 0 < t \<and> t < lastTimeTick s'"
      using lr(3) lo by (simp add: s' lru_ok_def)
  next
    fix j assume j: "j \<le> Lg s"
    show "distinct (emptyMiniPages s' ! j) \<and>
      set (emptyMiniPages s' ! j) = (set (emptyMiniPages s ! j) - set (fst (unusedMiniPages s f))) \<union>
        (if snd (unusedMiniPages s' f) = j then set (fst (unusedMiniPages s' f)) else {})"
      unfolding same by (rule mini_ok_self [OF core lr(1) j])
  next
    fix g assume "g \<in> frames s" "g \<noteq> f"
    then show "r \<notin> set (constituentPages s g)" using constituent_unique [OF core _ lr(1) _ lr(2)] by blast
  qed (auto simp: s' live_def)
qed (simp_all add: s'_def unpin_frame_def upd_page_def to_lru_def Let_def)

text \<open>A set page gets its place in the file.\<close>

lemma assign_location_ok:
  assumes core: "bm_core X s" and r: "r < nextPage s" "r \<notin> X" and na: "\<not> isAnon (pages s r)"
  shows "bm_core X (assign_location r s)"
proof -
  define eof where "eof = (case map_of (endOfFiles s) (whichSet (pages s r)) of None \<Rightarrow> 0 | Some e \<Rightarrow> e)"
  define loc where "loc = (location (pages s r))\<lparr>startPos := int eof\<rparr>"
  define s' where "s' = assign_location r s"
  have s': "s' = s\<lparr>pages := (pages s)(r := (pages s r)\<lparr>location := loc\<rparr>),
      pageLocations := map_put (page_key (pages s r)) loc (pageLocations s),
      endOfFiles := map_put (whichSet (pages s r)) (eof + miniBytes s (numBytes loc)) (endOfFiles s)\<rparr>"
    by (simp add: s'_def assign_location_def Let_def eof_def loc_def upd_page_def set_location_def)
  have sc: "same_cfg s s'" by (simp add: same_cfg_def s')
  note cs = same_cfg_simps [OF sc]
  have pl: "page_live s r" and mo: "maps_ok s" using bm_coreD(7,8) [OF core] r by (auto simp: live_ok_def)
  have wf: "numBytes loc \<le> Lg s" "0 \<le> startPos loc" "numBytes loc = numBytes (location (pages s r))"
    using pl by (auto simp: page_live_def page_wf_def loc_def)
  have "bm_core X s'"
  proof (rule page_upd_ok [OF core sc])
    show "pages s' = (pages s)(r := (pages s r)\<lparr>location := loc\<rparr>)" by (simp add: s')
    have "page_live s' r"
      using pl na wf unfolding page_live_def page_wf_def cs by (simp add: s' live_def)
    then show "if r \<in> X then bytes ((pages s r)\<lparr>location := loc\<rparr>) = None else page_live s' r"
      using r by simp
    show "maps_ok s'"
      using mo wf(1,2) set_map_put_subset [of "page_key (pages s r)" loc "pageLocations s"]
      unfolding maps_ok_def cs by (auto simp: s' map_ok_put page_key_def)
  qed (use wf(3) in \<open>auto simp: s' live_def\<close>)
  then show ?thesis by (simp add: s'_def)
qed

lemma assign_location_fields [simp]:
  "same_cfg s (assign_location r s)" "nextPage (assign_location r s) = nextPage s"
  "isCreatingSpace (assign_location r s) = isCreatingSpace s"
  "lastTimeTick (assign_location r s) = lastTimeTick s" "ram (assign_location r s) = ram s"
  "q \<noteq> r \<Longrightarrow> pages (assign_location r s) q = pages s q"
  "pinned (pages (assign_location r s) r) = pinned (pages s r)"
  "refCount (pages (assign_location r s) r) = refCount (pages s r)"
  "bytes (pages (assign_location r s) r) = bytes (pages s r)"
  "page_key (pages (assign_location r s) r) = page_key (pages s r)"
  "isAnon (pages (assign_location r s) r) = isAnon (pages s r)"
  by (simp_all add: assign_location_def Let_def upd_page_def same_cfg_def set_location_def page_key_def)

text \<open>The outcome of an operation on one page.\<close>

definition local_ok :: "nat \<Rightarrow> bm \<Rightarrow> bm \<Rightarrow> bool" where
  "local_ok r s s' \<longleftrightarrow> bm_inv s' \<and> same_cfg s s' \<and> nextPage s' = nextPage s \<and>
     lastTimeTick s' \<le> lastTimeTick s + 1 \<and> ram s' = ram s \<and>
     (\<forall>q. q \<noteq> r \<longrightarrow> pages s' q = pages s q) \<and> refCount (pages s' r) = refCount (pages s r) \<and>
     page_key (pages s' r) = page_key (pages s r) \<and> isAnon (pages s' r) = isAnon (pages s r)"

lemma local_ok_refl: "bm_inv s \<Longrightarrow> local_ok r s s"
  by (simp add: local_ok_def)

lemma bm_invI:
  "bm_core {} s' \<Longrightarrow> bm_inv s \<Longrightarrow> same_cfg s s' \<Longrightarrow> isCreatingSpace s' = isCreatingSpace s \<Longrightarrow> bm_inv s'"
  by (simp add: bm_inv_def same_cfg_def Lg_def)

lemma unpin_ok:
  assumes inv: "bm_inv s" and r: "r < nextPage s" "live s r"
  shows "\<exists>s'. unpin r s = Inr s' \<and> local_ok r s s' \<and> \<not> pinned (pages s' r) \<and>
    bytes (pages s' r) = bytes (pages s r)"
proof (cases "pinned (pages s r)")
  case False
  then show ?thesis using inv by (simp add: unpin_def local_ok_refl)
next
  case True
  have core: "bm_core {} s" using inv by (simp add: bm_inv_def)
  have "page_live s r" using bm_coreD(7) [OF core] r(1) by (auto simp: live_ok_def)
  then obtain a where a: "bytes (pages s r) = Some a" using True r(2) by (auto simp: page_live_def)
  define u where "u = unpin_frame (parent_of s a)
      (upd_page r (\<lambda>p. p\<lparr>pinned := False, sizeFrozen := True\<rparr>) s)"
  note uf = unpin_frame_ok [OF core r(1) _ r(2) a True, folded u_def, simplified]
  define t where "t = (if \<not> isAnon (pages u r) \<and> map_of (pageLocations u) (page_key (pages u r)) = None
      then assign_location r u else u)"
  have res: "unpin r s = Inr t" using True a by (simp add: unpin_def Let_def u_def t_def)
  have "bm_core {} t" using uf assign_location_ok [OF uf(1), of r] r(1) by (simp add: t_def)
  moreover have sc: "same_cfg s t" using uf(3) same_cfg_trans by (auto simp: t_def)
  moreover have "isCreatingSpace t = isCreatingSpace s" using uf by (simp add: t_def)
  ultimately have "bm_inv t" using bm_invI [OF _ inv] by simp
  moreover have "page_key (pages t r) = page_key (pages s r)" using uf by (simp add: t_def)
  ultimately show ?thesis using res sc uf by (simp add: local_ok_def t_def)
qed

end
