(* ===== verification/BufferRelease.thy ===== *)
theory BufferRelease
  imports BufferOps
begin

text \<open>
  Freezing the size of a page, dropping handles and freeing anonymous pages, opening the file of a set
  and requesting a set page: each keeps the invariant.
\<close>

section \<open>Freezing\<close>

text \<open>A full-size page is alone on its frame.\<close>

lemma full_page_frame:
  assumes core: "bm_core X s" and f: "f \<in> frames s" and r: "r \<in> set (constituentPages s f)"
    and full: "numBytes (location (pages s r)) = Lg s"
  shows "snd (unusedMiniPages s f) = Lg s" and "addr s r = f" and "constituentPages s f = [r]"
    and "fst (unusedMiniPages s f) = []"
proof -
  note cf = constituent_frame [OF core f]
  show k: "snd (unusedMiniPages s f) = Lg s" using cf(4) [OF r] full by simp
  have one: "slots_of s f (Lg s) = {f}" by (auto simp: slots_of_def)
  have fo: "frame_ok s f" using core f by (rule bm_coreD)
  have all: "addr s q = f" if "q \<in> set (constituentPages s f)" for q
    using cf(5) [OF that] k one by simp
  show "addr s r = f" using all r by simp
  have inj: "inj_on (addr s) (set (constituentPages s f))" using fo by (simp add: frame_ok_def distinct_map)
  have only: "q = r" if "q \<in> set (constituentPages s f)" for q
    using inj_onD [OF inj _ that r] all that r by simp
  show "constituentPages s f = [r]"
    using constituent_distinct [OF core f] r only by (rule distinct_only)
  have "set (fst (unusedMiniPages s f)) \<subseteq> {f}" "f \<notin> set (fst (unusedMiniPages s f))"
    using fo k one all [OF r] r by (auto simp: frame_ok_def)
  then show "fst (unusedMiniPages s f) = []" by (cases "fst (unusedMiniPages s f)") auto
qed

text \<open>The slots after the first one.\<close>

definition tail_slots :: "bm \<Rightarrow> nat \<Rightarrow> nat \<Rightarrow> nat list" where
  "tail_slots s f k =
     map (\<lambda>off. f + off) (map (\<lambda>j. slotBytes s k + j * slotBytes s k) [0..<2 ^ (Lg s - k) - 1])"

lemma slots_tail:
  assumes "bm_cfg s"
  shows "set (tail_slots s f k) = slots_of s f k - {f}" and "distinct (tail_slots s f k)" and "f \<in> slots_of s f k"
proof -
  have pos: "0 < slotBytes s k" using assms(1) by (rule slotBytes_pos)
  show "f \<in> slots_of s f k" by (auto simp: slots_of_def image_iff intro!: bexI [of _ 0])
  show "distinct (tail_slots s f k)" using pos by (simp add: tail_slots_def distinct_map inj_on_def)
  show "set (tail_slots s f k) = slots_of s f k - {f}"
  proof (intro subset_antisym subsetI)
    fix x assume "x \<in> set (tail_slots s f k)"
    then obtain j where j: "j < 2 ^ (Lg s - k) - 1" "x = f + Suc j * slotBytes s k"
      by (auto simp: tail_slots_def)
    then show "x \<in> slots_of s f k - {f}"
      using pos by (auto simp: slots_of_def simp del: mult_Suc intro!: image_eqI [of _ _ "Suc j"])
  next
    fix x assume "x \<in> slots_of s f k - {f}"
    then obtain j where j: "j < 2 ^ (Lg s - k)" "x = f + j * slotBytes s k" "j \<noteq> 0"
      by (auto simp: slots_of_def)
    then obtain i where "j = Suc i" by (cases j) auto
    then show "x \<in> set (tail_slots s f k)" using j by (auto simp: tail_slots_def intro!: image_eqI [of _ _ i])
  qed
qed

lemma freezeSize_core:
  assumes core: "bm_core {} s" and r: "r < nextPage s" "live s r" and a: "bytes (pages s r) = Some a"
    and full: "numBytes (location (pages s r)) = Lg s" and k: "k \<le> Lg s"
  defines "new \<equiv> tail_slots s a k"
  defines "s' \<equiv> (upd_page r (\<lambda>p. p\<lparr>sizeFrozen := True, location := (location p)\<lparr>numBytes := k\<rparr>\<rparr>) s)
     \<lparr>emptyMiniPages := (emptyMiniPages s)[k := emptyMiniPages s ! k @ new],
      unusedMiniPages := (unusedMiniPages s)(a := (fst (unusedMiniPages s a) @ new, k))\<rparr>"
  shows "bm_core {} s'"
proof -
  have lr: "parent_of s a \<in> frames s" "r \<in> set (constituentPages s (parent_of s a))"
      "parent_of s a \<notin> set (emptyFullPages s)" "addr s r = a"
    using live_resident [OF core r(1) _ r(2) a] by simp_all
  note fp = full_page_frame [OF core lr(1,2) full]
  have par: "parent_of s a = a" using fp(2) lr(4) by simp
  note fp' = fp [unfolded par] and lr' = lr [unfolded par]
  note cfg = bm_coreD(1) [OF core]
  note st = slots_tail [OF cfg, of a k, folded new_def]
  have kl: "k < length (emptyMiniPages s)" using cfg k by (simp add: bm_cfg_def)
  have fo: "frame_ok s a" and po: "pin_ok s a" and lo: "lru_ok s" and eo: "empty_ok s"
    using core lr' by (auto dest: bm_coreD)
  have sc: "same_cfg s s'" by (simp add: same_cfg_def s'_def upd_page_def)
  note cs = same_cfg_simps [OF sc]
  have pl: "page_live s r" using bm_coreD(7) [OF core] r by (auto simp: live_ok_def)
  have con: "constituentPages s' a = [r]" and un: "unusedMiniPages s' a = (new, k)"
      and ad: "addr s' r = a" and nb: "numBytes (location (pages s' r)) = k"
      and by': "bytes (pages s' r) = Some a" and np: "nextPage s' = nextPage s"
    using fp' a by (simp_all add: s'_def upd_page_def addr_def)
  show ?thesis
  proof (rule core_local [OF core lr'(1) sc, where r = r])
    show "frame_ok s' a"
      unfolding frame_ok_def con un using st k r(1) cs by (simp add: ad nb by' np)
    show "pin_ok s' a" using po by (rule pin_ok_cong) (simp_all add: s'_def upd_page_def)
    show "sorted_wrt (<) (map snd (lastUsed s'))" using lo by (simp add: s'_def upd_page_def lru_ok_def)
    show "maps_ok s'"
      by (rule maps_ok_upd [OF bm_coreD(8) [OF core] sc]) (simp_all add: s'_def upd_page_def page_key_def)
    show "if r \<in> {} then bytes (pages s' r) = None else page_live s' r"
      using pl k a par lr' unfolding page_live_def page_wf_def cs by (simp add: s'_def upd_page_def live_def)
    show "distinct (emptyFullPages s')" using eo by (simp add: empty_ok_def s'_def upd_page_def)
    show "a \<in> set (emptyFullPages s') \<Longrightarrow> constituentPages s' a = [] \<and> fst (unusedMiniPages s' a) = []"
      using lr'(3) by (simp add: s'_def upd_page_def)
  next
    fix j assume j: "j \<le> Lg s"
    have jd: "distinct (emptyMiniPages s ! j)" using bm_coreD(3) [OF core] j by (simp add: mini_ok_def)
    show "distinct (emptyMiniPages s' ! j) \<and>
      set (emptyMiniPages s' ! j) = (set (emptyMiniPages s ! j) - set (fst (unusedMiniPages s a))) \<union>
        (if snd (unusedMiniPages s' a) = j then set (fst (unusedMiniPages s' a)) else {})"
    proof (cases "j = k")
      case True
      have "set (emptyMiniPages s ! k) \<inter> set new = {}"
        using slots_not_mini [OF core lr'(1) fp'(4) k k] st(1) by auto
      then show ?thesis
        using True jd kl st(2) by (simp add: un fp'(4)) (simp add: s'_def upd_page_def)
    next
      case False
      then show ?thesis using jd by (simp add: un fp'(4)) (simp add: s'_def upd_page_def)
    qed
  next
    fix t assume "(a, t) \<in> set (lastUsed s')"
    then show "a \<notin> set (emptyFullPages s') \<and> numPinned s' a = - int t \<and> 0 < t \<and> t < lastTimeTick s'"
      using lo lr'(3) by (auto simp: s'_def upd_page_def lru_ok_def)
  next
    fix g assume "g \<in> frames s" "g \<noteq> a"
    then show "r \<notin> set (constituentPages s g)" using constituent_unique [OF core _ lr'(1) _ lr'(2)] by blast
  qed (auto simp: s'_def upd_page_def live_def)
qed

lemma freezeSize_ok:
  assumes inv: "bm_inv s" and r: "r < nextPage s" "live s r"
    and full: "numBytes (location (pages s r)) = Lg s" and nb: "nb \<le> pageSize s"
  shows "holds_or_exit (\<lambda>s'. local_ok r s s' \<and> sizeFrozen (pages s' r) \<and>
     pinned (pages s' r) \<and> bytes (pages s' r) = bytes (pages s r) \<and>
     nb \<le> slotBytes s' (numBytes (location (pages s' r)))) (freezeSize r nb s)"
proof -
  have core: "bm_core {} s" using inv by (simp add: bm_inv_def)
  note cfg = bm_coreD(1) [OF core]
  obtain k where k: "k \<le> Lg s" "getLogPageSize s nb = Inr k" "nb \<le> slotBytes s k"
    using getLogPageSize_least [OF cfg nb] by blast
  show ?thesis
  proof (cases "pinned (pages s r) \<and> \<not> sizeFrozen (pages s r)")
    case False
    then show ?thesis by (auto simp: freezeSize_def Let_def)
  next
    case True
    have "page_live s r" using bm_coreD(7) [OF core] r(1) by (auto simp: live_ok_def)
    then obtain a where a: "bytes (pages s r) = Some a" using True r(2) by (auto simp: page_live_def)
    have kl: "k < length (emptyMiniPages s)" using cfg k by (simp add: bm_cfg_def)
    note fc = freezeSize_core [OF core r a full k(1)]
    let ?t = "(upd_page r (\<lambda>p. p\<lparr>sizeFrozen := True, location := (location p)\<lparr>numBytes := k\<rparr>\<rparr>) s)
      \<lparr>emptyMiniPages := (emptyMiniPages s)[k := emptyMiniPages s ! k @ tail_slots s a k],
       unusedMiniPages := (unusedMiniPages s)(a := (fst (unusedMiniPages s a) @ tail_slots s a k, k))\<rparr>"
    have sc: "same_cfg s ?t" by (simp add: same_cfg_def upd_page_def)
    have "bm_inv ?t" by (rule bm_invI [OF fc inv sc]) (simp add: upd_page_def)
    then have "local_ok r s ?t" using sc by (simp add: local_ok_def) (simp add: upd_page_def page_key_def)
    moreover have "freezeSize r nb s = Inr ?t"
      using True k full a kl
      by (simp add: freezeSize_def split_offsets_tail [OF cfg k(1)] vec_at_def tail_slots_def)
    moreover have "nb \<le> slotBytes ?t k" using k(3) same_cfg_simps(3) [OF sc] by simp
    ultimately show ?thesis using True by simp (simp add: upd_page_def)
  qed
qed

section \<open>Freeing anonymous pages\<close>

text \<open>Taking a page off its frame, as seen from the frame.\<close>

lemma remove_page_frame:
  assumes core: "bm_core X s" and f: "f \<in> frames s" and r: "r \<in> set (constituentPages s f)"
  defines "mini \<equiv> remove1 r (constituentPages s f)"
  shows "distinct (map (addr s) mini)" and "addr s r \<notin> addr s ` set mini"
    and "set mini = set (constituentPages s f) - {r}"
    and "int (length (filter (\<lambda>q. pinned (pages s q)) mini)) =
      int (pin_count s f) - (if pinned (pages s r) then 1 else 0)"
proof -
  have dis: "distinct (constituentPages s f)" using core f by (rule constituent_distinct)
  have inj: "inj_on (addr s) (set (constituentPages s f))"
    using bm_coreD(2) [OF core f] by (simp add: frame_ok_def distinct_map)
  show mini: "set mini = set (constituentPages s f) - {r}" using dis by (simp add: mini_def)
  show "distinct (map (addr s) mini)"
    using dis inj mini by (simp add: distinct_map mini_def inj_on_diff)
  show "addr s r \<notin> addr s ` set mini"
    using inj r by (auto simp: mini inj_on_def)
  have pc: "0 < pin_count s f" if "pinned (pages s r)"
    using r that by (auto simp: pin_count_def filter_empty_conv)
  show "int (length (filter (\<lambda>q. pinned (pages s q)) mini)) =
      int (pin_count s f) - (if pinned (pages s r) then 1 else 0)"
    using r pc by (auto simp: mini_def filter_remove1 length_remove1 pin_count_def of_nat_diff Suc_le_eq)
qed

text \<open>The frame becomes empty: it leaves the LRU queue and joins the empty full pages.\<close>

lemma release_frame_core:
  assumes core: "bm_core {} s" and f: "f \<in> frames s" "f \<notin> set (emptyFullPages s)"
    and con: "constituentPages s f = [r]" and dead: "\<not> live s r" and room: "tick_room s"
    and s': "s' = (drop_free f s)\<lparr>constituentPages := (constituentPages s)(f := []),
       numPinned := (numPinned s)(f := n), lastUsed := lastUsed (pinFrame f s),
       emptyFullPages := emptyFullPages s @ [f]\<rparr>"
  shows "bm_core {} s'"
proof -
  note pf = pinFrame_facts [OF core f room]
  have sc: "same_cfg s s'" by (simp add: same_cfg_def s' drop_free_def)
  note cs = same_cfg_simps [OF sc]
  have eo: "empty_ok s" and fo: "frame_ok s f" using core f by (auto dest: bm_coreD)
  have k: "snd (unusedMiniPages s f) \<le> Lg s" using fo by (simp add: frame_ok_def)
  have len: "length (emptyMiniPages s) = Suc (Lg s)" using bm_coreD(1) [OF core] by (simp add: bm_cfg_def)
  have "r < nextPage s" "page_live s r"
    using constituent_frame(3) [OF core f(1)] constituent_live(2) [OF core f(1)] con by auto
  show ?thesis
  proof (rule core_local [OF core f(1) sc, where r = r])
    show "frame_ok s' f" using k cs by (simp add: frame_ok_def s' drop_free_def)
    show "maps_ok s'"
      by (rule maps_ok_upd [OF bm_coreD(8) [OF core] sc]) (simp_all add: s' drop_free_def)
    show "if r \<in> {} then bytes (pages s' r) = None else page_live s' r"
      using \<open>page_live s r\<close> dead unfolding page_live_def page_wf_def cs
      by (simp add: s' drop_free_def live_def)
  next
    fix j assume j: "j \<le> Lg s"
    from mini_ok_self [OF core f(1) j] len j k
    show "distinct (emptyMiniPages s' ! j) \<and>
      set (emptyMiniPages s' ! j) = (set (emptyMiniPages s ! j) - set (fst (unusedMiniPages s f))) \<union>
        (if snd (unusedMiniPages s' f) = j then set (fst (unusedMiniPages s' f)) else {})"
      by (cases "snd (unusedMiniPages s f) = j") (auto simp: s' drop_free_def)
  next
    fix g assume "g \<in> frames s" "g \<noteq> f"
    then show "r \<notin> set (constituentPages s g)" using constituent_unique [OF core _ f(1)] con by auto
  qed (use pf eo f con in \<open>auto simp: s' drop_free_def live_def empty_ok_def\<close>)
qed

text \<open>Other pages stay on the frame: the slot becomes free.\<close>

lemma release_slot_core:
  assumes core: "bm_core {} s" and f: "f \<in> frames s" "f \<notin> set (emptyFullPages s)"
    and r: "r \<in> set (constituentPages s f)" and dead: "\<not> live s r"
    and k: "k = snd (unusedMiniPages s f)"
    and s': "s' = s\<lparr>constituentPages := (constituentPages s)(f := remove1 r (constituentPages s f)),
       numPinned := (numPinned s)(f := numPinned s f - (if pinned (pages s r) then 1 else 0)),
       unusedMiniPages := (unusedMiniPages s)(f := (fst (unusedMiniPages s f) @ [addr s r], k)),
       emptyMiniPages := (emptyMiniPages s)[k := emptyMiniPages s ! k @ [addr s r]]\<rparr>"
  shows "bm_core {} s'"
proof -
  note rp = remove_page_frame [OF core f(1) r] and cf = constituent_frame [OF core f(1) r]
  have sc: "same_cfg s s'" by (simp add: same_cfg_def s')
  note cs = same_cfg_simps [OF sc]
  have eo: "empty_ok s" and fo: "frame_ok s f" and lo: "lru_ok s" and po: "pin_ok s f"
    using core f by (auto dest: bm_coreD)
  have kl: "k < length (emptyMiniPages s)"
    using bm_coreD(1) [OF core] cf(6) by (simp add: bm_cfg_def k)
  have au: "addr s r \<notin> set (fst (unusedMiniPages s f))" using fo r by (auto simp: frame_ok_def)
  have ad: "addr s' = addr s" by (simp add: fun_eq_iff addr_def s')
  have con: "constituentPages s' f = remove1 r (constituentPages s f)"
      and un: "unusedMiniPages s' f = (fst (unusedMiniPages s f) @ [addr s r], k)"
      and oth: "pages s' = pages s" "nextPage s' = nextPage s"
    by (simp_all add: s')
  have pl: "page_live s r" using constituent_live(2) [OF core f(1) r] .
  show ?thesis
  proof (rule core_local [OF core f(1) sc, where r = r])
    show "frame_ok s' f"
      using fo rp au cf(5) k unfolding frame_ok_def con un ad oth cs by auto
    show "pin_ok s' f"
    proof -
      have "int (pin_count s' f) = int (pin_count s f) - (if pinned (pages s r) then 1 else 0)"
        using rp(4) by (simp add: pin_count_def con oth)
      moreover have "0 < pin_count s f" if "pinned (pages s r)"
        using r that by (auto simp: pin_count_def filter_empty_conv)
      moreover have "numPinned s' f = numPinned s f - (if pinned (pages s r) then 1 else 0)"
          "lastUsed s' = lastUsed s" by (simp_all add: s')
      ultimately show ?thesis using po unfolding pin_ok_def by (auto split: if_splits)
    qed
    show "sorted_wrt (<) (map snd (lastUsed s'))" using lo by (simp add: s' lru_ok_def)
    show "maps_ok s'" by (rule maps_ok_upd [OF bm_coreD(8) [OF core] sc]) (simp_all add: s')
    show "if r \<in> {} then bytes (pages s' r) = None else page_live s' r"
      using pl dead unfolding page_live_def page_wf_def cs by (simp add: s' live_def)
    show "distinct (emptyFullPages s')" using eo by (simp add: empty_ok_def s')
    show "f \<in> set (emptyFullPages s') \<Longrightarrow> constituentPages s' f = [] \<and> fst (unusedMiniPages s' f) = []"
      using f(2) by (simp add: s')
  next
    fix j assume j: "j \<le> Lg s"
    have am: "addr s r \<notin> set (emptyMiniPages s ! k)"
    proof
      assume "addr s r \<in> set (emptyMiniPages s ! k)"
      then obtain g where g: "g \<in> frames s" "addr s r \<in> set (fst (unusedMiniPages s g))"
        using bm_coreD(3) [OF core] cf(6) by (auto simp: mini_ok_def k)
      have "frame_ok s g" using core g(1) by (rule bm_coreD)
      then have "parent_of s (addr s r) = g"
        using parent_of_slot [OF bm_coreD(1) [OF core] g(1)] g(2) by (auto simp: frame_ok_def)
      then show False using cf(1) au g(2) by simp
    qed
    from mini_ok_self [OF core f(1) j] am kl k
    show "distinct (emptyMiniPages s' ! j) \<and>
      set (emptyMiniPages s' ! j) = (set (emptyMiniPages s ! j) - set (fst (unusedMiniPages s f))) \<union>
        (if snd (unusedMiniPages s' f) = j then set (fst (unusedMiniPages s' f)) else {})"
      unfolding un by (cases "j = k") (auto simp: s')
  next
    fix t assume t: "(f, t) \<in> set (lastUsed s')"
    then have "\<not> pinned (pages s r)" using pinned_frame(3) [OF core f r] by (auto simp: s')
    then show "f \<notin> set (emptyFullPages s') \<and> numPinned s' f = - int t \<and> 0 < t \<and> t < lastTimeTick s'"
      using lo t f(2) by (auto simp: s' lru_ok_def)
  next
    fix g assume "g \<in> frames s" "g \<noteq> f"
    then show "r \<notin> set (constituentPages s g)" using constituent_unique [OF core _ f(1) _ r] by blast
  qed (use rp(3) con in \<open>auto simp: s' live_def\<close>)
qed

lemma remove1_nil: "x \<in> set xs \<Longrightarrow> remove1 x xs = [] \<Longrightarrow> xs = [x]"
  by (cases xs) (auto split: if_splits)

lemma free_memory_ok:
  assumes core: "bm_core {} s" and f: "parent_of s a \<in> frames s" "parent_of s a \<notin> set (emptyFullPages s)"
    and r: "r \<in> set (constituentPages s (parent_of s a))" and a: "bytes (pages s r) = Some a"
    and dead: "\<not> live s r" and room: "tick_room s"
  shows "\<exists>s'. free_memory r a s = Inr s' \<and> bm_core {} s' \<and> same_cfg s s' \<and> pages s' = pages s \<and>
    nextPage s' = nextPage s \<and> lastTimeTick s' = lastTimeTick s \<and> ram s' = ram s \<and>
    isCreatingSpace s' = isCreatingSpace s \<and> allPages s' = allPages s \<and> pageLocations s' = pageLocations s"
proof -
  define f where "f = parent_of s a"
  note f' = f [folded f_def] and r' = r [folded f_def]
  let ?mini = "remove1 r (constituentPages s f)"
  let ?n = "numPinned s f - (if pinned (pages s r) then 1 else 0)"
  let ?k = "snd (unusedMiniPages s f)"
  have ad: "addr s r = a" using a by (simp add: addr_def)
  have kl: "?k < length (emptyMiniPages s)"
    using bm_coreD(1) [OF core] constituent_frame(6) [OF core f'(1) r'] by (simp add: bm_cfg_def)
  show ?thesis
  proof (cases "?mini = []")
    case True
    have con: "constituentPages s f = [r]" using r' True by (rule remove1_nil)
    let ?s1 = "s\<lparr>constituentPages := (constituentPages s)(f := []), numPinned := (numPinned s)(f := ?n)\<rparr>"
    let ?s2 = "if ?n < 0 then ?s1\<lparr>lastUsed := lru_erase (tick32 (- ?n)) (lastUsed s)\<rparr> else ?s1"
    let ?t = "(drop_free f s)\<lparr>constituentPages := (constituentPages s)(f := []),
       numPinned := (numPinned s)(f := ?n), lastUsed := lastUsed (pinFrame f s),
       emptyFullPages := emptyFullPages s @ [f]\<rparr>"
    have lu: "lastUsed ?s2 = lastUsed (pinFrame f s)"
      using pinned_frame(1,2) [OF core f' r'] by (auto simp: pinFrame_def)
    have "free_memory r a s = Inr ((drop_free f ?s2)\<lparr>emptyFullPages := emptyFullPages s @ [f]\<rparr>)"
      using r' True by (simp add: free_memory_def Let_def f_def [symmetric] vec_find_erase_def
          drop_unused_ok [OF core f'(1)] drop_free_def)
    also have "(drop_free f ?s2)\<lparr>emptyFullPages := emptyFullPages s @ [f]\<rparr> = ?t"
      using lu by (auto simp: drop_free_def split: if_splits)
    finally have res: "free_memory r a s = Inr ?t" .
    have "bm_core {} ?t" by (rule release_frame_core [OF core f' con dead room refl])
    then show ?thesis using res by (simp add: drop_free_def same_cfg_def)
  next
    case False
    let ?t = "s\<lparr>constituentPages := (constituentPages s)(f := ?mini), numPinned := (numPinned s)(f := ?n),
       unusedMiniPages := (unusedMiniPages s)(f := (fst (unusedMiniPages s f) @ [addr s r], ?k)),
       emptyMiniPages := (emptyMiniPages s)[?k := emptyMiniPages s ! ?k @ [addr s r]]\<rparr>"
    have "free_memory r a s = Inr ?t"
      using r' False kl by (simp add: free_memory_def Let_def f_def [symmetric] vec_find_erase_def
          vec_at_def split_beta ad)
    moreover have "bm_core {} ?t" by (rule release_slot_core [OF core f' r' dead refl refl])
    ultimately show ?thesis by (simp add: same_cfg_def)
  qed
qed

section \<open>Dropping a handle\<close>

lemma ref_upd_ok:
  assumes core: "bm_core {} s" and n: "0 < n \<Longrightarrow> live s r"
  shows "bm_core {} (upd_page r (\<lambda>p. p\<lparr>refCount := n\<rparr>) s)"
proof (cases "r < nextPage s")
  case True
  let ?s = "upd_page r (\<lambda>p. p\<lparr>refCount := n\<rparr>) s"
  have sc: "same_cfg s ?s" by (simp add: same_cfg_def upd_page_def)
  note cs = same_cfg_simps [OF sc]
  have pl: "page_live s r" using bm_coreD(7) [OF core] True by (auto simp: live_ok_def)
  have "live s r" if "live ?s r" using that n by (auto simp: live_def upd_page_def)
  then have "page_live ?s r"
    using pl unfolding page_live_def page_wf_def cs by (auto simp: upd_page_def)
  then show ?thesis
    by (intro page_upd_ok [OF core sc, where r = r and p = "(pages s r)\<lparr>refCount := n\<rparr>"]
        maps_ok_upd [OF bm_coreD(8) [OF core] sc])
       (simp_all add: upd_page_def live_def page_key_def)
next
  case False
  let ?s = "upd_page r (\<lambda>p. p\<lparr>refCount := n\<rparr>) s"
  have sc: "same_cfg s ?s" by (simp add: same_cfg_def upd_page_def)
  show ?thesis
    by (rule page_upd_ok [OF core sc, where r = r and p = "(pages s r)\<lparr>refCount := n\<rparr>"])
       (use False maps_ok_upd [OF bm_coreD(8) [OF core] sc] in
         \<open>simp_all add: upd_page_def live_def page_key_def\<close>)
qed

lemma freeAnonymousPage_ok:
  assumes inv: "bm_inv s" and r: "r < nextPage s" and anon: "isAnon (pages s r)"
    and rc: "refCount (pages s r) = 0" and room: "tick_room s"
    and res: "\<And>a. bytes (pages s r) = Some a \<Longrightarrow>
      parent_of s a \<in> frames s \<and> r \<in> set (constituentPages s (parent_of s a))"
  shows "\<exists>s'. freeAnonymousPage r s = Inr s' \<and> local_ok r s s'"
proof -
  have core: "bm_core {} s" using inv by (simp add: bm_inv_def)
  have dead: "\<not> live s r"
    using bm_coreD(8) [OF core] anon rc by (auto simp: live_def maps_ok_def)
  have pl: "page_live s r" using bm_coreD(7) [OF core] r by (auto simp: live_ok_def)
  then have valid: "isRemovalStillValid r s"
    using anon rc by (simp add: isRemovalStillValid_def page_live_def Let_def)
  have nbl: "numBytes (location (pages s r)) < length (availablePositions s)"
    using pl bm_coreD(1) [OF core] by (simp add: page_live_def page_wf_def bm_cfg_def)
  define V where "V = (if startPos (location (pages s r)) \<noteq> -1
      then (availablePositions s)[numBytes (location (pages s r)) :=
        availablePositions s ! numBytes (location (pages s r)) @ [nat (startPos (location (pages s r)))]]
      else availablePositions s)"
  define s2 where "s2 = s\<lparr>availablePositions := V,
      freeAnonPageNumbers := freeAnonPageNumbers s @ [pageNum (pages s r)]\<rparr>"
  have run: "freeAnonymousPage r s = (case bytes (pages s r) of None \<Rightarrow> Inr s2 | Some a \<Rightarrow> free_memory r a s2)"
  proof -
    have "s = s\<lparr>availablePositions := availablePositions s\<rparr>" by (cases s) simp
    then have "(if startPos (location (pages s r)) \<noteq> -1
        then andThen (vec_at (availablePositions s) (numBytes (location (pages s r)))) (\<lambda>av.
          Inr (s\<lparr>availablePositions := (availablePositions s)[numBytes (location (pages s r)) :=
            av @ [nat (startPos (location (pages s r)))]]\<rparr>))
        else Inr s) = Inr (s\<lparr>availablePositions := V\<rparr>)"
      using nbl by (simp add: vec_at_def V_def)
    then show ?thesis
      using valid by (cases "bytes (pages s r)") (simp_all add: freeAnonymousPage_def Let_def s2_def)
  qed
  have core2: "bm_core {} s2" using core by (rule core_cong) (simp_all add: s2_def V_def)
  have sc: "same_cfg s s2" by (simp add: same_cfg_def s2_def)
  show ?thesis
  proof (cases "bytes (pages s r)")
    case None
    have "bm_inv s2" by (rule bm_invI [OF core2 inv sc]) (simp add: s2_def)
    then show ?thesis using run None sc by (simp add: local_ok_def) (simp add: s2_def)
  next
    case (Some a)
    have par: "parent_of s2 a = parent_of s a" "frames s2 = frames s"
      using same_cfg_simps [OF sc] by simp_all
    have con: "constituentPages s2 = constituentPages s" "pages s2 = pages s"
        "emptyFullPages s2 = emptyFullPages s" by (simp_all add: s2_def)
    have "parent_of s a \<notin> set (emptyFullPages s)"
      using bm_coreD(4) [OF core] res [OF Some] by (auto simp: empty_ok_def)
    then obtain s' where s': "free_memory r a s2 = Inr s'" "bm_core {} s'" "same_cfg s2 s'" "pages s' = pages s2"
        "nextPage s' = nextPage s2" "lastTimeTick s' = lastTimeTick s2" "ram s' = ram s2"
        "isCreatingSpace s' = isCreatingSpace s2"
      using free_memory_ok [OF core2, of a r] res [OF Some] Some dead room par con
      by (auto simp: s2_def live_def tick_room_def)
    have sc': "same_cfg s s'" using sc s'(3) by (rule same_cfg_trans)
    have "bm_inv s'" by (rule bm_invI [OF s'(2) inv sc']) (simp add: s' s2_def)
    then show ?thesis using run Some s' sc' by (simp add: local_ok_def s2_def)
  qed
qed

lemma forget_page_ok:
  assumes core: "bm_core X s"
  shows "bm_core X (s\<lparr>allPages := map_erase k (allPages s)\<rparr>)" (is "bm_core X ?s")
proof -
  have sc: "same_cfg s ?s" by (simp add: same_cfg_def)
  note cs = same_cfg_simps [OF sc]
  have sub: "set (map_erase k (allPages s)) \<subseteq> set (allPages s)" by (auto simp: map_erase_def)
  have lv: "live s q" if "live ?s q" for q using that sub by (auto simp: live_def)
  have "live_ok X ?s"
    unfolding live_ok_def
  proof (intro allI impI)
    fix q assume "q < nextPage ?s"
    then have "if q \<in> X then bytes (pages s q) = None else page_live s q"
      using bm_coreD(7) [OF core] by (simp add: live_ok_def)
    moreover have "page_live ?s q" if "page_live s q"
      using that lv unfolding page_live_def page_wf_def cs by auto
    ultimately show "if q \<in> X then bytes (pages ?s q) = None else page_live ?s q" by auto
  qed
  moreover have "maps_ok ?s"
    using bm_coreD(8) [OF core] sub unfolding maps_ok_def cs by (auto simp: map_ok_erase)
  moreover have "bm_cfg ?s" by (rule bm_cfg_cong [OF bm_coreD(1) [OF core]]) simp_all
  moreover have "frame_ok ?s g" if "g \<in> frames s" for g
    using bm_coreD(2) [OF core that] by (rule frame_ok_cong) simp_all
  moreover have "pin_ok ?s g" if "g \<in> frames s" "g \<notin> set (emptyFullPages s)" for g
    using bm_coreD(5) [OF core that] by (rule pin_ok_cong) simp_all
  moreover have "mini_ok ?s" "empty_ok ?s" "lru_ok ?s"
    using bm_coreD(3,4,6) [OF core] cs by (simp_all add: mini_ok_def empty_ok_def lru_ok_def)
  ultimately show ?thesis using cs(1) by (simp add: bm_core_def)
qed

lemma downToZeroReferences_ok:
  assumes inv: "bm_inv s" and r: "r < nextPage s" and na: "\<not> isAnon (pages s r)"
  shows "\<exists>s'. downToZeroReferences r s = Inr s' \<and> local_ok r s s'"
proof -
  consider "\<not> isRemovalStillValid r s" | "isRemovalStillValid r s" "bytes (pages s r) = None"
    | "isRemovalStillValid r s" "bytes (pages s r) \<noteq> None" by blast
  then show ?thesis
  proof cases
    case 1
    then show ?thesis using inv by (simp add: downToZeroReferences_def local_ok_refl)
  next
    case 2
    let ?s = "s\<lparr>allPages := map_erase (page_key (pages s r)) (allPages s)\<rparr>"
    have sc: "same_cfg s ?s" by (simp add: same_cfg_def)
    have "bm_core {} ?s" using inv by (intro forget_page_ok) (simp add: bm_inv_def)
    then have "bm_inv ?s" by (rule bm_invI [OF _ inv sc]) simp
    then show ?thesis using 2 sc by (simp add: downToZeroReferences_def local_ok_def)
  next
    case 3
    have "map_of (allPages s) (page_key (pages s r)) = Some r"
      using 3(1) na by (auto simp: isRemovalStillValid_def Let_def split: if_splits)
    then have "live s r" by (force simp: live_def dest: map_of_SomeD)
    then show ?thesis using unpin_ok [OF inv r] 3 by (auto simp: downToZeroReferences_def)
  qed
qed

text \<open>The outcome of destroying a handle.\<close>

definition release_ok :: "nat \<Rightarrow> bm \<Rightarrow> bm \<Rightarrow> bool" where
  "release_ok r s s' \<longleftrightarrow> bm_inv s' \<and> same_cfg s s' \<and> nextPage s' = nextPage s \<and>
     lastTimeTick s' \<le> lastTimeTick s + 1 \<and> ram s' = ram s \<and> (\<forall>q. q \<noteq> r \<longrightarrow> pages s' q = pages s q) \<and>
     refCount (pages s' r) = refCount (pages s r) - 1 \<and>
     page_key (pages s' r) = page_key (pages s r) \<and> isAnon (pages s' r) = isAnon (pages s r)"

lemma decRefCount_ok:
  assumes inv: "bm_inv s" and r: "r < nextPage s" and rc: "0 < refCount (pages s r)" and room: "tick_room s"
  shows "\<exists>s'. decRefCount r s = Inr s' \<and> release_ok r s s'"
proof -
  define s1 where "s1 = upd_page r (\<lambda>p. p\<lparr>refCount := refCount p - 1\<rparr>) s"
  have core: "bm_core {} s" using inv by (simp add: bm_inv_def)
  have lv: "live s r" using rc by (simp add: live_def)
  have sc: "same_cfg s s1" by (simp add: same_cfg_def upd_page_def s1_def)
  note cs = same_cfg_simps [OF sc]
  have "upd_page r (\<lambda>p. p\<lparr>refCount := refCount (pages s r) - 1\<rparr>) s = s1" by (simp add: upd_page_def s1_def)
  then have "bm_core {} s1" using ref_upd_ok [OF core, of "refCount (pages s r) - 1" r] lv by simp
  then have inv': "bm_inv s1" by (rule bm_invI [OF _ inv sc]) (simp add: upd_page_def s1_def)
  have pl: "page_live s r" using bm_coreD(7) [OF core] r by (auto simp: live_ok_def)
  have upd: "pages s1 = (pages s)(r := (pages s r)\<lparr>refCount := refCount (pages s r) - 1\<rparr>)"
      "nextPage s1 = nextPage s" "lastTimeTick s1 = lastTimeTick s" "ram s1 = ram s"
      "constituentPages s1 = constituentPages s"
    by (simp_all add: upd_page_def s1_def)
  have run: "decRefCount r s = (if refCount (pages s1 r) = 0
      then (if isAnon (pages s1 r) then freeAnonymousPage r s1 else downToZeroReferences r s1) else Inr s1)"
    by (simp only: decRefCount_def Let_def s1_def)
  have lift: "release_ok r s s'" if "local_ok r s1 s'" for s'
    using that same_cfg_trans [OF sc] by (simp add: local_ok_def release_ok_def upd)
  consider "refCount (pages s1 r) \<noteq> 0" | "refCount (pages s1 r) = 0" "isAnon (pages s1 r)"
    | "refCount (pages s1 r) = 0" "\<not> isAnon (pages s1 r)" by blast
  then show ?thesis
  proof cases
    case 1
    then show ?thesis using lift [OF local_ok_refl [OF inv']] by (simp add: run)
  next
    case 2
    have "\<exists>s'. freeAnonymousPage r s1 = Inr s' \<and> local_ok r s1 s'"
    proof (rule freeAnonymousPage_ok [OF inv'])
      fix a assume "bytes (pages s1 r) = Some a"
      then show "parent_of s1 a \<in> frames s1 \<and> r \<in> set (constituentPages s1 (parent_of s1 a))"
        using pl lv cs by (simp add: page_live_def upd)
    qed (use 2 r room in \<open>simp_all add: upd tick_room_def\<close>)
    then show ?thesis using 2 lift by (auto simp: run)
  next
    case 3
    have "\<exists>s'. downToZeroReferences r s1 = Inr s' \<and> local_ok r s1 s'"
      using 3 r by (intro downToZeroReferences_ok [OF inv']) (simp_all add: upd)
    then show ?thesis using 3 lift by (auto simp: run)
  qed
qed

section \<open>Requests for set pages\<close>

lemma checkIfOpen_ok:
  assumes inv: "bm_inv s"
  shows "holds_or_exit (\<lambda>s1. bm_inv s1 \<and> map_of (fds s1) (Some st) \<noteq> None \<and> pages s1 = pages s \<and>
    nextPage s1 = nextPage s \<and> lastTimeTick s1 = lastTimeTick s \<and> allPages s1 = allPages s \<and>
    pageLocations s1 = pageLocations s \<and> ram s1 = ram s) (checkIfOpen st s)"
proof (cases "map_of (fds s) (Some st) = None \<and> ioOk s")
  case False
  then show ?thesis using inv by (auto simp: checkIfOpen_def)
next
  case True
  define E where "E = (if map_of (endOfFiles s) (Some st) = None
      then map_put (Some st) 0 (endOfFiles s) else endOfFiles s)"
  let ?F = "map_put (Some st) (set_path s st) (fds s)"
  let ?t = "s\<lparr>fds := ?F, endOfFiles := E\<rparr>"
  have "s\<lparr>fds := ?F\<rparr> = s\<lparr>fds := ?F, endOfFiles := endOfFiles s\<rparr>" by (cases s) simp
  then have res: "checkIfOpen st s = Inr ?t" using True by (simp add: checkIfOpen_def E_def Let_def)
  have core: "bm_core {} s" and idle: "\<forall>k \<le> Lg s. \<not> isCreatingSpace s ! k"
    using inv by (auto simp: bm_inv_def)
  have mo: "maps_ok s" using core by (rule bm_coreD)
  then have fd: "map_of ?F = (map_of (fds s))(Some st \<mapsto> set_path s st)"
    by (simp add: maps_ok_def map_of_map_put)
  have geo: "frames ?t = frames s" "Lg ?t = Lg s" "parent_of ?t a = parent_of s a"
      "slots_of ?t f k = slots_of s f k" for a f k
    by (simp_all add: frames_def Lg_def parent_of_def slots_of_def slotBytes_def)
  have "page_live ?t q" if "page_live s q" for q
    using that unfolding page_live_def page_wf_def geo by (auto simp: fd live_def)
  then have "live_ok {} ?t" using bm_coreD(7) [OF core] by (simp add: live_ok_def)
  moreover have "maps_ok ?t"
    using mo unfolding maps_ok_def geo by (simp add: map_ok_put E_def)
  moreover have "bm_cfg ?t" by (rule bm_cfg_cong [OF bm_coreD(1) [OF core]]) simp_all
  moreover have "frame_ok ?t g" if "g \<in> frames s" for g
    using bm_coreD(2) [OF core that] by (rule frame_ok_cong) simp_all
  moreover have "pin_ok ?t g" if "g \<in> frames s" "g \<notin> set (emptyFullPages s)" for g
    using bm_coreD(5) [OF core that] by (rule pin_ok_cong) simp_all
  moreover have "mini_ok ?t" "empty_ok ?t" "lru_ok ?t"
    using bm_coreD(3,4,6) [OF core] by (simp_all add: mini_ok_def empty_ok_def lru_ok_def geo)
  ultimately have "bm_inv ?t" using idle by (simp add: bm_core_def bm_inv_def geo)
  then show ?thesis using res by (simp add: fd)
qed

lemma getPage_set_ok:
  assumes inv: "bm_inv s" and room: "tick_room s"
  shows "holds_or_exit (\<lambda>(r, s'). \<exists>st s1. st' = Some st \<and> checkIfOpen st s = Inr s1 \<and>
      pages s1 = pages s \<and> nextPage s1 = nextPage s \<and> lastTimeTick s1 = lastTimeTick s \<and>
      request_ok s1 (r, s') \<and> got_page st i s r s') (getPage_set st' i s)"
proof (cases st')
  case None
  then show ?thesis using inv by (simp add: getPage_set_def bm_inv_def bm_core_def bm_cfg_def)
next
  case (Some st)
  let ?P = "\<lambda>(r, s'). \<exists>st s1. st' = Some st \<and> checkIfOpen st s = Inr s1 \<and>
      pages s1 = pages s \<and> nextPage s1 = nextPage s \<and> lastTimeTick s1 = lastTimeTick s \<and>
      request_ok s1 (r, s') \<and> got_page st i s r s'"
  have ini: "initialized s" using inv by (simp add: bm_inv_def bm_core_def bm_cfg_def)
  have "holds_or_exit ?P (case map_of (allPages s1) (Some st, i) of
            None \<Rightarrow>
              (case map_of (pageLocations s1) (Some st, i) of
                 None \<Rightarrow> getPage_create st i s1
               | Some info \<Rightarrow> getPage_load st i info s1)
          | Some r \<Rightarrow>
              (let s2 = upd_page r incRefCount s1
               in if is_busy (status (pages s2 r)) then Inl (Blocks ''pagesCV'')
                  else andThen (repin_locked r s2) (\<lambda>s3. Inr (r, s3))))"
    if c: "checkIfOpen st s = Inr s1" for s1
  proof -
    have o: "bm_inv s1" "map_of (fds s1) (Some st) \<noteq> None" "pages s1 = pages s"
        "nextPage s1 = nextPage s" "lastTimeTick s1 = lastTimeTick s"
      using hoeD [OF checkIfOpen_ok [OF inv] c] by auto
    have room1: "tick_room s1" using room o(5) by (simp add: tick_room_def)
    have core: "bm_core {} s1" using o(1) by (simp add: bm_inv_def)
    have lift: "holds_or_exit ?P m"
      if "holds_or_exit (\<lambda>(r, s'). request_ok s1 (r, s') \<and> got_page st i s1 r s') m" for m
      using that by (rule hoe_mono) (use o c Some in \<open>auto simp: got_page_def\<close>)
    show ?thesis
    proof (cases "map_of (allPages s1) (Some st, i)")
      case None
      show ?thesis
      proof (cases "map_of (pageLocations s1) (Some st, i)")
        case None
        then show ?thesis
          using \<open>map_of (allPages s1) (Some st, i) = None\<close> lift [OF getPage_create_ok [OF o(1,2) room1]] by simp
      next
        case (Some info)
        have "numBytes info \<le> Lg s1" "0 \<le> startPos info"
          using bm_coreD(8) [OF core] map_of_SomeD [OF Some] by (auto simp: maps_ok_def)
        then show ?thesis
          using Some \<open>map_of (allPages s1) (Some st, i) = None\<close> lift [OF getPage_load_ok [OF o(1,2) room1]] by simp
      qed
    next
      case (Some r)
      have rin: "r < nextPage s1" "page_key (pages s1 r) = (Some st, i)" "\<not> isAnon (pages s1 r)"
        using bm_coreD(8) [OF core] map_of_SomeD [OF Some] by (auto simp: maps_ok_def)
      have lv: "live s1 r" using map_of_SomeD [OF Some] by (force simp: live_def)
      let ?s2 = "upd_page r incRefCount s1"
      have "upd_page r (\<lambda>p. p\<lparr>refCount := refCount (pages s1 r) + 1\<rparr>) s1 = ?s2"
        by (simp add: upd_page_def incRefCount_def)
      then have "bm_core {} ?s2" using ref_upd_ok [OF core, of "refCount (pages s1 r) + 1" r] lv by simp
      then have inv2: "bm_inv ?s2" by (rule bm_invI [OF _ o(1)]) (simp_all add: same_cfg_def upd_page_def)
      have "page_live s1 r" using bm_coreD(7) [OF core] rin(1) by (auto simp: live_ok_def)
      then have nb: "\<not> is_busy (status (pages ?s2 r))"
        by (simp add: page_live_def upd_page_def incRefCount_def)
      have rq: "holds_or_exit (repinned r ?s2) (repin_locked r ?s2)"
        using rin(1) room1 by (intro repin_locked_ok inv2) (simp_all add: upd_page_def incRefCount_def tick_room_def)
      have up: "request_ok s1 (r, s')" if "request_ok ?s2 (r, s')" for s'
        using that by (simp add: request_ok_def upd_page_def same_cfg_def)
      have "holds_or_exit (\<lambda>(r, s'). request_ok s1 (r, s') \<and> got_page st i s1 r s')
          (andThen (repin_locked r ?s2) (\<lambda>s3. Inr (r, s3)))"
        using rq by (rule hoe_andThen) (use up rin in \<open>simp add: repinned_def upd_page_def incRefCount_def page_key_def got_page_def\<close>)
      then show ?thesis using Some nb lift by simp
    qed
  qed
  note step = this
  show ?thesis
  proof (cases "checkIfOpen st s")
    case (Inl e)
    then show ?thesis
      using checkIfOpen_ok [OF inv, of st] Some ini by (simp add: getPage_set_def holds_or_exit_def)
  next
    case (Inr s1)
    show ?thesis using step [OF Inr] Some ini Inr unfolding getPage_set_def by simp
  qed
qed

end
