(* ===== verification/BufferSystem.thy ===== *)
theory BufferSystem
  imports BufferRelease
begin

text \<open>
  The buffer manager as a transition system: \<open>initialize\<close>, then any sequence of client calls. The
  invariant holds in every reachable state; from it follow the guarantees a client relies on: no
  undefined behaviour, pinned pages in disjoint parts of the shared memory, no eviction of a pinned
  page, least-recently-used eviction. The section on departures holds the executions in which the code
  does something its comments exclude.
\<close>

section \<open>Initialisation\<close>

lemma class_loop_result:
  assumes "class_loop fuel cur psz n = Inr (m, c)" and "0 < cur" and "psz < 2 ^ 63"
  shows "\<exists>d. m = n + d \<and> c = cur * 2 ^ d \<and> psz < c \<and> (\<forall>e < d. cur * 2 ^ e \<le> psz)"
  using assms
proof (induction fuel cur psz n rule: class_loop.induct)
  case (2 fuel cur psz n)
  show ?case
  proof (cases "cur \<le> psz")
    case False
    then show ?thesis using 2 by (intro exI [of _ 0]) auto
  next
    case True
    then have small: "cur * 2 mod 2 ^ 64 = cur * 2" using 2(4) by (intro mod_less) simp
    obtain d where d: "m = n + 1 + d" "c = cur * 2 * 2 ^ d" "psz < c" "\<forall>e < d. cur * 2 * 2 ^ e \<le> psz"
      using 2(1) [OF True] 2(2-) True small by auto
    have "cur * 2 ^ e \<le> psz" if "e < Suc d" for e
      using d(4) that True by (cases e) (auto simp: mult.assoc)
    then show ?thesis using d by (intro exI [of _ "Suc d"]) (auto simp: mult.assoc)
  qed
qed simp

text \<open>A page size that passes the check is \<^verbatim>\<open>MIN_PAGE_SIZE\<close> times a power of two.\<close>

lemma initialize_ok:
  assumes run: "initialize minSz mapped opened disk tf psz np mf sl = Inr s"
    and sz: "0 < minSz" "minSz \<le> psz" "psz < 2 ^ 32"
  shows "bm_inv s \<and> lastTimeTick s = 1 \<and> lastFreeAnonPageNumber s = 0 \<and> nextPage s = 0"
proof -
  obtain n c base where r: "class_loop 65 minSz psz 0 = Inr (n, c)" "c = psz * 2 mod 2 ^ 64" "mapped = Some base"
      and s: "s = \<lparr>minPage = minSz, memory = base, pageSize = psz, numPages = np,
                 initialized = True, pages = (\<lambda>_. PDBPage_new), nextPage = 0, allPages = [],
                 pageLocations = [], endOfFiles = [], lastUsed = [], numPinned = (\<lambda>_. 0), fds = [],
                 emptyFullPages = map (\<lambda>i. base + psz * i) [0..<np],
                 constituentPages = (\<lambda>_. []), emptyMiniPages = replicate n [],
                 unusedMiniPages = (\<lambda>_. ([], 0)), availablePositions = replicate n [],
                 lastTimeTick = 1, lastTempPos = 0, logOfPageSize = int n - 1,
                 isCreatingSpace = replicate n False, freeAnonPageNumbers = [],
                 lastFreeAnonPageNumber = 0, tempFile = tf, metaDataFile = mf,
                 storageLoc = sl, tempData = disk tf, files = disk, ram = (\<lambda>_. 0), ioOk = True\<rparr>"
    using run unfolding initialize_def
    by (auto simp: res_simps split: if_splits prod.splits option.splits)
  obtain d where d: "n = d" "c = minSz * 2 ^ d" "psz < c" "\<forall>e < d. minSz * 2 ^ e \<le> psz"
    using class_loop_result [OF r(1) sz(1)] sz(3) by auto
  have "0 < d" using d(2,3) sz(2) by (cases d) auto
  then obtain m where m: "n = Suc m" using d(1) by (cases d) auto
  have "psz * 2 < 2 ^ 64" using sz(3) by simp
  then have "psz * 2 mod 2 ^ 64 = psz * 2" by (rule mod_less)
  then have "psz * 2 = minSz * 2 ^ Suc m" using r(2) d(1,2) m by metis
  then have psz: "psz = minSz * 2 ^ m" by simp
  have lg: "Lg s = m" by (simp add: Lg_def s m)
  have fr: "frames s = set (emptyFullPages s)"
    by (auto simp: frames_def s image_iff)
  have dis: "distinct (emptyFullPages s)" using sz psz by (simp add: s distinct_map inj_on_def)
  have "bm_cfg s" using sz psz lg by (simp add: bm_cfg_def s m)
  moreover have "frame_ok s f" for f by (simp add: frame_ok_def s)
  moreover have "mini_ok s"
  proof -
    have "emptyMiniPages s ! k = []" if "k \<le> m" for k
      using that nth_replicate [of k "Suc m" "[]"] by (simp add: s m del: replicate_Suc)
    then show ?thesis by (simp add: mini_ok_def lg) (simp add: s)
  qed
  moreover have "empty_ok s" using dis fr by (simp add: empty_ok_def) (simp add: s)
  moreover have "lru_ok s" "live_ok {} s" "maps_ok s" by (simp_all add: lru_ok_def live_ok_def maps_ok_def s)
  ultimately have "bm_core {} s" using fr by (simp add: bm_core_def)
  moreover have "\<not> isCreatingSpace s ! k" if "k \<le> m" for k
    using that nth_replicate [of k "Suc m" False] by (simp add: s m del: replicate_Suc)
  ultimately show ?thesis using lg by (simp add: bm_inv_def) (simp add: s)
qed

section \<open>Client calls\<close>

text \<open>
  A client holds handles; each page object counts its own. It may ask for pages of at most the page size and for pages of sets, copy and destroy
  handles, pin and unpin, freeze a full-size page and write to a page it has pinned, marking it dirty; the disk may begin or cease to work. Three calls of
  the interface are not steps, because the guarantees below do not survive them: a request for more than the page size, \<^verbatim>\<open>freezeSize\<close> of a mini-page and
  \<^verbatim>\<open>clearSet\<close> (\<open>oversized_request_undefined\<close>, \<open>freezeSize_mini_page_leaves_frame\<close> and \<open>clearSet_evicts_pinned_page\<close> in \<open>BufferDepartures\<close>).
  \<open>roomy_state\<close>: fewer than \<open>2 ^ 32\<close> moves into the LRU queue and \<open>2 ^ 31\<close> anonymous page numbers so
  far, the range in which the 32-bit counters are exact.
\<close>

definition roomy_state :: "bm \<Rightarrow> bool" where
  "roomy_state s \<longleftrightarrow> tick_room s \<and> anon_room s"

definition store_byte :: "nat \<Rightarrow> nat \<Rightarrow> byte \<Rightarrow> bm \<Rightarrow> bm" where
  "store_byte r i v s =
     (upd_page r setDirty s)\<lparr>ram := (ram s)(the (bytes (pages s r)) + i := v)\<rparr>"

inductive bm_step :: "bm \<Rightarrow> bm \<Rightarrow> bool" where
  get_anon: "roomy_state s \<Longrightarrow> nb \<le> pageSize s \<Longrightarrow> getPage_bytes nb s = Inr (r, s') \<Longrightarrow> bm_step s s'"
| get_set: "roomy_state s \<Longrightarrow> getPage_set st i s = Inr (r, s') \<Longrightarrow> bm_step s s'"
| copy_handle: "r < nextPage s \<Longrightarrow> 0 < refCount (pages s r) \<Longrightarrow> bm_step s (upd_page r incRefCount s)"
| drop_handle: "roomy_state s \<Longrightarrow> r < nextPage s \<Longrightarrow> 0 < refCount (pages s r) \<Longrightarrow>
    decRefCount r s = Inr s' \<Longrightarrow> bm_step s s'"
| pin_page: "roomy_state s \<Longrightarrow> r < nextPage s \<Longrightarrow> 0 < refCount (pages s r) \<Longrightarrow>
    repin r s = Inr s' \<Longrightarrow> bm_step s s'"
| unpin_page: "r < nextPage s \<Longrightarrow> 0 < refCount (pages s r) \<Longrightarrow> unpin r s = Inr s' \<Longrightarrow> bm_step s s'"
| freeze_page: "r < nextPage s \<Longrightarrow> 0 < refCount (pages s r) \<Longrightarrow> getSize r s = pageSize s \<Longrightarrow>
    nb \<le> pageSize s \<Longrightarrow> freezeSize r nb s = Inr s' \<Longrightarrow> bm_step s s'"
| write_page: "r < nextPage s \<Longrightarrow> 0 < refCount (pages s r) \<Longrightarrow> pinned (pages s r) \<Longrightarrow> i < getSize r s \<Longrightarrow>
    bm_step s (store_byte r i v s)"
| disk_changes: "bm_step s (s\<lparr>ioOk := b\<rparr>)"

inductive bm_reachable :: "bm \<Rightarrow> bool" where
  start: "initialize minSz mapped opened disk tf psz np mf sl = Inr s \<Longrightarrow> 0 < minSz \<Longrightarrow> minSz \<le> psz \<Longrightarrow>
    psz < 2 ^ 32 \<Longrightarrow> bm_reachable s"
| step: "bm_reachable s \<Longrightarrow> bm_step s s' \<Longrightarrow> bm_reachable s'"

inductive_cases bm_stepE: "bm_step s s'"

text \<open>A page as large as the page size is of the largest class.\<close>

lemma getSize_full:
  assumes core: "bm_core {} s" and r: "r < nextPage s" and full: "getSize r s = pageSize s"
  shows "numBytes (location (pages s r)) = Lg s"
proof -
  note cfg = bm_coreD(1) [OF core]
  have le: "numBytes (location (pages s r)) \<le> Lg s"
    using bm_coreD(7) [OF core] r by (simp add: live_ok_def page_live_def page_wf_def)
  have "minPage s * 2 ^ numBytes (location (pages s r)) = minPage s * 2 ^ Lg s"
    using full cfg miniBytes_exact [OF cfg le] by (simp add: getSize_def slotBytes_def bm_cfg_def)
  then show ?thesis using cfg by (simp add: bm_cfg_def)
qed

lemma copy_handle_ok:
  assumes inv: "bm_inv s" and rc: "0 < refCount (pages s r)"
  shows "bm_inv (upd_page r incRefCount s)"
proof -
  have "upd_page r (\<lambda>p. p\<lparr>refCount := refCount (pages s r) + 1\<rparr>) s = upd_page r incRefCount s"
    by (simp add: upd_page_def incRefCount_def)
  then have "bm_core {} (upd_page r incRefCount s)"
    using ref_upd_ok [of s "refCount (pages s r) + 1" r] inv rc by (simp add: bm_inv_def live_def)
  then show ?thesis by (rule bm_invI [OF _ inv]) (simp_all add: same_cfg_def upd_page_def)
qed

lemma store_byte_ok:
  assumes inv: "bm_inv s" and r: "r < nextPage s"
  shows "bm_inv (store_byte r i v s)"
proof -
  have core: "bm_core {} s" using inv by (simp add: bm_inv_def)
  let ?s = "upd_page r setDirty s"
  have sc: "same_cfg s ?s" by (simp add: same_cfg_def upd_page_def)
  have pl: "page_live s r" using bm_coreD(7) [OF core] r by (auto simp: live_ok_def)
  have "page_live ?s r"
    using pl unfolding page_live_def page_wf_def same_cfg_simps [OF sc]
    by (auto simp: upd_page_def setDirty_def live_def)
  then have "bm_core {} ?s"
    by (intro page_upd_ok [OF core sc, where r = r and p = "setDirty (pages s r)"]
        maps_ok_upd [OF bm_coreD(8) [OF core] sc])
       (simp_all add: upd_page_def live_def page_key_def setDirty_def)
  then have "bm_inv ?s" by (rule bm_invI [OF _ inv sc]) (simp add: upd_page_def)
  then show ?thesis by (simp add: store_byte_def)
qed

lemma disk_changes_ok: "bm_inv s \<Longrightarrow> bm_inv (s\<lparr>ioOk := b\<rparr>)"
  using core_cong [of "{}" s "s\<lparr>ioOk := b\<rparr>"] by (simp add: bm_inv_def Lg_def)

lemma bm_step_inv: "bm_step s s' \<Longrightarrow> bm_inv s \<Longrightarrow> bm_inv s'"
proof (induction rule: bm_step.induct)
  case (get_anon s nb r s')
  then show ?case
    using getPage_bytes_ok [of s nb] by (auto simp: roomy_state_def anon_request_ok_def request_ok_def)
next
  case (get_set s st i r s')
  then show ?case using getPage_set_ok [of s st i] by (auto simp: roomy_state_def request_ok_def)
next
  case (drop_handle s r s')
  then show ?case using decRefCount_ok [of s r] by (auto simp: roomy_state_def release_ok_def)
next
  case (pin_page s r s')
  then show ?case using repin_ok [of s r] by (auto simp: roomy_state_def repinned_def request_ok_def)
next
  case (unpin_page r s s')
  then show ?case using unpin_ok [of s r] by (auto simp: live_def local_ok_def)
next
  case (freeze_page r s nb s')
  then have "numBytes (location (pages s r)) = Lg s" by (intro getSize_full) (auto simp: bm_inv_def)
  then show ?case using freeze_page freezeSize_ok [of s r nb] by (auto simp: live_def local_ok_def)
qed (simp_all add: copy_handle_ok store_byte_ok disk_changes_ok)

lemma bm_reachable_inv: "bm_reachable s \<Longrightarrow> bm_inv s"
  by (induction rule: bm_reachable.induct) (use initialize_ok bm_step_inv in blast)+

section \<open>Executions\<close>

text \<open>Rules by which the simplifier runs the model on concrete states.\<close>

named_theorems bm_exec \<open>evaluation of the buffer manager\<close>

declare class_loop_numeral [bm_exec]

lemma log_loop_numeral [bm_exec]:
  "log_loop (numeral v) cur nb acc =
     (if cur < nb then log_loop (pred_numeral v) (cur * 2 mod 2 ^ 64) nb (acc + 1) else Inr acc)"
  by (simp add: numeral_eq_Suc)

lemma offsets_from_numeral [bm_exec]:
  "offsets_from (numeral i) (numeral p) (numeral c) =
     (if (numeral p :: nat) \<le> numeral c then []
      else numeral c # offsets_from (numeral i) (numeral p) (numeral c + numeral i))"
  "offsets_from (numeral i) (numeral p) 0 = 0 # offsets_from (numeral i) (numeral p) (numeral i)"
  by (subst offsets_from.simps, simp)+

lemma upt_small [bm_exec]: "[0..<2] = [0, 1]" "[0..<4] = [0, 1, 2, 3]" "[0..<6] = [0, 1, 2, 3, 4, 5]"
  by (simp_all add: upt_rec)

lemmas bm_exec_defs [bm_exec] = initialize_def getPage_bytes_def getLogPageSize_def getEmptyMemory_def
  createAdditionalMiniPages_def split_full_page_def split_offsets_def evict_lru_def set_status_def
  drop_unused_def evict_page_def temp_position_def write_temp_def write_file_def fd_of_def
  read_into_def miniBytes_def parent_of_def take_anon_number_def new_page_def registerMiniPage_def
  pinParent_def pinFrame_def tick32_def lru_erase_def to_lru_def upd_page_def set_location_def
  PDBPage_new_def incRefCount_def setDirty_def page_key_def is_busy_def getPage_set_def checkIfOpen_def
  set_path_def getPage_create_def getPage_load_def repin_def repin_locked_def unpin_def unpin_frame_def
  assign_location_def decRefCount_def freeAnonymousPage_def isRemovalStillValid_def free_memory_def
  downToZeroReferences_def freezeSize_def clearSet_def clear_page_def map_erase_def getSize_def
  vec_at_def vec_back_def vec_find_erase_def Let_def

text \<open>
  A small storage: two pages of four bytes over a minimum page size of two, then two anonymous pages of
  two bytes.
\<close>

definition demo_start :: bm where
  "demo_start = projr (initialize 2 (Some 0) True (\<lambda>_. []) ''t'' 4 2 ''m'' ''d'')"

definition demo_one :: bm where
  "demo_one = snd (projr (getPage_bytes 2 demo_start))"

definition demo_two :: bm where
  "demo_two = snd (projr (getPage_bytes 1 demo_one))"

lemma demo_runs:
  "initialize 2 (Some 0) True (\<lambda>_. []) ''t'' 4 2 ''m'' ''d'' = Inr demo_start"
  "getPage_bytes 2 demo_start = Inr (0, demo_one)"
  "getPage_bytes 1 demo_one = Inr (1, demo_two)"
  by (simp_all add: demo_start_def demo_one_def demo_two_def bm_exec)

lemma demo_room: "roomy_state demo_start" "roomy_state demo_one" "roomy_state demo_two"
  by (simp_all add: demo_start_def demo_one_def demo_two_def bm_exec roomy_state_def tick_room_def anon_room_def)

lemma demo_reachable: "bm_reachable demo_one" "bm_reachable demo_two"
proof -
  have "bm_reachable demo_start" by (rule bm_reachable.start [OF demo_runs(1)]) simp_all
  moreover have "bm_step demo_start demo_one"
    by (rule bm_step.get_anon [OF demo_room(1) _ demo_runs(2)]) (simp add: demo_start_def bm_exec)
  ultimately show one: "bm_reachable demo_one" by (rule bm_reachable.step)
  have "bm_step demo_one demo_two"
    by (rule bm_step.get_anon [OF demo_room(2) _ demo_runs(3)]) (simp add: demo_start_def demo_one_def bm_exec)
  with one show "bm_reachable demo_two" by (rule bm_reachable.step)
qed

section \<open>What a client can rely on\<close>

lemma page_slot:
  assumes core: "bm_core X s" and r: "r < nextPage s" "r \<notin> X" "live s r" and a: "bytes (pages s r) = Some a"
  defines "f \<equiv> parent_of s a"
  shows "f \<in> frames s" and "a \<in> slots_of s f (snd (unusedMiniPages s f))"
    and "getSize r s = slotBytes s (snd (unusedMiniPages s f))" and "snd (unusedMiniPages s f) \<le> Lg s"
    and "r \<in> set (constituentPages s f)"
proof -
  note lr = live_resident [OF core r a, folded f_def]
  note cf = constituent_frame [OF core lr(1,2)]
  show "f \<in> frames s" "r \<in> set (constituentPages s f)" using lr by auto
  show "a \<in> slots_of s f (snd (unusedMiniPages s f))" using cf(5) lr(4) by simp
  show k: "snd (unusedMiniPages s f) \<le> Lg s" using cf(6) .
  show "getSize r s = slotBytes s (snd (unusedMiniPages s f))"
    using miniBytes_exact [OF bm_coreD(1) [OF core] k] cf(4) by (simp add: getSize_def)
qed

text \<open>Two live pages in RAM never share a byte.\<close>

lemma live_pages_apart:
  assumes core: "bm_core {} s" and r: "r < nextPage s" "live s r" "bytes (pages s r) = Some a"
    and q: "q < nextPage s" "live s q" "bytes (pages s q) = Some b" and ne: "r \<noteq> q"
  shows "a + getSize r s \<le> b \<or> b + getSize q s \<le> a"
proof -
  note cfg = bm_coreD(1) [OF core]
  note pr = page_slot [OF core r(1) _ r(2,3), simplified] and pq = page_slot [OF core q(1) _ q(2,3), simplified]
  let ?f = "parent_of s a" and ?g = "parent_of s b"
  show ?thesis
  proof (cases "?f = ?g")
    case False
    then show ?thesis
      using frames_apart [OF cfg pr(1) pq(1)] slot_bounds [OF cfg pr(4,2)] slot_bounds [OF cfg pq(4,2)] pr(3) pq(3)
      by linarith
  next
    case True
    have "inj_on (addr s) (set (constituentPages s ?f))"
      using bm_coreD(2) [OF core pr(1)] by (simp add: frame_ok_def distinct_map)
    then have "a \<noteq> b"
      using inj_onD [of "addr s" "set (constituentPages s ?f)" r q] ne pr(5) pq(5) True r(3) q(3)
      by (auto simp: addr_def)
    then show ?thesis using slots_apart [OF cfg pr(2)] pq(2,3) pr(3) True by auto
  qed
qed

lemma live_page_inside:
  assumes core: "bm_core {} s" and r: "r < nextPage s" "live s r" "bytes (pages s r) = Some a"
  shows "memory s \<le> a \<and> a + getSize r s \<le> memory s + pageSize s * numPages s"
proof -
  note cfg = bm_coreD(1) [OF core]
  note pr = page_slot [OF core r(1) _ r(2,3), simplified]
  obtain i where i: "i < numPages s" "parent_of s a = memory s + pageSize s * i"
    using pr(1) by (auto simp: frames_def)
  have "pageSize s * Suc i \<le> pageSize s * numPages s" using i(1) by (intro mult_le_mono2) simp
  then show ?thesis using slot_bounds [OF cfg pr(4,2)] i(2) pr(3) by simp
qed

text \<open>
  C2: in every state that a sequence of the calls of \<open>bm_step\<close> reaches (requests of at most a page and for pages of sets, copying and destroying handles, pinning, unpinning, freezing
  full-size pages, writing; not \<^verbatim>\<open>clearSet\<close>, not freezing mini-pages) the pages that have a handle and are in RAM occupy pairwise disjoint
  byte ranges of their reported size, all inside the mapped shared memory.
\<close>

theorem resident_pages_disjoint:
  assumes "bm_reachable s" and "r < nextPage s" and "q < nextPage s" and "r \<noteq> q"
    and "0 < refCount (pages s r)" and "0 < refCount (pages s q)"
    and "bytes (pages s r) = Some a" and "bytes (pages s q) = Some b"
  shows "(a + getSize r s \<le> b \<or> b + getSize q s \<le> a) \<and>
    memory s \<le> a \<and> a + getSize r s \<le> memory s + pageSize s * numPages s"
proof -
  have core: "bm_core {} s" using bm_reachable_inv [OF assms(1)] by (simp add: bm_inv_def)
  have "live s r" "live s q" using assms by (auto simp: live_def)
  then show ?thesis using live_pages_apart [OF core] live_page_inside [OF core] assms by blast
qed

lemma demo_two_pages:
  "nextPage demo_two = 2" "refCount (pages demo_two 0) = 1" "refCount (pages demo_two 1) = 1"
  "bytes (pages demo_two 0) = Some 6" "bytes (pages demo_two 1) = Some 4"
  "getSize 0 demo_two = 2" "getSize 1 demo_two = 2" "memory demo_two = 0" "pageSize demo_two = 4"
  "numPages demo_two = 2" "pinned (pages demo_two 0)"
  by (simp_all add: demo_start_def demo_one_def demo_two_def bm_exec)

theorem resident_pages_disjoint_witness:
  "bytes (pages demo_two 0) = Some 6 \<and> bytes (pages demo_two 1) = Some 4 \<and>
   (6 + getSize 0 demo_two \<le> 4 \<or> 4 + getSize 1 demo_two \<le> 6) \<and>
   memory demo_two \<le> 6 \<and> 6 + getSize 0 demo_two \<le> memory demo_two + pageSize demo_two * numPages demo_two"
  using resident_pages_disjoint [OF demo_reachable(2), of 0 1 6 4] demo_two_pages by simp

text \<open>
  C1: in every state that a sequence of the calls of \<open>bm_step\<close> reaches (requests of at most a page and for pages of sets, copying and destroying handles, pinning, unpinning, freezing
  full-size pages, writing; not \<^verbatim>\<open>clearSet\<close>, not freezing mini-pages) and in which the tick and the number of anonymous pages are within their 32-bit
  range: a request of at most a page, a request for a page of a set, pinning and freezing a full-size page return or take one of the exits of \<open>fatal_exits\<close> (no RAM left, the
  disk fails, a page that must not be frozen, the null set); unpinning and destroying a handle return. None of them has undefined
  behaviour, waits for an event nobody produces or loops for ever.
\<close>

theorem buffer_calls_safe:
  assumes "bm_reachable s" and "roomy_state s"
  shows "(nb \<le> pageSize s \<longrightarrow> holds_or_exit (\<lambda>_. True) (getPage_bytes nb s)) \<and>
    holds_or_exit (\<lambda>_. True) (getPage_set st i s) \<and>
    (r < nextPage s \<and> 0 < refCount (pages s r) \<longrightarrow>
       holds_or_exit (\<lambda>_. True) (repin r s) \<and>
       (\<exists>s'. unpin r s = Inr s') \<and> (\<exists>s'. decRefCount r s = Inr s') \<and>
       (getSize r s = pageSize s \<and> nb \<le> pageSize s \<longrightarrow> holds_or_exit (\<lambda>_. True) (freezeSize r nb s)))"
proof -
  have inv: "bm_inv s" and room: "tick_room s" "anon_room s"
    using bm_reachable_inv [OF assms(1)] assms(2) by (auto simp: roomy_state_def)
  have "holds_or_exit (\<lambda>_. True) (getPage_bytes nb s)" if "nb \<le> pageSize s"
    using getPage_bytes_ok [OF inv that room] by (rule hoe_mono) simp
  moreover have "holds_or_exit (\<lambda>_. True) (getPage_set st i s)"
    using getPage_set_ok [OF inv room(1)] by (rule hoe_mono) simp
  moreover have "holds_or_exit (\<lambda>_. True) (repin r s)" if "r < nextPage s" "0 < refCount (pages s r)"
    using repin_ok [OF inv that room(1)] by (rule hoe_mono) simp
  moreover have "\<exists>s'. unpin r s = Inr s'" if "r < nextPage s" "0 < refCount (pages s r)"
    using unpin_ok [OF inv that(1)] that(2) by (auto simp: live_def)
  moreover have "\<exists>s'. decRefCount r s = Inr s'" if "r < nextPage s" "0 < refCount (pages s r)"
    using decRefCount_ok [OF inv that room(1)] by blast
  moreover have "holds_or_exit (\<lambda>_. True) (freezeSize r nb s)"
    if "r < nextPage s" "0 < refCount (pages s r)" "getSize r s = pageSize s" "nb \<le> pageSize s"
  proof -
    have "numBytes (location (pages s r)) = Lg s"
      using inv that by (intro getSize_full) (auto simp: bm_inv_def)
    from freezeSize_ok [OF inv that(1) _ this that(4)] show ?thesis
      using that(2) by (auto simp: live_def intro: hoe_mono)
  qed
  ultimately show ?thesis by blast
qed

theorem buffer_calls_safe_witness:
  "holds_or_exit (\<lambda>_. True) (getPage_bytes 3 demo_two) \<and>
   holds_or_exit (\<lambda>_. True) (getPage_set (Some (PDBSet ''a'' ''b'')) 7 demo_two) \<and>
   (\<exists>s'. unpin 0 demo_two = Inr s') \<and> (\<exists>s'. decRefCount 0 demo_two = Inr s')"
  using buffer_calls_safe [OF demo_reachable(2) demo_room(3), of 3 "Some (PDBSet ''a'' ''b'')" 7 0]
    demo_two_pages by simp

text \<open>What a successful request leaves behind, whatever the request.\<close>

inductive bm_request :: "bm \<Rightarrow> nat \<Rightarrow> bm \<Rightarrow> bool" where
  "nb \<le> pageSize s \<Longrightarrow> getPage_bytes nb s = Inr (r, s') \<Longrightarrow> bm_request s r s'"
| "getPage_set st i s = Inr (r, s') \<Longrightarrow> bm_request s r s'"
| "r < nextPage s \<Longrightarrow> 0 < refCount (pages s r) \<Longrightarrow> repin r s = Inr s' \<Longrightarrow> bm_request s r s'"

lemma checkIfOpen_fields:
  "checkIfOpen st s = Inr s1 \<Longrightarrow> ram s1 = ram s \<and> pages s1 = pages s \<and> nextPage s1 = nextPage s \<and>
     minPage s1 = minPage s"
  by (auto simp: checkIfOpen_def Let_def split: if_splits)

lemma bm_request_ok:
  assumes rq: "bm_request s r s'" and inv: "bm_inv s" and room: "roomy_state s"
  shows "\<exists>s1. request_ok s1 (r, s') \<and> pages s1 = pages s \<and> nextPage s1 = nextPage s \<and> ram s1 = ram s \<and>
    minPage s1 = minPage s"
  using rq
proof cases
  case (1 nb)
  then show ?thesis
    using getPage_bytes_ok [OF inv 1(1)] room by (auto simp: roomy_state_def anon_request_ok_def)
next
  case (2 st i)
  from hoeD [OF getPage_set_ok [OF inv, of st i] 2] room obtain st' s1 where
    "checkIfOpen st' s = Inr s1" "request_ok s1 (r, s')" by (auto simp: roomy_state_def)
  then show ?thesis using checkIfOpen_fields by blast
next
  case 3
  then show ?thesis using repin_ok [OF inv 3(1,2)] room by (auto simp: roomy_state_def repinned_def)
qed

text \<open>
  C28: a request does not evict or overwrite a pinned page: in a state that the calls of \<open>bm_step\<close> reach, with the counters in range, when a request for another page (of at most a page, of
  a set, or the pinning of a page) returns, every
  other page that has a handle and is pinned is the same object at the same address with the same bytes. (\<^verbatim>\<open>clearSet\<close>, which is no request and no step of \<open>bm_step\<close>, does evict pinned pages.)
\<close>

theorem request_keeps_pinned_pages:
  assumes "bm_reachable s" and "roomy_state s" and "bm_request s r s'" and "q < nextPage s" and "q \<noteq> r"
    and "0 < refCount (pages s q)" and "pinned (pages s q)"
  shows "pages s' q = pages s q \<and> bytes (pages s q) \<noteq> None \<and>
    ram_region (ram s') (the (bytes (pages s q))) (getSize q s) =
    ram_region (ram s) (the (bytes (pages s q))) (getSize q s)"
proof -
  have inv: "bm_inv s" using bm_reachable_inv [OF assms(1)] .
  obtain s1 where s1: "request_ok s1 (r, s')" "pages s1 = pages s" "nextPage s1 = nextPage s" "ram s1 = ram s"
      "minPage s1 = minPage s"
    using bm_request_ok [OF assms(3) inv assms(2)] by blast
  have "page_live s q" using inv assms(4) by (auto simp: bm_inv_def bm_core_def live_ok_def)
  then obtain b where b: "bytes (pages s q) = Some b"
    using assms(6,7) by (auto simp: page_live_def live_def)
  have "page_kept (pages s q) (pages s' q)" using s1 assms(4,5) by (simp add: request_ok_def)
  then have eq: "pages s' q = pages s q" using assms(7) by (rule page_kept_simps(7))
  have core': "bm_core {} s'" and r': "r < nextPage s'" "0 < refCount (pages s' r)" "q < nextPage s'"
    using s1 assms(4) by (auto simp: request_ok_def bm_inv_def)
  have same: "ram s' x = ram s x" if x: "b \<le> x" "x < b + getSize q s'" for x
  proof (rule ccontr)
    assume "ram s' x \<noteq> ram s x"
    then have "in_page s' r x" using s1 by (simp add: request_ok_def)
    then obtain a where a: "bytes (pages s' r) = Some a" "a \<le> x" "x < a + getSize r s'"
      by (auto simp: in_page_def)
    have "a + getSize r s' \<le> b \<or> b + getSize q s' \<le> a"
      by (rule live_pages_apart [OF core' r'(1) _ a(1) r'(3)]) (use r' eq b assms in \<open>auto simp: live_def\<close>)
    then show False using x a by linarith
  qed
  have "minPage s' = minPage s" using s1 by (simp add: request_ok_def same_cfg_def)
  then have "getSize q s' = getSize q s" using eq by (simp add: getSize_def miniBytes_def)
  then show ?thesis using eq b same by (auto simp: ram_region_def)
qed

theorem request_keeps_pinned_pages_witness:
  "pages demo_two 0 = pages demo_one 0 \<and> bytes (pages demo_one 0) \<noteq> None \<and>
   ram_region (ram demo_two) (the (bytes (pages demo_one 0))) (getSize 0 demo_one) =
   ram_region (ram demo_one) (the (bytes (pages demo_one 0))) (getSize 0 demo_one)"
proof (rule request_keeps_pinned_pages [OF demo_reachable(1) demo_room(2)])
  show "bm_request demo_one 1 demo_two"
    using demo_runs(3) by (intro bm_request.intros(1) [of 1]) (simp_all add: demo_start_def demo_one_def bm_exec)
qed (simp_all add: demo_start_def demo_one_def bm_exec)

text \<open>
  A request for an anonymous page of at most a page's size that returns yields a new pinned page
  with exactly one handle, large enough for the request and of the least size class that is; no byte of
  the shared memory changes.
\<close>

theorem getPage_bytes_fits:
  assumes "bm_reachable s" and "roomy_state s" and "nb \<le> pageSize s" and "getPage_bytes nb s = Inr (r, s')"
  shows "r = nextPage s \<and> pinned (pages s' r) \<and> refCount (pages s' r) = 1 \<and> isAnon (pages s' r) \<and>
    nb \<le> getSize r s' \<and> (getSize r s' = minPage s' \<or> getSize r s' < 2 * nb) \<and> ram s' = ram s"
proof -
  have "anon_request_ok nb s (r, s')"
    using getPage_bytes_ok [OF bm_reachable_inv [OF assms(1)] assms(3)] assms(2,4)
    by (auto simp: roomy_state_def)
  then have rq: "request_ok s (r, s')" and an: "r = nextPage s" "ram s' = ram s" "isAnon (pages s' r)"
      "refCount (pages s' r) = 1" "nb \<le> slotBytes s' (numBytes (location (pages s' r)))"
      "0 < numBytes (location (pages s' r)) \<Longrightarrow> slotBytes s' (numBytes (location (pages s' r)) - 1) < nb"
    by (auto simp: anon_request_ok_def Let_def)
  have core: "bm_core {} s'" and r: "r < nextPage s'" and pin: "pinned (pages s' r)"
    using rq by (auto simp: request_ok_def bm_inv_def)
  have "numBytes (location (pages s' r)) \<le> Lg s'"
    using bm_coreD(7) [OF core] r by (simp add: live_ok_def page_live_def page_wf_def)
  then have sz: "getSize r s' = slotBytes s' (numBytes (location (pages s' r)))"
    using miniBytes_exact [OF bm_coreD(1) [OF core]] by (simp add: getSize_def)
  have "getSize r s' = minPage s' \<or> getSize r s' < 2 * nb"
    using an(6) unfolding sz slotBytes_def by (cases "numBytes (location (pages s' r))") simp_all
  then show ?thesis using an pin sz by simp
qed

theorem getPage_bytes_fits_witness:
  "getPage_bytes 1 demo_one = Inr (1, demo_two) \<and> pinned (pages demo_two 1) \<and> 1 \<le> getSize 1 demo_two"
  using getPage_bytes_fits [OF demo_reachable(1) demo_room(2) _ demo_runs(3)] demo_runs(3)
  by (simp add: demo_start_def demo_one_def bm_exec)

text \<open>
  C29: eviction is least recently used: when memory has to be freed, the full page evicted is the one
  that entered the queue first, none of its pages is pinned, and only its pages lose their memory.
\<close>

theorem evict_lru_oldest:
  assumes "bm_reachable s" and "evict_lru s = Inr s'"
  shows "\<exists>f t. (f, t) \<in> set (lastUsed s) \<and> (\<forall>g u. (g, u) \<in> set (lastUsed s) \<longrightarrow> t \<le> u) \<and>
    (\<forall>r \<in> set (constituentPages s f). \<not> pinned (pages s r) \<and> bytes (pages s' r) = None) \<and>
    (\<forall>r. r \<notin> set (constituentPages s f) \<longrightarrow> pages s' r = pages s r)"
proof -
  have core: "bm_core {} s" using bm_reachable_inv [OF assms(1)] by (simp add: bm_inv_def)
  obtain f t rest where lu: "lastUsed s = (f, t) # rest"
    using assms(2) by (auto simp: evict_lru_def split: list.splits)
  have lo: "lru_ok s" using core by (rule bm_coreD)
  have ft: "f \<in> frames s" "f \<notin> set (emptyFullPages s)" "numPinned s f = - int t" "0 < t"
    using lo lu by (auto simp: lru_ok_def)
  have least: "t \<le> u" if "(g, u) \<in> set (lastUsed s)" for g u
    using lo lu that by (auto simp: lru_ok_def)
  have unp: "\<not> pinned (pages s r)" if "r \<in> set (constituentPages s f)" for r
    using pinned_frame(3) [OF core ft(1,2) that] lu by auto
  note pg = evict_lru_pages [OF core lu assms(2)]
  show ?thesis using lu least unp pg by (intro exI [of _ f] exI [of _ t]) auto
qed

definition demo_half :: bm where
  "demo_half = projr (unpin 0 demo_two)"

definition demo_idle :: bm where
  "demo_idle = projr (unpin 1 demo_half)"

lemma demo_idle_runs: "unpin 0 demo_two = Inr demo_half" "unpin 1 demo_half = Inr demo_idle"
  by (simp_all add: demo_start_def demo_one_def demo_two_def demo_half_def demo_idle_def bm_exec)

lemma demo_half_page: "nextPage demo_half = 2" "refCount (pages demo_half 1) = 1"
  by (simp_all add: demo_start_def demo_one_def demo_two_def demo_half_def bm_exec)

lemma demo_idle_reachable: "bm_reachable demo_idle"
proof -
  have "bm_step demo_two demo_half"
    using demo_two_pages by (intro bm_step.unpin_page [OF _ _ demo_idle_runs(1)]) simp_all
  moreover have "bm_step demo_half demo_idle"
    using demo_half_page by (intro bm_step.unpin_page [OF _ _ demo_idle_runs(2)]) simp_all
  ultimately show ?thesis using demo_reachable(2) bm_reachable.step by blast
qed

lemma demo_idle_fields: "lastUsed demo_idle = [(4, 1)]" "constituentPages demo_idle 4 = [0, 1]"
  by (simp_all add: demo_start_def demo_one_def demo_two_def demo_half_def demo_idle_def bm_exec)

theorem evict_lru_oldest_witness:
  "bytes (pages (projr (evict_lru demo_idle)) 0) = None \<and> bytes (pages (projr (evict_lru demo_idle)) 1) = None"
proof -
  have "evict_lru demo_idle = Inr (projr (evict_lru demo_idle))"
    by (simp add: demo_start_def demo_one_def demo_two_def demo_half_def demo_idle_def bm_exec)
  from evict_lru_oldest [OF demo_idle_reachable this] show ?thesis
    by (auto simp: demo_idle_fields)
qed

end
