(* ===== verification/FrontEnd.thy ===== *)
theory FrontEnd
  imports BufferSystem
begin

text \<open>
  The front end of the buffer manager: the process that owns the pages and lends them to the back end
  (\<^verbatim>\<open>bufferManager/source/PDBBufferManagerFrontEnd.cc\<close>, \<^verbatim>\<open>headers/PDBBufferManagerFrontEndTemplate.cc\<close>). A
  request handler is a state transformer; whether the communicator delivers the answer is a parameter.
  A \<^verbatim>\<open>PDBPageHandle\<close> is a shared pointer to a handle object: the object counts once in the reference count
  of its page and is destroyed with its last shared pointer, so the model keeps the handle objects with
  their page and their use count.
\<close>

section \<open>State\<close>

record fe =
  mgr :: bm
  hpage :: "nat \<Rightarrow> nat"
  huse :: "nat \<Rightarrow> nat"
  nextHandle :: nat
  sentPages :: "(page_key \<times> nat) list"
  forwarding :: "page_key set"

text \<open>The message that describes a page to the back end; the offset is 64 bits wide.\<close>

record page_message =
  m_offset :: nat
  m_pageNumber :: nat
  m_isAnonymous :: bool
  m_sizeFrozen :: bool
  m_startPos :: int
  m_numBytes :: nat
  m_setName :: string
  m_dbName :: string

definition FrontEnd_new :: "bm \<Rightarrow> fe" where
  "FrontEnd_new s = \<lparr>mgr = s, hpage = (\<lambda>_. 0), huse = (\<lambda>_. 0), nextHandle = 0, sentPages = [],
     forwarding = {}\<rparr>"

definition page_offset :: "nat \<Rightarrow> bm \<Rightarrow> nat" where
  "page_offset r s =
     nat ((int (case bytes (pages s r) of None \<Rightarrow> 0 | Some a \<Rightarrow> a) - int (memory s)) mod 2 ^ 64)"

definition page_message_of :: "nat \<Rightarrow> bm \<Rightarrow> page_message" where
  "page_message_of r s =
     (let p = pages s r
      in \<lparr>m_offset = page_offset r s, m_pageNumber = pageNum p, m_isAnonymous = isAnon p,
          m_sizeFrozen = sizeFrozen p, m_startPos = startPos (location p),
          m_numBytes = numBytes (location p),
          m_setName = (if isAnon p then [] else setName (the (whichSet p))),
          m_dbName = (if isAnon p then [] else dbName (the (whichSet p)))\<rparr>)"

section \<open>Handles\<close>

text \<open>\<^verbatim>\<open>make_shared<PDBPageHandleBase>\<close>: the reference of the new object was counted by \<open>getPage\<close>.\<close>

definition make_handle :: "nat \<Rightarrow> fe \<Rightarrow> nat \<times> fe" where
  "make_handle r F =
     (nextHandle F, F\<lparr>hpage := (hpage F)(nextHandle F := r), huse := (huse F)(nextHandle F := 1),
        nextHandle := nextHandle F + 1\<rparr>)"

definition share :: "nat \<Rightarrow> fe \<Rightarrow> fe" where
  "share h F = F\<lparr>huse := (huse F)(h := huse F h + 1)\<rparr>"

definition on_mgr :: "(bm \<Rightarrow> bm result) \<Rightarrow> fe \<Rightarrow> fe result" where
  "on_mgr f F = andThen (f (mgr F)) (\<lambda>s. Inr (F\<lparr>mgr := s\<rparr>))"

text \<open>A shared pointer goes away; the last one destroys the handle object.\<close>

definition release :: "nat \<Rightarrow> fe \<Rightarrow> fe result" where
  "release h F =
     (let F1 = F\<lparr>huse := (huse F)(h := huse F h - 1)\<rparr>
      in if huse F1 h = 0 then on_mgr (decRefCount (hpage F h)) F1 else Inr F1)"

text \<open>\<^verbatim>\<open>sentPages[key] = page\<close>, which releases the handle the entry had.\<close>

definition put_sent :: "page_key \<Rightarrow> nat \<Rightarrow> fe \<Rightarrow> fe result" where
  "put_sent key h F =
     (let F1 = (share h F)\<lparr>sentPages := map_put key h (sentPages F)\<rparr>
      in case map_of (sentPages F) key of None \<Rightarrow> Inr F1 | Some h' \<Rightarrow> release h' F1)"

definition erase_sent :: "page_key \<Rightarrow> fe \<Rightarrow> fe result" where
  "erase_sent key F =
     (case map_of (sentPages F) key of
        None \<Rightarrow> Inr F
      | Some h \<Rightarrow> release h (F\<lparr>sentPages := map_erase key (sentPages F)\<rparr>))"

definition mark_dirty :: "nat \<Rightarrow> fe \<Rightarrow> fe" where
  "mark_dirty h F = F\<lparr>mgr := upd_page (hpage F h) setDirty (mgr F)\<rparr>"

section \<open>Lending a page\<close>

text \<open>\<open>sent\<close>: whether the communicator accepts the message. The result is the message and the success.\<close>

definition sendPageToBackend :: "bool \<Rightarrow> nat \<Rightarrow> fe \<Rightarrow> ((page_message \<times> bool) \<times> fe) result" where
  "sendPageToBackend sent h F =
     (let r = hpage F h; key = page_key (pages (mgr F) r); msg = page_message_of r (mgr F)
      in andThen (put_sent key h F) (\<lambda>F1.
         andThen (if sent then Inr F1 else erase_sent key F1) (\<lambda>F2. Inr ((msg, sent), F2))))"

definition handleGetPageRequest ::
  "bool \<Rightarrow> string \<Rightarrow> string \<Rightarrow> nat \<Rightarrow> fe \<Rightarrow> ((page_message \<times> bool) \<times> fe) result" where
  "handleGetPageRequest sent dbNm setNm num F =
     andThen (getPage_set (Some (make_PDBSet dbNm setNm)) num (mgr F)) (\<lambda>(r, s).
       let (h, F1) = make_handle r (F\<lparr>mgr := s\<rparr>)
       in andThen (sendPageToBackend sent h F1) (\<lambda>(res, F2).
          andThen (release h F2) (\<lambda>F3. Inr (res, F3))))"

definition handleGetAnonymousPageRequest ::
  "bool \<Rightarrow> nat \<Rightarrow> fe \<Rightarrow> ((page_message \<times> bool) \<times> fe) result" where
  "handleGetAnonymousPageRequest sent sz F =
     andThen (getPage_bytes sz (mgr F)) (\<lambda>(r, s).
       let (h, F1) = make_handle r (F\<lparr>mgr := s\<rparr>)
       in andThen (sendPageToBackend sent h F1) (\<lambda>(res, F2).
          andThen (release h F2) (\<lambda>F3. Inr (res, F3))))"

section \<open>Taking a page back\<close>

text \<open>The dirty flag of the request is not read.\<close>

definition handleReturnPageRequest ::
  "bool \<Rightarrow> string \<Rightarrow> string \<Rightarrow> nat \<Rightarrow> bool \<Rightarrow> fe \<Rightarrow> (bool \<times> fe) result" where
  "handleReturnPageRequest sent dbNm setNm num isDirty F =
     (let key = (Some (make_PDBSet dbNm setNm), num)
      in case map_of (sentPages F) key of
           None \<Rightarrow> Inr (False, F)
         | Some h \<Rightarrow>
             (let F1 = mark_dirty h F
              in andThen (if key \<notin> forwarding F1 then erase_sent key F1 else Inr F1)
                   (\<lambda>F2. Inr (sent, F2))))"

text \<open>
  For an anonymous page the iterator is used before it is compared with the end: reading the dirty bit
  through it and erasing at it are undefined when the page is unknown. The dirty bit is only read.
\<close>

definition handleReturnAnonPageRequest :: "bool \<Rightarrow> nat \<Rightarrow> bool \<Rightarrow> fe \<Rightarrow> (bool \<times> fe) result" where
  "handleReturnAnonPageRequest sent num isDirty F =
     (let key = (None, num)
      in case map_of (sentPages F) key of
           None \<Rightarrow>
             if isDirty then Inl (Undefined ''dereference of end'')
             else if key \<notin> forwarding F then Inl (Undefined ''erase of end'')
             else Inr (False, F)
         | Some h \<Rightarrow>
             andThen (if key \<notin> forwarding F then erase_sent key F else Inr F) (\<lambda>F1. Inr (sent, F1)))"

section \<open>Operations on a lent page\<close>

definition request_set :: "bool \<Rightarrow> string \<Rightarrow> string \<Rightarrow> pdb_set option" where
  "request_set isAnonymous dbNm setNm = (if isAnonymous then None else Some (make_PDBSet dbNm setNm))"

text \<open>
  The three handlers copy the handle out of the table, without testing that there is one, run the
  operation and drop the copy when they return.
\<close>

definition with_sent :: "page_key \<Rightarrow> (nat \<Rightarrow> fe \<Rightarrow> ('a \<times> fe) result) \<Rightarrow> fe \<Rightarrow> ('a \<times> fe) result" where
  "with_sent key f F =
     (case map_of (sentPages F) key of
        None \<Rightarrow> Inl (Undefined ''dereference of end'')
      | Some h \<Rightarrow>
          andThen (f h (share h F)) (\<lambda>(x, F1). andThen (release h F1) (\<lambda>F2. Inr (x, F2))))"

definition handleFreezeSizeRequest ::
  "bool \<Rightarrow> bool \<Rightarrow> string \<Rightarrow> string \<Rightarrow> nat \<Rightarrow> nat \<Rightarrow> fe \<Rightarrow> (bool \<times> fe) result" where
  "handleFreezeSizeRequest sent isAnonymous dbNm setNm num sz F =
     with_sent (request_set isAnonymous dbNm setNm, num)
       (\<lambda>h F1. andThen (on_mgr (freezeSize (hpage F1 h) sz) F1) (\<lambda>F2. Inr (sent, F2))) F"

definition handlePinPageRequest ::
  "bool \<Rightarrow> bool \<Rightarrow> string \<Rightarrow> string \<Rightarrow> nat \<Rightarrow> fe \<Rightarrow> ((nat \<times> bool) \<times> fe) result" where
  "handlePinPageRequest sent isAnonymous dbNm setNm num F =
     with_sent (request_set isAnonymous dbNm setNm, num)
       (\<lambda>h F1. andThen (on_mgr (repin (hpage F1 h)) F1) (\<lambda>F2.
          Inr ((page_offset (hpage F2 h) (mgr F2), sent), F2))) F"

definition handleUnpinPageRequest ::
  "bool \<Rightarrow> bool \<Rightarrow> string \<Rightarrow> string \<Rightarrow> nat \<Rightarrow> bool \<Rightarrow> fe \<Rightarrow> (bool \<times> fe) result" where
  "handleUnpinPageRequest sent isAnonymous dbNm setNm num isDirty F =
     with_sent (request_set isAnonymous dbNm setNm, num)
       (\<lambda>h F1. andThen (on_mgr (unpin (hpage F1 h)) (if isDirty then mark_dirty h F1 else F1))
          (\<lambda>F2. Inr (sent, F2))) F"

section \<open>Forwarding\<close>

definition initForwarding :: "nat \<Rightarrow> fe \<Rightarrow> fe result" where
  "initForwarding h F =
     (let key = page_key (pages (mgr F) (hpage F h))
      in if key \<in> forwarding F then Inl (Blocks ''cv'')
         else andThen (put_sent key h F) (\<lambda>F1. Inr (F1\<lparr>forwarding := insert key (forwarding F1)\<rparr>)))"

definition finishForwarding :: "nat \<Rightarrow> fe \<Rightarrow> fe" where
  "finishForwarding h F = F\<lparr>forwarding := forwarding F - {page_key (pages (mgr F) (hpage F h))}\<rparr>"

text \<open>
  \<open>between\<close>: the handlers that run while the front end waits for the answer; \<open>answered\<close> and \<open>understood\<close>:
  whether an answer arrives and can be read. Whatever goes wrong after \<open>initForwarding\<close> is not undone.
\<close>

definition handleForwardPage ::
  "bool \<Rightarrow> bool \<Rightarrow> bool \<Rightarrow> (fe \<Rightarrow> fe result) \<Rightarrow> nat \<Rightarrow> fe \<Rightarrow> ((page_message \<times> bool) \<times> fe) result" where
  "handleForwardPage sent answered understood between h F =
     (if \<not> pinned (pages (mgr F) (hpage F h)) then Inl (Exit ''assertion failed'')
      else andThen (initForwarding h F) (\<lambda>F1.
        let msg = page_message_of (hpage F1 h) (mgr F1)
        in if \<not> sent then Inr ((msg, False), F1)
           else andThen (between F1) (\<lambda>F2.
             if \<not> answered \<or> \<not> understood then Inr ((msg, False), F2)
             else Inr ((msg, True), finishForwarding h F2))))"

definition forwardPage ::
  "bool \<Rightarrow> bool \<Rightarrow> bool \<Rightarrow> (fe \<Rightarrow> fe result) \<Rightarrow> nat \<Rightarrow> fe \<Rightarrow> ((page_message \<times> bool) \<times> fe) result" where
  "forwardPage sent answered understood between h F = handleForwardPage sent answered understood between h F"

section \<open>Invariant\<close>

text \<open>
  The handle objects of a page, and the invariant: the reference count of a page is the number of its
  handle objects, every entry of \<^verbatim>\<open>sentPages\<close> owns a pointer to its handle and is filed under the key of
  its page. \<open>L h\<close> is the number of pointers to \<open>h\<close> the running handler holds.
\<close>

definition holders :: "fe \<Rightarrow> nat \<Rightarrow> nat set" where
  "holders F r = {h. h < nextHandle F \<and> 0 < huse F h \<and> hpage F h = r}"

definition fe_ok :: "(nat \<Rightarrow> nat) \<Rightarrow> fe \<Rightarrow> bool" where
  "fe_ok L F \<longleftrightarrow> bm_inv (mgr F) \<and> map_ok (sentPages F) \<and>
     (\<forall>h. entries_of (sentPages F) h + L h \<le> huse F h) \<and>
     (\<forall>h. 0 < huse F h \<longrightarrow> h < nextHandle F \<and> hpage F h < nextPage (mgr F)) \<and>
     (\<forall>r < nextPage (mgr F). refCount (pages (mgr F) r) = card (holders F r)) \<and>
     (\<forall>e \<in> set (sentPages F). page_key (pages (mgr F) (hpage F (snd e))) = fst e)"

abbreviation fe_inv :: "fe \<Rightarrow> bool" where
  "fe_inv \<equiv> fe_ok (\<lambda>_. 0)"

lemma finite_holders [simp]: "finite (holders F r)"
  by (simp add: holders_def)

lemma fe_okD:
  assumes "fe_ok L F"
  shows "bm_inv (mgr F)" and "map_ok (sentPages F)" and "entries_of (sentPages F) h + L h \<le> huse F h"
    and "0 < huse F h \<Longrightarrow> h < nextHandle F" and "0 < huse F h \<Longrightarrow> hpage F h < nextPage (mgr F)"
    and "r < nextPage (mgr F) \<Longrightarrow> refCount (pages (mgr F) r) = card (holders F r)"
    and "map_of (sentPages F) k = Some h \<Longrightarrow> page_key (pages (mgr F) (hpage F h)) = k"
  using assms by (auto simp: fe_ok_def dest!: map_of_SomeD)

lemma handle_counted:
  assumes "fe_ok L F" and "0 < huse F h"
  shows "hpage F h < nextPage (mgr F)" and "0 < refCount (pages (mgr F) (hpage F h))"
proof -
  have "h \<in> holders F (hpage F h)" using fe_okD(4) [OF assms] assms(2) by (simp add: holders_def)
  then show "0 < refCount (pages (mgr F) (hpage F h))"
    using fe_okD(6) [OF assms(1) fe_okD(5) [OF assms]] by (auto simp: card_gt_0_iff)
qed (rule fe_okD(5) [OF assms])

lemma sent_used:
  assumes "fe_ok L F" and "map_of (sentPages F) k = Some h"
  shows "0 < huse F h"
  using fe_okD(3) [OF assms(1), of h] entries_of_pos [OF map_of_SomeD [OF assms(2)]] by linarith

text \<open>Operations of the manager that keep the reference counts and the keys.\<close>

definition mgr_same :: "bm \<Rightarrow> bm \<Rightarrow> bool" where
  "mgr_same s s' \<longleftrightarrow> bm_inv s' \<and> nextPage s' = nextPage s \<and> lastTimeTick s' \<le> lastTimeTick s + 1 \<and>
     (\<forall>r < nextPage s. refCount (pages s' r) = refCount (pages s r) \<and>
        page_key (pages s' r) = page_key (pages s r))"

lemma fe_ok_mgr:
  assumes "fe_ok L F" and "mgr_same (mgr F) s'"
  shows "fe_ok L (F\<lparr>mgr := s'\<rparr>)"
proof -
  have "page_key (pages s' (hpage F (snd e))) = fst e" if e: "e \<in> set (sentPages F)" for e
  proof -
    have "0 < huse F (snd e)"
      using fe_okD(3) [OF assms(1), of "snd e"] entries_of_pos [of "fst e" "snd e" "sentPages F"] e by simp
    then show ?thesis using e assms by (simp add: fe_ok_def mgr_same_def)
  qed
  then show ?thesis using assms by (simp add: fe_ok_def mgr_same_def holders_def)
qed

lemma local_same: "local_ok r s s' \<Longrightarrow> mgr_same s s'"
  unfolding local_ok_def mgr_same_def by metis

lemma repinned_same: "repinned r s s' \<Longrightarrow> r < nextPage s \<Longrightarrow> mgr_same s s'"
  unfolding repinned_def request_ok_def mgr_same_def
  by (auto simp: max_absorb1 Suc_le_eq) (metis page_kept_simps(2,4))+

lemma mark_dirty_ok:
  assumes "fe_ok L F" and "0 < huse F h"
  shows "fe_ok L (mark_dirty h F)"
proof -
  let ?r = "hpage F h"
  have "bm_inv (store_byte ?r 0 v (mgr F))" for v
    by (rule store_byte_ok) (use assms in \<open>auto dest: fe_okD\<close>)
  then have "bm_inv (upd_page ?r setDirty (mgr F))" by (simp add: store_byte_def)
  then have "mgr_same (mgr F) (upd_page ?r setDirty (mgr F))"
    by (simp add: mgr_same_def upd_page_def setDirty_def)
  then show ?thesis unfolding mark_dirty_def by (rule fe_ok_mgr [OF assms(1)])
qed

section \<open>Handles come and go\<close>

lemma share_ok:
  assumes "fe_ok L F" and "0 < huse F h"
  shows "fe_ok (L(h := L h + 1)) (share h F)"
proof -
  have "holders (share h F) r = holders F r" for r
    using assms(2) by (auto simp: holders_def share_def)
  then show ?thesis using assms by (auto simp: fe_ok_def share_def le_SucI)
qed

text \<open>What a handler leaves untouched.\<close>

definition fe_frame :: "fe \<Rightarrow> fe \<Rightarrow> bool" where
  "fe_frame F F' \<longleftrightarrow> forwarding F' = forwarding F \<and> hpage F' = hpage F \<and> nextHandle F' = nextHandle F \<and>
     nextPage (mgr F') = nextPage (mgr F) \<and> lastTimeTick (mgr F') \<le> lastTimeTick (mgr F) + 1 \<and>
     (\<forall>r < nextPage (mgr F). page_key (pages (mgr F') r) = page_key (pages (mgr F) r))"

lemma release_fe_ok:
  assumes ok: "fe_ok L F" and h: "0 < L h" and room: "tick_room (mgr F)"
  shows "\<exists>F'. release h F = Inr F' \<and> fe_ok (L(h := L h - 1)) F' \<and> fe_frame F F' \<and>
    sentPages F' = sentPages F \<and> huse F' = (huse F)(h := huse F h - 1)"
proof -
  define F1 where "F1 = F\<lparr>huse := (huse F)(h := huse F h - 1)\<rparr>"
  have pos: "0 < huse F h" using fe_okD(3) [OF ok, of h] h by linarith
  note hc = handle_counted [OF ok pos]
  have hold: "holders F1 r = (if huse F h = 1 then holders F r - {h} else holders F r)" for r
    by (auto simp: holders_def F1_def)
  have cnt: "entries_of (sentPages F) x + (L(h := L h - 1)) x \<le> huse F1 x" for x
    using fe_okD(3) [OF ok, of x] h by (auto simp: F1_def)
  show ?thesis
  proof (cases "huse F h = 1")
    case False
    then have "release h F = Inr F1" using pos by (simp add: release_def F1_def)
    moreover have "fe_ok (L(h := L h - 1)) F1"
      using ok cnt hold False by (auto simp: fe_ok_def F1_def)
    ultimately show ?thesis by (simp add: fe_frame_def F1_def)
  next
    case True
    obtain s' where s': "decRefCount (hpage F h) (mgr F) = Inr s'" "release_ok (hpage F h) (mgr F) s'"
      using decRefCount_ok [OF fe_okD(1) [OF ok] hc room] by blast
    have run: "release h F = Inr (F1\<lparr>mgr := s'\<rparr>)"
      using True s' by (simp add: release_def F1_def on_mgr_def)
    have key: "page_key (pages s' r) = page_key (pages (mgr F) r)" for r
      using s'(2) unfolding release_ok_def by metis
    have "refCount (pages s' r) = card (holders F1 r)" if "r < nextPage (mgr F)" for r
      using s'(2) fe_okD(6) [OF ok that] fe_okD(4) [OF ok pos] pos True
      by (cases "r = hpage F h") (auto simp: release_ok_def hold holders_def [of F] intro!: arg_cong [where f = card])
    then have "fe_ok (L(h := L h - 1)) (F1\<lparr>mgr := s'\<rparr>)"
      using ok cnt key s'(2) by (auto simp: fe_ok_def F1_def release_ok_def holders_def split: if_splits)
    then show ?thesis using run s'(2) key by (simp add: fe_frame_def F1_def release_ok_def)
  qed
qed

lemma fe_frame_refl [simp]: "fe_frame F F"
  by (simp add: fe_frame_def)

text \<open>Storing in and erasing from the table of lent pages.\<close>

lemma put_sent_ok:
  assumes ok: "fe_ok L F" and h: "0 < huse F h" and room: "tick_room (mgr F)"
    and key: "page_key (pages (mgr F) (hpage F h)) = k"
  shows "\<exists>F'. put_sent k h F = Inr F' \<and> fe_ok L F' \<and> fe_frame F F' \<and> sentPages F' = map_put k h (sentPages F)"
proof -
  define F1 where "F1 = (share h F)\<lparr>sentPages := map_put k h (sentPages F)\<rparr>"
  define L1 where "L1 = (\<lambda>x. L x + (if map_of (sentPages F) k = Some x then 1 else 0))"
  have "holders F1 r = holders F r" for r using h by (auto simp: holders_def share_def F1_def)
  moreover have "entries_of (map_put k h (sentPages F)) x + L1 x \<le> huse F1 x" for x
    using fe_okD(3) [OF ok, of x] entries_of_put [OF fe_okD(2) [OF ok], of k h x]
    by (auto simp: F1_def share_def L1_def split: if_splits)
  ultimately have ok1: "fe_ok L1 F1"
    using ok h key set_map_put_subset [of k h "sentPages F"]
    by (auto simp: fe_ok_def F1_def share_def map_ok_put)
  have fr: "fe_frame F F1" and sp: "sentPages F1 = map_put k h (sentPages F)"
    by (simp_all add: fe_frame_def F1_def share_def)
  show ?thesis
  proof (cases "map_of (sentPages F) k")
    case None
    then show ?thesis using ok1 fr sp by (simp add: put_sent_def F1_def [symmetric] L1_def)
  next
    case (Some h')
    then have "0 < L1 h'" "tick_room (mgr F1)" using room by (simp_all add: L1_def F1_def share_def)
    from release_fe_ok [OF ok1 this] obtain F2 where F2: "release h' F1 = Inr F2"
        "fe_ok (L1(h' := L1 h' - 1)) F2" "fe_frame F1 F2" "sentPages F2 = sentPages F1" by blast
    have "L1(h' := L1 h' - 1) = L" using Some by (auto simp: L1_def)
    then show ?thesis using F2 Some fr sp
      by (auto simp: put_sent_def F1_def [symmetric] fe_frame_def F1_def share_def)
  qed
qed

lemma erase_sent_ok:
  assumes ok: "fe_ok L F" and room: "tick_room (mgr F)"
  shows "\<exists>F'. erase_sent k F = Inr F' \<and> fe_ok L F' \<and> fe_frame F F' \<and> sentPages F' = map_erase k (sentPages F)"
proof (cases "map_of (sentPages F) k")
  case None
  then have "map_erase k (sentPages F) = sentPages F"
    by (auto simp: map_erase_def map_of_eq_None_iff intro!: filter_True)
  then show ?thesis using None ok by (simp add: erase_sent_def)
next
  case (Some h)
  define F1 where "F1 = F\<lparr>sentPages := map_erase k (sentPages F)\<rparr>"
  define L1 where "L1 = L(h := L h + 1)"
  have "entries_of (map_erase k (sentPages F)) x + L1 x \<le> huse F x" for x
    using fe_okD(3) [OF ok, of x] entries_of_erase [OF fe_okD(2) [OF ok], of k x] Some
    by (auto simp: L1_def split: if_splits)
  then have ok1: "fe_ok L1 F1"
    using ok by (simp add: fe_ok_def F1_def map_ok_erase holders_def) (auto simp: map_erase_def)
  have "0 < L1 h" "tick_room (mgr F1)" using room by (simp_all add: L1_def F1_def)
  from release_fe_ok [OF ok1 this] obtain F2 where F2: "release h F1 = Inr F2"
      "fe_ok (L1(h := L1 h - 1)) F2" "fe_frame F1 F2" "sentPages F2 = sentPages F1" by blast
  then show ?thesis using Some by (simp add: erase_sent_def F1_def [symmetric] L1_def) (simp add: F1_def fe_frame_def)
qed

section \<open>Lending\<close>

text \<open>A request that the manager has served gets a handle object of its own.\<close>

definition mgr_got :: "nat \<Rightarrow> bm \<Rightarrow> bm \<Rightarrow> bool" where
  "mgr_got r s s' \<longleftrightarrow> bm_inv s' \<and> r \<le> nextPage s \<and> nextPage s' = max (nextPage s) (Suc r) \<and>
     lastTimeTick s' = lastTimeTick s \<and> pinned (pages s' r) \<and>
     refCount (pages s' r) = (if r < nextPage s then refCount (pages s r) + 1 else 1) \<and>
     (r < nextPage s \<longrightarrow> page_key (pages s' r) = page_key (pages s r)) \<and>
     (\<forall>q < nextPage s. q \<noteq> r \<longrightarrow> refCount (pages s' q) = refCount (pages s q) \<and>
        page_key (pages s' q) = page_key (pages s q))"

lemma make_handle_ok:
  assumes ok: "fe_inv F" and got: "mgr_got r (mgr F) s'"
  defines "h \<equiv> nextHandle F"
  defines "F' \<equiv> snd (make_handle r (F\<lparr>mgr := s'\<rparr>))"
  shows "fe_ok ((\<lambda>_. 0)(h := 1)) F'" and "huse F' h = 1" and "hpage F' h = r" and "mgr F' = s'"
    and "sentPages F' = sentPages F" and "forwarding F' = forwarding F"
proof -
  show F': "huse F' h = 1" "hpage F' h = r" "mgr F' = s'" "sentPages F' = sentPages F"
      "forwarding F' = forwarding F"
    by (simp_all add: F'_def make_handle_def h_def)
  have use0: "huse F h = 0" using fe_okD(4) [OF ok, of h] by (auto simp: h_def)
  then have ent: "entries_of (sentPages F) h = 0" using fe_okD(3) [OF ok, of h] by simp
  have hold: "holders F' q = (if q = r then insert h (holders F q) else holders F q)" for q
    by (auto simp: F'_def make_handle_def holders_def h_def)
  have fresh: "h \<notin> holders F q" for q using use0 by (simp add: holders_def)
  have np: "nextPage (mgr F) \<le> nextPage s'" using got by (simp add: mgr_got_def)
  have none: "holders F r = {}" if "\<not> r < nextPage (mgr F)"
    using that fe_okD(5) [OF ok] by (auto simp: holders_def)
  have ref: "refCount (pages s' q) = card (holders F' q)" if q: "q < nextPage s'" for q
  proof (cases "q = r")
    case True
    then show ?thesis using got fe_okD(6) [OF ok, of r] none fresh [of r]
      by (auto simp: hold mgr_got_def)
  next
    case False
    then have "q < nextPage (mgr F)" using q got by (auto simp: mgr_got_def)
    then show ?thesis using False got fe_okD(6) [OF ok] by (simp add: hold mgr_got_def)
  qed
  have keys: "page_key (pages s' (hpage F (snd e))) = fst e" if e: "e \<in> set (sentPages F)" for e
  proof -
    have "0 < huse F (snd e)"
      using fe_okD(3) [OF ok, of "snd e"] entries_of_pos [of "fst e" "snd e" "sentPages F"] e by simp
    then have "hpage F (snd e) < nextPage (mgr F)" by (rule fe_okD(5) [OF ok])
    then show ?thesis using e ok got by (cases "hpage F (snd e) = r") (auto simp: fe_ok_def mgr_got_def)
  qed
  have "snd e \<noteq> h" if "e \<in> set (sentPages F)" for e
    using entries_of_pos [of "fst e" "snd e" "sentPages F"] that ent by auto
  then have "page_key (pages s' (hpage F' (snd e))) = fst e" if "e \<in> set (sentPages F)" for e
    using that keys by (simp add: F'_def make_handle_def h_def)
  moreover have "0 < huse F' x \<longrightarrow> x < nextHandle F' \<and> hpage F' x < nextPage s'" for x
    using fe_okD(4,5) [OF ok, of x] np got
    by (auto simp: F'_def make_handle_def h_def mgr_got_def)
  moreover have "entries_of (sentPages F) x + ((\<lambda>_. 0)(h := 1)) x \<le> huse F' x" for x
    using fe_okD(3) [OF ok, of x] ent by (auto simp: F'_def make_handle_def h_def)
  ultimately show "fe_ok ((\<lambda>_. 0)(h := 1)) F'"
    using ok ref got by (simp add: fe_ok_def F' mgr_got_def)
qed

lemma getPage_set_got:
  assumes inv: "bm_inv s" and room: "tick_room s" and run: "getPage_set st i s = Inr (r, s')"
  shows "mgr_got r s s' \<and> page_key (pages s' r) = (st, i) \<and> \<not> isAnon (pages s' r)"
proof -
  obtain st' s1 where g: "st = Some st'" "pages s1 = pages s" "nextPage s1 = nextPage s"
      "lastTimeTick s1 = lastTimeTick s" "request_ok s1 (r, s')" "got_page st' i s r s'"
    using hoeD [OF getPage_set_ok [OF inv room] run] by auto
  have "page_kept (pages s q) (pages s' q)" if "q < nextPage s" "q \<noteq> r" for q
    using g that by (simp add: request_ok_def)
  from page_kept_simps(2,4) [OF this] show ?thesis
    using g by (auto simp: mgr_got_def request_ok_def got_page_def)
qed

lemma getPage_bytes_got:
  assumes inv: "bm_inv s" and room: "tick_room s" "anon_room s" and nb: "nb \<le> pageSize s"
    and run: "getPage_bytes nb s = Inr (r, s')"
  shows "mgr_got r s s' \<and> r = nextPage s"
proof -
  have g: "anon_request_ok nb s (r, s')" using hoeD [OF getPage_bytes_ok [OF inv nb room] run] .
  have "page_kept (pages s q) (pages s' q)" if "q < nextPage s" for q
    using g that by (simp add: anon_request_ok_def request_ok_def Let_def)
  from page_kept_simps(2,4) [OF this] show ?thesis
    using g by (auto simp: mgr_got_def anon_request_ok_def request_ok_def Let_def)
qed

text \<open>A handler advances the tick at most three times.\<close>

definition fe_room :: "fe \<Rightarrow> bool" where
  "fe_room F \<longleftrightarrow> lastTimeTick (mgr F) + 3 \<le> 2 ^ 32 \<and> anon_room (mgr F)"

lemma fe_room_tick: "fe_room F \<Longrightarrow> tick_room (mgr F)"
  by (simp add: fe_room_def tick_room_def)

text \<open>The common tail of the two handlers that lend a page.\<close>

definition lent_as :: "page_key \<Rightarrow> nat \<Rightarrow> bool \<Rightarrow> fe \<Rightarrow> fe \<Rightarrow> bool" where
  "lent_as k r sent F F' \<longleftrightarrow> fe_inv F' \<and> forwarding F' = forwarding F \<and>
     (\<forall>k'. k' \<noteq> k \<longrightarrow> map_of (sentPages F') k' = map_of (sentPages F) k') \<and>
     (if sent then \<exists>h. map_of (sentPages F') k = Some h \<and> hpage F' h = r
      else map_of (sentPages F') k = None)"

lemma sendPageToBackend_ok:
  assumes ok: "fe_ok L F" and h: "0 < huse F h" and room: "lastTimeTick (mgr F) + 2 \<le> 2 ^ 32"
  defines "k \<equiv> page_key (pages (mgr F) (hpage F h))"
  shows "\<exists>F'. sendPageToBackend sent h F = Inr ((page_message_of (hpage F h) (mgr F), sent), F') \<and>
    fe_ok L F' \<and> forwarding F' = forwarding F \<and> hpage F' = hpage F \<and>
    lastTimeTick (mgr F') \<le> lastTimeTick (mgr F) + 2 \<and>
    map_of (sentPages F') = (map_of (sentPages F))(k := (if sent then Some h else None))"
proof -
  obtain F1 where F1: "put_sent k h F = Inr F1" "fe_ok L F1" "fe_frame F F1"
      "sentPages F1 = map_put k h (sentPages F)"
    using put_sent_ok [OF ok h] room k_def by (auto simp: tick_room_def)
  have "tick_room (mgr F1)" using F1(3) room by (auto simp: fe_frame_def tick_room_def)
  from erase_sent_ok [OF F1(2) this, of k] obtain F2 where F2: "erase_sent k F1 = Inr F2" "fe_ok L F2"
      "fe_frame F1 F2" "sentPages F2 = map_erase k (sentPages F1)" by blast
  show ?thesis
  proof (cases sent)
    case True
    then show ?thesis using F1 fe_okD(2) [OF ok]
      by (simp add: sendPageToBackend_def Let_def k_def [symmetric] fe_frame_def map_of_map_put)
  next
    case False
    then show ?thesis using F1 F2 fe_okD(2) [OF ok]
      by (auto simp: sendPageToBackend_def Let_def k_def [symmetric] fe_frame_def map_of_map_put map_of_map_erase)
  qed
qed

definition lend :: "bool \<Rightarrow> nat \<times> bm \<Rightarrow> fe \<Rightarrow> ((page_message \<times> bool) \<times> fe) result" where
  "lend sent rs F = (let (h, F1) = make_handle (fst rs) (F\<lparr>mgr := snd rs\<rparr>)
     in andThen (sendPageToBackend sent h F1) (\<lambda>(res, F2).
        andThen (release h F2) (\<lambda>F3. Inr (res, F3))))"

lemma handlers_lend:
  "handleGetPageRequest sent dbNm setNm num F =
     andThen (getPage_set (Some (make_PDBSet dbNm setNm)) num (mgr F)) (\<lambda>rs. lend sent rs F)"
  "handleGetAnonymousPageRequest sent sz F = andThen (getPage_bytes sz (mgr F)) (\<lambda>rs. lend sent rs F)"
  by (simp_all add: handleGetPageRequest_def handleGetAnonymousPageRequest_def lend_def case_prod_unfold)

lemma lend_ok:
  assumes ok: "fe_inv F" and got: "mgr_got r (mgr F) s'" and room: "fe_room F"
  shows "\<exists>F'. lend sent (r, s') F = Inr ((page_message_of r s', sent), F') \<and>
    lent_as (page_key (pages s' r)) r sent F F'"
proof -
  define h where "h = nextHandle F"
  define F1 where "F1 = snd (make_handle r (F\<lparr>mgr := s'\<rparr>))"
  note mh = make_handle_ok [OF ok got, folded h_def F1_def]
  have tick: "lastTimeTick (mgr F1) + 3 \<le> 2 ^ 32" using got room by (simp add: mh mgr_got_def fe_room_def)
  obtain F2 where F2: "sendPageToBackend sent h F1 = Inr ((page_message_of r s', sent), F2)"
      "fe_ok ((\<lambda>_. 0)(h := 1)) F2" "forwarding F2 = forwarding F" "hpage F2 = hpage F1"
      "lastTimeTick (mgr F2) \<le> lastTimeTick (mgr F1) + 2"
      "map_of (sentPages F2) = (map_of (sentPages F))(page_key (pages s' r) := (if sent then Some h else None))"
    using sendPageToBackend_ok [OF mh(1), of h sent] mh tick by auto
  have "tick_room (mgr F2)" using F2(5) tick by (simp add: tick_room_def)
  from release_fe_ok [OF F2(2) _ this, of h] obtain F3 where F3: "release h F2 = Inr F3"
      "fe_ok ((\<lambda>_. 0)(h := 0)) F3" "fe_frame F2 F3" "sentPages F3 = sentPages F2" by auto
  have "(\<lambda>_. 0 :: nat)(h := 0) = (\<lambda>_. 0)" by auto
  then have "lent_as (page_key (pages s' r)) r sent F F3"
    using F2 F3 mh by (auto simp: lent_as_def fe_frame_def)
  moreover have "make_handle r (F\<lparr>mgr := s'\<rparr>) = (h, F1)" by (simp add: F1_def h_def make_handle_def)
  ultimately show ?thesis using F2 F3 by (simp add: lend_def)
qed

section \<open>Working on a lent page\<close>

lemma with_sent_ok:
  assumes ok: "fe_inv F" and room: "fe_room F" and k: "map_of (sentPages F) k = Some h"
    and f: "holds_or_exit (\<lambda>(x, F1). mgr_same (mgr F) (mgr F1) \<and> F1 = (share h F)\<lparr>mgr := mgr F1\<rparr> \<and> Q x F1)
      (f h (share h F))"
  shows "holds_or_exit (\<lambda>(x, F'). fe_inv F' \<and> sentPages F' = sentPages F \<and> forwarding F' = forwarding F \<and>
    hpage F' = hpage F \<and> (\<exists>F1. Q x F1)) (with_sent k f F)"
proof -
  have use: "0 < huse F h" by (rule sent_used [OF ok k])
  note sh = share_ok [OF ok use]
  have step: "holds_or_exit (\<lambda>(x, F'). fe_inv F' \<and> sentPages F' = sentPages F \<and> forwarding F' = forwarding F \<and>
      hpage F' = hpage F \<and> (\<exists>F1. Q x F1)) (andThen (release h F1) (\<lambda>F2. Inr (x, F2)))"
    if m: "mgr_same (mgr F) (mgr F1)" "F1 = (share h F)\<lparr>mgr := mgr F1\<rparr>" "Q x F1" for x F1
  proof -
    have "fe_ok ((\<lambda>_. 0)(h := 1)) ((share h F)\<lparr>mgr := mgr F1\<rparr>)"
      using sh fe_ok_mgr [of _ "share h F" "mgr F1"] m(1) by (simp add: share_def)
    then have ok1: "fe_ok ((\<lambda>_. 0)(h := 1)) F1" using m(2) by simp
    have "tick_room (mgr F1)" using m(1) room by (auto simp: mgr_same_def fe_room_def tick_room_def)
    from release_fe_ok [OF ok1 _ this, of h] obtain F2 where F2: "release h F1 = Inr F2"
      "fe_ok ((\<lambda>_. 0)(h := 0)) F2" "fe_frame F1 F2" "sentPages F2 = sentPages F1" by auto
    have eq: "(\<lambda>_. 0 :: nat)(h := 0) = (\<lambda>_. 0)" by auto
    have "sentPages F1 = sentPages F" "forwarding F1 = forwarding F" "hpage F1 = hpage F"
      by (subst m(2), simp add: share_def)+
    then show ?thesis using F2 m(3) unfolding eq by (auto simp: fe_frame_def)
  qed
  show ?thesis
    unfolding with_sent_def k option.case
    by (rule hoe_andThen [OF f]) (use step in auto)
qed

lemma on_mgr_hoe:
  assumes "holds_or_exit P (f (mgr F))" and "\<And>s'. P s' \<Longrightarrow> Q (F\<lparr>mgr := s'\<rparr>)"
  shows "holds_or_exit Q (on_mgr f F)"
  unfolding on_mgr_def using assms by (intro hoe_andThen [OF assms(1)]) simp

text \<open>The table of lent pages is as before.\<close>

definition still_lent :: "fe \<Rightarrow> fe \<Rightarrow> bool" where
  "still_lent F F' \<longleftrightarrow> fe_inv F' \<and> sentPages F' = sentPages F \<and> forwarding F' = forwarding F \<and> hpage F' = hpage F"

lemma handlePinPageRequest_ok:
  assumes ok: "fe_inv F" and room: "fe_room F"
    and k: "map_of (sentPages F) (request_set an dbNm setNm, num) = Some h"
  shows "holds_or_exit (\<lambda>((off, res), F'). still_lent F F' \<and> res = sent)
    (handlePinPageRequest sent an dbNm setNm num F)"
proof -
  let ?r = "hpage F h"
  note hc = handle_counted [OF ok sent_used [OF ok k]]
  have "holds_or_exit (repinned ?r (mgr F)) (repin ?r (mgr F))"
    by (rule repin_ok [OF fe_okD(1) [OF ok] hc fe_room_tick [OF room]])
  then have "holds_or_exit (\<lambda>F2. mgr_same (mgr F) (mgr F2) \<and> F2 = (share h F)\<lparr>mgr := mgr F2\<rparr>)
      (on_mgr (repin (hpage (share h F) h)) (share h F))"
    by (intro on_mgr_hoe [where P = "repinned ?r (mgr F)"]) (simp_all add: share_def repinned_same hc)
  then have "holds_or_exit (\<lambda>((off, res), F'). fe_inv F' \<and> sentPages F' = sentPages F \<and>
      forwarding F' = forwarding F \<and> hpage F' = hpage F \<and> res = sent)
      (handlePinPageRequest sent an dbNm setNm num F)"
    unfolding handlePinPageRequest_def
    by (intro hoe_mono [OF with_sent_ok [OF ok room k, where Q = "\<lambda>x _. snd x = sent"]])
       (auto intro: hoe_andThen)
  then show ?thesis by (rule hoe_mono) (auto simp: still_lent_def)
qed

lemma mark_dirty_same:
  assumes "fe_ok L F" and "0 < huse F h"
  shows "mgr_same (mgr F) (mgr (mark_dirty h F))"
  using fe_okD(1) [OF mark_dirty_ok [OF assms]]
  by (simp add: mgr_same_def mark_dirty_def upd_page_def setDirty_def)

lemma mgr_same_trans:
  "mgr_same s s1 \<Longrightarrow> lastTimeTick s1 = lastTimeTick s \<Longrightarrow> mgr_same s1 s2 \<Longrightarrow> mgr_same s s2"
  by (auto simp: mgr_same_def)

lemma handleUnpinPageRequest_ok:
  assumes ok: "fe_inv F" and room: "fe_room F"
    and k: "map_of (sentPages F) (request_set an dbNm setNm, num) = Some h"
  shows "\<exists>F'. handleUnpinPageRequest sent an dbNm setNm num d F = Inr (sent, F') \<and> still_lent F F'"
proof -
  let ?r = "hpage F h" and ?F1 = "if d then mark_dirty h (share h F) else share h F"
  note use = sent_used [OF ok k]
  note sh = share_ok [OF ok use]
  have use1: "0 < huse (share h F) h" by (simp add: share_def)
  have ok1: "fe_ok ((\<lambda>_. 0)(h := 0 + 1)) ?F1" using sh mark_dirty_ok [OF sh use1] by simp
  have r1: "hpage ?F1 = hpage F" and use2: "0 < huse ?F1 h" by (simp_all add: mark_dirty_def share_def)
  note hc = handle_counted [OF ok1 use2]
  obtain s' where s': "unpin ?r (mgr ?F1) = Inr s'" "local_ok ?r (mgr ?F1) s'"
    using unpin_ok [OF fe_okD(1) [OF ok1], of ?r] hc r1 by (auto simp: live_def)
  have same1: "mgr_same (mgr F) (mgr ?F1)"
    using mark_dirty_same [OF sh use1] fe_okD(1) [OF ok] by (simp add: share_def mgr_same_def)
  have "mgr_same (mgr F) s'"
    by (rule mgr_same_trans [OF same1 _ local_same [OF s'(2)]])
       (simp add: mark_dirty_def share_def upd_page_def)
  note same = this
  let ?F2 = "(share h F)\<lparr>mgr := s'\<rparr>"
  have hp: "hpage (share h F) h = ?r" by (simp add: share_def)
  have run: "andThen (on_mgr (unpin (hpage (share h F) h)) ?F1) (\<lambda>F2. Inr (sent, F2)) = Inr (sent, ?F2)"
    unfolding hp on_mgr_def s'(1) by (simp add: mark_dirty_def)
  have "fe_ok ((\<lambda>_. 0)(h := 1)) ?F2"
    using fe_ok_mgr [OF sh, of s'] same by (simp add: share_def)
  moreover have "tick_room (mgr ?F2)"
    using same room by (auto simp: mgr_same_def fe_room_def tick_room_def)
  ultimately obtain F3 where "release h ?F2 = Inr F3" using release_fe_ok [of _ ?F2 h] by force
  then have "handleUnpinPageRequest sent an dbNm setNm num d F = Inr (sent, F3)"
    using k by (simp add: handleUnpinPageRequest_def with_sent_def run)
  moreover have "holds_or_exit (\<lambda>(x, F'). still_lent F F') (handleUnpinPageRequest sent an dbNm setNm num d F)"
    unfolding handleUnpinPageRequest_def
    by (rule hoe_mono [OF with_sent_ok [OF ok room k, where Q = "\<lambda>_ _. True"]])
       (use run same in \<open>auto simp: still_lent_def\<close>)
  ultimately show ?thesis by simp
qed

lemma handleFreezeSizeRequest_ok:
  assumes ok: "fe_inv F" and room: "fe_room F"
    and k: "map_of (sentPages F) (request_set an dbNm setNm, num) = Some h"
    and full: "getSize (hpage F h) (mgr F) = pageSize (mgr F)" and sz: "sz \<le> pageSize (mgr F)"
  shows "holds_or_exit (\<lambda>(res, F'). still_lent F F' \<and> res = sent)
    (handleFreezeSizeRequest sent an dbNm setNm num sz F)"
proof -
  let ?r = "hpage F h"
  note hc = handle_counted [OF ok sent_used [OF ok k]]
  have "bm_core {} (mgr F)" using fe_okD(1) [OF ok] by (simp add: bm_inv_def)
  from getSize_full [OF this hc(1) full] have nb: "numBytes (location (pages (mgr F) ?r)) = Lg (mgr F)" .
  have lv: "live (mgr F) ?r" using hc(2) by (simp add: live_def)
  have "holds_or_exit (local_ok ?r (mgr F)) (freezeSize ?r sz (mgr F))"
    using freezeSize_ok [OF fe_okD(1) [OF ok] hc(1) lv nb sz] by (rule hoe_mono) simp
  then have "holds_or_exit (\<lambda>F2. mgr_same (mgr F) (mgr F2) \<and> F2 = (share h F)\<lparr>mgr := mgr F2\<rparr>)
      (on_mgr (freezeSize (hpage (share h F) h) sz) (share h F))"
    by (intro on_mgr_hoe [where P = "local_ok ?r (mgr F)"]) (simp_all add: share_def local_same)
  then have "holds_or_exit (\<lambda>(x, F2). mgr_same (mgr F) (mgr F2) \<and> F2 = (share h F)\<lparr>mgr := mgr F2\<rparr> \<and> x = sent)
     (andThen (on_mgr (freezeSize (hpage (share h F) h) sz) (share h F)) (\<lambda>F2. Inr (sent, F2)))"
    by (rule hoe_andThen) simp
  from with_sent_ok [OF ok room k, where Q = "\<lambda>x _. x = sent" and
      f = "\<lambda>h F1. andThen (on_mgr (freezeSize (hpage F1 h) sz) F1) (\<lambda>F2. Inr (sent, F2))", OF this]
  show ?thesis unfolding handleFreezeSizeRequest_def by (rule hoe_mono) (auto simp: still_lent_def)
qed

section \<open>Returning\<close>

text \<open>The entry of a returned page goes away unless the page is being forwarded.\<close>

definition returned :: "page_key \<Rightarrow> fe \<Rightarrow> fe \<Rightarrow> bool" where
  "returned k F F' \<longleftrightarrow> fe_inv F' \<and> forwarding F' = forwarding F \<and>
     map_of (sentPages F') = (if k \<in> forwarding F then map_of (sentPages F) else (map_of (sentPages F))(k := None))"

lemma erase_unless_forwarding:
  assumes ok: "fe_inv F" and room: "tick_room (mgr F)"
  shows "\<exists>F'. (if k \<notin> forwarding F then erase_sent k F else Inr F) = Inr F' \<and> returned k F F'"
  using erase_sent_ok [OF ok room, of k] ok
  by (auto simp: returned_def fe_frame_def map_of_map_erase)

lemma handleReturnPageRequest_ok:
  assumes ok: "fe_inv F" and room: "fe_room F" and k_def: "k = (Some (make_PDBSet dbNm setNm), num)"
  shows "\<exists>F' res. handleReturnPageRequest sent dbNm setNm num d F = Inr (res, F') \<and>
    (if map_of (sentPages F) k = None then F' = F \<and> \<not> res else returned k F F' \<and> res = sent)"
proof (cases "map_of (sentPages F) k")
  case None
  then show ?thesis by (simp add: handleReturnPageRequest_def k_def) blast
next
  case (Some h)
  let ?F1 = "mark_dirty h F"
  have ok1: "fe_inv ?F1" by (rule mark_dirty_ok [OF ok sent_used [OF ok Some]])
  have "tick_room (mgr ?F1)" using fe_room_tick [OF room] by (simp add: mark_dirty_def upd_page_def tick_room_def)
  from erase_unless_forwarding [OF ok1 this, of k] obtain F' where F':
    "(if k \<notin> forwarding ?F1 then erase_sent k ?F1 else Inr ?F1) = Inr F'" "returned k ?F1 F'" by blast
  have "returned k F F'" using F'(2) by (simp add: returned_def mark_dirty_def)
  then show ?thesis using Some F'(1) by (simp add: handleReturnPageRequest_def k_def [symmetric])
qed

lemma handleReturnAnonPageRequest_ok:
  assumes ok: "fe_inv F" and room: "fe_room F" and k: "map_of (sentPages F) (None, num) \<noteq> None"
  shows "\<exists>F'. handleReturnAnonPageRequest sent num d F = Inr (sent, F') \<and> returned (None, num) F F'"
  using erase_unless_forwarding [OF ok fe_room_tick [OF room], of "(None, num)"] k
  by (auto simp: handleReturnAnonPageRequest_def simp del: fun_upd_apply)

section \<open>Forwarding\<close>

lemma initForwarding_ok:
  assumes ok: "fe_inv F" and room: "tick_room (mgr F)" and h: "0 < huse F h"
    and idle: "page_key (pages (mgr F) (hpage F h)) \<notin> forwarding F"
  defines "k \<equiv> page_key (pages (mgr F) (hpage F h))"
  shows "\<exists>F'. initForwarding h F = Inr F' \<and> fe_inv F' \<and> forwarding F' = insert k (forwarding F) \<and>
    map_of (sentPages F') = (map_of (sentPages F))(k \<mapsto> h) \<and> hpage F' = hpage F"
proof -
  obtain F1 where F1: "put_sent k h F = Inr F1" "fe_inv F1" "fe_frame F F1" "sentPages F1 = map_put k h (sentPages F)"
    using put_sent_ok [OF ok h room] k_def by blast
  have "fe_inv (F1\<lparr>forwarding := insert k (forwarding F1)\<rparr>)"
    using F1(2) by (simp add: fe_ok_def holders_def)
  then show ?thesis using F1 idle fe_okD(2) [OF ok]
    by (simp add: initForwarding_def Let_def k_def [symmetric] fe_frame_def map_of_map_put)
qed

lemma finishForwarding_ok: "fe_inv F \<Longrightarrow> fe_inv (finishForwarding h F)"
  by (simp add: fe_ok_def finishForwarding_def holders_def)

section \<open>The front end as a transition system\<close>

text \<open>
  The requests of the back end, in any order and with any outcome of the communication, interleaved with
  the uses the rest of the front end makes of its own handles and with the two halves of forwarding; the disk may begin or cease to work. As in \<open>bm_step\<close>, pages of more
  than the page size are not requested, only full-size pages are frozen, and sets are not cleared: after those calls of the manager pages may share memory
  (\<open>BufferDepartures\<close>).
\<close>

inductive fe_step :: "fe \<Rightarrow> fe \<Rightarrow> bool" where
  lend_set: "fe_room F \<Longrightarrow> handleGetPageRequest sent dbNm setNm num F = Inr (x, F') \<Longrightarrow> fe_step F F'"
| lend_anon: "fe_room F \<Longrightarrow> sz \<le> pageSize (mgr F) \<Longrightarrow>
    handleGetAnonymousPageRequest sent sz F = Inr (x, F') \<Longrightarrow> fe_step F F'"
| return_set: "fe_room F \<Longrightarrow> handleReturnPageRequest sent dbNm setNm num d F = Inr (res, F') \<Longrightarrow> fe_step F F'"
| return_anon: "fe_room F \<Longrightarrow> handleReturnAnonPageRequest sent num d F = Inr (res, F') \<Longrightarrow> fe_step F F'"
| pin: "fe_room F \<Longrightarrow> handlePinPageRequest sent an dbNm setNm num F = Inr (x, F') \<Longrightarrow> fe_step F F'"
| unpin: "fe_room F \<Longrightarrow> handleUnpinPageRequest sent an dbNm setNm num d F = Inr (res, F') \<Longrightarrow> fe_step F F'"
| freeze: "fe_room F \<Longrightarrow> map_of (sentPages F) (request_set an dbNm setNm, num) = Some h \<Longrightarrow>
    getSize (hpage F h) (mgr F) = pageSize (mgr F) \<Longrightarrow> sz \<le> pageSize (mgr F) \<Longrightarrow>
    handleFreezeSizeRequest sent an dbNm setNm num sz F = Inr (res, F') \<Longrightarrow> fe_step F F'"
| forward_start: "fe_room F \<Longrightarrow> 0 < huse F h \<Longrightarrow> initForwarding h F = Inr F' \<Longrightarrow> fe_step F F'"
| forward_finish: "fe_step F (finishForwarding h F)"
| own_set: "fe_room F \<Longrightarrow> getPage_set st i (mgr F) = Inr (r, s') \<Longrightarrow>
    fe_step F (snd (make_handle r (F\<lparr>mgr := s'\<rparr>)))"
| own_anon: "fe_room F \<Longrightarrow> sz \<le> pageSize (mgr F) \<Longrightarrow> getPage_bytes sz (mgr F) = Inr (r, s') \<Longrightarrow>
    fe_step F (snd (make_handle r (F\<lparr>mgr := s'\<rparr>)))"
| own_copy: "0 < huse F h \<Longrightarrow> fe_step F (share h F)"
| own_drop: "fe_room F \<Longrightarrow> entries_of (sentPages F) h < huse F h \<Longrightarrow> release h F = Inr F' \<Longrightarrow> fe_step F F'"
| own_pin: "fe_room F \<Longrightarrow> 0 < huse F h \<Longrightarrow> on_mgr (repin (hpage F h)) F = Inr F' \<Longrightarrow> fe_step F F'"
| own_unpin: "0 < huse F h \<Longrightarrow> on_mgr (BufferManager.unpin (hpage F h)) F = Inr F' \<Longrightarrow> fe_step F F'"
| own_freeze: "0 < huse F h \<Longrightarrow> getSize (hpage F h) (mgr F) = pageSize (mgr F) \<Longrightarrow> sz \<le> pageSize (mgr F) \<Longrightarrow>
    on_mgr (freezeSize (hpage F h) sz) F = Inr F' \<Longrightarrow> fe_step F F'"
| disk: "fe_step F (F\<lparr>mgr := (mgr F)\<lparr>ioOk := b\<rparr>\<rparr>)"
| own_write: "0 < huse F h \<Longrightarrow> fe_step F (F\<lparr>mgr := store_byte (hpage F h) i v (mgr F)\<rparr>)"

inductive fe_reachable :: "fe \<Rightarrow> bool" where
  start: "initialize minSz mapped opened disk tf psz np mf sl = Inr s \<Longrightarrow> 0 < minSz \<Longrightarrow> minSz \<le> psz \<Longrightarrow>
    psz < 2 ^ 32 \<Longrightarrow> fe_reachable (FrontEnd_new s)"
| step: "fe_reachable F \<Longrightarrow> fe_step F F' \<Longrightarrow> fe_reachable F'"

inductive_cases fe_stepE: "fe_step F F'"

lemma fe_ok_weaken: "fe_ok L F \<Longrightarrow> fe_inv F"
  unfolding fe_ok_def by (auto dest: add_leD1)

lemma fe_ok_borrow:
  assumes "fe_inv F" and "entries_of (sentPages F) h < huse F h"
  shows "fe_ok ((\<lambda>_. 0)(h := 1)) F"
  using assms by (auto simp: fe_ok_def)

lemma on_mgr_same:
  assumes "fe_inv F" and "on_mgr f F = Inr F'" and "\<And>s'. f (mgr F) = Inr s' \<Longrightarrow> mgr_same (mgr F) s'"
  shows "fe_inv F'"
proof -
  obtain s' where "f (mgr F) = Inr s'" "F' = F\<lparr>mgr := s'\<rparr>"
    using assms(2) by (cases "f (mgr F)") (auto simp: on_mgr_def)
  then show ?thesis using fe_ok_mgr [OF assms(1)] assms(3) by simp
qed

lemma lend_run:
  assumes ok: "fe_inv F" and room: "fe_room F"
    and run: "andThen m (\<lambda>rs. lend sent rs F) = Inr (x, F')"
    and got: "\<And>r s'. m = Inr (r, s') \<Longrightarrow> mgr_got r (mgr F) s'"
  shows "\<exists>r s'. m = Inr (r, s') \<and> x = (page_message_of r s', sent) \<and>
    lent_as (page_key (pages s' r)) r sent F F'"
proof -
  obtain r s' where m: "m = Inr (r, s')" using run by (cases m) auto
  from lend_ok [OF ok got [OF m] room, of sent] obtain F2 where
    "lend sent (r, s') F = Inr ((page_message_of r s', sent), F2)" "lent_as (page_key (pages s' r)) r sent F F2"
    by blast
  then show ?thesis using m run by auto
qed

lemma lend_set_run:
  assumes "fe_inv F" and "fe_room F" and "handleGetPageRequest sent dbNm setNm num F = Inr (x, F')"
  shows "\<exists>r s'. getPage_set (Some (make_PDBSet dbNm setNm)) num (mgr F) = Inr (r, s') \<and>
    x = (page_message_of r s', sent) \<and> lent_as (page_key (pages s' r)) r sent F F'"
  using lend_run [OF assms(1,2) assms(3) [unfolded handlers_lend]] getPage_set_got
    fe_okD(1) [OF assms(1)] fe_room_tick [OF assms(2)] by blast

lemma lend_anon_run:
  assumes "fe_inv F" and "fe_room F" and "sz \<le> pageSize (mgr F)"
    and "handleGetAnonymousPageRequest sent sz F = Inr (x, F')"
  shows "\<exists>r s'. getPage_bytes sz (mgr F) = Inr (r, s') \<and>
    x = (page_message_of r s', sent) \<and> lent_as (page_key (pages s' r)) r sent F F'"
  using lend_run [OF assms(1,2) assms(4) [unfolded handlers_lend]] getPage_bytes_got assms(3)
    fe_okD(1) [OF assms(1)] fe_room_tick [OF assms(2)] assms(2) unfolding fe_room_def by blast

lemma initForwarding_use:
  assumes ok: "fe_inv F" and room: "fe_room F" and h: "0 < huse F h" and run: "initForwarding h F = Inr F'"
  shows "fe_inv F'"
proof -
  have "page_key (pages (mgr F) (hpage F h)) \<notin> forwarding F"
    using run by (auto simp: initForwarding_def)
  from initForwarding_ok [OF ok fe_room_tick [OF room] h this] show ?thesis using run by auto
qed

lemma fe_step_inv: "fe_step F F' \<Longrightarrow> fe_inv F \<Longrightarrow> fe_inv F'"
proof (induction rule: fe_step.induct)
  case (lend_set F sent dbNm setNm num x F')
  from lend_set_run [OF lend_set(3,1,2)] show ?case unfolding lent_as_def by blast
next
  case (lend_anon F sz sent x F')
  from lend_anon_run [OF lend_anon(4,1,2,3)] show ?case unfolding lent_as_def by blast
next
  case (return_set F sent dbNm setNm num d res F')
  from handleReturnPageRequest_ok [OF return_set(3,1) refl, of sent dbNm setNm num d] show ?case
    using return_set by (auto simp: returned_def split: if_splits)
next
  case (return_anon F sent num d res F')
  then have "map_of (sentPages F) (None, num) = None \<Longrightarrow> F' = F"
    by (auto simp: handleReturnAnonPageRequest_def split: if_splits)
  then show ?case using return_anon handleReturnAnonPageRequest_ok [of F num sent d] by (auto simp: returned_def)
next
  case (pin F sent an dbNm setNm num x F')
  then obtain h where "map_of (sentPages F) (request_set an dbNm setNm, num) = Some h"
    by (auto simp: handlePinPageRequest_def with_sent_def split: option.splits)
  from handlePinPageRequest_ok [OF pin(3,1) this, of sent] show ?case using pin by (auto simp: still_lent_def)
next
  case (unpin F sent an dbNm setNm num d res F')
  then obtain h where "map_of (sentPages F) (request_set an dbNm setNm, num) = Some h"
    by (auto simp: handleUnpinPageRequest_def with_sent_def split: option.splits)
  from handleUnpinPageRequest_ok [OF unpin(3,1) this, of sent d] show ?case
    using unpin by (auto simp: still_lent_def)
next
  case (freeze F an dbNm setNm num h sz sent res F')
  from handleFreezeSizeRequest_ok [OF freeze(6,1-4), of sent] show ?case
    using freeze(5) by (auto simp: still_lent_def)
next
  case (own_set F st i r s')
  then have "mgr_got r (mgr F) s'" using getPage_set_got fe_okD(1) fe_room_tick by blast
  then show ?case using make_handle_ok(1) [OF own_set(3)] fe_ok_weaken by blast
next
  case (own_anon F sz r s')
  then have "mgr_got r (mgr F) s'" using getPage_bytes_got fe_okD(1) fe_room_tick fe_room_def by blast
  then show ?case using make_handle_ok(1) [OF own_anon(4)] fe_ok_weaken by blast
next
  case (own_copy F h)
  then show ?case using share_ok fe_ok_weaken by blast
next
  case (own_drop F h F')
  from release_fe_ok [OF fe_ok_borrow [OF own_drop(4,2)] _ fe_room_tick [OF own_drop(1)], of h]
  show ?case using own_drop(3) fe_ok_weaken by auto
next
  case (own_pin F h F')
  note hc = handle_counted [OF own_pin(4,2)]
  show ?case
    using hoeD [OF repin_ok [OF fe_okD(1) [OF own_pin(4)] hc fe_room_tick [OF own_pin(1)]]] repinned_same hc(1)
    by (intro on_mgr_same [OF own_pin(4,3)]) blast
next
  case (own_unpin F h F')
  note hc = handle_counted [OF own_unpin(3,1)]
  show ?case
    using unpin_ok [OF fe_okD(1) [OF own_unpin(3)] hc(1)] hc(2) local_same
    by (intro on_mgr_same [OF own_unpin(3,2)]) (force simp: live_def)
next
  case (own_freeze F h sz F')
  note hc = handle_counted [OF own_freeze(5,1)]
  have "bm_core {} (mgr F)" using fe_okD(1) [OF own_freeze(5)] by (simp add: bm_inv_def)
  note nb = getSize_full [OF this hc(1) own_freeze(2)]
  show ?case
    using hoeD [OF freezeSize_ok [OF fe_okD(1) [OF own_freeze(5)] hc(1) _ nb own_freeze(3)]] hc(2) local_same
    by (intro on_mgr_same [OF own_freeze(5,4)]) (force simp: live_def)
next
  case (disk F b)
  have "mgr_same (mgr F) ((mgr F)\<lparr>ioOk := b\<rparr>)" using disk_changes_ok [OF fe_okD(1) [OF disk]] by (simp add: mgr_same_def)
  then show ?case by (rule fe_ok_mgr [OF disk])
next
  case (own_write F h i v)
  have "mgr_same (mgr F) (store_byte (hpage F h) i v (mgr F))"
    using store_byte_ok [OF fe_okD(1) [OF own_write(2)] handle_counted(1) [OF own_write(2,1)]]
    by (simp add: mgr_same_def) (simp add: store_byte_def upd_page_def setDirty_def)
  then show ?case by (rule fe_ok_mgr [OF own_write(2)])
qed (simp_all add: initForwarding_use finishForwarding_ok)

lemma FrontEnd_new_ok:
  assumes "bm_inv s" and "nextPage s = 0"
  shows "fe_inv (FrontEnd_new s)"
  using assms by (simp add: fe_ok_def FrontEnd_new_def entries_of_def)

lemma fe_reachable_inv: "fe_reachable F \<Longrightarrow> fe_inv F"
proof (induction rule: fe_reachable.induct)
  case (start minSz mapped opened disk tf psz np mf sl s)
  have "nextPage s = 0" using start(1) by (auto simp: initialize_def andThen_Inr_iff split: if_splits option.splits)
  then show ?case using initialize_ok start FrontEnd_new_ok by blast
qed (rule fe_step_inv)

end
