(* ===== verification/FrontEndSystem.thy ===== *)
theory FrontEndSystem
  imports FrontEnd
begin

text \<open>
  What the back end can rely on when it borrows pages, and where the handlers of the front end depart from
  what their comments say.
\<close>

section \<open>Executions\<close>

definition fe_start :: fe where
  "fe_start = FrontEnd_new demo_start"

definition fe_lent :: fe where
  "fe_lent = snd (projr (handleGetAnonymousPageRequest True 2 fe_start))"

definition fe_both :: fe where
  "fe_both = snd (projr (handleGetPageRequest True ''db'' ''st'' 3 fe_lent))"

lemmas fe_exec_defs [bm_exec] = FrontEnd_new_def handleGetPageRequest_def handleGetAnonymousPageRequest_def
  sendPageToBackend_def make_handle_def share_def release_def on_mgr_def put_sent_def erase_sent_def
  page_message_of_def page_offset_def mark_dirty_def with_sent_def request_set_def make_PDBSet_def
  getPage_set_def checkIfOpen_def getPage_create_def set_path_def decRefCount_def

lemma fe_lent_run:
  "handleGetAnonymousPageRequest True 2 fe_start =
     Inr ((\<lparr>m_offset = 6, m_pageNumber = 1, m_isAnonymous = True, m_sizeFrozen = False, m_startPos = -1,
            m_numBytes = 0, m_setName = [], m_dbName = []\<rparr>, True), fe_lent)"
  by (simp add: fe_lent_def fe_start_def demo_start_def bm_exec)

lemma fe_both_run:
  "handleGetPageRequest True ''db'' ''st'' 3 fe_lent =
     Inr ((\<lparr>m_offset = 0, m_pageNumber = 3, m_isAnonymous = False, m_sizeFrozen = False, m_startPos = 3,
            m_numBytes = 1, m_setName = ''st'', m_dbName = ''db''\<rparr>, True), fe_both)"
  by (simp add: fe_both_def fe_lent_def fe_start_def demo_start_def bm_exec)

lemma fe_demo_room: "fe_room fe_start" "fe_room fe_lent" "fe_room fe_both"
  by (simp_all add: fe_both_def fe_lent_def fe_start_def demo_start_def bm_exec fe_room_def anon_room_def)

lemma fe_demo_reachable: "fe_reachable fe_start" "fe_reachable fe_lent" "fe_reachable fe_both"
proof -
  show start: "fe_reachable fe_start"
    unfolding fe_start_def by (rule fe_reachable.start [OF demo_runs(1)]) simp_all
  have "fe_step fe_start fe_lent"
    by (rule fe_step.lend_anon [OF fe_demo_room(1) _ fe_lent_run])
       (simp add: fe_start_def demo_start_def bm_exec)
  with start show lent: "fe_reachable fe_lent" by (rule fe_reachable.step)
  from lent fe_step.lend_set [OF fe_demo_room(2) fe_both_run] show "fe_reachable fe_both"
    by (rule fe_reachable.step)
qed

lemma fe_both_fields:
  "sentPages fe_both = [((None, 1), 0), ((Some (PDBSet ''st'' ''db''), 3), 1)]"
  "hpage fe_both 0 = 0" "hpage fe_both 1 = 1" "forwarding fe_both = {}"
  "bytes (pages (mgr fe_both) 0) = Some 6" "bytes (pages (mgr fe_both) 1) = Some 0"
  "pinned (pages (mgr fe_both) 1)" "memory (mgr fe_both) = 0" "pageSize (mgr fe_both) = 4"
  by (simp_all add: fe_both_def fe_lent_def fe_start_def demo_start_def bm_exec)

section \<open>What the back end can rely on\<close>

text \<open>
  C4: in every state that the steps of \<open>fe_step\<close> reach (requests for pages of sets and for at most a page, returns, pinning, unpinning, freezing of full-size pages, by the back end and by the
  front end itself, both halves of forwarding, lost answers; no request is oversized, no mini-page is frozen and no set is cleared), each entry of \<^verbatim>\<open>sentPages\<close> refers to the page with
  its key and that page has a reference, so it is neither freed nor given to anybody else; if it is
  pinned it is in RAM; and two lent pages that are in RAM never share a byte.
\<close>

theorem lent_pages_protected:
  assumes "fe_reachable F" and "map_of (sentPages F) k = Some h"
    and "map_of (sentPages F) l = Some g" and "k \<noteq> l"
  shows "page_key (pages (mgr F) (hpage F h)) = k \<and> 0 < refCount (pages (mgr F) (hpage F h)) \<and>
    (pinned (pages (mgr F) (hpage F h)) \<longrightarrow> bytes (pages (mgr F) (hpage F h)) \<noteq> None) \<and>
    (\<forall>a b. bytes (pages (mgr F) (hpage F h)) = Some a \<and> bytes (pages (mgr F) (hpage F g)) = Some b \<longrightarrow>
       a + getSize (hpage F h) (mgr F) \<le> b \<or> b + getSize (hpage F g) (mgr F) \<le> a)"
proof -
  note inv = fe_reachable_inv [OF assms(1)]
  have core: "bm_core {} (mgr F)" using fe_okD(1) [OF inv] by (simp add: bm_inv_def)
  note h = handle_counted [OF inv sent_used [OF inv assms(2)]]
  note g = handle_counted [OF inv sent_used [OF inv assms(3)]]
  note keys = fe_okD(7) [OF inv assms(2)] fe_okD(7) [OF inv assms(3)]
  then have ne: "hpage F h \<noteq> hpage F g" using assms(4) by metis
  have lv: "live (mgr F) (hpage F h)" "live (mgr F) (hpage F g)" using h(2) g(2) by (auto simp: live_def)
  have "page_live (mgr F) (hpage F h)" using bm_coreD(7) [OF core] h(1) by (auto simp: live_ok_def)
  then show ?thesis
    using keys h live_pages_apart [OF core h(1) lv(1) _ g(1) lv(2) _ ne] lv by (auto simp: page_live_def)
qed

theorem lent_pages_protected_witness:
  "page_key (pages (mgr fe_both) 0) = (None, 1) \<and> 0 < refCount (pages (mgr fe_both) 0) \<and>
   (6 + getSize 0 (mgr fe_both) \<le> 0 \<or> 0 + getSize 1 (mgr fe_both) \<le> 6)"
  using lent_pages_protected [OF fe_demo_reachable(3), of "(None, 1)" 0 "(Some (PDBSet ''st'' ''db''), 3)" 1]
    fe_both_fields by simp

text \<open>
  C30: in every state that the steps of \<open>fe_step\<close> reach, with the tick and the number of anonymous pages within their 32-bit range, the handlers for the requests of the back end that get a page of a set, get an
  anonymous page of at most the page size, give back a page of a set or a lent anonymous one, pin or unpin a lent page and freeze a lent full-size one have no undefined
  behaviour, do not block and do not diverge: getting, pinning and freezing
  return or take an exit of \<open>fatal_exits\<close>; unpinning and giving back return.
  Giving back a page of a set that was not lent is answered with a failure and changes nothing. (Forwarding a page, which the front end starts itself, can block: \<open>failed_forward_blocks\<close>.)
\<close>

theorem front_end_handlers_safe:
  assumes "fe_reachable F" and "fe_room F"
  shows "holds_or_exit (\<lambda>_. True) (handleGetPageRequest sent dbNm setNm num F) \<and>
    (sz \<le> pageSize (mgr F) \<longrightarrow> holds_or_exit (\<lambda>_. True) (handleGetAnonymousPageRequest sent sz F)) \<and>
    (\<exists>x. handleReturnPageRequest sent dbNm setNm num d F = Inr x \<and>
       (map_of (sentPages F) (Some (make_PDBSet dbNm setNm), num) = None \<longrightarrow> x = (False, F))) \<and>
    (map_of (sentPages F) (None, num) \<noteq> None \<longrightarrow>
       (\<exists>x. handleReturnAnonPageRequest sent num d F = Inr x)) \<and>
    (map_of (sentPages F) (request_set an dbNm setNm, num) \<noteq> None \<longrightarrow>
       holds_or_exit (\<lambda>_. True) (handlePinPageRequest sent an dbNm setNm num F) \<and>
       (\<exists>x. handleUnpinPageRequest sent an dbNm setNm num d F = Inr x) \<and>
       (getSize (hpage F (the (map_of (sentPages F) (request_set an dbNm setNm, num)))) (mgr F) = pageSize (mgr F) \<and>
          sz \<le> pageSize (mgr F) \<longrightarrow>
          holds_or_exit (\<lambda>_. True) (handleFreezeSizeRequest sent an dbNm setNm num sz F)))"
proof -
  note inv = fe_reachable_inv [OF assms(1)]
  note bi = fe_okD(1) [OF inv] and tr = fe_room_tick [OF assms(2)]
  have lend: "holds_or_exit (\<lambda>_. True) (andThen m (\<lambda>rs. lend sent rs F))"
    if "holds_or_exit (\<lambda>_. True) m" and "\<And>r s'. m = Inr (r, s') \<Longrightarrow> mgr_got r (mgr F) s'" for m
  proof (cases m)
    case (Inl e)
    then show ?thesis using that(1) by (simp add: holds_or_exit_def)
  next
    case (Inr rs)
    then show ?thesis using lend_ok [OF inv that(2) assms(2), of "fst rs" "snd rs" sent] by auto
  qed
  have "holds_or_exit (\<lambda>_. True) (handleGetPageRequest sent dbNm setNm num F)"
    unfolding handlers_lend
    by (rule lend [OF hoe_mono [OF getPage_set_ok [OF bi tr]]]) (auto dest: getPage_set_got [OF bi tr])
  moreover have "holds_or_exit (\<lambda>_. True) (handleGetAnonymousPageRequest sent sz F)" if "sz \<le> pageSize (mgr F)"
    unfolding handlers_lend using assms(2) that
    by (intro lend [OF hoe_mono [OF getPage_bytes_ok [OF bi that tr]]]) (auto simp: fe_room_def dest: getPage_bytes_got [OF bi tr])
  moreover have "\<exists>x. handleReturnPageRequest sent dbNm setNm num d F = Inr x \<and>
       (map_of (sentPages F) (Some (make_PDBSet dbNm setNm), num) = None \<longrightarrow> x = (False, F))"
    using handleReturnPageRequest_ok [OF inv assms(2) refl, of sent dbNm setNm num d] by auto
  moreover have "\<exists>x. handleReturnAnonPageRequest sent num d F = Inr x" if "map_of (sentPages F) (None, num) \<noteq> None"
    using handleReturnAnonPageRequest_ok [OF inv assms(2) that] by blast
  moreover {
    fix h assume k: "map_of (sentPages F) (request_set an dbNm setNm, num) = Some h"
    have "holds_or_exit (\<lambda>_. True) (handlePinPageRequest sent an dbNm setNm num F)"
      using handlePinPageRequest_ok [OF inv assms(2) k] by (rule hoe_mono) simp
    moreover have "\<exists>x. handleUnpinPageRequest sent an dbNm setNm num d F = Inr x"
      using handleUnpinPageRequest_ok [OF inv assms(2) k] by blast
    moreover have "holds_or_exit (\<lambda>_. True) (handleFreezeSizeRequest sent an dbNm setNm num sz F)"
      if "getSize (hpage F h) (mgr F) = pageSize (mgr F)" "sz \<le> pageSize (mgr F)"
      using handleFreezeSizeRequest_ok [OF inv assms(2) k that] by (rule hoe_mono) simp
    ultimately have "holds_or_exit (\<lambda>_. True) (handlePinPageRequest sent an dbNm setNm num F) \<and>
       (\<exists>x. handleUnpinPageRequest sent an dbNm setNm num d F = Inr x) \<and>
       (getSize (hpage F h) (mgr F) = pageSize (mgr F) \<and> sz \<le> pageSize (mgr F) \<longrightarrow>
          holds_or_exit (\<lambda>_. True) (handleFreezeSizeRequest sent an dbNm setNm num sz F))" by blast
  }
  ultimately show ?thesis by force
qed

theorem front_end_handlers_safe_witness:
  "(\<exists>x. handleReturnAnonPageRequest True 1 True fe_both = Inr x) \<and>
   (\<exists>x. handleUnpinPageRequest True False ''db'' ''st'' 3 True fe_both = Inr x) \<and>
   holds_or_exit (\<lambda>_. True) (handlePinPageRequest True False ''db'' ''st'' 3 fe_both)"
  using front_end_handlers_safe [OF fe_demo_reachable(3) fe_demo_room(3), of True "''db''" "''st''" 1 2 True True]
    front_end_handlers_safe [OF fe_demo_reachable(3) fe_demo_room(3), of True "''db''" "''st''" 3 2 True False]
    fe_both_fields by (simp add: request_set_def make_PDBSet_def)

text \<open>The page of a set that was requested is in the shared memory, so its offset does not wrap around.\<close>

lemma set_page_address:
  assumes inv: "fe_inv F" and room: "fe_room F"
    and sz: "memory (mgr F) + pageSize (mgr F) * numPages (mgr F) \<le> 2 ^ 64"
    and run: "getPage_set (Some (make_PDBSet dbNm setNm)) num (mgr F) = Inr (r, s')"
  shows "memory s' = memory (mgr F)" and "bytes (pages s' r) = Some (memory (mgr F) + page_offset r s')"
    and "memory (mgr F) + page_offset r s' < 2 ^ 64"
proof -
  have got: "mgr_got r (mgr F) s'"
    using getPage_set_got [OF fe_okD(1) [OF inv] fe_room_tick [OF room] run] by simp
  obtain st1 s1 where o: "checkIfOpen st1 (mgr F) = Inr s1" "request_ok s1 (r, s')"
    using hoeD [OF getPage_set_ok [OF fe_okD(1) [OF inv] fe_room_tick [OF room]] run] by auto
  then show geo: "memory s' = memory (mgr F)"
    by (auto simp: request_ok_def same_cfg_def checkIfOpen_def Let_def split: if_splits)
  from o have geo': "pageSize s' = pageSize (mgr F)" "numPages s' = numPages (mgr F)"
    by (auto simp: request_ok_def same_cfg_def checkIfOpen_def Let_def split: if_splits)
  have core: "bm_core {} s'" and r: "r < nextPage s'" and lv: "live s' r" and pin: "pinned (pages s' r)"
    using got by (auto simp: mgr_got_def bm_inv_def live_def)
  then obtain a where a: "bytes (pages s' r) = Some a"
    using bm_coreD(7) [OF core] by (fastforce simp: live_ok_def page_live_def)
  have "0 < getSize r s'"
    using page_slot(3) [OF core r _ lv a] slotBytes_pos [OF bm_coreD(1) [OF core]] by simp
  then have "memory s' \<le> a" "a < 2 ^ 64"
    using live_page_inside [OF core r lv a] sz by (auto simp: geo geo')
  then show "bytes (pages s' r) = Some (memory (mgr F) + page_offset r s')"
      "memory (mgr F) + page_offset r s' < 2 ^ 64"
    by (simp_all add: page_offset_def a geo [symmetric])
qed

text \<open>
  The answer to a request for a page of a set describes the page that was asked for: its number and
  names are those of the request, and the offset it carries, added to the start of the shared memory, is
  the address of that page, which is pinned. When the answer was delivered the page is lent under its
  key, otherwise no entry for the key remains; the other entries are as before.
\<close>

theorem lent_page_described:
  assumes "fe_reachable F" and "fe_room F" and "memory (mgr F) + pageSize (mgr F) * numPages (mgr F) \<le> 2 ^ 64"
    and "handleGetPageRequest sent dbNm setNm num F = Inr ((msg, ok), F')"
  defines "k \<equiv> (Some (make_PDBSet dbNm setNm), num)"
  shows "ok = sent \<and> m_pageNumber msg = num \<and>
    (\<exists>r s'. getPage_set (Some (make_PDBSet dbNm setNm)) num (mgr F) = Inr (r, s') \<and> pinned (pages s' r) \<and>
       bytes (pages s' r) = Some (memory s' + m_offset msg) \<and>
       \<not> m_isAnonymous msg \<and> m_setName msg = setNm \<and> m_dbName msg = dbNm \<and>
       (if sent then \<exists>h. map_of (sentPages F') k = Some h \<and> hpage F' h = r
        else map_of (sentPages F') k = None)) \<and>
    (\<forall>l. l \<noteq> k \<longrightarrow> map_of (sentPages F') l = map_of (sentPages F) l)"
proof -
  note inv = fe_reachable_inv [OF assms(1)]
  obtain r s' where run: "getPage_set (Some (make_PDBSet dbNm setNm)) num (mgr F) = Inr (r, s')"
      and x: "msg = page_message_of r s'" "ok = sent" and la: "lent_as (page_key (pages s' r)) r sent F F'"
    using lend_set_run [OF inv assms(2,4)] by auto
  have got: "mgr_got r (mgr F) s'" and key: "page_key (pages s' r) = k" and na: "\<not> isAnon (pages s' r)"
    using getPage_set_got [OF fe_okD(1) [OF inv] fe_room_tick [OF assms(2)] run] by (auto simp: k_def)
  note at = set_page_address [OF inv assms(2,3) run]
  have pin: "pinned (pages s' r)" using got by (simp add: mgr_got_def)
  have "whichSet (pages s' r) = Some (make_PDBSet dbNm setNm)" "pageNum (pages s' r) = num"
    using key by (auto simp: page_key_def k_def)
  then show ?thesis
    using x run pin at la key na
    by (auto simp: page_message_of_def Let_def lent_as_def make_PDBSet_def)
qed

theorem lent_page_described_witness:
  "\<exists>r s'. getPage_set (Some (make_PDBSet ''db'' ''st'')) 3 (mgr fe_lent) = Inr (r, s') \<and>
     pinned (pages s' r) \<and> bytes (pages s' r) = Some (memory s' + 0)"
proof -
  have "memory (mgr fe_lent) + pageSize (mgr fe_lent) * numPages (mgr fe_lent) \<le> 2 ^ 64"
    by (simp add: fe_lent_def fe_start_def demo_start_def bm_exec)
  from lent_page_described [OF fe_demo_reachable(2) fe_demo_room(2) this fe_both_run]
  show ?thesis by auto
qed

section \<open>Departures\<close>

definition is_undefined :: "'a result \<Rightarrow> bool" where
  "is_undefined m \<longleftrightarrow> (\<exists>w. m = Inl (Undefined w))"

text \<open>
  The handlers that work on a lent page use the iterator before they know that the page was found.
  In a front end that has lent nothing, giving back an anonymous page and pinning, unpinning or freezing
  any page have undefined behaviour instead of the failure the code prepares to answer.
\<close>

theorem unlent_request_undefined:
  "is_undefined (handleReturnAnonPageRequest sent num d fe_start) \<and>
   is_undefined (handlePinPageRequest sent an dbNm setNm num fe_start) \<and>
   is_undefined (handleUnpinPageRequest sent an dbNm setNm num d fe_start) \<and>
   is_undefined (handleFreezeSizeRequest sent an dbNm setNm num sz fe_start)"
  by (simp add: handleReturnAnonPageRequest_def handlePinPageRequest_def handleUnpinPageRequest_def
      handleFreezeSizeRequest_def with_sent_def fe_start_def FrontEnd_new_def is_undefined_def)

text \<open>
  A forward that fails is not undone. When the request cannot be sent, \<^verbatim>\<open>forwardPage\<close> reports the
  failure but leaves the page marked as being forwarded, and the next forward of that page waits for ever.
\<close>

theorem failed_forward_blocks:
  "case forwardPage False answered understood between 0 fe_lent of
     Inl e \<Rightarrow> False
   | Inr ((msg, ok), F') \<Rightarrow> \<not> ok \<and> forwarding F' = {(None, 1)} \<and>
       forwardPage sent answered understood between 0 F' = Inl (Blocks ''cv'')"
  by (simp add: forwardPage_def handleForwardPage_def initForwarding_def fe_lent_def fe_start_def
      demo_start_def bm_exec)

text \<open>
  A page that the back end gives back before the front end has read the acknowledgement of the forward
  stays lent. The return is answered with success while the page is still marked as being forwarded, so the
  entry is kept, and finishing the forward does not remove it: nobody will give the page back again.
\<close>

theorem return_during_forward_lost:
  "case forwardPage True True True
      (\<lambda>F. andThen (handleReturnAnonPageRequest True 1 False F) (\<lambda>(ok, F1). if ok then Inr F1 else Inl (Exit ''not found'')))
      0 fe_lent of
     Inl e \<Rightarrow> False
   | Inr ((msg, ok), F') \<Rightarrow> ok \<and> forwarding F' = {} \<and> map_of (sentPages F') (None, 1) = Some 0 \<and>
       refCount (pages (mgr F') 0) = 1"
  by (simp add: forwardPage_def handleForwardPage_def initForwarding_def finishForwarding_def
      handleReturnAnonPageRequest_def fe_lent_def fe_start_def demo_start_def bm_exec)

end
