(* ===== verification/BackEnd.thy ===== *)
theory BackEnd
  imports FrontEnd
begin

text \<open>
  The back end of the buffer manager (\<^verbatim>\<open>bufferManager/headers/PDBBufferManagerBackEndTemplate.cc\<close>): the process
  that runs the computations and borrows pages from the front end. Every operation takes the lock, waits
  until nobody works on the page, marks it with a status and releases the lock while its request is under
  way; the callback takes the lock again. The model has the two critical sections as separate definitions
  (\<open>_begin\<close> and \<open>_finish\<close>), so that the operations of several threads can be interleaved, and the whole
  operation as their composition with the answer of the front end as a parameter (\<open>None\<close>: none arrived). A
  wait whose predicate is false is \<open>Blocks\<close>.
\<close>

section \<open>State\<close>

record be =
  b_memory :: nat
  b_pageSize :: nat
  b_cfgPageSize :: nat
  b_pages :: "nat \<Rightarrow> pdb_page"
  b_next :: nat
  b_allPages :: "(page_key \<times> nat) list"

definition BackEnd_new :: "nat \<Rightarrow> nat \<Rightarrow> nat \<Rightarrow> be" where
  "BackEnd_new base psz cfg = \<lparr>b_memory = base, b_pageSize = psz, b_cfgPageSize = cfg,
     b_pages = (\<lambda>_. PDBPage_new), b_next = 0, b_allPages = []\<rparr>"

definition be_upd :: "nat \<Rightarrow> (pdb_page \<Rightarrow> pdb_page) \<Rightarrow> be \<Rightarrow> be" where
  "be_upd r f B = B\<lparr>b_pages := (b_pages B)(r := f (b_pages B r))\<rparr>"

text \<open>Somebody is working on the page.\<close>

definition be_busy :: "page_status \<Rightarrow> bool" where
  "be_busy st \<longleftrightarrow> st = PDB_PAGE_LOADING \<or> st = PDB_PAGE_UNLOADING \<or> st = PDB_PAGE_FREEZING"

text \<open>A new page object is entered into the table.\<close>

definition be_enter :: "page_key \<Rightarrow> pdb_page \<Rightarrow> be \<Rightarrow> nat \<times> be" where
  "be_enter key p B =
     (b_next B, B\<lparr>b_pages := (b_pages B)(b_next B := p), b_next := b_next B + 1,
                 b_allPages := map_put key (b_next B) (b_allPages B)\<rparr>)"

text \<open>
  The fields that are taken from a message. The messages carry no dirty flag, their member keeps its
  initial value; the flag that tells whether the size is frozen is not read.
\<close>

definition fill_page :: "nat \<Rightarrow> pdb_set option \<Rightarrow> page_message \<Rightarrow> pdb_page \<Rightarrow> pdb_page" where
  "fill_page base st msg p =
     p\<lparr>isAnon := m_isAnonymous msg, pinned := True, dirty := False, pageNum := m_pageNumber msg,
       whichSet := st, location := \<lparr>startPos = m_startPos msg, numBytes = m_numBytes msg\<rparr>,
       bytes := Some ((base + m_offset msg) mod 2 ^ 64), status := PDB_PAGE_LOADED\<rparr>"

section \<open>Getting pages\<close>

text \<open>The flag tells whether the page has to be requested from the front end.\<close>

definition be_getPage_begin :: "pdb_set option \<Rightarrow> nat \<Rightarrow> be \<Rightarrow> (nat \<times> bool \<times> be) result" where
  "be_getPage_begin st i B0 =
     (let key = (st, i);
          B = (case map_of (b_allPages B0) key of
                 None \<Rightarrow> snd (be_enter key (PDBPage_new\<lparr>bytes := None, whichSet := st, pageNum := i,
                           status := PDB_PAGE_NOT_LOADED\<rparr>) B0)
               | Some r \<Rightarrow> B0)
      in case map_of (b_allPages B) key of
           None \<Rightarrow> Inl (Undefined ''dereference of end'')
         | Some r \<Rightarrow>
             if be_busy (status (b_pages B r)) then Inl (Blocks ''cv'')
             else if bytes (b_pages B r) \<noteq> None
             then Inr (r, False, be_upd r (\<lambda>p. (incRefCount p)\<lparr>status := PDB_PAGE_LOADED\<rparr>) B)
             else Inr (r, True, be_upd r (\<lambda>p. (incRefCount p)\<lparr>status := PDB_PAGE_LOADING\<rparr>) B))"

definition be_getPage_finish :: "nat \<Rightarrow> page_message option \<Rightarrow> be \<Rightarrow> be result" where
  "be_getPage_finish r answer B =
     (case answer of
        None \<Rightarrow> Inl (Exit ''Could not get the requested page'')
      | Some msg \<Rightarrow>
          Inr (be_upd r (fill_page (b_memory B) (Some (make_PDBSet (m_dbName msg) (m_setName msg))) msg) B))"

definition be_getPage_set :: "pdb_set option \<Rightarrow> nat \<Rightarrow> page_message option \<Rightarrow> be \<Rightarrow> (nat \<times> be) result" where
  "be_getPage_set st i answer B =
     andThen (be_getPage_begin st i B) (\<lambda>(r, request, B1).
       if request then andThen (be_getPage_finish r answer B1) (\<lambda>B2. Inr (r, B2)) else Inr (r, B1))"

text \<open>An anonymous page; the null handle is \<open>None\<close>.\<close>

definition be_getPage_bytes :: "nat \<Rightarrow> page_message option \<Rightarrow> be \<Rightarrow> (nat option \<times> be) result" where
  "be_getPage_bytes minBytes answer B =
     (if b_pageSize B < minBytes then Inr (None, B)
      else case answer of
        None \<Rightarrow> Inr (None, B)
      | Some msg \<Rightarrow>
          (let st = (if m_isAnonymous msg then None else Some (make_PDBSet (m_dbName msg) (m_setName msg)));
               (r, B1) = be_enter (st, m_pageNumber msg) (fill_page (b_memory B) st msg PDBPage_new) B
           in Inr (Some r, be_upd r incRefCount B1)))"

definition be_getPage_anon :: "page_message option \<Rightarrow> be \<Rightarrow> (nat option \<times> be) result" where
  "be_getPage_anon answer B = be_getPage_bytes (b_cfgPageSize B) answer B"

definition be_getMaxPageSize :: "be \<Rightarrow> nat" where
  "be_getMaxPageSize B = b_cfgPageSize B"

section \<open>Giving pages back\<close>

text \<open>An anonymous page is looked up under the set with two empty names.\<close>

definition be_freeAnonymousPage_begin :: "nat \<Rightarrow> be \<Rightarrow> be" where
  "be_freeAnonymousPage_begin r B =
     B\<lparr>b_allPages := map_erase (Some (make_PDBSet [] []), pageNum (b_pages B r)) (b_allPages B)\<rparr>"

definition be_freeAnonymousPage :: "nat \<Rightarrow> bool option \<Rightarrow> be \<Rightarrow> be result" where
  "be_freeAnonymousPage r answer B =
     (if answer = Some True then Inr (be_freeAnonymousPage_begin r B)
      else Inl (Exit ''Could not return the requested page''))"

definition be_downToZero_begin :: "nat \<Rightarrow> be \<Rightarrow> (bool \<times> be) result" where
  "be_downToZero_begin r B =
     (let p = b_pages B r
      in if be_busy (status p) then Inl (Blocks ''cv'')
         else if refCount p \<noteq> 0 then Inr (False, B)
         else if map_of (b_allPages B) (page_key p) \<noteq> Some r then Inr (False, B)
         else if whichSet p = None then Inl (Undefined ''null set'')
         else Inr (True, be_upd r (\<lambda>p. p\<lparr>status := PDB_PAGE_UNLOADING\<rparr>) B))"

definition be_downToZero_finish :: "nat \<Rightarrow> bool option \<Rightarrow> be \<Rightarrow> be result" where
  "be_downToZero_finish r answer B =
     (if answer = Some True
      then Inr (be_upd r (\<lambda>p. p\<lparr>bytes := None, status := PDB_PAGE_NOT_LOADED\<rparr>)
             (B\<lparr>b_allPages := map_erase (page_key (b_pages B r)) (b_allPages B)\<rparr>))
      else Inl (Exit ''Could not return the requested page''))"

definition be_downToZeroReferences :: "nat \<Rightarrow> bool option \<Rightarrow> be \<Rightarrow> be result" where
  "be_downToZeroReferences r answer B =
     andThen (be_downToZero_begin r B) (\<lambda>(request, B1).
       if request then be_downToZero_finish r answer B1 else Inr B1)"

text \<open>Destroying a handle.\<close>

definition be_decRefCount :: "nat \<Rightarrow> bool option \<Rightarrow> be \<Rightarrow> be result" where
  "be_decRefCount r answer B =
     (let B1 = be_upd r (\<lambda>p. p\<lparr>refCount := refCount p - 1\<rparr>) B; p = b_pages B1 r
      in if refCount p = 0
         then (if isAnon p then be_freeAnonymousPage r answer B1 else be_downToZeroReferences r answer B1)
         else Inr B1)"

section \<open>Pages that are forwarded\<close>

text \<open>The key has a set also for an anonymous page, whose names are empty.\<close>

definition be_expect_begin :: "page_message \<Rightarrow> be \<Rightarrow> (nat \<times> be) result" where
  "be_expect_begin msg B0 =
     (let key = (Some (make_PDBSet (m_dbName msg) (m_setName msg)), m_pageNumber msg);
          st = (if m_isAnonymous msg then None else fst key);
          fill = fill_page (b_memory B0) st msg
      in case map_of (b_allPages B0) key of
           None \<Rightarrow> (let (r, B) = be_enter key (fill PDBPage_new) B0 in Inr (r, be_upd r incRefCount B))
         | Some r \<Rightarrow>
             if be_busy (status (b_pages B0 r)) then Inl (Blocks ''cv'')
             else Inr (r, be_upd r (\<lambda>p. if bytes p = None then fill (incRefCount p) else incRefCount p) B0))"

text \<open>
  \<open>received\<close>: the forward request; \<open>acked\<close>: whether the acknowledgement could be sent, otherwise the handle is
  dropped, \<open>answer\<close> being the front end's answer to that.
\<close>

definition be_expectPage ::
  "page_message option \<Rightarrow> bool \<Rightarrow> bool option \<Rightarrow> be \<Rightarrow> (nat option \<times> be) result" where
  "be_expectPage received acked answer B =
     (case received of
        None \<Rightarrow> Inr (None, B)
      | Some msg \<Rightarrow>
          andThen (be_expect_begin msg B) (\<lambda>(r, B1).
            if acked then Inr (Some r, B1)
            else andThen (be_decRefCount r answer B1) (\<lambda>B2. Inr (None, B2))))"

section \<open>Operations on a borrowed page\<close>

definition be_freeze_begin :: "nat \<Rightarrow> be \<Rightarrow> be result" where
  "be_freeze_begin r B =
     (if be_busy (status (b_pages B r)) then Inl (Blocks ''cv'')
      else Inr (be_upd r (\<lambda>p. p\<lparr>status := PDB_PAGE_FREEZING\<rparr>) B))"

definition be_freeze_finish :: "nat \<Rightarrow> bool option \<Rightarrow> be \<Rightarrow> be result" where
  "be_freeze_finish r answer B =
     (if answer = Some True
      then Inr (be_upd r (\<lambda>p. p\<lparr>sizeFrozen := True, status := PDB_PAGE_LOADED\<rparr>) B)
      else Inl (Exit ''Could not freeze the page''))"

definition be_freezeSize :: "nat \<Rightarrow> bool option \<Rightarrow> be \<Rightarrow> be result" where
  "be_freezeSize r answer B = andThen (be_freeze_begin r B) (be_freeze_finish r answer)"

definition be_unpin_begin :: "nat \<Rightarrow> be \<Rightarrow> (bool \<times> be) result" where
  "be_unpin_begin r B =
     (if be_busy (status (b_pages B r)) then Inl (Blocks ''cv'')
      else if bytes (b_pages B r) = None
      then Inr (False, be_upd r (\<lambda>p. p\<lparr>status := PDB_PAGE_NOT_LOADED\<rparr>) B)
      else Inr (True, be_upd r (\<lambda>p. p\<lparr>status := PDB_PAGE_UNLOADING\<rparr>) B))"

definition be_unpin_finish :: "nat \<Rightarrow> bool option \<Rightarrow> be \<Rightarrow> be result" where
  "be_unpin_finish r answer B =
     (if answer = Some True
      then Inr (be_upd r (\<lambda>p. p\<lparr>bytes := None, status := PDB_PAGE_NOT_LOADED\<rparr>) B)
      else Inl (Exit ''Could not return the requested page''))"

definition be_unpin :: "nat \<Rightarrow> bool option \<Rightarrow> be \<Rightarrow> be result" where
  "be_unpin r answer B =
     andThen (be_unpin_begin r B) (\<lambda>(request, B1). if request then be_unpin_finish r answer B1 else Inr B1)"

definition be_repin_begin :: "nat \<Rightarrow> be \<Rightarrow> (bool \<times> be) result" where
  "be_repin_begin r B =
     (if be_busy (status (b_pages B r)) then Inl (Blocks ''cv'')
      else if bytes (b_pages B r) \<noteq> None
      then Inr (False, be_upd r (\<lambda>p. p\<lparr>status := PDB_PAGE_LOADED\<rparr>) B)
      else Inr (True, be_upd r (\<lambda>p. p\<lparr>status := PDB_PAGE_LOADING\<rparr>) B))"

text \<open>The answer carries the offset of the page and the success of the request.\<close>

definition be_repin_finish :: "nat \<Rightarrow> (nat \<times> bool) option \<Rightarrow> be \<Rightarrow> be result" where
  "be_repin_finish r answer B =
     (case answer of
        Some (off, True) \<Rightarrow>
          Inr (be_upd r (\<lambda>p. p\<lparr>bytes := Some ((b_memory B + off) mod 2 ^ 64), status := PDB_PAGE_LOADED\<rparr>) B)
      | _ \<Rightarrow> Inl (Exit ''Could not return the requested page''))"

definition be_repin :: "nat \<Rightarrow> (nat \<times> bool) option \<Rightarrow> be \<Rightarrow> be result" where
  "be_repin r answer B =
     andThen (be_repin_begin r B) (\<lambda>(request, B1). if request then be_repin_finish r answer B1 else Inr B1)"

section \<open>Interleaved operations\<close>

text \<open>
  The requests under way: one per thread that is between the two critical sections of an operation. A
  step is one critical section. An answer for a page of a set names that page, an answer to a request for
  an anonymous page names an anonymous one; the sets that are used have a name.

  The requests that are tracked are those the code sends under a status of the page (\<open>be_op\<close>): getting and repinning under \<open>PDB_PAGE_LOADING\<close>, unpinning and
  giving back under \<open>PDB_PAGE_UNLOADING\<close>, freezing under \<open>PDB_PAGE_FREEZING\<close>. Two requests are not: that for a new anonymous page, which has no page object yet, and that which gives
  back an anonymous page, which \<open>freeAnonymousPage\<close> sends when the last handle is gone without setting a status (\<open>free_anon\<close> is what it does to the table).
\<close>

datatype be_op = GetOp | FreezeOp | UnpinOp | RepinOp | ReturnOp

fun op_status :: "be_op \<Rightarrow> page_status" where
  "op_status GetOp = PDB_PAGE_LOADING"
| "op_status RepinOp = PDB_PAGE_LOADING"
| "op_status FreezeOp = PDB_PAGE_FREEZING"
| "op_status UnpinOp = PDB_PAGE_UNLOADING"
| "op_status ReturnOp = PDB_PAGE_UNLOADING"

definition anon_set :: pdb_set where
  "anon_set = make_PDBSet [] []"

definition names_page :: "page_message \<Rightarrow> pdb_page \<Rightarrow> bool" where
  "names_page msg p \<longleftrightarrow> \<not> m_isAnonymous msg \<and>
     page_key p = (Some (make_PDBSet (m_dbName msg) (m_setName msg)), m_pageNumber msg)"

definition forward_ok :: "page_message \<Rightarrow> bool" where
  "forward_ok msg \<longleftrightarrow> m_isAnonymous msg = (make_PDBSet (m_dbName msg) (m_setName msg) = anon_set)"

inductive be_step :: "be \<times> (nat \<times> be_op) list \<Rightarrow> be \<times> (nat \<times> be_op) list \<Rightarrow> bool" where
  get_request: "st \<noteq> anon_set \<Longrightarrow> be_getPage_begin (Some st) i B = Inr (r, True, B') \<Longrightarrow>
    be_step (B, R) (B', (r, GetOp) # R)"
| get_known: "st \<noteq> anon_set \<Longrightarrow> be_getPage_begin (Some st) i B = Inr (r, False, B') \<Longrightarrow> be_step (B, R) (B', R)"
| get_answer: "(r, GetOp) \<in> set R \<Longrightarrow> names_page msg (b_pages B r) \<Longrightarrow>
    be_getPage_finish r (Some msg) B = Inr B' \<Longrightarrow> be_step (B, R) (B', remove1 (r, GetOp) R)"
| get_anon: "m_isAnonymous msg \<Longrightarrow> be_getPage_bytes n (Some msg) B = Inr (x, B') \<Longrightarrow> be_step (B, R) (B', R)"
| expect: "forward_ok msg \<Longrightarrow> be_expect_begin msg B = Inr (r, B') \<Longrightarrow> be_step (B, R) (B', R)"
| drop: "0 < refCount (b_pages B r) \<Longrightarrow>
    be_step (B, R) (be_upd r (\<lambda>p. p\<lparr>refCount := refCount p - 1\<rparr>) B, R)"
| free_anon: "be_step (B, R) (be_freeAnonymousPage_begin r B, R)"
| return_request: "r < b_next B \<Longrightarrow> be_downToZero_begin r B = Inr (True, B') \<Longrightarrow>
    be_step (B, R) (B', (r, ReturnOp) # R)"
| return_answer: "(r, ReturnOp) \<in> set R \<Longrightarrow> be_downToZero_finish r a B = Inr B' \<Longrightarrow>
    be_step (B, R) (B', remove1 (r, ReturnOp) R)"
| freeze_request: "0 < refCount (b_pages B r) \<Longrightarrow> be_freeze_begin r B = Inr B' \<Longrightarrow> be_step (B, R) (B', (r, FreezeOp) # R)"
| freeze_answer: "(r, FreezeOp) \<in> set R \<Longrightarrow> be_freeze_finish r a B = Inr B' \<Longrightarrow>
    be_step (B, R) (B', remove1 (r, FreezeOp) R)"
| unpin_request: "0 < refCount (b_pages B r) \<Longrightarrow> be_unpin_begin r B = Inr (True, B') \<Longrightarrow> be_step (B, R) (B', (r, UnpinOp) # R)"
| unpin_known: "0 < refCount (b_pages B r) \<Longrightarrow> be_unpin_begin r B = Inr (False, B') \<Longrightarrow> be_step (B, R) (B', R)"
| unpin_answer: "(r, UnpinOp) \<in> set R \<Longrightarrow> be_unpin_finish r a B = Inr B' \<Longrightarrow>
    be_step (B, R) (B', remove1 (r, UnpinOp) R)"
| repin_request: "0 < refCount (b_pages B r) \<Longrightarrow> be_repin_begin r B = Inr (True, B') \<Longrightarrow> be_step (B, R) (B', (r, RepinOp) # R)"
| repin_known: "0 < refCount (b_pages B r) \<Longrightarrow> be_repin_begin r B = Inr (False, B') \<Longrightarrow> be_step (B, R) (B', R)"
| repin_answer: "(r, RepinOp) \<in> set R \<Longrightarrow> be_repin_finish r a B = Inr B' \<Longrightarrow>
    be_step (B, R) (B', remove1 (r, RepinOp) R)"

inductive be_reachable :: "be \<times> (nat \<times> be_op) list \<Rightarrow> bool" where
  start: "be_reachable (BackEnd_new base psz cfg, [])"
| step: "be_reachable S \<Longrightarrow> be_step S S' \<Longrightarrow> be_reachable S'"

text \<open>
  The invariant: a page is marked exactly while one request for it is under way, the mark being that of
  the request; a page of a set that has a handle or a request is the one the table has for its key; a
  page that is being given back has no handle.
\<close>

definition filed :: "page_key \<Rightarrow> pdb_page \<Rightarrow> bool" where
  "filed k p \<longleftrightarrow> page_key p = (if fst k = Some anon_set then None else fst k, snd k)"

definition be_ok :: "be \<times> (nat \<times> be_op) list \<Rightarrow> bool" where
  "be_ok S \<longleftrightarrow> (case S of (B, R) \<Rightarrow>
     map_ok (b_allPages B) \<and> distinct (map fst R) \<and>
     (\<forall>r op. (r, op) \<in> set R \<longrightarrow> r < b_next B \<and> status (b_pages B r) = op_status op) \<and>
     (\<forall>r < b_next B. be_busy (status (b_pages B r)) \<longrightarrow> r \<in> fst ` set R) \<and>
     (\<forall>r. b_next B \<le> r \<longrightarrow> refCount (b_pages B r) = 0) \<and>
     (\<forall>r < b_next B. whichSet (b_pages B r) \<noteq> Some anon_set) \<and>
     (\<forall>k r. map_of (b_allPages B) k = Some r \<longrightarrow> r < b_next B \<and> filed k (b_pages B r)) \<and>
     (\<forall>r < b_next B. whichSet (b_pages B r) \<noteq> None \<and> (0 < refCount (b_pages B r) \<or> r \<in> fst ` set R) \<longrightarrow>
        map_of (b_allPages B) (page_key (b_pages B r)) = Some r) \<and>
     (\<forall>r. (r, ReturnOp) \<in> set R \<longrightarrow> refCount (b_pages B r) = 0))"

lemma op_status_busy [simp]: "be_busy (op_status op)"
  by (cases op) (simp_all add: be_busy_def)

lemma be_upd_fields [simp]:
  "b_pages (be_upd r f B) = (b_pages B)(r := f (b_pages B r))" "b_next (be_upd r f B) = b_next B"
  "b_allPages (be_upd r f B) = b_allPages B" "b_memory (be_upd r f B) = b_memory B"
  by (simp_all add: be_upd_def)

lemma be_okD:
  assumes "be_ok (B, R)"
  shows "map_ok (b_allPages B)" and "distinct (map fst R)"
    and "(r, op) \<in> set R \<Longrightarrow> r < b_next B" and "(r, op) \<in> set R \<Longrightarrow> status (b_pages B r) = op_status op"
    and "r < b_next B \<Longrightarrow> be_busy (status (b_pages B r)) \<Longrightarrow> r \<in> fst ` set R"
    and "0 < refCount (b_pages B r) \<Longrightarrow> r < b_next B"
    and "r < b_next B \<Longrightarrow> whichSet (b_pages B r) \<noteq> Some anon_set"
    and "map_of (b_allPages B) k = Some r \<Longrightarrow> r < b_next B"
    and "map_of (b_allPages B) k = Some r \<Longrightarrow> filed k (b_pages B r)"
    and "r < b_next B \<Longrightarrow> whichSet (b_pages B r) \<noteq> None \<Longrightarrow> 0 < refCount (b_pages B r) \<or> r \<in> fst ` set R \<Longrightarrow>
      map_of (b_allPages B) (page_key (b_pages B r)) = Some r"
    and "(r, ReturnOp) \<in> set R \<Longrightarrow> refCount (b_pages B r) = 0"
  using assms unfolding be_ok_def by (auto simp: not_less [symmetric] simp del: split_paired_All)

lemma idle_unasked:
  assumes "be_ok (B, R)" and "\<not> be_busy (status (b_pages B r))"
  shows "r \<notin> fst ` set R"
  using be_okD(4) [OF assms(1)] assms(2) by force

text \<open>A critical section that changes one page object and the requests for it, not its key.\<close>

lemma be_ok_page:
  assumes ok: "be_ok (B, R)" and r: "r < b_next B" and key: "page_key (f (b_pages B r)) = page_key (b_pages B r)"
    and R': "distinct (map fst R')" "\<And>q op. q \<noteq> r \<Longrightarrow> (q, op) \<in> set R' \<longleftrightarrow> (q, op) \<in> set R"
    and st: "\<And>op. (r, op) \<in> set R' \<Longrightarrow> status (f (b_pages B r)) = op_status op"
    and busy: "be_busy (status (f (b_pages B r))) \<Longrightarrow> r \<in> fst ` set R'"
    and tab: "whichSet (b_pages B r) \<noteq> None \<Longrightarrow> 0 < refCount (f (b_pages B r)) \<or> r \<in> fst ` set R' \<Longrightarrow>
      map_of (b_allPages B) (page_key (b_pages B r)) = Some r"
    and ret: "(r, ReturnOp) \<in> set R' \<Longrightarrow> refCount (f (b_pages B r)) = 0"
  shows "be_ok (be_upd r f B, R')"
proof -
  let ?p = "f (b_pages B r)"
  have ws: "whichSet ?p = whichSet (b_pages B r)" using key by (simp add: page_key_def)
  have asked: "q \<in> fst ` set R' \<longleftrightarrow> q \<in> fst ` set R" if "q \<noteq> r" for q using R'(2) [OF that] by force
  have 1: "q < b_next B \<and> status (((b_pages B)(r := ?p)) q) = op_status op" if "(q, op) \<in> set R'" for q op
    using that st r be_okD(3,4) [OF ok] R'(2) by (cases "q = r") auto
  have 2: "q \<in> fst ` set R'" if "q < b_next B" "be_busy (status (((b_pages B)(r := ?p)) q))" for q
    using that busy be_okD(5) [OF ok] asked by (cases "q = r") auto
  have 3: "map_of (b_allPages B) (page_key (((b_pages B)(r := ?p)) q)) = Some q"
    if "q < b_next B" "whichSet (((b_pages B)(r := ?p)) q) \<noteq> None"
      "0 < refCount (((b_pages B)(r := ?p)) q) \<or> q \<in> fst ` set R'" for q
    using that tab key ws asked be_okD(10) [OF ok, of q] by (cases "q = r") auto
  have 4: "filed k (((b_pages B)(r := ?p)) q)" if "map_of (b_allPages B) k = Some q" for k q
    using be_okD(9) [OF ok that] key by (auto simp: filed_def)
  show ?thesis
    unfolding be_ok_def prod.case be_upd_fields
    using be_okD(1,6,7,8,11) [OF ok] R' r 1 2 3 4 ret ws
    by (intro conjI allI impI) (auto simp: not_less [symmetric] simp del: split_paired_All)
qed

lemma be_ok_ask:
  assumes ok: "be_ok (B, R)" and r: "r < b_next B" and idle: "\<not> be_busy (status (b_pages B r))"
    and key: "page_key (f (b_pages B r)) = page_key (b_pages B r)" and st: "status (f (b_pages B r)) = op_status op"
    and tab: "whichSet (b_pages B r) \<noteq> None \<Longrightarrow> map_of (b_allPages B) (page_key (b_pages B r)) = Some r"
    and ret: "op = ReturnOp \<Longrightarrow> refCount (f (b_pages B r)) = 0"
  shows "be_ok (be_upd r f B, (r, op) # R)"
  using idle_unasked [OF ok idle] be_okD(2) [OF ok] assms
  by (intro be_ok_page [OF ok r, where f = f, OF key]) (auto intro: rev_image_eqI)

lemma be_ok_answer:
  assumes ok: "be_ok (B, R)" and r: "(r, op) \<in> set R"
    and key: "page_key (f (b_pages B r)) = page_key (b_pages B r)" and idle: "\<not> be_busy (status (f (b_pages B r)))"
    and ref: "refCount (f (b_pages B r)) = refCount (b_pages B r)"
  shows "be_ok (be_upd r f B, remove1 (r, op) R)"
proof -
  have "op' = op" if "(r, op') \<in> set R" for op'
    by (rule eq_key_imp_eq_value [OF be_okD(2) [OF ok] that r])
  then have gone: "(r, op') \<notin> set (remove1 (r, op) R)" for op'
    using be_okD(2) [OF ok] by (auto simp: distinct_map)
  have "distinct (map fst (remove1 (r, op) R))"
    using be_okD(2) [OF ok] by (metis distinct_map distinct_remove1 inj_on_subset set_remove1_subset)
  moreover have "(q, op') \<in> set (remove1 (r, op) R) \<longleftrightarrow> (q, op') \<in> set R" if "q \<noteq> r" for q op'
    using that by (simp add: in_set_remove1)
  moreover have "map_of (b_allPages B) (page_key (b_pages B r)) = Some r" if "whichSet (b_pages B r) \<noteq> None"
    using be_okD(10) [OF ok be_okD(3) [OF ok r] that] r by force
  ultimately show ?thesis
    using gone idle by (intro be_ok_page [OF ok be_okD(3) [OF ok r], where f = f, OF key]) force+
qed

lemma be_ok_idle:
  assumes ok: "be_ok (B, R)" and r: "r < b_next B" and idle: "\<not> be_busy (status (b_pages B r))"
    and key: "page_key (f (b_pages B r)) = page_key (b_pages B r)" and st: "\<not> be_busy (status (f (b_pages B r)))"
    and tab: "whichSet (b_pages B r) \<noteq> None \<Longrightarrow> 0 < refCount (f (b_pages B r)) \<Longrightarrow>
      map_of (b_allPages B) (page_key (b_pages B r)) = Some r"
  shows "be_ok (be_upd r f B, R)"
proof -
  note un = idle_unasked [OF ok idle]
  then have "(r, op) \<notin> set R" for op by force
  then show ?thesis using un st tab be_okD(2) [OF ok] by (intro be_ok_page [OF ok r, where f = f, OF key]) auto
qed

text \<open>A new page object under a key that is free, or that belongs to anonymous pages.\<close>

lemma be_ok_enter:
  assumes ok: "be_ok (B, R)" and fil: "filed k p" and idle: "\<not> be_busy (status p)"
    and new: "whichSet p \<noteq> None \<Longrightarrow> map_of (b_allPages B) k = None \<and> page_key p = k"
    and ref: "refCount p = 0"
  shows "be_ok (snd (be_enter k p B), R)"
proof -
  let ?n = "b_next B"
  have ws: "whichSet p \<noteq> Some anon_set" using fil by (auto simp: filed_def page_key_def split: if_splits)
  have old: "r \<noteq> ?n" if "(r, op) \<in> set R" for r op using be_okD(3) [OF ok that] by simp
  have keep: "map_of (map_put k ?n (b_allPages B)) (page_key (b_pages B r)) = Some r"
    if "r < ?n" "whichSet (b_pages B r) \<noteq> None" "0 < refCount (b_pages B r) \<or> r \<in> fst ` set R" for r
  proof -
    have m: "map_of (b_allPages B) (page_key (b_pages B r)) = Some r" by (rule be_okD(10) [OF ok that])
    have "page_key (b_pages B r) \<noteq> k"
    proof
      assume eq: "page_key (b_pages B r) = k"
      then have "fst k \<noteq> None" "fst k \<noteq> Some anon_set"
        using that(2) be_okD(7) [OF ok that(1)] by (auto simp: page_key_def)
      then have "whichSet p \<noteq> None" using fil by (auto simp: filed_def page_key_def)
      then show False using new m eq by simp
    qed
    then show ?thesis using m by (simp add: map_of_map_put [OF be_okD(1) [OF ok]])
  qed
  let ?P = "(b_pages B)(?n := p)" and ?A = "map_put k ?n (b_allPages B)"
  have 1: "r < Suc ?n \<and> filed l (?P r)" if "map_of ?A l = Some r" for l r
    using that be_okD(8,9) [OF ok, of l r] fil
    by (auto simp: map_of_map_put [OF be_okD(1) [OF ok]] split: if_splits)
  have 2: "r < Suc ?n \<and> status (?P r) = op_status op" if "(r, op) \<in> set R" for r op
    using old [OF that] be_okD(3,4) [OF ok that] by auto
  have 3: "r \<in> fst ` set R" if "r < Suc ?n" "be_busy (status (?P r))" for r
    using that idle be_okD(5) [OF ok, of r] by (cases "r = ?n") auto
  have 4: "map_of ?A (page_key (?P r)) = Some r"
    if "r < Suc ?n" "whichSet (?P r) \<noteq> None" "0 < refCount (?P r) \<or> r \<in> fst ` set R" for r
  proof (cases "r = ?n")
    case True
    then show ?thesis using that new by (simp add: map_of_map_put [OF be_okD(1) [OF ok]])
  next
    case False
    then show ?thesis using that keep [of r] by simp
  qed
  have 5: "refCount (?P r) = 0" if "Suc ?n \<le> r" for r using that be_okD(6) [OF ok, of r] by auto
  have 6: "whichSet (?P r) \<noteq> Some anon_set" if "r < Suc ?n" for r
    using that ws be_okD(7) [OF ok, of r] by (cases "r = ?n") auto
  have 7: "refCount (?P r) = 0" if "(r, ReturnOp) \<in> set R" for r
    using old [OF that] be_okD(11) [OF ok that] by simp
  have sel: "b_pages (snd (be_enter k p B)) = ?P" "b_next (snd (be_enter k p B)) = Suc ?n"
      "b_allPages (snd (be_enter k p B)) = ?A"
    by (simp_all add: be_enter_def)
  show ?thesis
    unfolding be_ok_def prod.case sel
    using 1 2 3 4 5 6 7 map_ok_put [OF be_okD(1) [OF ok]] be_okD(2) [OF ok] by blast
qed

section \<open>Every critical section keeps the invariant\<close>

lemma table_page:
  assumes ok: "be_ok (B, R)" and m: "map_of (b_allPages B) (Some st, i) = Some r" and st: "st \<noteq> anon_set"
  shows "r < b_next B" and "page_key (b_pages B r) = (Some st, i)"
  using be_okD(8,9) [OF ok m] st by (auto simp: filed_def)

lemma getPage_begin_ok:
  assumes ok: "be_ok (B, R)" and st: "st \<noteq> anon_set" and run: "be_getPage_begin (Some st) i B = Inr (r, req, B')"
  shows "be_ok (B', if req then (r, GetOp) # R else R)"
proof -
  let ?new = "PDBPage_new\<lparr>bytes := None, whichSet := Some st, pageNum := i, status := PDB_PAGE_NOT_LOADED\<rparr>"
  define B1 where "B1 = (case map_of (b_allPages B) (Some st, i) of
      None \<Rightarrow> snd (be_enter (Some st, i) ?new B) | Some r \<Rightarrow> B)"
  have ok1: "be_ok (B1, R)"
  proof (cases "map_of (b_allPages B) (Some st, i)")
    case None
    have "be_ok (snd (be_enter (Some st, i) ?new B), R)"
      by (rule be_ok_enter [OF ok]) (use None st in \<open>simp_all add: filed_def page_key_def PDBPage_new_def be_busy_def\<close>)
    then show ?thesis using None by (simp add: B1_def)
  qed (use ok in \<open>simp add: B1_def\<close>)
  have m: "map_of (b_allPages B1) (Some st, i) = Some r" and idle: "\<not> be_busy (status (b_pages B1 r))"
      and B': "B' = be_upd r (\<lambda>p. (incRefCount p)\<lparr>status := (if req then PDB_PAGE_LOADING else PDB_PAGE_LOADED)\<rparr>) B1"
    using run unfolding be_getPage_begin_def Let_def B1_def [symmetric] by (auto split: option.splits if_splits)
  note tp = table_page [OF ok1 m st]
  show ?thesis
  proof (cases req)
    case True
    have "be_ok (be_upd r (\<lambda>p. (incRefCount p)\<lparr>status := PDB_PAGE_LOADING\<rparr>) B1, (r, GetOp) # R)"
      by (rule be_ok_ask [OF ok1 tp(1) idle]) (use m tp in \<open>simp_all add: incRefCount_def\<close>)
    then show ?thesis using True B' by simp
  next
    case False
    have "be_ok (be_upd r (\<lambda>p. (incRefCount p)\<lparr>status := PDB_PAGE_LOADED\<rparr>) B1, R)"
      by (rule be_ok_idle [OF ok1 tp(1) idle]) (use m tp in \<open>simp_all add: incRefCount_def be_busy_def\<close>)
    then show ?thesis using False B' by simp
  qed
qed

lemma getPage_finish_ok:
  assumes ok: "be_ok (B, R)" and r: "(r, GetOp) \<in> set R" and nm: "names_page msg (b_pages B r)"
    and run: "be_getPage_finish r (Some msg) B = Inr B'"
  shows "be_ok (B', remove1 (r, GetOp) R)"
proof -
  let ?f = "fill_page (b_memory B) (Some (make_PDBSet (m_dbName msg) (m_setName msg))) msg"
  have "be_ok (be_upd r ?f B, remove1 (r, GetOp) R)"
    by (rule be_ok_answer [OF ok r])
       (use nm in \<open>simp_all add: fill_page_def page_key_def names_page_def be_busy_def\<close>)
  then show ?thesis using run by (simp add: be_getPage_finish_def)
qed

lemma entered_handle_ok:
  assumes ok: "be_ok (snd (be_enter k p B), R)" and idle: "\<not> be_busy (status p)" and m: "map_ok (b_allPages B)"
    and key: "whichSet p \<noteq> None \<Longrightarrow> page_key p = k"
  shows "be_ok (be_upd (b_next B) incRefCount (snd (be_enter k p B)), R)"
  using ok
  by (rule be_ok_idle)
     (use idle key m in \<open>simp_all add: be_enter_def incRefCount_def map_of_map_put\<close>)

lemma getPage_bytes_ok':
  assumes ok: "be_ok (B, R)" and an: "m_isAnonymous msg" and run: "be_getPage_bytes n (Some msg) B = Inr (x, B')"
  shows "be_ok (B', R)"
proof (cases "b_pageSize B < n")
  case True
  then show ?thesis using run ok by (simp add: be_getPage_bytes_def)
next
  case False
  let ?p = "fill_page (b_memory B) None msg PDBPage_new" and ?k = "(None, m_pageNumber msg)"
  have "be_ok (snd (be_enter ?k ?p B), R)"
    by (rule be_ok_enter [OF ok])
       (simp_all add: filed_def page_key_def fill_page_def be_busy_def PDBPage_new_def)
  from entered_handle_ok [OF this] have "be_ok (be_upd (b_next B) incRefCount (snd (be_enter ?k ?p B)), R)"
    using be_okD(1) [OF ok] by (simp add: fill_page_def be_busy_def)
  then show ?thesis using run False an by (auto simp: be_getPage_bytes_def be_enter_def Let_def)
qed

lemma expect_begin_ok:
  assumes ok: "be_ok (B, R)" and fw: "forward_ok msg" and run: "be_expect_begin msg B = Inr (r, B')"
  shows "be_ok (B', R)"
proof -
  define s where "s = make_PDBSet (m_dbName msg) (m_setName msg)"
  define k where "k = (Some s, m_pageNumber msg)"
  define st where "st = (if m_isAnonymous msg then None else Some s)"
  define fill where "fill = fill_page (b_memory B) st msg"
  have unf: "be_expect_begin msg B = (case map_of (b_allPages B) k of
       None \<Rightarrow> (let (r, B1) = be_enter k (fill PDBPage_new) B in Inr (r, be_upd r incRefCount B1))
     | Some r \<Rightarrow>
         if be_busy (status (b_pages B r)) then Inl (Blocks ''cv'')
         else Inr (r, be_upd r (\<lambda>p. if bytes p = None then fill (incRefCount p) else incRefCount p) B))"
    unfolding be_expect_begin_def Let_def k_def s_def st_def fill_def fst_conv by (rule refl)
  have an: "m_isAnonymous msg \<longleftrightarrow> s = anon_set" using fw by (simp add: forward_ok_def s_def)
  have key: "page_key (fill p) = (st, m_pageNumber msg)" "\<not> be_busy (status (fill p))" "refCount (fill p) = refCount p"
    for p by (simp_all add: fill_def fill_page_def page_key_def be_busy_def)
  show ?thesis
  proof (cases "map_of (b_allPages B) k")
    case None
    have ok1: "be_ok (snd (be_enter k (fill PDBPage_new) B), R)"
      by (rule be_ok_enter [OF ok])
         (use None key an in \<open>auto simp: filed_def k_def st_def fill_def fill_page_def page_key_def PDBPage_new_def\<close>)
    have "be_ok (be_upd (b_next B) incRefCount (snd (be_enter k (fill PDBPage_new) B)), R)"
      by (rule entered_handle_ok [OF ok1 key(2) be_okD(1) [OF ok]])
         (auto simp: fill_def fill_page_def page_key_def k_def st_def)
    then show ?thesis
      using run None unfolding unf by (auto simp: be_enter_def)
  next
    case (Some q)
    let ?f = "\<lambda>p. if bytes p = None then fill (incRefCount p) else incRefCount p"
    have idle: "\<not> be_busy (status (b_pages B q))" and B': "B' = be_upd q ?f B"
      using run Some unfolding unf by (auto split: if_splits)
    have q: "q < b_next B" "filed k (b_pages B q)" using be_okD(8,9) [OF ok Some] by auto
    then have pk: "page_key (b_pages B q) = (st, m_pageNumber msg)" using an by (auto simp: filed_def k_def st_def)
    have "be_ok (be_upd q ?f B, R)"
      by (rule be_ok_idle [OF ok q(1) idle])
         (use idle pk key Some an in \<open>auto simp: incRefCount_def page_key_def k_def st_def\<close>)
    then show ?thesis by (simp add: B')
  qed
qed

lemma drop_ok:
  assumes ok: "be_ok (B, R)" and rc: "0 < refCount (b_pages B r)"
  shows "be_ok (be_upd r (\<lambda>p. p\<lparr>refCount := refCount p - 1\<rparr>) B, R)"
proof -
  have r: "r < b_next B" by (rule be_okD(6) [OF ok rc])
  show ?thesis
    by (rule be_ok_page [OF ok r])
       (use be_okD(2,4,5,10,11) [OF ok] r rc in auto)
qed

lemma free_anon_ok:
  assumes ok: "be_ok (B, R)"
  shows "be_ok (be_freeAnonymousPage_begin r B, R)"
proof -
  have "page_key (b_pages B q) \<noteq> (Some anon_set, n)" if "q < b_next B" for q n
    using be_okD(7) [OF ok that] by (auto simp: page_key_def)
  then show ?thesis
    using ok unfolding be_ok_def be_freeAnonymousPage_begin_def anon_set_def [symmetric]
    by (auto simp: map_ok_erase map_of_map_erase split: if_splits simp del: split_paired_All)
qed

lemma downToZero_begin_ok:
  assumes ok: "be_ok (B, R)" and r: "r < b_next B" and run: "be_downToZero_begin r B = Inr (True, B')"
  shows "be_ok (B', (r, ReturnOp) # R)"
proof -
  have c: "\<not> be_busy (status (b_pages B r))" "refCount (b_pages B r) = 0"
      "map_of (b_allPages B) (page_key (b_pages B r)) = Some r" "B' = be_upd r (\<lambda>p. p\<lparr>status := PDB_PAGE_UNLOADING\<rparr>) B"
    using run by (auto simp: be_downToZero_begin_def Let_def split: if_splits)
  then show ?thesis using be_ok_ask [OF ok r c(1), of "\<lambda>p. p\<lparr>status := PDB_PAGE_UNLOADING\<rparr>" ReturnOp] by simp
qed

lemma downToZero_finish_ok:
  assumes ok: "be_ok (B, R)" and r: "(r, ReturnOp) \<in> set R" and run: "be_downToZero_finish r a B = Inr B'"
  shows "be_ok (B', remove1 (r, ReturnOp) R)"
proof -
  let ?f = "\<lambda>p. p\<lparr>bytes := None, status := PDB_PAGE_NOT_LOADED\<rparr>" and ?R = "remove1 (r, ReturnOp) R"
  let ?k = "page_key (b_pages B r)"
  have B': "B' = (be_upd r ?f B)\<lparr>b_allPages := map_erase ?k (b_allPages B)\<rparr>"
    using run by (auto simp: be_downToZero_finish_def be_upd_def split: if_splits)
  have ok1: "be_ok (be_upd r ?f B, ?R)" by (rule be_ok_answer [OF ok r]) (simp_all add: be_busy_def)
  have rn: "r \<notin> fst ` set ?R"
    by (rule idle_unasked [OF ok1]) (simp add: be_busy_def)
  have rc: "refCount (b_pages B r) = 0" by (rule be_okD(11) [OF ok r])
  have "page_key (b_pages (be_upd r ?f B) q) \<noteq> ?k"
    if "q < b_next B" "whichSet (b_pages (be_upd r ?f B) q) \<noteq> None"
      "0 < refCount (b_pages (be_upd r ?f B) q) \<or> q \<in> fst ` set ?R" for q
  proof
    assume eq: "page_key (b_pages (be_upd r ?f B) q) = ?k"
    have "q \<noteq> r" using that(3) rn rc by auto
    then have "whichSet (b_pages B r) \<noteq> None" using that(2) eq by (auto simp: page_key_def)
    moreover have "r \<in> fst ` set R" using r by force
    ultimately have "map_of (b_allPages B) ?k = Some r"
      using be_okD(10) [OF ok be_okD(3) [OF ok r]] by blast
    moreover have "map_of (b_allPages B) ?k = Some q"
      using be_okD(10) [OF ok1, of q] that eq by simp
    ultimately show False using \<open>q \<noteq> r\<close> by simp
  qed
  then show ?thesis
    using ok1 unfolding B' be_ok_def prod.case
    by (auto simp: map_ok_erase map_of_map_erase split: if_splits simp del: split_paired_All)
qed

lemma page_section_ok:
  assumes ok: "be_ok (B, R)" and rc: "0 < refCount (b_pages B r)" and idle: "\<not> be_busy (status (b_pages B r))"
  shows "op \<noteq> ReturnOp \<Longrightarrow> st = op_status op \<Longrightarrow> be_ok (be_upd r (\<lambda>p. p\<lparr>status := st\<rparr>) B, (r, op) # R)"
    and "\<not> be_busy st \<Longrightarrow> be_ok (be_upd r (\<lambda>p. p\<lparr>status := st\<rparr>) B, R)"
proof -
  have r: "r < b_next B" by (rule be_okD(6) [OF ok rc])
  have tab: "whichSet (b_pages B r) \<noteq> None \<Longrightarrow> map_of (b_allPages B) (page_key (b_pages B r)) = Some r"
    using be_okD(10) [OF ok r] rc by blast
  show "op \<noteq> ReturnOp \<Longrightarrow> st = op_status op \<Longrightarrow> be_ok (be_upd r (\<lambda>p. p\<lparr>status := st\<rparr>) B, (r, op) # R)"
    by (rule be_ok_ask [OF ok r idle]) (use tab in simp_all)
  show "\<not> be_busy st \<Longrightarrow> be_ok (be_upd r (\<lambda>p. p\<lparr>status := st\<rparr>) B, R)"
    by (rule be_ok_idle [OF ok r idle]) (use tab in simp_all)
qed

lemma be_step_ok:
  assumes "be_step S S'" and "be_ok S"
  shows "be_ok S'"
  using assms
proof (induction rule: be_step.induct)
  case (get_request st i B r B' R)
  then show ?case using getPage_begin_ok [of B R st i r True B'] by simp
next
  case (get_known st i B r B' R)
  then show ?case using getPage_begin_ok [of B R st i r False B'] by simp
next
  case (freeze_request B r B' R)
  then show ?case using page_section_ok(1) [of B R r FreezeOp] by (auto simp: be_freeze_begin_def split: if_splits)
next
  case (unpin_request B r B' R)
  then show ?case using page_section_ok(1) [of B R r UnpinOp] by (auto simp: be_unpin_begin_def split: if_splits)
next
  case (repin_request B r B' R)
  then show ?case using page_section_ok(1) [of B R r RepinOp] by (auto simp: be_repin_begin_def split: if_splits)
next
  case (unpin_known B r B' R)
  then show ?case using page_section_ok(2) [of B R r PDB_PAGE_NOT_LOADED]
    by (auto simp: be_unpin_begin_def be_busy_def split: if_splits)
next
  case (repin_known B r B' R)
  then show ?case using page_section_ok(2) [of B R r PDB_PAGE_LOADED]
    by (auto simp: be_repin_begin_def be_busy_def split: if_splits)
next
  case (freeze_answer r R a B B')
  then show ?case using be_ok_answer [of B R r FreezeOp "\<lambda>p. p\<lparr>sizeFrozen := True, status := PDB_PAGE_LOADED\<rparr>"]
    by (auto simp: be_freeze_finish_def be_busy_def split: if_splits)
next
  case (unpin_answer r R a B B')
  then show ?case using be_ok_answer [of B R r UnpinOp "\<lambda>p. p\<lparr>bytes := None, status := PDB_PAGE_NOT_LOADED\<rparr>"]
    by (auto simp: be_unpin_finish_def be_busy_def split: if_splits)
next
  case (repin_answer r R a B B')
  then obtain off where "a = Some (off, True)"
    by (auto simp: be_repin_finish_def split: option.splits prod.splits bool.splits)
  then show ?case using repin_answer
      be_ok_answer [of B R r RepinOp "\<lambda>p. p\<lparr>bytes := Some ((b_memory B + off) mod 2 ^ 64), status := PDB_PAGE_LOADED\<rparr>"]
    by (auto simp: be_repin_finish_def be_busy_def)
qed (blast intro: getPage_finish_ok getPage_bytes_ok' expect_begin_ok drop_ok free_anon_ok
      downToZero_begin_ok downToZero_finish_ok)+

lemma be_reachable_ok: "be_reachable S \<Longrightarrow> be_ok S"
proof (induction rule: be_reachable.induct)
  case (start base psz cfg)
  show ?case by (simp add: be_ok_def BackEnd_new_def PDBPage_new_def)
qed (rule be_step_ok)

text \<open>
  C5: however the threads of the back end interleave, of the requests that are sent under a status (getting and repinning, unpinning and giving back a page of a set, freezing; not giving back an
  anonymous page) at most one is under way for a page object; the status of the page is that of the request: loading while it is got or repinned, unloading while it is
  unpinned or given back, freezing while it is frozen. For a page of a set there is no
  such request for another object with the same key either.
\<close>

theorem requests_exclusive:
  assumes "be_reachable (B, R)" and "(r, op) \<in> set R" and "(q, op') \<in> set R"
    and "r = q \<or> whichSet (b_pages B r) \<noteq> None \<and> page_key (b_pages B r) = page_key (b_pages B q)"
  shows "r = q \<and> op = op' \<and> status (b_pages B r) = op_status op \<and> distinct R"
proof -
  note ok = be_reachable_ok [OF assms(1)]
  have "r = q"
  proof (rule ccontr)
    assume "r \<noteq> q"
    then have ws: "whichSet (b_pages B r) \<noteq> None" "whichSet (b_pages B q) \<noteq> None"
        "page_key (b_pages B r) = page_key (b_pages B q)" using assms(4) by (auto simp: page_key_def)
    have "r \<in> fst ` set R" "q \<in> fst ` set R" using assms(2,3) by force+
    then have "map_of (b_allPages B) (page_key (b_pages B r)) = Some r"
        "map_of (b_allPages B) (page_key (b_pages B q)) = Some q"
      using be_okD(10) [OF ok be_okD(3) [OF ok assms(2)] ws(1)] be_okD(10) [OF ok be_okD(3) [OF ok assms(3)] ws(2)]
      by blast+
    then show False using ws(3) \<open>r \<noteq> q\<close> by simp
  qed
  then show ?thesis
    using eq_key_imp_eq_value [OF be_okD(2) [OF ok], of r op op'] assms(2,3) be_okD(4) [OF ok assms(2)]
      distinct_map [of fst R] be_okD(2) [OF ok] by blast
qed

definition be_demo :: "be \<times> (nat \<times> be_op) list" where
  "be_demo = (snd (snd (projr (be_getPage_begin (Some (PDBSet ''st'' ''db'')) 3 (BackEnd_new 0 4 4)))), [(0, GetOp)])"

lemma be_demo_reachable: "be_reachable be_demo"
proof -
  have "be_getPage_begin (Some (PDBSet ''st'' ''db'')) 3 (BackEnd_new 0 4 4) = Inr (0, True, fst be_demo)"
    by (simp add: be_demo_def be_getPage_begin_def BackEnd_new_def be_enter_def be_busy_def PDBPage_new_def Let_def)
  then have "be_step (BackEnd_new 0 4 4, []) (fst be_demo, [(0, GetOp)])"
    by (rule be_step.get_request [rotated]) (simp add: anon_set_def make_PDBSet_def)
  then have "be_reachable (fst be_demo, [(0, GetOp)])" by (rule be_reachable.step [OF be_reachable.start])
  then show ?thesis by (simp add: be_demo_def)
qed

theorem requests_exclusive_witness:
  "status (b_pages (fst be_demo) 0) = PDB_PAGE_LOADING \<and> distinct (snd be_demo)"
  using requests_exclusive [of "fst be_demo" "snd be_demo" 0 GetOp 0 GetOp] be_demo_reachable
  by (simp add: be_demo_def)

end
