(* ===== verification/Borrowing.thy ===== *)
theory Borrowing
  imports FrontEndSystem BackEnd
begin

text \<open>
  The two halves of the buffer manager put together: an operation of the back end whose request is served
  by the handler of the front end. What is modelled of the communication is that the request and its answer
  arrive (\<^verbatim>\<open>RequestFactory::heapRequest\<close> is a parameter of the back end's template).
\<close>

section \<open>Whole operations\<close>

definition borrow_with ::
  "(string \<Rightarrow> string \<Rightarrow> nat \<Rightarrow> 'f \<Rightarrow> ((page_message \<times> bool) \<times> 'f) result) \<Rightarrow> string \<Rightarrow> string \<Rightarrow> nat \<Rightarrow>
     be \<Rightarrow> 'f \<Rightarrow> (nat \<times> be \<times> 'f) result" where
  "borrow_with get dbNm setNm num B F =
     andThen (be_getPage_begin (Some (make_PDBSet dbNm setNm)) num B) (\<lambda>(r, request, B1).
       if request
       then andThen (get dbNm setNm num F) (\<lambda>((msg, ok), F1).
            andThen (be_getPage_finish r (Some msg) B1) (\<lambda>B2. Inr (r, B2, F1)))
       else Inr (r, B1, F))"

definition give_back_with ::
  "(string \<Rightarrow> string \<Rightarrow> nat \<Rightarrow> bool \<Rightarrow> 'f \<Rightarrow> (bool \<times> 'f) result) \<Rightarrow> nat \<Rightarrow> be \<Rightarrow> 'f \<Rightarrow> (be \<times> 'f) result" where
  "give_back_with give r B F =
     (let B1 = be_upd r (\<lambda>p. p\<lparr>refCount := refCount p - 1\<rparr>) B; p = b_pages B1 r
      in if refCount p = 0 \<and> \<not> isAnon p
         then andThen (be_downToZero_begin r B1) (\<lambda>(request, B2).
           if request
           then andThen (give (dbName (the (whichSet p))) (setName (the (whichSet p))) (pageNum p) (dirty p) F)
                  (\<lambda>(res, F1). andThen (be_downToZero_finish r (Some res) B2) (\<lambda>B3. Inr (B3, F1)))
           else Inr (B2, F))
         else andThen (be_decRefCount r None B) (\<lambda>B2. Inr (B2, F)))"

abbreviation borrow_page :: "string \<Rightarrow> string \<Rightarrow> nat \<Rightarrow> be \<Rightarrow> fe \<Rightarrow> (nat \<times> be \<times> fe) result" where
  "borrow_page \<equiv> borrow_with (handleGetPageRequest True)"

abbreviation give_back :: "nat \<Rightarrow> be \<Rightarrow> fe \<Rightarrow> (be \<times> fe) result" where
  "give_back \<equiv> give_back_with (handleReturnPageRequest True)"

section \<open>What the back end relies on\<close>

text \<open>
  The contract of a server of pages, as the back end uses it: an answer describes the page that was asked
  for, which is then lent at the address the answer encodes; giving back a lent page that is not in transit
  succeeds and ends the loan. \<open>lent F k\<close> is the address and size class of the page lent under \<open>k\<close>
  and whether it is pinned.
\<close>

locale page_server =
  fixes get :: "string \<Rightarrow> string \<Rightarrow> nat \<Rightarrow> 'f \<Rightarrow> ((page_message \<times> bool) \<times> 'f) result"
    and give :: "string \<Rightarrow> string \<Rightarrow> nat \<Rightarrow> bool \<Rightarrow> 'f \<Rightarrow> (bool \<times> 'f) result"
    and ready :: "'f \<Rightarrow> bool"
    and base :: "'f \<Rightarrow> nat"
    and lent :: "'f \<Rightarrow> page_key \<Rightarrow> (nat option \<times> nat \<times> bool) option"
    and transit :: "'f \<Rightarrow> page_key set"
  assumes get_ok: "ready F \<Longrightarrow> get dbNm setNm num F = Inr ((msg, ok), F') \<Longrightarrow>
      m_pageNumber msg = num \<and> m_setName msg = setNm \<and> m_dbName msg = dbNm \<and> \<not> m_isAnonymous msg \<and>
      base F + m_offset msg < 2 ^ 64 \<and>
      lent F' (Some (make_PDBSet dbNm setNm), num) = Some (Some (base F + m_offset msg), m_numBytes msg, True)"
    and give_ok: "ready F \<Longrightarrow> lent F (Some (make_PDBSet dbNm setNm), num) \<noteq> None \<Longrightarrow>
      (Some (make_PDBSet dbNm setNm), num) \<notin> transit F \<Longrightarrow>
      \<exists>F'. give dbNm setNm num d F = Inr (True, F') \<and> lent F' (Some (make_PDBSet dbNm setNm), num) = None"
begin

lemma borrowed:
  assumes F: "ready F" and mem: "b_memory B = base F" and m: "map_ok (b_allPages B)"
    and none: "map_of (b_allPages B) (Some (make_PDBSet dbNm setNm), num) = None"
    and run: "borrow_with get dbNm setNm num B F = Inr (r, B', F')"
    and k_def: "k = (Some (make_PDBSet dbNm setNm), num)"
  shows "map_of (b_allPages B') k = Some r \<and> page_key (b_pages B' r) = k \<and>
    status (b_pages B' r) = PDB_PAGE_LOADED \<and> refCount (b_pages B' r) = 1 \<and> \<not> isAnon (b_pages B' r) \<and>
    pinned (b_pages B' r) \<and> (\<exists>a. bytes (b_pages B' r) = Some a \<and> lent F' k = Some (Some a, numBytes (location (b_pages B' r)), True))"
proof -
  let ?new = "PDBPage_new\<lparr>bytes := None, whichSet := Some (make_PDBSet dbNm setNm), pageNum := num,
     status := PDB_PAGE_NOT_LOADED\<rparr>"
  define B1 where "B1 = be_upd (b_next B) (\<lambda>p. (incRefCount p)\<lparr>status := PDB_PAGE_LOADING\<rparr>) (snd (be_enter k ?new B))"
  have "be_getPage_begin (Some (make_PDBSet dbNm setNm)) num B = Inr (b_next B, True, B1)"
    using m none by (simp add: be_getPage_begin_def Let_def B1_def be_enter_def k_def map_of_map_put
        be_busy_def PDBPage_new_def)
  then obtain msg ok where h: "get dbNm setNm num F = Inr ((msg, ok), F')"
      and fin: "be_getPage_finish r (Some msg) B1 = Inr B'" and r: "r = b_next B"
    using run by (auto simp: borrow_with_def andThen_Inr_iff)
  note g = get_ok [OF F h]
  have "B' = be_upd r (fill_page (b_memory B) (Some (make_PDBSet dbNm setNm)) msg) B1"
    using fin g by (simp add: be_getPage_finish_def B1_def be_enter_def)
  then show ?thesis
    using g mem r m by (simp add: B1_def be_enter_def fill_page_def page_key_def k_def incRefCount_def
        PDBPage_new_def map_of_map_put)
qed

lemma given_back:
  assumes F: "ready F" and m: "map_ok (b_allPages B)" and key: "page_key (b_pages B r) = (Some st, num)"
    and tab: "map_of (b_allPages B) (Some st, num) = Some r"
    and pg: "refCount (b_pages B r) = 1" "\<not> isAnon (b_pages B r)" "\<not> be_busy (status (b_pages B r))"
    and len: "lent F (Some st, num) \<noteq> None" and tr: "(Some st, num) \<notin> transit F"
  shows "\<exists>B' F'. give_back_with give r B F = Inr (B', F') \<and> map_of (b_allPages B') (Some st, num) = None \<and>
    bytes (b_pages B' r) = None \<and> lent F' (Some st, num) = None"
proof -
  have st: "make_PDBSet (dbName st) (setName st) = st" by (cases st) (simp add: make_PDBSet_def)
  have p: "whichSet (b_pages B r) = Some st" "pageNum (b_pages B r) = num" using key by (auto simp: page_key_def)
  obtain F' where F': "give (dbName st) (setName st) num (dirty (b_pages B r)) F = Inr (True, F')"
      "lent F' (Some st, num) = None"
    using give_ok [OF F, of "dbName st" "setName st" num] len tr by (auto simp: st)
  have beg: "be_downToZero_begin r (be_upd r (\<lambda>p. p\<lparr>refCount := refCount p - 1\<rparr>) B) =
      Inr (True, be_upd r (\<lambda>p. p\<lparr>status := PDB_PAGE_UNLOADING\<rparr>) (be_upd r (\<lambda>p. p\<lparr>refCount := refCount p - 1\<rparr>) B))"
    using tab key pg p by (simp add: be_downToZero_begin_def Let_def)
  show ?thesis
    unfolding give_back_with_def Let_def beg
    using key pg p F' by (simp add: be_downToZero_finish_def map_of_map_erase)
qed

end

section \<open>The page of the front end is not touched by lending it\<close>

lemma release_keeps:
  assumes ok: "fe_ok L F" and h: "0 < L h" and room: "tick_room (mgr F)" and run: "release h F = Inr F'"
    and q: "1 < huse F h \<or> hpage F h \<noteq> q \<or> 1 < refCount (pages (mgr F) q)"
  shows "\<exists>n. pages (mgr F') q = (pages (mgr F) q)\<lparr>refCount := n\<rparr>"
proof -
  have pos: "0 < huse F h" using fe_okD(3) [OF ok, of h] h by linarith
  have self: "\<exists>n. p = p\<lparr>refCount := n\<rparr>" for p :: pdb_page by (rule exI [of _ "refCount p"]) simp
  show ?thesis
  proof (cases "huse F h = 1")
    case False
    then have "mgr F' = mgr F" using run pos by (auto simp: release_def)
    then show ?thesis using self by simp
  next
    case True
    note hc = handle_counted [OF ok pos]
    obtain s' where s': "decRefCount (hpage F h) (mgr F) = Inr s'" "release_ok (hpage F h) (mgr F) s'"
      using decRefCount_ok [OF fe_okD(1) [OF ok] hc room] by blast
    have m: "mgr F' = s'" using run True s'(1) by (auto simp: release_def on_mgr_def)
    show ?thesis
    proof (cases "hpage F h = q")
      case False
      then show ?thesis using s'(2) m self by (simp add: release_ok_def)
    next
      case same: True
      then have "1 < refCount (pages (mgr F) q)" using q True by simp
      then have "s' = upd_page q (\<lambda>p. p\<lparr>refCount := refCount p - 1\<rparr>) (mgr F)"
        using s'(1) same by (simp add: decRefCount_def Let_def upd_page_def)
      then show ?thesis using m by (auto simp: upd_page_def)
    qed
  qed
qed

lemma lend_keeps:
  assumes ok: "fe_inv F" and got: "mgr_got r (mgr F) s'" and room: "fe_room F"
    and run: "lend True (r, s') F = Inr (x, F')"
  shows "\<exists>n. pages (mgr F') r = (pages s' r)\<lparr>refCount := n\<rparr>"
proof -
  define h where "h = nextHandle F"
  define F1 where "F1 = snd (make_handle r (F\<lparr>mgr := s'\<rparr>))"
  define k where "k = page_key (pages s' r)"
  note mh = make_handle_ok [OF ok got, folded h_def F1_def]
  have tick: "lastTimeTick (mgr F1) + 3 \<le> 2 ^ 32" using got room by (simp add: mh mgr_got_def fe_room_def)
  have mk: "make_handle r (F\<lparr>mgr := s'\<rparr>) = (h, F1)" by (simp add: F1_def h_def make_handle_def)
  define F1' where "F1' = (share h F1)\<lparr>sentPages := map_put k h (sentPages F1)\<rparr>"
  obtain F2 where F2: "put_sent k h F1 = Inr F2" "fe_ok ((\<lambda>_. 0)(h := 1)) F2" "fe_frame F1 F2"
    using put_sent_ok [OF mh(1), of h k] mh tick by (auto simp: tick_room_def k_def)
  have fresh: "h' \<noteq> h" if "map_of (sentPages F) k = Some h'" for h'
    using sent_used [OF ok that] fe_okD(4) [OF ok, of h] by (auto simp: h_def)
  have "(\<exists>n. pages (mgr F2) r = (pages s' r)\<lparr>refCount := n\<rparr>) \<and> huse F2 h = 2"
  proof (cases "map_of (sentPages F) k")
    case None
    then have "F2 = F1'" using F2(1) mh by (simp add: put_sent_def F1'_def)
    then show ?thesis using mh by (auto simp: F1'_def share_def intro!: exI [of _ "refCount (pages s' r)"])
  next
    case (Some h')
    let ?L = "(\<lambda>_. 0)(h := 1, h' := 1)"
    have use': "0 < huse F h'" by (rule sent_used [OF ok Some])
    have ok1: "fe_ok ?L F1'"
    proof -
      have "holders F1' q = holders F1 q" for q using mh(2) by (auto simp: F1'_def share_def holders_def)
      moreover have "entries_of (map_put k h (sentPages F1)) y + ?L y \<le> huse F1' y" for y
        using fe_okD(3) [OF mh(1), of y] entries_of_put [OF fe_okD(2) [OF mh(1)], of k h y] Some fresh [OF Some]
        by (auto simp: F1'_def share_def mh split: if_splits)
      ultimately show ?thesis
        using mh set_map_put_subset [of k h "sentPages F1"]
        by (auto simp: fe_ok_def F1'_def share_def map_ok_put k_def)
    qed
    have rel: "release h' F1' = Inr F2" using F2(1) Some mh by (simp add: put_sent_def F1'_def)
    have hp': "hpage F1' h' = hpage F h'" "huse F1' h' = huse F h'" "mgr F1' = s'" "huse F1' h = 2"
      using fresh [OF Some] mh by (simp_all add: F1'_def share_def F1_def make_handle_def h_def)
    have two: "1 < refCount (pages s' r)" if "hpage F h' = r"
    proof -
      have "r < nextPage (mgr F)" "0 < refCount (pages (mgr F) r)"
        using handle_counted [OF ok use'] that by auto
      then show ?thesis using got by (simp add: mgr_got_def)
    qed
    have tr: "tick_room (mgr F1')" using tick mh hp' by (simp add: tick_room_def)
    have "\<exists>n. pages (mgr F2) r = (pages (mgr F1') r)\<lparr>refCount := n\<rparr>"
      by (rule release_keeps [OF ok1 _ tr rel]) (use two hp' in auto)
    moreover have "huse F2 = (huse F1')(h' := huse F1' h' - 1)"
      using release_fe_ok [OF ok1 _ tr, of h'] rel by auto
    ultimately show ?thesis using hp' fresh [OF Some] by simp
  qed
  moreover have "mgr F' = mgr F2" if "huse F2 h = 2"
    using run that F2(1) mh
    by (auto simp: lend_def mk sendPageToBackend_def Let_def k_def [symmetric] release_def)
  ultimately show ?thesis by simp
qed

section \<open>The front end keeps the contract\<close>

definition lent_at :: "fe \<Rightarrow> page_key \<Rightarrow> (nat option \<times> nat \<times> bool) option" where
  "lent_at F k = map_option (\<lambda>h. (bytes (pages (mgr F) (hpage F h)), numBytes (location (pages (mgr F) (hpage F h))), pinned (pages (mgr F) (hpage F h))))
     (map_of (sentPages F) k)"

definition fe_serving :: "fe \<Rightarrow> bool" where
  "fe_serving F \<longleftrightarrow> fe_reachable F \<and> fe_room F \<and>
     memory (mgr F) + pageSize (mgr F) * numPages (mgr F) \<le> 2 ^ 64"

lemma fe_get_ok:
  assumes "fe_serving F" and h: "handleGetPageRequest True dbNm setNm num F = Inr ((msg, ok), F')"
    and k: "k = (Some (make_PDBSet dbNm setNm), num)"
  shows "m_pageNumber msg = num \<and> m_setName msg = setNm \<and> m_dbName msg = dbNm \<and> \<not> m_isAnonymous msg \<and>
      memory (mgr F) + m_offset msg < 2 ^ 64 \<and>
      lent_at F' k = Some (Some (memory (mgr F) + m_offset msg), m_numBytes msg, True)"
proof -
  have F: "fe_reachable F" "fe_room F" "memory (mgr F) + pageSize (mgr F) * numPages (mgr F) \<le> 2 ^ 64"
    using assms(1) by (auto simp: fe_serving_def)
  note inv = fe_reachable_inv [OF F(1)]
  obtain q s' where run: "getPage_set (Some (make_PDBSet dbNm setNm)) num (mgr F) = Inr (q, s')"
    and m: "msg = page_message_of q s'" and la: "lent_as (page_key (pages s' q)) q True F F'"
    using lend_set_run [OF inv F(2) h] by auto
  have got: "mgr_got q (mgr F) s'" and key: "page_key (pages s' q) = k" and na: "\<not> isAnon (pages s' q)"
    using getPage_set_got [OF fe_okD(1) [OF inv] fe_room_tick [OF F(2)] run] k by auto
  have ld: "lend True (q, s') F = Inr ((msg, ok), F')" using h run by (simp add: handlers_lend)
  obtain n where pg: "pages (mgr F') q = (pages s' q)\<lparr>refCount := n\<rparr>"
    using lend_keeps [OF inv got F(2) ld] by blast
  note at = set_page_address [OF inv F(2,3) run]
  have "pinned (pages s' q)" using got by (simp add: mgr_got_def)
  then show ?thesis
    using m la key na pg at k
    by (auto simp: lent_as_def lent_at_def page_message_of_def Let_def page_key_def make_PDBSet_def)
qed

lemma fe_give_ok:
  assumes "fe_serving F" and "lent_at F k \<noteq> None" and "k \<notin> forwarding F"
    and k: "k = (Some (make_PDBSet dbNm setNm), num)"
  shows "\<exists>F'. handleReturnPageRequest True dbNm setNm num d F = Inr (True, F') \<and> lent_at F' k = None"
proof -
  have F: "fe_inv F" "fe_room F" using assms(1) fe_reachable_inv by (auto simp: fe_serving_def)
  from handleReturnPageRequest_ok [OF F k, of True d] show ?thesis
    using assms(2,3) by (auto simp: lent_at_def returned_def)
qed

interpretation fe_server: page_server "handleGetPageRequest True" "handleReturnPageRequest True" fe_serving
  "\<lambda>F. memory (mgr F)" lent_at forwarding
  by (unfold_locales; (rule fe_get_ok | rule fe_give_ok); (assumption | rule refl)?)

section \<open>Borrowing and giving back\<close>

text \<open>
  C3: a page of a set that the back end has no entry for and asks for is, when the call returns, the page
  of the front end: both processes have it at the same address of the shared memory, with the same size,
  under the key that was asked for, pinned, and the front end has it recorded as lent. (The front end is in a state of \<open>fe_serving\<close>: reached by \<open>fe_step\<close>, counters in range, shared memory
  below \<open>2 ^ 64\<close>; the request and its answer arrive.)
\<close>

theorem borrowed_page_shared:
  assumes "fe_serving F" and "b_memory B = memory (mgr F)"
    and "map_ok (b_allPages B)" and "map_of (b_allPages B) (Some (make_PDBSet dbNm setNm), num) = None"
    and "borrow_page dbNm setNm num B F = Inr (r, B', F')"
  defines "k \<equiv> (Some (make_PDBSet dbNm setNm), num)"
  shows "map_of (b_allPages B') k = Some r \<and> page_key (b_pages B' r) = k \<and>
    status (b_pages B' r) = PDB_PAGE_LOADED \<and> refCount (b_pages B' r) = 1 \<and> pinned (b_pages B' r) \<and>
    (\<exists>h. map_of (sentPages F') k = Some h \<and> bytes (pages (mgr F') (hpage F' h)) \<noteq> None \<and> pinned (pages (mgr F') (hpage F' h)) \<and>
       bytes (b_pages B' r) = bytes (pages (mgr F') (hpage F' h)) \<and>
       numBytes (location (b_pages B' r)) = numBytes (location (pages (mgr F') (hpage F' h))))"
  using fe_server.borrowed [OF assms(1-5) k_def [THEN meta_eq_to_obj_eq]]
  by (auto simp: lent_at_def)

definition be_start :: be where
  "be_start = BackEnd_new 0 4 4"

definition be_has :: be where
  "be_has = fst (snd (projr (borrow_page ''db'' ''st'' 3 be_start fe_lent)))"

lemmas be_exec_defs [bm_exec] = be_start_def BackEnd_new_def borrow_with_def be_getPage_begin_def be_enter_def
  be_upd_def be_busy_def be_getPage_finish_def fill_page_def

lemma be_has_run: "borrow_page ''db'' ''st'' 3 be_start fe_lent = Inr (0, be_has, fe_both)"
proof -
  obtain B1 where B1: "be_getPage_begin (Some (make_PDBSet ''db'' ''st'')) 3 be_start = Inr (0, True, B1)"
    by (simp add: bm_exec)
  then show ?thesis
    by (simp add: be_has_def borrow_with_def fe_both_run be_getPage_finish_def)
qed

theorem borrowed_page_shared_witness:
  "\<exists>h. map_of (sentPages fe_both) (Some (make_PDBSet ''db'' ''st''), 3) = Some h \<and>
     bytes (b_pages be_has 0) = bytes (pages (mgr fe_both) (hpage fe_both h)) \<and> bytes (b_pages be_has 0) \<noteq> None"
proof -
  have "memory (mgr fe_lent) + pageSize (mgr fe_lent) * numPages (mgr fe_lent) \<le> 2 ^ 64" "memory (mgr fe_lent) = 0"
    by (simp_all add: fe_lent_def fe_start_def demo_start_def bm_exec)
  then have "fe_serving fe_lent" using fe_demo_reachable(2) fe_demo_room(2) by (simp add: fe_serving_def)
  from borrowed_page_shared [OF this _ _ _ be_has_run] show ?thesis
    using \<open>memory (mgr fe_lent) = 0\<close> by (auto simp: be_start_def BackEnd_new_def)
qed

text \<open>
  Giving back the last handle of a page of a set takes it off the books of both processes: the front
  end has no entry for its key any more, unless it is forwarding the page, and the back end neither; the
  call returns.
\<close>

theorem given_back_page_gone:
  assumes "fe_serving F" and "map_ok (b_allPages B)"
    and "page_key (b_pages B r) = (Some st, num)" and "map_of (b_allPages B) (Some st, num) = Some r"
    and "refCount (b_pages B r) = 1" and "\<not> isAnon (b_pages B r)" and "\<not> be_busy (status (b_pages B r))"
    and "map_of (sentPages F) (Some st, num) \<noteq> None" and "(Some st, num) \<notin> forwarding F"
  shows "\<exists>B' F'. give_back r B F = Inr (B', F') \<and> map_of (b_allPages B') (Some st, num) = None \<and>
    bytes (b_pages B' r) = None \<and> map_of (sentPages F') (Some st, num) = None"
  using fe_server.given_back [OF assms(1-7) _ assms(9)] assms(8) by (auto simp: lent_at_def)

lemma be_has_fields:
  "b_allPages be_has = [((Some (PDBSet ''st'' ''db''), 3), 0)]" "page_key (b_pages be_has 0) = (Some (PDBSet ''st'' ''db''), 3)"
  "refCount (b_pages be_has 0) = 1" "\<not> isAnon (b_pages be_has 0)" "status (b_pages be_has 0) = PDB_PAGE_LOADED"
  "getSize 1 (mgr fe_both) = 4" "numBytes (location (b_pages be_has 0)) = 1"
  by (simp_all add: be_has_def bm_exec fe_lent_def fe_start_def demo_start_def fe_both_def)

theorem given_back_page_gone_witness:
  "\<exists>B' F'. give_back 0 be_has fe_both = Inr (B', F') \<and>
     map_of (b_allPages B') (Some (PDBSet ''st'' ''db''), 3) = None \<and>
     map_of (sentPages F') (Some (PDBSet ''st'' ''db''), 3) = None"
proof -
  have "memory (mgr fe_both) + pageSize (mgr fe_both) * numPages (mgr fe_both) \<le> 2 ^ 64"
    by (simp add: fe_both_def fe_lent_def fe_start_def demo_start_def bm_exec)
  then have "fe_serving fe_both" using fe_demo_reachable(3) fe_demo_room(3) by (simp add: fe_serving_def)
  from given_back_page_gone [OF this, of be_has 0 "PDBSet ''st'' ''db''" 3] show ?thesis
    using be_has_fields fe_both_fields by (auto simp: map_ok_def be_busy_def)
qed

section \<open>Departures\<close>

text \<open>
  After a page was frozen to a smaller size the back end still reports the old one. The page of four
  bytes is frozen to two, the front end hands the other two bytes out as free memory, but the handle of the
  back end has the size class of the full page.
\<close>

theorem frozen_size_not_reported:
  "case andThen (handleFreezeSizeRequest True False ''db'' ''st'' 3 2 fe_both) (\<lambda>(res, F).
      andThen (be_freezeSize 0 (Some res) be_has) (\<lambda>B. Inr (B, F))) of
     Inl e \<Rightarrow> False
   | Inr (B, F) \<Rightarrow> sizeFrozen (b_pages B 0) \<and> getSize 1 (mgr F) = 2 \<and> 2 \<in> set (emptyMiniPages (mgr F) ! 0) \<and>
       miniBytes (mgr F) (numBytes (location (b_pages B 0))) = 4"
proof -
  have "case handleFreezeSizeRequest True False ''db'' ''st'' 3 2 fe_both of Inl e \<Rightarrow> False
     | Inr (res, F) \<Rightarrow> res \<and> getSize 1 (mgr F) = 2 \<and> 2 \<in> set (emptyMiniPages (mgr F) ! 0) \<and> minPage (mgr F) = 2"
    by (simp add: handleFreezeSizeRequest_def fe_both_def fe_lent_def fe_start_def demo_start_def bm_exec)
  then show ?thesis
    by (cases "handleFreezeSizeRequest True False ''db'' ''st'' 3 2 fe_both")
       (auto simp: be_freezeSize_def be_freeze_begin_def be_freeze_finish_def be_busy_def be_has_fields miniBytes_def)
qed

text \<open>
  An anonymous page that the back end has allocated and dropped stays in its table of pages: it was
  entered under the null set but is erased under the set with two empty names.
\<close>

theorem dropped_anon_page_stays:
  assumes "map_ok (b_allPages B)" and "n \<le> b_pageSize B" and "m_isAnonymous msg"
    and "be_getPage_bytes n (Some msg) B = Inr (Some r, B1)" and "be_decRefCount r (Some True) B1 = Inr B2"
  shows "map_of (b_allPages B2) (None, m_pageNumber msg) = Some r \<and> refCount (b_pages B2 r) = 0"
  using assms
  by (auto simp: be_getPage_bytes_def be_decRefCount_def be_freeAnonymousPage_def be_freeAnonymousPage_begin_def
      be_enter_def fill_page_def be_upd_def incRefCount_def PDBPage_new_def map_of_map_put map_of_map_erase
      Let_def)

theorem dropped_anon_page_stays_witness:
  "case be_getPage_bytes 2 (Some \<lparr>m_offset = 0, m_pageNumber = 1, m_isAnonymous = True, m_sizeFrozen = False,
        m_startPos = -1, m_numBytes = 0, m_setName = [], m_dbName = []\<rparr>) be_start of
     Inr (Some r, B1) \<Rightarrow> (case be_decRefCount r (Some True) B1 of
        Inr B2 \<Rightarrow> map_of (b_allPages B2) (None, 1) = Some r | Inl e \<Rightarrow> False)
   | _ \<Rightarrow> False"
proof -
  let ?msg = "\<lparr>m_offset = 0, m_pageNumber = 1, m_isAnonymous = True, m_sizeFrozen = False,
        m_startPos = -1, m_numBytes = 0, m_setName = [], m_dbName = []\<rparr>"
  obtain B1 where B1: "be_getPage_bytes 2 (Some ?msg) be_start = Inr (Some 0, B1)" "isAnon (b_pages B1 0)"
      "refCount (b_pages B1 0) = 1"
    by (simp add: be_getPage_bytes_def bm_exec)
  obtain B2 where B2: "be_decRefCount 0 (Some True) B1 = Inr B2"
    using B1(2,3) by (simp add: be_decRefCount_def be_freeAnonymousPage_def)
  have "map_of (b_allPages B2) (None, m_pageNumber ?msg) = Some 0 \<and> refCount (b_pages B2 0) = 0"
    by (rule dropped_anon_page_stays [OF _ _ _ B1(1) B2]) (simp_all add: be_start_def BackEnd_new_def)
  then show ?thesis using B1(1) B2 by simp
qed

end
