(* ===== verification/BufferDepartures.thy ===== *)
theory BufferDepartures
  imports BufferSystem
begin

text \<open>
  Executions of the buffer manager in which the code leaves what its comments promise. Each is a closed
  computation of the model from \<open>initialize\<close> on; the restrictions on client calls in \<open>bm_step\<close> (freeze
  only full-size pages, ask for at most a page, do not clear a set that is in use, page sizes below
  4 GiB) are exactly what keeps them out of the reachable states.
\<close>

text \<open>
  Freezing the size of a page that is smaller than a full page hands out memory that is not the
  page's: with one page of eight bytes at address 0, a four-byte page frozen to two bytes adds the
  addresses 8 and 10 beyond the mapped memory to the free list, and the next two-byte request has
  undefined behaviour.
\<close>

theorem freezeSize_mini_page_leaves_frame:
  "(case andThen (andThen (initialize 2 (Some 0) True (\<lambda>_. []) ''t'' 8 1 ''m'' ''d'') (getPage_bytes 4))
      (\<lambda>(r, s). freezeSize r 2 s) of
      Inl e \<Rightarrow> False
    | Inr s \<Rightarrow> memory s + pageSize s * numPages s = 8 \<and> emptyMiniPages s ! 0 = [6, 8, 10] \<and>
        getPage_bytes 2 s = Inl (Undefined ''erase of the end iterator''))"
  by (simp add: bm_exec upt_rec)

text \<open>
  Freeing the last pinned page of a frame that still holds an unpinned page leaves that frame outside
  the queue for eviction: with a single frame, two pages on it, one unpinned and the other freed, nothing
  is pinned and yet the next full-page request ends in the fatal exit for too many pinned pages.
\<close>

theorem freeAnonymousPage_strands_frame:
  "(case andThen (andThen (andThen (andThen (initialize 2 (Some 0) True (\<lambda>_. []) ''t'' 4 1 ''m'' ''d'')
        (getPage_bytes 2)) (\<lambda>(r, s). getPage_bytes 2 s)) (\<lambda>(q, s). unpin 0 s)) (decRefCount 1) of
      Inl e \<Rightarrow> False
    | Inr s \<Rightarrow> \<not> pinned (pages s 0) \<and> refCount (pages s 1) = 0 \<and> numPinned s 0 = 0 \<and> lastUsed s = [] \<and>
        getPage_bytes 4 s = Inl (Exit ''run out of RAM in the storage manager''))"
  by (simp add: bm_exec upt_rec)

text \<open>
  Clearing a set whose page is unpinned but still buffered corrupts the pin counter of its frame: the
  frame stays in the eviction queue under its old tick, a page placed on it afterwards is pinned without
  leaving the queue, and the next request evicts that pinned page.
\<close>

theorem clearSet_evicts_pinned_page:
  "(case andThen (andThen (andThen (andThen (andThen
        (initialize 2 (Some 0) True (\<lambda>_. []) ''t'' 4 1 ''m'' ''d'')
        (getPage_set (Some (PDBSet ''a'' ''b'')) 0)) (\<lambda>(r, s). freezeSize r 2 s)) (unpin 0))
        (clearSet (PDBSet ''a'' ''b''))) (getPage_bytes 2) of
      Inl e \<Rightarrow> False
    | Inr (r, s) \<Rightarrow> pinned (pages s r) \<and> bytes (pages s r) = Some 2 \<and> 
        (case getPage_bytes 4 s of
           Inl e \<Rightarrow> False
         | Inr (q, s') \<Rightarrow> pinned (pages s' r) \<and> bytes (pages s' r) = None \<and> bytes (pages s' q) = Some 0))"
  by (simp add: bm_exec upt_rec)

text \<open>
  With pages of 4 GiB and a minimum page size of 1 MiB, a configuration that \<open>initialize\<close> accepts,
  the 32-bit shift that computes the step of the splitting loop is zero and the first request for a full
  page never ends.
\<close>

theorem huge_pages_split_forever:
  "(case initialize (2 ^ 20) (Some 0) True (\<lambda>_. []) ''t'' (2 ^ 32) 1 ''m'' ''d'' of
      Inl e \<Rightarrow> False
    | Inr s \<Rightarrow> getPage_anon s = Inl (Diverges ''splitting a page''))"
  by (simp add: bm_exec upt_rec getPage_anon_def)

text \<open>
  A request for more than a page is only warned about: the size class it computes is past the end of
  the per-class lists and is used as an index.
\<close>

theorem oversized_request_undefined:
  "(case initialize 2 (Some 0) True (\<lambda>_. []) ''t'' 4 1 ''m'' ''d'' of
      Inl e \<Rightarrow> False
    | Inr s \<Rightarrow> getPage_bytes 5 s = Inl (Undefined ''vector index out of range''))"
  by (simp add: bm_exec upt_rec)

text \<open>
  The check that the page size is a power of two accepts half of the minimum page size, for which no
  size class exists: every request then indexes empty lists.
\<close>

theorem half_minimum_page_size_accepted:
  "(case initialize 4 (Some 0) True (\<lambda>_. []) ''t'' 2 1 ''m'' ''d'' of
      Inl e \<Rightarrow> False
    | Inr s \<Rightarrow> logOfPageSize s = -1 \<and> getPage_anon s = Inl (Undefined ''vector index out of range''))"
  by (simp add: bm_exec upt_rec getPage_anon_def)

definition evict_round :: "nat \<Rightarrow> bm \<Rightarrow> bm result" where
  "evict_round r s =
     andThen (unpin r (store_byte r 0 1 s)) (\<lambda>s1. andThen (getPage_bytes 4 s1) (\<lambda>(q, s2).
       andThen (decRefCount q s2) (repin r)))"

text \<open>
  Every eviction of a dirty anonymous page takes a new position in the temporary file without
  recycling the one the page had: after two rounds of evicting and rewriting a two-byte page the end of the
  file has moved by four bytes and no position is available for reuse.
\<close>

theorem evicted_page_leaks_position:
  "(case andThen (andThen (andThen (initialize 2 (Some 0) True (\<lambda>_. []) ''t'' 4 1 ''m'' ''d'')
        (getPage_bytes 2)) (\<lambda>(r, s). evict_round r s)) (evict_round 0) of
      Inl e \<Rightarrow> False
    | Inr s \<Rightarrow> startPos (location (pages s 0)) = 2 \<and> lastTempPos s = 4 \<and> availablePositions s ! 0 = [])"
  by (simp add: bm_exec upt_rec evict_round_def store_byte_def)

end
