(* ===== verification/FileWriter.thy ===== *)
theory FileWriter
  imports PC_Prelude
begin

text \<open>
  The metadata file of the storage, \<^verbatim>\<open>PDBBufferManagerFileWriter.cc\<close>: a map from strings to strings with
  typed accessors, written as one line \<^verbatim>\<open>|key|value|\<close> per entry and read back by searching for the bars;
  lists of strings are joined by \<^verbatim>\<open>#\<close>. With it the parts of the standard library it uses: decimal
  printing, \<^verbatim>\<open>stoul\<close> and \<^verbatim>\<open>stol\<close>, \<^verbatim>\<open>find\<close>, \<^verbatim>\<open>substr\<close> and \<^verbatim>\<open>getline\<close>.
\<close>

section \<open>Numbers as text\<close>

definition digit_char :: "nat \<Rightarrow> char" where
  "digit_char d = char_of (48 + d)"

fun show_nat :: "nat \<Rightarrow> string" where
  "show_nat n = (if n < 10 then [digit_char n] else show_nat (n div 10) @ [digit_char (n mod 10)])"

declare show_nat.simps [simp del]

definition show_int :: "int \<Rightarrow> string" where
  "show_int n = (if n < 0 then CHR ''-'' # show_nat (nat (- n)) else show_nat (nat n))"

definition is_digit :: "char \<Rightarrow> bool" where
  "is_digit c \<longleftrightarrow> 48 \<le> (of_char c :: nat) \<and> (of_char c :: nat) \<le> 57"

definition is_space :: "char \<Rightarrow> bool" where
  "is_space c \<longleftrightarrow> (of_char c :: nat) = 32 \<or> (9 \<le> (of_char c :: nat) \<and> (of_char c :: nat) \<le> 13)"

definition num_of :: "string \<Rightarrow> nat" where
  "num_of ds = foldl (\<lambda>a c. 10 * a + (of_char c - 48)) 0 ds"

text \<open>
  The conversions skip white space and take an optional sign; no digits is \<^verbatim>\<open>invalid_argument\<close>, too large a
  value is \<^verbatim>\<open>out_of_range\<close>. What follows the digits is ignored.
\<close>

definition split_number :: "string \<Rightarrow> bool \<times> string" where
  "split_number s =
     (let t = dropWhile is_space s
      in (t \<noteq> [] \<and> hd t = CHR ''-'',
          takeWhile is_digit (if t \<noteq> [] \<and> (hd t = CHR ''-'' \<or> hd t = CHR ''+'') then tl t else t)))"

definition stoul :: "string \<Rightarrow> nat result" where
  "stoul s =
     (let (neg, ds) = split_number s; n = num_of ds
      in if ds = [] then Inl (Throw ''invalid_argument'')
         else if 2 ^ 64 \<le> n then Inl (Throw ''out_of_range'')
         else Inr (if neg then (2 ^ 64 - n) mod 2 ^ 64 else n))"

definition stol :: "string \<Rightarrow> int result" where
  "stol s =
     (let (neg, ds) = split_number s; n = (if neg then - int (num_of ds) else int (num_of ds))
      in if ds = [] then Inl (Throw ''invalid_argument'')
         else if n < - (2 ^ 63) \<or> 2 ^ 63 \<le> n then Inl (Throw ''out_of_range'')
         else Inr n)"

lemma of_char_digit: "d < 10 \<Longrightarrow> (of_char (digit_char d) :: nat) = 48 + d"
  by (simp add: digit_char_def of_char_of)

lemma is_digit_digit_char: "d < 10 \<Longrightarrow> is_digit (digit_char d)"
  by (simp add: is_digit_def of_char_digit)

lemma show_nat_digits: "c \<in> set (show_nat n) \<Longrightarrow> is_digit c"
proof (induction n rule: show_nat.induct)
  case (1 n)
  then show ?case
    by (cases "n < 10")
       (auto simp: show_nat.simps [of n] is_digit_digit_char)
qed

lemma show_nat_ne: "show_nat n \<noteq> []"
  by (simp add: show_nat.simps [of n])

lemma num_of_snoc: "num_of (ds @ [c]) = 10 * num_of ds + (of_char c - 48)"
  by (simp add: num_of_def)

lemma num_of_show_nat: "num_of (show_nat n) = n"
proof (induction n rule: show_nat.induct)
  case (1 n)
  show ?case
  proof (cases "n < 10")
    case True
    then show ?thesis by (simp add: show_nat.simps [of n] num_of_def of_char_digit)
  next
    case False
    then show ?thesis
      using 1 by (simp add: show_nat.simps [of n] num_of_snoc of_char_digit)
  qed
qed

lemma digit_not_space: "is_digit c \<Longrightarrow> \<not> is_space c"
  by (auto simp: is_digit_def is_space_def)

lemma digit_not_sign: "is_digit c \<Longrightarrow> c \<noteq> CHR ''-'' \<and> c \<noteq> CHR ''+''"
  by (auto simp: is_digit_def)

lemma show_nat_Cons: "\<exists>c cs. show_nat n = c # cs \<and> is_digit c"
  using show_nat_ne [of n] show_nat_digits [of _ n] by (cases "show_nat n") auto

lemma split_number_show_nat:
  assumes "rest = [] \<or> \<not> is_digit (hd rest)"
  shows "split_number (show_nat n @ rest) = (False, show_nat n)"
proof -
  obtain c cs where c: "show_nat n = c # cs" "is_digit c" using show_nat_Cons by blast
  have "takeWhile is_digit (show_nat n @ rest) = show_nat n"
    using assms show_nat_digits by (cases rest) (auto simp: takeWhile_append2)
  then show ?thesis
    using c digit_not_space [OF c(2)] digit_not_sign [OF c(2)] by (simp add: split_number_def Let_def)
qed

lemma stoul_show_nat:
  assumes "n < 2 ^ 64" and "rest = [] \<or> \<not> is_digit (hd rest)"
  shows "stoul (show_nat n @ rest) = Inr n"
  using assms show_nat_ne [of n]
  by (simp add: stoul_def split_number_show_nat num_of_show_nat)

lemma stol_show_int:
  assumes "- (2 ^ 63) \<le> n" and "n < 2 ^ 63"
  shows "stol (show_int n) = Inr n"
proof (cases "n < 0")
  case True
  obtain c cs where c: "show_nat (nat (- n)) = c # cs" "is_digit c" using show_nat_Cons by blast
  have "takeWhile is_digit (show_nat (nat (- n))) = show_nat (nat (- n))"
    using show_nat_digits by (simp add: takeWhile_eq_all_conv)
  then have "split_number (show_int n) = (True, show_nat (nat (- n)))"
    using True by (simp add: split_number_def show_int_def is_space_def)
  then show ?thesis
    using True assms show_nat_ne [of "nat (- n)"] by (simp add: stol_def num_of_show_nat)
next
  case False
  have "split_number (show_nat (nat n) @ []) = (False, show_nat (nat n))"
    by (rule split_number_show_nat) simp
  then show ?thesis
    using False assms show_nat_ne [of "nat n"] by (simp add: stol_def show_int_def num_of_show_nat)
qed

section \<open>Searching strings\<close>

text \<open>\<^verbatim>\<open>s.find (c, pos)\<close>; \<open>None\<close> is \<^verbatim>\<open>npos\<close>.\<close>

definition find_char :: "char \<Rightarrow> nat \<Rightarrow> string \<Rightarrow> nat option" where
  "find_char c pos s =
     (if c \<in> set (drop pos s) then Some (pos + length (takeWhile (\<lambda>x. x \<noteq> c) (drop pos s))) else None)"

definition substr :: "string \<Rightarrow> nat \<Rightarrow> nat \<Rightarrow> string" where
  "substr s pos len = take len (drop pos s)"

lemma takeWhile_stop: "c \<notin> set bs \<Longrightarrow> takeWhile (\<lambda>x. x \<noteq> c) (bs @ c # cs) = bs"
  by (induction bs) auto

lemma dropWhile_stop: "c \<notin> set bs \<Longrightarrow> dropWhile (\<lambda>x. x \<noteq> c) (bs @ c # cs) = c # cs"
  by (induction bs) auto

lemma find_char_append:
  assumes "pos = length as" and "c \<notin> set bs"
  shows "find_char c pos (as @ bs @ c # cs) = Some (pos + length bs)"
  using assms by (simp add: find_char_def takeWhile_stop)

section \<open>Lists of strings\<close>

text \<open>\<open>putStringList\<close> ends every element with a \<^verbatim>\<open>#\<close>.\<close>

definition join_list :: "string list \<Rightarrow> string" where
  "join_list xs = concat (map (\<lambda>s. s @ ''#'') xs)"

text \<open>
  The loop of \<open>getStringList\<close>. The search for the end of an element starts one character after its
  beginning; when it fails the position becomes \<^verbatim>\<open>npos + 1\<close>, that is 0, and the loop starts over. The
  fuel is the number of iterations allowed.
\<close>

fun list_loop :: "nat \<Rightarrow> string \<Rightarrow> nat \<Rightarrow> string list result" where
  "list_loop 0 res pos = Inl (Diverges ''getStringList'')"
| "list_loop (Suc fuel) res pos =
     (if pos < length res then
        (case find_char (CHR ''#'') (pos + 1) res of
           Some e \<Rightarrow> andThen (list_loop fuel res (e + 1)) (\<lambda>xs. Inr (substr res pos (e - pos) # xs))
         | None \<Rightarrow> andThen (list_loop fuel res 0) (\<lambda>xs. Inr (drop pos res # xs)))
      else Inr [])"

definition split_list :: "string \<Rightarrow> string list result" where
  "split_list res = list_loop (length res + 1) res 0"

definition list_clean :: "string list \<Rightarrow> bool" where
  "list_clean xs \<longleftrightarrow> (\<forall>x \<in> set xs. x \<noteq> [] \<and> CHR ''#'' \<notin> set x)"

lemma list_loop_join:
  assumes "list_clean xs" and "pos = length pre" and "length xs < fuel"
  shows "list_loop fuel (pre @ join_list xs) pos = Inr xs"
  using assms
proof (induction xs arbitrary: pre pos fuel)
  case Nil
  then obtain fuel' where "fuel = Suc fuel'" by (cases fuel) auto
  then show ?case using Nil by (simp add: join_list_def)
next
  case (Cons x xs)
  obtain fuel' where fuel: "fuel = Suc fuel'" using Cons.prems(3) by (cases fuel) auto
  obtain c cs where x: "x = c # cs" "CHR ''#'' \<notin> set cs"
    using Cons.prems(1) by (cases x) (auto simp: list_clean_def)
  have res: "pre @ join_list (x # xs) = (pre @ [c]) @ cs @ CHR ''#'' # join_list xs"
    by (simp add: join_list_def x)
  have find: "find_char (CHR ''#'') (pos + 1) (pre @ join_list (x # xs)) = Some (pos + 1 + length cs)"
    unfolding res using Cons.prems(2) x(2) by (intro find_char_append) simp_all
  have sub: "substr (pre @ join_list (x # xs)) pos (pos + 1 + length cs - pos) = x"
    using Cons.prems(2) by (simp add: join_list_def substr_def x)
  have "list_loop fuel' ((pre @ x @ ''#'') @ join_list xs) (length (pre @ x @ ''#'')) = Inr xs"
    using Cons.prems fuel by (intro Cons.IH) (auto simp: list_clean_def)
  then show ?case
    using find sub Cons.prems(2) by (simp add: fuel x join_list_def)
qed

lemma length_join_list: "length xs \<le> length (join_list xs)"
  by (induction xs) (simp_all add: join_list_def)

lemma split_join:
  assumes "list_clean xs"
  shows "split_list (join_list xs) = Inr xs"
  using list_loop_join [OF assms, of 0 "[]" "length (join_list xs) + 1"] length_join_list [of xs]
  by (simp add: split_list_def)

section \<open>The file\<close>

definition putString :: "string \<Rightarrow> string \<Rightarrow> (string \<times> string) list \<Rightarrow> (string \<times> string) list" where
  "putString key value m = map_put key value m"

definition putStringList :: "string \<Rightarrow> string list \<Rightarrow> (string \<times> string) list \<Rightarrow> (string \<times> string) list" where
  "putStringList key value m = map_put key (join_list value) m"

definition putUnsignedLong :: "string \<Rightarrow> nat \<Rightarrow> (string \<times> string) list \<Rightarrow> (string \<times> string) list" where
  "putUnsignedLong key value m = map_put key (show_nat value) m"

definition putLong :: "string \<Rightarrow> int \<Rightarrow> (string \<times> string) list \<Rightarrow> (string \<times> string) list" where
  "putLong key value m = map_put key (show_int value) m"

text \<open>The accessors; \<open>None\<close> is the return value \<^verbatim>\<open>false\<close>.\<close>

definition getString :: "string \<Rightarrow> (string \<times> string) list \<Rightarrow> string option" where
  "getString key m = map_of m key"

definition getStringList :: "string \<Rightarrow> (string \<times> string) list \<Rightarrow> string list option result" where
  "getStringList key m =
     (case map_of m key of None \<Rightarrow> Inr None | Some v \<Rightarrow> andThen (split_list v) (\<lambda>xs. Inr (Some xs)))"

definition getUnsignedLong :: "string \<Rightarrow> (string \<times> string) list \<Rightarrow> nat option" where
  "getUnsignedLong key m =
     (case map_of m key of
        None \<Rightarrow> None
      | Some v \<Rightarrow> (case stoul v of Inl e \<Rightarrow> None | Inr n \<Rightarrow> Some n))"

definition getLong :: "string \<Rightarrow> (string \<times> string) list \<Rightarrow> int option" where
  "getLong key m =
     (case map_of m key of
        None \<Rightarrow> None
      | Some v \<Rightarrow> (case stol v of Inl e \<Rightarrow> None | Inr n \<Rightarrow> Some n))"

text \<open>\<open>save\<close>: one line per entry, in the order of the map.\<close>

definition entry_line :: "string \<times> string \<Rightarrow> string" where
  "entry_line kv = CHR ''|'' # fst kv @ CHR ''|'' # snd kv @ ''|''"

definition save :: "(string \<times> string) list \<Rightarrow> string" where
  "save m = concat (map (\<lambda>kv. entry_line kv @ [CHR 0x0A]) m)"

text \<open>\<^verbatim>\<open>getline\<close>: the lines of a file; a last line without a line end counts when it is not empty.\<close>

function lines_of :: "string \<Rightarrow> string list" where
  "lines_of s =
     (if s = [] then []
      else takeWhile (\<lambda>c. c \<noteq> CHR 0x0A) s # lines_of (tl (dropWhile (\<lambda>c. c \<noteq> CHR 0x0A) s)))"
  by pat_completeness auto
termination
proof (relation "measure length")
  fix s :: string assume "s \<noteq> []"
  then show "(tl (dropWhile (\<lambda>c. c \<noteq> CHR 0x0A) s), s) \<in> measure length"
    using length_dropWhile_le [of "\<lambda>c. c \<noteq> CHR 0x0A" s] unfolding in_measure length_tl length_greater_0_conv [symmetric]
    by linarith
qed simp

declare lines_of.simps [simp del]

text \<open>
  One line of the file: the key is between the first two bars, the value between the second and the
  third; a line without three bars is skipped. After a failed search the next one starts at
  \<^verbatim>\<open>npos + 1\<close>, which is 0, but its result is not used.
\<close>

definition parse_line :: "string \<Rightarrow> (string \<times> string) option" where
  "parse_line line =
     (case find_char (CHR ''|'') 0 line of
        None \<Rightarrow> None
      | Some p1 \<Rightarrow>
          (case find_char (CHR ''|'') (p1 + 1) line of
             None \<Rightarrow> None
           | Some p2 \<Rightarrow>
               (case find_char (CHR ''|'') (p2 + 1) line of
                  None \<Rightarrow> None
                | Some p3 \<Rightarrow> Some (substr line (p1 + 1) (p2 - p1 - 1), substr line (p2 + 1) (p3 - p2 - 1)))))"

definition FileWriter_open :: "string \<Rightarrow> (string \<times> string) list" where
  "FileWriter_open content =
     fold (\<lambda>line m. case parse_line line of None \<Rightarrow> m | Some (key, v) \<Rightarrow> map_put key v m) (lines_of content) []"

section \<open>Reading back what was written\<close>

definition clean_field :: "string \<Rightarrow> bool" where
  "clean_field s \<longleftrightarrow> CHR ''|'' \<notin> set s \<and> CHR 0x0A \<notin> set s"

definition clean_map :: "(string \<times> string) list \<Rightarrow> bool" where
  "clean_map m \<longleftrightarrow> map_ok m \<and> (\<forall>(key, v) \<in> set m. clean_field key \<and> clean_field v)"

lemma parse_entry_line:
  assumes "clean_field key" and "clean_field v"
  shows "parse_line (entry_line (key, v)) = Some (key, v)"
proof -
  let ?l = "entry_line (key, v)"
  have p1: "find_char (CHR ''|'') 0 ?l = Some 0" by (simp add: entry_line_def find_char_def)
  have "?l = ''|'' @ key @ CHR ''|'' # (v @ ''|'')" by (simp add: entry_line_def)
  then have p2: "find_char (CHR ''|'') (0 + 1) ?l = Some (1 + length key)"
      and k: "substr ?l (0 + 1) (1 + length key - 0 - 1) = key"
    using find_char_append [of 1 "''|''" "CHR ''|''" key "v @ ''|''"] assms(1)
    by (simp_all add: clean_field_def substr_def)
  have "?l = (''|'' @ key @ ''|'') @ v @ CHR ''|'' # []" by (simp add: entry_line_def)
  then have p3: "find_char (CHR ''|'') (1 + length key + 1) ?l = Some (1 + length key + 1 + length v)"
      and v: "substr ?l (1 + length key + 1) (1 + length key + 1 + length v - (1 + length key) - 1) = v"
    using find_char_append [of "1 + length key + 1" "''|'' @ key @ ''|''" "CHR ''|''" v "[]"] assms(2)
    by (simp_all add: clean_field_def substr_def)
  show ?thesis unfolding parse_line_def p1 option.case p2 p3 k v ..
qed

lemma lines_of_save:
  assumes "\<forall>(key, v) \<in> set m. clean_field key \<and> clean_field v"
  shows "lines_of (save m) = map entry_line m"
  using assms
proof (induction m)
  case Nil
  then show ?case by (simp add: save_def lines_of.simps)
next
  case (Cons kv m)
  have nl: "CHR 0x0A \<notin> set (entry_line kv)" using Cons.prems by (auto simp: entry_line_def clean_field_def)
  have eq: "save (kv # m) = entry_line kv @ CHR 0x0A # save m" by (simp add: save_def)
  note tw = takeWhile_stop [OF nl, of "save m"] and dw = dropWhile_stop [OF nl, of "save m"]
  have "lines_of (save (kv # m)) = entry_line kv # lines_of (save m)"
    unfolding eq by (subst lines_of.simps) (simp add: tw dw)
  then show ?case using Cons by simp
qed

lemma map_put_sorted_last:
  "map_ok (xs @ [(key, v)]) \<Longrightarrow> map_put key v xs = xs @ [(key, v)]"
  by (induction xs) (auto simp: map_ok_def sorted_wrt_append)

lemma fold_map_put_sorted:
  assumes "map_ok (xs @ ys)"
  shows "fold (\<lambda>(key, v) m. map_put key v m) ys xs = xs @ ys"
  using assms
proof (induction ys arbitrary: xs)
  case (Cons y ys)
  obtain key v where y: "y = (key, v)" by (cases y)
  have "map_ok (xs @ [(key, v)])" using Cons.prems y by (auto simp: map_ok_def sorted_wrt_append)
  then have "map_put key v xs = xs @ [y]" using y by (simp add: map_put_sorted_last)
  then show ?case using Cons.IH [of "xs @ [y]"] Cons.prems y by simp
qed simp

lemma open_save:
  assumes "clean_map m"
  shows "FileWriter_open (save m) = m"
proof -
  have clean: "\<forall>(key, v) \<in> set m. clean_field key \<and> clean_field v" using assms by (simp add: clean_map_def)
  have "FileWriter_open (save m) =
      fold (\<lambda>kv r. case parse_line (entry_line kv) of None \<Rightarrow> r | Some (key, v) \<Rightarrow> map_put key v r) m []"
    by (simp add: FileWriter_open_def lines_of_save [OF clean] fold_map comp_def)
  also have "\<dots> = fold (\<lambda>(key, v) r. map_put key v r) m []"
  proof (rule fold_cong)
    fix kv assume "kv \<in> set m"
    then have "parse_line (entry_line kv) = Some kv"
      using clean parse_entry_line [of "fst kv" "snd kv"] by auto
    then show "(\<lambda>r. case parse_line (entry_line kv) of None \<Rightarrow> r | Some (key, v) \<Rightarrow> map_put key v r) =
        (case kv of (key, v) \<Rightarrow> \<lambda>r. map_put key v r)" by (simp add: split_beta)
  qed simp_all
  also have "\<dots> = m" using fold_map_put_sorted [of "[]" m] assms by (simp add: clean_map_def)
  finally show ?thesis .
qed

text \<open>
  Saving the metadata map and opening the file again gives the same map, when no key and no value
  contains a bar or a line end.
\<close>

theorem metadata_file_roundtrip:
  assumes "clean_map m"
  shows "FileWriter_open (save m) = m"
  using assms by (rule open_save)

theorem metadata_file_roundtrip_witness:
  "FileWriter_open (save [(''numPages'', ''16''), (''tempFile'', ''/d/t'')]) =
     [(''numPages'', ''16''), (''tempFile'', ''/d/t'')]"
  by (rule metadata_file_roundtrip) code_simp

text \<open>
  The typed accessors return what was put: numbers in the range of their 64-bit type, strings, and
  lists of strings whose elements are not empty and contain no separator.
\<close>

theorem metadata_accessors_roundtrip:
  assumes "map_ok m" and "n < 2 ^ 64" and "- (2 ^ 63) \<le> i" and "i < 2 ^ 63" and "list_clean xs"
  shows "getUnsignedLong key (putUnsignedLong key n m) = Some n \<and>
    getLong key (putLong key i m) = Some i \<and> getString key (putString key v m) = Some v \<and>
    getStringList key (putStringList key xs m) = Inr (Some xs)"
  using assms stoul_show_nat [of n "[]"] stol_show_int [of i] split_join [of xs]
  by (simp add: getUnsignedLong_def putUnsignedLong_def getLong_def putLong_def getString_def putString_def
      getStringList_def putStringList_def map_of_map_put)

theorem metadata_accessors_roundtrip_witness:
  "getUnsignedLong ''p'' (putUnsignedLong ''p'' 4096 []) = Some 4096 \<and>
   getLong ''l'' (putLong ''l'' (- 1) []) = Some (- 1) \<and> getString ''s'' (putString ''s'' '''' []) = Some '''' \<and>
   getStringList ''x'' (putStringList ''x'' [''a'', ''bc''] []) = Inr (Some [''a'', ''bc''])"
  using metadata_accessors_roundtrip [of "[]" 4096 "- 1" "[]" "''p''" "''''"]
    metadata_accessors_roundtrip [of "[]" 4096 "- 1" "[]" "''l''" "''''"]
    metadata_accessors_roundtrip [of "[]" 4096 "- 1" "[]" "''s''" "''''"]
    metadata_accessors_roundtrip [of "[]" 4096 "- 1" "[''a'', ''bc'']" "''x''" "''''"]
  by (simp add: list_clean_def)

text \<open>
  A list whose only element is the empty string is written as a lone separator, and reading it back
  never ends: whatever number of iterations is allowed, the loop has not finished.
\<close>

theorem getStringList_empty_string_diverges:
  "list_loop fuel (join_list ['''']) 0 = Inl (Diverges ''getStringList'')"
  by (induction fuel) (simp_all add: join_list_def find_char_def)

end
