(* ===== verification/Metadata.thy ===== *)
theory Metadata
  imports BufferManager FileWriter
begin

text \<open>
  The persistence of the buffer manager's tables: what its destructor writes into the metadata file and
  what \<^verbatim>\<open>initialize (metaDataFile)\<close> rebuilds from it (\<^verbatim>\<open>PDBBufferManagerImpl.cc\<close>, the destructor and the
  first \<open>initialize\<close>).
\<close>

section \<open>Writing\<close>

definition set_label :: "pdb_set \<Rightarrow> string" where
  "set_label st = setName st @ ''.'' @ dbName st"

text \<open>\<^verbatim>\<open>pageNum.startPos.len\<close>\<close>

definition page_entry :: "nat \<Rightarrow> page_info \<Rightarrow> string" where
  "page_entry num info = show_nat num @ ''.'' @ show_int (startPos info) @ ''.'' @ show_nat (numBytes info)"

text \<open>The positions of the pages, grouped by the label of their set.\<close>

fun all_files :: "(page_key \<times> page_info) list \<Rightarrow> (string \<times> string list) list \<Rightarrow> (string \<times> string list) list" where
  "all_files [] acc = acc"
| "all_files (((st, num), info) # rest) acc =
     (let key = set_label (the st); value = page_entry num info
      in all_files rest
           (case map_of acc key of
              None \<Rightarrow> map_put key [value] acc
            | Some vs \<Rightarrow> map_put key (vs @ [value]) acc))"

definition base_metadata :: "bm \<Rightarrow> (string \<times> string) list" where
  "base_metadata s =
     (let m1 = putUnsignedLong ''pageSize'' (pageSize s) [];
          m2 = putLong ''logOfPageSize'' (logOfPageSize s) m1;
          m3 = putUnsignedLong ''numPages'' (numPages s) m2;
          m4 = putString ''tempFile'' (tempFile s) m3;
          m5 = putString ''metaDataFile'' (metaDataFile s) m4;
          m6 = putString ''storageLoc'' (storageLoc s) m5;
          m7 = putStringList ''setNames'' (map (\<lambda>a. setName (the (fst a))) (endOfFiles s)) m6;
          m8 = putStringList ''dbNames'' (map (\<lambda>a. dbName (the (fst a))) (endOfFiles s)) m7
      in putStringList ''endPosForEachFile'' (map (\<lambda>a. show_nat (snd a)) (endOfFiles s)) m8)"

definition metadata :: "bm \<Rightarrow> (string \<times> string) list" where
  "metadata s = fold (\<lambda>(key, vs) m. putStringList key vs m) (all_files (pageLocations s) []) (base_metadata s)"

text \<open>The destructor: write back the dirty pages, then the metadata.\<close>

definition destroy :: "bm \<Rightarrow> (bm \<times> string) option result" where
  "destroy s =
     (if \<not> initialized s then Inr None
      else andThen (write_back (allPages s) s) (\<lambda>s1. Inr (Some (s1, save (metadata s1)))))"

section \<open>Reading\<close>

text \<open>The loop over the sets: the three lists are indexed together.\<close>

fun end_loop :: "string list \<Rightarrow> string list \<Rightarrow> string list \<Rightarrow> (pdb_set option \<times> nat) list \<Rightarrow>
    (pdb_set option \<times> nat) list result" where
  "end_loop [] dbs ends acc = Inr acc"
| "end_loop (sn # sns) [] ends acc = Inl (Undefined ''vector index out of range'')"
| "end_loop (sn # sns) (db # dbs) [] acc = Inl (Undefined ''vector index out of range'')"
| "end_loop (sn # sns) (db # dbs) (e # es) acc =
     andThen (stoul e) (\<lambda>end. end_loop sns dbs es (map_put (Some (make_PDBSet db sn)) end acc))"

text \<open>\<^verbatim>\<open>getline (tokenizer, x, '.')\<close>: the token and what is left.\<close>

definition token :: "string \<Rightarrow> string \<times> string" where
  "token s = (takeWhile (\<lambda>c. c \<noteq> CHR ''.'') s, tl (dropWhile (\<lambda>c. c \<noteq> CHR ''.'') s))"

definition parse_entry :: "string \<Rightarrow> (nat \<times> page_info) result" where
  "parse_entry b =
     (let (pn, r1) = token b; (sp, r2) = token r1; (ln, r3) = token r2
      in andThen (stoul pn) (\<lambda>page. andThen (stoul sp) (\<lambda>start. andThen (stoul ln) (\<lambda>len.
           Inr (page, \<lparr>startPos = int start, numBytes = len\<rparr>)))))"

fun mapping_loop :: "pdb_set option \<Rightarrow> string list \<Rightarrow> (page_key \<times> page_info) list \<Rightarrow>
    (page_key \<times> page_info) list result" where
  "mapping_loop st [] acc = Inr acc"
| "mapping_loop st (b # bs) acc =
     andThen (parse_entry b) (\<lambda>(page, info). mapping_loop st bs (map_put (st, page) info acc))"

fun file_loop :: "(string \<times> string) list \<Rightarrow> (pdb_set option \<times> nat) list \<Rightarrow> (page_key \<times> page_info) list \<Rightarrow>
    (page_key \<times> page_info) list result" where
  "file_loop m [] acc = Inr acc"
| "file_loop m ((st, e) # rest) acc =
     andThen (getStringList (set_label (the st)) m) (\<lambda>found.
     andThen (mapping_loop st (case found of None \<Rightarrow> [] | Some xs \<Rightarrow> xs) acc) (file_loop m rest))"

text \<open>
  \<^verbatim>\<open>initialize (metaDataFile)\<close>. A number that is missing leaves the local variable it should have filled
  indeterminate; a missing string leaves the empty string of a new object. \<open>content\<close> is the text of the
  file.
\<close>

definition initialize_meta ::
  "nat \<Rightarrow> nat option \<Rightarrow> bool \<Rightarrow> (string \<Rightarrow> byte list) \<Rightarrow> string \<Rightarrow> string \<Rightarrow> bm result" where
  "initialize_meta minSz mapped opened disk metaFile content =
     (let m = FileWriter_open content;
          str = (\<lambda>key. case getString key m of None \<Rightarrow> [] | Some v \<Rightarrow> v);
          lst = (\<lambda>key. andThen (getStringList key m) (\<lambda>r. Inr (case r of None \<Rightarrow> [] | Some xs \<Rightarrow> xs)))
      in case (getUnsignedLong ''pageSize'' m, getLong ''logOfPageSize'' m, getUnsignedLong ''numPages'' m) of
           (Some psz, Some lg, Some np) \<Rightarrow>
             andThen (initialize minSz mapped opened disk (str ''tempFile'') psz np metaFile (str ''storageLoc''))
               (\<lambda>s0.
             andThen (lst ''setNames'') (\<lambda>sns. andThen (lst ''dbNames'') (\<lambda>dbs.
             andThen (lst ''endPosForEachFile'') (\<lambda>ends.
             andThen (end_loop sns dbs ends []) (\<lambda>eof.
             andThen (file_loop m eof []) (\<lambda>locs.
               Inr (s0\<lparr>endOfFiles := eof, pageLocations := locs\<rparr>)))))))
         | _ \<Rightarrow> Inl (Undefined ''indeterminate value''))"

section \<open>Entries\<close>

lemma digit_plain: "is_digit c \<Longrightarrow> c \<noteq> CHR ''.'' \<and> c \<noteq> CHR ''#'' \<and> c \<noteq> CHR ''|'' \<and> c \<noteq> CHR 0x0A"
  by (auto simp: is_digit_def)

lemma show_nat_plain:
  "CHR ''.'' \<notin> set (show_nat n)" "CHR ''#'' \<notin> set (show_nat n)" "CHR ''|'' \<notin> set (show_nat n)"
  "CHR 0x0A \<notin> set (show_nat n)"
  using show_nat_digits [of _ n] digit_plain by blast+

lemma show_int_nat: "0 \<le> i \<Longrightarrow> show_int i = show_nat (nat i)"
  by (simp add: show_int_def)

lemma show_int_plain: "CHR ''#'' \<notin> set (show_int n)" "CHR ''|'' \<notin> set (show_int n)" "CHR 0x0A \<notin> set (show_int n)"
  by (auto simp: show_int_def show_nat_plain)

lemma token_dot: "CHR ''.'' \<notin> set a \<Longrightarrow> token (a @ CHR ''.'' # b) = (a, b)"
  by (simp add: token_def takeWhile_stop dropWhile_stop)

lemma token_end: "CHR ''.'' \<notin> set a \<Longrightarrow> token a = (a, [])"
  by (induction a) (auto simp: token_def)

definition info_ok :: "nat \<Rightarrow> page_info \<Rightarrow> bool" where
  "info_ok num info \<longleftrightarrow> num < 2 ^ 64 \<and> 0 \<le> startPos info \<and> startPos info < 2 ^ 64 \<and> numBytes info < 2 ^ 64"

lemma parse_page_entry:
  assumes "info_ok num info"
  shows "parse_entry (page_entry num info) = Inr (num, info)"
proof -
  have t: "page_entry num info = show_nat num @ CHR ''.'' # show_nat (nat (startPos info)) @ CHR ''.'' # show_nat (numBytes info)"
    using assms by (simp add: page_entry_def info_ok_def show_int_nat)
  have "stoul (show_nat n) = Inr n" if "n < 2 ^ 64" for n
    using stoul_show_nat [OF that, of "[]"] by simp
  moreover have "nat (startPos info) < 2 ^ 64" using assms by (simp add: info_ok_def nat_less_iff)
  ultimately show ?thesis
    using assms unfolding t parse_entry_def Let_def
    by (cases info) (simp add: token_dot token_end show_nat_plain info_ok_def)
qed

lemma page_entry_clean: "page_entry n i \<noteq> [] \<and> CHR ''#'' \<notin> set (page_entry n i) \<and> clean_field (page_entry n i)"
  by (auto simp: page_entry_def clean_field_def show_nat_plain show_int_plain)

lemma mapping_loop_entries:
  assumes "\<forall>(num, info) \<in> set xs. info_ok num info"
  shows "mapping_loop st (map (\<lambda>(num, info). page_entry num info) xs) acc =
    Inr (fold (\<lambda>(num, info). map_put (st, num) info) xs acc)"
  using assms by (induction xs arbitrary: acc) (auto simp: parse_page_entry)

text \<open>The entries of a set, in the order of the table.\<close>

definition label_entries :: "(page_key \<times> page_info) list \<Rightarrow> string \<Rightarrow> (nat \<times> page_info) list" where
  "label_entries L key =
     map (\<lambda>((st, num), info). (num, info)) (filter (\<lambda>((st, num), info). set_label (the st) = key) L)"

lemma all_files_lookup:
  assumes "map_ok acc"
  shows "map_ok (all_files L acc) \<and> map_of (all_files L acc) key =
    (let vs = map (\<lambda>(num, info). page_entry num info) (label_entries L key)
     in case map_of acc key of None \<Rightarrow> if vs = [] then None else Some vs | Some us \<Rightarrow> Some (us @ vs))"
  using assms
proof (induction L acc rule: all_files.induct)
  case (1 acc)
  then show ?case by (simp add: label_entries_def split: option.split)
next
  case (2 st num info rest acc)
  let ?l = "set_label (the st)"
  let ?acc = "case map_of acc ?l of None \<Rightarrow> map_put ?l [page_entry num info] acc
      | Some vs \<Rightarrow> map_put ?l (vs @ [page_entry num info]) acc"
  have ok: "map_ok ?acc" using 2(2) by (simp add: map_ok_put split: option.split)
  have look: "map_of ?acc key = (if key = ?l then Some ((case map_of acc ?l of None \<Rightarrow> [] | Some vs \<Rightarrow> vs) @
      [page_entry num info]) else map_of acc key)"
    using 2(2) by (simp add: map_of_map_put split: option.split)
  have le: "label_entries (((st, num), info) # rest) key =
      (if ?l = key then (num, info) # label_entries rest key else label_entries rest key)"
    by (simp add: label_entries_def)
  have IH: "map_ok (all_files rest ?acc) \<and> map_of (all_files rest ?acc) key =
      (let vs = map (\<lambda>(num, info). page_entry num info) (label_entries rest key)
       in case map_of ?acc key of None \<Rightarrow> if vs = [] then None else Some vs | Some us \<Rightarrow> Some (us @ vs))"
    using 2(1) [OF refl refl ok] .
  then show ?case
    unfolding look le by (cases "key = ?l") (auto simp: Let_def split: option.splits)
qed

section \<open>The saved map\<close>

lemma clean_map_put: "clean_map m \<Longrightarrow> clean_field key \<Longrightarrow> clean_field v \<Longrightarrow> clean_map (map_put key v m)"
  using set_map_put_subset [of key v m] by (auto simp: clean_map_def map_ok_put)

definition clean_name :: "string \<Rightarrow> bool" where
  "clean_name n \<longleftrightarrow> n \<noteq> [] \<and> CHR ''#'' \<notin> set n \<and> clean_field n"

lemma join_list_clean: "\<forall>x \<in> set xs. clean_field x \<Longrightarrow> clean_field (join_list xs)"
  by (auto simp: join_list_def clean_field_def)

text \<open>
  What the tables must satisfy to be written and read back: names without separators and not empty, sets
  told apart by their labels, every page position belonging to a set with an end of file, numbers in the
  range of their types.
\<close>

definition meta_ok :: "bm \<Rightarrow> bool" where
  "meta_ok s \<longleftrightarrow> map_ok (endOfFiles s) \<and> map_ok (pageLocations s) \<and>
     (\<forall>(st, e) \<in> set (endOfFiles s). st \<noteq> None \<and> clean_name (setName (the st)) \<and>
        clean_name (dbName (the st)) \<and> e < 2 ^ 64) \<and>
     inj_on (\<lambda>a. set_label (the (fst a))) (set (endOfFiles s)) \<and>
     (\<forall>((st, num), info) \<in> set (pageLocations s). st \<in> fst ` set (endOfFiles s) \<and> info_ok num info) \<and>
     clean_field (tempFile s) \<and> clean_field (storageLoc s) \<and> clean_field (metaDataFile s) \<and>
     pageSize s < 2 ^ 64 \<and> numPages s < 2 ^ 64 \<and> - (2 ^ 63) \<le> logOfPageSize s \<and> logOfPageSize s < 2 ^ 63"

lemmas put_defs = putString_def putStringList_def putUnsignedLong_def putLong_def

lemma base_metadata_ok: "map_ok (base_metadata s)"
  by (simp add: base_metadata_def Let_def put_defs map_ok_put del: map_put.simps)

lemma base_metadata_map:
  "map_of (base_metadata s) = [''pageSize'' \<mapsto> show_nat (pageSize s),
     ''logOfPageSize'' \<mapsto> show_int (logOfPageSize s), ''numPages'' \<mapsto> show_nat (numPages s),
     ''tempFile'' \<mapsto> tempFile s, ''metaDataFile'' \<mapsto> metaDataFile s, ''storageLoc'' \<mapsto> storageLoc s,
     ''setNames'' \<mapsto> join_list (map (\<lambda>a. setName (the (fst a))) (endOfFiles s)),
     ''dbNames'' \<mapsto> join_list (map (\<lambda>a. dbName (the (fst a))) (endOfFiles s)),
     ''endPosForEachFile'' \<mapsto> join_list (map (\<lambda>a. show_nat (snd a)) (endOfFiles s))]"
  unfolding base_metadata_def Let_def put_defs by (simp only: map_of_map_put map_ok_put map_ok_Nil map_of.simps)

lemma base_metadata_lookup:
  "map_of (base_metadata s) ''pageSize'' = Some (show_nat (pageSize s))"
  "map_of (base_metadata s) ''logOfPageSize'' = Some (show_int (logOfPageSize s))"
  "map_of (base_metadata s) ''numPages'' = Some (show_nat (numPages s))"
  "map_of (base_metadata s) ''tempFile'' = Some (tempFile s)"
  "map_of (base_metadata s) ''storageLoc'' = Some (storageLoc s)"
  "map_of (base_metadata s) ''setNames'' = Some (join_list (map (\<lambda>a. setName (the (fst a))) (endOfFiles s)))"
  "map_of (base_metadata s) ''dbNames'' = Some (join_list (map (\<lambda>a. dbName (the (fst a))) (endOfFiles s)))"
  "map_of (base_metadata s) ''endPosForEachFile'' = Some (join_list (map (\<lambda>a. show_nat (snd a)) (endOfFiles s)))"
  by (simp_all add: base_metadata_map)

lemma base_metadata_dot:
  assumes "CHR ''.'' \<in> set key"
  shows "map_of (base_metadata s) key = None"
proof -
  have no: "CHR ''.'' \<notin> set k" if "list_all (\<lambda>c. c \<noteq> CHR ''.'') k" for k
    using that by (auto simp: list_all_iff)
  have "key \<noteq> k" if "list_all (\<lambda>c. c \<noteq> CHR ''.'') k" for k
    using no [OF that] assms by auto
  then show ?thesis by (simp add: base_metadata_map)
qed

lemma metadata_lookup:
  "map_ok (metadata s)"
  "CHR ''.'' \<notin> set key \<Longrightarrow> map_of (metadata s) key = map_of (base_metadata s) key"
  "map_of (metadata s) (set_label st) =
     (let vs = map (\<lambda>(num, info). page_entry num info) (label_entries (pageLocations s) (set_label st))
      in if vs = [] then None else Some (join_list vs))"
proof -
  let ?F = "all_files (pageLocations s) []"
  have af: "map_ok ?F" "\<And>key. map_of ?F key =
      (let vs = map (\<lambda>(num, info). page_entry num info) (label_entries (pageLocations s) key)
       in if vs = [] then None else Some vs)"
    using all_files_lookup [OF map_ok_Nil, of "pageLocations s"] by auto
  have eq: "metadata s = fold (\<lambda>(k, v). map_put k (join_list v)) ?F (base_metadata s)"
    by (simp add: metadata_def putStringList_def case_prod_unfold)
  note mf = map_of_fold_put [OF base_metadata_ok [of s] map_ok_distinct [OF af(1)], where f = join_list, folded eq]
  show "map_ok (metadata s)" using mf by blast
  have dot: "label_entries L key = []" if "CHR ''.'' \<notin> set key" for L key
    using that by (auto simp: label_entries_def set_label_def filter_empty_conv)
  show "map_of (metadata s) key = map_of (base_metadata s) key" if "CHR ''.'' \<notin> set key"
    using mf [of key] dot [OF that] af(2) by simp
  have "CHR ''.'' \<in> set (set_label st)" by (simp add: set_label_def)
  then show "map_of (metadata s) (set_label st) =
     (let vs = map (\<lambda>(num, info). page_entry num info) (label_entries (pageLocations s) (set_label st))
      in if vs = [] then None else Some (join_list vs))"
    using mf [of "set_label st"] af(2) base_metadata_dot by (simp add: Let_def)
qed

lemma set_label_clean: "clean_name (setName st) \<Longrightarrow> clean_name (dbName st) \<Longrightarrow> clean_field (set_label st)"
  by (auto simp: set_label_def clean_name_def clean_field_def)

lemma clean_map_lookup:
  "map_ok m \<Longrightarrow> (\<And>key v. map_of m key = Some v \<Longrightarrow> clean_field key \<and> clean_field v) \<Longrightarrow> clean_map m"
  using map_ok_distinct [of m] by (auto simp: clean_map_def)

lemma eof_names:
  assumes "meta_ok s" and "a \<in> set (endOfFiles s)"
  shows "clean_name (setName (the (fst a)))" and "clean_name (dbName (the (fst a)))" and "fst a \<noteq> None"
    and "snd a < 2 ^ 64"
  using assms by (auto simp: meta_ok_def)

lemma base_metadata_clean:
  assumes ok: "meta_ok s"
  shows "clean_map (base_metadata s)"
proof -
  have num: "clean_field (show_nat n)" "clean_field (show_int i)" for n i
    by (simp_all add: clean_field_def show_nat_plain show_int_plain)
  have names: "clean_field (join_list (map (\<lambda>a. setName (the (fst a))) (endOfFiles s)))"
      "clean_field (join_list (map (\<lambda>a. dbName (the (fst a))) (endOfFiles s)))"
      "clean_field (join_list (map (\<lambda>a. show_nat (snd a)) (endOfFiles s)))"
    using eof_names [OF ok] num by (auto intro!: join_list_clean simp: clean_name_def)
  have strs: "clean_field (tempFile s)" "clean_field (metaDataFile s)" "clean_field (storageLoc s)"
    using ok by (auto simp: meta_ok_def)
  have keys: "clean_field k" if "list_all (\<lambda>c. c \<noteq> CHR ''|'' \<and> c \<noteq> CHR 0x0A) k" for k
    using that by (auto simp: clean_field_def list_all_iff)
  have nil: "clean_map []" by (simp add: clean_map_def)
  show ?thesis
    unfolding base_metadata_def Let_def put_defs
    by (intro clean_map_put nil num names strs keys) simp_all
qed

lemma metadata_clean:
  assumes ok: "meta_ok s"
  shows "clean_map (metadata s)"
proof (rule clean_map_lookup [OF metadata_lookup(1)])
  fix key v assume look: "map_of (metadata s) key = Some v"
  show "clean_field key \<and> clean_field v"
  proof (cases "\<exists>st e. (Some st, e) \<in> set (endOfFiles s) \<and> key = set_label st \<and>
      label_entries (pageLocations s) key \<noteq> []")
    case True
    then obtain st e where st: "(Some st, e) \<in> set (endOfFiles s)" "key = set_label st" by blast
    then have "clean_field key" using eof_names [OF ok st(1)] by (simp add: set_label_clean)
    moreover have "v = join_list (map (\<lambda>(num, info). page_entry num info) (label_entries (pageLocations s) key))"
      using look True st by (simp add: metadata_lookup(3) Let_def split: if_splits)
    ultimately show ?thesis using page_entry_clean by (auto intro!: join_list_clean)
  next
    case False
    have "map_of (all_files (pageLocations s) []) key = None"
    proof (rule ccontr)
      assume "map_of (all_files (pageLocations s) []) key \<noteq> None"
      then have ne: "label_entries (pageLocations s) key \<noteq> []"
        using all_files_lookup [OF map_ok_Nil, of "pageLocations s" key] by (auto simp: Let_def)
      then obtain st num info where i: "((st, num), info) \<in> set (pageLocations s)" "set_label (the st) = key"
        by (auto simp: label_entries_def filter_empty_conv)
      then obtain e where "(st, e) \<in> set (endOfFiles s)" using ok by (fastforce simp: meta_ok_def)
      then show False using False i(2) ne eof_names(3) [OF ok] by (metis fst_conv option.exhaust_sel)
    qed
    then have "map_of (base_metadata s) key = Some v"
      using look map_of_fold_put [OF base_metadata_ok [of s] map_ok_distinct, where f = join_list and
          zs = "all_files (pageLocations s) []" and k = key] all_files_lookup [OF map_ok_Nil, of "pageLocations s"]
      by (simp add: metadata_def putStringList_def case_prod_unfold)
    then show ?thesis using base_metadata_clean [OF ok] by (auto simp: clean_map_def dest: map_of_SomeD)
  qed
qed

section \<open>Reading back\<close>

lemma end_loop_entries:
  assumes "\<forall>a \<in> set E. fst a \<noteq> None \<and> snd a < 2 ^ 64"
  shows "end_loop (map (\<lambda>a. setName (the (fst a))) E) (map (\<lambda>a. dbName (the (fst a))) E)
    (map (\<lambda>a. show_nat (snd a)) E) acc = Inr (fold (\<lambda>(k, v). map_put k v) E acc)"
  using assms
proof (induction E arbitrary: acc)
  case (Cons a E)
  obtain st e where a: "a = (Some st, e)" using Cons.prems by (cases a) auto
  have "stoul (show_nat e) = Inr e" using stoul_show_nat [of e "[]"] Cons.prems a by simp
  then show ?case using Cons a by (cases st) (simp add: make_PDBSet_def)
qed simp

lemma label_entries_info:
  assumes ok: "meta_ok s"
  shows "\<forall>(num, info) \<in> set (label_entries (pageLocations s) key). info_ok num info"
  using ok by (auto simp: label_entries_def meta_ok_def)

lemma found_entries:
  "getStringList (set_label st) (metadata s) =
     Inr (if label_entries (pageLocations s) (set_label st) = [] then None
          else Some (map (\<lambda>(num, info). page_entry num info) (label_entries (pageLocations s) (set_label st))))"
proof -
  let ?vs = "map (\<lambda>(num, info). page_entry num info) (label_entries (pageLocations s) (set_label st))"
  have "list_clean ?vs" using page_entry_clean by (auto simp: list_clean_def)
  then have "split_list (join_list ?vs) = Inr ?vs" by (rule split_join)
  then show ?thesis by (simp add: getStringList_def metadata_lookup(3) Let_def)
qed

text \<open>The entries that the loop over the files puts into the table, in order.\<close>

definition read_entries :: "bm \<Rightarrow> (pdb_set option \<times> nat) list \<Rightarrow> (page_key \<times> page_info) list" where
  "read_entries s E = concat (map (\<lambda>a. map (\<lambda>(num, info). ((fst a, num), info))
     (label_entries (pageLocations s) (set_label (the (fst a))))) E)"

lemma file_loop_entries:
  assumes "meta_ok s"
  shows "file_loop (metadata s) E acc = Inr (fold (\<lambda>(k, v). map_put k v) (read_entries s E) acc)"
proof (induction E arbitrary: acc)
  case (Cons a E)
  obtain st e where a: "a = (st, e)" by (cases a)
  let ?les = "label_entries (pageLocations s) (set_label (the st))"
  have "mapping_loop st (map (\<lambda>(num, info). page_entry num info) ?les) acc =
      Inr (fold (\<lambda>(num, info). map_put (st, num) info) ?les acc)"
    by (rule mapping_loop_entries [OF label_entries_info [OF assms]])
  moreover have "(case (if ?les = [] then None else Some (map (\<lambda>(num, info). page_entry num info) ?les))
      of None \<Rightarrow> [] | Some xs \<Rightarrow> xs) = map (\<lambda>(num, info). page_entry num info) ?les" by simp
  moreover have "fold (\<lambda>(k, v). map_put k v) (map (\<lambda>(num, info). ((st, num), info)) ?les) acc =
      fold (\<lambda>(num, info). map_put (st, num) info) ?les acc"
    by (simp add: fold_map comp_def case_prod_unfold)
  ultimately show ?case
    using Cons.IH by (simp add: a found_entries read_entries_def)
qed (simp add: read_entries_def)

lemma read_entries_all:
  assumes ok: "meta_ok s"
  shows "set (read_entries s (endOfFiles s)) = set (pageLocations s)"
    and "distinct (map fst (read_entries s (endOfFiles s)))"
proof -
  let ?E = "endOfFiles s" and ?L = "pageLocations s"
  have inj: "inj_on (\<lambda>a. set_label (the (fst a))) (set ?E)" and mE: "map_ok ?E" and mL: "map_ok ?L"
    using ok by (auto simp: meta_ok_def)
  have set_of: "st \<in> fst ` set ?E" if "((st, num), info) \<in> set ?L" for st num info
    using ok that by (auto simp: meta_ok_def)
  have own: "label_entries ?L (set_label (the (fst a))) =
      map (\<lambda>((st, num), info). (num, info)) (filter (\<lambda>((st, num), info). st = fst a) ?L)"
    if a: "a \<in> set ?E" for a
  proof -
    have "set_label (the st) = set_label (the (fst a)) \<longleftrightarrow> st = fst a" if i: "((st, num), info) \<in> set ?L" for st num info
    proof -
      obtain e where e: "(st, e) \<in> set ?E" using set_of [OF i] by auto
      show ?thesis using inj_onD [OF inj _ e a] by auto
    qed
    then have "filter (\<lambda>((st, num), info). set_label (the st) = set_label (the (fst a))) ?L =
        filter (\<lambda>((st, num), info). st = fst a) ?L" by (intro filter_cong) auto
    then show ?thesis by (simp add: label_entries_def)
  qed
  have part: "map (\<lambda>(num, info). ((fst a, num), info)) (label_entries ?L (set_label (the (fst a)))) =
      filter (\<lambda>((st, num), info). st = fst a) ?L" if "a \<in> set ?E" for a
    unfolding own [OF that] map_map by (rule map_idI) auto
  have eq: "read_entries s ?E = concat (map (\<lambda>a. filter (\<lambda>((st, num), info). st = fst a) ?L) ?E)"
    unfolding read_entries_def using part by (intro arg_cong [of _ _ concat] map_cong) auto
  show "set (read_entries s ?E) = set ?L" unfolding eq using set_of by fastforce
  have dL: "distinct (map fst ?L)" and dE: "distinct (map fst ?E)" using mE mL by (auto dest: map_ok_distinct)
  have "distinct (map fst (concat (map (\<lambda>a. filter (\<lambda>((st, num), info). st = fst a) ?L) E)))"
    if "distinct (map fst E)" for E :: "(pdb_set option \<times> nat) list"
    using that by (induction E) (auto simp: dL distinct_map_filter, force)
  then show "distinct (map fst (read_entries s ?E))" unfolding eq using dE by blast
qed

lemma metadata_scalars:
  assumes ok: "meta_ok s"
  shows "getUnsignedLong ''pageSize'' (metadata s) = Some (pageSize s)"
    and "getLong ''logOfPageSize'' (metadata s) = Some (logOfPageSize s)"
    and "getUnsignedLong ''numPages'' (metadata s) = Some (numPages s)"
    and "getString ''tempFile'' (metadata s) = Some (tempFile s)"
    and "getString ''storageLoc'' (metadata s) = Some (storageLoc s)"
proof -
  have plain: "map_of (metadata s) k = map_of (base_metadata s) k" if "list_all (\<lambda>c. c \<noteq> CHR ''.'') k" for k
    by (rule metadata_lookup(2)) (use that in \<open>auto simp: list_all_iff\<close>)
  have rng: "pageSize s < 2 ^ 64" "numPages s < 2 ^ 64" "- (2 ^ 63) \<le> logOfPageSize s" "logOfPageSize s < 2 ^ 63"
    using ok by (simp_all add: meta_ok_def)
  note num = stoul_show_nat [OF rng(1), of "[]", simplified] stoul_show_nat [OF rng(2), of "[]", simplified]
    stol_show_int [OF rng(3,4)]
  show "getUnsignedLong ''pageSize'' (metadata s) = Some (pageSize s)"
    by (simp add: getUnsignedLong_def plain base_metadata_lookup num)
  show "getLong ''logOfPageSize'' (metadata s) = Some (logOfPageSize s)"
    by (simp add: getLong_def plain base_metadata_lookup num)
  show "getUnsignedLong ''numPages'' (metadata s) = Some (numPages s)"
    by (simp add: getUnsignedLong_def plain base_metadata_lookup num)
  show "getString ''tempFile'' (metadata s) = Some (tempFile s)"
    by (simp add: getString_def plain base_metadata_lookup)
  show "getString ''storageLoc'' (metadata s) = Some (storageLoc s)"
    by (simp add: getString_def plain base_metadata_lookup)
qed

lemma metadata_lists:
  assumes ok: "meta_ok s"
  shows "getStringList ''setNames'' (metadata s) = Inr (Some (map (\<lambda>a. setName (the (fst a))) (endOfFiles s)))"
    and "getStringList ''dbNames'' (metadata s) = Inr (Some (map (\<lambda>a. dbName (the (fst a))) (endOfFiles s)))"
    and "getStringList ''endPosForEachFile'' (metadata s) = Inr (Some (map (\<lambda>a. show_nat (snd a)) (endOfFiles s)))"
proof -
  have plain: "map_of (metadata s) k = map_of (base_metadata s) k" if "list_all (\<lambda>c. c \<noteq> CHR ''.'') k" for k
    by (rule metadata_lookup(2)) (use that in \<open>auto simp: list_all_iff\<close>)
  have "list_clean (map (\<lambda>a. setName (the (fst a))) (endOfFiles s))"
      "list_clean (map (\<lambda>a. dbName (the (fst a))) (endOfFiles s))"
      "list_clean (map (\<lambda>a. show_nat (snd a)) (endOfFiles s))"
    using eof_names [OF ok] by (auto simp: list_clean_def clean_name_def show_nat_ne show_nat_plain)
  note sj = this [THEN split_join]
  show "getStringList ''setNames'' (metadata s) = Inr (Some (map (\<lambda>a. setName (the (fst a))) (endOfFiles s)))"
    by (simp add: getStringList_def plain base_metadata_lookup sj)
  show "getStringList ''dbNames'' (metadata s) = Inr (Some (map (\<lambda>a. dbName (the (fst a))) (endOfFiles s)))"
    by (simp add: getStringList_def plain base_metadata_lookup sj)
  show "getStringList ''endPosForEachFile'' (metadata s) = Inr (Some (map (\<lambda>a. show_nat (snd a)) (endOfFiles s)))"
    by (simp add: getStringList_def plain base_metadata_lookup sj)
qed

text \<open>
  C36: reopening a storage from the metadata its destructor wrote is initialising a new one with the same
  geometry and files and restoring exactly the table of file ends and the table of page positions, for
  sets whose names are not empty, contain no separator and give different labels \<^verbatim>\<open>set.db\<close>.
\<close>

theorem reopen_restores_tables:
  assumes ok: "meta_ok s"
  shows "initialize_meta minSz mapped opened disk metaFile (save (metadata s)) =
    andThen (initialize minSz mapped opened disk (tempFile s) (pageSize s) (numPages s) metaFile (storageLoc s))
      (\<lambda>s0. Inr (s0\<lparr>endOfFiles := endOfFiles s, pageLocations := pageLocations s\<rparr>))"
proof -
  have fopen: "FileWriter_open (save (metadata s)) = metadata s"
    using metadata_clean [OF ok] by (rule open_save)
  have E: "map_ok (endOfFiles s)" and L: "map_ok (pageLocations s)" using ok by (auto simp: meta_ok_def)
  have "fold (\<lambda>(k, v). map_put k v) (endOfFiles s) [] = endOfFiles s"
    using E by (rule fold_put_set [OF _ map_ok_distinct [OF E]]) simp
  moreover have "\<forall>a \<in> set (endOfFiles s). fst a \<noteq> None \<and> snd a < 2 ^ 64" using eof_names [OF ok] by blast
  ultimately have ends: "end_loop (map (\<lambda>a. setName (the (fst a))) (endOfFiles s))
      (map (\<lambda>a. dbName (the (fst a))) (endOfFiles s)) (map (\<lambda>a. show_nat (snd a)) (endOfFiles s)) [] =
      Inr (endOfFiles s)"
    using end_loop_entries [of "endOfFiles s" "[]"] by simp
  have locs: "file_loop (metadata s) (endOfFiles s) [] = Inr (pageLocations s)"
    using file_loop_entries [OF ok] fold_put_set [OF L read_entries_all(2,1) [OF ok]] by simp
  show ?thesis
    unfolding initialize_meta_def Let_def fopen
    by (simp add: metadata_scalars [OF ok] metadata_lists [OF ok] ends locs)
qed

definition demo_tables :: bm where
  "demo_tables = (projr (initialize 2 (Some 0) True (\<lambda>_. []) ''t'' 4 2 ''m'' ''d''))
     \<lparr>endOfFiles := [(Some (PDBSet ''users'' ''db''), 6)],
      pageLocations := [((Some (PDBSet ''users'' ''db''), 0), \<lparr>startPos = 0, numBytes = 1\<rparr>),
                        ((Some (PDBSet ''users'' ''db''), 3), \<lparr>startPos = 4, numBytes = 0\<rparr>)]\<rparr>"

lemma demo_tables_ok: "meta_ok demo_tables"
  by (simp add: meta_ok_def demo_tables_def initialize_def class_loop_numeral map_ok_def clean_name_def
      clean_field_def info_ok_def less_prod_def')

theorem reopen_restores_tables_witness:
  "initialize_meta 2 (Some 0) True (\<lambda>_. []) ''m'' (save (metadata demo_tables)) =
    andThen (initialize 2 (Some 0) True (\<lambda>_. []) (tempFile demo_tables) (pageSize demo_tables)
        (numPages demo_tables) ''m'' (storageLoc demo_tables))
      (\<lambda>s0. Inr (s0\<lparr>endOfFiles := endOfFiles demo_tables, pageLocations := pageLocations demo_tables\<rparr>))"
  using reopen_restores_tables [OF demo_tables_ok] .

text \<open>
  The label of a set joins its two names with a dot, so two different sets can have the same label:
  they then share the file of their pages and their entries in the metadata.
\<close>

theorem set_labels_collide:
  "PDBSet ''a.b'' ''c'' \<noteq> PDBSet ''a'' ''b.c'' \<and>
   set_label (PDBSet ''a.b'' ''c'') = set_label (PDBSet ''a'' ''b.c'') \<and>
   set_path s (PDBSet ''a.b'' ''c'') = set_path s (PDBSet ''a'' ''b.c'') \<and>
   map_of (all_files [((Some (PDBSet ''a.b'' ''c''), 0), \<lparr>startPos = 0, numBytes = 1\<rparr>),
                      ((Some (PDBSet ''a'' ''b.c''), 0), \<lparr>startPos = 0, numBytes = 1\<rparr>)] []) ''a.b.c'' =
     Some [page_entry 0 \<lparr>startPos = 0, numBytes = 1\<rparr>, page_entry 0 \<lparr>startPos = 0, numBytes = 1\<rparr>]"
  by (simp add: set_label_def set_path_def Let_def)

end
