(* ===== verification/TopKQueue.thy ===== *)
theory TopKQueue
  imports PC_Prelude
begin

text \<open>
  The queue behind top-\<open>k\<close> aggregation, \<^verbatim>\<open>builtInPDBObjects/headers/TopKQueue.h\<close> and \<^verbatim>\<open>TopKQueue.cc\<close>: a
  binary min-heap of scores kept in two parallel vectors, with a single-item fast path in
  \<open>tempScore\<close>/\<open>tempValue\<close> before the vectors exist. Aggregation inserts items one by one and merges the
  queues of the workers with \<^verbatim>\<open>operator+\<close>; the result is correct when it is a best-\<open>k\<close> selection of
  everything that was inserted anywhere. The vectors' growth is assumed to find room in the allocation
  block.
\<close>

section \<open>Selections of the best items\<close>

text \<open>\<open>T\<close> is a best-\<open>m\<close> selection of \<open>S\<close> by the score function.\<close>

definition best_of :: "('a \<Rightarrow> 's::linorder) \<Rightarrow> nat \<Rightarrow> 'a multiset \<Rightarrow> 'a multiset \<Rightarrow> bool" where
  "best_of sc m S T \<longleftrightarrow> T \<subseteq># S \<and> size T = min m (size S) \<and> (\<forall>x \<in># T. \<forall>y \<in># S - T. sc y \<le> sc x)"

lemma best_of_all: "size S \<le> m \<Longrightarrow> best_of sc m S S"
  by (simp add: best_of_def)

lemma best_of_small:
  assumes "best_of sc m S T" and "size S \<le> m"
  shows "T = S"
proof -
  have "T \<subseteq># S" "size T = size S" using assms by (auto simp: best_of_def)
  then show ?thesis by (metis mset_subset_size subset_mset.le_neq_trans less_irrefl)
qed

text \<open>A selection may be replaced by what it was selected from.\<close>

lemma best_of_trans:
  assumes T: "best_of sc m S T" and U: "best_of sc m (T + X) U"
  shows "best_of sc m (S + X) U"
proof (cases "T = S")
  case True
  then show ?thesis using U by simp
next
  case False
  have sub: "T \<subseteq># S" and szT: "size T = min m (size S)" and bT: "\<forall>x \<in># T. \<forall>y \<in># S - T. sc y \<le> sc x"
    using T by (auto simp: best_of_def)
  have subU: "U \<subseteq># T + X" and szU: "size U = min m (size (T + X))"
      and bU: "\<forall>x \<in># U. \<forall>y \<in># T + X - U. sc y \<le> sc x"
    using U by (auto simp: best_of_def)
  have "size T < size S" using sub False by (simp add: mset_subset_size subset_mset.le_neq_trans)
  then have m: "size T = m" using szT by simp
  have size_eq: "size U = m" using szU m by simp
  have "sc y \<le> sc x" if x: "x \<in># U" and y: "y \<in># S + X - U" for x y
  proof (cases "y \<in># T + X - U")
    case True
    then show ?thesis using bU x by blast
  next
    case notTX: False
    have yS: "y \<in># S - T"
    proof -
      have "0 < count (S + X - U) y" using y by (simp only: count_greater_zero_iff)
      moreover have "count (T + X - U) y = 0" using notTX by (simp add: not_in_iff)
      ultimately have "count T y < count S y" by simp
      then show ?thesis by (simp add: in_diff_count)
    qed
    show ?thesis
    proof (cases "x \<in># T")
      case True
      then show ?thesis using bT yS by blast
    next
      case False
      have "U \<noteq> T" using False x by auto
      then have "\<not> T \<subseteq># U" using size_eq m by (metis mset_subset_size subset_mset.le_neq_trans less_irrefl)
      then obtain t where t: "count U t < count T t" by (auto simp: subseteq_mset_def not_le)
      then have "t \<in># T + X - U" by (simp add: in_diff_count)
      moreover have "t \<in># T" using t by (metis count_inI not_less0)
      ultimately have "sc t \<le> sc x" "sc y \<le> sc t" using bU x bT yS by auto
      then show ?thesis by (rule order_trans [rotated])
    qed
  qed
  moreover have "U \<subseteq># S + X" using subU sub subset_mset.add_right_mono subset_mset.order_trans by blast
  moreover have "size U = min m (size (S + X))" using size_eq m \<open>size T < size S\<close> by simp
  ultimately show ?thesis by (simp add: best_of_def)
qed

text \<open>
  The contract of a bounded container that keeps the best items of what it is given, and what follows
  from it for feeding it a list and for merging containers.
\<close>

locale best_keeper =
  fixes ins :: "'a \<Rightarrow> 'q \<Rightarrow> 'q" and cont :: "'q \<Rightarrow> 'a multiset" and ok :: "'q \<Rightarrow> bool"
    and sc :: "'a \<Rightarrow> 's::linorder" and cap :: "'q \<Rightarrow> nat"
  assumes ins_best: "ok q \<Longrightarrow> best_of sc (cap q) (add_mset x (cont q)) (cont (ins x q))"
    and ins_ok: "ok q \<Longrightarrow> ok (ins x q)"
    and ins_cap: "ok q \<Longrightarrow> cap (ins x q) = cap q"
    and cont_cap: "ok q \<Longrightarrow> size (cont q) \<le> cap q"
begin

lemma fold_ok: "ok q \<Longrightarrow> ok (fold ins xs q) \<and> cap (fold ins xs q) = cap q"
  by (induction xs arbitrary: q) (simp_all add: ins_ok ins_cap)

lemma fold_best:
  "ok q \<Longrightarrow> best_of sc (cap q) (cont q + mset xs) (cont (fold ins xs q))"
proof (induction xs arbitrary: q)
  case Nil
  then show ?case by (simp add: best_of_all cont_cap)
next
  case (Cons x xs)
  have "best_of sc (cap q) (cont (ins x q) + mset xs) (cont (fold ins xs (ins x q)))"
    using Cons.IH [OF ins_ok [OF Cons.prems]] ins_cap [OF Cons.prems] by simp
  from best_of_trans [OF ins_best [OF Cons.prems] this] show ?case by (simp add: add_ac)
qed

text \<open>Merging: inserting a best selection of \<open>B\<close> into a best selection of \<open>A\<close>.\<close>

lemma merge_best:
  assumes "ok q" and "best_of sc (cap q) A (cont q)" and "best_of sc (cap q) B (mset ys)"
  shows "best_of sc (cap q) (A + B) (cont (fold ins ys q))"
proof -
  have "best_of sc (cap q) (mset ys + cont q) (cont (fold ins ys q))"
    using fold_best [OF assms(1), of ys] by (simp add: add.commute)
  from best_of_trans [OF assms(3) this]
  have "best_of sc (cap q) (cont q + B) (cont (fold ins ys q))" by (simp add: add.commute)
  then show ?thesis using best_of_trans [OF assms(2)] by simp
qed

end

section \<open>The queue\<close>

text \<open>\<open>allScores\<close> and \<open>allValues\<close> are null (\<open>None\<close>) until the second insertion.\<close>

record ('s, 'v) topk =
  myKey :: int
  empty :: bool
  allScores :: "'s list option"
  allValues :: "'v list option"
  k :: nat
  tempScore :: 's
  tempValue :: 'v

text \<open>The constructors; the default value of \<open>k\<close> is 1.\<close>

definition TopKQueue_new :: "nat \<Rightarrow> 's \<Rightarrow> 'v \<Rightarrow> ('s, 'v) topk" where
  "TopKQueue_new kIn s0 v0 = \<lparr>myKey = 1, empty = True, allScores = None, allValues = None, k = kIn,
     tempScore = s0, tempValue = v0\<rparr>"

definition TopKQueue_default :: "'s \<Rightarrow> 'v \<Rightarrow> ('s, 'v) topk" where
  "TopKQueue_default s0 v0 = TopKQueue_new 1 s0 v0"

definition TopKQueue_init :: "nat \<Rightarrow> 's \<Rightarrow> 'v \<Rightarrow> ('s, 'v) topk" where
  "TopKQueue_init kIn initScore initValue = (TopKQueue_new kIn initScore initValue)\<lparr>empty := False\<rparr>"

text \<open>The deep copy of a queue: every field, the vectors included, is that of the source.\<close>

definition topk_setUpAndCopyFrom :: "('s, 'v) topk \<Rightarrow> ('s, 'v) topk" where
  "topk_setUpAndCopyFrom from = \<lparr>myKey = myKey from, empty = empty from, allScores = allScores from,
     allValues = allValues from, k = k from, tempScore = tempScore from, tempValue = tempValue from\<rparr>"

text \<open>The vectors, when they exist.\<close>

abbreviation scores :: "('s, 'v) topk \<Rightarrow> 's list" where
  "scores q \<equiv> the (allScores q)"

abbreviation vals :: "('s, 'v) topk \<Rightarrow> 'v list" where
  "vals q \<equiv> the (allValues q)"

definition set_vectors :: "'s list \<Rightarrow> 'v list \<Rightarrow> ('s, 'v) topk \<Rightarrow> ('s, 'v) topk" where
  "set_vectors ss vs q = q\<lparr>allScores := Some ss, allValues := Some vs\<rparr>"

definition swap :: "nat \<Rightarrow> nat \<Rightarrow> ('s, 'v) topk \<Rightarrow> ('s, 'v) topk" where
  "swap i j q =
     (let ts = scores q ! i; tv = vals q ! i
      in set_vectors ((scores q)[i := scores q ! j, j := ts]) ((vals q)[i := vals q ! j, j := tv])
           (q\<lparr>tempScore := ts, tempValue := tv\<rparr>))"

text \<open>The first loop of \<open>insert\<close>: the new item climbs while it is smaller than its parent.\<close>

function sift_up :: "nat \<Rightarrow> ('s::linorder, 'v) topk \<Rightarrow> ('s, 'v) topk" where
  "sift_up current q =
     (if 0 < current \<and> scores q ! current < scores q ! ((current - 1) div 2)
      then sift_up ((current - 1) div 2) (swap current ((current - 1) div 2) q)
      else q)"
  by pat_completeness auto
termination by (relation "measure fst") auto

declare sift_up.simps [simp del]

text \<open>The second loop: the item moved to the root sinks below its smaller child.\<close>

function sift_down :: "nat \<Rightarrow> nat \<Rightarrow> ('s::linorder, 'v) topk \<Rightarrow> ('s, 'v) topk" where
  "sift_down limit current q =
     (if current * 2 + 2 < limit then
        (let smallPos = (if scores q ! (current * 2 + 1) < scores q ! (current * 2 + 2)
                         then current * 2 + 1 else current * 2 + 2)
         in if scores q ! smallPos < scores q ! current
            then sift_down limit smallPos (swap smallPos current q) else q)
      else if current * 2 + 1 < limit then
        (if scores q ! (current * 2 + 1) < scores q ! current
         then sift_down limit (current * 2 + 1) (swap (current * 2 + 1) current q) else q)
      else q)"
  by pat_completeness auto
termination by (relation "measure (\<lambda>(limit, current, q). limit - current)") (auto split: if_splits)

declare sift_down.simps [simp del]

text \<open>Drop the root: the last item replaces it and sinks.\<close>

definition pop_worst :: "('s::linorder, 'v) topk \<Rightarrow> ('s, 'v) topk" where
  "pop_worst q =
     (let ss = (scores q)[0 := last (scores q)]; vs = (vals q)[0 := last (vals q)]
      in sift_down (length (butlast ss)) 0 (set_vectors (butlast ss) (butlast vs) q))"

definition topk_insert :: "'s::linorder \<Rightarrow> 'v \<Rightarrow> ('s, 'v) topk \<Rightarrow> ('s, 'v) topk" where
  "topk_insert score value q =
     (if empty q then q\<lparr>tempScore := score, tempValue := value, empty := False\<rparr>
      else
        (let q0 = (if allScores q = None then set_vectors [tempScore q] [tempValue q] q else q)
         in if score < scores q0 ! 0 \<and> k q0 \<le> length (scores q0) then q0
            else
              (let q1 = sift_up (length (scores q0)) (set_vectors (scores q0 @ [score]) (vals q0 @ [value]) q0)
               in if length (scores q1) \<le> k q1 then q1 else pop_worst q1)))"

definition topk_plus :: "('s::linorder, 'v) topk \<Rightarrow> ('s, 'v) topk \<Rightarrow> ('s, 'v) topk" where
  "topk_plus q addMeIn =
     (if empty addMeIn then q
      else if allScores addMeIn = None then topk_insert (tempScore addMeIn) (tempValue addMeIn) q
      else fold (\<lambda>(s, v). topk_insert s v) (zip (scores addMeIn) (vals addMeIn)) q)"

text \<open>\<open>size\<close> reads the vector of values without testing that there is one.\<close>

definition topk_size :: "('s, 'v) topk \<Rightarrow> nat result" where
  "topk_size q = (case allValues q of None \<Rightarrow> Inl (Undefined ''null vector'') | Some vs \<Rightarrow> Inr (length vs))"

definition topk_nth :: "('s, 'v) topk \<Rightarrow> nat \<Rightarrow> ('s \<times> 'v) result" where
  "topk_nth q i =
     (if empty q then Inl (Exit ''extract a value from an empty queue'')
      else if allValues q = None \<and> i = 0 then Inr (tempScore q, tempValue q)
      else if allValues q = None then Inl (Exit ''past the end of the queue'')
      else if i < length (vals q) then Inr (scores q ! i, vals q ! i)
      else Inl (Exit ''past the end of the queue''))"

section \<open>Heaps\<close>

definition heap :: "'s::linorder list \<Rightarrow> bool" where
  "heap xs \<longleftrightarrow> (\<forall>i. 0 < i \<and> i < length xs \<longrightarrow> xs ! ((i - 1) div 2) \<le> xs ! i)"

definition items :: "('s, 'v) topk \<Rightarrow> ('s \<times> 'v) list" where
  "items q = zip (scores q) (vals q)"

definition vectors_ok :: "('s, 'v) topk \<Rightarrow> bool" where
  "vectors_ok q \<longleftrightarrow> allScores q \<noteq> None \<and> allValues q \<noteq> None \<and> length (scores q) = length (vals q)"

text \<open>What the loops leave alone.\<close>

definition same_queue :: "('s, 'v) topk \<Rightarrow> ('s, 'v) topk \<Rightarrow> bool" where
  "same_queue q q' \<longleftrightarrow> vectors_ok q' \<and> length (scores q') = length (scores q) \<and> k q' = k q \<and>
     empty q' = empty q \<and> mset (items q') = mset (items q)"

lemma same_queue_refl: "vectors_ok q \<Longrightarrow> same_queue q q"
  by (simp add: same_queue_def)

lemma same_queue_trans: "same_queue p q \<Longrightarrow> same_queue q r \<Longrightarrow> same_queue p r"
  by (simp add: same_queue_def)

lemma scores_swap: "scores (swap i j q) = (scores q)[i := scores q ! j, j := scores q ! i]"
  by (simp add: swap_def set_vectors_def Let_def)

lemma swap_same:
  assumes "vectors_ok q" and "i < length (scores q)" and "j < length (scores q)"
  shows "same_queue q (swap i j q)"
proof -
  have len: "length (scores q) = length (vals q)" using assms(1) by (simp add: vectors_ok_def)
  have "items (swap i j q) = (items q)[i := items q ! j, j := items q ! i]"
    using assms len unfolding items_def swap_def set_vectors_def Let_def
    by (simp add: zip_update)
  moreover have "i < length (items q)" "j < length (items q)" using assms len by (simp_all add: items_def)
  ultimately have "mset (items (swap i j q)) = mset (items q)" by (simp add: mset_swap)
  then show ?thesis
    using len by (simp add: same_queue_def vectors_ok_def swap_def set_vectors_def Let_def)
qed

definition par :: "nat \<Rightarrow> nat" where
  "par i = (i - 1) div 2"

lemma par_less: "0 < i \<Longrightarrow> par i < i"
  by (simp add: par_def div_less_iff_less_mult)

lemma par_children: "0 < i \<Longrightarrow> par i = c \<longleftrightarrow> i = c * 2 + 1 \<or> i = c * 2 + 2"
  by (auto simp: par_def)

text \<open>A heap but for the item at \<open>c\<close>, which may be too small (\<open>up\<close>) or too large (\<open>down\<close>).\<close>

definition heap_up :: "nat \<Rightarrow> 's::linorder list \<Rightarrow> bool" where
  "heap_up c xs \<longleftrightarrow> (\<forall>i. 0 < i \<and> i < length xs \<and> i \<noteq> c \<longrightarrow> xs ! par i \<le> xs ! i) \<and>
     (\<forall>i. 0 < i \<and> i < length xs \<and> par i = c \<and> 0 < c \<longrightarrow> xs ! par c \<le> xs ! i)"

definition heap_down :: "nat \<Rightarrow> 's::linorder list \<Rightarrow> bool" where
  "heap_down c xs \<longleftrightarrow> (\<forall>i. 0 < i \<and> i < length xs \<and> par i \<noteq> c \<longrightarrow> xs ! par i \<le> xs ! i) \<and>
     (\<forall>i. 0 < i \<and> i < length xs \<and> par i = c \<and> 0 < c \<longrightarrow> xs ! par c \<le> xs ! i)"

lemma heap_par: "heap xs \<longleftrightarrow> (\<forall>i. 0 < i \<and> i < length xs \<longrightarrow> xs ! par i \<le> xs ! i)"
  by (simp add: heap_def par_def)

lemma heap_up_step:
  assumes up: "heap_up c xs" and c: "0 < c" "c < length xs" and lt: "xs ! c < xs ! par c"
  shows "heap_up (par c) (xs[c := xs ! par c, par c := xs ! c])"
proof -
  let ?p = "par c" and ?ys = "xs[c := xs ! par c, par c := xs ! c]"
  have pc: "?p < c" using c(1) by (rule par_less)
  have nth: "?ys ! i = (if i = ?p then xs ! c else if i = c then xs ! ?p else xs ! i)" if "i < length xs" for i
    using that c pc by (simp add: nth_list_update)
  have old: "xs ! par i \<le> xs ! i" if "0 < i" "i < length xs" "i \<noteq> c" for i
    using up that by (simp add: heap_up_def)
  have kids: "xs ! ?p \<le> xs ! i" if "0 < i" "i < length xs" "par i = c" for i
    using up that c by (simp add: heap_up_def)
  show ?thesis
    unfolding heap_up_def
  proof (intro conjI allI impI)
    fix i assume i: "0 < i \<and> i < length ?ys \<and> i \<noteq> ?p"
    then have "par i < i" "i < length xs" using par_less by auto
    then show "?ys ! par i \<le> ?ys ! i"
      using i old [of i] kids [of i] lt pc by (cases "i = c") (auto simp: nth)
  next
    fix i assume i: "0 < i \<and> i < length ?ys \<and> par i = ?p \<and> 0 < ?p"
    have pp: "par ?p < ?p" using i par_less by blast
    have le: "xs ! par ?p \<le> xs ! ?p" using old [of ?p] i pc c by simp
    have "?p < i" using i par_less by metis
    then show "?ys ! par ?p \<le> ?ys ! i"
      using i pp pc c le old [of i] by (cases "i = c") (auto simp: nth)
  qed
qed

lemma sift_up_ok:
  assumes "vectors_ok q" and "c < length (scores q)" and "heap_up c (scores q)"
  shows "same_queue q (sift_up c q) \<and> heap (scores (sift_up c q))"
  using assms
proof (induction c q rule: sift_up.induct)
  case (1 c q)
  show ?case
  proof (cases "0 < c \<and> scores q ! c < scores q ! par c")
    case True
    have pc: "par c < length (scores q)" using True 1(3) par_less [of c] by simp
    have sw: "same_queue q (swap c (par c) q)" using 1(2,3) pc by (intro swap_same)
    have up: "heap_up (par c) (scores (swap c (par c) q))"
      unfolding scores_swap using 1(3,4) True by (intro heap_up_step) simp_all
    have "same_queue (swap c (par c) q) (sift_up (par c) (swap c (par c) q)) \<and>
        heap (scores (sift_up (par c) (swap c (par c) q)))"
      using 1(1) True pc up sw by (simp add: par_def same_queue_def)
    moreover have "sift_up c q = sift_up (par c) (swap c (par c) q)"
      using True by (subst sift_up.simps) (simp add: par_def)
    ultimately show ?thesis using same_queue_trans [OF sw] by simp
  next
    case False
    then have "sift_up c q = q" by (subst sift_up.simps) (auto simp: par_def)
    moreover have "heap (scores q)"
      unfolding heap_par
    proof (intro allI impI)
      fix i assume "0 < i \<and> i < length (scores q)"
      then show "scores q ! par i \<le> scores q ! i"
        using False 1(4) by (cases "i = c") (auto simp: heap_up_def)
    qed
    ultimately show ?thesis using 1(2) by (simp add: same_queue_refl)
  qed
qed

lemma heap_down_step:
  assumes down: "heap_down c xs" and s: "0 < s" "par s = c" "s < length xs" and lt: "xs ! s < xs ! c"
    and small: "\<And>i. 0 < i \<Longrightarrow> i < length xs \<Longrightarrow> par i = c \<Longrightarrow> xs ! s \<le> xs ! i"
  shows "heap_down s (xs[s := xs ! c, c := xs ! s])"
proof -
  let ?ys = "xs[s := xs ! c, c := xs ! s]"
  have cs: "c < s" using par_less [OF s(1)] s(2) by simp
  have nth: "?ys ! i = (if i = c then xs ! s else if i = s then xs ! c else xs ! i)" if "i < length xs" for i
    using that s cs by (simp add: nth_list_update)
  have old: "xs ! par i \<le> xs ! i" if "0 < i" "i < length xs" "par i \<noteq> c" for i
    using down that by (simp add: heap_down_def)
  have kids: "xs ! par c \<le> xs ! s" if "0 < c" using down that s by (simp add: heap_down_def)
  show ?thesis
    unfolding heap_down_def
  proof (intro conjI allI impI)
    fix i assume i: "0 < i \<and> i < length ?ys \<and> par i \<noteq> s"
    then have il: "i < length xs" "par i < i" using par_less by auto
    show "?ys ! par i \<le> ?ys ! i"
    proof (cases "par i = c")
      case True
      have pl: "par i < length xs" using il by simp
      show ?thesis unfolding nth [OF il(1)] nth [OF pl] using True i il small [of i] lt by auto
    next
      case False
      then have "i \<noteq> s" using s by auto
      then show ?thesis using i il False old [of i] kids by (cases "i = c") (auto simp: nth)
    qed
  next
    fix i assume i: "0 < i \<and> i < length ?ys \<and> par i = s \<and> 0 < s"
    then have "s < i" "i < length xs" using par_less [of i] by auto
    then show "?ys ! par s \<le> ?ys ! i" using i s cs old [of i] by (auto simp: nth)
  qed
qed

lemma heap_down_done:
  assumes "heap_down c xs" and "\<And>i. 0 < i \<Longrightarrow> i < length xs \<Longrightarrow> par i = c \<Longrightarrow> xs ! c \<le> xs ! i"
  shows "heap xs"
  unfolding heap_par
proof (intro allI impI)
  fix i assume "0 < i \<and> i < length xs"
  then show "xs ! par i \<le> xs ! i"
    using assms(2) [of i] assms(1) by (cases "par i = c") (auto simp: heap_down_def)
qed

lemma sift_down_ok:
  assumes "vectors_ok q" and "limit = length (scores q)" and "c < limit" and "heap_down c (scores q)"
  shows "same_queue q (sift_down limit c q) \<and> heap (scores (sift_down limit c q))"
  using assms
proof (induction "limit - c" arbitrary: c q rule: less_induct)
  case less
  note vo = less(2) and lim = less(3) and cl = less(4) and hd = less(5)
  let ?xs = "scores q"
  define s where "s = (if c * 2 + 2 < limit \<and> \<not> ?xs ! (c * 2 + 1) < ?xs ! (c * 2 + 2)
      then c * 2 + 2 else c * 2 + 1)"
  have eq: "sift_down limit c q = (if s < limit \<and> ?xs ! s < ?xs ! c then sift_down limit s (swap s c q) else q)"
    by (subst sift_down.simps) (auto simp: s_def Let_def)
  have ps: "0 < s" "par s = c" by (auto simp: s_def par_def)
  have small: "?xs ! s \<le> ?xs ! i" if "0 < i" "i < length ?xs" "par i = c" for i
    using that lim by (auto simp: par_children s_def)
  show ?case
  proof (cases "s < limit \<and> ?xs ! s < ?xs ! c")
    case True
    have sw: "same_queue q (swap s c q)" using vo lim cl True by (intro swap_same) simp_all
    have down: "heap_down s (scores (swap s c q))"
      unfolding scores_swap using lim hd True ps small by (intro heap_down_step) simp_all
    have "c < s" using ps par_less [of s] by simp
    then have "limit - s < limit - c" using True by (intro diff_less_mono2) simp_all
    then have "same_queue (swap s c q) (sift_down limit s (swap s c q)) \<and>
        heap (scores (sift_down limit s (swap s c q)))"
      by (rule less(1)) (use True sw down lim in \<open>simp_all add: same_queue_def\<close>)
    then show ?thesis using True eq same_queue_trans [OF sw] by simp
  next
    case False
    have "?xs ! c \<le> ?xs ! i" if i: "0 < i" "i < length ?xs" "par i = c" for i
    proof -
      have "s < limit" using i lim by (auto simp: par_children s_def)
      then show ?thesis using False small [OF i] by simp
    qed
    then have "heap ?xs" by (rule heap_down_done [OF hd])
    then show ?thesis using False vo by (auto simp: eq same_queue_refl)
  qed
qed

text \<open>The root of a heap is its least score.\<close>

lemma heap_root_least:
  assumes "heap xs" and "i < length xs"
  shows "xs ! 0 \<le> xs ! i"
  using assms(2)
proof (induction i rule: less_induct)
  case (less i)
  show ?case
  proof (cases "i = 0")
    case False
    then have "par i < i" using par_less by simp
    then have "xs ! 0 \<le> xs ! par i" "xs ! par i \<le> xs ! i"
      using less False assms(1) by (auto simp: heap_par)
    then show ?thesis by (rule order_trans)
  qed simp
qed

lemma items_root_least:
  assumes "vectors_ok q" and "heap (scores q)" and "y \<in> set (items q)"
  shows "scores q ! 0 \<le> fst y"
proof -
  obtain n where n: "n < length (items q)" "y = items q ! n" using assms(3) by (metis in_set_conv_nth)
  then have "fst y = scores q ! n" "n < length (scores q)"
    using assms(1) by (simp_all add: items_def vectors_ok_def)
  then show ?thesis using heap_root_least [OF assms(2)] by simp
qed

lemma pop_worst_ok:
  assumes vo: "vectors_ok q" and hp: "heap (scores q)" and len: "2 \<le> length (scores q)"
  shows "vectors_ok (pop_worst q) \<and> heap (scores (pop_worst q)) \<and> k (pop_worst q) = k q \<and>
    empty (pop_worst q) = empty q \<and> length (scores (pop_worst q)) = length (scores q) - 1 \<and>
    mset (items q) = add_mset (hd (items q)) (mset (items (pop_worst q)))"
proof -
  let ?xs = "scores q" and ?vs = "vals q"
  have lv: "length ?vs = length ?xs" using vo by (simp add: vectors_ok_def)
  obtain x xs z where xs: "?xs = x # xs @ [z]"
    using len by (metis append_butlast_last_id length_0_conv length_Cons list.exhaust not_numeral_le_zero
        numeral_2_eq_2 One_nat_def Suc_n_not_le_n butlast.simps(2) last_ConsR list.size(3))
  obtain y ys w where vs: "?vs = y # ys @ [w]"
    using len lv by (metis append_butlast_last_id length_0_conv length_Cons list.exhaust not_numeral_le_zero
        numeral_2_eq_2 One_nat_def Suc_n_not_le_n butlast.simps(2) last_ConsR list.size(3))
  have ll: "length ys = length xs" using lv xs vs by simp
  define p where "p = set_vectors (z # xs) (w # ys) q"
  have run: "pop_worst q = sift_down (length (scores p)) 0 p"
    by (simp add: pop_worst_def Let_def xs vs p_def set_vectors_def butlast_append)
  have vp: "vectors_ok p" using ll by (simp add: p_def vectors_ok_def set_vectors_def)
  have "heap_down 0 (scores p)"
    unfolding heap_down_def
  proof (intro conjI allI impI)
    fix i assume i: "0 < i \<and> i < length (scores p) \<and> par i \<noteq> 0"
    then have pi: "par i < i" using par_less by simp
    have same: "scores p ! j = ?xs ! j" if "0 < j" "j < length (scores p)" for j
      using that by (cases j) (auto simp: p_def set_vectors_def xs nth_append)
    have "i < length ?xs" using i by (simp add: p_def set_vectors_def xs)
    then have "?xs ! par i \<le> ?xs ! i" using hp i unfolding heap_par by blast
    then show "scores p ! par i \<le> scores p ! i" using same [of i] same [of "par i"] i pi by simp
  qed simp
  then have ok: "same_queue p (pop_worst q) \<and> heap (scores (pop_worst q))"
    unfolding run using vp by (intro sift_down_ok) (simp_all add: p_def set_vectors_def)
  have "mset (items q) = add_mset (x, y) (mset (items p))"
    using ll by (simp add: items_def xs vs p_def set_vectors_def add_mset_commute)
  moreover have "hd (items q) = (x, y)" by (simp add: items_def xs vs)
  ultimately show ?thesis
    using ok by (simp add: same_queue_def p_def set_vectors_def xs)
qed

section \<open>The queue keeps the best items\<close>

definition topk_ok :: "('s::linorder, 'v) topk \<Rightarrow> bool" where
  "topk_ok q \<longleftrightarrow> (empty q \<longrightarrow> allScores q = None) \<and> (allScores q = None \<longleftrightarrow> allValues q = None) \<and>
     (allScores q \<noteq> None \<longrightarrow> vectors_ok q \<and> heap (scores q) \<and> scores q \<noteq> [] \<and>
        length (scores q) \<le> max (k q) 1)"

definition contents :: "('s, 'v) topk \<Rightarrow> ('s \<times> 'v) multiset" where
  "contents q = (if empty q then {#} else if allScores q = None then {#(tempScore q, tempValue q)#}
     else mset (items q))"

definition capacity :: "('s, 'v) topk \<Rightarrow> nat" where
  "capacity q = max (k q) 1"

lemma best_of_drop:
  assumes "size T = m" and "\<And>y. y \<in># T \<Longrightarrow> sc x \<le> sc y"
  shows "best_of sc m (add_mset x T) T"
  using assms by (simp add: best_of_def)

lemma pushed_ok:
  assumes vo: "vectors_ok q" and hp: "heap (scores q)"
    and p_def: "p = sift_up (length (scores q)) (set_vectors (scores q @ [s]) (vals q @ [v]) q)"
  shows "vectors_ok p \<and> heap (scores p) \<and> length (scores p) = length (scores q) + 1 \<and> k p = k q \<and>
    empty p = empty q \<and> mset (items p) = add_mset (s, v) (mset (items q))"
proof -
  let ?q = "set_vectors (scores q @ [s]) (vals q @ [v]) q"
  have vq: "vectors_ok ?q" using vo by (simp add: vectors_ok_def set_vectors_def)
  have "heap_up (length (scores q)) (scores ?q)"
    unfolding heap_up_def
  proof (intro conjI allI impI)
    fix i assume i: "0 < i \<and> i < length (scores ?q) \<and> i \<noteq> length (scores q)"
    then have "i < length (scores q)" "par i < i" using par_less by (auto simp: set_vectors_def)
    then show "scores ?q ! par i \<le> scores ?q ! i"
      using hp i by (simp add: heap_par set_vectors_def nth_append)
  next
    fix i assume i: "0 < i \<and> i < length (scores ?q) \<and> par i = length (scores q) \<and> 0 < length (scores q)"
    then show "scores ?q ! par (length (scores q)) \<le> scores ?q ! i"
      using par_less [of i] by (simp add: set_vectors_def)
  qed
  then have "same_queue ?q p \<and> heap (scores p)"
    unfolding p_def using vq by (intro sift_up_ok) (simp_all add: set_vectors_def)
  then show ?thesis
    using vo by (simp add: same_queue_def items_def set_vectors_def vectors_ok_def)
qed

lemma topk_insert_ok:
  assumes ok: "topk_ok q"
  shows "topk_ok (topk_insert s v q) \<and> k (topk_insert s v q) = k q \<and>
    best_of fst (capacity q) (add_mset (s, v) (contents q)) (contents (topk_insert s v q))"
proof (cases "empty q")
  case True
  then show ?thesis
    using ok by (auto simp: topk_insert_def topk_ok_def contents_def capacity_def best_of_all)
next
  case ne: False
  define q0 where "q0 = (if allScores q = None then set_vectors [tempScore q] [tempValue q] q else q)"
  have q0: "vectors_ok q0" "heap (scores q0)" "scores q0 \<noteq> []" "length (scores q0) \<le> capacity q"
      "k q0 = k q" "\<not> empty q0" "contents q = mset (items q0)"
    using ok ne by (auto simp: q0_def topk_ok_def set_vectors_def vectors_ok_def heap_def capacity_def
        contents_def items_def)
  have root: "scores q0 ! 0 \<le> fst y" if "y \<in># mset (items q0)" for y
    using that items_root_least [OF q0(1,2)] by simp
  have done0: "topk_ok q0" "contents q0 = mset (items q0)"
    using q0 by (auto simp: topk_ok_def contents_def capacity_def vectors_ok_def)
  have size0: "size (mset (items q0)) = length (scores q0)"
    using q0(1) by (simp add: items_def vectors_ok_def)
  have full: "length (scores q0) = capacity q" if "k q \<le> length (scores q0)"
    using that q0(3,4) by (cases "scores q0") (auto simp: capacity_def)
  define q1 where "q1 = sift_up (length (scores q0)) (set_vectors (scores q0 @ [s]) (vals q0 @ [v]) q0)"
  note q1 = pushed_ok [OF q0(1,2) q1_def]
  have run: "topk_insert s v q = (if s < scores q0 ! 0 \<and> k q0 \<le> length (scores q0) then q0
      else if length (scores q1) \<le> k q1 then q1 else pop_worst q1)"
    using ne by (simp add: topk_insert_def Let_def q0_def q1_def)
  consider "s < scores q0 ! 0 \<and> k q0 \<le> length (scores q0)"
    | "\<not> (s < scores q0 ! 0 \<and> k q0 \<le> length (scores q0))" "length (scores q1) \<le> k q1"
    | "\<not> (s < scores q0 ! 0 \<and> k q0 \<le> length (scores q0))" "k q1 < length (scores q1)" by linarith
  then show ?thesis
  proof cases
    case 1
    have "best_of fst (capacity q) (add_mset (s, v) (mset (items q0))) (mset (items q0))"
      using full 1 q0(5) size0 root by (intro best_of_drop) fastforce+
    then show ?thesis using 1 run done0 q0 by simp
  next
    case 2
    have "best_of fst (capacity q) (add_mset (s, v) (mset (items q0))) (add_mset (s, v) (mset (items q0)))"
      using 2(2) q1 size0 q0(5) by (intro best_of_all) (simp add: capacity_def)
    moreover have "topk_ok q1" "contents q1 = mset (items q1)"
      using q1 q0(6) 2(2) by (auto simp: topk_ok_def contents_def vectors_ok_def)
    ultimately show ?thesis using 2 run q1 q0(5,7) by simp
  next
    case 3
    have cap: "length (scores q0) = capacity q" using 3(2) q1 q0(5) full by simp
    have "2 \<le> length (scores q1)" using q1 q0(3) by (cases "scores q0") simp_all
    note q2 = pop_worst_ok [OF _ _ this, OF conjunct1 [OF q1] conjunct1 [OF conjunct2 [OF q1]]]
    have ne1: "items q1 \<noteq> []" using q1 by (auto simp: items_def vectors_ok_def)
    have hd1: "fst (hd (items q1)) = scores q1 ! 0"
      using ne1 by (cases "scores q1"; cases "vals q1") (auto simp: items_def)
    have low: "fst (hd (items q1)) \<le> fst y" if "y \<in># mset (items (pop_worst q1))" for y
    proof -
      have "y \<in> set (items q1)"
        using q2 that unfolding set_mset_mset [symmetric] by simp
      from items_root_least [OF conjunct1 [OF q1] conjunct1 [OF conjunct2 [OF q1]] this] show ?thesis
        using hd1 by simp
    qed
    have szp: "size (mset (items (pop_worst q1))) = capacity q"
      using q2 q1 cap by (simp add: items_def vectors_ok_def)
    have "best_of fst (capacity q) (add_mset (hd (items q1)) (mset (items (pop_worst q1)))) (mset (items (pop_worst q1)))"
      using szp low by (rule best_of_drop)
    then have "best_of fst (capacity q) (add_mset (s, v) (mset (items q0))) (mset (items (pop_worst q1)))"
      using q1 q2 by simp
    moreover have "topk_ok (pop_worst q1)" "contents (pop_worst q1) = mset (items (pop_worst q1))"
      using q2 q1 q0 cap by (auto simp: topk_ok_def contents_def vectors_ok_def capacity_def)
    ultimately show ?thesis using 3 run q1 q2 q0(5,7) by simp
  qed
qed

interpretation topk: best_keeper "\<lambda>(s, v). topk_insert s v" contents topk_ok fst capacity
proof
  fix q :: "('s::linorder, 'v) topk" and x :: "'s \<times> 'v"
  assume ok: "topk_ok q"
  show "best_of fst (capacity q) (add_mset x (contents q)) (contents ((case x of (s, v) \<Rightarrow> topk_insert s v) q))"
    "topk_ok ((case x of (s, v) \<Rightarrow> topk_insert s v) q)"
    "capacity ((case x of (s, v) \<Rightarrow> topk_insert s v) q) = capacity q"
    using topk_insert_ok [OF ok] by (auto simp: capacity_def split: prod.split)
  show "size (contents q) \<le> capacity q"
    using ok by (auto simp: contents_def topk_ok_def capacity_def items_def vectors_ok_def)
qed

lemma topk_new_ok: "topk_ok (TopKQueue_new kIn s0 v0)" "contents (TopKQueue_new kIn s0 v0) = {#}"
    "capacity (TopKQueue_new kIn s0 v0) = max kIn 1"
  by (simp_all add: TopKQueue_new_def topk_ok_def contents_def capacity_def)

lemma topk_plus_fold:
  assumes "topk_ok q'"
  shows "\<exists>ys. mset ys = contents q' \<and> topk_plus q q' = fold (\<lambda>(s, v). topk_insert s v) ys q"
proof -
  consider "empty q'" | "\<not> empty q'" "allScores q' = None" | "\<not> empty q'" "allScores q' \<noteq> None" by blast
  then show ?thesis
  proof cases
    case 1
    then show ?thesis by (intro exI [of _ "[]"]) (simp add: topk_plus_def contents_def)
  next
    case 2
    then show ?thesis
      by (intro exI [of _ "[(tempScore q', tempValue q')]"]) (simp add: topk_plus_def contents_def)
  next
    case 3
    then show ?thesis
      by (intro exI [of _ "items q'"]) (auto simp: topk_plus_def contents_def items_def)
  qed
qed

text \<open>
  C38: a queue created for \<open>k\<close> items and fed any list of scored items holds a best-\<open>max k 1\<close> selection of
  that list: its items are among those inserted, there are as many as fit, and no item that was dropped
  has a larger score than one that was kept.
\<close>

theorem topk_keeps_best:
  "best_of fst (max kIn 1) (mset xs)
     (contents (fold (\<lambda>(s, v). topk_insert s v) xs (TopKQueue_new kIn s0 v0)))"
  using topk.fold_best [OF topk_new_ok(1), of kIn s0 v0 xs] by (simp add: topk_new_ok(2,3))

text \<open>
  C39: distributing the items does not change the answer: two queues for the same \<open>k\<close>, fed with \<open>xs\<close> and
  \<open>ys\<close> on two workers and merged with \<^verbatim>\<open>operator+\<close>, hold a best selection of all items.
\<close>

theorem topk_merge_best:
  "best_of fst (max kIn 1) (mset xs + mset ys)
     (contents (topk_plus (fold (\<lambda>(s, v). topk_insert s v) xs (TopKQueue_new kIn s0 v0))
                          (fold (\<lambda>(s, v). topk_insert s v) ys (TopKQueue_new kIn s1 v1))))"
proof -
  let ?ins = "\<lambda>(s, v). topk_insert s v"
  let ?q = "fold ?ins xs (TopKQueue_new kIn s0 v0)" and ?q' = "fold ?ins ys (TopKQueue_new kIn s1 v1)"
  have ok: "topk_ok ?q" "capacity ?q = max kIn 1" "topk_ok ?q'"
    using topk.fold_ok [OF topk_new_ok(1)] topk_new_ok(3) by (metis, metis, metis)
  have A: "best_of fst (max kIn 1) (mset xs) (contents ?q)"
    using topk.fold_best [OF topk_new_ok(1), of kIn s0 v0 xs] by (simp add: topk_new_ok(2,3))
  have B: "best_of fst (max kIn 1) (mset ys) (contents ?q')"
    using topk.fold_best [OF topk_new_ok(1), of kIn s1 v1 ys] by (simp add: topk_new_ok(2,3))
  obtain zs where zs: "mset zs = contents ?q'" "topk_plus ?q ?q' = fold ?ins zs ?q"
    using topk_plus_fold [OF ok(3)] by blast
  show ?thesis using topk.merge_best [OF ok(1), of "mset xs" "mset ys" zs] A B ok(2) zs by simp
qed

text \<open>
  The queue is a min-heap at every moment of such a run, with as many values as scores and never more
  than \<open>max k 1\<close> of them, so reading it by index returns exactly its contents and its first item has
  the least score kept.
\<close>

theorem topk_read_back:
  assumes "xs \<noteq> []"
    and q_def: "q = fold (\<lambda>(s, v). topk_insert s v) xs (TopKQueue_new kIn s0 v0)"
  shows "\<exists>n. 0 < n \<and> n \<le> max kIn 1 \<and> (\<forall>i < n. topk_nth q i \<noteq> Inl (Exit ''past the end of the queue'')) \<and>
    image_mset (\<lambda>i. topk_nth q i) (mset [0..<n]) = image_mset Inr (contents q) \<and>
    (\<forall>x \<in># contents q. fst (projr (topk_nth q 0)) \<le> fst x)"
proof -
  have ok: "topk_ok q" and cap: "capacity q = max kIn 1"
    using topk.fold_ok [OF topk_new_ok(1)] topk_new_ok(3) unfolding q_def by (metis, metis)
  have best: "best_of fst (max kIn 1) (mset xs) (contents q)"
    using topk.fold_best [OF topk_new_ok(1), of kIn s0 v0 xs] by (simp add: q_def topk_new_ok(2,3))
  then have "size (contents q) = min (max kIn 1) (length xs)" by (simp add: best_of_def)
  then have sz: "0 < size (contents q)" using assms(1) by (cases xs) auto
  then have ne: "\<not> empty q" by (auto simp: contents_def)
  show ?thesis
  proof (cases "allScores q = None")
    case True
    then have "allValues q = None" using ok by (simp add: topk_ok_def)
    then show ?thesis
      using True ne by (intro exI [of _ 1]) (simp add: topk_nth_def contents_def)
  next
    case False
    then have v: "vectors_ok q" "heap (scores q)" "scores q \<noteq> []" "length (scores q) \<le> max kIn 1"
      using ok cap by (auto simp: topk_ok_def capacity_def)
    have cq: "contents q = mset (items q)" using False ne by (auto simp: contents_def)
    have nth: "topk_nth q i = Inr (items q ! i)" if "i < length (items q)" for i
      using that ne v(1) by (auto simp: topk_nth_def items_def vectors_ok_def)
    have len: "length (items q) = length (scores q)" using v(1) by (simp add: items_def vectors_ok_def)
    have "map (topk_nth q) [0..<length (items q)] = map Inr (items q)"
      by (rule nth_equalityI) (simp_all add: nth)
    then have "image_mset (topk_nth q) (mset [0..<length (items q)]) = image_mset Inr (contents q)"
      by (metis cq mset_map)
    moreover have "fst (projr (topk_nth q 0)) \<le> fst x" if "x \<in># contents q" for x
    proof -
      have pos: "0 < length (items q)" using len v(3) by simp
      then have "items q ! 0 = (scores q ! 0, vals q ! 0)" by (simp add: items_def)
      moreover note pos
      ultimately show ?thesis using items_root_least [OF v(1,2)] that nth [of 0] by (simp add: cq)
    qed
    ultimately show ?thesis
      using len v(3,4) nth by (intro exI [of _ "length (items q)"]) auto
  qed
qed

theorem topk_read_back_witness:
  "\<exists>n. 0 < n \<and> n \<le> max 2 1 \<and>
    (\<forall>i < n. topk_nth (fold (\<lambda>(s, v). topk_insert s v) [(5, ''a''), (9, ''b''), (7, ''c'')]
        (TopKQueue_new 2 (0 :: int) '''')) i \<noteq> Inl (Exit ''past the end of the queue''))"
  using topk_read_back [OF _ refl, of "[(5 :: int, ''a''), (9, ''b''), (7, ''c'')]" 2 0 "''''"] by blast

text \<open>
  A queue that holds a single item has no vectors yet, and asking it for its size dereferences a null
  handle, although reading its item by index works.
\<close>

theorem topk_size_of_singleton_undefined:
  "topk_size (topk_insert (5 :: int) ''a'' (TopKQueue_new 3 0 '''')) = Inl (Undefined ''null vector'') \<and>
   topk_nth (topk_insert (5 :: int) ''a'' (TopKQueue_new 3 0 '''')) 0 = Inr (5, ''a'')"
  by (simp add: topk_size_def topk_insert_def TopKQueue_new_def topk_nth_def)

end
