(* ===== verification/PairArray.thy ===== *)
theory PairArray
  imports PC_Prelude
begin

unbundle bit_operations_syntax

text \<open>
  The open-addressing hash table behind \<^verbatim>\<open>pdb::Map\<close>: \<^verbatim>\<open>builtInPDBObjects/headers/PairArray.cc\<close>
  (slots, probing, insertion, doubling, deep copy, iteration) and \<^verbatim>\<open>PDBMap.cc\<close> (growth policy and
  integer hashing). The raw array of (hash, key, value) records is a list of slots; the hash function
  of the key type and the default value of the value type are parameters.
\<close>

section \<open>Data\<close>

datatype ('k, 'v) slot = Free | Rec (s_hash: "64 word") (s_key: 'k) (s_value: 'v)

definition UNUSED :: "64 word" where
  "UNUSED = 493295393"

fun GET_HASH :: "('k, 'v) slot list \<Rightarrow> nat \<Rightarrow> 64 word" where
  "GET_HASH d i = (case d ! i of Free \<Rightarrow> UNUSED | Rec h k v \<Rightarrow> h)"

record ('k, 'v) pair_array =
  usedSlots :: "32 word"
  numSlots :: "32 word"
  maxSlots :: "32 word"
  slots :: "('k, 'v) slot list"
  disableDestructor :: bool

section \<open>Hashing\<close>

definition newHash :: "32 word \<Rightarrow> 32 word" where
  "newHash x0 =
     (let x1 = ((drop_bit 16 x0) XOR x0) * 0x45d9f3b;
          x2 = ((drop_bit 16 x1) XOR x1) * 0x45d9f3b
      in (drop_bit 16 x2) XOR x2)"

definition specialHash :: "32 word \<Rightarrow> 64 word" where
  "specialHash u = ucast (newHash u)"

text \<open>\<^verbatim>\<open>Hasher::hash\<close> never lets the code of an unused slot escape.\<close>

definition Hasher_hash :: "('k \<Rightarrow> 64 word) \<Rightarrow> 'k \<Rightarrow> 64 word" where
  "Hasher_hash hash_impl k =
     (let temp = hash_impl k in if temp = UNUSED then 858931273 else temp)"

section \<open>Construction\<close>

text \<open>
  The fill factor is the literal \<^verbatim>\<open>.667\<close>; the product with a 32-bit slot count is truncated, which
  is integer division by 1000 (the rounding error of the double is far below 1/1000).
\<close>

definition fill_limit :: "nat \<Rightarrow> nat" where
  "fill_limit n = n * 667 div 1000"

fun size_loop :: "32 word \<Rightarrow> nat \<Rightarrow> 32 word \<Rightarrow> bool" where
  "size_loop numSlotsIn 0 val = False"
| "size_loop numSlotsIn (Suc c) val =
     (if val \<ge> numSlotsIn then True else size_loop numSlotsIn c (val * 2))"

definition PairArray_new :: "32 word \<Rightarrow> ('k, 'v) pair_array result" where
  "PairArray_new numSlotsIn =
     (if \<not> size_loop numSlotsIn 32 1 then Inl (Exit ''could not get the correct size'')
      else Inr \<lparr>usedSlots = 0, numSlots = numSlotsIn,
                maxSlots = of_nat (fill_limit (unat numSlotsIn)),
                slots = replicate (unat numSlotsIn) Free, disableDestructor = False\<rparr>)"

section \<open>Probing\<close>

text \<open>
  The loop shared by \<open>count\<close>, \<open>setUnused\<close> and \<open>operator[]\<close>: stop at an unused slot, stop at a slot
  with the same hash and the same key, otherwise go on to the next slot and wrap around at the end.
  \<open>RanOff\<close> is the end of the loop after \<open>numSlots\<close> probes.
\<close>

datatype probe = Hit nat | Empty nat | RanOff

definition next_slot :: "nat \<Rightarrow> nat \<Rightarrow> nat" where
  "next_slot n s = (if s = n - 1 then 0 else s + 1)"

fun probe_loop :: "('k, 'v) slot list \<Rightarrow> nat \<Rightarrow> 64 word \<Rightarrow> 'k \<Rightarrow> nat \<Rightarrow> nat \<Rightarrow> probe" where
  "probe_loop d n h k 0 s = RanOff"
| "probe_loop d n h k (Suc c) s =
     (if GET_HASH d s = UNUSED then Empty s
      else if GET_HASH d s = h \<and> s_key (d ! s) = k then Hit s
      else probe_loop d n h k c (next_slot n s))"

text \<open>
  The home slot is \<^verbatim>\<open>hashVal % (numSlots - 1)\<close>, computed in 32 bits below the percent sign: with no
  slots the divisor is \<open>2 ^ 32 - 1\<close> and the loop body never runs, with one slot it is zero.
\<close>

definition probe_from_home ::
  "('k \<Rightarrow> 64 word) \<Rightarrow> ('k, 'v) pair_array \<Rightarrow> 'k \<Rightarrow> probe result" where
  "probe_from_home hash_impl a k =
     (let hashVal = Hasher_hash hash_impl k; n = unat (numSlots a)
      in if n = 1 then Inl (Undefined ''remainder by zero'')
         else Inr (probe_loop (slots a) n hashVal k n (unat hashVal mod unat (numSlots a - 1))))"

section \<open>Operations\<close>

definition pa_count :: "('k \<Rightarrow> 64 word) \<Rightarrow> ('k, 'v) pair_array \<Rightarrow> 'k \<Rightarrow> int result" where
  "pa_count hash_impl a k =
     andThen (probe_from_home hash_impl a k) (\<lambda>p.
       Inr (case p of Hit _ \<Rightarrow> 1 | Empty _ \<Rightarrow> 0 | RanOff \<Rightarrow> 0))"

definition pa_setUnused ::
  "('k \<Rightarrow> 64 word) \<Rightarrow> ('k, 'v) pair_array \<Rightarrow> 'k \<Rightarrow> ('k, 'v) pair_array result" where
  "pa_setUnused hash_impl a k =
     andThen (probe_from_home hash_impl a k) (\<lambda>p.
       Inr (case p of Hit s \<Rightarrow> a\<lparr>slots := (slots a)[s := Free]\<rparr> | Empty _ \<Rightarrow> a | RanOff \<Rightarrow> a))"

text \<open>
  \<open>operator[]\<close> returns a reference to the value, here the index of its slot. \<open>fits\<close> says whether the
  construction of the key and value objects finds enough space in the allocation block; when it does
  not the hash of the slot has not been written yet.
\<close>

definition pa_at ::
  "('k \<Rightarrow> 64 word) \<Rightarrow> 'v \<Rightarrow> bool \<Rightarrow> ('k, 'v) pair_array \<Rightarrow> 'k \<Rightarrow>
     (nat \<times> ('k, 'v) pair_array) result" where
  "pa_at hash_impl v0 fits a k =
     andThen (probe_from_home hash_impl a k) (\<lambda>p.
       case p of
         Empty s \<Rightarrow>
           if fits then
             Inr (s, a\<lparr>slots := (slots a)[s := Rec (Hasher_hash hash_impl k) k v0],
                       usedSlots := usedSlots a + 1\<rparr>)
           else Inl (Throw ''NotEnoughSpace'')
       | Hit s \<Rightarrow> Inr (s, a)
       | RanOff \<Rightarrow> Inl (Exit ''Ran off the end of the hash table''))"

definition set_value :: "nat \<Rightarrow> 'v \<Rightarrow> ('k, 'v) pair_array \<Rightarrow> ('k, 'v) pair_array" where
  "set_value s v a =
     a\<lparr>slots := (slots a)[s := (case slots a ! s of Free \<Rightarrow> Free | Rec h k _ \<Rightarrow> Rec h k v)]\<rparr>"

definition pa_isOverFull :: "('k, 'v) pair_array \<Rightarrow> bool" where
  "pa_isOverFull a \<longleftrightarrow> usedSlots a \<ge> maxSlots a"

definition pa_numUsedSlots :: "('k, 'v) pair_array \<Rightarrow> 32 word" where
  "pa_numUsedSlots a = usedSlots a"

text \<open>
  \<open>doubleArray\<close> rehashes slot by slot and destroys each record it has moved. The result pairs the old
  array as it is left with the new one; \<open>fitsArr\<close> and \<open>fits i\<close> say whether the new array and the
  copy of record \<open>i\<close> find space. The bytes of the new array are the 32-bit product \<^verbatim>\<open>objSize * howMany\<close>; that \<open>fitsArr\<close> holds includes that it does not wrap
  around, which would yield an array that is too short. The limit of \<open>2 ^ 30\<close> slots below is that of the slot count alone.
\<close>

fun rehash ::
  "('k \<Rightarrow> 64 word) \<Rightarrow> 'v \<Rightarrow> (nat \<Rightarrow> bool) \<Rightarrow> nat \<Rightarrow> nat \<Rightarrow> ('k, 'v) pair_array \<Rightarrow>
     ('k, 'v) pair_array \<Rightarrow> ('k, 'v) pair_array \<times> ('k, 'v) pair_array result" where
  "rehash hash_impl v0 fits 0 i old new = (old, Inr new)"
| "rehash hash_impl v0 fits (Suc c) i old new =
     (case slots old ! i of
        Free \<Rightarrow> rehash hash_impl v0 fits c (i + 1) old new
      | Rec h k v \<Rightarrow>
          if h = UNUSED then rehash hash_impl v0 fits c (i + 1) old new
          else (case pa_at hash_impl v0 (fits i) new k of
                  Inl e \<Rightarrow> (old, Inl e)
                | Inr (s, new') \<Rightarrow>
                    rehash hash_impl v0 fits c (i + 1)
                      (old\<lparr>slots := (slots old)[i := Free]\<rparr>) (set_value s v new')))"

definition pa_doubleArray ::
  "('k \<Rightarrow> 64 word) \<Rightarrow> 'v \<Rightarrow> bool \<Rightarrow> (nat \<Rightarrow> bool) \<Rightarrow> ('k, 'v) pair_array \<Rightarrow>
     ('k, 'v) pair_array \<times> ('k, 'v) pair_array result" where
  "pa_doubleArray hash_impl v0 fitsArr fits a =
     (if \<not> fitsArr then (a, Inl (Throw ''NotEnoughSpace''))
      else case PairArray_new (numSlots a * 2) of
             Inl e \<Rightarrow> (a, Inl e)
           | Inr new \<Rightarrow> rehash hash_impl v0 fits (unat (numSlots a)) 0 a new)"

text \<open>
  \<open>setUpAndCopyFrom\<close>: when neither keys nor values descend from \<^verbatim>\<open>Object\<close> (\<open>primitive\<close>) the records
  are moved as raw memory; otherwise slot by slot, and \<open>fits i\<close> tells whether the deep copy of record
  \<open>i\<close> finds space. On failure the remaining hashes are marked unused, the destructor of the target is
  disabled and the exception is passed on. \<open>storage\<close> is the uninitialised array of the target.
\<close>

fun copy_loop ::
  "(nat \<Rightarrow> bool) \<Rightarrow> nat \<Rightarrow> nat \<Rightarrow> ('k, 'v) slot list \<Rightarrow> ('k, 'v) slot list \<Rightarrow>
     bool \<times> ('k, 'v) slot list" where
  "copy_loop fits 0 i from to = (True, to)"
| "copy_loop fits (Suc c) i from to =
     (if GET_HASH from i = UNUSED then copy_loop fits c (i + 1) from (to[i := Free])
      else if fits i then copy_loop fits c (i + 1) from (to[i := from ! i])
      else (False, take i to @ replicate (length to - i) Free))"

definition pa_setUpAndCopyFrom ::
  "bool \<Rightarrow> (nat \<Rightarrow> bool) \<Rightarrow> ('k, 'v) slot list \<Rightarrow> ('k, 'v) pair_array \<Rightarrow>
     ('k, 'v) pair_array \<times> unit result" where
  "pa_setUpAndCopyFrom primitive fits storage from =
     (let (ok, to) =
            (if primitive then (True, slots from)
             else copy_loop fits (unat (numSlots from)) 0 (slots from) storage);
          arr = \<lparr>usedSlots = usedSlots from, numSlots = numSlots from, maxSlots = maxSlots from,
                 slots = to, disableDestructor = \<not> ok\<rparr>
      in (arr, if ok then Inr () else Inl (Throw ''NotEnoughSpace'')))"

section \<open>Iteration\<close>

record pa_iterator =
  it_slot :: nat
  it_done :: bool

fun skip_unused :: "('k, 'v) slot list \<Rightarrow> nat \<Rightarrow> nat \<Rightarrow> nat" where
  "skip_unused d 0 i = i"
| "skip_unused d (Suc c) i = (if GET_HASH d i = UNUSED then skip_unused d c (i + 1) else i)"

definition it_settle :: "('k, 'v) pair_array \<Rightarrow> nat \<Rightarrow> pa_iterator" where
  "it_settle a i =
     (let n = unat (numSlots a); j = skip_unused (slots a) (n - i) i
      in \<lparr>it_slot = j, it_done = (j = n)\<rparr>)"

definition it_begin :: "('k, 'v) pair_array \<Rightarrow> pa_iterator" where
  "it_begin a = it_settle a 0"

definition it_end :: pa_iterator where
  "it_end = \<lparr>it_slot = 0, it_done = True\<rparr>"

definition it_next :: "('k, 'v) pair_array \<Rightarrow> pa_iterator \<Rightarrow> pa_iterator" where
  "it_next a it = (let it' = it_settle a (if it_done it then it_slot it else it_slot it + 1)
     in it'\<lparr>it_done := it_done it \<or> it_done it'\<rparr>)"

definition it_differs :: "pa_iterator \<Rightarrow> pa_iterator \<Rightarrow> bool" where
  "it_differs x y \<longleftrightarrow> \<not> it_done x \<or> \<not> it_done y"

definition it_deref :: "('k, 'v) pair_array \<Rightarrow> pa_iterator \<Rightarrow> ('k, 'v) slot" where
  "it_deref a it = slots a ! it_slot it"

text \<open>The loop \<^verbatim>\<open>for (auto it = m.begin(); it != m.end(); ++it)\<close> and what it visits.\<close>

fun it_collect :: "('k, 'v) pair_array \<Rightarrow> nat \<Rightarrow> pa_iterator \<Rightarrow> ('k, 'v) slot list option" where
  "it_collect a 0 it = (if it_differs it it_end then None else Some [])"
| "it_collect a (Suc fuel) it =
     (if it_differs it it_end
      then map_option (\<lambda>xs. it_deref a it # xs) (it_collect a fuel (it_next a it))
      else Some [])"

section \<open>Map\<close>

definition Map_new :: "32 word \<Rightarrow> ('k, 'v) pair_array result" where
  "Map_new initSize = PairArray_new (if initSize < 2 then 2 else initSize)"

definition Map_default :: "('k, 'v) pair_array result" where
  "Map_default = PairArray_new 2"

text \<open>
  What the allocation block has room for during one call: the doubled array, the copy of each record
  and the new record.
\<close>

record pa_space =
  fitsArr :: bool
  fitsRec :: "nat \<Rightarrow> bool"
  fitsNew :: bool

definition roomy :: pa_space where
  "roomy = \<lparr>fitsArr = True, fitsRec = (\<lambda>_. True), fitsNew = True\<rparr>"

text \<open>The state is returned also when an exception leaves the call.\<close>

definition Map_at ::
  "('k \<Rightarrow> 64 word) \<Rightarrow> 'v \<Rightarrow> pa_space \<Rightarrow> ('k, 'v) pair_array \<Rightarrow> 'k \<Rightarrow>
     ('k, 'v) pair_array \<times> nat result" where
  "Map_at hash_impl v0 sp a k =
     (case pa_count hash_impl a k of
        Inl e \<Rightarrow> (a, Inl e)
      | Inr c \<Rightarrow>
          (case (if c = 0 \<and> pa_isOverFull a
                 then pa_doubleArray hash_impl v0 (fitsArr sp) (fitsRec sp) a else (a, Inr a)) of
             (old, Inl e) \<Rightarrow> (old, Inl e)
           | (_, Inr a') \<Rightarrow>
               (case pa_at hash_impl v0 (fitsNew sp) a' k of
                  Inl e \<Rightarrow> (a', Inl e)
                | Inr (s, a'') \<Rightarrow> (a'', Inr s))))"

text \<open>The statement \<^verbatim>\<open>m[k] = v\<close> of a client.\<close>

definition Map_assign ::
  "('k \<Rightarrow> 64 word) \<Rightarrow> 'v \<Rightarrow> pa_space \<Rightarrow> 'k \<Rightarrow> 'v \<Rightarrow> ('k, 'v) pair_array \<Rightarrow>
     ('k, 'v) pair_array \<times> unit result" where
  "Map_assign hash_impl v0 sp k v a =
     (case Map_at hash_impl v0 sp a k of
        (a', Inl e) \<Rightarrow> (a', Inl e)
      | (a', Inr s) \<Rightarrow> (set_value s v a', Inr ()))"

definition Map_count :: "('k \<Rightarrow> 64 word) \<Rightarrow> ('k, 'v) pair_array \<Rightarrow> 'k \<Rightarrow> int result" where
  "Map_count hash_impl a k = pa_count hash_impl a k"

definition Map_setUnused ::
  "('k \<Rightarrow> 64 word) \<Rightarrow> ('k, 'v) pair_array \<Rightarrow> 'k \<Rightarrow> ('k, 'v) pair_array result" where
  "Map_setUnused hash_impl a k = pa_setUnused hash_impl a k"

definition Map_size :: "('k, 'v) pair_array \<Rightarrow> 64 word" where
  "Map_size a = ucast (pa_numUsedSlots a)"


section \<open>Invariant and abstraction\<close>

text \<open>
  \<open>used a i\<close>: slot \<open>i\<close> holds a record. \<open>home\<close> is where probing for a key starts. The invariant: every
  record carries the hash of its key, no key occurs twice, no probe for a stored key meets an unused
  slot before it reaches the record, the counter is exact and some slot is free.
\<close>

definition used :: "('k, 'v) pair_array \<Rightarrow> nat \<Rightarrow> bool" where
  "used a i \<longleftrightarrow> slots a ! i \<noteq> Free"

definition home :: "('k \<Rightarrow> 64 word) \<Rightarrow> nat \<Rightarrow> 'k \<Rightarrow> nat" where
  "home hash_impl n k = unat (Hasher_hash hash_impl k) mod (n - 1)"

definition reach :: "('k \<Rightarrow> 64 word) \<Rightarrow> ('k, 'v) slot list \<Rightarrow> 'k \<Rightarrow> nat \<Rightarrow> bool" where
  "reach hash_impl d k i \<longleftrightarrow>
     (\<exists>j < length d. (home hash_impl (length d) k + j) mod length d = i \<and>
        (\<forall>j' < j. d ! ((home hash_impl (length d) k + j') mod length d) \<noteq> Free))"

definition chain_ok :: "('k \<Rightarrow> 64 word) \<Rightarrow> ('k, 'v) slot list \<Rightarrow> bool" where
  "chain_ok hash_impl d \<longleftrightarrow>
     (\<forall>i < length d. \<forall>h k v. d ! i = Rec h k v \<longrightarrow>
        h = Hasher_hash hash_impl k \<and> reach hash_impl d k i \<and>
        (\<forall>i' < length d. \<forall>h' v'. d ! i' = Rec h' k v' \<longrightarrow> i' = i))"

definition n_used :: "('k, 'v) slot list \<Rightarrow> nat" where
  "n_used d = length (filter (\<lambda>s. s \<noteq> Free) d)"

definition pa_ok :: "('k \<Rightarrow> 64 word) \<Rightarrow> ('k, 'v) pair_array \<Rightarrow> bool" where
  "pa_ok hash_impl a \<longleftrightarrow>
     2 \<le> length (slots a) \<and> unat (numSlots a) = length (slots a) \<and>
     unat (usedSlots a) = n_used (slots a) \<and>
     unat (maxSlots a) = fill_limit (length (slots a)) \<and>
     n_used (slots a) < length (slots a) \<and>
     chain_ok hash_impl (slots a)"

definition pa_map :: "('k, 'v) pair_array \<Rightarrow> 'k \<Rightarrow> 'v option" where
  "pa_map a k =
     map_of (List.map_filter (\<lambda>s. case s of Free \<Rightarrow> None | Rec h k v \<Rightarrow> Some (k, v)) (slots a)) k"

section \<open>Probing is correct\<close>

lemma Hasher_hash_not_UNUSED: "Hasher_hash hash_impl k \<noteq> UNUSED"
  by (simp add: Hasher_hash_def UNUSED_def Let_def)

lemma next_slot_mod: "s < n \<Longrightarrow> next_slot n s = Suc s mod n"
  by (cases "Suc s = n") (auto simp: next_slot_def)

definition pass :: "('k, 'v) slot list \<Rightarrow> 64 word \<Rightarrow> 'k \<Rightarrow> nat \<Rightarrow> bool" where
  "pass d h k i \<longleftrightarrow> GET_HASH d i \<noteq> UNUSED \<and> \<not> (GET_HASH d i = h \<and> s_key (d ! i) = k)"

fun probe_spec ::
  "('k, 'v) slot list \<Rightarrow> nat \<Rightarrow> 64 word \<Rightarrow> 'k \<Rightarrow> nat \<Rightarrow> nat \<Rightarrow> probe \<Rightarrow> bool" where
  "probe_spec d n h k c s RanOff = (\<forall>j < c. pass d h k ((s + j) mod n))"
| "probe_spec d n h k c s (Empty i) =
     (\<exists>j < c. i = (s + j) mod n \<and> GET_HASH d i = UNUSED \<and> (\<forall>j' < j. pass d h k ((s + j') mod n)))"
| "probe_spec d n h k c s (Hit i) =
     (\<exists>j < c. i = (s + j) mod n \<and> GET_HASH d i \<noteq> UNUSED \<and> GET_HASH d i = h \<and>
        s_key (d ! i) = k \<and> (\<forall>j' < j. pass d h k ((s + j') mod n)))"

lemma probe_spec_step:
  assumes "s < n" and "pass d h k s" and "probe_spec d n h k c (Suc s mod n) p"
  shows "probe_spec d n h k (Suc c) s p"
proof -
  have shift: "(Suc s mod n + j) mod n = (s + Suc j) mod n" for j
    by (simp add: mod_add_left_eq)
  have all: "\<forall>j' < Suc m. pass d h k ((s + j') mod n)"
    if "\<forall>j' < m. pass d h k ((s + Suc j') mod n)" for m
    using that assms(1,2) by (auto simp: less_Suc_eq_0_disj)
  show ?thesis
  proof (cases p)
    case RanOff
    then show ?thesis using assms(3) all [of c] by (simp add: shift)
  next
    case (Empty i)
    then obtain j where "j < c" "i = (s + Suc j) mod n" "GET_HASH d i = UNUSED"
        "\<forall>j' < j. pass d h k ((s + Suc j') mod n)"
      using assms(3) by (auto simp only: probe_spec.simps shift)
    then show ?thesis unfolding Empty probe_spec.simps using all [of j] by blast
  next
    case (Hit i)
    then obtain j where "j < c" "i = (s + Suc j) mod n" "GET_HASH d i \<noteq> UNUSED"
        "GET_HASH d i = h" "s_key (d ! i) = k" "\<forall>j' < j. pass d h k ((s + Suc j') mod n)"
      using assms(3) by (auto simp only: probe_spec.simps shift)
    then show ?thesis unfolding Hit probe_spec.simps using all [of j] by blast
  qed
qed

lemma probe_loop_spec: "s < n \<Longrightarrow> probe_spec d n h k c s (probe_loop d n h k c s)"
proof (induction d n h k c s rule: probe_loop.induct)
  case (2 d n h k c s)
  show ?case
  proof (cases "pass d h k s")
    case True
    then have "probe_loop d n h k (Suc c) s = probe_loop d n h k c (Suc s mod n)"
      using "2.prems" by (auto simp: pass_def next_slot_mod simp del: GET_HASH.simps)
    moreover have "probe_spec d n h k c (Suc s mod n) (probe_loop d n h k c (Suc s mod n))"
      using "2.IH" "2.prems" True by (auto simp: pass_def next_slot_mod simp del: GET_HASH.simps)
    ultimately show ?thesis using "2.prems" True probe_spec_step by fastforce
  next
    case False
    then show ?thesis
      using "2.prems" by (auto simp: pass_def simp del: GET_HASH.simps)
  qed
qed simp

lemma chain_ok_rec:
  assumes "chain_ok hash_impl d" and "i < length d" and "d ! i = Rec h k v"
  shows "h = Hasher_hash hash_impl k" and "h \<noteq> UNUSED" and "reach hash_impl d k i"
  using assms Hasher_hash_not_UNUSED [of hash_impl k] by (auto simp: chain_ok_def)

lemma chain_ok_hash:
  "chain_ok hash_impl d \<Longrightarrow> i < length d \<Longrightarrow> GET_HASH d i = UNUSED \<longleftrightarrow> d ! i = Free"
  by (cases "d ! i") (auto dest: chain_ok_rec(2))

definition stored :: "('k, 'v) slot list \<Rightarrow> 'k \<Rightarrow> nat \<Rightarrow> bool" where
  "stored d k i \<longleftrightarrow> i < length d \<and> (\<exists>h v. d ! i = Rec h k v)"

lemma chain_ok_stored_unique:
  "chain_ok hash_impl d \<Longrightarrow> stored d k i \<Longrightarrow> stored d k i' \<Longrightarrow> i = i'"
  unfolding chain_ok_def stored_def by metis

lemma not_pass_stored:
  assumes "chain_ok hash_impl d" and "i < length d"
  shows "pass d (Hasher_hash hash_impl k) k i \<longleftrightarrow> d ! i \<noteq> Free \<and> \<not> stored d k i"
  using assms
  by (cases "d ! i") (auto simp: pass_def stored_def dest: chain_ok_rec(1,2))

lemma probe_spec_Hit_stored:
  assumes "chain_ok hash_impl d" and "s < length d" and "probe_spec d (length d) h k c s (Hit i)"
  shows "stored d k i"
proof -
  have "i < length d" and "GET_HASH d i \<noteq> UNUSED" and key: "s_key (d ! i) = k"
    using assms(2,3) by (auto simp del: GET_HASH.simps intro!: mod_less_divisor)
  then have "d ! i \<noteq> Free" using assms(1) by (simp add: chain_ok_hash del: GET_HASH.simps)
  with key \<open>i < length d\<close> show ?thesis by (cases "d ! i") (auto simp: stored_def)
qed

lemma probe_present:
  assumes ok: "chain_ok hash_impl d" and st: "stored d k i" and s: "s = home hash_impl (length d) k"
    and s': "s < length d"
  shows "probe_loop d (length d) (Hasher_hash hash_impl k) k (length d) s = Hit i"
proof -
  let ?n = "length d" and ?h = "Hasher_hash hash_impl k"
  have lt: "(s + j) mod ?n < ?n" for j using s' by (intro mod_less_divisor) linarith
  obtain j0 where j0: "j0 < ?n" "(s + j0) mod ?n = i" "\<forall>j' < j0. d ! ((s + j') mod ?n) \<noteq> Free"
    using ok st unfolding chain_ok_def stored_def reach_def s by blast
  have np: "\<not> pass d ?h k i" and ne: "d ! i \<noteq> Free" and ib: "i < ?n"
    using ok st by (auto simp: not_pass_stored stored_def)
  have spec: "probe_spec d ?n ?h k ?n s (probe_loop d ?n ?h k ?n s)"
    using s' by (rule probe_loop_spec)
  show ?thesis
  proof (cases "probe_loop d ?n ?h k ?n s")
    case (Hit i')
    then have "stored d k i'" using probe_spec_Hit_stored [OF ok s'] spec by simp
    with Hit show ?thesis using chain_ok_stored_unique [OF ok st] by simp
  next
    case (Empty i')
    with spec obtain j where j: "j < ?n" "i' = (s + j) mod ?n" "d ! i' = Free"
        "\<forall>j' < j. pass d ?h k ((s + j') mod ?n)"
      using ok lt by (auto simp: chain_ok_hash simp del: GET_HASH.simps)
    have "j \<noteq> j0" using j ne j0 by auto
    moreover have "\<not> j < j0" using j j0 by auto
    moreover have "\<not> j0 < j" using j j0 np by auto
    ultimately show ?thesis by linarith
  next
    case RanOff
    with spec j0 np show ?thesis by auto
  qed
qed

lemma n_used_less_free: "n_used d < length d \<Longrightarrow> \<exists>i < length d. d ! i = Free"
proof (rule ccontr)
  assume "n_used d < length d" and "\<not> (\<exists>i < length d. d ! i = Free)"
  then have "\<forall>x \<in> set d. x \<noteq> Free" by (metis in_set_conv_nth)
  then have "n_used d = length d" by (simp add: n_used_def)
  with \<open>n_used d < length d\<close> show False by simp
qed

lemma mod_cover: "0 < n \<Longrightarrow> i < n \<Longrightarrow> \<exists>j < n. (s + j) mod n = (i :: nat)"
proof -
  assume n: "0 < n" "i < n"
  have "(s + (i + n - s mod n) mod n) mod n = (s mod n + (i + n - s mod n)) mod n"
    by (simp add: mod_simps)
  also have "\<dots> = i"
  proof -
    have "s mod n < n" using n by simp
    then have "s mod n + (i + n - s mod n) = i + n" by simp
    then show ?thesis using n by simp
  qed
  finally show ?thesis using n by (meson mod_less_divisor)
qed

lemma probe_absent:
  assumes ok: "chain_ok hash_impl d" and ns: "\<forall>i. \<not> stored d k i"
    and s: "s = home hash_impl (length d) k" and s': "s < length d" and free: "n_used d < length d"
  obtains i where "probe_loop d (length d) (Hasher_hash hash_impl k) k (length d) s = Empty i"
    and "i < length d" and "d ! i = Free" and "reach hash_impl d k i"
proof -
  let ?n = "length d" and ?h = "Hasher_hash hash_impl k"
  have lt: "(s + j) mod ?n < ?n" for j using s' by (intro mod_less_divisor) linarith
  have spec: "probe_spec d ?n ?h k ?n s (probe_loop d ?n ?h k ?n s)"
    using s' by (rule probe_loop_spec)
  show thesis
  proof (cases "probe_loop d ?n ?h k ?n s")
    case (Hit i')
    then show ?thesis using probe_spec_Hit_stored [OF ok s'] spec ns by metis
  next
    case (Empty i')
    with spec obtain j where j: "j < ?n" "i' = (s + j) mod ?n" "d ! i' = Free"
        "\<forall>j' < j. pass d ?h k ((s + j') mod ?n)"
      using ok lt by (auto simp: chain_ok_hash simp del: GET_HASH.simps)
    then have "\<forall>j' < j. d ! ((s + j') mod ?n) \<noteq> Free"
      using ok lt by (auto simp: not_pass_stored)
    with j have "reach hash_impl d k i'" unfolding reach_def s by auto
    with Empty j lt show ?thesis using that by auto
  next
    case RanOff
    obtain i where "i < ?n" "d ! i = Free" using n_used_less_free [OF free] by auto
    moreover obtain j where "j < ?n" "(s + j) mod ?n = i"
      using mod_cover [of ?n i s] \<open>i < ?n\<close> by (metis gr_zeroI not_less_zero)
    ultimately show ?thesis using RanOff spec ok by (auto simp: not_pass_stored)
  qed
qed

declare GET_HASH.simps [simp del]

section \<open>The table as a finite map\<close>

lemma set_entries:
  "(k, v) \<in> set (List.map_filter (\<lambda>s. case s of Free \<Rightarrow> None | Rec h k v \<Rightarrow> Some (k, v)) d)
     \<longleftrightarrow> (\<exists>i < length d. \<exists>h. d ! i = Rec h k v)"
proof -
  have "(k, v) \<in> set (List.map_filter (\<lambda>s. case s of Free \<Rightarrow> None | Rec h k v \<Rightarrow> Some (k, v)) d)
     \<longleftrightarrow> (\<exists>h. Rec h k v \<in> set d)"
    by (induction d) (auto simp: map_filter_simps split: slot.splits option.splits)
  then show ?thesis by (metis in_set_conv_nth)
qed

lemma pa_map_Some_iff:
  assumes "chain_ok hash_impl (slots a)"
  shows "pa_map a k = Some v \<longleftrightarrow> (\<exists>i < length (slots a). \<exists>h. slots a ! i = Rec h k v)"
proof
  assume "pa_map a k = Some v"
  then show "\<exists>i < length (slots a). \<exists>h. slots a ! i = Rec h k v"
    unfolding pa_map_def by (auto dest!: map_of_SomeD simp: set_entries)
next
  assume "\<exists>i < length (slots a). \<exists>h. slots a ! i = Rec h k v"
  then obtain i h where i: "i < length (slots a)" "slots a ! i = Rec h k v" by auto
  then obtain v' where v': "pa_map a k = Some v'"
    unfolding pa_map_def using set_entries [of k v "slots a"] by (meson weak_map_of_SomeI)
  then obtain i' h' where i': "i' < length (slots a)" "slots a ! i' = Rec h' k v'"
    unfolding pa_map_def by (auto dest!: map_of_SomeD simp: set_entries)
  have "i' = i" using chain_ok_stored_unique [OF assms] i i' unfolding stored_def by blast
  with i i' v' show "pa_map a k = Some v" by simp
qed

lemma pa_map_None_iff:
  assumes "chain_ok hash_impl (slots a)"
  shows "pa_map a k = None \<longleftrightarrow> (\<forall>i. \<not> stored (slots a) k i)"
  using pa_map_Some_iff [OF assms, of k] unfolding stored_def by (metis not_None_eq)

lemma pa_map_eqI:
  assumes "\<And>k v. m k = Some v \<longleftrightarrow> m' k = Some v"
  shows "m = m'"
  using assms by (metis ext not_Some_eq)

lemma reach_mono:
  assumes "reach hash_impl d k i" and "length d' = length d"
    and "\<And>j. j < length d \<Longrightarrow> d ! j \<noteq> Free \<Longrightarrow> d' ! j \<noteq> Free" and "d \<noteq> []"
  shows "reach hash_impl d' k i"
  using assms unfolding reach_def by (metis length_greater_0_conv mod_less_divisor)

lemma chain_ok_insert:
  assumes ok: "chain_ok hash_impl d" and i: "i < length d" "d ! i = Free"
    and r: "reach hash_impl d k i" and ns: "\<forall>i. \<not> stored d k i"
  shows "chain_ok hash_impl (d[i := Rec (Hasher_hash hash_impl k) k v])" (is "chain_ok _ ?d")
proof -
  have mono: "reach hash_impl ?d k' j" if "reach hash_impl d k' j" for k' j
    using that i by (intro reach_mono [OF that]) (auto simp: nth_list_update)
  show ?thesis
    unfolding chain_ok_def
  proof (intro allI impI)
    fix j h k' v' assume j: "j < length ?d" "?d ! j = Rec h k' v'"
    show "h = Hasher_hash hash_impl k' \<and> reach hash_impl ?d k' j \<and>
        (\<forall>i' < length ?d. \<forall>h' v'. ?d ! i' = Rec h' k' v' \<longrightarrow> i' = j)"
    proof (cases "j = i")
      case True
      then have "h = Hasher_hash hash_impl k'" "k' = k" using j i by auto
      moreover have "reach hash_impl ?d k i" using r by (rule mono)
      ultimately show ?thesis
        using True ns i unfolding stored_def by (auto simp: nth_list_update split: if_splits)
    next
      case False
      then have dj: "j < length d" "d ! j = Rec h k' v'" using j by auto
      then have "k' \<noteq> k" using ns by (auto simp: stored_def)
      then show ?thesis
        using dj i mono chain_ok_rec [OF ok dj] chain_ok_stored_unique [OF ok, of k' j]
        by (auto simp: nth_list_update stored_def split: if_splits)
    qed
  qed
qed

lemma chain_ok_update_value:
  assumes ok: "chain_ok hash_impl d" and i: "i < length d" "d ! i = Rec h k w"
  shows "chain_ok hash_impl (d[i := Rec h k v])" (is "chain_ok _ ?d")
proof -
  have mono: "reach hash_impl ?d k' j" if "reach hash_impl d k' j" for k' j
    using that i by (intro reach_mono [OF that]) (auto simp: nth_list_update)
  have same: "\<exists>w. d ! j = Rec h' k' w" if "j < length d" "?d ! j = Rec h' k' v'" for j h' k' v'
    using that i by (auto simp: nth_list_update split: if_splits)
  show ?thesis
    unfolding chain_ok_def
    using same mono chain_ok_rec [OF ok] chain_ok_stored_unique [OF ok]
    by (simp add: stored_def) (meson)
qed

lemma n_used_card: "n_used d = card {i. i < length d \<and> d ! i \<noteq> Free}"
  by (simp add: n_used_def length_filter_conv_card)

lemma n_used_insert:
  assumes "i < length d" and "d ! i = Free"
  shows "n_used (d[i := Rec h k v]) = Suc (n_used d)"
proof -
  have "{j. j < length d \<and> d[i := Rec h k v] ! j \<noteq> Free} = insert i {j. j < length d \<and> d ! j \<noteq> Free}"
    using assms by (auto simp: nth_list_update)
  then show ?thesis using assms by (simp add: n_used_card)
qed

lemma n_used_update:
  assumes "i < length d" and "d ! i \<noteq> Free"
  shows "n_used (d[i := Rec h k v]) = n_used d"
proof -
  have "{j. j < length d \<and> d[i := Rec h k v] ! j \<noteq> Free} = {j. j < length d \<and> d ! j \<noteq> Free}"
    using assms by (auto simp: nth_list_update)
  then show ?thesis by (simp add: n_used_card)
qed

section \<open>Every operation on a table in order\<close>

lemma home_less: "2 \<le> n \<Longrightarrow> home hash_impl n k < n"
  unfolding home_def using mod_less_divisor [of "n - 1"] by (meson diff_le_self less_le_trans
      one_le_numeral order_trans zero_less_diff less_le_trans not_le one_less_numeral_iff semiring_norm(76))

lemma probe_from_home_ok:
  assumes "pa_ok hash_impl a"
  shows "probe_from_home hash_impl a k =
    Inr (probe_loop (slots a) (length (slots a)) (Hasher_hash hash_impl k) k (length (slots a))
           (home hash_impl (length (slots a)) k))"
proof -
  have n: "2 \<le> length (slots a)" "unat (numSlots a) = length (slots a)"
    using assms by (auto simp: pa_ok_def)
  then have "numSlots a \<noteq> 0" by (metis not_numeral_le_zero unat_0)
  then have "unat (numSlots a - 1) = length (slots a) - 1" using n by (simp add: unat_minus_one)
  then show ?thesis using n by (simp add: probe_from_home_def home_def Let_def)
qed

lemma probe_stored:
  assumes "pa_ok hash_impl a" and "stored (slots a) k i"
  shows "probe_from_home hash_impl a k = Inr (Hit i)"
proof -
  have "chain_ok hash_impl (slots a)" "2 \<le> length (slots a)" using assms(1) by (auto simp: pa_ok_def)
  then show ?thesis
    using probe_from_home_ok [OF assms(1)] probe_present [OF _ assms(2) refl] home_less by metis
qed

lemma probe_not_stored:
  assumes "pa_ok hash_impl a" and "\<forall>i. \<not> stored (slots a) k i"
  obtains i where "probe_from_home hash_impl a k = Inr (Empty i)" and "i < length (slots a)"
    and "slots a ! i = Free" and "reach hash_impl (slots a) k i"
proof -
  have "chain_ok hash_impl (slots a)" "2 \<le> length (slots a)" "n_used (slots a) < length (slots a)"
    using assms(1) by (auto simp: pa_ok_def)
  then show thesis
    using probe_from_home_ok [OF assms(1)] probe_absent [OF _ assms(2) refl] home_less that by metis
qed

lemma pa_ok_chain: "pa_ok hash_impl a \<Longrightarrow> chain_ok hash_impl (slots a)"
  by (simp add: pa_ok_def)

lemma pa_count_ok:
  assumes ok: "pa_ok hash_impl a"
  shows "pa_count hash_impl a k = Inr (if pa_map a k = None then 0 else 1)"
proof (cases "\<exists>i. stored (slots a) k i")
  case True
  then show ?thesis
    using probe_stored [OF ok] pa_map_None_iff [OF pa_ok_chain [OF ok], of k]
    by (auto simp: pa_count_def)
next
  case False
  then obtain i where "probe_from_home hash_impl a k = Inr (Empty i)"
    using probe_not_stored [OF ok] by metis
  with False show ?thesis
    using pa_map_None_iff [OF pa_ok_chain [OF ok], of k] by (simp add: pa_count_def)
qed

lemma unat_Suc: "unat (w :: 32 word) + 1 < 2 ^ 32 \<Longrightarrow> unat (w + 1) = unat w + 1"
  by (simp add: unat_word_ariths)

text \<open>What \<open>operator[]\<close> gives on a table in order: the slot of the key, new or old.\<close>

lemma pa_at_present:
  assumes ok: "pa_ok hash_impl a" and k: "pa_map a k = Some v"
  shows "\<exists>s h. pa_at hash_impl v0 fits a k = Inr (s, a) \<and> s < length (slots a) \<and>
           slots a ! s = Rec h k v"
proof -
  obtain i h where "i < length (slots a)" "slots a ! i = Rec h k v"
    using k pa_map_Some_iff [OF pa_ok_chain [OF ok]] by metis
  moreover from this have "probe_from_home hash_impl a k = Inr (Hit i)"
    by (intro probe_stored [OF ok]) (auto simp: stored_def)
  ultimately show ?thesis by (auto simp: pa_at_def)
qed

lemma pa_at_absent:
  assumes ok: "pa_ok hash_impl a" and k: "pa_map a k = None" and room: "n_used (slots a) + 1 < length (slots a)"
  shows "\<exists>s a' h. pa_at hash_impl v0 True a k = Inr (s, a') \<and> pa_ok hash_impl a' \<and>
           s < length (slots a') \<and> slots a' ! s = Rec h k v0 \<and>
           length (slots a') = length (slots a) \<and> n_used (slots a') = n_used (slots a) + 1 \<and>
           pa_map a' = (pa_map a)(k \<mapsto> v0)"
proof -
  have ch: "chain_ok hash_impl (slots a)" and ns: "\<forall>i. \<not> stored (slots a) k i"
    using ok k pa_map_None_iff [OF pa_ok_chain [OF ok]] by (auto simp: pa_ok_def)
  obtain i where i: "probe_from_home hash_impl a k = Inr (Empty i)" "i < length (slots a)"
      "slots a ! i = Free" "reach hash_impl (slots a) k i"
    using probe_not_stored [OF ok ns] .
  let ?h = "Hasher_hash hash_impl k"
  define a' where "a' = a\<lparr>slots := (slots a)[i := Rec ?h k v0], usedSlots := usedSlots a + 1\<rparr>"
  have at: "pa_at hash_impl v0 True a k = Inr (i, a')"
    using i by (simp add: pa_at_def a'_def)
  have ch': "chain_ok hash_impl (slots a')"
    unfolding a'_def using chain_ok_insert [OF ch i(2,3,4) ns] by simp
  have nu: "n_used (slots a') = n_used (slots a) + 1"
    unfolding a'_def using i by (simp add: n_used_insert)
  have "unat (usedSlots a) + 1 < 2 ^ 32"
    using ok room unat_less_2_32 [of "numSlots a"] by (simp add: pa_ok_def)
  then have "unat (usedSlots a') = n_used (slots a')"
    using ok nu unat_Suc [of "usedSlots a"] by (simp add: a'_def pa_ok_def)
  then have ok': "pa_ok hash_impl a'"
    using ok room ch' nu unfolding pa_ok_def by (simp add: a'_def)
  have "pa_map a' = (pa_map a)(k \<mapsto> v0)"
  proof (rule pa_map_eqI)
    fix k' v
    show "pa_map a' k' = Some v \<longleftrightarrow> ((pa_map a)(k \<mapsto> v0)) k' = Some v"
    proof (cases "k' = k")
      case True
      then show ?thesis
        using i ns unfolding pa_map_Some_iff [OF ch'] stored_def
        by (auto simp: a'_def nth_list_update split: if_splits)
    next
      case False
      then have "slots a' ! j = Rec h' k' v \<longleftrightarrow> slots a ! j = Rec h' k' v" for j h'
        using i by (cases "j = i") (auto simp: a'_def)
      moreover have "length (slots a') = length (slots a)" by (simp add: a'_def)
      ultimately show ?thesis
        using False by (simp add: pa_map_Some_iff [OF ch'] pa_map_Some_iff [OF ch])
    qed
  qed
  with at ok' nu i show ?thesis
    by (intro exI [of _ i] exI [of _ a'] exI [of _ ?h]) (simp add: a'_def)
qed

lemma set_value_ok:
  assumes ok: "pa_ok hash_impl a" and s: "s < length (slots a)" "slots a ! s = Rec h k w"
  shows "pa_ok hash_impl (set_value s v a)" and "pa_map (set_value s v a) = (pa_map a)(k \<mapsto> v)"
    and "length (slots (set_value s v a)) = length (slots a)"
    and "n_used (slots (set_value s v a)) = n_used (slots a)"
proof -
  have eq: "slots (set_value s v a) = (slots a)[s := Rec h k v]" using s by (simp add: set_value_def)
  have ch: "chain_ok hash_impl (slots a)" using ok by (rule pa_ok_chain)
  have ch': "chain_ok hash_impl (slots (set_value s v a))"
    unfolding eq using ch s by (rule chain_ok_update_value)
  show len: "length (slots (set_value s v a)) = length (slots a)" by (simp add: eq)
  show nu: "n_used (slots (set_value s v a)) = n_used (slots a)" unfolding eq using s by (simp add: n_used_update)
  show "pa_ok hash_impl (set_value s v a)"
    using ok ch' len nu unfolding pa_ok_def by (simp add: set_value_def)
  show "pa_map (set_value s v a) = (pa_map a)(k \<mapsto> v)"
  proof (rule pa_map_eqI)
    fix k' v'
    have uniq: "j = s" if "j < length (slots a)" "slots a ! j = Rec h' k w'" for j h' w'
      using chain_ok_stored_unique [OF ch, of k j s] s that unfolding stored_def by blast
    show "pa_map (set_value s v a) k' = Some v' \<longleftrightarrow> ((pa_map a)(k \<mapsto> v)) k' = Some v'"
    proof (cases "k' = k")
      case True
      then show ?thesis
        using s uniq unfolding pa_map_Some_iff [OF ch'] eq
        by (metis fun_upd_same length_list_update nth_list_update_eq nth_list_update_neq option.inject
            slot.inject)
    next
      case False
      then have "slots (set_value s v a) ! j = Rec h' k' v' \<longleftrightarrow> slots a ! j = Rec h' k' v'" for j h'
        using s by (cases "j = s") (auto simp: eq)
      then show ?thesis
        using False by (simp add: pa_map_Some_iff [OF ch'] pa_map_Some_iff [OF ch] len)
    qed
  qed
qed

section \<open>Doubling\<close>

lemma size_loop_ok: "unat (numSlotsIn :: 32 word) \<le> 2 ^ 31 \<Longrightarrow> size_loop numSlotsIn 32 1"
proof -
  assume le: "unat numSlotsIn \<le> 2 ^ 31"
  have gen: "size_loop numSlotsIn (Suc c) (2 ^ (31 - c))" if "c \<le> 31" for c
    using that
  proof (induction c)
    case 0
    have "numSlotsIn \<le> 2 ^ 31" using le by (simp add: word_le_nat_alt)
    then show ?case by simp
  next
    case (Suc c)
    then have "(2 :: 32 word) ^ (31 - Suc c) * 2 = 2 ^ (31 - c)"
      by (metis Suc_diff_le diff_Suc_Suc power_Suc2)
    then show ?case using Suc by simp
  qed
  show ?thesis using gen [of 31] by (simp add: eval_nat_numeral)
qed

lemma chain_ok_replicate_Free: "chain_ok hash_impl (replicate n Free)"
  by (simp add: chain_ok_def)

lemma n_used_replicate_Free: "n_used (replicate n Free) = 0"
  by (simp add: n_used_def)

lemma fill_limit_less: "0 < n \<Longrightarrow> fill_limit n < n"
  by (simp add: fill_limit_def div_less_iff_less_mult)

lemma fill_limit_double: "fill_limit n + fill_limit n \<le> fill_limit (2 * n)"
  unfolding fill_limit_def by linarith

lemma fill_limit_pos: "2 \<le> n \<Longrightarrow> 1 \<le> fill_limit n"
  unfolding fill_limit_def by (simp add: less_eq_div_iff_mult_less_eq)

lemma PairArray_new_ok:
  assumes "2 \<le> unat n" and "unat n \<le> 2 ^ 31"
  obtains a :: "('k, 'v) pair_array" where "PairArray_new n = Inr a" and "pa_ok hash_impl a"
    and "pa_map a = Map.empty" and "length (slots a) = unat n" and "n_used (slots a) = 0"
proof -
  have sz: "size_loop n 32 1" using assms(2) by (rule size_loop_ok)
  have "fill_limit (unat n) < 2 ^ 32" using fill_limit_less [of "unat n"] assms by simp
  then have lim: "unat (of_nat (fill_limit (unat n)) :: 32 word) = fill_limit (unat n)"
    by (simp add: unat_of_nat)
  define a :: "('k, 'v) pair_array" where
    "a = \<lparr>usedSlots = 0, numSlots = n, maxSlots = of_nat (fill_limit (unat n)),
          slots = replicate (unat n) Free, disableDestructor = False\<rparr>"
  have "PairArray_new n = Inr a" using sz by (simp add: PairArray_new_def a_def)
  moreover have "pa_ok hash_impl a"
    using assms lim by (simp add: pa_ok_def a_def n_used_replicate_Free chain_ok_replicate_Free)
  moreover have "List.map_filter f (replicate m Free) = []" if "f Free = None" for m and
      f :: "('k, 'v) slot \<Rightarrow> ('k \<times> 'v) option"
    using that by (induction m) (simp_all add: map_filter_simps)
  then have "pa_map a = Map.empty" by (simp add: pa_map_def a_def fun_eq_iff)
  ultimately show thesis using that by (simp add: a_def n_used_replicate_Free)
qed

text \<open>The first \<open>i\<close> slots of the old array, as a map: what the rehashing loop has moved.\<close>

definition part_map :: "('k, 'v) slot list \<Rightarrow> nat \<Rightarrow> 'k \<Rightarrow> 'v option" where
  "part_map d i =
     map_of (List.map_filter (\<lambda>s. case s of Free \<Rightarrow> None | Rec h k v \<Rightarrow> Some (k, v)) (take i d))"

lemma part_map_all: "part_map (slots a) (length (slots a)) = pa_map a"
  by (simp add: part_map_def pa_map_def fun_eq_iff)

lemma part_map_0: "part_map d 0 = Map.empty"
  by (simp add: part_map_def map_filter_simps)

lemma part_map_Free: "i < length d \<Longrightarrow> d ! i = Free \<Longrightarrow> part_map d (Suc i) = part_map d i"
  by (simp add: part_map_def take_Suc_conv_app_nth map_filter_def)

lemma part_map_Some: "part_map d i k = Some v \<Longrightarrow> \<exists>j < i. j < length d \<and> (\<exists>h. d ! j = Rec h k v)"
  unfolding part_map_def by (auto dest!: map_of_SomeD simp: set_entries) blast

lemma part_map_Rec:
  assumes "chain_ok hash_impl d" and "i < length d" and "d ! i = Rec h k v"
  shows "part_map d i k = None" and "part_map d (Suc i) = (part_map d i)(k \<mapsto> v)"
proof -
  show none: "part_map d i k = None"
  proof (rule ccontr)
    assume "part_map d i k \<noteq> None"
    then obtain v' j h' where "j < i" "j < length d" "d ! j = Rec h' k v'"
      using part_map_Some by (metis not_Some_eq)
    then show False
      using chain_ok_stored_unique [OF assms(1), of k i j] assms unfolding stored_def by auto
  qed
  have "part_map d (Suc i) = [k \<mapsto> v] ++ part_map d i"
    using assms(2,3) by (simp add: part_map_def take_Suc_conv_app_nth map_filter_def)
  also have "\<dots> = (part_map d i)(k \<mapsto> v)"
    using none by (auto simp: map_add_def fun_eq_iff split: option.splits)
  finally show "part_map d (Suc i) = (part_map d i)(k \<mapsto> v)" .
qed

lemma n_used_take_Suc:
  "i < length d \<Longrightarrow> n_used (take (Suc i) d) = n_used (take i d) + (if d ! i = Free then 0 else 1)"
  by (simp add: n_used_def take_Suc_conv_app_nth)

lemma n_used_take_le: "n_used (take i d) \<le> i"
proof -
  have "n_used (take i d) \<le> length (take i d)" unfolding n_used_def by (rule length_filter_le)
  then show ?thesis by simp
qed

lemma rehash_ok:
  assumes d: "chain_ok hash_impl d" and c: "i + c = length d"
    and old: "length (slots old) = length d" "\<forall>j. i \<le> j \<and> j < length d \<longrightarrow> slots old ! j = d ! j"
    and new: "pa_ok hash_impl new" "pa_map new = part_map d i"
      "length (slots new) = 2 * length d" "n_used (slots new) = n_used (take i d)"
  shows "\<exists>new'. snd (rehash hash_impl v0 (\<lambda>_. True) c i old new) = Inr new' \<and>
           pa_ok hash_impl new' \<and> pa_map new' = part_map d (length d) \<and>
           length (slots new') = 2 * length d \<and> n_used (slots new') = n_used d"
  using c old new
proof (induction c arbitrary: i old new)
  case 0
  then show ?case by simp
next
  case (Suc c)
  then have i: "i < length d" and di: "slots old ! i = d ! i" by auto
  show ?case
  proof (cases "d ! i")
    case Free
    then have "\<exists>new'. snd (rehash hash_impl v0 (\<lambda>_. True) c (i + 1) old new) = Inr new' \<and>
           pa_ok hash_impl new' \<and> pa_map new' = part_map d (length d) \<and>
           length (slots new') = 2 * length d \<and> n_used (slots new') = n_used d"
      using Suc.prems i by (intro Suc.IH) (auto simp: part_map_Free n_used_take_Suc)
    then show ?thesis using Free di by simp
  next
    case (Rec h k v)
    note pm = part_map_Rec [OF d i Rec]
    have "n_used (slots new) + 1 < length (slots new)"
      using Suc.prems n_used_take_le [of i d] i by simp
    then obtain s new1 h1 where at: "pa_at hash_impl v0 True new k = Inr (s, new1)"
        "pa_ok hash_impl new1" "s < length (slots new1)" "slots new1 ! s = Rec h1 k v0"
        "length (slots new1) = length (slots new)" "n_used (slots new1) = n_used (slots new) + 1"
        "pa_map new1 = (pa_map new)(k \<mapsto> v0)"
      using pa_at_absent [OF Suc.prems(4), of k v0] Suc.prems(5) pm by auto
    note sv = set_value_ok [OF at(2,3,4), of v]
    have "\<exists>new'. snd (rehash hash_impl v0 (\<lambda>_. True) c (i + 1)
             (old\<lparr>slots := (slots old)[i := Free]\<rparr>) (set_value s v new1)) = Inr new' \<and>
           pa_ok hash_impl new' \<and> pa_map new' = part_map d (length d) \<and>
           length (slots new') = 2 * length d \<and> n_used (slots new') = n_used d"
      using Suc.prems i Rec at sv pm
      by (intro Suc.IH) (auto simp: n_used_take_Suc)
    moreover have "h \<noteq> UNUSED" using chain_ok_rec(2) [OF d i Rec] .
    ultimately show ?thesis using Rec di at(1) by simp
  qed
qed

lemma doubleArray_ok:
  assumes ok: "pa_ok hash_impl a" and small: "2 * length (slots a) \<le> 2 ^ 31"
  shows "\<exists>new. snd (pa_doubleArray hash_impl v0 True (\<lambda>_. True) a) = Inr new \<and>
           pa_ok hash_impl new \<and> pa_map new = pa_map a \<and>
           length (slots new) = 2 * length (slots a) \<and> n_used (slots new) = n_used (slots a)"
proof -
  have n: "unat (numSlots a) = length (slots a)" "2 \<le> length (slots a)"
    using ok by (auto simp: pa_ok_def)
  have n2: "unat (numSlots a * 2) = 2 * length (slots a)"
    using n small by (simp add: unat_word_ariths)
  have "2 \<le> unat (numSlots a * 2)" and "unat (numSlots a * 2) \<le> 2 ^ 31"
    unfolding n2 using n small by simp_all
  then obtain new :: "('a, 'b) pair_array" where new: "PairArray_new (numSlots a * 2) = Inr new"
      "pa_ok hash_impl new" "pa_map new = Map.empty" "length (slots new) = unat (numSlots a * 2)"
      "n_used (slots new) = 0"
    by (rule PairArray_new_ok)
  then show ?thesis
    using rehash_ok [OF pa_ok_chain [OF ok], of 0 "length (slots a)" a new v0] n n2
    by (simp add: pa_doubleArray_def part_map_all part_map_0 n_used_def)
qed

section \<open>Map\<close>

text \<open>
  The invariant of \<^verbatim>\<open>pdb::Map\<close>: the table is in order and not filled above the fill factor. The
  growth policy keeps it for as long as the table may still double (\<open>2 ^ 30\<close> slots).
\<close>

definition Map_ok :: "('k \<Rightarrow> 64 word) \<Rightarrow> ('k, 'v) pair_array \<Rightarrow> bool" where
  "Map_ok hash_impl a \<longleftrightarrow> pa_ok hash_impl a \<and> n_used (slots a) \<le> fill_limit (length (slots a))"

lemma pa_isOverFull_iff:
  "pa_ok hash_impl a \<Longrightarrow> pa_isOverFull a \<longleftrightarrow> fill_limit (length (slots a)) \<le> n_used (slots a)"
  by (simp add: pa_isOverFull_def pa_ok_def word_le_nat_alt)

lemma Map_at_present:
  assumes ok: "Map_ok hash_impl a" and k: "pa_map a k = Some v"
  shows "\<exists>s h. Map_at hash_impl v0 sp a k = (a, Inr s) \<and> s < length (slots a) \<and>
           slots a ! s = Rec h k v"
proof -
  have pok: "pa_ok hash_impl a" using ok by (simp add: Map_ok_def)
  obtain s h where "pa_at hash_impl v0 (fitsNew sp) a k = Inr (s, a)" "s < length (slots a)"
      "slots a ! s = Rec h k v"
    using pa_at_present [OF pok k] by metis
  then show ?thesis using k by (auto simp: Map_at_def pa_count_ok [OF pok])
qed

text \<open>\<open>operator[]\<close> for a new key, in any space in which the records can move to a doubled array.\<close>

definition with_record :: "('k \<Rightarrow> 64 word) \<Rightarrow> 'k \<Rightarrow> 'v \<Rightarrow> nat \<Rightarrow> ('k, 'v) pair_array \<Rightarrow> ('k, 'v) pair_array" where
  "with_record hash_impl k v0 s b = b\<lparr>slots := (slots b)[s := Rec (Hasher_hash hash_impl k) k v0], usedSlots := usedSlots b + 1\<rparr>"

lemma grown_table:
  assumes ok: "Map_ok hash_impl a" and small: "length (slots a) \<le> 2 ^ 30" and arr: "pa_isOverFull a \<Longrightarrow> fits"
  shows "\<exists>b old. (if pa_isOverFull a then pa_doubleArray hash_impl v0 fits (\<lambda>_. True) a else (a, Inr a)) = (old, Inr b) \<and> pa_ok hash_impl b \<and>
    pa_map b = pa_map a \<and> length (slots b) = (if pa_isOverFull a then 2 * length (slots a) else length (slots a)) \<and>
    n_used (slots b) = n_used (slots a) \<and> n_used (slots b) < fill_limit (length (slots b))"
proof (cases "pa_isOverFull a")
  case True
  have n: "2 \<le> length (slots a)" "n_used (slots a) \<le> fill_limit (length (slots a))" "pa_ok hash_impl a" using ok by (auto simp: Map_ok_def pa_ok_def)
  obtain b where "snd (pa_doubleArray hash_impl v0 True (\<lambda>_. True) a) = Inr b" "pa_ok hash_impl b" "pa_map b = pa_map a"
    "length (slots b) = 2 * length (slots a)" "n_used (slots b) = n_used (slots a)"
    using doubleArray_ok [OF n(3)] small by auto
  moreover have "n_used (slots a) < fill_limit (2 * length (slots a))"
    using n(2) fill_limit_double [of "length (slots a)"] fill_limit_pos [OF n(1)] by linarith
  ultimately show ?thesis using True arr by (auto simp: prod_eq_iff)
next
  case False
  then show ?thesis using ok pa_isOverFull_iff [of hash_impl a] by (simp add: Map_ok_def)
qed

lemma Map_at_new:
  assumes ok: "Map_ok hash_impl a" and small: "length (slots a) \<le> 2 ^ 30" and k: "pa_map a k = None" and sp: "fitsRec sp = (\<lambda>_. True)"
  shows "(\<exists>b. Map_at hash_impl v0 sp a k = (b, Inl (Throw ''NotEnoughSpace'')) \<and> Map_ok hash_impl b \<and> pa_map b = pa_map a \<and>
      \<not> ((pa_isOverFull a \<longrightarrow> fitsArr sp) \<and> fitsNew sp)) \<or>
    (\<exists>b s. Map_at hash_impl v0 sp a k = (with_record hash_impl k v0 s b, Inr s) \<and> pa_ok hash_impl b \<and> pa_map b = pa_map a \<and>
      s < length (slots b) \<and> slots b ! s = Free \<and> Map_ok hash_impl (with_record hash_impl k v0 s b) \<and>
      n_used (slots (with_record hash_impl k v0 s b)) = n_used (slots a) + 1 \<and> pa_map (with_record hash_impl k v0 s b) = (pa_map a)(k \<mapsto> v0) \<and>
      length (slots b) = (if pa_isOverFull a then 2 * length (slots a) else length (slots a)) \<and> (pa_isOverFull a \<longrightarrow> fitsArr sp) \<and> fitsNew sp)"
proof (cases "pa_isOverFull a \<and> \<not> fitsArr sp")
  case True
  then show ?thesis using k ok pa_count_ok [of hash_impl a] by (simp add: Map_at_def pa_doubleArray_def Map_ok_def)
next
  case False
  have pok: "pa_ok hash_impl a" using ok by (simp add: Map_ok_def)
  obtain b old where b: "(if pa_isOverFull a then pa_doubleArray hash_impl v0 (fitsArr sp) (\<lambda>_. True) a else (a, Inr a)) = (old, Inr b)" "pa_ok hash_impl b"
    "pa_map b = pa_map a" "length (slots b) = (if pa_isOverFull a then 2 * length (slots a) else length (slots a))"
    "n_used (slots b) = n_used (slots a)" "n_used (slots b) < fill_limit (length (slots b))"
    using grown_table [OF ok small, of "fitsArr sp" v0] False by blast
  have kb: "pa_map b k = None" using k b(3) by simp
  obtain s where s: "probe_from_home hash_impl b k = Inr (Empty s)" "s < length (slots b)" "slots b ! s = Free"
    using probe_not_stored [OF b(2)] kb pa_map_None_iff [OF pa_ok_chain [OF b(2)], of k] by metis
  have at: "Map_at hash_impl v0 sp a k = (case pa_at hash_impl v0 (fitsNew sp) b k of Inl e \<Rightarrow> (b, Inl e) | Inr (s, a'') \<Rightarrow> (a'', Inr s))"
    using k b(1) by (auto simp: Map_at_def pa_count_ok [OF pok] sp split: if_splits)
  have "0 < length (slots b)" using s(2) by auto
  then have "n_used (slots b) + 1 < length (slots b)" using b(6) fill_limit_less [of "length (slots b)"] by linarith
  then have w: "pa_ok hash_impl (with_record hash_impl k v0 s b)" "n_used (slots (with_record hash_impl k v0 s b)) = n_used (slots b) + 1"
    "pa_map (with_record hash_impl k v0 s b) = (pa_map b)(k \<mapsto> v0)"
    using pa_at_absent [OF b(2) kb, of v0] s(1) by (auto simp: pa_at_def with_record_def)
  then have m: "Map_ok hash_impl (with_record hash_impl k v0 s b)" "Map_ok hash_impl b" using b(2,6) by (auto simp: Map_ok_def with_record_def)
  show ?thesis
  proof (cases "fitsNew sp")
    case True
    then have "Map_at hash_impl v0 sp a k = (with_record hash_impl k v0 s b, Inr s)" using at s(1) by (simp add: pa_at_def with_record_def)
    then show ?thesis using True s b(2-5) w m False by auto
  next
    case nf: False
    then have "Map_at hash_impl v0 sp a k = (b, Inl (Throw ''NotEnoughSpace''))" using at s(1) by (simp add: pa_at_def)
    then show ?thesis using nf m b(3) by auto
  qed
qed

lemma roomy_moves: "fitsRec roomy = (\<lambda>_. True)"
  by (simp add: roomy_def)

lemma Map_at_absent:
  assumes ok: "Map_ok hash_impl a" and k: "pa_map a k = None" and small: "length (slots a) \<le> 2 ^ 30"
  shows "\<exists>s a' h. Map_at hash_impl v0 roomy a k = (a', Inr s) \<and> Map_ok hash_impl a' \<and>
           s < length (slots a') \<and> slots a' ! s = Rec h k v0 \<and>
           length (slots a') \<le> 2 * length (slots a) \<and> n_used (slots a') = n_used (slots a) + 1 \<and>
           pa_map a' = (pa_map a)(k \<mapsto> v0)"
  using Map_at_new [OF ok small k roomy_moves, of v0]
proof (elim disjE exE conjE)
  fix b s
  assume "Map_at hash_impl v0 roomy a k = (with_record hash_impl k v0 s b, Inr s)" "s < length (slots b)"
    "Map_ok hash_impl (with_record hash_impl k v0 s b)" "n_used (slots (with_record hash_impl k v0 s b)) = n_used (slots a) + 1"
    "pa_map (with_record hash_impl k v0 s b) = (pa_map a)(k \<mapsto> v0)" "length (slots b) = (if pa_isOverFull a then 2 * length (slots a) else length (slots a))"
  then show ?thesis by (intro exI [of _ s] exI [of _ "with_record hash_impl k v0 s b"]) (auto simp: with_record_def)
qed (simp_all add: roomy_def)

text \<open>Both cases of \<open>operator[]\<close> followed by the client's assignment.\<close>

lemma Map_assign_ok:
  assumes ok: "Map_ok hash_impl a" and small: "length (slots a) \<le> 2 ^ 30"
  shows "\<exists>a'. Map_assign hash_impl v0 roomy k v a = (a', Inr ()) \<and> Map_ok hash_impl a' \<and>
           pa_map a' = (pa_map a)(k \<mapsto> v) \<and>
           n_used (slots a') = n_used (slots a) + (if pa_map a k = None then 1 else 0) \<and>
           (length (slots a') = length (slots a) \<or> pa_map a k = None \<and>
              length (slots a') \<le> 2 * length (slots a))"
proof (cases "pa_map a k")
  case None
  obtain s a' h where at: "Map_at hash_impl v0 roomy a k = (a', Inr s)" "Map_ok hash_impl a'"
      "s < length (slots a')" "slots a' ! s = Rec h k v0"
      "length (slots a') \<le> 2 * length (slots a)" "n_used (slots a') = n_used (slots a) + 1"
      "pa_map a' = (pa_map a)(k \<mapsto> v0)"
    using Map_at_absent [OF ok None small, of v0] by blast
  have pok: "pa_ok hash_impl a'" using at(2) by (simp add: Map_ok_def)
  note sv = set_value_ok [OF pok at(3,4), of v]
  show ?thesis
    using at sv None by (auto simp: Map_assign_def Map_ok_def)
next
  case (Some w)
  then obtain s h where at: "Map_at hash_impl v0 roomy a k = (a, Inr s)" "s < length (slots a)"
      "slots a ! s = Rec h k w"
    using Map_at_present [OF ok] by metis
  have pok: "pa_ok hash_impl a" using ok by (simp add: Map_ok_def)
  note sv = set_value_ok [OF pok at(2,3), of v]
  show ?thesis using at sv Some ok by (auto simp: Map_assign_def Map_ok_def)
qed

text \<open>
  The contract a client of a growable map relies on: below a load limit every assignment succeeds,
  keeps the invariant and has the effect of a map update. Filling a map from a list is proved once
  for every implementation.
\<close>

fun put_all :: "('k \<Rightarrow> 'v \<Rightarrow> 'm \<Rightarrow> 'm \<times> unit result) \<Rightarrow> ('k \<times> 'v) list \<Rightarrow> 'm \<Rightarrow> 'm \<times> unit result" where
  "put_all put [] m = (m, Inr ())"
| "put_all put ((k, v) # kvs) m =
     (case put k v m of (m', Inl e) \<Rightarrow> (m', Inl e) | (m', Inr _) \<Rightarrow> put_all put kvs m')"

locale growable_map =
  fixes put :: "'k \<Rightarrow> 'v \<Rightarrow> 'm \<Rightarrow> 'm \<times> unit result"
    and find :: "'m \<Rightarrow> 'k \<Rightarrow> 'v option"
    and ok :: "'m \<Rightarrow> bool"
    and load :: "'m \<Rightarrow> nat"
    and cap :: nat
  assumes put_ok: "ok m \<Longrightarrow> load m < cap \<Longrightarrow>
      \<exists>m'. put k v m = (m', Inr ()) \<and> ok m' \<and> find m' = (find m)(k \<mapsto> v) \<and> load m' \<le> load m + 1"
begin

lemma put_all_ok:
  "ok m \<Longrightarrow> load m + length kvs \<le> cap \<Longrightarrow>
     \<exists>m'. put_all put kvs m = (m', Inr ()) \<and> ok m' \<and> find m' = find m ++ map_of (rev kvs)"
proof (induction kvs arbitrary: m)
  case Nil
  then show ?case by simp
next
  case (Cons kv kvs)
  obtain k v where kv: "kv = (k, v)" by fastforce
  obtain m1 where m1: "put k v m = (m1, Inr ())" "ok m1" "find m1 = (find m)(k \<mapsto> v)"
      "load m1 \<le> load m + 1"
    using put_ok [OF Cons.prems(1)] Cons.prems(2) by fastforce
  obtain m2 where "put_all put kvs m1 = (m2, Inr ())" "ok m2" "find m2 = find m1 ++ map_of (rev kvs)"
    using Cons.IH [OF m1(2)] m1(4) Cons.prems(2) by auto
  with m1 kv show ?case by (auto simp: map_add_def fun_eq_iff split: option.splits)
qed

end

text \<open>
  For a map that has only grown by its own policy the number of slots stays within four times the
  number of records plus one, so up to \<open>2 ^ 28\<close> records never exhaust the 32-bit slot count.
\<close>

definition Map_grown :: "('k \<Rightarrow> 64 word) \<Rightarrow> ('k, 'v) pair_array \<Rightarrow> bool" where
  "Map_grown hash_impl a \<longleftrightarrow>
     Map_ok hash_impl a \<and> length (slots a) \<le> 4 * (n_used (slots a) + 1)"

lemma pa_at_length:
  "pa_at hash_impl v0 fits a k = Inr (s, a') \<Longrightarrow> length (slots a') = length (slots a)"
  by (cases "probe_from_home hash_impl a k") (auto simp: pa_at_def split: probe.splits if_splits)

lemma doubling_only_when_full:
  assumes "Map_ok hash_impl a" and "pa_map a k = None" and "\<not> pa_isOverFull a"
    and "Map_at hash_impl v0 roomy a k = (a', Inr s)"
  shows "length (slots a') = length (slots a)"
proof -
  have pok: "pa_ok hash_impl a" using assms(1) by (simp add: Map_ok_def)
  then have "pa_at hash_impl v0 (fitsNew roomy) a k = Inr (s, a')"
    using assms(2-4) by (auto simp: Map_at_def pa_count_ok split: sum.splits prod.splits)
  then show ?thesis by (rule pa_at_length)
qed

lemma fill_limit_full: "fill_limit n \<le> u \<Longrightarrow> 2 * n \<le> 4 * (u + 2)"
proof -
  assume "fill_limit n \<le> u"
  then have "n * 667 div 1000 < u + 1" by (simp add: fill_limit_def)
  then have "n * 667 < 1000 * u + 1000" by (simp add: div_less_iff_less_mult)
  then have "n < 2 * u + 5" by linarith
  then show ?thesis by simp
qed

lemma Map_grown_assign:
  assumes g: "Map_grown hash_impl a" and load: "n_used (slots a) < 2 ^ 28"
  shows "\<exists>a'. Map_assign hash_impl v0 roomy k v a = (a', Inr ()) \<and> Map_grown hash_impl a' \<and>
           pa_map a' = (pa_map a)(k \<mapsto> v) \<and> n_used (slots a') \<le> n_used (slots a) + 1"
proof -
  have ok: "Map_ok hash_impl a" and len: "length (slots a) \<le> 4 * (n_used (slots a) + 1)"
    using g by (auto simp: Map_grown_def)
  have small: "length (slots a) \<le> 2 ^ 30" using len load by simp
  obtain a' where a': "Map_assign hash_impl v0 roomy k v a = (a', Inr ())" "Map_ok hash_impl a'"
      "pa_map a' = (pa_map a)(k \<mapsto> v)"
      "n_used (slots a') = n_used (slots a) + (if pa_map a k = None then 1 else 0)"
      "length (slots a') = length (slots a) \<or>
         pa_map a k = None \<and> length (slots a') \<le> 2 * length (slots a)"
    using Map_assign_ok [OF ok small] by blast
  have "length (slots a') \<le> 4 * (n_used (slots a') + 1)"
  proof (cases "pa_map a k = None \<and> pa_isOverFull a")
    case True
    have "pa_ok hash_impl a" using ok by (simp add: Map_ok_def)
    then have "fill_limit (length (slots a)) \<le> n_used (slots a)"
      using True by (simp add: pa_isOverFull_iff)
    then have "2 * length (slots a) \<le> 4 * (n_used (slots a) + 2)"
      by (rule fill_limit_full)
    then show ?thesis using a'(4,5) True by auto
  next
    case False
    then have "length (slots a') = length (slots a)"
    proof (cases "pa_map a k = None")
      case True
      then have "\<not> pa_isOverFull a" using False by simp
      obtain b s where b: "Map_at hash_impl v0 roomy a k = (b, Inr s)" "a' = set_value s v b"
        using a'(1) by (auto simp: Map_assign_def split: prod.splits sum.splits)
      then have "length (slots b) = length (slots a)"
        using doubling_only_when_full [OF ok True \<open>\<not> pa_isOverFull a\<close>] by blast
      then show ?thesis using b(2) by (simp add: set_value_def)
    qed (use a'(5) in auto)
    then show ?thesis using len a'(4) by simp
  qed
  then show ?thesis using a' by (auto simp: Map_grown_def)
qed

interpretation pdb_map: growable_map "\<lambda>k v a. Map_assign hash_impl v0 roomy k v a" pa_map
    "Map_grown hash_impl" "\<lambda>a. n_used (slots a)" "2 ^ 28"
  for hash_impl :: "'k \<Rightarrow> 64 word" and v0 :: 'v
  by unfold_locales (rule Map_grown_assign)

lemma Map_default_ok:
  obtains a :: "('k, 'v) pair_array" where "Map_default = Inr a" and "Map_grown hash_impl a"
    and "pa_map a = Map.empty" and "n_used (slots a) = 0"
proof -
  obtain a :: "('k, 'v) pair_array" where "PairArray_new 2 = Inr a" "pa_ok hash_impl a"
      "pa_map a = Map.empty" "length (slots a) = unat (2 :: 32 word)" "n_used (slots a) = 0"
    by (rule PairArray_new_ok [of 2 hash_impl]) simp_all
  then show thesis using that by (simp add: Map_default_def Map_grown_def Map_ok_def)
qed

section \<open>Iteration visits every record once\<close>

text \<open>Iteration relies only on this: the number of slots is right and the marks of unused slots are.\<close>

definition scan_ok :: "('k, 'v) pair_array \<Rightarrow> bool" where
  "scan_ok a \<longleftrightarrow> unat (numSlots a) = length (slots a) \<and> (\<forall>i < length (slots a). GET_HASH (slots a) i = UNUSED \<longleftrightarrow> slots a ! i = Free)"

lemma pa_ok_scan: "pa_ok hash_impl a \<Longrightarrow> scan_ok a"
  using chain_ok_hash by (auto simp: pa_ok_def scan_ok_def)

lemma skip_unused_props:
  assumes "\<And>i. i < length d \<Longrightarrow> GET_HASH d i = UNUSED \<longleftrightarrow> d ! i = Free" and "i + c = length d"
  shows "skip_unused d c i \<le> length d \<and> i \<le> skip_unused d c i \<and>
    (\<forall>j. i \<le> j \<and> j < skip_unused d c i \<longrightarrow> d ! j = Free) \<and>
    (skip_unused d c i < length d \<longrightarrow> d ! (skip_unused d c i) \<noteq> Free)"
  using assms(2)
proof (induction c arbitrary: i)
  case 0
  then show ?case by auto
next
  case (Suc c)
  then have i: "i < length d" by simp
  show ?case
  proof (cases "d ! i = Free")
    case True
    then have "GET_HASH d i = UNUSED" using assms(1) [OF i] by simp
    then have eq: "skip_unused d (Suc c) i = skip_unused d c (Suc i)" by simp
    have "d ! j = Free" if "i \<le> j" "j < skip_unused d c (Suc i)" for j
      using Suc.IH [of "Suc i"] Suc.prems True that by (cases "j = i") auto
    then show ?thesis unfolding eq using Suc.IH [of "Suc i"] Suc.prems by auto
  next
    case False
    then show ?thesis using assms(1) [OF i] i by auto
  qed
qed

lemma filter_drop_skip:
  assumes "\<forall>j. i \<le> j \<and> j < m \<longrightarrow> d ! j = Free" and "i \<le> m" and "m \<le> length d"
  shows "filter (\<lambda>s. s \<noteq> Free) (drop i d) = filter (\<lambda>s. s \<noteq> Free) (drop m d)"
proof -
  have "drop i d = take (m - i) (drop i d) @ drop m d"
    using assms(2) by (metis append_take_drop_id drop_drop le_add_diff_inverse2)
  moreover have "filter (\<lambda>s. s \<noteq> Free) (take (m - i) (drop i d)) = []"
    using assms by (auto simp: filter_empty_conv in_set_conv_nth)
  ultimately show ?thesis by (metis append_Nil filter_append)
qed

lemma it_settle_props:
  assumes ok: "scan_ok a" and i: "i \<le> length (slots a)"
  defines "it \<equiv> it_settle a i"
  shows "i \<le> it_slot it" and "it_slot it \<le> length (slots a)"
    and "it_done it \<longleftrightarrow> it_slot it = length (slots a)"
    and "\<not> it_done it \<Longrightarrow> slots a ! it_slot it \<noteq> Free"
    and "filter (\<lambda>s. s \<noteq> Free) (drop i (slots a)) = filter (\<lambda>s. s \<noteq> Free) (drop (it_slot it) (slots a))"
proof -
  have ch: "\<And>i. i < length (slots a) \<Longrightarrow> GET_HASH (slots a) i = UNUSED \<longleftrightarrow> slots a ! i = Free" and n: "unat (numSlots a) = length (slots a)"
    using ok by (auto simp: scan_ok_def)
  note sk = skip_unused_props [OF ch, of i "length (slots a) - i"]
  show "i \<le> it_slot it" "it_slot it \<le> length (slots a)"
      "it_done it \<longleftrightarrow> it_slot it = length (slots a)"
      "\<not> it_done it \<Longrightarrow> slots a ! it_slot it \<noteq> Free"
    using sk i n by (auto simp: it_def it_settle_def Let_def)
  show "filter (\<lambda>s. s \<noteq> Free) (drop i (slots a)) = filter (\<lambda>s. s \<noteq> Free) (drop (it_slot it) (slots a))"
    using sk i n by (intro filter_drop_skip) (auto simp: it_def it_settle_def Let_def)
qed

lemma it_collect_from:
  assumes ok: "scan_ok a" and "i \<le> length (slots a)"
    and "length (slots a) - i \<le> fuel"
  shows "it_collect a fuel (it_settle a i) = Some (filter (\<lambda>s. s \<noteq> Free) (drop i (slots a)))"
  using assms(2,3)
proof (induction fuel arbitrary: i)
  case 0
  then have "i = length (slots a)" by simp
  then show ?case
    using it_settle_props [OF ok, of i] by (auto simp: it_differs_def it_end_def)
next
  case (Suc fuel)
  let ?it = "it_settle a i"
  note p = it_settle_props [OF ok Suc.prems(1)]
  show ?case
  proof (cases "it_done ?it")
    case True
    then show ?thesis using p by (simp add: it_differs_def it_end_def)
  next
    case False
    then have lt: "it_slot ?it < length (slots a)" using p by simp
    have nxt: "it_next a ?it = it_settle a (Suc (it_slot ?it))"
      using False by (simp add: it_next_def Let_def)
    have "it_collect a fuel (it_settle a (Suc (it_slot ?it))) =
        Some (filter (\<lambda>s. s \<noteq> Free) (drop (Suc (it_slot ?it)) (slots a)))"
      using lt p(1) Suc.prems by (intro Suc.IH) auto
    moreover have "drop (it_slot ?it) (slots a) = slots a ! it_slot ?it # drop (Suc (it_slot ?it)) (slots a)"
      using lt by (simp add: Cons_nth_drop_Suc)
    ultimately show ?thesis
      using False p(4,5) nxt by (simp add: it_differs_def it_end_def it_deref_def)
  qed
qed

section \<open>Deep copy\<close>

lemma copy_loop_ok:
  assumes "chain_ok hash_impl from" and "length to = length from" and "i + c = length from"
    and "take i to = take i from"
  shows "copy_loop (\<lambda>_. True) c i from to = (True, from)"
  using assms(2-)
proof (induction c arbitrary: i to)
  case 0
  then show ?case by simp
next
  case (Suc c)
  then have i: "i < length from" by simp
  have step: "take (Suc i) (to[i := from ! i]) = take (Suc i) from"
    using Suc.prems i by (simp add: take_Suc_conv_app_nth)
  show ?case
  proof (cases "from ! i = Free")
    case True
    then show ?thesis
      using Suc.IH [of "to[i := from ! i]" "Suc i"] Suc.prems step chain_ok_hash [OF assms(1) i] by simp
  next
    case False
    then show ?thesis
      using Suc.IH [of "to[i := from ! i]" "Suc i"] Suc.prems step chain_ok_hash [OF assms(1) i] by simp
  qed
qed

section \<open>Properties of the map\<close>

text \<open>A two-slot table with no records, as \<open>Map_default\<close> builds it, used in the instances below.\<close>

definition empty2 :: "(nat, nat) pair_array" where
  "empty2 = \<lparr>usedSlots = 0, numSlots = 2, maxSlots = 1, slots = [Free, Free], disableDestructor = False\<rparr>"

definition mod_hash :: "nat \<Rightarrow> 64 word" where
  "mod_hash k = of_nat k"

lemma empty2_slots: "slots empty2 = replicate 2 Free"
  by (simp add: empty2_def numeral_2_eq_2)

lemma empty2_ok: "Map_grown h empty2"
  by (simp add: Map_grown_def Map_ok_def pa_ok_def empty2_slots chain_ok_replicate_Free
      n_used_replicate_Free) (simp add: empty2_def fill_limit_def)




text \<open>
  On a map in order \<^verbatim>\<open>count\<close> returns 1 for a key that was stored and 0 for any other: the probe
  sequence never stops short of a stored key and never runs off the table.
\<close>

theorem Map_count_is_membership:
  assumes "Map_ok hash_impl a"
  shows "Map_count hash_impl a k = Inr (if k \<in> dom (pa_map a) then 1 else 0)"
  using assms by (simp add: Map_count_def Map_ok_def pa_count_ok domIff)

theorem Map_count_is_membership_witness:
  "Map_count mod_hash empty2 9 = Inr (if (9 :: nat) \<in> dom (pa_map empty2) then 1 else 0)"
  using Map_count_is_membership [of mod_hash empty2 9] empty2_ok [of mod_hash] by (simp add: Map_grown_def)

text \<open>
  Filling a default-constructed map from a list of up to \<open>2 ^ 28\<close> key-value pairs, one assignment
  after another, succeeds whatever the hash function, and afterwards every key maps to the last value
  assigned to it.
\<close>

theorem Map_filled_from_list:
  assumes "length kvs \<le> 2 ^ 28"
  shows "\<exists>a0 a. Map_default = Inr a0 \<and>
           put_all (Map_assign hash_impl v0 roomy) kvs a0 = (a, Inr ()) \<and>
           Map_ok hash_impl a \<and> pa_map a = map_of (rev kvs)"
proof -
  obtain a0 :: "('a, 'b) pair_array" where a0: "Map_default = Inr a0" "Map_grown hash_impl a0"
      "pa_map a0 = Map.empty" "n_used (slots a0) = 0"
    using Map_default_ok .
  then show ?thesis
    using pdb_map.put_all_ok [OF a0(2), of kvs v0] assms by (auto simp: Map_grown_def)
qed

theorem Map_filled_from_list_witness:
  "\<exists>a0 a. Map_default = Inr a0 \<and> put_all (Map_assign mod_hash 0 roomy) [(1, 10), (4, 40), (1, 11)] a0 = (a, Inr ()) \<and>
     Map_ok mod_hash a \<and> pa_map a = [1 \<mapsto> 10, 4 \<mapsto> 40, (1 :: nat) \<mapsto> (11 :: nat)]"
  using Map_filled_from_list [of "[(1, 10), (4, 40), (1, 11)]" mod_hash 0]
  by (simp add: fun_upd_twist) 

text \<open>
  C32: the loop from \<^verbatim>\<open>begin()\<close> to \<^verbatim>\<open>end()\<close> ends within one step per slot and visits exactly the
  records of the table, each once, in slot order.
\<close>

theorem Map_iteration_complete:
  assumes "Map_ok hash_impl a"
  shows "it_collect a (length (slots a)) (it_begin a) = Some (filter (\<lambda>s. s \<noteq> Free) (slots a))"
  using assms it_collect_from [of a 0 "length (slots a)"] pa_ok_scan [of hash_impl a]
  by (simp add: Map_ok_def it_begin_def)

theorem Map_iteration_complete_witness:
  "it_collect empty2 2 (it_begin empty2) = Some []"
  using Map_iteration_complete [of mod_hash empty2] empty2_ok [of mod_hash]
  by (simp add: Map_grown_def) (simp add: empty2_def numeral_2_eq_2)

text \<open>
  A deep copy that finds enough space has the same records in the same slots as its source, with
  the same counters, and its destructor is enabled.
\<close>

theorem Map_copy_faithful:
  assumes "pa_ok hash_impl a" and "length storage = length (slots a)"
  shows "pa_setUpAndCopyFrom primitive (\<lambda>_. True) storage a = (a\<lparr>disableDestructor := False\<rparr>, Inr ())"
proof -
  have "copy_loop (\<lambda>_. True) (length (slots a)) 0 (slots a) storage = (True, slots a)"
    using copy_loop_ok [OF pa_ok_chain [OF assms(1)] assms(2), of 0] by simp
  moreover have "unat (numSlots a) = length (slots a)" using assms(1) by (simp add: pa_ok_def)
  ultimately show ?thesis by (simp add: pa_setUpAndCopyFrom_def Let_def)
qed

theorem Map_copy_faithful_witness:
  "pa_setUpAndCopyFrom False (\<lambda>_. True) [Free, Free] empty2 = (empty2\<lparr>disableDestructor := False\<rparr>, Inr ())"
  using Map_copy_faithful [of mod_hash empty2 "[Free, Free]" False] empty2_ok [of mod_hash]
  by (simp add: Map_grown_def Map_ok_def) (simp add: empty2_def)

text \<open>
  \<^verbatim>\<open>setUnused\<close> frees the slot without repairing the probe sequences that run through it. In a map
  built by three assignments, removing the key 1 makes the key 8, whose record is still in the table,
  unreachable: \<^verbatim>\<open>count\<close> answers 0 for it, while \<^verbatim>\<open>size\<close> still counts the removed record.
\<close>

theorem Map_setUnused_loses_keys:
  "let a = fst (put_all (Map_assign mod_hash 0 roomy) [(1, 10), (4, 40), (8, 80)] empty2);
       a' = projr (Map_setUnused mod_hash a 1)
   in Map_count mod_hash a 8 = Inr 1 \<and> Map_setUnused mod_hash a 1 = Inr a' \<and>
      Rec (mod_hash 8) 8 80 \<in> set (slots a') \<and> Map_count mod_hash a' 8 = Inr 0 \<and>
      Map_size a' = Map_size a"
  by code_simp

text \<open>
  Doubling destroys each record of the old array as soon as it is copied. When the block runs out of
  space halfway, \<^verbatim>\<open>operator[]\<close> leaves by an exception with the old array still in place, and a key
  that was stored before the call (1) is gone from the map although nothing removed it.
\<close>

theorem Map_failed_doubling_loses_keys:
  "let a = fst (put_all (Map_assign mod_hash 0 roomy) [(1, 10), (8, 80)] empty2);
       r = Map_at mod_hash 0 \<lparr>fitsArr = True, fitsRec = (\<lambda>i. i < 2), fitsNew = True\<rparr> a 3
   in Map_count mod_hash a 1 = Inr 1 \<and> snd r = Inl (Throw ''NotEnoughSpace'') \<and>
      Map_count mod_hash (fst r) 1 = Inr 0"
  by code_simp

end
