(* ===== verification/Allocator.thy ===== *)
theory Allocator
  imports PC_Prelude
begin

text \<open>
  The allocator of the object model, \<^verbatim>\<open>objectModel/headers/Allocator.h\<close> and \<^verbatim>\<open>Allocator.cc\<close>, and the functions of
  \<^verbatim>\<open>InterfaceFunctions.cc\<close> that only call it. Every thread places its objects in one active allocation block;
  blocks that are no longer active are kept as long as they hold an object. A block starts with a header
  (bytes used, offset of the root object, number of objects) and is cut into chunks, each with its size in
  front. Addresses are natural numbers, 0 is the null pointer. The header words and the chunk sizes in memory
  are functions of their address; \<open>mallocs\<close> is what \<^verbatim>\<open>malloc\<close> has given to the allocator and has not got back.
\<close>

section \<open>Data\<close>

record InactiveAllocationBlock =
  b_start :: nat
  b_end :: nat

record AllocatorState =
  activeRAM :: nat
  a_numBytes :: nat
  throwException :: bool
  curBlockUserSupplied :: bool
  a_chunks :: "nat list list"

datatype AllocatorPolicy = defaultAllocator | noReuseAllocator | noReferenceCountAllocator

type_synonym policy_list = "(AllocatorPolicy \<times> bool) list"

record ram =
  lastUsed :: "nat \<Rightarrow> nat"
  offsetToObject :: "nat \<Rightarrow> nat"
  blockRefs :: "nat \<Rightarrow> nat"
  chunkSize :: "nat \<Rightarrow> nat"
  mallocs :: "(nat \<times> nat) list"

record allocator =
  myState :: AllocatorState
  allInactives :: "InactiveAllocationBlock list"
  myPolicies :: policy_list
  ram :: ram

text \<open>\<^verbatim>\<open>sizeof(unsigned) + 2 * sizeof(size_t)\<close> and \<^verbatim>\<open>sizeof(unsigned)\<close>; reference counts and sizes are 32 bits wide.\<close>

definition HEADER_SIZE :: nat where
  "HEADER_SIZE = 20"

definition CHUNK_HEADER_SIZE :: nat where
  "CHUNK_HEADER_SIZE = 4"

definition inc_refs :: "nat \<Rightarrow> ram \<Rightarrow> ram" where
  "inc_refs s m = m\<lparr>blockRefs := (blockRefs m)(s := (blockRefs m s + 1) mod 2 ^ 32)\<rparr>"

definition dec_refs :: "nat \<Rightarrow> ram \<Rightarrow> ram" where
  "dec_refs s m = m\<lparr>blockRefs := (blockRefs m)(s := (blockRefs m s + 2 ^ 32 - 1) mod 2 ^ 32)\<rparr>"

definition upd_ram :: "(ram \<Rightarrow> ram) \<Rightarrow> allocator \<Rightarrow> allocator" where
  "upd_ram f A = A\<lparr>ram := f (ram A)\<rparr>"

text \<open>\<^verbatim>\<open>malloc\<close> at the address \<open>p\<close>, and \<^verbatim>\<open>free\<close>, which is undefined for what was not allocated or is already freed.\<close>

definition mallocAt :: "nat \<Rightarrow> nat \<Rightarrow> allocator \<Rightarrow> allocator" where
  "mallocAt p n = upd_ram (\<lambda>m. m\<lparr>mallocs := (p, n) # mallocs m\<rparr>)"

definition freeAt :: "nat \<Rightarrow> allocator \<Rightarrow> allocator result" where
  "freeAt p A =
     (if p = 0 then Inr A
      else if p \<in> fst ` set (mallocs (ram A))
      then Inr (upd_ram (\<lambda>m. m\<lparr>mallocs := filter (\<lambda>e. fst e \<noteq> p) (mallocs m)\<rparr>) A)
      else Inl (Undefined ''free of memory that is not allocated''))"

section \<open>Inactive blocks\<close>

definition block_before :: "nat \<Rightarrow> InactiveAllocationBlock \<Rightarrow> bool" where
  "block_before here b \<longleftrightarrow> b_end b < here"

definition block_after :: "nat \<Rightarrow> InactiveAllocationBlock \<Rightarrow> bool" where
  "block_after here b \<longleftrightarrow> here < b_start b"

text \<open>
  \<^verbatim>\<open>std::lower_bound\<close> returns the first block that is not before the address, provided that the blocks before it
  form a prefix; otherwise it has no defined result.
\<close>

definition lower_bound :: "nat \<Rightarrow> InactiveAllocationBlock list \<Rightarrow> nat result" where
  "lower_bound here bs =
     (let i = length (takeWhile (block_before here) bs)
      in if list_all (\<lambda>b. \<not> block_before here b) (drop i bs) then Inr i
         else Inl (Undefined ''lower_bound of an unordered range''))"

definition find_inactive :: "nat \<Rightarrow> InactiveAllocationBlock list \<Rightarrow> nat option result" where
  "find_inactive here bs =
     andThen (lower_bound here bs) (\<lambda>i. Inr (if i < length bs \<and> \<not> block_after here (bs ! i) then Some i else None))"

definition vec_erase :: "nat \<Rightarrow> 'a list \<Rightarrow> 'a list" where
  "vec_erase i xs = take i xs @ drop (Suc i) xs"

section \<open>Getting and freeing memory\<close>

fun top_bit :: "nat \<Rightarrow> nat" where
  "top_bit n = (if n < 2 then 0 else Suc (top_bit (n div 2)))"

declare top_bit.simps [simp del]

text \<open>\<open>top_bit n\<close> is \<^verbatim>\<open>31 - __builtin_clz(n)\<close> for a positive 32-bit number; \<^verbatim>\<open>__builtin_clz(0)\<close> is undefined.\<close>

definition chunk_class :: "nat \<Rightarrow> nat result" where
  "chunk_class n = (if n = 0 then Inl (Undefined ''__builtin_clz(0)'') else Inr (top_bit n))"

definition bytesNeeded :: "nat \<Rightarrow> nat" where
  "bytesNeeded howMuch =
     (let b = (CHUNK_HEADER_SIZE + howMuch) mod 2 ^ 32
      in if b mod 4 \<noteq> 0 then (b + (4 - b mod 4)) mod 2 ^ 32 else b)"

definition defaultFreeRAM :: "bool \<Rightarrow> nat \<Rightarrow> allocator \<Rightarrow> allocator result" where
  "defaultFreeRAM isContained here A =
     (if isContained
      then let c = here - CHUNK_HEADER_SIZE; st = myState A
           in andThen (chunk_class (chunkSize (ram A) c)) (\<lambda>i.
              andThen (vec_at (a_chunks st) i) (\<lambda>cs.
              Inr (upd_ram (dec_refs (activeRAM st)) (A\<lparr>myState := st\<lparr>a_chunks := (a_chunks st)[i := cs @ [c]]\<rparr>\<rparr>))))
      else andThen (find_inactive here (allInactives A)) (\<lambda>found.
        case found of
          None \<Rightarrow> Inr A
        | Some i \<Rightarrow>
            (let s = b_start (allInactives A ! i); A1 = upd_ram (dec_refs s) A
             in if blockRefs (ram A1) s = 0
                then andThen (freeAt s A1) (\<lambda>A2. Inr (A2\<lparr>allInactives := vec_erase i (allInactives A2)\<rparr>))
                else Inr A1)))"

fun find_chunk_below :: "(nat \<Rightarrow> nat) \<Rightarrow> nat \<Rightarrow> nat list \<Rightarrow> nat \<Rightarrow> nat option" where
  "find_chunk_below sz need cs 0 = None"
| "find_chunk_below sz need cs (Suc j) =
     (if need \<le> sz (cs ! j) then Some j else find_chunk_below sz need cs j)"

function find_chunk :: "(nat \<Rightarrow> nat) \<Rightarrow> nat \<Rightarrow> nat list list \<Rightarrow> nat \<Rightarrow> (nat \<times> nat) option result" where
  "find_chunk sz need css i =
     (if i < 32
      then andThen (vec_at css i) (\<lambda>cs.
        case find_chunk_below sz need cs (length cs) of
          Some j \<Rightarrow> Inr (Some (i, j))
        | None \<Rightarrow> find_chunk sz need css (Suc i))
      else Inr None)"
  by pat_completeness auto
termination
  by (relation "measure (\<lambda>(sz, need, css, i). 32 - i)") auto

declare find_chunk.simps [simp del]

text \<open>The end of \<^verbatim>\<open>defaultGetRAM\<close> and \<^verbatim>\<open>fastGetRAM\<close>: a new chunk behind the used part of the block.\<close>

definition carve :: "nat \<Rightarrow> allocator \<Rightarrow> (nat \<times> allocator) result" where
  "carve need A =
     (let st = myState A; s = activeRAM st; used = lastUsed (ram A) s
      in if (used + need) mod 2 ^ 64 > a_numBytes st
         then (if throwException st then Inl (Throw ''NotEnoughSpace'') else Inr (0, A))
         else let res = s + used
              in Inr (res + CHUNK_HEADER_SIZE,
                   upd_ram (\<lambda>m. inc_refs s (m\<lparr>lastUsed := (lastUsed m)(s := (used + need) mod 2 ^ 64),
                     chunkSize := (chunkSize m)(res := need)\<rparr>)) A))"

definition defaultGetRAM :: "nat \<Rightarrow> allocator \<Rightarrow> (nat \<times> allocator) result" where
  "defaultGetRAM howMuch A =
     (let need = bytesNeeded howMuch; st = myState A
      in andThen (chunk_class need) (\<lambda>i0.
         andThen (find_chunk (chunkSize (ram A)) need (a_chunks st) i0) (\<lambda>found.
         case found of
           Some (i, j) \<Rightarrow>
             let cs = a_chunks st ! i
             in Inr (cs ! j + CHUNK_HEADER_SIZE,
                  upd_ram (inc_refs (activeRAM st)) (A\<lparr>myState := st\<lparr>a_chunks := (a_chunks st)[i := vec_erase j cs]\<rparr>\<rparr>))
         | None \<Rightarrow> carve need A)))"

definition fastGetRAM :: "nat \<Rightarrow> allocator \<Rightarrow> (nat \<times> allocator) result" where
  "fastGetRAM howMuch A = carve (bytesNeeded howMuch) A"

section \<open>Policies\<close>

definition DefaultPolicy_freeRAM :: "bool \<Rightarrow> nat \<Rightarrow> allocator \<Rightarrow> allocator result" where
  "DefaultPolicy_freeRAM isContained here A = defaultFreeRAM isContained here A"

definition DefaultPolicy_getRAM :: "nat \<Rightarrow> allocator \<Rightarrow> (nat \<times> allocator) result" where
  "DefaultPolicy_getRAM howMuch A = defaultGetRAM howMuch A"

definition NoReusePolicy_freeRAM :: "bool \<Rightarrow> nat \<Rightarrow> allocator \<Rightarrow> allocator result" where
  "NoReusePolicy_freeRAM isContained here A = defaultFreeRAM isContained here A"

definition NoReusePolicy_getRAM :: "nat \<Rightarrow> allocator \<Rightarrow> (nat \<times> allocator) result" where
  "NoReusePolicy_getRAM howMuch A = fastGetRAM howMuch A"

definition NoReferenceCountPolicy_freeRAM :: "bool \<Rightarrow> nat \<Rightarrow> allocator \<Rightarrow> allocator result" where
  "NoReferenceCountPolicy_freeRAM isContained here A = Inr A"

definition NoReferenceCountPolicy_getRAM :: "nat \<Rightarrow> allocator \<Rightarrow> (nat \<times> allocator) result" where
  "NoReferenceCountPolicy_getRAM howMuch A = defaultGetRAM howMuch A"

definition policy_freeRAM :: "AllocatorPolicy \<Rightarrow> bool \<Rightarrow> nat \<Rightarrow> allocator \<Rightarrow> allocator result" where
  "policy_freeRAM p =
     (case p of
        defaultAllocator \<Rightarrow> DefaultPolicy_freeRAM
      | noReuseAllocator \<Rightarrow> NoReusePolicy_freeRAM
      | noReferenceCountAllocator \<Rightarrow> NoReferenceCountPolicy_freeRAM)"

definition policy_getRAM :: "AllocatorPolicy \<Rightarrow> nat \<Rightarrow> allocator \<Rightarrow> (nat \<times> allocator) result" where
  "policy_getRAM p =
     (case p of
        defaultAllocator \<Rightarrow> DefaultPolicy_getRAM
      | noReuseAllocator \<Rightarrow> NoReusePolicy_getRAM
      | noReferenceCountAllocator \<Rightarrow> NoReferenceCountPolicy_getRAM)"

lemmas policy_defs = policy_getRAM_def policy_freeRAM_def DefaultPolicy_freeRAM_def DefaultPolicy_getRAM_def
  NoReusePolicy_freeRAM_def NoReusePolicy_getRAM_def NoReferenceCountPolicy_freeRAM_def NoReferenceCountPolicy_getRAM_def

text \<open>A \<^verbatim>\<open>PolicyList\<close> is a list of policies with their \<^verbatim>\<open>useMe\<close> flags; the empty list is \<^verbatim>\<open>DummyPolicy\<close>.\<close>

fun unsetPolicy :: "policy_list \<Rightarrow> policy_list" where
  "unsetPolicy [] = []"
| "unsetPolicy ((p, useMe) # theRest) = (p, False) # unsetPolicy theRest"

fun setPolicy :: "AllocatorPolicy \<Rightarrow> policy_list \<Rightarrow> policy_list" where
  "setPolicy toMe [] = []"
| "setPolicy toMe ((p, useMe) # theRest) =
     (if p = toMe then (p, True) # unsetPolicy theRest else (p, False) # setPolicy toMe theRest)"

fun list_freeRAM :: "policy_list \<Rightarrow> bool \<Rightarrow> nat \<Rightarrow> allocator \<Rightarrow> allocator result" where
  "list_freeRAM [] isContained here A = Inr A"
| "list_freeRAM ((p, useMe) # theRest) isContained here A =
     (if useMe then policy_freeRAM p isContained here A else list_freeRAM theRest isContained here A)"

fun list_getRAM :: "policy_list \<Rightarrow> nat \<Rightarrow> allocator \<Rightarrow> (nat \<times> allocator) result" where
  "list_getRAM [] howMuch A = Inr (0, A)"
| "list_getRAM ((p, useMe) # theRest) howMuch A =
     (if useMe then policy_getRAM p howMuch A else list_getRAM theRest howMuch A)"

definition Allocator_policies :: policy_list where
  "Allocator_policies =
     [(defaultAllocator, False), (noReuseAllocator, False), (noReferenceCountAllocator, False)]"

section \<open>The allocator\<close>

definition doNotFail :: "allocator \<Rightarrow> bool" where
  "doNotFail A \<longleftrightarrow> \<not> throwException (myState A)"

definition al_setPolicy :: "AllocatorPolicy \<Rightarrow> allocator \<Rightarrow> allocator" where
  "al_setPolicy p A = A\<lparr>myPolicies := setPolicy p (myPolicies A)\<rparr>"

definition al_contains :: "nat \<Rightarrow> allocator \<Rightarrow> bool" where
  "al_contains x A \<longleftrightarrow> activeRAM (myState A) \<le> x \<and> x < activeRAM (myState A) + a_numBytes (myState A)"

definition getRAM :: "nat \<Rightarrow> allocator \<Rightarrow> (nat \<times> allocator) result" where
  "getRAM howMuch A = list_getRAM (myPolicies A) howMuch A"

definition freeRAM :: "nat \<Rightarrow> allocator \<Rightarrow> allocator result" where
  "freeRAM here A = list_freeRAM (myPolicies A) (al_contains here A) here A"

definition isManaged :: "nat \<Rightarrow> allocator \<Rightarrow> bool result" where
  "isManaged here A =
     (if al_contains here A then Inr True
      else andThen (find_inactive here (allInactives A)) (\<lambda>found. Inr (found \<noteq> None)))"

definition clear_chunks :: "allocator \<Rightarrow> allocator" where
  "clear_chunks A = A\<lparr>myState := (myState A)\<lparr>a_chunks := map (\<lambda>_. []) (a_chunks (myState A))\<rparr>\<rparr>"

definition emptyOutBlock :: "nat \<Rightarrow> allocator \<Rightarrow> allocator result" where
  "emptyOutBlock here A =
     (if al_contains here A
      then Inr (upd_ram (\<lambda>m. m\<lparr>blockRefs := (blockRefs m)(activeRAM (myState A) := 0)\<rparr>) (clear_chunks A))
      else andThen (find_inactive here (allInactives A)) (\<lambda>found.
        case found of
          None \<Rightarrow> Inr A
        | Some i \<Rightarrow> Inr (A\<lparr>allInactives := vec_erase i (allInactives A)\<rparr>)))"

definition getFreeBytesAtTheEnd :: "allocator \<Rightarrow> nat" where
  "getFreeBytesAtTheEnd A =
     (a_numBytes (myState A) + 2 ^ 64 - lastUsed (ram A) (activeRAM (myState A))) mod 2 ^ 64"

definition getBytesAvailableInCurrentAllocatorBlock :: "allocator \<Rightarrow> nat" where
  "getBytesAvailableInCurrentAllocatorBlock A =
     (let amtUnused = foldl (\<lambda>n c. (n + chunkSize (ram A) c) mod 2 ^ 32) 0 (concat (a_chunks (myState A)))
      in (getFreeBytesAtTheEnd A + amtUnused) mod 2 ^ 64)"

definition getNumObjectsInCurrentAllocatorBlock :: "allocator \<Rightarrow> nat" where
  "getNumObjectsInCurrentAllocatorBlock A = blockRefs (ram A) (activeRAM (myState A))"

definition getNumObjectsInAllocatorBlock :: "nat \<Rightarrow> allocator \<Rightarrow> nat result" where
  "getNumObjectsInAllocatorBlock here A =
     (if al_contains here A then Inr (getNumObjectsInCurrentAllocatorBlock A)
      else andThen (find_inactive here (allInactives A)) (\<lambda>found.
        Inr (case found of None \<Rightarrow> 0 | Some i \<Rightarrow> blockRefs (ram A) (b_start (allInactives A ! i)))))"

text \<open>What happens to the active block when another one takes its place.\<close>

definition retire_block :: "allocator \<Rightarrow> allocator result" where
  "retire_block A =
     (let st = myState A
      in if blockRefs (ram A) (activeRAM st) \<noteq> 0
         then Inr (A\<lparr>allInactives := sort_key b_end (allInactives A @
                [\<lparr>b_start = activeRAM st, b_end = activeRAM st + a_numBytes st\<rparr>])\<rparr>)
         else freeAt (activeRAM st) A)"

definition setupBlock :: "nat \<Rightarrow> nat \<Rightarrow> bool \<Rightarrow> allocator \<Rightarrow> allocator result" where
  "setupBlock whr numBytesIn throwExceptionOnFail A =
     (if numBytesIn < HEADER_SIZE then Inl (Exit ''You need to have a larger allocation block'')
      else if whr = 0 then Inl (Exit ''The block does not have a valid address'')
      else let A1 = A\<lparr>myState := (myState A)\<lparr>throwException := throwExceptionOnFail\<rparr>\<rparr>; st = myState A1
           in andThen (if activeRAM st \<noteq> 0 \<and> \<not> curBlockUserSupplied st then retire_block A1 else Inr A1) (\<lambda>A2.
              let A3 = clear_chunks A2
              in Inr (upd_ram (\<lambda>m. m\<lparr>lastUsed := (lastUsed m)(whr := HEADER_SIZE), blockRefs := (blockRefs m)(whr := 0)\<rparr>)
                   (A3\<lparr>myState := (myState A3)\<lparr>activeRAM := whr, a_numBytes := numBytesIn,
                      curBlockUserSupplied := False\<rparr>\<rparr>))))"

definition setupUserSuppliedBlock :: "nat \<Rightarrow> nat \<Rightarrow> bool \<Rightarrow> allocator \<Rightarrow> allocator result" where
  "setupUserSuppliedBlock whr numBytesIn throwExceptionOnFail A =
     andThen (setupBlock whr numBytesIn throwExceptionOnFail A) (\<lambda>A1.
       Inr (A1\<lparr>myState := (myState A1)\<lparr>curBlockUserSupplied := True\<rparr>\<rparr>))"

text \<open>A block from \<^verbatim>\<open>malloc\<close>, whose answer \<open>p\<close> is an argument; a null answer ends the process.\<close>

definition setupMallocBlock :: "nat \<Rightarrow> nat \<Rightarrow> bool \<Rightarrow> allocator \<Rightarrow> allocator result" where
  "setupMallocBlock p numBytesIn throwExceptionOnFail A =
     (if p = 0 then Inl (Exit ''out of memory'')
      else setupBlock p numBytesIn throwExceptionOnFail (mallocAt p numBytesIn A))"

definition Allocator_new :: "ram \<Rightarrow> nat \<Rightarrow> nat \<Rightarrow> allocator result" where
  "Allocator_new m p numBytesIn =
     andThen (setupMallocBlock p numBytesIn True
        \<lparr>myState = \<lparr>activeRAM = 0, a_numBytes = 0, throwException = True, curBlockUserSupplied = False,
            a_chunks = replicate 32 []\<rparr>,
         allInactives = [], myPolicies = Allocator_policies, ram = m\<rparr>)
      (\<lambda>A. Inr (al_setPolicy defaultAllocator A))"

definition al_destroy :: "allocator \<Rightarrow> allocator result" where
  "al_destroy A =
     (if activeRAM (myState A) \<noteq> 0 \<and> \<not> curBlockUserSupplied (myState A)
      then freeAt (activeRAM (myState A)) A else Inr A)"

definition getAllocationBlock :: "nat \<Rightarrow> allocator \<Rightarrow> (nat \<times> allocator) result" where
  "getAllocationBlock here A =
     (let root = (\<lambda>s. upd_ram (\<lambda>m. m\<lparr>offsetToObject := (offsetToObject m)(s := here - s)\<rparr>) A)
      in if al_contains here A then Inr (activeRAM (myState A), root (activeRAM (myState A)))
         else andThen (find_inactive here (allInactives A)) (\<lambda>found.
           Inr (case found of
                  None \<Rightarrow> (0, A)
                | Some i \<Rightarrow> (let s = b_start (allInactives A ! i) in (s, root s)))))"

definition phantom_reference :: "allocator \<Rightarrow> allocator" where
  "phantom_reference A =
     upd_ram (inc_refs (activeRAM (myState A))) (A\<lparr>myState := (myState A)\<lparr>curBlockUserSupplied := False\<rparr>\<rparr>)"

definition temporarilyUseBlockForAllocations ::
  "nat \<Rightarrow> nat \<Rightarrow> allocator \<Rightarrow> (AllocatorState \<times> allocator) result" where
  "temporarilyUseBlockForAllocations putMeHere numBytesAvailable A =
     andThen (setupUserSuppliedBlock putMeHere numBytesAvailable True (phantom_reference A)) (\<lambda>A1.
       Inr (myState A, A1))"

definition temporarilyUseMallocBlock ::
  "nat \<Rightarrow> nat \<Rightarrow> allocator \<Rightarrow> (AllocatorState \<times> allocator) result" where
  "temporarilyUseMallocBlock p numBytesAvailable A =
     andThen (setupMallocBlock p numBytesAvailable True (phantom_reference A)) (\<lambda>A1.
       Inr (myState A, A1))"

fun erase_start :: "nat \<Rightarrow> InactiveAllocationBlock list \<Rightarrow> InactiveAllocationBlock list" where
  "erase_start s [] = []"
| "erase_start s (b # bs) = (if b_start b = s then bs else b # erase_start s bs)"

definition restoreAllocationBlock :: "AllocatorState \<Rightarrow> allocator \<Rightarrow> allocator result" where
  "restoreAllocationBlock useMe A =
     andThen (if \<not> curBlockUserSupplied (myState A) then retire_block A else Inr A) (\<lambda>A1.
       Inr (upd_ram (dec_refs (activeRAM useMe))
         (A1\<lparr>myState := useMe, allInactives := erase_start (activeRAM useMe) (allInactives A1)\<rparr>)))"

fun clean_loop :: "(InactiveAllocationBlock \<Rightarrow> bool) \<Rightarrow> InactiveAllocationBlock list \<Rightarrow> allocator \<Rightarrow>
    (InactiveAllocationBlock list \<times> allocator) result" where
  "clean_loop P [] A = Inr ([], A)"
| "clean_loop P (b # bs) A =
     (if P b then andThen (freeAt (b_start b) A) (clean_loop P bs)
      else andThen (clean_loop P bs A) (\<lambda>(kept, A1). Inr (b # kept, A1)))"

definition cleanInactiveBlocks :: "allocator \<Rightarrow> allocator result" where
  "cleanInactiveBlocks A =
     andThen (clean_loop (\<lambda>_. True) (allInactives A) A) (\<lambda>(kept, A1). Inr (A1\<lparr>allInactives := kept\<rparr>))"

definition cleanInactiveBlocks_size :: "nat \<Rightarrow> allocator \<Rightarrow> allocator result" where
  "cleanInactiveBlocks_size n A =
     andThen (clean_loop (\<lambda>b. b_end b - b_start b = n) (allInactives A) A) (\<lambda>(kept, A1). Inr (A1\<lparr>allInactives := kept\<rparr>))"

text \<open>The functions of \<^verbatim>\<open>InterfaceFunctions.cc\<close> that start a block; \<open>p\<close> is the answer of \<^verbatim>\<open>malloc\<close>.\<close>

definition makeObjectAllocatorBlock :: "nat \<Rightarrow> nat \<Rightarrow> bool \<Rightarrow> allocator \<Rightarrow> allocator result" where
  "makeObjectAllocatorBlock p numBytesIn throwExceptionOnFail A = setupMallocBlock p numBytesIn throwExceptionOnFail A"

definition makeObjectAllocatorBlock_at :: "nat \<Rightarrow> nat \<Rightarrow> bool \<Rightarrow> allocator \<Rightarrow> allocator result" where
  "makeObjectAllocatorBlock_at spaceToUse numBytesIn throwExceptionOnFail A =
     setupUserSuppliedBlock spaceToUse numBytesIn throwExceptionOnFail A"

text \<open>
  Which allocator a thread uses: \<open>i\<close> is the address of a local variable. A worker's stack is a region of \<open>2 ^ 22\<close>
  bytes whose start holds its allocator; every other thread shares the main one.
\<close>

definition getAllocator :: "nat \<Rightarrow> nat \<Rightarrow> nat \<Rightarrow> nat \<Rightarrow> nat" where
  "getAllocator stackBase stackEnd mainAllocatorPtr i =
     (if stackBase = 0 \<or> \<not> (stackBase \<le> i \<and> i < stackEnd) then mainAllocatorPtr
      else push_bit 22 (drop_bit 22 i))"

end
