(* ===== verification/AllocatorInv.thy ===== *)
theory AllocatorInv
  imports Allocator
begin

text \<open>
  The invariant of the allocator and the effect of getting and freeing memory on it. Besides the allocator the
  invariant speaks of \<open>L\<close>, the addresses that were handed out and not freed, and of \<open>S\<close>, the states that
  \<^verbatim>\<open>temporarilyUseBlockForAllocations\<close> has returned and that will be restored. The two reclaiming
  disciplines and the one without reference counts satisfy one contract, the locale \<open>ram_policy\<close>.
\<close>

section \<open>The invariant\<close>

definition active_block :: "AllocatorState \<Rightarrow> InactiveAllocationBlock" where
  "active_block st = \<lparr>b_start = activeRAM st, b_end = activeRAM st + a_numBytes st\<rparr>"

definition managed :: "allocator \<Rightarrow> InactiveAllocationBlock list" where
  "managed A = active_block (myState A) # allInactives A"

definition in_block :: "InactiveAllocationBlock \<Rightarrow> nat \<Rightarrow> bool" where
  "in_block b x \<longleftrightarrow> b_start b \<le> x \<and> x < b_end b"

definition apart_blocks :: "InactiveAllocationBlock \<Rightarrow> InactiveAllocationBlock \<Rightarrow> bool" where
  "apart_blocks b c \<longleftrightarrow> b_end b \<le> b_start c \<or> b_end c \<le> b_start b"

definition block_ok :: "ram \<Rightarrow> InactiveAllocationBlock \<Rightarrow> bool" where
  "block_ok m b \<longleftrightarrow> 0 < b_start b \<and> b_start b + lastUsed m (b_start b) \<le> b_end b \<and> b_end b \<le> 2 ^ 63 \<and>
     20 \<le> lastUsed m (b_start b) \<and> 4 dvd lastUsed m (b_start b)"

definition blocks_ok :: "ram \<Rightarrow> InactiveAllocationBlock list \<Rightarrow> bool" where
  "blocks_ok m bs \<longleftrightarrow> distinct bs \<and> pairwise apart_blocks (set bs) \<and> (\<forall>b \<in> set bs. block_ok m b)"

definition chunk_in :: "ram \<Rightarrow> nat \<Rightarrow> nat \<Rightarrow> bool" where
  "chunk_in m s c \<longleftrightarrow> s + 20 \<le> c \<and> c + chunkSize m c \<le> s + lastUsed m s \<and> 4 dvd (c - s) \<and>
     8 \<le> chunkSize m c \<and> chunkSize m c < 2 ^ 32 \<and> 4 dvd chunkSize m c"

definition apart_chunks :: "ram \<Rightarrow> nat \<Rightarrow> nat \<Rightarrow> bool" where
  "apart_chunks m c d \<longleftrightarrow> c + chunkSize m c \<le> d \<or> d + chunkSize m d \<le> c"

definition free_ok :: "ram \<Rightarrow> AllocatorState \<Rightarrow> bool" where
  "free_ok m st \<longleftrightarrow> length (a_chunks st) = 32 \<and>
     (\<forall>i<32. \<forall>c \<in> set (a_chunks st ! i). chunk_in m (activeRAM st) c \<and> top_bit (chunkSize m c) = i)"

definition live_ok :: "ram \<Rightarrow> InactiveAllocationBlock list \<Rightarrow> nat \<Rightarrow> bool" where
  "live_ok m bs l \<longleftrightarrow> 4 \<le> l \<and> (\<exists>b \<in> set bs. chunk_in m (b_start b) (l - 4))"

definition st_chunks :: "AllocatorState \<Rightarrow> nat list" where
  "st_chunks st = concat (a_chunks st)"

definition chunk_list :: "AllocatorState list \<Rightarrow> nat list \<Rightarrow> nat list" where
  "chunk_list sts L = map (\<lambda>l. l - 4) L @ concat (map st_chunks sts)"

definition chunks_ok :: "ram \<Rightarrow> InactiveAllocationBlock list \<Rightarrow> AllocatorState list \<Rightarrow> nat list \<Rightarrow> bool" where
  "chunks_ok m bs sts L \<longleftrightarrow> (\<forall>st \<in> set sts. free_ok m st) \<and> (\<forall>l \<in> set L. live_ok m bs l) \<and>
     distinct (chunk_list sts L) \<and> pairwise (apart_chunks m) (set (chunk_list sts L))"

text \<open>Objects in the block and, for a block that will be restored, the phantom reference.\<close>

definition live_in :: "InactiveAllocationBlock \<Rightarrow> nat list \<Rightarrow> nat" where
  "live_in b L = length (filter (in_block b) L)"

definition saved_in :: "InactiveAllocationBlock \<Rightarrow> AllocatorState list \<Rightarrow> nat" where
  "saved_in b S = length (filter (\<lambda>st. activeRAM st = b_start b) S)"

definition counts_ok :: "allocator \<Rightarrow> nat list \<Rightarrow> AllocatorState list \<Rightarrow> bool" where
  "counts_ok A L S \<longleftrightarrow>
     (\<forall>b \<in> set (managed A). blockRefs (ram A) (b_start b) = live_in b L + saved_in b S) \<and>
     (\<forall>b \<in> set (allInactives A). 0 < live_in b L + saved_in b S)"

definition saved_ok :: "allocator \<Rightarrow> AllocatorState list \<Rightarrow> bool" where
  "saved_ok A S \<longleftrightarrow> distinct (map activeRAM S) \<and> (\<forall>st \<in> set S. active_block st \<in> set (allInactives A))"

definition user_starts :: "AllocatorState list \<Rightarrow> nat set" where
  "user_starts sts = activeRAM ` {st \<in> set sts. curBlockUserSupplied st}"

definition region :: "InactiveAllocationBlock \<Rightarrow> nat \<times> nat" where
  "region b = (b_start b, b_end b - b_start b)"

text \<open>The allocator owns from \<^verbatim>\<open>malloc\<close> exactly the managed blocks that were not supplied by the user.\<close>

definition owned_ok :: "allocator \<Rightarrow> AllocatorState list \<Rightarrow> bool" where
  "owned_ok A S \<longleftrightarrow> distinct (map fst (mallocs (ram A))) \<and>
     set (mallocs (ram A)) = region ` {b \<in> set (managed A). b_start b \<notin> user_starts (myState A # S)}"

definition al_inv :: "allocator \<Rightarrow> nat list \<Rightarrow> AllocatorState list \<Rightarrow> bool" where
  "al_inv A L S \<longleftrightarrow> blocks_ok (ram A) (managed A) \<and> sorted (map b_end (allInactives A)) \<and>
     chunks_ok (ram A) (managed A) (myState A # S) L \<and> counts_ok A L S \<and> saved_ok A S \<and> owned_ok A S"

lemma al_invD:
  assumes "al_inv A L S"
  shows "blocks_ok (ram A) (managed A)" and "sorted (map b_end (allInactives A))"
    and "chunks_ok (ram A) (managed A) (myState A # S) L" and "counts_ok A L S" and "saved_ok A S"
    and "owned_ok A S"
  using assms by (simp_all add: al_inv_def)

section \<open>Chunk sizes and their classes\<close>

lemma top_bit_mono: "m \<le> n \<Longrightarrow> top_bit m \<le> top_bit n"
proof (induction m arbitrary: n rule: top_bit.induct)
  case (1 m)
  show ?case
  proof (cases "m < 2")
    case True
    then show ?thesis by (simp add: top_bit.simps [of m])
  next
    case False
    then have "top_bit (m div 2) \<le> top_bit (n div 2)" using 1 by (intro 1(1)) (auto intro: div_le_mono)
    then show ?thesis using False 1(2) by (simp add: top_bit.simps [of m] top_bit.simps [of n])
  qed
qed

lemma top_bit_less: "n < 2 ^ Suc k \<Longrightarrow> top_bit n < Suc k"
proof (induction k arbitrary: n)
  case 0
  then show ?case by (simp add: top_bit.simps)
next
  case (Suc k)
  have "n div 2 < 2 ^ Suc k" using Suc.prems by auto
  then show ?case using Suc.IH [of "n div 2"] by (subst top_bit.simps) auto
qed

lemma top_bit_less_32: "n < 2 ^ 32 \<Longrightarrow> top_bit n < 32"
  using top_bit_less [of n 31] by simp

definition request_ok :: "nat \<Rightarrow> bool" where
  "request_ok h \<longleftrightarrow> 0 < h \<and> h + 8 \<le> 2 ^ 32"

lemma bytesNeeded_eq:
  assumes "request_ok h"
  shows "h + 4 \<le> bytesNeeded h" "bytesNeeded h < h + 8" "4 dvd bytesNeeded h" "8 \<le> bytesNeeded h"
    "bytesNeeded h < 2 ^ 32"
proof -
  have lt: "4 + h < 2 ^ 32" using assms by (simp add: request_ok_def)
  define r where "r = (4 + h) mod 4"
  have r4: "r < 4" by (simp add: r_def)
  obtain q where q: "4 + h = 4 * q + r" using r_def by (metis div_mult_mod_eq mult.commute)
  have eq: "bytesNeeded h = (if r = 0 then 4 * q else 4 * q + 4)"
    using lt r4 q assms
    by (auto simp: bytesNeeded_def Let_def CHUNK_HEADER_SIZE_def r_def [symmetric] request_ok_def)
  show "4 dvd bytesNeeded h" by (simp add: eq)
  show "h + 4 \<le> bytesNeeded h" "bytesNeeded h < h + 8" "8 \<le> bytesNeeded h" "bytesNeeded h < 2 ^ 32"
    using q r4 assms by (auto simp: eq request_ok_def)
qed

section \<open>Searching\<close>

lemma mset_concat_update:
  "i < length css \<Longrightarrow> mset (concat (css[i := ys])) + mset (css ! i) = mset (concat css) + mset ys"
  by (induction css arbitrary: i) (auto simp: ac_simps split: nat.split)

lemma mset_vec_erase: "j < length cs \<Longrightarrow> add_mset (cs ! j) (mset (vec_erase j cs)) = mset cs"
  by (metis id_take_nth_drop mset_append mset.simps(2) union_mset_add_mset_right vec_erase_def)

lemma find_chunk_below_Some:
  "find_chunk_below sz need cs n = Some j \<Longrightarrow> j < n \<and> need \<le> sz (cs ! j)"
  by (induction n) (auto split: if_splits)

lemma find_chunk_below_None:
  "find_chunk_below sz need cs n = None \<longleftrightarrow> (\<forall>j<n. sz (cs ! j) < need)"
  by (induction n) (auto simp: less_Suc_eq)

lemma find_chunk_result:
  assumes "length css = 32"
  shows "(\<exists>k j. find_chunk sz need css i = Inr (Some (k, j)) \<and> i \<le> k \<and> k < 32 \<and> j < length (css ! k) \<and>
            need \<le> sz (css ! k ! j)) \<or>
         (find_chunk sz need css i = Inr None \<and> (\<forall>k. i \<le> k \<and> k < 32 \<longrightarrow> (\<forall>c \<in> set (css ! k). sz c < need)))"
  using assms
proof (induction sz need css i rule: find_chunk.induct)
  case (1 sz need css i)
  show ?case
  proof (cases "i < 32")
    case True
    then have at: "vec_at css i = Inr (css ! i)" using 1(2) by (simp add: vec_at_def)
    show ?thesis
    proof (cases "find_chunk_below sz need (css ! i) (length (css ! i))")
      case None
      then have "find_chunk sz need css i = find_chunk sz need css (Suc i)"
        using True at by (subst find_chunk.simps) simp
      moreover have "\<forall>c \<in> set (css ! i). sz c < need"
        using None by (auto simp: find_chunk_below_None in_set_conv_nth)
      ultimately show ?thesis using 1(1) [OF True at None 1(2)]
        by (metis Suc_leI Suc_leD order_le_less)
    next
      case (Some j)
      then have "find_chunk sz need css i = Inr (Some (i, j))" using True at by (subst find_chunk.simps) simp
      then show ?thesis using find_chunk_below_Some [OF Some] True by auto
    qed
  next
    case False
    then show ?thesis by (auto simp: find_chunk.simps)
  qed
qed

lemma inc_refs_simps [simp]:
  "lastUsed (inc_refs s m) = lastUsed m" "chunkSize (inc_refs s m) = chunkSize m"
  "offsetToObject (inc_refs s m) = offsetToObject m" "mallocs (inc_refs s m) = mallocs m"
  by (simp_all add: inc_refs_def)

lemma dec_refs_simps [simp]:
  "lastUsed (dec_refs s m) = lastUsed m" "chunkSize (dec_refs s m) = chunkSize m"
  "offsetToObject (dec_refs s m) = offsetToObject m" "mallocs (dec_refs s m) = mallocs m"
  by (simp_all add: dec_refs_def)

lemma inc_refs_count: "blockRefs m s + 1 < 2 ^ 32 \<Longrightarrow> blockRefs (inc_refs s m) = (blockRefs m)(s := blockRefs m s + 1)"
  by (simp add: inc_refs_def)

lemma dec_refs_count:
  assumes "0 < blockRefs m s" and "blockRefs m s < 2 ^ 32"
  shows "blockRefs (dec_refs s m) = (blockRefs m)(s := blockRefs m s - 1)"
proof -
  obtain n where n: "blockRefs m s = Suc n" using assms(1) by (cases "blockRefs m s") auto
  have "(Suc n + 2 ^ 32 - 1) mod 2 ^ 32 = (n::nat)" using assms(2) n by simp
  then show ?thesis by (simp add: dec_refs_def n)
qed

lemma upd_ram_simps [simp]:
  "ram (upd_ram f A) = f (ram A)" "myState (upd_ram f A) = myState A" "allInactives (upd_ram f A) = allInactives A"
  "myPolicies (upd_ram f A) = myPolicies A"
  by (simp_all add: upd_ram_def)

text \<open>
  With disjoint blocks sorted by their ends, \<^verbatim>\<open>lower_bound\<close> followed by the test of the start finds the block
  an address belongs to, if there is one. An address at the very start of a block is not covered: it would
  be attributed to a block that ends there.
\<close>

lemma takeWhile_prefix_index:
  assumes "sorted (map b_end bs)"
  shows "lower_bound x bs = Inr (length (takeWhile (block_before x) bs))"
proof -
  have "\<not> block_before x b" if "b \<in> set (drop (length (takeWhile (block_before x) bs)) bs)" for b
  proof -
    let ?d = "dropWhile (block_before x) bs"
    have d: "drop (length (takeWhile (block_before x) bs)) bs = ?d" by (simp add: dropWhile_eq_drop)
    have "sorted (map b_end ?d)" using assms by (metis d drop_map sorted_wrt_drop)
    moreover have "?d \<noteq> [] \<Longrightarrow> \<not> block_before x (hd ?d)" by (rule hd_dropWhile)
    ultimately show ?thesis using that by (cases ?d) (auto simp: d block_before_def)
  qed
  then show ?thesis by (simp add: lower_bound_def Let_def list_all_iff)
qed

lemma find_inactive_found:
  assumes s: "sorted (map b_end bs)" and apart: "pairwise apart_blocks (set bs)"
    and ok: "\<And>b. b \<in> set bs \<Longrightarrow> b_start b < b_end b"
    and b: "b \<in> set bs" "b_start b < x" "x \<le> b_end b"
  shows "\<exists>i. find_inactive x bs = Inr (Some i) \<and> i < length bs \<and> bs ! i = b"
proof -
  define i where "i = length (takeWhile (block_before x) bs)"
  have "\<not> block_before x b" using b by (simp add: block_before_def)
  then have i: "i < length bs" using b(1) unfolding i_def
    by (metis length_takeWhile_le nat_less_le set_takeWhileD takeWhile_eq_all_conv takeWhile_eq_take take_all_iff order_refl)
  then have ge: "x \<le> b_end (bs ! i)" using nth_length_takeWhile [of "block_before x" bs]
    by (simp add: i_def block_before_def)
  obtain j where j: "j < length bs" "bs ! j = b" using b(1) by (auto simp: in_set_conv_nth)
  have "i \<le> j"
  proof (rule ccontr)
    assume "\<not> i \<le> j"
    then have "block_before x (bs ! j)"
      by (metis i_def linorder_not_le nth_mem set_takeWhileD takeWhile_nth)
    then show False using \<open>\<not> block_before x b\<close> j by simp
  qed
  then have le: "b_end (bs ! i) \<le> b_end b" using s j by (metis length_map nth_map sorted_nth_mono i)
  have "bs ! i = b"
  proof (rule ccontr)
    assume "bs ! i \<noteq> b"
    then have "apart_blocks (bs ! i) b" using apart b(1) i by (auto simp: pairwise_def)
    then show False using ge le b ok [of b] ok [of "bs ! i"] i by (auto simp: apart_blocks_def)
  qed
  then show ?thesis
    using i b by (auto simp: find_inactive_def takeWhile_prefix_index [OF s] block_after_def i_def [symmetric])
qed

lemma find_inactive_none:
  assumes s: "sorted (map b_end bs)" and no: "\<And>b. b \<in> set bs \<Longrightarrow> x < b_start b \<or> b_end b < x"
  shows "find_inactive x bs = Inr None"
proof -
  define i where "i = length (takeWhile (block_before x) bs)"
  have "block_after x (bs ! i)" if "i < length bs"
    using no [of "bs ! i"] that nth_length_takeWhile [of "block_before x" bs]
    by (auto simp: i_def block_before_def block_after_def)
  then show ?thesis by (auto simp: find_inactive_def takeWhile_prefix_index [OF s] i_def [symmetric])
qed

section \<open>Blocks and the objects in them\<close>

lemma blocks_okD:
  assumes "blocks_ok m bs" and "b \<in> set bs"
  shows "block_ok m b" and "b_start b < b_end b" and "\<And>c. c \<in> set bs \<Longrightarrow> c \<noteq> b \<Longrightarrow> apart_blocks b c"
  using assms by (auto simp: blocks_ok_def block_ok_def pairwise_def)

lemma block_start_inj:
  assumes "blocks_ok m bs" and "b \<in> set bs" and "c \<in> set bs" and "b_start b = b_start c"
  shows "b = c"
  using blocks_okD [OF assms(1,2)] blocks_okD [OF assms(1,3)] assms by (force simp: apart_blocks_def)

lemma block_unique:
  assumes "blocks_ok m bs" and "b \<in> set bs" and "c \<in> set bs" and "in_block b x" and "in_block c x"
  shows "b = c"
  using blocks_okD [OF assms(1,2)] assms by (force simp: apart_blocks_def in_block_def)

lemma chunk_inside:
  assumes "blocks_ok m bs" and "b \<in> set bs" and "chunk_in m (b_start b) c"
  shows "b_start b + 20 \<le> c" and "c + chunkSize m c \<le> b_end b" and "in_block b (c + 4)" and "in_block b c"
  using blocks_okD [OF assms(1,2)] assms(3) by (auto simp: chunk_in_def block_ok_def in_block_def)

lemma live_block:
  assumes "blocks_ok m bs" and "live_ok m bs l"
  obtains b where "b \<in> set bs" and "chunk_in m (b_start b) (l - 4)" and "in_block b l" and "b_start b + 24 \<le> l"
    and "l < b_end b" and "\<And>c. c \<in> set bs \<Longrightarrow> in_block c l \<longleftrightarrow> c = b"
proof -
  obtain b where b: "b \<in> set bs" "chunk_in m (b_start b) (l - 4)" "4 \<le> l"
    using assms(2) by (auto simp: live_ok_def)
  note inside = chunk_inside [OF assms(1) b(1,2)]
  show thesis
    by (rule that [of b]) (use b inside block_unique [OF assms(1) _ b(1)] in \<open>auto simp: in_block_def\<close>)
qed

lemma in_st_chunks: "length (a_chunks st) = 32 \<Longrightarrow> c \<in> set (st_chunks st) \<longleftrightarrow> (\<exists>k<32. c \<in> set (a_chunks st ! k))"
  by (force simp: st_chunks_def in_set_conv_nth [of _ "a_chunks st"])

lemma chunk_list_member:
  assumes "chunks_ok m bs sts L" and "c \<in> set (chunk_list sts L)"
  shows "(\<exists>l \<in> set L. c = l - 4 \<and> live_ok m bs l) \<or> (\<exists>st \<in> set sts. c \<in> set (st_chunks st) \<and> chunk_in m (activeRAM st) c)"
proof -
  have "chunk_in m (activeRAM st) c" if st: "st \<in> set sts" and mem: "c \<in> set (st_chunks st)" for st
  proof -
    have "free_ok m st" using assms(1) st by (simp add: chunks_ok_def)
    then show ?thesis using mem in_st_chunks [of st c] by (auto simp: free_ok_def)
  qed
  then show ?thesis using assms by (auto simp: chunk_list_def chunks_ok_def)
qed

lemma chunk_home:
  assumes "chunks_ok m bs sts L" and "\<And>st. st \<in> set sts \<Longrightarrow> active_block st \<in> set bs" and "c \<in> set (chunk_list sts L)"
  shows "\<exists>b \<in> set bs. chunk_in m (b_start b) c"
  using chunk_list_member [OF assms(1,3)] assms(2) by (force simp: live_ok_def active_block_def)

lemma distinct_submset: "mset ys \<subseteq># mset xs \<Longrightarrow> distinct xs \<Longrightarrow> distinct ys"
  by (metis add_diff_cancel_left' distinct_append mset_append mset_eq_imp_distinct_iff subset_mset.le_iff_add ex_mset)

lemma chunks_ok_sub:
  assumes "chunks_ok m bs sts L" and "mset (chunk_list sts' L') \<subseteq># mset (chunk_list sts L)"
    and "\<And>st. st \<in> set sts' \<Longrightarrow> free_ok m st" and "\<And>l. l \<in> set L' \<Longrightarrow> live_ok m bs' l"
  shows "chunks_ok m bs' sts' L'"
proof -
  have "set (chunk_list sts' L') \<subseteq> set (chunk_list sts L)"
    using set_mset_mono [OF assms(2)] by simp
  then show ?thesis using assms distinct_submset [OF assms(2)] pairwise_subset
    by (auto simp: chunks_ok_def)
qed

lemma ram_cong:
  assumes "lastUsed m' = lastUsed m" and "chunkSize m' = chunkSize m"
  shows "chunk_in m' = chunk_in m" "apart_chunks m' = apart_chunks m" "free_ok m' = free_ok m"
    "live_ok m' = live_ok m" "chunks_ok m' = chunks_ok m" "block_ok m' = block_ok m" "blocks_ok m' = blocks_ok m"
proof -
  show 1: "chunk_in m' = chunk_in m" "apart_chunks m' = apart_chunks m" "block_ok m' = block_ok m"
    by (auto simp: fun_eq_iff chunk_in_def apart_chunks_def block_ok_def assms)
  show 2: "free_ok m' = free_ok m" "live_ok m' = live_ok m"
    by (simp_all add: fun_eq_iff free_ok_def live_ok_def assms 1)
  show "chunks_ok m' = chunks_ok m" "blocks_ok m' = blocks_ok m"
    by (simp_all add: fun_eq_iff chunks_ok_def blocks_ok_def 1 2)
qed

lemma active_managed [simp]: "active_block (myState A) \<in> set (managed A)"
  by (simp add: managed_def)

lemma active_block_sel [simp]:
  "b_start (active_block st) = activeRAM st" "b_end (active_block st) = activeRAM st + a_numBytes st"
  by (simp_all add: active_block_def)

lemma states_managed:
  assumes "saved_ok A S" and "st \<in> set (myState A # S)"
  shows "active_block st \<in> set (managed A)"
  using assms by (auto simp: saved_ok_def managed_def)

lemma live_in_Cons: "live_in b (l # L) = (if in_block b l then 1 else 0) + live_in b L"
  by (simp add: live_in_def)

lemma live_in_remove1: "l \<in> set L \<Longrightarrow> live_in b L = (if in_block b l then 1 else 0) + live_in b (remove1 l L)"
  by (induction L) (auto simp: live_in_Cons)

lemma live_in_length: "live_in b L \<le> length L" and saved_in_length: "saved_in b S \<le> length S"
  by (simp_all add: live_in_def saved_in_def)

definition al_room :: "nat list \<Rightarrow> AllocatorState list \<Rightarrow> bool" where
  "al_room L S \<longleftrightarrow> length L + length S + 1 < 2 ^ 32"

lemma refs_room:
  assumes "counts_ok A L S" and "al_room L S" and "b \<in> set (managed A)"
  shows "blockRefs (ram A) (b_start b) + 1 < 2 ^ 32"
  using assms live_in_length [of b L] saved_in_length [of b S] by (auto simp: counts_ok_def al_room_def)

text \<open>An object more in the active block, an object less in some block.\<close>

definition same_blocks :: "allocator \<Rightarrow> allocator \<Rightarrow> bool" where
  "same_blocks A A' \<longleftrightarrow> active_block (myState A') = active_block (myState A) \<and> allInactives A' = allInactives A \<and>
     curBlockUserSupplied (myState A') = curBlockUserSupplied (myState A) \<and>
     throwException (myState A') = throwException (myState A) \<and> myPolicies A' = myPolicies A \<and>
     mallocs (ram A') = mallocs (ram A)"

lemma same_blocks_managed: "same_blocks A A' \<Longrightarrow> managed A' = managed A"
  by (simp add: same_blocks_def managed_def)

lemma user_starts_Cons:
  "user_starts (st # S) = (if curBlockUserSupplied st then insert (activeRAM st) (user_starts S) else user_starts S)"
  by (auto simp: user_starts_def)

lemma same_blocks_rest:
  assumes "same_blocks A A'"
  shows "saved_ok A' S = saved_ok A S" "owned_ok A' S = owned_ok A S"
proof -
  have "activeRAM (myState A') = activeRAM (myState A)"
    using assms by (simp add: same_blocks_def active_block_def)
  then have "user_starts (myState A' # S) = user_starts (myState A # S)"
    using assms by (simp add: user_starts_Cons same_blocks_def)
  then show "saved_ok A' S = saved_ok A S" "owned_ok A' S = owned_ok A S"
    using assms by (simp_all add: saved_ok_def owned_ok_def same_blocks_managed [OF assms] same_blocks_def)
qed

lemma al_inv_more:
  assumes inv: "al_inv A L S" and same: "same_blocks A A'"
    and blocks: "blocks_ok (ram A') (managed A)" and chunks: "chunks_ok (ram A') (managed A) (myState A' # S) (r # L)"
    and refs: "blockRefs (ram A') = (blockRefs (ram A))(activeRAM (myState A) := blockRefs (ram A) (activeRAM (myState A)) + 1)"
    and r: "in_block (active_block (myState A)) r"
  shows "al_inv A' (r # L) S"
proof -
  let ?a = "active_block (myState A)"
  have start: "b_start b = activeRAM (myState A) \<longleftrightarrow> b = ?a" if "b \<in> set (managed A)" for b
    using block_start_inj [OF al_invD(1) [OF inv] that active_managed] by auto
  have inb: "in_block b r \<longleftrightarrow> b = ?a" if "b \<in> set (managed A)" for b
    using block_unique [OF al_invD(1) [OF inv] that active_managed] r by auto
  have count: "blockRefs (ram A) (b_start b) = live_in b L + saved_in b S" if "b \<in> set (managed A)" for b
    using al_invD(4) [OF inv] that by (simp add: counts_ok_def)
  have "blockRefs (ram A') (b_start b) = live_in b (r # L) + saved_in b S" if "b \<in> set (managed A)" for b
    using count [OF that] start [OF that] inb [OF that] by (auto simp: refs live_in_Cons)
  moreover have "0 < live_in b (r # L) + saved_in b S" if "b \<in> set (allInactives A)" for b
    using al_invD(4) [OF inv] that by (simp add: counts_ok_def live_in_Cons)
  ultimately have "counts_ok A' (r # L) S"
    using same by (simp add: counts_ok_def same_blocks_managed [OF same] same_blocks_def)
  then show ?thesis
    using al_invD [OF inv] same blocks chunks same_blocks_rest [OF same]
    by (simp add: al_inv_def same_blocks_managed [OF same] same_blocks_def)
qed

lemma al_inv_less:
  assumes inv: "al_inv A L S" and same: "same_blocks A A'" and l: "l \<in> set L" and b: "b \<in> set (managed A)" "in_block b l"
    and mem: "lastUsed (ram A') = lastUsed (ram A)" "chunkSize (ram A') = chunkSize (ram A)"
    and chunks: "chunks_ok (ram A) (managed A) (myState A' # S) (remove1 l L)"
    and refs: "blockRefs (ram A') = (blockRefs (ram A))(b_start b := blockRefs (ram A) (b_start b) - 1)"
    and some: "b \<in> set (allInactives A) \<Longrightarrow> 0 < live_in b (remove1 l L) + saved_in b S"
  shows "al_inv A' (remove1 l L) S"
proof -
  have start: "b_start c = b_start b \<longleftrightarrow> c = b" if "c \<in> set (managed A)" for c
    using block_start_inj [OF al_invD(1) [OF inv] that b(1)] by auto
  have inb: "in_block c l \<longleftrightarrow> c = b" if "c \<in> set (managed A)" for c
    using block_unique [OF al_invD(1) [OF inv] that b(1)] b(2) by auto
  have live: "live_in c L = (if c = b then 1 else 0) + live_in c (remove1 l L)" if "c \<in> set (managed A)" for c
    using live_in_remove1 [OF l, of c] inb [OF that] by simp
  have count: "blockRefs (ram A) (b_start c) = live_in c L + saved_in c S" if "c \<in> set (managed A)" for c
    using al_invD(4) [OF inv] that by (simp add: counts_ok_def)
  have "blockRefs (ram A') (b_start c) = live_in c (remove1 l L) + saved_in c S" if "c \<in> set (managed A)" for c
    using count [OF that] start [OF that] live [OF that] by (cases "c = b") (simp_all add: refs)
  moreover have "0 < live_in c (remove1 l L) + saved_in c S" if "c \<in> set (allInactives A)" for c
  proof (cases "c = b")
    case True
    then show ?thesis using some that by simp
  next
    case False
    then show ?thesis using al_invD(4) [OF inv] that live [of c] by (auto simp: counts_ok_def managed_def)
  qed
  ultimately have "counts_ok A' (remove1 l L) S"
    using same by (simp add: counts_ok_def same_blocks_managed [OF same] same_blocks_def)
  then show ?thesis
    using al_invD [OF inv] same chunks same_blocks_rest [OF same] ram_cong [OF mem]
    by (simp add: al_inv_def same_blocks_managed [OF same] same_blocks_def)
qed

section \<open>Taking a free chunk\<close>

lemma free_chunk:
  assumes "al_inv A L S" and "k < 32" and "c \<in> set (a_chunks (myState A) ! k)"
  shows "chunk_in (ram A) (activeRAM (myState A)) c" and "top_bit (chunkSize (ram A) c) = k"
    and "length (a_chunks (myState A)) = 32"
  using al_invD(3) [OF assms(1)] assms(2,3) by (auto simp: chunks_ok_def free_ok_def)

lemma free_ok_update:
  assumes "free_ok m st" and "\<And>c. c \<in> set ys \<Longrightarrow> chunk_in m (activeRAM st) c \<and> top_bit (chunkSize m c) = k"
  shows "free_ok m (st\<lparr>a_chunks := (a_chunks st)[k := ys]\<rparr>)"
proof -
  have "chunk_in m (activeRAM st) c \<and> top_bit (chunkSize m c) = i"
    if "i < 32" "c \<in> set ((a_chunks st)[k := ys] ! i)" for i c
    using assms that by (cases "i = k") (auto simp: free_ok_def)
  then show ?thesis using assms(1) by (simp add: free_ok_def)
qed

lemma reuse_ok:
  assumes inv: "al_inv A L S" and room: "al_room L S" and k: "k < 32" "j < length (a_chunks (myState A) ! k)"
  defines "c \<equiv> a_chunks (myState A) ! k ! j"
    and "st' \<equiv> (myState A)\<lparr>a_chunks := (a_chunks (myState A))[k := vec_erase j (a_chunks (myState A) ! k)]\<rparr>"
  shows "al_inv (upd_ram (inc_refs (activeRAM (myState A))) (A\<lparr>myState := st'\<rparr>)) ((c + 4) # L) S"
proof -
  let ?st = "myState A" and ?cs = "a_chunks (myState A) ! k"
  let ?A = "upd_ram (inc_refs (activeRAM ?st)) (A\<lparr>myState := st'\<rparr>)"
  have c: "c \<in> set ?cs" using k by (simp add: c_def)
  note free = free_chunk [OF inv k(1) c]
  note ch = al_invD(3) [OF inv]
  have sub: "set (vec_erase j ?cs) \<subseteq> set ?cs" by (auto simp: vec_erase_def dest: in_set_takeD in_set_dropD)
  have "mset (concat ((a_chunks ?st)[k := vec_erase j ?cs])) + mset ?cs = mset (st_chunks ?st) + mset (vec_erase j ?cs)"
    using free(3) k(1) by (simp add: mset_concat_update st_chunks_def)
  then have "add_mset c (mset (st_chunks st')) = mset (st_chunks ?st)"
    using mset_vec_erase [OF k(2)]
    by (simp add: st'_def st_chunks_def c_def)
       (metis add_right_cancel union_mset_add_mset_left union_mset_add_mset_right)
  then have perm: "mset (chunk_list (st' # S) ((c + 4) # L)) = mset (chunk_list (?st # S) L)"
    by (simp add: chunk_list_def)
  have "free_ok (ram A) st'"
    unfolding st'_def using ch sub free_chunk [OF inv k(1)] by (intro free_ok_update) (auto simp: chunks_ok_def)
  moreover have "live_ok (ram A) (managed A) (c + 4)"
    using free(1) by (auto simp: live_ok_def intro!: bexI [of _ "active_block ?st"])
  ultimately have "chunks_ok (ram A) (managed A) (st' # S) ((c + 4) # L)"
    using ch by (intro chunks_ok_sub [OF ch]) (auto simp: perm chunks_ok_def)
  moreover have "in_block (active_block ?st) (c + 4)"
    using chunk_inside(3) [OF al_invD(1) [OF inv] active_managed] free(1) by simp
  ultimately show ?thesis
    using al_invD(1) [OF inv] refs_room [OF al_invD(4) [OF inv] room active_managed]
    by (intro al_inv_more [OF inv])
       (auto simp: same_blocks_def st'_def active_block_def inc_refs_count ram_cong [of "inc_refs (activeRAM ?st) (ram A)" "ram A"])
qed

section \<open>Carving a new chunk\<close>

lemma chunk_in_mono:
  "chunk_in m s d \<Longrightarrow> chunkSize m' d = chunkSize m d \<Longrightarrow> lastUsed m s \<le> lastUsed m' s \<Longrightarrow> chunk_in m' s d"
  by (auto simp: chunk_in_def)

lemma carve_ok:
  assumes inv: "al_inv A L S" and room: "al_room L S" and need: "8 \<le> need" "need < 2 ^ 32" "4 dvd need"
    and fits: "lastUsed (ram A) (activeRAM (myState A)) + need \<le> a_numBytes (myState A)"
  defines "c \<equiv> activeRAM (myState A) + lastUsed (ram A) (activeRAM (myState A))"
  shows "\<exists>A'. carve need A = Inr (c + 4, A') \<and> al_inv A' ((c + 4) # L) S \<and> same_blocks A A' \<and>
    chunkSize (ram A') c = need \<and> (\<forall>d \<in> set (chunk_list (myState A # S) L). chunkSize (ram A') d = chunkSize (ram A) d) \<and>
    c \<notin> set (chunk_list (myState A # S) L) \<and>
    (\<forall>s. s \<noteq> activeRAM (myState A) \<longrightarrow> lastUsed (ram A') s = lastUsed (ram A) s)"
proof -
  let ?st = "myState A" and ?s = "activeRAM (myState A)" and ?m = "ram A"
  let ?K = "chunk_list (myState A # S) L"
  define used where "used = lastUsed ?m ?s"
  define m' where "m' = inc_refs ?s (?m\<lparr>lastUsed := (lastUsed ?m)(?s := used + need), chunkSize := (chunkSize ?m)(c := need)\<rparr>)"
  define A' where "A' = upd_ram (\<lambda>_. m') A"
  note bl = al_invD(1) [OF inv] and ch = al_invD(3) [OF inv]
  have act: "block_ok ?m (active_block ?st)" by (rule blocks_okD(1) [OF bl active_managed])
  then have "used + need < 2 ^ 64" using need(2) by (simp add: block_ok_def used_def)
  then have run: "carve need A = Inr (c + 4, A')"
    using fits by (simp add: carve_def Let_def used_def c_def A'_def m'_def upd_ram_def CHUNK_HEADER_SIZE_def)
  have home: "\<exists>b \<in> set (managed A). chunk_in ?m (b_start b) d" if "d \<in> set ?K" for d
    by (rule chunk_home [OF ch states_managed [OF al_invD(5) [OF inv]] that])
  have new: "apart_chunks m' d c \<and> d \<noteq> c \<and> chunkSize m' d = chunkSize ?m d" if d: "d \<in> set ?K" for d
  proof -
    obtain b where b: "b \<in> set (managed A)" "chunk_in ?m (b_start b) d" using home [OF d] by blast
    have "d + chunkSize ?m d \<le> c \<or> c + need \<le> d"
    proof (cases "b = active_block ?st")
      case True
      then show ?thesis using b(2) by (simp add: chunk_in_def c_def used_def)
    next
      case False
      then have "apart_blocks b (active_block ?st)" using blocks_okD(3) [OF bl b(1) active_managed] by simp
      then show ?thesis using chunk_inside [OF bl b] fits by (auto simp: apart_blocks_def c_def)
    qed
    then show ?thesis using b(2) need by (auto simp: apart_chunks_def m'_def chunk_in_def)
  qed
  have grow: "lastUsed ?m s \<le> lastUsed m' s" for s by (simp add: m'_def used_def)
  have keep: "chunk_in m' s d" if "d \<in> set ?K" "chunk_in ?m s d" for s d
    using chunk_in_mono [OF that(2)] new [OF that(1)] grow by blast
  have cin: "chunk_in m' ?s c" using need act by (simp add: chunk_in_def m'_def c_def used_def block_ok_def)
  have free: "free_ok m' st" if st: "st \<in> set (?st # S)" for st
  proof -
    have len: "length (a_chunks st) = 32"
      and old: "\<And>i d. i < 32 \<Longrightarrow> d \<in> set (a_chunks st ! i) \<Longrightarrow> chunk_in ?m (activeRAM st) d \<and> top_bit (chunkSize ?m d) = i"
      using ch st by (auto simp: chunks_ok_def free_ok_def)
    have "d \<in> set ?K" if "i < 32" "d \<in> set (a_chunks st ! i)" for i d
      using st that len by (auto simp: chunk_list_def st_chunks_def intro!: bexI [of _ "a_chunks st ! i"])
    then show ?thesis using len old keep new by (simp add: free_ok_def)
  qed
  have live: "live_ok m' (managed A) l" if l: "l \<in> set L" for l
  proof -
    have "l - 4 \<in> set ?K" using l by (simp add: chunk_list_def)
    moreover have "live_ok ?m (managed A) l" using ch l by (simp add: chunks_ok_def)
    ultimately show ?thesis using keep by (auto simp: live_ok_def)
  qed
  have "live_ok m' (managed A) (c + 4)" using cin by (auto simp: live_ok_def intro!: bexI [of _ "active_block ?st"])
  moreover have "chunk_list (?st # S) ((c + 4) # L) = c # ?K" by (simp add: chunk_list_def)
  moreover have "pairwise (apart_chunks m') (insert c (set ?K))"
  proof -
    have "apart_chunks m' d e" if "d \<in> set ?K" "e \<in> set ?K" "d \<noteq> e" for d e
      using ch new [OF that(1)] new [OF that(2)] that by (auto simp: chunks_ok_def pairwise_def apart_chunks_def)
    moreover have "apart_chunks m' c d" if "d \<in> set ?K" for d
      using new [OF that] by (auto simp: apart_chunks_def)
    ultimately show ?thesis using new by (auto simp: pairwise_def)
  qed
  ultimately have "chunks_ok m' (managed A) (?st # S) ((c + 4) # L)"
    using ch free live new by (auto simp: chunks_ok_def)
  moreover have "blocks_ok m' (managed A)"
  proof -
    have "block_ok m' b" if "b \<in> set (managed A)" for b
    proof (cases "b = active_block ?st")
      case True
      then show ?thesis using act need fits by (simp add: block_ok_def m'_def used_def)
    next
      case False
      then have "b_start b \<noteq> ?s" using block_start_inj [OF bl that active_managed] by auto
      then show ?thesis using blocks_okD(1) [OF bl that] by (simp add: block_ok_def m'_def)
    qed
    then show ?thesis using bl by (simp add: blocks_ok_def)
  qed
  moreover have "in_block (active_block ?st) (c + 4)" using act need fits by (simp add: in_block_def c_def)
  moreover have "same_blocks A A'" by (simp add: same_blocks_def A'_def m'_def)
  moreover have "blockRefs m' = (blockRefs ?m)(?s := blockRefs ?m ?s + 1)"
    using refs_room [OF al_invD(4) [OF inv] room active_managed] by (simp add: m'_def inc_refs_def)
  ultimately have "al_inv A' ((c + 4) # L) S" by (intro al_inv_more [OF inv]) (simp_all add: A'_def)
  moreover have "c \<notin> set ?K" "\<forall>d \<in> set ?K. chunkSize m' d = chunkSize ?m d" using new by blast+
  ultimately show ?thesis using run \<open>same_blocks A A'\<close> by (auto simp: A'_def m'_def)
qed

lemma carve_full:
  assumes inv: "al_inv A L S" and "need < 2 ^ 32"
    and "a_numBytes (myState A) < lastUsed (ram A) (activeRAM (myState A)) + need"
  shows "carve need A = (if throwException (myState A) then Inl (Throw ''NotEnoughSpace'') else Inr (0, A))"
proof -
  have "block_ok (ram A) (active_block (myState A))" by (rule blocks_okD(1) [OF al_invD(1) [OF inv] active_managed])
  then have "lastUsed (ram A) (activeRAM (myState A)) + need < 2 ^ 64" using assms(2) by (simp add: block_ok_def)
  then show ?thesis using assms(3) by (simp add: carve_def Let_def)
qed

section \<open>Requests\<close>

definition got :: "nat \<Rightarrow> allocator \<Rightarrow> nat list \<Rightarrow> AllocatorState list \<Rightarrow> (nat \<times> allocator) result \<Rightarrow> bool" where
  "got h A L S res \<longleftrightarrow>
     (case res of
        Inl e \<Rightarrow> e = Throw ''NotEnoughSpace'' \<and> throwException (myState A)
      | Inr (r, A') \<Rightarrow>
          if r = 0 then A' = A \<and> \<not> throwException (myState A)
          else al_inv A' (r # L) S \<and> same_blocks A A' \<and> al_contains r A \<and> h + 4 \<le> chunkSize (ram A') (r - 4) \<and>
             (\<forall>d \<in> set (chunk_list (myState A # S) L). chunkSize (ram A') d = chunkSize (ram A) d) \<and>
             (\<forall>s. s \<noteq> activeRAM (myState A) \<longrightarrow> lastUsed (ram A') s = lastUsed (ram A) s))"

definition chunks_full :: "nat \<Rightarrow> allocator \<Rightarrow> bool" where
  "chunks_full need A \<longleftrightarrow> (\<forall>c \<in> set (st_chunks (myState A)). chunkSize (ram A) c < need)"

definition tail_full :: "nat \<Rightarrow> allocator \<Rightarrow> bool" where
  "tail_full need A \<longleftrightarrow> a_numBytes (myState A) < lastUsed (ram A) (activeRAM (myState A)) + need"

lemma contains_active: "al_contains x A \<longleftrightarrow> in_block (active_block (myState A)) x"
  by (simp add: al_contains_def in_block_def)

lemma carve_got:
  assumes inv: "al_inv A L S" and room: "al_room L S" and h: "request_ok h"
  shows "got h A L S (carve (bytesNeeded h) A) \<and>
    (tail_full (bytesNeeded h) A \<longleftrightarrow> (\<nexists>r A'. carve (bytesNeeded h) A = Inr (r, A') \<and> r \<noteq> 0))"
proof (cases "tail_full (bytesNeeded h) A")
  case True
  note full = carve_full [OF inv bytesNeeded_eq(5) [OF h], unfolded atomize_imp, rule_format]
  show ?thesis using True full by (auto simp: tail_full_def got_def)
next
  case False
  let ?c = "activeRAM (myState A) + lastUsed (ram A) (activeRAM (myState A))"
  from False obtain A' where A': "carve (bytesNeeded h) A = Inr (?c + 4, A')" "al_inv A' ((?c + 4) # L) S"
    "same_blocks A A'" "chunkSize (ram A') ?c = bytesNeeded h"
    "\<forall>d \<in> set (chunk_list (myState A # S) L). chunkSize (ram A') d = chunkSize (ram A) d"
    "\<forall>s. s \<noteq> activeRAM (myState A) \<longrightarrow> lastUsed (ram A') s = lastUsed (ram A) s"
    using carve_ok [OF inv room bytesNeeded_eq(4,5,3) [OF h]] by (auto simp: tail_full_def)
  have blk: "block_ok (ram A) (active_block (myState A))" by (rule blocks_okD(1) [OF al_invD(1) [OF inv] active_managed])
  then have "al_contains (?c + 4) A"
    using False bytesNeeded_eq(4) [OF h] by (simp add: al_contains_def tail_full_def)
  then show ?thesis using A' False bytesNeeded_eq(1) [OF h] by (auto simp: got_def)
qed

lemma fastGetRAM_got: "al_inv A L S \<Longrightarrow> al_room L S \<Longrightarrow> request_ok h \<Longrightarrow> got h A L S (fastGetRAM h A)"
  using carve_got by (simp add: fastGetRAM_def)

text \<open>
  The default policy finds a free chunk whenever one is large enough, although it looks only at the classes
  from that of the request on: a chunk in a lower class is too small.
\<close>

lemma defaultGetRAM_got:
  assumes inv: "al_inv A L S" and room: "al_room L S" and h: "request_ok h"
  shows "got h A L S (defaultGetRAM h A) \<and>
    ((\<nexists>r A'. defaultGetRAM h A = Inr (r, A') \<and> r \<noteq> 0) \<longleftrightarrow> chunks_full (bytesNeeded h) A \<and> tail_full (bytesNeeded h) A)"
proof -
  let ?need = "bytesNeeded h" and ?st = "myState A" and ?sz = "chunkSize (ram A)"
  note need = bytesNeeded_eq [OF h]
  have cls: "chunk_class ?need = Inr (top_bit ?need)" using need(4) by (simp add: chunk_class_def)
  have len: "length (a_chunks ?st) = 32" and fr: "free_ok (ram A) ?st"
    using al_invD(3) [OF inv] by (auto simp: chunks_ok_def free_ok_def)
  from find_chunk_result [OF len, of ?sz ?need "top_bit ?need"]
  consider (found) k j where "find_chunk ?sz ?need (a_chunks ?st) (top_bit ?need) = Inr (Some (k, j))" "k < 32"
      "j < length (a_chunks ?st ! k)" "?need \<le> ?sz (a_chunks ?st ! k ! j)"
    | (none) "find_chunk ?sz ?need (a_chunks ?st) (top_bit ?need) = Inr None"
      "\<And>k c. top_bit ?need \<le> k \<Longrightarrow> k < 32 \<Longrightarrow> c \<in> set (a_chunks ?st ! k) \<Longrightarrow> ?sz c < ?need"
    by blast
  then show ?thesis
  proof cases
    case found
    let ?c = "a_chunks ?st ! k ! j"
    define st' where "st' = ?st\<lparr>a_chunks := (a_chunks ?st)[k := vec_erase j (a_chunks ?st ! k)]\<rparr>"
    define A' where "A' = upd_ram (inc_refs (activeRAM ?st)) (A\<lparr>myState := st'\<rparr>)"
    have run: "defaultGetRAM h A = Inr (?c + 4, A')"
      by (simp add: defaultGetRAM_def cls found(1) Let_def CHUNK_HEADER_SIZE_def A'_def st'_def)
    have inv': "al_inv A' ((?c + 4) # L) S" unfolding A'_def st'_def by (rule reuse_ok [OF inv room found(2,3)])
    have mem: "?c \<in> set (st_chunks ?st)" using found(2,3) len by (auto simp: st_chunks_def intro!: bexI [of _ "a_chunks ?st ! k"])
    have "chunk_in (ram A) (activeRAM ?st) ?c" using free_chunk(1) [OF inv found(2)] found(3) by simp
    then have "al_contains (?c + 4) A"
      using chunk_inside(3) [OF al_invD(1) [OF inv] active_managed] by (simp add: contains_active)
    moreover have "same_blocks A A'" by (simp add: same_blocks_def A'_def st'_def active_block_def)
    moreover have "\<not> chunks_full ?need A" using mem found(4) by (meson chunks_full_def leD)
    ultimately show ?thesis using run inv' found(4) need(1) by (auto simp: got_def A'_def)
  next
    case none
    have "?sz c < ?need" if c: "c \<in> set (st_chunks ?st)" for c
    proof -
      obtain k where k: "k < 32" "c \<in> set (a_chunks ?st ! k)"
        using c in_st_chunks [OF len] by blast
      then have "top_bit (?sz c) = k" using free_chunk(2) [OF inv] by blast
      then show ?thesis using none(2) [of k c] k top_bit_mono [of ?need "?sz c"] by force
    qed
    then have "chunks_full ?need A" by (simp add: chunks_full_def)
    moreover have "defaultGetRAM h A = carve ?need A" by (simp add: defaultGetRAM_def cls none(1) Let_def)
    ultimately show ?thesis using carve_got [OF inv room h] by simp
  qed
qed

section \<open>Freeing\<close>

lemma mset_map_remove1: "l \<in> set L \<Longrightarrow> add_mset (f l) (mset (map f (remove1 l L))) = mset (map f L)"
  by (induction L) auto

lemma free_active_ok:
  assumes inv: "al_inv A L S" and room: "al_room L S" and l: "l \<in> set L" and act: "al_contains l A"
  shows "\<exists>A'. defaultFreeRAM True l A = Inr A' \<and> al_inv A' (remove1 l L) S \<and> same_blocks A A' \<and>
    lastUsed (ram A') = lastUsed (ram A) \<and> chunkSize (ram A') = chunkSize (ram A) \<and>
    l - 4 \<in> set (st_chunks (myState A'))"
proof -
  let ?st = "myState A" and ?m = "ram A" and ?c = "l - 4"
  define i where "i = top_bit (chunkSize ?m ?c)"
  define st' where "st' = ?st\<lparr>a_chunks := (a_chunks ?st)[i := a_chunks ?st ! i @ [?c]]\<rparr>"
  define A' where "A' = upd_ram (dec_refs (activeRAM ?st)) (A\<lparr>myState := st'\<rparr>)"
  note bl = al_invD(1) [OF inv] and ch = al_invD(3) [OF inv] and cnt = al_invD(4) [OF inv]
  have "live_ok ?m (managed A) l" using ch l by (simp add: chunks_ok_def)
  then have cin: "chunk_in ?m (activeRAM ?st) ?c"
    using live_block [OF bl] act active_managed by (metis active_block_sel(1) contains_active)
  then have sz: "0 < chunkSize ?m ?c" "chunkSize ?m ?c < 2 ^ 32" by (auto simp: chunk_in_def)
  have fr: "free_ok ?m ?st" and len: "length (a_chunks ?st) = 32" using ch by (auto simp: chunks_ok_def free_ok_def)
  have i: "i < 32" using top_bit_less_32 sz(2) by (simp add: i_def)
  have run: "defaultFreeRAM True l A = Inr A'"
    using sz i len by (simp add: defaultFreeRAM_def Let_def CHUNK_HEADER_SIZE_def chunk_class_def vec_at_def
      A'_def st'_def i_def [symmetric])
  have "mset (st_chunks st') = add_mset ?c (mset (st_chunks ?st))"
    using mset_concat_update [of i "a_chunks ?st" "a_chunks ?st ! i @ [?c]"] i len by (simp add: st'_def st_chunks_def)
  then have perm: "mset (chunk_list (st' # S) (remove1 l L)) = mset (chunk_list (?st # S) L)"
    using mset_map_remove1 [OF l, of "\<lambda>l. l - 4"] by (simp add: chunk_list_def)
  have "free_ok ?m st'"
    unfolding st'_def using fr cin i by (intro free_ok_update) (auto simp: free_ok_def i_def)
  then have chunks: "chunks_ok ?m (managed A) (st' # S) (remove1 l L)"
    using ch by (intro chunks_ok_sub [OF ch]) (auto simp: perm chunks_ok_def dest: notin_set_remove1)
  have "0 < live_in (active_block ?st) L"
    using live_in_remove1 [OF l, of "active_block ?st"] act by (simp add: contains_active)
  then have refs: "0 < blockRefs ?m (activeRAM ?st)" "blockRefs ?m (activeRAM ?st) < 2 ^ 32"
    using cnt refs_room [OF cnt room active_managed] by (auto simp: counts_ok_def managed_def)
  have notin: "active_block ?st \<notin> set (allInactives A)" using bl by (auto simp: blocks_ok_def managed_def)
  have same: "same_blocks A A'" by (simp add: same_blocks_def A'_def st'_def active_block_def)
  have "al_inv A' (remove1 l L) S"
    by (rule al_inv_less [OF inv same l active_managed])
       (use act chunks notin dec_refs_count [OF refs] in \<open>simp_all add: contains_active A'_def\<close>)
  moreover have "?c \<in> set (st_chunks st')" using i len by (simp add: st'_def st_chunks_def) (metis in_set_conv_decomp length_list_update nth_list_update_eq nth_mem)
  ultimately show ?thesis using run same by (auto simp: A'_def)
qed

lemma vec_erase_remove1: "distinct xs \<Longrightarrow> i < length xs \<Longrightarrow> vec_erase i xs = remove1 (xs ! i) xs"
proof -
  assume "distinct xs" and i: "i < length xs"
  moreover have xs: "xs = take i xs @ xs ! i # drop (Suc i) xs" using i by (rule id_take_nth_drop)
  ultimately have "xs ! i \<notin> set (take i xs)" by (metis distinct_append distinct.simps(2) disjoint_insert(2) list.simps(15))
  then show ?thesis by (subst (3) xs) (simp add: vec_erase_def remove1_append)
qed

lemma chunk_list_sub: "mset L' \<subseteq># mset L \<Longrightarrow> mset (chunk_list sts L') \<subseteq># mset (chunk_list sts L)"
  using image_mset_subseteq_mono [of "mset L'" "mset L" "\<lambda>l. l - 4"] by (simp add: chunk_list_def)

text \<open>Removing a block that holds no object and that nobody will restore.\<close>

lemma live_in_zero: "live_in b L = 0 \<longleftrightarrow> (\<forall>l \<in> set L. \<not> in_block b l)"
  by (simp add: live_in_def filter_empty_conv)

lemma saved_in_zero: "saved_in b S = 0 \<longleftrightarrow> b_start b \<notin> activeRAM ` set S"
  by (auto simp: saved_in_def filter_empty_conv image_iff)

lemma live_ok_other:
  assumes "blocks_ok m bs" and "live_ok m bs l" and "\<not> in_block b l" and "set bs - {b} \<subseteq> set bs'"
  shows "live_ok m bs' l"
  using live_block [OF assms(1,2)] assms by (metis DiffI live_ok_def singletonD subset_eq)

lemma blocks_ok_subset: "blocks_ok m bs \<Longrightarrow> distinct bs' \<Longrightarrow> set bs' \<subseteq> set bs \<Longrightarrow> blocks_ok m bs'"
  by (auto simp: blocks_ok_def intro: pairwise_subset)

lemma owned_region:
  assumes inv: "al_inv A L S" and b: "b \<in> set (managed A)" and "b_start b \<notin> user_starts (myState A # S)"
  shows "region b \<in> set (mallocs (ram A))" and "b_start b \<in> fst ` set (mallocs (ram A))"
proof -
  show r: "region b \<in> set (mallocs (ram A))" using al_invD(6) [OF inv] assms(2,3) by (auto simp: owned_ok_def)
  have "fst (region b) \<in> fst ` set (mallocs (ram A))" using r by (rule imageI)
  then show "b_start b \<in> fst ` set (mallocs (ram A))" by (simp add: region_def)
qed

lemma mallocs_without:
  assumes inv: "al_inv A L S" and b: "b \<in> set (managed A)"
  shows "set (filter (\<lambda>e. fst e \<noteq> b_start b) (mallocs (ram A))) =
    region ` {c \<in> set (managed A) - {b}. b_start c \<notin> user_starts (myState A # S)}"
proof -
  have "b_start c \<noteq> b_start b \<longleftrightarrow> c \<noteq> b" if "c \<in> set (managed A)" for c
    using block_start_inj [OF al_invD(1) [OF inv] that b] by auto
  then show ?thesis using al_invD(6) [OF inv] by (auto simp: owned_ok_def region_def)
qed

lemma distinct_map_filter_fst: "distinct (map fst xs) \<Longrightarrow> distinct (map fst (filter P xs))"
  by (induction xs) auto

lemma al_inv_drop:
  assumes inv: "al_inv A L S" and b: "b \<in> set (allInactives A)" and L': "mset L' \<subseteq># mset L"
    and none: "live_in b L' = 0" "saved_in b S = 0"
    and others: "\<And>c. c \<in> set (managed A) \<Longrightarrow> c \<noteq> b \<Longrightarrow> live_in c L' = live_in c L"
    and A': "myState A' = myState A" "allInactives A' = remove1 b (allInactives A)"
    and mem: "lastUsed (ram A') = lastUsed (ram A)" "chunkSize (ram A') = chunkSize (ram A)"
    and refs: "\<And>s. s \<noteq> b_start b \<Longrightarrow> blockRefs (ram A') s = blockRefs (ram A) s"
    and mallocs: "mallocs (ram A') = filter (\<lambda>e. fst e \<noteq> b_start b) (mallocs (ram A))"
  shows "al_inv A' L' S"
proof -
  note bl = al_invD(1) [OF inv] and ch = al_invD(3) [OF inv] and cnt = al_invD(4) [OF inv]
  have d: "distinct (allInactives A)" and act: "active_block (myState A) \<noteq> b"
    using bl b by (auto simp: blocks_ok_def managed_def)
  have man: "managed A' = active_block (myState A) # remove1 b (allInactives A)" by (simp add: managed_def A')
  have set_man: "set (managed A') = set (managed A) - {b}" 
    unfolding man using d act by (auto simp: managed_def)
  have start: "b_start c \<noteq> b_start b" if "c \<in> set (managed A) - {b}" for c
    using block_start_inj [OF bl, of c b] that b by (auto simp: managed_def)
  have bl': "blocks_ok (ram A) (managed A')"
    unfolding man using d bl
    by (intro blocks_ok_subset [OF bl]) (auto simp: blocks_ok_def managed_def dest: notin_set_remove1)
  have chunks: "chunks_ok (ram A) (managed A') (myState A # S) L'"
  proof (rule chunks_ok_sub [OF ch])
    show "mset (chunk_list (myState A # S) L') \<subseteq># mset (chunk_list (myState A # S) L)"
      by (rule chunk_list_sub [OF L'])
    show "free_ok (ram A) st" if "st \<in> set (myState A # S)" for st using ch that by (auto simp: chunks_ok_def)
    show "live_ok (ram A) (managed A') l" if l: "l \<in> set L'" for l
    proof (rule live_ok_other [OF bl])
      have "l \<in> set L" using mset_subset_eqD [OF L', of l] l by simp
      then show "live_ok (ram A) (managed A) l" using ch by (simp add: chunks_ok_def)
      show "\<not> in_block b l" using none(1) l by (simp add: live_in_zero)
      show "set (managed A) - {b} \<subseteq> set (managed A')" by (simp add: set_man)
    qed
  qed
  have "activeRAM (myState A) \<noteq> b_start b" using start [of "active_block (myState A)"] act by simp
  then have counts: "counts_ok A' L' S"
    using cnt others start act d
    by (auto simp: counts_ok_def set_man A' refs managed_def)
  have "active_block st \<noteq> b" if "st \<in> set S" for st
    using none(2) that by (metis active_block_sel(1) image_eqI saved_in_zero)
  then have saved: "saved_ok A' S" using al_invD(5) [OF inv] d by (auto simp: saved_ok_def A')
  have "owned_ok A' S"
    using al_invD(6) [OF inv] mallocs_without [OF inv, of b] b
    by (simp add: owned_ok_def mallocs set_man A' distinct_map_filter_fst) (simp add: managed_def)
  then show ?thesis
    using al_invD [OF inv] bl' chunks counts saved ram_cong [OF mem]
    by (simp add: al_inv_def A' sorted_map_remove1)
qed

lemma free_inactive_ok:
  assumes inv: "al_inv A L S" and room: "al_room L S" and l: "l \<in> set L" and out: "\<not> al_contains l A"
  obtains b A' where "defaultFreeRAM False l A = Inr A'" and "al_inv A' (remove1 l L) S" and "b \<in> set (allInactives A)"
    and "in_block b l" and "myState A' = myState A" and "myPolicies A' = myPolicies A"
    and "lastUsed (ram A') = lastUsed (ram A)" and "chunkSize (ram A') = chunkSize (ram A)"
    and "allInactives A' = (if live_in b L + saved_in b S = 1 then remove1 b (allInactives A) else allInactives A)"
    and "mallocs (ram A') = (if live_in b L + saved_in b S = 1 then filter (\<lambda>e. fst e \<noteq> b_start b) (mallocs (ram A))
           else mallocs (ram A))"
proof -
  note bl = al_invD(1) [OF inv] and ch = al_invD(3) [OF inv] and cnt = al_invD(4) [OF inv]
  have "live_ok (ram A) (managed A) l" using ch l by (simp add: chunks_ok_def)
  then obtain b where b: "b \<in> set (managed A)" "in_block b l" "b_start b + 24 \<le> l" "l < b_end b"
    and uniq: "\<And>c. c \<in> set (managed A) \<Longrightarrow> in_block c l \<longleftrightarrow> c = b"
    by (rule live_block [OF bl]) blast
  have ina: "b \<in> set (allInactives A)" using b out by (auto simp: contains_active managed_def)
  have pw: "pairwise apart_blocks (set (allInactives A))" and d: "distinct (allInactives A)"
    using bl by (auto simp: blocks_ok_def managed_def intro: pairwise_subset)
  obtain i where i: "find_inactive l (allInactives A) = Inr (Some i)" "i < length (allInactives A)" "allInactives A ! i = b"
    using find_inactive_found [OF al_invD(2) [OF inv] pw _ ina, of l] b blocks_okD(2) [OF bl]
    by (auto simp: managed_def)
  let ?s = "b_start b"
  define A1 where "A1 = upd_ram (dec_refs ?s) A"
  have lv: "live_in b L = Suc (live_in b (remove1 l L))" using live_in_remove1 [OF l, of b] b(2) by simp
  have cb: "blockRefs (ram A) ?s = live_in b L + saved_in b S" using cnt b(1) by (simp add: counts_ok_def)
  have refs: "0 < blockRefs (ram A) ?s" "blockRefs (ram A) ?s < 2 ^ 32"
    using cb lv refs_room [OF cnt room b(1)] by auto
  have A1: "blockRefs (ram A1) = (blockRefs (ram A))(?s := blockRefs (ram A) ?s - 1)"
    using dec_refs_count [OF refs] by (simp add: A1_def)
  have zero: "blockRefs (ram A1) ?s = 0 \<longleftrightarrow> live_in b L + saved_in b S = 1" using A1 cb lv by auto
  have same: "same_blocks A A1" by (simp add: same_blocks_def A1_def)
  show thesis
  proof (cases "live_in b L + saved_in b S = 1")
    case False
    have "chunks_ok (ram A) (managed A) (myState A # S) (remove1 l L)"
      using ch by (intro chunks_ok_sub [OF ch] chunk_list_sub) (auto simp: chunks_ok_def dest: notin_set_remove1)
    then have "al_inv A1 (remove1 l L) S"
      using False lv A1 by (intro al_inv_less [OF inv same l b(1,2)]) (auto simp: A1_def)
    then show thesis
      using False zero i ina b(2)
      by (intro that [of A1 b]) (auto simp: defaultFreeRAM_def Let_def A1_def)
  next
    case True
    have z: "live_in b (remove1 l L) = 0" "saved_in b S = 0" using True lv by auto
    have act: "?s \<noteq> activeRAM (myState A)"
      using block_start_inj [OF bl b(1) active_managed] ina bl by (auto simp: blocks_ok_def managed_def)
    have nu: "?s \<notin> user_starts (myState A # S)"
      using act z(2) by (auto simp: user_starts_def saved_in_zero)
    have pos: "?s \<noteq> 0" using blocks_okD(1) [OF bl b(1)] by (simp add: block_ok_def)
    define A2 where "A2 = (upd_ram (\<lambda>m. m\<lparr>mallocs := filter (\<lambda>e. fst e \<noteq> ?s) (mallocs m)\<rparr>) A1)
       \<lparr>allInactives := remove1 b (allInactives A)\<rparr>"
    have run: "defaultFreeRAM False l A = Inr A2"
      using zero True i owned_region(2) [OF inv b(1) nu] pos vec_erase_remove1 [OF d i(2)]
      by (simp add: defaultFreeRAM_def Let_def A1_def [symmetric] freeAt_def A2_def)
         (simp add: A1_def)
    have sub: "mset (remove1 l L) \<subseteq># mset L" by simp
    have "live_in c (remove1 l L) = live_in c L" if "c \<in> set (managed A)" "c \<noteq> b" for c
      using live_in_remove1 [OF l, of c] uniq [OF that(1)] that(2) by simp
    then have "al_inv A2 (remove1 l L) S"
      using A1 by (intro al_inv_drop [OF inv ina sub z]) (auto simp: A2_def A1_def)
    then show thesis
      using True run ina b(2) by (intro that [of A2 b]) (auto simp: A2_def A1_def)
  qed
qed

end
