(* ===== verification/AllocatorBlocks.thy ===== *)
theory AllocatorBlocks
  imports AllocatorInv
begin

text \<open>
  The change of the active block: \<open>setupBlock\<close>, the temporary use of another block and the way back. Between
  giving up one block and taking the next the allocator has no active block; \<open>pk_inv\<close> is the invariant there.
  Retiring or dropping the active block leads from \<open>al_inv\<close> to \<open>pk_inv\<close>, a fresh or a restored block leads back.
\<close>

section \<open>Without an active block\<close>

definition pk_inv :: "ram \<Rightarrow> InactiveAllocationBlock list \<Rightarrow> nat list \<Rightarrow> AllocatorState list \<Rightarrow> bool" where
  "pk_inv m I L S \<longleftrightarrow> blocks_ok m I \<and> sorted (map b_end I) \<and> chunks_ok m I S L \<and>
     (\<forall>b \<in> set I. blockRefs m (b_start b) = live_in b L + saved_in b S \<and> 0 < live_in b L + saved_in b S) \<and>
     distinct (map activeRAM S) \<and> (\<forall>st \<in> set S. active_block st \<in> set I) \<and>
     distinct (map fst (mallocs m)) \<and> set (mallocs m) = region ` {b \<in> set I. b_start b \<notin> user_starts S}"

lemma pk_invD:
  assumes "pk_inv m I L S"
  shows "blocks_ok m I" and "sorted (map b_end I)" and "chunks_ok m I S L"
    and "\<And>b. b \<in> set I \<Longrightarrow> blockRefs m (b_start b) = live_in b L + saved_in b S \<and> 0 < live_in b L + saved_in b S"
    and "distinct (map activeRAM S)" and "\<And>st. st \<in> set S \<Longrightarrow> active_block st \<in> set I"
    and "distinct (map fst (mallocs m))" and "set (mallocs m) = region ` {b \<in> set I. b_start b \<notin> user_starts S}"
  using assms by (auto simp: pk_inv_def)

lemma chunks_ok_blocks:
  assumes "set bs \<subseteq> set bs'" and "chunks_ok m bs sts L"
  shows "chunks_ok m bs' sts L"
proof -
  have "live_ok m bs' l" if "live_ok m bs l" for l using that assms(1) by (auto simp: live_ok_def)
  then show ?thesis using assms(2) by (simp add: chunks_ok_def)
qed

lemma chunks_ok_inactive:
  assumes inv: "al_inv A L S" and sub: "mset L' \<subseteq># mset L" and none: "\<And>l. l \<in> set L' \<Longrightarrow> \<not> in_block (active_block (myState A)) l"
  shows "blocks_ok (ram A) (allInactives A)" and "chunks_ok (ram A) (allInactives A) S L'"
proof -
  note bl = al_invD(1) [OF inv] and ch = al_invD(3) [OF inv]
  show "blocks_ok (ram A) (allInactives A)"
    by (rule blocks_ok_subset [OF bl]) (use bl in \<open>auto simp: blocks_ok_def managed_def\<close>)
  show "chunks_ok (ram A) (allInactives A) S L'"
  proof (rule chunks_ok_sub [OF ch])
    have "mset (chunk_list S L') \<subseteq># mset (chunk_list S L)" by (rule chunk_list_sub [OF sub])
    also have "\<dots> \<subseteq># mset (chunk_list (myState A # S) L)" by (simp add: chunk_list_def)
    finally show "mset (chunk_list S L') \<subseteq># mset (chunk_list (myState A # S) L)" .
    show "free_ok (ram A) st" if "st \<in> set S" for st using ch that by (simp add: chunks_ok_def)
    show "live_ok (ram A) (allInactives A) l" if l: "l \<in> set L'" for l
    proof (rule live_ok_other [OF bl _ none [OF l]])
      have "l \<in> set L" using mset_subset_eqD [OF sub, of l] l by simp
      then show "live_ok (ram A) (managed A) l" using ch by (simp add: chunks_ok_def)
    qed (auto simp: managed_def)
  qed
qed

lemma saved_in_Cons: "saved_in b (st # S) = (if activeRAM st = b_start b then 1 else 0) + saved_in b S"
  by (simp add: saved_in_def)

lemma saved_in_active:
  assumes "al_inv A L S"
  shows "saved_in (active_block (myState A)) S = 0"
proof -
  have "activeRAM st \<noteq> activeRAM (myState A)" if "st \<in> set S" for st
  proof
    assume "activeRAM st = activeRAM (myState A)"
    moreover have st: "active_block st \<in> set (allInactives A)" using al_invD(5) [OF assms] that by (simp add: saved_ok_def)
    ultimately have "active_block st = active_block (myState A)"
      using block_start_inj [OF al_invD(1) [OF assms], of "active_block st" "active_block (myState A)"] by (simp add: managed_def)
    then show False using al_invD(1) [OF assms] st by (simp add: blocks_ok_def managed_def)
  qed
  then show ?thesis by (metis active_block_sel(1) imageE saved_in_zero)
qed

text \<open>The active block joins the inactive ones, saved for later (\<open>myState A # S\<close>) or because it holds objects.\<close>

lemma park_ok:
  assumes inv: "al_inv A L S"
    and S': "S' = myState A # S \<or> S' = S \<and> \<not> curBlockUserSupplied (myState A) \<and> 0 < live_in (active_block (myState A)) L"
    and mem: "lastUsed m' = lastUsed (ram A)" "chunkSize m' = chunkSize (ram A)" "mallocs m' = mallocs (ram A)"
    and refs: "blockRefs m' = (blockRefs (ram A))(activeRAM (myState A) := live_in (active_block (myState A)) L +
       saved_in (active_block (myState A)) S')"
  shows "pk_inv m' (sort_key b_end (allInactives A @ [active_block (myState A)])) L S'"
proof -
  let ?a = "active_block (myState A)" and ?I = "sort_key b_end (allInactives A @ [active_block (myState A)])"
  note bl = al_invD(1) [OF inv] and ch = al_invD(3) [OF inv] and cnt = al_invD(4) [OF inv]
  have I: "set ?I = set (managed A)" by (simp add: managed_def)
  have bl': "blocks_ok (ram A) ?I" using bl by (simp add: blocks_ok_def managed_def)
  have ch': "chunks_ok (ram A) ?I S' L"
  proof (rule chunks_ok_sub [OF ch])
    show "mset (chunk_list S' L) \<subseteq># mset (chunk_list (myState A # S) L)" using S' by (auto simp: chunk_list_def)
    show "free_ok (ram A) st" if "st \<in> set S'" for st using ch S' that by (auto simp: chunks_ok_def)
    show "live_ok (ram A) ?I l" if "l \<in> set L" for l using ch that by (auto simp: chunks_ok_def live_ok_def managed_def)
  qed
  have start: "b_start b = activeRAM (myState A) \<longleftrightarrow> b = ?a" if "b \<in> set (managed A)" for b
    using block_start_inj [OF bl that active_managed] by auto
  have notin: "?a \<notin> set (allInactives A)" using bl by (simp add: blocks_ok_def managed_def)
  have count: "blockRefs m' (b_start b) = live_in b L + saved_in b S' \<and> 0 < live_in b L + saved_in b S'"
    if b: "b \<in> set ?I" for b
  proof (cases "b = ?a")
    case True
    then show ?thesis using S' by (auto simp: refs saved_in_Cons)
  next
    case False
    then have "b \<in> set (allInactives A)" using b by simp
    moreover have "activeRAM (myState A) \<noteq> b_start b" using start [of b] False b I by auto
    ultimately show ?thesis using cnt S' by (auto simp: refs saved_in_Cons counts_ok_def managed_def)
  qed
  have sv: "distinct (map activeRAM S')" "\<forall>st \<in> set S'. active_block st \<in> set ?I"
    using S' al_invD(5) [OF inv] saved_in_active [OF inv] by (auto simp: saved_ok_def saved_in_zero)
  have "user_starts S' = user_starts (myState A # S)" using S' by (auto simp: user_starts_Cons)
  then have own: "set (mallocs m') = region ` {b \<in> set ?I. b_start b \<notin> user_starts S'}"
    using al_invD(6) [OF inv] by (simp add: owned_ok_def mem managed_def)
  show ?thesis
    unfolding pk_inv_def using bl' ch' count sv own al_invD(6) [OF inv] ram_cong [OF mem(1,2)]
    by (simp add: owned_ok_def mem)
qed

text \<open>A block without objects is given back to the system.\<close>

lemma unpark_ok:
  assumes inv: "al_inv A L S" and own: "\<not> curBlockUserSupplied (myState A)"
    and none: "live_in (active_block (myState A)) L = 0"
    and mem: "lastUsed m' = lastUsed (ram A)" "chunkSize m' = chunkSize (ram A)" "blockRefs m' = blockRefs (ram A)"
    and mallocs: "mallocs m' = filter (\<lambda>e. fst e \<noteq> activeRAM (myState A)) (mallocs (ram A))"
  shows "pk_inv m' (allInactives A) L S"
proof -
  let ?a = "active_block (myState A)"
  note bl = al_invD(1) [OF inv] and ch = al_invD(3) [OF inv] and cnt = al_invD(4) [OF inv]
  have notin: "?a \<notin> set (allInactives A)" using bl by (simp add: blocks_ok_def managed_def)
  have sub: "mset L \<subseteq># mset L" by simp
  note ok = chunks_ok_inactive [OF inv sub]
  have nl: "\<not> in_block ?a l" if "l \<in> set L" for l using none that by (simp add: live_in_zero)
  have "set (mallocs m') = region ` {c \<in> set (managed A) - {?a}. b_start c \<notin> user_starts S}"
    using mallocs_without [OF inv active_managed] own by (simp add: mallocs user_starts_Cons)
  moreover have "set (managed A) - {?a} = set (allInactives A)" using notin by (auto simp: managed_def)
  ultimately show ?thesis
    unfolding pk_inv_def using ok(1) [OF nl] ok(2) [OF nl] cnt al_invD(2,5,6) [OF inv] ram_cong [OF mem(1,2)]
    by (auto simp: counts_ok_def managed_def saved_ok_def owned_ok_def mem mallocs distinct_map_filter_fst)
qed

text \<open>A user-supplied block is forgotten, with the objects in it.\<close>

definition kept :: "InactiveAllocationBlock list \<Rightarrow> nat list \<Rightarrow> nat list" where
  "kept I L = filter (\<lambda>l. \<exists>b \<in> set I. in_block b l) L"

lemma live_in_kept: "b \<in> set I \<Longrightarrow> live_in b (kept I L) = live_in b L"
  unfolding live_in_def kept_def filter_filter by (rule arg_cong [where f = length], rule filter_cong) auto

lemma forget_ok:
  assumes inv: "al_inv A L S" and user: "curBlockUserSupplied (myState A)"
  shows "pk_inv (ram A) (allInactives A) (kept (allInactives A) L) S"
proof -
  let ?a = "active_block (myState A)" and ?I = "allInactives A"
  note bl = al_invD(1) [OF inv] and ch = al_invD(3) [OF inv] and cnt = al_invD(4) [OF inv]
  have notin: "?a \<notin> set ?I" using bl by (simp add: blocks_ok_def managed_def)
  have other: "\<not> in_block ?a l" if "l \<in> set (kept ?I L)" for l
    using that block_unique [OF bl active_managed] notin by (force simp: kept_def managed_def)
  have sub: "mset (kept ?I L) \<subseteq># mset L" by (simp add: kept_def multiset_filter_subset)
  note ok = chunks_ok_inactive [OF inv sub other]
  have start: "b_start b \<noteq> activeRAM (myState A)" if "b \<in> set ?I" for b
    using block_start_inj [OF bl, of b ?a] that notin by (auto simp: managed_def)
  have "{b \<in> set (managed A). b_start b \<notin> user_starts (myState A # S)} = {b \<in> set ?I. b_start b \<notin> user_starts S}"
    using start user by (auto simp: managed_def user_starts_Cons)
  then show ?thesis
    unfolding pk_inv_def using ok cnt al_invD(2,5,6) [OF inv]
    by (auto simp: counts_ok_def managed_def saved_ok_def owned_ok_def live_in_kept)
qed

section \<open>The next active block\<close>

definition clear_of :: "nat \<Rightarrow> nat \<Rightarrow> InactiveAllocationBlock list \<Rightarrow> bool" where
  "clear_of p n I \<longleftrightarrow> 0 < p \<and> p + n \<le> 2 ^ 63 \<and> (\<forall>b \<in> set I. apart_blocks \<lparr>b_start = p, b_end = p + n\<rparr> b)"

lemma enter_ok:
  assumes pk: "pk_inv m I L S" and clr: "clear_of p n I" and n: "20 \<le> n"
    and A': "active_block (myState A') = \<lparr>b_start = p, b_end = p + n\<rparr>" "a_chunks (myState A') = replicate 32 []" "allInactives A' = I"
    and mem: "lastUsed (ram A') = (lastUsed m)(p := 20)" "blockRefs (ram A') = (blockRefs m)(p := 0)"
      "chunkSize (ram A') = chunkSize m"
      "mallocs (ram A') = (if curBlockUserSupplied (myState A') then mallocs m else (p, n) # mallocs m)"
  shows "al_inv A' L S"
proof -
  let ?a = "\<lparr>b_start = p, b_end = p + n\<rparr>"
  note D = pk_invD [OF pk]
  have act: "activeRAM (myState A') = p" using A'(1) by (simp add: active_block_def)
  have man: "managed A' = ?a # I" by (simp add: managed_def A')
  have ap: "apart_blocks ?a b" if "b \<in> set I" for b using clr that by (simp add: clear_of_def)
  have ne: "b_start b < b_end b" if "b \<in> set I" for b by (rule blocks_okD(2) [OF D(1) that])
  have start: "b_start b \<noteq> p" if "b \<in> set I" for b using ap [OF that] ne [OF that] n by (auto simp: apart_blocks_def)
  have old: "block_ok (ram A') b" if "b \<in> set I" for b
    using blocks_okD(1) [OF D(1) that] start [OF that] by (simp add: block_ok_def mem)
  have new: "block_ok (ram A') ?a" using clr n by (simp add: block_ok_def mem clear_of_def)
  have notin: "?a \<notin> set I" using start by force
  have "pairwise apart_blocks (insert ?a (set I))"
    using D(1) ap by (auto simp: blocks_ok_def pairwise_insert apart_blocks_def)
  then have bl: "blocks_ok (ram A') (managed A')" using D(1) old new notin by (simp add: man blocks_ok_def)
  have keep: "chunk_in (ram A') (b_start b) c \<longleftrightarrow> chunk_in m (b_start b) c" if "b \<in> set I" for b c
    using start [OF that] by (simp add: chunk_in_def mem)
  have cl: "chunk_list (myState A' # S) L = chunk_list S L" by (simp add: chunk_list_def st_chunks_def A')
  have "free_ok (ram A') (myState A')" by (simp add: free_ok_def A')
  moreover have "free_ok (ram A') st" if "st \<in> set S" for st
    using D(3) keep [OF D(6) [OF that]] that by (auto simp: chunks_ok_def free_ok_def mem)
  moreover have "live_ok (ram A') (managed A') l" if "l \<in> set L" for l
  proof -
    have "live_ok m I l" using D(3) that by (simp add: chunks_ok_def)
    then show ?thesis using keep by (auto simp: live_ok_def man)
  qed
  ultimately have ch: "chunks_ok (ram A') (managed A') (myState A' # S) L"
    using D(3) by (auto simp: chunks_ok_def cl apart_chunks_def [abs_def] mem)
  have "\<not> in_block ?a l" if "l \<in> set L" for l
  proof
    assume a: "in_block ?a l"
    have "live_ok m I l" using D(3) that by (simp add: chunks_ok_def)
    then obtain b where "b \<in> set I" "in_block b l" using live_block [OF D(1)] by metis
    then show False using a ap [of b] by (auto simp: in_block_def apart_blocks_def)
  qed
  then have z: "live_in ?a L = 0" by (simp add: live_in_zero)
  have "p \<notin> activeRAM ` set S" using D(6) start by (metis active_block_sel(1) imageE)
  then have z': "saved_in ?a S = 0" by (simp add: saved_in_zero)
  have cnt: "counts_ok A' L S" using D(4) start z z' by (auto simp: counts_ok_def man mem A')
  have us: "p \<notin> user_starts S" using \<open>p \<notin> activeRAM ` set S\<close> by (auto simp: user_starts_def)
  have eq: "{b \<in> set (managed A'). b_start b \<notin> user_starts (myState A' # S)} =
      (if curBlockUserSupplied (myState A') then {} else {?a}) \<union> {b \<in> set I. b_start b \<notin> user_starts S}"
    using start us by (auto simp: man user_starts_Cons act)
  have "p \<notin> fst ` set (mallocs m)" using start by (fastforce simp: D(8) region_def)
  then have "owned_ok A' S" unfolding owned_ok_def eq using D(7,8) by (auto simp: mem region_def)
  moreover have "saved_ok A' S" using D(5,6) by (simp add: saved_ok_def A')
  ultimately show ?thesis using bl D(2) ch cnt by (simp add: al_inv_def A')
qed

lemma erase_start_remove1:
  assumes "b \<in> set bs" and "\<And>c. c \<in> set bs \<Longrightarrow> b_start c = b_start b \<Longrightarrow> c = b"
  shows "erase_start (b_start b) bs = remove1 b bs"
  using assms by (induction bs) auto

lemma restore_ok:
  assumes pk: "pk_inv m I L (st # S)" and room: "length L + length S + 1 < 2 ^ 32"
    and A': "myState A' = st" "allInactives A' = erase_start (activeRAM st) I" "ram A' = dec_refs (activeRAM st) m"
  shows "al_inv A' L S"
proof -
  let ?b = "active_block st"
  note D = pk_invD [OF pk]
  have b: "?b \<in> set I" using D(6) by simp
  have start: "b_start c = activeRAM st \<longleftrightarrow> c = ?b" if "c \<in> set I" for c
    using block_start_inj [OF D(1) that b] by auto
  have I': "allInactives A' = remove1 ?b I" using erase_start_remove1 [OF b] start A'(2) by simp
  have d: "distinct I" using D(1) by (simp add: blocks_ok_def)
  have man: "set (managed A') = set I" and dman: "distinct (managed A')" using b d by (auto simp: managed_def I' A'(1))
  have mem: "lastUsed (ram A') = lastUsed m" "chunkSize (ram A') = chunkSize m" "mallocs (ram A') = mallocs m"
    by (simp_all add: A'(3))
  have sv: "saved_in ?b S = 0" using D(5) by (simp add: saved_in_zero)
  have c0: "blockRefs m (activeRAM st) = Suc (live_in ?b L)" using D(4) [OF b] sv by (simp add: saved_in_Cons)
  then have refs: "blockRefs (ram A') = (blockRefs m)(activeRAM st := live_in ?b L)"
    using dec_refs_count [of m "activeRAM st"] live_in_length [of ?b L] room by (simp add: A'(3))
  have bl: "blocks_ok m (managed A')" using D(1) man dman by (auto simp: blocks_ok_def)
  have ch: "chunks_ok m (managed A') (st # S) L" using chunks_ok_blocks [OF _ D(3)] man by simp
  have "blockRefs (ram A') (b_start c) = live_in c L + saved_in c S" if "c \<in> set I" for c
    using D(4) [OF that] start [OF that] sv by (auto simp: refs saved_in_Cons)
  moreover have "0 < live_in c L + saved_in c S" if "c \<in> set I - {?b}" for c
    using D(4) [of c] start [of c] that by (auto simp: saved_in_Cons)
  ultimately have cnt: "counts_ok A' L S" using d by (simp add: counts_ok_def man I')
  have "active_block s \<noteq> ?b" if "s \<in> set S" for s
  proof
    assume "active_block s = ?b"
    then have "activeRAM s = activeRAM st" by (simp add: active_block_def)
    then show False using D(5) that by (simp add: rev_image_eqI)
  qed
  then have "saved_ok A' S" using D(5,6) d by (auto simp: saved_ok_def I')
  moreover have "owned_ok A' S" using D(7,8) by (simp add: owned_ok_def mem man A'(1))
  ultimately show ?thesis
    using bl ch cnt D(2) ram_cong [OF mem(1,2)] by (simp add: al_inv_def A'(1) I' sorted_map_remove1)
qed

section \<open>Operations that change the active block\<close>

definition give_up :: "allocator \<Rightarrow> allocator result" where
  "give_up A = (if curBlockUserSupplied (myState A) then Inr A else retire_block A)"

lemma pk_kept: "pk_inv m I L S \<Longrightarrow> kept I L = L"
proof -
  assume pk: "pk_inv m I L S"
  have "\<exists>b \<in> set I. in_block b l" if "l \<in> set L" for l
    using live_block [OF pk_invD(1) [OF pk]] pk_invD(3) [OF pk] that by (metis chunks_ok_def)
  then show "kept I L = L" by (simp add: kept_def)
qed

lemma give_up_ok:
  assumes inv: "al_inv A L S"
  obtains B where "give_up A = Inr B" and "pk_inv (ram B) (allInactives B) (kept (allInactives B) L) S"
    and "myState B = myState A" and "myPolicies B = myPolicies A"
    and "set (allInactives B) \<subseteq> set (if curBlockUserSupplied (myState A) then allInactives A else managed A)"
    and "\<not> curBlockUserSupplied (myState A) \<Longrightarrow> kept (allInactives B) L = L"
    and "set (allInactives A) \<subseteq> set (allInactives B)"
    and "chunkSize (ram B) = chunkSize (ram A)" and "lastUsed (ram B) = lastUsed (ram A)"
proof (cases "curBlockUserSupplied (myState A)")
  case True
  then show thesis using forget_ok [OF inv True] by (intro that [of A]) (auto simp: give_up_def)
next
  case False
  let ?a = "active_block (myState A)" and ?s = "activeRAM (myState A)"
  have cnt: "blockRefs (ram A) ?s = live_in ?a L"
    using al_invD(4) [OF inv] saved_in_active [OF inv] by (simp add: counts_ok_def managed_def)
  show thesis
  proof (cases "live_in ?a L = 0")
    case True
    define m' where "m' = (ram A)\<lparr>mallocs := filter (\<lambda>e. fst e \<noteq> ?s) (mallocs (ram A))\<rparr>"
    have pos: "?s \<noteq> 0" using blocks_okD(1) [OF al_invD(1) [OF inv] active_managed] by (simp add: block_ok_def)
    have "?s \<notin> user_starts (myState A # S)"
      using False saved_in_active [OF inv] by (auto simp: user_starts_def saved_in_zero)
    then have "?s \<in> fst ` set (mallocs (ram A))" using owned_region(2) [OF inv active_managed] by simp
    then have run: "give_up A = Inr (A\<lparr>ram := m'\<rparr>)"
      using False True pos by (simp add: give_up_def retire_block_def Let_def cnt freeAt_def upd_ram_def m'_def)
    have pk: "pk_inv m' (allInactives A) L S" by (rule unpark_ok [OF inv False True]) (simp_all add: m'_def)
    then show thesis
      using False run pk_kept [OF pk] by (intro that [of "A\<lparr>ram := m'\<rparr>"]) (auto simp: managed_def m'_def)
  next
    case live: False
    define I' where "I' = sort_key b_end (allInactives A @ [?a])"
    have run: "give_up A = Inr (A\<lparr>allInactives := I'\<rparr>)"
      using False live by (simp add: give_up_def retire_block_def Let_def cnt I'_def active_block_def)
    have pk: "pk_inv (ram A) I' L S"
      unfolding I'_def by (rule park_ok [OF inv]) (use False live saved_in_active [OF inv] cnt in auto)
    then show thesis
      using False run pk_kept [OF pk] by (intro that [of "A\<lparr>allInactives := I'\<rparr>"]) (auto simp: managed_def I'_def)
  qed
qed

lemma give_up_throw:
  assumes "give_up A = Inr B"
  shows "give_up (A\<lparr>myState := (myState A)\<lparr>throwException := t\<rparr>\<rparr>) = Inr (B\<lparr>myState := (myState B)\<lparr>throwException := t\<rparr>\<rparr>)"
  using assms by (auto simp: give_up_def retire_block_def Let_def freeAt_def upd_ram_def split: if_splits)

lemma give_up_malloc:
  assumes "give_up A = Inr B" and "p \<noteq> activeRAM (myState A)"
  shows "give_up (mallocAt p n A) = Inr (mallocAt p n B)"
  using assms by (auto simp: give_up_def retire_block_def Let_def freeAt_def mallocAt_def upd_ram_def split: if_splits)

lemma setupBlock_enters:
  assumes "give_up A = Inr B" and "myState B = myState A" and "20 \<le> n" and "p \<noteq> 0" and "activeRAM (myState A) \<noteq> 0"
    and "length (a_chunks (myState A)) = 32"
  obtains A' where "setupBlock p n t A = Inr A'" and "active_block (myState A') = \<lparr>b_start = p, b_end = p + n\<rparr>"
    and "throwException (myState A') = t" and "\<not> curBlockUserSupplied (myState A')" and "a_chunks (myState A') = replicate 32 []"
    and "allInactives A' = allInactives B" and "myPolicies A' = myPolicies B"
    and "ram A' = (ram B)\<lparr>lastUsed := (lastUsed (ram B))(p := 20), blockRefs := (blockRefs (ram B))(p := 0)\<rparr>"
proof -
  let ?B = "clear_chunks (B\<lparr>myState := (myState B)\<lparr>throwException := t\<rparr>\<rparr>)"
  let ?A' = "upd_ram (\<lambda>m. m\<lparr>lastUsed := (lastUsed m)(p := HEADER_SIZE), blockRefs := (blockRefs m)(p := 0)\<rparr>)
    (?B\<lparr>myState := (myState ?B)\<lparr>activeRAM := p, a_numBytes := n, curBlockUserSupplied := False\<rparr>\<rparr>)"
  have "setupBlock p n t A = Inr ?A'"
    using give_up_throw [OF assms(1), of t] assms(3-5)
    by (auto simp: setupBlock_def Let_def HEADER_SIZE_def give_up_def)
  then show thesis
    by (rule that) (use assms in \<open>simp_all add: clear_chunks_def active_block_def map_replicate_const HEADER_SIZE_def\<close>)
qed

lemma al_inv_chunks: "al_inv A L S \<Longrightarrow> length (a_chunks (myState A)) = 32"
  using al_invD(3) [of A L S] by (simp add: chunks_ok_def free_ok_def)

lemma al_inv_active: "al_inv A L S \<Longrightarrow> 0 < activeRAM (myState A)"
  using blocks_okD(1) [OF al_invD(1) [of A L S] active_managed] by (simp add: block_ok_def)

text \<open>What the caller of \<^verbatim>\<open>setupBlock\<close> provides: memory that no remaining block uses.\<close>

definition fresh :: "nat \<Rightarrow> nat \<Rightarrow> allocator \<Rightarrow> bool" where
  "fresh p n A \<longleftrightarrow> clear_of p n (if curBlockUserSupplied (myState A) then allInactives A else managed A)"

definition switched :: "nat \<Rightarrow> nat \<Rightarrow> allocator \<Rightarrow> nat list \<Rightarrow> AllocatorState list \<Rightarrow> allocator \<Rightarrow> bool" where
  "switched p n A L S A' \<longleftrightarrow> al_inv A' (kept (allInactives A') L) S \<and> active_block (myState A') = \<lparr>b_start = p, b_end = p + n\<rparr> \<and>
     myPolicies A' = myPolicies A \<and> (\<not> curBlockUserSupplied (myState A) \<longrightarrow> kept (allInactives A') L = L) \<and>
     set (allInactives A') \<subseteq> set (managed A) \<and>
     chunkSize (ram A') = chunkSize (ram A) \<and> lastUsed (ram A') = (lastUsed (ram A))(p := 20)"

lemma clear_of_sub: "clear_of p n I \<Longrightarrow> set J \<subseteq> set I \<Longrightarrow> clear_of p n J"
  by (auto simp: clear_of_def)

lemma clear_of_active: "clear_of p n I \<Longrightarrow> 20 \<le> n \<Longrightarrow> active_block st \<in> set I \<Longrightarrow> 0 < a_numBytes st \<Longrightarrow> p \<noteq> activeRAM st"
  by (force simp: clear_of_def apart_blocks_def)

lemma setupUser_ok:
  assumes inv: "al_inv A L S" and fr: "fresh p n A" and n: "20 \<le> n"
  shows "\<exists>A'. setupUserSuppliedBlock p n t A = Inr A' \<and> switched p n A L S A' \<and> curBlockUserSupplied (myState A')"
proof -
  obtain B where B: "give_up A = Inr B" "pk_inv (ram B) (allInactives B) (kept (allInactives B) L) S" "myState B = myState A"
    "myPolicies B = myPolicies A" "set (allInactives B) \<subseteq> set (if curBlockUserSupplied (myState A) then allInactives A else managed A)"
    "\<not> curBlockUserSupplied (myState A) \<Longrightarrow> kept (allInactives B) L = L"
    "chunkSize (ram B) = chunkSize (ram A)" "lastUsed (ram B) = lastUsed (ram A)"
    by (rule give_up_ok [OF inv]) blast
  have clr: "clear_of p n (allInactives B)" using clear_of_sub fr B(5) by (simp add: fresh_def)
  have "p \<noteq> 0" "activeRAM (myState A) \<noteq> 0" using clr al_inv_active [OF inv] by (auto simp: clear_of_def)
  then obtain A' where A': "setupBlock p n t A = Inr A'" "active_block (myState A') = \<lparr>b_start = p, b_end = p + n\<rparr>"
    "a_chunks (myState A') = replicate 32 []" "allInactives A' = allInactives B" "myPolicies A' = myPolicies B"
    "ram A' = (ram B)\<lparr>lastUsed := (lastUsed (ram B))(p := 20), blockRefs := (blockRefs (ram B))(p := 0)\<rparr>"
    by (rule setupBlock_enters [OF B(1,3) n _ _ al_inv_chunks [OF inv]]) blast+
  define A2 where "A2 = A'\<lparr>myState := (myState A')\<lparr>curBlockUserSupplied := True\<rparr>\<rparr>"
  have "al_inv A2 (kept (allInactives B) L) S"
    by (rule enter_ok [OF B(2) clr n]) (use A' in \<open>simp_all add: A2_def active_block_def\<close>)
  moreover have "set (allInactives B) \<subseteq> set (managed A)" using B(5) by (auto simp: managed_def split: if_splits)
  ultimately show ?thesis using A' B by (auto simp: setupUserSuppliedBlock_def switched_def A2_def active_block_def)
qed

lemma setupMalloc_ok:
  assumes inv: "al_inv A L S" and fr: "fresh p n A" and n: "20 \<le> n" and other: "p \<noteq> activeRAM (myState A)"
  shows "\<exists>A'. setupMallocBlock p n t A = Inr A' \<and> switched p n A L S A' \<and> \<not> curBlockUserSupplied (myState A')"
proof -
  obtain B where B: "give_up A = Inr B" "pk_inv (ram B) (allInactives B) (kept (allInactives B) L) S" "myState B = myState A"
    "myPolicies B = myPolicies A" "set (allInactives B) \<subseteq> set (if curBlockUserSupplied (myState A) then allInactives A else managed A)"
    "\<not> curBlockUserSupplied (myState A) \<Longrightarrow> kept (allInactives B) L = L"
    "chunkSize (ram B) = chunkSize (ram A)" "lastUsed (ram B) = lastUsed (ram A)"
    by (rule give_up_ok [OF inv]) blast
  have clr: "clear_of p n (allInactives B)" using clear_of_sub fr B(5) by (simp add: fresh_def)
  have nz: "p \<noteq> 0" "activeRAM (myState (mallocAt p n A)) \<noteq> 0"
    using clr al_inv_active [OF inv] by (auto simp: clear_of_def mallocAt_def)
  have st: "myState (mallocAt p n B) = myState (mallocAt p n A)" "length (a_chunks (myState (mallocAt p n A))) = 32"
    using B(3) al_inv_chunks [OF inv] by (simp_all add: mallocAt_def)
  obtain A' where A': "setupBlock p n t (mallocAt p n A) = Inr A'" "active_block (myState A') = \<lparr>b_start = p, b_end = p + n\<rparr>"
    "\<not> curBlockUserSupplied (myState A')" "a_chunks (myState A') = replicate 32 []"
    "allInactives A' = allInactives (mallocAt p n B)" "myPolicies A' = myPolicies (mallocAt p n B)"
    "ram A' = (ram (mallocAt p n B))\<lparr>lastUsed := (lastUsed (ram (mallocAt p n B)))(p := 20),
       blockRefs := (blockRefs (ram (mallocAt p n B)))(p := 0)\<rparr>"
    by (rule setupBlock_enters [OF give_up_malloc [OF B(1) other] st(1) n nz st(2)]) blast
  have "al_inv A' (kept (allInactives B) L) S"
    by (rule enter_ok [OF B(2) clr n]) (use A' in \<open>simp_all add: mallocAt_def\<close>)
  moreover have "set (allInactives B) \<subseteq> set (managed A)" using B(5) by (auto simp: managed_def split: if_splits)
  ultimately show ?thesis using A' B nz by (auto simp: setupMallocBlock_def switched_def mallocAt_def)
qed

section \<open>Using a block for a while\<close>

lemma phantom_give_up:
  assumes inv: "al_inv A L S" and room: "al_room L S"
  obtains B where "give_up (phantom_reference A) = Inr B" and "pk_inv (ram B) (allInactives B) L (myState A # S)"
    and "myState B = myState (phantom_reference A)" and "myPolicies B = myPolicies A"
    and "set (allInactives B) = set (managed A)"
    and "chunkSize (ram B) = chunkSize (ram A)" and "lastUsed (ram B) = lastUsed (ram A)"
proof -
  let ?a = "active_block (myState A)" and ?s = "activeRAM (myState A)"
  let ?I = "sort_key b_end (allInactives A @ [?a])"
  have cnt: "blockRefs (ram A) ?s = live_in ?a L"
    using al_invD(4) [OF inv] saved_in_active [OF inv] by (simp add: counts_ok_def managed_def)
  have up: "blockRefs (inc_refs ?s (ram A)) = (blockRefs (ram A))(?s := live_in ?a L + 1)"
    using refs_room [OF al_invD(4) [OF inv] room active_managed] inc_refs_count [of "ram A" ?s] cnt by simp
  have pk: "pk_inv (inc_refs ?s (ram A)) ?I L (myState A # S)"
    by (rule park_ok [OF inv]) (use saved_in_active [OF inv] up in \<open>auto simp: saved_in_Cons\<close>)
  show thesis
    by (rule that [of "(phantom_reference A)\<lparr>allInactives := ?I\<rparr>"])
       (use pk up in \<open>simp_all add: give_up_def retire_block_def Let_def phantom_reference_def active_block_def managed_def\<close>)
qed

definition temporary :: "nat \<Rightarrow> nat \<Rightarrow> allocator \<Rightarrow> nat list \<Rightarrow> AllocatorState list \<Rightarrow> AllocatorState \<Rightarrow> allocator \<Rightarrow> bool" where
  "temporary p n A L S st A' \<longleftrightarrow> st = myState A \<and> al_inv A' L (myState A # S) \<and> myPolicies A' = myPolicies A \<and>
     active_block (myState A') = \<lparr>b_start = p, b_end = p + n\<rparr> \<and>
     chunkSize (ram A') = chunkSize (ram A) \<and> lastUsed (ram A') = (lastUsed (ram A))(p := 20)"

lemma temporarilyUse_ok:
  assumes inv: "al_inv A L S" and room: "al_room L S" and clr: "clear_of p n (managed A)" and n: "20 \<le> n"
  shows "\<exists>st A'. temporarilyUseBlockForAllocations p n A = Inr (st, A') \<and> temporary p n A L S st A' \<and>
    curBlockUserSupplied (myState A')"
proof -
  obtain B where B: "give_up (phantom_reference A) = Inr B" "pk_inv (ram B) (allInactives B) L (myState A # S)"
    "myState B = myState (phantom_reference A)" "myPolicies B = myPolicies A" "set (allInactives B) = set (managed A)"
    "chunkSize (ram B) = chunkSize (ram A)" "lastUsed (ram B) = lastUsed (ram A)"
    by (rule phantom_give_up [OF inv room])
  have clr': "clear_of p n (allInactives B)" using clr B(5) by (simp add: clear_of_def)
  have nz: "p \<noteq> 0" "activeRAM (myState (phantom_reference A)) \<noteq> 0" "length (a_chunks (myState (phantom_reference A))) = 32"
    using clr al_inv_active [OF inv] al_inv_chunks [OF inv] by (auto simp: clear_of_def phantom_reference_def)
  obtain A' where A': "setupBlock p n True (phantom_reference A) = Inr A'" "active_block (myState A') = \<lparr>b_start = p, b_end = p + n\<rparr>"
    "a_chunks (myState A') = replicate 32 []" "allInactives A' = allInactives B" "myPolicies A' = myPolicies B"
    "ram A' = (ram B)\<lparr>lastUsed := (lastUsed (ram B))(p := 20), blockRefs := (blockRefs (ram B))(p := 0)\<rparr>"
    by (rule setupBlock_enters [OF B(1,3) n nz]) blast
  define A2 where "A2 = A'\<lparr>myState := (myState A')\<lparr>curBlockUserSupplied := True\<rparr>\<rparr>"
  have "al_inv A2 L (myState A # S)"
    by (rule enter_ok [OF B(2) clr' n]) (use A' in \<open>simp_all add: A2_def active_block_def\<close>)
  then show ?thesis
    using A' B
    by (auto simp: temporarilyUseBlockForAllocations_def setupUserSuppliedBlock_def temporary_def A2_def active_block_def)
qed

lemma temporarilyUseMalloc_ok:
  assumes inv: "al_inv A L S" and room: "al_room L S" and clr: "clear_of p n (managed A)" and n: "20 \<le> n"
  shows "\<exists>st A'. temporarilyUseMallocBlock p n A = Inr (st, A') \<and> temporary p n A L S st A' \<and>
    \<not> curBlockUserSupplied (myState A')"
proof -
  obtain B where B: "give_up (phantom_reference A) = Inr B" "pk_inv (ram B) (allInactives B) L (myState A # S)"
    "myState B = myState (phantom_reference A)" "myPolicies B = myPolicies A" "set (allInactives B) = set (managed A)"
    "chunkSize (ram B) = chunkSize (ram A)" "lastUsed (ram B) = lastUsed (ram A)"
    by (rule phantom_give_up [OF inv room])
  let ?P = "mallocAt p n (phantom_reference A)"
  have clr': "clear_of p n (allInactives B)" using clr B(5) by (simp add: clear_of_def)
  have "0 < a_numBytes (myState A)" using blocks_okD(2) [OF al_invD(1) [OF inv] active_managed] by simp
  then have other: "p \<noteq> activeRAM (myState (phantom_reference A))"
    using clear_of_active [OF clr n active_managed] by (simp add: phantom_reference_def)
  have nz: "p \<noteq> 0" "activeRAM (myState ?P) \<noteq> 0" "length (a_chunks (myState ?P)) = 32" "myState (mallocAt p n B) = myState ?P"
    using clr al_inv_active [OF inv] al_inv_chunks [OF inv] B(3) by (auto simp: clear_of_def phantom_reference_def mallocAt_def)
  obtain A' where A': "setupBlock p n True ?P = Inr A'" "active_block (myState A') = \<lparr>b_start = p, b_end = p + n\<rparr>"
    "\<not> curBlockUserSupplied (myState A')" "a_chunks (myState A') = replicate 32 []"
    "allInactives A' = allInactives (mallocAt p n B)" "myPolicies A' = myPolicies (mallocAt p n B)"
    "ram A' = (ram (mallocAt p n B))\<lparr>lastUsed := (lastUsed (ram (mallocAt p n B)))(p := 20),
       blockRefs := (blockRefs (ram (mallocAt p n B)))(p := 0)\<rparr>"
    by (rule setupBlock_enters [OF give_up_malloc [OF B(1) other] nz(4) n nz(1-3)]) blast
  have "al_inv A' L (myState A # S)"
    by (rule enter_ok [OF B(2) clr' n]) (use A' in \<open>simp_all add: mallocAt_def\<close>)
  then show ?thesis
    using A' B nz by (auto simp: temporarilyUseMallocBlock_def setupMallocBlock_def temporary_def mallocAt_def)
qed

lemma restoreAllocationBlock_ok:
  assumes inv: "al_inv A L (st # S)" and room: "al_room L S"
  shows "\<exists>A'. restoreAllocationBlock st A = Inr A' \<and> al_inv A' (kept (managed A') L) S \<and> myState A' = st \<and>
    myPolicies A' = myPolicies A \<and> (\<not> curBlockUserSupplied (myState A) \<longrightarrow> kept (managed A') L = L) \<and>
    set (allInactives A) \<subseteq> set (managed A') \<and> chunkSize (ram A') = chunkSize (ram A) \<and> lastUsed (ram A') = lastUsed (ram A)"
proof -
  obtain B where B: "give_up A = Inr B" "pk_inv (ram B) (allInactives B) (kept (allInactives B) L) (st # S)"
    "myPolicies B = myPolicies A" "\<not> curBlockUserSupplied (myState A) \<Longrightarrow> kept (allInactives B) L = L"
    "set (allInactives A) \<subseteq> set (allInactives B)" "chunkSize (ram B) = chunkSize (ram A)" "lastUsed (ram B) = lastUsed (ram A)"
    by (rule give_up_ok [OF inv]) blast
  define A' where "A' = upd_ram (dec_refs (activeRAM st)) (B\<lparr>myState := st, allInactives := erase_start (activeRAM st) (allInactives B)\<rparr>)"
  have run: "restoreAllocationBlock st A = Inr A'"
    using B(1) by (auto simp: restoreAllocationBlock_def give_up_def A'_def split: if_splits)
  have "length (kept (allInactives B) L) \<le> length L" by (simp add: kept_def)
  then have "length (kept (allInactives B) L) + length S + 1 < 2 ^ 32" using room by (simp add: al_room_def)
  from restore_ok [OF B(2) this, of A'] have ok: "al_inv A' (kept (allInactives B) L) S" by (simp add: A'_def)
  have b: "active_block st \<in> set (allInactives B)" by (rule pk_invD(6) [OF B(2)]) simp
  have "erase_start (activeRAM st) (allInactives B) = remove1 (active_block st) (allInactives B)"
    using erase_start_remove1 [OF b] block_start_inj [OF pk_invD(1) [OF B(2)] _ b] by simp
  then have "set (managed A') = set (allInactives B)"
    using b pk_invD(1) [OF B(2)] by (auto simp: managed_def A'_def blocks_ok_def)
  then have "kept (managed A') L = kept (allInactives B) L" "set (allInactives A) \<subseteq> set (managed A')"
    using B(5) by (simp_all add: kept_def)
  then show ?thesis using run ok B by (auto simp: A'_def)
qed

section \<open>Emptying the active block and dropping the inactive ones\<close>

text \<open>The objects of the active block are gone; what was used of it stays used.\<close>

lemma emptyOut_active_ok:
  assumes inv: "al_inv A L S" and here: "al_contains here A" and run: "emptyOutBlock here A = Inr A'"
  shows "al_inv A' (kept (allInactives A) L) S" and "lastUsed (ram A') = lastUsed (ram A)" and "chunkSize (ram A') = chunkSize (ram A)"
    and "myPolicies A' = myPolicies A"
proof -
  let ?a = "active_block (myState A)" and ?I = "allInactives A"
  note bl = al_invD(1) [OF inv] and cnt = al_invD(4) [OF inv]
  have A': "A' = upd_ram (\<lambda>m. m\<lparr>blockRefs := (blockRefs m)(activeRAM (myState A) := 0)\<rparr>) (clear_chunks A)"
    using here run by (simp add: emptyOutBlock_def)
  show mem: "lastUsed (ram A') = lastUsed (ram A)" "chunkSize (ram A') = chunkSize (ram A)" "myPolicies A' = myPolicies A"
    by (simp_all add: A' upd_ram_def clear_chunks_def)
  have notin: "?a \<notin> set ?I" using bl by (simp add: blocks_ok_def managed_def)
  have other: "\<not> in_block ?a l" if "l \<in> set (kept ?I L)" for l
    using that block_unique [OF bl active_managed] notin by (force simp: kept_def managed_def)
  then have none: "live_in ?a (kept ?I L) = 0" by (simp add: live_in_zero)
  have st: "a_chunks (myState A') = replicate 32 []" "activeRAM (myState A') = activeRAM (myState A)"
    "curBlockUserSupplied (myState A') = curBlockUserSupplied (myState A)" "active_block (myState A') = ?a"
    using al_inv_chunks [OF inv] by (simp_all add: A' upd_ram_def clear_chunks_def active_block_def map_replicate_const)
  have man: "managed A' = managed A" "allInactives A' = ?I" "mallocs (ram A') = mallocs (ram A)"
    using st(4) by (simp_all add: managed_def A' upd_ram_def clear_chunks_def)
  have sub: "mset (kept ?I L) \<subseteq># mset L" by (simp add: kept_def multiset_filter_subset)
  note ok = chunks_ok_inactive(2) [OF inv sub other]
  have "chunks_ok (ram A) ?I (myState A' # S) (kept ?I L)"
  proof (rule chunks_ok_sub [OF ok])
    show "mset (chunk_list (myState A' # S) (kept ?I L)) \<subseteq># mset (chunk_list S (kept ?I L))"
      by (simp add: chunk_list_def st_chunks_def st(1))
  qed (use ok st(1) in \<open>auto simp: chunks_ok_def free_ok_def\<close>)
  then have chunks: "chunks_ok (ram A) (managed A) (myState A' # S) (kept ?I L)"
    by (rule chunks_ok_blocks [rotated]) (auto simp: managed_def)
  have start: "b_start b \<noteq> activeRAM (myState A)" if "b \<in> set ?I" for b
    using block_start_inj [OF bl, of b ?a] that notin by (auto simp: managed_def)
  have "counts_ok A' (kept ?I L) S"
    using cnt none saved_in_active [OF inv] start
    by (auto simp: counts_ok_def man(2) managed_def st(4) live_in_kept) (simp_all add: A' upd_ram_def clear_chunks_def)
  moreover have "user_starts (myState A' # S) = user_starts (myState A # S)" by (simp add: user_starts_Cons st)
  then have "owned_ok A' S" using al_invD(6) [OF inv] by (simp add: owned_ok_def man)
  ultimately show "al_inv A' (kept ?I L) S"
    using al_invD [OF inv] chunks ram_cong [OF mem(1,2)] by (simp add: al_inv_def man saved_ok_def)
qed

lemma clean_loop_ok:
  assumes "al_inv (A\<lparr>allInactives := ks @ bs\<rparr>) L S" and "\<And>b. b \<in> set bs \<Longrightarrow> P b \<Longrightarrow> saved_in b S = 0"
  shows "\<exists>A1. clean_loop P bs A = Inr (filter (\<lambda>b. \<not> P b) bs, A1) \<and>
    al_inv (A1\<lparr>allInactives := ks @ filter (\<lambda>b. \<not> P b) bs\<rparr>) (filter (\<lambda>l. \<forall>b \<in> set bs. P b \<longrightarrow> \<not> in_block b l) L) S \<and>
    myState A1 = myState A \<and> myPolicies A1 = myPolicies A \<and> lastUsed (ram A1) = lastUsed (ram A) \<and> chunkSize (ram A1) = chunkSize (ram A)"
  using assms
proof (induction bs arbitrary: A L ks)
  case Nil
  then show ?case by simp
next
  case (Cons b bs)
  show ?case
  proof (cases "P b")
    case False
    have "al_inv (A\<lparr>allInactives := (ks @ [b]) @ bs\<rparr>) L S" using Cons.prems(1) by simp
    from Cons.IH [OF this Cons.prems(2)] False show ?thesis by fastforce
  next
    case True
    let ?A = "A\<lparr>allInactives := ks @ b # bs\<rparr>" and ?L = "filter (\<lambda>l. \<not> in_block b l) L"
    define A1 where "A1 = upd_ram (\<lambda>m. m\<lparr>mallocs := filter (\<lambda>e. fst e \<noteq> b_start b) (mallocs m)\<rparr>) A"
    note inv = Cons.prems(1) and z = Cons.prems(2) [OF list.set_intros(1) True]
    note bl = al_invD(1) [OF inv]
    have b: "b \<in> set (allInactives ?A)" "b \<in> set (managed ?A)" by (simp_all add: managed_def)
    have d: "b \<notin> set ks" "b \<noteq> active_block (myState A)" using bl by (auto simp: blocks_ok_def managed_def)
    then have "b_start b \<noteq> activeRAM (myState A)" using block_start_inj [OF bl b(2), of "active_block (myState A)"] by (auto simp: managed_def)
    then have "b_start b \<notin> user_starts (myState ?A # S)" using z by (auto simp: user_starts_def saved_in_zero)
    then have "b_start b \<in> fst ` set (mallocs (ram A))" using owned_region(2) [OF inv b(2)] by simp
    moreover have "0 < b_start b" using blocks_okD(2) [OF bl b(2)] bl b(2) by (auto simp: blocks_ok_def block_ok_def)
    ultimately have run: "freeAt (b_start b) A = Inr A1" by (simp add: freeAt_def A1_def)
    have sub: "mset ?L \<subseteq># mset L" by (simp add: multiset_filter_subset)
    have rest: "live_in c ?L = live_in c L" if "c \<in> set (managed ?A)" "c \<noteq> b" for c
    proof -
      have "filter (in_block c) ?L = filter (in_block c) L" using block_unique [OF bl that(1) b(2)] that(2) by (auto simp: intro!: filter_cong)
      then show ?thesis by (simp add: live_in_def)
    qed
    have "al_inv (A1\<lparr>allInactives := ks @ bs\<rparr>) ?L S"
      by (rule al_inv_drop [OF inv b(1) sub _ z rest]) (use d in \<open>simp_all add: live_in_zero A1_def upd_ram_def remove1_append\<close>)
    from Cons.IH [OF this Cons.prems(2)] show ?thesis using run True by (auto simp: A1_def upd_ram_def conj_commute)
  qed
qed

text \<open>Both variants, where no state is saved: the objects of the blocks that are dropped are gone, and the memory is freed.\<close>

definition cleaned :: "allocator \<Rightarrow> nat list \<Rightarrow> allocator \<Rightarrow> bool" where
  "cleaned A L A' \<longleftrightarrow> al_inv A' (kept (managed A') L) [] \<and> myState A' = myState A \<and> myPolicies A' = myPolicies A \<and>
     lastUsed (ram A') = lastUsed (ram A) \<and> chunkSize (ram A') = chunkSize (ram A)"

lemma clean_blocks_ok:
  assumes inv: "al_inv A L []"
  shows "\<exists>A'. andThen (clean_loop P (allInactives A) A) (\<lambda>(kept, A1). Inr (A1\<lparr>allInactives := kept\<rparr>)) = Inr A' \<and>
    allInactives A' = filter (\<lambda>b. \<not> P b) (allInactives A) \<and> cleaned A L A'"
proof -
  let ?I = "filter (\<lambda>b. \<not> P b) (allInactives A)" and ?L = "filter (\<lambda>l. \<forall>b \<in> set (allInactives A). P b \<longrightarrow> \<not> in_block b l) L"
  have "al_inv (A\<lparr>allInactives := [] @ allInactives A\<rparr>) L []" using inv by simp
  from clean_loop_ok [OF this, of P] obtain A1 where A1: "clean_loop P (allInactives A) A = Inr (?I, A1)" "al_inv (A1\<lparr>allInactives := ?I\<rparr>) ?L []"
    "myState A1 = myState A" "myPolicies A1 = myPolicies A" "lastUsed (ram A1) = lastUsed (ram A)" "chunkSize (ram A1) = chunkSize (ram A)"
    by (auto simp: saved_in_def)
  let ?A = "A1\<lparr>allInactives := ?I\<rparr>"
  have "(\<exists>b \<in> set (managed ?A). in_block b l) \<longleftrightarrow> (\<forall>b \<in> set (allInactives A). P b \<longrightarrow> \<not> in_block b l)" if l: "l \<in> set L" for l
  proof -
    have "live_ok (ram A) (managed A) l" using al_invD(3) [OF inv] l by (simp add: chunks_ok_def)
    then obtain b where b: "b \<in> set (managed A)" "in_block b l" "\<And>c. c \<in> set (managed A) \<Longrightarrow> in_block c l \<longleftrightarrow> c = b"
      by (rule live_block [OF al_invD(1) [OF inv]]) blast
    have "active_block (myState A) \<notin> set (allInactives A)" using al_invD(1) [OF inv] by (simp add: blocks_ok_def managed_def)
    then show ?thesis using b A1(3) by (auto simp: managed_def)
  qed
  then have "kept (managed ?A) L = ?L" unfolding kept_def by (rule filter_cong [OF refl])
  then show ?thesis using A1 by (intro exI [of _ ?A]) (simp add: cleaned_def)
qed

end
