(* ===== verification/AllocatorSystem.thy ===== *)
theory AllocatorSystem
  imports AllocatorBlocks
begin

text \<open>
  The contract of an allocation policy and its three providers, the change of the active block, and the
  transition system \<open>al_step\<close> of what a thread does with its allocator: it gets and frees memory, starts new
  blocks, uses a block temporarily and goes back to the old one, changes the policy and asks for the block of
  an object. The properties hold in every state it can reach.
\<close>

section \<open>The contract of a policy\<close>

definition freed :: "bool \<Rightarrow> nat \<Rightarrow> allocator \<Rightarrow> nat list \<Rightarrow> AllocatorState list \<Rightarrow> allocator \<Rightarrow> bool" where
  "freed counts l A L S A' \<longleftrightarrow> al_inv A' (if counts then remove1 l L else L) S \<and>
     active_block (myState A') = active_block (myState A) \<and> myPolicies A' = myPolicies A \<and>
     lastUsed (ram A') = lastUsed (ram A) \<and> chunkSize (ram A') = chunkSize (ram A) \<and>
     throwException (myState A') = throwException (myState A) \<and> set (allInactives A') \<subseteq> set (allInactives A) \<and>
     (\<forall>b \<in> set (allInactives A). b \<in> set (allInactives A') \<longleftrightarrow> \<not> counts \<or> \<not> in_block b l \<or> live_in b L + saved_in b S \<noteq> 1)"

locale ram_policy =
  fixes get :: "nat \<Rightarrow> allocator \<Rightarrow> (nat \<times> allocator) result"
    and free :: "bool \<Rightarrow> nat \<Rightarrow> allocator \<Rightarrow> allocator result"
    and counts :: bool
  assumes get_got: "al_inv A L S \<Longrightarrow> al_room L S \<Longrightarrow> request_ok h \<Longrightarrow> got h A L S (get h A)"
    and free_freed: "al_inv A L S \<Longrightarrow> al_room L S \<Longrightarrow> l \<in> set L \<Longrightarrow>
      \<exists>A'. free (al_contains l A) l A = Inr A' \<and> freed counts l A L S A'"
begin

lemma get_new:
  assumes "al_inv A L S" and "al_room L S" and "request_ok h" and "get h A = Inr (r, A')" and "r \<noteq> 0"
  shows "al_inv A' (r # L) S \<and> r \<notin> set L \<and> al_contains r A' \<and> 4 \<le> r \<and>
    (\<forall>l \<in> set L. r + h \<le> l - 4 \<or> l + (chunkSize (ram A) (l - 4) - 4) \<le> r - 4)"
proof (intro conjI ballI)
  have g: "al_inv A' (r # L) S" "same_blocks A A'" "al_contains r A" "h + 4 \<le> chunkSize (ram A') (r - 4)"
    "\<And>l. l \<in> set L \<Longrightarrow> chunkSize (ram A') (l - 4) = chunkSize (ram A) (l - 4)"
    using get_got [OF assms(1-3)] assms(4,5) by (auto simp: got_def chunk_list_def)
  show "al_inv A' (r # L) S" by (rule g(1))
  show "al_contains r A'" using g(2,3) by (simp add: contains_active same_blocks_def)
  have ch: "chunks_ok (ram A') (managed A') (myState A' # S) (r # L)" by (rule al_invD(3) [OF g(1)])
  show r4: "4 \<le> r" using ch by (simp add: chunks_ok_def live_ok_def)
  have d: "r - 4 \<notin> (\<lambda>l. l - 4) ` set L" using ch by (auto simp: chunks_ok_def chunk_list_def)
  then show "r \<notin> set L" by blast
  show "r + h \<le> l - 4 \<or> l + (chunkSize (ram A) (l - 4) - 4) \<le> r - 4" if l: "l \<in> set L" for l
  proof -
    let ?K = "chunk_list (myState A' # S) (r # L)"
    have "r - 4 \<in> set ?K" "l - 4 \<in> set ?K" "r - 4 \<noteq> l - 4" using l d by (auto simp: chunk_list_def)
    then have "apart_chunks (ram A') (r - 4) (l - 4)" using ch by (auto simp: chunks_ok_def dest: pairwiseD)
    moreover have "4 \<le> l" "8 \<le> chunkSize (ram A') (l - 4)"
      using ch l by (auto simp: chunks_ok_def live_ok_def chunk_in_def)
    ultimately show ?thesis using g(4) g(5) [OF l] r4 unfolding apart_chunks_def by linarith
  qed
qed

lemma get_then_free:
  assumes "al_inv A L S" and "al_room (r # L) S" and "request_ok h" and "get h A = Inr (r, A')" and "r \<noteq> 0"
  shows "\<exists>A''. free True r A' = Inr A'' \<and> al_inv A'' (if counts then L else r # L) S"
proof -
  have "al_room L S" using assms(2) by (simp add: al_room_def)
  note g = get_new [OF assms(1) this assms(3-5)]
  have "al_inv A' (r # L) S" "al_contains r A'" using g by blast+
  then show ?thesis using free_freed [OF _ assms(2), of A' r] by (auto simp: freed_def split: if_splits)
qed

end

lemma defaultFreeRAM_freed:
  assumes inv: "al_inv A L S" and room: "al_room L S" and l: "l \<in> set L"
  shows "\<exists>A'. defaultFreeRAM (al_contains l A) l A = Inr A' \<and> freed True l A L S A'"
proof (cases "al_contains l A")
  case True
  have "\<not> in_block b l" if b: "b \<in> set (allInactives A)" for b
  proof
    assume "in_block b l"
    then have "b = active_block (myState A)"
      using block_unique [OF al_invD(1) [OF inv] _ active_managed] b True by (simp add: contains_active managed_def)
    then show False using al_invD(1) [OF inv] b by (simp add: blocks_ok_def managed_def)
  qed
  then show ?thesis using free_active_ok [OF inv room l True] True by (auto simp: freed_def same_blocks_def)
next
  case False
  then obtain b A' where f: "defaultFreeRAM False l A = Inr A'" "al_inv A' (remove1 l L) S" "b \<in> set (allInactives A)"
    "in_block b l" "myState A' = myState A" "myPolicies A' = myPolicies A" "lastUsed (ram A') = lastUsed (ram A)"
    "chunkSize (ram A') = chunkSize (ram A)"
    "allInactives A' = (if live_in b L + saved_in b S = 1 then remove1 b (allInactives A) else allInactives A)"
    by (rule free_inactive_ok [OF inv room l]) blast
  have d: "distinct (allInactives A)" using al_invD(1) [OF inv] by (simp add: blocks_ok_def managed_def)
  have "in_block c l \<longleftrightarrow> c = b" if "c \<in> set (allInactives A)" for c
    using block_unique [OF al_invD(1) [OF inv], of c b l] that f(3,4) by (auto simp: managed_def)
  then have "c \<in> set (allInactives A') \<longleftrightarrow> \<not> in_block c l \<or> live_in c L + saved_in c S \<noteq> 1"
    if "c \<in> set (allInactives A)" for c
    using that d f(9) by (auto simp: set_remove1_eq)
  moreover have "set (allInactives A') \<subseteq> set (allInactives A)" using f(9) set_remove1_subset by (simp split: if_splits)
  ultimately show ?thesis using f False by (simp add: freed_def)
qed

interpretation default_policy: ram_policy "policy_getRAM defaultAllocator" "policy_freeRAM defaultAllocator" True
  by unfold_locales (simp_all add: policy_defs defaultGetRAM_got defaultFreeRAM_freed)

interpretation no_reuse_policy: ram_policy "policy_getRAM noReuseAllocator" "policy_freeRAM noReuseAllocator" True
  by unfold_locales (simp_all add: policy_defs fastGetRAM_got defaultFreeRAM_freed)

interpretation no_count_policy: ram_policy "policy_getRAM noReferenceCountAllocator" "policy_freeRAM noReferenceCountAllocator" False
  by unfold_locales (simp_all add: policy_defs defaultGetRAM_got freed_def)

lemma policy_get_new:
  assumes "al_inv A L S" and "al_room L S" and "request_ok h" and "policy_getRAM p h A = Inr (r, A')" and "r \<noteq> 0"
  shows "al_inv A' (r # L) S \<and> r \<notin> set L \<and> al_contains r A' \<and> 4 \<le> r \<and>
    (\<forall>l \<in> set L. r + h \<le> l - 4 \<or> l + (chunkSize (ram A) (l - 4) - 4) \<le> r - 4)"
proof (cases p)
  case defaultAllocator
  show ?thesis by (rule default_policy.get_new [OF assms(1-3) assms(4) [unfolded defaultAllocator] assms(5)])
next
  case noReuseAllocator
  show ?thesis by (rule no_reuse_policy.get_new [OF assms(1-3) assms(4) [unfolded noReuseAllocator] assms(5)])
next
  case noReferenceCountAllocator
  show ?thesis by (rule no_count_policy.get_new [OF assms(1-3) assms(4) [unfolded noReferenceCountAllocator] assms(5)])
qed

lemma policy_got: "al_inv A L S \<Longrightarrow> al_room L S \<Longrightarrow> request_ok h \<Longrightarrow> got h A L S (policy_getRAM p h A)"
  by (cases p) (simp_all add: default_policy.get_got no_reuse_policy.get_got no_count_policy.get_got)

lemma policy_freed: "al_inv A L S \<Longrightarrow> al_room L S \<Longrightarrow> l \<in> set L \<Longrightarrow>
    \<exists>A'. policy_freeRAM p (al_contains l A) l A = Inr A' \<and> freed (p \<noteq> noReferenceCountAllocator) l A L S A'"
  by (cases p) (simp_all add: default_policy.free_freed no_reuse_policy.free_freed no_count_policy.free_freed)

section \<open>Which policy is in use\<close>

fun current_policy :: "policy_list \<Rightarrow> AllocatorPolicy option" where
  "current_policy [] = None"
| "current_policy ((p, useMe) # theRest) = (if useMe then Some p else current_policy theRest)"

lemma current_policy_dispatch:
  assumes "current_policy ps = Some p"
  shows "list_getRAM ps h A = policy_getRAM p h A" and "list_freeRAM ps isContained l A = policy_freeRAM p isContained l A"
  using assms by (induction ps rule: current_policy.induct) (auto split: if_splits)

lemma setPolicy_fst [simp]: "map fst (setPolicy p ps) = map fst ps"
proof -
  have "map fst (unsetPolicy qs) = map fst qs" for qs by (induction qs rule: unsetPolicy.induct) auto
  then show ?thesis by (induction p ps rule: setPolicy.induct) auto
qed

lemma current_setPolicy: "p \<in> set (map fst ps) \<Longrightarrow> current_policy (setPolicy p ps) = Some p"
  by (induction p ps rule: setPolicy.induct) auto

definition policies_ok :: "allocator \<Rightarrow> bool" where
  "policies_ok A \<longleftrightarrow> map fst (myPolicies A) = map fst Allocator_policies \<and> current_policy (myPolicies A) \<noteq> None"

definition counting :: "allocator \<Rightarrow> bool" where
  "counting A \<longleftrightarrow> current_policy (myPolicies A) \<noteq> Some noReferenceCountAllocator"

lemma policies_set: "policies_ok A \<Longrightarrow> policies_ok (al_setPolicy p A) \<and> current_policy (myPolicies (al_setPolicy p A)) = Some p"
  by (cases p) (auto simp: policies_ok_def al_setPolicy_def current_setPolicy Allocator_policies_def)

lemma getRAM_new:
  assumes "al_inv A L S" and "policies_ok A" and "al_room L S" and "request_ok h" and "getRAM h A = Inr (r, A')" and "r \<noteq> 0"
  shows "al_inv A' (r # L) S \<and> r \<notin> set L \<and> al_contains r A' \<and> 4 \<le> r \<and>
    (\<forall>l \<in> set L. r + h \<le> l - 4 \<or> l + (chunkSize (ram A) (l - 4) - 4) \<le> r - 4)"
proof -
  obtain p where "current_policy (myPolicies A) = Some p" using assms(2) by (auto simp: policies_ok_def)
  then have "policy_getRAM p h A = Inr (r, A')" using assms(5) by (simp add: getRAM_def current_policy_dispatch)
  then show ?thesis by (rule policy_get_new [OF assms(1,3,4) _ assms(6)])
qed

lemma getRAM_got: "al_inv A L S \<Longrightarrow> policies_ok A \<Longrightarrow> al_room L S \<Longrightarrow> request_ok h \<Longrightarrow> got h A L S (getRAM h A)"
  by (auto simp: policies_ok_def getRAM_def current_policy_dispatch policy_got)

lemma freeRAM_freed: "al_inv A L S \<Longrightarrow> policies_ok A \<Longrightarrow> al_room L S \<Longrightarrow> l \<in> set L \<Longrightarrow>
    \<exists>A'. freeRAM l A = Inr A' \<and> freed (counting A) l A L S A'"
  using policy_freed by (fastforce simp: policies_ok_def freeRAM_def current_policy_dispatch counting_def)

section \<open>What a thread does with its allocator\<close>

type_synonym al_sys = "allocator \<times> nat list \<times> AllocatorState list"

text \<open>
  What a thread does with its allocator: a request, a free, a new block from \<^verbatim>\<open>malloc\<close> or from the user, a temporary
  block of either kind, the restoration of the last saved state, a change of policy, the request of a block for its
  root object, \<^verbatim>\<open>emptyOutBlock\<close> of the active block and, where no state is saved, both \<^verbatim>\<open>cleanInactiveBlocks\<close>; the objects
  in a block that is emptied or dropped leave \<open>L\<close>, they must not be used any more. Not a step is \<^verbatim>\<open>emptyOutBlock\<close> of
  a block that is not active, which loses the memory of the block (\<open>emptyOutBlock_leaks\<close>), and \<^verbatim>\<open>cleanInactiveBlocks\<close> while
  a saved state will be restored, which frees the block to be restored.
\<close>

inductive al_step :: "al_sys \<Rightarrow> al_sys \<Rightarrow> bool" where
  al_get: "al_room L S \<Longrightarrow> request_ok h \<Longrightarrow> getRAM h A = Inr (r, A') \<Longrightarrow>
      al_step (A, L, S) (A', if r = 0 then L else r # L, S)"
| al_free: "al_room L S \<Longrightarrow> l \<in> set L \<Longrightarrow> freeRAM l A = Inr A' \<Longrightarrow>
      al_step (A, L, S) (A', if counting A then remove1 l L else L, S)"
| al_make: "fresh p n A \<Longrightarrow> p \<noteq> activeRAM (myState A) \<Longrightarrow> setupMallocBlock p n t A = Inr A' \<Longrightarrow>
      al_step (A, L, S) (A', kept (allInactives A') L, S)"
| al_make_user: "fresh p n A \<Longrightarrow> setupUserSuppliedBlock p n t A = Inr A' \<Longrightarrow>
      al_step (A, L, S) (A', kept (allInactives A') L, S)"
| al_temp_user: "al_room L S \<Longrightarrow> clear_of p n (managed A) \<Longrightarrow> temporarilyUseBlockForAllocations p n A = Inr (st, A') \<Longrightarrow>
      al_step (A, L, S) (A', L, st # S)"
| al_temp: "al_room L S \<Longrightarrow> clear_of p n (managed A) \<Longrightarrow> temporarilyUseMallocBlock p n A = Inr (st, A') \<Longrightarrow>
      al_step (A, L, S) (A', L, st # S)"
| al_restore: "al_room L S \<Longrightarrow> restoreAllocationBlock st A = Inr A' \<Longrightarrow>
      al_step (A, L, st # S) (A', kept (managed A') L, S)"
| al_policy: "al_step (A, L, S) (al_setPolicy p A, L, S)"
| al_root: "getAllocationBlock x A = Inr (s, A') \<Longrightarrow> al_step (A, L, S) (A', L, S)"
| al_empty: "al_contains here A \<Longrightarrow> emptyOutBlock here A = Inr A' \<Longrightarrow> al_step (A, L, S) (A', kept (allInactives A) L, S)"
| al_clean: "cleanInactiveBlocks A = Inr A' \<Longrightarrow> al_step (A, L, []) (A', kept (managed A') L, [])"
| al_clean_size: "cleanInactiveBlocks_size n A = Inr A' \<Longrightarrow> al_step (A, L, []) (A', kept (managed A') L, [])"

inductive al_reachable :: "al_sys \<Rightarrow> bool" where
  al_start: "mallocs m = [] \<Longrightarrow> p + n \<le> 2 ^ 63 \<Longrightarrow> Allocator_new m p n = Inr A \<Longrightarrow> al_reachable (A, [], [])"
| al_more: "al_reachable X \<Longrightarrow> al_step X Y \<Longrightarrow> al_reachable Y"

definition al_ok :: "al_sys \<Rightarrow> bool" where
  "al_ok X \<longleftrightarrow> (case X of (A, L, S) \<Rightarrow> al_inv A L S \<and> policies_ok A)"

lemma setup_large:
  "setupUserSuppliedBlock p n t A = Inr A' \<Longrightarrow> 20 \<le> n" "setupMallocBlock p n t A = Inr A' \<Longrightarrow> 20 \<le> n"
  "temporarilyUseBlockForAllocations p n A = Inr (st, A') \<Longrightarrow> 20 \<le> n" "temporarilyUseMallocBlock p n A = Inr (st, A') \<Longrightarrow> 20 \<le> n"
  by (auto simp: setupUserSuppliedBlock_def setupMallocBlock_def temporarilyUseBlockForAllocations_def
      temporarilyUseMallocBlock_def setupBlock_def HEADER_SIZE_def res_simps split: if_splits)

lemma policies_ok_cong: "myPolicies A' = myPolicies A \<Longrightarrow> policies_ok A' = policies_ok A"
  by (simp add: policies_ok_def)

lemma getAllocationBlock_fields:
  assumes "getAllocationBlock x A = Inr (s, A')"
  shows "myState A' = myState A" "allInactives A' = allInactives A" "myPolicies A' = myPolicies A"
    "lastUsed (ram A') = lastUsed (ram A)" "chunkSize (ram A') = chunkSize (ram A)"
    "blockRefs (ram A') = blockRefs (ram A)" "mallocs (ram A') = mallocs (ram A)"
  using assms by (auto simp: getAllocationBlock_def Let_def res_simps split: if_splits option.splits)

lemma al_inv_root:
  assumes "al_inv A L S" and "getAllocationBlock x A = Inr (s, A')"
  shows "al_inv A' L S"
  using assms(1) getAllocationBlock_fields [OF assms(2)] ram_cong [of "ram A'" "ram A"]
  by (simp add: al_inv_def managed_def counts_ok_def saved_ok_def owned_ok_def)

text \<open>
  Besides the invariant, what is free in the block of a saved state does not change, nor does what is used.
\<close>

definition frozen :: "AllocatorState \<Rightarrow> allocator \<Rightarrow> allocator \<Rightarrow> bool" where
  "frozen st A A' \<longleftrightarrow> lastUsed (ram A') (activeRAM st) = lastUsed (ram A) (activeRAM st) \<and>
     (\<forall>c \<in> set (st_chunks st). chunkSize (ram A') c = chunkSize (ram A) c)"

lemma saved_not_active:
  assumes "al_inv A L S" and "st \<in> set S"
  shows "activeRAM st \<noteq> activeRAM (myState A)"
  using saved_in_active [OF assms(1)] assms(2) by (auto simp: saved_in_zero image_iff)

lemma saved_clear:
  assumes "al_inv A L S" and "st \<in> set S" and "clear_of p n I" and "set (allInactives A) \<subseteq> set I" and "20 \<le> n"
  shows "p \<noteq> activeRAM st"
proof -
  have b: "active_block st \<in> set (allInactives A)" using al_invD(5) [OF assms(1)] assms(2) by (simp add: saved_ok_def)
  then have "0 < a_numBytes st"
    using blocks_okD(2) [OF al_invD(1) [OF assms(1)], of "active_block st"] by (simp add: managed_def)
  then show ?thesis using clear_of_active [OF assms(3,5), of st] b assms(4) by auto
qed

lemma saved_fresh:
  assumes "al_inv A L S" and "st \<in> set S" and "fresh p n A" and "20 \<le> n"
  shows "p \<noteq> activeRAM st"
proof -
  have "set (allInactives A) \<subseteq> set (if curBlockUserSupplied (myState A) then allInactives A else managed A)"
    by (auto simp: managed_def)
  from saved_clear [OF assms(1,2) _ this assms(4)] show ?thesis using assms(3) by (simp add: fresh_def)
qed

lemma al_step_ok:
  assumes "al_step X Y" and "al_ok X"
  shows "al_ok Y \<and> (\<forall>st \<in> set (snd (snd X)). frozen st (fst X) (fst Y))"
  using assms
proof (induction rule: al_step.induct)
  case (al_get L S h A r A')
  then have inv: "al_inv A L S" "policies_ok A" by (auto simp: al_ok_def)
  have g: "got h A L S (Inr (r, A'))" using getRAM_got [OF inv al_get(1,2)] al_get(3) by simp
  have "frozen st A A'" if "st \<in> set S" for st
  proof (cases "r = 0")
    case True
    then show ?thesis using g by (simp add: got_def frozen_def)
  next
    case False
    have "c \<in> set (chunk_list (myState A # S) L)" if "c \<in> set (st_chunks st)" for c
      using that \<open>st \<in> set S\<close> by (auto simp: chunk_list_def)
    then show ?thesis using g False saved_not_active [OF inv(1) that] by (simp add: got_def frozen_def)
  qed
  then show ?case using g inv by (auto simp: al_ok_def got_def same_blocks_def policies_ok_def split: if_splits)
next
  case (al_free L S l A A')
  then have inv: "al_inv A L S" "policies_ok A" by (auto simp: al_ok_def)
  have "freed (counting A) l A L S A'" using freeRAM_freed [OF inv al_free(1,2)] al_free(3) by simp
  then show ?case using inv(2) by (auto simp: al_ok_def freed_def frozen_def policies_ok_def)
next
  case (al_make p n A t A' L S)
  then have inv: "al_inv A L S" "policies_ok A" by (auto simp: al_ok_def)
  note n = setup_large(2) [OF al_make(3)]
  have sw: "switched p n A L S A'" using setupMalloc_ok [OF inv(1) al_make(1) n al_make(2), of t] al_make(3) by auto
  have "p \<noteq> activeRAM st" if "st \<in> set S" for st
    by (rule saved_fresh [OF inv(1) that al_make(1) n])
  then show ?case using sw inv by (auto simp: al_ok_def switched_def frozen_def policies_ok_def)
next
  case (al_make_user p n A t A' L S)
  then have inv: "al_inv A L S" "policies_ok A" by (auto simp: al_ok_def)
  note n = setup_large(1) [OF al_make_user(2)]
  have sw: "switched p n A L S A'" using setupUser_ok [OF inv(1) al_make_user(1) n, of t] al_make_user(2) by auto
  have "p \<noteq> activeRAM st" if "st \<in> set S" for st
    by (rule saved_fresh [OF inv(1) that al_make_user(1) n])
  then show ?case using sw inv by (auto simp: al_ok_def switched_def frozen_def policies_ok_def)
next
  case (al_temp_user L S p n A st A')
  then have inv: "al_inv A L S" "policies_ok A" by (auto simp: al_ok_def)
  note n = setup_large(3) [OF al_temp_user(3)]
  have te: "temporary p n A L S st A'" using temporarilyUse_ok [OF inv(1) al_temp_user(1,2) n] al_temp_user(3) by auto
  have "p \<noteq> activeRAM st'" if "st' \<in> set S" for st'
    using saved_clear [OF inv(1) that al_temp_user(2) _ n] by (auto simp: managed_def)
  then show ?case using te inv by (auto simp: al_ok_def temporary_def frozen_def policies_ok_def)
next
  case (al_temp L S p n A st A')
  then have inv: "al_inv A L S" "policies_ok A" by (auto simp: al_ok_def)
  note n = setup_large(4) [OF al_temp(3)]
  have te: "temporary p n A L S st A'" using temporarilyUseMalloc_ok [OF inv(1) al_temp(1,2) n] al_temp(3) by auto
  have "p \<noteq> activeRAM st'" if "st' \<in> set S" for st'
    using saved_clear [OF inv(1) that al_temp(2) _ n] by (auto simp: managed_def)
  then show ?case using te inv by (auto simp: al_ok_def temporary_def frozen_def policies_ok_def)
next
  case (al_restore L S st A A')
  then have inv: "al_inv A L (st # S)" "policies_ok A" by (auto simp: al_ok_def)
  then show ?case using restoreAllocationBlock_ok [OF inv(1) al_restore(1)] al_restore(2)
    by (auto simp: al_ok_def frozen_def policies_ok_def)
next
  case (al_policy A L S p)
  then have "al_inv (al_setPolicy p A) L S"
    by (simp add: al_ok_def al_setPolicy_def al_inv_def managed_def counts_ok_def saved_ok_def owned_ok_def)
  then show ?case using al_policy policies_set [of A p] by (simp add: al_ok_def frozen_def al_setPolicy_def)
next
  case (al_root x A s A' L S)
  then show ?case using al_inv_root [of A L S x s A'] getAllocationBlock_fields [OF al_root(1)]
    by (simp add: al_ok_def frozen_def policies_ok_def)
next
  case (al_empty here A A' L S)
  then show ?case using emptyOut_active_ok [of A L S here A'] by (simp add: al_ok_def frozen_def policies_ok_def)
next
  case (al_clean A A' L)
  then show ?case using clean_blocks_ok [of A L "\<lambda>_. True"] by (auto simp: al_ok_def cleaned_def cleanInactiveBlocks_def policies_ok_def)
next
  case (al_clean_size n A A' L)
  then show ?case using clean_blocks_ok [of A L "\<lambda>b. b_end b - b_start b = n"]
    by (auto simp: al_ok_def cleaned_def cleanInactiveBlocks_size_def policies_ok_def)
qed

lemma pk_inv_empty: "mallocs m = [] \<Longrightarrow> pk_inv m [] [] []"
  by (simp add: pk_inv_def blocks_ok_def chunks_ok_def chunk_list_def)

lemma Allocator_new_ok:
  assumes "mallocs m = []" and "p + n \<le> 2 ^ 63" and "Allocator_new m p n = Inr A"
  shows "al_ok (A, [], [])"
proof -
  have n: "20 \<le> n" "0 < p" and A: "myState A = \<lparr>activeRAM = p, a_numBytes = n, throwException = True, curBlockUserSupplied = False,
      a_chunks = replicate 32 []\<rparr>" "allInactives A = []" "myPolicies A = setPolicy defaultAllocator Allocator_policies"
      "ram A = m\<lparr>lastUsed := (lastUsed m)(p := 20), blockRefs := (blockRefs m)(p := 0), mallocs := [(p, n)]\<rparr>"
    using assms(1,3)
    by (auto simp: Allocator_new_def setupMallocBlock_def setupBlock_def HEADER_SIZE_def Let_def clear_chunks_def
        mallocAt_def upd_ram_def al_setPolicy_def map_replicate_const res_simps split: if_splits)
  have "al_inv A [] []"
    by (rule enter_ok [OF pk_inv_empty [OF assms(1)], of p n])
       (use n A assms in \<open>simp_all add: clear_of_def active_block_def\<close>)
  moreover have "policies_ok A" by (simp add: policies_ok_def A(3) Allocator_policies_def)
  ultimately show ?thesis by (simp add: al_ok_def)
qed

lemma al_reachable_ok: "al_reachable X \<Longrightarrow> al_ok X"
  by (induction rule: al_reachable.induct) (auto dest: Allocator_new_ok al_step_ok)

section \<open>Properties\<close>

definition usable :: "allocator \<Rightarrow> nat \<Rightarrow> nat" where
  "usable A l = chunkSize (ram A) (l - 4) - 4"

lemma live_objects_apart:
  assumes "al_inv A L S" and l: "l \<in> set L" "l' \<in> set L" "l \<noteq> l'"
  shows "l + usable A l \<le> l' - 4 \<or> l' + usable A l' \<le> l - 4"
proof -
  note ch = al_invD(3) [OF assms(1)]
  let ?K = "chunk_list (myState A # S) L"
  have ok: "4 \<le> l" "4 \<le> l'" "8 \<le> chunkSize (ram A) (l - 4)" "8 \<le> chunkSize (ram A) (l' - 4)"
    using ch l by (auto simp: chunks_ok_def live_ok_def chunk_in_def)
  have "l - 4 \<in> set ?K" "l' - 4 \<in> set ?K" "l - 4 \<noteq> l' - 4" using l ok by (auto simp: chunk_list_def)
  then have "apart_chunks (ram A) (l - 4) (l' - 4)" using ch by (auto simp: chunks_ok_def dest: pairwiseD)
  then show ?thesis using ok unfolding apart_chunks_def usable_def by linarith
qed

lemma live_object_inside:
  assumes inv: "al_inv A L S" and l: "l \<in> set L"
  shows "\<exists>b \<in> set (managed A). b_start b + 24 \<le> l \<and> l + usable A l \<le> b_end b \<and> 4 \<le> usable A l \<and> 4 dvd (l - b_start b)"
proof -
  have "live_ok (ram A) (managed A) l" using al_invD(3) [OF inv] l by (simp add: chunks_ok_def)
  then obtain b where b: "b \<in> set (managed A)" "chunk_in (ram A) (b_start b) (l - 4)" "b_start b + 24 \<le> l"
    by (rule live_block [OF al_invD(1) [OF inv]])
  have "l - b_start b = (l - 4 - b_start b) + 4" using b(3) by simp
  then have "4 dvd (l - b_start b)" using b(2) unfolding chunk_in_def by (metis dvd_add_triv_right_iff)
  moreover have "l + usable A l \<le> b_end b" "4 \<le> usable A l"
    using chunk_inside [OF al_invD(1) [OF inv] b(1,2)] b(2,3) by (auto simp: usable_def chunk_in_def)
  ultimately show ?thesis using b by blast
qed

lemma live_distinct: "al_inv A L S \<Longrightarrow> distinct L"
  using al_invD(3) [of A L S] by (auto simp: chunks_ok_def chunk_list_def distinct_map)

text \<open>
  C23: the objects a thread has got and not freed lie behind the header of a block the allocator manages, aligned
  to four bytes relative to its start, and no two of them, chunk headers included, share a byte; whatever
  sequence of requests, frees, block changes and policies led there.
\<close>

theorem live_objects_disjoint:
  assumes "al_reachable (A, L, S)"
  shows "distinct L \<and> (\<forall>l \<in> set L. \<exists>b \<in> set (managed A). b_start b + 24 \<le> l \<and> l + usable A l \<le> b_end b \<and>
      4 \<le> usable A l \<and> 4 dvd (l - b_start b)) \<and>
    (\<forall>l \<in> set L. \<forall>l' \<in> set L. l \<noteq> l' \<longrightarrow> l + usable A l \<le> l' - 4 \<or> l' + usable A l' \<le> l - 4)"
proof -
  have inv: "al_inv A L S" using al_reachable_ok [OF assms] by (simp add: al_ok_def)
  show ?thesis using live_distinct [OF inv] live_object_inside [OF inv] live_objects_apart [OF inv] by blast
qed

text \<open>A block of 100 bytes at address 1000, two objects in it, the first freed, a temporary block at 5000.\<close>

definition ram0 :: ram where
  "ram0 = \<lparr>lastUsed = \<lambda>_. 0, offsetToObject = \<lambda>_. 0, blockRefs = \<lambda>_. 0, chunkSize = \<lambda>_. 0, mallocs = []\<rparr>"

definition al0 :: allocator where
  "al0 = projr (Allocator_new ram0 1000 100)"

definition al1 :: allocator where
  "al1 = snd (projr (getRAM 8 al0))"

definition al2 :: allocator where
  "al2 = snd (projr (getRAM 5 al1))"

definition al3 :: allocator where
  "al3 = snd (projr (temporarilyUseBlockForAllocations 5000 64 al2))"

named_theorems al_exec \<open>execution of the allocator on concrete states\<close>

lemmas al_exec_defs [al_exec] = Allocator_new_def setupMallocBlock_def setupBlock_def HEADER_SIZE_def clear_chunks_def
  mallocAt_def upd_ram_def al_setPolicy_def Allocator_policies_def map_replicate_const getRAM_def policy_defs
  defaultGetRAM_def fastGetRAM_def bytesNeeded_def CHUNK_HEADER_SIZE_def chunk_class_def carve_def inc_refs_def dec_refs_def
  ram0_def vec_at_def freeRAM_def defaultFreeRAM_def al_contains_def Let_def
  temporarilyUseBlockForAllocations_def phantom_reference_def setupUserSuppliedBlock_def retire_block_def

lemma top_bit_numeral [al_exec]:
  "top_bit (numeral k) = (if numeral k < (2::nat) then 0 else Suc (top_bit (numeral k div 2)))" "top_bit 0 = 0" "top_bit 1 = 0"
  "top_bit (Suc 0) = 0"
  by (subst top_bit.simps, simp)+

lemma find_chunk_empty [al_exec]: "find_chunk sz need (replicate 32 []) i = Inr None"
proof (induction sz need "replicate 32 [] :: nat list list" i rule: find_chunk.induct)
  case (1 sz need i)
  then show ?case by (subst find_chunk.simps) (simp add: vec_at_def)
qed

lemma al_runs:
  "Allocator_new ram0 1000 100 = Inr al0" "getRAM 8 al0 = Inr (1024, al1)" "getRAM 5 al1 = Inr (1036, al2)"
  "temporarilyUseBlockForAllocations 5000 64 al2 = Inr (myState al2, al3)"
  by (simp_all add: al0_def al1_def al2_def al3_def al_exec)

lemma al_demo_reachable: "al_reachable (al2, [1036, 1024], [])" "al_reachable (al3, [1036, 1024], [myState al2])"
proof -
  have r: "request_ok 8" "request_ok 5" by (simp_all add: request_ok_def)
  have "al_reachable (al0, [], [])" by (rule al_start [OF _ _ al_runs(1)]) (simp_all add: ram0_def)
  from al_more [OF this al_get [OF _ r(1) al_runs(2)]] have "al_reachable (al1, [1024], [])" by (simp add: al_room_def)
  from al_more [OF this al_get [OF _ r(2) al_runs(3)]] show two: "al_reachable (al2, [1036, 1024], [])"
    by (simp add: al_room_def)
  have "clear_of 5000 64 (managed al2)"
    by (simp add: clear_of_def managed_def active_block_def apart_blocks_def al2_def al1_def al0_def al_exec)
  from al_more [OF two al_temp_user [OF _ this al_runs(4)]] show "al_reachable (al3, [1036, 1024], [myState al2])"
    by (simp add: al_room_def)
qed

theorem live_objects_disjoint_witness:
  "distinct [1036, 1024 :: nat] \<and> (1036 + usable al2 1036 \<le> 1024 - 4 \<or> 1024 + usable al2 1024 \<le> 1036 - 4)"
  using live_objects_disjoint [OF al_demo_reachable(1)] by simp

text \<open>
  C24: in every state that the steps of \<open>al_step\<close> reach (requests, frees, changes of block, temporary blocks and their
  restoration, policies, emptying the active block, dropping the inactive blocks where no state is saved; not emptying
  a block that is not active, which leaks): the counter in the header of a managed block is the number of live objects in the block, plus one while
  the block waits to be restored; a block that is not active and is kept holds an object or will be restored; and what
  the allocator has from \<^verbatim>\<open>malloc\<close> is exactly the managed blocks the user did not supply, so that nothing
  leaks and nothing in use has been freed.
\<close>

theorem reference_counts_exact:
  assumes "al_reachable (A, L, S)"
  shows "(\<forall>b \<in> set (managed A). blockRefs (ram A) (b_start b) = live_in b L + saved_in b S) \<and>
    (\<forall>b \<in> set (allInactives A). 0 < blockRefs (ram A) (b_start b)) \<and>
    set (mallocs (ram A)) = region ` {b \<in> set (managed A). b_start b \<notin> user_starts (myState A # S)}"
proof -
  have inv: "al_inv A L S" using al_reachable_ok [OF assms] by (simp add: al_ok_def)
  show ?thesis using al_invD(4,6) [OF inv] by (auto simp: counts_ok_def owned_ok_def managed_def)
qed

theorem reference_counts_exact_witness:
  "blockRefs (ram al3) 1000 = 3 \<and> mallocs (ram al3) = [(1000, 100)]"
proof -
  have "set (managed al3) = {\<lparr>b_start = 5000, b_end = 5064\<rparr>, \<lparr>b_start = 1000, b_end = 1100\<rparr>}"
    by (auto simp: managed_def active_block_def al3_def al2_def al1_def al0_def al_exec)
  then have "blockRefs (ram al3) 1000 = live_in \<lparr>b_start = 1000, b_end = 1100\<rparr> [1036, 1024] +
      saved_in \<lparr>b_start = 1000, b_end = 1100\<rparr> [myState al2]"
    using reference_counts_exact [OF al_demo_reachable(2)] by simp
  then show ?thesis
    by (simp add: live_in_def saved_in_def in_block_def al3_def al2_def al1_def al0_def al_exec)
qed

text \<open>
  C26: no call of a thread on its allocator has undefined behaviour: a request returns memory or reports that the
  block is full, with an exception or a null pointer as the block was set up; freeing a live object, starting a
  block in fresh memory of at least 20 bytes, using one temporarily and restoring the last saved state return.
\<close>

theorem allocator_calls_safe:
  assumes "al_reachable (A, L, S)" and "al_room L S"
  shows "(request_ok h \<longrightarrow> (case getRAM h A of
        Inl e \<Rightarrow> e = Throw ''NotEnoughSpace'' \<and> throwException (myState A)
      | Inr (r, A') \<Rightarrow> r = 0 \<longrightarrow> A' = A \<and> \<not> throwException (myState A))) \<and>
    (l \<in> set L \<longrightarrow> (\<exists>A'. freeRAM l A = Inr A')) \<and>
    (fresh p n A \<and> 20 \<le> n \<longrightarrow> (\<exists>A'. setupUserSuppliedBlock p n t A = Inr A')) \<and>
    (fresh p n A \<and> 20 \<le> n \<and> p \<noteq> activeRAM (myState A) \<longrightarrow> (\<exists>A'. setupMallocBlock p n t A = Inr A')) \<and>
    (clear_of p n (managed A) \<and> 20 \<le> n \<longrightarrow> (\<exists>A'. temporarilyUseBlockForAllocations p n A = Inr (myState A, A'))) \<and>
    (clear_of p n (managed A) \<and> 20 \<le> n \<longrightarrow> (\<exists>A'. temporarilyUseMallocBlock p n A = Inr (myState A, A'))) \<and>
    (S = st # S' \<longrightarrow> (\<exists>A'. restoreAllocationBlock st A = Inr A' \<and> myState A' = st))"
proof (intro conjI impI)
  have inv: "al_inv A L S" and pol: "policies_ok A" using al_reachable_ok [OF assms(1)] by (auto simp: al_ok_def)
  show "case getRAM h A of
        Inl e \<Rightarrow> e = Throw ''NotEnoughSpace'' \<and> throwException (myState A)
      | Inr (r, A') \<Rightarrow> r = 0 \<longrightarrow> A' = A \<and> \<not> throwException (myState A)" if "request_ok h"
    using getRAM_got [OF inv pol assms(2) that] by (auto simp: got_def split: sum.splits)
  show "\<exists>A'. freeRAM l A = Inr A'" if "l \<in> set L" using freeRAM_freed [OF inv pol assms(2) that] by blast
  show "\<exists>A'. setupUserSuppliedBlock p n t A = Inr A'" if "fresh p n A \<and> 20 \<le> n"
    using setupUser_ok [OF inv] that by blast
  show "\<exists>A'. setupMallocBlock p n t A = Inr A'" if "fresh p n A \<and> 20 \<le> n \<and> p \<noteq> activeRAM (myState A)"
    using setupMalloc_ok [OF inv] that by blast
  show "\<exists>A'. temporarilyUseBlockForAllocations p n A = Inr (myState A, A')" if "clear_of p n (managed A) \<and> 20 \<le> n"
    using temporarilyUse_ok [OF inv assms(2)] that by (fastforce simp: temporary_def)
  show "\<exists>A'. temporarilyUseMallocBlock p n A = Inr (myState A, A')" if "clear_of p n (managed A) \<and> 20 \<le> n"
    using temporarilyUseMalloc_ok [OF inv assms(2)] that by (fastforce simp: temporary_def)
  show "\<exists>A'. restoreAllocationBlock st A = Inr A' \<and> myState A' = st" if S: "S = st # S'"
  proof -
    have "al_room L S'" using assms(2) S by (simp add: al_room_def)
    then show ?thesis using restoreAllocationBlock_ok [OF inv [unfolded S]] by blast
  qed
qed

theorem allocator_calls_safe_witness:
  "(\<exists>A'. freeRAM 1024 al3 = Inr A') \<and> (\<exists>A'. restoreAllocationBlock (myState al2) al3 = Inr A' \<and> myState A' = myState al2)"
  using allocator_calls_safe [OF al_demo_reachable(2), where l = 1024] by (simp add: al_room_def)

text \<open>
  Memory that a request returns lies in the active block, is at least as large as requested, touches no
  live object, and leaves the size of every live object as it was; the block counts one object more.
\<close>

theorem getRAM_fits:
  assumes "al_reachable (A, L, S)" and "al_room L S" and "request_ok h" and "getRAM h A = Inr (r, A')" and "r \<noteq> 0"
  shows "al_contains r A \<and> h \<le> usable A' r \<and> r \<notin> set L \<and>
    (\<forall>l \<in> set L. usable A' l = usable A l \<and> (r + usable A' r \<le> l - 4 \<or> l + usable A l \<le> r - 4)) \<and>
    getNumObjectsInCurrentAllocatorBlock A' = getNumObjectsInCurrentAllocatorBlock A + 1"
proof -
  have inv: "al_inv A L S" and pol: "policies_ok A" using al_reachable_ok [OF assms(1)] by (auto simp: al_ok_def)
  have g: "al_inv A' (r # L) S" "same_blocks A A'" "al_contains r A" "h + 4 \<le> chunkSize (ram A') (r - 4)"
    "\<And>l. l \<in> set L \<Longrightarrow> usable A' l = usable A l"
    using getRAM_got [OF inv pol assms(2,3)] assms(4,5) by (auto simp: got_def chunk_list_def usable_def)
  have new: "r \<notin> set L" using live_distinct [OF g(1)] by simp
  have "r + usable A' r \<le> l - 4 \<or> l + usable A l \<le> r - 4" if "l \<in> set L" for l
    using live_objects_apart [OF g(1), of r l] that new g(5) by auto
  moreover have "getNumObjectsInCurrentAllocatorBlock A' = getNumObjectsInCurrentAllocatorBlock A + 1"
  proof -
    let ?a = "active_block (myState A)"
    have act: "active_block (myState A') = ?a" "activeRAM (myState A') = activeRAM (myState A)"
      using g(2) by (simp_all add: same_blocks_def active_block_def)
    have "in_block ?a r" using g(3) by (simp add: contains_active)
    then show ?thesis
      using al_invD(4) [OF inv] al_invD(4) [OF g(1)] act
      by (simp add: counts_ok_def managed_def getNumObjectsInCurrentAllocatorBlock_def live_in_Cons)
  qed
  ultimately show ?thesis using g new by (auto simp: usable_def)
qed

theorem getRAM_fits_witness:
  "5 \<le> usable al2 1036 \<and> usable al2 1024 = usable al1 1024 \<and> getNumObjectsInCurrentAllocatorBlock al2 = 2"
proof -
  have r: "request_ok 8" "request_ok 5" by (simp_all add: request_ok_def)
  have "al_reachable (al0, [], [])" by (rule al_start [OF _ _ al_runs(1)]) (simp_all add: ram0_def)
  from al_more [OF this al_get [OF _ r(1) al_runs(2)]] have "al_reachable (al1, [1024], [])" by (simp add: al_room_def)
  from getRAM_fits [OF this _ r(2) al_runs(3)]
  have "5 \<le> usable al2 1036 \<and> usable al2 1024 = usable al1 1024 \<and>
      getNumObjectsInCurrentAllocatorBlock al2 = getNumObjectsInCurrentAllocatorBlock al1 + 1"
    by (simp add: al_room_def)
  then show ?thesis
    by (simp add: getNumObjectsInCurrentAllocatorBlock_def al1_def al0_def al_exec)
qed

text \<open>
  C27: a policy that reuses memory fails on a request only if no free chunk of the block is large enough and the
  unused end of the block is too small: searching the classes from that of the request on misses no chunk.
\<close>

theorem getRAM_fails_iff_full:
  assumes "al_reachable (A, L, S)" and "al_room L S" and "request_ok h"
    and "current_policy (myPolicies A) \<noteq> Some noReuseAllocator"
  shows "(\<nexists>r A'. getRAM h A = Inr (r, A') \<and> r \<noteq> 0) \<longleftrightarrow>
    (\<forall>i<32. \<forall>c \<in> set (a_chunks (myState A) ! i). chunkSize (ram A) c < bytesNeeded h) \<and>
    getFreeBytesAtTheEnd A < bytesNeeded h"
proof -
  have inv: "al_inv A L S" and pol: "policies_ok A" using al_reachable_ok [OF assms(1)] by (auto simp: al_ok_def)
  obtain p where p: "current_policy (myPolicies A) = Some p" "p \<noteq> noReuseAllocator"
    using pol assms(4) by (auto simp: policies_ok_def)
  then have "getRAM h A = defaultGetRAM h A"
    by (cases p) (simp_all add: getRAM_def current_policy_dispatch policy_defs)
  moreover have "chunks_full (bytesNeeded h) A \<longleftrightarrow>
      (\<forall>i<32. \<forall>c \<in> set (a_chunks (myState A) ! i). chunkSize (ram A) c < bytesNeeded h)"
    using in_st_chunks [OF al_inv_chunks [OF inv]] by (auto simp: chunks_full_def)
  moreover have "tail_full (bytesNeeded h) A \<longleftrightarrow> getFreeBytesAtTheEnd A < bytesNeeded h"
  proof -
    have "block_ok (ram A) (active_block (myState A))" by (rule blocks_okD(1) [OF al_invD(1) [OF inv] active_managed])
    then have le: "lastUsed (ram A) (activeRAM (myState A)) \<le> a_numBytes (myState A)" "a_numBytes (myState A) < 2 ^ 64"
      by (auto simp: block_ok_def)
    then have "a_numBytes (myState A) + 2 ^ 64 - lastUsed (ram A) (activeRAM (myState A)) =
        (a_numBytes (myState A) - lastUsed (ram A) (activeRAM (myState A))) + 2 ^ 64" by linarith
    then have "getFreeBytesAtTheEnd A = a_numBytes (myState A) - lastUsed (ram A) (activeRAM (myState A))"
      using le(2) by (simp only: getFreeBytesAtTheEnd_def mod_add_self2) simp
    then show ?thesis using le(1) by (auto simp: tail_full_def)
  qed
  ultimately show ?thesis using defaultGetRAM_got [OF inv assms(2,3)] by simp
qed

theorem getRAM_fails_iff_full_witness:
  "\<not> (\<exists>r A'. getRAM 60 al2 = Inr (r, A') \<and> r \<noteq> 0)"
proof -
  have b: "a_chunks (myState al2) = replicate 32 []" "getFreeBytesAtTheEnd al2 = 56"
    "current_policy (myPolicies al2) = Some defaultAllocator"
    by (simp_all add: getFreeBytesAtTheEnd_def al2_def al1_def al0_def al_exec)
  then have "current_policy (myPolicies al2) \<noteq> Some noReuseAllocator" by simp
  from getRAM_fails_iff_full [OF al_demo_reachable(1) _ _ this, of 60] show ?thesis
    using b by (simp add: al_room_def request_ok_def bytesNeeded_def CHUNK_HEADER_SIZE_def)
qed

text \<open>
  Freeing an object of a block that is not active releases the block if and only if it was the last reference
  to it, and never another block.
\<close>

theorem last_object_releases_block:
  assumes "al_reachable (A, L, S)" and "al_room L S" and "counting A" and "l \<in> set L" and "freeRAM l A = Inr A'"
  shows "\<forall>b \<in> set (allInactives A). b \<in> set (allInactives A') \<longleftrightarrow> \<not> in_block b l \<or> blockRefs (ram A) (b_start b) \<noteq> 1"
proof -
  have inv: "al_inv A L S" and pol: "policies_ok A" using al_reachable_ok [OF assms(1)] by (auto simp: al_ok_def)
  have "freed True l A L S A'" using freeRAM_freed [OF inv pol assms(2,4)] assms(3,5) by simp
  then show ?thesis using al_invD(4) [OF inv] by (simp add: freed_def counts_ok_def managed_def)
qed

text \<open>The block at 1000 holds one object and is given up for one at 2000.\<close>

definition al4 :: allocator where
  "al4 = projr (setupMallocBlock 2000 100 True al1)"

lemma al4_run: "setupMallocBlock 2000 100 True al1 = Inr al4"
  by (simp add: al4_def al1_def al0_def al_exec)

lemma al4_reachable: "al_reachable (al4, [1024], [])"
proof -
  have "request_ok 8" by (simp add: request_ok_def)
  moreover have "al_reachable (al0, [], [])" by (rule al_start [OF _ _ al_runs(1)]) (simp_all add: ram0_def)
  ultimately have "al_reachable (al1, [1024], [])" using al_more [OF _ al_get [OF _ _ al_runs(2)]] by (simp add: al_room_def)
  moreover have "fresh 2000 100 al1" "2000 \<noteq> activeRAM (myState al1)"
    by (simp_all add: fresh_def clear_of_def managed_def active_block_def apart_blocks_def al1_def al0_def al_exec)
  moreover have "kept (allInactives al4) [1024] = [1024]"
    by (simp add: kept_def in_block_def al4_def al1_def al0_def al_exec)
  ultimately show ?thesis using al_more [OF _ al_make [OF _ _ al4_run]] by metis
qed

theorem last_object_releases_block_witness:
  "\<exists>A'. freeRAM 1024 al4 = Inr A' \<and> \<lparr>b_start = 1000, b_end = 1100\<rparr> \<notin> set (allInactives A')"
proof -
  have c: "counting al4" "al_room [1024] []" by (simp_all add: counting_def al_room_def al4_def al1_def al0_def al_exec)
  obtain A' where A': "freeRAM 1024 al4 = Inr A'"
    using freeRAM_freed [of al4 "[1024]" "[]" 1024] al_reachable_ok [OF al4_reachable] c(2) by (auto simp: al_ok_def)
  have "\<lparr>b_start = 1000, b_end = 1100\<rparr> \<in> set (allInactives al4)" "blockRefs (ram al4) 1000 = 1"
    by (simp_all add: al4_def al1_def al0_def al_exec)
  then show ?thesis
    using last_object_releases_block [OF al4_reachable c(2,1) _ A'] A' by (auto simp: in_block_def)
qed

text \<open>The steps of a thread that never restores below the state \<open>st\<close> on the stack \<open>st # S\<close>.\<close>

inductive al_inside :: "AllocatorState list \<Rightarrow> al_sys \<Rightarrow> al_sys \<Rightarrow> bool" for T where
  al_inside_refl: "al_inside T X X"
| al_inside_step: "al_inside T X (A, L, S') \<Longrightarrow> al_step (A, L, S') (A1, L1, S1 @ T) \<Longrightarrow> al_inside T X (A1, L1, S1 @ T)"

lemma al_inside_frozen:
  assumes "al_inside T X Y" and "al_ok X" and "snd (snd X) = T"
  shows "al_ok Y \<and> (\<exists>S1. snd (snd Y) = S1 @ T) \<and> (\<forall>st \<in> set T. frozen st (fst X) (fst Y))"
  using assms
proof (induction rule: al_inside.induct)
  case (al_inside_refl X)
  then show ?case by (simp add: frozen_def)
next
  case (al_inside_step X A L S' A1 L1 S1)
  then have IH: "al_ok (A, L, S')" "\<And>st. st \<in> set T \<Longrightarrow> frozen st (fst X) A" "set T \<subseteq> set S'" by auto
  have "al_ok (A1, L1, S1 @ T)" "\<And>st. st \<in> set S' \<Longrightarrow> frozen st A A1"
    using al_step_ok [OF al_inside_step(2) IH(1)] by auto
  then show ?case using IH by (auto simp: frozen_def)
qed

text \<open>
  C25: a block that is used temporarily, supplied by the user or from \<^verbatim>\<open>malloc\<close>, leaves no trace: after any work in
  between, restoring the saved state returns and the old block is active again with the same free chunks, the same free
  space at its end and the same bytes available. Its counter, before the number of its objects among the live ones
  \<open>L\<close>, is then their number among \<open>L2\<close>, those live after the work (fewer when objects of the old block were freed
  meanwhile).
\<close>

theorem temporary_block_roundtrip:
  assumes "al_reachable (A, L, S)" and "al_room L S" and "clear_of p n (managed A)"
    and "temporarilyUseBlockForAllocations p n A = Inr (st, A1) \<or> temporarilyUseMallocBlock p n A = Inr (st, A1)"
    and "al_inside (st # S) (A1, L, st # S) (A2, L2, st # S)" and "al_room L2 S"
  shows "\<exists>A3. restoreAllocationBlock st A2 = Inr A3 \<and> myState A3 = myState A \<and>
    getFreeBytesAtTheEnd A3 = getFreeBytesAtTheEnd A \<and>
    getBytesAvailableInCurrentAllocatorBlock A3 = getBytesAvailableInCurrentAllocatorBlock A \<and>
    getNumObjectsInCurrentAllocatorBlock A = live_in (active_block (myState A)) L \<and>
    getNumObjectsInCurrentAllocatorBlock A3 = live_in (active_block (myState A)) L2"
proof -
  have ok: "al_inv A L S" "policies_ok A" using al_reachable_ok [OF assms(1)] by (auto simp: al_ok_def)
  have n: "20 \<le> n" using setup_large(3,4) assms(4) by blast
  have te: "temporary p n A L S st A1"
    using temporarilyUse_ok [OF ok(1) assms(2,3) n] temporarilyUseMalloc_ok [OF ok(1) assms(2,3) n] assms(4) by auto
  then have st: "st = myState A" and ok1: "al_ok (A1, L, st # S)"
    using ok(2) by (auto simp: temporary_def al_ok_def policies_ok_def)
  have "p \<noteq> activeRAM st"
    using clear_of_active [OF assms(3) n active_managed] blocks_okD(2) [OF al_invD(1) [OF ok(1)] active_managed] st by simp
  then have "frozen st A A1" using te by (simp add: temporary_def frozen_def)
  moreover have ok2: "al_ok (A2, L2, st # S)" "frozen st A1 A2" using al_inside_frozen [OF assms(5) ok1] by auto
  ultimately have fr: "frozen st A A2" by (simp add: frozen_def)
  have inv2: "al_inv A2 L2 (st # S)" using ok2(1) by (simp add: al_ok_def)
  obtain A3 where A3: "restoreAllocationBlock st A2 = Inr A3" "al_inv A3 (kept (managed A3) L2) S" "myState A3 = st"
    "chunkSize (ram A3) = chunkSize (ram A2)" "lastUsed (ram A3) = lastUsed (ram A2)"
    using restoreAllocationBlock_ok [OF inv2 assms(6)] by blast
  have ends: "getFreeBytesAtTheEnd A3 = getFreeBytesAtTheEnd A"
    using fr A3 st by (simp add: getFreeBytesAtTheEnd_def frozen_def)
  have "foldl (\<lambda>n c. (n + chunkSize (ram A3) c) mod 2 ^ 32) k cs = foldl (\<lambda>n c. (n + chunkSize (ram A) c) mod 2 ^ 32) k cs"
    if "set cs \<subseteq> set (st_chunks st)" for k cs
    using that fr A3(4) by (induction cs arbitrary: k) (auto simp: frozen_def)
  from this [of "st_chunks st" 0]
  have "getBytesAvailableInCurrentAllocatorBlock A3 = getBytesAvailableInCurrentAllocatorBlock A"
    using ends A3(3) st by (simp add: getBytesAvailableInCurrentAllocatorBlock_def Let_def st_chunks_def)
  moreover have "live_in (active_block st) (kept (managed A3) L2) = live_in (active_block st) L2"
    using live_in_kept [of "active_block st" "managed A3"] A3(3) active_managed [of A3] by simp
  then have "getNumObjectsInCurrentAllocatorBlock A3 = live_in (active_block st) L2"
    using al_invD(4) [OF A3(2)] saved_in_active [OF A3(2)] A3(3)
    by (simp add: counts_ok_def managed_def getNumObjectsInCurrentAllocatorBlock_def)
  moreover have "getNumObjectsInCurrentAllocatorBlock A = live_in (active_block st) L"
    using al_invD(4) [OF ok(1)] saved_in_active [OF ok(1)] st by (simp add: counts_ok_def managed_def getNumObjectsInCurrentAllocatorBlock_def)
  ultimately show ?thesis using A3(1,3) ends st by (intro exI [of _ A3]) simp
qed

theorem temporary_block_roundtrip_witness:
  "\<exists>A3. restoreAllocationBlock (myState al2) al3 = Inr A3 \<and> getFreeBytesAtTheEnd A3 = getFreeBytesAtTheEnd al2 \<and>
     getNumObjectsInCurrentAllocatorBlock A3 = 2"
proof -
  have c: "clear_of 5000 64 (managed al2)" "live_in (active_block (myState al2)) [1036, 1024] = 2"
    by (simp_all add: clear_of_def managed_def active_block_def apart_blocks_def live_in_def in_block_def
        al2_def al1_def al0_def al_exec)
  show ?thesis
    using temporary_block_roundtrip [OF al_demo_reachable(1) _ c(1) disjI1 [OF al_runs(4)] al_inside_refl] c(2) by (auto simp: al_room_def)
qed

text \<open>
  For a live object \<^verbatim>\<open>getAllocationBlock\<close> returns the start of the block the object is in and stores the distance
  to the object in its header, so that the root object of the block is found again.
\<close>

theorem root_object_recorded:
  assumes "al_reachable (A, L, S)" and "l \<in> set L"
  shows "\<exists>b A'. b \<in> set (managed A) \<and> in_block b l \<and> getAllocationBlock l A = Inr (b_start b, A') \<and>
    b_start b + offsetToObject (ram A') (b_start b) = l \<and> isManaged l A = Inr True \<and>
    getNumObjectsInAllocatorBlock l A = Inr (live_in b L + saved_in b S)"
proof -
  have inv: "al_inv A L S" using al_reachable_ok [OF assms(1)] by (simp add: al_ok_def)
  note bl = al_invD(1) [OF inv]
  have "live_ok (ram A) (managed A) l" using al_invD(3) [OF inv] assms(2) by (simp add: chunks_ok_def)
  then obtain b where b: "b \<in> set (managed A)" "in_block b l" "b_start b + 24 \<le> l" "l < b_end b"
    by (rule live_block [OF bl]) blast
  have count: "blockRefs (ram A) (b_start b) = live_in b L + saved_in b S"
    using al_invD(4) [OF inv] b(1) by (simp add: counts_ok_def)
  show ?thesis
  proof (cases "al_contains l A")
    case True
    then have "b = active_block (myState A)"
      using block_unique [OF bl b(1) active_managed b(2)] by (simp add: contains_active)
    then show ?thesis using True b count
      by (intro exI [of _ b]) (auto simp: getAllocationBlock_def isManaged_def getNumObjectsInAllocatorBlock_def Let_def
          getNumObjectsInCurrentAllocatorBlock_def)
  next
    case False
    then have ina: "b \<in> set (allInactives A)" using b(1,2) by (auto simp: managed_def contains_active)
    have pw: "pairwise apart_blocks (set (allInactives A))" using bl by (auto simp: blocks_ok_def managed_def intro: pairwise_subset)
    obtain i where "find_inactive l (allInactives A) = Inr (Some i)" "allInactives A ! i = b"
      using find_inactive_found [OF al_invD(2) [OF inv] pw _ ina, of l] b blocks_okD(2) [OF bl] by (auto simp: managed_def)
    then show ?thesis using False b count
      by (intro exI [of _ b]) (auto simp: getAllocationBlock_def isManaged_def getNumObjectsInAllocatorBlock_def Let_def)
  qed
qed

theorem root_object_recorded_witness:
  "isManaged 1024 al3 = Inr True \<and> getNumObjectsInAllocatorBlock 1024 al3 = Inr 3"
proof -
  have "getNumObjectsInAllocatorBlock 1024 al3 = Inr 3"
    by (simp add: getNumObjectsInAllocatorBlock_def getNumObjectsInCurrentAllocatorBlock_def find_inactive_def lower_bound_def
        block_before_def block_after_def al3_def al2_def al1_def al0_def al_exec)
  then show ?thesis using root_object_recorded [OF al_demo_reachable(2), of 1024] by auto
qed

section \<open>Where the code departs from its comments\<close>

text \<open>
  The size of a chunk is computed in 32 bits. A request of 4 GiB from a block of 100 bytes succeeds with a
  chunk of 4 bytes, which is only its header, and one slightly smaller asks for the leading zeros of 0.
\<close>

theorem huge_request_wraps:
  "(\<exists>A'. getRAM (2 ^ 32) al0 = Inr (1024, A') \<and> usable A' 1024 = 0) \<and>
   getRAM (2 ^ 32 - 5) al0 = Inl (Undefined ''__builtin_clz(0)'')"
  by (simp add: al0_def usable_def al_exec)

text \<open>
  Emptying a block that is not active forgets it without freeing its memory, although the header of the class
  promises to free it.
\<close>

lemma emptyOutBlock_leaks:
  "\<exists>A'. emptyOutBlock 1024 al4 = Inr A' \<and> allInactives A' = [] \<and> (1000, 100) \<in> set (mallocs (ram A'))"
  by (simp add: emptyOutBlock_def find_inactive_def lower_bound_def block_before_def block_after_def vec_erase_def
      al4_def al1_def al0_def al_exec)

end
