(* ===== verification/Handle.thy ===== *)
theory Handle
  imports Allocator
begin

text \<open>
  Handles, the pointers of the object model: \<^verbatim>\<open>objectModel/headers/Handle.h\<close>, \<^verbatim>\<open>Handle.cc\<close>, \<^verbatim>\<open>RefCountedObject.cc\<close>,
  \<^verbatim>\<open>PDBTemplateBase.cc\<close>, \<^verbatim>\<open>DeepCopy.h\<close>, \<^verbatim>\<open>Record.cc\<close> and the functions of \<^verbatim>\<open>InterfaceFunctions.cc\<close> that make and copy
  objects. An object is allocated with its reference count in front; a handle, in an object or on the stack,
  stores the distance from itself to the target and the type of the target. Assigning to a handle that lies in the
  active block copies a target that lies elsewhere, with everything it refers to.

  The memory is given by what the code reads and writes: reference counts by the address of the object,
  distances and types by the address of the handle, and the rest of an object (\<open>prims\<close>) by its address. A class is given
  by its size and its handle members; the copy and the destructor of a class with \<^verbatim>\<open>ENABLE_DEEP_COPY\<close> are
  member by member. The recursions have a fuel, the depth of the recursion; running out of it is \<open>Diverges\<close>.
\<close>

section \<open>Data\<close>

record layout =
  l_size :: nat
  l_fields :: "(nat \<times> int) list"

type_synonym layouts = "int \<Rightarrow> layout"

record object_heap =
  al :: allocator
  numCopies :: "nat \<Rightarrow> nat"
  hOffset :: "nat \<Rightarrow> int"
  hType :: "nat \<Rightarrow> int"
  prims :: "nat \<Rightarrow> nat"

definition REF_COUNT_PREAMBLE_SIZE :: nat where
  "REF_COUNT_PREAMBLE_SIZE = 4"

text \<open>Type codes: positive for classes derived from \<^verbatim>\<open>Object\<close> (and for handles), minus the size for any other type.\<close>

definition getSizeOfConstituentObject :: "layouts \<Rightarrow> int \<Rightarrow> nat" where
  "getSizeOfConstituentObject lay info = (if 0 < info then l_size (lay info) else nat (- info))"

definition type_fields :: "layouts \<Rightarrow> int \<Rightarrow> (nat \<times> int) list" where
  "type_fields lay info = (if 0 < info then l_fields (lay info) else [])"

definition getTypeCode :: "nat \<Rightarrow> object_heap \<Rightarrow> int" where
  "getTypeCode h H = (if 0 < hType H h then hType H h else -1)"

definition isNullPtr :: "nat \<Rightarrow> object_heap \<Rightarrow> bool" where
  "isNullPtr h H \<longleftrightarrow> hOffset H h = -1"

definition getTarget :: "nat \<Rightarrow> object_heap \<Rightarrow> nat" where
  "getTarget h H = nat (int h + hOffset H h)"

definition getObject :: "nat \<Rightarrow> nat" where
  "getObject r = r + REF_COUNT_PREAMBLE_SIZE"

definition set_offset :: "nat \<Rightarrow> int \<Rightarrow> object_heap \<Rightarrow> object_heap" where
  "set_offset h d H = H\<lparr>hOffset := (hOffset H)(h := d)\<rparr>"

definition set_type :: "nat \<Rightarrow> int \<Rightarrow> object_heap \<Rightarrow> object_heap" where
  "set_type h ty H = H\<lparr>hType := (hType H)(h := ty)\<rparr>"

definition point_to :: "nat \<Rightarrow> nat \<Rightarrow> object_heap \<Rightarrow> object_heap" where
  "point_to h r = set_offset h (int r - int h)"

section \<open>Reference counts\<close>

definition setRefCount :: "nat \<Rightarrow> nat \<Rightarrow> object_heap \<Rightarrow> object_heap result" where
  "setRefCount r toMe H =
     andThen (isManaged r (al H)) (\<lambda>m. Inr (if m then H\<lparr>numCopies := (numCopies H)(r := toMe)\<rparr> else H))"

definition getRefCount :: "nat \<Rightarrow> object_heap \<Rightarrow> nat result" where
  "getRefCount r H = andThen (isManaged r (al H)) (\<lambda>m. Inr (if m then numCopies H r else 2 ^ 32 - 1))"

definition object_incRefCount :: "nat \<Rightarrow> object_heap \<Rightarrow> object_heap result" where
  "object_incRefCount r H =
     andThen (isManaged r (al H)) (\<lambda>m. Inr (if m then H\<lparr>numCopies := (numCopies H)(r := (numCopies H r + 1) mod 2 ^ 32)\<rparr> else H))"

definition handles_at :: "layouts \<Rightarrow> int \<Rightarrow> nat \<Rightarrow> nat list" where
  "handles_at lay ty obj = map (\<lambda>(f, _). obj + f) (type_fields lay ty)"

text \<open>
  \<^verbatim>\<open>decRefCount\<close> with \<^verbatim>\<open>deleteConstituentObject\<close>, and the destructors of a list of handles. The members of an object
  are destroyed in the reverse order of their declaration.
\<close>

fun object_decRefCount :: "layouts \<Rightarrow> nat \<Rightarrow> nat \<Rightarrow> int \<Rightarrow> object_heap \<Rightarrow> object_heap result"
  and destroyHandles :: "layouts \<Rightarrow> nat \<Rightarrow> nat list \<Rightarrow> object_heap \<Rightarrow> object_heap result" where
  "object_decRefCount lay 0 r ty H = Inl (Diverges ''decRefCount'')"
| "object_decRefCount lay (Suc k) r ty H =
     andThen (isManaged r (al H)) (\<lambda>m.
       if \<not> m then Inr H
       else let n = (numCopies H r + 2 ^ 32 - 1) mod 2 ^ 32; H1 = H\<lparr>numCopies := (numCopies H)(r := n)\<rparr>
            in if n = 0
               then andThen (destroyHandles lay k (rev (handles_at lay ty (getObject r))) H1) (\<lambda>H2.
                    andThen (freeRAM r (al H2)) (\<lambda>A. Inr (H2\<lparr>al := A\<rparr>)))
               else Inr H1)"
| "destroyHandles lay k [] H = Inr H"
| "destroyHandles lay k (h # hs) H =
     andThen (if isNullPtr h H then Inr H
              else andThen (isManaged (getTarget h H) (al H)) (\<lambda>m.
                if m then object_decRefCount lay k (getTarget h H) (hType H h) H else Inr H))
       (destroyHandles lay k hs)"

definition Handle_destroy :: "layouts \<Rightarrow> nat \<Rightarrow> nat \<Rightarrow> object_heap \<Rightarrow> object_heap result" where
  "Handle_destroy lay k h H = destroyHandles lay k [h] H"

definition Handle_getRefCount :: "nat \<Rightarrow> object_heap \<Rightarrow> nat result" where
  "Handle_getRefCount h H =
     (if isNullPtr h H then Inr 9999999
      else andThen (isManaged (getTarget h H) (al H)) (\<lambda>m.
        if m then getRefCount (getTarget h H) H else Inr 9999999))"

definition Handle_emptyOutContainingBlock :: "nat \<Rightarrow> object_heap \<Rightarrow> object_heap result" where
  "Handle_emptyOutContainingBlock h H =
     (if isNullPtr h H then Inr H
      else andThen (emptyOutBlock (getTarget h H) (al H)) (\<lambda>A. Inr (set_offset h (-1) (H\<lparr>al := A\<rparr>))))"

section \<open>Copying and assigning\<close>

text \<open>\<^verbatim>\<open>GET_OLD_TARGET\<close> and \<^verbatim>\<open>DEC_OLD_REF_COUNT\<close>.\<close>

definition old_target :: "nat \<Rightarrow> object_heap \<Rightarrow> (nat \<times> int) option" where
  "old_target h H = (if isNullPtr h H then None else Some (getTarget h H, hType H h))"

definition dec_old :: "layouts \<Rightarrow> nat \<Rightarrow> (nat \<times> int) option \<Rightarrow> object_heap \<Rightarrow> object_heap result" where
  "dec_old lay fd old H = (case old of None \<Rightarrow> Inr H | Some (r, ty) \<Rightarrow> object_decRefCount lay fd r ty H)"

text \<open>The default constructor of a class sets its handle members to null; then the members are assigned.\<close>

definition construct :: "layouts \<Rightarrow> int \<Rightarrow> nat \<Rightarrow> object_heap \<Rightarrow> object_heap" where
  "construct lay ty obj H =
     fold (\<lambda>(f, fty) H. set_type (obj + f) fty (set_offset (obj + f) (-1) H)) (type_fields lay ty) H"

text \<open>
  The common part of the assignment operators: \<open>h\<close> gets a target of type \<open>ty\<close> that is at \<open>src\<close> and for whose copy
  \<open>n\<close> bytes are requested. \<open>dec_first\<close> distinguishes the one operator that releases the old target first when
  the copy fails; \<open>self\<close> is the assignment of a handle to itself, whose target is read again after it was overwritten. An exception of \<^verbatim>\<open>getRAM\<close> leaves the operator at once; one of the copy is caught and rethrown.
\<close>

definition assign_step :: "layouts \<Rightarrow> nat \<Rightarrow> ((nat \<times> int) list \<Rightarrow> nat \<Rightarrow> nat \<Rightarrow> object_heap \<Rightarrow> (flow \<times> object_heap) result) \<Rightarrow>
    bool \<Rightarrow> bool \<Rightarrow> nat \<Rightarrow> nat \<Rightarrow> int \<Rightarrow> nat \<Rightarrow> object_heap \<Rightarrow> (flow \<times> object_heap) result" where
  "assign_step lay fd copy dec_first self h src ty n H =
     (let old = old_target h H; H0 = set_type h ty H
      in if \<not> al_contains src (al H) \<and> al_contains h (al H)
         then case getRAM (REF_COUNT_PREAMBLE_SIZE + n) (al H0) of
                Inl e \<Rightarrow> (case e of Throw _ \<Rightarrow> Inr (NotEnoughSpace, H0) | _ \<Rightarrow> Inl e)
              | Inr (space, A) \<Rightarrow>
                  if space = 0
                  then andThen (dec_old lay fd old H0) (\<lambda>H1. Inr (NotEnoughSpace, set_offset h (-1) H1))
                  else andThen (setRefCount space 1 (point_to h space (H0\<lparr>al := A\<rparr>))) (\<lambda>H1.
                       let from = (if self then space else src); H2 = construct lay ty (getObject space) H1;
                           H3 = H2\<lparr>prims := (prims H2)(getObject space := prims H2 (getObject from))\<rparr>
                       in andThen (copy (type_fields lay ty) (getObject space) (getObject from) H3) (\<lambda>(fl, H4).
                          case fl of
                            Returns \<Rightarrow> andThen (dec_old lay fd old H4) (\<lambda>H5. Inr (Returns, H5))
                          | NotEnoughSpace \<Rightarrow>
                              andThen (if dec_first
                                then andThen (dec_old lay fd old H4) (object_decRefCount lay fd space ty)
                                else andThen (object_decRefCount lay fd space ty H4) (dec_old lay fd old)) (\<lambda>H5.
                              Inr (NotEnoughSpace, set_offset h (-1) H5))))
         else andThen (object_incRefCount src (point_to h src H0)) (\<lambda>H1.
              andThen (dec_old lay fd old H1) (\<lambda>H2. Inr (Returns, H2))))"

definition assignHandle_with :: "layouts \<Rightarrow> nat \<Rightarrow> (bool \<Rightarrow> nat \<Rightarrow> nat \<Rightarrow> int \<Rightarrow> nat \<Rightarrow> object_heap \<Rightarrow> (flow \<times> object_heap) result) \<Rightarrow>
    nat \<Rightarrow> nat \<Rightarrow> object_heap \<Rightarrow> (flow \<times> object_heap) result" where
  "assignHandle_with lay fd asg h s H =
     (if isNullPtr s H
      then andThen (dec_old lay fd (old_target h H) H) (\<lambda>H1. Inr (Returns, set_offset h (-1) H1))
      else asg (s = h) h (getTarget s H) (hType H s) (getSizeOfConstituentObject lay (hType H s)) H)"

fun copyFields_with :: "(nat \<Rightarrow> nat \<Rightarrow> object_heap \<Rightarrow> (flow \<times> object_heap) result) \<Rightarrow> (nat \<times> int) list \<Rightarrow> nat \<Rightarrow> nat \<Rightarrow>
    object_heap \<Rightarrow> (flow \<times> object_heap) result" where
  "copyFields_with asg [] obj src H = Inr (Returns, H)"
| "copyFields_with asg ((f, fty) # fs) obj src H =
     andThen (asg (obj + f) (src + f) H) (\<lambda>(fl, H1).
       case fl of Returns \<Rightarrow> copyFields_with asg fs obj src H1 | NotEnoughSpace \<Rightarrow> Inr (NotEnoughSpace, H1))"

primrec assignObject :: "nat \<Rightarrow> layouts \<Rightarrow> nat \<Rightarrow> bool \<Rightarrow> bool \<Rightarrow> nat \<Rightarrow> nat \<Rightarrow> int \<Rightarrow> nat \<Rightarrow> object_heap \<Rightarrow> (flow \<times> object_heap) result" where
  "assignObject 0 lay fd dec_first self h src ty n H = Inl (Diverges ''deep copy'')"
| "assignObject (Suc fc) lay fd dec_first self h src ty n H =
     assign_step lay fd (copyFields_with (assignHandle_with lay fd (assignObject fc lay fd False))) dec_first self h src ty n H"

text \<open>The deep copy of an object into new memory, \<^verbatim>\<open>setUpAndCopyFromConstituentObject\<close>.\<close>

definition setUpAndCopyFrom :: "nat \<Rightarrow> layouts \<Rightarrow> nat \<Rightarrow> int \<Rightarrow> nat \<Rightarrow> nat \<Rightarrow> object_heap \<Rightarrow> (flow \<times> object_heap) result" where
  "setUpAndCopyFrom fc lay fd ty target source H =
     (let H1 = construct lay ty target H
      in copyFields_with (assignHandle_with lay fd (assignObject fc lay fd False)) (type_fields lay ty) target source
           (H1\<lparr>prims := (prims H1)(target := prims H1 source)\<rparr>))"

section \<open>The operations of the class\<close>

definition Handle_new :: "int \<Rightarrow> nat \<Rightarrow> object_heap \<Rightarrow> object_heap" where
  "Handle_new static h H = set_offset h (-1) (set_type h static H)"

text \<open>From a \<^verbatim>\<open>GenericHandle\<close>, whose type is \<open>base\<close>, and from \<^verbatim>\<open>nullptr\<close> (\<open>nothing\<close> is the type code of \<^verbatim>\<open>Nothing\<close>).\<close>

definition Handle_from_generic :: "int \<Rightarrow> nat \<Rightarrow> object_heap \<Rightarrow> object_heap" where
  "Handle_from_generic base h H = set_offset h (-1) (set_type h base H)"

definition Handle_from_nullptr :: "int \<Rightarrow> nat \<Rightarrow> object_heap \<Rightarrow> object_heap" where
  "Handle_from_nullptr nothing h H = set_offset h (-1) (set_type h nothing H)"

definition Handle_assign_null :: "layouts \<Rightarrow> nat \<Rightarrow> nat \<Rightarrow> object_heap \<Rightarrow> object_heap result" where
  "Handle_assign_null lay fd h H = andThen (dec_old lay fd (old_target h H) H) (\<lambda>H1. Inr (set_offset h (-1) H1))"

text \<open>
  The assignment operators: from an object of the static type or of another type (\<open>r = 0\<close> is a null pointer), and
  from a handle. The constructors do the same for a handle that has no old target; a handle that is copied
  from null keeps the type code 0 of \<^verbatim>\<open>PDBTemplateBase()\<close>.
\<close>

definition Handle_assign_same :: "nat \<Rightarrow> layouts \<Rightarrow> nat \<Rightarrow> int \<Rightarrow> nat \<Rightarrow> nat \<Rightarrow> object_heap \<Rightarrow> (flow \<times> object_heap) result" where
  "Handle_assign_same fc lay fd static h r H =
     (if r = 0
      then andThen (dec_old lay fd (old_target h H) (set_type h static H)) (\<lambda>H1. Inr (Returns, set_offset h (-1) H1))
      else assignObject fc lay fd True False h r static (getSizeOfConstituentObject lay static) H)"

definition Handle_assign_other :: "nat \<Rightarrow> layouts \<Rightarrow> nat \<Rightarrow> int \<Rightarrow> nat \<Rightarrow> nat \<Rightarrow> object_heap \<Rightarrow> (flow \<times> object_heap) result" where
  "Handle_assign_other fc lay fd static h r H =
     (if r = 0
      then andThen (dec_old lay fd (old_target h H) (set_type h static H)) (\<lambda>H1. Inr (Returns, set_offset h (-1) H1))
      else assignObject fc lay fd False False h r static (getSizeOfConstituentObject lay static) H)"

definition Handle_assign :: "nat \<Rightarrow> layouts \<Rightarrow> nat \<Rightarrow> nat \<Rightarrow> nat \<Rightarrow> object_heap \<Rightarrow> (flow \<times> object_heap) result" where
  "Handle_assign fc lay fd h s H = assignHandle_with lay fd (assignObject fc lay fd False) h s H"

definition Handle_from_object :: "nat \<Rightarrow> layouts \<Rightarrow> nat \<Rightarrow> int \<Rightarrow> nat \<Rightarrow> nat \<Rightarrow> object_heap \<Rightarrow> (flow \<times> object_heap) result" where
  "Handle_from_object fc lay fd static h r H =
     (if r = 0 then Inr (Returns, set_offset h (-1) (set_type h static H))
      else assignObject fc lay fd False False h r static (getSizeOfConstituentObject lay static) (set_offset h (-1) H))"

text \<open>The templates over a second type do the same; only the static type is that of the source.\<close>

definition Handle_from_other :: "nat \<Rightarrow> layouts \<Rightarrow> nat \<Rightarrow> int \<Rightarrow> nat \<Rightarrow> nat \<Rightarrow> object_heap \<Rightarrow> (flow \<times> object_heap) result" where
  "Handle_from_other fc lay fd static2 h r H =
     (if r = 0 then Inr (Returns, set_offset h (-1) (set_type h static2 H))
      else assignObject fc lay fd False False h r static2 (getSizeOfConstituentObject lay static2) (set_offset h (-1) H))"

definition Handle_copy :: "nat \<Rightarrow> layouts \<Rightarrow> nat \<Rightarrow> nat \<Rightarrow> nat \<Rightarrow> object_heap \<Rightarrow> (flow \<times> object_heap) result" where
  "Handle_copy fc lay fd h s H =
     (if isNullPtr s H then Inr (Returns, set_offset h (-1) (set_type h 0 H))
      else assignObject fc lay fd False False h (getTarget s H) (hType H s) (getSizeOfConstituentObject lay (hType H s)) (set_offset h (-1) H))"

definition Handle_copy_other :: "nat \<Rightarrow> layouts \<Rightarrow> nat \<Rightarrow> nat \<Rightarrow> nat \<Rightarrow> object_heap \<Rightarrow> (flow \<times> object_heap) result" where
  "Handle_copy_other fc lay fd h s H =
     (if isNullPtr s H then Inr (Returns, set_offset h (-1) (set_type h 0 H))
      else assignObject fc lay fd False False h (getTarget s H) (hType H s) (getSizeOfConstituentObject lay (hType H s)) (set_offset h (-1) H))"

definition shallowCopyToCurrentAllocationBlock :: "layouts \<Rightarrow> nat \<Rightarrow> nat \<Rightarrow> nat \<Rightarrow> object_heap \<Rightarrow> object_heap result" where
  "shallowCopyToCurrentAllocationBlock lay fd h s H =
     (let old = old_target h H
      in if isNullPtr s H then andThen (dec_old lay fd old H) (\<lambda>H1. Inr (set_offset h (-1) H1))
         else andThen (object_incRefCount (getTarget s H) (point_to h (getTarget s H) (set_type h (hType H s) H))) (dec_old lay fd old))"

text \<open>The new handle \<open>h\<close> is a local variable of the caller; the space requested is that of the static type.\<close>

definition copyTargetToCurrentAllocationBlock :: "nat \<Rightarrow> layouts \<Rightarrow> nat \<Rightarrow> int \<Rightarrow> nat \<Rightarrow> nat \<Rightarrow> object_heap \<Rightarrow> (flow \<times> object_heap) result" where
  "copyTargetToCurrentAllocationBlock fc lay fd static h this H =
     (if al_contains (getTarget this H) (al H) then Handle_copy fc lay fd h this H
      else case getRAM (REF_COUNT_PREAMBLE_SIZE + getSizeOfConstituentObject lay static) (al H) of
             Inl e \<Rightarrow> (case e of Throw _ \<Rightarrow> Inr (NotEnoughSpace, H) | _ \<Rightarrow> Inl e)
           | Inr (space, A) \<Rightarrow>
               if space = 0 then Inr (NotEnoughSpace, H)
               else andThen (setRefCount space 1 (set_type h (hType H this) (point_to h space (H\<lparr>al := A\<rparr>)))) (\<lambda>H1.
                    andThen (setUpAndCopyFrom fc lay fd (hType H this) (getObject space) (getObject (getTarget this H)) H1) (\<lambda>(fl, H2).
                    case fl of
                      Returns \<Rightarrow> Inr (Returns, H2)
                    | NotEnoughSpace \<Rightarrow> andThen (object_decRefCount lay fd space (hType H this) H2) (\<lambda>H3.
                        Inr (NotEnoughSpace, set_offset h (-1) H3)))))"

definition unsafeCast :: "nat \<Rightarrow> nat \<Rightarrow> object_heap \<Rightarrow> object_heap result" where
  "unsafeCast h castMe H =
     (let H1 = set_type h (hType H castMe) (set_offset h (hOffset H castMe + (int castMe - int h)) H)
      in object_incRefCount (getTarget h H1) H1)"

section \<open>Making objects and records\<close>

text \<open>\<open>ctor\<close> is the constructor of the class, run on the new object; \<open>extra\<close> is the additional storage.\<close>

definition makeObjectWithExtraStorage :: "layouts \<Rightarrow> int \<Rightarrow> nat \<Rightarrow> (nat \<Rightarrow> object_heap \<Rightarrow> (flow \<times> object_heap) result) \<Rightarrow>
    object_heap \<Rightarrow> (flow \<times> nat \<times> object_heap) result" where
  "makeObjectWithExtraStorage lay ty extra ctor H =
     (case getRAM (extra + getSizeOfConstituentObject lay ty + REF_COUNT_PREAMBLE_SIZE) (al H) of
        Inl e \<Rightarrow> (case e of Throw _ \<Rightarrow> Inr (NotEnoughSpace, 0, H) | _ \<Rightarrow> Inl e)
      | Inr (r, A) \<Rightarrow>
          if r = 0 then Inr (Returns, 0, H\<lparr>al := A\<rparr>)
          else andThen (ctor (getObject r) (H\<lparr>al := A\<rparr>)) (\<lambda>(fl, H1).
               case fl of
                 NotEnoughSpace \<Rightarrow> andThen (freeRAM r (al H1)) (\<lambda>A1. Inr (NotEnoughSpace, 0, H1\<lparr>al := A1\<rparr>))
               | Returns \<Rightarrow> andThen (setRefCount r 0 H1) (\<lambda>H2. Inr (Returns, r, H2))))"

definition makeObject :: "layouts \<Rightarrow> int \<Rightarrow> (nat \<Rightarrow> object_heap \<Rightarrow> (flow \<times> object_heap) result) \<Rightarrow>
    object_heap \<Rightarrow> (flow \<times> nat \<times> object_heap) result" where
  "makeObject lay ty ctor H = makeObjectWithExtraStorage lay ty 0 ctor H"

definition getHandle :: "nat \<Rightarrow> layouts \<Rightarrow> nat \<Rightarrow> int \<Rightarrow> nat \<Rightarrow> object_heap \<Rightarrow> (flow \<times> nat \<times> object_heap) result" where
  "getHandle fc lay fd ty forMe H =
     (if al_contains forMe (al H) then Inr (Returns, forMe - REF_COUNT_PREAMBLE_SIZE, H)
      else case getRAM (getSizeOfConstituentObject lay ty + REF_COUNT_PREAMBLE_SIZE) (al H) of
             Inl e \<Rightarrow> (case e of Throw _ \<Rightarrow> Inr (NotEnoughSpace, 0, H) | _ \<Rightarrow> Inl e)
           | Inr (space, A) \<Rightarrow>
               if space = 0 then Inr (NotEnoughSpace, 0, H\<lparr>al := A\<rparr>)
               else andThen (setRefCount space 0 (H\<lparr>al := A\<rparr>)) (\<lambda>H1.
                    andThen (setUpAndCopyFrom fc lay fd ty (getObject space) forMe H1) (\<lambda>(fl, H2).
                    case fl of
                      Returns \<Rightarrow> Inr (Returns, space, H2)
                    | NotEnoughSpace \<Rightarrow> andThen (freeRAM space (al H2)) (\<lambda>A1. Inr (NotEnoughSpace, 0, H2\<lparr>al := A1\<rparr>)))))"

definition getRecord :: "nat \<Rightarrow> object_heap \<Rightarrow> (nat \<times> object_heap) result" where
  "getRecord forMe H = andThen (getAllocationBlock (getTarget forMe H) (al H)) (\<lambda>(res, A). Inr (res, H\<lparr>al := A\<rparr>))"

text \<open>The second form of \<^verbatim>\<open>getRecord\<close> copies the object into memory of the caller; \<open>temp\<close> is its local handle.\<close>

definition getRecord_into :: "nat \<Rightarrow> layouts \<Rightarrow> nat \<Rightarrow> int \<Rightarrow> nat \<Rightarrow> nat \<Rightarrow> nat \<Rightarrow> nat \<Rightarrow> object_heap \<Rightarrow> (flow \<times> nat \<times> object_heap) result" where
  "getRecord_into fc lay fd static temp forMe putMeHere numBytesAvailable H =
     andThen (temporarilyUseBlockForAllocations putMeHere numBytesAvailable (al H)) (\<lambda>(tempAllocator, A).
     andThen (copyTargetToCurrentAllocationBlock fc lay fd static temp forMe (H\<lparr>al := A\<rparr>)) (\<lambda>(fl, H1).
       case fl of
         NotEnoughSpace \<Rightarrow> andThen (restoreAllocationBlock tempAllocator (al H1)) (\<lambda>A1. Inr (NotEnoughSpace, 0, H1\<lparr>al := A1\<rparr>))
       | Returns \<Rightarrow> andThen (getAllocationBlock (getTarget temp H1) (al H1)) (\<lambda>(res, A1).
           andThen (restoreAllocationBlock tempAllocator A1) (\<lambda>A2. Inr (Returns, res, H1\<lparr>al := A2\<rparr>)))))"

definition Record_numBytes :: "nat \<Rightarrow> object_heap \<Rightarrow> nat" where
  "Record_numBytes rec H = lastUsed (ram (al H)) rec"

definition rootObjectOffset :: "nat \<Rightarrow> object_heap \<Rightarrow> nat" where
  "rootObjectOffset rec H = offsetToObject (ram (al H)) rec"

definition getRootObject :: "int \<Rightarrow> nat \<Rightarrow> nat \<Rightarrow> object_heap \<Rightarrow> object_heap" where
  "getRootObject static rec h H = point_to h (rec + rootObjectOffset rec H) (Handle_new static h H)"

text \<open>
  \<^verbatim>\<open>deepCopyToCurrentAllocationBlock\<close> copies through a new object of the class \<^verbatim>\<open>Holder\<close>, whose handle \<^verbatim>\<open>child\<close> is at the
  offset \<open>child\<close>; \<open>temp\<close> is the local handle of the holder, \<open>res\<close> the handle that is returned, \<open>ctor\<close> the constructor of the holder.
\<close>

definition deepCopyToCurrentAllocationBlock :: "nat \<Rightarrow> layouts \<Rightarrow> nat \<Rightarrow> int \<Rightarrow> nat \<Rightarrow> (nat \<Rightarrow> object_heap \<Rightarrow> (flow \<times> object_heap) result) \<Rightarrow>
    nat \<Rightarrow> nat \<Rightarrow> nat \<Rightarrow> object_heap \<Rightarrow> (flow \<times> object_heap) result" where
  "deepCopyToCurrentAllocationBlock fc lay fd holder child ctor temp res copyMe H =
     andThen (makeObject lay holder ctor H) (\<lambda>(fl, r, H1).
     if fl = NotEnoughSpace then Inr (NotEnoughSpace, H1)
     else andThen (Handle_from_object fc lay fd holder temp r H1) (\<lambda>(fl2, H2).
     if r = 0 then Inl (Undefined ''dereference of a null handle'')
     else andThen (Handle_assign fc lay fd (getObject r + child) copyMe H2) (\<lambda>(fl3, H3).
     if fl3 = NotEnoughSpace then andThen (Handle_destroy lay fd temp H3) (\<lambda>H4. Inr (NotEnoughSpace, H4))
     else andThen (Handle_copy fc lay fd res (getObject r + child) H3) (\<lambda>(fl4, H4).
          andThen (Handle_destroy lay fd temp H4) (\<lambda>H5. Inr (fl4, H5))))))"

end
