(* ===== verification/HandleInv.thy ===== *)
theory HandleInv
  imports AllocatorSystem Handle
begin

text \<open>
  The invariant of reference counting. \<open>Ob\<close> are the objects that are intact, among the live allocations \<open>L\<close>, and \<open>T\<close>
  gives their types; \<open>G\<close> are the handles outside objects (local variables), \<open>X\<close> the objects, with their types, in memory
  that this thread's allocator does not manage. The count of an object is the number of handles that refer to it
  plus \<open>P\<close>, the references that are about to be given up; \<open>B\<close> are handles that are left out because they are being
  overwritten. Giving up a reference keeps the invariant, and with it destroys exactly objects nobody refers to.
\<close>

section \<open>The invariant\<close>

definition type_ok :: "layouts \<Rightarrow> int \<Rightarrow> bool" where
  "type_ok lay ty \<longleftrightarrow> distinct (map fst (type_fields lay ty)) \<and>
     (\<forall>e \<in> set (type_fields lay ty). fst e < getSizeOfConstituentObject lay ty) \<and>
     getSizeOfConstituentObject lay ty + 12 \<le> 2 ^ 32"

definition own :: "layouts \<Rightarrow> (nat \<Rightarrow> int) \<Rightarrow> nat \<Rightarrow> nat list" where
  "own lay T r = handles_at lay (T r) (getObject r)"

definition hlist :: "layouts \<Rightarrow> (nat \<Rightarrow> int) \<Rightarrow> nat list \<Rightarrow> nat list \<Rightarrow> nat list" where
  "hlist lay T G Ob = G @ concat (map (own lay T) Ob)"

definition refs :: "object_heap \<Rightarrow> nat list \<Rightarrow> nat \<Rightarrow> nat" where
  "refs H hs r = length (filter (\<lambda>h. \<not> isNullPtr h H \<and> getTarget h H = r) hs)"

definition foreign :: "nat \<Rightarrow> allocator \<Rightarrow> bool" where
  "foreign x A \<longleftrightarrow> (\<forall>b \<in> set (managed A). x < b_start b \<or> b_end b < x)"

definition unmanaged :: "nat \<Rightarrow> allocator \<Rightarrow> bool" where
  "unmanaged x A \<longleftrightarrow> (\<forall>b \<in> set (managed A). \<not> in_block b x)"

definition space_ok :: "AllocatorState list \<Rightarrow> object_heap \<Rightarrow> nat list \<Rightarrow> bool" where
  "space_ok S H L \<longleftrightarrow> al_inv (al H) L S \<and> policies_ok (al H) \<and> counting (al H) \<and> al_room L S"

definition objects_ok :: "layouts \<Rightarrow> (nat \<Rightarrow> int) \<Rightarrow> object_heap \<Rightarrow> nat list \<Rightarrow> nat list \<Rightarrow> bool" where
  "objects_ok lay T H L Ob \<longleftrightarrow> distinct Ob \<and> set Ob \<subseteq> set L \<and>
     (\<forall>r \<in> set Ob. type_ok lay (T r) \<and> getSizeOfConstituentObject lay (T r) + 4 \<le> usable (al H) r)"

definition handle_ok :: "(nat \<times> int) set \<Rightarrow> (nat \<Rightarrow> int) \<Rightarrow> nat list \<Rightarrow> object_heap \<Rightarrow> nat \<Rightarrow> bool" where
  "handle_ok X T Ob H h \<longleftrightarrow> isNullPtr h H \<or> getTarget h H \<in> set Ob \<and> hType H h = T (getTarget h H) \<or>
     (getTarget h H, hType H h) \<in> X"

definition outside_ok :: "layouts \<Rightarrow> nat list \<Rightarrow> (nat \<times> int) set \<Rightarrow> object_heap \<Rightarrow> bool" where
  "outside_ok lay G X H \<longleftrightarrow> distinct G \<and> (\<forall>g \<in> set G. unmanaged g (al H)) \<and>
     (\<forall>e \<in> X. type_ok lay (snd e) \<and> foreign (fst e) (al H) \<and> Suc (fst e) \<notin> set G \<and>
        (\<forall>h \<in> set (handles_at lay (snd e) (getObject (fst e))). h \<notin> set G \<and> unmanaged h (al H) \<and>
           (isNullPtr h H \<or> (getTarget h H, hType H h) \<in> X)))"

definition rc_inv :: "layouts \<Rightarrow> AllocatorState list \<Rightarrow> nat list \<Rightarrow> (nat \<times> int) set \<Rightarrow> (nat \<Rightarrow> int) \<Rightarrow> nat set \<Rightarrow>
    object_heap \<Rightarrow> nat list \<Rightarrow> nat list \<Rightarrow> nat multiset \<Rightarrow> bool" where
  "rc_inv lay S G X T B H L Ob P \<longleftrightarrow> space_ok S H L \<and> objects_ok lay T H L Ob \<and> outside_ok lay G X H \<and>
     (\<forall>h \<in> set (hlist lay T G Ob) - B. handle_ok X T Ob H h) \<and> set_mset P \<subseteq> set Ob \<and>
     (\<forall>r \<in> set Ob. numCopies H r = refs H (filter (\<lambda>h. h \<notin> B) (hlist lay T G Ob)) r + count P r \<and>
        0 < numCopies H r \<and> numCopies H r < 2 ^ 32)"

lemma rc_invD:
  assumes "rc_inv lay S G X T B H L Ob P"
  shows "space_ok S H L" and "objects_ok lay T H L Ob" and "outside_ok lay G X H"
    and "\<And>h. h \<in> set (hlist lay T G Ob) \<Longrightarrow> h \<notin> B \<Longrightarrow> handle_ok X T Ob H h" and "set_mset P \<subseteq> set Ob"
    and "\<And>r. r \<in> set Ob \<Longrightarrow> numCopies H r = refs H (filter (\<lambda>h. h \<notin> B) (hlist lay T G Ob)) r + count P r"
    and "\<And>r. r \<in> set Ob \<Longrightarrow> 0 < numCopies H r" and "\<And>r. r \<in> set Ob \<Longrightarrow> numCopies H r < 2 ^ 32"
  using assms by (auto simp: rc_inv_def)

lemma rc_invI:
  assumes "space_ok S H L" and "objects_ok lay T H L Ob" and "outside_ok lay G X H"
    and "\<And>h. h \<in> set (hlist lay T G Ob) - B \<Longrightarrow> handle_ok X T Ob H h" and "set_mset P \<subseteq> set Ob"
    and "\<And>r. r \<in> set Ob \<Longrightarrow> numCopies H r = refs H (filter (\<lambda>h. h \<notin> B) (hlist lay T G Ob)) r + count P r \<and>
      0 < numCopies H r \<and> numCopies H r < 2 ^ 32"
  shows "rc_inv lay S G X T B H L Ob P"
  unfolding rc_inv_def using assms by blast

section \<open>What is managed\<close>

lemma live_isManaged:
  assumes "al_inv A L S" and "l \<in> set L"
  shows "isManaged l A = Inr True"
proof (cases "al_contains l A")
  case True
  then show ?thesis by (simp add: isManaged_def)
next
  case False
  note bl = al_invD(1) [OF assms(1)]
  have "live_ok (ram A) (managed A) l" using al_invD(3) [OF assms(1)] assms(2) by (simp add: chunks_ok_def)
  then obtain b where b: "b \<in> set (managed A)" "in_block b l" "b_start b + 24 \<le> l" "l < b_end b"
    by (rule live_block [OF bl]) blast
  then have ina: "b \<in> set (allInactives A)" using False by (auto simp: managed_def contains_active)
  have pw: "pairwise apart_blocks (set (allInactives A))" using bl by (auto simp: blocks_ok_def managed_def intro: pairwise_subset)
  obtain i where "find_inactive l (allInactives A) = Inr (Some i)"
    using find_inactive_found [OF al_invD(2) [OF assms(1)] pw _ ina, of l] b blocks_okD(2) [OF bl] by (auto simp: managed_def)
  then show ?thesis using False by (simp add: isManaged_def)
qed

lemma foreign_isManaged: "al_inv A L S \<Longrightarrow> foreign x A \<Longrightarrow> isManaged x A = Inr False"
  using find_inactive_none [OF al_invD(2)] by (fastforce simp: isManaged_def foreign_def managed_def contains_active in_block_def)

lemma foreign_less:
  assumes "foreign x A" and "active_block (myState A') = active_block (myState A)" and "set (allInactives A') \<subseteq> set (allInactives A)"
  shows "foreign x A'"
  using assms by (auto simp: foreign_def managed_def)

lemma unmanaged_less: "unmanaged x A \<Longrightarrow> set (managed A') \<subseteq> set (managed A) \<Longrightarrow> unmanaged x A'"
  by (auto simp: unmanaged_def)

lemma live_not_foreign:
  assumes "al_inv A L S" and "l \<in> set L"
  shows "\<not> foreign l A"
  using live_isManaged [OF assms] foreign_isManaged [OF assms(1), of l] by auto

section \<open>The handles of the objects\<close>

lemma own_range:
  assumes "type_ok lay (T r)" and "h \<in> set (own lay T r)"
  shows "r + 4 \<le> h" and "h < r + 4 + getSizeOfConstituentObject lay (T r)"
  using assms by (auto simp: own_def handles_at_def getObject_def REF_COUNT_PREAMBLE_SIZE_def type_ok_def)

lemma distinct_own: "type_ok lay (T r) \<Longrightarrow> distinct (own lay T r)"
proof -
  assume "type_ok lay (T r)"
  then have "distinct (map (\<lambda>f. getObject r + f) (map fst (type_fields lay (T r))))"
    by (subst distinct_map) (simp add: type_ok_def inj_on_def)
  then show ?thesis by (simp add: own_def handles_at_def comp_def split_def)
qed

lemma objects_okD:
  assumes "objects_ok lay T H L Ob" and "r \<in> set Ob"
  shows "type_ok lay (T r)" and "r \<in> set L" and "getSizeOfConstituentObject lay (T r) + 4 \<le> usable (al H) r"
  using assms by (auto simp: objects_ok_def)

text \<open>A handle of an object lies in the memory of the object, and so in no other object and not in \<open>G\<close>.\<close>

lemma own_inside:
  assumes "al_inv (al H) L S" and "objects_ok lay T H L Ob" and "r \<in> set Ob" and "h \<in> set (own lay T r)"
  shows "r < h" and "h < r + usable (al H) r" and "\<exists>b \<in> set (managed (al H)). in_block b h \<and> in_block b r"
proof -
  note r = objects_okD [OF assms(2,3)] and h = own_range [OF objects_okD(1) [OF assms(2,3)] assms(4)]
  show "r < h" "h < r + usable (al H) r" using h r(3) by auto
  then show "\<exists>b \<in> set (managed (al H)). in_block b h \<and> in_block b r"
    using live_object_inside [OF assms(1) r(2)] by (auto simp: in_block_def intro!: bexI)
qed

lemma own_disjoint:
  assumes "al_inv (al H) L S" and "objects_ok lay T H L Ob" and "r \<in> set Ob" and "r' \<in> set Ob" and "r \<noteq> r'"
  shows "set (own lay T r) \<inter> set (own lay T r') = {}"
proof -
  have "r + usable (al H) r \<le> r' - 4 \<or> r' + usable (al H) r' \<le> r - 4"
    using live_objects_apart [OF assms(1)] objects_okD(2) [OF assms(2)] assms(3-5) by blast
  then show ?thesis using own_inside(1,2) [OF assms(1,2,3)] own_inside(1,2) [OF assms(1,2,4)] by fastforce
qed

lemma own_not_root:
  assumes "al_inv (al H) L S" and "objects_ok lay T H L Ob" and "outside_ok lay G X H" and "r \<in> set Ob"
  shows "set (own lay T r) \<inter> set G = {}"
  using own_inside(3) [OF assms(1,2,4)] assms(3) by (fastforce simp: outside_ok_def unmanaged_def)

lemma concat_own_distinct:
  assumes "al_inv (al H) L S" and "objects_ok lay T H L Ob" and "distinct Ob'" and "set Ob' \<subseteq> set Ob"
  shows "distinct (concat (map (own lay T) Ob'))"
  using assms(3,4)
proof (induction Ob')
  case (Cons r Ob')
  have "set (own lay T r) \<inter> set (own lay T r') = {}" if "r' \<in> set Ob'" for r'
    using own_disjoint [OF assms(1,2)] Cons.prems that by auto
  then show ?case using Cons distinct_own [OF objects_okD(1) [OF assms(2)]] by auto
qed simp

lemma hlist_distinct:
  assumes "al_inv (al H) L S" and "objects_ok lay T H L Ob" and "outside_ok lay G X H"
  shows "distinct (hlist lay T G Ob)"
  using concat_own_distinct [OF assms(1,2), of Ob] assms(2,3) own_not_root [OF assms]
  by (auto simp: hlist_def objects_ok_def outside_ok_def)

section \<open>Counting references\<close>

lemma refs_Nil [simp]: "refs H [] r = 0"
  by (simp add: refs_def)

lemma refs_Cons: "refs H (h # hs) r = (if \<not> isNullPtr h H \<and> getTarget h H = r then 1 else 0) + refs H hs r"
  by (simp add: refs_def)

lemma refs_append [simp]: "refs H (hs @ hs') r = refs H hs r + refs H hs' r"
  by (simp add: refs_def)

lemma refs_mset: "mset hs = mset hs' \<Longrightarrow> refs H hs r = refs H hs' r"
  unfolding refs_def by (metis mset_filter size_mset)

lemma refs_pos: "h \<in> set hs \<Longrightarrow> \<not> isNullPtr h H \<Longrightarrow> getTarget h H = r \<Longrightarrow> 0 < refs H hs r"
  by (auto simp: refs_def filter_empty_conv)

lemma refs_zero: "refs H hs r = 0 \<longleftrightarrow> (\<forall>h \<in> set hs. isNullPtr h H \<or> getTarget h H \<noteq> r)"
  by (auto simp: refs_def filter_empty_conv)

lemma refs_cong:
  assumes "\<And>h. h \<in> set hs \<Longrightarrow> hOffset H' h = hOffset H h"
  shows "refs H' hs r = refs H hs r"
  using assms by (induction hs) (auto simp: refs_Cons isNullPtr_def getTarget_def)

lemma refs_length: "refs H hs r \<le> length hs"
  by (simp add: refs_def)

text \<open>The targets of some handles that are objects in \<open>Ob\<close>, each as often as it is referred to.\<close>

definition targets :: "object_heap \<Rightarrow> nat set \<Rightarrow> nat list \<Rightarrow> nat multiset" where
  "targets H Q hs = mset (map (\<lambda>h. getTarget h H) (filter (\<lambda>h. \<not> isNullPtr h H \<and> getTarget h H \<in> Q) hs))"

lemma targets_Nil [simp]: "targets H Q [] = {#}"
  by (simp add: targets_def)

lemma targets_Cons: "targets H Q (h # hs) =
    (if \<not> isNullPtr h H \<and> getTarget h H \<in> Q then add_mset (getTarget h H) (targets H Q hs) else targets H Q hs)"
  by (simp add: targets_def)

lemma targets_rev: "targets H Q (rev hs) = targets H Q hs"
  by (simp add: targets_def rev_filter [symmetric] rev_map [symmetric])

lemma set_targets: "set_mset (targets H Q hs) \<subseteq> Q"
  by (auto simp: targets_def)

lemma count_targets: "r \<in> Q \<Longrightarrow> count (targets H Q hs) r = refs H hs r"
  by (induction hs) (auto simp: targets_Cons refs_Cons)

lemma targets_cong:
  assumes "hOffset H' = hOffset H" and "\<And>h. h \<in> set hs \<Longrightarrow> \<not> isNullPtr h H \<Longrightarrow> getTarget h H \<in> Q \<longleftrightarrow> getTarget h H \<in> Q'"
  shows "targets H' Q' hs = targets H Q hs"
  using assms(2) by (induction hs) (auto simp: targets_Cons isNullPtr_def getTarget_def assms(1))

lemma hlist_remove:
  assumes "r \<in> set Ob"
  shows "mset (hlist lay T G Ob) = mset (hlist lay T G (remove1 r Ob)) + mset (own lay T r)"
  using assms by (induction Ob) (auto simp: hlist_def)

lemma set_hlist: "set (hlist lay T G Ob) = set G \<union> (\<Union>r \<in> set Ob. set (own lay T r))"
  by (auto simp: hlist_def)

text \<open>
  Objects that keep each other or are kept by a pending reference or by a local variable: giving up other
  references does not destroy them.
\<close>

definition supported :: "layouts \<Rightarrow> nat list \<Rightarrow> (nat \<Rightarrow> int) \<Rightarrow> nat set \<Rightarrow> object_heap \<Rightarrow> nat multiset \<Rightarrow> nat set \<Rightarrow> bool" where
  "supported lay G T B H P K \<longleftrightarrow> (\<forall>r \<in> K. r \<in># P \<or>
     (\<exists>h. (h \<in> set G \<or> (\<exists>q \<in> K. h \<in> set (own lay T q))) \<and> h \<notin> B \<and> \<not> isNullPtr h H \<and> getTarget h H = r))"

lemma supported_not_dead:
  assumes "supported lay G T B H P K" and "K \<subseteq> set Ob" and "refs H (filter (\<lambda>h. h \<notin> B) (hlist lay T G Ob)) r = 0" and "r \<notin># P"
  shows "r \<notin> K"
proof
  assume "r \<in> K"
  then obtain h where "h \<in> set (hlist lay T G Ob)" "h \<notin> B" "\<not> isNullPtr h H" "getTarget h H = r"
    using assms(1,2,4) by (fastforce simp: supported_def set_hlist)
  then show False using assms(3) by (auto simp: refs_zero)
qed

section \<open>Giving up references\<close>

definition shrunk :: "object_heap \<Rightarrow> nat list \<Rightarrow> nat list \<Rightarrow> object_heap \<Rightarrow> nat list \<Rightarrow> nat list \<Rightarrow> bool" where
  "shrunk H L Ob H' L' Ob' \<longleftrightarrow> set Ob' \<subseteq> set Ob \<and> set L' = set L - (set Ob - set Ob') \<and> length L' \<le> length L \<and> length Ob' \<le> length Ob \<and>
     hOffset H' = hOffset H \<and> hType H' = hType H \<and> prims H' = prims H \<and>
     active_block (myState (al H')) = active_block (myState (al H)) \<and> myPolicies (al H') = myPolicies (al H) \<and>
     throwException (myState (al H')) = throwException (myState (al H)) \<and>
     set (allInactives (al H')) \<subseteq> set (allInactives (al H)) \<and> chunkSize (ram (al H')) = chunkSize (ram (al H))"

lemma shrunk_refl: "shrunk H L Ob H L Ob"
  by (simp add: shrunk_def)

lemma shrunk_trans: "shrunk H L Ob H1 L1 Ob1 \<Longrightarrow> shrunk H1 L1 Ob1 H2 L2 Ob2 \<Longrightarrow> set Ob \<subseteq> set L \<Longrightarrow> shrunk H L Ob H2 L2 Ob2"
  unfolding shrunk_def by (elim conjE, intro conjI) (auto simp: subset_iff)

lemma count_one_less:
  assumes inv: "rc_inv lay S G X T B H L Ob (add_mset r P)" and more: "1 < numCopies H r"
  defines "H1 \<equiv> H\<lparr>numCopies := (numCopies H)(r := numCopies H r - 1)\<rparr>"
  shows "rc_inv lay S G X T B H1 L Ob P"
proof -
  note D = rc_invD [OF inv]
  have same: "isNullPtr h H1 = isNullPtr h H" "getTarget h H1 = getTarget h H" for h
    by (simp_all add: isNullPtr_def getTarget_def H1_def)
  have "refs H1 hs q = refs H hs q" for hs q by (rule refs_cong) (simp add: H1_def)
  moreover have "handle_ok X T Ob H1 = handle_ok X T Ob H" "outside_ok lay G X H1 = outside_ok lay G X H"
    "objects_ok lay T H1 L Ob = objects_ok lay T H L Ob" "space_ok S H1 L = space_ok S H L"
    by (simp_all add: fun_eq_iff handle_ok_def outside_ok_def objects_ok_def space_ok_def same, simp_all add: H1_def)
  ultimately show ?thesis using inv more by (auto simp: rc_inv_def H1_def)
qed

lemma orphan_ok:
  assumes inv: "rc_inv lay S G X T B H L Ob (add_mset r P)" and one: "numCopies H r = 1" and B: "set (own lay T r) \<inter> B = {}"
  defines "H1 \<equiv> H\<lparr>numCopies := (numCopies H)(r := 0)\<rparr>"
  shows "rc_inv lay S G X T B H1 L (remove1 r Ob) (P + targets H (set Ob) (own lay T r))"
    and "r \<notin># P" and "refs H (filter (\<lambda>h. h \<notin> B) (hlist lay T G Ob)) r = 0"
proof -
  note D = rc_invD [OF inv]
  let ?hs = "filter (\<lambda>h. h \<notin> B) (hlist lay T G Ob)" and ?hs1 = "filter (\<lambda>h. h \<notin> B) (hlist lay T G (remove1 r Ob))"
  have r: "r \<in> set Ob" using D(5) by simp
  have z: "count P r = 0" "refs H ?hs r = 0" using D(6) [OF r] one by auto
  then show "r \<notin># P" "refs H ?hs r = 0" by (simp_all add: not_in_iff)
  have d: "distinct Ob" using D(2) by (simp add: objects_ok_def)
  have own: "filter (\<lambda>h. h \<notin> B) (own lay T r) = own lay T r" using B by (simp add: filter_id_conv disjoint_iff)
  have "mset ?hs = mset (?hs1 @ filter (\<lambda>h. h \<notin> B) (own lay T r))" by (simp add: hlist_remove [OF r])
  then have split: "refs H ?hs q = refs H ?hs1 q + refs H (own lay T r) q" for q
    using refs_mset [of ?hs "?hs1 @ own lay T r" H q] by (simp only: own refs_append)
  have away: "isNullPtr h H \<or> getTarget h H \<noteq> r" if "h \<in> set ?hs1 \<union> set (own lay T r)" for h
    using z(2) split [of r] that by (auto simp: refs_zero)
  have same: "isNullPtr h H1 = isNullPtr h H" "getTarget h H1 = getTarget h H" for h
    by (simp_all add: isNullPtr_def getTarget_def H1_def)
  have rf: "refs H1 hs q = refs H hs q" for hs q by (rule refs_cong) (simp add: H1_def)
  have "handle_ok X T (remove1 r Ob) H1 h" if "h \<in> set (hlist lay T G (remove1 r Ob)) - B" for h
  proof -
    have "h \<in> set (hlist lay T G Ob)" using that set_remove1_subset [of r Ob] by (auto simp: set_hlist)
    then have "handle_ok X T Ob H h" using D(4) that by blast
    then show ?thesis using away [of h] that d unfolding handle_ok_def same by (auto simp: H1_def)
  qed
  moreover have "outside_ok lay G X H1 = outside_ok lay G X H" "space_ok S H1 L = space_ok S H L"
    by (simp_all add: outside_ok_def space_ok_def same, simp_all add: H1_def)
  moreover have "objects_ok lay T H1 L (remove1 r Ob)" using D(2) d by (auto simp: objects_ok_def H1_def dest: notin_set_remove1)
  moreover have "set_mset (P + targets H (set Ob) (own lay T r)) \<subseteq> set (remove1 r Ob)"
  proof -
    have "q \<noteq> r" if "q \<in># targets H (set Ob) (own lay T r)" for q using that away by (auto simp: targets_def)
    then show ?thesis using D(5) set_targets [of H "set Ob" "own lay T r"] \<open>r \<notin># P\<close> d by auto
  qed
  moreover have "numCopies H1 q = refs H1 ?hs1 q + count (P + targets H (set Ob) (own lay T r)) q \<and> 0 < numCopies H1 q \<and> numCopies H1 q < 2 ^ 32"
    if "q \<in> set (remove1 r Ob)" for q
  proof -
    have q: "q \<in> set Ob" "q \<noteq> r" using that d by (auto dest: notin_set_remove1)
    then show ?thesis using D(6,7,8) [OF q(1)] split [of q] by (simp add: rf count_targets) (simp add: H1_def)
  qed
  ultimately show "rc_inv lay S G X T B H1 L (remove1 r Ob) (P + targets H (set Ob) (own lay T r))"
    using D(1,3) by (intro rc_invI) blast+
qed

lemma free_orphan_ok:
  assumes inv: "rc_inv lay S G X T B H L Ob P" and r: "r \<in> set L" "r \<notin> set Ob"
  obtains A' where "freeRAM r (al H) = Inr A'" and "rc_inv lay S G X T B (H\<lparr>al := A'\<rparr>) (remove1 r L) Ob P"
    and "active_block (myState A') = active_block (myState (al H))" and "myPolicies A' = myPolicies (al H)"
    and "throwException (myState A') = throwException (myState (al H))"
    and "set (allInactives A') \<subseteq> set (allInactives (al H))" and "chunkSize (ram A') = chunkSize (ram (al H))"
proof -
  note D = rc_invD [OF inv]
  have sp: "al_inv (al H) L S" "policies_ok (al H)" "counting (al H)" "al_room L S" using D(1) by (auto simp: space_ok_def)
  obtain A' where A': "freeRAM r (al H) = Inr A'" "freed True r (al H) L S A'"
    using freeRAM_freed [OF sp(1,2,4) r(1)] sp(3) by auto
  define H1 where "H1 = H\<lparr>al := A'\<rparr>"
  have f: "al_inv A' (remove1 r L) S" "active_block (myState A') = active_block (myState (al H))" "myPolicies A' = myPolicies (al H)"
    "chunkSize (ram A') = chunkSize (ram (al H))" "set (allInactives A') \<subseteq> set (allInactives (al H))"
    "throwException (myState A') = throwException (myState (al H))"
    using A'(2) by (auto simp: freed_def)
  have same: "isNullPtr h H1 = isNullPtr h H" "getTarget h H1 = getTarget h H" "hType H1 = hType H" "numCopies H1 = numCopies H" for h
    by (simp_all add: isNullPtr_def getTarget_def H1_def)
  have rf: "refs H1 hs q = refs H hs q" for hs q by (rule refs_cong) (simp add: H1_def)
  have man: "set (managed A') \<subseteq> set (managed (al H))" using f(2,5) by (auto simp: managed_def)
  have "space_ok S H1 (remove1 r L)"
    using sp f by (auto simp: space_ok_def H1_def policies_ok_def counting_def al_room_def length_remove1)
  moreover have "objects_ok lay T H1 (remove1 r L) Ob"
  proof -
    have "q \<in> set (remove1 r L)" if "q \<in> set Ob" for q
      using objects_okD(2) [OF D(2) that] r(2) that by (metis in_set_remove1)
    then show ?thesis using D(2) f(4) by (auto simp: objects_ok_def H1_def usable_def)
  qed
  moreover have "outside_ok lay G X H1"
  proof -
    have "unmanaged x (al H1)" if "unmanaged x (al H)" for x using unmanaged_less [OF that man] by (simp add: H1_def)
    moreover have "foreign x (al H1)" if "foreign x (al H)" for x using foreign_less [OF that f(2,5)] by (simp add: H1_def)
    ultimately show ?thesis using D(3) by (simp add: outside_ok_def same)
  qed
  ultimately have "rc_inv lay S G X T B H1 (remove1 r L) Ob P"
    using D(4-8) by (simp add: rc_inv_def handle_ok_def same rf)
  then show thesis using that A'(1) f by (simp add: H1_def)
qed

lemma dec_wrap: "0 < n \<Longrightarrow> n < 2 ^ 32 \<Longrightarrow> (n + 2 ^ 32 - 1) mod 2 ^ 32 = (n - 1 :: nat)"
  by (cases n) auto

text \<open>
  Giving up the pending reference to \<open>r\<close>: with more fuel than there are objects the recursion ends, keeps the
  invariant without that reference, and leaves the supported objects alone.
\<close>

definition dec_fine :: "layouts \<Rightarrow> AllocatorState list \<Rightarrow> nat list \<Rightarrow> (nat \<times> int) set \<Rightarrow> (nat \<Rightarrow> int) \<Rightarrow> nat set \<Rightarrow> nat set \<Rightarrow>
    object_heap \<Rightarrow> nat list \<Rightarrow> nat list \<Rightarrow> nat multiset \<Rightarrow> object_heap result \<Rightarrow> bool" where
  "dec_fine lay S G X T B K H L Ob P res \<longleftrightarrow> (\<exists>H' L' Ob'. res = Inr H' \<and> rc_inv lay S G X T B H' L' Ob' P \<and>
     shrunk H L Ob H' L' Ob' \<and> K \<subseteq> set Ob')"

definition guarded :: "layouts \<Rightarrow> (nat \<Rightarrow> int) \<Rightarrow> nat set \<Rightarrow> nat set \<Rightarrow> nat list \<Rightarrow> bool" where
  "guarded lay T B K Ob \<longleftrightarrow> K \<subseteq> set Ob \<and> (\<forall>q \<in> set Ob. set (own lay T q) \<inter> B \<noteq> {} \<longrightarrow> q \<in> K)"

lemma supported_cong:
  "hOffset H' = hOffset H \<Longrightarrow> set_mset P \<subseteq> set_mset P' \<Longrightarrow> supported lay G T B H P K \<Longrightarrow> supported lay G T B H' P' K"
  unfolding supported_def isNullPtr_def getTarget_def by fastforce

lemma destroy_step:
  assumes dec: "\<And>H L Ob r P. rc_inv lay S G X T B H L Ob (add_mset r P) \<Longrightarrow> guarded lay T B K Ob \<Longrightarrow> supported lay G T B H P K \<Longrightarrow>
      length Ob < k \<Longrightarrow> dec_fine lay S G X T B K H L Ob P (object_decRefCount lay k r (T r) H)"
    and "rc_inv lay S G X T B H L Ob (P + targets H (set Ob) hs)" and "guarded lay T B K Ob" and "supported lay G T B H P K"
    and "length Ob < k" and "\<And>h. h \<in> set hs \<Longrightarrow> handle_ok X T Ob H h"
  shows "dec_fine lay S G X T B K H L Ob P (destroyHandles lay k hs H)"
  using assms(2-6)
proof (induction hs arbitrary: H L Ob)
  case Nil
  then show ?case using shrunk_refl by (auto simp: dec_fine_def guarded_def intro!: exI)
next
  case (Cons h hs)
  note D = rc_invD [OF Cons.prems(1)]
  have inv: "al_inv (al H) L S" using D(1) by (simp add: space_ok_def)
  show ?case
  proof (cases "\<not> isNullPtr h H \<and> getTarget h H \<in> set Ob")
    case False
    have skip: "destroyHandles lay k (h # hs) H = destroyHandles lay k hs H"
    proof (cases "isNullPtr h H")
      case False
      then have "(getTarget h H, hType H h) \<in> X" using \<open>\<not> (_ \<and> _)\<close> Cons.prems(5) by (auto simp: handle_ok_def)
      then have "foreign (getTarget h H) (al H)" using D(3) by (auto simp: outside_ok_def)
      then show ?thesis using False foreign_isManaged [OF inv] by simp
    qed simp
    have "targets H (set Ob) (h # hs) = targets H (set Ob) hs" using False by (auto simp: targets_Cons)
    then have "dec_fine lay S G X T B K H L Ob P (destroyHandles lay k hs H)" using Cons.prems by (intro Cons.IH) auto
    then show ?thesis by (simp only: skip)
  next
    case True
    let ?r = "getTarget h H" and ?P = "P + targets H (set Ob) hs"
    have tgt: "P + targets H (set Ob) (h # hs) = add_mset ?r ?P" using True by (simp add: targets_Cons)
    have man: "isManaged ?r (al H) = Inr True" using live_isManaged [OF inv] objects_okD(2) [OF D(2)] True by blast
    have ty: "hType H h = T ?r"
    proof -
      have "\<not> foreign ?r (al H)" using live_not_foreign [OF inv] objects_okD(2) [OF D(2)] True by blast
      then have "(?r, hType H h) \<notin> X" using D(3) by (auto simp: outside_ok_def)
      then show ?thesis using Cons.prems(5) [of h] True by (auto simp: handle_ok_def)
    qed
    have "supported lay G T B H ?P K" by (rule supported_cong [OF refl _ Cons.prems(3)]) simp
    then obtain H' L' Ob' where d: "object_decRefCount lay k ?r (T ?r) H = Inr H'" "rc_inv lay S G X T B H' L' Ob' ?P"
      "shrunk H L Ob H' L' Ob'" "K \<subseteq> set Ob'"
      using dec [OF Cons.prems(1) [unfolded tgt] Cons.prems(2) _ Cons.prems(4)] by (auto simp: dec_fine_def)
    have sh: "hOffset H' = hOffset H" "hType H' = hType H" "set Ob' \<subseteq> set Ob" "length Ob' \<le> length Ob" using d(3) by (auto simp: shrunk_def)
    have keep: "getTarget x H \<in> set Ob'" if "x \<in> set hs" "\<not> isNullPtr x H" "getTarget x H \<in> set Ob" for x
      using rc_invD(5) [OF d(2)] that by (auto simp: targets_def)
    have "targets H' (set Ob') hs = targets H (set Ob) hs"
      by (rule targets_cong [OF sh(1)]) (use keep sh(3) in auto)
    then have "rc_inv lay S G X T B H' L' Ob' (P + targets H' (set Ob') hs)" using d(2) by simp
    moreover have "guarded lay T B K Ob'" using Cons.prems(2) d(4) sh(3) by (auto simp: guarded_def)
    moreover have "supported lay G T B H' P K" by (rule supported_cong [OF sh(1) _ Cons.prems(3)]) simp
    moreover have "handle_ok X T Ob' H' x" if "x \<in> set hs" for x
      using Cons.prems(5) [of x] keep [OF that] that sh(1,2) by (auto simp: handle_ok_def isNullPtr_def getTarget_def)
    ultimately have "dec_fine lay S G X T B K H' L' Ob' P (destroyHandles lay k hs H')"
      using Cons.prems(4) sh(4) by (intro Cons.IH) auto
    moreover have "set Ob \<subseteq> set L" using D(2) by (simp add: objects_ok_def)
    ultimately show ?thesis
      using True man ty d shrunk_trans [OF d(3)] by (fastforce simp: dec_fine_def)
  qed
qed

lemma object_release_ok:
  assumes "rc_inv lay S G X T B H L Ob (add_mset r P)" and "guarded lay T B K Ob" and "supported lay G T B H P K" and "length Ob < k"
  shows "dec_fine lay S G X T B K H L Ob P (object_decRefCount lay k r (T r) H)"
  using assms
proof (induction k arbitrary: H L Ob r P)
  case (Suc k)
  note inv = Suc.prems(1) and D = rc_invD [OF Suc.prems(1)]
  have r: "r \<in> set Ob" using D(5) by simp
  have "al_inv (al H) L S" using D(1) by (simp add: space_ok_def)
  then have man: "isManaged r (al H) = Inr True" using live_isManaged objects_okD(2) [OF D(2) r] by blast
  note cnt = D(7) [OF r] D(8) [OF r] and wrap = dec_wrap [OF D(7) [OF r] D(8) [OF r]]
  show ?case
  proof (cases "numCopies H r = 1")
    case False
    let ?H1 = "H\<lparr>numCopies := (numCopies H)(r := numCopies H r - 1)\<rparr>"
    have more: "1 < numCopies H r" using False cnt(1) by linarith
    have "object_decRefCount lay (Suc k) r (T r) H = Inr ?H1" using man more wrap by (simp add: Let_def)
    moreover have "rc_inv lay S G X T B ?H1 L Ob P" by (rule count_one_less [OF inv more])
    moreover have "shrunk H L Ob ?H1 L Ob" by (simp add: shrunk_def)
    ultimately show ?thesis using Suc.prems(2) unfolding dec_fine_def guarded_def by blast
  next
    case True
    let ?H1 = "H\<lparr>numCopies := (numCopies H)(r := 0)\<rparr>" and ?own = "own lay T r"
    let ?Ob1 = "remove1 r Ob"
    have rK: "r \<notin> K" if "r \<notin># P" "refs H (filter (\<lambda>h. h \<notin> B) (hlist lay T G Ob)) r = 0"
      using supported_not_dead [OF Suc.prems(3) _ that(2,1)] Suc.prems(2) by (simp add: guarded_def)
    have zero: "r \<notin># P" "refs H (filter (\<lambda>h. h \<notin> B) (hlist lay T G Ob)) r = 0"
      using D(6) [OF r] True by (auto simp: not_in_iff)
    have B: "set ?own \<inter> B = {}" using rK [OF zero] Suc.prems(2) r by (auto simp: guarded_def)
    note orphan = orphan_ok [OF inv True B]
    have d: "distinct Ob" using D(2) by (simp add: objects_ok_def)
    have set1: "set ?Ob1 = set Ob - {r}" using d by simp
    have hd: "handle_ok X T Ob H h" if "h \<in> set ?own" for h using D(4) [of h] that r B by (auto simp: set_hlist)
    have away: "isNullPtr h H \<or> getTarget h H \<noteq> r" if "h \<in> set ?own" for h
      using orphan(3) that r B by (fastforce simp: refs_zero set_hlist)
    have tg: "targets ?H1 (set ?Ob1) (rev ?own) = targets H (set Ob) ?own"
      unfolding targets_rev by (rule targets_cong) (use away set1 in auto)
    have g1: "guarded lay T B K ?Ob1" using Suc.prems(2) rK [OF zero] set1 by (auto simp: guarded_def)
    have s1: "supported lay G T B ?H1 P K" by (rule supported_cong [OF _ _ Suc.prems(3)]) simp_all
    have h1: "handle_ok X T ?Ob1 ?H1 h" if "h \<in> set (rev ?own)" for h
      using hd [of h] away [of h] that set1 by (auto simp: handle_ok_def isNullPtr_def getTarget_def)
    have len: "length ?Ob1 < k" using Suc.prems(4) r length_pos_if_in_set [OF r] by (simp add: length_remove1 del: length_greater_0_conv)
    have "dec_fine lay S G X T B K ?H1 L ?Ob1 P (destroyHandles lay k (rev ?own) ?H1)"
      by (rule destroy_step [OF Suc.IH _ g1 s1 len h1]) (use orphan(1) tg in \<open>simp_all\<close>)
    then obtain H2 L2 Ob2 where d2: "destroyHandles lay k (rev ?own) ?H1 = Inr H2" "rc_inv lay S G X T B H2 L2 Ob2 P"
      "shrunk ?H1 L ?Ob1 H2 L2 Ob2" "K \<subseteq> set Ob2" by (auto simp: dec_fine_def)
    have sub2: "set Ob2 \<subseteq> set ?Ob1" "set L2 = set L - (set ?Ob1 - set Ob2)" using d2(3) by (simp_all add: shrunk_def)
    have r2: "r \<in> set L2" "r \<notin> set Ob2" using sub2 set1 objects_okD(2) [OF D(2) r] by auto
    obtain A' where A': "freeRAM r (al H2) = Inr A'" "rc_inv lay S G X T B (H2\<lparr>al := A'\<rparr>) (remove1 r L2) Ob2 P"
      "active_block (myState A') = active_block (myState (al H2))" "myPolicies A' = myPolicies (al H2)"
      "throwException (myState A') = throwException (myState (al H2))"
      "set (allInactives A') \<subseteq> set (allInactives (al H2))" "chunkSize (ram A') = chunkSize (ram (al H2))"
      by (rule free_orphan_ok [OF d2(2) r2])
    have run: "object_decRefCount lay (Suc k) r (T r) H = Inr (H2\<lparr>al := A'\<rparr>)"
      using man True wrap d2(1) A'(1) by (simp add: Let_def own_def)
    have dL: "distinct L2" using live_distinct rc_invD(1) [OF d2(2)] by (auto simp: space_ok_def)
    have "shrunk H L Ob (H2\<lparr>al := A'\<rparr>) (remove1 r L2) Ob2"
      using d2(3) A' sub2 set1 r dL objects_okD(2) [OF D(2) r] unfolding shrunk_def
      by (elim conjE, intro conjI) (auto simp: length_remove1)
    then show ?thesis using run A'(2) d2(4) unfolding dec_fine_def by blast
  qed
qed simp

end
