(* ===== verification/HandleFrame.thy ===== *)
theory HandleFrame
  imports HandleInv
begin

text \<open>
  Assignment and deep copy keep the invariant of reference counting. While a handle is overwritten it is left out
  (blinded) and its reference is pending; then the handle is written and counted again.
\<close>

section \<open>Leaving a handle out\<close>

lemma filter_distinct_split:
  assumes "distinct hs" and "h \<in> set hs" and "h \<notin> B"
  shows "mset (filter (\<lambda>x. x \<notin> B) hs) = mset (filter (\<lambda>x. x \<notin> insert h B) hs @ [h])"
  using assms by (induction hs) (auto intro!: filter_mset_cong)

lemma rc_distinct: "rc_inv lay S G X T B H L Ob P \<Longrightarrow> distinct (hlist lay T G Ob)"
  by (rule hlist_distinct [OF _ rc_invD(2,3)]) (auto dest: rc_invD(1) simp: space_ok_def)

lemma refs_blind:
  assumes "rc_inv lay S G X T B H L Ob P" and "h \<in> set (hlist lay T G Ob)" and "h \<notin> B'"
  shows "refs H' (filter (\<lambda>x. x \<notin> B') (hlist lay T G Ob)) r =
    refs H' (filter (\<lambda>x. x \<notin> insert h B') (hlist lay T G Ob)) r + refs H' [h] r"
  using refs_mset [OF filter_distinct_split [OF rc_distinct [OF assms(1)] assms(2,3)]] by simp

lemma blind_ok:
  assumes inv: "rc_inv lay S G X T B H L Ob P" and h: "h \<in> set (hlist lay T G Ob)" "h \<notin> B"
  shows "rc_inv lay S G X T (insert h B) H L Ob (P + targets H (set Ob) [h])"
proof -
  note D = rc_invD [OF inv]
  have "numCopies H r = refs H (filter (\<lambda>x. x \<notin> insert h B) (hlist lay T G Ob)) r + count (P + targets H (set Ob) [h]) r" if "r \<in> set Ob" for r
    using D(6) [OF that] refs_blind [OF inv h, of H r] count_targets [OF that, of H "[h]"] by simp
  moreover have "set_mset (P + targets H (set Ob) [h]) \<subseteq> set Ob" using D(5) set_targets [of H "set Ob" "[h]"] by auto
  ultimately show ?thesis using D by (intro rc_invI) auto
qed

lemma unblind_ok:
  assumes inv: "rc_inv lay S G X T (insert h B) H L Ob (P + targets H (set Ob) [h])"
    and h: "h \<in> set (hlist lay T G Ob)" "h \<notin> B" "handle_ok X T Ob H h"
  shows "rc_inv lay S G X T B H L Ob P"
proof -
  note D = rc_invD [OF inv]
  have "numCopies H r = refs H (filter (\<lambda>x. x \<notin> B) (hlist lay T G Ob)) r + count P r" if "r \<in> set Ob" for r
    using D(6) [OF that] refs_blind [OF inv h(1,2), of H r] count_targets [OF that, of H "[h]"] by simp
  moreover have "handle_ok X T Ob H x" if "x \<in> set (hlist lay T G Ob) - B" for x using D(4) [of x] that h(3) by (cases "x = h") auto
  ultimately show ?thesis using D(1-3,5,7,8) by (intro rc_invI) auto
qed

text \<open>The invariant depends on the handles that are not left out and on the handles of objects outside.\<close>

lemma rc_inv_cong:
  assumes inv: "rc_inv lay S G X T B H L Ob P" and "al H' = al H"
    and hs: "\<And>x. x \<in> set (hlist lay T G Ob) \<Longrightarrow> x \<notin> B \<Longrightarrow> hOffset H' x = hOffset H x \<and> hType H' x = hType H x"
    and out: "\<And>x. unmanaged x (al H) \<Longrightarrow> x \<notin> set G \<Longrightarrow> hOffset H' x = hOffset H x \<and> hType H' x = hType H x"
    and cnt: "\<And>r. r \<in> set Ob \<Longrightarrow> numCopies H' r = numCopies H r"
  shows "rc_inv lay S G X T B H' L Ob P"
proof (rule rc_invI)
  note D = rc_invD [OF inv]
  show "space_ok S H' L" "objects_ok lay T H' L Ob" using D(1,2) assms(2) by (simp_all add: space_ok_def objects_ok_def)
  show "outside_ok lay G X H'"
  proof -
    have "isNullPtr x H' = isNullPtr x H \<and> getTarget x H' = getTarget x H \<and> hType H' x = hType H x"
      if "unmanaged x (al H)" "x \<notin> set G" for x using out [OF that] by (simp add: isNullPtr_def getTarget_def)
    then show ?thesis using D(3) assms(2) by (simp add: outside_ok_def)
  qed
  show "handle_ok X T Ob H' x" if "x \<in> set (hlist lay T G Ob) - B" for x
    using D(4) [of x] hs [of x] that by (simp add: handle_ok_def isNullPtr_def getTarget_def)
  show "set_mset P \<subseteq> set Ob" by (rule D(5))
  have "refs H' (filter (\<lambda>h. h \<notin> B) (hlist lay T G Ob)) r = refs H (filter (\<lambda>h. h \<notin> B) (hlist lay T G Ob)) r" for r
    by (rule refs_cong) (use hs in auto)
  then show "numCopies H' r = refs H' (filter (\<lambda>h. h \<notin> B) (hlist lay T G Ob)) r + count P r \<and> 0 < numCopies H' r \<and> numCopies H' r < 2 ^ 32"
    if "r \<in> set Ob" for r using D(6-8) [OF that] cnt [OF that] by simp
qed

lemma inc_ok:
  assumes inv: "rc_inv lay S G X T B H L Ob P" and r: "r \<in> set Ob" and room: "numCopies H r + 1 < 2 ^ 32"
  defines "H1 \<equiv> H\<lparr>numCopies := (numCopies H)(r := numCopies H r + 1)\<rparr>"
  shows "object_incRefCount r H = Inr H1" and "rc_inv lay S G X T B H1 L Ob (add_mset r P)"
proof -
  note D = rc_invD [OF inv]
  have "al_inv (al H) L S" using D(1) by (simp add: space_ok_def)
  then have "isManaged r (al H) = Inr True" using live_isManaged objects_okD(2) [OF D(2) r] by blast
  then show "object_incRefCount r H = Inr H1" using room by (simp add: object_incRefCount_def H1_def)
  have same: "isNullPtr h H1 = isNullPtr h H" "getTarget h H1 = getTarget h H" "hType H1 = hType H" "al H1 = al H" for h
    by (simp_all add: isNullPtr_def getTarget_def H1_def)
  have rf: "refs H1 hs q = refs H hs q" for hs q by (rule refs_cong) (simp add: H1_def)
  show "rc_inv lay S G X T B H1 L Ob (add_mset r P)"
  proof (rule rc_invI)
    show "numCopies H1 q = refs H1 (filter (\<lambda>h. h \<notin> B) (hlist lay T G Ob)) q + count (add_mset r P) q \<and> 0 < numCopies H1 q \<and> numCopies H1 q < 2 ^ 32"
      if "q \<in> set Ob" for q unfolding rf using D(6-8) [OF that] room by (auto simp: H1_def)
  qed (use D(1-5) r in \<open>auto simp: space_ok_def objects_ok_def outside_ok_def handle_ok_def same\<close>)
qed

section \<open>The size of the memory bounds the counts\<close>

definition managed_bytes :: "allocator \<Rightarrow> nat" where
  "managed_bytes A = sum_list (map (\<lambda>b. b_end b - b_start b) (managed A))"

definition fits :: "nat list \<Rightarrow> AllocatorState list \<Rightarrow> allocator \<Rightarrow> nat multiset \<Rightarrow> bool" where
  "fits G S A P \<longleftrightarrow> length G + managed_bytes A + length S + size P + 2 < 2 ^ 32"

lemma card_in_blocks: "finite (\<Union>b \<in> set bs. {b_start b..<b_end b}) \<and>
    card (\<Union>b \<in> set bs. {b_start b..<b_end b}) \<le> sum_list (map (\<lambda>b. b_end b - b_start b) bs)"
proof (induction bs)
  case (Cons b bs)
  have "card (\<Union>c \<in> set (b # bs). {b_start c..<b_end c}) \<le> card {b_start b..<b_end b} + card (\<Union>c \<in> set bs. {b_start c..<b_end c})"
    using card_Un_le [of "{b_start b..<b_end b}" "\<Union>c \<in> set bs. {b_start c..<b_end c}"] by simp
  then show ?case using Cons by simp
qed simp

lemma distinct_in_blocks:
  assumes "distinct xs" and "\<And>x. x \<in> set xs \<Longrightarrow> \<exists>b \<in> set (managed A). in_block b x"
  shows "length xs \<le> managed_bytes A"
proof -
  let ?U = "\<Union>b \<in> set (managed A). {b_start b..<b_end b}"
  have "set xs \<subseteq> ?U" using assms(2) by (fastforce simp: in_block_def)
  then have "card (set xs) \<le> card ?U" using card_in_blocks [of "managed A"] by (intro card_mono) blast+
  then show ?thesis using card_in_blocks [of "managed A"] distinct_card [OF assms(1)] by (auto simp: managed_bytes_def)
qed

lemma live_bytes:
  assumes "al_inv A L S"
  shows "length L \<le> managed_bytes A"
proof (rule distinct_in_blocks [OF live_distinct [OF assms]])
  fix l assume "l \<in> set L"
  from live_object_inside [OF assms this] obtain b where "b \<in> set (managed A)" "b_start b + 24 \<le> l" "l + usable A l \<le> b_end b" "4 \<le> usable A l"
    by blast
  then show "\<exists>b \<in> set (managed A). in_block b l" by (intro bexI [of _ b]) (simp_all add: in_block_def)
qed

lemma objects_bytes: "rc_inv lay S G X T B H L Ob P \<Longrightarrow> length Ob \<le> length L"
proof -
  assume "rc_inv lay S G X T B H L Ob P"
  then have "distinct Ob" "set Ob \<subseteq> set L" using rc_invD(2) by (auto simp: objects_ok_def)
  then have "length Ob \<le> card (set L)" using card_mono [of "set L" "set Ob"] distinct_card [of Ob] by simp
  then show ?thesis using card_length [of L] by simp
qed

lemma handles_bytes:
  assumes "rc_inv lay S G X T B H L Ob P"
  shows "length (hlist lay T G Ob) \<le> length G + managed_bytes (al H)"
proof -
  note D = rc_invD [OF assms]
  have inv: "al_inv (al H) L S" using D(1) by (simp add: space_ok_def)
  have "length (concat (map (own lay T) Ob)) \<le> managed_bytes (al H)"
  proof (rule distinct_in_blocks)
    show "distinct (concat (map (own lay T) Ob))" using rc_distinct [OF assms] by (simp add: hlist_def)
    show "\<exists>b \<in> set (managed (al H)). in_block b x" if "x \<in> set (concat (map (own lay T) Ob))" for x
      using own_inside(3) [OF inv D(2)] that by fastforce
  qed
  then show ?thesis by (simp add: hlist_def)
qed

lemma count_room:
  assumes "rc_inv lay S G X T B H L Ob P" and "fits G S (al H) Q" and "size P \<le> size Q + 1" and "r \<in> set Ob"
  shows "numCopies H r + 1 < 2 ^ 32"
proof -
  have "refs H (filter (\<lambda>h. h \<notin> B) (hlist lay T G Ob)) r \<le> length G + managed_bytes (al H)"
    using refs_length [of H "filter (\<lambda>h. h \<notin> B) (hlist lay T G Ob)" r] handles_bytes [OF assms(1)]
      length_filter_le [of "\<lambda>h. h \<notin> B" "hlist lay T G Ob"] by linarith
  moreover have "count P r \<le> size P" by (rule count_le_size)
  ultimately show ?thesis using rc_invD(6) [OF assms(1,4)] assms(2,3) by (simp add: fits_def)
qed

lemma managed_bytes_mono:
  assumes "distinct (managed A)" and "distinct (managed A')" and "set (managed A') \<subseteq> set (managed A)"
  shows "managed_bytes A' \<le> managed_bytes A"
  using assms by (simp add: managed_bytes_def sum_list_distinct_conv_sum_set sum_mono2)

section \<open>New objects\<close>

lemma alloc_ok:
  assumes inv: "rc_inv lay S G X T B H L Ob P" and fits: "fits G S (al H) Q" and req: "request_ok n"
    and run: "getRAM n (al H) = Inr (r, A)" "r \<noteq> 0"
  shows "rc_inv lay S G X T B (H\<lparr>al := A\<rparr>) (r # L) Ob P" and "r \<notin> set L" and "al_contains r A" and "n \<le> usable A r"
    and "same_blocks (al H) A" and "\<And>l. l \<in> set L \<Longrightarrow> usable A l = usable (al H) l"
proof -
  note D = rc_invD [OF inv]
  have sp: "al_inv (al H) L S" "policies_ok (al H)" "counting (al H)" "al_room L S" using D(1) by (auto simp: space_ok_def)
  have new: "al_inv A (r # L) S" "r \<notin> set L" "al_contains r A" using getRAM_new [OF sp(1,2,4) req run] by auto
  have g: "same_blocks (al H) A" "n + 4 \<le> chunkSize (ram A) (r - 4)" "\<And>l. l \<in> set L \<Longrightarrow> chunkSize (ram A) (l - 4) = chunkSize (ram (al H)) (l - 4)"
    using getRAM_got [OF sp(1,2,4) req] run by (auto simp: got_def chunk_list_def)
  show "r \<notin> set L" "al_contains r A" "same_blocks (al H) A" by fact+
  show "n \<le> usable A r" using g(2) by (simp add: usable_def)
  show us: "usable A l = usable (al H) l" if "l \<in> set L" for l using g(3) [OF that] by (simp add: usable_def)
  let ?H = "H\<lparr>al := A\<rparr>"
  have man: "managed A = managed (al H)" by (rule same_blocks_managed [OF g(1)])
  have "al_room (r # L) S"
    using live_bytes [OF sp(1)] fits by (simp add: al_room_def fits_def)
  then have "space_ok S ?H (r # L)" using new(1) sp(2,3) g(1) by (simp add: space_ok_def policies_ok_def counting_def same_blocks_def)
  moreover have "objects_ok lay T ?H (r # L) Ob" using D(2) us by (auto simp: objects_ok_def subset_iff)
  moreover have "outside_ok lay G X ?H"
    using D(3) g(1) man by (simp add: outside_ok_def unmanaged_def foreign_def contains_active same_blocks_def isNullPtr_def getTarget_def)
  moreover have "refs ?H hs q = refs H hs q" for hs q by (rule refs_cong) simp
  ultimately show "rc_inv lay S G X T B ?H (r # L) Ob P"
    using D(4-8) by (intro rc_invI) (auto simp: handle_ok_def isNullPtr_def getTarget_def)
qed

lemma birth_ok:
  assumes inv: "rc_inv lay S G X T B H L Ob P" and r: "r \<in> set L" "r \<notin> set Ob"
    and ty: "type_ok lay ty" "getSizeOfConstituentObject lay ty + 4 \<le> usable (al H) r"
    and null: "\<And>h. h \<in> set (handles_at lay ty (getObject r)) \<Longrightarrow> isNullPtr h H" and one: "numCopies H r = 1"
  shows "rc_inv lay S G X (T(r := ty)) B H L (r # Ob) (add_mset r P)"
proof (rule rc_invI)
  note D = rc_invD [OF inv]
  have sp: "al_inv (al H) L S" using D(1) by (simp add: space_ok_def)
  have own: "own lay (T(r := ty)) q = own lay T q" if "q \<in> set Ob" for q using that r(2) by (auto simp: own_def)
  have "map (own lay (T(r := ty))) Ob = map (own lay T) Ob" using own by simp
  moreover have "own lay (T(r := ty)) r = handles_at lay ty (getObject r)" by (simp add: own_def)
  ultimately have hl: "mset (hlist lay (T(r := ty)) G (r # Ob)) = mset (hlist lay T G Ob @ handles_at lay ty (getObject r))"
    by (simp only: hlist_def list.map concat.simps mset_append ac_simps)
  then have hs: "set (hlist lay (T(r := ty)) G (r # Ob)) = set (hlist lay T G Ob) \<union> set (handles_at lay ty (getObject r))"
    by (metis set_append set_mset_mset)
  have rf: "refs H (filter (\<lambda>h. h \<notin> B) (hlist lay (T(r := ty)) G (r # Ob))) q = refs H (filter (\<lambda>h. h \<notin> B) (hlist lay T G Ob)) q" for q
  proof -
    have "refs H (filter (\<lambda>h. h \<notin> B) (handles_at lay ty (getObject r))) q = 0" using null by (auto simp: refs_zero)
    moreover have eq: "mset (filter (\<lambda>h. h \<notin> B) (hlist lay (T(r := ty)) G (r # Ob))) =
        mset (filter (\<lambda>h. h \<notin> B) (hlist lay T G Ob @ handles_at lay ty (getObject r)))" using hl by (metis mset_filter)
    ultimately show ?thesis using refs_mset [OF eq, of H q] by simp
  qed
  have nf: "\<not> foreign r (al H)" by (rule live_not_foreign [OF sp r(1)])
  then have nX: "(r, t) \<notin> X" for t using D(3) by (auto simp: outside_ok_def)
  have zero: "refs H (filter (\<lambda>h. h \<notin> B) (hlist lay T G Ob)) r = 0"
    using D(4) r(2) nX by (fastforce simp: refs_zero handle_ok_def)
  have notP: "count P r = 0" using D(5) r(2) by (auto simp: not_in_iff [symmetric])
  show "space_ok S H L" "outside_ok lay G X H" by (rule D)+
  show "objects_ok lay (T(r := ty)) H L (r # Ob)" using D(2) r ty by (auto simp: objects_ok_def)
  show "set_mset (add_mset r P) \<subseteq> set (r # Ob)" using D(5) by auto
  show "handle_ok X (T(r := ty)) (r # Ob) H h" if "h \<in> set (hlist lay (T(r := ty)) G (r # Ob)) - B" for h
    using that D(4) [of h] null [of h] r(2) unfolding hs handle_ok_def by auto
  show "numCopies H q = refs H (filter (\<lambda>h. h \<notin> B) (hlist lay (T(r := ty)) G (r # Ob))) q + count (add_mset r P) q \<and>
      0 < numCopies H q \<and> numCopies H q < 2 ^ 32" if "q \<in> set (r # Ob)" for q
    using that D(6-8) [of q] one zero notP r(2) unfolding rf by (cases "q = r") auto
qed

section \<open>What a copy leaves alone\<close>

text \<open>
  \<open>act\<close> is the active block. \<open>V\<close> are the objects that may be copied or shared: with an object outside the active block
  it has the targets of its handles.
\<close>

definition valid :: "(nat \<times> int) set \<Rightarrow> (nat \<Rightarrow> int) \<Rightarrow> nat list \<Rightarrow> (nat \<times> int) set" where
  "valid X T Ob = X \<union> (\<lambda>r. (r, T r)) ` set Ob"

definition sources :: "layouts \<Rightarrow> (nat \<Rightarrow> bool) \<Rightarrow> object_heap \<Rightarrow> (nat \<times> int) set \<Rightarrow> bool" where
  "sources lay act H0 V \<longleftrightarrow> (\<forall>(r, ty) \<in> V. type_ok lay ty \<and> (\<not> act r \<longrightarrow>
     (\<forall>x \<in> set (handles_at lay ty (getObject r)). \<not> act x \<and> (isNullPtr x H0 \<or> (getTarget x H0, hType H0 x) \<in> V))))"

definition agree :: "(nat \<Rightarrow> bool) \<Rightarrow> object_heap \<Rightarrow> object_heap \<Rightarrow> bool" where
  "agree act H H' \<longleftrightarrow> (\<forall>x. \<not> act x \<longrightarrow> hOffset H' x = hOffset H x \<and> hType H' x = hType H x \<and>
     prims H' (getObject x) = prims H (getObject x))"

text \<open>New objects refer to what may be shared or to objects made after them.\<close>

definition layered :: "layouts \<Rightarrow> (nat \<Rightarrow> int) \<Rightarrow> object_heap \<Rightarrow> nat set \<Rightarrow> nat set \<Rightarrow> bool" where
  "layered lay T H N U \<longleftrightarrow> (\<exists>rank :: nat \<Rightarrow> nat. \<forall>r \<in> N. \<forall>x \<in> set (own lay T r).
     isNullPtr x H \<or> getTarget x H \<in> U \<or> getTarget x H \<in> N \<and> rank r < rank (getTarget x H))"

definition shareable :: "(nat \<times> int) set \<Rightarrow> allocator \<Rightarrow> nat set" where
  "shareable V A = {x \<in> fst ` V. al_contains x A}"

definition same_handle :: "object_heap \<Rightarrow> object_heap \<Rightarrow> nat \<Rightarrow> bool" where
  "same_handle H H' x \<longleftrightarrow> hOffset H' x = hOffset H x \<and> hType H' x = hType H x"

lemma same_handleD: "same_handle H H' x \<Longrightarrow> isNullPtr x H' = isNullPtr x H \<and> getTarget x H' = getTarget x H \<and> hType H' x = hType H x"
  by (simp add: same_handle_def isNullPtr_def getTarget_def)

definition same_active :: "allocator \<Rightarrow> allocator \<Rightarrow> bool" where
  "same_active A A' \<longleftrightarrow> active_block (myState A') = active_block (myState A) \<and> myPolicies A' = myPolicies A \<and>
     throwException (myState A') = throwException (myState A) \<and> set (allInactives A') \<subseteq> set (allInactives A)"

definition grown :: "layouts \<Rightarrow> nat list \<Rightarrow> (nat \<times> int) set \<Rightarrow> nat set \<Rightarrow> (nat \<Rightarrow> int) \<Rightarrow> object_heap \<Rightarrow> nat list \<Rightarrow> nat list \<Rightarrow>
    (nat \<Rightarrow> int) \<Rightarrow> object_heap \<Rightarrow> nat list \<Rightarrow> nat list \<Rightarrow> bool" where
  "grown lay G V W T H L Ob T' H' L' Ob' \<longleftrightarrow>
     set Ob \<subseteq> set Ob' \<and> set L' = set L \<union> (set Ob' - set Ob) \<and> set L \<inter> (set Ob' - set Ob) = {} \<and> length L \<le> length L' \<and>
     (\<forall>l \<in> set L. T' l = T l \<and> prims H' (getObject l) = prims H (getObject l)) \<and>
     same_active (al H) (al H') \<and> agree (\<lambda>x. al_contains x (al H)) H H' \<and>
     (\<forall>x \<in> set (hlist lay T G Ob). x \<notin> W \<longrightarrow> same_handle H H' x) \<and>
     (\<forall>r \<in> set Ob. (r, T r) \<notin> V \<longrightarrow> numCopies H' r = numCopies H r) \<and>
     (\<forall>r \<in> set Ob' - set Ob. al_contains r (al H)) \<and>
     layered lay T' H' (set Ob' - set Ob) (shareable V (al H)) \<and>
     (\<forall>g \<in> W. isNullPtr g H' \<or> getTarget g H' \<in> shareable V (al H) \<union> (set Ob' - set Ob))"

lemma grownD:
  assumes "grown lay G V W T H L Ob T' H' L' Ob'"
  shows "set Ob \<subseteq> set Ob'" and "set L' = set L \<union> (set Ob' - set Ob)" and "set L \<inter> (set Ob' - set Ob) = {}" and "length L \<le> length L'"
    and "\<And>l. l \<in> set L \<Longrightarrow> T' l = T l" and "\<And>l. l \<in> set L \<Longrightarrow> prims H' (getObject l) = prims H (getObject l)"
    and "same_active (al H) (al H')" and "agree (\<lambda>x. al_contains x (al H)) H H'"
    and "\<And>x. x \<in> set (hlist lay T G Ob) \<Longrightarrow> x \<notin> W \<Longrightarrow> same_handle H H' x"
    and "\<And>r. r \<in> set Ob \<Longrightarrow> (r, T r) \<notin> V \<Longrightarrow> numCopies H' r = numCopies H r"
    and "\<And>r. r \<in> set Ob' \<Longrightarrow> r \<notin> set Ob \<Longrightarrow> al_contains r (al H)"
    and "layered lay T' H' (set Ob' - set Ob) (shareable V (al H))"
    and "\<And>g. g \<in> W \<Longrightarrow> isNullPtr g H' \<or> getTarget g H' \<in> shareable V (al H) \<union> (set Ob' - set Ob)"
  using assms unfolding grown_def by blast+

lemma contains_same: "same_active A A' \<Longrightarrow> al_contains x A' = al_contains x A"
  by (simp add: same_active_def contains_active)

lemma own_same: "T' r = T r \<Longrightarrow> own lay T' r = own lay T r"
  by (simp add: own_def)

lemma hlist_subset:
  assumes "set Ob \<subseteq> set Ob'" and "\<And>r. r \<in> set Ob \<Longrightarrow> T' r = T r"
  shows "set (hlist lay T G Ob) \<subseteq> set (hlist lay T' G Ob')"
  using assms own_same [of T' _ T lay] by (fastforce simp: set_hlist)

lemma layered_empty [simp]: "layered lay T H {} U"
  by (simp add: layered_def)

lemma layered_trans:
  assumes "layered lay T H N U" and "layered lay T' H' N' U" and "finite N"
    and old: "\<And>r x. r \<in> N \<Longrightarrow> x \<in> set (own lay T' r) \<Longrightarrow> x \<notin> W \<Longrightarrow> x \<in> set (own lay T r) \<and> same_handle H H' x"
    and new: "\<And>x. x \<in> W \<Longrightarrow> isNullPtr x H' \<or> getTarget x H' \<in> U \<union> N'" and "N \<inter> N' = {}"
  shows "layered lay T' H' (N \<union> N') U"
proof -
  obtain f :: "nat \<Rightarrow> nat" where f: "\<And>r x. r \<in> N \<Longrightarrow> x \<in> set (own lay T r) \<Longrightarrow> isNullPtr x H \<or> getTarget x H \<in> U \<or> getTarget x H \<in> N \<and> f r < f (getTarget x H)"
    using assms(1) unfolding layered_def by blast
  obtain g :: "nat \<Rightarrow> nat" where g: "\<And>r x. r \<in> N' \<Longrightarrow> x \<in> set (own lay T' r) \<Longrightarrow> isNullPtr x H' \<or> getTarget x H' \<in> U \<or> getTarget x H' \<in> N' \<and> g r < g (getTarget x H')"
    using assms(2) unfolding layered_def by blast
  define rank where "rank r = (if r \<in> N then f r else Suc (Max (f ` N)) + g r)" for r
  have le: "f r < rank t" if "r \<in> N" "t \<in> N'" for r t
  proof -
    have "f r \<le> Max (f ` N)" using that assms(3) by simp
    moreover have "t \<notin> N" using that assms(6) by blast
    ultimately show ?thesis by (simp add: rank_def)
  qed
  have "isNullPtr x H' \<or> getTarget x H' \<in> U \<or> getTarget x H' \<in> N \<union> N' \<and> rank r < rank (getTarget x H')"
    if r: "r \<in> N \<union> N'" and x: "x \<in> set (own lay T' r)" for r x
  proof (cases "r \<in> N")
    case True
    show ?thesis
    proof (cases "x \<in> W")
      case True
      have "rank r = f r" using \<open>r \<in> N\<close> by (simp add: rank_def)
      then show ?thesis using new [OF True] le [OF \<open>r \<in> N\<close>] by auto
    next
      case False
      have "x \<in> set (own lay T r)" and same: "same_handle H H' x" using old [OF True x False] by auto
      from f [OF True this(1)] show ?thesis using same_handleD [OF same] True by (auto simp: rank_def)
    qed
  next
    case False
    then have "r \<in> N'" using r by blast
    from g [OF this x] show ?thesis using False assms(6) by (auto simp: rank_def)
  qed
  then show ?thesis unfolding layered_def by (intro exI [of _ rank]) blast
qed

lemma grown_restrict:
  assumes "grown lay G V W T H L Ob T' H' L' Ob'" and "W' \<subseteq> W" and "W \<inter> set (hlist lay T G Ob) \<subseteq> W'"
  shows "grown lay G V W' T H L Ob T' H' L' Ob'"
  using assms unfolding grown_def by (elim conjE, intro conjI) blast+

lemma own_in_hlist: "r \<in> set Ob \<Longrightarrow> x \<in> set (own lay T r) \<Longrightarrow> x \<in> set (hlist lay T G Ob)"
  by (auto simp: set_hlist)

lemma grown_trans:
  assumes g: "grown lay G V W T H L Ob T1 H1 L1 Ob1" and g': "grown lay G V W' T1 H1 L1 Ob1 T2 H2 L2 Ob2"
    and sub: "set Ob \<subseteq> set L" "set Ob1 \<subseteq> set L1" and W: "W \<subseteq> set (hlist lay T G Ob)" "W \<inter> W' = {}"
  shows "grown lay G V (W \<union> W') T H L Ob T2 H2 L2 Ob2"
proof -
  note D = grownD [OF g] and E = grownD [OF g']
  have LL: "set L \<subseteq> set L1" using D(2) by blast
  have new: "set Ob2 - set Ob = (set Ob1 - set Ob) \<union> (set Ob2 - set Ob1)" using D(1) E(1) by blast
  have T2: "T2 l = T l" if "l \<in> set L" for l using D(5) [OF that] E(5) [OF subsetD [OF LL that]] by simp
  have hl: "set (hlist lay T G Ob) \<subseteq> set (hlist lay T1 G Ob1)" by (rule hlist_subset [OF D(1)]) (use D(5) sub in auto)
  have act: "al_contains x (al H1) = al_contains x (al H)" for x by (rule contains_same [OF D(7)])
  have share: "shareable V (al H1) = shareable V (al H)" using act by (simp add: shareable_def)
  have hs: "same_handle H H2 x" if "x \<in> set (hlist lay T G Ob)" "x \<notin> W \<union> W'" for x
    using D(9) [OF that(1)] E(9) [OF subsetD [OF hl that(1)]] that(2) by (simp add: same_handle_def)
  have lay: "layered lay T2 H2 ((set Ob1 - set Ob) \<union> (set Ob2 - set Ob1)) (shareable V (al H))"
  proof (rule layered_trans [OF D(12) E(12) [unfolded share], where W = W'])
    show "x \<in> set (own lay T1 r) \<and> same_handle H1 H2 x" if "r \<in> set Ob1 - set Ob" "x \<in> set (own lay T2 r)" "x \<notin> W'" for r x
    proof -
      have "T2 r = T1 r" using E(5) that(1) sub by auto
      then have "x \<in> set (own lay T1 r)" using that(2) by (simp add: own_def)
      then show ?thesis using E(9) [OF own_in_hlist that(3)] that(1) by auto
    qed
    show "isNullPtr x H2 \<or> getTarget x H2 \<in> shareable V (al H) \<union> (set Ob2 - set Ob1)" if "x \<in> W'" for x using E(13) [OF that] unfolding share .
  qed auto
  have wt: "isNullPtr x H2 \<or> getTarget x H2 \<in> shareable V (al H) \<union> (set Ob2 - set Ob)" if x: "x \<in> W \<union> W'" for x
  proof (cases "x \<in> W'")
    case True
    then show ?thesis using E(13) [OF True] D(1) unfolding share by auto
  next
    case False
    then have "x \<in> W" using x by blast
    then have "same_handle H1 H2 x" using E(9) [of x] W(1) hl False by blast
    then show ?thesis using D(13) [OF \<open>x \<in> W\<close>] same_handleD E(1) by auto
  qed
  have al: "same_active (al H) (al H2)" using D(7) E(7) by (auto simp: same_active_def)
  have ag: "agree (\<lambda>x. al_contains x (al H)) H H2" using D(8) E(8) act by (simp add: agree_def)
  have pr: "prims H2 (getObject l) = prims H (getObject l)" if "l \<in> set L" for l using D(6) [OF that] E(6) [OF subsetD [OF LL that]] by simp
  have cn: "numCopies H2 r = numCopies H r" if "r \<in> set Ob" "(r, T r) \<notin> V" for r
  proof -
    have "T1 r = T r" "r \<in> set Ob1" using D(1) D(5) [of r] that(1) sub(1) by auto
    then show ?thesis using D(10) [OF that] E(10) [of r] that(2) by simp
  qed
  have "set Ob \<subseteq> set Ob2" "set L2 = set L \<union> (set Ob2 - set Ob)" "set L \<inter> (set Ob2 - set Ob) = {}" "length L \<le> length L2"
    using D(1-4) E(1-4) by auto
  moreover have "al_contains r (al H)" if "r \<in> set Ob2 - set Ob" for r using D(11) [of r] E(11) [of r] that act by auto
  ultimately show ?thesis unfolding grown_def using T2 pr al ag hs cn lay wt by (auto simp: new)
qed

text \<open>The copy of an object: shared inside the active block, otherwise new, with equal data and copied targets.\<close>

inductive copied :: "layouts \<Rightarrow> (nat \<Rightarrow> bool) \<Rightarrow> object_heap \<Rightarrow> (nat \<Rightarrow> int) \<Rightarrow> nat set \<Rightarrow> object_heap \<Rightarrow> nat \<Rightarrow> int \<Rightarrow> nat \<Rightarrow> bool"
  for lay act H0 T N H' where
  shared: "act src \<Longrightarrow> copied lay act H0 T N H' src ty src"
| deep: "\<not> act src \<Longrightarrow> t \<in> N \<Longrightarrow> T t = ty \<Longrightarrow> prims H' (getObject t) = prims H0 (getObject src) \<Longrightarrow>
    (\<forall>f \<in> fst ` set (type_fields lay ty).
       (isNullPtr (getObject src + f) H0 \<longleftrightarrow> isNullPtr (getObject t + f) H') \<and>
       (isNullPtr (getObject src + f) H0 \<or> hType H' (getObject t + f) = hType H0 (getObject src + f) \<and>
          copied lay act H0 T N H' (getTarget (getObject src + f) H0) (hType H0 (getObject src + f)) (getTarget (getObject t + f) H'))) \<Longrightarrow>
    copied lay act H0 T N H' src ty t"

lemma own_field: "f \<in> fst ` set (type_fields lay (T t)) \<Longrightarrow> getObject t + f \<in> set (own lay T t)"
  by (force simp: own_def handles_at_def)

lemma copied_mono:
  assumes "copied lay act H0 T N H1 src ty t" and "N \<subseteq> N'"
    and "\<And>t. t \<in> N \<Longrightarrow> T' t = T t \<and> prims H2 (getObject t) = prims H1 (getObject t)"
    and "\<And>t y. t \<in> N \<Longrightarrow> y \<in> set (own lay T t) \<Longrightarrow> same_handle H1 H2 y"
  shows "copied lay act H0 T' N' H2 src ty t"
  using assms(1)
proof induction
  case (deep src t ty)
  show ?case
  proof (rule copied.deep)
    show "t \<in> N'" "T' t = ty" "prims H2 (getObject t) = prims H0 (getObject src)" using deep assms(2,3) by auto
    show "\<forall>f \<in> fst ` set (type_fields lay ty). (isNullPtr (getObject src + f) H0 \<longleftrightarrow> isNullPtr (getObject t + f) H2) \<and>
       (isNullPtr (getObject src + f) H0 \<or> hType H2 (getObject t + f) = hType H0 (getObject src + f) \<and>
          copied lay act H0 T' N' H2 (getTarget (getObject src + f) H0) (hType H0 (getObject src + f)) (getTarget (getObject t + f) H2))"
    proof
      fix f assume f: "f \<in> fst ` set (type_fields lay ty)"
      then have "same_handle H1 H2 (getObject t + f)" using assms(4) [OF deep(2) own_field] deep(3) by simp
      note same = same_handleD [OF this]
      show "(isNullPtr (getObject src + f) H0 \<longleftrightarrow> isNullPtr (getObject t + f) H2) \<and>
       (isNullPtr (getObject src + f) H0 \<or> hType H2 (getObject t + f) = hType H0 (getObject src + f) \<and>
          copied lay act H0 T' N' H2 (getTarget (getObject src + f) H0) (hType H0 (getObject src + f)) (getTarget (getObject t + f) H2))"
        using bspec [OF deep(5) f] same by auto
    qed
  qed (rule deep)
qed (rule copied.shared)

end
