(* ===== verification/HandleCopy.thy ===== *)
theory HandleCopy
  imports HandleFrame
begin

text \<open>
  Deep copies. A handle in the active block whose target lies elsewhere gets a copy of the target and, through the
  handles of the copy, of everything that it refers to outside the active block. When the block is full the
  partial copy is destroyed. The depth of the recursion is bounded by the free memory, so that it ends for cyclic
  structures too.
\<close>

section \<open>Writing a handle\<close>

lemma point_to_sel [simp]:
  "hOffset (point_to h r H) = (hOffset H)(h := int r - int h)" "hType (point_to h r H) = hType H"
  "al (point_to h r H) = al H" "numCopies (point_to h r H) = numCopies H" "prims (point_to h r H) = prims H"
  by (simp_all add: point_to_def set_offset_def)

lemma set_type_sel [simp]:
  "hOffset (set_type h ty H) = hOffset H" "hType (set_type h ty H) = (hType H)(h := ty)"
  "al (set_type h ty H) = al H" "numCopies (set_type h ty H) = numCopies H" "prims (set_type h ty H) = prims H"
  by (simp_all add: set_type_def)

lemma set_offset_sel [simp]:
  "hOffset (set_offset h d H) = (hOffset H)(h := d)" "hType (set_offset h d H) = hType H"
  "al (set_offset h d H) = al H" "numCopies (set_offset h d H) = numCopies H" "prims (set_offset h d H) = prims H"
  by (simp_all add: set_offset_def)

lemma pointed: "hOffset H h = int r - int h \<Longrightarrow> h \<noteq> Suc r \<Longrightarrow> \<not> isNullPtr h H \<and> getTarget h H = r"
  by (auto simp: isNullPtr_def getTarget_def)

lemma rc_space:
  assumes "rc_inv lay S G X T B H L Ob P"
  shows "al_inv (al H) L S" and "policies_ok (al H)" and "counting (al H)" and "al_room L S"
  using rc_invD(1) [OF assms] by (auto simp: space_ok_def)

lemma hlist_not_outside:
  assumes "rc_inv lay S G X T B H L Ob P" and "h \<in> set (hlist lay T G Ob)" and "unmanaged h (al H)"
  shows "h \<in> set G"
  using own_inside(3) [OF rc_space(1) [OF assms(1)] rc_invD(2) [OF assms(1)]] assms(2,3) by (fastforce simp: set_hlist unmanaged_def)

text \<open>No handle lies in the reference count of an object, so a distance is never taken for null.\<close>

lemma hlist_not_Suc:
  assumes inv: "rc_inv lay S G X T B H L Ob P" and h: "h \<in> set (hlist lay T G Ob)" and r: "r \<in> set L"
  shows "h \<noteq> Suc r"
proof
  assume eq: "h = Suc r"
  note sp = rc_space(1) [OF inv] and D = rc_invD [OF inv]
  obtain b where b: "b \<in> set (managed (al H))" "b_start b + 24 \<le> r" "r + usable (al H) r \<le> b_end b" "4 \<le> usable (al H) r"
    using live_object_inside [OF sp r] by blast
  then have nu: "\<not> unmanaged h (al H)" using eq by (auto simp: unmanaged_def in_block_def intro!: bexI [of _ b])
  then have "h \<notin> set G" using D(3) by (auto simp: outside_ok_def)
  then obtain q where q: "q \<in> set Ob" "h \<in> set (own lay T q)" using h by (auto simp: set_hlist)
  note own = own_inside(1,2) [OF sp D(2) q] own_range [OF objects_okD(1) [OF D(2) q(1)] q(2)]
  show False
  proof (cases "q = r")
    case False
    then have "q + usable (al H) q \<le> r - 4 \<or> r + usable (al H) r \<le> q - 4"
      using live_objects_apart [OF sp objects_okD(2) [OF D(2) q(1)] r] by blast
    then show ?thesis using own b eq by linarith
  qed (use own eq in simp)
qed

lemma valid_not_Suc:
  assumes inv: "rc_inv lay S G X T B H L Ob P" and h: "h \<in> set (hlist lay T G Ob)" and v: "(r, ty) \<in> valid X T Ob"
  shows "h \<noteq> Suc r"
proof (cases "r \<in> set Ob")
  case True
  then show ?thesis using hlist_not_Suc [OF inv h] objects_okD(2) [OF rc_invD(2) [OF inv]] by blast
next
  case False
  note D = rc_invD [OF inv]
  have X: "(r, ty) \<in> X" using v False by (auto simp: valid_def)
  show ?thesis
  proof
    assume eq: "h = Suc r"
    have out: "Suc r \<notin> set G" "foreign r (al H)" using X D(3) by (force simp: outside_ok_def)+
    then obtain q where q: "q \<in> set Ob" "h \<in> set (own lay T q)" using h eq by (auto simp: set_hlist)
    obtain b where b: "b \<in> set (managed (al H))" "in_block b h" "in_block b q" using own_inside(3) [OF rc_space(1) [OF inv] D(2) q] by blast
    have "q < h" using own_inside(1) [OF rc_space(1) [OF inv] D(2) q] .
    then have "b_start b \<le> r" "r < b_end b" using b eq by (auto simp: in_block_def)
    then show False using out(2) b(1) by (auto simp: foreign_def managed_def contains_active in_block_def)
  qed
qed

definition shared_heap :: "nat \<Rightarrow> nat \<Rightarrow> int \<Rightarrow> nat list \<Rightarrow> object_heap \<Rightarrow> object_heap" where
  "shared_heap h src ty Ob H = (let H1 = point_to h src (set_type h ty H)
     in if src \<in> set Ob then H1\<lparr>numCopies := (numCopies H)(src := numCopies H src + 1)\<rparr> else H1)"

lemma shared_heap_sel [simp]:
  "hOffset (shared_heap h src ty Ob H) = (hOffset H)(h := int src - int h)" "hType (shared_heap h src ty Ob H) = (hType H)(h := ty)"
  "al (shared_heap h src ty Ob H) = al H" "prims (shared_heap h src ty Ob H) = prims H"
  "numCopies (shared_heap h src ty Ob H) = (if src \<in> set Ob then (numCopies H)(src := numCopies H src + 1) else numCopies H)"
  by (simp_all add: shared_heap_def Let_def)

lemma shared_ok:
  assumes inv: "rc_inv lay S G X T {h} H L Ob Q" and h: "h \<in> set (hlist lay T G Ob)" and v: "(src, ty) \<in> valid X T Ob"
    and fits: "fits G S (al H) P" "size Q \<le> size P + 1"
  shows "object_incRefCount src (point_to h src (set_type h ty H)) = Inr (shared_heap h src ty Ob H)"
    and "rc_inv lay S G X T {} (shared_heap h src ty Ob H) L Ob Q"
proof -
  let ?H1 = "point_to h src (set_type h ty H)" and ?H2 = "shared_heap h src ty Ob H"
  have inv1: "rc_inv lay S G X T {h} ?H1 L Ob Q"
    by (rule rc_inv_cong [OF inv]) (use hlist_not_outside [OF inv h] in auto)
  have ns: "h \<noteq> Suc src" by (rule valid_not_Suc [OF inv h v])
  have tgt: "\<not> isNullPtr h ?H2" "getTarget h ?H2 = src" using pointed [OF _ ns, of ?H2] by simp_all
  have "object_incRefCount src ?H1 = Inr ?H2 \<and> rc_inv lay S G X T {h} ?H2 L Ob (Q + targets ?H2 (set Ob) [h])"
  proof (cases "src \<in> set Ob")
    case True
    have "numCopies ?H1 src + 1 < 2 ^ 32" by (rule count_room [OF inv1 _ fits(2) True]) (use fits(1) in simp)
    note i = inc_ok [OF inv1 True this]
    have "targets ?H2 (set Ob) [h] = {#src#}" using True tgt by (simp add: targets_Cons)
    then show ?thesis using i True by (simp add: shared_heap_def Let_def)
  next
    case False
    then have "foreign src (al H)" using v rc_invD(3) [OF inv] by (auto simp: valid_def outside_ok_def)
    then have "object_incRefCount src ?H1 = Inr ?H1"
      using foreign_isManaged [OF rc_space(1) [OF inv]] by (simp add: object_incRefCount_def)
    moreover have "targets ?H2 (set Ob) [h] = {#}" using False tgt by (simp add: targets_Cons)
    ultimately show ?thesis using inv1 False by (simp add: shared_heap_def Let_def)
  qed
  moreover have "handle_ok X T Ob ?H2 h" using v tgt by (auto simp: handle_ok_def valid_def)
  ultimately show "object_incRefCount src ?H1 = Inr ?H2" "rc_inv lay S G X T {} ?H2 L Ob Q"
    using unblind_ok [of lay S G X T h "{}" ?H2 L Ob Q] h by auto
qed

section \<open>A new target\<close>

lemma construct_sel:
  "hOffset (construct lay ty obj H) x = (if x \<in> set (handles_at lay ty obj) then -1 else hOffset H x)"
  "x \<notin> set (handles_at lay ty obj) \<Longrightarrow> hType (construct lay ty obj H) x = hType H x"
  "al (construct lay ty obj H) = al H" "numCopies (construct lay ty obj H) = numCopies H" "prims (construct lay ty obj H) = prims H"
proof -
  have "hOffset (fold (\<lambda>(f, fty) H. set_type (obj + f) fty (set_offset (obj + f) (-1) H)) fs H) x =
      (if x \<in> (\<lambda>(f, _). obj + f) ` set fs then -1 else hOffset H x) \<and>
    (x \<notin> (\<lambda>(f, _). obj + f) ` set fs \<longrightarrow> hType (fold (\<lambda>(f, fty) H. set_type (obj + f) fty (set_offset (obj + f) (-1) H)) fs H) x = hType H x) \<and>
    al (fold (\<lambda>(f, fty) H. set_type (obj + f) fty (set_offset (obj + f) (-1) H)) fs H) = al H \<and>
    numCopies (fold (\<lambda>(f, fty) H. set_type (obj + f) fty (set_offset (obj + f) (-1) H)) fs H) = numCopies H \<and>
    prims (fold (\<lambda>(f, fty) H. set_type (obj + f) fty (set_offset (obj + f) (-1) H)) fs H) = prims H" for fs :: "(nat \<times> int) list"
    by (induction fs arbitrary: H) auto
  then show "hOffset (construct lay ty obj H) x = (if x \<in> set (handles_at lay ty obj) then -1 else hOffset H x)"
    "x \<notin> set (handles_at lay ty obj) \<Longrightarrow> hType (construct lay ty obj H) x = hType H x"
    "al (construct lay ty obj H) = al H" "numCopies (construct lay ty obj H) = numCopies H" "prims (construct lay ty obj H) = prims H"
    by (simp_all add: construct_def handles_at_def)
qed

text \<open>The memory of a live allocation that is not an object has no handle.\<close>

lemma fresh_handles:
  assumes inv: "rc_inv lay S G X T B H L Ob P" and r: "r \<in> set L" "r \<notin> set Ob"
    and ty: "type_ok lay ty" "getSizeOfConstituentObject lay ty + 4 \<le> usable (al H) r" and x: "x \<in> set (handles_at lay ty (getObject r))"
  shows "x \<notin> set (hlist lay T G Ob)" and "\<not> unmanaged x (al H)" and "al_contains r (al H) \<Longrightarrow> al_contains x (al H)"
proof -
  note sp = rc_space(1) [OF inv] and D = rc_invD [OF inv]
  have rng: "r < x" "x < r + usable (al H) r"
    using own_range [of lay "\<lambda>_. ty" r x] ty x by (auto simp: own_def)
  obtain b where b: "b \<in> set (managed (al H))" "b_start b + 24 \<le> r" "r + usable (al H) r \<le> b_end b"
    using live_object_inside [OF sp r(1)] by blast
  then show nu: "\<not> unmanaged x (al H)" using rng by (auto simp: unmanaged_def in_block_def intro!: bexI [of _ b])
  show "al_contains x (al H)" if "al_contains r (al H)"
  proof -
    have "active_block (myState (al H)) = b"
      using block_unique [OF al_invD(1) [OF sp] active_managed b(1)] that b rng by (auto simp: contains_active in_block_def)
    then show ?thesis using b rng by (auto simp: contains_active in_block_def)
  qed
  show "x \<notin> set (hlist lay T G Ob)"
  proof
    assume "x \<in> set (hlist lay T G Ob)"
    then obtain q where q: "q \<in> set Ob" "x \<in> set (own lay T q)" using nu D(3) by (auto simp: set_hlist outside_ok_def)
    have "q + usable (al H) q \<le> r - 4 \<or> r + usable (al H) r \<le> q - 4"
      using live_objects_apart [OF sp objects_okD(2) [OF D(2) q(1)] r(1)] q(1) r(2) by blast
    then show False using own_inside(1,2) [OF sp D(2) q] rng by linarith
  qed
qed

definition new_heap :: "layouts \<Rightarrow> nat \<Rightarrow> nat \<Rightarrow> int \<Rightarrow> nat \<Rightarrow> allocator \<Rightarrow> object_heap \<Rightarrow> object_heap" where
  "new_heap lay h src ty space A H =
     (let H1 = (point_to h space ((set_type h ty H)\<lparr>al := A\<rparr>))\<lparr>numCopies := (numCopies H)(space := 1)\<rparr>;
          H2 = construct lay ty (getObject space) H1
      in H2\<lparr>prims := (prims H2)(getObject space := prims H2 (getObject src))\<rparr>)"

lemma new_heap_sel:
  "hOffset (new_heap lay h src ty space A H) x =
     (if x \<in> set (handles_at lay ty (getObject space)) then -1 else if x = h then int space - int h else hOffset H x)"
  "x \<notin> set (handles_at lay ty (getObject space)) \<Longrightarrow> hType (new_heap lay h src ty space A H) x = (if x = h then ty else hType H x)"
  "al (new_heap lay h src ty space A H) = A" "numCopies (new_heap lay h src ty space A H) = (numCopies H)(space := 1)"
  "prims (new_heap lay h src ty space A H) = (prims H)(getObject space := prims H (getObject src))"
  by (simp_all add: new_heap_def Let_def construct_sel)

lemma getObject_inj [simp]: "getObject x = getObject y \<longleftrightarrow> x = y"
  by (simp add: getObject_def)

lemma new_ok:
  fixes src :: nat
  assumes inv: "rc_inv lay S G X T {h} H L Ob Q" and h: "h \<in> set (hlist lay T G Ob)"
    and ty: "type_ok lay ty" and fits: "fits G S (al H) P"
    and run: "getRAM (REF_COUNT_PREAMBLE_SIZE + getSizeOfConstituentObject lay ty) (al H) = Inr (space, A)" "space \<noteq> 0"
  defines "H3 \<equiv> new_heap lay h src ty space A H"
  shows "rc_inv lay S G X (T(space := ty)) {} H3 (space # L) (space # Ob) Q"
    and "al_contains h (al H) \<Longrightarrow> grown lay G V {h} T H L Ob (T(space := ty)) H3 (space # L) (space # Ob)"
    and "setRefCount space 1 (point_to h space ((set_type h ty H)\<lparr>al := A\<rparr>)) =
      Inr ((point_to h space ((set_type h ty H)\<lparr>al := A\<rparr>))\<lparr>numCopies := (numCopies H)(space := 1)\<rparr>)"
    and "\<not> isNullPtr h H3" and "getTarget h H3 = space" and "hType H3 h = ty"
    and "\<And>x. x \<in> set (handles_at lay ty (getObject space)) \<Longrightarrow> isNullPtr x H3 \<and> al_contains x (al H)"
    and "space \<notin> set L" and "al_contains space (al H)"
proof -
  have req: "request_ok (REF_COUNT_PREAMBLE_SIZE + getSizeOfConstituentObject lay ty)"
    using ty by (simp add: request_ok_def REF_COUNT_PREAMBLE_SIZE_def type_ok_def)
  note al = alloc_ok [OF inv fits req run]
  have us: "getSizeOfConstituentObject lay ty + 4 \<le> usable (al (H\<lparr>al := A\<rparr>)) space" using al(4) by (simp add: REF_COUNT_PREAMBLE_SIZE_def)
  have same: "same_active (al H) A" using al(5) by (simp add: same_active_def same_blocks_def)
  have nOb: "space \<notin> set Ob" using al(2) rc_invD(2) [OF inv] by (auto simp: objects_ok_def)
  note fr = fresh_handles [OF al(1) _ nOb ty us]
  have frh: "h \<notin> set (handles_at lay ty (getObject space))" using fr(1) h by auto
  show ns: "space \<notin> set L" "al_contains space (al H)" using al(2,3) contains_same [OF same] by auto
  show "setRefCount space 1 (point_to h space ((set_type h ty H)\<lparr>al := A\<rparr>)) =
      Inr ((point_to h space ((set_type h ty H)\<lparr>al := A\<rparr>))\<lparr>numCopies := (numCopies H)(space := 1)\<rparr>)"
    using al(3) by (simp add: setRefCount_def isManaged_def)
  have "h \<noteq> Suc space" using hlist_not_Suc [OF al(1)] h by auto
  then show tgt: "\<not> isNullPtr h H3" "getTarget h H3 = space"
    using pointed [of H3 h space] frh by (simp_all add: H3_def new_heap_sel)
  show tyh: "hType H3 h = ty" using frh by (simp add: H3_def new_heap_sel)
  show nul: "isNullPtr x H3 \<and> al_contains x (al H)" if "x \<in> set (handles_at lay ty (getObject space))" for x
    using that fr(3) [of x] al(3) contains_same [OF same] by (auto simp: isNullPtr_def H3_def new_heap_sel)
  have unc: "same_handle H H3 x" if "x \<noteq> h" "x \<notin> set (handles_at lay ty (getObject space))" for x
    using that by (simp add: same_handle_def H3_def new_heap_sel)
  have "rc_inv lay S G X T {h} H3 (space # L) Ob Q"
  proof (rule rc_inv_cong [OF al(1)])
    show "hOffset H3 x = hOffset (H\<lparr>al := A\<rparr>) x \<and> hType H3 x = hType (H\<lparr>al := A\<rparr>) x" if "x \<in> set (hlist lay T G Ob)" "x \<notin> {h}" for x
      using unc [of x] that fr(1) [of x] by (auto simp: same_handle_def)
    show "hOffset H3 x = hOffset (H\<lparr>al := A\<rparr>) x \<and> hType H3 x = hType (H\<lparr>al := A\<rparr>) x" if "unmanaged x (al (H\<lparr>al := A\<rparr>))" "x \<notin> set G" for x
      using unc [of x] that fr(2) [of x] hlist_not_outside [OF al(1)] h by (auto simp: same_handle_def)
  qed (use nOb in \<open>auto simp: H3_def new_heap_sel\<close>)
  from birth_ok [OF this _ nOb ty] have "rc_inv lay S G X (T(space := ty)) {h} H3 (space # L) (space # Ob) (add_mset space Q)"
    using us nul by (simp add: H3_def new_heap_sel)
  moreover have "targets H3 (set (space # Ob)) [h] = {#space#}" using tgt by (simp add: targets_Cons)
  moreover have "h \<in> set (hlist lay (T(space := ty)) G (space # Ob))"
    by (rule subsetD [OF hlist_subset h]) (use nOb in auto)
  moreover have "handle_ok X (T(space := ty)) (space # Ob) H3 h" using tgt tyh by (simp add: handle_ok_def)
  ultimately show "rc_inv lay S G X (T(space := ty)) {} H3 (space # L) (space # Ob) Q"
    using unblind_ok [of lay S G X "T(space := ty)" h "{}" H3 "space # L" "space # Ob" Q] by simp
  have new: "set (space # Ob) - set Ob = {space}" using nOb by auto
  assume act: "al_contains h (al H)"
  have ag: "agree (\<lambda>x. al_contains x (al H)) H H3"
    unfolding agree_def
  proof (intro allI impI)
    fix x assume x: "\<not> al_contains x (al H)"
    then have "same_handle H H3 x" using unc [of x] nul act by blast
    then show "hOffset H3 x = hOffset H x \<and> hType H3 x = hType H x \<and> prims H3 (getObject x) = prims H (getObject x)"
      using x ns(2) by (auto simp: same_handle_def H3_def new_heap_sel)
  qed
  have sh: "same_handle H H3 x" if "x \<in> set (hlist lay T G Ob)" "x \<notin> {h}" for x using unc [of x] that fr(1) by auto
  have "layered lay (T(space := ty)) H3 {space} (shareable V (al H))" using nul by (auto simp: layered_def own_def)
  then show "grown lay G V {h} T H L Ob (T(space := ty)) H3 (space # L) (space # Ob)"
    unfolding grown_def new using ag sh ns nOb same tgt by (auto simp: H3_def new_heap_sel)
qed

section \<open>Copying the handles of an object\<close>

definition copy_pre :: "layouts \<Rightarrow> AllocatorState list \<Rightarrow> nat list \<Rightarrow> (nat \<times> int) set \<Rightarrow> object_heap \<Rightarrow> (nat \<times> int) set \<Rightarrow> nat \<Rightarrow> nat \<Rightarrow>
    (nat \<Rightarrow> int) \<Rightarrow> nat set \<Rightarrow> object_heap \<Rightarrow> nat list \<Rightarrow> nat list \<Rightarrow> nat multiset \<Rightarrow> bool" where
  "copy_pre lay S G X H0 V fd fc T B H L Ob P \<longleftrightarrow> rc_inv lay S G X T B H L Ob P \<and> fits G S (al H) P \<and>
     sources lay (\<lambda>x. al_contains x (al H)) H0 V \<and> V \<subseteq> valid X T Ob \<and> agree (\<lambda>x. al_contains x (al H)) H0 H \<and>
     managed_bytes (al H) < fd \<and> managed_bytes (al H) < fc + length L"

definition field_copied :: "layouts \<Rightarrow> (nat \<Rightarrow> bool) \<Rightarrow> object_heap \<Rightarrow> (nat \<Rightarrow> int) \<Rightarrow> nat set \<Rightarrow> object_heap \<Rightarrow> nat \<Rightarrow> nat \<Rightarrow> bool" where
  "field_copied lay act H0 T N H' x g \<longleftrightarrow> (isNullPtr x H0 \<longleftrightarrow> isNullPtr g H') \<and>
     (isNullPtr x H0 \<or> hType H' g = hType H0 x \<and> copied lay act H0 T N H' (getTarget x H0) (hType H0 x) (getTarget g H'))"

lemma bytes_less:
  assumes "same_active A A'" and "al_inv A L S" and "al_inv A' L' S'"
  shows "managed_bytes A' \<le> managed_bytes A"
proof -
  have "distinct (managed A)" "distinct (managed A')" using al_invD(1) assms(2,3) by (auto simp: blocks_ok_def)
  then show ?thesis using assms(1) by (intro managed_bytes_mono) (auto simp: managed_def same_active_def)
qed

lemma copy_pre_grown:
  assumes pre: "copy_pre lay S G X H0 V fd fc T B H L Ob P" and inv: "rc_inv lay S G X T' B' H' L' Ob' P"
    and g: "grown lay G V W T H L Ob T' H' L' Ob'" and fc: "fc + length L \<le> fc' + length L'"
  shows "copy_pre lay S G X H0 V fd fc' T' B' H' L' Ob' P"
proof -
  note D = grownD [OF g]
  have p: "rc_inv lay S G X T B H L Ob P" "fits G S (al H) P" "sources lay (\<lambda>x. al_contains x (al H)) H0 V" "V \<subseteq> valid X T Ob"
    "agree (\<lambda>x. al_contains x (al H)) H0 H" "managed_bytes (al H) < fd" "managed_bytes (al H) < fc + length L"
    using pre by (auto simp: copy_pre_def)
  have act: "(\<lambda>x. al_contains x (al H')) = (\<lambda>x. al_contains x (al H))" using contains_same [OF D(7)] by auto
  have mb: "managed_bytes (al H') \<le> managed_bytes (al H)" by (rule bytes_less [OF D(7) rc_space(1) [OF p(1)] rc_space(1) [OF inv]])
  have "T' r = T r" if "r \<in> set Ob" for r using D(5) that rc_invD(2) [OF p(1)] by (auto simp: objects_ok_def)
  then have "valid X T Ob \<subseteq> valid X T' Ob'" using D(1) by (fastforce simp: valid_def)
  then show ?thesis using p inv mb fc D(8) unfolding copy_pre_def act by (auto simp: fits_def agree_def)
qed

lemma field_copied_mono:
  assumes "field_copied lay act H0 T N H1 x g" and "N \<subseteq> N'" and "same_handle H1 H2 g"
    and "\<And>t. t \<in> N \<Longrightarrow> T' t = T t \<and> prims H2 (getObject t) = prims H1 (getObject t)"
    and "\<And>t y. t \<in> N \<Longrightarrow> y \<in> set (own lay T t) \<Longrightarrow> same_handle H1 H2 y"
  shows "field_copied lay act H0 T' N' H2 x g"
  using assms(1) same_handleD [OF assms(3)] copied_mono [OF _ assms(2,4,5)] by (auto simp: field_copied_def)

definition assigned :: "layouts \<Rightarrow> AllocatorState list \<Rightarrow> nat list \<Rightarrow> (nat \<times> int) set \<Rightarrow> (nat \<times> int) set \<Rightarrow> (nat \<Rightarrow> int) \<Rightarrow> object_heap \<Rightarrow>
    nat list \<Rightarrow> nat list \<Rightarrow> nat multiset \<Rightarrow> nat \<Rightarrow> ((nat \<Rightarrow> int) \<Rightarrow> nat set \<Rightarrow> object_heap \<Rightarrow> bool) \<Rightarrow> (flow \<times> object_heap) result \<Rightarrow> bool" where
  "assigned lay S G X V T H L Ob P h good res \<longleftrightarrow> (\<exists>fl H' T' L' Ob'. res = Inr (fl, H') \<and>
     rc_inv lay S G X T' {} H' L' Ob' P \<and> grown lay G V {h} T H L Ob T' H' L' Ob' \<and>
     (case fl of Returns \<Rightarrow> good T' (set Ob' - set Ob) H' | NotEnoughSpace \<Rightarrow> isNullPtr h H' \<and> set Ob' = set Ob))"

definition asg_ok :: "layouts \<Rightarrow> AllocatorState list \<Rightarrow> nat list \<Rightarrow> (nat \<times> int) set \<Rightarrow> object_heap \<Rightarrow> (nat \<times> int) set \<Rightarrow> nat \<Rightarrow> nat \<Rightarrow>
    nat multiset \<Rightarrow> (nat \<Rightarrow> nat \<Rightarrow> object_heap \<Rightarrow> (flow \<times> object_heap) result) \<Rightarrow> bool" where
  "asg_ok lay S G X H0 V fd fc P asg \<longleftrightarrow> (\<forall>T H L Ob h x. copy_pre lay S G X H0 V fd fc T {} H L Ob P \<longrightarrow>
     (\<exists>q \<in> set Ob. h \<in> set (own lay T q)) \<longrightarrow> al_contains h (al H) \<longrightarrow> isNullPtr h H \<longrightarrow> \<not> al_contains x (al H) \<longrightarrow>
     isNullPtr x H0 \<or> (getTarget x H0, hType H0 x) \<in> V \<longrightarrow>
     assigned lay S G X V T H L Ob P h (\<lambda>T' N H'. field_copied lay (\<lambda>x. al_contains x (al H)) H0 T' N H' x h) (asg h x H))"

lemma grown_refl:
  "grown lay G V {} T H L Ob T H L Ob"
  by (simp add: grown_def same_active_def agree_def same_handle_def)

lemma fields_ok:
  assumes asg: "asg_ok lay S G X H0 V fd fc P asg"
    and "copy_pre lay S G X H0 V fd fc T {} H L Ob P" and q: "q \<in> set Ob" and "distinct (map fst fs)"
    and "\<And>f. f \<in> fst ` set fs \<Longrightarrow> obj + f \<in> set (own lay T q) \<and> al_contains (obj + f) (al H) \<and> isNullPtr (obj + f) H"
    and "\<And>f. f \<in> fst ` set fs \<Longrightarrow> \<not> al_contains (src + f) (al H) \<and> (isNullPtr (src + f) H0 \<or> (getTarget (src + f) H0, hType H0 (src + f)) \<in> V)"
  shows "\<exists>fl H' T' L' Ob'. copyFields_with asg fs obj src H = Inr (fl, H') \<and> rc_inv lay S G X T' {} H' L' Ob' P \<and>
    grown lay G V ((\<lambda>(f, _). obj + f) ` set fs) T H L Ob T' H' L' Ob' \<and>
    (fl = Returns \<longrightarrow> (\<forall>f \<in> fst ` set fs. field_copied lay (\<lambda>x. al_contains x (al H)) H0 T' (set Ob' - set Ob) H' (src + f) (obj + f)))"
  using assms(2-6)
proof (induction fs arbitrary: T H L Ob)
  case Nil
  then show ?case using grown_refl by (fastforce simp: copy_pre_def)
next
  case (Cons a fs)
  obtain f fty where a: "a = (f, fty)" by (cases a)
  let ?act = "\<lambda>x. al_contains x (al H)" and ?W = "(\<lambda>(f, _). obj + f) ` set fs"
  have inv: "rc_inv lay S G X T {} H L Ob P" using Cons.prems(1) by (simp add: copy_pre_def)
  have f: "obj + f \<in> set (own lay T q)" "al_contains (obj + f) (al H)" "isNullPtr (obj + f) H"
    "\<not> al_contains (src + f) (al H)" "isNullPtr (src + f) H0 \<or> (getTarget (src + f) H0, hType H0 (src + f)) \<in> V"
    using Cons.prems(4,5) [of f] a by auto
  have "assigned lay S G X V T H L Ob P (obj + f) (\<lambda>T' N H'. field_copied lay ?act H0 T' N H' (src + f) (obj + f)) (asg (obj + f) (src + f) H)"
    by (rule asg [unfolded asg_ok_def, rule_format, OF Cons.prems(1) _ f(2-5)]) (use f(1) Cons.prems(2) in blast)
  then obtain fl H1 T1 L1 Ob1 where r: "asg (obj + f) (src + f) H = Inr (fl, H1)" "rc_inv lay S G X T1 {} H1 L1 Ob1 P"
    "grown lay G V {obj + f} T H L Ob T1 H1 L1 Ob1"
    and fl: "case fl of Returns \<Rightarrow> field_copied lay ?act H0 T1 (set Ob1 - set Ob) H1 (src + f) (obj + f)
      | NotEnoughSpace \<Rightarrow> isNullPtr (obj + f) H1 \<and> set Ob1 = set Ob" unfolding assigned_def by blast
  have ret: "field_copied lay ?act H0 T1 (set Ob1 - set Ob) H1 (src + f) (obj + f)" if "fl = Returns" using fl that by simp
  note D = grownD [OF r(3)]
  have LOb: "set Ob \<subseteq> set L" "set Ob1 \<subseteq> set L1" using rc_invD(2) [OF inv] rc_invD(2) [OF r(2)] by (auto simp: objects_ok_def)
  have hl: "{obj + f} \<subseteq> set (hlist lay T G Ob)" using own_in_hlist [OF Cons.prems(2) f(1)] by simp
  have fn: "f \<notin> fst ` set fs" using Cons.prems(3) a by simp
  then have disj: "{obj + f} \<inter> ?W = {}" by (auto simp: image_iff)
  show ?case
  proof (cases fl)
    case NotEnoughSpace
    have null: "isNullPtr (obj + g) H1" if "g \<in> fst ` set fs" for g
    proof -
      have "obj + g \<in> set (own lay T q)" "isNullPtr (obj + g) H" using Cons.prems(4) [of g] that by auto
      moreover have "obj + g \<notin> {obj + f}" using that fn by auto
      ultimately show ?thesis using D(9) [OF own_in_hlist [OF Cons.prems(2)]] same_handleD by blast
    qed
    then have "\<forall>x \<in> ?W. isNullPtr x H1" by force
    then have "grown lay G V ?W T1 H1 L1 Ob1 T1 H1 L1 Ob1"
      by (simp add: grown_def same_active_def agree_def same_handle_def)
    from grown_trans [OF r(3) this LOb hl disj] have "grown lay G V ((\<lambda>(f, _). obj + f) ` set (a # fs)) T H L Ob T1 H1 L1 Ob1"
      by (simp add: a)
    then show ?thesis using r(1,2) NotEnoughSpace by (intro exI [of _ NotEnoughSpace] exI conjI) (auto simp: a)
  next
    case Returns
    have act: "al_contains x (al H1) = al_contains x (al H)" for x by (rule contains_same [OF D(7)])
    have Tq: "own lay T1 q = own lay T q" using D(5) [of q] LOb Cons.prems(2) by (auto intro: own_same)
    have "obj + g \<in> set (own lay T1 q) \<and> al_contains (obj + g) (al H1) \<and> isNullPtr (obj + g) H1" if "g \<in> fst ` set fs" for g
    proof -
      have o: "obj + g \<in> set (own lay T q)" "al_contains (obj + g) (al H)" "isNullPtr (obj + g) H" using Cons.prems(4) [of g] that by auto
      moreover have "obj + g \<notin> {obj + f}" using that fn by auto
      ultimately show ?thesis using D(9) [OF own_in_hlist [OF Cons.prems(2) o(1)]] same_handleD by (auto simp: act Tq)
    qed
    moreover have "\<not> al_contains (src + g) (al H1) \<and> (isNullPtr (src + g) H0 \<or> (getTarget (src + g) H0, hType H0 (src + g)) \<in> V)"
      if "g \<in> fst ` set fs" for g using Cons.prems(5) [of g] that act by auto
    moreover have "q \<in> set Ob1" "distinct (map fst fs)" using D(1) Cons.prems(2,3) by auto
    ultimately obtain fl2 H2 T2 L2 Ob2 where s: "copyFields_with asg fs obj src H1 = Inr (fl2, H2)" "rc_inv lay S G X T2 {} H2 L2 Ob2 P"
      "grown lay G V ?W T1 H1 L1 Ob1 T2 H2 L2 Ob2"
      and ret2: "fl2 = Returns \<Longrightarrow> \<forall>f \<in> fst ` set fs. field_copied lay (\<lambda>x. al_contains x (al H1)) H0 T2 (set Ob2 - set Ob1) H2 (src + f) (obj + f)"
      using Cons.IH [OF copy_pre_grown [OF Cons.prems(1) r(2,3) add_left_mono [OF D(4)]]] by blast
    note E = grownD [OF s(3)]
    have g: "grown lay G V ((\<lambda>(f, _). obj + f) ` set (a # fs)) T H L Ob T2 H2 L2 Ob2"
      using grown_trans [OF r(3) s(3) LOb hl disj] by (simp add: a)
    have Wq: "?W \<subseteq> set (own lay T1 q)" using Cons.prems(4) Tq by fastforce
    have keep: "same_handle H1 H2 y" if "t \<in> set Ob1 - set Ob" "y \<in> set (own lay T1 t)" for t y
    proof -
      have "set (own lay T1 t) \<inter> set (own lay T1 q) = {}"
        by (rule own_disjoint [OF rc_space(1) [OF r(2)] rc_invD(2) [OF r(2)]]) (use that(1) Cons.prems(2) D(1) in auto)
      then show ?thesis using E(9) [OF own_in_hlist [OF _ that(2)]] that Wq by blast
    qed
    have "obj + f \<in> set (hlist lay T1 G Ob1)" by (rule own_in_hlist [of q]) (use D(1) Cons.prems(2) f(1) Tq in auto)
    then have keep': "same_handle H1 H2 (obj + f)" using E(9) disj by blast
    have "field_copied lay ?act H0 T2 (set Ob2 - set Ob) H2 (src + g) (obj + g)" if "fl2 = Returns" "g \<in> fst ` set (a # fs)" for g
    proof (cases "g = f")
      case True
      show ?thesis unfolding True
        by (rule field_copied_mono [OF ret [OF Returns] _ keep']) (use E(1) D(1) keep E(5,6) LOb(2) in auto)
    next
      case False
      then have "field_copied lay (\<lambda>x. al_contains x (al H1)) H0 T2 (set Ob2 - set Ob1) H2 (src + g) (obj + g)"
        using ret2 [OF that(1)] that(2) a by auto
      then show ?thesis unfolding act by (rule field_copied_mono) (use D(1) in \<open>auto simp: same_handle_def\<close>)
    qed
    then show ?thesis using r(1) s(1,2) g Returns by (intro exI [of _ fl2] exI [of _ H2] exI [of _ T2] exI [of _ L2] exI [of _ Ob2] conjI) (auto simp: a)
  qed
qed

section \<open>The copy of a target\<close>

lemma no_survivors:
  assumes inv: "rc_inv lay S G X T {h} H L Ob Q" and lay: "layered lay T H N U" and "N \<inter> U = {}" and "set_mset Q \<inter> N = {}"
    and out: "\<And>x. x \<noteq> h \<Longrightarrow> x \<in> set G \<or> (\<exists>r \<in> set Ob - N. x \<in> set (own lay T r)) \<Longrightarrow> isNullPtr x H \<or> getTarget x H \<notin> N"
  shows "set Ob \<inter> N = {}"
proof (rule ccontr)
  assume ne: "set Ob \<inter> N \<noteq> {}"
  obtain rank :: "nat \<Rightarrow> nat" where rank: "\<And>r x. r \<in> N \<Longrightarrow> x \<in> set (own lay T r) \<Longrightarrow>
      isNullPtr x H \<or> getTarget x H \<in> U \<or> getTarget x H \<in> N \<and> rank r < rank (getTarget x H)"
    using lay unfolding layered_def by blast
  define r where "r = arg_min_on rank (set Ob \<inter> N)"
  have r: "r \<in> set Ob \<inter> N" and low: "\<And>q. q \<in> set Ob \<inter> N \<Longrightarrow> rank r \<le> rank q"
    unfolding r_def using arg_min_if_finite [of "set Ob \<inter> N" rank] ne by (auto simp: not_less [symmetric])
  have "count Q r = 0" using assms(4) r by (auto simp: not_in_iff [symmetric])
  then have "0 < refs H (filter (\<lambda>x. x \<notin> {h}) (hlist lay T G Ob)) r" using rc_invD(6,7) [OF inv] r by fastforce
  then obtain x where x: "x \<in> set (hlist lay T G Ob)" "x \<noteq> h" "\<not> isNullPtr x H" "getTarget x H = r"
    using refs_zero [of H "filter (\<lambda>x. x \<notin> {h}) (hlist lay T G Ob)" r] by auto
  have "x \<notin> set G" using out [of x] x(2-4) r by blast
  then obtain q where q: "q \<in> set Ob" "x \<in> set (own lay T q)" using x(1) by (auto simp: set_hlist)
  then have qN: "q \<in> N" using out [of x] x(2-4) r by blast
  have "rank q < rank r" using rank [OF qN q(2)] x r assms(3) by auto
  then show False using low [of q] q(1) qN by auto
qed

lemma supported_rest:
  assumes inv: "rc_inv lay S G X T {h} H L Ob Q" and T': "\<And>r. r \<in> set Ob \<Longrightarrow> T' r = T r"
    and same: "\<And>x. x \<in> set (hlist lay T G Ob) \<Longrightarrow> x \<noteq> h \<Longrightarrow> same_handle H H' x"
  shows "supported lay G T' {h} H' Q (set Ob)"
  unfolding supported_def
proof
  fix r assume r: "r \<in> set Ob"
  show "r \<in># Q \<or> (\<exists>x. (x \<in> set G \<or> (\<exists>q \<in> set Ob. x \<in> set (own lay T' q))) \<and> x \<notin> {h} \<and> \<not> isNullPtr x H' \<and> getTarget x H' = r)"
  proof (rule disjCI)
    assume "\<not> (\<exists>x. (x \<in> set G \<or> (\<exists>q \<in> set Ob. x \<in> set (own lay T' q))) \<and> x \<notin> {h} \<and> \<not> isNullPtr x H' \<and> getTarget x H' = r)"
    moreover have "own lay T' q = own lay T q" if "q \<in> set Ob" for q by (simp add: own_def T' [OF that])
    ultimately have none: "isNullPtr x H' \<or> getTarget x H' \<noteq> r" if "x \<in> set (hlist lay T G Ob)" "x \<noteq> h" for x
      using that unfolding set_hlist by auto
    have "isNullPtr x H \<or> getTarget x H \<noteq> r" if "x \<in> set (hlist lay T G Ob)" "x \<noteq> h" for x
      using none [OF that] same_handleD [OF same [OF that]] by auto
    then have "refs H (filter (\<lambda>x. x \<notin> {h}) (hlist lay T G Ob)) r = 0" by (auto simp: refs_zero)
    then show "r \<in># Q" using rc_invD(6,7) [OF inv r] by (auto simp flip: count_greater_zero_iff)
  qed
qed

lemma guarded_old:
  assumes inv: "rc_inv lay S G X T B H L Ob Q" and h: "h \<in> set (hlist lay T G Ob')" and sub: "set Ob' \<subseteq> set Ob"
  shows "guarded lay T {h} (set Ob') Ob"
proof -
  note sp = rc_space(1) [OF inv] and D = rc_invD [OF inv]
  have "q \<in> set Ob'" if "q \<in> set Ob" "h \<in> set (own lay T q)" for q
  proof -
    have "h \<notin> set G" using own_not_root [OF sp D(2,3) that(1)] that(2) by blast
    then obtain q' where "q' \<in> set Ob'" "h \<in> set (own lay T q')" using h by (auto simp: set_hlist)
    then show ?thesis using own_disjoint [OF sp D(2) that(1), of q'] that(2) sub by blast
  qed
  then show ?thesis using sub by (auto simp: guarded_def)
qed

lemma counts_same:
  assumes "rc_inv lay S G X T B H L Ob Q" and "rc_inv lay S G X T' B H' L' Ob' Q" and "set Ob' = set Ob"
    and T': "\<And>r. r \<in> set Ob \<Longrightarrow> T' r = T r"
    and same: "\<And>x. x \<in> set (hlist lay T G Ob) \<Longrightarrow> x \<notin> B \<Longrightarrow> same_handle H H' x" and r: "r \<in> set Ob"
  shows "numCopies H' r = numCopies H r"
proof -
  have "own lay T' q = own lay T q" if "q \<in> set Ob" for q by (simp add: own_def T' [OF that])
  then have "set (hlist lay T' G Ob') = set (hlist lay T G Ob)" using assms(3) by (auto simp: set_hlist)
  then have "mset (hlist lay T' G Ob') = mset (hlist lay T G Ob)"
    using rc_distinct [OF assms(1)] rc_distinct [OF assms(2)] by (simp add: set_eq_iff_mset_eq_distinct)
  then have "mset (filter (\<lambda>x. x \<notin> B) (hlist lay T' G Ob')) = mset (filter (\<lambda>x. x \<notin> B) (hlist lay T G Ob))" by simp
  note eq = refs_mset [OF this, of H' r]
  have "refs H' (filter (\<lambda>x. x \<notin> B) (hlist lay T G Ob)) r = refs H (filter (\<lambda>x. x \<notin> B) (hlist lay T G Ob)) r"
    by (rule refs_cong) (use same in \<open>auto simp: same_handle_def\<close>)
  then show ?thesis using eq rc_invD(6) [OF assms(1) r] rc_invD(6) [OF assms(2), of r] r assms(3) by simp
qed

text \<open>Nothing that was made by a copy survives once the handle that refers to it does not count.\<close>

lemma new_gone:
  assumes inv: "rc_inv lay S G X T B H L Ob Q" and B: "B \<subseteq> {h}" and V: "V \<subseteq> valid X T Ob"
    and inv4: "rc_inv lay S G X T4 B4 H4 L4 Ob4 Q4" and g: "grown lay G V {h} T H L Ob T4 H4 L4 Ob4"
    and inv5: "rc_inv lay S G X T4 {h} H5 L5 Ob5 Q5" and s: "hOffset H5 = hOffset H4" "set Ob5 \<subseteq> set Ob4" and Q5: "set_mset Q5 \<subseteq> set Ob"
  shows "set Ob5 \<subseteq> set Ob"
proof -
  note D = grownD [OF g] and I = rc_invD [OF inv] and J = rc_invD [OF inv4]
  have T4: "T4 r = T r" if "r \<in> set Ob" for r using D(5) that I(2) by (auto simp: objects_ok_def)
  have nl: "isNullPtr x H5 = isNullPtr x H4" "getTarget x H5 = getTarget x H4" for x by (simp_all add: isNullPtr_def getTarget_def s)
  let ?N = "set Ob4 - set Ob"
  have live: "?N \<subseteq> set L4" using D(2) by auto
  have notX: "(r, t) \<notin> X" if "r \<in> ?N" for r t
    using live_not_foreign [OF rc_space(1) [OF inv4], of r] live that J(3) by (force simp: outside_ok_def)
  have "set Ob5 \<inter> ?N = {}"
  proof (rule no_survivors [OF inv5])
    show "layered lay T4 H5 ?N (shareable V (al H))" using D(12) by (simp add: layered_def nl)
    show "?N \<inter> shareable V (al H) = {}" using V notX by (auto simp: valid_def shareable_def)
    show "set_mset Q5 \<inter> ?N = {}" using Q5 by auto
    show "isNullPtr x H5 \<or> getTarget x H5 \<notin> ?N" if "x \<noteq> h" "x \<in> set G \<or> (\<exists>r \<in> set Ob5 - ?N. x \<in> set (own lay T4 r))" for x
    proof -
      have "x \<in> set (hlist lay T G Ob)" using that(2) s(2) own_same [of T4 _ T lay] T4 by (fastforce simp: set_hlist)
      then have "same_handle H H4 x" "handle_ok X T Ob H x" using D(9) [of x] I(4) [of x] B that(1) by auto
      then show ?thesis using notX same_handleD nl by (fastforce simp: handle_ok_def)
    qed
  qed
  then show ?thesis using s(2) by blast
qed

text \<open>After a failed copy, giving up the reference to the new object destroys everything that was made.\<close>

lemma undo_ok:
  assumes inv: "rc_inv lay S G X T {h} H L Ob Q" and h: "h \<in> set (hlist lay T G Ob)" and V: "V \<subseteq> valid X T Ob"
    and inv4: "rc_inv lay S G X T4 {} H4 L4 Ob4 Q" and g: "grown lay G V {h} T H L Ob T4 H4 L4 Ob4"
    and tgt: "\<not> isNullPtr h H4" "getTarget h H4 = space" "T4 space = ty" "space \<in> set Ob4"
    and fd: "managed_bytes (al H) < fd"
  shows "\<exists>H5 L5 Ob5. object_decRefCount lay fd space ty H4 = Inr H5 \<and> rc_inv lay S G X T4 {h} H5 L5 Ob5 Q \<and>
    shrunk H4 L4 Ob4 H5 L5 Ob5 \<and> set Ob5 = set Ob"
proof -
  note D = grownD [OF g] and I = rc_invD [OF inv]
  have sub: "set Ob \<subseteq> set L" using I(2) by (simp add: objects_ok_def)
  have T4: "T4 r = T r" if "r \<in> set Ob" for r using D(5) that sub by auto
  have h4: "h \<in> set (hlist lay T4 G Ob)" using hlist_subset [of Ob Ob T4 T lay G] T4 h by auto
  then have h4': "h \<in> set (hlist lay T4 G Ob4)" using D(1) by (auto simp: set_hlist)
  have blind: "rc_inv lay S G X T4 {h} H4 L4 Ob4 (add_mset space Q)"
    using blind_ok [OF inv4 h4'] tgt by (simp add: targets_Cons)
  have "length Ob4 < fd"
    using objects_bytes [OF inv4] live_bytes [OF rc_space(1) [OF inv4]] bytes_less [OF D(7) rc_space(1) [OF inv] rc_space(1) [OF inv4]] fd
    by linarith
  from object_release_ok [OF blind guarded_old [OF inv4 h4 D(1)] supported_rest [OF inv T4] this]
  obtain H5 L5 Ob5 where d: "object_decRefCount lay fd space ty H4 = Inr H5" "rc_inv lay S G X T4 {h} H5 L5 Ob5 Q"
    "shrunk H4 L4 Ob4 H5 L5 Ob5" "set Ob \<subseteq> set Ob5"
    using D(9) tgt(3) by (auto simp: dec_fine_def)
  have "set Ob5 \<subseteq> set Ob"
    by (rule new_gone [OF inv _ V inv4 g d(2)]) (use d(3) I(5) in \<open>auto simp: shrunk_def\<close>)
  then show ?thesis using d by blast
qed

lemma deep_ok:
  assumes asg: "asg_ok lay S G X H0 V fd fc Q asg" and pre: "copy_pre lay S G X H0 V fd (Suc fc) T {h} H L Ob Q"
    and h: "h \<in> set (hlist lay T G Ob)" "al_contains h (al H)" and src: "(src, ty) \<in> V" "\<not> al_contains src (al H)"
    and run: "getRAM (REF_COUNT_PREAMBLE_SIZE + getSizeOfConstituentObject lay ty) (al H) = Inr (space, A)" "space \<noteq> 0"
  shows "\<exists>fl H4 T4 L4 Ob4. copyFields_with asg (type_fields lay ty) (getObject space) (getObject src) (new_heap lay h src ty space A H) = Inr (fl, H4) \<and>
    rc_inv lay S G X T4 {} H4 L4 Ob4 Q \<and> grown lay G V {h} T H L Ob T4 H4 L4 Ob4 \<and>
    \<not> isNullPtr h H4 \<and> getTarget h H4 = space \<and> hType H4 h = ty \<and> T4 space = ty \<and> space \<in> set Ob4 \<and>
    (fl = Returns \<longrightarrow> copied lay (\<lambda>x. al_contains x (al H)) H0 T4 (set Ob4 - set Ob) H4 src ty space)"
proof -
  let ?H3 = "new_heap lay h src ty space A H" and ?T3 = "T(space := ty)" and ?fs = "type_fields lay ty"
  let ?W = "(\<lambda>(f, _). getObject space + f) ` set ?fs" and ?act = "\<lambda>x. al_contains x (al H)"
  have p: "rc_inv lay S G X T {h} H L Ob Q" "fits G S (al H) Q" "sources lay ?act H0 V" "V \<subseteq> valid X T Ob" "agree ?act H0 H"
    using pre by (auto simp: copy_pre_def)
  have so: "type_ok lay ty" and sr: "\<And>x. x \<in> set (handles_at lay ty (getObject src)) \<Longrightarrow> \<not> al_contains x (al H) \<and>
      (isNullPtr x H0 \<or> (getTarget x H0, hType H0 x) \<in> V)"
    using p(3) src by (auto simp: sources_def)
  note n0 = new_ok [OF p(1) h(1) so p(2) run]
  note n = n0(1) [of src] n0(2) [OF h(2), of V src] n0(3) n0(4,5,6) [of src] n0(7) [where src = src] n0(8,9)
  note D = grownD [OF n(2)]
  have act: "al_contains x (al ?H3) = al_contains x (al H)" for x by (rule contains_same [OF D(7)])
  have pre3: "copy_pre lay S G X H0 V fd fc ?T3 {} ?H3 (space # L) (space # Ob) Q"
    by (rule copy_pre_grown [OF pre n(1,2)]) simp
  have W: "?W = set (handles_at lay ty (getObject space))" "set (handles_at lay ty (getObject space)) = set (own lay ?T3 space)"
    by (auto simp: handles_at_def own_def)
  have fld: "getObject space + f \<in> set (handles_at lay ty (getObject space))" "getObject src + f \<in> set (handles_at lay ty (getObject src))"
    if "f \<in> fst ` set ?fs" for f using that by (auto simp: handles_at_def)
  have "\<exists>fl H' T' L' Ob'. copyFields_with asg ?fs (getObject space) (getObject src) ?H3 = Inr (fl, H') \<and> rc_inv lay S G X T' {} H' L' Ob' Q \<and>
    grown lay G V ?W ?T3 ?H3 (space # L) (space # Ob) T' H' L' Ob' \<and>
    (fl = Returns \<longrightarrow> (\<forall>f \<in> fst ` set ?fs. field_copied lay (\<lambda>x. al_contains x (al ?H3)) H0 T' (set Ob' - set (space # Ob)) H' (getObject src + f) (getObject space + f)))"
  proof (rule fields_ok [OF asg pre3, where q = space])
    show "distinct (map fst ?fs)" using so by (simp add: type_ok_def)
    show "getObject space + f \<in> set (own lay ?T3 space) \<and> al_contains (getObject space + f) (al ?H3) \<and> isNullPtr (getObject space + f) ?H3"
      if "f \<in> fst ` set ?fs" for f using fld(1) [OF that] n(7) W(2) by (simp add: act)
    show "\<not> al_contains (getObject src + f) (al ?H3) \<and> (isNullPtr (getObject src + f) H0 \<or> (getTarget (getObject src + f) H0, hType H0 (getObject src + f)) \<in> V)"
      if "f \<in> fst ` set ?fs" for f using sr [OF fld(2) [OF that]] by (simp add: act)
  qed simp
  then obtain fl H4 T4 L4 Ob4 where r: "copyFields_with asg ?fs (getObject space) (getObject src) ?H3 = Inr (fl, H4)"
    "rc_inv lay S G X T4 {} H4 L4 Ob4 Q" "grown lay G V ?W ?T3 ?H3 (space # L) (space # Ob) T4 H4 L4 Ob4"
    and ret: "fl = Returns \<Longrightarrow> \<forall>f \<in> fst ` set ?fs. field_copied lay ?act H0 T4 (set Ob4 - set (space # Ob)) H4 (getObject src + f) (getObject space + f)"
    unfolding act by blast
  note E = grownD [OF r(3)]
  have nOb: "space \<notin> set Ob" using n(8) rc_invD(2) [OF p(1)] by (auto simp: objects_ok_def)
  have hW: "x \<notin> ?W" if "x \<in> set (hlist lay T G Ob)" for x
  proof -
    have "distinct (hlist lay ?T3 G (space # Ob))" by (rule rc_distinct [OF n(1)])
    moreover have "map (own lay ?T3) Ob = map (own lay T) Ob" using nOb by (auto simp: own_def)
    ultimately show ?thesis using that unfolding W hlist_def by auto
  qed
  have LOb: "set Ob \<subseteq> set L" "set (space # Ob) \<subseteq> set (space # L)" using rc_invD(2) [OF p(1)] by (auto simp: objects_ok_def)
  have "grown lay G V ({h} \<union> ?W) T H L Ob T4 H4 L4 Ob4"
    by (rule grown_trans [OF n(2) r(3) LOb]) (use h(1) hW [OF h(1)] in blast)+
  then have g: "grown lay G V {h} T H L Ob T4 H4 L4 Ob4" by (rule grown_restrict) (use hW in blast)+
  have "h \<in> set (hlist lay ?T3 G (space # Ob))" by (rule subsetD [OF hlist_subset h(1)]) (use nOb in auto)
  then have "same_handle ?H3 H4 h" using E(9) hW [OF h(1)] by blast
  then have th: "\<not> isNullPtr h H4" "getTarget h H4 = space" "hType H4 h = ty" using same_handleD n(4-6) by auto
  have ts: "T4 space = ty" "space \<in> set Ob4" using E(1,5) by auto
  have "copied lay ?act H0 T4 (set Ob4 - set Ob) H4 src ty space" if "fl = Returns"
  proof (rule copied.deep)
    show "\<not> al_contains src (al H)" by (rule src(2))
    show "space \<in> set Ob4 - set Ob" "T4 space = ty" using ts nOb by auto
    have "prims H4 (getObject space) = prims H (getObject src)" using E(6) [of space] by (simp add: new_heap_sel)
    then show "prims H4 (getObject space) = prims H0 (getObject src)" using p(5) src(2) by (simp add: agree_def)
    have "field_copied lay ?act H0 T4 (set Ob4 - set Ob) H4 (getObject src + f) (getObject space + f)" if f: "f \<in> fst ` set ?fs" for f
      by (rule field_copied_mono [OF bspec [OF ret [OF \<open>fl = Returns\<close>] f]]) (auto simp: same_handle_def)
    then show "\<forall>f \<in> fst ` set ?fs. (isNullPtr (getObject src + f) H0 \<longleftrightarrow> isNullPtr (getObject space + f) H4) \<and>
       (isNullPtr (getObject src + f) H0 \<or> hType H4 (getObject space + f) = hType H0 (getObject src + f) \<and>
          copied lay ?act H0 T4 (set Ob4 - set Ob) H4 (getTarget (getObject src + f) H0) (hType H0 (getObject src + f)) (getTarget (getObject space + f) H4))"
      unfolding field_copied_def by blast
  qed
  then show ?thesis using r(1,2) g th ts by blast
qed

text \<open>Overwriting the handle with null ends its being left out.\<close>

lemma null_ok:
  assumes inv: "rc_inv lay S G X T {h} H L Ob P" and h: "h \<in> set (hlist lay T G Ob)"
  shows "rc_inv lay S G X T {} (set_offset h (-1) H) L Ob P"
proof -
  let ?H = "set_offset h (-1) H"
  have "rc_inv lay S G X T {h} ?H L Ob P"
    by (rule rc_inv_cong [OF inv]) (use hlist_not_outside [OF inv h] in auto)
  moreover have "isNullPtr h ?H" by (simp add: isNullPtr_def)
  ultimately show ?thesis
    using unblind_ok [of lay S G X T h "{}" ?H L Ob P] h by (auto simp: handle_ok_def targets_Cons)
qed

section \<open>Assigning to a handle that is null\<close>

lemma rc_length:
  assumes "rc_inv lay S G X T B H L Ob P" and "rc_inv lay S G X T' B' H' L' Ob' P'" and "set L' = set L"
  shows "length L' = length L"
  using live_distinct [OF rc_space(1) [OF assms(1)]] live_distinct [OF rc_space(1) [OF assms(2)]] assms(3) by (metis distinct_card)

text \<open>A failed copy after it has been undone: nothing but the handle has changed.\<close>

lemma undone:
  assumes inv: "rc_inv lay S G X T {h} H L Ob Q" and h: "h \<in> set (hlist lay T G Ob)" "al_contains h (al H)"
    and g: "grown lay G V {h} T H L Ob T4 H4 L4 Ob4" and inv5: "rc_inv lay S G X T4 {h} H5 L5 Ob5 Q"
    and sh: "shrunk H4 L4 Ob4 H5 L5 Ob5" and Ob5: "set Ob5 = set Ob"
  shows "rc_inv lay S G X T4 {} (set_offset h (-1) H5) L5 Ob5 Q" and "isNullPtr h (set_offset h (-1) H5)"
    and "grown lay G V {h} T H L Ob T4 (set_offset h (-1) H5) L5 Ob5" and "set L5 = set L"
proof -
  let ?H = "set_offset h (-1) H5"
  note D = grownD [OF g] and I = rc_invD [OF inv]
  have sub: "set Ob \<subseteq> set L" using I(2) by (simp add: objects_ok_def)
  have T4: "T4 r = T r" if "r \<in> set Ob" for r using D(5) that sub by auto
  have "h \<in> set (hlist lay T4 G Ob5)" using hlist_subset [of Ob Ob5 T4 T lay G] T4 h Ob5 by auto
  then show "rc_inv lay S G X T4 {} ?H L5 Ob5 Q" by (rule null_ok [OF inv5])
  show null: "isNullPtr h ?H" by (simp add: isNullPtr_def)
  have s: "hOffset H5 = hOffset H4" "hType H5 = hType H4" "prims H5 = prims H4" "same_active (al H4) (al H5)"
    "set L5 = set L4 - (set Ob4 - set Ob5)" using sh by (auto simp: shrunk_def same_active_def)
  show L5: "set L5 = set L" using s(5) D(2,3) Ob5 by auto
  have ag: "agree (\<lambda>x. al_contains x (al H)) H ?H" using D(8) s h(2) by (auto simp: agree_def)
  have hs: "same_handle H ?H x" if "x \<in> set (hlist lay T G Ob)" "x \<notin> {h}" for x
    using D(9) [OF that] that(2) s by (simp add: same_handle_def)
  have "numCopies H5 r = numCopies H r" if "r \<in> set Ob" for r
    by (rule counts_same [OF inv inv5 Ob5 T4 _ that]) (use D(9) s in \<open>auto simp: same_handle_def\<close>)
  moreover have "same_active (al H) (al ?H)" using D(7) s(4) by (auto simp: same_active_def)
  ultimately show "grown lay G V {h} T H L Ob T4 ?H L5 Ob5"
    unfolding grown_def using D(5,6) Ob5 L5 ag hs null s(3) rc_length [OF inv inv5 L5] by auto
qed

lemma blind_null:
  assumes inv: "rc_inv lay S G X T {} H L Ob P" and h: "h \<in> set (hlist lay T G Ob)" "isNullPtr h H"
  shows "rc_inv lay S G X T {h} H L Ob P"
  using blind_ok [OF inv h(1)] h(2) by (simp add: targets_Cons)

lemma grown_handle:
  assumes "isNullPtr h H' \<or> getTarget h H' \<in> shareable V (al H)" and "al_contains h (al H)" and "al H' = al H" and "prims H' = prims H"
    and "\<And>x. x \<noteq> h \<Longrightarrow> same_handle H H' x" and "\<And>r. r \<in> set Ob \<Longrightarrow> (r, T r) \<notin> V \<Longrightarrow> numCopies H' r = numCopies H r"
  shows "grown lay G V {h} T H L Ob T H' L Ob"
proof -
  have "same_handle H H' x" if "\<not> al_contains x (al H)" for x using assms(2,5) that by metis
  then have "agree (\<lambda>x. al_contains x (al H)) H H'" using assms(4) by (simp add: agree_def same_handle_def)
  then show ?thesis using assms unfolding grown_def by (simp add: same_active_def)
qed

lemma keep_null:
  assumes inv: "rc_inv lay S G X T {} H L Ob P" and h: "h \<in> set (hlist lay T G Ob)" "al_contains h (al H)" "isNullPtr h H"
    and "\<And>x. x \<noteq> h \<Longrightarrow> same_handle H H' x" and "isNullPtr h H'" and "al H' = al H" and "numCopies H' = numCopies H" and "prims H' = prims H"
  shows "rc_inv lay S G X T {} H' L Ob P" and "grown lay G V {h} T H L Ob T H' L Ob"
proof -
  have "same_handle H H' x" if "unmanaged x (al H)" "x \<notin> set G" for x
    using that assms(5) [of x] hlist_not_outside [OF inv h(1)] by metis
  then have "rc_inv lay S G X T {h} H' L Ob P"
    by (intro rc_inv_cong [OF blind_null [OF inv h(1,3)]]) (use assms(5-) in \<open>auto simp: same_handle_def\<close>)
  from unblind_ok [of lay S G X T h "{}" H' L Ob P] this show "rc_inv lay S G X T {} H' L Ob P"
    using h(1) assms(6) by (simp add: targets_Cons handle_ok_def)
  show "grown lay G V {h} T H L Ob T H' L Ob" by (rule grown_handle) (use assms in auto)
qed

lemma assign_null_step:
  assumes asg: "asg_ok lay S G X H0 V fd fc P asg" and pre: "copy_pre lay S G X H0 V fd (Suc fc) T {} H L Ob P"
    and q: "q \<in> set Ob" "h \<in> set (own lay T q)" and h: "al_contains h (al H)" "isNullPtr h H" and src: "(src, ty) \<in> V"
  shows "assigned lay S G X V T H L Ob P h
    (\<lambda>T' N H'. \<not> isNullPtr h H' \<and> hType H' h = ty \<and> copied lay (\<lambda>x. al_contains x (al H)) H0 T' N H' src ty (getTarget h H'))
    (assign_step lay fd (copyFields_with asg) df False h src ty (getSizeOfConstituentObject lay ty) H)"
proof -
  let ?n = "getSizeOfConstituentObject lay ty" and ?H0 = "set_type h ty H"
  have p: "rc_inv lay S G X T {} H L Ob P" "fits G S (al H) P" "V \<subseteq> valid X T Ob" "managed_bytes (al H) < fd"
    using pre by (auto simp: copy_pre_def)
  have hl: "h \<in> set (hlist lay T G Ob)" by (rule own_in_hlist [OF q])
  note inv = blind_null [OF p(1) hl h(2)]
  have old: "old_target h H = None" using h(2) by (simp add: old_target_def)
  have ty: "type_ok lay ty" using pre src by (auto simp: copy_pre_def sources_def)
  show ?thesis
  proof (cases "al_contains src (al H)")
    case True
    let ?H' = "shared_heap h src ty Ob H"
    note s = shared_ok [OF inv hl subsetD [OF p(3) src] p(2)]
    have "h \<noteq> Suc src" by (rule valid_not_Suc [OF inv hl subsetD [OF p(3) src]])
    then have tgt: "\<not> isNullPtr h ?H'" "getTarget h ?H' = src" using pointed [of ?H' h src] by simp_all
    have "assign_step lay fd (copyFields_with asg) df False h src ty ?n H = Inr (Returns, ?H')"
      using True old s(1) by (simp add: assign_step_def dec_old_def)
    moreover have "grown lay G V {h} T H L Ob T ?H' L Ob"
    proof (rule grown_handle)
      show "isNullPtr h ?H' \<or> getTarget h ?H' \<in> shareable V (al H)" using tgt src True by (force simp: shareable_def)
      show "numCopies ?H' r = numCopies H r" if "r \<in> set Ob" "(r, T r) \<notin> V" for r
      proof -
        have "(src, ty) \<notin> X" if "src \<in> set Ob"
          using live_not_foreign [OF rc_space(1) [OF p(1)] objects_okD(2) [OF rc_invD(2) [OF p(1)] that]] rc_invD(3) [OF p(1)]
          by (force simp: outside_ok_def)
        then have "r \<noteq> src" using that src subsetD [OF p(3) src] by (auto simp: valid_def)
        then show ?thesis by simp
      qed
    qed (use h(1) in \<open>auto simp: same_handle_def\<close>)
    moreover have "copied lay (\<lambda>x. al_contains x (al H)) H0 T N ?H' src ty src" for N using copied.shared True by fast
    ultimately show ?thesis unfolding assigned_def using s(2) tgt by (intro exI [of _ Returns] exI conjI) auto
  next
    case False
    have req: "request_ok (REF_COUNT_PREAMBLE_SIZE + ?n)"
      using ty by (simp add: request_ok_def REF_COUNT_PREAMBLE_SIZE_def type_ok_def)
    have got: "got (REF_COUNT_PREAMBLE_SIZE + ?n) (al H) L S (getRAM (REF_COUNT_PREAMBLE_SIZE + ?n) (al H))"
      by (rule getRAM_got [OF rc_space(1,2,4) [OF p(1)] req])
    have full: "assigned lay S G X V T H L Ob P h good (Inr (NotEnoughSpace, H'))"
      if H': "H' = ?H0 \<or> H' = set_offset h (-1) ?H0" for good H'
    proof -
      have n: "isNullPtr h H'" using H' h(2) by (auto simp: isNullPtr_def)
      have "rc_inv lay S G X T {} H' L Ob P" "grown lay G V {h} T H L Ob T H' L Ob"
        by (rule keep_null [OF p(1) hl h _ n]; use H' in \<open>auto simp: same_handle_def\<close>)+
      then show ?thesis unfolding assigned_def using n by (intro exI [of _ NotEnoughSpace] exI conjI) auto
    qed
    show ?thesis
    proof (cases "getRAM (REF_COUNT_PREAMBLE_SIZE + ?n) (al H)")
      case (Inl e)
      then have "e = Throw ''NotEnoughSpace''" using got by (simp add: got_def)
      then have "assign_step lay fd (copyFields_with asg) df False h src ty ?n H = Inr (NotEnoughSpace, ?H0)"
        using Inl False h(1) by (simp add: assign_step_def)
      then show ?thesis using full [of ?H0] by simp
    next
      case (Inr e)
      obtain space A where e: "e = (space, A)" by (cases e)
      show ?thesis
      proof (cases "space = 0")
        case True
        then have "assign_step lay fd (copyFields_with asg) df False h src ty ?n H = Inr (NotEnoughSpace, set_offset h (-1) ?H0)"
          using Inr e False h(1) old by (simp add: assign_step_def dec_old_def)
        then show ?thesis using full [of "set_offset h (-1) ?H0"] by simp
      next
        case nz: False
        have pre': "copy_pre lay S G X H0 V fd (Suc fc) T {h} H L Ob P" using pre inv by (simp add: copy_pre_def)
        note run = Inr [unfolded e]
        obtain fl H4 T4 L4 Ob4 where c: "copyFields_with asg (type_fields lay ty) (getObject space) (getObject src) (new_heap lay h src ty space A H) = Inr (fl, H4)"
          "rc_inv lay S G X T4 {} H4 L4 Ob4 P" "grown lay G V {h} T H L Ob T4 H4 L4 Ob4"
          "\<not> isNullPtr h H4" "getTarget h H4 = space" "hType H4 h = ty" "T4 space = ty" "space \<in> set Ob4"
          "fl = Returns \<longrightarrow> copied lay (\<lambda>x. al_contains x (al H)) H0 T4 (set Ob4 - set Ob) H4 src ty space"
          using deep_ok [OF asg pre' hl h(1) src False run nz] by blast
        note n0 = new_ok(3) [OF inv hl ty p(2) run nz]
        show ?thesis
        proof (cases fl)
          case Returns
          then have "assign_step lay fd (copyFields_with asg) df False h src ty ?n H = Inr (Returns, H4)"
            using run nz False h(1) old n0 c(1) by (simp add: assign_step_def dec_old_def new_heap_def Let_def)
          then show ?thesis unfolding assigned_def using c Returns by (intro exI [of _ Returns] exI conjI) auto
        next
          case NotEnoughSpace
          obtain H5 L5 Ob5 where u: "object_decRefCount lay fd space ty H4 = Inr H5" "rc_inv lay S G X T4 {h} H5 L5 Ob5 P"
            "shrunk H4 L4 Ob4 H5 L5 Ob5" "set Ob5 = set Ob"
            using undo_ok [OF inv hl p(3) c(2-5,7,8) p(4)] by blast
          have "assign_step lay fd (copyFields_with asg) df False h src ty ?n H = Inr (NotEnoughSpace, set_offset h (-1) H5)"
            using run nz False h(1) old n0 c(1) NotEnoughSpace u(1) by (simp add: assign_step_def dec_old_def new_heap_def Let_def)
          then show ?thesis unfolding assigned_def using undone [OF inv hl h(1) c(3) u(2-4)] u(4)
            by (intro exI [of _ NotEnoughSpace] exI conjI) auto
        qed
      qed
    qed
  qed
qed

lemma assignHandle_ok: "asg_ok lay S G X H0 V fd fc P (assignHandle_with lay fd (assignObject fc lay fd False))"
proof (induction fc)
  case 0
  have "False" if "copy_pre lay S G X H0 V fd 0 T {} H L Ob P" for T H L Ob
    using that live_bytes [OF rc_space(1), of lay S G X T "{}" H L Ob P] by (auto simp: copy_pre_def)
  then show ?case unfolding asg_ok_def by blast
next
  case (Suc fc)
  show ?case unfolding asg_ok_def
  proof (intro allI impI)
    fix T H L Ob h x
    assume pre: "copy_pre lay S G X H0 V fd (Suc fc) T {} H L Ob P" and "\<exists>q \<in> set Ob. h \<in> set (own lay T q)"
      and h: "al_contains h (al H)" "isNullPtr h H" and x: "\<not> al_contains x (al H)" "isNullPtr x H0 \<or> (getTarget x H0, hType H0 x) \<in> V"
    then obtain q where q: "q \<in> set Ob" "h \<in> set (own lay T q)" by blast
    have inv: "rc_inv lay S G X T {} H L Ob P" using pre by (simp add: copy_pre_def)
    have old: "old_target h H = None" using h(2) by (simp add: old_target_def)
    have "same_handle H0 H x" using pre x(1) by (simp add: copy_pre_def agree_def same_handle_def)
    note sx = same_handleD [OF this]
    let ?asg = "assignHandle_with lay fd (assignObject (Suc fc) lay fd False)" and ?act = "\<lambda>x. al_contains x (al H)"
    show "assigned lay S G X V T H L Ob P h (\<lambda>T' N H'. field_copied lay ?act H0 T' N H' x h) (?asg h x H)"
    proof (cases "isNullPtr x H0")
      case True
      let ?H' = "set_offset h (-1) H"
      have n: "isNullPtr h ?H'" by (simp add: isNullPtr_def)
      have "?asg h x H = Inr (Returns, ?H')" using True sx old by (simp add: assignHandle_with_def dec_old_def)
      moreover have "rc_inv lay S G X T {} ?H' L Ob P" "grown lay G V {h} T H L Ob T ?H' L Ob"
        by (rule keep_null [OF inv own_in_hlist [OF q] h _ n]; simp add: same_handle_def)+
      ultimately show ?thesis unfolding assigned_def using n True
        by (intro exI [of _ Returns] exI conjI) (auto simp: field_copied_def)
    next
      case False
      have "x \<noteq> h" using x(1) h(1) by blast
      then have run: "?asg h x H = assign_step lay fd (copyFields_with (assignHandle_with lay fd (assignObject fc lay fd False))) False False
          h (getTarget x H0) (hType H0 x) (getSizeOfConstituentObject lay (hType H0 x)) H"
        using False sx by (simp add: assignHandle_with_def)
      have "(getTarget x H0, hType H0 x) \<in> V" using False x(2) by blast
      from assign_null_step [OF Suc.IH pre q h this]
      have "assigned lay S G X V T H L Ob P h (\<lambda>T' N H'. \<not> isNullPtr h H' \<and> hType H' h = hType H0 x \<and>
          copied lay ?act H0 T' N H' (getTarget x H0) (hType H0 x) (getTarget h H')) (?asg h x H)" unfolding run .
      moreover have "(\<lambda>T' N H'. \<not> isNullPtr h H' \<and> hType H' h = hType H0 x \<and>
          copied lay ?act H0 T' N H' (getTarget x H0) (hType H0 x) (getTarget h H')) = (\<lambda>T' N H'. field_copied lay ?act H0 T' N H' x h)"
        using False by (simp add: fun_eq_iff field_copied_def)
      ultimately show ?thesis by simp
    qed
  qed
qed

end
