(* ===== verification/HandleOps.thy ===== *)
theory HandleOps
  imports HandleCopy
begin

text \<open>
  Assignment to any handle, assignment of null and the destructor: each of them returns, keeps the invariant of
  reference counting, and leaves alive the objects that do not depend on the reference that is given up.
\<close>

section \<open>The old target\<close>

lemma sources_valid:
  assumes inv: "rc_inv lay S G X T {} H L Ob P"
  shows "sources lay (\<lambda>x. al_contains x (al H)) H (valid X T Ob)"
proof -
  note D = rc_invD [OF inv] and sp = rc_space(1) [OF inv]
  have "type_ok lay ty \<and> (\<not> al_contains r (al H) \<longrightarrow> (\<forall>x \<in> set (handles_at lay ty (getObject r)). \<not> al_contains x (al H) \<and>
      (isNullPtr x H \<or> (getTarget x H, hType H x) \<in> valid X T Ob)))" if v: "(r, ty) \<in> valid X T Ob" for r ty
  proof (cases "(r, ty) \<in> X")
    case True
    have "\<not> al_contains x (al H)" if "unmanaged x (al H)" for x using that by (auto simp: unmanaged_def contains_active)
    then show ?thesis using True D(3) by (fastforce simp: outside_ok_def valid_def)
  next
    case False
    then have r: "r \<in> set Ob" "ty = T r" using v by (auto simp: valid_def)
    have "\<not> al_contains x (al H) \<and> (isNullPtr x H \<or> (getTarget x H, hType H x) \<in> valid X T Ob)"
      if x: "x \<in> set (own lay T r)" and na: "\<not> al_contains r (al H)" for x
    proof -
      obtain b where b: "b \<in> set (managed (al H))" "in_block b x" "in_block b r" using own_inside(3) [OF sp D(2) r(1) x] by blast
      then have "\<not> al_contains x (al H)"
        using block_unique [OF al_invD(1) [OF sp] active_managed b(1)] na by (auto simp: contains_active)
      moreover have "handle_ok X T Ob H x" using D(4) own_in_hlist [OF r(1) x] by blast
      ultimately show ?thesis by (auto simp: handle_ok_def valid_def)
    qed
    then show ?thesis using objects_okD(1) [OF D(2) r(1)] r(2) by (auto simp: own_def)
  qed
  then show ?thesis by (auto simp: sources_def)
qed

lemma outside_not_active:
  assumes "rc_inv lay S G X T B H L Ob P" and "(r, t) \<in> X"
  shows "\<not> al_contains r (al H)"
proof -
  have "foreign r (al H)" using rc_invD(3) [OF assms(1)] assms(2) by (auto simp: outside_ok_def)
  then show ?thesis by (auto simp: foreign_def managed_def contains_active in_block_def)
qed

lemma supported_more:
  assumes "supported lay G T {h} H P K" and "K \<subseteq> set Ob" and "B \<subseteq> {h}"
    and T': "\<And>r. r \<in> set Ob \<Longrightarrow> T' r = T r" and same: "\<And>x. x \<in> set (hlist lay T G Ob) \<Longrightarrow> x \<noteq> h \<Longrightarrow> same_handle H H' x"
  shows "supported lay G T' B H' P K"
  unfolding supported_def
proof
  fix r assume "r \<in> K"
  then consider "r \<in># P" | x where "x \<in> set G \<or> (\<exists>q \<in> K. x \<in> set (own lay T q))" "x \<noteq> h" "\<not> isNullPtr x H" "getTarget x H = r"
    using assms(1) unfolding supported_def by blast
  then show "r \<in># P \<or> (\<exists>x. (x \<in> set G \<or> (\<exists>q \<in> K. x \<in> set (own lay T' q))) \<and> x \<notin> B \<and> \<not> isNullPtr x H' \<and> getTarget x H' = r)"
  proof cases
    case 2
    have own: "own lay T' q = own lay T q" if "q \<in> K" for q using T' [of q] that assms(2) by (auto simp: own_def)
    have "x \<in> set (hlist lay T G Ob)" using 2(1) assms(2) by (auto simp: set_hlist)
    note same_handleD [OF same [OF this 2(2)]]
    moreover have "x \<in> set G \<or> (\<exists>q \<in> K. x \<in> set (own lay T' q))" using 2(1) own by auto
    ultimately show ?thesis using 2 assms(3) by (intro disjI2 exI [of _ x]) auto
  qed simp
qed

lemma dec_old_ok:
  assumes inv: "rc_inv lay S G X T' B H1 L1 Ob1 (P + targets H (set Ob) [h])" and ok: "handle_ok X T Ob H h"
    and T': "\<And>r. r \<in> set Ob \<Longrightarrow> T' r = T r" and notX: "\<And>r t. r \<in> set Ob \<Longrightarrow> (r, t) \<notin> X"
    and gs: "guarded lay T' B K Ob1" "supported lay G T' B H1 P K" "length Ob1 < fd"
  shows "dec_fine lay S G X T' B K H1 L1 Ob1 P (dec_old lay fd (old_target h H) H1)"
proof (cases "\<not> isNullPtr h H \<and> getTarget h H \<in> set Ob")
  case True
  let ?r = "getTarget h H"
  have "hType H h = T' ?r" using True ok notX T' by (auto simp: handle_ok_def)
  moreover have "rc_inv lay S G X T' B H1 L1 Ob1 (add_mset ?r P)" using inv True by (simp add: targets_Cons)
  ultimately show ?thesis using object_release_ok [OF _ gs] True by (simp add: dec_old_def old_target_def)
next
  case False
  have inv': "rc_inv lay S G X T' B H1 L1 Ob1 P" using inv False by (auto simp: targets_Cons)
  have "dec_old lay fd (old_target h H) H1 = Inr H1"
  proof (cases "isNullPtr h H")
    case nn: False
    then have "foreign (getTarget h H) (al H1)" using False ok rc_invD(3) [OF inv'] by (auto simp: handle_ok_def outside_ok_def)
    then have "isManaged (getTarget h H) (al H1) = Inr False" by (rule foreign_isManaged [OF rc_space(1) [OF inv']])
    then show ?thesis using nn gs(3) by (cases fd) (simp_all add: dec_old_def old_target_def)
  qed (simp add: dec_old_def old_target_def)
  then show ?thesis using inv' shrunk_refl gs(1) by (auto simp: dec_fine_def guarded_def intro!: exI)
qed

section \<open>Assignment\<close>

text \<open>
  \<open>K\<close> are objects that stay alive when the reference of \<open>h\<close> is given up; the object that contains \<open>h\<close> has to be one
  of them.
\<close>

definition assign_pre :: "layouts \<Rightarrow> AllocatorState list \<Rightarrow> nat list \<Rightarrow> (nat \<times> int) set \<Rightarrow> nat set \<Rightarrow> nat \<Rightarrow> (nat \<Rightarrow> int) \<Rightarrow> object_heap \<Rightarrow>
    nat list \<Rightarrow> nat list \<Rightarrow> nat multiset \<Rightarrow> nat \<Rightarrow> bool" where
  "assign_pre lay S G X K fd T H L Ob P h \<longleftrightarrow> rc_inv lay S G X T {} H L Ob P \<and> fits G S (al H) (add_mset h P) \<and>
     h \<in> set (hlist lay T G Ob) \<and> guarded lay T {h} K Ob \<and> supported lay G T {h} H P K \<and> managed_bytes (al H) < fd"

lemma live_not_outside: "rc_inv lay S G X T B H L Ob P \<Longrightarrow> r \<in> set L \<Longrightarrow> (r, t) \<notin> X"
  using live_not_foreign [OF rc_space(1)] rc_invD(3) by (fastforce simp: outside_ok_def)

lemma give_up_old:
  assumes pre: "assign_pre lay S G X K fd T H L Ob P h" and inv: "rc_inv lay S G X T' B H1 L1 Ob1 (Q + targets H (set Ob) [h])"
    and Q: "set_mset P \<subseteq> set_mset Q" and B: "B \<subseteq> {h}" and sub: "set Ob \<subseteq> set Ob1" and T': "\<And>r. r \<in> set Ob \<Longrightarrow> T' r = T r" and al: "same_active (al H) (al H1)"
    and same: "\<And>x. x \<in> set (hlist lay T G Ob) \<Longrightarrow> x \<noteq> h \<Longrightarrow> same_handle H H1 x"
  shows "\<exists>H2 L2 Ob2. dec_old lay fd (old_target h H) H1 = Inr H2 \<and> rc_inv lay S G X T' B H2 L2 Ob2 Q \<and>
    shrunk H1 L1 Ob1 H2 L2 Ob2 \<and> K \<subseteq> set Ob2"
proof -
  have p: "rc_inv lay S G X T {} H L Ob P" "h \<in> set (hlist lay T G Ob)" "guarded lay T {h} K Ob" "supported lay G T {h} H P K"
    "managed_bytes (al H) < fd" using pre by (auto simp: assign_pre_def)
  have ok: "handle_ok X T Ob H h" using rc_invD(4) [OF p(1,2)] by simp
  have notX: "(r, t) \<notin> X" if "r \<in> set Ob" for r t
    using live_not_outside [OF p(1)] objects_okD(2) [OF rc_invD(2) [OF p(1)] that] by blast
  have K: "K \<subseteq> set Ob" using p(3) by (simp add: guarded_def)
  have own: "own lay T' q = own lay T q" if "q \<in> set Ob" for q using T' [OF that] by (simp add: own_def)
  have "h \<in> set (hlist lay T' G Ob)" using p(2) own by (auto simp: set_hlist)
  note g1 = guarded_old [OF inv this sub]
  have "q \<in> K" if "q \<in> set Ob1" "set (own lay T' q) \<inter> B \<noteq> {}" for q
  proof -
    have hq: "h \<in> set (own lay T' q)" using that(2) B by auto
    then have "q \<in> set Ob" using g1 that(1) by (auto simp: guarded_def)
    then show ?thesis using p(3) hq own [of q] by (auto simp: guarded_def)
  qed
  then have "guarded lay T' B K Ob1" using K sub by (auto simp: guarded_def)
  moreover have "supported lay G T' B H1 Q K" by (rule supported_cong [OF refl Q supported_more [OF p(4) K B T' same]])
  moreover have "length Ob1 < fd"
    using objects_bytes [OF inv] live_bytes [OF rc_space(1) [OF inv]] bytes_less [OF al rc_space(1) [OF p(1)] rc_space(1) [OF inv]] p(5)
    by linarith
  ultimately show ?thesis using dec_old_ok [OF inv ok T' notX] by (simp add: dec_fine_def)
qed

text \<open>The active block is self-contained when its objects refer only to objects in it.\<close>

definition inward :: "object_heap \<Rightarrow> nat \<Rightarrow> bool" where
  "inward H x \<longleftrightarrow> isNullPtr x H \<or> al_contains (getTarget x H) (al H)"

definition self_contained :: "layouts \<Rightarrow> (nat \<Rightarrow> int) \<Rightarrow> nat list \<Rightarrow> object_heap \<Rightarrow> bool" where
  "self_contained lay T Ob H \<longleftrightarrow> (\<forall>r \<in> set Ob. al_contains r (al H) \<longrightarrow> (\<forall>x \<in> set (own lay T r). inward H x))"

lemma self_contained_step:
  assumes "self_contained lay T Ob H" and al: "same_active (al H) (al H')" and T': "\<And>r. r \<in> set Ob \<Longrightarrow> T' r = T r"
    and same: "\<And>x. x \<in> set (hlist lay T G Ob) \<Longrightarrow> x \<noteq> h \<Longrightarrow> same_handle H H' x"
    and h: "\<And>r. r \<in> set Ob \<Longrightarrow> al_contains r (al H) \<Longrightarrow> h \<in> set (own lay T r) \<Longrightarrow> inward H' h"
    and new: "\<And>r x. r \<in> set Ob' \<Longrightarrow> r \<notin> set Ob \<Longrightarrow> x \<in> set (own lay T' r) \<Longrightarrow> inward H' x"
  shows "self_contained lay T' Ob' H'"
  unfolding self_contained_def
proof (intro ballI impI)
  fix r x assume r: "r \<in> set Ob'" "al_contains r (al H')" and x: "x \<in> set (own lay T' r)"
  show "inward H' x"
  proof (cases "r \<in> set Ob")
    case True
    have x': "x \<in> set (own lay T r)" using x T' [OF True] by (simp add: own_def)
    have act: "al_contains r (al H)" using r(2) contains_same [OF al] by simp
    show ?thesis
    proof (cases "x = h")
      case False
      have "inward H x" using assms(1) True act x' by (auto simp: self_contained_def)
      then show ?thesis using same_handleD [OF same [OF own_in_hlist [OF True x'] False]] contains_same [OF al] by (simp add: inward_def)
    qed (use h [OF True act] x' in simp)
  qed (rule new [OF r(1) _ x])
qed

definition assign_outcome :: "layouts \<Rightarrow> AllocatorState list \<Rightarrow> nat list \<Rightarrow> (nat \<times> int) set \<Rightarrow> nat set \<Rightarrow> (nat \<Rightarrow> int) \<Rightarrow> object_heap \<Rightarrow>
    nat list \<Rightarrow> nat list \<Rightarrow> nat multiset \<Rightarrow> nat \<Rightarrow> nat \<Rightarrow> int \<Rightarrow> (flow \<times> object_heap) result \<Rightarrow> bool" where
  "assign_outcome lay S G X K T H L Ob P h src ty res \<longleftrightarrow> (\<exists>fl H' T' L' Ob'. res = Inr (fl, H') \<and>
     rc_inv lay S G X T' {} H' L' Ob' P \<and> K \<subseteq> set Ob' \<and> (\<forall>r \<in> set Ob. T' r = T r) \<and> same_active (al H) (al H') \<and>
     (\<forall>x \<in> set (hlist lay T G Ob). x \<noteq> h \<longrightarrow> same_handle H H' x) \<and>
     (self_contained lay T Ob H \<longrightarrow> self_contained lay T' Ob' H') \<and>
     (case fl of
        Returns \<Rightarrow> \<not> isNullPtr h H' \<and> hType H' h = ty \<and>
          (if al_contains h (al H) then copied lay (\<lambda>x. al_contains x (al H)) H T' (set Ob' - set Ob) H' src ty (getTarget h H')
           else getTarget h H' = src)
      | NotEnoughSpace \<Rightarrow> set Ob' \<subseteq> set Ob \<and> set L' = set L - (set Ob - set Ob') \<and> (isNullPtr h H' \<or> H' = set_type h ty H)))"

lemma shrunkD:
  assumes "shrunk H L Ob H' L' Ob'"
  shows "set Ob' \<subseteq> set Ob" and "set L' = set L - (set Ob - set Ob')" and "same_handle H H' x" and "prims H' = prims H" and "same_active (al H) (al H')"
  using assms by (auto simp: shrunk_def same_handle_def same_active_def)

lemma same_active_trans: "same_active A A' \<Longrightarrow> same_active A' A'' \<Longrightarrow> same_active A A''"
  by (auto simp: same_active_def)

lemma same_handle_trans: "same_handle H H' x \<Longrightarrow> same_handle H' H'' x \<Longrightarrow> same_handle H H'' x"
  by (simp add: same_handle_def)

text \<open>The new objects that a copy consists of are alive: they are referred to.\<close>

lemma copied_alive:
  assumes "copied lay act H0 T N H src ty t" and inv: "rc_inv lay S G X T {} H L Ob P"
    and act: "\<And>r. r \<in> N \<Longrightarrow> al_contains r (al H)" and "t \<in> N \<Longrightarrow> t \<in> set Ob"
  shows "copied lay act H0 T (N \<inter> set Ob) H src ty t"
  using assms(1,4)
proof induction
  case (deep src t ty)
  note D = rc_invD [OF inv]
  have t: "t \<in> set Ob" using deep by simp
  have child: "getTarget y H \<in> set Ob" if "y \<in> set (own lay T t)" "\<not> isNullPtr y H" "getTarget y H \<in> N" for y
  proof -
    have "handle_ok X T Ob H y" using D(4) own_in_hlist [OF t that(1)] by blast
    moreover have "(getTarget y H, u) \<notin> X" for u using outside_not_active [OF inv] act [OF that(3)] by blast
    ultimately show ?thesis using that(2) by (auto simp: handle_ok_def)
  qed
  show ?case
  proof (rule copied.deep)
    show "t \<in> N \<inter> set Ob" using deep(2) t by simp
    show "\<forall>f \<in> fst ` set (type_fields lay ty). (isNullPtr (getObject src + f) H0 \<longleftrightarrow> isNullPtr (getObject t + f) H) \<and>
       (isNullPtr (getObject src + f) H0 \<or> hType H (getObject t + f) = hType H0 (getObject src + f) \<and>
          copied lay act H0 T (N \<inter> set Ob) H (getTarget (getObject src + f) H0) (hType H0 (getObject src + f)) (getTarget (getObject t + f) H))"
    proof
      fix f assume f: "f \<in> fst ` set (type_fields lay ty)"
      then have "getObject t + f \<in> set (own lay T t)" using own_field deep(3) by simp
      note c = child [OF this]
      show "(isNullPtr (getObject src + f) H0 \<longleftrightarrow> isNullPtr (getObject t + f) H) \<and>
       (isNullPtr (getObject src + f) H0 \<or> hType H (getObject t + f) = hType H0 (getObject src + f) \<and>
          copied lay act H0 T (N \<inter> set Ob) H (getTarget (getObject src + f) H0) (hType H0 (getObject src + f)) (getTarget (getObject t + f) H))"
        using bspec [OF deep(5) f] c by auto
    qed
  qed (use deep in auto)
qed (rule copied.shared)

lemma own_active:
  assumes inv: "rc_inv lay S G X T B H L Ob P" and r: "r \<in> set Ob" "al_contains r (al H)" "h \<in> set (own lay T r)"
  shows "al_contains h (al H)"
proof -
  obtain b where b: "b \<in> set (managed (al H))" "in_block b h" "in_block b r" using own_inside(3) [OF rc_space(1) [OF inv] rc_invD(2) [OF inv] r(1,3)] by blast
  then show ?thesis
    using block_unique [OF al_invD(1) [OF rc_space(1) [OF inv]] active_managed b(1)] r(2) by (auto simp: contains_active)
qed

lemma assign_shared:
  assumes pre: "assign_pre lay S G X K fd T H L Ob P h" and v: "(src, ty) \<in> valid X T Ob"
    and sh: "al_contains src (al H) \<or> \<not> al_contains h (al H)"
  shows "assign_outcome lay S G X K T H L Ob P h src ty (assign_step lay fd copy df self h src ty n H)"
proof -
  let ?H1 = "shared_heap h src ty Ob H" and ?Q = "P + targets H (set Ob) [h]"
  have p: "rc_inv lay S G X T {} H L Ob P" "fits G S (al H) (add_mset h P)" "h \<in> set (hlist lay T G Ob)" using pre by (auto simp: assign_pre_def)
  have inv: "rc_inv lay S G X T {h} H L Ob ?Q" using blind_ok [OF p(1,3)] by simp
  have sz: "size ?Q \<le> size (add_mset h P) + 1" by (simp add: targets_Cons)
  note s = shared_ok [OF inv p(3) v p(2) sz]
  have unch: "same_handle H ?H1 x" if "x \<noteq> h" for x using that by (simp add: same_handle_def)
  obtain H2 L2 Ob2 where d: "dec_old lay fd (old_target h H) ?H1 = Inr H2" "rc_inv lay S G X T {} H2 L2 Ob2 P"
    "shrunk ?H1 L Ob H2 L2 Ob2" "K \<subseteq> set Ob2"
    using give_up_old [OF pre s(2)] unch by (auto simp: same_active_def)
  note D = shrunkD [OF d(3)]
  have "h \<noteq> Suc src" by (rule valid_not_Suc [OF inv p(3) v])
  then have "\<not> isNullPtr h H2 \<and> getTarget h H2 = src \<and> hType H2 h = ty"
    using pointed [of ?H1 h src] same_handleD [OF D(3) [of h]] by simp
  moreover have "assign_step lay fd copy df self h src ty n H = Inr (Returns, H2)" using sh s(1) d(1) by (auto simp: assign_step_def)
  moreover have "copied lay (\<lambda>x. al_contains x (al H)) H T N H2 src ty src" if "al_contains h (al H)" for N
    using copied.shared [of "\<lambda>x. al_contains x (al H)" src] sh that by blast
  moreover have al: "same_active (al H) (al H2)" using D(5) by simp
  moreover have un2: "same_handle H H2 x" if "x \<noteq> h" for x using same_handle_trans [OF unch [OF that] D(3)] .
  moreover have "self_contained lay T Ob2 H2" if "self_contained lay T Ob H"
  proof (rule self_contained_step [OF that al refl un2])
    fix r assume r: "r \<in> set Ob" "al_contains r (al H)" "h \<in> set (own lay T r)"
    have "al_contains src (al H)" using sh own_active [OF p(1) r] by blast
    then show "inward H2 h" using \<open>_ \<and> getTarget h H2 = src \<and> _\<close> contains_same [OF al] by (simp add: inward_def)
  qed (use D(1) in auto)
  ultimately show ?thesis unfolding assign_outcome_def using d(2,4) by (intro exI [of _ Returns] exI conjI) auto
qed

text \<open>The common end of the failing paths: the handle becomes null.\<close>

lemma assign_failed:
  assumes pre: "assign_pre lay S G X K fd T H L Ob P h" and inv: "rc_inv lay S G X T' {h} H2 L2 Ob2 P" and K: "K \<subseteq> set Ob2"
    and sub: "set Ob2 \<subseteq> set Ob" "set L2 = set L - (set Ob - set Ob2)" and T': "\<And>r. r \<in> set Ob \<Longrightarrow> T' r = T r" and al: "same_active (al H) (al H2)"
    and same: "\<And>x. x \<in> set (hlist lay T G Ob) \<Longrightarrow> x \<noteq> h \<Longrightarrow> same_handle H H2 x"
  shows "assign_outcome lay S G X K T H L Ob P h src ty (Inr (NotEnoughSpace, set_offset h (-1) H2))"
proof -
  let ?H = "set_offset h (-1) H2"
  have "h \<in> set (hlist lay T G Ob)" "guarded lay T {h} K Ob" using pre by (auto simp: assign_pre_def)
  moreover have "own lay T' q = own lay T q" if "q \<in> set Ob" for q using T' [OF that] by (simp add: own_def)
  ultimately have "h \<in> set (hlist lay T' G Ob2)" using K by (fastforce simp: set_hlist guarded_def)
  from null_ok [OF inv this] have "rc_inv lay S G X T' {} ?H L2 Ob2 P" .
  moreover have "isNullPtr h ?H" by (simp add: isNullPtr_def)
  moreover have "same_handle H ?H x" if "x \<in> set (hlist lay T G Ob)" "x \<noteq> h" for x using same [OF that] that(2) by (simp add: same_handle_def)
  moreover have "self_contained lay T' Ob2 ?H" if "self_contained lay T Ob H"
    by (rule self_contained_step [OF that _ T', where G = G and h = h]) (use al sub \<open>isNullPtr h ?H\<close> \<open>\<And>x. _ \<Longrightarrow> _ \<Longrightarrow> same_handle H ?H x\<close> in \<open>auto simp: inward_def\<close>)
  ultimately show ?thesis unfolding assign_outcome_def using K sub T' al
    by (intro exI [of _ NotEnoughSpace] exI [of _ ?H] exI [of _ T'] exI [of _ L2] exI [of _ Ob2] conjI) auto
qed

lemma assign_full:
  assumes pre: "assign_pre lay S G X K fd T H L Ob P h" and d: "\<not> al_contains src (al H)" "al_contains h (al H)"
    and run: "getRAM (REF_COUNT_PREAMBLE_SIZE + n) (al H) = Inr (0, A)"
  shows "assign_outcome lay S G X K T H L Ob P h src ty (assign_step lay fd copy df self h src ty n H)"
proof -
  let ?H1 = "set_type h ty H" and ?Q = "P + targets H (set Ob) [h]"
  have p: "rc_inv lay S G X T {} H L Ob P" "h \<in> set (hlist lay T G Ob)" using pre by (auto simp: assign_pre_def)
  have inv: "rc_inv lay S G X T {h} H L Ob ?Q" using blind_ok [OF p] by simp
  have inv1: "rc_inv lay S G X T {h} ?H1 L Ob ?Q" by (rule rc_inv_cong [OF inv]) (use hlist_not_outside [OF inv p(2)] in auto)
  have unch: "same_handle H ?H1 x" if "x \<noteq> h" for x using that by (simp add: same_handle_def)
  obtain H2 L2 Ob2 where e: "dec_old lay fd (old_target h H) ?H1 = Inr H2" "rc_inv lay S G X T {h} H2 L2 Ob2 P"
    "shrunk ?H1 L Ob H2 L2 Ob2" "K \<subseteq> set Ob2"
    using give_up_old [OF pre inv1] unch by (auto simp: same_active_def)
  note D = shrunkD [OF e(3)]
  have "assign_step lay fd copy df self h src ty n H = Inr (NotEnoughSpace, set_offset h (-1) H2)" using d run e(1) by (simp add: assign_step_def)
  moreover have "assign_outcome lay S G X K T H L Ob P h src ty (Inr (NotEnoughSpace, set_offset h (-1) H2))"
    by (rule assign_failed [OF pre e(2,4)]) (use D same_handle_trans [OF unch D(3)] in auto)
  ultimately show ?thesis by simp
qed

lemma assign_throws:
  assumes pre: "assign_pre lay S G X K fd T H L Ob P h" and safe: "isNullPtr h H \<or> hType H h = ty"
  shows "assign_outcome lay S G X K T H L Ob P h src ty (Inr (NotEnoughSpace, set_type h ty H))"
proof -
  let ?H = "set_type h ty H"
  have p: "rc_inv lay S G X T {} H L Ob P" "h \<in> set (hlist lay T G Ob)" "guarded lay T {h} K Ob" using pre by (auto simp: assign_pre_def)
  have "rc_inv lay S G X T {} ?H L Ob P"
  proof (cases "isNullPtr h H")
    case True
    have "rc_inv lay S G X T {h} ?H L Ob P"
      by (rule rc_inv_cong [OF blind_null [OF p(1,2) True]]) (use hlist_not_outside [OF p(1,2)] in auto)
    moreover have "isNullPtr h ?H" using True by (simp add: isNullPtr_def)
    ultimately show ?thesis using unblind_ok [of lay S G X T h "{}" ?H L Ob P] p(2) by (simp add: targets_Cons handle_ok_def)
  next
    case False
    then have "?H = H" using safe by (cases H) (auto simp: set_type_def)
    then show ?thesis using p(1) by simp
  qed
  moreover have "same_handle H ?H x" if "x \<noteq> h" for x using that by (simp add: same_handle_def)
  moreover have "self_contained lay T Ob ?H = self_contained lay T Ob H"
    by (simp add: self_contained_def inward_def isNullPtr_def getTarget_def)
  ultimately show ?thesis unfolding assign_outcome_def using p(3)
    by (intro exI [of _ NotEnoughSpace] exI conjI) (auto simp: guarded_def same_active_def)
qed

text \<open>The operator that releases the old target before the partial copy.\<close>

lemma undo_first_ok:
  assumes pre: "assign_pre lay S G X K fd T H L Ob P h" and V: "V \<subseteq> valid X T Ob"
    and inv4: "rc_inv lay S G X T4 {} H4 L4 Ob4 (P + targets H (set Ob) [h])" and g: "grown lay G V {h} T H L Ob T4 H4 L4 Ob4"
    and tgt: "\<not> isNullPtr h H4" "getTarget h H4 = space" "T4 space = ty" "space \<in> set Ob4"
  shows "\<exists>H6 L6 Ob6. andThen (dec_old lay fd (old_target h H) H4) (object_decRefCount lay fd space ty) = Inr H6 \<and>
    rc_inv lay S G X T4 {h} H6 L6 Ob6 P \<and> shrunk H4 L4 Ob4 H6 L6 Ob6 \<and> set Ob6 \<subseteq> set Ob \<and> K \<subseteq> set Ob6"
proof -
  note D = grownD [OF g]
  have p: "rc_inv lay S G X T {} H L Ob P" "h \<in> set (hlist lay T G Ob)" "guarded lay T {h} K Ob" "supported lay G T {h} H P K"
    "managed_bytes (al H) < fd" using pre by (auto simp: assign_pre_def)
  have T4: "T4 r = T r" if "r \<in> set Ob" for r using D(5) that rc_invD(2) [OF p(1)] by (auto simp: objects_ok_def)
  have h4: "h \<in> set (hlist lay T4 G Ob)" using hlist_subset [of Ob Ob T4 T lay G] T4 p(2) by auto
  then have h4': "h \<in> set (hlist lay T4 G Ob4)" using D(1) by (auto simp: set_hlist)
  have blind: "rc_inv lay S G X T4 {h} H4 L4 Ob4 (add_mset space P + targets H (set Ob) [h])"
    using blind_ok [OF inv4 h4'] tgt by (simp add: targets_Cons [of H4])
  have un: "same_handle H H4 x" if "x \<in> set (hlist lay T G Ob)" "x \<noteq> h" for x using D(9) that by auto
  obtain H5 L5 Ob5 where d: "dec_old lay fd (old_target h H) H4 = Inr H5" "rc_inv lay S G X T4 {h} H5 L5 Ob5 (add_mset space P)"
    "shrunk H4 L4 Ob4 H5 L5 Ob5" "K \<subseteq> set Ob5"
    using give_up_old [OF pre blind _ _ D(1) T4 D(7) un] by auto
  note E = shrunkD [OF d(3)]
  have K: "K \<subseteq> set Ob" using p(3) by (simp add: guarded_def)
  have own: "own lay T4 q = own lay T q" if "q \<in> set Ob" for q using T4 [OF that] by (simp add: own_def)
  have "q \<in> K" if "q \<in> set Ob5" "h \<in> set (own lay T4 q)" for q
  proof -
    have "q \<in> set Ob" using guarded_old [OF inv4 h4 D(1)] that E(1) by (auto simp: guarded_def)
    then show ?thesis using p(3) own [of q] that(2) by (auto simp: guarded_def)
  qed
  then have gd: "guarded lay T4 {h} K Ob5" using d(4) by (auto simp: guarded_def)
  have su: "supported lay G T4 {h} H5 P K"
    by (rule supported_more [OF p(4) K subset_refl T4]) (use same_handle_trans [OF un E(3)] in auto)
  have al5: "same_active (al H) (al H5)" by (rule same_active_trans [OF D(7) E(5)])
  have "length Ob5 < fd"
    using objects_bytes [OF d(2)] live_bytes [OF rc_space(1) [OF d(2)]] bytes_less [OF al5 rc_space(1) [OF p(1)] rc_space(1) [OF d(2)]] p(5)
    by linarith
  from object_release_ok [OF d(2) gd su this]
  obtain H6 L6 Ob6 where f: "object_decRefCount lay fd space ty H5 = Inr H6" "rc_inv lay S G X T4 {h} H6 L6 Ob6 P"
    "shrunk H5 L5 Ob5 H6 L6 Ob6" "K \<subseteq> set Ob6" using tgt(3) by (auto simp: dec_fine_def)
  have "set Ob4 \<subseteq> set L4" using rc_invD(2) [OF inv4] by (simp add: objects_ok_def)
  from shrunk_trans [OF d(3) f(3) this] have sh: "shrunk H4 L4 Ob4 H6 L6 Ob6" .
  have "set Ob6 \<subseteq> set Ob"
    by (rule new_gone [OF p(1) _ V inv4 g f(2)]) (use sh rc_invD(5) [OF p(1)] in \<open>auto simp: shrunk_def\<close>)
  then show ?thesis using d(1) f sh by auto
qed

lemma assign_deep:
  assumes pre: "assign_pre lay S G X K fd T H L Ob P h" and v: "(src, ty) \<in> valid X T Ob" and d: "\<not> al_contains src (al H)" "al_contains h (al H)"
    and fc: "managed_bytes (al H) < Suc fc + length L"
    and run: "getRAM (REF_COUNT_PREAMBLE_SIZE + getSizeOfConstituentObject lay ty) (al H) = Inr (space, A)" "space \<noteq> 0"
  shows "assign_outcome lay S G X K T H L Ob P h src ty
    (assignObject (Suc fc) lay fd df False h src ty (getSizeOfConstituentObject lay ty) H)"
proof -
  let ?Q = "P + targets H (set Ob) [h]" and ?V = "valid X T Ob" and ?act = "\<lambda>x. al_contains x (al H)"
  let ?asg = "assignHandle_with lay fd (assignObject fc lay fd False)" and ?run = "assignObject (Suc fc) lay fd df False h src ty (getSizeOfConstituentObject lay ty) H"
  have p: "rc_inv lay S G X T {} H L Ob P" "fits G S (al H) (add_mset h P)" "h \<in> set (hlist lay T G Ob)" "managed_bytes (al H) < fd"
    using pre by (auto simp: assign_pre_def)
  have inv: "rc_inv lay S G X T {h} H L Ob ?Q" using blind_ok [OF p(1,3)] by simp
  have fits: "fits G S (al H) ?Q" using p(2) by (auto simp: fits_def targets_Cons)
  note so = sources_valid [OF p(1)]
  have cp: "copy_pre lay S G X H ?V fd (Suc fc) T {h} H L Ob ?Q"
    using inv fits so p(4) fc by (simp add: copy_pre_def agree_def)
  have ty: "type_ok lay ty" using so v by (auto simp: sources_def)
  obtain fl H4 T4 L4 Ob4 where c: "copyFields_with ?asg (type_fields lay ty) (getObject space) (getObject src) (new_heap lay h src ty space A H) = Inr (fl, H4)"
    "rc_inv lay S G X T4 {} H4 L4 Ob4 ?Q" "grown lay G ?V {h} T H L Ob T4 H4 L4 Ob4"
    "\<not> isNullPtr h H4" "getTarget h H4 = space" "hType H4 h = ty" "T4 space = ty" "space \<in> set Ob4"
    "fl = Returns \<longrightarrow> copied lay ?act H T4 (set Ob4 - set Ob) H4 src ty space"
    using deep_ok [OF assignHandle_ok cp p(3) d(2) v d(1) run] by blast
  note n0 = new_ok(3) [OF inv p(3) ty fits run] and D = grownD [OF c(3)]
  have T4: "T4 r = T r" if "r \<in> set Ob" for r using D(5) that rc_invD(2) [OF p(1)] by (auto simp: objects_ok_def)
  have un: "same_handle H H4 x" if "x \<in> set (hlist lay T G Ob)" "x \<noteq> h" for x using D(9) that by auto
  have failed: "assign_outcome lay S G X K T H L Ob P h src ty (Inr (NotEnoughSpace, set_offset h (-1) H6))"
    if "rc_inv lay S G X T4 {h} H6 L6 Ob6 P" "shrunk H4 L4 Ob4 H6 L6 Ob6" "set Ob6 \<subseteq> set Ob" "K \<subseteq> set Ob6" for H6 L6 Ob6
  proof (rule assign_failed [OF pre that(1,4,3) _ T4])
    note E = shrunkD [OF that(2)]
    have "set Ob \<subseteq> set L" using rc_invD(2) [OF p(1)] by (simp add: objects_ok_def)
    then show "set L6 = set L - (set Ob - set Ob6)" using E(2) D(1-3) that(3) by auto
    show "same_active (al H) (al H6)" by (rule same_active_trans [OF D(7) E(5)])
    show "same_handle H H6 x" if "x \<in> set (hlist lay T G Ob)" "x \<noteq> h" for x by (rule same_handle_trans [OF un [OF that] E(3)])
  qed
  show ?thesis
  proof (cases fl)
    case Returns
    obtain H5 L5 Ob5 where e: "dec_old lay fd (old_target h H) H4 = Inr H5" "rc_inv lay S G X T4 {} H5 L5 Ob5 P"
      "shrunk H4 L4 Ob4 H5 L5 Ob5" "K \<subseteq> set Ob5" using give_up_old [OF pre c(2) subset_refl _ D(1) T4 D(7) un] by auto
    note E = shrunkD [OF e(3)]
    have r: "?run = Inr (Returns, H5)"
      using run d n0 c(1) Returns e(1) by (simp add: assign_step_def new_heap_def Let_def)
    have th: "\<not> isNullPtr h H5" "getTarget h H5 = space" "hType H5 h = ty" using same_handleD [OF E(3) [of h]] c(4-6) by auto
    have act5: "al_contains x (al H5) = al_contains x (al H)" for x by (rule contains_same [OF same_active_trans [OF D(7) E(5)]])
    have cop: "copied lay ?act H T4 (set Ob4 - set Ob) H5 src ty space"
      by (rule copied_mono [OF c(9) [rule_format, OF Returns] subset_refl]) (use E in auto)
    have "handle_ok X T4 Ob5 H5 h"
    proof -
      have "own lay T4 q = own lay T q" if "q \<in> set Ob" for q using T4 [OF that] by (simp add: own_def)
      moreover have "guarded lay T {h} K Ob" using pre by (simp add: assign_pre_def)
      ultimately have "h \<in> set (hlist lay T4 G Ob5)" using p(3) e(4) by (fastforce simp: set_hlist guarded_def)
      then show ?thesis using rc_invD(4) [OF e(2)] by blast
    qed
    moreover have new: "al_contains r (al H5)" if "r \<in> set Ob4 - set Ob" for r using D(11) [of r] that act5 by simp
    moreover have nOb: "space \<notin> set Ob"
    proof -
      have "space \<notin> set L" by (rule new_ok(8) [OF inv p(3) ty fits run])
      then show ?thesis using rc_invD(2) [OF p(1)] by (auto simp: objects_ok_def)
    qed
    ultimately have "space \<in> set Ob5"
      using th c(8) outside_not_active [OF e(2), of space] by (auto simp: handle_ok_def)
    from copied_alive [OF cop e(2) new] this
    have "copied lay ?act H T4 ((set Ob4 - set Ob) \<inter> set Ob5) H5 src ty space" by simp
    then have "copied lay ?act H T4 (set Ob5 - set Ob) H5 src ty space" by (rule copied_mono) (auto simp: same_handle_def)
    moreover have un5: "same_handle H H5 x" if "x \<in> set (hlist lay T G Ob)" "x \<noteq> h" for x by (rule same_handle_trans [OF un [OF that] E(3)])
    moreover have "self_contained lay T4 Ob5 H5" if "self_contained lay T Ob H"
    proof (rule self_contained_step [OF that same_active_trans [OF D(7) E(5)] T4 un5])
      show "inward H5 h" using th new [of space] nOb c(8) by (simp add: inward_def)
      show "inward H5 x" if "r \<in> set Ob5" "r \<notin> set Ob" "x \<in> set (own lay T4 r)" for r x
      proof -
        have "isNullPtr x H4 \<or> getTarget x H4 \<in> shareable ?V (al H) \<union> (set Ob4 - set Ob)"
          using D(12) that E(1) unfolding layered_def by blast
        then show ?thesis using same_handleD [OF E(3) [of x]] new act5 by (auto simp: inward_def shareable_def)
      qed
    qed
    ultimately show ?thesis unfolding assign_outcome_def r using e th T4 d(2) same_active_trans [OF D(7) E(5)]
      by (intro exI [of _ Returns] exI [of _ H5] exI [of _ T4] exI [of _ L5] exI [of _ Ob5] conjI) auto
  next
    case NotEnoughSpace
    show ?thesis
    proof (cases df)
      case True
      obtain H6 L6 Ob6 where u: "andThen (dec_old lay fd (old_target h H) H4) (object_decRefCount lay fd space ty) = Inr H6"
        "rc_inv lay S G X T4 {h} H6 L6 Ob6 P" "shrunk H4 L4 Ob4 H6 L6 Ob6" "set Ob6 \<subseteq> set Ob" "K \<subseteq> set Ob6"
        using undo_first_ok [OF pre subset_refl c(2-5,7,8)] by blast
      have "?run = Inr (NotEnoughSpace, set_offset h (-1) H6)"
        using run d n0 c(1) NotEnoughSpace True u(1) by (simp add: assign_step_def new_heap_def Let_def)
      then show ?thesis using failed [OF u(2-5)] by simp
    next
      case False
      obtain H5 L5 Ob5 where u: "object_decRefCount lay fd space ty H4 = Inr H5" "rc_inv lay S G X T4 {h} H5 L5 Ob5 ?Q"
        "shrunk H4 L4 Ob4 H5 L5 Ob5" "set Ob5 = set Ob" using undo_ok [OF inv p(3) subset_refl c(2-5,7,8) p(4)] by blast
      note E = shrunkD [OF u(3)]
      obtain H6 L6 Ob6 where e: "dec_old lay fd (old_target h H) H5 = Inr H6" "rc_inv lay S G X T4 {h} H6 L6 Ob6 P"
        "shrunk H5 L5 Ob5 H6 L6 Ob6" "K \<subseteq> set Ob6"
        using give_up_old [OF pre u(2) subset_refl subset_refl _ T4 same_active_trans [OF D(7) E(5)] same_handle_trans [OF un E(3)]] u(4) by auto
      have "set Ob4 \<subseteq> set L4" using rc_invD(2) [OF c(2)] by (simp add: objects_ok_def)
      then have sh: "shrunk H4 L4 Ob4 H6 L6 Ob6" by (rule shrunk_trans [OF u(3) e(3)])
      have "?run = Inr (NotEnoughSpace, set_offset h (-1) H6)"
        using run d n0 c(1) NotEnoughSpace False u(1) e(1) by (simp add: assign_step_def new_heap_def Let_def)
      then show ?thesis using failed [OF e(2) sh _ e(4)] shrunkD(1) [OF e(3)] u(4) by simp
    qed
  qed
qed

lemma assignObject_ok:
  assumes pre: "assign_pre lay S G X K fd T H L Ob P h" and v: "(src, ty) \<in> valid X T Ob"
    and fc: "managed_bytes (al H) < fc + length L" and safe: "isNullPtr h H \<or> hType H h = ty \<or> \<not> throwException (myState (al H))"
    and self: "self \<Longrightarrow> al_contains src (al H) \<or> \<not> al_contains h (al H)"
  shows "assign_outcome lay S G X K T H L Ob P h src ty (assignObject fc lay fd df self h src ty (getSizeOfConstituentObject lay ty) H)"
proof -
  have p: "rc_inv lay S G X T {} H L Ob P" using pre by (simp add: assign_pre_def)
  obtain k where k: "fc = Suc k" using fc live_bytes [OF rc_space(1) [OF p]] by (cases fc) auto
  have "type_ok lay ty" using sources_valid [OF p] v by (auto simp: sources_def)
  then have req: "request_ok (REF_COUNT_PREAMBLE_SIZE + getSizeOfConstituentObject lay ty)"
    by (simp add: request_ok_def REF_COUNT_PREAMBLE_SIZE_def type_ok_def)
  note got = getRAM_got [OF rc_space(1,2,4) [OF p] req]
  show ?thesis
  proof (cases "al_contains src (al H) \<or> \<not> al_contains h (al H)")
    case True
    then show ?thesis unfolding k assignObject.simps by (rule assign_shared [OF pre v])
  next
    case False
    show ?thesis
    proof (cases "getRAM (REF_COUNT_PREAMBLE_SIZE + getSizeOfConstituentObject lay ty) (al H)")
      case (Inl e)
      then have "e = Throw ''NotEnoughSpace''" "isNullPtr h H \<or> hType H h = ty" using got safe by (auto simp: got_def)
      then show ?thesis using assign_throws [OF pre] Inl False k by (simp add: assign_step_def)
    next
      case (Inr e)
      obtain space A where e: "e = (space, A)" by (cases e)
      show ?thesis
      proof (cases "space = 0")
        case True
        then show ?thesis using assign_full [OF pre] Inr e False k by simp
      next
        case nz: False
        have "\<not> self" using self False by blast
        then show ?thesis unfolding k using assign_deep [OF pre v _ _ _ Inr [unfolded e] nz, where df = df and fc = k] False fc k by simp
      qed
    qed
  qed
qed

text \<open>Assignment of null, and the destructor of a local handle.\<close>

definition released :: "layouts \<Rightarrow> AllocatorState list \<Rightarrow> nat list \<Rightarrow> (nat \<times> int) set \<Rightarrow> nat set \<Rightarrow> (nat \<Rightarrow> int) \<Rightarrow> object_heap \<Rightarrow>
    nat list \<Rightarrow> nat list \<Rightarrow> nat multiset \<Rightarrow> nat \<Rightarrow> object_heap \<Rightarrow> bool" where
  "released lay S G X K T H L Ob P h H' \<longleftrightarrow> (\<exists>L' Ob'. rc_inv lay S G X T {} H' L' Ob' P \<and> K \<subseteq> set Ob' \<and> set Ob' \<subseteq> set Ob \<and>
     set L' = set L - (set Ob - set Ob') \<and> same_active (al H) (al H') \<and>
     isNullPtr h H' \<and> (\<forall>x. x \<noteq> h \<longrightarrow> same_handle H H' x) \<and> (self_contained lay T Ob H \<longrightarrow> self_contained lay T Ob' H'))"

lemma Handle_assign_null_ok:
  assumes pre: "assign_pre lay S G X K fd T H L Ob P h"
  shows "\<exists>H'. Handle_assign_null lay fd h H = Inr H' \<and> released lay S G X K T H L Ob P h H'"
proof -
  have p: "rc_inv lay S G X T {} H L Ob P" "h \<in> set (hlist lay T G Ob)" "guarded lay T {h} K Ob" using pre by (auto simp: assign_pre_def)
  have inv: "rc_inv lay S G X T {h} H L Ob (P + targets H (set Ob) [h])" using blind_ok [OF p(1,2)] by simp
  obtain H2 L2 Ob2 where d: "dec_old lay fd (old_target h H) H = Inr H2" "rc_inv lay S G X T {h} H2 L2 Ob2 P"
    "shrunk H L Ob H2 L2 Ob2" "K \<subseteq> set Ob2"
    using give_up_old [OF pre inv subset_refl subset_refl subset_refl] by (auto simp: same_active_def same_handle_def)
  note D = shrunkD [OF d(3)]
  let ?H = "set_offset h (-1) H2"
  have "h \<in> set (hlist lay T G Ob2)" using p(2,3) d(4) by (fastforce simp: set_hlist guarded_def)
  then have inv2: "rc_inv lay S G X T {} ?H L2 Ob2 P" by (rule null_ok [OF d(2)])
  have null: "isNullPtr h ?H" by (simp add: isNullPtr_def)
  have un: "same_handle H ?H x" if "x \<noteq> h" for x using D(3) [of x] that by (simp add: same_handle_def)
  have "self_contained lay T Ob2 ?H" if "self_contained lay T Ob H"
    by (rule self_contained_step [OF that _ refl un]) (use D null in \<open>auto simp: inward_def\<close>)
  then show ?thesis unfolding released_def Handle_assign_null_def using d inv2 null un D by auto
qed

lemma drop_local:
  assumes inv: "rc_inv lay S G X T {g} H L Ob P" and g: "g \<in> set G"
  shows "rc_inv lay S (remove1 g G) X T {} H L Ob P"
proof (rule rc_invI)
  note D = rc_invD [OF inv]
  have d: "distinct G" using D(3) by (simp add: outside_ok_def)
  show "space_ok S H L" "objects_ok lay T H L Ob" "set_mset P \<subseteq> set Ob" by (rule D)+
  show "outside_ok lay (remove1 g G) X H" using D(3) d by (auto simp: outside_ok_def)
  have ms: "mset (hlist lay T G Ob) = mset (g # hlist lay T (remove1 g G) Ob)" using g by (simp add: hlist_def)
  then have dist: "distinct (g # hlist lay T (remove1 g G) Ob)" using rc_distinct [OF inv] by (metis mset_eq_imp_distinct_iff)
  then have "filter (\<lambda>h. h \<noteq> g) (hlist lay T (remove1 g G) Ob) = hlist lay T (remove1 g G) Ob" by (auto simp: filter_id_conv)
  moreover have "mset (filter (\<lambda>h. h \<noteq> g) (hlist lay T G Ob)) = mset (filter (\<lambda>h. h \<noteq> g) (g # hlist lay T (remove1 g G) Ob))"
    using ms by (metis mset_filter)
  ultimately have eq: "mset (filter (\<lambda>h. h \<notin> {g}) (hlist lay T G Ob)) = mset (hlist lay T (remove1 g G) Ob)" by simp
  show "handle_ok X T Ob H h" if "h \<in> set (hlist lay T (remove1 g G) Ob) - {}" for h
    using D(4) [of h] that dist set_remove1_subset [of g G] by (auto simp: set_hlist)
  show "numCopies H r = refs H (filter (\<lambda>h. h \<notin> {}) (hlist lay T (remove1 g G) Ob)) r + count P r \<and> 0 < numCopies H r \<and> numCopies H r < 2 ^ 32"
    if "r \<in> set Ob" for r
    using D(6-8) [OF that] refs_mset [OF eq, of H r] by simp
qed

lemma Handle_destroy_ok:
  assumes pre: "assign_pre lay S G X K fd T H L Ob P h" and g: "h \<in> set G"
  shows "\<exists>H' L' Ob'. Handle_destroy lay fd h H = Inr H' \<and> rc_inv lay S (remove1 h G) X T {} H' L' Ob' P \<and> shrunk H L Ob H' L' Ob' \<and> K \<subseteq> set Ob'"
proof -
  have p: "rc_inv lay S G X T {} H L Ob P" "h \<in> set (hlist lay T G Ob)" using pre by (auto simp: assign_pre_def)
  have inv: "rc_inv lay S G X T {h} H L Ob (P + targets H (set Ob) [h])" using blind_ok [OF p(1,2)] by simp
  obtain H2 L2 Ob2 where d: "dec_old lay fd (old_target h H) H = Inr H2" "rc_inv lay S G X T {h} H2 L2 Ob2 P"
    "shrunk H L Ob H2 L2 Ob2" "K \<subseteq> set Ob2"
    using give_up_old [OF pre inv subset_refl subset_refl subset_refl] by (auto simp: same_active_def same_handle_def)
  have "Handle_destroy lay fd h H = dec_old lay fd (old_target h H) H"
  proof (cases "isNullPtr h H")
    case False
    obtain m where m: "isManaged (getTarget h H) (al H) = Inr m"
    proof -
      have "handle_ok X T Ob H h" using rc_invD(4) [OF p] by simp
      then consider "getTarget h H \<in> set Ob" | "(getTarget h H, hType H h) \<in> X" using False by (auto simp: handle_ok_def)
      then show thesis
        using that live_isManaged [OF rc_space(1) [OF p(1)]] objects_okD(2) [OF rc_invD(2) [OF p(1)]]
          foreign_isManaged [OF rc_space(1) [OF p(1)]] rc_invD(3) [OF p(1)] by cases (auto simp: outside_ok_def)
    qed
    have "andThen (object_decRefCount lay fd (getTarget h H) (hType H h) H) (destroyHandles lay fd []) =
        object_decRefCount lay fd (getTarget h H) (hType H h) H"
      by (cases "object_decRefCount lay fd (getTarget h H) (hType H h) H") simp_all
    moreover obtain k where "fd = Suc k" using pre by (cases fd) (auto simp: assign_pre_def)
    ultimately show ?thesis using False m
      by (cases m) (simp_all add: Handle_destroy_def dec_old_def old_target_def)
  qed (simp add: Handle_destroy_def dec_old_def old_target_def)
  then show ?thesis using d drop_local [OF d(2) g] by auto
qed

end
