(* ===== verification/HandleSystem.thy ===== *)
theory HandleSystem
  imports HandleOps
begin

text \<open>
  A thread and its objects: local handles are declared and destroyed, objects made, handles assigned, new allocation
  blocks started. In every state that can be reached by these steps the reference counts are exact and no handle
  dangles.
\<close>

section \<open>What the program can reach\<close>

text \<open>The objects that the local handles \<open>G\<close> lead to along handles that are not in \<open>B\<close>, with their types.\<close>

inductive held :: "layouts \<Rightarrow> nat list \<Rightarrow> object_heap \<Rightarrow> nat set \<Rightarrow> nat \<Rightarrow> int \<Rightarrow> bool" for lay G H B where
  held_local: "g \<in> set G \<Longrightarrow> g \<notin> B \<Longrightarrow> \<not> isNullPtr g H \<Longrightarrow> held lay G H B (getTarget g H) (hType H g)"
| held_field: "held lay G H B r ty \<Longrightarrow> x \<in> set (handles_at lay ty (getObject r)) \<Longrightarrow> x \<notin> B \<Longrightarrow> \<not> isNullPtr x H \<Longrightarrow>
    held lay G H B (getTarget x H) (hType H x)"

text \<open>A handle that may be written: a local one or one in a managed object that is held without it; one that may be read.\<close>

definition writable :: "layouts \<Rightarrow> nat list \<Rightarrow> object_heap \<Rightarrow> nat \<Rightarrow> bool" where
  "writable lay G H h \<longleftrightarrow> h \<in> set G \<or> (\<exists>r ty. held lay G H {h} r ty \<and> h \<in> set (handles_at lay ty (getObject r)) \<and> isManaged r (al H) = Inr True)"

definition readable :: "layouts \<Rightarrow> nat list \<Rightarrow> object_heap \<Rightarrow> nat \<Rightarrow> bool" where
  "readable lay G H s \<longleftrightarrow> s \<in> set G \<or> (\<exists>r ty. held lay G H {} r ty \<and> s \<in> set (handles_at lay ty (getObject r)))"

lemma held_valid:
  assumes inv: "rc_inv lay S G X T {} H L Ob P" and "held lay G H B r ty"
  shows "(r, ty) \<in> valid X T Ob"
  using assms(2)
proof induction
  note D = rc_invD [OF inv]
  {
    case (held_local g)
    have "handle_ok X T Ob H g" using D(4) [of g] held_local(1) by (simp add: set_hlist)
    then show ?case using held_local(3) by (auto simp: handle_ok_def valid_def)
  next
    case (held_field r ty x)
    show ?case
    proof (cases "(r, ty) \<in> X")
      case True
      then show ?thesis using D(3) held_field(2,4) by (fastforce simp: outside_ok_def valid_def)
    next
      case False
      then have r: "r \<in> set Ob" "ty = T r" using held_field(5) by (auto simp: valid_def)
      then have "handle_ok X T Ob H x" using D(4) [of x] held_field(2) own_in_hlist [of r Ob x lay T G] by (simp add: own_def)
      then show ?thesis using held_field(4) by (auto simp: handle_ok_def valid_def)
    qed
  }
qed

definition kept_alive :: "layouts \<Rightarrow> nat list \<Rightarrow> object_heap \<Rightarrow> nat \<Rightarrow> nat list \<Rightarrow> nat set" where
  "kept_alive lay G H h Ob = {r \<in> set Ob. \<exists>ty. held lay G H {h} r ty}"

lemma held_supported:
  assumes inv: "rc_inv lay S G X T {} H L Ob P"
  shows "supported lay G T {h} H P (kept_alive lay G H h Ob)"
  unfolding supported_def
proof (intro ballI disjI2)
  fix r assume "r \<in> kept_alive lay G H h Ob"
  then obtain ty where r: "r \<in> set Ob" "held lay G H {h} r ty" by (auto simp: kept_alive_def)
  have notX: "(r, t) \<notin> X" for t using live_not_outside [OF inv objects_okD(2) [OF rc_invD(2) [OF inv] r(1)]] .
  show "\<exists>x. (x \<in> set G \<or> (\<exists>q \<in> kept_alive lay G H h Ob. x \<in> set (own lay T q))) \<and> x \<notin> {h} \<and> \<not> isNullPtr x H \<and> getTarget x H = r"
    using r(2)
  proof cases
    case (held_local g)
    then show ?thesis by blast
  next
    case (held_field q t x)
    show ?thesis
    proof (cases "(q, t) \<in> X")
      case True
      then have "(r, hType H x) \<in> X" using rc_invD(3) [OF inv] held_field by (fastforce simp: outside_ok_def)
      then show ?thesis using notX by blast
    next
      case False
      then have "q \<in> set Ob" "t = T q" using held_valid [OF inv held_field(3)] by (auto simp: valid_def)
      then show ?thesis using held_field by (intro exI [of _ x]) (auto simp: kept_alive_def own_def)
    qed
  qed
qed

lemma writable_pre:
  assumes inv: "rc_inv lay S G X T {} H L Ob P" and w: "writable lay G H h" and "fits G S (al H) (add_mset h P)" and "managed_bytes (al H) < fd"
  shows "assign_pre lay S G X (kept_alive lay G H h Ob) fd T H L Ob P h"
proof -
  note D = rc_invD [OF inv] and sp = rc_space(1) [OF inv]
  let ?K = "kept_alive lay G H h Ob"
  have "h \<in> set G \<or> (\<exists>q \<in> ?K. h \<in> set (own lay T q))"
  proof (rule disjCI)
    assume "\<not> (\<exists>q \<in> ?K. h \<in> set (own lay T q))"
    moreover have "\<exists>q \<in> ?K. h \<in> set (own lay T q)" if "h \<notin> set G"
    proof -
      obtain r ty where r: "held lay G H {h} r ty" "h \<in> set (handles_at lay ty (getObject r))" "isManaged r (al H) = Inr True"
        using w \<open>h \<notin> set G\<close> by (auto simp: writable_def)
      have "(r, ty) \<notin> X" using foreign_isManaged [OF sp, of r] r(3) D(3) by (force simp: outside_ok_def)
      then have "r \<in> set Ob" "ty = T r" using held_valid [OF inv r(1)] by (auto simp: valid_def)
      then show ?thesis using r by (auto simp: kept_alive_def own_def)
    qed
    ultimately show "h \<in> set G" by blast
  qed
  then have hl: "h \<in> set (hlist lay T G Ob)" and own: "\<And>q. q \<in> set Ob \<Longrightarrow> h \<in> set (own lay T q) \<Longrightarrow> q \<in> ?K"
  proof -
    assume a: "h \<in> set G \<or> (\<exists>q \<in> ?K. h \<in> set (own lay T q))"
    then show "h \<in> set (hlist lay T G Ob)" by (auto simp: set_hlist kept_alive_def)
    fix q assume q: "q \<in> set Ob" "h \<in> set (own lay T q)"
    then have "h \<notin> set G" using own_not_root [OF sp D(2,3)] by blast
    then obtain q' where "q' \<in> ?K" "h \<in> set (own lay T q')" using a by blast
    then show "q \<in> ?K" using own_disjoint [OF sp D(2) q(1), of q'] q(2) by (auto simp: kept_alive_def)
  qed
  have "guarded lay T {h} ?K Ob" using own by (auto simp: guarded_def kept_alive_def)
  then show ?thesis using inv hl assms(3,4) held_supported [OF inv] by (simp add: assign_pre_def)
qed

lemma readable_valid:
  assumes inv: "rc_inv lay S G X T {} H L Ob P" and "readable lay G H s" and "\<not> isNullPtr s H"
  shows "(getTarget s H, hType H s) \<in> valid X T Ob"
proof -
  from assms(2) consider "s \<in> set G" | r ty where "held lay G H {} r ty" "s \<in> set (handles_at lay ty (getObject r))"
    by (auto simp: readable_def)
  then have "held lay G H {} (getTarget s H) (hType H s)" using assms(3) by cases (auto intro: held.intros)
  then show ?thesis by (rule held_valid [OF inv])
qed

section \<open>Declaring a handle, making an object, starting a block\<close>

definition free_place :: "layouts \<Rightarrow> (nat \<times> int) set \<Rightarrow> nat list \<Rightarrow> allocator \<Rightarrow> nat \<Rightarrow> bool" where
  "free_place lay X G A h \<longleftrightarrow> h \<notin> set G \<and> unmanaged h A \<and>
     (\<forall>e \<in> X. h \<noteq> Suc (fst e) \<and> h \<notin> set (handles_at lay (snd e) (getObject (fst e))))"

lemma add_local:
  assumes inv: "rc_inv lay S G X T {} H L Ob P" and h: "free_place lay X G (al H) h"
  shows "rc_inv lay S (h # G) X T {h} H L Ob P"
proof (rule rc_invI)
  note D = rc_invD [OF inv]
  show "space_ok S H L" "objects_ok lay T H L Ob" "set_mset P \<subseteq> set Ob" by (rule D)+
  show "outside_ok lay (h # G) X H" using D(3) h by (fastforce simp: outside_ok_def free_place_def)
  have hl: "hlist lay T (h # G) Ob = h # hlist lay T G Ob" by (simp add: hlist_def)
  have "h \<notin> set (hlist lay T G Ob)" using hlist_not_outside [OF inv] h by (auto simp: free_place_def)
  then have "filter (\<lambda>x. x \<noteq> h) (hlist lay T G Ob) = hlist lay T G Ob" by (auto simp: filter_id_conv)
  then have eq: "filter (\<lambda>x. x \<notin> {h}) (hlist lay T (h # G) Ob) = hlist lay T G Ob" by (simp add: hl)
  show "handle_ok X T Ob H x" if "x \<in> set (hlist lay T (h # G) Ob) - {h}" for x using D(4) [of x] that by (simp add: hl)
  show "numCopies H r = refs H (filter (\<lambda>x. x \<notin> {h}) (hlist lay T (h # G) Ob)) r + count P r \<and> 0 < numCopies H r \<and> numCopies H r < 2 ^ 32"
    if "r \<in> set Ob" for r using D(6-8) [OF that] unfolding eq by simp
qed

lemma Handle_new_ok:
  assumes inv: "rc_inv lay S G X T {} H L Ob P" and h: "free_place lay X G (al H) h"
  shows "rc_inv lay S (h # G) X T {} (Handle_new static h H) L Ob P"
proof -
  let ?H = "set_type h static H"
  have "rc_inv lay S (h # G) X T {h} ?H L Ob P" by (rule rc_inv_cong [OF add_local [OF inv h]]) auto
  from null_ok [OF this] show ?thesis by (simp add: Handle_new_def hlist_def)
qed

lemma construct_type:
  assumes "x \<in> set (handles_at lay ty obj)"
  shows "hType (construct lay ty obj H) x = hType (construct lay ty obj H') x"
proof -
  have "x \<in> (\<lambda>(f, _). obj + f) ` set fs \<or> hType H x = hType H' x \<Longrightarrow>
      hType (fold (\<lambda>(f, fty) H. set_type (obj + f) fty (set_offset (obj + f) (-1) H)) fs H) x =
      hType (fold (\<lambda>(f, fty) H. set_type (obj + f) fty (set_offset (obj + f) (-1) H)) fs H') x" for fs :: "(nat \<times> int) list"
  proof (induction fs arbitrary: H H')
    case (Cons a fs)
    obtain f fty where a: "a = (f, fty)" by (cases a)
    show ?case unfolding a fold_simps comp_def prod.case by (rule Cons.IH) (use Cons.prems a in auto)
  qed simp
  then show ?thesis using assms by (simp add: construct_def handles_at_def)
qed

lemma Handle_new_contained:
  assumes inv: "rc_inv lay S G X T {} H L Ob P" and h: "free_place lay X G (al H) h" and sc: "self_contained lay T Ob H"
  shows "self_contained lay T Ob (Handle_new static h H)"
proof (rule self_contained_step [OF sc _ refl, where G = G and h = h])
  show "same_handle H (Handle_new static h H) x" if "x \<noteq> h" for x using that by (simp add: Handle_new_def same_handle_def)
qed (auto simp: Handle_new_def same_active_def inward_def isNullPtr_def)

definition default_ctor :: "layouts \<Rightarrow> int \<Rightarrow> nat \<Rightarrow> nat \<Rightarrow> object_heap \<Rightarrow> (flow \<times> object_heap) result" where
  "default_ctor lay ty v obj H = Inr (Returns, (construct lay ty obj H)\<lparr>prims := (prims H)(obj := v)\<rparr>)"

text \<open>A new object and the first handle that refers to it: \<^verbatim>\<open>Handle<T> h = makeObject<T>(...)\<close>.\<close>

lemma make_ok:
  assumes inv: "rc_inv lay S G X T {} H L Ob P" and h: "free_place lay X G (al H) h" and ty: "type_ok lay ty" and fits: "fits G S (al H) (add_mset h P)"
    and run: "makeObject lay ty (default_ctor lay ty v) H = Inr (Returns, r, H1)" "Handle_from_object (Suc fc) lay fd ty h r H1 = Inr (fl, H2)"
  shows "\<exists>T' L' Ob'. rc_inv lay S (h # G) X T' {} H2 L' Ob' P \<and> (self_contained lay T Ob H \<longrightarrow> self_contained lay T' Ob' H2) \<and>
    (r \<noteq> 0 \<longrightarrow> fl = Returns \<and> \<not> isNullPtr h H2 \<and> getTarget h H2 = r \<and> hType H2 h = ty \<and> numCopies H2 r = 1 \<and> prims H2 (getObject r) = v \<and>
      r \<in> set Ob' \<and> r \<notin> set L \<and> al_contains r (al H2))"
proof -
  have req: "request_ok (REF_COUNT_PREAMBLE_SIZE + getSizeOfConstituentObject lay ty)"
    using ty by (simp add: request_ok_def REF_COUNT_PREAMBLE_SIZE_def type_ok_def)
  have size: "getSizeOfConstituentObject lay ty + REF_COUNT_PREAMBLE_SIZE = REF_COUNT_PREAMBLE_SIZE + getSizeOfConstituentObject lay ty" by simp
  note got = getRAM_got [OF rc_space(1,2,4) [OF inv] req]
  obtain r' A where g: "getRAM (REF_COUNT_PREAMBLE_SIZE + getSizeOfConstituentObject lay ty) (al H) = Inr (r', A)"
    using run(1) by (auto simp: makeObject_def makeObjectWithExtraStorage_def size split: sum.splits pc_error.splits)
  have r': "r' = r" "r = 0 \<Longrightarrow> H1 = H\<lparr>al := A\<rparr>"
    using run(1) g by (auto simp: makeObject_def makeObjectWithExtraStorage_def size default_ctor_def setRefCount_def res_simps split: if_splits)
  have inv': "rc_inv lay S (h # G) X T {h} H L Ob P" by (rule add_local [OF inv h])
  show ?thesis
  proof (cases "r = 0")
    case True
    then have "A = al H" using got g r' by (simp add: got_def)
    then have "H2 = Handle_new ty h H" using True r' run(2) by (simp add: Handle_from_object_def Handle_new_def)
    then show ?thesis using Handle_new_ok [OF inv h, of ty] Handle_new_contained [OF inv h, of ty] True by (intro exI conjI) auto
  next
    case False
    let ?N = "new_heap lay h 0 ty r A H"
    have hl: "h \<in> set (hlist lay T (h # G) Ob)" by (simp add: hlist_def)
    have fits': "fits (h # G) S (al H) P" using fits by (simp add: fits_def)
    note n0 = new_ok [OF inv' hl ty fits' g [unfolded r'] False]
    note n = n0(1) [of 0] n0(2,3) n0(4,5,6) [of 0] n0(7) [where src = 0] n0(8,9)
    have hn: "h \<notin> set (handles_at lay ty (getObject r))" using n(7) [of h] n(4) by blast
    have act: "al_contains r A" using n(9) got g r' False by (auto simp: got_def same_blocks_def contains_active)
    have H1: "H1 = (construct lay ty (getObject r) (H\<lparr>al := A\<rparr>))\<lparr>prims := (prims H)(getObject r := v), numCopies := (numCopies H)(r := 0)\<rparr>"
      using run(1) g r' False act
      by (simp add: makeObject_def makeObjectWithExtraStorage_def size default_ctor_def setRefCount_def isManaged_def construct_sel)
    define H0 where "H0 = point_to h r (set_type h ty (set_offset h (-1) H1))"
    have H2: "fl = Returns" "H2 = H0\<lparr>numCopies := (numCopies H0)(r := 1)\<rparr>"
      using run(2) False act by (auto simp: Handle_from_object_def assign_step_def old_target_def isNullPtr_def dec_old_def H1
        construct_sel object_incRefCount_def isManaged_def H0_def)
    have teq: "hType H2 x = hType ?N x" for x
    proof (cases "x \<in> set (handles_at lay ty (getObject r))")
      case True
      then show ?thesis using hn by (auto simp: H2 H0_def H1 new_heap_def Let_def intro!: construct_type)
    qed (simp add: H2 H0_def H1 construct_sel new_heap_sel)
    have eq: "hOffset H2 x = hOffset ?N x" "hType H2 x = hType ?N x" "al H2 = al ?N" "numCopies H2 = numCopies ?N" for x
      using hn teq by (auto simp: H2 H0_def H1 construct_sel new_heap_sel)
    have "rc_inv lay S (h # G) X (T(r := ty)) {} H2 (r # L) (r # Ob) P" by (rule rc_inv_cong [OF n(1)]) (simp_all add: eq)
    moreover have same: "isNullPtr x H2 = isNullPtr x ?N" "getTarget x H2 = getTarget x ?N" for x by (simp_all add: isNullPtr_def getTarget_def eq)
    moreover have "self_contained lay (T(r := ty)) (r # Ob) H2" if "self_contained lay T Ob H"
    proof (rule self_contained_step [OF that _ _ , where G = G and h = h])
      show "same_active (al H) (al H2)" using got g r' False by (simp add: eq new_heap_sel got_def same_active_def same_blocks_def)
      have nOb: "r \<notin> set Ob" using n(8) rc_invD(2) [OF inv] by (auto simp: objects_ok_def)
      then show "(T(r := ty)) q = T q" if "q \<in> set Ob" for q using that by auto
      show "inward H2 x" if "q \<in> set (r # Ob)" "q \<notin> set Ob" "x \<in> set (own lay (T(r := ty)) q)" for q x
        using that n(7) [of x] same by (simp add: own_def inward_def)
      show "same_handle H H2 x" if "x \<in> set (hlist lay T G Ob)" "x \<noteq> h" for x
      proof -
        have "map (own lay (T(r := ty))) Ob = map (own lay T) Ob" using nOb by (auto simp: own_def)
        moreover have "own lay (T(r := ty)) r = handles_at lay ty (getObject r)" by (simp add: own_def)
        ultimately have "x \<notin> set (handles_at lay ty (getObject r))" using rc_distinct [OF n(1)] that(1) by (auto simp: hlist_def)
        then show ?thesis using that(2) by (simp add: same_handle_def eq new_heap_sel)
      qed
    qed (use n(4,5) act same in \<open>auto simp: inward_def eq new_heap_sel\<close>)
    moreover have "prims H2 (getObject r) = v" by (simp add: H2 H0_def H1)
    moreover have "numCopies H2 r = 1" by (simp add: eq new_heap_sel)
    moreover have "hType H2 h = ty" using n(6) by (simp add: eq)
    moreover have "al_contains r (al H2)" using act by (simp add: eq new_heap_sel)
    ultimately show ?thesis using n(4,5,8) H2(1)
      by (intro exI [of _ "T(r := ty)"] exI [of _ "r # L"] exI [of _ "r # Ob"] conjI) auto
  qed
qed

text \<open>A new block in memory that nothing uses; the objects in the old one stay.\<close>

definition clear_memory :: "layouts \<Rightarrow> (nat \<times> int) set \<Rightarrow> nat list \<Rightarrow> nat \<Rightarrow> nat \<Rightarrow> bool" where
  "clear_memory lay X G p n \<longleftrightarrow> (\<forall>x \<in> set G. x < p \<or> p + n \<le> x) \<and>
     (\<forall>e \<in> X. (fst e < p \<or> p + n < fst e) \<and> (\<forall>x \<in> set (handles_at lay (snd e) (getObject (fst e))). x < p \<or> p + n \<le> x))"

lemma new_block_ok:
  assumes inv: "rc_inv lay S G X T {} H L Ob P" and fr: "fresh p n (al H)" "p \<noteq> activeRAM (myState (al H))" "\<not> curBlockUserSupplied (myState (al H))"
    and cl: "clear_memory lay X G p n" and run: "makeObjectAllocatorBlock p n t (al H) = Inr A'"
  shows "rc_inv lay S G X T {} (H\<lparr>al := A'\<rparr>) L Ob P" and "self_contained lay T Ob (H\<lparr>al := A'\<rparr>)"
proof -
  note D = rc_invD [OF inv] and sp = rc_space [OF inv]
  let ?H = "H\<lparr>al := A'\<rparr>" and ?b = "\<lparr>b_start = p, b_end = p + n\<rparr>"
  have "20 \<le> n" using run setup_large(2) by (auto simp: makeObjectAllocatorBlock_def)
  from setupMalloc_ok [OF sp(1) fr(1) this fr(2), of t]
  have sw: "switched p n (al H) L S A'" using run by (simp add: makeObjectAllocatorBlock_def)
  have s: "al_inv A' L S" "active_block (myState A') = ?b" "myPolicies A' = myPolicies (al H)"
    "set (allInactives A') \<subseteq> set (managed (al H))" "chunkSize (ram A') = chunkSize (ram (al H))"
    using sw fr(3) by (auto simp: switched_def)
  have man: "set (managed A') \<subseteq> insert ?b (set (managed (al H)))" using s(2,4) by (auto simp: managed_def)
  have un: "unmanaged x A'" if "unmanaged x (al H)" "x < p \<or> p + n \<le> x" for x
    using that man by (auto simp: unmanaged_def in_block_def)
  have fo: "foreign x A'" if "foreign x (al H)" "x < p \<or> p + n < x" for x using that man by (auto simp: foreign_def)
  have same: "isNullPtr h ?H = isNullPtr h H" "getTarget h ?H = getTarget h H" for h by (simp_all add: isNullPtr_def getTarget_def)
  have rf: "refs ?H hs q = refs H hs q" for hs q by (rule refs_cong) simp
  show "rc_inv lay S G X T {} ?H L Ob P"
  proof (rule rc_invI)
    show "space_ok S ?H L" using s sp by (simp add: space_ok_def policies_ok_def counting_def)
    show "objects_ok lay T ?H L Ob" using D(2) s(5) by (simp add: objects_ok_def usable_def)
    show "outside_ok lay G X ?H" using D(3) cl un fo unfolding outside_ok_def clear_memory_def same by (auto simp: same)
    show "handle_ok X T Ob ?H x" if "x \<in> set (hlist lay T G Ob) - {}" for x using D(4) [of x] that by (simp add: handle_ok_def same)
    show "numCopies ?H r = refs ?H (filter (\<lambda>h. h \<notin> {}) (hlist lay T G Ob)) r + count P r \<and> 0 < numCopies ?H r \<and> numCopies ?H r < 2 ^ 32"
      if "r \<in> set Ob" for r using D(6-8) [OF that] by (simp add: rf)
  qed (rule D(5))
  have "\<not> al_contains r A'" if r: "r \<in> set Ob" for r
  proof -
    obtain b where b: "b \<in> set (managed (al H))" "b_start b + 24 \<le> r" "r + usable (al H) r \<le> b_end b" "4 \<le> usable (al H) r"
      using live_object_inside [OF sp(1) objects_okD(2) [OF D(2) r]] by blast
    then have "apart_blocks ?b b" using fr(1,3) by (simp add: fresh_def clear_of_def)
    then show ?thesis using b s(2) by (auto simp: apart_blocks_def contains_active in_block_def)
  qed
  then show "self_contained lay T Ob ?H" by (auto simp: self_contained_def)
qed

section \<open>A thread\<close>

type_synonym hp_sys = "object_heap \<times> nat list"

text \<open>
  Less than 4 GB of managed memory (so that no count overflows) and enough fuel; and the condition under which a
  failing request leaves the handle consistent: where a request may throw, a handle that is not null is assigned only
  null or a handle of its own type (otherwise \<^verbatim>\<open>operator=\<close> has overwritten the type when the exception leaves it, see
  \<open>failed_assignment_changes_type\<close>).
\<close>

definition enough :: "nat list \<Rightarrow> allocator \<Rightarrow> nat \<Rightarrow> nat \<Rightarrow> bool" where
  "enough G A fd h \<longleftrightarrow> fits G [] A {#h#} \<and> managed_bytes A < fd"

definition same_type :: "nat \<Rightarrow> nat \<Rightarrow> object_heap \<Rightarrow> bool" where
  "same_type h s H \<longleftrightarrow> isNullPtr s H \<or> isNullPtr h H \<or> hType H h = hType H s \<or> \<not> throwException (myState (al H))"

text \<open>
  What a thread does with its handles and objects: it declares a local handle, copy-constructs one from a handle it can
  read, destroys one, assigns a handle it can read or null to one it can write, makes an object (which may fail for want
  of memory) and starts a new allocation block. A handle that is a parameter or a result is a local one that is
  declared, copied and destroyed. Not among the steps, and hence not covered by what is shown of the reachable states,
  are the temporary and the user-supplied blocks and their restoration, \<^verbatim>\<open>getHandle\<close>, \<^verbatim>\<open>getRootObject\<close>, \<^verbatim>\<open>unsafeCast\<close>,
  \<^verbatim>\<open>shallowCopyToCurrentAllocationBlock\<close>, \<^verbatim>\<open>emptyOutContainingBlock\<close> and the assignments that \<open>same_type\<close> excludes: several of them break
  the counts or lead out of the block.
\<close>

inductive hp_step :: "layouts \<Rightarrow> (nat \<times> int) set \<Rightarrow> hp_sys \<Rightarrow> hp_sys \<Rightarrow> bool" for lay X where
  hs_declare: "free_place lay X G (al H) h \<Longrightarrow> hp_step lay X (H, G) (Handle_new static h H, h # G)"
| hs_destroy: "h \<in> set G \<Longrightarrow> enough G (al H) fd h \<Longrightarrow> Handle_destroy lay fd h H = Inr H' \<Longrightarrow>
    hp_step lay X (H, G) (H', remove1 h G)"
| hs_assign: "writable lay G H h \<Longrightarrow> readable lay G H s \<Longrightarrow> enough G (al H) fd h \<Longrightarrow> managed_bytes (al H) < fc \<Longrightarrow>
    same_type h s H \<Longrightarrow> Handle_assign fc lay fd h s H = Inr (fl, H') \<Longrightarrow> hp_step lay X (H, G) (H', G)"
| hs_copy: "free_place lay X G (al H) h \<Longrightarrow> readable lay G H s \<Longrightarrow> enough (h # G) (al H) fd h \<Longrightarrow> managed_bytes (al H) < fc \<Longrightarrow>
    Handle_copy fc lay fd h s H = Inr (fl, H') \<Longrightarrow> hp_step lay X (H, G) (H', h # G)"
| hs_null: "writable lay G H h \<Longrightarrow> enough G (al H) fd h \<Longrightarrow> Handle_assign_null lay fd h H = Inr H' \<Longrightarrow>
    hp_step lay X (H, G) (H', G)"
| hs_make: "free_place lay X G (al H) h \<Longrightarrow> type_ok lay ty \<Longrightarrow> enough G (al H) fd h \<Longrightarrow>
    makeObject lay ty (default_ctor lay ty v) H = Inr (Returns, r, H1) \<Longrightarrow>
    Handle_from_object (Suc fc) lay fd ty h r H1 = Inr (fl, H') \<Longrightarrow> hp_step lay X (H, G) (H', h # G)"
| hs_make_full: "makeObject lay ty (default_ctor lay ty v) H = Inr (NotEnoughSpace, r, H') \<Longrightarrow> hp_step lay X (H, G) (H', G)"
| hs_block: "fresh p n (al H) \<Longrightarrow> p \<noteq> activeRAM (myState (al H)) \<Longrightarrow> \<not> curBlockUserSupplied (myState (al H)) \<Longrightarrow>
    clear_memory lay X G p n \<Longrightarrow> makeObjectAllocatorBlock p n t (al H) = Inr A \<Longrightarrow> hp_step lay X (H, G) (H\<lparr>al := A\<rparr>, G)"

inductive hp_reachable :: "layouts \<Rightarrow> (nat \<times> int) set \<Rightarrow> hp_sys \<Rightarrow> bool" for lay X where
  hp_start: "mallocs m = [] \<Longrightarrow> p + n \<le> 2 ^ 63 \<Longrightarrow> Allocator_new m p n = Inr (al H) \<Longrightarrow> outside_ok lay [] X H \<Longrightarrow> hp_reachable lay X (H, [])"
| hp_more: "hp_reachable lay X s \<Longrightarrow> hp_step lay X s s' \<Longrightarrow> hp_reachable lay X s'"

definition hp_ok :: "layouts \<Rightarrow> (nat \<times> int) set \<Rightarrow> hp_sys \<Rightarrow> bool" where
  "hp_ok lay X s \<longleftrightarrow> (case s of (H, G) \<Rightarrow> \<exists>T L Ob. rc_inv lay [] G X T {} H L Ob {#} \<and> self_contained lay T Ob H)"

lemma Handle_assign_null_source:
  assumes "isNullPtr s H"
  shows "Handle_assign fc lay fd h s H = andThen (Handle_assign_null lay fd h H) (\<lambda>H'. Inr (Returns, H'))"
  using assms by (cases "dec_old lay fd (old_target h H) H") (simp_all add: Handle_assign_def assignHandle_with_def Handle_assign_null_def)

lemma Handle_assign_source:
  "\<not> isNullPtr s H \<Longrightarrow> Handle_assign fc lay fd h s H =
     assignObject fc lay fd False (s = h) h (getTarget s H) (hType H s) (getSizeOfConstituentObject lay (hType H s)) H"
  by (simp add: Handle_assign_def assignHandle_with_def)

lemma Handle_assign_ok:
  assumes inv: "rc_inv lay [] G X T {} H L Ob {#}" and w: "writable lay G H h" and r: "readable lay G H s"
    and e: "enough G (al H) fd h" "managed_bytes (al H) < fc" and st: "same_type h s H" and s: "\<not> isNullPtr s H" and sc: "self_contained lay T Ob H"
  shows "assign_outcome lay [] G X (kept_alive lay G H h Ob) T H L Ob {#} h (getTarget s H) (hType H s) (Handle_assign fc lay fd h s H)"
  unfolding Handle_assign_source [OF s]
proof (rule assignObject_ok)
  show pre: "assign_pre lay [] G X (kept_alive lay G H h Ob) fd T H L Ob {#} h" by (rule writable_pre [OF inv w]) (use e in \<open>auto simp: enough_def\<close>)
  show "al_contains (getTarget s H) (al H) \<or> \<not> al_contains h (al H)" if "s = h"
  proof (rule disjCI)
    assume "\<not> \<not> al_contains h (al H)"
    then have act: "al_contains h (al H)" by simp
    then have "h \<notin> set G" using rc_invD(3) [OF inv] by (auto simp: outside_ok_def unmanaged_def contains_active)
    then obtain q where q: "q \<in> set Ob" "h \<in> set (own lay T q)" using pre by (auto simp: assign_pre_def set_hlist)
    obtain b where b: "b \<in> set (managed (al H))" "in_block b h" "in_block b q"
      using own_inside(3) [OF rc_space(1) [OF inv] rc_invD(2) [OF inv] q] by blast
    then have "al_contains q (al H)"
      using block_unique [OF al_invD(1) [OF rc_space(1) [OF inv]] active_managed b(1)] act by (auto simp: contains_active)
    then show "al_contains (getTarget s H) (al H)" using sc q s that by (auto simp: self_contained_def inward_def)
  qed
  show "(getTarget s H, hType H s) \<in> valid X T Ob" by (rule readable_valid [OF inv r s])
qed (use e(2) st s in \<open>auto simp: same_type_def\<close>)

lemma hp_null:
  assumes inv: "rc_inv lay [] G X T {} H L Ob {#}" and w: "writable lay G H h" and e: "enough G (al H) fd h"
  shows "\<exists>H'. Handle_assign_null lay fd h H = Inr H' \<and> released lay [] G X (kept_alive lay G H h Ob) T H L Ob {#} h H'"
  by (rule Handle_assign_null_ok, rule writable_pre [OF inv w]) (use e in \<open>auto simp: enough_def\<close>)

lemma hp_destroy:
  assumes inv: "rc_inv lay [] G X T {} H L Ob {#}" and h: "h \<in> set G" and e: "enough G (al H) fd h"
  shows "\<exists>H' L' Ob'. Handle_destroy lay fd h H = Inr H' \<and> rc_inv lay [] (remove1 h G) X T {} H' L' Ob' {#} \<and> shrunk H L Ob H' L' Ob' \<and>
    kept_alive lay G H h Ob \<subseteq> set Ob'"
proof (rule Handle_destroy_ok [OF _ h])
  have "writable lay G H h" using h by (simp add: writable_def)
  then show "assign_pre lay [] G X (kept_alive lay G H h Ob) fd T H L Ob {#} h" by (rule writable_pre [OF inv]) (use e in \<open>auto simp: enough_def\<close>)
qed

lemma hp_assign:
  assumes inv: "rc_inv lay [] G X T {} H L Ob {#}" and sc: "self_contained lay T Ob H" and w: "writable lay G H h" and r: "readable lay G H s"
    and e: "enough G (al H) fd h" "managed_bytes (al H) < fc" and st: "same_type h s H" and run: "Handle_assign fc lay fd h s H = Inr (fl, H')"
  shows "hp_ok lay X (H', G)"
proof (cases "isNullPtr s H")
  case True
  then have "released lay [] G X (kept_alive lay G H h Ob) T H L Ob {#} h H'"
    using hp_null [OF inv w e(1)] run by (auto simp: Handle_assign_null_source)
  then show ?thesis using sc by (auto simp: released_def hp_ok_def)
next
  case False
  from Handle_assign_ok [OF inv w r e st False sc] show ?thesis using run sc by (auto simp: assign_outcome_def hp_ok_def)
qed

text \<open>The copy constructor of a local handle declares it and assigns to it.\<close>

lemma Handle_copy_assign: "s \<noteq> h \<Longrightarrow> Handle_copy fc lay fd h s H = Handle_assign fc lay fd h s (Handle_new 0 h H)"
  by (cases fc) (simp_all add: Handle_copy_def Handle_assign_def assignHandle_with_def Handle_new_def isNullPtr_def getTarget_def
      old_target_def dec_old_def assign_step_def set_offset_def set_type_def)

lemma readable_not_free:
  assumes inv: "rc_inv lay S G X T {} H L Ob P" and h: "free_place lay X G (al H) h"
  shows "held lay G H {} r ty \<Longrightarrow> h \<notin> set (handles_at lay ty (getObject r))" and "readable lay G H s \<Longrightarrow> s \<noteq> h"
proof -
  show *: "h \<notin> set (handles_at lay ty (getObject r))" if "held lay G H {} r ty" for r ty
  proof (cases "(r, ty) \<in> X")
    case True
    then show ?thesis using h by (force simp: free_place_def)
  next
    case False
    then have "r \<in> set Ob" "ty = T r" using held_valid [OF inv that] by (auto simp: valid_def)
    then show ?thesis using hlist_not_outside [OF inv] h own_in_hlist [of r Ob h lay T G] by (auto simp: free_place_def own_def)
  qed
  show "readable lay G H s \<Longrightarrow> s \<noteq> h" using * h by (auto simp: readable_def free_place_def)
qed

lemma Handle_new_readable:
  assumes inv: "rc_inv lay S G X T {} H L Ob P" and h: "free_place lay X G (al H) h" and "readable lay G H s"
  shows "readable lay (h # G) (Handle_new ty0 h H) s"
proof -
  have same: "isNullPtr x (Handle_new ty0 h H) = isNullPtr x H" "getTarget x (Handle_new ty0 h H) = getTarget x H"
    "hType (Handle_new ty0 h H) x = hType H x" if "x \<noteq> h" for x
    using that by (simp_all add: Handle_new_def isNullPtr_def getTarget_def)
  have "held lay (h # G) (Handle_new ty0 h H) {} r ty" if "held lay G H {} r ty" for r ty
    using that
  proof induction
    case (held_local g)
    then have "g \<noteq> h" using h by (auto simp: free_place_def)
    then show ?case using held.held_local [of g "h # G"] held_local same by fastforce
  next
    case (held_field r ty x)
    then have "x \<noteq> h" using readable_not_free(1) [OF inv h held_field(1)] by auto
    then show ?case using held.held_field [OF held_field(5,2)] held_field(4) same by fastforce
  qed
  then show ?thesis using assms(3) by (auto simp: readable_def)
qed

lemma hp_step_ok:
  assumes "hp_step lay X s s'" and "hp_ok lay X s"
  shows "hp_ok lay X s'"
  using assms
proof induction
  case (hs_declare G H h static)
  then obtain T L Ob where i: "rc_inv lay [] G X T {} H L Ob {#}" "self_contained lay T Ob H" by (auto simp: hp_ok_def)
  note Handle_new_ok [OF i(1) hs_declare(1), of static] Handle_new_contained [OF i(1) hs_declare(1) i(2), of static]
  then show ?case by (auto simp: hp_ok_def)
next
  case (hs_destroy h G H fd H')
  then obtain T L Ob where i: "rc_inv lay [] G X T {} H L Ob {#}" "self_contained lay T Ob H" by (auto simp: hp_ok_def)
  obtain L' Ob' where d: "rc_inv lay [] (remove1 h G) X T {} H' L' Ob' {#}" "shrunk H L Ob H' L' Ob'"
    using hp_destroy [OF i(1) hs_destroy(1,2)] hs_destroy(3) by auto
  have "self_contained lay T Ob' H'"
    using i(2) shrunkD(1) [OF d(2)] contains_same [OF shrunkD(5) [OF d(2)]] same_handleD [OF shrunkD(3) [OF d(2)]]
    by (auto simp: self_contained_def inward_def)
  then show ?case using d(1) by (auto simp: hp_ok_def)
next
  case (hs_assign G H h s fd fc fl H')
  then obtain T L Ob where i: "rc_inv lay [] G X T {} H L Ob {#}" "self_contained lay T Ob H" by (auto simp: hp_ok_def)
  show ?case by (rule hp_assign [OF i hs_assign(1-6)])
next
  case (hs_copy G H h s fd fc fl H')
  then obtain T L Ob where i: "rc_inv lay [] G X T {} H L Ob {#}" "self_contained lay T Ob H" by (auto simp: hp_ok_def)
  let ?H = "Handle_new 0 h H"
  note new = Handle_new_ok [OF i(1) hs_copy(1), of 0] Handle_new_contained [OF i(1) hs_copy(1) i(2), of 0]
  have al: "al ?H = al H" "isNullPtr h ?H" by (simp_all add: Handle_new_def isNullPtr_def)
  have "Handle_assign fc lay fd h s ?H = Inr (fl, H')"
    using hs_copy(5) Handle_copy_assign [OF readable_not_free(2) [OF i(1) hs_copy(1,2)]] by simp
  then show ?case
    by (intro hp_assign [OF new, where h = h]) (use hs_copy(3,4) al Handle_new_readable [OF i(1) hs_copy(1,2)]
        in \<open>simp_all add: writable_def same_type_def\<close>)
next
  case (hs_null G H h fd H')
  then obtain T L Ob where i: "rc_inv lay [] G X T {} H L Ob {#}" "self_contained lay T Ob H" by (auto simp: hp_ok_def)
  have "released lay [] G X (kept_alive lay G H h Ob) T H L Ob {#} h H'" using hp_null [OF i(1) hs_null(1,2)] hs_null(3) by auto
  then show ?case using i(2) by (auto simp: released_def hp_ok_def)
next
  case (hs_make G H h ty fd v r H1 fc fl H')
  then obtain T L Ob where i: "rc_inv lay [] G X T {} H L Ob {#}" "self_contained lay T Ob H" by (auto simp: hp_ok_def)
  have "fits G [] (al H) {#h#}" using hs_make(3) by (simp add: enough_def)
  from make_ok [OF i(1) hs_make(1,2) this hs_make(4,5)] show ?case using i(2) by (auto simp: hp_ok_def)
next
  case (hs_make_full ty v H r H' G)
  have "H' = H" using hs_make_full(1)
    by (auto simp: makeObject_def makeObjectWithExtraStorage_def default_ctor_def res_simps split: sum.splits pc_error.splits if_splits)
  then show ?case using hs_make_full(2) by simp
next
  case (hs_block p n H G t A)
  then obtain T L Ob where i: "rc_inv lay [] G X T {} H L Ob {#}" by (auto simp: hp_ok_def)
  show ?case using new_block_ok [OF i hs_block(1-5)] by (auto simp: hp_ok_def)
qed

lemma Allocator_new_policies: "Allocator_new m p n = Inr A \<Longrightarrow> myPolicies A = setPolicy defaultAllocator Allocator_policies"
  by (auto simp: Allocator_new_def setupMallocBlock_def setupBlock_def Let_def clear_chunks_def
      mallocAt_def upd_ram_def al_setPolicy_def res_simps split: if_splits)

lemma hp_reachable_ok: "hp_reachable lay X s \<Longrightarrow> hp_ok lay X s"
proof (induction rule: hp_reachable.induct)
  case (hp_start m p n H)
  have al: "al_inv (al H) [] []" "policies_ok (al H)" using Allocator_new_ok [OF hp_start(1-3)] by (auto simp: al_ok_def)
  have "counting (al H)" using Allocator_new_policies [OF hp_start(3)] by (simp add: counting_def Allocator_policies_def)
  then have "space_ok [] H []" using al by (simp add: space_ok_def al_room_def)
  then have "rc_inv lay [] [] X T {} H [] [] {#}" for T
    using hp_start(4) by (simp add: rc_inv_def objects_ok_def hlist_def)
  then show ?case by (force simp: hp_ok_def self_contained_def)
qed (rule hp_step_ok)

end
