(* ===== verification/HandleProps.thy ===== *)
theory HandleProps
  imports HandleSystem
begin

text \<open>
  The properties of the object model: exact reference counts, calls that return, faithful deep copies, failures that
  leave nothing behind, and the self-contained active block; and a small heap on which each of them is applied.
\<close>

section \<open>Properties\<close>

lemma reachable_inv:
  assumes "hp_reachable lay X (H, G)"
  obtains T L Ob where "rc_inv lay [] G X T {} H L Ob {#}" and "self_contained lay T Ob H"
  using hp_reachable_ok [OF assms] by (auto simp: hp_ok_def)

lemma held_managed:
  assumes inv: "rc_inv lay S G X T {} H L Ob P" and "held lay G H B r ty" and "isManaged r (al H) = Inr True"
  shows "r \<in> set Ob" and "ty = T r"
proof -
  have "(r, ty) \<notin> X" using foreign_isManaged [OF rc_space(1) [OF inv], of r] rc_invD(3) [OF inv] assms(3) by (force simp: outside_ok_def)
  then show "r \<in> set Ob" "ty = T r" using held_valid [OF inv assms(2)] by (auto simp: valid_def)
qed

text \<open>
  C16: in every state a thread reaches by the steps of \<open>hp_step\<close> (it declares, copies and destroys local handles,
  assigns handles and null to handles it can write, makes objects and changes the allocation block; an assignment
  that may throw is between handles of the same type or from or to null, and less than 4 GB are managed) the reference count of
  every object is the number of handles that refer to it, and positive; and every handle, local or in an object, is
  null, or refers to an object of its type that is alive, or to one outside the thread's memory. Temporary and
  user-supplied blocks, \<^verbatim>\<open>getHandle\<close>, \<^verbatim>\<open>getRootObject\<close>, \<^verbatim>\<open>unsafeCast\<close> and shallow copies are not among the steps.
\<close>

theorem handle_counts_exact:
  assumes "hp_reachable lay X (H, G)"
  shows "\<exists>T Ob. distinct Ob \<and> set G \<subseteq> set (hlist lay T G Ob) \<and>
    (\<forall>r \<in> set Ob. isManaged r (al H) = Inr True \<and> set (handles_at lay (T r) (getObject r)) \<subseteq> set (hlist lay T G Ob) \<and>
       getRefCount r H = Inr (refs H (hlist lay T G Ob) r) \<and> 0 < refs H (hlist lay T G Ob) r) \<and>
    (\<forall>h \<in> set (hlist lay T G Ob). isNullPtr h H \<or> getTarget h H \<in> set Ob \<and> hType H h = T (getTarget h H) \<or>
       (getTarget h H, hType H h) \<in> X)"
proof -
  obtain T L Ob where inv: "rc_inv lay [] G X T {} H L Ob {#}" by (rule reachable_inv [OF assms])
  note D = rc_invD [OF inv]
  have "isManaged r (al H) = Inr True" if "r \<in> set Ob" for r
    using live_isManaged [OF rc_space(1) [OF inv]] objects_okD(2) [OF D(2) that] by blast
  moreover have "numCopies H r = refs H (hlist lay T G Ob) r" "0 < refs H (hlist lay T G Ob) r" if "r \<in> set Ob" for r
    using D(6,7) [OF that] by auto
  moreover have "set (handles_at lay (T r) (getObject r)) \<subseteq> set (hlist lay T G Ob)" if "r \<in> set Ob" for r
    using that by (auto simp: set_hlist own_def)
  ultimately show ?thesis
    using D(2,4) by (intro exI [of _ T] exI [of _ Ob]) (auto simp: objects_ok_def handle_ok_def getRefCount_def set_hlist)
qed

text \<open>
  C20: in every state that the steps of \<open>hp_step\<close> reach, the assignment of null, the destructor of a local handle, and
  the assignment of a handle that is null or of the same type (of any type where requests do not throw, or when
  the handle assigned to is null) return, whatever the objects refer to, cyclic structures included: they neither run for ever
  nor touch memory that is not allocated.
\<close>

theorem handle_calls_return:
  assumes "hp_reachable lay X (H, G)" and "writable lay G H h" and "readable lay G H s" and "enough G (al H) fd h"
    and "managed_bytes (al H) < fc" and "same_type h s H"
  shows "(\<exists>fl H'. Handle_assign fc lay fd h s H = Inr (fl, H')) \<and> (\<exists>H'. Handle_assign_null lay fd h H = Inr H') \<and>
    (h \<in> set G \<longrightarrow> (\<exists>H'. Handle_destroy lay fd h H = Inr H'))"
proof -
  obtain T L Ob where inv: "rc_inv lay [] G X T {} H L Ob {#}" and sc: "self_contained lay T Ob H" by (rule reachable_inv [OF assms(1)])
  have n: "\<exists>H'. Handle_assign_null lay fd h H = Inr H'" using hp_null [OF inv assms(2,4)] by blast
  moreover have "\<exists>fl H'. Handle_assign fc lay fd h s H = Inr (fl, H')"
  proof (cases "isNullPtr s H")
    case True
    then show ?thesis using n by (auto simp: Handle_assign_null_source)
  next
    case False
    from Handle_assign_ok [OF inv assms(2-6) False sc] show ?thesis by (auto simp: assign_outcome_def)
  qed
  moreover have "\<exists>H'. Handle_destroy lay fd h H = Inr H'" if "h \<in> set G" using hp_destroy [OF inv that assms(4)] by blast
  ultimately show ?thesis by blast
qed

text \<open>
  C17: when an assignment to a handle in the active block returns, the handle refers to a copy of the source's target:
  what lies in the active block is shared; everything else that can be reached is copied into new objects of
  the active block, with equal data, types and null handles. The other local handles are as before.
\<close>

theorem deep_copy_faithful:
  assumes "hp_reachable lay X (H, G)" and "writable lay G H h" and "readable lay G H s" and "enough G (al H) fd h"
    and "managed_bytes (al H) < fc" and "same_type h s H" and "\<not> isNullPtr s H" and "al_contains h (al H)"
    and "Handle_assign fc lay fd h s H = Inr (Returns, H')"
  shows "\<not> isNullPtr h H' \<and> hType H' h = hType H s \<and>
    (\<exists>T N. copied lay (\<lambda>x. al_contains x (al H)) H T N H' (getTarget s H) (hType H s) (getTarget h H') \<and>
       (\<forall>r \<in> N. \<nexists>ty. held lay G H {} r ty)) \<and>
    (\<forall>g \<in> set G. g \<noteq> h \<longrightarrow> hOffset H' g = hOffset H g \<and> hType H' g = hType H g)"
proof -
  obtain T L Ob where inv: "rc_inv lay [] G X T {} H L Ob {#}" and sc: "self_contained lay T Ob H" by (rule reachable_inv [OF assms(1)])
  from Handle_assign_ok [OF inv assms(2-7) sc] obtain T' L' Ob' where o: "rc_inv lay [] G X T' {} H' L' Ob' {#}"
    "same_active (al H) (al H')" "\<And>x. x \<in> set (hlist lay T G Ob) \<Longrightarrow> x \<noteq> h \<Longrightarrow> same_handle H H' x"
    "\<not> isNullPtr h H'" "hType H' h = hType H s"
    "copied lay (\<lambda>x. al_contains x (al H)) H T' (set Ob' - set Ob) H' (getTarget s H) (hType H s) (getTarget h H')"
    unfolding assign_outcome_def assms(9) using assms(8) by auto
  have "\<nexists>ty. held lay G H {} r ty" if "r \<in> set Ob' - set Ob" for r
  proof
    assume "\<exists>ty. held lay G H {} r ty"
    then obtain ty where "(r, ty) \<in> valid X T Ob" using held_valid [OF inv] by blast
    then have "(r, ty) \<in> X" using that by (auto simp: valid_def)
    then show False using live_not_outside [OF o(1)] objects_okD(2) [OF rc_invD(2) [OF o(1)]] that by blast
  qed
  then show ?thesis using o(3-6) by (auto simp: same_handle_def set_hlist intro!: exI)
qed

text \<open>
  C18: when a handle that is null, local or in an object, is assigned and the copy does not fit, nothing is left behind:
  the handle is still null, the active block holds as many objects as before, and the reference count of every object
  that the thread holds is unchanged. (A handle that is not null may release its old target or keep it: that is
  not claimed here.)
\<close>

theorem failed_copy_leaks_nothing:
  assumes "hp_reachable lay X (H, G)" and "writable lay G H h" and "readable lay G H s" and "enough G (al H) fd h"
    and "managed_bytes (al H) < fc" and "isNullPtr h H" and "Handle_assign fc lay fd h s H = Inr (NotEnoughSpace, H')"
  shows "isNullPtr h H' \<and> getNumObjectsInCurrentAllocatorBlock (al H') = getNumObjectsInCurrentAllocatorBlock (al H) \<and>
    (\<forall>r ty. held lay G H {} r ty \<and> isManaged r (al H) = Inr True \<longrightarrow> getRefCount r H' = getRefCount r H)"
proof -
  obtain T L Ob where inv: "rc_inv lay [] G X T {} H L Ob {#}" by (rule reachable_inv [OF assms(1)])
  note D = rc_invD [OF inv]
  have s: "\<not> isNullPtr s H" using assms(6,7) by (auto simp: Handle_assign_null_source res_simps)
  have pre0: "assign_pre lay [] G X (kept_alive lay G H h Ob) fd T H L Ob {#} h"
    by (rule writable_pre [OF inv assms(2)]) (use assms(4) in \<open>auto simp: enough_def\<close>)
  then have hl: "h \<in> set (hlist lay T G Ob)" by (simp add: assign_pre_def)
  have bl: "rc_inv lay [] G X T {h} H L Ob {#}" by (rule blind_null [OF inv hl assms(6)])
  have "supported lay G T {h} H {#} (set Ob)" by (rule supported_rest [OF bl]) (simp_all add: same_handle_def)
  then have pre: "assign_pre lay [] G X (set Ob) fd T H L Ob {#} h" using pre0 by (simp add: assign_pre_def guarded_def)
  have "assign_outcome lay [] G X (set Ob) T H L Ob {#} h (getTarget s H) (hType H s) (Handle_assign fc lay fd h s H)"
    unfolding Handle_assign_source [OF s]
    by (rule assignObject_ok [OF pre readable_valid [OF inv assms(3) s]]) (use assms(5,6) s in auto)
  then obtain T' L' Ob' where o: "rc_inv lay [] G X T' {} H' L' Ob' {#}" "set Ob' = set Ob" "set L' = set L" "same_active (al H) (al H')"
    "\<And>r. r \<in> set Ob \<Longrightarrow> T' r = T r" "\<And>x. x \<in> set (hlist lay T G Ob) \<Longrightarrow> x \<noteq> h \<Longrightarrow> same_handle H H' x"
    "isNullPtr h H' \<or> H' = set_type h (hType H s) H"
    unfolding assign_outcome_def assms(7) by auto
  have null: "isNullPtr h H'" using o(7) assms(6) by (auto simp: isNullPtr_def)
  have "set (hlist lay T' G Ob') = set (hlist lay T G Ob)" using o(2,5) by (auto simp: set_hlist own_def)
  then have bl': "rc_inv lay [] G X T' {h} H' L' Ob' {#}" using blind_null [OF o(1) _ null] hl by simp
  have cnt: "numCopies H' r = numCopies H r" if "r \<in> set Ob" for r
    by (rule counts_same [OF bl bl' o(2) o(5) _ that]) (use o(6) in auto)
  have man: "isManaged r (al H') = Inr True" "isManaged r (al H) = Inr True" if "r \<in> set Ob" for r
    using live_isManaged [OF rc_space(1) [OF o(1)]] live_isManaged [OF rc_space(1) [OF inv]] objects_okD(2) [OF rc_invD(2) [OF o(1)]]
      objects_okD(2) [OF D(2)] that o(2) by auto
  have "mset L' = mset L"
    using live_distinct [OF rc_space(1) [OF inv]] live_distinct [OF rc_space(1) [OF o(1)]] o(3) by (simp add: set_eq_iff_mset_eq_distinct)
  then have "live_in b L' = live_in b L" for b unfolding live_in_def by (metis mset_filter size_mset)
  moreover have "activeRAM (myState (al H')) = activeRAM (myState (al H))" using o(4) by (simp add: same_active_def active_block_def)
  moreover have "active_block (myState (al H')) = active_block (myState (al H))" using o(4) by (simp add: same_active_def)
  ultimately have "blockRefs (ram (al H')) (activeRAM (myState (al H'))) = blockRefs (ram (al H)) (activeRAM (myState (al H)))"
    using al_invD(4) [OF rc_space(1) [OF inv]] al_invD(4) [OF rc_space(1) [OF o(1)]] by (simp add: counts_ok_def managed_def saved_in_def)
  then show ?thesis
    using null cnt man held_managed [OF inv] by (auto simp: getNumObjectsInCurrentAllocatorBlock_def getRefCount_def)
qed

lemma copied_no_cycle:
  assumes "copied lay act H0 T N H' src ty t"
    and C: "\<And>r u. (r, u) \<in> C \<Longrightarrow> \<not> act r \<and> (\<exists>x \<in> set (handles_at lay u (getObject r)). \<not> isNullPtr x H0 \<and> (getTarget x H0, hType H0 x) \<in> C)"
  shows "(src, ty) \<notin> C"
  using assms(1)
proof induction
  case (deep src t ty)
  show ?case
  proof
    assume "(src, ty) \<in> C"
    then obtain x where x: "x \<in> set (handles_at lay ty (getObject src))" "\<not> isNullPtr x H0" "(getTarget x H0, hType H0 x) \<in> C" using C by blast
    then obtain f where "f \<in> fst ` set (type_fields lay ty)" "x = getObject src + f" by (force simp: handles_at_def)
    then show False using deep(5) x(2,3) by blast
  qed
qed (use C in blast)

text \<open>
  C22: a structure outside the active block that contains a cycle is never copied: \<open>C\<close> are objects outside the block each
  of which refers to another of them. The copy recurses until the block is full and reports that.
\<close>

theorem cyclic_structure_not_copied:
  assumes "hp_reachable lay X (H, G)" and "writable lay G H h" and "readable lay G H s" and "enough G (al H) fd h"
    and "managed_bytes (al H) < fc" and "same_type h s H" and "\<not> isNullPtr s H" and "al_contains h (al H)"
    and "(getTarget s H, hType H s) \<in> C"
    and "\<And>r u. (r, u) \<in> C \<Longrightarrow> \<not> al_contains r (al H) \<and>
      (\<exists>x \<in> set (handles_at lay u (getObject r)). \<not> isNullPtr x H \<and> (getTarget x H, hType H x) \<in> C)"
  shows "\<exists>H'. Handle_assign fc lay fd h s H = Inr (NotEnoughSpace, H')"
proof -
  obtain T L Ob where inv: "rc_inv lay [] G X T {} H L Ob {#}" and sc: "self_contained lay T Ob H" by (rule reachable_inv [OF assms(1)])
  from Handle_assign_ok [OF inv assms(2-7) sc] obtain fl H' T' L' Ob' where o: "Handle_assign fc lay fd h s H = Inr (fl, H')"
    "fl = Returns \<Longrightarrow> copied lay (\<lambda>x. al_contains x (al H)) H T' (set Ob' - set Ob) H' (getTarget s H) (hType H s) (getTarget h H')"
    unfolding assign_outcome_def using assms(8) by (elim exE conjE) (auto split: flow.splits)
  have "fl \<noteq> Returns" using copied_no_cycle [OF o(2), of C] assms(9,10) by blast
  then show ?thesis using o(1) by (cases fl) auto
qed

lemma live_in_less:
  assumes "distinct L" and "distinct L'" and "set L' \<subseteq> set L - {r}" and "r \<in> set L" and "in_block b r"
  shows "live_in b L' < live_in b L"
proof -
  have "live_in b L' = card {l \<in> set L'. in_block b l}" "live_in b L = card {l \<in> set L. in_block b l}"
    using assms(1,2) by (simp_all add: live_in_def distinct_card [symmetric])
  moreover have "{l \<in> set L'. in_block b l} \<subset> {l \<in> set L. in_block b l}" using assms(3-5) by blast
  ultimately show ?thesis by (simp add: psubset_card_mono)
qed

text \<open>The target of a local handle does not survive the handle when no other refers to it.\<close>

lemma last_handle_dies:
  assumes inv: "rc_inv lay [] G X T {} H L Ob {#}" and inv': "rc_inv lay [] (remove1 h G) X T {} H' L' Ob' {#}"
    and sh: "shrunk H L Ob H' L' Ob'" and h: "h \<in> set G" "\<not> isNullPtr h H" and r: "getTarget h H \<in> set Ob"
    and one: "numCopies H (getTarget h H) = 1"
  shows "getTarget h H \<notin> set Ob'"
proof
  let ?r = "getTarget h H"
  note D = rc_invD [OF inv] and E = shrunkD [OF sh]
  have hl: "h \<in> set (hlist lay T G Ob)" using h(1) by (simp add: set_hlist)
  have eq: "refs H (filter (\<lambda>x. x \<notin> {}) (hlist lay T G Ob)) ?r = refs H (filter (\<lambda>x. x \<notin> {h}) (hlist lay T G Ob)) ?r + refs H [h] ?r"
    using refs_blind [OF inv hl, of "{}" H ?r] by simp
  have z: "refs H (filter (\<lambda>x. x \<notin> {h}) (hlist lay T G Ob)) ?r = 0"
    using D(6) [OF r] one eq h(2) by (simp add: refs_Cons)
  assume r': "?r \<in> set Ob'"
  then have "0 < refs H' (hlist lay T (remove1 h G) Ob') ?r" using rc_invD(6,7) [OF inv' r'] by simp
  then obtain x where x: "x \<in> set (hlist lay T (remove1 h G) Ob')" "\<not> isNullPtr x H'" "getTarget x H' = ?r"
    using refs_zero [of H' "hlist lay T (remove1 h G) Ob'" ?r] by auto
  have "distinct G" using D(3) by (simp add: outside_ok_def)
  then have "x \<in> set (hlist lay T G Ob)" "x \<noteq> h"
    using x(1) E(1) own_not_root [OF rc_space(1) [OF inv] D(2,3)] h(1) by (auto simp: set_hlist)
  then show False using z x(2,3) same_handleD [OF E(3) [of x]] by (auto simp: refs_zero)
qed

text \<open>
  C21: destroying a local handle frees its target when it was the last one that refers to it, and keeps every object that
  the other local handles lead to.
\<close>

theorem last_handle_frees_object:
  assumes "hp_reachable lay X (H, G)" and "h \<in> set G" and "enough G (al H) fd h"
    and "\<not> isNullPtr h H" and "al_contains (getTarget h H) (al H)"
  shows "\<exists>H'. Handle_destroy lay fd h H = Inr H' \<and>
    (getRefCount (getTarget h H) H = Inr 1 \<longrightarrow> getNumObjectsInCurrentAllocatorBlock (al H') < getNumObjectsInCurrentAllocatorBlock (al H)) \<and>
    (\<forall>r ty. held lay G H {h} r ty \<and> isManaged r (al H) = Inr True \<longrightarrow>
       isManaged r (al H') = Inr True \<and> (\<exists>n. getRefCount r H' = Inr n \<and> 0 < n))"
proof -
  obtain T L Ob where inv: "rc_inv lay [] G X T {} H L Ob {#}" by (rule reachable_inv [OF assms(1)])
  obtain H' L' Ob' where d: "Handle_destroy lay fd h H = Inr H'" "rc_inv lay [] (remove1 h G) X T {} H' L' Ob' {#}" "shrunk H L Ob H' L' Ob'"
    "kept_alive lay G H h Ob \<subseteq> set Ob'" using hp_destroy [OF inv assms(2,3)] by blast
  note D = rc_invD [OF inv] and E = shrunkD [OF d(3)] and sp = rc_space(1) [OF inv] and sp' = rc_space(1) [OF d(2)]
  let ?r = "getTarget h H"
  have "handle_ok X T Ob H h" using D(4) [of h] assms(2) by (simp add: set_hlist)
  then have r: "?r \<in> set Ob" using assms(4,5) outside_not_active [OF inv] by (auto simp: handle_ok_def)
  have act: "active_block (myState (al H')) = active_block (myState (al H))" "activeRAM (myState (al H')) = activeRAM (myState (al H))"
    using E(5) by (simp_all add: same_active_def active_block_def)
  have fewer: "getNumObjectsInCurrentAllocatorBlock (al H') < getNumObjectsInCurrentAllocatorBlock (al H)" if one: "numCopies H ?r = 1"
  proof -
    have "?r \<notin> set Ob'" by (rule last_handle_dies [OF inv d(2,3) assms(2,4) r one])
    then have "set L' \<subseteq> set L - {?r}" using E(2) r by auto
    then have "live_in b L' < live_in b L" if "in_block b ?r" for b
      using live_in_less [OF live_distinct [OF sp] live_distinct [OF sp']] objects_okD(2) [OF D(2) r] that by blast
    then have "live_in (active_block (myState (al H))) L' < live_in (active_block (myState (al H))) L"
      using assms(5) by (simp add: contains_active)
    then show ?thesis
      using al_invD(4) [OF sp] al_invD(4) [OF sp'] act by (simp add: counts_ok_def managed_def saved_in_def getNumObjectsInCurrentAllocatorBlock_def)
  qed
  have man: "isManaged ?r (al H) = Inr True" using live_isManaged [OF sp objects_okD(2) [OF D(2) r]] .
  have surv: "isManaged q (al H') = Inr True \<and> 0 < numCopies H' q" if q: "held lay G H {h} q ty" "isManaged q (al H) = Inr True" for q ty
  proof -
    have "q \<in> kept_alive lay G H h Ob" using held_managed(1) [OF inv q] q(1) by (auto simp: kept_alive_def)
    then have "q \<in> set Ob'" using d(4) by blast
    then show ?thesis using live_isManaged [OF sp'] objects_okD(2) [OF rc_invD(2) [OF d(2)]] rc_invD(7) [OF d(2)] by blast
  qed
  show ?thesis using d(1) fewer man surv by (auto simp: getRefCount_def)
qed

text \<open>
  C19: in a thread that takes the steps of \<open>hp_step\<close> (no temporary or user-supplied block, no restoration, no shallow
  copy) the active block is self-contained: a handle in an object in it is null or refers to an object in it, so that
  the block can be stored or sent as it is.
\<close>

theorem active_block_self_contained:
  assumes "hp_reachable lay X (H, G)" and "held lay G H {} r ty" and "al_contains r (al H)" and "x \<in> set (handles_at lay ty (getObject r))"
  shows "isNullPtr x H \<or> al_contains (getTarget x H) (al H)"
proof -
  obtain T L Ob where inv: "rc_inv lay [] G X T {} H L Ob {#}" "self_contained lay T Ob H" by (rule reachable_inv [OF assms(1)])
  have "isManaged r (al H) = Inr True" using assms(3) by (simp add: isManaged_def)
  then have "r \<in> set Ob" "ty = T r" using held_managed [OF inv(1) assms(2)] by auto
  then show ?thesis using inv(2) assms(3,4) by (auto simp: self_contained_def inward_def own_def)
qed

section \<open>Departures\<close>

text \<open>
  An assignment that fails because the request throws has already changed the type of the handle, which still refers to
  its old target; the properties above exclude it by \<open>same_type\<close>.
\<close>

lemma failed_assignment_changes_type:
  assumes "\<not> isNullPtr s H" and "\<not> al_contains (getTarget s H) (al H)" and "al_contains h (al H)"
    and "getRAM (REF_COUNT_PREAMBLE_SIZE + getSizeOfConstituentObject lay (hType H s)) (al H) = Inl (Throw m)"
  shows "\<exists>H'. Handle_assign (Suc fc) lay fd h s H = Inr (NotEnoughSpace, H') \<and> getTarget h H' = getTarget h H \<and> hType H' h = hType H s"
  using assms by (simp add: Handle_assign_source assign_step_def) (simp add: getTarget_def)

text \<open>The cast of a null handle that lies elsewhere is not null.\<close>

lemma cast_of_null_not_null:
  assumes "isNullPtr castMe H" and "h \<noteq> castMe" and "unsafeCast h castMe H = Inr H'"
  shows "\<not> isNullPtr h H'"
  using assms by (auto simp: unsafeCast_def object_incRefCount_def isNullPtr_def res_simps Let_def split: if_splits)

section \<open>A list of two nodes and its copy\<close>

text \<open>
  Nodes of 16 bytes with one handle. Two linked nodes in a block of 100 bytes at address 1000, local handles at 10 and 20;
  then a second block at 2000 and a node in it with the local handle 30.
\<close>

definition node_layout :: layouts where
  "node_layout ty = \<lparr>l_size = 16, l_fields = [(8, 1)]\<rparr>"

definition dm0 :: object_heap where
  "dm0 = \<lparr>al = al0, numCopies = \<lambda>_. 0, hOffset = \<lambda>_. 0, hType = \<lambda>_. 0, prims = \<lambda>_. 0\<rparr>"

definition make_node :: "nat \<Rightarrow> nat \<Rightarrow> object_heap \<Rightarrow> (flow \<times> object_heap) result" where
  "make_node v h H = andThen (makeObject node_layout 1 (default_ctor node_layout 1 v) H) (\<lambda>(fl, r, H1).
     if fl = Returns then Handle_from_object 1 node_layout 1000 1 h r H1 else Inr (fl, H1))"

definition dm1 :: object_heap where
  "dm1 = snd (projr (make_node 7 10 dm0))"

definition dm2 :: object_heap where
  "dm2 = snd (projr (make_node 8 20 dm1))"

named_theorems hp_exec \<open>execution of the handle operations on concrete heaps\<close>

lemmas hp_exec_defs [hp_exec] = al_exec res_simps node_layout_def getSizeOfConstituentObject_def type_fields_def
  REF_COUNT_PREAMBLE_SIZE_def getObject_def construct_def set_type_def set_offset_def point_to_def isManaged_def setRefCount_def
  object_incRefCount_def old_target_def dec_old_def isNullPtr_def getTarget_def assign_step_def assignHandle_with_def
  makeObject_def makeObjectWithExtraStorage_def default_ctor_def Handle_from_object_def Handle_assign_def handles_at_def
  make_node_def al0_def

lemma assignObject_numeral [hp_exec]: "assignObject (numeral k) lay fd df self h src ty n H =
    assign_step lay fd (copyFields_with (assignHandle_with lay fd (assignObject (pred_numeral k) lay fd False))) df self h src ty n H"
  "assignObject 1 lay fd df self h src ty n H =
    assign_step lay fd (copyFields_with (assignHandle_with lay fd (assignObject 0 lay fd False))) df self h src ty n H"
  by (simp_all only: numeral_eq_Suc One_nat_def assignObject.simps)

lemma dm1_run: "make_node 7 10 dm0 = Inr (Returns, dm1)"
  by (simp add: dm1_def dm0_def hp_exec)

lemma dm2_run: "make_node 8 20 dm1 = Inr (Returns, dm2)"
  by (simp add: dm2_def dm1_def dm0_def hp_exec)

definition dm3 :: object_heap where
  "dm3 = snd (projr (Handle_assign 1000 node_layout 1000 1036 20 dm2))"

lemmas dm_defs = dm3_def dm2_def dm1_def dm0_def

lemma dm3_run: "Handle_assign 1000 node_layout 1000 1036 20 dm2 = Inr (Returns, dm3)"
  by (simp add: dm_defs hp_exec)

definition dm4 :: object_heap where
  "dm4 = dm3\<lparr>al := projr (makeObjectAllocatorBlock 2000 100 True (al dm3))\<rparr>"

definition dm5 :: object_heap where
  "dm5 = snd (projr (make_node 9 30 dm4))"

definition dm6 :: object_heap where
  "dm6 = snd (projr (Handle_assign 1000 node_layout 1000 2036 10 dm5))"

lemma dm4_run: "makeObjectAllocatorBlock 2000 100 True (al dm3) = Inr (al dm4)"
  by (simp add: dm4_def dm_defs hp_exec makeObjectAllocatorBlock_def)

lemma dm5_run: "make_node 9 30 dm4 = Inr (Returns, dm5)"
  by (simp add: dm5_def dm4_def dm_defs hp_exec makeObjectAllocatorBlock_def)

lemma dm6_run: "Handle_assign 1000 node_layout 1000 2036 10 dm5 = Inr (Returns, dm6)"
  by (simp add: dm6_def dm5_def dm4_def dm_defs hp_exec makeObjectAllocatorBlock_def)

lemma node_type_ok: "type_ok node_layout 1"
  by (simp add: type_ok_def type_fields_def node_layout_def getSizeOfConstituentObject_def)

lemma node_handles: "handles_at node_layout 1 (getObject r) = [r + 12]"
  by (simp add: handles_at_def type_fields_def node_layout_def getObject_def REF_COUNT_PREAMBLE_SIZE_def)

lemma make_node_reachable:
  assumes "hp_reachable node_layout {} (H, G)" and "free_place node_layout {} G (al H) h" and "enough G (al H) 1000 h"
    and "make_node v h H = Inr (Returns, H')"
  shows "hp_reachable node_layout {} (H', h # G)"
proof -
  obtain r H1 where "makeObject node_layout 1 (default_ctor node_layout 1 v) H = Inr (Returns, r, H1)"
    "Handle_from_object (Suc 0) node_layout 1000 1 h r H1 = Inr (Returns, H')"
    using assms(4) by (auto simp: make_node_def res_simps split: if_splits)
  then show ?thesis by (rule hp_more [OF assms(1) hs_make [OF assms(2) node_type_ok assms(3)]])
qed

lemmas dm_late_defs = dm6_def dm5_def dm4_def dm_defs makeObjectAllocatorBlock_def

lemma dm_blocks:
  "managed (al dm0) = [\<lparr>b_start = 1000, b_end = 1100\<rparr>]" "managed (al dm1) = [\<lparr>b_start = 1000, b_end = 1100\<rparr>]"
  "managed (al dm2) = [\<lparr>b_start = 1000, b_end = 1100\<rparr>]" "managed (al dm3) = [\<lparr>b_start = 1000, b_end = 1100\<rparr>]"
  "managed (al dm4) = [\<lparr>b_start = 2000, b_end = 2100\<rparr>, \<lparr>b_start = 1000, b_end = 1100\<rparr>]"
  "managed (al dm5) = [\<lparr>b_start = 2000, b_end = 2100\<rparr>, \<lparr>b_start = 1000, b_end = 1100\<rparr>]"
  by (simp_all add: managed_def active_block_def dm_late_defs hp_exec)

lemma dm_handles:
  "hOffset dm2 10 = 1014" "hType dm2 10 = 1" "hOffset dm2 20 = 1028" "hType dm2 20 = 1" "hOffset dm2 1036 = -1"
  "hOffset dm5 10 = 1014" "hType dm5 10 = 1" "hOffset dm5 30 = 1994" "hType dm5 30 = 1" "hOffset dm5 2036 = -1"
  "hOffset dm6 30 = 1994" "hType dm6 30 = 1" "hOffset dm6 2036 = 12"
  by (simp_all add: dm_late_defs hp_exec)

definition pointing :: "object_heap \<Rightarrow> nat \<Rightarrow> nat \<Rightarrow> bool" where
  "pointing H h r \<longleftrightarrow> hOffset H h = int r - int h \<and> hType H h = 1 \<and> h \<noteq> Suc r"

lemma held_node: "g \<in> set G \<Longrightarrow> g \<notin> B \<Longrightarrow> pointing H g r \<Longrightarrow> held node_layout G H B r 1"
  using held_local [of g G B H node_layout] pointed [of H g r] by (simp add: pointing_def)

lemma writable_node:
  assumes "g \<in> set G" and "pointing H g r" and "h = r + 12" and "g \<noteq> h" and "isManaged r (al H) = Inr True"
  shows "writable node_layout G H h"
proof -
  have "held node_layout G H {h} r 1" by (rule held_node [OF assms(1) _ assms(2)]) (use assms(4) in simp)
  then show ?thesis unfolding writable_def using assms(3,5) by (force simp: node_handles)
qed

text \<open>The preconditions of the call that copies the list.\<close>

lemma dm5_call: "writable node_layout [30, 20, 10] dm5 2036" "readable node_layout [30, 20, 10] dm5 10" "enough [30, 20, 10] (al dm5) 1000 2036"
  "managed_bytes (al dm5) < 1000" "same_type 2036 10 dm5"
proof -
  show "writable node_layout [30, 20, 10] dm5 2036"
    by (rule writable_node [of 30 _ _ 2024]) (simp_all add: pointing_def dm_handles, simp add: dm_late_defs hp_exec)
qed (simp_all add: readable_def enough_def fits_def managed_bytes_def dm_blocks same_type_def isNullPtr_def dm_handles)

lemma dm_reachable:
  "hp_reachable node_layout {} (dm2, [20, 10])" "hp_reachable node_layout {} (dm3, [20, 10])"
  "hp_reachable node_layout {} (dm5, [30, 20, 10])" "hp_reachable node_layout {} (dm6, [30, 20, 10])"
proof -
  have "hp_reachable node_layout {} (dm0, [])"
  proof (rule hp_start)
    show "Allocator_new ram0 1000 100 = Inr (al dm0)" by (simp add: dm0_def al_runs(1))
    show "mallocs ram0 = []" by (simp add: ram0_def)
  qed (simp_all add: outside_ok_def)
  from make_node_reachable [OF this _ _ dm1_run] have "hp_reachable node_layout {} (dm1, [10])"
    by (simp add: free_place_def unmanaged_def in_block_def enough_def fits_def managed_bytes_def dm_blocks)
  from make_node_reachable [OF this _ _ dm2_run] show r2: "hp_reachable node_layout {} (dm2, [20, 10])"
    by (simp add: free_place_def unmanaged_def in_block_def enough_def fits_def managed_bytes_def dm_blocks)
  have w: "writable node_layout [20, 10] dm2 1036"
    by (rule writable_node [of 10 _ _ 1024]) (simp_all add: pointing_def dm_handles, simp add: dm_defs hp_exec)
  show r3: "hp_reachable node_layout {} (dm3, [20, 10])"
    by (rule hp_more [OF r2 hs_assign [OF w _ _ _ _ dm3_run]])
       (simp_all add: readable_def enough_def fits_def managed_bytes_def dm_blocks same_type_def isNullPtr_def dm_handles)
  have "hp_reachable node_layout {} (dm3\<lparr>al := al dm4\<rparr>, [20, 10])"
  proof (rule hp_more [OF r3 hs_block [OF _ _ _ _ dm4_run]])
    show "fresh 2000 100 (al dm3)" by (simp add: fresh_def clear_of_def apart_blocks_def dm_blocks managed_def [symmetric], simp add: dm_defs hp_exec)
    show "2000 \<noteq> activeRAM (myState (al dm3))" "\<not> curBlockUserSupplied (myState (al dm3))" by (simp_all add: dm_defs hp_exec)
    show "clear_memory node_layout {} [20, 10] 2000 100" by (simp add: clear_memory_def)
  qed
  then have r4: "hp_reachable node_layout {} (dm4, [20, 10])" by (simp add: dm4_def)
  from make_node_reachable [OF this _ _ dm5_run] show r5: "hp_reachable node_layout {} (dm5, [30, 20, 10])"
    by (simp add: free_place_def unmanaged_def in_block_def enough_def fits_def managed_bytes_def dm_blocks)
  show "hp_reachable node_layout {} (dm6, [30, 20, 10])"
    by (rule hp_more [OF r5 hs_assign [OF dm5_call dm6_run]])
qed

theorem handle_counts_exact_witness:
  "\<exists>T Ob. distinct Ob \<and> set [30, 20, 10] \<subseteq> set (hlist node_layout T [30, 20, 10] Ob) \<and>
    (\<forall>h \<in> set (hlist node_layout T [30, 20, 10] Ob). isNullPtr h dm6 \<or> getTarget h dm6 \<in> set Ob \<and> hType dm6 h = T (getTarget h dm6))"
  using handle_counts_exact [OF dm_reachable(4)] by auto

theorem handle_calls_return_witness: "\<exists>fl H'. Handle_assign 1000 node_layout 1000 2036 10 dm5 = Inr (fl, H')"
  using handle_calls_return [OF dm_reachable(3) dm5_call] by blast

lemma dm5_deep: "\<not> isNullPtr 10 dm5" "al_contains 2036 (al dm5)" "getTarget 10 dm5 = 1024"
  by (simp_all add: isNullPtr_def getTarget_def dm_handles) (simp add: dm_late_defs hp_exec)

theorem deep_copy_faithful_witness:
  "\<exists>T N. copied node_layout (\<lambda>x. al_contains x (al dm5)) dm5 T N dm6 1024 1 2048 \<and> (\<forall>r \<in> N. \<nexists>ty. held node_layout [30, 20, 10] dm5 {} r ty)"
  using deep_copy_faithful [OF dm_reachable(3) dm5_call dm5_deep(1,2) dm6_run]
  by (simp add: dm5_deep dm_handles getTarget_def)

lemma dm6_held: "held node_layout [30, 20, 10] dm6 {} 2024 1"
  by (rule held_node [of 30]) (simp_all add: pointing_def dm_handles)

theorem active_block_self_contained_witness:
  "al_contains 2048 (al dm6) \<and> getTarget 2036 dm6 = 2048"
proof -
  have "al_contains 2024 (al dm6)" by (simp add: dm_late_defs hp_exec)
  then have "isNullPtr 2036 dm6 \<or> al_contains (getTarget 2036 dm6) (al dm6)"
    using active_block_self_contained [OF dm_reachable(4) dm6_held, of 2036] by (simp add: node_handles)
  then show ?thesis by (simp add: isNullPtr_def getTarget_def dm_handles)
qed

theorem last_handle_frees_object_witness:
  "\<exists>H'. Handle_destroy node_layout 1000 30 dm5 = Inr H' \<and> getNumObjectsInCurrentAllocatorBlock (al H') < 1"
proof -
  have h: "30 \<in> set [30, 20, 10 :: nat]" "enough [30, 20, 10] (al dm5) 1000 30" "\<not> isNullPtr 30 dm5"
    by (simp_all add: enough_def fits_def managed_bytes_def dm_blocks isNullPtr_def dm_handles)
  have t: "getTarget 30 dm5 = 2024" by (simp add: getTarget_def dm_handles)
  have a: "al_contains 2024 (al dm5)" "getRefCount 2024 dm5 = Inr 1" "getNumObjectsInCurrentAllocatorBlock (al dm5) = 1"
    by (simp_all add: getRefCount_def getNumObjectsInCurrentAllocatorBlock_def) (simp_all add: dm_late_defs hp_exec)
  show ?thesis using last_handle_frees_object [OF dm_reachable(3) h, unfolded t, OF a(1)] a(2,3) by auto
qed

text \<open>A second block of 70 bytes has no room for the copy of both nodes.\<close>

definition df4 :: object_heap where
  "df4 = dm3\<lparr>al := projr (makeObjectAllocatorBlock 2000 70 True (al dm3))\<rparr>"

definition df5 :: object_heap where
  "df5 = snd (projr (make_node 9 30 df4))"

definition df6 :: object_heap where
  "df6 = snd (projr (Handle_assign 1000 node_layout 1000 2036 10 df5))"

lemmas df_defs = df6_def df5_def df4_def dm_defs makeObjectAllocatorBlock_def

lemma df_runs: "makeObjectAllocatorBlock 2000 70 True (al dm3) = Inr (al df4)" "make_node 9 30 df4 = Inr (Returns, df5)"
  by (simp_all add: df_defs hp_exec)

lemma vec_at_replicate [hp_exec]: "i < n \<Longrightarrow> vec_at (replicate n x) i = Inr x"
  by (simp add: vec_at_def)

lemma decRefCount_numeral [hp_exec]:
  "object_decRefCount lay (numeral k) r ty H =
     andThen (isManaged r (al H)) (\<lambda>m.
       if \<not> m then Inr H
       else let n = (numCopies H r + 2 ^ 32 - 1) mod 2 ^ 32; H1 = H\<lparr>numCopies := (numCopies H)(r := n)\<rparr>
            in if n = 0
               then andThen (destroyHandles lay (pred_numeral k) (rev (handles_at lay ty (getObject r))) H1) (\<lambda>H2.
                    andThen (freeRAM r (al H2)) (\<lambda>A. Inr (H2\<lparr>al := A\<rparr>)))
               else Inr H1)"
  by (simp only: numeral_eq_Suc object_decRefCount.simps)

lemma df6_run: "Handle_assign 1000 node_layout 1000 2036 10 df5 = Inr (NotEnoughSpace, df6)"
  by (simp add: df_defs hp_exec)

lemma df_facts: "managed (al df4) = [\<lparr>b_start = 2000, b_end = 2070\<rparr>, \<lparr>b_start = 1000, b_end = 1100\<rparr>]"
  "managed (al df5) = [\<lparr>b_start = 2000, b_end = 2070\<rparr>, \<lparr>b_start = 1000, b_end = 1100\<rparr>]"
  "hOffset df5 30 = 1994" "hType df5 30 = 1" "hOffset df5 2036 = -1" "hOffset df5 10 = 1014" "hType df5 10 = 1"
  "isManaged 2024 (al df5) = Inr True" "blockRefs (ram (al df5)) (activeRAM (myState (al df5))) = 1"
  "isManaged 1024 (al df5) = Inr True" "numCopies df5 1024 = 1"
  by (simp_all add: managed_def active_block_def df_defs hp_exec find_inactive_def lower_bound_def block_before_def block_after_def)

lemma dm3_fresh: "fresh 2000 70 (al dm3)" "fresh 2000 100 (al dm3)" "2000 \<noteq> activeRAM (myState (al dm3))" "\<not> curBlockUserSupplied (myState (al dm3))"
proof -
  show "\<not> curBlockUserSupplied (myState (al dm3))" "2000 \<noteq> activeRAM (myState (al dm3))" by (simp_all add: dm_defs hp_exec)
  then show "fresh 2000 70 (al dm3)" "fresh 2000 100 (al dm3)" by (simp_all add: fresh_def clear_of_def apart_blocks_def dm_blocks)
qed

lemma df_reachable: "hp_reachable node_layout {} (df5, [30, 20, 10])"
proof -
  have "hp_reachable node_layout {} (dm3\<lparr>al := al df4\<rparr>, [20, 10])"
    by (rule hp_more [OF dm_reachable(2) hs_block [OF dm3_fresh(1,3,4) _ df_runs(1)]]) (simp add: clear_memory_def)
  then have "hp_reachable node_layout {} (df4, [20, 10])" by (simp add: df4_def)
  from make_node_reachable [OF this _ _ df_runs(2)] show ?thesis
    by (simp add: free_place_def unmanaged_def in_block_def enough_def fits_def managed_bytes_def df_facts)
qed

theorem failed_copy_leaks_nothing_witness:
  "isNullPtr 2036 df6 \<and> getNumObjectsInCurrentAllocatorBlock (al df6) = 1 \<and> getRefCount 1024 df6 = Inr 1"
proof -
  have w: "writable node_layout [30, 20, 10] df5 2036"
    by (rule writable_node [of 30 _ _ 2024]) (simp_all add: pointing_def df_facts)
  have c: "readable node_layout [30, 20, 10] df5 10" "enough [30, 20, 10] (al df5) 1000 2036" "managed_bytes (al df5) < 1000" "isNullPtr 2036 df5"
    by (simp_all add: readable_def enough_def fits_def managed_bytes_def isNullPtr_def df_facts)
  have "held node_layout [30, 20, 10] df5 {} 1024 1" by (rule held_node [of 10]) (simp_all add: pointing_def df_facts)
  then show ?thesis
    using failed_copy_leaks_nothing [OF df_reachable w c df6_run]
    by (auto simp: getNumObjectsInCurrentAllocatorBlock_def getRefCount_def df_facts)
qed

text \<open>The two nodes refer to each other.\<close>

definition dc3 :: object_heap where
  "dc3 = snd (projr (Handle_assign 1000 node_layout 1000 1060 10 dm3))"

definition dc4 :: object_heap where
  "dc4 = dc3\<lparr>al := projr (makeObjectAllocatorBlock 2000 100 True (al dc3))\<rparr>"

definition dc5 :: object_heap where
  "dc5 = snd (projr (make_node 9 30 dc4))"

lemmas dc_defs = dc5_def dc4_def dc3_def dm_defs makeObjectAllocatorBlock_def

lemma dc_runs: "Handle_assign 1000 node_layout 1000 1060 10 dm3 = Inr (Returns, dc3)"
  "makeObjectAllocatorBlock 2000 100 True (al dc3) = Inr (al dc4)" "make_node 9 30 dc4 = Inr (Returns, dc5)"
  by (simp_all add: dc_defs hp_exec)

lemma dc_facts: "managed (al dc3) = [\<lparr>b_start = 1000, b_end = 1100\<rparr>]"
  "managed (al dc4) = [\<lparr>b_start = 2000, b_end = 2100\<rparr>, \<lparr>b_start = 1000, b_end = 1100\<rparr>]"
  "managed (al dc5) = [\<lparr>b_start = 2000, b_end = 2100\<rparr>, \<lparr>b_start = 1000, b_end = 1100\<rparr>]"
  "hOffset dc5 30 = 1994" "hType dc5 30 = 1" "hOffset dc5 2036 = -1" "hOffset dc5 10 = 1014" "hType dc5 10 = 1"
  "hOffset dc5 1036 = 12" "hType dc5 1036 = 1" "hOffset dc5 1060 = -36" "hType dc5 1060 = 1"
  "isManaged 2024 (al dc5) = Inr True" "isManaged 1048 (al dm3) = Inr True" "hOffset dm3 20 = 1028" "hType dm3 20 = 1" "hOffset dm3 1060 = -1"
  by (simp_all add: managed_def active_block_def dc_defs hp_exec)

lemma dc_act: "al_contains x (al dc5) \<longleftrightarrow> 2000 \<le> x \<and> x < 2100"
  by (simp add: dc_defs hp_exec)

lemma dc_reachable: "hp_reachable node_layout {} (dc5, [30, 20, 10])"
proof -
  have w: "writable node_layout [20, 10] dm3 1060" by (rule writable_node [of 20 _ _ 1048]) (simp_all add: pointing_def dc_facts)
  have r3: "hp_reachable node_layout {} (dc3, [20, 10])"
    by (rule hp_more [OF dm_reachable(2) hs_assign [OF w _ _ _ _ dc_runs(1)]])
       (simp_all add: readable_def enough_def fits_def managed_bytes_def dm_blocks same_type_def isNullPtr_def dc_facts)
  have f: "\<not> curBlockUserSupplied (myState (al dc3))" "2000 \<noteq> activeRAM (myState (al dc3))" by (simp_all add: dc_defs hp_exec)
  then have "fresh 2000 100 (al dc3)" by (simp add: fresh_def clear_of_def apart_blocks_def dc_facts)
  then have "hp_reachable node_layout {} (dc3\<lparr>al := al dc4\<rparr>, [20, 10])"
    by (rule hp_more [OF r3 hs_block [OF _ f(2,1) _ dc_runs(2)]]) (simp add: clear_memory_def)
  then have "hp_reachable node_layout {} (dc4, [20, 10])" by (simp add: dc4_def)
  from make_node_reachable [OF this _ _ dc_runs(3)] show ?thesis
    by (simp add: free_place_def unmanaged_def in_block_def enough_def fits_def managed_bytes_def dc_facts)
qed

theorem cyclic_structure_not_copied_witness:
  "\<exists>H'. Handle_assign 1000 node_layout 1000 2036 10 dc5 = Inr (NotEnoughSpace, H')"
proof (rule cyclic_structure_not_copied [OF dc_reachable, where C = "{(1024, 1), (1048, 1)}"])
  show "writable node_layout [30, 20, 10] dc5 2036" by (rule writable_node [of 30 _ _ 2024]) (simp_all add: pointing_def dc_facts)
  show "\<not> al_contains r (al dc5) \<and> (\<exists>x \<in> set (handles_at node_layout u (getObject r)). \<not> isNullPtr x dc5 \<and> (getTarget x dc5, hType dc5 x) \<in> {(1024, 1), (1048, 1)})"
    if "(r, u) \<in> {(1024, 1), (1048, 1)}" for r u
    using that by (auto simp: dc_act node_handles isNullPtr_def getTarget_def dc_facts)
qed (simp_all add: readable_def enough_def fits_def managed_bytes_def dc_facts same_type_def isNullPtr_def getTarget_def dc_act)

end
