(* ===== verification/PageSets.thy ===== *)
theory PageSets
  imports PC_Prelude
begin

text \<open>
  The page sets of \<^verbatim>\<open>storageManager\<close>, from which the sources of a pipeline draw their pages: \<^verbatim>\<open>PDBSetPageSet\<close> (the pages
  of a stored set), \<^verbatim>\<open>PDBAnonymousPageSet\<close> (intermediate results) and \<^verbatim>\<open>PDBFeedingPageSet\<close> (pages that arrive over the
  network while several readers consume them). A page handle is a value of type \<open>'p\<close>; what a source relies on is
  the locale \<open>page_source\<close>. The mutex of a page set makes its operations atomic; \<^verbatim>\<open>getNextPage\<close> of a feeding
  page set waits inside, so it has two parts, and the transition system \<open>feed_step\<close> interleaves them with the feeders.
\<close>

section \<open>The pages of a stored set\<close>

record set_page_set =
  sp_curPage :: nat
  sp_pages :: "nat list"

definition SetPageSet_new :: "nat list \<Rightarrow> set_page_set" where
  "SetPageSet_new pages = \<lparr>sp_curPage = 0, sp_pages = pages\<rparr>"

definition SetPageSet_getNextPage :: "(nat \<Rightarrow> 'p) \<Rightarrow> nat \<Rightarrow> set_page_set \<Rightarrow> ('p option \<times> set_page_set) result" where
  "SetPageSet_getNextPage getPage workerID S =
     (let pageNum = sp_curPage S; S1 = S\<lparr>sp_curPage := (pageNum + 1) mod 2 ^ 64\<rparr>
      in if length (sp_pages S) \<le> pageNum then Inr (None, S1) else Inr (Some (getPage (sp_pages S ! pageNum)), S1))"

definition SetPageSet_getNewPage :: "set_page_set \<Rightarrow> ('p \<times> set_page_set) result" where
  "SetPageSet_getNewPage S = Inl (Throw ''Adding a new page to a page set not implemented.'')"

definition SetPageSet_getNumPages :: "set_page_set \<Rightarrow> nat" where
  "SetPageSet_getNumPages S = length (sp_pages S)"

definition SetPageSet_resetPageSet :: "set_page_set \<Rightarrow> set_page_set" where
  "SetPageSet_resetPageSet S = S\<lparr>sp_curPage := 0\<rparr>"

section \<open>Anonymous pages\<close>

text \<open>
  An iterator of the map is the key it stands on, \<open>None\<close> being the end. It survives insertions and the erasure of
  other pages; using an iterator whose page was erased is undefined.
\<close>

datatype access_pattern = SEQUENTIAL | CONCURRENT

record 'p anon_page_set =
  ap_pages :: "(nat \<times> 'p) list"
  nextPageForWorker :: "nat \<Rightarrow> nat option option"
  accessPattern :: access_pattern

definition map_begin :: "('k \<times> 'v) list \<Rightarrow> 'k option" where
  "map_begin m = (case m of [] \<Rightarrow> None | e # _ \<Rightarrow> Some (fst e))"

fun map_next :: "'k::linorder \<Rightarrow> ('k \<times> 'v) list \<Rightarrow> 'k option" where
  "map_next k [] = None"
| "map_next k ((a, v) # m) = (if k < a then Some a else map_next k m)"

definition AnonPageSet_new :: "'p anon_page_set" where
  "AnonPageSet_new = \<lparr>ap_pages = [], nextPageForWorker = \<lambda>_. None, accessPattern = SEQUENTIAL\<rparr>"

definition AnonPageSet_getNextPage :: "nat \<Rightarrow> 'p anon_page_set \<Rightarrow> ('p option \<times> 'p anon_page_set) result" where
  "AnonPageSet_getNextPage workerID S =
     (if ap_pages S = [] then Inr (None, S)
      else let w = (if accessPattern S = CONCURRENT then workerID else 0);
               curPage = (case nextPageForWorker S w of None \<Rightarrow> map_begin (ap_pages S) | Some it \<Rightarrow> it)
           in case curPage of
                None \<Rightarrow> Inr (None, S\<lparr>nextPageForWorker := (nextPageForWorker S)(w := Some curPage)\<rparr>)
              | Some k \<Rightarrow>
                  (case map_of (ap_pages S) k of
                     None \<Rightarrow> Inl (Undefined ''iterator of an erased page'')
                   | Some p \<Rightarrow> Inr (Some p, S\<lparr>nextPageForWorker := (nextPageForWorker S)(w := Some (map_next k (ap_pages S)))\<rparr>)))"

text \<open>The new page, with its number, comes from the buffer manager.\<close>

definition AnonPageSet_getNewPage :: "nat \<Rightarrow> 'p \<Rightarrow> 'p anon_page_set \<Rightarrow> 'p anon_page_set" where
  "AnonPageSet_getNewPage whichPage page S = S\<lparr>ap_pages := map_put whichPage page (ap_pages S)\<rparr>"

definition AnonPageSet_removePage :: "nat \<Rightarrow> 'p anon_page_set \<Rightarrow> 'p anon_page_set" where
  "AnonPageSet_removePage whichPage S = S\<lparr>ap_pages := map_erase whichPage (ap_pages S)\<rparr>"

definition AnonPageSet_getNumPages :: "'p anon_page_set \<Rightarrow> nat" where
  "AnonPageSet_getNumPages S = length (ap_pages S)"

definition AnonPageSet_resetPageSet :: "'p anon_page_set \<Rightarrow> 'p anon_page_set" where
  "AnonPageSet_resetPageSet S = S\<lparr>nextPageForWorker := \<lambda>_. None\<rparr>"

definition AnonPageSet_setAccessOrder :: "access_pattern \<Rightarrow> 'p anon_page_set \<Rightarrow> 'p anon_page_set" where
  "AnonPageSet_setAccessOrder pattern S = S\<lparr>accessPattern := pattern, nextPageForWorker := \<lambda>_. None\<rparr>"

section \<open>Pages that are fed\<close>

datatype usage_policy = REMOVE_AFTER_USED | KEEP_AFTER_USED

record 'p feed_info =
  f_page :: 'p
  numUsers :: nat
  timesServed :: nat

text \<open>\<open>pinned\<close> is the state of the pages themselves, which the page set changes through \<^verbatim>\<open>repin\<close> and \<^verbatim>\<open>unpin\<close>.\<close>

record 'p feeding =
  usagePolicy :: usage_policy
  f_pages :: "(nat \<times> 'p feed_info) list"
  nextForWorker :: "nat list"
  numFinishedFeeders :: nat
  numFeeders :: nat
  numReaders :: nat
  nextPage :: nat
  pinned :: "'p \<Rightarrow> bool"

definition FeedingPageSet_new :: "nat \<Rightarrow> nat \<Rightarrow> ('p \<Rightarrow> bool) \<Rightarrow> 'p feeding" where
  "FeedingPageSet_new readers feeders pins =
     \<lparr>usagePolicy = REMOVE_AFTER_USED, f_pages = [], nextForWorker = replicate readers 0, numFinishedFeeders = 0,
      numFeeders = feeders, numReaders = readers, nextPage = 0, pinned = pins\<rparr>"

definition Feeding_getNewPage :: "'p feeding \<Rightarrow> ('p \<times> 'p feeding) result" where
  "Feeding_getNewPage F = Inl (Throw ''One can only add the pages to the feeding page set.'')"

definition Feeding_getNumPages :: "'p feeding \<Rightarrow> nat" where
  "Feeding_getNumPages F = length (f_pages F)"

text \<open>\<^verbatim>\<open>getNextPage\<close>: up to the wait, the condition of the wait, and what follows it.\<close>

definition Feeding_getNextPage_begin :: "nat \<Rightarrow> 'p feeding \<Rightarrow> (nat \<times> 'p feeding) result" where
  "Feeding_getNextPage_begin workerID F =
     andThen (vec_at (nextForWorker F) workerID) (\<lambda>page.
       Inr (page, F\<lparr>nextForWorker := (nextForWorker F)[workerID := (page + 1) mod 2 ^ 64]\<rparr>))"

definition Feeding_ready :: "nat \<Rightarrow> 'p feeding \<Rightarrow> bool" where
  "Feeding_ready page F \<longleftrightarrow> numFinishedFeeders F = numFeeders F \<or> page < nextPage F"

text \<open>The previous page of the reader is given up.\<close>

definition release_last :: "nat \<Rightarrow> 'p feeding \<Rightarrow> 'p feeding result" where
  "release_last page F =
     (if page \<noteq> 0 \<and> usagePolicy F = REMOVE_AFTER_USED
      then case map_of (f_pages F) (page - 1) of
             None \<Rightarrow> Inl (Exit ''assert'')
           | Some info \<Rightarrow>
               let n = (numUsers info + 2 ^ 64 - 1) mod 2 ^ 64;
                   F1 = F\<lparr>f_pages := map_put (page - 1) (info\<lparr>numUsers := n\<rparr>) (f_pages F)\<rparr>
               in if n = 0
                  then let F2 = F1\<lparr>pinned := (pinned F1)(f_page info := False)\<rparr>
                       in Inr (if timesServed info = numReaders F then F2\<lparr>f_pages := map_erase (page - 1) (f_pages F2)\<rparr> else F2)
                  else Inr F1
      else Inr F)"

definition serve :: "nat \<Rightarrow> 'p feeding \<Rightarrow> ('p \<times> 'p feeding) result" where
  "serve page F =
     (case map_of (f_pages F) page of
        None \<Rightarrow> Inl (Exit ''assert'')
      | Some info \<Rightarrow>
          let F1 = (if usagePolicy F = REMOVE_AFTER_USED
                    then F\<lparr>f_pages := map_put page (info\<lparr>numUsers := (numUsers info + 1) mod 2 ^ 64,
                             timesServed := (timesServed info + 1) mod 2 ^ 64\<rparr>) (f_pages F)\<rparr>
                    else F)
          in Inr (f_page info, F1\<lparr>pinned := (pinned F1)(f_page info := True)\<rparr>))"

definition Feeding_getNextPage_finish :: "nat \<Rightarrow> 'p feeding \<Rightarrow> ('p option \<times> 'p feeding) result" where
  "Feeding_getNextPage_finish page F =
     (if numFinishedFeeders F = numFeeders F \<and> nextPage F = page then Inr (None, F)
      else andThen (release_last page F) (\<lambda>F1. andThen (serve page F1) (\<lambda>(p, F2). Inr (Some p, F2))))"

definition Feeding_getNextPage :: "nat \<Rightarrow> 'p feeding \<Rightarrow> ('p option \<times> 'p feeding) result" where
  "Feeding_getNextPage workerID F =
     andThen (Feeding_getNextPage_begin workerID F) (\<lambda>(page, F1).
       if Feeding_ready page F1 then Feeding_getNextPage_finish page F1 else Inl (Blocks ''cv''))"

definition feedPage :: "'p \<Rightarrow> 'p feeding \<Rightarrow> 'p feeding result" where
  "feedPage page F =
     (if numFinishedFeeders F = numFeeders F then Inl (Throw ''Trying to feed pages, when all feeders have done feeding.'')
      else Inr (F\<lparr>f_pages := (if map_of (f_pages F) (nextPage F) = None
                                then map_put (nextPage F) \<lparr>f_page = page, numUsers = 0, timesServed = 0\<rparr> (f_pages F) else f_pages F),
                  nextPage := (nextPage F + 1) mod 2 ^ 64\<rparr>))"

definition finishFeeding :: "'p feeding \<Rightarrow> 'p feeding" where
  "finishFeeding F = F\<lparr>numFinishedFeeders := (numFinishedFeeders F + 1) mod 2 ^ 64\<rparr>"

definition Feeding_resetPageSet :: "'p feeding \<Rightarrow> 'p feeding" where
  "Feeding_resetPageSet F = F\<lparr>nextForWorker := map (\<lambda>_. 0) (nextForWorker F)\<rparr>"

definition setUsagePolicy :: "usage_policy \<Rightarrow> 'p feeding \<Rightarrow> 'p feeding" where
  "setUsagePolicy policy F = F\<lparr>usagePolicy := policy\<rparr>"

section \<open>What a source relies on\<close>

text \<open>The pages a worker has yet to see (\<open>rest\<close>) come one by one, then null.\<close>

locale page_source =
  fixes nextp :: "'s \<Rightarrow> ('p option \<times> 's) result"
    and rest :: "'s \<Rightarrow> 'p list"
    and ok :: "'s \<Rightarrow> bool"
  assumes next_none: "ok s \<Longrightarrow> rest s = [] \<Longrightarrow> \<exists>s'. nextp s = Inr (None, s')"
    and next_some: "ok s \<Longrightarrow> rest s = p # ps \<Longrightarrow> \<exists>s'. nextp s = Inr (Some p, s') \<and> rest s' = ps \<and> ok s'"
begin

lemma next_cases:
  assumes "ok s"
  obtains (none) s' where "rest s = []" and "nextp s = Inr (None, s')"
  | (page) p s' where "rest s = p # rest s'" and "nextp s = Inr (Some p, s')" and "ok s'"
  using assms next_none next_some by (cases "rest s") blast+

end

definition sp_rest :: "(nat \<Rightarrow> 'p) \<Rightarrow> set_page_set \<Rightarrow> 'p list" where
  "sp_rest getPage S = map getPage (drop (sp_curPage S) (sp_pages S))"

definition sp_ok :: "set_page_set \<Rightarrow> bool" where
  "sp_ok S \<longleftrightarrow> sp_curPage S \<le> length (sp_pages S) \<and> length (sp_pages S) < 2 ^ 64"

interpretation stored: page_source "SetPageSet_getNextPage getPage w" "sp_rest getPage" sp_ok
proof
  fix S :: set_page_set
  assume ok: "sp_ok S"
  show "\<exists>s'. SetPageSet_getNextPage getPage w S = Inr (None, s')" if "sp_rest getPage S = []"
    using that by (simp add: sp_rest_def SetPageSet_getNextPage_def Let_def)
  fix p ps
  assume "sp_rest getPage S = p # ps"
  then have "sp_curPage S < length (sp_pages S)" and d: "map getPage (drop (sp_curPage S) (sp_pages S)) = p # ps"
    by (auto simp: sp_rest_def intro: ccontr)
  then show "\<exists>s'. SetPageSet_getNextPage getPage w S = Inr (Some p, s') \<and> sp_rest getPage s' = ps \<and> sp_ok s'"
    using ok by (auto simp: SetPageSet_getNextPage_def Let_def sp_rest_def sp_ok_def Cons_nth_drop_Suc [symmetric])
qed

text \<open>The pages of an anonymous set from an iterator on.\<close>

definition pages_from :: "nat option \<Rightarrow> (nat \<times> 'p) list \<Rightarrow> 'p list" where
  "pages_from it m = (case it of None \<Rightarrow> [] | Some k \<Rightarrow> map snd (filter (\<lambda>e. k \<le> fst e) m))"

definition ap_iter :: "nat \<Rightarrow> 'p anon_page_set \<Rightarrow> nat option" where
  "ap_iter w S = (case nextPageForWorker S (if accessPattern S = CONCURRENT then w else 0) of
     None \<Rightarrow> map_begin (ap_pages S) | Some it \<Rightarrow> it)"

definition ap_rest :: "nat \<Rightarrow> 'p anon_page_set \<Rightarrow> 'p list" where
  "ap_rest w S = pages_from (ap_iter w S) (ap_pages S)"

definition ap_ok :: "'p anon_page_set \<Rightarrow> bool" where
  "ap_ok S \<longleftrightarrow> map_ok (ap_pages S) \<and> (\<forall>w k. nextPageForWorker S w = Some (Some k) \<longrightarrow> k \<in> fst ` set (ap_pages S))"

lemma pages_from_begin: "map_ok m \<Longrightarrow> pages_from (map_begin m) m = map snd m"
  by (cases m) (auto simp: pages_from_def map_begin_def map_ok_def less_imp_le intro!: filter_True)

lemma map_next_in: "map_next k m = Some j \<Longrightarrow> j \<in> fst ` set m"
  by (induction k m rule: map_next.induct) (auto split: if_splits)

lemma pages_from_next:
  "map_ok m \<Longrightarrow> map_of m k = Some p \<Longrightarrow> pages_from (Some k) m = p # pages_from (map_next k m) m"
proof (induction k m rule: map_next.induct)
  case (2 k a v m)
  have s: "map_ok m" "\<And>e. e \<in> set m \<Longrightarrow> a < fst e" using 2(2) by (auto simp: map_ok_def)
  show ?case
  proof (cases "a = k")
    case True
    have "map_next k m = map_begin m"
    proof (cases m)
      case (Cons e l)
      then have "a < fst e" using s(2) by simp
      then show ?thesis using True Cons by (cases e) (simp add: map_begin_def)
    qed (simp add: map_begin_def)
    moreover have "pages_from (map_begin m) ((a, v) # m) = pages_from (map_begin m) m"
      using s(2) [of "hd m"] by (cases m) (auto simp: pages_from_def map_begin_def)
    ultimately show ?thesis
      using 2(3) True s pages_from_begin [OF s(1)] by (auto simp: pages_from_def less_imp_le intro!: filter_True [symmetric])
  next
    case False
    then have m: "map_of m k = Some p" using 2(3) by simp
    then have "a < k" using s(2) by (force dest: map_of_SomeD)
    moreover have "pages_from (map_next k m) ((a, v) # m) = pages_from (map_next k m) m"
    proof (cases "map_next k m")
      case (Some j)
      then obtain v' where "(j, v') \<in> set m" using map_next_in [OF Some] by auto
      then have "a < j" using s(2) by force
      then show ?thesis using Some by (simp add: pages_from_def)
    qed (simp add: pages_from_def)
    ultimately show ?thesis using 2(1) s(1) m by (simp add: pages_from_def not_less)
  qed
qed simp

lemma ap_next_step:
  assumes "ap_ok S"
  shows "AnonPageSet_getNextPage w S =
    (let v = (if accessPattern S = CONCURRENT then w else 0) in
     case ap_iter w S of
       None \<Rightarrow> Inr (None, if ap_pages S = [] then S else S\<lparr>nextPageForWorker := (nextPageForWorker S)(v := Some None)\<rparr>)
     | Some k \<Rightarrow> Inr (Some (the (map_of (ap_pages S) k)),
         S\<lparr>nextPageForWorker := (nextPageForWorker S)(v := Some (map_next k (ap_pages S)))\<rparr>))"
proof (cases "ap_iter w S")
  case None
  then show ?thesis by (auto simp: AnonPageSet_getNextPage_def ap_iter_def Let_def split: option.splits)
next
  case (Some k)
  have "k \<in> fst ` set (ap_pages S)"
    using Some assms by (cases "ap_pages S") (auto simp: ap_iter_def ap_ok_def map_begin_def split: option.splits)
  then obtain p where "map_of (ap_pages S) k = Some p" "ap_pages S \<noteq> []"
    by (metis domIff dom_map_of_conv_image_fst empty_iff image_is_empty list.set(1) not_Some_eq)
  then show ?thesis
    using Some by (auto simp: AnonPageSet_getNextPage_def ap_iter_def Let_def split: option.splits)
qed

lemma ap_iter_upd [simp]:
  "ap_iter w (S\<lparr>nextPageForWorker := (nextPageForWorker S)(v := Some it)\<rparr>) =
     (if (if accessPattern S = CONCURRENT then w else 0) = v then it else ap_iter w S)"
  by (simp add: ap_iter_def split: option.splits)

lemma ap_iter_valid:
  assumes "ap_ok S" and "ap_iter w S = Some k"
  obtains p where "map_of (ap_pages S) k = Some p"
proof -
  have "k \<in> fst ` set (ap_pages S)"
    using assms by (cases "ap_pages S") (auto simp: ap_iter_def ap_ok_def map_begin_def split: option.splits)
  then show thesis using that by (metis domIff dom_map_of_conv_image_fst not_Some_eq)
qed

lemma ap_ok_upd:
  "ap_ok S \<Longrightarrow> (\<And>k. it = Some k \<Longrightarrow> k \<in> fst ` set (ap_pages S)) \<Longrightarrow>
    ap_ok (S\<lparr>nextPageForWorker := (nextPageForWorker S)(v := Some it)\<rparr>)"
  by (auto simp: ap_ok_def)

lemma anonymous_rest_all:
  assumes "map_ok (ap_pages A)"
  shows "ap_ok (AnonPageSet_resetPageSet A)" "ap_rest w (AnonPageSet_resetPageSet A) = map snd (ap_pages A)"
  using assms pages_from_begin [OF assms] by (simp_all add: AnonPageSet_resetPageSet_def ap_ok_def ap_rest_def ap_iter_def)

interpretation anonymous: page_source "AnonPageSet_getNextPage w" "ap_rest w" ap_ok
proof
  fix S :: "'p anon_page_set"
  assume ok: "ap_ok S"
  have m: "map_ok (ap_pages S)" using ok by (simp add: ap_ok_def)
  show "\<exists>s'. AnonPageSet_getNextPage w S = Inr (None, s')" if "ap_rest w S = []"
  proof (cases "ap_iter w S")
    case (Some k)
    then show ?thesis using that ap_iter_valid [OF ok Some] pages_from_next [OF m] by (metis ap_rest_def list.distinct(1))
  qed (simp add: ap_next_step [OF ok] Let_def)
  fix p ps
  assume r: "ap_rest w S = p # ps"
  then obtain k where k: "ap_iter w S = Some k" by (cases "ap_iter w S") (auto simp: ap_rest_def pages_from_def)
  obtain q where q: "map_of (ap_pages S) k = Some q" using ap_iter_valid [OF ok k] .
  then have "p = q" "ps = pages_from (map_next k (ap_pages S)) (ap_pages S)"
    using r k pages_from_next [OF m q] by (simp_all add: ap_rest_def)
  then show "\<exists>s'. AnonPageSet_getNextPage w S = Inr (Some p, s') \<and> ap_rest w s' = ps \<and> ap_ok s'"
    using k q ap_ok_upd [OF ok map_next_in] by (auto simp: ap_next_step [OF ok] Let_def ap_rest_def)
qed

text \<open>A sequence of calls by several workers.\<close>

fun anon_calls :: "nat list \<Rightarrow> 'p anon_page_set \<Rightarrow> ('p option list \<times> 'p anon_page_set) result" where
  "anon_calls [] S = Inr ([], S)"
| "anon_calls (w # ws) S =
     andThen (AnonPageSet_getNextPage w S) (\<lambda>(p, S1). andThen (anon_calls ws S1) (\<lambda>(ps, S2). Inr (p # ps, S2)))"

definition nth_page :: "nat \<Rightarrow> 'p list \<Rightarrow> 'p option" where
  "nth_page i ps = (if i < length ps then Some (ps ! i) else None)"

definition page_turn :: "access_pattern \<Rightarrow> nat list \<Rightarrow> nat \<Rightarrow> nat" where
  "page_turn pattern ws i = (if pattern = CONCURRENT then count_list (take i ws) (ws ! i) else i)"

lemma ap_rest_other:
  assumes "ap_ok S" and "AnonPageSet_getNextPage w S = Inr (p, S')"
  shows "ap_rest v S' = (if accessPattern S = CONCURRENT \<and> v \<noteq> w then ap_rest v S else tl (ap_rest w S)) \<and>
    ap_ok S' \<and> accessPattern S' = accessPattern S \<and> ap_pages S' = ap_pages S \<and> p = nth_page 0 (ap_rest w S)"
proof (cases "ap_iter w S")
  case None
  moreover have "ap_iter v S = None" if "accessPattern S \<noteq> CONCURRENT" using None that by (simp add: ap_iter_def)
  ultimately show ?thesis
    using assms ap_ok_upd [OF assms(1), of None]
    by (auto simp: ap_next_step [OF assms(1)] Let_def ap_rest_def pages_from_def nth_page_def split: if_splits option.splits)
next
  case (Some k)
  obtain q where q: "map_of (ap_pages S) k = Some q" using ap_iter_valid [OF assms(1) Some] .
  have m: "map_ok (ap_pages S)" using assms(1) by (simp add: ap_ok_def)
  show ?thesis
    using assms(2) Some q pages_from_next [OF m q] ap_ok_upd [OF assms(1) map_next_in]
    by (auto simp: ap_next_step [OF assms(1)] Let_def ap_rest_def nth_page_def split: if_splits)
qed

lemma nth_page_tl: "nth_page i (tl xs) = nth_page (Suc i) xs"
  by (auto simp: nth_page_def nth_tl)

lemma anon_calls_turns:
  assumes "ap_ok S" and "\<forall>w. ap_rest w S = rs w" and "accessPattern S \<noteq> CONCURRENT \<longrightarrow> (\<forall>v w. rs v = rs w)"
  shows "\<exists>S'. anon_calls ws S = Inr (map (\<lambda>i. nth_page (page_turn (accessPattern S) ws i) (rs (ws ! i))) [0..<length ws], S')"
  using assms
proof (induction ws arbitrary: S rs)
  case (Cons w ws)
  obtain p S1 where c: "AnonPageSet_getNextPage w S = Inr (p, S1)"
    using anonymous.next_cases [OF Cons.prems(1), of w] by metis
  note o = ap_rest_other [OF Cons.prems(1) c]
  let ?rs = "\<lambda>v. if accessPattern S = CONCURRENT \<and> v \<noteq> w then rs v else tl (rs w)"
  have "\<exists>S'. anon_calls ws S1 = Inr (map (\<lambda>i. nth_page (page_turn (accessPattern S1) ws i) (?rs (ws ! i))) [0..<length ws], S')"
    using o Cons.prems(2,3) by (intro Cons.IH) auto
  then obtain S' where r: "anon_calls ws S1 = Inr (map (\<lambda>i. nth_page (page_turn (accessPattern S1) ws i) (?rs (ws ! i))) [0..<length ws], S')" by blast
  have "nth_page (page_turn (accessPattern S1) ws i) (?rs (ws ! i)) = nth_page (page_turn (accessPattern S) (w # ws) (Suc i)) (rs (ws ! i))" for i
    using o Cons.prems(3) [rule_format, of "ws ! i" w] by (auto simp: page_turn_def nth_page_tl)
  moreover have "p = nth_page 0 (rs w)" using o Cons.prems(2) by simp
  ultimately show ?case
    using c r by (simp add: upt_rec [of 0 "Suc _"] map_Suc_upt [symmetric] comp_def page_turn_def del: upt_Suc)
qed simp

text \<open>
  C34: after the access order of an anonymous page set is chosen, its pages are shared out as the order says, for any
  interleaving of the workers' calls: in concurrent order the calls of each worker run through all pages, each
  once; in sequential order the calls of all workers together do.
\<close>

theorem anonymous_pages_shared_out:
  assumes "map_ok (ap_pages S)"
  shows "\<exists>S'. anon_calls ws (AnonPageSet_setAccessOrder pattern S) =
    Inr (map (\<lambda>i. nth_page (page_turn pattern ws i) (map snd (ap_pages S))) [0..<length ws], S')"
proof -
  let ?S = "AnonPageSet_setAccessOrder pattern S"
  have "ap_ok ?S" using assms by (simp add: ap_ok_def AnonPageSet_setAccessOrder_def)
  moreover have "ap_rest w ?S = map snd (ap_pages S)" for w
    using pages_from_begin [OF assms] by (simp add: ap_rest_def ap_iter_def AnonPageSet_setAccessOrder_def)
  ultimately show ?thesis
    using anon_calls_turns [of ?S "\<lambda>_. map snd (ap_pages S)" ws] by (simp add: AnonPageSet_setAccessOrder_def)
qed

definition demo_anon :: "nat anon_page_set" where
  "demo_anon = AnonPageSet_getNewPage 1 11 (AnonPageSet_getNewPage 0 10 AnonPageSet_new)"

theorem anonymous_pages_shared_out_witness:
  "\<exists>S'. anon_calls [0, 1, 0, 1, 0] (AnonPageSet_setAccessOrder CONCURRENT demo_anon) =
    Inr ([Some 10, Some 10, Some 11, Some 11, None], S')"
proof -
  have "map_ok (ap_pages demo_anon)"
    by (simp add: demo_anon_def AnonPageSet_getNewPage_def AnonPageSet_new_def map_ok_def)
  from anonymous_pages_shared_out [OF this, of "[0, 1, 0, 1, 0]" CONCURRENT] show ?thesis
    by (simp add: demo_anon_def AnonPageSet_getNewPage_def AnonPageSet_new_def upt_rec nth_page_def page_turn_def)
qed

section \<open>Feeders and readers\<close>

text \<open>
  The threads of a feeding page set. A state also records what was fed, where each reader is in its call, and what it has received. A reader that got null
  does not call again, and the page set is not reset while it is in use.
\<close>

datatype reader = Idle | Waiting nat | Finished

type_synonym 'p feed_sys = "'p feeding \<times> 'p list \<times> (nat \<Rightarrow> reader) \<times> (nat \<Rightarrow> 'p list)"

inductive feed_step :: "'p feed_sys \<Rightarrow> 'p feed_sys \<Rightarrow> bool" where
  fs_feed: "feedPage p F = Inr F' \<Longrightarrow> p \<notin> set fed \<Longrightarrow> nextPage F + 2 < 2 ^ 64 \<Longrightarrow> feed_step (F, fed, rs, got) (F', fed @ [p], rs, got)"
| fs_finish: "numFinishedFeeders F < numFeeders F \<Longrightarrow> feed_step (F, fed, rs, got) (finishFeeding F, fed, rs, got)"
| fs_begin: "rs w = Idle \<Longrightarrow> w < numReaders F \<Longrightarrow> Feeding_getNextPage_begin w F = Inr (page, F') \<Longrightarrow>
    feed_step (F, fed, rs, got) (F', fed, rs(w := Waiting page), got)"
| fs_null: "rs w = Waiting page \<Longrightarrow> Feeding_ready page F \<Longrightarrow> Feeding_getNextPage_finish page F = Inr (None, F') \<Longrightarrow>
    feed_step (F, fed, rs, got) (F', fed, rs(w := Finished), got)"
| fs_page: "rs w = Waiting page \<Longrightarrow> Feeding_ready page F \<Longrightarrow> Feeding_getNextPage_finish page F = Inr (Some p, F') \<Longrightarrow>
    feed_step (F, fed, rs, got) (F', fed, rs(w := Idle), got(w := got w @ [p]))"

inductive feed_reachable :: "'p feed_sys \<Rightarrow> bool" where
  fr_new: "readers < 2 ^ 64 \<Longrightarrow> feeders < 2 ^ 64 \<Longrightarrow>
    feed_reachable (setUsagePolicy policy (FeedingPageSet_new readers feeders pins), [], \<lambda>_. Idle, \<lambda>_. [])"
| fr_step: "feed_reachable s \<Longrightarrow> feed_step s s' \<Longrightarrow> feed_reachable s'"

text \<open>How many pages a reader has been served, the users of a page and how often it was served.\<close>

definition served :: "'p feeding \<Rightarrow> (nat \<Rightarrow> reader) \<Rightarrow> nat \<Rightarrow> nat" where
  "served F rs w = (case rs w of Idle \<Rightarrow> nextForWorker F ! w | Waiting page \<Rightarrow> page | Finished \<Rightarrow> nextPage F)"

definition users :: "nat \<Rightarrow> (nat \<Rightarrow> nat) \<Rightarrow> nat \<Rightarrow> nat" where
  "users n sv i = length (filter (\<lambda>w. sv w = Suc i) [0..<n])"

definition servings :: "nat \<Rightarrow> (nat \<Rightarrow> nat) \<Rightarrow> nat \<Rightarrow> nat" where
  "servings n sv i = length (filter (\<lambda>w. i < sv w) [0..<n])"

definition fed_info :: "usage_policy \<Rightarrow> nat \<Rightarrow> 'p list \<Rightarrow> (nat \<Rightarrow> nat) \<Rightarrow> nat \<Rightarrow> 'p feed_info option" where
  "fed_info pol n fed sv i =
     (if length fed \<le> i then None
      else if pol = KEEP_AFTER_USED then Some \<lparr>f_page = fed ! i, numUsers = 0, timesServed = 0\<rparr>
      else if 0 < n \<and> users n sv i = 0 \<and> servings n sv i = n then None
      else Some \<lparr>f_page = fed ! i, numUsers = users n sv i, timesServed = servings n sv i\<rparr>)"

definition feed_inv :: "'p feed_sys \<Rightarrow> bool" where
  "feed_inv = (\<lambda>(F, fed, rs, got).
     nextPage F = length fed \<and> length fed + 1 < 2 ^ 64 \<and> distinct fed \<and>
     numFinishedFeeders F \<le> numFeeders F \<and> numFeeders F < 2 ^ 64 \<and> numReaders F < 2 ^ 64 \<and>
     length (nextForWorker F) = numReaders F \<and> map_ok (f_pages F) \<and>
     (\<forall>w. rs w \<noteq> Idle \<longrightarrow> w < numReaders F) \<and>
     (\<forall>w < numReaders F. served F rs w \<le> length fed \<and> got w = take (served F rs w) fed \<and>
        (rs w = Finished \<longrightarrow> numFinishedFeeders F = numFeeders F)) \<and>
     map_of (f_pages F) = fed_info (usagePolicy F) (numReaders F) fed (served F rs) \<and>
     (\<forall>i < length fed. usagePolicy F = REMOVE_AFTER_USED \<longrightarrow> 0 < users (numReaders F) (served F rs) i \<longrightarrow> pinned F (fed ! i)) \<and>
     (\<forall>w page. rs w = Waiting page \<longrightarrow> nextForWorker F ! w = Suc page))"

lemma feed_invD:
  assumes "feed_inv (F, fed, rs, got)"
  shows "nextPage F = length fed" "length fed + 1 < 2 ^ 64" "distinct fed" "numFinishedFeeders F \<le> numFeeders F"
    "numFeeders F < 2 ^ 64" "numReaders F < 2 ^ 64" "length (nextForWorker F) = numReaders F" "map_ok (f_pages F)"
    "\<And>w. rs w \<noteq> Idle \<Longrightarrow> w < numReaders F"
    "\<And>w. w < numReaders F \<Longrightarrow> served F rs w \<le> length fed"
    "\<And>w. w < numReaders F \<Longrightarrow> got w = take (served F rs w) fed"
    "\<And>w. w < numReaders F \<Longrightarrow> rs w = Finished \<Longrightarrow> numFinishedFeeders F = numFeeders F"
    "map_of (f_pages F) = fed_info (usagePolicy F) (numReaders F) fed (served F rs)"
    "\<And>i. i < length fed \<Longrightarrow> usagePolicy F = REMOVE_AFTER_USED \<Longrightarrow> 0 < users (numReaders F) (served F rs) i \<Longrightarrow> pinned F (fed ! i)"
    "\<And>w page. rs w = Waiting page \<Longrightarrow> nextForWorker F ! w = Suc page"
  using assms unfolding feed_inv_def prod.case by blast+

lemma users_cong: "(\<And>w. w < n \<Longrightarrow> sv w = sv' w) \<Longrightarrow> users n sv i = users n sv' i"
  unfolding users_def by (intro arg_cong [where f = length] filter_cong) auto

lemma servings_cong: "(\<And>w. w < n \<Longrightarrow> sv w = sv' w) \<Longrightarrow> servings n sv i = servings n sv' i"
  unfolding servings_def by (intro arg_cong [where f = length] filter_cong) auto

lemma fed_info_cong: "(\<And>w. w < n \<Longrightarrow> sv w = sv' w) \<Longrightarrow> fed_info pol n fed sv = fed_info pol n fed sv'"
  using users_cong [of n sv sv'] servings_cong [of n sv sv'] by (auto simp: fed_info_def fun_eq_iff)

lemma users_le: "users n sv i \<le> n" "servings n sv i \<le> n"
  using length_filter_le [of _ "[0..<n]"] by (simp_all add: users_def servings_def)

text \<open>The reader \<open>w\<close> goes on from page \<open>p - 1\<close> to page \<open>p\<close>.\<close>

lemma users_move:
  assumes "w < n" and "sv w = p"
  shows "users n (sv(w := Suc p)) p = Suc (users n sv p)"
    and "0 < p \<Longrightarrow> Suc (users n (sv(w := Suc p)) (p - 1)) = users n sv (p - 1)"
    and "i \<noteq> p \<Longrightarrow> Suc i \<noteq> p \<Longrightarrow> users n (sv(w := Suc p)) i = users n sv i"
proof -
  show "users n (sv(w := Suc p)) p = Suc (users n sv p)"
    unfolding users_def by (rule length_filter_flip [where r = w]) (use assms in auto)
  show "Suc (users n (sv(w := Suc p)) (p - 1)) = users n sv (p - 1)" if "0 < p"
    unfolding users_def by (rule sym, rule length_filter_flip [where r = w]) (use assms that in auto)
  show "users n (sv(w := Suc p)) i = users n sv i" if "i \<noteq> p" "Suc i \<noteq> p"
    unfolding users_def by (intro arg_cong [where f = length] filter_cong) (use assms that in auto)
qed

lemma servings_move:
  assumes "w < n" and "sv w = p"
  shows "servings n (sv(w := Suc p)) p = Suc (servings n sv p)"
    and "i \<noteq> p \<Longrightarrow> servings n (sv(w := Suc p)) i = servings n sv i"
proof -
  show "servings n (sv(w := Suc p)) p = Suc (servings n sv p)"
    unfolding servings_def by (rule length_filter_flip [where r = w]) (use assms in auto)
  show "servings n (sv(w := Suc p)) i = servings n sv i" if "i \<noteq> p"
    unfolding servings_def by (intro arg_cong [where f = length] filter_cong) (use assms that in auto)
qed

lemma servings_less: "w < n \<Longrightarrow> sv w \<le> i \<Longrightarrow> servings n sv i < n"
  using length_filter_less [of w "[0..<n]" "\<lambda>w. i < sv w"] by (simp add: servings_def)

lemma users_pos: "w < n \<Longrightarrow> sv w = Suc i \<Longrightarrow> 0 < users n sv i"
  by (auto simp: users_def filter_empty_conv)

definition same_feeding :: "'p feeding \<Rightarrow> 'p feeding \<Rightarrow> bool" where
  "same_feeding F F' \<longleftrightarrow> usagePolicy F' = usagePolicy F \<and> nextForWorker F' = nextForWorker F \<and>
     numFinishedFeeders F' = numFinishedFeeders F \<and> numFeeders F' = numFeeders F \<and> numReaders F' = numReaders F \<and> nextPage F' = nextPage F"

lemma release_last_ok:
  assumes m: "map_ok (f_pages F)" "map_of (f_pages F) = fed_info (usagePolicy F) (numReaders F) fed sv"
    and w: "w < numReaders F" "sv w = p" "p < length fed" and n: "numReaders F < 2 ^ 64"
  shows "\<exists>F'. release_last p F = Inr F' \<and> same_feeding F F' \<and> map_ok (f_pages F') \<and>
    map_of (f_pages F') = (fed_info (usagePolicy F) (numReaders F) fed (sv(w := Suc p)))(p := map_of (f_pages F) p) \<and>
    (\<forall>q. pinned F q \<and> (0 < p \<longrightarrow> q = fed ! (p - 1) \<longrightarrow> 0 < users (numReaders F) (sv(w := Suc p)) (p - 1)) \<longrightarrow> pinned F' q)"
proof -
  let ?n = "numReaders F" and ?sv = "sv(w := Suc p)"
  have other: "fed_info (usagePolicy F) ?n fed ?sv i = map_of (f_pages F) i" if "i \<noteq> p" "Suc i \<noteq> p" for i
    using users_move(3) [of w ?n sv p i] servings_move(2) [of w ?n sv p i] w that by (simp add: m(2) fed_info_def)
  show ?thesis
  proof (cases "p \<noteq> 0 \<and> usagePolicy F = REMOVE_AFTER_USED")
    case True
    then obtain q where q: "p = Suc q" by (cases p) auto
    have qp: "q \<noteq> p" "q < length fed" using q w(3) by auto
    have u: "Suc (users ?n ?sv q) = users ?n sv q" using users_move(2) [of w ?n sv p] w q by simp
    have t: "servings ?n ?sv q = servings ?n sv q" using servings_move(2) [of w ?n sv p q] w qp(1) by simp
    have i: "map_of (f_pages F) q = Some \<lparr>f_page = fed ! q, numUsers = users ?n sv q, timesServed = servings ?n sv q\<rparr>"
      using True qp(2) u by (auto simp: m(2) fed_info_def)
    have less: "users ?n ?sv q < 2 ^ 64" using users_le(1) [of ?n ?sv q] n by linarith
    have wrap: "(users ?n sv q + 2 ^ 64 - 1) mod 2 ^ 64 = users ?n ?sv q"
      using less unfolding u [symmetric] by simp
    have eq: "fed_info (usagePolicy F) ?n fed ?sv q = (if users ?n ?sv q = 0 \<and> servings ?n sv q = ?n then None
        else Some \<lparr>f_page = fed ! q, numUsers = users ?n ?sv q, timesServed = servings ?n sv q\<rparr>)"
      using True qp(2) w(1) t by (simp add: fed_info_def)
    have mp: "(fed_info (usagePolicy F) ?n fed ?sv)(p := map_of (f_pages F) p) = (map_of (f_pages F))(q := fed_info (usagePolicy F) ?n fed ?sv q)"
      using other q by (auto simp: fun_eq_iff)
    show ?thesis
      unfolding mp eq using True i wrap m(1)
      by (auto simp: q release_last_def Let_def same_feeding_def map_ok_put map_ok_erase map_of_map_put map_of_map_erase split: if_splits)
  next
    case False
    have "fed_info (usagePolicy F) ?n fed ?sv i = map_of (f_pages F) i" if "i \<noteq> p" for i
      using other [OF that] False by (cases "Suc i = p") (auto simp: m(2) fed_info_def usage_policy.exhaust intro: usage_policy.exhaust)
    then have "(fed_info (usagePolicy F) ?n fed ?sv)(p := map_of (f_pages F) p) = map_of (f_pages F)" by (auto simp: fun_eq_iff)
    then show ?thesis using False m(1) by (auto simp: release_last_def same_feeding_def)
  qed
qed

lemma serve_ok:
  assumes m: "map_ok (f_pages F)" "map_of (f_pages F) = M(p := fed_info (usagePolicy F) (numReaders F) fed sv p)"
    and w: "w < numReaders F" "sv w = p" "p < length fed" and n: "numReaders F < 2 ^ 64"
    and M: "M = (fed_info (usagePolicy F) (numReaders F) fed (sv(w := Suc p)))"
  shows "\<exists>F'. serve p F = Inr (fed ! p, F') \<and> same_feeding F F' \<and> map_ok (f_pages F') \<and> map_of (f_pages F') = M \<and>
    pinned F' = (pinned F)(fed ! p := True)"
proof -
  let ?n = "numReaders F" and ?sv = "sv(w := Suc p)"
  have u: "users ?n ?sv p = Suc (users ?n sv p)" "servings ?n ?sv p = Suc (servings ?n sv p)"
    using users_move(1) [of w ?n sv p] servings_move(1) [of w ?n sv p] w by simp_all
  have t: "servings ?n sv p < ?n" using servings_less [of w ?n sv p] w by simp
  have less: "Suc (users ?n sv p) < 2 ^ 64" "Suc (servings ?n sv p) < 2 ^ 64"
    using users_le [of ?n ?sv p] n u by linarith+
  show ?thesis
  proof (cases "usagePolicy F")
    case REMOVE_AFTER_USED
    then have "fed_info (usagePolicy F) ?n fed sv p = Some \<lparr>f_page = fed ! p, numUsers = users ?n sv p, timesServed = servings ?n sv p\<rparr>"
      "M p = Some \<lparr>f_page = fed ! p, numUsers = Suc (users ?n sv p), timesServed = Suc (servings ?n sv p)\<rparr>"
      using w(3) t u by (simp_all add: fed_info_def M)
    then show ?thesis
      using REMOVE_AFTER_USED m less by (auto simp: serve_def same_feeding_def map_ok_put map_of_map_put)
  next
    case KEEP_AFTER_USED
    then have "fed_info (usagePolicy F) ?n fed sv p = Some \<lparr>f_page = fed ! p, numUsers = 0, timesServed = 0\<rparr>"
      "M p = Some \<lparr>f_page = fed ! p, numUsers = 0, timesServed = 0\<rparr>"
      using w(3) by (simp_all add: fed_info_def M)
    then show ?thesis using KEEP_AFTER_USED m by (auto simp: serve_def same_feeding_def)
  qed
qed

lemma served_simps:
  "rs w = Idle \<Longrightarrow> served F rs w = nextForWorker F ! w"
  "rs w = Waiting page \<Longrightarrow> served F rs w = page"
  "rs w = Finished \<Longrightarrow> served F rs w = nextPage F"
  by (simp_all add: served_def)

text \<open>A call that does not have to wait returns the reader's next page, or null after the last one.\<close>

lemma finish_ok:
  assumes inv: "feed_inv (F, fed, rs, got)" and w: "rs w = Waiting page" and ready: "Feeding_ready page F"
  shows "(page = length fed \<and> numFinishedFeeders F = numFeeders F \<and> Feeding_getNextPage_finish page F = Inr (None, F)) \<or>
    (page < length fed \<and> (\<exists>F'. Feeding_getNextPage_finish page F = Inr (Some (fed ! page), F') \<and> same_feeding F F' \<and> map_ok (f_pages F') \<and>
       map_of (f_pages F') = fed_info (usagePolicy F) (numReaders F) fed ((served F rs)(w := Suc page)) \<and>
       (\<forall>q. pinned F q \<and> (0 < page \<longrightarrow> q = fed ! (page - 1) \<longrightarrow> 0 < users (numReaders F) ((served F rs)(w := Suc page)) (page - 1)) \<longrightarrow> pinned F' q) \<and>
       pinned F' (fed ! page)))"
proof -
  note D = feed_invD [OF inv]
  have wn: "w < numReaders F" using D(9) w by simp
  have sv: "served F rs w = page" using w by (simp add: served_def)
  show ?thesis
  proof (cases "page < length fed")
    case True
    obtain F1 where r: "release_last page F = Inr F1" "same_feeding F F1" "map_ok (f_pages F1)"
      "map_of (f_pages F1) = (fed_info (usagePolicy F) (numReaders F) fed ((served F rs)(w := Suc page)))(page := map_of (f_pages F) page)"
      "\<forall>q. pinned F q \<and> (0 < page \<longrightarrow> q = fed ! (page - 1) \<longrightarrow> 0 < users (numReaders F) ((served F rs)(w := Suc page)) (page - 1)) \<longrightarrow> pinned F1 q"
      using release_last_ok [OF D(8,13) wn sv True D(6)] by blast
    have "\<exists>F2. serve page F1 = Inr (fed ! page, F2) \<and> same_feeding F1 F2 \<and> map_ok (f_pages F2) \<and>
        map_of (f_pages F2) = fed_info (usagePolicy F) (numReaders F) fed ((served F rs)(w := Suc page)) \<and> pinned F2 = (pinned F1)(fed ! page := True)"
      by (rule serve_ok [where w = w and sv = "served F rs"])
        (use r(2-4) wn sv True D(6,13) in \<open>auto simp: same_feeding_def\<close>)
    then show ?thesis
      using True r D(1) by (auto simp: Feeding_getNextPage_finish_def same_feeding_def)
  next
    case False
    then have "page = length fed" using D(10) [OF wn] sv by simp
    then show ?thesis using ready D(1) by (auto simp: Feeding_ready_def Feeding_getNextPage_finish_def)
  qed
qed

lemma feed_step_inv:
  assumes "feed_step s s'" and "feed_inv s"
  shows "feed_inv s'"
  using assms
proof (induction rule: feed_step.induct)
  case (fs_feed p F F' fed rs got)
  note D = feed_invD [OF fs_feed(4)]
  have nf: "numFinishedFeeders F \<noteq> numFeeders F" and F': "F' = F\<lparr>f_pages := (if map_of (f_pages F) (nextPage F) = None
      then map_put (nextPage F) \<lparr>f_page = p, numUsers = 0, timesServed = 0\<rparr> (f_pages F) else f_pages F), nextPage := (nextPage F + 1) mod 2 ^ 64\<rparr>"
    using fs_feed(1) by (auto simp: feedPage_def split: if_splits)
  have sv: "served F' rs w = served F rs w" if "w < numReaders F" for w
    using D(12) [OF that] nf by (cases "rs w") (auto simp: served_def F')
  have us: "users (numReaders F) (served F rs) (length fed) = 0" "servings (numReaders F) (served F rs) (length fed) = 0"
    using D(10) by (force simp: users_def servings_def filter_empty_conv)+
  have "map_of (f_pages F') i = fed_info (usagePolicy F) (numReaders F) (fed @ [p]) (served F rs) i" for i
    using D(1,8,13) us by (auto simp: F' fed_info_def map_of_map_put nth_append)
  then have mp: "map_of (f_pages F') = fed_info (usagePolicy F) (numReaders F) (fed @ [p]) (served F' rs)"
    by (simp add: fun_eq_iff fed_info_cong [of "numReaders F" "served F' rs" "served F rs", OF sv])
  have uc: "users (numReaders F) (served F' rs) i = users (numReaders F) (served F rs) i" for i
    by (rule users_cong) (rule sv)
  have "got w = take (served F rs w) (fed @ [p])" "served F rs w \<le> length (fed @ [p])" if "w < numReaders F" for w
    using D(10,11) [OF that] by auto
  moreover have "pinned F ((fed @ [p]) ! i)" if "i < length (fed @ [p])" "usagePolicy F = REMOVE_AFTER_USED" "0 < users (numReaders F) (served F rs) i" for i
    using that D(14) us(1) by (auto simp: nth_append less_Suc_eq)
  moreover have "nextPage F' = length (fed @ [p])" "map_ok (f_pages F')" "usagePolicy F' = usagePolicy F" "numReaders F' = numReaders F"
    "numFeeders F' = numFeeders F" "numFinishedFeeders F' = numFinishedFeeders F" "nextForWorker F' = nextForWorker F" "pinned F' = pinned F"
    using fs_feed(3) D(1,8) by (simp_all add: F' map_ok_put)
  moreover have "length (fed @ [p]) + 1 < 2 ^ 64" "distinct (fed @ [p])" "\<And>w. w < numReaders F \<Longrightarrow> rs w \<noteq> Finished"
    using fs_feed(2,3) D(1,3,12) nf by auto
  ultimately show ?case
    unfolding feed_inv_def prod.case using D(4-7,9,15) sv mp uc by auto
next
  case (fs_finish F fed rs got)
  note D = feed_invD [OF fs_finish(2)]
  have "served (finishFeeding F) rs = served F rs" by (simp add: fun_eq_iff served_def finishFeeding_def split: reader.splits)
  moreover have "rs w \<noteq> Finished" for w using D(9,12) [of w] fs_finish(1) by auto
  ultimately show ?case using D fs_finish(1) by (simp add: feed_inv_def finishFeeding_def)
next
  case (fs_begin rs w F page F' fed got)
  note D = feed_invD [OF fs_begin(4)]
  have F': "page = nextForWorker F ! w" "F' = F\<lparr>nextForWorker := (nextForWorker F)[w := page + 1]\<rparr>"
    using fs_begin(1-3) D(2) D(10) [of w] by (auto simp: Feeding_getNextPage_begin_def res_simps served_simps D(7))
  have sv: "served F' (rs(w := Waiting page)) v = served F rs v" for v
    using fs_begin(1) by (auto simp: served_def F' split: reader.splits)
  then have "served F' (rs(w := Waiting page)) = served F rs" by blast
  then show ?case using D fs_begin(2) by (auto simp: feed_inv_def F'(2) nth_list_update)
next
  case (fs_null rs w page F F' fed got)
  note D = feed_invD [OF fs_null(4)]
  have p: "page = length fed" "numFinishedFeeders F = numFeeders F" "F' = F"
    using finish_ok [OF fs_null(4,1,2)] fs_null(3) by auto
  have "served F (rs(w := Finished)) = served F rs"
    using fs_null(1) p D(1) by (auto simp: fun_eq_iff served_def)
  then show ?case using D p fs_null(1) by (auto simp: feed_inv_def)
next
  case (fs_page rs w page F p F' fed got)
  note D = feed_invD [OF fs_page(4)]
  have wn: "w < numReaders F" using D(9) fs_page(1) by simp
  let ?sv = "(served F rs)(w := Suc page)"
  from finish_ok [OF fs_page(4,1,2)] fs_page(3) have f: "page < length fed" "p = fed ! page" "same_feeding F F'" "map_ok (f_pages F')"
    "map_of (f_pages F') = fed_info (usagePolicy F) (numReaders F) fed ?sv" "pinned F' (fed ! page)"
    "\<And>q. pinned F q \<Longrightarrow> (0 < page \<Longrightarrow> q = fed ! (page - 1) \<Longrightarrow> 0 < users (numReaders F) ?sv (page - 1)) \<Longrightarrow> pinned F' q"
    by auto
  have sv: "served F' (rs(w := Idle)) = ?sv"
    using fs_page(1) D(15) [OF fs_page(1)] f(3) by (auto simp: fun_eq_iff served_def same_feeding_def split: reader.splits)
  have pin: "pinned F' (fed ! i)" if "i < length fed" "usagePolicy F = REMOVE_AFTER_USED" "0 < users (numReaders F) ?sv i" for i
  proof (cases "i = page")
    case False
    then have "0 < users (numReaders F) (served F rs) i"
      using that(3) users_move(2,3) [of w "numReaders F" "served F rs" page] wn fs_page(1) by (cases "Suc i = page") (auto simp: served_simps)
    then have "pinned F (fed ! i)" by (rule D(14) [OF that(1,2)])
    moreover have "i = page - 1" if "0 < page" "fed ! i = fed ! (page - 1)"
      using nth_eq_iff_index_eq [OF D(3)] f(1) \<open>i < length fed\<close> that by simp
    ultimately show ?thesis using f(7) [of "fed ! i"] that(3) by blast
  qed (use f in simp)
  have "served F rs w = page" using fs_page(1) by (simp add: served_simps)
  then have "got w @ [p] = take (Suc page) fed" using D(11) [OF wn] f(1,2) by (simp add: take_Suc_conv_app_nth)
  then show ?case
    unfolding feed_inv_def prod.case sv using D f pin wn by (auto simp: same_feeding_def)
qed

lemma feed_reachable_inv: "feed_reachable s \<Longrightarrow> feed_inv s"
proof (induction rule: feed_reachable.induct)
  case (fr_new readers feeders policy pins)
  have "users readers (\<lambda>w. replicate readers 0 ! w) i = 0" "servings readers (\<lambda>w. replicate readers 0 ! w) i = 0" for i
    by (auto simp: users_def servings_def filter_empty_conv)
  then show ?case
    using fr_new by (simp add: feed_inv_def setUsagePolicy_def FeedingPageSet_new_def served_def fed_info_def fun_eq_iff)
qed (rule feed_step_inv)

text \<open>
  C10: in every interleaving of feeders and readers a reader has received, each once and in order, an initial part of the
  pages fed, and all of them when it got null; a call that does not have to wait returns and no assertion fails, whatever
  pages the other readers have released; and the page a reader works on is in the set and pinned.
\<close>

theorem feeding_delivers_every_page:
  assumes "feed_reachable (F, fed, rs, got)" and "w < numReaders F"
  shows "got w = take (length (got w)) fed \<and> (rs w = Finished \<longrightarrow> got w = fed \<and> numFinishedFeeders F = numFeeders F) \<and>
    (\<forall>page. rs w = Waiting page \<and> Feeding_ready page F \<longrightarrow>
       (\<exists>F'. Feeding_getNextPage_finish page F = Inr (nth_page (length (got w)) fed, F'))) \<and>
    (usagePolicy F = REMOVE_AFTER_USED \<and> got w \<noteq> [] \<longrightarrow>
       pinned F (last (got w)) \<and> (\<exists>info. map_of (f_pages F) (length (got w) - 1) = Some info \<and> f_page info = last (got w)))"
proof -
  have inv: "feed_inv (F, fed, rs, got)" by (rule feed_reachable_inv [OF assms(1)])
  note D = feed_invD [OF inv]
  have sv: "length (got w) = served F rs w" using D(10,11) [OF assms(2)] by simp
  have ret: "\<exists>F'. Feeding_getNextPage_finish page F = Inr (nth_page page fed, F')" if "rs w = Waiting page" "Feeding_ready page F" for page
    using finish_ok [OF inv that] by (auto simp: nth_page_def)
  have use: "pinned F (last (got w)) \<and> (\<exists>info. map_of (f_pages F) (length (got w) - 1) = Some info \<and> f_page info = last (got w))"
    if r: "usagePolicy F = REMOVE_AFTER_USED" "got w \<noteq> []"
  proof -
    obtain i where i: "served F rs w = Suc i" using r(2) sv by (cases "served F rs w") auto
    then have il: "i < length fed" and l: "last (got w) = fed ! i"
      using D(10,11) [OF assms(2)] by (auto simp: take_Suc_conv_app_nth)
    have u: "0 < users (numReaders F) (served F rs) i" using users_pos [of w "numReaders F" "served F rs" i] assms(2) i by simp
    then show ?thesis using D(14) [OF il r(1) u] il l i sv r(1) by (simp add: D(13) fed_info_def)
  qed
  show ?thesis
    using D(11,12) [OF assms(2)] D(1) sv ret use by (auto simp: served_simps)
qed

text \<open>Once the feeders are done, the set is a source for each of its readers.\<close>

definition feed_rest :: "nat \<Rightarrow> 'p list \<Rightarrow> 'p feeding \<Rightarrow> 'p list" where
  "feed_rest w fed F = drop (nextForWorker F ! w) fed"

definition feed_done :: "nat \<Rightarrow> 'p list \<Rightarrow> 'p feeding \<Rightarrow> bool" where
  "feed_done w fed F \<longleftrightarrow> w < numReaders F \<and> numFinishedFeeders F = numFeeders F \<and> (\<exists>rs got. feed_inv (F, fed, rs, got) \<and> rs w = Idle)"

lemma feeding_call:
  assumes "feed_done w fed F"
  shows "\<exists>F'. Feeding_getNextPage w F = Inr (nth_page (nextForWorker F ! w) fed, F') \<and>
    (nextForWorker F ! w < length fed \<longrightarrow> feed_done w fed F' \<and> nextForWorker F' ! w = Suc (nextForWorker F ! w))"
proof -
  obtain rs got where a: "w < numReaders F" "numFinishedFeeders F = numFeeders F" "feed_inv (F, fed, rs, got)" "rs w = Idle"
    using assms by (auto simp: feed_done_def)
  note D = feed_invD [OF a(3)]
  let ?p = "nextForWorker F ! w" and ?rs = "rs(w := Waiting (nextForWorker F ! w))"
  obtain F1 where b: "Feeding_getNextPage_begin w F = Inr (?p, F1)" using a(1) D(7) by (simp add: Feeding_getNextPage_begin_def vec_at_def)
  have st: "feed_step (F, fed, rs, got) (F1, fed, ?rs, got)" using fs_begin [of rs w F ?p F1] a(1,4) b by simp
  have inv: "feed_inv (F1, fed, ?rs, got)" by (rule feed_step_inv [OF st a(3)])
  have F1: "numFinishedFeeders F1 = numFeeders F1" "numReaders F1 = numReaders F"
    using b a(1,2) D(7) by (auto simp: Feeding_getNextPage_begin_def res_simps)
  then have rd: "Feeding_ready ?p F1" by (simp add: Feeding_ready_def)
  have w: "?rs w = Waiting ?p" by simp
  have call: "Feeding_getNextPage w F = Feeding_getNextPage_finish ?p F1" using b rd by (simp add: Feeding_getNextPage_def)
  from finish_ok [OF inv w rd] show ?thesis
  proof (elim disjE conjE exE)
    fix F' assume f: "?p < length fed" "Feeding_getNextPage_finish ?p F1 = Inr (Some (fed ! ?p), F')" "same_feeding F1 F'"
    have "feed_inv (F', fed, ?rs(w := Idle), got(w := got w @ [fed ! ?p]))"
      using feed_step_inv [OF fs_page [of ?rs w ?p F1 "fed ! ?p" F'] inv] w rd f(2) by simp
    then have "feed_done w fed F'" using a(1) F1 f(3) by (auto simp: feed_done_def same_feeding_def)
    moreover have "nextForWorker F' ! w = Suc ?p"
      using feed_invD(15) [OF inv w] f(3) by (simp add: same_feeding_def)
    ultimately show ?thesis using call f by (auto simp: nth_page_def)
  qed (use call in \<open>auto simp: nth_page_def\<close>)
qed

interpretation fed: page_source "Feeding_getNextPage w" "feed_rest w fedpages" "feed_done w fedpages"
proof
  fix F
  assume d: "feed_done w fedpages F"
  from feeding_call [OF this] obtain F' where c: "Feeding_getNextPage w F = Inr (nth_page (nextForWorker F ! w) fedpages, F')"
    "nextForWorker F ! w < length fedpages \<Longrightarrow> feed_done w fedpages F' \<and> nextForWorker F' ! w = Suc (nextForWorker F ! w)" by blast
  show "\<exists>s'. Feeding_getNextPage w F = Inr (None, s')" if "feed_rest w fedpages F = []"
    using that c(1) by (simp add: feed_rest_def nth_page_def)
  fix p ps assume r: "feed_rest w fedpages F = p # ps"
  then have "nextForWorker F ! w < length fedpages" by (auto simp: feed_rest_def intro: ccontr)
  then show "\<exists>s'. Feeding_getNextPage w F = Inr (Some p, s') \<and> feed_rest w fedpages s' = ps \<and> feed_done w fedpages s'"
    using r c by (auto simp: feed_rest_def nth_page_def Cons_nth_drop_Suc [symmetric])
qed

section \<open>Departures\<close>

text \<open>The last page is never given up: every reader still counts as its user after all of them got null.\<close>

lemma last_page_never_released:
  assumes "feed_reachable (F, fed, rs, got)" and "usagePolicy F = REMOVE_AFTER_USED" and "fed \<noteq> []" and "0 < numReaders F"
    and "\<And>w. w < numReaders F \<Longrightarrow> rs w = Finished"
  shows "map_of (f_pages F) (length fed - 1) = Some \<lparr>f_page = last fed, numUsers = numReaders F, timesServed = numReaders F\<rparr> \<and> pinned F (last fed)"
proof -
  note D = feed_invD [OF feed_reachable_inv [OF assms(1)]]
  have s: "served F rs w = Suc (length fed - 1)" if "w < numReaders F" for w
    using assms(3) assms(5) [OF that] D(1) by (simp add: served_simps)
  then have "filter (\<lambda>w. served F rs w = Suc (length fed - 1)) [0..<numReaders F] = [0..<numReaders F]"
    "filter (\<lambda>w. length fed - 1 < served F rs w) [0..<numReaders F] = [0..<numReaders F]"
    by (auto intro!: filter_True)
  then have "users (numReaders F) (served F rs) (length fed - 1) = numReaders F" "servings (numReaders F) (served F rs) (length fed - 1) = numReaders F"
    by (simp_all add: users_def servings_def)
  then show ?thesis
    using assms(2-4) D(13) D(14) [of "length fed - 1"] by (cases fed rule: rev_cases) (simp_all add: fed_info_def)
qed

text \<open>A reader that asks again after null, and one that starts over after a reset, run into an assertion.\<close>

definition feed_read :: "nat feeding" where
  "feed_read = snd (projr (Feeding_getNextPage 0 (snd (projr (Feeding_getNextPage 0
     (finishFeeding (projr (feedPage 8 (projr (feedPage 7 (FeedingPageSet_new 1 1 (\<lambda>_. False))))))))))))"

lemma read_after_null_aborts:
  "(let (p, F) = projr (Feeding_getNextPage 0 feed_read) in p = None \<and> Feeding_getNextPage 0 F = Inl (Exit ''assert''))"
  by (simp add: feed_read_def Feeding_getNextPage_def FeedingPageSet_new_def finishFeeding_def feedPage_def Feeding_getNextPage_begin_def
      Feeding_getNextPage_finish_def release_last_def serve_def vec_at_def Feeding_ready_def map_erase_def)

lemma read_after_reset_aborts: "Feeding_getNextPage 0 (Feeding_resetPageSet feed_read) = Inl (Exit ''assert'')"
  by (simp add: feed_read_def Feeding_getNextPage_def FeedingPageSet_new_def finishFeeding_def feedPage_def Feeding_getNextPage_begin_def
      Feeding_getNextPage_finish_def release_last_def serve_def vec_at_def Feeding_ready_def map_erase_def Feeding_resetPageSet_def)

section \<open>An execution\<close>

text \<open>Two readers and two feeders; the first reader has begun to ask for a page.\<close>

definition feed_demo :: "nat feeding" where
  "feed_demo = finishFeeding (projr (feedPage 8 (finishFeeding (projr (feedPage 7 (FeedingPageSet_new 2 2 (\<lambda>_. False)))))))"

definition feed_demo1 :: "nat feeding" where
  "feed_demo1 = snd (projr (Feeding_getNextPage_begin 0 feed_demo))"

lemmas feed_demo_defs = feed_demo_def feed_demo1_def FeedingPageSet_new_def finishFeeding_def feedPage_def Feeding_getNextPage_begin_def
  Feeding_getNextPage_finish_def release_last_def serve_def vec_at_def setUsagePolicy_def Feeding_ready_def

lemma feed_demo_reachable: "feed_reachable (feed_demo1, [7, 8], (\<lambda>_. Idle)(0 := Waiting 0), \<lambda>_. [])"
proof -
  let ?F = "FeedingPageSet_new 2 2 (\<lambda>_. False) :: nat feeding"
  have "setUsagePolicy REMOVE_AFTER_USED ?F = ?F" by (simp add: feed_demo_defs)
  then have "feed_reachable (?F, [], \<lambda>_. Idle, \<lambda>_. [])" using fr_new [of 2 2 REMOVE_AFTER_USED "\<lambda>_ :: nat. False"] by simp
  then have "feed_reachable (projr (feedPage 7 ?F), [] @ [7], \<lambda>_. Idle, \<lambda>_. [])"
    by (rule fr_step) (rule fs_feed, simp_all add: feed_demo_defs)
  then have "feed_reachable (finishFeeding (projr (feedPage 7 ?F)), [7], \<lambda>_. Idle, \<lambda>_. [])"
    unfolding append_Nil by (rule fr_step) (rule fs_finish, simp add: feed_demo_defs)
  then have "feed_reachable (projr (feedPage 8 (finishFeeding (projr (feedPage 7 ?F)))), [7] @ [8], \<lambda>_. Idle, \<lambda>_. [])"
    by (rule fr_step) (rule fs_feed, simp_all add: feed_demo_defs)
  then have "feed_reachable (feed_demo, [7, 8], \<lambda>_. Idle, \<lambda>_. [])"
    unfolding append_Cons append_Nil feed_demo_def by (rule fr_step) (rule fs_finish, simp add: feed_demo_defs)
  then show ?thesis
    by (rule fr_step) (rule fs_begin, simp_all add: feed_demo_defs)
qed

theorem feeding_delivers_every_page_witness:
  "feed_reachable (feed_demo1, [7, 8], (\<lambda>_. Idle)(0 := Waiting 0), \<lambda>_. []) \<and>
   (\<exists>F'. Feeding_getNextPage_finish 0 feed_demo1 = Inr (Some 7, F'))"
  using feed_demo_reachable feeding_delivers_every_page [OF feed_demo_reachable, of 0]
  by (simp add: feed_demo_defs nth_page_def)

end
