(* ===== verification/TupleSource.thy ===== *)
theory TupleSource
  imports PageSets
begin

text \<open>
  The input side of a pipeline: \<^verbatim>\<open>PDBTupleSetSizePolicy\<close>, which chooses how many records a tuple set gets, and
  \<^verbatim>\<open>VectorTupleSetIterator\<close>, which cuts the vectors on the pages of a page set into tuple sets of that size and
  hands records out again when the pipeline could not process them. A page is given by the records of the vector on it.
\<close>

section \<open>The size of a tuple set\<close>

record size_policy =
  chunkSize :: int
  maxChunkSize :: int
  lastChunkSizeForWrite :: int
  lastFullySuccessfulSize :: int
  pipelineRetry :: int
  p_initialFree :: nat
  p_finalFree :: nat
  p_numAdditionalPages :: nat
  p_succeeded :: bool
  w_initialFree :: nat
  w_finalFree :: nat
  w_numAdditionalPages :: nat
  lastIncremented :: bool
  allowIncrements :: bool
  tryToMakePipelineSucceed :: bool
  pageSize :: nat

definition TupleSetSizePolicy_new :: "nat \<Rightarrow> size_policy" where
  "TupleSetSizePolicy_new bytes =
     \<lparr>chunkSize = 50, maxChunkSize = 100, lastChunkSizeForWrite = -1, lastFullySuccessfulSize = -1, pipelineRetry = 3,
      p_initialFree = 0, p_finalFree = 0, p_numAdditionalPages = 0, p_succeeded = True,
      w_initialFree = 0, w_finalFree = 0, w_numAdditionalPages = 0,
      lastIncremented = False, allowIncrements = True, tryToMakePipelineSucceed = True, pageSize = bytes\<rparr>"

definition pipelineFailed :: "size_policy \<Rightarrow> size_policy result" where
  "pipelineFailed P =
     (if chunkSize P = 1 then Inl (Throw ''We can not reduce the chunk size anymore so we fail here.'')
      else let P1 = P\<lparr>chunkSize := chunkSize P div 2, p_initialFree := 0, p_finalFree := 0, p_numAdditionalPages := 0, p_succeeded := False\<rparr>
           in Inr (if lastIncremented P1 then P1\<lparr>allowIncrements := False\<rparr> else P1))"

definition pipelineSucceeded :: "nat \<Rightarrow> nat \<Rightarrow> nat \<Rightarrow> size_policy \<Rightarrow> size_policy" where
  "pipelineSucceeded additionalPagesUsed initialFree finalFree P =
     P\<lparr>p_initialFree := initialFree, p_finalFree := finalFree, p_numAdditionalPages := additionalPagesUsed, p_succeeded := True\<rparr>"

text \<open>How much of the page an iteration used; the subtraction and the product wrap around.\<close>

definition percentage :: "size_policy \<Rightarrow> nat" where
  "percentage P = ((p_initialFree P + 2 ^ 64 - w_finalFree P) mod 2 ^ 64 * 100) mod 2 ^ 64 div pageSize P"

definition grow_chunk :: "size_policy \<Rightarrow> size_policy result" where
  "grow_chunk P =
     (if pageSize P = 0 then Inl (Undefined ''division by zero'')
      else let P1 = (if percentage P < 20 then P\<lparr>chunkSize := min (chunkSize P * 3 mod 2 ^ 64) (maxChunkSize P)\<rparr> else P)
           in Inr (P1\<lparr>lastFullySuccessfulSize := max (lastFullySuccessfulSize P1) (chunkSize P1), lastIncremented := True, pipelineRetry := 3\<rparr>))"

definition writeToPageSucceeded :: "nat \<Rightarrow> nat \<Rightarrow> nat \<Rightarrow> size_policy \<Rightarrow> size_policy result" where
  "writeToPageSucceeded additionalPages initialFree finalFree P0 =
     (let P1 = P0\<lparr>w_initialFree := initialFree, w_finalFree := finalFree, w_numAdditionalPages := additionalPages\<rparr>;
          P = (if p_succeeded P1 \<and> p_numAdditionalPages P1 = 0 \<and> additionalPages = 0 then P1\<lparr>tryToMakePipelineSucceed := False\<rparr> else P1)
      in andThen
        (if allowIncrements P \<and> p_succeeded P \<and> p_numAdditionalPages P = 0 \<and> additionalPages = 0 then grow_chunk P
         else if tryToMakePipelineSucceed P \<and> p_numAdditionalPages P \<noteq> 0 \<and> p_succeeded P \<and> chunkSize P \<noteq> 1
         then Inr (P\<lparr>lastChunkSizeForWrite := (if lastChunkSizeForWrite P = -1 then chunkSize P else lastChunkSizeForWrite P),
                     allowIncrements := False, chunkSize := chunkSize P div 2\<rparr>)
         else if lastIncremented P \<and> \<not> tryToMakePipelineSucceed P \<and> p_numAdditionalPages P \<noteq> 0 \<and> p_succeeded P
         then Inr (P\<lparr>chunkSize := lastFullySuccessfulSize P, allowIncrements := False\<rparr>)
         else if p_numAdditionalPages P \<noteq> 0 \<and> pipelineRetry P = 0
         then Inr (P\<lparr>tryToMakePipelineSucceed := True, pipelineRetry := 3\<rparr>)
         else if p_numAdditionalPages P \<noteq> 0 then Inr (P\<lparr>pipelineRetry := pipelineRetry P - 1\<rparr>)
         else Inr P)
        (\<lambda>Q. Inr (Q\<lparr>lastIncremented := False\<rparr>)))"

definition inputWasProcessed :: "size_policy \<Rightarrow> bool" where
  "inputWasProcessed P = p_succeeded P"

definition getChunksSize :: "size_policy \<Rightarrow> int" where
  "getChunksSize P = chunkSize P"

section \<open>Cutting vectors into tuple sets\<close>

text \<open>
  \<open>vs_set\<close> is the state of the page set, \<open>vs_cur\<close> the vector on the current page, \<open>vs_last\<close> the one on the page before it (until it is
  unpinned), \<open>vs_output\<close> the column of the tuple set and \<open>vs_buffer\<close> the records to be handed out again; the last two exist only if there was
  a first page. \<open>nextp\<close> is \<^verbatim>\<open>getNextPage\<close> of the page set for this worker.
\<close>

record ('a, 's) vec_source =
  vs_set :: 's
  vs_cur :: "'a list option"
  vs_last :: "'a list option"
  vs_pos :: nat
  vs_output :: "'a list option"
  vs_buffer :: "'a list option"

definition VectorTupleSetIterator_new :: "('s \<Rightarrow> ('a list option \<times> 's) result) \<Rightarrow> 's \<Rightarrow> ('a, 's) vec_source result" where
  "VectorTupleSetIterator_new nextp S =
     andThen (nextp S) (\<lambda>(p, S1).
       Inr \<lparr>vs_set = S1, vs_cur = p, vs_last = None, vs_pos = 0,
            vs_output = (if p = None then None else Some []), vs_buffer = (if p = None then None else Some [])\<rparr>)"

text \<open>After a failure the column goes to the buffer.\<close>

definition keep_for_retry :: "size_policy \<Rightarrow> ('a, 's) vec_source \<Rightarrow> ('a, 's) vec_source" where
  "keep_for_retry P s =
     (case (vs_output s, vs_buffer s) of
        (Some column, Some buffer) \<Rightarrow>
          if inputWasProcessed P then s
          else if buffer = [] then s\<lparr>vs_output := Some buffer, vs_buffer := Some column\<rparr>
          else s\<lparr>vs_buffer := Some []\<rparr>
      | _ \<Rightarrow> s)"

text \<open>The tuple set for the next records of the current page.\<close>

definition take_records :: "size_policy \<Rightarrow> ('a, 's) vec_source \<Rightarrow> ('a list option \<times> ('a, 's) vec_source) result" where
  "take_records P s =
     (case (vs_cur s, vs_output s) of
        (Some v, Some _) \<Rightarrow>
          let n = (if length v < nat (getChunksSize P) + vs_pos s then length v - vs_pos s else nat (getChunksSize P));
              column = take n (drop (vs_pos s) v)
          in Inr (Some column, s\<lparr>vs_pos := vs_pos s + n, vs_output := Some column\<rparr>)
      | _ \<Rightarrow> Inl (Undefined ''no column''))"

definition getNextTupleSet :: "('s \<Rightarrow> ('a list option \<times> 's) result) \<Rightarrow> size_policy \<Rightarrow> ('a, 's) vec_source \<Rightarrow>
    ('a list option \<times> ('a, 's) vec_source) result" where
  "getNextTupleSet nextp P s0 =
     (let s = keep_for_retry P s0
      in case vs_buffer s of
           Some (b # bs) \<Rightarrow>
             let n = min (nat (getChunksSize P)) (length (b # bs)); k = length (b # bs) - n; column = drop k (b # bs)
             in Inr (Some column, s\<lparr>vs_output := Some column, vs_buffer := Some (take k (b # bs))\<rparr>)
         | _ \<Rightarrow>
             let s1 = s\<lparr>vs_last := None\<rparr>
             in case vs_cur s1 of
                  None \<Rightarrow> Inr (None, s1)
                | Some v \<Rightarrow>
                    if vs_pos s1 = length v
                    then andThen (nextp (vs_set s1)) (\<lambda>(p, S1).
                           case p of
                             None \<Rightarrow> Inr (None, s1\<lparr>vs_last := Some v, vs_set := S1, vs_cur := None\<rparr>)
                           | Some v1 \<Rightarrow> take_records P (s1\<lparr>vs_last := Some v, vs_set := S1, vs_cur := Some v1, vs_pos := 0\<rparr>))
                    else take_records P s1)"

section \<open>The policy keeps its bounds\<close>

definition policy_ok :: "size_policy \<Rightarrow> bool" where
  "policy_ok P \<longleftrightarrow> 1 \<le> chunkSize P \<and> chunkSize P \<le> 100 \<and> maxChunkSize P = 100 \<and> 0 \<le> pipelineRetry P \<and> pipelineRetry P \<le> 3 \<and>
     \<not> lastIncremented P \<and> 0 < pageSize P"

lemma policy_new_ok: "0 < bytes \<Longrightarrow> policy_ok (TupleSetSizePolicy_new bytes)"
  by (simp add: policy_ok_def TupleSetSizePolicy_new_def)

lemma pipelineFailed_ok:
  assumes "policy_ok P"
  shows "(chunkSize P = 1 \<and> (\<exists>e. pipelineFailed P = Inl (Throw e))) \<or>
    (\<exists>P'. pipelineFailed P = Inr P' \<and> policy_ok P' \<and> chunkSize P' = chunkSize P div 2 \<and> chunkSize P' < chunkSize P \<and> \<not> inputWasProcessed P' \<and>
       allowIncrements P' = allowIncrements P)"
  using assms by (auto simp: pipelineFailed_def policy_ok_def inputWasProcessed_def Let_def)

lemma pipelineSucceeded_ok: "policy_ok P \<Longrightarrow> policy_ok (pipelineSucceeded a i f P) \<and> inputWasProcessed (pipelineSucceeded a i f P)"
  by (simp add: pipelineSucceeded_def policy_ok_def inputWasProcessed_def)

lemma writeToPageSucceeded_ok:
  assumes "policy_ok P"
  shows "\<exists>P'. writeToPageSucceeded a i f P = Inr P' \<and> policy_ok P' \<and> inputWasProcessed P' = inputWasProcessed P"
  using assms unfolding policy_ok_def inputWasProcessed_def
  by (auto simp: writeToPageSucceeded_def grow_chunk_def Let_def min_def split: if_splits)

section \<open>What the iterator hands out\<close>

text \<open>
  The records that are still to come, those of a tuple set that was not processed, and the number of pages; \<open>rest\<close> gives the pages
  the page set has for the worker.
\<close>

definition opt_list :: "'a list option \<Rightarrow> 'a list" where
  "opt_list x = (case x of None \<Rightarrow> [] | Some xs \<Rightarrow> xs)"

lemma opt_list_simps [simp]: "opt_list None = []" "opt_list (Some xs) = xs"
  by (simp_all add: opt_list_def)

definition src_tail :: "('s \<Rightarrow> 'a list list) \<Rightarrow> ('a, 's) vec_source \<Rightarrow> 'a list" where
  "src_tail rest s = (case vs_cur s of None \<Rightarrow> [] | Some v \<Rightarrow> drop (vs_pos s) v @ concat (rest (vs_set s)))"

definition src_left :: "('s \<Rightarrow> 'a list list) \<Rightarrow> ('a, 's) vec_source \<Rightarrow> 'a list" where
  "src_left rest s = opt_list (vs_buffer s) @ src_tail rest s"

definition pending :: "size_policy \<Rightarrow> ('a, 's) vec_source \<Rightarrow> 'a list" where
  "pending P s = (if inputWasProcessed P then [] else opt_list (vs_output s))"

definition src_pages :: "('s \<Rightarrow> 'a list list) \<Rightarrow> ('a, 's) vec_source \<Rightarrow> nat" where
  "src_pages rest s = (case vs_cur s of None \<Rightarrow> 0 | Some _ \<Rightarrow> Suc (length (rest (vs_set s))))"

definition src_ok :: "('s \<Rightarrow> bool) \<Rightarrow> ('a, 's) vec_source \<Rightarrow> bool" where
  "src_ok ok s \<longleftrightarrow> (\<forall>v. vs_cur s = Some v \<longrightarrow> vs_pos s \<le> length v \<and> ok (vs_set s) \<and> vs_output s \<noteq> None) \<and>
     (vs_output s = None \<longleftrightarrow> vs_buffer s = None)"

text \<open>A tuple set that failed while the buffer holds records is lost.\<close>

definition lossless :: "size_policy \<Rightarrow> ('a, 's) vec_source \<Rightarrow> bool" where
  "lossless P s \<longleftrightarrow> inputWasProcessed P \<or> opt_list (vs_buffer s) = []"

lemma keep_for_retry_ok:
  assumes "src_ok ok s"
  shows "src_ok ok (keep_for_retry P s) \<and> src_pages rest (keep_for_retry P s) = src_pages rest s \<and>
    vs_cur (keep_for_retry P s) = vs_cur s \<and> vs_set (keep_for_retry P s) = vs_set s \<and> vs_pos (keep_for_retry P s) = vs_pos s \<and>
    opt_list (vs_buffer (keep_for_retry P s)) =
      (if inputWasProcessed P then opt_list (vs_buffer s) else if opt_list (vs_buffer s) = [] then opt_list (vs_output s) else [])"
  using assms by (auto simp: keep_for_retry_def src_ok_def src_pages_def split: option.splits)

lemma take_records_ok:
  assumes "src_ok ok s" and "vs_cur s = Some v" and "1 \<le> chunkSize P"
  shows "\<exists>c s'. take_records P s = Inr (Some c, s') \<and> src_ok ok s' \<and> vs_output s' = Some c \<and> length c \<le> nat (chunkSize P) \<and>
    c @ drop (vs_pos s') v = drop (vs_pos s) v \<and> (vs_pos s < length v \<longrightarrow> c \<noteq> []) \<and>
    vs_cur s' = Some v \<and> vs_set s' = vs_set s \<and> vs_buffer s' = vs_buffer s \<and> vs_last s' = vs_last s"
proof -
  obtain old where o: "vs_output s = Some old" and pos: "vs_pos s \<le> length v" using assms(1,2) by (auto simp: src_ok_def)
  let ?n = "if length v < nat (getChunksSize P) + vs_pos s then length v - vs_pos s else nat (getChunksSize P)"
  have "take ?n (drop (vs_pos s) v) @ drop (vs_pos s + ?n) v = drop (vs_pos s) v"
    by (metis add.commute append_take_drop_id drop_drop)
  then show ?thesis
    using o pos assms by (auto simp: take_records_def Let_def src_ok_def getChunksSize_def)
qed

text \<open>A page set whose pages hold vectors of records.\<close>

locale vector_pages = page_source nextp rest ok
  for nextp :: "'s \<Rightarrow> ('a list option \<times> 's) result"
    and rest :: "'s \<Rightarrow> 'a list list"
    and ok :: "'s \<Rightarrow> bool"
begin

lemma tuple_set_from_buffer:
  assumes "src_ok ok s" and "1 \<le> chunkSize P" and "opt_list (vs_buffer (keep_for_retry P s)) \<noteq> []"
  shows "\<exists>c s'. getNextTupleSet nextp P s = Inr (Some c, s') \<and> src_ok ok s' \<and> vs_output s' = Some c \<and> c \<noteq> [] \<and> length c \<le> nat (chunkSize P) \<and>
    opt_list (vs_buffer s') @ c = opt_list (vs_buffer (keep_for_retry P s)) \<and>
    (opt_list (vs_buffer s') \<noteq> [] \<longrightarrow> length c = nat (chunkSize P)) \<and>
    vs_cur s' = vs_cur s \<and> vs_set s' = vs_set s \<and> vs_pos s' = vs_pos s"
proof -
  note k = keep_for_retry_ok [OF assms(1), of P rest]
  obtain b bs where b: "vs_buffer (keep_for_retry P s) = Some (b # bs)"
    using assms(3) by (cases "vs_buffer (keep_for_retry P s)"; cases "opt_list (vs_buffer (keep_for_retry P s))") auto
  define B where "B = b # bs"
  define k where "k = length B - min (nat (chunkSize P)) (length B)"
  let ?s = "(keep_for_retry P s)\<lparr>vs_output := Some (drop k B), vs_buffer := Some (take k B)\<rparr>"
  have "getNextTupleSet nextp P s = Inr (Some (drop k B), ?s)"
    by (simp add: getNextTupleSet_def Let_def b getChunksSize_def k_def B_def)
  moreover have "src_ok ok ?s" using k by (auto simp: src_ok_def)
  moreover have "k < length B" using assms(2) by (simp add: k_def B_def)
  ultimately show ?thesis using k by (auto simp: b B_def [symmetric] k_def)
qed

lemma getNextTupleSet_ok:
  assumes ok: "src_ok ok s" and c: "1 \<le> chunkSize P"
  shows "\<exists>r s'. getNextTupleSet nextp P s = Inr (r, s') \<and> src_ok ok s' \<and>
    mset (opt_list r) + mset (src_left rest s') \<subseteq># mset (pending P s) + mset (src_left rest s) \<and>
    (lossless P s \<longrightarrow> mset (opt_list r) + mset (src_left rest s') = mset (pending P s) + mset (src_left rest s)) \<and>
    (r = None \<longrightarrow> src_left rest s' = []) \<and>
    (\<forall>xs. r = Some xs \<longrightarrow> vs_output s' = Some xs \<and> length xs \<le> nat (chunkSize P) \<and>
       length (src_left rest s') + src_pages rest s' < length (pending P s) + length (src_left rest s) + src_pages rest s \<and>
       length xs + length (src_left rest s') + src_pages rest s' \<le> length (pending P s) + length (src_left rest s) + src_pages rest s)"
proof -
  let ?k = "keep_for_retry P s"
  note k = keep_for_retry_ok [OF ok, of P rest]
  have buf: "mset (opt_list (vs_buffer ?k)) \<subseteq># mset (pending P s) + mset (opt_list (vs_buffer s))"
    "lossless P s \<Longrightarrow> mset (opt_list (vs_buffer ?k)) = mset (pending P s) + mset (opt_list (vs_buffer s))"
    using k by (auto simp: pending_def lossless_def)
  show ?thesis
  proof (cases "opt_list (vs_buffer ?k) = []")
    case False
    obtain xs s' where t: "getNextTupleSet nextp P s = Inr (Some xs, s')" "src_ok ok s'" "vs_output s' = Some xs" "xs \<noteq> []"
      "length xs \<le> nat (chunkSize P)" "opt_list (vs_buffer s') @ xs = opt_list (vs_buffer ?k)"
      "vs_cur s' = vs_cur s" "vs_set s' = vs_set s" "vs_pos s' = vs_pos s"
      using tuple_set_from_buffer [OF ok c False] by blast
    have m: "mset xs + mset (opt_list (vs_buffer s')) = mset (opt_list (vs_buffer ?k))" by (simp flip: t(6))
    have le: "length xs + length (opt_list (vs_buffer s')) \<le> length (pending P s) + length (opt_list (vs_buffer s))"
      using size_mset_mono [OF buf(1)] by (simp flip: t(6))
    moreover have "length (opt_list (vs_buffer s')) < length (pending P s) + length (opt_list (vs_buffer s))"
      using le t(4) by (cases xs) auto
    moreover have "src_tail rest s' = src_tail rest s" "src_pages rest s' = src_pages rest s"
      using t(7-9) by (simp_all add: src_tail_def src_pages_def split: option.split)
    moreover have "mset xs + mset (src_left rest s') = mset (opt_list (vs_buffer ?k)) + mset (src_tail rest s)"
      using calculation(3) by (simp add: src_left_def flip: m)
    ultimately show ?thesis
      using t(1-3,5) buf by (auto simp: src_left_def)
  next
    case True
    then have nb: "vs_buffer ?k \<noteq> Some (b # bs)" for b bs by auto
    have got: "getNextTupleSet nextp P s = (case vs_cur s of None \<Rightarrow> Inr (None, ?k\<lparr>vs_last := None\<rparr>)
       | Some v \<Rightarrow> if vs_pos s = length v
           then andThen (nextp (vs_set s)) (\<lambda>(p, S1). case p of
               None \<Rightarrow> Inr (None, ?k\<lparr>vs_last := Some v, vs_set := S1, vs_cur := None\<rparr>)
             | Some v1 \<Rightarrow> take_records P (?k\<lparr>vs_last := Some v, vs_set := S1, vs_cur := Some v1, vs_pos := 0\<rparr>))
           else take_records P (?k\<lparr>vs_last := None\<rparr>))"
      using nb k by (auto simp: getNextTupleSet_def Let_def split: option.splits list.splits intro!: arg_cong2 [where f = andThen])
    have kk: "src_ok ok ?k" "vs_cur ?k = vs_cur s" "vs_set ?k = vs_set s" "vs_pos ?k = vs_pos s" using k by auto
    have all: "?thesis" if "getNextTupleSet nextp P s = Inr (r, s')" "src_ok ok s'" "vs_buffer s' = vs_buffer ?k"
      "opt_list r @ src_tail rest s' = src_tail rest s" "r = None \<Longrightarrow> src_tail rest s' = []"
      "\<And>xs. r = Some xs \<Longrightarrow> vs_output s' = Some xs \<and> length xs \<le> nat (chunkSize P) \<and>
         src_pages rest s' \<le> src_pages rest s \<and> (xs = [] \<longrightarrow> src_pages rest s' < src_pages rest s)" for r s'
    proof -
      have m: "mset (opt_list r) + mset (src_left rest s') = mset (src_tail rest s)" using that(3) True by (simp add: src_left_def flip: that(4))
      have l: "length (opt_list r) + length (src_left rest s') = length (src_tail rest s)" using that(3) True by (simp add: src_left_def flip: that(4))
      have "mset (pending P s) + mset (src_left rest s) = mset (src_tail rest s)" if "lossless P s"
        using buf(2) [OF that] True by (simp add: src_left_def)
      moreover have "mset (src_tail rest s) \<subseteq># mset (pending P s) + mset (src_left rest s)" by (simp add: src_left_def)
      moreover have "length (src_tail rest s) \<le> length (src_left rest s)" by (simp add: src_left_def)
      moreover have "src_left rest s' = []" if "r = None" using \<open>r = None \<Longrightarrow> src_tail rest s' = []\<close> [OF that] True \<open>vs_buffer s' = vs_buffer ?k\<close> by (simp add: src_left_def)
      moreover have "length (src_left rest s') + src_pages rest s' < length (src_tail rest s) + src_pages rest s"
        "length xs + length (src_left rest s') + src_pages rest s' \<le> length (src_tail rest s) + src_pages rest s" if "r = Some xs" for xs
        using l \<open>\<And>xs. r = Some xs \<Longrightarrow> _\<close> [OF that] that by (cases xs; auto)+
      ultimately show ?thesis using that(1,2,6) m by (intro exI [of _ r] exI [of _ s']) fastforce
    qed
    show ?thesis
    proof (cases "vs_cur s")
      case None
      show ?thesis by (rule all [of None "?k\<lparr>vs_last := None\<rparr>"])
        (use None kk got in \<open>auto simp: src_ok_def src_tail_def\<close>)
    next
      case (Some v)
      then have sv: "ok (vs_set s)" "vs_pos s \<le> length v" using ok by (auto simp: src_ok_def)
      have step: "?thesis" if s1: "src_ok ok s1" "vs_cur s1 = Some v1" "vs_buffer s1 = vs_buffer ?k" and g: "getNextTupleSet nextp P s = take_records P s1"
        and t: "src_tail rest s1 = src_tail rest s" and p: "src_pages rest s1 \<le> src_pages rest s" "vs_pos s1 = length v1 \<Longrightarrow> src_pages rest s1 < src_pages rest s" for s1 v1
      proof -
        obtain xs s' where r: "take_records P s1 = Inr (Some xs, s')" "src_ok ok s'" "vs_output s' = Some xs" "length xs \<le> nat (chunkSize P)"
          "xs @ drop (vs_pos s') v1 = drop (vs_pos s1) v1" "vs_pos s1 < length v1 \<longrightarrow> xs \<noteq> []" "vs_cur s' = Some v1" "vs_set s' = vs_set s1"
          "vs_buffer s' = vs_buffer s1" using take_records_ok [OF s1(1,2) c] by blast
        have "xs @ src_tail rest s' = src_tail rest s1" using r(5,7,8) s1(2) by (simp add: src_tail_def flip: append_assoc)
        moreover have "src_pages rest s' = src_pages rest s1" using r(7,8) s1(2) by (simp add: src_pages_def)
        moreover have "vs_pos s1 \<le> length v1" using s1(1,2) by (auto simp: src_ok_def)
        ultimately show ?thesis
          by (intro all [of "Some xs" s']) (use r g s1(3) t p in \<open>auto simp: order_le_less\<close>)
      qed
      show ?thesis
      proof (cases "vs_pos s = length v")
        case False
        show ?thesis by (rule step [of "?k\<lparr>vs_last := None\<rparr>" v])
          (use False Some got kk in \<open>auto simp: src_ok_def src_tail_def src_pages_def\<close>)
      next
        case at_end: True
        from sv(1) show ?thesis
        proof (cases rule: next_cases)
          case (none S1)
          show ?thesis by (rule all [of None "?k\<lparr>vs_last := Some v, vs_set := S1, vs_cur := None\<rparr>"])
            (use none at_end Some got kk in \<open>auto simp: src_ok_def src_tail_def\<close>)
        next
          case (page v1 S1)
          show ?thesis by (rule step [of "?k\<lparr>vs_last := Some v, vs_set := S1, vs_cur := Some v1, vs_pos := 0\<rparr>" v1])
            (use page at_end Some got kk in \<open>auto simp: src_ok_def src_tail_def src_pages_def\<close>)
        qed
      qed
    qed
  qed
qed

end

interpretation stored_vectors: vector_pages "SetPageSet_getNextPage getPage w" "sp_rest getPage" sp_ok for getPage :: "nat \<Rightarrow> 'a list" and w
  by unfold_locales

interpretation anonymous_vectors: vector_pages "AnonPageSet_getNextPage w" "ap_rest w" ap_ok
  by unfold_locales

interpretation fed_vectors: vector_pages "Feeding_getNextPage w" "feed_rest w fedpages" "feed_done w fedpages"
  by unfold_locales

end
