(* ===== verification/Vector.thy ===== *)
theory Vector
  imports PC_Prelude
begin

text \<open>
  \<^verbatim>\<open>builtInPDBObjects/headers/PDBVector.cc\<close> and \<^verbatim>\<open>Array.cc\<close>: the vectors that hold the records of a page. A vector has one array, which is replaced by a
  larger one when it is full. What the object model does with the memory is a parameter (\<open>vmem\<close>): whether the
  allocation of an array, the assignment of a value to a slot (which copies its target when that lies in another
  block) and the assignment of a value that is already in the block succeed, and how they change the
  state \<open>'m\<close> of the memory. What clients rely on is the locale \<open>appendable\<close>.
\<close>

section \<open>Arrays\<close>

record ('a, 'm) vmem =
  m_array :: "nat \<Rightarrow> 'm \<Rightarrow> bool \<times> 'm"
  m_copy :: "'a \<Rightarrow> 'm \<Rightarrow> bool \<times> 'm"
  m_share :: "'a \<Rightarrow> 'm \<Rightarrow> bool \<times> 'm"
  m_drop :: "nat \<Rightarrow> 'm \<Rightarrow> 'm"
  m_default :: 'a

record 'a varray =
  elems :: "'a list"
  numSlots :: nat

definition usedSlots :: "'a varray \<Rightarrow> nat" where
  "usedSlots A = length (elems A)"

definition isFull :: "'a varray \<Rightarrow> bool" where
  "isFull A \<longleftrightarrow> usedSlots A = numSlots A"

definition Array_new :: "('a, 'm) vmem \<Rightarrow> nat \<Rightarrow> nat \<Rightarrow> 'a varray" where
  "Array_new M slots used = \<lparr>elems = replicate used (m_default M), numSlots = slots\<rparr>"

text \<open>Assigning values to slots one after the other: how many assignments succeed.\<close>

fun share_slots :: "('a, 'm) vmem \<Rightarrow> 'a list \<Rightarrow> 'm \<Rightarrow> nat \<times> 'm" where
  "share_slots M [] m = (0, m)"
| "share_slots M (x # xs) m =
     (case m_share M x m of
        (True, m1) \<Rightarrow> (let (k, m2) = share_slots M xs m1 in (Suc k, m2))
      | (False, m1) \<Rightarrow> (0, m1))"

text \<open>
  The new array counts all its slots as used before they are constructed, so that an exception on the way makes
  its destructor run over slots that were never constructed.
\<close>

definition Array_resize :: "('a, 'm) vmem \<Rightarrow> nat \<Rightarrow> 'a varray \<Rightarrow> 'm \<Rightarrow> (flow \<times> 'a varray \<times> 'm) result" where
  "Array_resize M howMany A m =
     (case m_array M howMany m of
        (False, m1) \<Rightarrow> Inr (NotEnoughSpace, A, m1)
      | (True, m1) \<Rightarrow>
          let n = min (usedSlots A) howMany; (k, m2) = share_slots M (take n (elems A)) m1
          in if k = n then Inr (Returns, \<lparr>elems = take n (elems A), numSlots = howMany\<rparr>, m2)
             else if k + 1 < n then Inl (Undefined ''destructor of slots that were never constructed'')
             else Inr (NotEnoughSpace, A, m_drop M howMany m2))"

definition Array_doubleSize :: "('a, 'm) vmem \<Rightarrow> 'a varray \<Rightarrow> 'm \<Rightarrow> (flow \<times> 'a varray \<times> 'm) result" where
  "Array_doubleSize M A m = Array_resize M (numSlots A * 2 mod 2 ^ 32) A m"

definition Array_push_back :: "('a, 'm) vmem \<Rightarrow> 'a \<Rightarrow> 'a varray \<Rightarrow> 'm \<Rightarrow> (flow \<times> 'a varray \<times> 'm) result" where
  "Array_push_back M val A m =
     (if numSlots A \<le> usedSlots A then Inl (Undefined ''write past the end of the array'')
      else case m_copy M val m of
             (True, m1) \<Rightarrow> Inr (Returns, A\<lparr>elems := elems A @ [val]\<rparr>, m1)
           | (False, m1) \<Rightarrow> Inr (NotEnoughSpace, A, m1))"

definition Array_push_back_default :: "('a, 'm) vmem \<Rightarrow> 'a varray \<Rightarrow> 'a varray result" where
  "Array_push_back_default M A =
     (if numSlots A \<le> usedSlots A then Inl (Undefined ''write past the end of the array'')
      else Inr (A\<lparr>elems := elems A @ [m_default M]\<rparr>))"

definition Array_pop_back :: "'a varray \<Rightarrow> 'a varray" where
  "Array_pop_back A = (if usedSlots A \<noteq> 0 then A\<lparr>elems := butlast (elems A)\<rparr> else A)"

definition Array_assign :: "('a, 'm) vmem \<Rightarrow> nat \<Rightarrow> 'a \<Rightarrow> 'a varray \<Rightarrow> 'm \<Rightarrow> (flow \<times> 'a varray \<times> 'm) result" where
  "Array_assign M which val A m =
     (if usedSlots A < which then Inr (Returns, A, m)
      else if which = usedSlots A then Inl (Undefined ''assignment to a slot that was never constructed'')
      else case m_copy M val m of
             (True, m1) \<Rightarrow> Inr (Returns, A\<lparr>elems := (elems A)[which := val]\<rparr>, m1)
           | (False, m1) \<Rightarrow> Inr (NotEnoughSpace, A, m1))"

text \<open>The deep copy of an array: an exception leaves the slots copied so far.\<close>

fun copy_slots :: "('a, 'm) vmem \<Rightarrow> 'a list \<Rightarrow> 'm \<Rightarrow> nat \<times> 'm" where
  "copy_slots M [] m = (0, m)"
| "copy_slots M (x # xs) m =
     (case m_copy M x m of
        (True, m1) \<Rightarrow> (let (k, m2) = copy_slots M xs m1 in (Suc k, m2))
      | (False, m1) \<Rightarrow> (0, m1))"

definition Array_setUpAndCopyFrom :: "('a, 'm) vmem \<Rightarrow> 'a varray \<Rightarrow> 'm \<Rightarrow> flow \<times> 'a varray \<times> 'm" where
  "Array_setUpAndCopyFrom M fromMe m =
     (let (k, m1) = copy_slots M (elems fromMe) m
      in (if k = usedSlots fromMe then Returns else NotEnoughSpace, \<lparr>elems = take k (elems fromMe), numSlots = numSlots fromMe\<rparr>, m1))"

section \<open>Vectors\<close>

text \<open>A constructor fails when its array does not fit.\<close>

definition Vector_new :: "('a, 'm) vmem \<Rightarrow> nat \<Rightarrow> 'm \<Rightarrow> 'a varray option \<times> 'm" where
  "Vector_new M initSize m = (case m_array M initSize m of (b, m1) \<Rightarrow> (if b then Some (Array_new M initSize 0) else None, m1))"

definition Vector_new_used :: "('a, 'm) vmem \<Rightarrow> nat \<Rightarrow> nat \<Rightarrow> 'm \<Rightarrow> 'a varray option \<times> 'm" where
  "Vector_new_used M initSize usedSize m =
     (case m_array M initSize m of (b, m1) \<Rightarrow> (if b then Some (Array_new M initSize usedSize) else None, m1))"

definition Vector_default :: "('a, 'm) vmem \<Rightarrow> 'm \<Rightarrow> 'a varray option \<times> 'm" where
  "Vector_default M m = (case m_array M 1 m of (b, m1) \<Rightarrow> (if b then Some (Array_new M 1 0) else None, m1))"

definition Vector_size :: "'a varray \<Rightarrow> nat" where
  "Vector_size V = usedSlots V"

definition Vector_capacity :: "'a varray \<Rightarrow> nat" where
  "Vector_capacity V = numSlots V"

definition Vector_at :: "'a varray \<Rightarrow> nat \<Rightarrow> 'a result" where
  "Vector_at V which = vec_at (elems V) which"

definition Vector_assign :: "('a, 'm) vmem \<Rightarrow> nat \<Rightarrow> 'a \<Rightarrow> 'a varray \<Rightarrow> 'm \<Rightarrow> (flow \<times> 'a varray \<times> 'm) result" where
  "Vector_assign M which val V m = Array_assign M which val V m"

text \<open>The old array goes away when the handle of the vector is set to the new one.\<close>

definition replace_array :: "('a, 'm) vmem \<Rightarrow> 'a varray \<Rightarrow> (flow \<times> 'a varray \<times> 'm) result \<Rightarrow> (flow \<times> 'a varray \<times> 'm) result" where
  "replace_array M V r =
     andThen r (\<lambda>(fl, A, m). case fl of NotEnoughSpace \<Rightarrow> Inr (fl, V, m) | Returns \<Rightarrow> Inr (fl, A, m_drop M (numSlots V) m))"

definition Vector_push_back :: "('a, 'm) vmem \<Rightarrow> 'a \<Rightarrow> 'a varray \<Rightarrow> 'm \<Rightarrow> (flow \<times> 'a varray \<times> 'm) result" where
  "Vector_push_back M val V m =
     andThen (if isFull V then replace_array M V (Array_doubleSize M V m) else Inr (Returns, V, m)) (\<lambda>(fl, V1, m1).
       case fl of NotEnoughSpace \<Rightarrow> Inr (fl, V1, m1) | Returns \<Rightarrow> Array_push_back M val V1 m1)"

definition Vector_push_back_default :: "('a, 'm) vmem \<Rightarrow> 'a varray \<Rightarrow> 'm \<Rightarrow> (flow \<times> 'a varray \<times> 'm) result" where
  "Vector_push_back_default M V m =
     andThen (if isFull V then replace_array M V (Array_doubleSize M V m) else Inr (Returns, V, m)) (\<lambda>(fl, V1, m1).
       case fl of NotEnoughSpace \<Rightarrow> Inr (fl, V1, m1)
       | Returns \<Rightarrow> andThen (Array_push_back_default M V1) (\<lambda>V2. Inr (Returns, V2, m1)))"

definition Vector_pop_back :: "'a varray \<Rightarrow> 'a varray" where
  "Vector_pop_back V = Array_pop_back V"

definition Vector_clear :: "('a, 'm) vmem \<Rightarrow> 'a varray \<Rightarrow> 'm \<Rightarrow> flow \<times> 'a varray \<times> 'm" where
  "Vector_clear M V m =
     (case m_array M 1 m of
        (True, m1) \<Rightarrow> (Returns, Array_new M 1 0, m_drop M (numSlots V) m1)
      | (False, m1) \<Rightarrow> (NotEnoughSpace, V, m1))"

definition Vector_reserve :: "('a, 'm) vmem \<Rightarrow> nat \<Rightarrow> 'a varray \<Rightarrow> 'm \<Rightarrow> (flow \<times> 'a varray \<times> 'm) result" where
  "Vector_reserve M newCap V m =
     (if Vector_capacity V < newCap then replace_array M V (Array_resize M newCap V m) else Inr (Returns, V, m))"

fun push_defaults :: "('a, 'm) vmem \<Rightarrow> nat \<Rightarrow> 'a varray \<Rightarrow> 'm \<Rightarrow> (flow \<times> 'a varray \<times> 'm) result" where
  "push_defaults M 0 V m = Inr (Returns, V, m)"
| "push_defaults M (Suc n) V m =
     andThen (Vector_push_back_default M V m) (\<lambda>(fl, V1, m1).
       case fl of NotEnoughSpace \<Rightarrow> Inr (fl, V1, m1) | Returns \<Rightarrow> push_defaults M n V1 m1)"

definition Vector_resize :: "('a, 'm) vmem \<Rightarrow> nat \<Rightarrow> 'a varray \<Rightarrow> 'm \<Rightarrow> (flow \<times> 'a varray \<times> 'm) result" where
  "Vector_resize M toMe V m =
     (let V1 = (Vector_pop_back ^^ (Vector_size V - toMe)) V
      in if Vector_size V1 < toMe
         then andThen (Vector_reserve M toMe V1 m) (\<lambda>(fl, V2, m2).
                case fl of NotEnoughSpace \<Rightarrow> Inr (fl, V2, m2) | Returns \<Rightarrow> push_defaults M (toMe - Vector_size V2) V2 m2)
         else Inr (Returns, V1, m))"

definition Vector_shrink_to_fit :: "('a, 'm) vmem \<Rightarrow> 'a varray \<Rightarrow> 'm \<Rightarrow> (flow \<times> 'a varray \<times> 'm) result" where
  "Vector_shrink_to_fit M V m =
     (if Vector_size V < Vector_capacity V then replace_array M V (Array_resize M (Vector_size V) V m) else Inr (Returns, V, m))"

fun fill_slots :: "('a, 'm) vmem \<Rightarrow> 'a \<Rightarrow> nat \<Rightarrow> nat \<Rightarrow> 'a varray \<Rightarrow> 'm \<Rightarrow> flow \<times> 'a varray \<times> 'm" where
  "fill_slots M val i 0 V m = (Returns, V, m)"
| "fill_slots M val i (Suc n) V m =
     (case m_copy M val m of
        (True, m1) \<Rightarrow> fill_slots M val (Suc i) n (V\<lparr>elems := (elems V)[i := val]\<rparr>) m1
      | (False, m1) \<Rightarrow> (NotEnoughSpace, V, m1))"

definition Vector_fill :: "('a, 'm) vmem \<Rightarrow> 'a \<Rightarrow> 'a varray \<Rightarrow> 'm \<Rightarrow> flow \<times> 'a varray \<times> 'm" where
  "Vector_fill M val V m = fill_slots M val 0 (Vector_size V) V m"

section \<open>Vectors refine lists\<close>

text \<open>
  \<open>shares_ok\<close>: assigning a value that lies in the block needs no memory, as for handles (\<open>assign_shared\<close>); and an array of
  \<open>2 ^ 31\<close> slots, of at least a handle each, does not fit into a block.
\<close>

definition shares_ok :: "('a, 'm) vmem \<Rightarrow> bool" where
  "shares_ok M \<longleftrightarrow> (\<forall>x m. fst (m_share M x m)) \<and> (\<forall>n m. fst (m_array M n m) \<longrightarrow> n < 2 ^ 31)"

definition vec_ok :: "('a, 'm) vmem \<Rightarrow> 'a varray \<Rightarrow> bool" where
  "vec_ok M V \<longleftrightarrow> shares_ok M \<and> usedSlots V \<le> numSlots V \<and> 0 < numSlots V \<and> numSlots V < 2 ^ 31"

locale appendable =
  fixes push :: "'a \<Rightarrow> 'c \<Rightarrow> 'm \<Rightarrow> (flow \<times> 'c \<times> 'm) result"
    and contents :: "'c \<Rightarrow> 'a list"
    and ok :: "'c \<Rightarrow> bool"
  assumes push_law: "ok c \<Longrightarrow>
    \<exists>fl c' m'. push x c m = Inr (fl, c', m') \<and> ok c' \<and> contents c' = (case fl of Returns \<Rightarrow> contents c @ [x] | NotEnoughSpace \<Rightarrow> contents c)"

text \<open>Appending a list: the elements before the one that does not fit stay, the others are what is left.\<close>

fun append_all :: "('a \<Rightarrow> 'c \<Rightarrow> 'm \<Rightarrow> (flow \<times> 'c \<times> 'm) result) \<Rightarrow> 'a list \<Rightarrow> 'c \<Rightarrow> 'm \<Rightarrow> (flow \<times> 'a list \<times> 'c \<times> 'm) result" where
  "append_all push [] c m = Inr (Returns, [], c, m)"
| "append_all push (x # xs) c m =
     andThen (push x c m) (\<lambda>(fl, c1, m1).
       case fl of Returns \<Rightarrow> append_all push xs c1 m1 | NotEnoughSpace \<Rightarrow> Inr (NotEnoughSpace, x # xs, c1, m1))"

context appendable
begin

lemma append_all_ok:
  assumes "ok c"
  shows "\<exists>fl left c' m'. append_all push xs c m = Inr (fl, left, c', m') \<and> ok c' \<and> contents c' @ left = contents c @ xs \<and>
    (fl = Returns \<longleftrightarrow> left = []) \<and> (\<exists>k. left = drop k xs)"
  using assms
proof (induction xs arbitrary: c m)
  case (Cons x xs)
  then obtain fl c1 m1 where p: "push x c m = Inr (fl, c1, m1)" "ok c1"
    "contents c1 = (case fl of Returns \<Rightarrow> contents c @ [x] | NotEnoughSpace \<Rightarrow> contents c)"
    using push_law [of c x m] by auto
  show ?case
  proof (cases fl)
    case Returns
    then obtain fl left c' m' k where i: "append_all push xs c1 m1 = Inr (fl, left, c', m')" "ok c'" "contents c' @ left = contents c1 @ xs"
      "fl = Returns \<longleftrightarrow> left = []" "left = drop k xs" using Cons.IH [OF p(2), of m1] by blast
    then show ?thesis using p Returns by (auto intro!: exI [of _ "Suc k"])
  next
    case NotEnoughSpace
    then show ?thesis using p by (auto intro!: exI [of _ 0])
  qed
qed simp

end

lemma share_slots_all: "shares_ok M \<Longrightarrow> fst (share_slots M xs m) = length xs"
  by (induction M xs m rule: share_slots.induct) (auto simp: shares_ok_def split: prod.splits bool.splits, metis fst_conv)

lemma Array_resize_ok:
  assumes "shares_ok M"
  shows "\<exists>fl A' m'. Array_resize M n A m = Inr (fl, A', m') \<and> (fl = Returns \<longrightarrow> n < 2 ^ 31) \<and>
    A' = (case fl of Returns \<Rightarrow> \<lparr>elems = take n (elems A), numSlots = n\<rparr> | NotEnoughSpace \<Rightarrow> A)"
proof (cases "m_array M n m")
  case (Pair b m1)
  have "take (min (length (elems A)) n) (elems A) = take n (elems A)" by (metis min.commute take_all_iff take_take linear)
  moreover have "n < 2 ^ 31" if b using assms Pair that unfolding shares_ok_def by (metis fst_conv)
  ultimately show ?thesis
    using Pair share_slots_all [OF assms, of "take n (elems A)" m1]
    by (cases b) (auto simp: Array_resize_def Let_def usedSlots_def split: prod.splits)
qed

lemma replace_array_ok:
  assumes "shares_ok M"
  shows "\<exists>fl V' m'. replace_array M V (Array_resize M n V m) = Inr (fl, V', m') \<and> (fl = Returns \<longrightarrow> n < 2 ^ 31) \<and>
    V' = (case fl of Returns \<Rightarrow> \<lparr>elems = take n (elems V), numSlots = n\<rparr> | NotEnoughSpace \<Rightarrow> V)"
  using Array_resize_ok [OF assms, of n V m] by (auto simp: replace_array_def split: flow.splits)

text \<open>Room for one more element.\<close>

lemma grow_ok:
  assumes "vec_ok M V"
  shows "\<exists>fl V' m'. (if isFull V then replace_array M V (Array_doubleSize M V m) else Inr (Returns, V, m)) = Inr (fl, V', m') \<and>
    vec_ok M V' \<and> elems V' = elems V \<and> (fl = Returns \<longrightarrow> usedSlots V' < numSlots V')"
proof (cases "isFull V")
  case True
  obtain fl V' m' where r: "replace_array M V (Array_resize M (numSlots V * 2) V m) = Inr (fl, V', m')" "fl = Returns \<longrightarrow> numSlots V * 2 < 2 ^ 31"
    "V' = (case fl of Returns \<Rightarrow> \<lparr>elems = take (numSlots V * 2) (elems V), numSlots = numSlots V * 2\<rparr> | NotEnoughSpace \<Rightarrow> V)"
    using replace_array_ok [of M V "numSlots V * 2" m] assms by (auto simp: vec_ok_def)
  moreover have "numSlots V * 2 mod 2 ^ 32 = numSlots V * 2" using assms by (simp add: vec_ok_def)
  ultimately show ?thesis
    using True assms by (cases fl) (auto simp: Array_doubleSize_def vec_ok_def isFull_def usedSlots_def)
qed (use assms in \<open>auto simp: vec_ok_def isFull_def\<close>)

lemma Vector_push_back_ok:
  assumes "vec_ok M V"
  shows "\<exists>fl V' m'. Vector_push_back M x V m = Inr (fl, V', m') \<and> vec_ok M V' \<and>
    elems V' = (case fl of Returns \<Rightarrow> elems V @ [x] | NotEnoughSpace \<Rightarrow> elems V)"
proof -
  obtain fl V1 m1 where g: "(if isFull V then replace_array M V (Array_doubleSize M V m) else Inr (Returns, V, m)) = Inr (fl, V1, m1)"
    "vec_ok M V1" "elems V1 = elems V" "fl = Returns \<Longrightarrow> usedSlots V1 < numSlots V1"
    using grow_ok [OF assms, of m] by blast
  show ?thesis
  proof (cases fl)
    case Returns
    obtain b m2 where "m_copy M x m1 = (b, m2)" by force
    then show ?thesis
      using g Returns by (cases b) (auto simp: Vector_push_back_def Array_push_back_def vec_ok_def usedSlots_def)
  qed (use g in \<open>auto simp: Vector_push_back_def\<close>)
qed

interpretation vector: appendable "Vector_push_back M" elems "vec_ok M"
  by unfold_locales (rule Vector_push_back_ok)

lemma push_defaults_ok:
  assumes "vec_ok M V"
  shows "\<exists>fl V' m'. push_defaults M n V m = Inr (fl, V', m') \<and> vec_ok M V' \<and>
    (\<exists>k. elems V' = elems V @ replicate k (m_default M) \<and> k \<le> n \<and> (fl = Returns \<longrightarrow> k = n))"
  using assms
proof (induction n arbitrary: V m)
  case (Suc n)
  obtain fl V1 m1 where g: "(if isFull V then replace_array M V (Array_doubleSize M V m) else Inr (Returns, V, m)) = Inr (fl, V1, m1)"
    "vec_ok M V1" "elems V1 = elems V" "fl = Returns \<Longrightarrow> usedSlots V1 < numSlots V1"
    using grow_ok [OF Suc.prems, of m] by auto
  show ?case
  proof (cases fl)
    case Returns
    let ?V2 = "V1\<lparr>elems := elems V1 @ [m_default M]\<rparr>"
    have p: "Vector_push_back_default M V m = Inr (Returns, ?V2, m1)"
      using g Returns by (simp add: Vector_push_back_default_def Array_push_back_default_def)
    have ok: "vec_ok M ?V2"
      using g Returns by (auto simp: vec_ok_def usedSlots_def)
    then obtain fl' V' m' k where "push_defaults M n ?V2 m1 = Inr (fl', V', m')" "vec_ok M V'"
      "elems V' = elems ?V2 @ replicate k (m_default M)" "k \<le> n" "fl' = Returns \<longrightarrow> k = n" using Suc.IH [OF ok, of m1] by blast
    then show ?thesis using p g(3) by (auto intro!: exI [of _ "Suc k"])
  next
    case NotEnoughSpace
    then have "Vector_push_back_default M V m = Inr (NotEnoughSpace, V1, m1)" using g by (simp add: Vector_push_back_default_def)
    then show ?thesis using g by auto
  qed
qed auto

lemma pop_backs:
  "elems ((Vector_pop_back ^^ n) V) = take (length (elems V) - n) (elems V)" "numSlots ((Vector_pop_back ^^ n) V) = numSlots V"
proof (induction n)
  case (Suc n)
  let ?W = "(Vector_pop_back ^^ n) V"
  have "elems (Vector_pop_back ?W) = butlast (elems ?W)" "numSlots (Vector_pop_back ?W) = numSlots ?W"
    by (auto simp: Vector_pop_back_def Array_pop_back_def usedSlots_def)
  moreover have "butlast (take (length (elems V) - n) (elems V)) = take (length (elems V) - Suc n) (elems V)"
    by (simp add: butlast_take)
  ultimately show "elems ((Vector_pop_back ^^ Suc n) V) = take (length (elems V) - Suc n) (elems V)"
    "numSlots ((Vector_pop_back ^^ Suc n) V) = numSlots V" using Suc by simp_all
qed simp_all

text \<open>
  C35: for element types whose assignment inside the block needs no memory (\<open>shares_ok\<close> in \<open>vec_ok\<close>: handles and plain
  data; an element assignment that throws lets \<^verbatim>\<open>Array::resize\<close> destroy slots that were never constructed) \<^verbatim>\<open>resize\<close> gives the
  vector the length asked for, keeping the elements it has and filling up with default ones; when an array or a default
  element cannot be allocated the vector keeps the elements it had; and it stays well formed in every case.
\<close>

theorem Vector_resize_refines:
  assumes "vec_ok M V"
  shows "\<exists>fl V' m'. Vector_resize M toMe V m = Inr (fl, V', m') \<and> vec_ok M V' \<and>
    (fl = Returns \<longrightarrow> elems V' = take toMe (elems V) @ replicate (toMe - length (elems V)) (m_default M)) \<and>
    (fl = NotEnoughSpace \<longrightarrow> take (length (elems V)) (elems V') = elems V)"
proof -
  let ?V1 = "(Vector_pop_back ^^ (Vector_size V - toMe)) V"
  have V1: "elems ?V1 = take toMe (elems V)" "numSlots ?V1 = numSlots V"
    using pop_backs [of "Vector_size V - toMe" V] by (cases "toMe \<le> length (elems V)", auto simp: Vector_size_def usedSlots_def pop_backs)
  then have ok1: "vec_ok M ?V1" using assms by (auto simp: vec_ok_def usedSlots_def)
  show ?thesis
  proof (cases "length (elems V) < toMe")
    case True
    then have eq: "?V1 = V" by (simp add: Vector_size_def usedSlots_def)
    have "\<exists>fl V2 m2. Vector_reserve M toMe V m = Inr (fl, V2, m2) \<and> vec_ok M V2 \<and> elems V2 = elems V"
    proof (cases "numSlots V < toMe")
      case le: True
      obtain fl V2 m2 where "replace_array M V (Array_resize M toMe V m) = Inr (fl, V2, m2)" "fl = Returns \<longrightarrow> toMe < 2 ^ 31"
        "V2 = (case fl of Returns \<Rightarrow> \<lparr>elems = take toMe (elems V), numSlots = toMe\<rparr> | NotEnoughSpace \<Rightarrow> V)"
        using replace_array_ok [of M V toMe m] assms by (auto simp: vec_ok_def)
      then show ?thesis
        using le assms True by (cases fl) (auto simp: Vector_reserve_def vec_ok_def Vector_capacity_def usedSlots_def)
    qed (use assms in \<open>auto simp: Vector_reserve_def Vector_capacity_def\<close>)
    then obtain fl V2 m2 where r: "Vector_reserve M toMe V m = Inr (fl, V2, m2)" "vec_ok M V2" "elems V2 = elems V" by blast
    show ?thesis
    proof (cases fl)
      case Returns
      from push_defaults_ok [OF r(2), of "toMe - length (elems V)" m2] show ?thesis
        using r Returns True eq by (auto simp: Vector_resize_def Vector_size_def usedSlots_def)
    qed (use r True eq in \<open>auto simp: Vector_resize_def Vector_size_def usedSlots_def\<close>)
  next
    case False
    then show ?thesis using V1 ok1 by (auto simp: Vector_resize_def Let_def Vector_size_def usedSlots_def)
  qed
qed

definition cheap_mem :: "(nat, nat) vmem" where
  "cheap_mem = \<lparr>m_array = \<lambda>n m. (n \<le> m \<and> n < 100, if n \<le> m then m - n else m), m_copy = \<lambda>x m. (1 \<le> m, m - 1),
     m_share = \<lambda>x m. (True, m), m_drop = \<lambda>n m. m + n, m_default = 0\<rparr>"

text \<open>In a memory of 20 units a vector of three elements grows to five.\<close>

theorem Vector_resize_refines_witness:
  "vec_ok cheap_mem \<lparr>elems = [7, 8, 9], numSlots = 4\<rparr> \<and>
   (\<exists>V' m'. Vector_resize cheap_mem 5 \<lparr>elems = [7, 8, 9], numSlots = 4\<rparr> 20 = Inr (Returns, V', m') \<and> elems V' = [7, 8, 9, 0, 0])"
proof -
  let ?V = "\<lparr>elems = [7, 8, 9], numSlots = 4\<rparr> :: nat varray"
  have ok: "vec_ok cheap_mem ?V" by (simp add: vec_ok_def shares_ok_def cheap_mem_def usedSlots_def)
  have "fst (projr (Vector_resize cheap_mem 5 ?V 20)) = Returns"
    by code_simp
  moreover obtain fl V' m' where "Vector_resize cheap_mem 5 ?V 20 = Inr (fl, V', m')"
    "fl = Returns \<longrightarrow> elems V' = take 5 (elems ?V) @ replicate (5 - length (elems ?V)) (m_default cheap_mem)"
    using Vector_resize_refines [OF ok, of 5 20] by auto
  moreover have "take 5 (elems ?V) @ replicate (5 - length (elems ?V)) (m_default cheap_mem) = [7, 8, 9, 0, 0]"
    by code_simp
  ultimately show ?thesis using ok by auto
qed

section \<open>Departures\<close>

text \<open>
  A vector that was made with no slots can never be filled: doubling no slots gives none, and the first
  \<^verbatim>\<open>push_back\<close> writes past the end of the array. \<^verbatim>\<open>assign\<close> lets the index one past the end through.
\<close>

lemma empty_capacity_never_grows:
  assumes "shares_ok M" and "\<And>m. fst (m_array M 0 m)"
  shows "Vector_push_back M x \<lparr>elems = [], numSlots = 0\<rparr> m = Inl (Undefined ''write past the end of the array'')"
  using assms(2) [of m] by (cases "m_array M 0 m")
    (auto simp: Vector_push_back_def isFull_def usedSlots_def Array_doubleSize_def Array_resize_def replace_array_def Array_push_back_def)

lemma assign_one_past_the_end: "Vector_assign M (length (elems V)) x V m = Inl (Undefined ''assignment to a slot that was never constructed'')"
  by (simp add: Vector_assign_def Array_assign_def usedSlots_def)

end
