(* ===== verification/Pipeline.thy ===== *)
theory Pipeline
  imports TupleSource Vector
begin

text \<open>
  \<^verbatim>\<open>pipeline/source/pipeline/Pipeline.cc\<close>, \<^verbatim>\<open>MemoryHolder.cc\<close>, \<^verbatim>\<open>sinks/VectorSink.h\<close> and \<^verbatim>\<open>processors/NullProcessor.h\<close>: a pipeline
  takes tuple sets from its source, runs them through its stages and writes the result to a container on an output page. Memory runs out at any
  point: a stage is tried once more on a new page, then the tuple set is handed out again in smaller parts; a
  write goes on on a new page; pages are given to the page processor two iterations after they were filled.

  An executor is given by what it makes of one row and by its memory behaviour (the lambdas it runs are generated code). The state of the memory of
  the current output page is of type \<open>'m\<close>; the output pages are those of an anonymous page set, a page being
  given by its root object, the container written to it.
\<close>

section \<open>Stages and sinks\<close>

record ('a, 'm) executor =
  x_row :: "'a \<Rightarrow> 'a list"
  x_mem :: "'a list \<Rightarrow> 'm \<Rightarrow> bool \<times> 'm"

definition process_rows :: "('a, 'm) executor \<Rightarrow> 'a list \<Rightarrow> 'm \<Rightarrow> 'a list option \<times> 'm" where
  "process_rows q rows m = (case x_mem q rows m of (b, m1) \<Rightarrow> (if b then Some (concat (map (x_row q) rows)) else None, m1))"

text \<open>
  \<open>e_fresh\<close> is the memory of a new output page, \<open>e_free\<close> is \<^verbatim>\<open>getFreeBytesAtTheEnd\<close>, \<open>e_create\<close> and \<open>e_write\<close> are the operations of the sink, \<open>e_process\<close> the answer of the
  page processor (whether the page is kept).
\<close>

record ('a, 'c, 'm) pipe_env =
  e_fresh :: 'm
  e_free :: "'m \<Rightarrow> nat"
  e_stages :: "('a, 'm) executor list"
  e_create :: "'m \<Rightarrow> 'c option \<times> 'm"
  e_write :: "'a list \<Rightarrow> 'c \<Rightarrow> 'm \<Rightarrow> (flow \<times> 'a list \<times> 'c \<times> 'm) result"
  e_process :: "'c \<Rightarrow> bool"

definition VectorSink_createNewOutputContainer :: "('a, 'm) vmem \<Rightarrow> 'm \<Rightarrow> 'a varray option \<times> 'm" where
  "VectorSink_createNewOutputContainer M m = Vector_default M m"

definition VectorSink_writeOut :: "('a, 'm) vmem \<Rightarrow> 'a list \<Rightarrow> 'a varray \<Rightarrow> 'm \<Rightarrow> (flow \<times> 'a list \<times> 'a varray \<times> 'm) result" where
  "VectorSink_writeOut M input writeToMe m = append_all (Vector_push_back M) input writeToMe m"

definition NullProcessor_process :: "'c \<Rightarrow> bool" where
  "NullProcessor_process memory = True"

section \<open>Output pages\<close>

record 'c holder =
  mh_page :: nat
  outputSink :: "'c option"
  mh_iteration :: int

text \<open>\<open>p_processed\<close> lists the containers the page processor was given; \<open>p_nextPage\<close> is the number of the next anonymous page.\<close>

record ('c, 'm) pipe =
  p_policy :: size_policy
  p_ram :: "'c holder"
  p_mem :: 'm
  unwrittenPages :: "'c holder list"
  outputPageSet :: "'c option anon_page_set"
  p_nextPage :: nat
  p_processed :: "'c list"

definition grab_page :: "('a, 'c, 'm) pipe_env \<Rightarrow> ('c, 'm) pipe \<Rightarrow> ('c, 'm) pipe" where
  "grab_page E st =
     st\<lparr>p_ram := \<lparr>mh_page = p_nextPage st, outputSink = None, mh_iteration = 0\<rparr>, p_mem := e_fresh E,
        outputPageSet := AnonPageSet_getNewPage (p_nextPage st) None (outputPageSet st), p_nextPage := p_nextPage st + 1\<rparr>"

text \<open>\<^verbatim>\<open>setIteration\<close> makes the container the root object of the page.\<close>

definition addPageToIteration :: "int \<Rightarrow> ('c, 'm) pipe \<Rightarrow> ('c, 'm) pipe" where
  "addPageToIteration iteration st =
     st\<lparr>unwrittenPages := unwrittenPages st @ [(p_ram st)\<lparr>mh_iteration := iteration\<rparr>],
        outputPageSet := (case outputSink (p_ram st) of
            None \<Rightarrow> outputPageSet st
          | Some c \<Rightarrow> AnonPageSet_getNewPage (mh_page (p_ram st)) (Some c) (outputPageSet st))\<rparr>"

definition clean_page :: "('a, 'c, 'm) pipe_env \<Rightarrow> 'c holder \<Rightarrow> ('c, 'm) pipe \<Rightarrow> ('c, 'm) pipe" where
  "clean_page E h st =
     (case outputSink h of
        None \<Rightarrow> st\<lparr>outputPageSet := AnonPageSet_removePage (mh_page h) (outputPageSet st)\<rparr>
      | Some c \<Rightarrow> st\<lparr>p_processed := p_processed st @ [c],
            outputPageSet := (if e_process E c then outputPageSet st else AnonPageSet_removePage (mh_page h) (outputPageSet st))\<rparr>)"

text \<open>The loop stops at the first page that is too recent.\<close>

definition cleanPages :: "('a, 'c, 'm) pipe_env \<Rightarrow> int \<Rightarrow> ('c, 'm) pipe \<Rightarrow> ('c, 'm) pipe" where
  "cleanPages E iteration st =
     (let old = takeWhile (\<lambda>h. mh_iteration h + 1 < iteration) (unwrittenPages st)
      in fold (clean_page E) old (st\<lparr>unwrittenPages := drop (length old) (unwrittenPages st)\<rparr>))"

definition INT_MAX :: int where
  "INT_MAX = 2 ^ 31 - 1"

definition cleanPipeline :: "('a, 'c, 'm) pipe_env \<Rightarrow> ('c, 'm) pipe \<Rightarrow> ('c, 'm) pipe" where
  "cleanPipeline E st = cleanPages E INT_MAX (st\<lparr>unwrittenPages := rev (unwrittenPages st)\<rparr>)"

section \<open>One iteration\<close>

text \<open>A stage that fails gets a new page and one more attempt; the second failure reduces the size of tuple sets.\<close>

definition retry_stage :: "('a, 'c, 'm) pipe_env \<Rightarrow> int \<Rightarrow> ('a, 'm) executor \<Rightarrow> 'a list \<Rightarrow> ('c, 'm) pipe \<Rightarrow> ('a list option \<times> ('c, 'm) pipe) result" where
  "retry_stage E iteration q rows st =
     (let st1 = grab_page E (addPageToIteration iteration st)
      in case process_rows q rows (p_mem st1) of
           (Some rows1, m1) \<Rightarrow> Inr (Some rows1, st1\<lparr>p_mem := m1\<rparr>)
         | (None, m1) \<Rightarrow>
             andThen (pipelineFailed (p_policy st1)) (\<lambda>P.
               Inr (None, grab_page E (addPageToIteration iteration (st1\<lparr>p_policy := P, p_mem := m1\<rparr>)))))"

fun run_stages :: "('a, 'c, 'm) pipe_env \<Rightarrow> int \<Rightarrow> ('a, 'm) executor list \<Rightarrow> 'a list \<Rightarrow> nat \<Rightarrow> ('c, 'm) pipe \<Rightarrow>
    ('a list option \<times> nat \<times> ('c, 'm) pipe) result" where
  "run_stages E iteration [] rows additional st = Inr (Some rows, additional, st)"
| "run_stages E iteration (q # qs) rows additional st =
     (case process_rows q rows (p_mem st) of
        (Some rows1, m1) \<Rightarrow> run_stages E iteration qs rows1 additional (st\<lparr>p_mem := m1\<rparr>)
      | (None, m1) \<Rightarrow>
          andThen (retry_stage E iteration q rows (st\<lparr>p_mem := m1\<rparr>)) (\<lambda>(r, st1).
            case r of
              Some rows1 \<Rightarrow> run_stages E iteration qs rows1 (additional + 1) st1
            | None \<Rightarrow> Inr (None, additional + 1, st1)))"

text \<open>Writing to the container of the current page, which is made if there is none; what was not written comes back.\<close>

definition write_sink :: "('a, 'c, 'm) pipe_env \<Rightarrow> 'a list \<Rightarrow> ('c, 'm) pipe \<Rightarrow> (flow \<times> 'a list \<times> ('c, 'm) pipe) result" where
  "write_sink E rows st =
     (case (case outputSink (p_ram st) of None \<Rightarrow> e_create E (p_mem st) | Some c \<Rightarrow> (Some c, p_mem st)) of
        (None, m1) \<Rightarrow> Inr (NotEnoughSpace, rows, st\<lparr>p_mem := m1\<rparr>)
      | (Some c, m1) \<Rightarrow>
          andThen (e_write E rows c m1) (\<lambda>(fl, left, c1, m2).
            Inr (fl, left, st\<lparr>p_ram := (p_ram st)\<lparr>outputSink := Some c1\<rparr>, p_mem := m2\<rparr>)))"

definition write_rows :: "('a, 'c, 'm) pipe_env \<Rightarrow> int \<Rightarrow> 'a list \<Rightarrow> ('c, 'm) pipe \<Rightarrow> ('c, 'm) pipe result" where
  "write_rows E iteration rows st =
     andThen (write_sink E rows st) (\<lambda>(fl, left, st1).
       case fl of
         Returns \<Rightarrow> Inr st1
       | NotEnoughSpace \<Rightarrow>
           andThen (write_sink E left (grab_page E (addPageToIteration iteration st1))) (\<lambda>(fl2, left2, st2).
             case fl2 of Returns \<Rightarrow> Inr st2 | NotEnoughSpace \<Rightarrow> Inl (Throw ''NotEnoughSpace'')))"

definition run_iteration :: "('a, 'c, 'm) pipe_env \<Rightarrow> int \<Rightarrow> 'a list \<Rightarrow> ('c, 'm) pipe \<Rightarrow> ('c, 'm) pipe result" where
  "run_iteration E iteration rows st =
     andThen (run_stages E iteration (e_stages E) rows 0 st) (\<lambda>(r, additional, st1).
       case r of
         None \<Rightarrow> Inr st1
       | Some rows1 \<Rightarrow>
           let finalFree = e_free E (p_mem st1);
               st2 = st1\<lparr>p_policy := pipelineSucceeded additional (e_free E (p_mem st)) finalFree (p_policy st1)\<rparr>
           in andThen (write_rows E iteration rows1 st2) (\<lambda>st3.
              andThen (writeToPageSucceeded 0 finalFree (e_free E (p_mem st3)) (p_policy st3)) (\<lambda>P. Inr (st3\<lparr>p_policy := P\<rparr>))))"

section \<open>The loop\<close>

fun run_loop :: "nat \<Rightarrow> ('a, 'c, 'm) pipe_env \<Rightarrow> ('s \<Rightarrow> ('a list option \<times> 's) result) \<Rightarrow> int \<Rightarrow> ('a, 's) vec_source \<Rightarrow> ('c, 'm) pipe \<Rightarrow>
    ('c, 'm) pipe result" where
  "run_loop 0 E nextp iteration src st = Inl (Diverges ''run'')"
| "run_loop (Suc n) E nextp iteration src st =
     andThen (getNextTupleSet nextp (p_policy st) src) (\<lambda>(r, src1).
       case r of
         None \<Rightarrow> Inr (cleanPipeline E (addPageToIteration iteration st))
       | Some rows \<Rightarrow>
           andThen (run_iteration E iteration rows st) (\<lambda>st1.
             if iteration = INT_MAX then Inl (Undefined ''overflow of the iteration counter'')
             else run_loop n E nextp (iteration + 1) src1 (cleanPages E (iteration + 1) st1)))"

definition Pipeline_new :: "nat \<Rightarrow> nat \<Rightarrow> 'c option anon_page_set \<Rightarrow> 'm \<Rightarrow> ('c, 'm) pipe" where
  "Pipeline_new maxPageSize firstPage out m =
     \<lparr>p_policy = TupleSetSizePolicy_new maxPageSize, p_ram = \<lparr>mh_page = 0, outputSink = None, mh_iteration = 0\<rparr>, p_mem = m,
      unwrittenPages = [], outputPageSet = out, p_nextPage = firstPage, p_processed = []\<rparr>"

definition Pipeline_run :: "nat \<Rightarrow> ('a, 'c, 'm) pipe_env \<Rightarrow> ('s \<Rightarrow> ('a list option \<times> 's) result) \<Rightarrow> ('a, 's) vec_source \<Rightarrow> ('c, 'm) pipe \<Rightarrow>
    ('c, 'm) pipe result" where
  "Pipeline_run n E nextp src st = run_loop n E nextp 0 src (grab_page E st)"

end
