(* ===== verification/PipelineRun.thy ===== *)
theory PipelineRun
  imports Pipeline
begin

text \<open>
  What a run of a pipeline computes. The locale \<open>pipeline\<close> states what the run relies on: a source of pages and a
  sink whose containers have values in a commutative monoid, a write adding the values of the rows written. Every input record the run does not
  lose contributes once, whatever fails on the way; the loop ends; and when tuple sets of the initial size
  fit on an empty page nothing is lost.
\<close>

primrec through :: "('a, 'm) executor list \<Rightarrow> 'a \<Rightarrow> 'a list" where
  "through [] x = [x]"
| "through (q # qs) x = concat (map (through qs) (x_row q x))"

definition all_through :: "('a, 'm) executor list \<Rightarrow> 'a list \<Rightarrow> 'a list" where
  "all_through qs xs = concat (map (through qs) xs)"

lemma all_through_simps:
  "all_through [] xs = xs" "all_through (q # qs) xs = all_through qs (concat (map (x_row q) xs))"
  "all_through qs (xs @ ys) = all_through qs xs @ all_through qs ys" "all_through qs [] = []"
  by (induction xs) (simp_all add: all_through_def)

definition rows_val :: "('a \<Rightarrow> 'v::comm_monoid_add) \<Rightarrow> 'a list \<Rightarrow> 'v" where
  "rows_val tup xs = sum_list (map tup xs)"

lemma rows_val_append [simp]: "rows_val tup (xs @ ys) = rows_val tup xs + rows_val tup ys" "rows_val tup [] = 0"
  by (simp_all add: rows_val_def)

text \<open>The stages succeed on an empty page, each on what the ones before it make of the rows.\<close>

primrec stages_fit :: "('a, 'c, 'm) pipe_env \<Rightarrow> ('a, 'm) executor list \<Rightarrow> 'a list \<Rightarrow> bool" where
  "stages_fit E [] rows \<longleftrightarrow> True"
| "stages_fit E (q # qs) rows \<longleftrightarrow> fst (x_mem q rows (e_fresh E)) \<and> stages_fit E qs (concat (map (x_row q) rows))"

definition write_fits :: "('a, 'c, 'm) pipe_env \<Rightarrow> 'a list \<Rightarrow> bool" where
  "write_fits E rows \<longleftrightarrow> (case e_create E (e_fresh E) of
     (None, _) \<Rightarrow> False | (Some c, m) \<Rightarrow> (case e_write E rows c m of Inr (Returns, _) \<Rightarrow> True | _ \<Rightarrow> False))"

definition writes_fit :: "('a, 'c, 'm) pipe_env \<Rightarrow> 'a list \<Rightarrow> bool" where
  "writes_fit E rows \<longleftrightarrow> (\<forall>k. write_fits E (drop k rows))"

definition sink_val :: "('c \<Rightarrow> 'v::comm_monoid_add) \<Rightarrow> 'c holder \<Rightarrow> 'v" where
  "sink_val val h = (case outputSink h of None \<Rightarrow> 0 | Some c \<Rightarrow> val c)"

definition queue_val :: "('c \<Rightarrow> 'v::comm_monoid_add) \<Rightarrow> ('c, 'm) pipe \<Rightarrow> 'v" where
  "queue_val val st = sum_list (map val (p_processed st)) + sum_list (map (sink_val val) (unwrittenPages st))"

definition pipe_val :: "('c \<Rightarrow> 'v::comm_monoid_add) \<Rightarrow> ('c, 'm) pipe \<Rightarrow> 'v" where
  "pipe_val val st = queue_val val st + sink_val val (p_ram st)"

text \<open>The entries of the output page set: kept pages, pages in the queue and the current page.\<close>

definition holder_entry :: "'c holder \<Rightarrow> nat \<times> 'c option" where
  "holder_entry h = (mh_page h, outputSink h)"

definition out_ok :: "('a, 'c, 'm) pipe_env \<Rightarrow> (nat \<times> 'c option) multiset \<Rightarrow> ('c, 'm) pipe \<Rightarrow> bool" where
  "out_ok E cur st \<longleftrightarrow> map_ok (ap_pages (outputPageSet st)) \<and> (\<forall>k \<in> fst ` set (ap_pages (outputPageSet st)). k < p_nextPage st) \<and>
     (\<exists>kept. map snd kept = map Some (filter (e_process E) (p_processed st)) \<and>
        mset (ap_pages (outputPageSet st)) = mset kept + mset (map holder_entry (unwrittenPages st)) + cur)"

definition pipe_ok :: "('a, 'c, 'm) pipe_env \<Rightarrow> ('c \<Rightarrow> bool) \<Rightarrow> int \<Rightarrow> ('c, 'm) pipe \<Rightarrow> bool" where
  "pipe_ok E cok iteration st \<longleftrightarrow> policy_ok (p_policy st) \<and> (\<forall>c. outputSink (p_ram st) = Some c \<longrightarrow> cok c) \<and>
     (\<forall>h \<in> set (unwrittenPages st). mh_iteration h \<le> iteration) \<and> out_ok E {#(mh_page (p_ram st), None)#} st"

lemma mset_map_put:
  "map_ok m \<Longrightarrow> mset (map_put k v m) = (case map_of m k of None \<Rightarrow> mset m | Some w \<Rightarrow> mset m - {#(k, w)#}) + {#(k, v)#}"
proof (induction k v m rule: map_put.induct)
  case (2 k v a b xs)
  have "map_ok xs" "\<And>e. e \<in> set xs \<Longrightarrow> a < fst e" using 2(2) by (auto simp: map_ok_def)
  moreover from this(2) have "map_of xs k = None" if "k < a"
    using that by (force simp: map_of_eq_None_iff)
  moreover have "(k, w) \<in># mset xs" if "map_of xs k = Some w" for w using map_of_SomeD [OF that] by simp
  ultimately show ?case using 2(1) by (auto split: option.splits)
qed simp

lemma mset_map_erase: "map_ok m \<Longrightarrow> map_of m k = Some w \<Longrightarrow> mset (map_erase k m) = mset m - {#(k, w)#}"
proof (induction m)
  case (Cons e m)
  obtain a b where e: "e = (a, b)" by (cases e)
  have m: "map_ok m" "\<And>x. x \<in> set m \<Longrightarrow> a < fst x" using Cons.prems(1) by (auto simp: map_ok_def e)
  show ?case
  proof (cases "a = k")
    case True
    then have "map_erase k m = m" using m(2) by (force simp: map_erase_def filter_id_conv)
    then show ?thesis using True Cons.prems(2) by (simp add: e map_erase_def)
  next
    case False
    then have mk: "map_of m k = Some w" using Cons.prems(2) e by simp
    then have "(k, w) \<in># mset m" using map_of_SomeD by fastforce
    then show ?thesis using False Cons.IH [OF m(1) mk] by (simp add: e map_erase_def)
  qed
qed simp

lemma map_of_entry: "map_ok m \<Longrightarrow> (k, w) \<in># mset m \<Longrightarrow> map_of m k = Some w"
  using map_ok_distinct by (fastforce intro: map_of_is_SomeI)

section \<open>Pages\<close>

lemma grab_page_sel [simp]:
  "p_policy (grab_page E st) = p_policy st" "unwrittenPages (grab_page E st) = unwrittenPages st" "p_processed (grab_page E st) = p_processed st"
  "outputSink (p_ram (grab_page E st)) = None" "mh_page (p_ram (grab_page E st)) = p_nextPage st" "p_mem (grab_page E st) = e_fresh E"
  by (simp_all add: grab_page_def)

lemma add_page_sel [simp]:
  "p_policy (addPageToIteration i st) = p_policy st" "p_ram (addPageToIteration i st) = p_ram st" "p_processed (addPageToIteration i st) = p_processed st"
  "p_nextPage (addPageToIteration i st) = p_nextPage st" "unwrittenPages (addPageToIteration i st) = unwrittenPages st @ [(p_ram st)\<lparr>mh_iteration := i\<rparr>]"
  by (simp_all add: addPageToIteration_def)

lemma out_ok_cong:
  "outputPageSet st' = outputPageSet st \<Longrightarrow> p_nextPage st' = p_nextPage st \<Longrightarrow> unwrittenPages st' = unwrittenPages st \<Longrightarrow>
    p_processed st' = p_processed st \<Longrightarrow> out_ok E cur st' = out_ok E cur st"
  by (simp add: out_ok_def)

lemma out_ok_grab:
  assumes "out_ok E cur st"
  shows "out_ok E (cur + {#(p_nextPage st, None)#}) (grab_page E st)"
proof -
  let ?m = "ap_pages (outputPageSet st)"
  have "map_of ?m (p_nextPage st) = None" using assms by (force simp: out_ok_def map_of_eq_None_iff)
  then show ?thesis
    using assms set_map_fst_map_put [of "p_nextPage st" None ?m]
    by (auto simp: out_ok_def grab_page_def AnonPageSet_getNewPage_def map_ok_put mset_map_put)
qed

lemma out_ok_add:
  assumes "out_ok E {#(mh_page (p_ram st), None)#} st"
  shows "out_ok E {#} (addPageToIteration i st)"
proof -
  let ?m = "ap_pages (outputPageSet st)" and ?k = "mh_page (p_ram st)"
  obtain kept where ok: "map_ok ?m" and e: "mset ?m = mset kept + mset (map holder_entry (unwrittenPages st)) + {#(?k, None)#}"
    using assms unfolding out_ok_def by blast
  moreover have "(?k, None) \<in># mset ?m" unfolding e by simp
  ultimately have "map_of ?m ?k = Some None" by (intro map_of_entry)
  moreover from this have "?k \<in> fst ` set ?m" by (force dest: map_of_SomeD)
  ultimately show ?thesis
    using assms ok
    by (auto simp: out_ok_def addPageToIteration_def AnonPageSet_getNewPage_def map_ok_put mset_map_put holder_entry_def
        split: option.splits dest!: subsetD [OF set_map_put_subset])
qed

lemma out_ok_clean:
  assumes "out_ok E (cur + {#holder_entry h#}) st"
  shows "out_ok E cur (clean_page E h st)"
proof -
  let ?m = "ap_pages (outputPageSet st)"
  obtain kept where k: "map_ok ?m" "\<forall>k \<in> fst ` set ?m. k < p_nextPage st" "map snd kept = map Some (filter (e_process E) (p_processed st))"
    "mset ?m = mset kept + mset (map holder_entry (unwrittenPages st)) + (cur + {#holder_entry h#})"
    using assms by (auto simp: out_ok_def)
  have "(mh_page h, outputSink h) \<in># mset ?m" using k(4) by (simp add: holder_entry_def)
  then have mo: "map_of ?m (mh_page h) = Some (outputSink h)" by (rule map_of_entry [OF k(1)])
  have er: "mset (map_erase (mh_page h) ?m) = mset kept + mset (map holder_entry (unwrittenPages st)) + cur"
    using mset_map_erase [OF k(1) mo] k(4) by (simp add: holder_entry_def)
  have sub: "set (map_erase (mh_page h) ?m) \<subseteq> set ?m" by (auto simp: map_erase_def)
  show ?thesis
  proof (cases "outputSink h")
    case None
    then show ?thesis using k(1-3) er sub by (auto simp: out_ok_def clean_page_def AnonPageSet_removePage_def map_ok_erase)
  next
    case (Some c)
    show ?thesis
    proof (cases "e_process E c")
      case True
      have "map snd (kept @ [(mh_page h, Some c)]) = map Some (filter (e_process E) (p_processed st @ [c]))" using k(3) True by simp
      moreover have "mset ?m = mset (kept @ [(mh_page h, Some c)]) + mset (map holder_entry (unwrittenPages st)) + cur"
        using k(4) Some by (simp add: holder_entry_def)
      ultimately show ?thesis using k(1,2) Some True
        by (auto simp: out_ok_def clean_page_def intro!: exI [of _ "kept @ [(mh_page h, Some c)]"])
    next
      case False
      then show ?thesis using k(1-3) er sub Some by (auto simp: out_ok_def clean_page_def AnonPageSet_removePage_def map_ok_erase)
    qed
  qed
qed

lemma clean_page_sel [simp]:
  "p_policy (clean_page E h st) = p_policy st" "p_ram (clean_page E h st) = p_ram st" "p_mem (clean_page E h st) = p_mem st"
  "p_nextPage (clean_page E h st) = p_nextPage st" "unwrittenPages (clean_page E h st) = unwrittenPages st"
  by (simp_all add: clean_page_def split: option.split)

lemma clean_pages_fold:
  "p_policy (fold (clean_page E) hs st) = p_policy st \<and> p_ram (fold (clean_page E) hs st) = p_ram st \<and>
   unwrittenPages (fold (clean_page E) hs st) = unwrittenPages st \<and>
   sum_list (map val (p_processed (fold (clean_page E) hs st))) = sum_list (map val (p_processed st)) + sum_list (map (sink_val val) hs) \<and>
   (out_ok E (cur + mset (map holder_entry hs)) st \<longrightarrow> out_ok E cur (fold (clean_page E) hs st))"
proof (induction hs arbitrary: st)
  case (Cons h hs)
  have "sum_list (map val (p_processed (clean_page E h st))) = sum_list (map val (p_processed st)) + sink_val val h"
    by (simp add: clean_page_def sink_val_def split: option.split)
  moreover have "out_ok E (cur + mset (map holder_entry hs)) (clean_page E h st)" if "out_ok E (cur + mset (map holder_entry (h # hs))) st"
    using out_ok_clean [of E "cur + mset (map holder_entry hs)" h st] that by (simp add: ac_simps)
  ultimately show ?case using Cons.IH [of "clean_page E h st"] by (simp add: ac_simps)
qed simp

lemma out_ok_split:
  "out_ok E cur st \<Longrightarrow> unwrittenPages st = old @ new \<Longrightarrow> out_ok E (cur + mset (map holder_entry old)) (st\<lparr>unwrittenPages := new\<rparr>)"
  by (simp add: out_ok_def ac_simps)

lemma cleanPages_ok:
  assumes "out_ok E cur st"
  shows "p_policy (cleanPages E i st) = p_policy st" "p_ram (cleanPages E i st) = p_ram st" "queue_val val (cleanPages E i st) = queue_val val st"
    "unwrittenPages (cleanPages E i st) = dropWhile (\<lambda>h. mh_iteration h + 1 < i) (unwrittenPages st)" "out_ok E cur (cleanPages E i st)"
proof -
  let ?P = "\<lambda>h. mh_iteration h + 1 < i"
  let ?old = "takeWhile ?P (unwrittenPages st)"
  let ?st = "st\<lparr>unwrittenPages := drop (length ?old) (unwrittenPages st)\<rparr>"
  have d: "drop (length ?old) (unwrittenPages st) = dropWhile ?P (unwrittenPages st)" by (simp add: dropWhile_eq_drop)
  have u: "unwrittenPages st = ?old @ dropWhile ?P (unwrittenPages st)" by simp
  have "out_ok E (cur + mset (map holder_entry ?old)) ?st" unfolding d by (rule out_ok_split [OF assms u])
  then show "p_policy (cleanPages E i st) = p_policy st" "p_ram (cleanPages E i st) = p_ram st"
    "unwrittenPages (cleanPages E i st) = dropWhile ?P (unwrittenPages st)" "out_ok E cur (cleanPages E i st)"
    using clean_pages_fold [of E ?old ?st _ cur] d by (auto simp: cleanPages_def Let_def)
  have "sum_list (map (sink_val val) (unwrittenPages st)) = sum_list (map (sink_val val) ?old) + sum_list (map (sink_val val) (dropWhile ?P (unwrittenPages st)))"
    by (subst u) (simp only: map_append sum_list_append)
  then show "queue_val val (cleanPages E i st) = queue_val val st"
    using clean_pages_fold [of E ?old ?st val cur] d by (simp add: cleanPages_def Let_def queue_val_def ac_simps)
qed

section \<open>An iteration\<close>

locale sink_contract =
  fixes E :: "('a, 'c, 'm) pipe_env"
    and val :: "'c \<Rightarrow> 'v::comm_monoid_add"
    and tup :: "'a \<Rightarrow> 'v"
    and cok :: "'c \<Rightarrow> bool"
  assumes create_law: "e_create E m = (Some c, m1) \<Longrightarrow> cok c \<and> val c = 0"
    and write_law: "cok c \<Longrightarrow> \<exists>fl left c1 m1. e_write E xs c m = Inr (fl, left, c1, m1) \<and> (fl = Returns \<longrightarrow> cok c1) \<and>
      val c1 + rows_val tup left = val c + rows_val tup xs \<and> (fl = Returns \<longrightarrow> left = []) \<and> (\<exists>k. left = drop k xs)"
begin

lemma next_page_ok:
  assumes "pipe_ok E cok' i st"
  shows "pipe_ok E cok i (grab_page E (addPageToIteration i st)) \<and> pipe_val val (grab_page E (addPageToIteration i st)) = pipe_val val st"
proof -
  have "out_ok E {#(p_nextPage st, None)#} (grab_page E (addPageToIteration i st))"
    using out_ok_grab [OF out_ok_add, of E st i] assms by (simp add: pipe_ok_def)
  then show ?thesis using assms by (auto simp: pipe_ok_def pipe_val_def queue_val_def sink_val_def ac_simps)
qed

lemma pipe_ok_mem: "pipe_ok E cok i (st\<lparr>p_mem := m\<rparr>) = pipe_ok E cok i st" "pipe_val val (st\<lparr>p_mem := m\<rparr>) = pipe_val val st"
  by (simp_all add: pipe_ok_def pipe_val_def queue_val_def out_ok_def)

lemma pipe_ok_policy: "pipe_ok E cok i st \<Longrightarrow> policy_ok P \<Longrightarrow> pipe_ok E cok i (st\<lparr>p_policy := P\<rparr>)" "pipe_val val (st\<lparr>p_policy := P\<rparr>) = pipe_val val st"
  by (simp_all add: pipe_ok_def pipe_val_def queue_val_def out_ok_def)

lemma process_rows_Some: "process_rows q rows m = (Some rows1, m1) \<Longrightarrow> rows1 = concat (map (x_row q) rows)"
  by (auto simp: process_rows_def split: prod.splits if_splits)

definition stages_done :: "int \<Rightarrow> ('a, 'm) executor list \<Rightarrow> 'a list \<Rightarrow> ('c, 'm) pipe \<Rightarrow> 'a list option \<Rightarrow> ('c, 'm) pipe \<Rightarrow> bool" where
  "stages_done i qs rows st r st1 \<longleftrightarrow> pipe_ok E cok i st1 \<and> pipe_val val st1 = pipe_val val st \<and>
     (case r of Some rows1 \<Rightarrow> rows1 = all_through qs rows \<and> p_policy st1 = p_policy st
      | None \<Rightarrow> pipelineFailed (p_policy st) = Inr (p_policy st1) \<and> \<not> stages_fit E qs rows)"

lemma stages_done_Cons:
  assumes "stages_done i qs (concat (map (x_row q) rows)) st1 r st2" and "pipe_val val st1 = pipe_val val st" and "p_policy st1 = p_policy st"
  shows "stages_done i (q # qs) rows st r st2"
  using assms by (auto simp: stages_done_def all_through_simps split: option.splits)

lemma run_stages_ok:
  assumes "pipe_ok E cok i st"
  shows "(\<exists>e. run_stages E i qs rows add st = Inl (Throw e) \<and> \<not> stages_fit E qs rows \<and> chunkSize (p_policy st) = 1) \<or>
    (\<exists>r add1 st1. run_stages E i qs rows add st = Inr (r, add1, st1) \<and> stages_done i qs rows st r st1)"
  using assms
proof (induction qs arbitrary: rows add st)
  case Nil
  then show ?case by (simp add: stages_done_def all_through_simps)
next
  case (Cons q qs)
  obtain b m1 where x: "x_mem q rows (p_mem st) = (b, m1)" by force
  let ?rows = "concat (map (x_row q) rows)"
  show ?case
  proof (cases b)
    case True
    then have eq: "run_stages E i (q # qs) rows add st = run_stages E i qs ?rows add (st\<lparr>p_mem := m1\<rparr>)"
      using x by (simp add: process_rows_def)
    have "pipe_ok E cok i (st\<lparr>p_mem := m1\<rparr>)" using Cons.prems by (simp add: pipe_ok_mem)
    from Cons.IH [OF this, of ?rows add] show ?thesis
      unfolding eq using stages_done_Cons [of i qs q rows "st\<lparr>p_mem := m1\<rparr>" _ _ st] by (fastforce simp: pipe_ok_mem)
  next
    case False
    let ?st = "grab_page E (addPageToIteration i (st\<lparr>p_mem := m1\<rparr>))"
    have pg: "pipe_ok E cok i ?st" "pipe_val val ?st = pipe_val val st" "p_policy ?st = p_policy st"
      using next_page_ok [of cok i "st\<lparr>p_mem := m1\<rparr>"] Cons.prems by (simp_all add: pipe_ok_mem)
    obtain b2 m2 where x2: "x_mem q rows (e_fresh E) = (b2, m2)" by force
    show ?thesis
    proof (cases b2)
      case True
      then have eq: "run_stages E i (q # qs) rows add st = run_stages E i qs ?rows (add + 1) (?st\<lparr>p_mem := m2\<rparr>)"
        using x x2 False by (simp add: process_rows_def retry_stage_def Let_def)
      have "pipe_ok E cok i (?st\<lparr>p_mem := m2\<rparr>)" using pg by (simp add: pipe_ok_mem)
      from Cons.IH [OF this, of ?rows "add + 1"] show ?thesis
        unfolding eq using stages_done_Cons [of i qs q rows "?st\<lparr>p_mem := m2\<rparr>" _ _ st] pg by (fastforce simp: pipe_ok_mem)
    next
      case b2: False
      have pol: "policy_ok (p_policy st)" using Cons.prems by (simp add: pipe_ok_def)
      have r: "run_stages E i (q # qs) rows add st = andThen (pipelineFailed (p_policy st)) (\<lambda>P.
          Inr (None, add + 1, grab_page E (addPageToIteration i (?st\<lparr>p_policy := P, p_mem := m2\<rparr>))))"
        using x x2 False b2 pg(3) by (cases "pipelineFailed (p_policy st)") (simp_all add: process_rows_def retry_stage_def Let_def)
      from pipelineFailed_ok [OF pol] show ?thesis
      proof (elim disjE exE conjE)
        fix P assume P: "pipelineFailed (p_policy st) = Inr P" "policy_ok P"
        let ?st2 = "?st\<lparr>p_policy := P, p_mem := m2\<rparr>"
        have "pipe_ok E cok i ?st2" "pipe_val val ?st2 = pipe_val val st"
          using pipe_ok_policy(1) [OF pg(1) P(2)] pg(2) by (simp_all add: pipe_ok_mem pipe_ok_policy(2))
        then show ?thesis using next_page_ok [of cok i ?st2] r P x2 b2 by (auto simp: stages_done_def)
      qed (use r x2 b2 in auto)
    qed
  qed
qed

lemma write_sink_ok:
  assumes "pipe_ok E cok i st"
  shows "\<exists>fl left st1. write_sink E rows st = Inr (fl, left, st1) \<and> pipe_ok E (\<lambda>c. fl = Returns \<longrightarrow> cok c) i st1 \<and> p_policy st1 = p_policy st \<and>
    pipe_val val st1 + rows_val tup left = pipe_val val st + rows_val tup rows \<and> (fl = Returns \<longrightarrow> left = []) \<and> (\<exists>k. left = drop k rows) \<and>
    (outputSink (p_ram st) = None \<and> p_mem st = e_fresh E \<and> write_fits E rows \<longrightarrow> fl = Returns)"
proof -
  obtain r m1 where r: "(case outputSink (p_ram st) of None \<Rightarrow> e_create E (p_mem st) | Some c \<Rightarrow> (Some c, p_mem st)) = (r, m1)" by force
  show ?thesis
  proof (cases r)
    case None
    then have n: "outputSink (p_ram st) = None" "e_create E (p_mem st) = (None, m1)" using r by (auto split: option.splits)
    then have "write_sink E rows st = Inr (NotEnoughSpace, rows, st\<lparr>p_mem := m1\<rparr>)" by (simp add: write_sink_def)
    moreover have "pipe_ok E (\<lambda>c. NotEnoughSpace = Returns \<longrightarrow> cok c) i (st\<lparr>p_mem := m1\<rparr>)" using assms n(1) by (simp add: pipe_ok_def out_ok_def)
    ultimately show ?thesis using n(2) by (auto simp: pipe_ok_mem write_fits_def intro!: exI [of _ 0])
  next
    case (Some c)
    have c: "cok c" "val c = sink_val val (p_ram st)"
      using r Some assms create_law by (auto simp: pipe_ok_def sink_val_def split: option.splits)
    obtain fl left c1 m2 where w: "e_write E rows c m1 = Inr (fl, left, c1, m2)" "fl = Returns \<longrightarrow> cok c1"
      "val c1 + rows_val tup left = val c + rows_val tup rows" "fl = Returns \<longrightarrow> left = []" "\<exists>k. left = drop k rows"
      using write_law [OF c(1), of rows m1] by blast
    let ?st = "st\<lparr>p_ram := (p_ram st)\<lparr>outputSink := Some c1\<rparr>, p_mem := m2\<rparr>"
    have "write_sink E rows st = Inr (fl, left, ?st)" using r Some w(1) by (simp add: write_sink_def)
    moreover have "pipe_ok E (\<lambda>c. fl = Returns \<longrightarrow> cok c) i ?st" using assms w(2) by (simp add: pipe_ok_def out_ok_def)
    moreover have "pipe_val val ?st + rows_val tup left = pipe_val val st + rows_val tup rows"
    proof -
      have "pipe_val val ?st = queue_val val st + val c1" by (simp add: pipe_val_def queue_val_def sink_val_def)
      then show ?thesis using w(3) c(2) by (simp add: pipe_val_def add.assoc)
    qed
    moreover have "fl = Returns" if "outputSink (p_ram st) = None" "p_mem st = e_fresh E" "write_fits E rows"
      using that r Some w(1) by (auto simp: write_fits_def split: option.splits flow.splits)
    ultimately show ?thesis using w(4,5) by auto
  qed
qed

lemma write_rows_ok:
  assumes "pipe_ok E cok i st"
  shows "(\<exists>e. write_rows E i rows st = Inl (Throw e) \<and> \<not> writes_fit E rows) \<or>
    (\<exists>st1. write_rows E i rows st = Inr st1 \<and> pipe_ok E cok i st1 \<and> p_policy st1 = p_policy st \<and>
       pipe_val val st1 = pipe_val val st + rows_val tup rows)"
proof -
  obtain fl left st1 where w: "write_sink E rows st = Inr (fl, left, st1)" "pipe_ok E (\<lambda>c. fl = Returns \<longrightarrow> cok c) i st1" "p_policy st1 = p_policy st"
    "pipe_val val st1 + rows_val tup left = pipe_val val st + rows_val tup rows" "fl = Returns \<longrightarrow> left = []" "\<exists>k. left = drop k rows"
    using write_sink_ok [OF assms, of rows] by blast
  show ?thesis
  proof (cases fl)
    case Returns
    then show ?thesis using w by (simp add: write_rows_def)
  next
    case NotEnoughSpace
    let ?st = "grab_page E (addPageToIteration i st1)"
    have pg: "pipe_ok E cok i ?st" "pipe_val val ?st = pipe_val val st1" using next_page_ok [OF w(2)] by auto
    obtain fl2 left2 st2 where w2: "write_sink E left ?st = Inr (fl2, left2, st2)" "pipe_ok E (\<lambda>c. fl2 = Returns \<longrightarrow> cok c) i st2" "p_policy st2 = p_policy ?st"
      "pipe_val val st2 + rows_val tup left2 = pipe_val val ?st + rows_val tup left" "fl2 = Returns \<longrightarrow> left2 = []"
      "write_fits E left \<longrightarrow> fl2 = Returns"
      using write_sink_ok [OF pg(1), of left] by auto
    have nf: "fl2 = NotEnoughSpace \<Longrightarrow> \<not> writes_fit E rows" using w(6) w2(6) by (auto simp: writes_fit_def)
    show ?thesis
    proof (cases fl2)
      case Returns
      then show ?thesis using w w2 pg NotEnoughSpace by (simp add: write_rows_def)
    qed (use w w2 nf NotEnoughSpace in \<open>auto simp: write_rows_def\<close>)
  qed
qed

definition iterated :: "int \<Rightarrow> 'a list \<Rightarrow> ('c, 'm) pipe \<Rightarrow> ('c, 'm) pipe \<Rightarrow> bool" where
  "iterated i rows st st1 \<longleftrightarrow> pipe_ok E cok i st1 \<and>
     (if inputWasProcessed (p_policy st1) then pipe_val val st1 = pipe_val val st + rows_val tup (all_through (e_stages E) rows)
      else pipe_val val st1 = pipe_val val st \<and> chunkSize (p_policy st1) = chunkSize (p_policy st) div 2 \<and>
        chunkSize (p_policy st1) < chunkSize (p_policy st) \<and> \<not> stages_fit E (e_stages E) rows)"

lemma run_iteration_ok:
  assumes ok: "pipe_ok E cok i st"
  shows "(\<exists>e. run_iteration E i rows st = Inl (Throw e) \<and> 
      (\<not> stages_fit E (e_stages E) rows \<and> chunkSize (p_policy st) = 1 \<or> \<not> writes_fit E (all_through (e_stages E) rows))) \<or>
    (\<exists>st1. run_iteration E i rows st = Inr st1 \<and> iterated i rows st st1)"
  using run_stages_ok [OF ok, of "e_stages E" rows 0]
proof (elim disjE exE conjE)
  fix r add1 st1
  assume s: "run_stages E i (e_stages E) rows 0 st = Inr (r, add1, st1)" "stages_done i (e_stages E) rows st r st1"
  note d = s(2) [unfolded stages_done_def]
  show ?thesis
  proof (cases r)
    case None
    have "policy_ok (p_policy st)" using ok by (simp add: pipe_ok_def)
    from pipelineFailed_ok [OF this] show ?thesis using s(1) d None by (auto simp: run_iteration_def iterated_def)
  next
    case (Some rows1)
    let ?P = "pipelineSucceeded add1 (e_free E (p_mem st)) (e_free E (p_mem st1)) (p_policy st1)"
    let ?st2 = "st1\<lparr>p_policy := ?P\<rparr>"
    have P: "policy_ok ?P" "inputWasProcessed ?P" using d pipelineSucceeded_ok by (auto simp: pipe_ok_def)
    have st2: "pipe_ok E cok i ?st2" "pipe_val val ?st2 = pipe_val val st"
      using d pipe_ok_policy(1) [OF _ P(1), of i st1] by (auto simp: pipe_ok_policy(2))
    have it: "run_iteration E i rows st = andThen (write_rows E i rows1 ?st2) (\<lambda>st3.
        andThen (writeToPageSucceeded 0 (e_free E (p_mem st1)) (e_free E (p_mem st3)) (p_policy st3)) (\<lambda>P. Inr (st3\<lparr>p_policy := P\<rparr>)))"
      using s(1) Some by (simp add: run_iteration_def Let_def)
    from write_rows_ok [OF st2(1), of rows1] show ?thesis
    proof (elim disjE exE conjE)
      fix st3
      assume w: "write_rows E i rows1 ?st2 = Inr st3" "pipe_ok E cok i st3" "p_policy st3 = p_policy ?st2"
        "pipe_val val st3 = pipe_val val ?st2 + rows_val tup rows1"
      obtain P' where P': "writeToPageSucceeded 0 (e_free E (p_mem st1)) (e_free E (p_mem st3)) (p_policy st3) = Inr P'" "policy_ok P'" "inputWasProcessed P'"
        using writeToPageSucceeded_ok [OF P(1)] w(3) P(2) by fastforce
      have "iterated i rows st (st3\<lparr>p_policy := P'\<rparr>)"
        using pipe_ok_policy(1) [OF w(2) P'(2)] w(4) st2(2) P'(3) d Some by (simp add: iterated_def pipe_ok_policy(2))
      then show ?thesis using it w(1) P'(1) by simp
    qed (use it d Some in auto)
  qed
qed (auto simp: run_iteration_def)

end

section \<open>The loop\<close>

text \<open>
  Tuple sets of the initial size pass the stages on an empty page, and the rows of any tuple set can be written to an empty
  page. \<open>retry_ok\<close>: while a tuple set is to be handed out again, the buffer is empty; later it holds few records.
\<close>

definition capacity_ok :: "('a, 'c, 'm) pipe_env \<Rightarrow> bool" where
  "capacity_ok E \<longleftrightarrow> (\<forall>rows. length rows \<le> 50 \<longrightarrow> stages_fit E (e_stages E) rows) \<and>
     (\<forall>rows. length rows \<le> 100 \<longrightarrow> writes_fit E (all_through (e_stages E) rows))"

definition retry_ok :: "size_policy \<Rightarrow> ('a, 's) vec_source \<Rightarrow> bool" where
  "retry_ok P s \<longleftrightarrow> (if inputWasProcessed P then length (opt_list (vs_buffer s)) \<le> 50
     else opt_list (vs_buffer s) = [] \<and> chunkSize P \<le> 50 \<and> length (opt_list (vs_output s)) \<le> 100 \<and>
       length (opt_list (vs_output s)) \<le> 2 * nat (chunkSize P) + 1)"

definition src_work :: "('s \<Rightarrow> 'a list list) \<Rightarrow> size_policy \<Rightarrow> ('a, 's) vec_source \<Rightarrow> nat" where
  "src_work rest P s = length (pending P s) + length (src_left rest s) + src_pages rest s"

context vector_pages
begin

lemma take_records_buffer: "take_records P s = Inr (Some c, s') \<Longrightarrow> vs_buffer s' = vs_buffer s"
  by (auto simp: take_records_def Let_def split: option.splits)

lemma page_keeps_buffer:
  assumes "getNextTupleSet nextp P s = Inr (Some c, s')" and "opt_list (vs_buffer (keep_for_retry P s)) = []"
  shows "opt_list (vs_buffer s') = []"
proof -
  have "vs_buffer (keep_for_retry P s) \<noteq> Some (b # bs)" for b bs using assms(2) by auto
  then have "vs_buffer s' = vs_buffer (keep_for_retry P s)"
    using assms(1) by (auto simp: getNextTupleSet_def Let_def res_simps split: option.splits list.splits if_splits dest!: take_records_buffer)
  then show ?thesis using assms(2) by simp
qed

lemma retry_step:
  assumes "src_ok ok s" and "policy_ok P" and "retry_ok P s" and g: "getNextTupleSet nextp P s = Inr (Some c, s')"
  shows "lossless P s \<and> length (opt_list (vs_buffer s')) \<le> 50 \<and> (opt_list (vs_buffer s') \<noteq> [] \<longrightarrow> length c \<le> 50)"
proof -
  have chunk: "1 \<le> chunkSize P" using assms(2) by (simp add: policy_ok_def)
  let ?B = "opt_list (vs_buffer (keep_for_retry P s))"
  have B: "?B = (if inputWasProcessed P then opt_list (vs_buffer s) else opt_list (vs_output s))"
    using keep_for_retry_ok [OF assms(1), of P rest] assms(3) by (auto simp: retry_ok_def)
  have l: "lossless P s" using assms(3) by (auto simp: lossless_def retry_ok_def split: if_splits)
  show ?thesis
  proof (cases "?B = []")
    case True
    then show ?thesis using page_keeps_buffer [OF g] l by simp
  next
    case False
    obtain c' s'' where t: "getNextTupleSet nextp P s = Inr (Some c', s'')" "length c' \<le> nat (chunkSize P)" "opt_list (vs_buffer s'') @ c' = ?B"
      "opt_list (vs_buffer s'') \<noteq> [] \<longrightarrow> length c' = nat (chunkSize P)" using tuple_set_from_buffer [OF assms(1) chunk False] by blast
    have eq: "c' = c" "s'' = s'" using t(1) g by auto
    have len: "length (opt_list (vs_buffer s')) + length c = length ?B" using t(3) eq by (metis length_append)
    show ?thesis
    proof (cases "inputWasProcessed P")
      case True
      then have "length ?B \<le> 50" using B assms(3) by (simp add: retry_ok_def)
      then show ?thesis using l len by simp
    next
      case False
      then have "length ?B \<le> 100" "length ?B \<le> 2 * nat (chunkSize P) + 1" "nat (chunkSize P) \<le> 50"
        using B assms(3) by (auto simp: retry_ok_def)
      moreover have "length c = nat (chunkSize P)" if "opt_list (vs_buffer s') \<noteq> []" using t(4) eq that by simp
      ultimately show ?thesis using l len by (cases "opt_list (vs_buffer s') = []") auto
    qed
  qed
qed

end

lemma queue_val_add: "queue_val val (addPageToIteration i st) = pipe_val val st"
  by (simp add: queue_val_def pipe_val_def sink_val_def ac_simps)

lemma pipe_ok_clean:
  assumes "pipe_ok E cok i st"
  shows "pipe_ok E cok (i + 1) (cleanPages E (i + 1) st)" and "pipe_val val (cleanPages E (i + 1) st) = pipe_val val st"
    and "p_policy (cleanPages E (i + 1) st) = p_policy st"
proof -
  have "out_ok E {#(mh_page (p_ram st), None)#} st" using assms by (simp add: pipe_ok_def)
  note c = cleanPages_ok [OF this, where i = "i + 1"]
  have "mh_iteration h \<le> i + 1" if "h \<in> set (unwrittenPages (cleanPages E (i + 1) st))" for h
    using that assms set_dropWhileD by (fastforce simp: c(4) pipe_ok_def)
  then show "pipe_ok E cok (i + 1) (cleanPages E (i + 1) st)" "pipe_val val (cleanPages E (i + 1) st) = pipe_val val st"
    "p_policy (cleanPages E (i + 1) st) = p_policy st" using assms c(1,2,4,5) c(3) [of val] by (auto simp: pipe_ok_def pipe_val_def)
qed

lemma cleanPipeline_ok:
  assumes "pipe_ok E cok i st" and "i + 1 < INT_MAX"
  shows "unwrittenPages (cleanPipeline E (addPageToIteration i st)) = [] \<and> out_ok E {#} (cleanPipeline E (addPageToIteration i st)) \<and>
    queue_val val (cleanPipeline E (addPageToIteration i st)) = pipe_val val st"
proof -
  let ?st = "addPageToIteration i st"
  let ?rev = "?st\<lparr>unwrittenPages := rev (unwrittenPages ?st)\<rparr>"
  have "out_ok E {#} ?st" using assms(1) by (auto simp: pipe_ok_def intro: out_ok_add)
  then have "out_ok E {#} ?rev" by (simp add: out_ok_def)
  note c = cleanPages_ok [OF this, where i = INT_MAX]
  have "\<forall>h \<in> set (unwrittenPages ?rev). mh_iteration h + 1 < INT_MAX" using assms by (auto simp: pipe_ok_def)
  then have "unwrittenPages (cleanPages E INT_MAX ?rev) = []" unfolding c(4) dropWhile_eq_Nil_conv .
  moreover have "queue_val val ?rev = queue_val val ?st" by (simp add: queue_val_def sum_list_rev rev_map [symmetric] ac_simps)
  ultimately show ?thesis using c(5) c(3) [of val] by (simp add: cleanPipeline_def queue_val_add)
qed

locale pipeline = vector_pages nextp rest ok + sink_contract E val tup cok
  for nextp :: "'s \<Rightarrow> ('a list option \<times> 's) result" and rest ok
    and E :: "('a, 'c, 'm) pipe_env" and val :: "'c \<Rightarrow> 'v::comm_monoid_add" and tup cok
begin

text \<open>Where the records of the source have gone when the loop ends.\<close>

definition run_done :: "size_policy \<Rightarrow> ('a, 's) vec_source \<Rightarrow> 'v \<Rightarrow> ('c, 'm) pipe \<Rightarrow> bool" where
  "run_done P src v st \<longleftrightarrow> unwrittenPages st = [] \<and> out_ok E {#} st \<and>
     (\<exists>done. queue_val val st = v + rows_val tup (all_through (e_stages E) done) \<and>
        mset done \<subseteq># mset (pending P src) + mset (src_left rest src) \<and>
        (capacity_ok E \<and> retry_ok P src \<longrightarrow> mset done = mset (pending P src) + mset (src_left rest src)))"

lemma all_through_perm: "mset xs = mset ys \<Longrightarrow> rows_val tup (all_through qs xs) = rows_val tup (all_through qs ys)"
proof -
  have "rows_val tup (all_through qs xs) = sum_mset (image_mset (\<lambda>x. rows_val tup (through qs x)) (mset xs))" for xs
    by (induction xs) (simp_all add: all_through_def)
  then show "mset xs = mset ys \<Longrightarrow> ?thesis" by simp
qed

lemma run_done_step:
  assumes it: "iterated i rows st st1" and o: "vs_output src1 = Some rows"
    and g: "mset rows + mset (src_left rest src1) \<subseteq># mset (pending P src) + mset (src_left rest src)"
    and all: "retry_ok P src \<Longrightarrow> mset rows + mset (src_left rest src1) = mset (pending P src) + mset (src_left rest src)"
    and rt: "capacity_ok E \<Longrightarrow> retry_ok P src \<Longrightarrow> retry_ok (p_policy st1) src1"
    and d: "run_done (p_policy st1) src1 (pipe_val val st1) st3"
  shows "run_done P src (pipe_val val st) st3"
proof -
  obtain done1 where d1: "unwrittenPages st3 = []" "out_ok E {#} st3"
    "queue_val val st3 = pipe_val val st1 + rows_val tup (all_through (e_stages E) done1)"
    "mset done1 \<subseteq># mset (pending (p_policy st1) src1) + mset (src_left rest src1)"
    "capacity_ok E \<and> retry_ok (p_policy st1) src1 \<longrightarrow> mset done1 = mset (pending (p_policy st1) src1) + mset (src_left rest src1)"
    using d by (auto simp: run_done_def)
  let ?done = "if inputWasProcessed (p_policy st1) then rows @ done1 else done1"
  have m: "mset ?done \<subseteq># mset rows + mset (src_left rest src1)" using d1(4) o by (auto simp: pending_def)
  have "queue_val val st3 = pipe_val val st + rows_val tup (all_through (e_stages E) ?done)"
    using d1(3) it by (auto simp: iterated_def all_through_simps ac_simps)
  moreover have "mset ?done = mset (pending P src) + mset (src_left rest src)" if "capacity_ok E" "retry_ok P src"
    using d1(5) rt [OF that] that(1) all [OF that(2)] o by (auto simp: pending_def)
  ultimately show ?thesis
    using d1(1,2) subset_mset.order_trans [OF m g] by (auto simp: run_done_def intro!: exI [of _ ?done])
qed

lemma run_loop_ok:
  assumes "pipe_ok E cok i st" and "src_ok ok src" and "src_work rest (p_policy st) src * 101 + nat (chunkSize (p_policy st)) < n" and "i + int n < INT_MAX"
  shows "(\<exists>e. run_loop n E nextp i src st = Inl (Throw e) \<and> \<not> (capacity_ok E \<and> retry_ok (p_policy st) src)) \<or>
    (\<exists>st1. run_loop n E nextp i src st = Inr st1 \<and> run_done (p_policy st) src (pipe_val val st) st1)"
  using assms
proof (induction n arbitrary: i st src)
  case (Suc n)
  let ?P = "p_policy st"
  have P: "policy_ok ?P" using Suc.prems(1) by (simp add: pipe_ok_def)
  then have chunk: "1 \<le> chunkSize ?P" "chunkSize ?P \<le> 100" by (auto simp: policy_ok_def)
  obtain r src1 where g: "getNextTupleSet nextp ?P src = Inr (r, src1)" "src_ok ok src1"
    "mset (opt_list r) + mset (src_left rest src1) \<subseteq># mset (pending ?P src) + mset (src_left rest src)"
    "lossless ?P src \<longrightarrow> mset (opt_list r) + mset (src_left rest src1) = mset (pending ?P src) + mset (src_left rest src)"
    "r = None \<longrightarrow> src_left rest src1 = []"
    "\<forall>xs. r = Some xs \<longrightarrow> vs_output src1 = Some xs \<and> length xs \<le> nat (chunkSize ?P) \<and>
       length (src_left rest src1) + src_pages rest src1 < length (pending ?P src) + length (src_left rest src) + src_pages rest src \<and>
       length xs + length (src_left rest src1) + src_pages rest src1 \<le> length (pending ?P src) + length (src_left rest src) + src_pages rest src"
    using getNextTupleSet_ok [OF Suc.prems(2) chunk(1)] by blast
  show ?case
  proof (cases r)
    case None
    have "i + 1 < INT_MAX" using Suc.prems(4) by simp
    from cleanPipeline_ok [OF Suc.prems(1) this]
    have "run_done ?P src (pipe_val val st) (cleanPipeline E (addPageToIteration i st))"
      using g(4,5) None by (auto simp: run_done_def lossless_def retry_ok_def all_through_simps intro!: exI [of _ "[]"] split: if_splits)
    then show ?thesis using g(1) None by simp
  next
    case (Some rows)
    have len: "length rows \<le> nat (chunkSize ?P)" using g(6) Some by blast
    have retry: "lossless ?P src \<and> length (opt_list (vs_buffer src1)) \<le> 50 \<and> (opt_list (vs_buffer src1) \<noteq> [] \<longrightarrow> length rows \<le> 50)" if "retry_ok ?P src"
      using retry_step [OF Suc.prems(2) P that] g(1) Some by simp
    from run_iteration_ok [OF Suc.prems(1), of rows] show ?thesis
    proof (elim disjE exE conjE)
      fix st1
      assume it: "run_iteration E i rows st = Inr st1" "iterated i rows st st1"
      let ?st2 = "cleanPages E (i + 1) st1"
      have ok1: "pipe_ok E cok i st1" using it(2) by (simp add: iterated_def)
      note c = pipe_ok_clean [OF ok1]
      have c1: "chunkSize (p_policy st1) \<le> 100" "1 \<le> chunkSize (p_policy st1)" using ok1 by (auto simp: pipe_ok_def policy_ok_def)
      have work: "src_work rest (p_policy st1) src1 * 101 + nat (chunkSize (p_policy st1)) < src_work rest ?P src * 101 + nat (chunkSize ?P)"
      proof (cases "inputWasProcessed (p_policy st1)")
        case True
        then have "src_work rest (p_policy st1) src1 + 1 \<le> src_work rest ?P src" using g(6) Some by (simp add: src_work_def pending_def)
        then have "src_work rest (p_policy st1) src1 * 101 + 101 \<le> src_work rest ?P src * 101" by linarith
        then show ?thesis using c1(1) chunk(1) by linarith
      next
        case False
        then have "src_work rest (p_policy st1) src1 \<le> src_work rest ?P src" "chunkSize (p_policy st1) < chunkSize ?P"
          using g(6) Some it(2) by (auto simp: src_work_def pending_def iterated_def)
        then show ?thesis using c1(2) by linarith
      qed
      have run: "run_loop (Suc n) E nextp i src st = run_loop n E nextp (i + 1) src1 ?st2" using g(1) Some it(1) Suc.prems(4) by simp
      have fuel: "src_work rest (p_policy ?st2) src1 * 101 + nat (chunkSize (p_policy ?st2)) < n" "i + 1 + int n < INT_MAX"
        using work Suc.prems(3,4) c(3) by auto
      have rt: "retry_ok (p_policy st1) src1" if "capacity_ok E" "retry_ok ?P src"
      proof (cases "inputWasProcessed (p_policy st1)")
        case True
        then show ?thesis using retry [OF that(2)] by (simp add: retry_ok_def)
      next
        case False
        then have f: "\<not> stages_fit E (e_stages E) rows" "chunkSize (p_policy st1) = chunkSize ?P div 2" using it(2) by (auto simp: iterated_def)
        then have "\<not> length rows \<le> 50" using that(1) by (auto simp: capacity_ok_def)
        then show ?thesis using retry [OF that(2)] False f(2) g(6) Some len chunk by (auto simp: retry_ok_def)
      qed
      from Suc.IH [OF c(1) g(2) fuel] show ?thesis
      proof (elim disjE exE conjE)
        fix st3
        assume r: "run_loop n E nextp (i + 1) src1 ?st2 = Inr st3" "run_done (p_policy ?st2) src1 (pipe_val val ?st2) st3"
        have "run_done ?P src (pipe_val val st) st3"
          by (rule run_done_step [OF it(2)]) (use r(2) c(2) [of val] c(3) g(3,4,6) Some retry rt in auto)
        then show ?thesis using run r(1) by simp
      qed (use run rt c(3) in auto)
    qed (use g(1) Some len chunk in \<open>auto simp: capacity_ok_def\<close>)
  qed
qed simp

lemma new_source_ok:
  assumes "ok S"
  shows "\<exists>src. VectorTupleSetIterator_new nextp S = Inr src \<and> src_ok ok src \<and> opt_list (vs_buffer src) = [] \<and>
    src_left rest src = concat (rest S) \<and> src_pages rest src = length (rest S)"
  using assms
  by (cases rule: next_cases) (auto simp: VectorTupleSetIterator_new_def src_ok_def src_left_def src_tail_def src_pages_def)

lemma Pipeline_run_ok:
  assumes S: "ok S" and fuel: "(length (concat (rest S)) + length (rest S)) * 101 + 50 < n" "int n < INT_MAX" and bytes: "0 < bytes"
  shows "\<exists>src. VectorTupleSetIterator_new nextp S = Inr src \<and>
    ((\<exists>e. Pipeline_run n E nextp src (Pipeline_new bytes k AnonPageSet_new m) = Inl (Throw e) \<and> \<not> capacity_ok E) \<or>
     (\<exists>st done. Pipeline_run n E nextp src (Pipeline_new bytes k AnonPageSet_new m) = Inr st \<and> unwrittenPages st = [] \<and> out_ok E {#} st \<and>
        queue_val val st = rows_val tup (all_through (e_stages E) done) \<and> mset done \<subseteq># mset (concat (rest S)) \<and>
        (capacity_ok E \<longrightarrow> mset done = mset (concat (rest S)))))"
proof -
  obtain src where src: "VectorTupleSetIterator_new nextp S = Inr src" "src_ok ok src" "opt_list (vs_buffer src) = []"
    "src_left rest src = concat (rest S)" "src_pages rest src = length (rest S)" using new_source_ok [OF S] by blast
  let ?P = "TupleSetSizePolicy_new bytes" and ?st = "grab_page E (Pipeline_new bytes k AnonPageSet_new m)"
  have P: "inputWasProcessed ?P" "chunkSize ?P = 50" by (simp_all add: TupleSetSizePolicy_new_def inputWasProcessed_def)
  have "out_ok E {#} (Pipeline_new bytes k AnonPageSet_new m)" by (simp add: out_ok_def Pipeline_new_def AnonPageSet_new_def map_ok_def)
  from out_ok_grab [OF this] have st: "pipe_ok E cok 0 ?st" "p_policy ?st = ?P" "pipe_val val ?st = 0"
    using policy_new_ok [OF bytes] by (simp_all add: pipe_ok_def pipe_val_def queue_val_def sink_val_def Pipeline_new_def)
  have "src_work rest (p_policy ?st) src * 101 + nat (chunkSize (p_policy ?st)) < n" "0 + int n < INT_MAX" "retry_ok ?P src"
    using src(3-5) fuel P st(2) by (simp_all add: src_work_def pending_def retry_ok_def)
  with run_loop_ok [OF st(1) src(2)] show ?thesis
    using src st P by (auto simp: Pipeline_run_def run_done_def pending_def)
qed

end

section \<open>Pipelines that write vectors\<close>

text \<open>
  The memory of the output pages, for vectors of handles: assigning a handle to an object of the same block needs no
  memory (\<open>assign_shared\<close> for the object model), and no page has room for \<open>2 ^ 31\<close> handles. Everything else is arbitrary.
\<close>

record ('a, 'm) page_memory =
  k_fresh :: 'm
  k_free :: "'m \<Rightarrow> nat"
  k_array :: "nat \<Rightarrow> 'm \<Rightarrow> bool \<times> 'm"
  k_copy :: "'a \<Rightarrow> 'm \<Rightarrow> bool \<times> 'm"
  k_drop :: "nat \<Rightarrow> 'm \<Rightarrow> 'm"
  k_default :: 'a

definition handle_vmem :: "('a, 'm) page_memory \<Rightarrow> ('a, 'm) vmem" where
  "handle_vmem K = \<lparr>m_array = \<lambda>n m. if n < 2 ^ 31 then k_array K n m else (False, m), m_copy = k_copy K,
     m_share = \<lambda>x m. (True, m), m_drop = k_drop K, m_default = k_default K\<rparr>"

lemma handle_vmem_shares [simp]: "shares_ok (handle_vmem K)"
  by (simp add: shares_ok_def handle_vmem_def)

definition vector_env :: "('a, 'm) page_memory \<Rightarrow> ('a, 'm) executor list \<Rightarrow> ('a, 'a varray, 'm) pipe_env" where
  "vector_env K stages =
     \<lparr>e_fresh = k_fresh K, e_free = k_free K, e_stages = stages, e_create = VectorSink_createNewOutputContainer (handle_vmem K),
      e_write = VectorSink_writeOut (handle_vmem K), e_process = NullProcessor_process\<rparr>"

lemma rows_val_single [simp]: "rows_val (\<lambda>x. {#x#}) xs = mset xs"
  by (induction xs) (simp_all add: rows_val_def)

interpretation vector_sink: sink_contract "vector_env K stages" "\<lambda>c. mset (elems c)" "\<lambda>x. {#x#}" "vec_ok (handle_vmem K)"
  for K :: "('a, 'm) page_memory" and stages
proof
  show "vec_ok (handle_vmem K) c \<and> mset (elems c) = 0" if "e_create (vector_env K stages) m = (Some c, m1)" for m c m1
    using that by (auto simp: vector_env_def VectorSink_createNewOutputContainer_def Vector_default_def Array_new_def vec_ok_def usedSlots_def
        split: prod.splits if_splits)
  fix c :: "'a varray" and xs and m :: 'm
  assume "vec_ok (handle_vmem K) c"
  from vector.append_all_ok [OF this, of xs m] obtain fl left c' m' where w:
    "append_all (Vector_push_back (handle_vmem K)) xs c m = Inr (fl, left, c', m')" "vec_ok (handle_vmem K) c'"
    "elems c' @ left = elems c @ xs" "fl = Returns \<longleftrightarrow> left = []" "\<exists>k. left = drop k xs" by blast
  moreover from w(3) have "mset (elems c') + mset left = mset (elems c) + mset xs" by (metis mset_append)
  ultimately show "\<exists>fl left c1 m1. e_write (vector_env K stages) xs c m = Inr (fl, left, c1, m1) \<and> (fl = Returns \<longrightarrow> vec_ok (handle_vmem K) c1) \<and>
      mset (elems c1) + rows_val (\<lambda>x. {#x#}) left = mset (elems c) + rows_val (\<lambda>x. {#x#}) xs \<and> (fl = Returns \<longrightarrow> left = []) \<and> (\<exists>k. left = drop k xs)"
    by (simp add: vector_env_def VectorSink_writeOut_def)
qed

interpretation stored_run: pipeline "SetPageSet_getNextPage getPage w" "sp_rest getPage" sp_ok "vector_env K stages" "\<lambda>c. mset (elems c)" "\<lambda>x. {#x#}"
  "vec_ok (handle_vmem K)" for getPage :: "nat \<Rightarrow> 'a list" and w and K :: "('a, 'm) page_memory" and stages
  by unfold_locales

interpretation anonymous_run: pipeline "AnonPageSet_getNextPage w" "ap_rest w" ap_ok "vector_env K stages" "\<lambda>c. mset (elems c)" "\<lambda>x. {#x#}"
  "vec_ok (handle_vmem K)" for w and K :: "('a, 'm) page_memory" and stages
  by unfold_locales

interpretation fed_run: pipeline "Feeding_getNextPage w" "feed_rest w fedpages" "feed_done w fedpages" "vector_env K stages" "\<lambda>c. mset (elems c)" "\<lambda>x. {#x#}"
  "vec_ok (handle_vmem K)" for w fedpages and K :: "('a, 'm) page_memory" and stages
  by unfold_locales

text \<open>The records on the pages of an output page set, and the set as a source for the next pipeline.\<close>

definition vector_on :: "'a varray option \<Rightarrow> 'a list" where
  "vector_on page = (case page of None \<Rightarrow> [] | Some v \<Rightarrow> elems v)"

definition stored_rows :: "'a varray option anon_page_set \<Rightarrow> 'a list" where
  "stored_rows S = concat (map (vector_on \<circ> snd) (ap_pages S))"

definition as_source :: "'a varray option anon_page_set \<Rightarrow> 'a list anon_page_set" where
  "as_source S = \<lparr>ap_pages = map (\<lambda>(k, page). (k, vector_on page)) (ap_pages S), nextPageForWorker = \<lambda>_. None, accessPattern = accessPattern S\<rparr>"

lemma mset_stored: "mset (stored_rows S) = sum_mset (image_mset (\<lambda>e. mset (vector_on (snd e))) (mset (ap_pages S)))"
  by (simp add: stored_rows_def mset_concat comp_def flip: sum_mset_sum_list)

lemma stored_rows_out:
  assumes "out_ok (vector_env K stages) {#} st" and "unwrittenPages st = []"
  shows "mset (stored_rows (outputPageSet st)) = queue_val (\<lambda>c. mset (elems c)) st"
proof -
  have "filter (e_process (vector_env K stages)) cs = cs" for cs by (simp add: vector_env_def NullProcessor_process_def)
  then obtain kept where k: "map snd kept = map Some (p_processed st)" "mset (ap_pages (outputPageSet st)) = mset kept"
    using assms by (auto simp: out_ok_def)
  have "mset (stored_rows (outputPageSet st)) = sum_list (map (\<lambda>p. mset (vector_on p)) (map snd kept))"
    by (simp add: mset_stored k(2) comp_def flip: sum_mset_sum_list)
  also have "\<dots> = sum_list (map (\<lambda>c. mset (elems c)) (p_processed st))" unfolding k(1) by (simp add: comp_def vector_on_def)
  finally show ?thesis using assms(2) by (simp add: queue_val_def)
qed

end
