(* ===== verification/PipelineProps.thy ===== *)
theory PipelineProps
  imports PipelineRun
begin

text \<open>
  The properties of pipelines that read vectors and write vectors (the interpretations of \<open>PipelineRun\<close>), with a small page memory
  on which they are applied, and what a run can lose when memory is short.
\<close>

section \<open>A page memory\<close>

text \<open>Arrays of up to 256 slots fit; the stage that adds one fails on more than 60 rows.\<close>

definition small_memory :: "(nat, nat) page_memory" where
  "small_memory = \<lparr>k_fresh = 256, k_free = \<lambda>m. m, k_array = \<lambda>n m. (n \<le> 256, m), k_copy = \<lambda>x m. (True, m), k_drop = \<lambda>n m. m, k_default = 0\<rparr>"

definition add_one :: "(nat, nat) executor" where
  "add_one = \<lparr>x_row = \<lambda>x. [Suc x], x_mem = \<lambda>rows m. (length rows \<le> 60, m)\<rparr>"

lemma small_memory_sel [simp]:
  "m_array (handle_vmem small_memory) n m = (n \<le> 256, m)" "m_copy (handle_vmem small_memory) x m = (True, m)"
  "m_share (handle_vmem small_memory) x m = (True, m)" "m_drop (handle_vmem small_memory) n m = m"
  by (auto simp: handle_vmem_def small_memory_def)

lemma small_push:
  assumes "usedSlots V \<le> numSlots V" "0 < numSlots V" "usedSlots V < 128"
  shows "Vector_push_back (handle_vmem small_memory) x V m =
    Inr (Returns, \<lparr>elems = elems V @ [x], numSlots = (if isFull V then numSlots V * 2 else numSlots V)\<rparr>, m)"
proof (cases "isFull V")
  case True
  have sh: "share_slots (handle_vmem small_memory) xs m = (length xs, m)" for xs by (induction xs) simp_all
  have n: "numSlots V * 2 \<le> 256" "numSlots V * 2 mod 2 ^ 32 = numSlots V * 2" using True assms(3) by (auto simp: isFull_def)
  have len: "length (elems V) = numSlots V" using True by (simp add: isFull_def usedSlots_def)
  have "Array_doubleSize (handle_vmem small_memory) V m = Inr (Returns, \<lparr>elems = elems V, numSlots = numSlots V * 2\<rparr>, m)"
    unfolding Array_doubleSize_def n(2) using n(1) by (simp add: Array_resize_def sh usedSlots_def len)
  then show ?thesis using True assms(2) by (simp add: Vector_push_back_def replace_array_def Array_push_back_def usedSlots_def len)
next
  case False
  then show ?thesis using assms by (cases V) (auto simp: Vector_push_back_def Array_push_back_def isFull_def usedSlots_def)
qed

lemma small_append:
  "usedSlots V \<le> numSlots V \<Longrightarrow> 0 < numSlots V \<Longrightarrow> usedSlots V + length xs \<le> 128 \<Longrightarrow>
    \<exists>c m1. append_all (Vector_push_back (handle_vmem small_memory)) xs V m = Inr (Returns, [], c, m1)"
proof (induction xs arbitrary: V m)
  case (Cons x xs)
  let ?V = "\<lparr>elems = elems V @ [x], numSlots = (if isFull V then numSlots V * 2 else numSlots V)\<rparr>"
  have "usedSlots ?V \<le> numSlots ?V" "0 < numSlots ?V" "usedSlots ?V + length xs \<le> 128"
    using Cons.prems by (auto simp: usedSlots_def isFull_def)
  from Cons.IH [OF this] show ?case using small_push [of V x m] Cons.prems by simp
qed simp

lemma small_capacity: "capacity_ok (vector_env small_memory [add_one])" "capacity_ok (vector_env small_memory [add_one, add_one])"
proof -
  have "all_through [add_one] rows = map Suc rows" "all_through [add_one, add_one] rows = map (Suc \<circ> Suc) rows" for rows
    by (induction rows) (auto simp: all_through_def add_one_def)
  moreover have fresh: "k_fresh small_memory = 256" by (simp add: small_memory_def)
  moreover have "write_fits (vector_env small_memory stages) xs" if "length xs \<le> 128" for xs stages
  proof -
    have "Vector_default (handle_vmem small_memory) 256 = (Some \<lparr>elems = [], numSlots = 1\<rparr>, 256)"
      by (simp add: Vector_default_def handle_vmem_def small_memory_def Array_new_def)
    moreover obtain c m1 where "append_all (Vector_push_back (handle_vmem small_memory)) xs \<lparr>elems = [], numSlots = 1\<rparr> 256 = Inr (Returns, [], c, m1)"
      using small_append [of "\<lparr>elems = [], numSlots = 1\<rparr>" xs 256] \<open>length xs \<le> 128\<close> by (auto simp: usedSlots_def)
    ultimately show ?thesis
      by (simp add: write_fits_def vector_env_def VectorSink_createNewOutputContainer_def VectorSink_writeOut_def fresh)
  qed
  ultimately show "capacity_ok (vector_env small_memory [add_one])" "capacity_ok (vector_env small_memory [add_one, add_one])"
    by (auto simp: capacity_ok_def vector_env_def writes_fit_def add_one_def)
qed

section \<open>What a run computes\<close>

lemma mset_all_through: "mset (all_through qs xs) = sum_mset (image_mset (\<lambda>x. mset (through qs x)) (mset xs))"
  by (induction xs) (simp_all add: all_through_def)

lemma vector_run:
  assumes "queue_val (\<lambda>c. mset (elems c)) st = rows_val (\<lambda>x. {#x#}) (all_through (e_stages (vector_env K stages)) done)"
    and "unwrittenPages st = []" and "out_ok (vector_env K stages) {#} st"
  shows "mset (stored_rows (outputPageSet st)) = mset (all_through stages done)"
  using assms(1) stored_rows_out [OF assms(3,2)] by (simp add: vector_env_def)

text \<open>
  C6: A pipeline over a stored set returns, and the pages it leaves in its output page set hold
  exactly what its stages make of the records of the set, each record contributing once, however often stages and writes
  run out of memory on the way, provided (\<open>capacity_ok\<close>) that every tuple set of at most 50 rows, the initial size, passes the stages on an empty page and that the output of every
  tuple set of at most 100 rows, the largest size, can be written to an empty page.
\<close>

theorem pipeline_computes_query:
  assumes "capacity_ok (vector_env K stages)" and "length pages < 2 ^ 64" and "0 < bytes"
    and "(length (concat (map getPage pages)) + length pages) * 101 + 50 < n" and "int n < INT_MAX"
  shows "\<exists>src st. VectorTupleSetIterator_new (SetPageSet_getNextPage getPage w) (SetPageSet_new pages) = Inr src \<and>
    Pipeline_run n (vector_env K stages) (SetPageSet_getNextPage getPage w) src (Pipeline_new bytes k AnonPageSet_new m) = Inr st \<and>
    mset (stored_rows (outputPageSet st)) = mset (all_through stages (concat (map getPage pages)))"
proof -
  let ?S = "SetPageSet_new pages"
  have S: "sp_ok ?S" "sp_rest getPage ?S = map getPage pages" using assms(2) by (simp_all add: sp_ok_def sp_rest_def SetPageSet_new_def)
  from stored_run.Pipeline_run_ok [OF S(1), of getPage n bytes w K stages k m] show ?thesis
    using assms(1,3-5) S(2) vector_run [of _ K stages] by (auto simp: mset_all_through)
qed

text \<open>Two pages of 50 and 80 records; the second tuple set has more rows than the stage can take at once.\<close>

theorem pipeline_computes_query_witness:
  "capacity_ok (vector_env small_memory [add_one]) \<and>
   (let nextp = SetPageSet_getNextPage (\<lambda>p. if p = 4 then [0..<50] else [100..<180]) 0 in
    \<exists>src st. VectorTupleSetIterator_new nextp (SetPageSet_new [4, 7]) = Inr src \<and>
      Pipeline_run 14000 (vector_env small_memory [add_one]) nextp src (Pipeline_new 256 0 AnonPageSet_new 0) = Inr st \<and>
      mset (stored_rows (outputPageSet st)) = mset (all_through [add_one] ([0..<50] @ [100..<180])))"
  using pipeline_computes_query [OF small_capacity(1), of "[4, 7]" 256 "\<lambda>p. if p = 4 then [0..<50] else [100..<180]" 14000 0 0 0] small_capacity(1)
  by (simp add: INT_MAX_def Let_def)

text \<open>
  C7: Whatever memory does, a pipeline over a stored set ends, either with an exception (only when the capacities above are not met) or
  with an output in which every row comes from a record of the set and no record contributes twice.
\<close>

theorem pipeline_never_invents_rows:
  assumes "length pages < 2 ^ 64" and "0 < bytes"
    and "(length (concat (map getPage pages)) + length pages) * 101 + 50 < n" and "int n < INT_MAX"
  shows "\<exists>src. VectorTupleSetIterator_new (SetPageSet_getNextPage getPage w) (SetPageSet_new pages) = Inr src \<and>
    (case Pipeline_run n (vector_env K stages) (SetPageSet_getNextPage getPage w) src (Pipeline_new bytes k AnonPageSet_new m) of
       Inl e \<Rightarrow> \<not> capacity_ok (vector_env K stages) \<and> (\<exists>what. e = Throw what)
     | Inr st \<Rightarrow> \<exists>done. mset done \<subseteq># mset (concat (map getPage pages)) \<and> mset (stored_rows (outputPageSet st)) = mset (all_through stages done))"
proof -
  let ?S = "SetPageSet_new pages"
  have S: "sp_ok ?S" "sp_rest getPage ?S = map getPage pages" using assms(1) by (simp_all add: sp_ok_def sp_rest_def SetPageSet_new_def)
  note run = stored_run.Pipeline_run_ok [OF S(1), of getPage n bytes w K stages k m, unfolded S(2) length_map, OF assms(3,4,2)]
  from run obtain src where src: "VectorTupleSetIterator_new (SetPageSet_getNextPage getPage w) ?S = Inr src" and
    "(\<exists>e. Pipeline_run n (vector_env K stages) (SetPageSet_getNextPage getPage w) src (Pipeline_new bytes k AnonPageSet_new m) = Inl (Throw e) \<and>
        \<not> capacity_ok (vector_env K stages)) \<or>
     (\<exists>st recs. Pipeline_run n (vector_env K stages) (SetPageSet_getNextPage getPage w) src (Pipeline_new bytes k AnonPageSet_new m) = Inr st \<and>
        mset recs \<subseteq># mset (concat (map getPage pages)) \<and> mset (stored_rows (outputPageSet st)) = mset (all_through stages recs))"
    by (elim exE conjE disjE) (simp, blast dest: vector_run)
  then show ?thesis by auto
qed

definition tight_stage :: "(nat, nat) executor" where
  "tight_stage = \<lparr>x_row = \<lambda>x. [x], x_mem = \<lambda>rows m. (length rows \<le> 5, m)\<rparr>"

theorem pipeline_never_invents_rows_witness:
  "\<exists>src. VectorTupleSetIterator_new (SetPageSet_getNextPage (\<lambda>p. [0..<10]) 0) (SetPageSet_new [4]) = Inr src \<and>
    (case Pipeline_run 2000 (vector_env small_memory [tight_stage]) (SetPageSet_getNextPage (\<lambda>p. [0..<10]) 0) src (Pipeline_new 256 0 AnonPageSet_new 0) of
       Inl e \<Rightarrow> \<not> capacity_ok (vector_env small_memory [tight_stage]) \<and> (\<exists>what. e = Throw what)
     | Inr st \<Rightarrow> \<exists>done. mset done \<subseteq># mset (concat (map (\<lambda>p. [0..<10]) [4::nat])) \<and>
         mset (stored_rows (outputPageSet st)) = mset (all_through [tight_stage] done))"
  by (rule pipeline_never_invents_rows) (simp_all add: INT_MAX_def)

section \<open>Pipelines in sequence\<close>

lemma as_source_ok:
  assumes "map_ok (ap_pages S)"
  shows "ap_ok (as_source S)" "ap_rest w (as_source S) = map (vector_on \<circ> snd) (ap_pages S)" "concat (ap_rest w (as_source S)) = stored_rows S"
proof -
  have m: "map fst (map (\<lambda>(k, page). (k, vector_on page)) xs) = map fst xs" "map snd (map (\<lambda>(k, page). (k, vector_on page)) xs) = map (vector_on \<circ> snd) xs" for xs :: "(nat \<times> 'a varray option) list"
    by (induction xs) auto
  have k: "map_ok (map (\<lambda>(k, page). (k, vector_on page)) (ap_pages S))" using assms unfolding map_ok_def m(1) .
  then show "ap_ok (as_source S)" by (simp add: as_source_def ap_ok_def)
  show r: "ap_rest w (as_source S) = map (vector_on \<circ> snd) (ap_pages S)"
    using pages_from_begin [OF k] m(2) by (simp add: ap_rest_def ap_iter_def as_source_def)
  show "concat (ap_rest w (as_source S)) = stored_rows S" unfolding r by (simp add: stored_rows_def)
qed

lemma through_append: "all_through (ps @ qs) xs = all_through qs (all_through ps xs)"
  by (induction ps arbitrary: xs) (simp_all add: all_through_simps)

text \<open>
  C8: A query whose stages are split over two pipelines, the second of which reads the output page set of the first, computes what
  a single run over all the stages computes: each of the three runs returns, and the rows that the second pipeline leaves in its output page set are those the single run leaves in its own, each as
  often. All three need \<open>capacity_ok\<close>, each for its own stages and page memory: tuple sets of at most 50 rows pass the stages on an empty page and the output of tuple sets of
  at most 100 rows can be written to an empty page.
\<close>

theorem pipelines_compose:
  assumes "capacity_ok (vector_env K1 stages1)" and "capacity_ok (vector_env K2 stages2)" and "capacity_ok (vector_env K3 (stages1 @ stages2))"
    and "length pages < 2 ^ 64" and "0 < bytes"
    and "(length (concat (map getPage pages)) + length pages) * 101 + 50 < n" and "int n < INT_MAX"
  shows "\<exists>src st st3. VectorTupleSetIterator_new (SetPageSet_getNextPage getPage w) (SetPageSet_new pages) = Inr src \<and>
    Pipeline_run n (vector_env K1 stages1) (SetPageSet_getNextPage getPage w) src (Pipeline_new bytes k1 AnonPageSet_new m1) = Inr st \<and>
    Pipeline_run n (vector_env K3 (stages1 @ stages2)) (SetPageSet_getNextPage getPage w) src (Pipeline_new bytes k3 AnonPageSet_new m3) = Inr st3 \<and>
    (\<forall>n2. (length (stored_rows (outputPageSet st)) + AnonPageSet_getNumPages (outputPageSet st)) * 101 + 50 < n2 \<longrightarrow> int n2 < INT_MAX \<longrightarrow>
      (\<exists>src2 st2. VectorTupleSetIterator_new (AnonPageSet_getNextPage w) (as_source (outputPageSet st)) = Inr src2 \<and>
        Pipeline_run n2 (vector_env K2 stages2) (AnonPageSet_getNextPage w) src2 (Pipeline_new bytes k2 AnonPageSet_new m2) = Inr st2 \<and>
        mset (stored_rows (outputPageSet st2)) = mset (stored_rows (outputPageSet st3))))"
proof -
  let ?S = "SetPageSet_new pages"
  have S: "sp_ok ?S" "sp_rest getPage ?S = map getPage pages" using assms(4) by (simp_all add: sp_ok_def sp_rest_def SetPageSet_new_def)
  obtain src st recs where r: "VectorTupleSetIterator_new (SetPageSet_getNextPage getPage w) ?S = Inr src"
    "Pipeline_run n (vector_env K1 stages1) (SetPageSet_getNextPage getPage w) src (Pipeline_new bytes k1 AnonPageSet_new m1) = Inr st"
    "mset (stored_rows (outputPageSet st)) = mset (all_through stages1 recs)" "mset recs = mset (concat (map getPage pages))"
    "out_ok (vector_env K1 stages1) {#} st"
    using stored_run.Pipeline_run_ok [OF S(1), of getPage n bytes w K1 stages1 k1 m1] assms(1,5-7) S(2) vector_run [of _ K1 stages1] by auto
  obtain st3 where one: "Pipeline_run n (vector_env K3 (stages1 @ stages2)) (SetPageSet_getNextPage getPage w) src (Pipeline_new bytes k3 AnonPageSet_new m3) = Inr st3"
    "mset (stored_rows (outputPageSet st3)) = mset (all_through (stages1 @ stages2) (concat (map getPage pages)))"
    using stored_run.Pipeline_run_ok [OF S(1), of getPage n bytes w K3 "stages1 @ stages2" k3 m3] assms(3,5-7) S(2) r(1) vector_run [of _ K3 "stages1 @ stages2"]
    by (auto simp: mset_all_through)
  let ?T = "as_source (outputPageSet st)"
  have "map_ok (ap_pages (outputPageSet st))" using r(5) by (simp add: out_ok_def)
  note T = as_source_ok [OF this]
  have len: "length (ap_rest w ?T) = AnonPageSet_getNumPages (outputPageSet st)" by (simp add: T(2) AnonPageSet_getNumPages_def)
  have "mset (all_through stages2 (stored_rows (outputPageSet st))) = mset (stored_rows (outputPageSet st3))"
    using r(3,4) one(2) by (simp add: through_append mset_all_through)
  then show ?thesis
    using r(1,2) one(1) anonymous_run.Pipeline_run_ok [OF T(1), of w _ bytes K2 stages2 k2 m2] assms(2,5) vector_run [of _ K2 stages2]
    by (simp add: T(3) len) (fastforce simp: mset_all_through)
qed

theorem pipelines_compose_witness:
  "let nextp = SetPageSet_getNextPage (\<lambda>p. if p = 4 then [0..<50] else [100..<180]) 0 in
   \<exists>src st st3. VectorTupleSetIterator_new nextp (SetPageSet_new [4, 7]) = Inr src \<and>
    Pipeline_run 14000 (vector_env small_memory [add_one]) nextp src (Pipeline_new 256 0 AnonPageSet_new 0) = Inr st \<and>
    Pipeline_run 14000 (vector_env small_memory [add_one, add_one]) nextp src (Pipeline_new 256 0 AnonPageSet_new 0) = Inr st3 \<and>
    (\<forall>n2. (length (stored_rows (outputPageSet st)) + AnonPageSet_getNumPages (outputPageSet st)) * 101 + 50 < n2 \<longrightarrow> int n2 < INT_MAX \<longrightarrow>
      (\<exists>src2 st2. VectorTupleSetIterator_new (AnonPageSet_getNextPage 0) (as_source (outputPageSet st)) = Inr src2 \<and>
        Pipeline_run n2 (vector_env small_memory [add_one]) (AnonPageSet_getNextPage 0) src2 (Pipeline_new 256 0 AnonPageSet_new 0) = Inr st2 \<and>
        mset (stored_rows (outputPageSet st2)) = mset (stored_rows (outputPageSet st3))))"
  using pipelines_compose [OF small_capacity(1) small_capacity(1), of small_memory "[4, 7]" 256 "\<lambda>p. if p = 4 then [0..<50] else [100..<180]" 14000 0 0 0 0 0 0 0] small_capacity(2)
  by (simp add: INT_MAX_def Let_def)

section \<open>The size policy\<close>

datatype policy_op = Failed | Succeeded nat nat nat | Written nat nat nat

primrec policy_apply :: "policy_op \<Rightarrow> size_policy \<Rightarrow> size_policy result" where
  "policy_apply Failed P = pipelineFailed P"
| "policy_apply (Succeeded a i f) P = Inr (pipelineSucceeded a i f P)"
| "policy_apply (Written a i f) P = writeToPageSucceeded a i f P"

fun policy_run :: "policy_op list \<Rightarrow> size_policy \<Rightarrow> size_policy result" where
  "policy_run [] P = Inr P"
| "policy_run (x # xs) P = andThen (policy_apply x P) (policy_run xs)"

text \<open>
  C33: However the pipeline reports its failures and successes, the size of a tuple set stays between 1 and 100, and the policy throws only
  for a failure that is reported when the size is 1. The mark that the size was just increased is never found set, so a failure after an increase does not disable further increases.
\<close>

theorem chunk_size_bounds:
  assumes "0 < bytes"
  shows "case policy_run xs (TupleSetSizePolicy_new bytes) of
     Inl e \<Rightarrow> (\<exists>ys zs P. xs = ys @ Failed # zs \<and> policy_run ys (TupleSetSizePolicy_new bytes) = Inr P \<and> chunkSize P = 1) \<and> (\<exists>what. e = Throw what)
   | Inr P \<Rightarrow> 1 \<le> chunkSize P \<and> chunkSize P \<le> 100 \<and> \<not> lastIncremented P"
proof -
  have "case policy_run xs P of
      Inl e \<Rightarrow> (\<exists>ys zs P1. xs = ys @ Failed # zs \<and> policy_run ys P = Inr P1 \<and> chunkSize P1 = 1) \<and> (\<exists>what. e = Throw what)
    | Inr P' \<Rightarrow> policy_ok P'" if "policy_ok P" for P
    using that
  proof (induction xs arbitrary: P)
    case (Cons x xs)
    have "(\<exists>e. policy_apply x P = Inl (Throw e) \<and> x = Failed \<and> chunkSize P = 1) \<or> (\<exists>P'. policy_apply x P = Inr P' \<and> policy_ok P')"
    proof (cases x)
      case (Written a i f)
      then show ?thesis using writeToPageSucceeded_ok [OF Cons.prems, of a i f] by auto
    qed (use pipelineFailed_ok [OF Cons.prems] pipelineSucceeded_ok [OF Cons.prems] in auto)
    then show ?case
    proof (elim disjE exE conjE)
      fix P' assume "policy_apply x P = Inr P'" "policy_ok P'"
      then show ?thesis using Cons.IH [of P'] by (auto split: sum.splits) (metis append_Cons andThen.simps(2) policy_run.simps(2))
    next
      fix e assume "policy_apply x P = Inl (Throw e)" "x = Failed" "chunkSize P = 1"
      then show ?thesis by (auto intro: exI [of _ "[]"])
    qed
  qed simp
  from this [OF policy_new_ok [OF assms]] show ?thesis by (auto simp: policy_ok_def split: sum.splits)
qed

theorem chunk_size_bounds_witness:
  "case policy_run [Failed, Succeeded 0 9 8, Written 0 8 8] (TupleSetSizePolicy_new 64) of
     Inl e \<Rightarrow> (\<exists>ys zs P. [Failed, Succeeded 0 9 8, Written 0 8 8] = ys @ Failed # zs \<and> policy_run ys (TupleSetSizePolicy_new 64) = Inr P \<and> chunkSize P = 1) \<and>
       (\<exists>what. e = Throw what)
   | Inr P \<Rightarrow> 1 \<le> chunkSize P \<and> chunkSize P \<le> 100 \<and> \<not> lastIncremented P"
  by (rule chunk_size_bounds) simp

section \<open>What is lost when memory is short\<close>

text \<open>
  A stage that takes at most five rows, and a page of ten records. The tuple set fails at sizes 50, 25 and 12; at size 6 six
  of the records fail while the buffer holds the other four, and the iterator clears the buffer: the run ends normally with no output.
\<close>

definition ten_records :: "nat list anon_page_set" where
  "ten_records = AnonPageSet_getNewPage 0 [0, 1, 2, 3, 4, 5, 6, 7, 8, 9] AnonPageSet_new"

definition tight_env :: "(nat, nat varray, nat) pipe_env" where
  "tight_env = \<lparr>e_fresh = 20, e_free = \<lambda>m. m, e_stages = [tight_stage], e_create = VectorSink_createNewOutputContainer cheap_mem,
     e_write = VectorSink_writeOut cheap_mem, e_process = NullProcessor_process\<rparr>"

lemma second_failure_loses_records:
  "map_sum (\<lambda>e. ()) (\<lambda>st. (length (p_processed st), stored_rows (outputPageSet st)))
     (andThen (VectorTupleSetIterator_new (AnonPageSet_getNextPage 0) ten_records) (\<lambda>src.
        Pipeline_run 10 tight_env (AnonPageSet_getNextPage 0) src (Pipeline_new 256 0 AnonPageSet_new 0))) = Inr (0, [])"
  by code_simp

end
