(* ===== verification/StorageManager.thy ===== *)
theory StorageManager
  imports PDBPage
begin

text \<open>
  The bookkeeping of the storage manager in the front end (\<^verbatim>\<open>storageManager/source/PDBStorageManagerFrontend.cc\<close> and
  \<^verbatim>\<open>headers/PDBStorageManagerFrontendTemplate.cc\<close>): which pages a set has, which of them are being written and which can be used
  again. The mutex \<^verbatim>\<open>pageMutex\<close> makes each critical section of a handler atomic; a handler is the composition of its critical
  sections with what the network does in between, and \<open>StorageSystem\<close> interleaves the sections of any number of handlers.

  \<open>pick\<close> decides which element \<^verbatim>\<open>begin()\<close> of an unordered set yields (\<open>pick xs mod length xs\<close> is its position).
  \<open>lenient\<close> is what a dereferenced \<^verbatim>\<open>end()\<close> of \<^verbatim>\<open>freeSkippedPages\<close> does: an empty set if it holds, undefined behaviour
  otherwise (\<^verbatim>\<open>getNextFreePage\<close> dereferences it for every set that never had a free page).
\<close>

section \<open>State\<close>

record set_stats =
  st_size :: nat
  lastPage :: nat

record storage =
  pageStats :: "(pdb_set \<times> set_stats) list"
  pagesBeingWrittenTo :: "(pdb_set \<times> nat list) list"
  freeSkippedPages :: "(pdb_set \<times> nat list) list"

definition us_insert :: "'a \<Rightarrow> 'a list \<Rightarrow> 'a list" where
  "us_insert x xs = (if x \<in> set xs then xs else x # xs)"

text \<open>\<^verbatim>\<open>operator[]\<close> of a map of sets makes an empty set for a new key.\<close>

definition pagesAt :: "('k \<times> 'a list) list \<Rightarrow> 'k \<Rightarrow> 'a list" where
  "pagesAt m k = (case map_of m k of None \<Rightarrow> [] | Some xs \<Rightarrow> xs)"

section \<open>Bookkeeping\<close>

definition isPageBeingWrittenTo :: "pdb_set \<Rightarrow> nat \<Rightarrow> storage \<Rightarrow> bool" where
  "isPageBeingWrittenTo s pageNo S = (case map_of (pagesBeingWrittenTo S) s of None \<Rightarrow> False | Some xs \<Rightarrow> pageNo \<in> set xs)"

definition isPageFree :: "pdb_set \<Rightarrow> nat \<Rightarrow> storage \<Rightarrow> bool" where
  "isPageFree s pageNo S = (case map_of (freeSkippedPages S) s of None \<Rightarrow> False | Some xs \<Rightarrow> pageNo \<in> set xs)"

definition pageExists :: "pdb_set \<Rightarrow> nat \<Rightarrow> storage \<Rightarrow> bool" where
  "pageExists s pageNo S = (case map_of (pageStats S) s of None \<Rightarrow> False | Some st \<Rightarrow> pageNo \<le> lastPage st)"

definition page_valid :: "pdb_set \<Rightarrow> storage \<Rightarrow> nat \<Rightarrow> bool" where
  "page_valid s S pageNo \<longleftrightarrow> pageExists s pageNo S \<and> \<not> isPageBeingWrittenTo s pageNo S \<and> \<not> isPageFree s pageNo S"

text \<open>The first argument counts the pages up to the last one (whose number is below the largest 64-bit number).\<close>

fun valid_loop :: "nat \<Rightarrow> pdb_set \<Rightarrow> storage \<Rightarrow> nat \<Rightarrow> bool \<times> nat" where
  "valid_loop 0 s S pageNo = (False, 0)"
| "valid_loop (Suc n) s S pageNo = (if page_valid s S pageNo then (True, pageNo) else valid_loop n s S (pageNo + 1))"

definition getValidPage :: "pdb_set \<Rightarrow> nat \<Rightarrow> storage \<Rightarrow> bool \<times> nat" where
  "getValidPage s pageNo S =
     (case map_of (pageStats S) s of None \<Rightarrow> (False, 0) | Some st \<Rightarrow> valid_loop (Suc (lastPage st) - pageNo) s S pageNo)"

definition next_new_page :: "pdb_set \<Rightarrow> storage \<Rightarrow> nat \<times> storage" where
  "next_new_page s S =
     (case map_of (pageStats S) s of
        None \<Rightarrow> (0, S\<lparr>pageStats := map_put s \<lparr>st_size = 0, lastPage = 0\<rparr> (pageStats S)\<rparr>)
      | Some st \<Rightarrow>
          let pageNo = (lastPage st + 1) mod 2 ^ 64
          in (pageNo, S\<lparr>pageStats := map_put s (st\<lparr>lastPage := pageNo\<rparr>) (pageStats S)\<rparr>))"

definition getNextFreePage :: "(nat list \<Rightarrow> nat) \<Rightarrow> bool \<Rightarrow> pdb_set \<Rightarrow> storage \<Rightarrow> (nat \<times> storage) result" where
  "getNextFreePage pick lenient s S =
     (case map_of (freeSkippedPages S) s of
        None \<Rightarrow> if lenient then Inr (next_new_page s S) else Inl (Undefined ''end() of freeSkippedPages'')
      | Some xs \<Rightarrow>
          if xs \<noteq> []
          then let page = xs ! (pick xs mod length xs)
               in Inr (page, S\<lparr>freeSkippedPages := map_put s (remove1 page xs) (freeSkippedPages S)\<rparr>)
          else Inr (next_new_page s S))"

definition incrementSetSize :: "pdb_set \<Rightarrow> nat \<Rightarrow> storage \<Rightarrow> storage result" where
  "incrementSetSize s uncompressedSize S =
     (case map_of (pageStats S) s of
        None \<Rightarrow> Inl (Undefined ''end() of pageStats'')
      | Some st \<Rightarrow> Inr (S\<lparr>pageStats := map_put s (st\<lparr>st_size := (st_size st + uncompressedSize) mod 2 ^ 64\<rparr>) (pageStats S)\<rparr>))"

definition decrementSetSize :: "pdb_set \<Rightarrow> nat \<Rightarrow> storage \<Rightarrow> storage result" where
  "decrementSetSize s uncompressedSize S =
     (case map_of (pageStats S) s of
        None \<Rightarrow> Inl (Undefined ''end() of pageStats'')
      | Some st \<Rightarrow> Inr (S\<lparr>pageStats := map_put s (st\<lparr>st_size := (st_size st + (2 ^ 64 - uncompressedSize mod 2 ^ 64)) mod 2 ^ 64\<rparr>) (pageStats S)\<rparr>))"

definition freeSetPage :: "pdb_set \<Rightarrow> nat \<Rightarrow> storage \<Rightarrow> storage" where
  "freeSetPage s pageNo S = S\<lparr>freeSkippedPages := map_put s (us_insert pageNo (pagesAt (freeSkippedPages S) s)) (freeSkippedPages S)\<rparr>"

definition startWritingToPage :: "pdb_set \<Rightarrow> nat \<Rightarrow> storage \<Rightarrow> storage" where
  "startWritingToPage s pageNo S =
     S\<lparr>pagesBeingWrittenTo := map_put s (us_insert pageNo (pagesAt (pagesBeingWrittenTo S) s)) (pagesBeingWrittenTo S)\<rparr>"

definition endWritingToPage :: "pdb_set \<Rightarrow> nat \<Rightarrow> storage \<Rightarrow> storage" where
  "endWritingToPage s pageNo S =
     S\<lparr>pagesBeingWrittenTo := map_put s (removeAll pageNo (pagesAt (pagesBeingWrittenTo S) s)) (pagesBeingWrittenTo S)\<rparr>"

definition getSetStats :: "pdb_set \<Rightarrow> storage \<Rightarrow> set_stats option" where
  "getSetStats s S = map_of (pageStats S) s"

section \<open>Handlers\<close>

text \<open>The answer of the back end to a request that is waited for; \<open>NoAnswer\<close> is a connection that breaks.\<close>

datatype 'a answer = Answer 'a | NoAnswer

definition dispatch_begin :: "(nat list \<Rightarrow> nat) \<Rightarrow> bool \<Rightarrow> pdb_set \<Rightarrow> nat \<Rightarrow> storage \<Rightarrow> (nat \<times> storage) result" where
  "dispatch_begin pick lenient s uncompressedSize S =
     andThen (getNextFreePage pick lenient s S) (\<lambda>(pageNo, S1).
       andThen (incrementSetSize s uncompressedSize (startWritingToPage s pageNo S1)) (\<lambda>S2. Inr (pageNo, S2)))"

definition handleDispatchFailure :: "pdb_set \<Rightarrow> nat \<Rightarrow> nat \<Rightarrow> storage \<Rightarrow> storage result" where
  "handleDispatchFailure s pageNo uncompressedSize S = decrementSetSize s uncompressedSize (freeSetPage s pageNo (endWritingToPage s pageNo S))"

definition dispatch_answer :: "pdb_set \<Rightarrow> nat \<Rightarrow> nat \<Rightarrow> bool answer \<Rightarrow> storage \<Rightarrow> (bool \<times> storage) result" where
  "dispatch_answer s pageNo uncompressedSize ans S =
     (case ans of
        Answer True \<Rightarrow> Inr (True, S)
      | Answer False \<Rightarrow> andThen (handleDispatchFailure s pageNo uncompressedSize S) (\<lambda>S1. Inr (False, S1))
      | NoAnswer \<Rightarrow> Inr (False, S))"

text \<open>What the network does during \<^verbatim>\<open>handleDispatchedData\<close>.\<close>

record dispatch_net =
  dn_received :: bool
  dn_connected :: bool
  dn_sent :: bool
  dn_forwarded :: bool
  dn_answer :: "bool answer"
  dn_replied :: bool

definition handleDispatchedData :: "(nat list \<Rightarrow> nat) \<Rightarrow> bool \<Rightarrow> dispatch_net \<Rightarrow> pdb_set \<Rightarrow> nat \<Rightarrow> storage \<Rightarrow> (bool \<times> storage) result" where
  "handleDispatchedData pick lenient N s uncompressedSize S =
     (if \<not> dn_received N then Inr (False, S)
      else andThen (dispatch_begin pick lenient s uncompressedSize S) (\<lambda>(pageNo, S1).
        if \<not> dn_connected N then Inr (False, S1)
        else if \<not> dn_sent N then andThen (handleDispatchFailure s pageNo uncompressedSize S1) (\<lambda>S2. Inr (False, S2))
        else if \<not> dn_forwarded N then andThen (handleDispatchFailure s pageNo uncompressedSize S1) (\<lambda>S2. Inr (False, S2))
        else andThen (dispatch_answer s pageNo uncompressedSize (dn_answer N) S1) (\<lambda>(success, S2).
               Inr (dn_replied N \<and> success, endWritingToPage s pageNo S2))))"

text \<open>\<open>exists\<close> is the answer of the catalog.\<close>

definition handleGetSetPages :: "bool \<Rightarrow> pdb_set \<Rightarrow> storage \<Rightarrow> nat list option" where
  "handleGetSetPages exists s S =
     (if \<not> exists then None
      else Some (case map_of (pageStats S) s of None \<Rightarrow> [] | Some st \<Rightarrow> filter (page_valid s S) [0..<Suc (lastPage st)]))"

definition mat_begin :: "(nat list \<Rightarrow> nat) \<Rightarrow> bool \<Rightarrow> pdb_set \<Rightarrow> storage \<Rightarrow> (nat \<times> storage) result" where
  "mat_begin pick lenient s S =
     andThen (getNextFreePage pick lenient s S) (\<lambda>(pageNo, S1). Inr (pageNo, startWritingToPage s pageNo S1))"

definition mat_fail :: "pdb_set \<Rightarrow> nat \<Rightarrow> storage \<Rightarrow> storage" where
  "mat_fail s pageNo S = freeSetPage s pageNo (endWritingToPage s pageNo S)"

definition mat_done :: "pdb_set \<Rightarrow> nat \<Rightarrow> nat \<Rightarrow> storage \<Rightarrow> storage result" where
  "mat_done s pageNo freezeSize S = incrementSetSize s freezeSize (endWritingToPage s pageNo S)"

text \<open>
  What the front end observes for every page: whether it was forwarded, and the answer (\<^verbatim>\<open>success\<close>, \<^verbatim>\<open>materializeSize\<close>, \<^verbatim>\<open>hasNext\<close>). The result has the total size, which goes to the
  catalog, and the calls of \<^verbatim>\<open>freezeSize\<close> on the pages of the set (page number and size). A loop the list of events does not end is still waiting.
\<close>

fun materialize_loop :: "(nat list \<Rightarrow> nat) \<Rightarrow> bool \<Rightarrow> pdb_set \<Rightarrow> (bool \<times> (bool \<times> nat \<times> bool) answer) list \<Rightarrow> nat \<Rightarrow> storage \<Rightarrow>
    (bool \<times> nat \<times> (nat \<times> nat) list \<times> storage) result" where
  "materialize_loop pick lenient s [] totalSize S = Inl (Blocks ''waitHeapRequest'')"
| "materialize_loop pick lenient s ((forwarded, ans) # evs) totalSize S =
     andThen (mat_begin pick lenient s S) (\<lambda>(pageNo, S1).
       if \<not> forwarded then Inr (False, totalSize, [], mat_fail s pageNo S1)
       else case ans of
              Answer (True, freezeSize, hasNext) \<Rightarrow>
                andThen (mat_done s pageNo freezeSize S1) (\<lambda>S2.
                  andThen (if hasNext then materialize_loop pick lenient s evs ((totalSize + freezeSize) mod 2 ^ 64) S2
                           else Inr (True, (totalSize + freezeSize) mod 2 ^ 64, [], S2)) (\<lambda>(success, total, frozen, S3).
                    Inr (success, total, (pageNo, freezeSize) # frozen, S3)))
            | _ \<Rightarrow> Inr (False, totalSize, [], mat_fail s pageNo S1))"

text \<open>
  The answer of the catalog to the question whether the set exists makes no difference: \<^verbatim>\<open>success\<close> is true in both cases. The result has
  the size the catalog is told, if any; \<open>recorded\<close> is its answer to that.
\<close>

definition handleMaterializeSet :: "(nat list \<Rightarrow> nat) \<Rightarrow> bool \<Rightarrow> bool \<Rightarrow> (nat \<Rightarrow> bool) \<Rightarrow> pdb_set \<Rightarrow> (bool \<times> (bool \<times> nat \<times> bool) answer) list \<Rightarrow> storage \<Rightarrow>
    (bool \<times> nat option \<times> (nat \<times> nat) list \<times> storage) result" where
  "handleMaterializeSet pick lenient exists recorded s evs S =
     (let success = (if exists then True else True)
      in if \<not> success then Inr (False, None, [], S)
         else andThen (materialize_loop pick lenient s evs 0 S) (\<lambda>(success, totalSize, frozen, S1).
                if success then Inr (recorded totalSize, Some totalSize, frozen, S1)
                else Inr (False, if totalSize \<noteq> 0 then Some totalSize else None, frozen, S1)))"

text \<open>The statistics are removed before the test whether pages are being written.\<close>

definition handleClearSetRequest :: "pdb_set \<Rightarrow> storage \<Rightarrow> bool \<times> storage" where
  "handleClearSetRequest s S =
     (let S1 = S\<lparr>pageStats := map_erase s (pageStats S)\<rparr>
      in if pagesAt (pagesBeingWrittenTo S1) s \<noteq> [] then (False, S1)
         else (True, S1\<lparr>pagesBeingWrittenTo := map_erase s (pagesBeingWrittenTo S1), freeSkippedPages := map_erase s (freeSkippedPages S1)\<rparr>))"

definition storage_handleGetPageRequest :: "pdb_set \<Rightarrow> nat \<Rightarrow> bool \<Rightarrow> storage \<Rightarrow> bool \<times> nat option" where
  "storage_handleGetPageRequest s page sent S =
     (case getValidPage s page S of
        (False, _) \<Rightarrow> (False, None)
      | (True, pageNo) \<Rightarrow> (sent, Some pageNo))"

section \<open>Shutdown and start\<close>

text \<open>
  The file \<^verbatim>\<open>storage.pdb\<close>, as bytes: numbers are 64-bit and little-endian. The destructor writes only the
  statistics; a short file leaves the variables that are read into uninitialised.
\<close>

definition bytes8 :: "nat \<Rightarrow> nat list" where
  "bytes8 n = map (\<lambda>i. n div 256 ^ i mod 256) [0..<8]"

definition stats_bytes :: "pdb_set \<times> set_stats \<Rightarrow> nat list" where
  "stats_bytes e =
     bytes8 (length (dbName (fst e))) @ map of_char (dbName (fst e)) @ bytes8 (length (setName (fst e))) @ map of_char (setName (fst e)) @
     bytes8 (st_size (snd e)) @ bytes8 (lastPage (snd e))"

definition storage_destroy :: "storage \<Rightarrow> nat list" where
  "storage_destroy S = bytes8 (length (pageStats S)) @ concat (map stats_bytes (pageStats S))"

definition read_bytes :: "nat \<Rightarrow> nat list \<Rightarrow> (nat list \<times> nat list) result" where
  "read_bytes n bs = (if length bs < n then Inl (Undefined ''uninitialised memory'') else Inr (take n bs, drop n bs))"

definition read_number :: "nat list \<Rightarrow> (nat \<times> nat list) result" where
  "read_number bs = andThen (read_bytes 8 bs) (\<lambda>(b, bs1). Inr (\<Sum>i<8. b ! i * 256 ^ i, bs1))"

definition read_string :: "nat list \<Rightarrow> (string \<times> nat list) result" where
  "read_string bs = andThen (read_number bs) (\<lambda>(size, bs1). andThen (read_bytes size bs1) (\<lambda>(b, bs2). Inr (map char_of b, bs2)))"

fun read_sets :: "nat \<Rightarrow> nat list \<Rightarrow> (pdb_set \<times> set_stats) list \<Rightarrow> (pdb_set \<times> set_stats) list result" where
  "read_sets 0 bs m = Inr m"
| "read_sets (Suc n) bs m =
     andThen (read_string bs) (\<lambda>(db, bs1). andThen (read_string bs1) (\<lambda>(name, bs2).
       andThen (read_number bs2) (\<lambda>(size, bs3). andThen (read_number bs3) (\<lambda>(last, bs4).
         read_sets n bs4 (map_put (make_PDBSet db name) \<lparr>st_size = size, lastPage = last\<rparr> m)))))"

definition storage_init :: "nat list option \<Rightarrow> storage result" where
  "storage_init file =
     (case file of
        None \<Rightarrow> Inr \<lparr>pageStats = [], pagesBeingWrittenTo = [], freeSkippedPages = []\<rparr>
      | Some bs \<Rightarrow>
          andThen (read_number bs) (\<lambda>(numSets, bs1).
            andThen (read_sets numSets bs1 []) (\<lambda>m. Inr \<lparr>pageStats = m, pagesBeingWrittenTo = [], freeSkippedPages = []\<rparr>)))"

lemma length_bytes8 [simp]: "length (bytes8 n) = 8"
  by (simp add: bytes8_def)

lemma digits_sum: "(\<Sum>i<k. n div b ^ i mod b * b ^ i) = n mod b ^ k" for n b :: nat
proof (induction k)
  case (Suc k)
  have "n mod b ^ Suc k = b ^ k * (n div b ^ k mod b) + n mod b ^ k"
    by (metis mod_mult2_eq power_Suc2)
  then show ?case using Suc by simp
qed simp

lemma read_bytes_append [simp]: "length xs = n \<Longrightarrow> read_bytes n (xs @ ys) = Inr (xs, ys)"
  by (simp add: read_bytes_def)

lemma read_number_bytes8 [simp]:
  assumes "n < 2 ^ 64"
  shows "read_number (bytes8 n @ bs) = Inr (n, bs)"
proof -
  have "(\<Sum>i<8. bytes8 n ! i * 256 ^ i) = (\<Sum>i<8. n div 256 ^ i mod 256 * 256 ^ i)" by (rule sum.cong) (simp_all add: bytes8_def)
  also have "\<dots> = n" using assms by (simp add: digits_sum)
  finally show ?thesis by (simp add: read_number_def)
qed

lemma read_string_bytes [simp]: "length x < 2 ^ 64 \<Longrightarrow> read_string (bytes8 (length x) @ map of_char x @ bs) = Inr (x, bs)"
  by (simp add: read_string_def comp_def)

definition stats_fit :: "pdb_set \<times> set_stats \<Rightarrow> bool" where
  "stats_fit e \<longleftrightarrow> length (dbName (fst e)) < 2 ^ 64 \<and> length (setName (fst e)) < 2 ^ 64 \<and> st_size (snd e) < 2 ^ 64 \<and> lastPage (snd e) < 2 ^ 64"

lemma read_sets_bytes:
  "list_all stats_fit es \<Longrightarrow> read_sets (length es) (concat (map stats_bytes es)) m = Inr (fold (\<lambda>(k, v). map_put k v) es m)"
proof (induction es arbitrary: m)
  case (Cons e es)
  obtain k st where e: "e = (k, st)" by (cases e)
  have "make_PDBSet (dbName k) (setName k) = k" by (simp add: make_PDBSet_def)
  with Cons show ?case by (cases st) (simp add: e stats_bytes_def stats_fit_def)
qed simp

text \<open>
  C37: Starting the storage manager from the file its destructor wrote restores the size and the last page of every set.
\<close>

theorem storage_stats_roundtrip:
  assumes "map_ok (pageStats S)" and "list_all stats_fit (pageStats S)" and "length (pageStats S) < 2 ^ 31"
  shows "storage_init (Some (storage_destroy S)) = Inr \<lparr>pageStats = pageStats S, pagesBeingWrittenTo = [], freeSkippedPages = []\<rparr>"
  using read_sets_bytes [OF assms(2), of "[]"] fold_put_set [OF assms(1) map_ok_distinct [OF assms(1)]] assms(3)
  by (simp add: storage_init_def storage_destroy_def)

theorem storage_stats_roundtrip_witness:
  "storage_init (Some (storage_destroy \<lparr>pageStats = [(PDBSet ''a'' ''db'', \<lparr>st_size = 1000, lastPage = 3\<rparr>), (PDBSet ''b'' ''db'', \<lparr>st_size = 0, lastPage = 0\<rparr>)],
     pagesBeingWrittenTo = [], freeSkippedPages = [(PDBSet ''a'' ''db'', [2])]\<rparr>)) =
   Inr \<lparr>pageStats = [(PDBSet ''a'' ''db'', \<lparr>st_size = 1000, lastPage = 3\<rparr>), (PDBSet ''b'' ''db'', \<lparr>st_size = 0, lastPage = 0\<rparr>)],
     pagesBeingWrittenTo = [], freeSkippedPages = []\<rparr>"
  using storage_stats_roundtrip [of "\<lparr>pageStats = [(PDBSet ''a'' ''db'', \<lparr>st_size = 1000, lastPage = 3\<rparr>), (PDBSet ''b'' ''db'', \<lparr>st_size = 0, lastPage = 0\<rparr>)],
     pagesBeingWrittenTo = [], freeSkippedPages = [(PDBSet ''a'' ''db'', [2])]\<rparr>"]
  by (simp add: map_ok_def less_pdb_set_def stats_fit_def)

end
