(* ===== verification/StorageSystem.thy ===== *)
theory StorageSystem
  imports StorageManager "HOL-Library.Multiset"
begin

text \<open>
  The critical sections of the handlers of the storage manager, interleaved in any order (\<open>sto_step\<close>), and the invariant of its
  bookkeeping: the pages of a set up to the last one are divided exactly into those that have a writer, those that are finished and those that are free.
\<close>

section \<open>The system\<close>

text \<open>
  Beside the state there are, as ghosts, the handlers that have a page (\<open>writer\<close>, with the bytes they have added to the size of the set), the handlers
  whose data the back end has refused, which have freed their page and are about to unmark it, and the finished pages with their sizes: those whose
  handler has ended the write without a failure it knows of. That a page is finished does not mean that the back end has confirmed it: when the back end does not
  answer, \<^verbatim>\<open>handleDispatchedData\<close> unmarks the page like one that was confirmed.

  A step is a critical section. The handler of refused data has two of them: the page is freed under the lock (\<open>refuse_dispatch\<close>), and later, without the
  lock, it is unmarked (\<open>late_unmark\<close>), whoever has it by then. A set is cleared only while no handler has a page of it: the code
  refuses the request otherwise, but has erased the statistics of the set before (\<open>failed_clear_restarts_pages\<close> below), and the pages that are
  being written then belong to no set. A handler that cannot connect to the back end keeps its page for ever: it takes no further step. The system starts without a
  file; free pages are not saved (\<open>free_pages_served_after_restart\<close> below). \<open>l\<close> is how a dereferenced \<^verbatim>\<open>end()\<close> of
  \<^verbatim>\<open>freeSkippedPages\<close> is read, as an empty set or as the end of the run.
\<close>

record writer =
  w_set :: pdb_set
  w_page :: nat
  w_bytes :: nat

type_synonym sto_sys = "storage \<times> writer list \<times> (pdb_set \<times> nat) list \<times> (pdb_set \<times> nat \<times> nat) list"

text \<open>The page counter of a set does not wrap around.\<close>

definition room_in :: "pdb_set \<Rightarrow> storage \<Rightarrow> bool" where
  "room_in s S \<longleftrightarrow> (\<forall>st. map_of (pageStats S) s = Some st \<longrightarrow> lastPage st + 2 < 2 ^ 64)"

text \<open>The pages of a set that a handler has, and those that are finished.\<close>

definition writing :: "pdb_set \<Rightarrow> writer list \<Rightarrow> nat list" where
  "writing s ws = map w_page (filter (\<lambda>w. w_set w = s) ws)"

definition stored_pages :: "pdb_set \<Rightarrow> (pdb_set \<times> nat \<times> nat) list \<Rightarrow> nat list" where
  "stored_pages s cs = map (fst \<circ> snd) (filter (\<lambda>c. fst c = s) cs)"

inductive sto_step :: "(nat list \<Rightarrow> nat) \<Rightarrow> bool \<Rightarrow> sto_sys \<Rightarrow> sto_sys \<Rightarrow> bool" for pick l where
  begin_dispatch: "room_in s S \<Longrightarrow> dispatch_begin pick l s n S = Inr (p, S') \<Longrightarrow>
    sto_step pick l (S, ws, us, cs) (S', \<lparr>w_set = s, w_page = p, w_bytes = n\<rparr> # ws, us, cs)"
| begin_materialize: "room_in s S \<Longrightarrow> mat_begin pick l s S = Inr (p, S') \<Longrightarrow>
    sto_step pick l (S, ws, us, cs) (S', \<lparr>w_set = s, w_page = p, w_bytes = 0\<rparr> # ws, us, cs)"
| fail_dispatch: "w \<in> set ws \<Longrightarrow> handleDispatchFailure (w_set w) (w_page w) (w_bytes w) S = Inr S' \<Longrightarrow>
    sto_step pick l (S, ws, us, cs) (S', remove1 w ws, us, cs)"
| refuse_dispatch: "w \<in> set ws \<Longrightarrow> dispatch_answer (w_set w) (w_page w) (w_bytes w) (Answer False) S = Inr (b, S') \<Longrightarrow>
    sto_step pick l (S, ws, us, cs) (S', remove1 w ws, (w_set w, w_page w) # us, cs)"
| late_unmark: "(s, p) \<in> set us \<Longrightarrow> sto_step pick l (S, ws, us, cs) (endWritingToPage s p S, ws, remove1 (s, p) us, cs)"
| end_dispatch: "w \<in> set ws \<Longrightarrow> ans \<noteq> Answer False \<Longrightarrow> dispatch_answer (w_set w) (w_page w) (w_bytes w) ans S = Inr (b, S') \<Longrightarrow>
    sto_step pick l (S, ws, us, cs) (endWritingToPage (w_set w) (w_page w) S', remove1 w ws, us, (w_set w, w_page w, w_bytes w) # cs)"
| fail_materialize: "w \<in> set ws \<Longrightarrow> w_bytes w = 0 \<Longrightarrow> sto_step pick l (S, ws, us, cs) (mat_fail (w_set w) (w_page w) S, remove1 w ws, us, cs)"
| end_materialize: "w \<in> set ws \<Longrightarrow> w_bytes w = 0 \<Longrightarrow> mat_done (w_set w) (w_page w) n S = Inr S' \<Longrightarrow>
    sto_step pick l (S, ws, us, cs) (S', remove1 w ws, us, (w_set w, w_page w, n) # cs)"
| clear_set: "writing s ws = [] \<Longrightarrow> handleClearSetRequest s S = (b, S') \<Longrightarrow>
    sto_step pick l (S, ws, us, cs) (S', ws, us, filter (\<lambda>c. fst c \<noteq> s) cs)"

inductive_cases sto_stepE: "sto_step pick l (S, ws, us, cs) y"

inductive sto_reachable :: "(nat list \<Rightarrow> nat) \<Rightarrow> bool \<Rightarrow> sto_sys \<Rightarrow> bool" for pick l where
  start: "storage_init None = Inr S \<Longrightarrow> sto_reachable pick l (S, [], [], [])"
| step: "sto_reachable pick l x \<Longrightarrow> sto_step pick l x y \<Longrightarrow> sto_reachable pick l y"

section \<open>The invariant\<close>

text \<open>The pages marked as being written.\<close>

definition marks :: "storage \<Rightarrow> pdb_set \<Rightarrow> nat set" where
  "marks S s = set (pagesAt (pagesBeingWrittenTo S) s)"

definition bytes_in :: "pdb_set \<Rightarrow> writer list \<Rightarrow> (pdb_set \<times> nat \<times> nat) list \<Rightarrow> nat" where
  "bytes_in s ws cs = sum_list (map w_bytes (filter (\<lambda>w. w_set w = s) ws)) + sum_list (map (snd \<circ> snd) (filter (\<lambda>c. fst c = s) cs))"

definition set_books :: "pdb_set \<Rightarrow> storage \<times> writer list \<times> (pdb_set \<times> nat \<times> nat) list \<Rightarrow> bool" where
  "set_books s = (\<lambda>(S, ws, cs).
     marks S s \<subseteq> set (writing s ws) \<and>
     (case map_of (pageStats S) s of
        None \<Rightarrow> writing s ws = [] \<and> stored_pages s cs = [] \<and> pagesAt (freeSkippedPages S) s = []
      | Some st \<Rightarrow> mset (writing s ws) + mset (stored_pages s cs) + mset (pagesAt (freeSkippedPages S) s) = mset [0..<Suc (lastPage st)] \<and>
          lastPage st + 1 < 2 ^ 64 \<and> st_size st = bytes_in s ws cs mod 2 ^ 64))"

definition sto_inv :: "storage \<times> writer list \<times> (pdb_set \<times> nat \<times> nat) list \<Rightarrow> bool" where
  "sto_inv = (\<lambda>(S, ws, cs). map_ok (pageStats S) \<and> map_ok (pagesBeingWrittenTo S) \<and> map_ok (freeSkippedPages S) \<and> (\<forall>s. set_books s (S, ws, cs)))"

lemma pagesAt_put [simp]: "map_ok m \<Longrightarrow> pagesAt (map_put k v m) j = (if j = k then v else pagesAt m j)"
  by (simp add: pagesAt_def map_of_map_put)

lemma pagesAt_erase [simp]: "pagesAt (map_erase k m) j = (if j = k then [] else pagesAt m j)"
  by (simp add: pagesAt_def map_of_map_erase)

lemma writing_simps [simp]:
  "writing s (w # ws) = (if w_set w = s then w_page w # writing s ws else writing s ws)" "writing s [] = []"
  by (simp_all add: writing_def)

lemma stored_pages_simps [simp]:
  "stored_pages s ((t, p, n) # cs) = (if t = s then p # stored_pages s cs else stored_pages s cs)" "stored_pages s [] = []"
  "stored_pages s (filter (\<lambda>c. fst c \<noteq> t) cs) = (if s = t then [] else stored_pages s cs)"
  by (auto simp: stored_pages_def intro!: arg_cong [where f = "map _"] filter_cong)

lemma bytes_in_simps [simp]:
  "bytes_in s (w # ws) cs = (if w_set w = s then w_bytes w + bytes_in s ws cs else bytes_in s ws cs)" "bytes_in s [] [] = 0"
  "bytes_in s ws ((t, p, n) # cs) = (if t = s then n + bytes_in s ws cs else bytes_in s ws cs)"
  by (simp_all add: bytes_in_def)

lemma writing_remove1:
  "w \<in> set ws \<Longrightarrow> mset (writing s ws) = (if w_set w = s then add_mset (w_page w) (mset (writing s (remove1 w ws))) else mset (writing s (remove1 w ws)))"
  by (induction ws) auto

lemma writing_remove1_set:
  "w \<in> set ws \<Longrightarrow> set (writing s ws) = (if w_set w = s then insert (w_page w) (set (writing s (remove1 w ws))) else set (writing s (remove1 w ws)))"
  using arg_cong [OF writing_remove1 [of w ws s], of set_mset] by (auto split: if_splits)

lemma bytes_remove1:
  "w \<in> set ws \<Longrightarrow> bytes_in s ws cs = (if w_set w = s then w_bytes w + bytes_in s (remove1 w ws) cs else bytes_in s (remove1 w ws) cs)"
  by (induction ws) auto

lemma sto_inv_books: "sto_inv x \<Longrightarrow> set_books s x"
  by (simp add: sto_inv_def split_beta)

lemma marks_simps [simp]:
  "map_ok (pagesBeingWrittenTo S) \<Longrightarrow> marks (startWritingToPage s p S) = (marks S)(s := insert p (marks S s))"
  "map_ok (pagesBeingWrittenTo S) \<Longrightarrow> marks (endWritingToPage s p S) = (marks S)(s := marks S s - {p})"
  "marks (freeSetPage s p S) = marks S" "marks (S\<lparr>pageStats := m\<rparr>) = marks S"
  by (auto simp: fun_eq_iff marks_def startWritingToPage_def endWritingToPage_def freeSetPage_def us_insert_def)

text \<open>A page that has a writer belongs to no one else.\<close>

lemma books_distinct:
  assumes "set_books s (S, ws, cs)"
  shows "distinct (writing s ws @ stored_pages s cs @ pagesAt (freeSkippedPages S) s)"
proof (cases "map_of (pageStats S) s")
  case (Some st)
  then have "mset (writing s ws @ stored_pages s cs @ pagesAt (freeSkippedPages S) s) = mset [0..<Suc (lastPage st)]"
    using assms by (simp add: set_books_def ac_simps)
  then show ?thesis using mset_eq_imp_distinct_iff distinct_upt by blast
qed (use assms in \<open>auto simp: set_books_def\<close>)

section \<open>Every section keeps it\<close>

lemma no_pages_no_bytes: "writing s ws = [] \<Longrightarrow> stored_pages s cs = [] \<Longrightarrow> bytes_in s ws cs = 0"
  by (auto simp: writing_def stored_pages_def bytes_in_def)

text \<open>What taking a page does: the page comes from the free ones or is new.\<close>

definition takes :: "pdb_set \<Rightarrow> nat \<Rightarrow> storage \<Rightarrow> storage \<Rightarrow> bool" where
  "takes s p S S' \<longleftrightarrow> map_ok (pageStats S') \<and> map_ok (freeSkippedPages S') \<and> pagesBeingWrittenTo S' = pagesBeingWrittenTo S \<and>
     (\<forall>t. t \<noteq> s \<longrightarrow> map_of (pageStats S') t = map_of (pageStats S) t \<and> pagesAt (freeSkippedPages S') t = pagesAt (freeSkippedPages S) t) \<and>
     (\<exists>st'. map_of (pageStats S') s = Some st' \<and>
        (case map_of (pageStats S) s of
           None \<Rightarrow> p = 0 \<and> st' = \<lparr>st_size = 0, lastPage = 0\<rparr> \<and> pagesAt (freeSkippedPages S') s = []
         | Some st \<Rightarrow> st_size st' = st_size st \<and> lastPage st' \<le> lastPage st + 1 \<and> lastPage st' + 1 < 2 ^ 64 \<and>
             add_mset p (mset (pagesAt (freeSkippedPages S') s) + mset [0..<Suc (lastPage st)]) = mset (pagesAt (freeSkippedPages S) s) + mset [0..<Suc (lastPage st')]))"

lemma getNextFreePage_takes:
  assumes inv: "sto_inv (S, ws, cs)" and room: "room_in s S"
  shows "\<exists>p S'. getNextFreePage pick True s S = Inr (p, S') \<and> takes s p S S'"
proof -
  have m: "map_ok (pageStats S)" "map_ok (freeSkippedPages S)" using inv by (auto simp: sto_inv_def)
  have b: "set_books s (S, ws, cs)" using inv by (rule sto_inv_books)
  have new: "takes s (fst (next_new_page s S)) S (snd (next_new_page s S))" if "pagesAt (freeSkippedPages S) s = []"
  proof (cases "map_of (pageStats S) s")
    case (Some st)
    then have "lastPage st + 2 < 2 ^ 64" using room by (simp add: room_in_def)
    then show ?thesis using Some that m by (simp add: next_new_page_def takes_def map_ok_put map_of_map_put del: mset_upt)
  qed (use that m in \<open>simp add: next_new_page_def takes_def map_ok_put map_of_map_put del: mset_upt\<close>)
  show ?thesis
  proof (cases "pagesAt (freeSkippedPages S) s")
    case Nil
    then have "getNextFreePage pick True s S = Inr (next_new_page s S)" by (simp add: getNextFreePage_def pagesAt_def split: option.splits)
    then show ?thesis using new [OF Nil] by (metis prod.collapse)
  next
    case (Cons x xs)
    then have f: "map_of (freeSkippedPages S) s = Some (x # xs)" by (simp add: pagesAt_def split: option.splits)
    let ?p = "(x # xs) ! (pick (x # xs) mod length (x # xs))"
    let ?S = "S\<lparr>freeSkippedPages := map_put s (remove1 ?p (x # xs)) (freeSkippedPages S)\<rparr>"
    have p: "?p \<in> set (x # xs)" by (rule nth_mem) simp
    obtain st where st: "map_of (pageStats S) s = Some st" "lastPage st + 1 < 2 ^ 64"
      using b Cons by (auto simp: set_books_def split: option.splits)
    have "add_mset ?p (mset (remove1 ?p (x # xs))) = mset (x # xs)" using p by (metis insert_DiffM mset_remove1 set_mset_mset)
    then have "takes s ?p S ?S" using m st f Cons by (auto simp: takes_def map_ok_put simp del: remove1.simps upt_Suc mset_upt)
    moreover have "getNextFreePage pick True s S = Inr (?p, ?S)" using f by (simp add: getNextFreePage_def Let_def)
    ultimately show ?thesis by blast
  qed
qed

lemma takes_marks: "sto_inv (S, ws, cs) \<Longrightarrow> takes s p S S' \<Longrightarrow> marks (startWritingToPage s p S') = (marks S)(s := insert p (marks S s))"
  by (simp add: sto_inv_def takes_def) (simp add: marks_def fun_eq_iff)

lemma startWritingToPage_sel:
  "pageStats (startWritingToPage s p S) = pageStats S" "freeSkippedPages (startWritingToPage s p S) = freeSkippedPages S"
  by (simp_all add: startWritingToPage_def)

lemma take_ok:
  assumes inv: "sto_inv (S, ws, cs)" and t: "takes s p S S'"
  shows "sto_inv (startWritingToPage s p S', \<lparr>w_set = s, w_page = p, w_bytes = 0\<rparr> # ws, cs)"
proof -
  have m: "map_ok (pagesBeingWrittenTo S)" using inv by (simp add: sto_inv_def)
  have b: "set_books s (S, ws, cs)" using inv by (rule sto_inv_books)
  obtain st' where st': "map_of (pageStats S') s = Some st'" using t by (auto simp: takes_def)
  have old: "st_size st' = bytes_in s ws cs mod 2 ^ 64" "lastPage st' + 1 < 2 ^ 64"
    "add_mset p (mset (writing s ws) + mset (stored_pages s cs) + mset (pagesAt (freeSkippedPages S') s)) = mset [0..<Suc (lastPage st')]"
  proof -
    have "st_size st' = bytes_in s ws cs mod 2 ^ 64 \<and> lastPage st' + 1 < 2 ^ 64 \<and>
      add_mset p (mset (writing s ws) + mset (stored_pages s cs) + mset (pagesAt (freeSkippedPages S') s)) = mset [0..<Suc (lastPage st')]"
    proof (cases "map_of (pageStats S) s")
      case None
      then show ?thesis using t b st' no_pages_no_bytes [of s ws cs] by (auto simp: takes_def set_books_def)
    next
      case (Some st)
      let ?W = "mset (writing s ws) + mset (stored_pages s cs)"
      have e: "st_size st' = st_size st" "lastPage st' + 1 < 2 ^ 64"
        "add_mset p (mset (pagesAt (freeSkippedPages S') s) + mset [0..<Suc (lastPage st)]) = mset (pagesAt (freeSkippedPages S) s) + mset [0..<Suc (lastPage st')]"
        "?W + mset (pagesAt (freeSkippedPages S) s) = mset [0..<Suc (lastPage st)]" "st_size st = bytes_in s ws cs mod 2 ^ 64"
        using t b st' Some by (auto simp: takes_def set_books_def simp del: mset_upt upt_Suc)
      have "add_mset p (?W + mset (pagesAt (freeSkippedPages S') s)) + mset [0..<Suc (lastPage st)] =
          ?W + add_mset p (mset (pagesAt (freeSkippedPages S') s) + mset [0..<Suc (lastPage st)])"
        by (simp add: ac_simps del: mset_upt upt_Suc)
      also have "\<dots> = mset [0..<Suc (lastPage st')] + (?W + mset (pagesAt (freeSkippedPages S) s))"
        unfolding e(3) by (simp add: ac_simps del: mset_upt upt_Suc)
      also have "\<dots> = mset [0..<Suc (lastPage st')] + mset [0..<Suc (lastPage st)]" unfolding e(4) ..
      finally show ?thesis using e(1,2,5) by (simp add: ac_simps del: mset_upt upt_Suc)
    qed
    then show "st_size st' = bytes_in s ws cs mod 2 ^ 64" "lastPage st' + 1 < 2 ^ 64"
      "add_mset p (mset (writing s ws) + mset (stored_pages s cs) + mset (pagesAt (freeSkippedPages S') s)) = mset [0..<Suc (lastPage st')]" by auto
  qed
  have m': "map_ok (pagesBeingWrittenTo S')" and k: "marks S' = marks S" using t m by (auto simp: takes_def marks_def fun_eq_iff)
  have "set_books u (startWritingToPage s p S', \<lparr>w_set = s, w_page = p, w_bytes = 0\<rparr> # ws, cs)" for u
  proof (cases "u = s")
    case True
    then show ?thesis using st' old k m' b
      by (auto simp: set_books_def startWritingToPage_sel ac_simps simp del: mset_upt upt_Suc)
  next
    case False
    then have "map_of (pageStats S') u = map_of (pageStats S) u" "pagesAt (freeSkippedPages S') u = pagesAt (freeSkippedPages S) u" using t by (auto simp: takes_def)
    then show ?thesis using False k m' sto_inv_books [OF inv, of u]
      by (auto simp: set_books_def startWritingToPage_sel simp del: mset_upt upt_Suc split: option.splits)
  qed
  then show ?thesis using t m by (simp add: sto_inv_def startWritingToPage_def takes_def map_ok_put)
qed

text \<open>Changing the bytes a writer accounts for.\<close>

lemma resize_ok:
  assumes inv: "sto_inv (S, ws, cs)" and w: "w \<in> set ws"
  obtains st where "map_of (pageStats S) (w_set w) = Some st" and "st_size st = (w_bytes w + bytes_in (w_set w) (remove1 w ws) cs) mod 2 ^ 64"
    and "\<And>n v. v = (n + bytes_in (w_set w) (remove1 w ws) cs) mod 2 ^ 64 \<Longrightarrow>
      sto_inv (S\<lparr>pageStats := map_put (w_set w) (st\<lparr>st_size := v\<rparr>) (pageStats S)\<rparr>, w\<lparr>w_bytes := n\<rparr> # remove1 w ws, cs)"
proof -
  have "w_page w \<in> set (writing (w_set w) ws)" using w by (auto simp: writing_def)
  then obtain st where st: "map_of (pageStats S) (w_set w) = Some st"
    using sto_inv_books [OF inv, of "w_set w"] by (auto simp: set_books_def split: option.splits)
  have m: "map_ok (pageStats S)" using inv by (simp add: sto_inv_def)
  have "sto_inv (S\<lparr>pageStats := map_put (w_set w) (st\<lparr>st_size := v\<rparr>) (pageStats S)\<rparr>, w\<lparr>w_bytes := n\<rparr> # remove1 w ws, cs)"
    if v: "v = (n + bytes_in (w_set w) (remove1 w ws) cs) mod 2 ^ 64" for n v
  proof -
    have "set_books u (S\<lparr>pageStats := map_put (w_set w) (st\<lparr>st_size := v\<rparr>) (pageStats S)\<rparr>, w\<lparr>w_bytes := n\<rparr> # remove1 w ws, cs)" for u
      using sto_inv_books [OF inv, of u] st m v writing_remove1 [OF w, of u] writing_remove1_set [OF w, of u] bytes_remove1 [OF w, of u cs]
      by (auto simp: set_books_def map_of_map_put split: option.splits simp del: mset_upt upt_Suc)
    then show ?thesis using inv by (simp add: sto_inv_def map_ok_put)
  qed
  moreover have "st_size st = (w_bytes w + bytes_in (w_set w) (remove1 w ws) cs) mod 2 ^ 64"
    using sto_inv_books [OF inv, of "w_set w"] st bytes_remove1 [OF w, of "w_set w" cs] by (simp add: set_books_def)
  ultimately show thesis using that st by blast
qed

lemma endWritingToPage_sel:
  "pageStats (endWritingToPage s p S) = pageStats S" "freeSkippedPages (endWritingToPage s p S) = freeSkippedPages S"
  by (simp_all add: endWritingToPage_def)

lemma end_ok:
  assumes inv: "sto_inv (S, ws, cs)" and w: "w \<in> set ws"
  shows "sto_inv (endWritingToPage (w_set w) (w_page w) S, remove1 w ws, (w_set w, w_page w, w_bytes w) # cs)"
proof -
  let ?s = "w_set w" and ?p = "w_page w"
  have m: "map_ok (pagesBeingWrittenTo S)" using inv by (simp add: sto_inv_def)
  note r = writing_remove1 [OF w] bytes_remove1 [OF w]
  note e = writing_remove1_set [OF w]
  have "set_books u (endWritingToPage ?s ?p S, remove1 w ws, (?s, ?p, w_bytes w) # cs)" for u
    using sto_inv_books [OF inv, of u] r(1) [of u] r(2) [of u cs] m e [of u]
    by (auto simp: set_books_def endWritingToPage_sel split: option.splits if_splits simp del: mset_upt upt_Suc)
  then show ?thesis using inv m by (simp add: sto_inv_def endWritingToPage_def map_ok_put)
qed

lemma freeSetPage_sel:
  "pageStats (freeSetPage s p S) = pageStats S" "freeSkippedPages (freeSetPage s p S) = map_put s (us_insert p (pagesAt (freeSkippedPages S) s)) (freeSkippedPages S)"
  by (simp_all add: freeSetPage_def)

lemma free_ok:
  assumes inv: "sto_inv (S, ws, cs)" and w: "w \<in> set ws" and n: "w_bytes w = 0"
  shows "sto_inv (mat_fail (w_set w) (w_page w) S, remove1 w ws, cs)"
proof -
  let ?s = "w_set w" and ?p = "w_page w" and ?S = "endWritingToPage (w_set w) (w_page w) S"
  have inv1: "sto_inv (?S, remove1 w ws, (?s, ?p, 0) # cs)" using end_ok [OF inv w] n by simp
  have m: "map_ok (freeSkippedPages ?S)" using inv1 by (simp add: sto_inv_def)
  have "?p \<notin> set (pagesAt (freeSkippedPages ?S) ?s)" using books_distinct [OF sto_inv_books [OF inv1], of ?s] by simp
  then have ins: "mset (us_insert ?p (pagesAt (freeSkippedPages ?S) ?s)) = add_mset ?p (mset (pagesAt (freeSkippedPages ?S) ?s))" by (simp add: us_insert_def)
  have "set_books u (freeSetPage ?s ?p ?S, remove1 w ws, cs)" for u
    using sto_inv_books [OF inv1, of u] m ins
    by (auto simp: set_books_def freeSetPage_sel split: option.splits simp del: mset_upt upt_Suc)
  then show ?thesis using inv1 m by (simp add: sto_inv_def mat_fail_def freeSetPage_def map_ok_put)
qed

lemma size_commute:
  "decrementSetSize s n (mat_fail s p S) = andThen (decrementSetSize s n S) (\<lambda>S'. Inr (mat_fail s p S'))"
  "incrementSetSize s n (endWritingToPage s p S) = andThen (incrementSetSize s n S) (\<lambda>S'. Inr (endWritingToPage s p S'))"
  by (simp_all add: decrementSetSize_def incrementSetSize_def mat_fail_def freeSetPage_def endWritingToPage_def split: option.split)

lemma handleDispatchFailure_ok:
  assumes inv: "sto_inv (S, ws, cs)" and w: "w \<in> set ws"
  shows "\<exists>S'. handleDispatchFailure (w_set w) (w_page w) (w_bytes w) S = Inr S' \<and> sto_inv (S', remove1 w ws, cs) \<and>
    marks S' = (marks S)(w_set w := marks S (w_set w) - {w_page w})"
proof -
  obtain st where st: "map_of (pageStats S) (w_set w) = Some st" "st_size st = (w_bytes w + bytes_in (w_set w) (remove1 w ws) cs) mod 2 ^ 64"
    and re: "\<And>n v. v = (n + bytes_in (w_set w) (remove1 w ws) cs) mod 2 ^ 64 \<Longrightarrow>
      sto_inv (S\<lparr>pageStats := map_put (w_set w) (st\<lparr>st_size := v\<rparr>) (pageStats S)\<rparr>, w\<lparr>w_bytes := n\<rparr> # remove1 w ws, cs)"
    using resize_ok [OF inv w] by blast
  have sub: "(((n + b) mod 2 ^ 64) + (2 ^ 64 - n mod 2 ^ 64)) mod 2 ^ 64 = (0 + b) mod 2 ^ 64" for n b :: nat
  proof -
    have "(((n + b) mod 2 ^ 64) + (2 ^ 64 - n mod 2 ^ 64)) mod 2 ^ 64 = (n mod 2 ^ 64 + b + (2 ^ 64 - n mod 2 ^ 64)) mod 2 ^ 64"
      by (metis mod_add_left_eq)
    also have "n mod 2 ^ 64 + b + (2 ^ 64 - n mod 2 ^ 64) = b + 2 ^ 64" using mod_less_divisor [of "2 ^ 64" n] by simp
    finally show ?thesis by simp
  qed
  define v where "v = (st_size st + (2 ^ 64 - w_bytes w mod 2 ^ 64)) mod 2 ^ 64"
  let ?S = "S\<lparr>pageStats := map_put (w_set w) (st\<lparr>st_size := v\<rparr>) (pageStats S)\<rparr>" and ?w = "w\<lparr>w_bytes := 0\<rparr>"
  have v: "v = (0 + bytes_in (w_set w) (remove1 w ws) cs) mod 2 ^ 64" unfolding v_def st(2) by (rule sub)
  have fail: "handleDispatchFailure (w_set w) (w_page w) (w_bytes w) S = Inr (mat_fail (w_set w) (w_page w) ?S)"
    using st(1) size_commute(1) [of "w_set w" "w_bytes w" "w_page w" S] by (simp add: handleDispatchFailure_def mat_fail_def decrementSetSize_def v_def)
  moreover have "sto_inv (mat_fail (w_set w) (w_page w) ?S, remove1 w ws, cs)" using free_ok [OF re [OF v], of ?w] by simp
  moreover have "marks (mat_fail (w_set w) (w_page w) ?S) = (marks S)(w_set w := marks S (w_set w) - {w_page w})"
    using inv by (simp add: mat_fail_def sto_inv_def)
  ultimately show ?thesis by blast
qed

lemma mat_done_ok:
  assumes inv: "sto_inv (S, ws, cs)" and w: "w \<in> set ws" and n: "w_bytes w = 0"
  shows "\<exists>S'. mat_done (w_set w) (w_page w) n S = Inr S' \<and> sto_inv (S', remove1 w ws, (w_set w, w_page w, n) # cs) \<and>
    marks S' = (marks S)(w_set w := marks S (w_set w) - {w_page w})"
proof -
  obtain st where st: "map_of (pageStats S) (w_set w) = Some st" "st_size st = (w_bytes w + bytes_in (w_set w) (remove1 w ws) cs) mod 2 ^ 64"
    and re: "\<And>n v. v = (n + bytes_in (w_set w) (remove1 w ws) cs) mod 2 ^ 64 \<Longrightarrow>
      sto_inv (S\<lparr>pageStats := map_put (w_set w) (st\<lparr>st_size := v\<rparr>) (pageStats S)\<rparr>, w\<lparr>w_bytes := n\<rparr> # remove1 w ws, cs)"
    using resize_ok [OF inv w] by blast
  let ?v = "(st_size st + n) mod 2 ^ 64"
  have "?v = (n + bytes_in (w_set w) (remove1 w ws) cs) mod 2 ^ 64" unfolding st(2) assms(3) by (simp add: mod_simps ac_simps)
  from end_ok [OF re [OF this], of "w\<lparr>w_bytes := n\<rparr>"] show ?thesis
    using st(1) size_commute(2) [of "w_set w" n "w_page w" S] inv by (simp add: mat_done_def incrementSetSize_def sto_inv_def)
qed

lemma dispatch_begin_ok:
  assumes inv: "sto_inv (S, ws, cs)" and "room_in s S"
  shows "\<exists>p S'. dispatch_begin pick True s n S = Inr (p, S') \<and> sto_inv (S', \<lparr>w_set = s, w_page = p, w_bytes = n\<rparr> # ws, cs) \<and>
    marks S' = (marks S)(s := insert p (marks S s))"
proof -
  obtain p S1 where g: "getNextFreePage pick True s S = Inr (p, S1)" "takes s p S S1" using getNextFreePage_takes [OF assms] by blast
  let ?w = "\<lparr>w_set = s, w_page = p, w_bytes = 0\<rparr>"
  note inv1 = take_ok [OF inv g(2)]
  obtain st where st: "map_of (pageStats (startWritingToPage s p S1)) s = Some st" "st_size st = bytes_in s ws cs mod 2 ^ 64"
    and re: "\<And>v. v = (n + bytes_in s ws cs) mod 2 ^ 64 \<Longrightarrow>
      sto_inv ((startWritingToPage s p S1)\<lparr>pageStats := map_put s (st\<lparr>st_size := v\<rparr>) (pageStats (startWritingToPage s p S1))\<rparr>, ?w\<lparr>w_bytes := n\<rparr> # ws, cs)"
    using resize_ok [OF inv1, of ?w] by auto
  have "(st_size st + n) mod 2 ^ 64 = (n + bytes_in s ws cs) mod 2 ^ 64" unfolding st(2) by (simp add: mod_simps ac_simps)
  from re [OF this] show ?thesis using g(1) st(1) takes_marks [OF inv g(2)] by (simp add: dispatch_begin_def incrementSetSize_def)
qed

lemma mat_begin_ok:
  assumes inv: "sto_inv (S, ws, cs)" and "room_in s S"
  shows "\<exists>p S'. mat_begin pick True s S = Inr (p, S') \<and> sto_inv (S', \<lparr>w_set = s, w_page = p, w_bytes = 0\<rparr> # ws, cs) \<and>
    marks S' = (marks S)(s := insert p (marks S s))"
proof -
  obtain p S1 where "getNextFreePage pick True s S = Inr (p, S1)" "takes s p S S1" using getNextFreePage_takes [OF assms] by blast
  with take_ok [OF inv] takes_marks [OF inv] show ?thesis by (auto simp: mat_begin_def)
qed

text \<open>The pages of a set are numbered below a bound, which a new page raises by one.\<close>

definition pages_below :: "nat \<Rightarrow> pdb_set \<Rightarrow> storage \<Rightarrow> bool" where
  "pages_below b s S \<longleftrightarrow> (\<forall>st. map_of (pageStats S) s = Some st \<longrightarrow> lastPage st < b)"

lemma pages_below_room: "pages_below b s S \<Longrightarrow> b + 1 < 2 ^ 64 \<Longrightarrow> room_in s S"
  by (auto simp: pages_below_def room_in_def)

lemma mat_begin_below:
  assumes "sto_inv (S, ws, cs)" and "room_in s S" and "pages_below b s S" and "mat_begin pick True s S = Inr (p, S')"
  shows "pages_below (Suc b) s S'"
proof -
  obtain S1 where "takes s p S S1" "S' = startWritingToPage s p S1"
    using getNextFreePage_takes [OF assms(1,2), of pick] assms(4) by (auto simp: mat_begin_def)
  then show ?thesis using assms(3) by (auto simp: takes_def pages_below_def startWritingToPage_def split: option.splits)
qed

lemma mat_done_below: "map_ok (pageStats S) \<Longrightarrow> mat_done s p n S = Inr S' \<Longrightarrow> pages_below b s S' = pages_below b s S"
  by (auto simp: mat_done_def incrementSetSize_def endWritingToPage_def pages_below_def map_of_map_put split: option.splits)

lemma clear_ok:
  assumes inv: "sto_inv (S, ws, cs)" and "writing s ws = []"
  shows "\<exists>S'. handleClearSetRequest s S = (True, S') \<and> sto_inv (S', ws, filter (\<lambda>c. fst c \<noteq> s) cs)"
proof -
  let ?S = "S\<lparr>pageStats := map_erase s (pageStats S), pagesBeingWrittenTo := map_erase s (pagesBeingWrittenTo S), freeSkippedPages := map_erase s (freeSkippedPages S)\<rparr>"
  have "pagesAt (pagesBeingWrittenTo S) s = []" using sto_inv_books [OF inv, of s] assms(2) by (auto simp: set_books_def marks_def)
  then have "handleClearSetRequest s S = (True, ?S)" by (simp add: handleClearSetRequest_def)
  moreover have "set_books u (?S, ws, filter (\<lambda>c. fst c \<noteq> s) cs)" for u
  proof (cases "u = s")
    case True
    then show ?thesis using assms(2) by (simp add: set_books_def map_of_map_erase marks_def)
  next
    case False
    then have "filter (\<lambda>c. fst c = u) (filter (\<lambda>c. fst c \<noteq> s) cs) = filter (\<lambda>c. fst c = u) cs" by (auto intro!: filter_cong)
    then have "bytes_in u ws (filter (\<lambda>c. fst c \<noteq> s) cs) = bytes_in u ws cs" by (simp add: bytes_in_def)
    then show ?thesis using False sto_inv_books [OF inv, of u]
      by (auto simp: set_books_def map_of_map_erase marks_def simp del: mset_upt upt_Suc split: option.splits)
  qed
  ultimately show ?thesis using inv by (simp add: sto_inv_def map_ok_erase)
qed

text \<open>Removing a mark, whoever has the page, changes nothing in the books.\<close>

lemma unmark_ok:
  assumes "sto_inv (S, ws, cs)"
  shows "sto_inv (endWritingToPage s p S, ws, cs)"
proof -
  have m: "map_ok (pagesBeingWrittenTo S)" using assms by (simp add: sto_inv_def)
  have "set_books u (endWritingToPage s p S, ws, cs)" for u
    using sto_inv_books [OF assms, of u] m by (auto simp: set_books_def endWritingToPage_sel split: option.splits simp del: mset_upt upt_Suc)
  moreover have "map_ok (pagesBeingWrittenTo (endWritingToPage s p S))" using m by (simp add: endWritingToPage_def map_ok_put)
  ultimately show ?thesis using assms by (simp add: sto_inv_def endWritingToPage_sel)
qed

text \<open>Where the strict reading of a dereferenced end iterator goes on, the lenient one does the same.\<close>

lemma lenient_mono:
  "dispatch_begin pick l s n S = Inr x \<Longrightarrow> dispatch_begin pick True s n S = Inr x"
  "mat_begin pick l s S = Inr x \<Longrightarrow> mat_begin pick True s S = Inr x"
  by (auto simp: dispatch_begin_def mat_begin_def getNextFreePage_def split: option.splits if_splits)

definition sys_inv :: "sto_sys \<Rightarrow> bool" where
  "sys_inv = (\<lambda>(S, ws, us, cs). sto_inv (S, ws, cs))"

lemma sto_step_inv:
  assumes "sto_step pick l (S, ws, us, cs) y" and inv: "sto_inv (S, ws, cs)"
  shows "sys_inv y"
  using assms(1)
proof (cases pick l "(S, ws, us, cs)" y rule: sto_step.cases)
  case (begin_dispatch s n p S')
  then show ?thesis using dispatch_begin_ok [OF inv, of s pick n] lenient_mono(1) [of pick l s n S] by (auto simp: sys_inv_def)
next
  case (begin_materialize s p S')
  then show ?thesis using mat_begin_ok [OF inv, of s pick] lenient_mono(2) [of pick l s S] by (auto simp: sys_inv_def)
next
  case (fail_dispatch w S')
  then show ?thesis using handleDispatchFailure_ok [OF inv] by (fastforce simp: sys_inv_def)
next
  case (refuse_dispatch w b S')
  then show ?thesis using handleDispatchFailure_ok [OF inv refuse_dispatch(2)] by (auto simp: sys_inv_def dispatch_answer_def)
next
  case (late_unmark s p)
  then show ?thesis using unmark_ok [OF inv] by (simp add: sys_inv_def)
next
  case (end_dispatch w ans b S')
  then have "S' = S" by (auto simp: dispatch_answer_def split: answer.splits bool.splits)
  then show ?thesis using end_dispatch end_ok [OF inv] by (simp add: sys_inv_def)
next
  case (fail_materialize w)
  then show ?thesis using free_ok [OF inv] by (simp add: sys_inv_def)
next
  case (end_materialize w n S')
  then show ?thesis using mat_done_ok [OF inv, of w n] by (auto simp: sys_inv_def)
next
  case (clear_set s b S')
  then show ?thesis using clear_ok [OF inv, of s] by (auto simp: sys_inv_def)
qed

lemma sto_reachable_inv: "sto_reachable pick l (S, ws, us, cs) \<Longrightarrow> sto_inv (S, ws, cs)"
proof -
  have "sto_reachable pick l x \<Longrightarrow> sys_inv x" for x
  proof (induction rule: sto_reachable.induct)
    case (start S)
    then show ?case by (auto simp: storage_init_def sys_inv_def sto_inv_def set_books_def pagesAt_def marks_def)
  next
    case (step x y)
    then show ?case using sto_step_inv by (cases x) (auto simp: sys_inv_def)
  qed
  then show "sto_reachable pick l (S, ws, us, cs) \<Longrightarrow> sto_inv (S, ws, cs)" by (auto simp: sys_inv_def)
qed

text \<open>
  C11: In every interleaving of the critical sections of the handlers of the storage manager, the late unmarking of refused pages included, in which no set is cleared while a handler has
  a page of it (from a start without a file): the pages of a set, from 0 to the last one, are divided exactly into
  those that one handler has taken and not given up, those that are finished and those that are free; so no page has two writers, no finished page is
  written to, no page is lost; only pages that a handler has are marked as being written, and the size of the set is that of its pages.
\<close>

theorem storage_pages_partitioned:
  assumes "sto_reachable pick l (S, ws, us, cs)" and "getSetStats s S = Some st"
  shows "mset (writing s ws @ stored_pages s cs @ pagesAt (freeSkippedPages S) s) = mset [0..<Suc (lastPage st)] \<and>
    distinct (writing s ws @ stored_pages s cs) \<and> (\<forall>p. isPageBeingWrittenTo s p S \<longrightarrow> p \<in> set (writing s ws)) \<and> st_size st = bytes_in s ws cs mod 2 ^ 64"
proof -
  have b: "set_books s (S, ws, cs)" using sto_inv_books [OF sto_reachable_inv [OF assms(1)]] .
  have "isPageBeingWrittenTo s p S \<longleftrightarrow> p \<in> marks S s" for p by (simp add: isPageBeingWrittenTo_def marks_def pagesAt_def split: option.splits)
  then show ?thesis using b books_distinct [OF b] assms(2)
    by (auto simp: set_books_def getSetStats_def ac_simps simp del: mset_upt upt_Suc)
qed

text \<open>The pages that a handler has but whose mark a refused handler has removed.\<close>

definition unmarked :: "pdb_set \<Rightarrow> storage \<Rightarrow> writer list \<Rightarrow> nat set" where
  "unmarked s S ws = set (writing s ws) - marks S s"

lemma page_valid_stored:
  assumes "sto_inv (S, ws, cs)"
  shows "page_valid s S p \<longleftrightarrow> p \<in> set (stored_pages s cs) \<union> unmarked s S ws"
proof -
  have b: "set_books s (S, ws, cs)" using sto_inv_books [OF assms] .
  have w: "isPageBeingWrittenTo s p S \<longleftrightarrow> p \<in> marks S s" "isPageFree s p S \<longleftrightarrow> p \<in> set (pagesAt (freeSkippedPages S) s)"
    by (auto simp: isPageBeingWrittenTo_def isPageFree_def pagesAt_def marks_def split: option.splits)
  show ?thesis
  proof (cases "map_of (pageStats S) s")
    case (Some st)
    then have e: "mset (writing s ws @ stored_pages s cs @ pagesAt (freeSkippedPages S) s) = mset [0..<Suc (lastPage st)]"
      using b by (simp add: set_books_def ac_simps del: mset_upt upt_Suc)
    have "set (writing s ws) \<union> set (stored_pages s cs) \<union> set (pagesAt (freeSkippedPages S) s) = {..lastPage st}"
      using mset_eq_setD [OF e] by (simp add: lessThan_Suc_atMost atLeast0LessThan Un_assoc del: upt_Suc)
    then have "p \<le> lastPage st \<longleftrightarrow> p \<in> set (writing s ws) \<union> set (stored_pages s cs) \<union> set (pagesAt (freeSkippedPages S) s)" by (metis atMost_iff)
    moreover have "set (writing s ws) \<inter> set (stored_pages s cs) = {}" "set (stored_pages s cs) \<inter> set (pagesAt (freeSkippedPages S) s) = {}"
      "set (writing s ws) \<inter> set (pagesAt (freeSkippedPages S) s) = {}"
      using books_distinct [OF b] by auto
    moreover have "marks S s \<subseteq> set (writing s ws)" using b by (simp add: set_books_def)
    ultimately show ?thesis using Some w by (simp add: page_valid_def pageExists_def unmarked_def) blast
  qed (use b in \<open>auto simp: page_valid_def pageExists_def set_books_def unmarked_def\<close>)
qed

lemma valid_loop_least:
  "valid_loop n s S p = (True, q) \<Longrightarrow> p \<le> q \<and> page_valid s S q \<and> (\<forall>r. p \<le> r \<and> r < q \<longrightarrow> \<not> page_valid s S r)"
  "valid_loop n s S p = (False, q) \<Longrightarrow> p \<le> r \<Longrightarrow> r < p + n \<Longrightarrow> \<not> page_valid s S r"
proof (induction n arbitrary: p)
  case (Suc n)
  {
    case 1
    show ?case
    proof (cases "page_valid s S p")
      case False
      then have "Suc p \<le> q \<and> page_valid s S q \<and> (\<forall>r. Suc p \<le> r \<and> r < q \<longrightarrow> \<not> page_valid s S r)" using 1 Suc.IH(1) [of "Suc p"] by simp
      then show ?thesis using False by (metis Suc_leD le_neq_implies_less Suc_leI)
    qed (use 1 in auto)
  next
    case 2
    then have "\<not> page_valid s S p" "valid_loop n s S (Suc p) = (False, q)" by (auto split: if_splits)
    then show ?case using 2 Suc.IH(2) [of "Suc p"] by (cases "r = p") auto
  }
qed auto

text \<open>
  C12: A reader that asks for the pages of a set gets, in order, exactly the finished pages and those whose mark a refused handler has removed while another one
  writes them: never a free page nor one that is marked as being written. One that asks for the next page gets the first of them from the given number
  on, and a refusal only if there is none. (A page is finished when its handler has ended the write without a failure it knows of, also when the back end has not answered; the system starts
  without a file and clears no set while a handler has a page of it.)
\<close>

theorem readers_see_stored_pages:
  assumes "sto_reachable pick l (S, ws, us, cs)"
  shows "let seen = set (stored_pages s cs) \<union> unmarked s S ws in
    handleGetSetPages True s S = Some (sorted_list_of_set seen) \<and> (\<forall>q \<in> seen. \<not> isPageFree s q S \<and> \<not> isPageBeingWrittenTo s q S) \<and>
    (case storage_handleGetPageRequest s p True S of
       (ok, Some q) \<Rightarrow> ok \<and> q = (LEAST q. p \<le> q \<and> q \<in> seen) \<and> p \<le> q \<and> q \<in> seen
     | (ok, None) \<Rightarrow> \<not> ok \<and> (\<forall>q \<in> seen. q < p))"
proof -
  define seen where "seen = set (stored_pages s cs) \<union> unmarked s S ws"
  have inv: "sto_inv (S, ws, cs)" using assms by (rule sto_reachable_inv)
  have v: "page_valid s S q \<longleftrightarrow> q \<in> seen" for q unfolding seen_def by (rule page_valid_stored [OF inv])
  have b: "set_books s (S, ws, cs)" using sto_inv_books [OF inv] .
  have fin: "finite seen" by (simp add: seen_def unmarked_def)
  have last: "map_of (pageStats S) s = Some st \<Longrightarrow> q \<in> seen \<Longrightarrow> q \<le> lastPage st" for st q
    using v [of q] by (simp add: page_valid_def pageExists_def)
  have none: "map_of (pageStats S) s = None \<Longrightarrow> seen = {}" using b by (simp add: set_books_def seen_def unmarked_def)
  have "handleGetSetPages True s S = Some (sorted_list_of_set seen)"
  proof (cases "map_of (pageStats S) s")
    case (Some st)
    have "filter (page_valid s S) [0..<Suc (lastPage st)] = sorted_list_of_set seen"
    proof (rule sorted_distinct_set_unique)
      show "set (filter (page_valid s S) [0..<Suc (lastPage st)]) = set (sorted_list_of_set seen)"
        using last [OF Some] fin by (auto simp: v less_Suc_eq_le simp del: upt_Suc)
    qed (simp_all add: sorted_wrt_filter del: upt_Suc)
    then show ?thesis using Some by (simp add: handleGetSetPages_def)
  qed (use none in \<open>simp add: handleGetSetPages_def\<close>)
  moreover have "\<forall>q \<in> seen. \<not> isPageFree s q S \<and> \<not> isPageBeingWrittenTo s q S" using v by (auto simp: page_valid_def)
  moreover have "case storage_handleGetPageRequest s p True S of
       (ok, Some q) \<Rightarrow> ok \<and> q = (LEAST q. p \<le> q \<and> q \<in> seen) \<and> p \<le> q \<and> q \<in> seen
     | (ok, None) \<Rightarrow> \<not> ok \<and> (\<forall>q \<in> seen. q < p)"
  proof (cases "map_of (pageStats S) s")
    case (Some st)
    obtain ok q where g: "valid_loop (Suc (lastPage st) - p) s S p = (ok, q)" by force
    show ?thesis
    proof (cases ok)
      case True
      then have q: "p \<le> q" "q \<in> seen" "\<And>r. p \<le> r \<Longrightarrow> r < q \<Longrightarrow> r \<notin> seen"
        using valid_loop_least(1) [of "Suc (lastPage st) - p" s S p q] g v by auto
      have "(LEAST q. p \<le> q \<and> q \<in> seen) = q" by (rule Least_equality) (use q in \<open>auto intro: leI\<close>)
      then show ?thesis using True Some g q by (simp add: storage_handleGetPageRequest_def getValidPage_def)
    next
      case False
      then have "q' \<notin> seen" if "p \<le> q'" "q' \<le> lastPage st" for q'
        using valid_loop_least(2) [of "Suc (lastPage st) - p" s S p q q'] g v that by auto
      then have "\<forall>q' \<in> seen. q' < p" using last [OF Some] by (meson leI)
      then show ?thesis using False Some g by (simp add: storage_handleGetPageRequest_def getValidPage_def)
    qed
  qed (use none in \<open>simp add: storage_handleGetPageRequest_def getValidPage_def\<close>)
  ultimately show ?thesis unfolding seen_def Let_def by blast
qed

section \<open>Whole requests\<close>

text \<open>
  In every reachable state the critical sections of the handlers return: for any set (whose page counter does not wrap around) a page can be taken,
  and a handler that has a page can give it up or finish it; none of them reads through an end iterator.
\<close>

theorem storage_handlers_safe:
  assumes "sto_reachable pick True (S, ws, us, cs)"
  shows "(room_in s S \<longrightarrow> (\<exists>x. dispatch_begin pick True s n S = Inr x) \<and> (\<exists>x. mat_begin pick True s S = Inr x)) \<and>
    (\<forall>w \<in> set ws. (\<exists>x. handleDispatchFailure (w_set w) (w_page w) (w_bytes w) S = Inr x) \<and>
       (\<exists>x. dispatch_answer (w_set w) (w_page w) (w_bytes w) ans S = Inr x) \<and> (w_bytes w = 0 \<longrightarrow> (\<exists>x. mat_done (w_set w) (w_page w) n S = Inr x)))"
proof -
  have inv: "sto_inv (S, ws, cs)" using assms by (rule sto_reachable_inv)
  have "\<exists>x. dispatch_answer (w_set w) (w_page w) (w_bytes w) ans S = Inr x" if "w \<in> set ws" for w
    using handleDispatchFailure_ok [OF inv that] by (auto simp: dispatch_answer_def split: answer.splits bool.splits)
  then show ?thesis
    using dispatch_begin_ok [OF inv, of s pick n] mat_begin_ok [OF inv, of s pick] handleDispatchFailure_ok [OF inv] mat_done_ok [OF inv, of _ n] by blast
qed

text \<open>
  The handler ends the write of the page without a failure it knows of (\<open>dispatch_ends\<close>; the back end has said yes or nothing at all); the back end has confirmed it (\<open>dispatch_succeeds\<close>).
\<close>

definition dispatch_ends :: "dispatch_net \<Rightarrow> bool" where
  "dispatch_ends N \<longleftrightarrow> dn_received N \<and> dn_connected N \<and> dn_sent N \<and> dn_forwarded N \<and> dn_answer N \<noteq> Answer False"

definition dispatch_succeeds :: "dispatch_net \<Rightarrow> bool" where
  "dispatch_succeeds N \<longleftrightarrow> dispatch_ends N \<and> dn_answer N = Answer True"

definition set_size :: "pdb_set \<Rightarrow> storage \<Rightarrow> nat" where
  "set_size s S = (case getSetStats s S of None \<Rightarrow> 0 | Some st \<Rightarrow> st_size st)"

lemma set_size_books: "sto_inv (S, ws, cs) \<Longrightarrow> set_size s S = bytes_in s ws cs mod 2 ^ 64"
  using sto_inv_books [of "(S, ws, cs)" s] no_pages_no_bytes [of s ws cs]
  by (auto simp: set_size_def getSetStats_def set_books_def split: option.splits simp del: mset_upt upt_Suc)

text \<open>
  What the request does to the books: the page is finished, stays with the handler for ever (when the connection fails) or is free again.
\<close>

lemma dispatch_outcome:
  assumes inv: "sto_inv (S, ws, cs)" and room: "room_in s S"
  shows "\<exists>S' p ws' cs'. handleDispatchedData pick True N s n S = Inr (dispatch_succeeds N \<and> dn_replied N, S') \<and> sto_inv (S', ws', cs') \<and>
    p \<notin> set (writing s ws) \<and> p \<notin> set (stored_pages s cs) \<and>
    (ws', cs', marks S' s - {p}, p \<in> marks S' s) =
      (if dispatch_ends N then (ws, (s, p, n) # cs, marks S s, False)
       else if dn_received N \<and> \<not> dn_connected N then (\<lparr>w_set = s, w_page = p, w_bytes = n\<rparr> # ws, cs, marks S s, True)
       else (ws, cs, marks S s, False))"
proof (cases "dn_received N")
  case True
  obtain p S1 where b: "dispatch_begin pick True s n S = Inr (p, S1)" "sto_inv (S1, \<lparr>w_set = s, w_page = p, w_bytes = n\<rparr> # ws, cs)"
    "marks S1 = (marks S)(s := insert p (marks S s))"
    using dispatch_begin_ok [OF inv room] by blast
  let ?w = "\<lparr>w_set = s, w_page = p, w_bytes = n\<rparr>"
  obtain S2 where f: "handleDispatchFailure s p n S1 = Inr S2" "sto_inv (S2, ws, cs)" "marks S2 = (marks S1)(s := marks S1 s - {p})"
    using handleDispatchFailure_ok [OF b(2), of ?w] by auto
  have e: "sto_inv (endWritingToPage s p S1, ws, (s, p, n) # cs)" using end_ok [OF b(2), of ?w] by simp
  have r: "sto_inv (endWritingToPage s p S2, ws, cs)" using unmark_ok [OF f(2)] .
  have new: "p \<notin> set (writing s ws)" "p \<notin> set (stored_pages s cs)" using books_distinct [OF sto_inv_books [OF b(2)], of s] by auto
  then have old: "p \<notin> marks S s" using sto_inv_books [OF inv, of s] by (auto simp: set_books_def)
  have m: "map_ok (pagesBeingWrittenTo S1)" "map_ok (pagesBeingWrittenTo S2)" using b(2) f(2) by (auto simp: sto_inv_def)
  show ?thesis
  proof (cases "dn_connected N \<and> dn_sent N \<and> dn_forwarded N")
    case net: True
    then show ?thesis
    proof (cases "dn_answer N = Answer False")
      case True
      then show ?thesis using \<open>dn_received N\<close> net b f r new old m
        by (intro exI [of _ "endWritingToPage s p S2"] exI [of _ p] exI [of _ ws] exI [of _ cs])
          (simp add: handleDispatchedData_def dispatch_answer_def dispatch_succeeds_def dispatch_ends_def)
    next
      case False
      then show ?thesis using \<open>dn_received N\<close> net b e new old m
        by (intro exI [of _ "endWritingToPage s p S1"] exI [of _ p] exI [of _ ws] exI [of _ "(s, p, n) # cs"])
          (auto simp: handleDispatchedData_def dispatch_answer_def dispatch_succeeds_def dispatch_ends_def split: answer.splits bool.splits)
    qed
  next
    case False
    show ?thesis
    proof (cases "dn_connected N")
      case True
      then show ?thesis using \<open>dn_received N\<close> False b(1,3) f new old
        by (intro exI [of _ S2] exI [of _ p] exI [of _ ws] exI [of _ cs]) (auto simp: handleDispatchedData_def dispatch_succeeds_def dispatch_ends_def)
    next
      case False
      then show ?thesis using \<open>dn_received N\<close> b new old
        by (intro exI [of _ S1] exI [of _ p] exI [of _ "?w # ws"] exI [of _ cs]) (simp add: handleDispatchedData_def dispatch_succeeds_def dispatch_ends_def)
    qed
  qed
next
  case False
  obtain p where "p \<notin> set (writing s ws)" "p \<notin> set (stored_pages s cs)" using ex_new_if_finite [of "set (writing s ws) \<union> set (stored_pages s cs)"] by auto
  then show ?thesis using False inv sto_inv_books [OF inv, of s]
    by (intro exI [of _ S] exI [of _ p] exI [of _ ws] exI [of _ cs]) (auto simp: handleDispatchedData_def dispatch_succeeds_def dispatch_ends_def set_books_def)
qed

lemma getSetPages_stored: "sto_inv (S, ws, cs) \<Longrightarrow> map_option set (handleGetSetPages True s S) = Some (set (stored_pages s cs) \<union> unmarked s S ws)"
proof -
  assume inv: "sto_inv (S, ws, cs)"
  note v = page_valid_stored [OF inv, of s]
  have "page_valid s S q \<Longrightarrow> map_of (pageStats S) s = Some st \<Longrightarrow> q \<le> lastPage st" for q st by (simp add: page_valid_def pageExists_def)
  moreover have "map_of (pageStats S) s = None \<Longrightarrow> \<not> page_valid s S q" for q by (simp add: page_valid_def pageExists_def)
  moreover have "set (stored_pages s cs) \<union> unmarked s S ws = {q. page_valid s S q}" using v by blast
  ultimately show ?thesis by (cases "map_of (pageStats S) s") (auto simp: handleGetSetPages_def less_Suc_eq_le simp del: upt_Suc)
qed

text \<open>
  C14: A request to store data, run in any state that the handlers can reach (reading a dereferenced \<^verbatim>\<open>end()\<close> of \<^verbatim>\<open>freeSkippedPages\<close> as an empty set),
  returns; it reports success exactly if the back end has confirmed the page and the reply could be sent. The pages readers see grow by one, which was neither seen nor
  had by a handler before, and the size of the set by the data, exactly if the write was ended: the data arrived, the back end was reached, got the page and did not
  refuse it. In all other cases the pages readers see are as before, and so is the size of the set, unless the connection to the back end failed: then the size includes the data.
\<close>

theorem dispatched_data_stored:
  assumes "sto_reachable pick True (S, ws, us, cs)" and "room_in s S"
  shows "\<exists>S'. handleDispatchedData pick True N s n S = Inr (dispatch_succeeds N \<and> dn_replied N, S') \<and>
    (if dispatch_ends N
     then \<exists>p old. map_option set (handleGetSetPages True s S) = Some old \<and> p \<notin> old \<union> set (writing s ws) \<and> map_option set (handleGetSetPages True s S') = Some (insert p old)
     else map_option set (handleGetSetPages True s S') = map_option set (handleGetSetPages True s S)) \<and>
    set_size s S' = (if dispatch_ends N \<or> dn_received N \<and> \<not> dn_connected N then (n + set_size s S) mod 2 ^ 64 else set_size s S)"
proof -
  have inv: "sto_inv (S, ws, cs)" using assms(1) by (rule sto_reachable_inv)
  obtain S' p ws' cs' where d: "handleDispatchedData pick True N s n S = Inr (dispatch_succeeds N \<and> dn_replied N, S')" "sto_inv (S', ws', cs')"
    "p \<notin> set (writing s ws)" "p \<notin> set (stored_pages s cs)"
    "(ws', cs', marks S' s - {p}, p \<in> marks S' s) =
      (if dispatch_ends N then (ws, (s, p, n) # cs, marks S s, False)
       else if dn_received N \<and> \<not> dn_connected N then (\<lparr>w_set = s, w_page = p, w_bytes = n\<rparr> # ws, cs, marks S s, True)
       else (ws, cs, marks S s, False))"
    using dispatch_outcome [OF assms(1) [THEN sto_reachable_inv] assms(2)] by blast
  have m: "marks S s \<subseteq> set (writing s ws)" using sto_inv_books [OF inv, of s] by (simp add: set_books_def)
  have u: "unmarked s S' ws' = unmarked s S ws" using d(3,5) m by (auto simp: unmarked_def split: if_splits)
  have "p \<notin> unmarked s S ws" using d(3) by (simp add: unmarked_def)
  moreover have "set_size s S' = (if dispatch_ends N \<or> dn_received N \<and> \<not> dn_connected N then (n + set_size s S) mod 2 ^ 64 else set_size s S)"
    using d(5) unfolding set_size_books [OF d(2)] set_size_books [OF inv] by (auto simp: mod_simps split: if_splits)
  ultimately show ?thesis using d(1,3,4,5) getSetPages_stored [OF inv, of s] getSetPages_stored [OF d(2), of s] u
    by (intro exI [of _ S']) (auto split: if_splits)
qed

section \<open>A run\<close>

definition demo_set :: pdb_set where
  "demo_set = PDBSet ''a'' ''db''"

definition demo_storage :: "nat \<Rightarrow> nat \<Rightarrow> nat list \<Rightarrow> nat list \<Rightarrow> storage" where
  "demo_storage n l ws fs =
     \<lparr>pageStats = [(demo_set, \<lparr>st_size = n, lastPage = l\<rparr>)], pagesBeingWrittenTo = [(demo_set, ws)], freeSkippedPages = [(demo_set, fs)]\<rparr>"

text \<open>
  Page 0 is stored with 100 bytes; page 1 was taken and given up; then it is taken again for 50 bytes.
\<close>

lemma storage_demo_reachable:
  "sto_reachable pick True (demo_storage 100 1 [] [1], [], [], [(demo_set, 0, 100)])"
  "sto_reachable pick True (demo_storage 150 1 [1] [], [\<lparr>w_set = demo_set, w_page = 1, w_bytes = 50\<rparr>], [], [(demo_set, 0, 100)])"
proof -
  let ?S0 = "\<lparr>pageStats = [], pagesBeingWrittenTo = [], freeSkippedPages = []\<rparr> :: storage"
  let ?st = "\<lambda>l. [(demo_set, \<lparr>st_size = 100, lastPage = l\<rparr>)]"
  let ?S1 = "\<lparr>pageStats = ?st 0, pagesBeingWrittenTo = [(demo_set, [0])], freeSkippedPages = []\<rparr>"
  let ?S2 = "\<lparr>pageStats = ?st 0, pagesBeingWrittenTo = [(demo_set, [])], freeSkippedPages = []\<rparr>"
  let ?S3 = "\<lparr>pageStats = ?st 1, pagesBeingWrittenTo = [(demo_set, [1])], freeSkippedPages = []\<rparr>"
  let ?w = "\<lparr>w_set = demo_set, w_page = 0, w_bytes = 100\<rparr>" and ?v = "\<lparr>w_set = demo_set, w_page = 1, w_bytes = 0\<rparr>"
  note defs = getNextFreePage_def next_new_page_def startWritingToPage_def incrementSetSize_def pagesAt_def us_insert_def endWritingToPage_def
  have "sto_reachable pick True (?S0, [], [], [])" by (rule sto_reachable.start) (simp add: storage_init_def)
  then have "sto_reachable pick True (?S1, [?w], [], [])"
    by (rule sto_reachable.step) (rule begin_dispatch, simp_all add: room_in_def dispatch_begin_def defs)
  then have "sto_reachable pick True (endWritingToPage (w_set ?w) (w_page ?w) ?S1, remove1 ?w [?w], [], [(w_set ?w, w_page ?w, w_bytes ?w)])"
    by (rule sto_reachable.step) (rule end_dispatch [where ans = "Answer True"], simp_all add: dispatch_answer_def)
  then have "sto_reachable pick True (?S2, [], [], [(demo_set, 0, 100)])" by (simp add: defs)
  then have "sto_reachable pick True (?S3, [?v], [], [(demo_set, 0, 100)])"
    by (rule sto_reachable.step) (rule begin_materialize, simp_all add: room_in_def mat_begin_def defs)
  then have "sto_reachable pick True (mat_fail (w_set ?v) (w_page ?v) ?S3, remove1 ?v [?v], [], [(demo_set, 0, 100)])"
    by (rule sto_reachable.step) (rule fail_materialize, simp_all)
  then show r: "sto_reachable pick True (demo_storage 100 1 [] [1], [], [], [(demo_set, 0, 100)])"
    by (simp add: mat_fail_def freeSetPage_def defs demo_storage_def)
  show "sto_reachable pick True (demo_storage 150 1 [1] [], [\<lparr>w_set = demo_set, w_page = 1, w_bytes = 50\<rparr>], [], [(demo_set, 0, 100)])"
    by (rule sto_reachable.step [OF r], rule begin_dispatch) (simp_all add: room_in_def dispatch_begin_def demo_storage_def defs)
qed

theorem storage_pages_partitioned_witness:
  "getSetStats demo_set (demo_storage 150 1 [1] []) = Some \<lparr>st_size = 150, lastPage = 1\<rparr> \<and>
   mset (writing demo_set [\<lparr>w_set = demo_set, w_page = 1, w_bytes = 50\<rparr>] @ stored_pages demo_set [(demo_set, 0, 100)] @
     pagesAt (freeSkippedPages (demo_storage 150 1 [1] [])) demo_set) = mset [0..<Suc 1]"
  using storage_pages_partitioned [OF storage_demo_reachable(2), of demo_set "\<lparr>st_size = 150, lastPage = 1\<rparr>"]
  by (simp add: getSetStats_def demo_storage_def del: upt_Suc mset_upt)

theorem readers_see_stored_pages_witness:
  "handleGetSetPages True demo_set (demo_storage 100 1 [] [1]) = Some (sorted_list_of_set (set (stored_pages demo_set [(demo_set, 0, 100)])))"
  using readers_see_stored_pages [OF storage_demo_reachable(1), of demo_set] by (simp add: Let_def unmarked_def)

theorem storage_handlers_safe_witness:
  "room_in demo_set (demo_storage 150 1 [1] []) \<and> (\<exists>x. dispatch_begin (\<lambda>_. 0) True demo_set 7 (demo_storage 150 1 [1] []) = Inr x) \<and>
   (\<exists>x. handleDispatchFailure demo_set 1 50 (demo_storage 150 1 [1] []) = Inr x)"
proof -
  have "room_in demo_set (demo_storage 150 1 [1] [])" by (simp add: room_in_def demo_storage_def)
  then show ?thesis using storage_handlers_safe [OF storage_demo_reachable(2) [of "\<lambda>_. 0"], of demo_set 7 NoAnswer] by simp
qed

definition good_net :: dispatch_net where
  "good_net = \<lparr>dn_received = True, dn_connected = True, dn_sent = True, dn_forwarded = True, dn_answer = Answer True, dn_replied = True\<rparr>"

theorem dispatched_data_stored_witness:
  "dispatch_succeeds good_net \<and> (\<exists>b S' p. handleDispatchedData (\<lambda>_. 0) True good_net demo_set 30 (demo_storage 150 1 [1] []) = Inr (b, S') \<and>
     map_option set (handleGetSetPages True demo_set S') = Some (insert p {0}) \<and> set_size demo_set S' = 180)"
proof -
  have "room_in demo_set (demo_storage 150 1 [1] [])" by (simp add: room_in_def demo_storage_def)
  moreover have g: "dispatch_succeeds good_net" by (simp add: dispatch_succeeds_def dispatch_ends_def good_net_def)
  moreover have "map_option set (handleGetSetPages True demo_set (demo_storage 150 1 [1] [])) = Some {0}" "set_size demo_set (demo_storage 150 1 [1] []) = 150"
    by (auto simp: handleGetSetPages_def demo_storage_def page_valid_def pageExists_def isPageBeingWrittenTo_def isPageFree_def set_size_def getSetStats_def)
  moreover have "dispatch_ends good_net" by (simp add: dispatch_ends_def good_net_def)
  ultimately show ?thesis using dispatched_data_stored [OF storage_demo_reachable(2) [of "\<lambda>_. 0"], of demo_set good_net 30] by auto
qed

section \<open>Departures\<close>

text \<open>
  The first page of a set is found by dereferencing the end of \<^verbatim>\<open>freeSkippedPages\<close>. A request to clear a set fails while
  a page is being written, but the statistics are gone: the next handler gets page 0 again, here while another one writes it.
  A connection to the back end that fails leaves the page marked for ever. A handler whose data the back end
  refused frees its page and later, without the lock, removes the mark, although another handler may have the page by then. And free pages
  are not saved, so that after a restart readers get pages that were never written.
\<close>

lemma first_page_undefined:
  "dispatch_begin pick False s n \<lparr>pageStats = [], pagesBeingWrittenTo = [], freeSkippedPages = []\<rparr> = Inl (Undefined ''end() of freeSkippedPages'')"
  by (simp add: dispatch_begin_def getNextFreePage_def)

lemma failed_clear_restarts_pages:
  "handleClearSetRequest demo_set (demo_storage 50 0 [0] []) = (False, \<lparr>pageStats = [], pagesBeingWrittenTo = [(demo_set, [0])], freeSkippedPages = [(demo_set, [])]\<rparr>)"
  "map_sum (\<lambda>_. ()) fst (dispatch_begin pick True demo_set 9 \<lparr>pageStats = [], pagesBeingWrittenTo = [(demo_set, [0])], freeSkippedPages = [(demo_set, [])]\<rparr>) = Inr 0"
  by (simp_all add: handleClearSetRequest_def demo_storage_def map_erase_def pagesAt_def dispatch_begin_def getNextFreePage_def next_new_page_def
      startWritingToPage_def incrementSetSize_def)

lemma failed_connection_keeps_mark:
  assumes "sto_reachable pick True (S, ws, us, cs)" and "room_in s S" and "dn_received N" and "\<not> dn_connected N"
  shows "\<exists>p S'. handleDispatchedData pick True N s n S = Inr (False, S') \<and> isPageBeingWrittenTo s p S' \<and> fst (handleClearSetRequest s S') = False"
proof -
  have inv: "sto_inv (S, ws, cs)" using assms(1) by (rule sto_reachable_inv)
  obtain p S1 where b: "dispatch_begin pick True s n S = Inr (p, S1)" "sto_inv (S1, \<lparr>w_set = s, w_page = p, w_bytes = n\<rparr> # ws, cs)"
    "marks S1 = (marks S)(s := insert p (marks S s))"
    using dispatch_begin_ok [OF inv assms(2)] by blast
  have "p \<in> set (pagesAt (pagesBeingWrittenTo S1) s)" using fun_cong [OF b(3), of s] by (simp add: marks_def)
  then have "isPageBeingWrittenTo s p S1" "pagesAt (pagesBeingWrittenTo S1) s \<noteq> []"
    by (cases "map_of (pagesBeingWrittenTo S1) s"; simp add: isPageBeingWrittenTo_def pagesAt_def; force)+
  then show ?thesis using b(1) assms(3,4) by (auto simp: handleDispatchedData_def handleClearSetRequest_def Let_def)
qed

lemma refused_handler_unmarks_other:
  "map_sum (\<lambda>_. ()) (\<lambda>S. page_valid demo_set S 1)
     (andThen (handleDispatchFailure demo_set 1 50 (demo_storage 150 1 [1] [])) (\<lambda>S1.
        andThen (dispatch_begin (\<lambda>_. 0) True demo_set 9 S1) (\<lambda>(p, S2). Inr (endWritingToPage demo_set 1 S2)))) = Inr True"
  by (simp add: handleDispatchFailure_def demo_storage_def endWritingToPage_def freeSetPage_def decrementSetSize_def pagesAt_def us_insert_def dispatch_begin_def
      getNextFreePage_def startWritingToPage_def incrementSetSize_def page_valid_def pageExists_def isPageBeingWrittenTo_def isPageFree_def)

lemma free_pages_served_after_restart:
  "\<not> page_valid demo_set (demo_storage 100 1 [] [1]) 1"
  "\<exists>S. storage_init (Some (storage_destroy (demo_storage 100 1 [] [1]))) = Inr S \<and> page_valid demo_set S 1"
proof -
  let ?S = "\<lparr>pageStats = [(demo_set, \<lparr>st_size = 100, lastPage = 1\<rparr>)], pagesBeingWrittenTo = [], freeSkippedPages = []\<rparr> :: storage"
  show "\<not> page_valid demo_set (demo_storage 100 1 [] [1]) 1" by (simp add: page_valid_def isPageFree_def demo_storage_def)
  have "storage_init (Some (storage_destroy (demo_storage 100 1 [] [1]))) = Inr ?S"
    using read_sets_bytes [of "pageStats ?S" "[]"]
    by (simp add: storage_init_def storage_destroy_def demo_storage_def demo_set_def stats_fit_def del: read_sets.simps)
  moreover have "page_valid demo_set ?S 1" by (simp add: page_valid_def pageExists_def isPageBeingWrittenTo_def isPageFree_def)
  ultimately show "\<exists>S. storage_init (Some (storage_destroy (demo_storage 100 1 [] [1]))) = Inr S \<and> page_valid demo_set S 1" by blast
qed

end
