(* ===== verification/StorageBackend.thy ===== *)
theory StorageBackend
  imports StorageSystem PageSets "HOL-Library.Product_Lexorder"
begin

text \<open>
  The storage manager in the back end (\<^verbatim>\<open>storageManager/source/PDBStorageManagerBackend.cc\<close>,
  \<^verbatim>\<open>headers/PDBStorageManagerBackendTemplate.cc\<close>): the table of page sets, the handlers that feed and remove them, and the protocol
  by which a page set becomes part of a stored set, together with the handler of the front end that serves it. What the network does is a parameter.
  A page set in the table is the object itself; the front end decides about page numbers.
\<close>

section \<open>The table of page sets\<close>

type_synonym page_set_id = "nat \<times> string"

datatype 'p page_set = AnonSet "'p anon_page_set" | FeedSet "'p feeding"

type_synonym 'p page_sets = "(page_set_id \<times> 'p page_set) list"

text \<open>The answer of the front end to the question for the pages of a set.\<close>

definition createPageSetFromPDBSet :: "nat list option answer \<Rightarrow> set_page_set option" where
  "createPageSetFromPDBSet ans = (case ans of Answer (Some pages) \<Rightarrow> Some (SetPageSet_new pages) | _ \<Rightarrow> None)"

text \<open>A page set that exists is returned if it is of the right class; otherwise the cast gives null.\<close>

definition createAnonymousPageSet :: "page_set_id \<Rightarrow> 'p page_sets \<Rightarrow> 'p anon_page_set option \<times> 'p page_sets" where
  "createAnonymousPageSet pageSetID T =
     (case map_of T pageSetID of
        Some (AnonSet A) \<Rightarrow> (Some A, T)
      | Some (FeedSet _) \<Rightarrow> (None, T)
      | None \<Rightarrow> (Some AnonPageSet_new, map_put pageSetID (AnonSet AnonPageSet_new) T))"

definition createFeedingAnonymousPageSet :: "('p \<Rightarrow> bool) \<Rightarrow> page_set_id \<Rightarrow> nat \<Rightarrow> nat \<Rightarrow> 'p page_sets \<Rightarrow> 'p feeding option \<times> 'p page_sets" where
  "createFeedingAnonymousPageSet pins pageSetID readers feeders T =
     (case map_of T pageSetID of
        Some (FeedSet F) \<Rightarrow> (Some F, T)
      | Some (AnonSet _) \<Rightarrow> (None, T)
      | None \<Rightarrow> (Some (FeedingPageSet_new readers feeders pins), map_put pageSetID (FeedSet (FeedingPageSet_new readers feeders pins)) T))"

definition getPageSet :: "page_set_id \<Rightarrow> 'p page_sets \<Rightarrow> 'p page_set option" where
  "getPageSet pageSetID T = map_of T pageSetID"

definition removePageSet :: "page_set_id \<Rightarrow> 'p page_sets \<Rightarrow> bool \<times> 'p page_sets" where
  "removePageSet pageSetID T = (map_of T pageSetID \<noteq> None, map_erase pageSetID T)"

definition handlePageSet :: "page_set_id \<Rightarrow> 'p page_sets \<Rightarrow> (bool \<times> string) \<times> 'p page_sets" where
  "handlePageSet pageSetID T = (case removePageSet pageSetID T of (success, T1) \<Rightarrow> ((success, if success then '''' else ''Could not find the tuple set''), T1))"

section \<open>Feeding a page set\<close>

text \<open>What arrives from the other node: a page, the end, or nothing; for a page, whether the front end forwards it.\<close>

datatype 'p feed_msg = FeedPage 'p bool | FeedEnd

text \<open>The loop: success and the page set; a list that ends is a connection that breaks.\<close>

fun feed_loop :: "'p feed_msg list \<Rightarrow> 'p feeding \<Rightarrow> (bool \<times> 'p feeding) result" where
  "feed_loop [] F = Inr (False, F)"
| "feed_loop (FeedEnd # ms) F = Inr (True, F)"
| "feed_loop (FeedPage p forwarded # ms) F =
     (if \<not> forwarded then Inr (False, F)
      else andThen (feedPage p (F\<lparr>pinned := (pinned F)(p := False)\<rparr>)) (feed_loop ms))"

definition handleStartFeedingPageSetRequest :: "('p \<Rightarrow> bool) \<Rightarrow> page_set_id \<Rightarrow> nat \<Rightarrow> nat \<Rightarrow> bool \<Rightarrow> 'p feed_msg list \<Rightarrow> 'p page_sets \<Rightarrow> (bool \<times> 'p page_sets) result" where
  "handleStartFeedingPageSetRequest pins pageSetID readers feeders acknowledged ms T =
     (case createFeedingAnonymousPageSet pins pageSetID readers feeders T of
        (None, T1) \<Rightarrow>
          (case ms of
             FeedPage p True # _ \<Rightarrow> if acknowledged then Inl (Undefined ''feedPage on null'') else Inr (False, T1)
           | FeedEnd # _ \<Rightarrow> Inr (acknowledged, T1)
           | _ \<Rightarrow> Inr (False, T1))
      | (Some F, T1) \<Rightarrow>
          andThen (if acknowledged then feed_loop ms F else Inr (False, F)) (\<lambda>(success, F1).
            Inr (success, map_put pageSetID (FeedSet (finishFeeding F1)) T1)))"

text \<open>
  The front end relays the pages of another node: what arrives, and whether the signal can be passed on, the page received and forwarded. The
  result has the messages the back end gets. Its answer to the request makes no difference: the flag is overwritten
  by the outcome of the reply to the other node.
\<close>

datatype 'p feed_in = NextPage 'p | NoMorePages

fun relay_loop :: "('p feed_in \<times> bool \<times> bool \<times> bool) list \<Rightarrow> bool \<times> 'p feed_msg list" where
  "relay_loop [] = (False, [])"
| "relay_loop ((NoMorePages, signalled, _, _) # ms) = (signalled, if signalled then [FeedEnd] else [])"
| "relay_loop ((NextPage p, signalled, received, forwarded) # ms) =
     (if \<not> signalled then (False, [])
      else if \<not> received \<or> \<not> forwarded then (False, [FeedPage p False])
      else case relay_loop ms of (success, out) \<Rightarrow> (success, FeedPage p True # out))"

definition front_handleStartFeedingPageSetRequest :: "nat \<Rightarrow> (nat \<Rightarrow> bool) \<Rightarrow> bool \<Rightarrow> bool answer \<Rightarrow> bool \<Rightarrow> ('p feed_in \<times> bool \<times> bool \<times> bool) list \<Rightarrow>
    bool \<times> 'p feed_msg list" where
  "front_handleStartFeedingPageSetRequest maxRetries attempt sent ans replied ms =
     (if \<not> list_ex attempt [0..<maxRetries + 1] then (False, [])
      else let success = (if sent then ans = Answer True else False); success = replied
           in if success then relay_loop ms else (False, []))"

lemma relay_all:
  "relay_loop (map (\<lambda>p. (NextPage p, True, True, True)) ps @ [(NoMorePages, True, b, c)]) = (True, map (\<lambda>p. FeedPage p True) ps @ [FeedEnd])"
  by (induction ps) simp_all

text \<open>Removing a page set: the request is passed on and the answer is passed back.\<close>

definition handleRemovePageSet :: "bool \<Rightarrow> bool \<Rightarrow> bool answer \<Rightarrow> bool" where
  "handleRemovePageSet connected sent ans \<longleftrightarrow> connected \<and> sent \<and> ans = Answer True"

text \<open>
  The page the front end forwards, if it arrives, is uncompressed to the page of the set; the test for a page that does not arrive is missing.
\<close>

definition handleStoreOnPage :: "('p \<Rightarrow> 'q) \<Rightarrow> 'p option \<Rightarrow> (bool \<times> 'q) result" where
  "handleStoreOnPage uncompress inPage =
     (case inPage of None \<Rightarrow> Inl (Undefined ''getBytes on null'') | Some bs \<Rightarrow> Inr (True, uncompress bs))"

lemma feed_loop_complete:
  assumes "numFinishedFeeders F < numFeeders F" and "nextPage F + length ps < 2 ^ 64"
    and "\<And>i. nextPage F \<le> i \<Longrightarrow> map_of (f_pages F) i = None" and "map_ok (f_pages F)"
  shows "\<exists>F'. feed_loop (map (\<lambda>p. FeedPage p True) ps @ [FeedEnd]) F = Inr (True, F') \<and> numFinishedFeeders F' = numFinishedFeeders F \<and>
    numFeeders F' = numFeeders F \<and> nextPage F' = nextPage F + length ps \<and> map_ok (f_pages F') \<and>
    (\<forall>i. map_of (f_pages F') i = (if nextPage F \<le> i \<and> i < nextPage F + length ps then Some \<lparr>f_page = ps ! (i - nextPage F), numUsers = 0, timesServed = 0\<rparr>
       else map_of (f_pages F) i))"
  using assms
proof (induction ps arbitrary: F)
  case (Cons p ps)
  let ?n = "nextPage F" and ?info = "\<lparr>f_page = p, numUsers = 0, timesServed = 0\<rparr>"
  let ?F = "F\<lparr>pinned := (pinned F)(p := False), f_pages := map_put ?n ?info (f_pages F), nextPage := ?n + 1\<rparr>"
  have f: "feedPage p (F\<lparr>pinned := (pinned F)(p := False)\<rparr>) = Inr ?F" using Cons.prems by (simp add: feedPage_def)
  have "nextPage ?F \<le> i \<Longrightarrow> map_of (f_pages ?F) i = None" for i using Cons.prems(3,4) by (simp add: map_of_map_put)
  then obtain F' where F': "feed_loop (map (\<lambda>p. FeedPage p True) ps @ [FeedEnd]) ?F = Inr (True, F')" "numFinishedFeeders F' = numFinishedFeeders F"
    "numFeeders F' = numFeeders F" "nextPage F' = ?n + 1 + length ps" "map_ok (f_pages F')"
    "\<And>i. map_of (f_pages F') i = (if ?n + 1 \<le> i \<and> i < ?n + 1 + length ps then Some \<lparr>f_page = ps ! (i - (?n + 1)), numUsers = 0, timesServed = 0\<rparr>
       else map_of (f_pages ?F) i)"
    using Cons.IH [of ?F] Cons.prems by (auto simp: map_ok_put)
  have "map_of (f_pages F') i = (if ?n \<le> i \<and> i < ?n + length (p # ps) then Some \<lparr>f_page = (p # ps) ! (i - ?n), numUsers = 0, timesServed = 0\<rparr>
       else map_of (f_pages F) i)" for i
    using F'(6) [of i] Cons.prems(4) by (cases "i = ?n") (auto simp: map_of_map_put nth_Cons' Suc_diff_Suc)
  then show ?case using f F' by simp
qed auto

section \<open>Materialising a page set\<close>

text \<open>Connecting is tried \<^verbatim>\<open>maxRetries + 2\<close> times.\<close>

definition connects :: "nat \<Rightarrow> (nat \<Rightarrow> bool) \<Rightarrow> bool" where
  "connects maxRetries attempt \<longleftrightarrow> list_ex attempt [0..<maxRetries + 2]"

text \<open>
  What the back end observes for each page: whether a page of the front end arrives and whether the result can be sent. The loop returns its success, the
  pages copied and the messages it has passed to \<^verbatim>\<open>sendObject\<close>, the last of them perhaps in vain.
\<close>

fun materialize_pages :: "('s \<Rightarrow> ('p option \<times> 's) result) \<Rightarrow> ('p \<Rightarrow> nat) \<Rightarrow> nat \<Rightarrow> nat \<Rightarrow> (nat \<Rightarrow> bool \<times> bool) \<Rightarrow> 's \<Rightarrow>
    (bool \<times> 'p list \<times> (bool \<times> nat \<times> bool) list) result" where
  "materialize_pages nextp psize numPages 0 net S = Inr (True, [], [])"
| "materialize_pages nextp psize numPages (Suc n) net S =
     andThen (nextp S) (\<lambda>(page, S1).
       case page of
         None \<Rightarrow> Inl (Undefined ''repin on null'')
       | Some p \<Rightarrow>
           let i = numPages - Suc n; materializeResult = (True, psize p, i + 1 < numPages)
           in if \<not> fst (net i) then Inr (False, [], [])
              else if \<not> snd (net i) then Inr (False, [p], [materializeResult])
              else andThen (materialize_pages nextp psize numPages n net S1) (\<lambda>(success, ps, msgs).
                     Inr (success, p # ps, materializeResult # msgs)))"

record mat_net =
  mn_connect :: "nat \<Rightarrow> bool"
  mn_requested :: bool
  mn_ack :: "bool answer"
  mn_page :: "nat \<Rightarrow> bool \<times> bool"

text \<open>The messages are \<open>None\<close> when the front end was not asked.\<close>

definition materializePageSet :: "('s \<Rightarrow> ('p option \<times> 's) result) \<Rightarrow> ('p \<Rightarrow> nat) \<Rightarrow> nat \<Rightarrow> mat_net \<Rightarrow> nat \<Rightarrow> 's \<Rightarrow>
    (bool \<times> 'p list \<times> (bool \<times> nat \<times> bool) list option) result" where
  "materializePageSet nextp psize maxRetries N numPages S =
     (if numPages = 0 then Inr (True, [], None)
      else if \<not> connects maxRetries (mn_connect N) then Inr (False, [], None)
      else if \<not> mn_requested N then Inr (False, [], None)
      else if mn_ack N \<noteq> Answer True then Inr (False, [], None)
      else andThen (materialize_pages nextp psize numPages numPages (mn_page N) S) (\<lambda>(success, ps, msgs). Inr (success, ps, Some msgs)))"

text \<open>The loop of the back end, over any source of pages.\<close>

context page_source
begin

lemma materialize_pages_ok:
  assumes "ok S" and "rest S = ps" and "length ps \<le> numPages"
  shows "\<exists>success qs. materialize_pages nextp psize numPages (length ps) net S =
      Inr (success, take qs ps, map (\<lambda>i. (True, psize (ps ! i), numPages - length ps + i + 1 < numPages)) [0..<qs]) \<and> qs \<le> length ps \<and>
    (success \<longleftrightarrow> (\<forall>i. numPages - length ps \<le> i \<and> i < numPages \<longrightarrow> net i = (True, True))) \<and> (success \<longrightarrow> qs = length ps)"
  using assms
proof (induction ps arbitrary: S)
  case (Cons p ps)
  obtain S1 where nx: "nextp S = Inr (Some p, S1)" "rest S1 = ps" "ok S1" using next_some [OF Cons.prems(1,2)] by blast
  let ?i = "numPages - length (p # ps)"
  have i: "?i < numPages" "Suc ?i = numPages - length ps" using Cons.prems(3) by auto
  have idx: "?i \<le> j \<longleftrightarrow> j = ?i \<or> numPages - length ps \<le> j" for j using i by auto
  consider "\<not> fst (net ?i)" | "fst (net ?i)" "\<not> snd (net ?i)" | "net ?i = (True, True)" by (metis prod.collapse)
  then show ?case
  proof cases
    case 3
    obtain success qs where IH: "materialize_pages nextp psize numPages (length ps) net S1 =
        Inr (success, take qs ps, map (\<lambda>i. (True, psize (ps ! i), numPages - length ps + i + 1 < numPages)) [0..<qs])" "qs \<le> length ps"
      "success \<longleftrightarrow> (\<forall>i. numPages - length ps \<le> i \<and> i < numPages \<longrightarrow> net i = (True, True))" "success \<longrightarrow> qs = length ps"
      using Cons.IH [OF nx(3,2)] Cons.prems(3) by auto
    have "map (\<lambda>j. (True, psize ((p # ps) ! j), ?i + j + 1 < numPages)) [0..<Suc qs] =
        (True, psize p, ?i + 1 < numPages) # map (\<lambda>j. (True, psize (ps ! j), numPages - length ps + j + 1 < numPages)) [0..<qs]"
      using i(2) by (simp add: upt_conv_Cons map_Suc_upt [symmetric] del: upt_Suc)
    then show ?thesis using nx(1) IH 3 unfolding idx by (intro exI [of _ success] exI [of _ "Suc qs"]) (auto simp: Let_def)
  next
    case 1
    then show ?thesis using nx(1) i by (intro exI [of _ False] exI [of _ 0]) (auto simp: Let_def intro!: exI [of _ ?i])
  next
    case 2
    then show ?thesis using nx(1) i by (intro exI [of _ False] exI [of _ "Suc 0"]) (auto simp: Let_def intro!: exI [of _ ?i])
  qed
qed (auto intro!: exI [of _ True])

end

text \<open>
  What the front end observes has causes: the answer it gets for a page is the message the back end has sent for that page. An answer can get lost, a page can arrive although
  forwarding it seemed to fail; the observations of the two processes are not related otherwise.
\<close>

definition explained :: "(bool \<times> 'm answer) list \<Rightarrow> 'm list \<Rightarrow> bool" where
  "explained evs msgs \<longleftrightarrow> (\<forall>i < length evs. \<forall>m. snd (evs ! i) = Answer m \<longrightarrow> i < length msgs \<and> m = msgs ! i)"

lemma explainedD: "explained evs msgs \<Longrightarrow> i < length evs \<Longrightarrow> snd (evs ! i) = Answer m \<Longrightarrow> i < length msgs \<and> m = msgs ! i"
  by (simp add: explained_def)

text \<open>A page counts for the front end if it was forwarded and answered.\<close>

definition reported :: "(bool \<times> 'm answer) \<Rightarrow> bool" where
  "reported ev \<longleftrightarrow> fst ev \<and> snd ev \<noteq> NoAnswer"

lemma materialize_loop_ok:
  assumes "ps \<noteq> []" and "length ps \<le> length evs" and "explained evs (map (\<lambda>i. (True, psize (ps ! i), i + 1 < length ps)) [0..<qs])" and "qs \<le> length ps"
    and "sto_inv (T, ws, cs)" and "pages_below b s T" and "b + length ps + 1 < 2 ^ 64" and "tot < 2 ^ 64"
  shows "\<exists>nums total T'. materialize_loop pick True s evs tot T = Inr (length nums = length ps, total, zip nums (map psize ps), T') \<and>
    length nums \<le> qs \<and> (length nums = length ps \<longleftrightarrow> (\<forall>i < length ps. reported (evs ! i))) \<and>
    total = (tot + sum_list (map psize (take (length nums) ps))) mod 2 ^ 64 \<and> marks T' = marks T \<and> set nums \<inter> set (writing s ws) = {} \<and>
    sto_inv (T', ws, rev (map (\<lambda>(num, p). (s, num, psize p)) (zip nums ps)) @ cs)"
  using assms
proof (induction ps arbitrary: evs T cs b tot qs)
  case (Cons p ps)
  obtain f ans evs' where evs: "evs = (f, ans) # evs'" using Cons.prems(2) by (cases evs) auto
  have room: "room_in s T" using pages_below_room [OF Cons.prems(6)] Cons.prems(7) by simp
  obtain num T1 where b: "mat_begin pick True s T = Inr (num, T1)" "sto_inv (T1, \<lparr>w_set = s, w_page = num, w_bytes = 0\<rparr> # ws, cs)"
    "marks T1 = (marks T)(s := insert num (marks T s))"
    using mat_begin_ok [OF Cons.prems(5) room] by blast
  let ?w = "\<lparr>w_set = s, w_page = num, w_bytes = 0\<rparr>"
  have fresh: "num \<notin> set (writing s ws)" using books_distinct [OF sto_inv_books [OF b(2)], of s] by auto
  then have unm: "(marks T1)(s := marks T1 s - {num}) = marks T" using sto_inv_books [OF Cons.prems(5), of s] b(3) by (auto simp: set_books_def fun_eq_iff)
  have fail: "sto_inv (mat_fail s num T1, ws, cs)" "marks (mat_fail s num T1) = marks T"
    using free_ok [OF b(2), of ?w] b(2) unm by (auto simp: mat_fail_def sto_inv_def)
  show ?case
  proof (cases "reported (f, ans)")
    case False
    then have "materialize_loop pick True s evs tot T = Inr (False, tot, [], mat_fail s num T1)" using evs b(1) by (auto simp: reported_def split: answer.splits)
    moreover have "\<not> (\<forall>i < length (p # ps). reported (evs ! i))" using False evs by (metis length_greater_0_conv list.distinct(1) nth_Cons_0)
    ultimately show ?thesis using fail Cons.prems(8) by (intro exI [of _ "[]"] exI [of _ tot] exI [of _ "mat_fail s num T1"]) simp
  next
    case True
    then obtain m where m: "ans = Answer m" "f" by (cases ans) (auto simp: reported_def)
    have "0 < qs \<and> m = map (\<lambda>i. (True, psize ((p # ps) ! i), i + 1 < length (p # ps))) [0..<qs] ! 0"
      using explainedD [OF Cons.prems(3), of 0 m] m evs by simp
    then have q: "0 < qs" and ans: "ans = Answer (True, psize p, ps \<noteq> [])" using m by auto
    obtain T2 where d: "mat_done s num (psize p) T1 = Inr T2" "sto_inv (T2, ws, (s, num, psize p) # cs)" "marks T2 = marks T"
      using mat_done_ok [OF b(2), of ?w "psize p"] unm by auto
    have bel: "pages_below (Suc b) s T2"
      using mat_begin_below [OF Cons.prems(5) room Cons.prems(6) b(1)] mat_done_below [OF _ d(1)] b(2) by (simp add: sto_inv_def)
    show ?thesis
    proof (cases "ps = []")
      case nil: True
      then show ?thesis using evs ans m b(1) d q True fresh
        by (intro exI [of _ "[num]"] exI [of _ "(tot + psize p) mod 2 ^ 64"] exI [of _ T2]) simp
    next
      case ne: False
      have ex: "explained evs' (map (\<lambda>i. (True, psize (ps ! i), i + 1 < length ps)) [0..<qs - 1])"
        unfolding explained_def
      proof (intro allI impI)
        fix i m assume im: "i < length evs'" "snd (evs' ! i) = Answer m"
        then have "Suc i < qs \<and> m = map (\<lambda>i. (True, psize ((p # ps) ! i), i + 1 < length (p # ps))) [0..<qs] ! Suc i"
          using explainedD [OF Cons.prems(3), of "Suc i" m] evs by simp
        then show "i < length (map (\<lambda>i. (True, psize (ps ! i), i + 1 < length ps)) [0..<qs - 1]) \<and> m = map (\<lambda>i. (True, psize (ps ! i), i + 1 < length ps)) [0..<qs - 1] ! i"
          by auto
      qed
      have len: "length ps \<le> length evs'" "qs - 1 \<le> length ps" "Suc b + length ps + 1 < 2 ^ 64" "(tot + psize p) mod 2 ^ 64 < 2 ^ 64"
        using Cons.prems(2,4,7) evs by auto
      obtain nums total T' where IH: "materialize_loop pick True s evs' ((tot + psize p) mod 2 ^ 64) T2 = Inr (length nums = length ps, total, zip nums (map psize ps), T')"
        "length nums \<le> qs - 1" "length nums = length ps \<longleftrightarrow> (\<forall>i < length ps. reported (evs' ! i))"
        "total = ((tot + psize p) mod 2 ^ 64 + sum_list (map psize (take (length nums) ps))) mod 2 ^ 64" "marks T' = marks T2" "set nums \<inter> set (writing s ws) = {}"
        "sto_inv (T', ws, rev (map (\<lambda>(num, p). (s, num, psize p)) (zip nums ps)) @ (s, num, psize p) # cs)"
        using Cons.IH [OF ne len(1) ex len(2) d(2) bel len(3,4)] by blast
      have "(\<forall>i < length (p # ps). reported (evs ! i)) \<longleftrightarrow> (\<forall>i < length ps. reported (evs' ! i))" using True evs by (auto simp: less_Suc_eq_0_disj)
      moreover have "total = (tot + sum_list (map psize (take (length (num # nums)) (p # ps)))) mod 2 ^ 64" using IH(4) by (simp add: mod_simps ac_simps)
      ultimately show ?thesis using IH(1-3,5-7) evs ans m(2) ne b(1) d(1,3) q fresh
        by (intro exI [of _ "num # nums"] exI [of _ total] exI [of _ T']) auto
    qed
  qed
qed simp

lemma stored_pages_append: "stored_pages s (xs @ ys) = stored_pages s xs @ stored_pages s ys"
  by (simp add: stored_pages_def)

lemma stored_pages_new: "length nums \<le> length ps \<Longrightarrow> stored_pages s (rev (map (\<lambda>(num, p). (s, num, f p)) (zip nums ps))) = rev nums"
proof (induction nums arbitrary: ps)
  case (Cons num nums)
  then obtain p ps' where "ps = p # ps'" by (cases ps) auto
  with Cons show ?case by (simp add: stored_pages_append)
qed simp

text \<open>
  C13: Materialising a page set that is not empty, when the back end reaches the front end and its request is acknowledged. The back end copies a prefix of the pages, in order, and succeeds exactly if
  every page arrived and every result could be sent; then it has copied all of them. Whatever the front end observes meanwhile, as long as the answers it gets are
  messages that the back end has sent for the same pages and no other handler runs: its handler returns; the pages it counts were copied, each to a page of its own, which no reader saw and no handler had, and are
  frozen to their sizes; readers see the old pages and those; the catalog is told the sum of their sizes. It succeeds exactly if every page was
  forwarded and answered and the catalog has recorded the size; then all pages of the page set were copied and counted. (A dereferenced \<^verbatim>\<open>end()\<close>
  of \<^verbatim>\<open>freeSkippedPages\<close> is read as an empty set.)
\<close>

theorem materialized_set_complete:
  assumes "sto_reachable pick True (T, ws, us, cs)" and "map_ok (ap_pages A)" and "ap_pages A \<noteq> []" and "pages_below b s T"
    and "b + AnonPageSet_getNumPages A + 1 < 2 ^ 64" and "connects maxRetries (mn_connect N)" and "mn_requested N" and "mn_ack N = Answer True"
  shows "\<exists>bsuccess ps msgs.
    materializePageSet (AnonPageSet_getNextPage 0) psize maxRetries N (AnonPageSet_getNumPages A) (AnonPageSet_resetPageSet A) = Inr (bsuccess, ps, Some msgs) \<and>
    (bsuccess \<longleftrightarrow> (\<forall>i < AnonPageSet_getNumPages A. mn_page N i = (True, True))) \<and>
    ps = take (length ps) (map snd (ap_pages A)) \<and> (bsuccess \<longrightarrow> ps = map snd (ap_pages A)) \<and>
    (\<forall>evs. AnonPageSet_getNumPages A \<le> length evs \<and> explained evs msgs \<longrightarrow>
      (\<exists>fsuccess total T' nums old.
        handleMaterializeSet pick True exists recorded s evs T =
          Inr (fsuccess \<and> recorded total, if fsuccess \<or> total \<noteq> 0 then Some total else None, zip nums (map psize ps), T') \<and>
        length nums \<le> length ps \<and> total = sum_list (map psize (take (length nums) ps)) mod 2 ^ 64 \<and>
        (fsuccess \<longrightarrow> ps = map snd (ap_pages A) \<and> length nums = length ps) \<and>
        (fsuccess \<longleftrightarrow> (\<forall>i < AnonPageSet_getNumPages A. fst (evs ! i) \<and> snd (evs ! i) \<noteq> NoAnswer)) \<and>
        map_option set (handleGetSetPages True s T) = Some old \<and> distinct nums \<and> set nums \<inter> (old \<union> set (writing s ws)) = {} \<and>
        map_option set (handleGetSetPages True s T') = Some (set nums \<union> old)))"
proof -
  let ?n = "AnonPageSet_getNumPages A" and ?ps = "map snd (ap_pages A)"
  have n: "length ?ps = ?n" "?ps \<noteq> []" "?n \<noteq> 0" using assms(3) by (auto simp: AnonPageSet_getNumPages_def)
  have inv: "sto_inv (T, ws, cs)" using assms(1) by (rule sto_reachable_inv)
  obtain success qs where m: "materialize_pages (AnonPageSet_getNextPage 0) psize ?n ?n (mn_page N) (AnonPageSet_resetPageSet A) =
      Inr (success, take qs ?ps, map (\<lambda>i. (True, psize (?ps ! i), i + 1 < ?n)) [0..<qs])" "qs \<le> ?n"
    "success \<longleftrightarrow> (\<forall>i < ?n. mn_page N i = (True, True))" "success \<longrightarrow> qs = ?n"
    using anonymous.materialize_pages_ok [OF anonymous_rest_all(1) [OF assms(2)] anonymous_rest_all(2) [OF assms(2)], of ?n 0 psize "mn_page N"] n(1) by auto
  let ?msgs = "map (\<lambda>i. (True, psize (?ps ! i), i + 1 < length ?ps)) [0..<qs]"
  have front: "\<exists>fsuccess total T' nums old.
        handleMaterializeSet pick True exists recorded s evs T =
          Inr (fsuccess \<and> recorded total, if fsuccess \<or> total \<noteq> 0 then Some total else None, zip nums (map psize (take qs ?ps)), T') \<and>
        length nums \<le> qs \<and> total = sum_list (map psize (take (length nums) (take qs ?ps))) mod 2 ^ 64 \<and>
        (fsuccess \<longrightarrow> take qs ?ps = ?ps \<and> length nums = qs) \<and>
        (fsuccess \<longleftrightarrow> (\<forall>i < ?n. fst (evs ! i) \<and> snd (evs ! i) \<noteq> NoAnswer)) \<and>
        map_option set (handleGetSetPages True s T) = Some old \<and> distinct nums \<and> set nums \<inter> (old \<union> set (writing s ws)) = {} \<and>
        map_option set (handleGetSetPages True s T') = Some (set nums \<union> old)" if evs: "?n \<le> length evs" "explained evs ?msgs" for evs
  proof -
    have le: "length ?ps \<le> length evs" "qs \<le> length ?ps" "b + length ?ps + 1 < 2 ^ 64" "(0::nat) < 2 ^ 64" using n(1) m(2) evs(1) assms(5) by auto
    obtain nums total T' where j: "materialize_loop pick True s evs 0 T = Inr (length nums = length ?ps, total, zip nums (map psize ?ps), T')"
      "length nums \<le> qs" "length nums = length ?ps \<longleftrightarrow> (\<forall>i < length ?ps. reported (evs ! i))"
      "total = (0 + sum_list (map psize (take (length nums) ?ps))) mod 2 ^ 64" "marks T' = marks T" "set nums \<inter> set (writing s ws) = {}"
      "sto_inv (T', ws, rev (map (\<lambda>(num, p). (s, num, psize p)) (zip nums ?ps)) @ cs)"
      using materialize_loop_ok [OF n(2) le(1) evs(2) le(2) inv assms(4) le(3,4), of pick] by blast
    have new: "stored_pages s (rev (map (\<lambda>(num, p). (s, num, psize p)) (zip nums ?ps)) @ cs) = rev nums @ stored_pages s cs"
      using stored_pages_new [of nums ?ps s psize] j(2) le(2) by (simp add: stored_pages_append)
    let ?old = "set (stored_pages s cs) \<union> unmarked s T ws"
    have d: "distinct nums" "set nums \<inter> set (stored_pages s cs) = {}" using books_distinct [OF sto_inv_books [OF j(7)], of s] unfolding new by auto
    have fresh: "set nums \<inter> (?old \<union> set (writing s ws)) = {}" using d(2) j(6) by (auto simp: unmarked_def)
    have seen: "map_option set (handleGetSetPages True s T') = Some (set nums \<union> ?old)"
      using getSetPages_stored [OF j(7), of s] j(5) unfolding new by (simp add: unmarked_def Un_assoc)
    have pre: "zip nums (map psize ?ps) = zip nums (map psize (take qs ?ps))" "take (length nums) (take qs ?ps) = take (length nums) ?ps"
      using j(2) le(2) by (auto simp: list_eq_iff_nth_eq take_map [symmetric])
    have handled: "handleMaterializeSet pick True exists recorded s evs T = Inr ((length nums = length ?ps) \<and> recorded total,
        if length nums = length ?ps \<or> total \<noteq> 0 then Some total else None, zip nums (map psize (take qs ?ps)), T')"
      using j(1) unfolding pre(1) by (simp add: handleMaterializeSet_def)
    have succ: "length nums = length ?ps \<longleftrightarrow> (\<forall>i < ?n. fst (evs ! i) \<and> snd (evs ! i) \<noteq> NoAnswer)"
      using j(3) unfolding reported_def n(1) .
    have all: "length nums = length ?ps \<longrightarrow> take qs ?ps = ?ps \<and> length nums = qs" using j(2) le(2) by auto
    have total: "total = sum_list (map psize (take (length nums) (take qs ?ps))) mod 2 ^ 64" using j(4) unfolding pre(2) by simp
    show ?thesis
      by (intro exI [of _ "length nums = length ?ps"] exI [of _ total] exI [of _ T'] exI [of _ nums] exI [of _ ?old] conjI handled j(2) total all succ
          getSetPages_stored [OF inv] d(1) fresh seen)
  qed
  have run: "materializePageSet (AnonPageSet_getNextPage 0) psize maxRetries N ?n (AnonPageSet_resetPageSet A) = Inr (success, take qs ?ps, Some ?msgs)"
    using m(1) n(1) assms(6-8) n(3) by (simp add: materializePageSet_def)
  have len: "length (take qs ?ps) = qs" "take qs ?ps = take (length (take qs ?ps)) ?ps" "success \<longrightarrow> take qs ?ps = ?ps" using m(2,4) n(1) by auto
  show ?thesis
    by (intro exI [of _ success] exI [of _ "take qs ?ps"] exI [of _ ?msgs] conjI run m(3) len(2,3)) (use front in \<open>unfold len(1), blast\<close>)
qed

definition mat_demo :: "nat anon_page_set" where
  "mat_demo = AnonPageSet_getNewPage 7 70 (AnonPageSet_getNewPage 3 30 AnonPageSet_new)"

lemma all_of_result:
  "\<exists>a b c. x = Inr (a, b, Some c) \<and> A a \<and> B b \<and> C a b \<and> (\<forall>e. P e c \<longrightarrow> Q e a b c) \<Longrightarrow> x = Inr (a', b', Some c') \<Longrightarrow> P e c' \<Longrightarrow> Q e a' b' c'"
  by auto

text \<open>Two pages; the result of the second one gets lost: the back end has copied both, the front end has stored and frozen the first one.\<close>

theorem materialized_set_complete_witness:
  "let N = \<lparr>mn_connect = \<lambda>i. i = 1, mn_requested = True, mn_ack = Answer True, mn_page = \<lambda>i. (True, i = 0)\<rparr> in
   materializePageSet (AnonPageSet_getNextPage 0) id 3 N (AnonPageSet_getNumPages mat_demo) (AnonPageSet_resetPageSet mat_demo) =
     Inr (False, [30, 70], Some [(True, 30, True), (True, 70, False)]) \<and>
   (\<exists>total T' nums.
    handleMaterializeSet (\<lambda>_. 0) True True (\<lambda>_. True) demo_set [(True, Answer (True, 30, True)), (True, NoAnswer)] (demo_storage 150 1 [1] []) =
      Inr (False, total, zip nums [30, 70], T') \<and> map_option set (handleGetSetPages True demo_set T') = Some (set nums \<union> {0}))"
proof -
  let ?N = "\<lparr>mn_connect = \<lambda>i. i = 1, mn_requested = True, mn_ack = Answer True, mn_page = \<lambda>i. (True, i = 0)\<rparr> :: mat_net"
  let ?evs = "[(True, Answer (True, 30, True)), (True, NoAnswer)] :: (bool \<times> (bool \<times> nat \<times> bool) answer) list"
  have pages: "ap_pages mat_demo = [(3, 30), (7, 70)]"
    by (simp add: mat_demo_def AnonPageSet_getNewPage_def AnonPageSet_new_def)
  have a: "map_ok (ap_pages mat_demo)" "ap_pages mat_demo \<noteq> []" "AnonPageSet_getNumPages mat_demo = 2"
    by (simp_all add: pages map_ok_def AnonPageSet_getNumPages_def)
  have b: "pages_below 2 demo_set (demo_storage 150 1 [1] [])" by (simp add: pages_below_def demo_storage_def)
  have c: "connects 3 (mn_connect ?N)" by (simp add: connects_def eval_nat_numeral)
  have e: "mn_requested ?N" "mn_ack ?N = Answer True" by simp_all
  have d: "2 + AnonPageSet_getNumPages mat_demo + 1 < 2 ^ 64" by (simp add: a(3))
  have ex: "explained ?evs [(True, 30, True), (True, 70, False)]" by (auto simp: explained_def less_Suc_eq)
  have demo: "map_option set (handleGetSetPages True demo_set (demo_storage 150 1 [1] [])) = Some {0}"
    by (auto simp: handleGetSetPages_def demo_storage_def page_valid_def pageExists_def isPageBeingWrittenTo_def isPageFree_def)
  have run: "materializePageSet (AnonPageSet_getNextPage 0) id 3 ?N (AnonPageSet_getNumPages mat_demo) (AnonPageSet_resetPageSet mat_demo) =
     Inr (False, [30, 70], Some [(True, 30, True), (True, 70, False)])"
    using c unfolding a(3) by (simp add: materializePageSet_def numeral_2_eq_2 AnonPageSet_resetPageSet_def AnonPageSet_getNextPage_def pages mat_demo_def
        AnonPageSet_getNewPage_def AnonPageSet_new_def map_begin_def)
  note q = all_of_result [OF materialized_set_complete [OF storage_demo_reachable(2) a(1,2) b d c e, where pick = "\<lambda>_. 0" and psize = id and exists = True
      and recorded = "\<lambda>_. True"] run conjI [OF _ ex], unfolded a(3)]
  have "2 \<le> length ?evs" by simp
  then obtain fsuccess total T' nums old where r: "handleMaterializeSet (\<lambda>_. 0) True True (\<lambda>_. True) demo_set ?evs (demo_storage 150 1 [1] []) =
      Inr (fsuccess \<and> True, if fsuccess \<or> total \<noteq> 0 then Some total else None, zip nums (map id [30, 70]), T')"
    "fsuccess \<longleftrightarrow> (\<forall>i < 2. fst (?evs ! i) \<and> snd (?evs ! i) \<noteq> NoAnswer)"
    "map_option set (handleGetSetPages True demo_set (demo_storage 150 1 [1] [])) = Some old"
    "map_option set (handleGetSetPages True demo_set T') = Some (set nums \<union> old)"
    using q by blast
  have "old = {0}" using trans [OF r(3) [symmetric] demo] by (rule option.inject [THEN iffD1])
  from r(2) have "\<not> fsuccess" by (auto intro!: exI [of _ 1])
  then show ?thesis unfolding Let_def using run r(1,4) \<open>old = {0}\<close> by auto
qed

text \<open>
  C15: A node that feeds a page set through the front end and says when it is done: when the network delivers, the handlers of the two processes feed every page, in
  order, after those that are there, count the feeder as finished and report success.
\<close>

theorem feeding_request_feeds_all:
  assumes "map_ok T" and "map_of T pageSetID = Some (FeedSet F)" and "numFinishedFeeders F < numFeeders F" and "numFeeders F < 2 ^ 64"
    and "nextPage F + length ps < 2 ^ 64" and "\<And>i. nextPage F \<le> i \<Longrightarrow> map_of (f_pages F) i = None" and "map_ok (f_pages F)"
    and "list_ex attempt [0..<maxRetries + 1]"
  shows "\<exists>ms T' F'.
    front_handleStartFeedingPageSetRequest maxRetries attempt True (Answer True) True (map (\<lambda>p. (NextPage p, True, True, True)) ps @ [(NoMorePages, True, x, y)]) = (True, ms) \<and>
    handleStartFeedingPageSetRequest pins pageSetID readers feeders True ms T = Inr (True, T') \<and>
    getPageSet pageSetID T' = Some (FeedSet F') \<and> numFinishedFeeders F' = numFinishedFeeders F + 1 \<and> nextPage F' = nextPage F + length ps \<and>
    (\<forall>i < length ps. map_option f_page (map_of (f_pages F') (nextPage F + i)) = Some (ps ! i)) \<and>
    (\<forall>i < nextPage F. map_of (f_pages F') i = map_of (f_pages F) i)"
proof -
  let ?ms = "map (\<lambda>p. FeedPage p True) ps @ [FeedEnd]"
  obtain F' where F': "feed_loop ?ms F = Inr (True, F')" "numFinishedFeeders F' = numFinishedFeeders F" "nextPage F' = nextPage F + length ps"
    "\<And>i. map_of (f_pages F') i = (if nextPage F \<le> i \<and> i < nextPage F + length ps then Some \<lparr>f_page = ps ! (i - nextPage F), numUsers = 0, timesServed = 0\<rparr>
       else map_of (f_pages F) i)"
    using feed_loop_complete [OF assms(3,5,6,7)] by blast
  have "handleStartFeedingPageSetRequest pins pageSetID readers feeders True ?ms T = Inr (True, map_put pageSetID (FeedSet (finishFeeding F')) T)"
    using assms(2) F'(1) by (simp add: handleStartFeedingPageSetRequest_def createFeedingAnonymousPageSet_def)
  moreover have "front_handleStartFeedingPageSetRequest maxRetries attempt True (Answer True) True
      (map (\<lambda>p. (NextPage p, True, True, True)) ps @ [(NoMorePages, True, x, y)]) = (True, ?ms)"
    unfolding front_handleStartFeedingPageSetRequest_def using assms(8) relay_all [of ps x y] by simp
  moreover have "numFinishedFeeders F + 1 < 2 ^ 64" using assms(3,4) by simp
  ultimately show ?thesis
    using F' assms(1) by (intro exI [of _ ?ms]) (auto simp: getPageSet_def map_of_map_put finishFeeding_def)
qed

theorem feeding_request_feeds_all_witness:
  "let T = [((1, ''out''), FeedSet (FeedingPageSet_new 2 2 (\<lambda>_. False)))] :: nat page_sets in
   \<exists>ms T' F'. front_handleStartFeedingPageSetRequest 5 (\<lambda>i. i = 2) True (Answer True) True
      [(NextPage 50, True, True, True), (NextPage 60, True, True, True), (NoMorePages, True, False, False)] = (True, ms) \<and>
    handleStartFeedingPageSetRequest (\<lambda>_. False) (1, ''out'') 2 2 True ms T = Inr (True, T') \<and>
    getPageSet (1, ''out'') T' = Some (FeedSet F') \<and> numFinishedFeeders F' = 1 \<and> map_option f_page (map_of (f_pages F') 1) = Some 60"
proof -
  let ?F = "FeedingPageSet_new 2 2 (\<lambda>_. False) :: nat feeding"
  let ?T = "[((1, ''out''), FeedSet ?F)] :: nat page_sets"
  have T: "map_ok ?T" "map_of ?T (1, ''out'') = Some (FeedSet ?F)" by (simp_all add: map_ok_def)
  have F: "numFinishedFeeders ?F < numFeeders ?F" "numFeeders ?F < 2 ^ 64" "nextPage ?F + length [50, 60 :: nat] < 2 ^ 64"
    "\<And>i. nextPage ?F \<le> i \<Longrightarrow> map_of (f_pages ?F) i = None" "map_ok (f_pages ?F)" by (simp_all add: FeedingPageSet_new_def)
  have c: "list_ex (\<lambda>i. i = 2) [0..<5 + 1]" by (simp add: list_ex_iff)
  obtain ms T' F' where r: "front_handleStartFeedingPageSetRequest 5 (\<lambda>i. i = 2) True (Answer True) True
      (map (\<lambda>p. (NextPage p, True, True, True)) [50, 60] @ [(NoMorePages, True, False, False)]) = (True, ms)"
    "handleStartFeedingPageSetRequest (\<lambda>_. False) (1, ''out'') 2 2 True ms ?T = Inr (True, T')" "getPageSet (1, ''out'') T' = Some (FeedSet F')"
    "numFinishedFeeders F' = numFinishedFeeders ?F + 1"
    "\<forall>i < length [50, 60 :: nat]. map_option f_page (map_of (f_pages F') (nextPage ?F + i)) = Some ([50, 60] ! i)"
    using feeding_request_feeds_all [OF T F c, of False False "\<lambda>_. False" 2 2] by blast
  moreover from r(5) have "map_option f_page (map_of (f_pages F') 1) = Some 60" by (auto dest: spec [of _ 1] simp: FeedingPageSet_new_def)
  ultimately show ?thesis by (auto simp: Let_def FeedingPageSet_new_def)
qed

end
