(* ===== verification/Aggregation.thy ===== *)
theory Aggregation
  imports PipelineRun PairArray
begin

text \<open>
  Distributed aggregation: \<^verbatim>\<open>pipeline/headers/sinks/PreaggregationSink.h\<close>, \<^verbatim>\<open>processors/PreaggregationPageProcessor.h\<close>,
  \<^verbatim>\<open>sinks/AggregationCombinerSink.h\<close> and \<^verbatim>\<open>source/pipeline/AggregationPipeline.cc\<close>. A pipeline aggregates its rows into one hash table per
  partition (a pair of node and thread); the page processor gives each node the tables of its threads; there every
  thread merges the tables of its partition. The tables are those of \<open>PairArray\<close>; whether memory suffices is a parameter. The copies of tables the page
  processor makes are taken to fit on a page, where they are faithful (\<open>Map_copy_faithful\<close>).
\<close>

section \<open>Aggregating into a table\<close>

text \<open>
  \<open>g_map i\<close>: the table of partition \<open>i\<close> (0 stands for the vector itself), \<open>g_array\<close>: a doubled array, \<open>g_move i\<close>: whether the record of slot \<open>i\<close> can move to it,
  \<open>g_record\<close>: a new record, \<open>g_value\<close>: assigning a value. A table has at most \<open>2 ^ 30\<close> slots.
\<close>

record ('k, 'v, 'm) agg_memory =
  g_fresh :: 'm
  g_free :: "'m \<Rightarrow> nat"
  g_map :: "nat \<Rightarrow> 'm \<Rightarrow> bool \<times> 'm"
  g_array :: "nat \<Rightarrow> 'm \<Rightarrow> bool \<times> 'm"
  g_move :: "nat \<Rightarrow> 'm \<Rightarrow> bool"
  g_record :: "'k \<Rightarrow> 'm \<Rightarrow> bool \<times> 'm"
  g_value :: "'v \<Rightarrow> 'm \<Rightarrow> bool \<times> 'm"

definition agg_space :: "('k, 'v, 'm) agg_memory \<Rightarrow> ('k, 'v) pair_array \<Rightarrow> 'k \<Rightarrow> 'm \<Rightarrow> pa_space \<times> 'm" where
  "agg_space K a k m =
     (case (if pa_isOverFull a then g_array K (2 * length (slots a)) m else (True, m)) of
        (False, m1) \<Rightarrow> (\<lparr>fitsArr = False, fitsRec = \<lambda>i. g_move K i m1, fitsNew = False\<rparr>, m1)
      | (True, m1) \<Rightarrow>
          (case g_record K k m1 of
             (b, m2) \<Rightarrow> (\<lparr>fitsArr = (2 * length (slots a) \<le> 2 ^ 30), fitsRec = \<lambda>i. g_move K i m1, fitsNew = b\<rparr>, m2)))"

definition slot_value :: "('k, 'v) slot \<Rightarrow> 'v option" where
  "slot_value x = (case x of Free \<Rightarrow> None | Rec h k v \<Rightarrow> Some v)"

text \<open>One row: the key is new, or its value is added to the one that is there.\<close>

definition agg_put :: "('k \<Rightarrow> 64 word) \<Rightarrow> 'v \<Rightarrow> ('k, 'v::plus, 'm) agg_memory \<Rightarrow> 'k \<Rightarrow> 'v \<Rightarrow> ('k, 'v) pair_array \<Rightarrow> 'm \<Rightarrow>
    (flow \<times> ('k, 'v) pair_array \<times> 'm) result" where
  "agg_put hash_impl v0 K k v a m =
     andThen (Map_count hash_impl a k) (\<lambda>c.
       case agg_space K a k m of
         (sp, m1) \<Rightarrow>
           if c = 0
           then (case Map_at hash_impl v0 sp a k of
                   (a1, Inl (Throw _)) \<Rightarrow> Inr (NotEnoughSpace, a1, m1)
                 | (a1, Inl e) \<Rightarrow> Inl e
                 | (a1, Inr s) \<Rightarrow>
                     (case g_value K v m1 of
                        (True, m2) \<Rightarrow> Inr (Returns, set_value s v a1, m2)
                      | (False, m2) \<Rightarrow> andThen (Map_setUnused hash_impl a1 k) (\<lambda>a2. Inr (NotEnoughSpace, a2, m2))))
           else (case Map_at hash_impl v0 sp a k of
                   (a1, Inl e) \<Rightarrow> Inl e
                 | (a1, Inr s) \<Rightarrow>
                     (case slot_value (slots a1 ! s) of
                        None \<Rightarrow> Inl (Undefined ''value of an unused slot'')
                      | Some copy \<Rightarrow>
                          (case g_value K (copy + v) m of
                             (True, m2) \<Rightarrow> Inr (Returns, set_value s (copy + v) a1, m2)
                           | (False, m2) \<Rightarrow> Inr (NotEnoughSpace, a1, m2)))))"

section \<open>The sink\<close>

fun make_maps :: "('k, 'v, 'm) agg_memory \<Rightarrow> nat \<Rightarrow> nat \<Rightarrow> 'm \<Rightarrow> ('k, 'v) pair_array list option \<times> 'm" where
  "make_maps K 0 i m = (Some [], m)"
| "make_maps K (Suc n) i m =
     (case g_map K (Suc i) m of
        (False, m1) \<Rightarrow> (None, m1)
      | (True, m1) \<Rightarrow>
          (case Map_default of
             Inl e \<Rightarrow> (None, m1)
           | Inr a \<Rightarrow> (case make_maps K n (Suc i) m1 of (r, m2) \<Rightarrow> (map_option (\<lambda>as. a # as) r, m2))))"

definition PreaggregationSink_createNewOutputContainer :: "('k, 'v, 'm) agg_memory \<Rightarrow> nat \<Rightarrow> 'm \<Rightarrow> ('k, 'v) pair_array list option \<times> 'm" where
  "PreaggregationSink_createNewOutputContainer K numPartitions m =
     (case g_map K 0 m of (False, m1) \<Rightarrow> (None, m1) | (True, m1) \<Rightarrow> make_maps K numPartitions 0 m1)"

definition partition_of :: "('k \<Rightarrow> 64 word) \<Rightarrow> nat \<Rightarrow> 'k \<Rightarrow> nat" where
  "partition_of hash_impl numPartitions k = unat (Hasher_hash hash_impl k) mod numPartitions"

definition preagg_row :: "('k \<Rightarrow> 64 word) \<Rightarrow> 'v \<Rightarrow> ('k, 'v::plus, 'm) agg_memory \<Rightarrow> ('a \<Rightarrow> 'k) \<Rightarrow> ('a \<Rightarrow> 'v) \<Rightarrow> nat \<Rightarrow> 'a \<Rightarrow>
    ('k, 'v) pair_array list \<Rightarrow> 'm \<Rightarrow> (flow \<times> ('k, 'v) pair_array list \<times> 'm) result" where
  "preagg_row hash_impl v0 K key val numPartitions x c m =
     (if numPartitions = 0 then Inl (Undefined ''remainder by zero'')
      else let i = partition_of hash_impl numPartitions (key x)
           in andThen (vec_at c i) (\<lambda>a.
                andThen (agg_put hash_impl v0 K (key x) (val x) a m) (\<lambda>(fl, a1, m1). Inr (fl, c[i := a1], m1))))"

text \<open>The rows that were processed are erased when memory runs out.\<close>

definition PreaggregationSink_writeOut :: "('k \<Rightarrow> 64 word) \<Rightarrow> 'v \<Rightarrow> ('k, 'v::plus, 'm) agg_memory \<Rightarrow> ('a \<Rightarrow> 'k) \<Rightarrow> ('a \<Rightarrow> 'v) \<Rightarrow> nat \<Rightarrow> 'a list \<Rightarrow>
    ('k, 'v) pair_array list \<Rightarrow> 'm \<Rightarrow> (flow \<times> 'a list \<times> ('k, 'v) pair_array list \<times> 'm) result" where
  "PreaggregationSink_writeOut hash_impl v0 K key val numPartitions input writeToMe m =
     append_all (preagg_row hash_impl v0 K key val numPartitions) input writeToMe m"

text \<open>The page processor keeps no page: what it makes of one is the vector of the tables of each node's threads.\<close>

definition node_maps :: "nat \<Rightarrow> nat \<Rightarrow> 'c list \<Rightarrow> 'c list" where
  "node_maps numThreads node c = map (\<lambda>t. c ! (node * numThreads + t)) [0..<numThreads]"

definition PreaggregationPageProcessor_process :: "nat \<Rightarrow> nat \<Rightarrow> 'c list \<Rightarrow> bool \<times> 'c list list" where
  "PreaggregationPageProcessor_process numNodes numThreads c = (False, map (\<lambda>node. node_maps numThreads node c) [0..<numNodes])"

definition preagg_env :: "('k \<Rightarrow> 64 word) \<Rightarrow> 'v \<Rightarrow> ('k, 'v::plus, 'm) agg_memory \<Rightarrow> ('a \<Rightarrow> 'k) \<Rightarrow> ('a \<Rightarrow> 'v) \<Rightarrow> nat \<Rightarrow> nat \<Rightarrow> ('a, 'm) executor list \<Rightarrow>
    ('a, ('k, 'v) pair_array list, 'm) pipe_env" where
  "preagg_env hash_impl v0 K key val numNodes numThreads stages =
     \<lparr>e_fresh = g_fresh K, e_free = g_free K, e_stages = stages,
      e_create = PreaggregationSink_createNewOutputContainer K (numNodes * numThreads),
      e_write = PreaggregationSink_writeOut hash_impl v0 K key val (numNodes * numThreads),
      e_process = \<lambda>c. fst (PreaggregationPageProcessor_process numNodes numThreads c)\<rparr>"

section \<open>Merging\<close>

text \<open>
  The loop over the records of the table to merge, with the same two cases as \<open>agg_put\<close>; an exception is passed on and with it the
  table is lost, so what \<open>agg_put\<close> does to it then makes no difference.
\<close>

fun merge_records :: "('k \<Rightarrow> 64 word) \<Rightarrow> 'v \<Rightarrow> ('k, 'v::plus, 'm) agg_memory \<Rightarrow> ('k, 'v) slot list \<Rightarrow> ('k, 'v) pair_array \<Rightarrow> 'm \<Rightarrow> (('k, 'v) pair_array \<times> 'm) result" where
  "merge_records hash_impl v0 K [] a m = Inr (a, m)"
| "merge_records hash_impl v0 K (Free # xs) a m = Inl (Undefined ''iterator on an unused slot'')"
| "merge_records hash_impl v0 K (Rec h k v # xs) a m =
     andThen (agg_put hash_impl v0 K k v a m) (\<lambda>(fl, a1, m1).
       case fl of Returns \<Rightarrow> merge_records hash_impl v0 K xs a1 m1 | NotEnoughSpace \<Rightarrow> Inl (Throw ''NotEnoughSpace''))"

definition AggregationCombinerSink_writeOutPage :: "('k \<Rightarrow> 64 word) \<Rightarrow> 'v \<Rightarrow> ('k, 'v::plus, 'm) agg_memory \<Rightarrow> nat \<Rightarrow> ('k, 'v) pair_array list \<Rightarrow>
    ('k, 'v) pair_array \<Rightarrow> 'm \<Rightarrow> (('k, 'v) pair_array \<times> 'm) result" where
  "AggregationCombinerSink_writeOutPage hash_impl v0 K workerID page a m =
     andThen (vec_at page workerID) (\<lambda>mergeMe.
       case it_collect mergeMe (length (slots mergeMe)) (it_begin mergeMe) of
         None \<Rightarrow> Inl (Diverges ''iteration'')
       | Some xs \<Rightarrow> merge_records hash_impl v0 K xs a m)"

fun merge_pages :: "nat \<Rightarrow> ('k \<Rightarrow> 64 word) \<Rightarrow> 'v \<Rightarrow> ('k, 'v::plus, 'm) agg_memory \<Rightarrow> ('s \<Rightarrow> (('k, 'v) pair_array list option \<times> 's) result) \<Rightarrow> nat \<Rightarrow>
    's \<Rightarrow> ('k, 'v) pair_array \<Rightarrow> 'm \<Rightarrow> (('k, 'v) pair_array \<times> 'm) result" where
  "merge_pages 0 hash_impl v0 K nextp workerID S a m = Inl (Diverges ''run'')"
| "merge_pages (Suc n) hash_impl v0 K nextp workerID S a m =
     andThen (nextp S) (\<lambda>(page, S1).
       case page of
         None \<Rightarrow> Inr (a, m)
       | Some c \<Rightarrow>
           andThen (AggregationCombinerSink_writeOutPage hash_impl v0 K workerID c a m) (\<lambda>(a1, m1).
             merge_pages n hash_impl v0 K nextp workerID S1 a1 m1))"

definition AggregationPipeline_run :: "nat \<Rightarrow> ('k \<Rightarrow> 64 word) \<Rightarrow> 'v \<Rightarrow> ('k, 'v::plus, 'm) agg_memory \<Rightarrow> ('s \<Rightarrow> (('k, 'v) pair_array list option \<times> 's) result) \<Rightarrow> nat \<Rightarrow>
    's \<Rightarrow> ('k, 'v) pair_array result" where
  "AggregationPipeline_run n hash_impl v0 K nextp workerID S =
     (case g_map K 0 (g_fresh K) of
        (False, _) \<Rightarrow> Inl (Throw ''NotEnoughSpace'')
      | (True, m) \<Rightarrow> andThen Map_default (\<lambda>a. andThen (merge_pages n hash_impl v0 K nextp workerID S a m) (\<lambda>(a1, m1). Inr a1)))"

section \<open>One row into a table\<close>

text \<open>The table a failed call leaves behind: in order up to the counter of used slots, which still counts the record that was taken back.\<close>

definition tab_ok :: "('k \<Rightarrow> 64 word) \<Rightarrow> ('k, 'v) pair_array \<Rightarrow> bool" where
  "tab_ok hash_impl a \<longleftrightarrow> unat (numSlots a) = length (slots a) \<and> chain_ok hash_impl (slots a)"

definition agg_ok :: "('k \<Rightarrow> 64 word) \<Rightarrow> ('k, 'v) pair_array \<Rightarrow> bool" where
  "agg_ok hash_impl a \<longleftrightarrow> Map_ok hash_impl a \<and> length (slots a) \<le> 2 ^ 30"

lemma agg_okD: "agg_ok hash_impl a \<Longrightarrow> Map_ok hash_impl a" "agg_ok hash_impl a \<Longrightarrow> pa_ok hash_impl a" "agg_ok hash_impl a \<Longrightarrow> length (slots a) \<le> 2 ^ 30"
  "pa_ok hash_impl a \<Longrightarrow> tab_ok hash_impl a"
  by (auto simp: agg_ok_def Map_ok_def tab_ok_def pa_ok_def)

lemma setUnused_new:
  assumes "Map_ok hash_impl (with_record hash_impl k v0 s b)" and b: "pa_ok hash_impl b" and s: "s < length (slots b)" "slots b ! s = Free"
  shows "\<exists>a2. Map_setUnused hash_impl (with_record hash_impl k v0 s b) k = Inr a2 \<and> tab_ok hash_impl a2 \<and> pa_map a2 = pa_map b"
proof -
  let ?a = "with_record hash_impl k v0 s b"
  have "stored (slots ?a) k s" using s by (simp add: stored_def with_record_def)
  then have "probe_from_home hash_impl ?a k = Inr (Hit s)" using assms(1) by (intro probe_stored) (simp_all add: Map_ok_def)
  moreover have "(slots ?a)[s := Free] = slots b" using list_update_id [of "slots b" s] s by (simp add: with_record_def)
  ultimately show ?thesis using b by (auto simp: Map_setUnused_def pa_setUnused_def tab_ok_def pa_map_def pa_ok_def with_record_def)
qed

definition added :: "('k \<Rightarrow> 'v option) \<Rightarrow> 'k \<Rightarrow> 'v::plus \<Rightarrow> 'k \<Rightarrow> 'v option" where
  "added m k v = m(k \<mapsto> (case m k of None \<Rightarrow> v | Some w \<Rightarrow> w + v))"

text \<open>
  Records can always move to a doubled array (those that the table has are in the block already; what needs no memory to be copied there, handles and plain data, always can). Without
  it a table loses keys (\<open>Map_failed_doubling_loses_keys\<close>).
\<close>

definition moves_fit :: "('k, 'v, 'm) agg_memory \<Rightarrow> bool" where
  "moves_fit K \<longleftrightarrow> (\<forall>i m. g_move K i m)"

definition still :: "('k, 'v, 'm) agg_memory \<Rightarrow> ('k, 'v, 'm) agg_memory" where
  "still K = K\<lparr>g_move := \<lambda>_ _. True\<rparr>"

lemma still_moves: "moves_fit (still K)" "moves_fit K \<Longrightarrow> still K = K"
proof -
  show "moves_fit (still K)" by (simp add: moves_fit_def still_def)
  show "still K = K" if "moves_fit K"
  proof -
    have "(\<lambda>_ _. True) = g_move K" using that by (simp add: moves_fit_def fun_eq_iff)
    then show ?thesis by (simp add: still_def)
  qed
qed

lemma agg_space_sel:
  assumes "agg_space K a k m = (sp, m1)"
  shows "moves_fit K \<Longrightarrow> fitsRec sp = (\<lambda>_. True)" "pa_isOverFull a \<Longrightarrow> fitsArr sp \<Longrightarrow> 2 * length (slots a) \<le> 2 ^ 30"
  using assms by (auto simp: agg_space_def moves_fit_def split: prod.splits bool.splits if_splits)

lemma agg_put_ok:
  assumes ok: "agg_ok hash_impl a" and mv: "moves_fit K"
  shows "\<exists>fl a1 m1. agg_put hash_impl v0 K k v a m = Inr (fl, a1, m1) \<and> tab_ok hash_impl a1 \<and>
    (case fl of Returns \<Rightarrow> agg_ok hash_impl a1 \<and> pa_map a1 = added (pa_map a) k v | NotEnoughSpace \<Rightarrow> pa_map a1 = pa_map a)"
proof -
  obtain sp m1 where sp: "agg_space K a k m = (sp, m1)" by force
  have cnt: "Map_count hash_impl a k = Inr (if pa_map a k = None then 0 else 1)" by (simp add: Map_count_def pa_count_ok [OF agg_okD(2) [OF ok]])
  have tab: "tab_ok hash_impl a" by (rule agg_okD(4) [OF agg_okD(2) [OF ok]])
  show ?thesis
  proof (cases "pa_map a k")
    case (Some w)
    obtain s h where at: "Map_at hash_impl v0 sp a k = (a, Inr s)" "s < length (slots a)" "slots a ! s = Rec h k w"
      using Map_at_present [OF agg_okD(1) [OF ok] Some] by blast
    note sv = set_value_ok [OF agg_okD(2) [OF ok] at(2,3), of "w + v"]
    have "agg_ok hash_impl (set_value s (w + v) a)" using ok sv by (simp add: agg_ok_def Map_ok_def)
    then show ?thesis using Some cnt sp at sv(2) tab agg_okD(2,4)
      by (cases "g_value K (w + v) m") (auto simp: agg_put_def slot_value_def added_def split: bool.splits)
  next
    case None
    have new: "agg_put hash_impl v0 K k v a m = (case Map_at hash_impl v0 sp a k of
          (a1, Inl (Throw _)) \<Rightarrow> Inr (NotEnoughSpace, a1, m1)
        | (a1, Inl e) \<Rightarrow> Inl e
        | (a1, Inr s) \<Rightarrow> (case g_value K v m1 of (True, m2) \<Rightarrow> Inr (Returns, set_value s v a1, m2)
            | (False, m2) \<Rightarrow> andThen (Map_setUnused hash_impl a1 k) (\<lambda>a2. Inr (NotEnoughSpace, a2, m2))))"
      using cnt sp None by (simp add: agg_put_def)
    from Map_at_new [OF agg_okD(1,3) [OF ok] None agg_space_sel(1) [OF sp mv], of v0] show ?thesis
    proof (elim disjE exE conjE)
      fix b s
      let ?a = "with_record hash_impl k v0 s b"
      assume at: "Map_at hash_impl v0 sp a k = (?a, Inr s)" "pa_ok hash_impl b" "pa_map b = pa_map a" "s < length (slots b)" "slots b ! s = Free"
        "Map_ok hash_impl ?a" "pa_map ?a = (pa_map a)(k \<mapsto> v0)" "length (slots b) = (if pa_isOverFull a then 2 * length (slots a) else length (slots a))"
        "pa_isOverFull a \<longrightarrow> fitsArr sp"
      have len: "length (slots ?a) \<le> 2 ^ 30" using at(8,9) agg_space_sel(2) [OF sp] agg_okD(3) [OF ok] by (auto simp: with_record_def)
      have rec: "s < length (slots ?a)" "slots ?a ! s = Rec (Hasher_hash hash_impl k) k v0" "pa_ok hash_impl ?a"
        using at(4,6) by (simp_all add: with_record_def Map_ok_def)
      note sv = set_value_ok [OF rec(3,1,2), of v]
      have "agg_ok hash_impl (set_value s v ?a)" using at(6) sv len by (simp add: agg_ok_def Map_ok_def)
      moreover have "pa_map (set_value s v ?a) = added (pa_map a) k v" using sv(2) at(7) None by (simp add: added_def)
      ultimately show ?thesis using new at(1) agg_okD(2,4) setUnused_new [OF at(6,2,4,5)] at(3)
        by (cases "g_value K v m1") (auto split: bool.splits)
    qed (use new agg_okD(4) in \<open>auto simp: Map_ok_def\<close>)
  qed
qed

text \<open>With memory for everything, and far fewer keys than a table can have, no row fails.\<close>

definition ample :: "('k, 'v, 'm) agg_memory \<Rightarrow> bool" where
  "ample K \<longleftrightarrow> (\<forall>i m. fst (g_map K i m)) \<and> (\<forall>n m. fst (g_array K n m)) \<and> moves_fit K \<and> (\<forall>k m. fst (g_record K k m)) \<and> (\<forall>v m. fst (g_value K v m))"

lemma ampleD: "ample K \<Longrightarrow> \<exists>m1. g_map K i m = (True, m1)" "ample K \<Longrightarrow> \<exists>m1. g_array K n m = (True, m1)"
  "ample K \<Longrightarrow> \<exists>m1. g_record K k m = (True, m1)" "ample K \<Longrightarrow> \<exists>m1. g_value K v m = (True, m1)"
  by (simp_all add: ample_def) (metis (full_types) eq_fst_iff)+

lemma agg_put_ample:
  assumes K: "ample K" and g: "Map_grown hash_impl a" and small: "n_used (slots a) + 1 < 2 ^ 27"
  shows "\<exists>a1 m1. agg_put hash_impl v0 K k v a m = Inr (Returns, a1, m1) \<and> Map_grown hash_impl a1 \<and> pa_map a1 = added (pa_map a) k v \<and>
    n_used (slots a1) \<le> n_used (slots a) + 1"
proof -
  let ?v = "case pa_map a k of None \<Rightarrow> v | Some w \<Rightarrow> w + v"
  have ok: "Map_ok hash_impl a" "pa_ok hash_impl a" "2 * length (slots a) \<le> 2 ^ 30" using g small by (auto simp: Map_grown_def Map_ok_def)
  obtain a1 where a1: "Map_assign hash_impl v0 roomy k ?v a = (a1, Inr ())" "Map_grown hash_impl a1" "pa_map a1 = (pa_map a)(k \<mapsto> ?v)"
    "n_used (slots a1) \<le> n_used (slots a) + 1" using Map_grown_assign [OF g] small by fastforce
  obtain m0 where m0: "(if pa_isOverFull a then g_array K (2 * length (slots a)) m else (True, m)) = (True, m0)" using ampleD(2) [OF K] by (cases "pa_isOverFull a") auto
  obtain m1 where "g_record K k m0 = (True, m1)" using ampleD(3) [OF K] by blast
  then have sp: "agg_space K a k m = (roomy, m1)" unfolding agg_space_def m0 using ok(3) K by (simp add: roomy_def ample_def moves_fit_def)
  obtain b s where at: "Map_at hash_impl v0 roomy a k = (b, Inr s)" "a1 = set_value s ?v b"
    using a1(1) by (auto simp: Map_assign_def split: prod.splits sum.splits)
  have "agg_put hash_impl v0 K k v a m = Inr (Returns, a1, snd (g_value K ?v (if pa_map a k = None then m1 else m)))"
  proof (cases "pa_map a k")
    case None
    then show ?thesis using at sp ampleD(4) [OF K, of v m1] by (auto simp: agg_put_def Map_count_def pa_count_ok [OF ok(2)])
  next
    case (Some w)
    moreover from Map_at_present [OF ok(1) Some, of v0 roomy] have "slot_value (slots b ! s) = Some w" using at(1) by (auto simp: slot_value_def)
    ultimately show ?thesis using at sp ampleD(4) [OF K, of "w + v" m] by (auto simp: agg_put_def Map_count_def pa_count_ok [OF ok(2)])
  qed
  then show ?thesis using a1 by (simp add: added_def)
qed

section \<open>Totals\<close>

text \<open>
  The total of a key over some rows or tables: nothing, a value, or \<open>Corrupt\<close> when one of the tables is not in order; \<open>Corrupt\<close> absorbs
  everything, so a sum that is not \<open>Corrupt\<close> has only tables in order.
\<close>

datatype 'v total = Nothing | Total 'v | Corrupt

instantiation total :: (ab_semigroup_add) comm_monoid_add
begin

definition zero_total :: "'a total" where
  "zero_total = Nothing"

fun plus_total :: "'a total \<Rightarrow> 'a total \<Rightarrow> 'a total" where
  "plus_total Corrupt y = Corrupt"
| "plus_total Nothing y = y"
| "plus_total (Total v) Corrupt = Corrupt"
| "plus_total (Total v) Nothing = Total v"
| "plus_total (Total v) (Total w) = Total (v + w)"

instance
proof
  fix x y z :: "'a total"
  show "x + y + z = x + (y + z)" by (cases x; cases y; cases z) (simp_all add: add.assoc)
  show "x + y = y + x" by (cases x; cases y) (simp_all add: add.commute)
  show "0 + x = x" by (simp add: zero_total_def)
qed

end

lemma plus_Nothing [simp]: "(x :: 'v::ab_semigroup_add total) + Nothing = x"
  by (cases x) simp_all



definition total_of :: "'v option \<Rightarrow> 'v total" where
  "total_of x = (case x of None \<Rightarrow> Nothing | Some v \<Rightarrow> Total v)"

definition row_total :: "('a \<Rightarrow> 'k) \<Rightarrow> ('a \<Rightarrow> 'v) \<Rightarrow> 'k \<Rightarrow> 'a \<Rightarrow> 'v total" where
  "row_total key val k x = (if key x = k then Total (val x) else Nothing)"

lemma total_of_simps [simp]: "total_of x \<noteq> Corrupt" "total_of None = Nothing" "total_of (Some v) = Total v" "total_of x = total_of y \<longleftrightarrow> x = y"
  by (auto simp: total_of_def split: option.splits)

lemma total_added: "total_of (added m k v kk) = total_of (m kk) + (if k = kk then Total v else 0)"
  by (auto simp: added_def zero_total_def add.commute split: option.split)



section \<open>The contract of the sink\<close>

definition agg_tables_ok :: "('k \<Rightarrow> 64 word) \<Rightarrow> nat \<Rightarrow> ('k, 'v) pair_array list \<Rightarrow> bool" where
  "agg_tables_ok hash_impl n c \<longleftrightarrow> length c = n \<and> (\<forall>a \<in> set c. agg_ok hash_impl a)"

text \<open>What the table of partition \<open>p\<close> has for the key \<open>kk\<close>, and what a row adds to it.\<close>

definition part_total :: "('k \<Rightarrow> 64 word) \<Rightarrow> nat \<Rightarrow> nat \<Rightarrow> 'k \<Rightarrow> ('k, 'v) pair_array list \<Rightarrow> 'v total" where
  "part_total hash_impl n p kk c =
     (if n \<le> p then Nothing else if length c = n \<and> tab_ok hash_impl (c ! p) then total_of (pa_map (c ! p) kk) else Corrupt)"

definition part_row :: "('k \<Rightarrow> 64 word) \<Rightarrow> nat \<Rightarrow> nat \<Rightarrow> ('a \<Rightarrow> 'k) \<Rightarrow> ('a \<Rightarrow> 'v) \<Rightarrow> 'k \<Rightarrow> 'a \<Rightarrow> 'v total" where
  "part_row hash_impl n p key val kk x = (if partition_of hash_impl n kk = p then row_total key val kk x else Nothing)"

lemma make_maps_ok:
  fixes K :: "('k, 'v, 'm) agg_memory" and hash_impl :: "'k \<Rightarrow> 64 word"
  shows "make_maps K n i m = (Some c, m1) \<Longrightarrow> length c = n \<and> (\<forall>a \<in> set c. Map_grown hash_impl a \<and> pa_map a = Map.empty \<and> n_used (slots a) = 0)"
proof (induction K n i m arbitrary: c m1 rule: make_maps.induct)
  case (2 K n i m)
  obtain a :: "('k, 'v) pair_array" where a: "Map_default = Inr a" "Map_grown hash_impl a" "pa_map a = Map.empty" "n_used (slots a) = 0"
    by (rule Map_default_ok)
  obtain m2 where m2: "g_map K (Suc i) m = (True, m2)" using "2.prems" by (auto split: prod.splits bool.splits)
  obtain r m3 where r: "make_maps K n (Suc i) m2 = (r, m3)" by force
  have "make_maps K (Suc n) i m = (map_option (\<lambda>as. a # as) r, m3)" by (simp add: m2 a(1) r)
  then have "map_option (\<lambda>as. a # as) r = Some c" "m3 = m1" using "2.prems" by (simp_all del: make_maps.simps)
  then obtain c' where "r = Some c'" "c = a # c'" by auto
  then show ?case using "2.IH" [OF m2 [symmetric] refl a(1)] r a(2-4) by auto
qed simp

lemma Map_grown_agg: "Map_grown hash_impl a \<Longrightarrow> n_used (slots a) < 2 ^ 28 \<Longrightarrow> agg_ok hash_impl a"
  by (auto simp: Map_grown_def agg_ok_def)

lemma part_total_ok: "agg_tables_ok hash_impl n c \<Longrightarrow> p < n \<Longrightarrow> part_total hash_impl n p kk c = total_of (pa_map (c ! p) kk)"
  using agg_okD(2,4) by (fastforce simp: part_total_def agg_tables_ok_def)

lemma preagg_row_ok:
  assumes c: "agg_tables_ok hash_impl n c" and n: "0 < n" and mv: "moves_fit K"
  shows "\<exists>fl c1 m1. preagg_row hash_impl v0 K key val n x c m = Inr (fl, c1, m1) \<and> (fl = Returns \<longrightarrow> agg_tables_ok hash_impl n c1) \<and>
    part_total hash_impl n p kk c1 = part_total hash_impl n p kk c + (if fl = Returns then part_row hash_impl n p key val kk x else 0)"
proof -
  let ?i = "partition_of hash_impl n (key x)"
  have i: "?i < n" "partition_of hash_impl n k < n" for k using n by (simp_all add: partition_of_def)
  have at: "vec_at c ?i = Inr (c ! ?i)" using c i by (simp add: agg_tables_ok_def vec_at_def)
  have ok: "agg_ok hash_impl (c ! ?i)" using c i by (auto simp: agg_tables_ok_def)
  obtain fl a1 m1 where put: "agg_put hash_impl v0 K (key x) (val x) (c ! ?i) m = Inr (fl, a1, m1)" "tab_ok hash_impl a1"
    "case fl of Returns \<Rightarrow> agg_ok hash_impl a1 \<and> pa_map a1 = added (pa_map (c ! ?i)) (key x) (val x) | NotEnoughSpace \<Rightarrow> pa_map a1 = pa_map (c ! ?i)"
    using agg_put_ok [OF ok mv, of v0 "key x" "val x" m] by blast
  have len: "length c = n" using c by (simp add: agg_tables_ok_def)
  have "fl = Returns \<longrightarrow> agg_tables_ok hash_impl n (c[?i := a1])" using c put(3) set_update_subset_insert [of c ?i a1] by (auto simp: agg_tables_ok_def)
  moreover have "part_total hash_impl n p kk (c[?i := a1]) = part_total hash_impl n p kk c + (if fl = Returns then part_row hash_impl n p key val kk x else 0)"
  proof (cases "p = ?i")
    case True
    have "part_total hash_impl n p kk (c[?i := a1]) = total_of (pa_map a1 kk)" using True put(2) i(1) len by (simp add: part_total_def not_le [symmetric])
    also have "\<dots> = total_of (pa_map (c ! ?i) kk) + (if fl = Returns \<and> key x = kk then Total (val x) else 0)"
      using put(3) by (cases fl) (simp_all add: total_added)
    finally show ?thesis using True part_total_ok [OF c i(1), of kk] by (auto simp: part_row_def row_total_def zero_total_def)
  next
    case False
    have "part_total hash_impl n p kk (c[?i := a1]) = part_total hash_impl n p kk c" using False by (simp add: part_total_def)
    then show ?thesis using False by (auto simp: part_row_def row_total_def zero_total_def)
  qed
  ultimately show ?thesis using n at put(1) by (simp add: preagg_row_def Let_def)
qed

lemma preagg_write_ok:
  assumes "agg_tables_ok hash_impl n c" and "0 < n" and "moves_fit K"
  shows "\<exists>fl left c1 m1. append_all (preagg_row hash_impl v0 K key val n) xs c m = Inr (fl, left, c1, m1) \<and> (fl = Returns \<longrightarrow> agg_tables_ok hash_impl n c1) \<and>
    part_total hash_impl n p kk c1 + rows_val (part_row hash_impl n p key val kk) left = part_total hash_impl n p kk c + rows_val (part_row hash_impl n p key val kk) xs \<and>
    (fl = Returns \<longrightarrow> left = []) \<and> (\<exists>k. left = drop k xs)"
  using assms(1)
proof (induction xs arbitrary: c m)
  case (Cons x xs)
  obtain fl c1 m1 where r: "preagg_row hash_impl v0 K key val n x c m = Inr (fl, c1, m1)" "fl = Returns \<longrightarrow> agg_tables_ok hash_impl n c1"
    "part_total hash_impl n p kk c1 = part_total hash_impl n p kk c + (if fl = Returns then part_row hash_impl n p key val kk x else 0)"
    using preagg_row_ok [OF Cons.prems assms(2,3), of v0 key val x m p kk] by blast
  have cons: "rows_val f (x # xs) = f x + rows_val f xs" for f :: "'d \<Rightarrow> 'b total" by (simp add: rows_val_def)
  show ?case
  proof (cases fl)
    case Returns
    then obtain fl' left c2 m2 j where i: "append_all (preagg_row hash_impl v0 K key val n) xs c1 m1 = Inr (fl', left, c2, m2)" "fl' = Returns \<longrightarrow> agg_tables_ok hash_impl n c2"
      "part_total hash_impl n p kk c2 + rows_val (part_row hash_impl n p key val kk) left = part_total hash_impl n p kk c1 + rows_val (part_row hash_impl n p key val kk) xs"
      "fl' = Returns \<longrightarrow> left = []" "left = drop j xs" using Cons.IH [of c1 m1] r(2) by blast
    then show ?thesis using r Returns by (auto simp: cons ac_simps intro!: exI [of _ "Suc j"])
  next
    case NotEnoughSpace
    then show ?thesis using r by (auto intro!: exI [of _ 0])
  qed
qed (simp add: exI [of _ 0])

interpretation preagg: sink_contract "preagg_env hash_impl v0 (still K) key val (Suc nodes) (Suc threads) stages" "part_total hash_impl (Suc nodes * Suc threads) p kk"
  "part_row hash_impl (Suc nodes * Suc threads) p key val kk" "agg_tables_ok hash_impl (Suc nodes * Suc threads)"
  for hash_impl :: "'k \<Rightarrow> 64 word" and v0 :: "'v::ab_semigroup_add" and K :: "('k, 'v, 'm) agg_memory" and key :: "'a \<Rightarrow> 'k" and val nodes threads stages p kk
proof
  let ?n = "Suc nodes * Suc threads"
  fix m c m1
  assume "e_create (preagg_env hash_impl v0 (still K) key val (Suc nodes) (Suc threads) stages) m = (Some c, m1)"
  then obtain m0 where "make_maps (still K) ?n 0 m0 = (Some c, m1)"
    by (auto simp: preagg_env_def PreaggregationSink_createNewOutputContainer_def split: prod.splits bool.splits)
  from make_maps_ok [OF this, of hash_impl] have c: "length c = ?n" "\<forall>a \<in> set c. Map_grown hash_impl a \<and> pa_map a = Map.empty \<and> n_used (slots a) = 0" by auto
  then have ok: "agg_tables_ok hash_impl ?n c" by (auto simp: agg_tables_ok_def intro: Map_grown_agg)
  moreover have "part_total hash_impl ?n p kk c = 0"
    using part_total_ok [OF ok, of p kk] c by (cases "p < ?n") (auto simp: zero_total_def part_total_def)
  ultimately show "agg_tables_ok hash_impl ?n c \<and> part_total hash_impl ?n p kk c = 0" by blast
next
  let ?n = "Suc nodes * Suc threads"
  fix c :: "('k, 'v) pair_array list" and xs m
  assume "agg_tables_ok hash_impl ?n c"
  from preagg_write_ok [OF this _ still_moves(1), of v0 K key val xs m p kk]
  show "\<exists>fl left c1 m1. e_write (preagg_env hash_impl v0 (still K) key val (Suc nodes) (Suc threads) stages) xs c m = Inr (fl, left, c1, m1) \<and> (fl = Returns \<longrightarrow> agg_tables_ok hash_impl ?n c1) \<and>
      part_total hash_impl ?n p kk c1 + rows_val (part_row hash_impl ?n p key val kk) left = part_total hash_impl ?n p kk c + rows_val (part_row hash_impl ?n p key val kk) xs \<and>
      (fl = Returns \<longrightarrow> left = []) \<and> (\<exists>k. left = drop k xs)"
    by (simp add: preagg_env_def PreaggregationSink_writeOut_def)
qed


section \<open>Merging tables\<close>

definition slot_total :: "'k \<Rightarrow> ('k, 'v) slot \<Rightarrow> 'v total" where
  "slot_total kk x = (case x of Free \<Rightarrow> Nothing | Rec h k v \<Rightarrow> if k = kk then Total v else Nothing)"

lemma slot_total_simps [simp]: "slot_total kk Free = Nothing" "slot_total kk (Rec h k v) = (if k = kk then Total v else Nothing)"
  by (simp_all add: slot_total_def)

lemma slots_total:
  assumes "\<And>i j h k v h' v'. i < length d \<Longrightarrow> j < length d \<Longrightarrow> d ! i = Rec h k v \<Longrightarrow> d ! j = Rec h' k v' \<Longrightarrow> i = j"
  shows "sum_list (map (slot_total kk) (filter (\<lambda>s. s \<noteq> Free) d)) =
    total_of (map_of (List.map_filter (\<lambda>s. case s of Free \<Rightarrow> None | Rec h k v \<Rightarrow> Some (k, v)) d) kk :: 'v::ab_semigroup_add option)"
  using assms
proof (induction d)
  case Nil
  then show ?case by (simp add: map_filter_simps zero_total_def)
next
  case (Cons x d)
  have IH: "sum_list (map (slot_total kk) (filter (\<lambda>s. s \<noteq> Free) d)) =
    total_of (map_of (List.map_filter (\<lambda>s. case s of Free \<Rightarrow> None | Rec h k v \<Rightarrow> Some (k, v)) d) kk)"
  proof (rule Cons.IH)
    fix i j h k v h' v'
    assume "i < length d" "j < length d" "d ! i = Rec h k v" "d ! j = Rec h' k v'"
    then show "i = j" using Cons.prems [of "Suc i" "Suc j" h k v h' v'] by simp
  qed
  show ?case
  proof (cases x)
    case Free
    then show ?thesis using IH by (simp add: map_filter_simps)
  next
    case (Rec h k v)
    have "map_of (List.map_filter (\<lambda>s. case s of Free \<Rightarrow> None | Rec h k v \<Rightarrow> Some (k, v)) d) k = None"
    proof (rule ccontr)
      assume "\<not> ?thesis"
      then obtain w where "map_of (List.map_filter (\<lambda>s. case s of Free \<Rightarrow> None | Rec h k v \<Rightarrow> Some (k, v)) d) k = Some w" by blast
      then obtain j h' where "j < length d" "d ! j = Rec h' k w" by (auto dest!: map_of_SomeD simp: set_entries)
      then show False using Cons.prems [of 0 "Suc j" h k v h' w] Rec by simp
    qed
    then show ?thesis using IH Rec by (cases "k = kk") (simp_all add: map_filter_simps)
  qed
qed

lemma table_total:
  assumes "tab_ok hash_impl (a :: ('k, 'v::ab_semigroup_add) pair_array)"
  shows "sum_list (map (slot_total kk) (filter (\<lambda>s. s \<noteq> Free) (slots a))) = total_of (pa_map a kk)"
  unfolding pa_map_def using assms chain_ok_stored_unique [of hash_impl "slots a"]
  by (intro slots_total) (metis stored_def tab_ok_def)

lemma n_used_dom:
  assumes "chain_ok hash_impl (slots a)"
  shows "n_used (slots a) = card (dom (pa_map a))"
proof -
  let ?U = "{i. i < length (slots a) \<and> slots a ! i \<noteq> Free}"
  have inj: "inj_on (\<lambda>i. s_key (slots a ! i)) ?U"
  proof (rule inj_onI)
    fix i j assume i: "i \<in> ?U" and j: "j \<in> ?U" and e: "s_key (slots a ! i) = s_key (slots a ! j)"
    from i j obtain h k v h' k' v' where "slots a ! i = Rec h k v" "slots a ! j = Rec h' k' v'" by (metis (mono_tags, lifting) mem_Collect_eq slot.exhaust)
    then show "i = j" using i j e chain_ok_stored_unique [OF assms, of k i j] by (simp add: stored_def)
  qed
  have "(\<lambda>i. s_key (slots a ! i)) ` ?U = dom (pa_map a)"
  proof (intro equalityI subsetI)
    fix k assume "k \<in> (\<lambda>i. s_key (slots a ! i)) ` ?U"
    then obtain i where i: "i < length (slots a)" "slots a ! i \<noteq> Free" "k = s_key (slots a ! i)" by blast
    then obtain h v where "slots a ! i = Rec h k v" by (cases "slots a ! i") auto
    then show "k \<in> dom (pa_map a)" using i pa_map_Some_iff [OF assms, of k v] by blast
  next
    fix k assume "k \<in> dom (pa_map a)"
    then obtain i h v where "i < length (slots a)" "slots a ! i = Rec h k v" using pa_map_Some_iff [OF assms, of k] by blast
    then show "k \<in> (\<lambda>i. s_key (slots a ! i)) ` ?U" by (intro image_eqI [of _ _ i]) simp_all
  qed
  then show ?thesis using card_image [OF inj] by (simp add: n_used_card)
qed

lemma used_below:
  assumes "Map_grown hash_impl a" and "dom (pa_map a) \<subseteq> KS" and "finite KS"
  shows "n_used (slots a) \<le> card KS"
  using n_used_dom [of hash_impl a] card_mono [OF assms(3,2)] assms(1) by (simp add: Map_grown_def Map_ok_def pa_ok_def)

lemma merge_records_ok:
  assumes K: "ample K" and KS: "finite KS" "card KS + 1 < 2 ^ 27"
    and "\<forall>s \<in> set xs. s \<noteq> Free \<and> s_key s \<in> KS" and "Map_grown hash_impl a" and "dom (pa_map a) \<subseteq> KS"
  shows "\<exists>a' m'. merge_records hash_impl v0 K xs a m = Inr (a', m') \<and> Map_grown hash_impl a' \<and> dom (pa_map a') \<subseteq> KS \<and>
    (\<forall>kk. total_of (pa_map a' kk) = total_of (pa_map a kk) + sum_list (map (slot_total kk) xs))"
  using assms(4-)
proof (induction xs arbitrary: a m)
  case (Cons x xs)
  then obtain h k v where x: "x = Rec h k v" by (cases x) auto
  have small: "n_used (slots a) + 1 < 2 ^ 27" using used_below [OF Cons.prems(2,3) KS(1)] KS(2) by simp
  obtain a1 m1 where p: "agg_put hash_impl v0 K k v a m = Inr (Returns, a1, m1)" "Map_grown hash_impl a1" "pa_map a1 = added (pa_map a) k v"
    using agg_put_ample [OF K Cons.prems(2) small, of v0 k v m] by blast
  have d: "dom (pa_map a1) \<subseteq> KS" using p(3) Cons.prems(1,3) x by (auto simp: added_def)
  have xs: "\<forall>s \<in> set xs. s \<noteq> Free \<and> s_key s \<in> KS" using Cons.prems(1) by simp
  obtain a' m' where i: "merge_records hash_impl v0 K xs a1 m1 = Inr (a', m')" "Map_grown hash_impl a'" "dom (pa_map a') \<subseteq> KS"
    "\<forall>kk. total_of (pa_map a' kk) = total_of (pa_map a1 kk) + sum_list (map (slot_total kk) xs)"
    using Cons.IH [OF xs p(2) d, of m1] by blast
  have "total_of (pa_map a' kk) = total_of (pa_map a kk) + sum_list (map (slot_total kk) (x # xs))" for kk
    using i(4) by (simp add: p(3) total_added x zero_total_def add.assoc)
  then show ?case using x p(1) i(1-3) by simp
qed simp

lemma writeOutPage_ok:
  assumes "ample K" and "finite KS" "card KS + 1 < 2 ^ 27" and page: "t < length page" "tab_ok hash_impl (page ! t)" "dom (pa_map (page ! t)) \<subseteq> KS"
    and "Map_grown hash_impl a" and "dom (pa_map a) \<subseteq> KS"
  shows "\<exists>a' m'. AggregationCombinerSink_writeOutPage hash_impl v0 K t page a m = Inr (a', m') \<and> Map_grown hash_impl a' \<and> dom (pa_map a') \<subseteq> KS \<and>
    (\<forall>kk. total_of (pa_map a' kk) = total_of (pa_map a kk) + total_of (pa_map (page ! t) kk))"
proof -
  let ?b = "page ! t" and ?xs = "filter (\<lambda>s. s \<noteq> Free) (slots (page ! t))"
  have ch: "chain_ok hash_impl (slots ?b)" using page(2) by (simp add: tab_ok_def)
  have "scan_ok ?b" using page(2) chain_ok_hash [OF ch] by (simp add: scan_ok_def tab_ok_def)
  then have it: "it_collect ?b (length (slots ?b)) (it_begin ?b) = Some ?xs" using it_collect_from [of ?b 0 "length (slots ?b)"] by (simp add: it_begin_def)
  have "\<forall>s \<in> set ?xs. s \<noteq> Free \<and> s_key s \<in> KS"
  proof
    fix s assume "s \<in> set ?xs"
    then have s: "s \<in> set (slots ?b)" "s \<noteq> Free" by auto
    from s(1) obtain i where "i < length (slots ?b)" "slots ?b ! i = s" by (auto simp: in_set_conv_nth)
    moreover from s(2) obtain h k v where "s = Rec h k v" by (cases s) auto
    ultimately show "s \<noteq> Free \<and> s_key s \<in> KS" using page(3) pa_map_Some_iff [OF ch, of k v] by (auto simp: dom_def)
  qed
  from merge_records_ok [OF assms(1-3) this assms(7,8), of v0 m] show ?thesis
    using page(1) it by (simp add: AggregationCombinerSink_writeOutPage_def vec_at_def table_total [OF page(2)])
qed

text \<open>A source of pages with one table per worker.\<close>

locale table_pages = page_source nextp rest ok
  for nextp :: "'s \<Rightarrow> (('k, 'v::ab_semigroup_add) pair_array list option \<times> 's) result" and rest ok
begin

definition pages_fit :: "('k \<Rightarrow> 64 word) \<Rightarrow> nat \<Rightarrow> 'k set \<Rightarrow> ('k, 'v) pair_array list list \<Rightarrow> bool" where
  "pages_fit hash_impl t KS ps \<longleftrightarrow> (\<forall>page \<in> set ps. t < length page \<and> tab_ok hash_impl (page ! t) \<and> dom (pa_map (page ! t)) \<subseteq> KS)"

lemma merge_pages_ok:
  assumes K: "ample K" "finite KS" "card KS + 1 < 2 ^ 27"
    and "ok S" and "pages_fit hash_impl t KS (rest S)" and "length (rest S) < n" and "Map_grown hash_impl a" and "dom (pa_map a) \<subseteq> KS"
  shows "\<exists>a' m'. merge_pages n hash_impl v0 K nextp t S a m = Inr (a', m') \<and> Map_grown hash_impl a' \<and>
    (\<forall>kk. total_of (pa_map a' kk) = total_of (pa_map a kk) + sum_list (map (\<lambda>page. total_of (pa_map (page ! t) kk)) (rest S)))"
  using assms(4-)
proof (induction n arbitrary: S a m)
  case (Suc n)
  from Suc.prems(1) show ?case
  proof (cases rule: next_cases)
    case (none S')
    then show ?thesis using Suc.prems(4) by simp
  next
    case (page p S')
    then have p: "t < length p" "tab_ok hash_impl (p ! t)" "dom (pa_map (p ! t)) \<subseteq> KS" and r: "pages_fit hash_impl t KS (rest S')" "length (rest S') < n"
      using Suc.prems(2,3) by (auto simp: pages_fit_def)
    obtain a1 m1 where w: "AggregationCombinerSink_writeOutPage hash_impl v0 K t p a m = Inr (a1, m1)" "Map_grown hash_impl a1" "dom (pa_map a1) \<subseteq> KS"
      "\<forall>kk. total_of (pa_map a1 kk) = total_of (pa_map a kk) + total_of (pa_map (p ! t) kk)"
      using writeOutPage_ok [OF K p Suc.prems(4,5), of v0 m] by blast
    show ?thesis using Suc.IH [OF page(3) r w(2,3), of m1] page(1,2) w(1,4) by (auto simp: add.assoc)
  qed
qed simp

lemma AggregationPipeline_run_ok:
  assumes K: "ample K" "finite KS" "card KS + 1 < 2 ^ 27" and S: "ok S" "pages_fit hash_impl t KS (rest S)" "length (rest S) < n"
  shows "\<exists>a. AggregationPipeline_run n hash_impl v0 K nextp t S = Inr a \<and> Map_grown hash_impl a \<and>
    (\<forall>kk. total_of (pa_map a kk) = sum_list (map (\<lambda>page. total_of (pa_map (page ! t) kk)) (rest S)))"
proof -
  obtain a :: "('k, 'v) pair_array" where a: "Map_default = Inr a" "Map_grown hash_impl a" "pa_map a = Map.empty" by (rule Map_default_ok)
  obtain m where "g_map K 0 (g_fresh K) = (True, m)" using ampleD(1) [OF K(1)] by blast
  moreover have "dom (pa_map a) \<subseteq> KS" using a(3) by simp
  from merge_pages_ok [OF K S a(2) this, of v0 m] obtain a' m' where "merge_pages n hash_impl v0 K nextp t S a m = Inr (a', m')" "Map_grown hash_impl a'"
    "\<forall>kk. total_of (pa_map a' kk) = total_of (pa_map a kk) + sum_list (map (\<lambda>page. total_of (pa_map (page ! t) kk)) (rest S))" by blast
  ultimately show ?thesis using a(3) by (simp add: AggregationPipeline_run_def a(1))
qed

end

interpretation fed_tables: table_pages "Feeding_getNextPage w" "feed_rest w fedpages" "feed_done w fedpages" for w fedpages
  by unfold_locales

interpretation anonymous_tables: table_pages "AnonPageSet_getNextPage w" "ap_rest w" ap_ok for w
  by unfold_locales

section \<open>The whole aggregation\<close>










section \<open>An instance\<close>









end
