(* ===== verification/Spec2Isabelle.thy ===== *)
theory Spec2Isabelle
  imports Borrowing BufferDepartures Metadata TopKQueue PairArray AllocatorSystem HandleProps PipelineProps StorageBackend Aggregation
begin

text \<open>
  A verification library for PlinyCompute (\<^verbatim>\<open>src/pdb/src\<close>), a distributed engine for C++ objects. A node
  runs two processes. The front end owns the disk and the RAM through the buffer manager; the back end
  runs the computations and borrows pages from the front end over requests, the page bytes themselves
  being in shared memory. Computations place their objects on such pages; the containers the engine
  works with (\<^verbatim>\<open>Vector\<close>, \<^verbatim>\<open>Map\<close>, \<^verbatim>\<open>TopKQueue\<close>) are objects of that kind. A query is a sequence of pipelines; each reads the pages of a set
  or of a page set, sends tuple sets through its executors and leaves its output in a page set, which the storage manager turns into
  a stored set.

  \<^bold>\<open>Theories and what they model\<close>

  \<^item> \<open>PC_Prelude\<close>: the outcomes of a C++ call (\<open>pc_error\<close>: exception, exit, undefined behaviour, a wait nobody
    ends, divergence), the sequencing \<open>andThen\<close>, vector and \<^verbatim>\<open>std::map\<close> operations with the contract of an
    ordered map as the locale \<open>ordered_map\<close>.
  \<^item> \<open>PDBPage\<close>: \<^verbatim>\<open>bufferManager/headers/PDBSet.h\<close>, \<^verbatim>\<open>PDBSetCompare.h\<close>, \<^verbatim>\<open>PDBPageCompare.h\<close>, \<^verbatim>\<open>PDBPage.h\<close> and
    \<^verbatim>\<open>source/PDBPage.cc\<close>: sets, page keys and their order, the page object, \<^verbatim>\<open>pread\<close> and \<^verbatim>\<open>pwrite\<close>.
  \<^item> \<open>BufferManager\<close>: \<^verbatim>\<open>source/PDBBufferManagerImpl.cc\<close>. The record \<open>bm\<close> has the members of the class; each
    method is the definition of the same name (\<open>getPage_bytes\<close>, \<open>getPage_set\<close> and \<open>getPage_anon\<close> are the three
    overloads of \<^verbatim>\<open>getPage\<close>; \<open>repin_locked\<close> is the overload that takes the lock). The long methods are split
    where the code has a loop or a branch: \<open>evict_page\<close>, \<open>evict_lru\<close>, \<open>split_full_page\<close> are parts of
    \<open>createAdditionalMiniPages\<close>, \<open>free_memory\<close> of \<open>freeAnonymousPage\<close>, \<open>clear_page\<close> of \<open>clearSet\<close>.
  \<^item> \<open>BufferInv\<close>, \<open>BufferOps\<close>, \<open>BufferRelease\<close>: the invariant \<open>bm_inv\<close> and that every operation keeps it.
  \<^item> \<open>BufferSystem\<close>: the transition system \<open>bm_step\<close> of the client calls and what holds in its reachable states.
  \<^item> \<open>BufferDepartures\<close>: executions in which the manager does not do what its comments say.
  \<^item> \<open>FileWriter\<close>, \<open>Metadata\<close>: \<^verbatim>\<open>source/PDBBufferManagerFileWriter.cc\<close>, the destructor of the manager and
    \<^verbatim>\<open>initialize(metaDataFile)\<close>.
  \<^item> \<open>FrontEnd\<close>, \<open>FrontEndSystem\<close>: \<^verbatim>\<open>source/PDBBufferManagerFrontEnd.cc\<close> and
    \<^verbatim>\<open>headers/PDBBufferManagerFrontEndTemplate.cc\<close>. The record \<open>fe\<close> has a buffer manager, the handle objects with
    their use counts (a \<^verbatim>\<open>PDBPageHandle\<close> is a shared pointer), \<^verbatim>\<open>sentPages\<close> and \<^verbatim>\<open>forwarding\<close>; one definition per
    request handler; the transition system \<open>fe_step\<close> interleaves them with local uses of pages.
  \<^item> \<open>BackEnd\<close>: \<^verbatim>\<open>headers/PDBBufferManagerBackEndTemplate.cc\<close>. Each operation is given by its critical sections;
    the transition system \<open>be_step\<close> interleaves the critical sections of any number of threads.
  \<^item> \<open>Borrowing\<close>: an operation of the back end served by the handler of the front end; what the back end relies
    on is the locale \<open>page_server\<close>, which the front end in its reachable states (\<open>fe_serving\<close>) satisfies.
  \<^item> \<open>Allocator\<close>: \<^verbatim>\<open>objectModel/headers/Allocator.h\<close>, \<^verbatim>\<open>Allocator.cc\<close>: the per-thread allocator that places objects in
    allocation blocks. The record \<open>allocator\<close> has the members of the class and the words of memory it reads and
    writes (block headers, chunk sizes). \<open>AllocatorInv\<close>, \<open>AllocatorBlocks\<close>: its invariant, kept by requests, frees
    and changes of the block; the contract of a policy is the locale \<open>ram_policy\<close>, interpreted for the three policies.
    \<open>AllocatorSystem\<close>: the transition system \<open>al_step\<close> of a thread and what holds in its reachable states.
  \<^item> \<open>Handle\<close>: \<^verbatim>\<open>objectModel/headers/Handle.cc\<close>, \<^verbatim>\<open>RefCountedObject.cc\<close>, \<^verbatim>\<open>PDBTemplateBase.cc\<close>, \<^verbatim>\<open>DeepCopy.h\<close>, \<^verbatim>\<open>Record.cc\<close> and the
    functions of \<^verbatim>\<open>InterfaceFunctions.cc\<close> that make and copy objects. The record \<open>object_heap\<close> has the allocator and the
    reference counts, handles and data in memory; the constructors and assignment operators of \<^verbatim>\<open>Handle\<close> are
    definitions over their common part \<open>assign_step\<close>. \<open>HandleInv\<close> (the invariant \<open>rc_inv\<close>: counts are numbers of handles;
    the recursive release), \<open>HandleFrame\<close> (what an operation leaves alone, new objects), \<open>HandleCopy\<close> (the deep copy and its
    undoing), \<open>HandleOps\<close> (the operators). \<open>HandleSystem\<close>: the transition system \<open>hp_step\<close> of a thread that makes,
    assigns, copies and destroys handles and changes its allocation block; \<open>HandleProps\<close>: what holds in its reachable states.
  \<^item> \<open>PairArray\<close>: \<^verbatim>\<open>builtInPDBObjects/headers/PairArray.cc\<close> and \<^verbatim>\<open>PDBMap.cc\<close>, the open-addressing hash table behind
    \<^verbatim>\<open>Map\<close>, its doubling, deep copy and iterators; the contract of a map that grows is the locale \<open>growable_map\<close>.
  \<^item> \<open>TopKQueue\<close>: \<^verbatim>\<open>builtInPDBObjects/headers/TopKQueue.cc\<close>, the heap of top-k aggregation; the contract of a
    container that keeps the best items is the locale \<open>best_keeper\<close>.
  \<^item> \<open>Vector\<close>: \<^verbatim>\<open>builtInPDBObjects/headers/PDBVector.cc\<close> and \<^verbatim>\<open>Array.cc\<close>, the vectors that pages of records hold.
  \<^item> \<open>PageSets\<close>: \<^verbatim>\<open>storageManager/source/PDBSetPageSet.cc\<close>, \<^verbatim>\<open>PDBAnonymousPageSet.cc\<close> and \<^verbatim>\<open>PDBFeedingPageSet.cc\<close>; what a
    reader relies on is the locale \<open>page_source\<close>, interpreted for page sets of stored sets and anonymous ones; the feeding page set is a
    transition system of feeders and readers.
  \<^item> \<open>TupleSource\<close>: \<^verbatim>\<open>pipeline/headers/sources/VectorTupleSetIterator.h\<close> and \<^verbatim>\<open>PDBTupleSetSizePolicy.cc\<close>, how records become tuple sets and how
    large these are. \<open>Pipeline\<close>: \<^verbatim>\<open>source/pipeline/Pipeline.cc\<close>, \<^verbatim>\<open>MemoryHolder.cc\<close>, \<^verbatim>\<open>sinks/VectorSink.h\<close> and \<^verbatim>\<open>processors/NullProcessor.h\<close>, the run
    of a pipeline. \<open>PipelineRun\<close>: the contract of a sink (locale \<open>sink_contract\<close>) and the proof of the run on it; \<open>PipelineProps\<close>: what it
    means for pipelines that write vectors.
  \<^item> \<open>Aggregation\<close>: \<^verbatim>\<open>sinks/PreaggregationSink.h\<close>, \<^verbatim>\<open>processors/PreaggregationPageProcessor.h\<close>, \<^verbatim>\<open>sinks/AggregationCombinerSink.h\<close> and
    \<^verbatim>\<open>AggregationPipeline.cc\<close>: the second interpretation of \<open>sink_contract\<close>, whose values are totals per key; a source of pages with one table per
    worker is the locale \<open>table_pages\<close>.
  \<^item> \<open>StorageManager\<close>: \<^verbatim>\<open>storageManager/source/PDBStorageManagerFrontend.cc\<close> and \<^verbatim>\<open>headers/PDBStorageManagerFrontendTemplate.cc\<close>, which pages a set
    has, their handlers, shutdown and start. \<open>StorageSystem\<close>: the transition system \<open>sto_step\<close> of the critical sections of any number of
    handlers. \<open>StorageBackend\<close>: \<^verbatim>\<open>PDBStorageManagerBackend.cc\<close> and \<^verbatim>\<open>PDBStorageManagerBackendTemplate.cc\<close>, the table of page sets and the two
    protocols between the processes, feeding a page set and materialising one.

  \<^bold>\<open>What is shown\<close>

  A statement about the reachable states of a transition system covers the calls that are its steps; what the steps leave out is listed
  under each component, and the sections on departures show for most of it what goes wrong there.

  \<^item> Allocator (\<open>al_step\<close>: requests, frees, new blocks, temporary blocks and their restoration, policies, emptying the active block, dropping
    the inactive ones where no state is saved; not emptying a block that is not active, which leaks): memory handed out is disjoint and large
    enough, the object counts of blocks are exact, a block is released with its last object and never before, what is owned from \<^verbatim>\<open>malloc\<close> is what is
    managed, restoring after a temporary block gives back the old one with its free memory and with its objects that were not freed
    meanwhile, and a request fails only when nothing fits.
  \<^item> Handles (\<open>hp_step\<close>: declaring, copying, destroying and assigning handles, making objects, \<^verbatim>\<open>makeObjectAllocatorBlock\<close>; not temporary
    or user-supplied blocks, \<^verbatim>\<open>getHandle\<close>, \<^verbatim>\<open>getRootObject\<close>, \<^verbatim>\<open>unsafeCast\<close>, shallow copies, nor an assignment over a handle of another type
    where requests may throw): a reference count is the number of handles to the object, the calls return, deep copies are faithful,
    one that does not fit leaves nothing behind of an assignment to a null handle, cyclic structures are not copied but reported, an object
    dies with its last handle, and no handle of the active block leads out of it.
  \<^item> Buffer manager (\<open>bm_step\<close>: requests of at most a page or for pages of sets, handles, pinning, unpinning, freezing full-size pages, writing; not
    oversized requests, freezing mini-pages and \<^verbatim>\<open>clearSet\<close>, of which \<open>BufferDepartures\<close> shows what they break): pages in RAM do not
    overlap, a pinned page is neither moved nor overwritten, the page handed out is large enough, the page evicted is the
    least recently unpinned, and those calls return or take one of the exits in \<open>fatal_exits\<close>, without undefined behaviour, blocking or divergence.
  \<^item> Lending (\<open>fe_step\<close>: the requests of the back end, their answers delivered or lost, forwarding, and the steps of \<open>bm_step\<close> on the front end's
    own pages): a lent page keeps a reference and its memory; the page the back end gets is the page the front end has, pinned in
    both; giving it back removes it from the books of both. Of the requests that are sent under a status of the page (all but the
    return of an anonymous page) the back end never has two under way for a page (\<open>be_op\<close>).
  \<^item> Persistence: metadata written at shutdown is read back unchanged, for sets whose names have no separators and whose labels differ (\<open>meta_ok\<close>).
  \<^item> Containers: \<^verbatim>\<open>Map\<close> refines a finite map, through growth too as long as the records can move to the doubled array, and when memory
    for a new key runs out it is unchanged; its iterator visits every record once, its deep copy is faithful; \<^verbatim>\<open>TopKQueue\<close>
    keeps a best-k selection and merging queues is selecting from the union, where memory suffices; resizing a vector keeps its elements, for element
    types that are assigned within the block without memory.
  \<^item> Pipelines: a run computes what its stages make of each record, once, however often memory runs out, and consecutive pipelines
    leave what one pipeline of all the stages leaves, given \<open>capacity_ok\<close>; without it no row is invented and none counts twice;
    preaggregation and merging compute the groups of a query, each key at one worker, given \<open>capacity_ok\<close>, \<open>moves_fit\<close> and memory for merging; page sets give every page to
    each reader they promise it to.
  \<^item> Storage (\<open>sto_step\<close>: the critical sections of any number of handlers, from a start without a file; \<^verbatim>\<open>clearSet\<close> only while no
    handler has a page of the set): the pages of a set are divided into those a handler has, finished and free ones; readers see exactly the
    finished ones and those whose mark a refused handler has removed late. A page is finished when its handler ended without a failure it knows
    of, which includes the page of a back end that did not answer. Storing data and materialising a page set, each run without other handlers,
    report success exactly if everything was confirmed. Sizes and last pages of the sets survive a restart; the books of free pages do not.

  The lemmas in the sections on departures are executions of the model in which the code departs from its comments.

  \<^bold>\<open>Bounds and fuel\<close>

  \<open>getLogPageSize\<close> and the loop over the size classes shift a 64-bit counter, so 65 iterations decide whether
  they end; running out is the outcome \<open>Diverges\<close>. The loops of the hash table run over the slots, those of
  the heap have measures. \<open>roomy_state\<close> and \<open>fe_room\<close> bound the LRU tick by \<open>2 ^ 32\<close>, since the code erases
  queue entries by a tick truncated to 32 bits, and the number of anonymous pages by the 32-bit counter. The
  number of live objects of a thread is below \<open>2 ^ 32\<close> (\<open>al_room\<close>) and a request below 4 GiB (\<open>request_ok\<close>), since the
  counters and chunk sizes have 32 bits. The handle operations have two fuels, the depth of the recursive copy and of the
  recursive release; each level of them has an object of its own, so any fuel above the bytes the thread manages
  suffices (\<open>enough\<close>, \<open>managed_bytes\<close>), and with fewer than \<open>2 ^ 32\<close> of those bytes and local handles (\<open>fits\<close>) no count wraps around. \<open>same_type\<close>
  excludes that a handle changes the type it finds its old target by, which a failed assignment leaves behind. The page size is below \<open>2 ^ 32\<close>, where \<^verbatim>\<open>MIN_PAGE_SIZE << k\<close> does not overflow. \<open>MIN_PAGE_SIZE\<close> is a parameter
  of \<open>initialize\<close> (the build sets 1 MiB, the tests 8 bytes). The loop of a pipeline has fuel; any fuel above
  \<open>(records + pages) * 101 + 50\<close> suffices, since a tuple set is retried at most as often as its size can be halved, and the iteration counter is below
  \<^verbatim>\<open>INT_MAX\<close>; merging takes one step per page; tables have at most \<open>2 ^ 30\<close> slots, which the keys of a query (fewer than \<open>2 ^ 27\<close>) do not reach; the array of a table is smaller than 4 GiB, since its size is a 32-bit
  product in the code (the model takes the product of naturals). \<open>capacity_ok\<close> says two things: a tuple set of at most 50 rows, the initial size, passes the
  stages on an empty page, and the output of a tuple set of at most 100 rows, the largest size, can be written to an empty page. \<open>moves_fit\<close> says that a
  record of a table finds room in the doubled array; a doubling that fails halfway loses keys (\<open>Map_failed_doubling_loses_keys\<close>). \<open>ample\<close> is a merge with memory for everything.
  \<open>pages_below\<close> and \<open>room_in\<close> keep the page counter of a stored set from wrapping around; \<open>lenient\<close> is what a dereferenced \<^verbatim>\<open>end()\<close> does in
  \<open>getNextFreePage\<close>: undefined behaviour (shown by \<open>first_page_undefined\<close>) or the empty set it reads in practice. The transition system is stated for both readings, a
  handler with undefined behaviour taking no step; what is said about the outcome of storing and materialising takes the second.

  \<^bold>\<open>Not modelled\<close>

  The overlap of calls of the buffer manager inside their disk transfers (the lock is released there); logging
  and the debug front and back ends; the communicator and \<^verbatim>\<open>heapRequest\<close>; the bytes of objects (in the
  container theories whether an allocation succeeds is a parameter; in the allocator theories only the words the
  allocator itself uses are memory, in the handle theories those of handles and counts) and virtual tables: a class is
  known by its size and its handle members; strings; what executors compute (a function of the row) and when their memory runs out; the sources and sinks of
  joins and the pipelines that merge them; the bytes and the compression of stored pages; the catalog, the query compiler and optimizer, the execution server and the
  distributed storage, which turn requests of clients into requests to other servers.
\<close>

end
